(* ===== verification/Prelude.thy ===== *)
theory Prelude
  imports Main "HOL-Library.Word" "HOL-Library.Monad_Syntax"
begin

text \<open>
  Shared vocabulary of the development: the C library's block moves on blocks of
  cells, the collections of rewrite rules that the component theories fill, and generic facts
  on lists, options and words.

  A block of memory is a list of cells; a cell is \<open>None\<close> while it is uninitialised and
  \<open>Some x\<close> once the program has stored \<open>x\<close> in it.  A check that fails in the C code
  (an \<open>assert\<close>, an \<open>ABORT\<close>, \<open>memory_full\<close>) is the value \<open>None\<close> of the
  operation's result.
\<close>

type_synonym 'a cells = "'a option list"

named_theorems wf_intros \<open>well-formedness preservation rules\<close>

section \<open>Block moves\<close>

text \<open>\<open>memmove (mem + dst, mem + src, n)\<close>: the source is read before the target is written.\<close>

definition mem_move :: "'a list \<Rightarrow> nat \<Rightarrow> nat \<Rightarrow> nat \<Rightarrow> 'a list" where
  "mem_move mem dst src n = take dst mem @ take n (drop src mem) @ drop (dst + n) mem"

text \<open>\<open>memcpy (mem + dst, xs, length xs)\<close>.\<close>

definition mem_copy :: "'a list \<Rightarrow> nat \<Rightarrow> 'a list \<Rightarrow> 'a list" where
  "mem_copy mem dst xs = take dst mem @ xs @ drop (dst + length xs) mem"

text \<open>\<open>xrealloc\<close>: the old contents up to the smaller size, the rest uninitialised.\<close>

definition mem_realloc :: "'a cells \<Rightarrow> nat \<Rightarrow> 'a cells" where
  "mem_realloc mem n = take n mem @ replicate (n - length mem) None"

lemma length_mem_move [simp]:
  "dst + n \<le> length mem \<Longrightarrow> src + n \<le> length mem \<Longrightarrow> length (mem_move mem dst src n) = length mem"
  by (simp add: mem_move_def)

lemma length_mem_copy [simp]:
  "dst + length xs \<le> length mem \<Longrightarrow> length (mem_copy mem dst xs) = length mem"
  by (simp add: mem_copy_def)

lemma length_mem_realloc [simp]: "length (mem_realloc mem n) = n"
  by (simp add: mem_realloc_def)

lemma take_mem_realloc: "k \<le> length mem \<Longrightarrow> k \<le> n \<Longrightarrow> take k (mem_realloc mem n) = take k mem"
  by (simp add: mem_realloc_def min_def)

lemma mem_realloc_extend: "mem_realloc mem (length mem + k) = mem @ replicate k None"
  by (simp add: mem_realloc_def)

section \<open>Initialised cells\<close>

definition inited :: "'a cells \<Rightarrow> bool" where
  "inited cs \<longleftrightarrow> None \<notin> set cs"

lemma inited_simps [simp]:
  "inited []" "inited (Some x # cs) \<longleftrightarrow> inited cs" "\<not> inited (None # cs)"
  "inited (cs @ ds) \<longleftrightarrow> inited cs \<and> inited ds" "inited (map Some xs)"
  by (auto simp: inited_def)

lemma inited_conv: "inited cs \<longleftrightarrow> (\<exists>xs. cs = map Some xs)"
  by (auto simp: inited_def ex_map_conv) (metis not_None_eq)

lemma inited_take [intro]: "inited cs \<Longrightarrow> inited (take n cs)"
  by (meson inited_def in_set_takeD)

lemma inited_drop [intro]: "inited cs \<Longrightarrow> inited (drop n cs)"
  by (meson inited_def in_set_dropD)

lemma inited_nth: "inited cs \<Longrightarrow> i < length cs \<Longrightarrow> cs ! i = Some (map the cs ! i)"
  by (cases "cs ! i") (auto simp: inited_def dest: nth_mem)

lemma inited_map_Some: "inited cs \<Longrightarrow> map Some (map the cs) = cs"
  by (auto simp: inited_conv)

lemma inited_update [intro]: "inited cs \<Longrightarrow> inited (cs[i := Some x])"
  unfolding inited_def using set_update_subset_insert by fastforce

lemma the_map_Some [simp]: "map (the \<circ> Some) xs = xs" "map (\<lambda>x. the (Some x)) xs = xs"
  by (simp_all add: comp_def)

section \<open>Lists\<close>

text \<open>Insertion and deletion of a block of a sequence: the contract of every array-like type.\<close>

definition list_insert :: "'a list \<Rightarrow> nat \<Rightarrow> 'a list \<Rightarrow> 'a list" where
  "list_insert xs pos ys = take pos xs @ ys @ drop pos xs"

definition list_delete :: "'a list \<Rightarrow> nat \<Rightarrow> nat \<Rightarrow> 'a list" where
  "list_delete xs pos n = take pos xs @ drop (pos + n) xs"

lemma length_list_insert [simp]: "length (list_insert xs pos ys) = length xs + length ys"
  by (simp add: list_insert_def)

lemma length_list_delete [simp]: "pos + n \<le> length xs \<Longrightarrow> length (list_delete xs pos n) = length xs - n"
  by (simp add: list_delete_def)

lemma list_delete_insert:
  "pos \<le> length xs \<Longrightarrow> list_delete (list_insert xs pos ys) pos (length ys) = xs"
  by (simp add: list_delete_def list_insert_def)

lemma list_insert_nth:
  "pos \<le> length xs \<Longrightarrow> i < length xs + length ys \<Longrightarrow>
   list_insert xs pos ys ! i =
     (if i < pos then xs ! i else if i < pos + length ys then ys ! (i - pos) else xs ! (i - length ys))"
  by (auto simp: list_insert_def nth_append min_def)

lemma list_insert_end [simp]: "list_insert xs (length xs) ys = xs @ ys"
  by (simp add: list_insert_def)

lemma list_delete_all [simp]: "list_delete xs 0 (length xs) = []"
  by (simp add: list_delete_def)

lemma map_list_insert: "map f (list_insert xs pos ys) = list_insert (map f xs) pos (map f ys)"
  by (simp add: list_insert_def take_map drop_map)

lemma map_list_delete: "map f (list_delete xs pos n) = list_delete (map f xs) pos n"
  by (simp add: list_delete_def take_map drop_map)

lemma set_list_insert [simp]: "set (list_insert xs pos ys) = set xs \<union> set ys"
proof -
  have "set xs = set (take pos xs) \<union> set (drop pos xs)"
    by (metis append_take_drop_id set_append)
  then show ?thesis by (auto simp: list_insert_def)
qed

lemma drop_take_split:
  assumes "j \<le> k"
  shows "drop j xs = drop j (take k xs) @ drop k xs"
proof -
  have "drop j xs = drop j (take k xs @ drop k xs)" by simp
  also have "\<dots> = drop j (take k xs) @ drop k xs"
    using assms by (cases "k \<le> length xs") (simp_all add: drop_append del: append_take_drop_id)
  finally show ?thesis .
qed

section \<open>The interface of an editable sequence\<close>

text \<open>
  What the clients of a growable array rely on.  \<open>els\<close> is the abstract sequence, \<open>wf\<close> the
  representation invariant, and \<open>room s n\<close> says that \<open>n\<close> more elements can be allocated
  (otherwise the C code calls \<open>memory_full\<close>, which does not return).
\<close>

locale editable_seq =
  fixes els :: "'s \<Rightarrow> 'a list"
    and wf :: "'s \<Rightarrow> bool"
    and room :: "'s \<Rightarrow> nat \<Rightarrow> bool"
    and get :: "'s \<Rightarrow> nat \<Rightarrow> 'a option"
    and put :: "'s \<Rightarrow> nat \<Rightarrow> 'a \<Rightarrow> 's option"
    and ins :: "'s \<Rightarrow> nat \<Rightarrow> 'a list \<Rightarrow> 's option"
    and del :: "'s \<Rightarrow> nat \<Rightarrow> nat \<Rightarrow> 's option"
  assumes get_law: "wf s \<Longrightarrow> i < length (els s) \<Longrightarrow> get s i = Some (els s ! i)"
    and put_law: "wf s \<Longrightarrow> i < length (els s) \<Longrightarrow>
      \<exists>s'. put s i x = Some s' \<and> wf s' \<and> els s' = (els s)[i := x]"
    and ins_law: "wf s \<Longrightarrow> pos \<le> length (els s) \<Longrightarrow> room s (length xs) \<Longrightarrow>
      \<exists>s'. ins s pos xs = Some s' \<and> wf s' \<and> els s' = list_insert (els s) pos xs"
    and del_law: "wf s \<Longrightarrow> pos + n \<le> length (els s) \<Longrightarrow>
      \<exists>s'. del s pos n = Some s' \<and> wf s' \<and> els s' = list_delete (els s) pos n"
begin

lemma ins_get:
  assumes "wf s" "pos \<le> length (els s)" "room s (length xs)" "i < length xs"
  shows "ins s pos xs \<bind> (\<lambda>s'. get s' (pos + i)) = Some (xs ! i)"
proof -
  obtain s' where s': "ins s pos xs = Some s'" "wf s'" "els s' = list_insert (els s) pos xs"
    using ins_law assms(1-3) by blast
  then have "get s' (pos + i) = Some (list_insert (els s) pos xs ! (pos + i))"
    using get_law [of s' "pos + i"] assms by simp
  with s' assms show ?thesis by (simp add: list_insert_nth)
qed

lemma ins_del_id:
  assumes "wf s" "pos \<le> length (els s)" "room s (length xs)"
  shows "\<exists>s'. ins s pos xs \<bind> (\<lambda>s1. del s1 pos (length xs)) = Some s' \<and> wf s' \<and> els s' = els s"
proof -
  obtain s1 where s1: "ins s pos xs = Some s1" "wf s1" "els s1 = list_insert (els s) pos xs"
    using ins_law assms by blast
  moreover obtain s' where "del s1 pos (length xs) = Some s'" "wf s'"
      "els s' = list_delete (els s1) pos (length xs)"
    using del_law [of s1 pos "length xs"] s1 assms by auto
  ultimately show ?thesis using assms by (simp add: list_delete_insert)
qed

lemma put_get:
  assumes "wf s" "i < length (els s)" "j < length (els s)"
  shows "put s i x \<bind> (\<lambda>s'. get s' j) = Some (if j = i then x else els s ! j)"
proof -
  obtain s' where "put s i x = Some s'" "wf s'" "els s' = (els s)[i := x]"
    using put_law assms by blast
  with get_law [of s' j] assms show ?thesis by (simp add: nth_list_update)
qed

end

end
