(* ===== verification/Dynarr.thy ===== *)
theory Dynarr
  imports Prelude
begin

text \<open>
  Dynamic arrays: \<open>struct dynarr\<close> and its operations, from \<open>src/array.h\<close> (the inline
  functions and macros) and \<open>src/array.c\<close>.  The model is the build with
  \<open>ERROR_CHECK_DYNARR\<close>: every verification and assertion that fails makes the
  operation \<open>None\<close>.  An element is one cell, so byte offsets (index times
  \<open>elsize_\<close>) are cell indices; the byte counts themselves are kept as 64-bit
  \<open>size_t\<close> values where the code checks them for overflow.  No array is in a dumped image.
\<close>

section \<open>Data\<close>

record 'a dynarr =
  dy_base :: "'a cells"
  dy_locked :: bool
  dy_elsize :: nat
  dy_len :: nat
  dy_largest :: nat
  dy_max :: nat

definition Dynarr_newf :: "nat \<Rightarrow> 'a dynarr" where
  "Dynarr_newf elsize =
     \<lparr>dy_base = [], dy_locked = False, dy_elsize = elsize, dy_len = 0, dy_largest = 0, dy_max = 0\<rparr>"

section \<open>Verification and locking\<close>

definition Dynarr_verify :: "'a dynarr \<Rightarrow> 'a dynarr option" where
  "Dynarr_verify dy = (if dy_len dy \<le> dy_largest dy \<and> dy_largest dy \<le> dy_max dy then Some dy else None)"

definition Dynarr_verify_mod :: "'a dynarr \<Rightarrow> 'a dynarr option" where
  "Dynarr_verify_mod dy = (if \<not> dy_locked dy then Dynarr_verify dy else None)"

definition Dynarr_lock :: "'a dynarr \<Rightarrow> 'a dynarr option" where
  "Dynarr_lock d = do { dy \<leftarrow> Dynarr_verify_mod d; Some (dy\<lparr>dy_locked := True\<rparr>) }"

definition Dynarr_unlock :: "'a dynarr \<Rightarrow> 'a dynarr option" where
  "Dynarr_unlock d = do {
     dy \<leftarrow> Dynarr_verify d;
     if dy_locked dy then Some (dy\<lparr>dy_locked := False\<rparr>) else None }"

definition Dynarr_verify_pos_at :: "'a dynarr \<Rightarrow> nat \<Rightarrow> nat option" where
  "Dynarr_verify_pos_at dy pos = (if pos < dy_largest dy then Some pos else None)"

definition Dynarr_verify_pos_atp :: "'a dynarr \<Rightarrow> nat \<Rightarrow> nat option" where
  "Dynarr_verify_pos_atp dy pos =
     (if pos = 0 \<and> dy_len dy = 0 then Some pos else if pos < dy_largest dy then Some pos else None)"

definition Dynarr_verify_pos_atp_allow_end :: "'a dynarr \<Rightarrow> nat \<Rightarrow> nat option" where
  "Dynarr_verify_pos_atp_allow_end dy pos = (if pos \<le> dy_largest dy then Some pos else None)"

text \<open>\<open>Dynarr_at\<close> as a value: reading an uninitialised cell is \<open>None\<close> too.\<close>

definition Dynarr_at :: "'a dynarr \<Rightarrow> nat \<Rightarrow> 'a option" where
  "Dynarr_at d pos = do { p \<leftarrow> Dynarr_verify_pos_at d pos; dy_base d ! p }"

text \<open>\<open>Dynarr_at\<close> as the target of an assignment.\<close>

definition Dynarr_store :: "'a dynarr \<Rightarrow> nat \<Rightarrow> 'a \<Rightarrow> 'a dynarr option" where
  "Dynarr_store d pos x = do {
     p \<leftarrow> Dynarr_verify_pos_at d pos; Some (d\<lparr>dy_base := (dy_base d)[p := Some x]\<rparr>) }"

section \<open>Sizes\<close>

definition Dynarr_min_size :: nat where "Dynarr_min_size = 8"

text \<open>The product of two sizes as C computes it in \<open>size_t\<close>, and the code's overflow test.\<close>

definition size_mul :: "nat \<Rightarrow> nat \<Rightarrow> 64 word" where
  "size_mul n elsize = of_nat n * of_nat elsize"

definition size_mul_overflows :: "nat \<Rightarrow> nat \<Rightarrow> bool" where
  "size_mul_overflows n elsize \<longleftrightarrow> size_mul n elsize div of_nat n \<noteq> of_nat elsize"

text \<open>
  The assertion \<open>(Bytecount) bcount >= 0\<close>: the count, read as a signed number of bytes, is not negative.
  Arrays from a dump file (\<open>DUMPEDP\<close>) are left out.
\<close>

definition assert_bytecount :: "64 word \<Rightarrow> unit option" where
  "assert_bytecount bcount = (if 0 \<le> sint bcount then Some () else None)"

definition Dynarr_realloc :: "'a dynarr \<Rightarrow> nat \<Rightarrow> 'a dynarr option" where
  "Dynarr_realloc dy new_size =
     (if size_mul_overflows new_size (dy_elsize dy) then None
      else if assert_bytecount (size_mul new_size (dy_elsize dy)) = None then None
      else Some (dy\<lparr>dy_base := mem_realloc (dy_base dy) new_size\<rparr>))"

text \<open>
  The growth loop of \<open>Dynarr_resize\<close>.  The multiplier is chosen once, from the wanted at
  entry; the product with 1.5 is computed in \<open>double\<close> and truncated, which is
  \<open>3 * n div 2\<close> for every wanted below \<open>2^52\<close>.
\<close>

function Dynarr_grow :: "bool \<Rightarrow> nat \<Rightarrow> nat \<Rightarrow> nat" where
  "Dynarr_grow doubling newsize wanted =
     (if newsize < wanted
      then Dynarr_grow doubling
             (max Dynarr_min_size (if doubling then 2 * newsize else 3 * newsize div 2)) wanted
      else newsize)"
  by pat_completeness auto
termination
  by (relation "measure (\<lambda>(d, n, s). s - n)") (auto simp: Dynarr_min_size_def max_def)

declare Dynarr_grow.simps [simp del]

definition Dynarr_resize :: "'a dynarr \<Rightarrow> nat \<Rightarrow> 'a dynarr option" where
  "Dynarr_resize d wanted = do {
     dy \<leftarrow> Dynarr_verify d;
     let newsize = Dynarr_grow (dy_max dy \<le> 8) (dy_max dy) wanted;
     if newsize > dy_max dy
     then do { dy \<leftarrow> Dynarr_realloc dy newsize; Some (dy\<lparr>dy_max := newsize\<rparr>) }
     else Some dy }"

definition Dynarr_set_length_1 :: "'a dynarr \<Rightarrow> nat \<Rightarrow> 'a dynarr option" where
  "Dynarr_set_length_1 d len = do {
     dy \<leftarrow> Dynarr_verify_mod d;
     if len \<le> dy_max dy
     then Dynarr_verify_mod (dy\<lparr>dy_len := len, dy_largest := max (dy_largest dy) len\<rparr>)
     else None }"

definition Dynarr_set_lengthr :: "'a dynarr \<Rightarrow> nat \<Rightarrow> 'a dynarr option" where
  "Dynarr_set_lengthr d len = do {
     dy \<leftarrow> Dynarr_verify_mod d;
     if len \<le> dy_largest dy then Dynarr_set_length_1 dy len else None }"

definition Dynarr_resize_to_fit :: "'a dynarr \<Rightarrow> nat \<Rightarrow> 'a dynarr option" where
  "Dynarr_resize_to_fit d wanted = do {
     dy \<leftarrow> Dynarr_verify_mod d;
     if wanted > dy_max dy then Dynarr_resize dy wanted else Some dy }"

definition Dynarr_increase_length :: "'a dynarr \<Rightarrow> nat \<Rightarrow> 'a dynarr option" where
  "Dynarr_increase_length d len = do {
     dy \<leftarrow> Dynarr_verify_mod d;
     if dy_len dy \<le> len
     then do { dy \<leftarrow> Dynarr_resize_to_fit dy len; Dynarr_set_length_1 dy len }
     else None }"

definition Dynarr_set_length :: "'a dynarr \<Rightarrow> nat \<Rightarrow> 'a dynarr option" where
  "Dynarr_set_length d len = do {
     dy \<leftarrow> Dynarr_verify_mod d;
     if len \<le> dy_len dy then Dynarr_set_lengthr dy len else Dynarr_increase_length d len }"

text \<open>\<open>zero\<close> is the element whose representation is all zero bytes.\<close>

definition Dynarr_zero_many :: "'a \<Rightarrow> 'a dynarr \<Rightarrow> nat \<Rightarrow> nat \<Rightarrow> 'a dynarr option" where
  "Dynarr_zero_many zero d pos len = do {
     dy \<leftarrow> Dynarr_verify_mod d;
     Some (dy\<lparr>dy_base := mem_copy (dy_base dy) pos (replicate len (Some zero))\<rparr>) }"

definition Dynarr_increase_length_and_zero :: "'a \<Rightarrow> 'a dynarr \<Rightarrow> nat \<Rightarrow> 'a dynarr option" where
  "Dynarr_increase_length_and_zero zero d len = do {
     dy \<leftarrow> Dynarr_verify_mod d;
     dy' \<leftarrow> Dynarr_increase_length dy len;
     Dynarr_zero_many zero dy' (dy_len dy) (len - dy_len dy) }"

definition Dynarr_set_length_and_zero :: "'a \<Rightarrow> 'a dynarr \<Rightarrow> nat \<Rightarrow> 'a dynarr option" where
  "Dynarr_set_length_and_zero zero d len = do {
     dy \<leftarrow> Dynarr_verify_mod d;
     if len \<le> dy_len dy then Dynarr_set_lengthr dy len
     else Dynarr_increase_length_and_zero zero d len }"

definition Dynarr_reset :: "'a dynarr \<Rightarrow> 'a dynarr option" where
  "Dynarr_reset d = Dynarr_set_lengthr d 0"

section \<open>Adding and deleting elements\<close>

definition Dynarr_add :: "'a dynarr \<Rightarrow> 'a \<Rightarrow> 'a dynarr option" where
  "Dynarr_add d el = do {
     d \<leftarrow> Dynarr_verify_mod d;
     d' \<leftarrow> Dynarr_increase_length d (dy_len d + 1);
     Some (d'\<lparr>dy_base := (dy_base d')[dy_len d := Some el]\<rparr>) }"

definition Dynarr_set :: "'a \<Rightarrow> 'a dynarr \<Rightarrow> nat \<Rightarrow> 'a \<Rightarrow> 'a dynarr option" where
  "Dynarr_set zero d pos el = do {
     d \<leftarrow> Dynarr_verify_mod d;
     d \<leftarrow> (if dy_len d < pos + 1 then Dynarr_increase_length_and_zero zero d (pos + 1) else Some d);
     Some (d\<lparr>dy_base := (dy_base d)[pos := Some el]\<rparr>) }"

text \<open>The source elements are \<open>None\<close> for a null pointer: space is reserved, nothing is stored.\<close>

definition Dynarr_add_many :: "'a dynarr \<Rightarrow> 'a list option \<Rightarrow> nat \<Rightarrow> 'a dynarr option" where
  "Dynarr_add_many d src len = do {
     dy \<leftarrow> Dynarr_verify_mod d;
     dy' \<leftarrow> Dynarr_increase_length dy (dy_len dy + len);
     case src of
       None \<Rightarrow> Some dy'
     | Some xs \<Rightarrow> Some (dy'\<lparr>dy_base := mem_copy (dy_base dy') (dy_len dy) (map Some (take len xs))\<rparr>) }"

definition Dynarr_insert_many :: "'a dynarr \<Rightarrow> 'a list option \<Rightarrow> nat \<Rightarrow> nat \<Rightarrow> 'a dynarr option" where
  "Dynarr_insert_many d src len pos = do {
     dy \<leftarrow> Dynarr_verify_mod d;
     let old_len = dy_len dy;
     if pos \<le> old_len then do {
       dy \<leftarrow> Dynarr_increase_length dy (old_len + len);
       dy \<leftarrow> (if pos \<noteq> old_len then
                if size_mul_overflows (old_len - pos) (dy_elsize dy) then None
                else Some (dy\<lparr>dy_base := mem_move (dy_base dy) (pos + len) pos (old_len - pos)\<rparr>)
              else Some dy);
       case src of
         None \<Rightarrow> Some dy
       | Some xs \<Rightarrow> do {
           _ \<leftarrow> assert_bytecount (size_mul len (dy_elsize dy));
           Some (dy\<lparr>dy_base := mem_copy (dy_base dy) pos (map Some (take len xs))\<rparr>) } }
     else None }"

definition Dynarr_delete_many :: "'a dynarr \<Rightarrow> nat \<Rightarrow> nat \<Rightarrow> 'a dynarr option" where
  "Dynarr_delete_many d pos len = do {
     dy \<leftarrow> Dynarr_verify_mod d;
     if pos + len \<le> dy_len dy then
       Dynarr_set_length_1
         (if dy_len dy - pos - len \<noteq> 0
          then dy\<lparr>dy_base := mem_move (dy_base dy) pos (pos + len) (dy_len dy - pos - len)\<rparr> else dy)
         (dy_len dy - len)
     else None }"

definition Dynarr_pop :: "'a dynarr \<Rightarrow> ('a \<times> 'a dynarr) option" where
  "Dynarr_pop d = do {
     d \<leftarrow> Dynarr_verify_mod d;
     if dy_len d > 0 then do {
       let d = d\<lparr>dy_len := dy_len d - 1\<rparr>;
       x \<leftarrow> Dynarr_at d (dy_len d);
       Some (x, d) }
     else None }"

text \<open>The loop of \<open>Dynarr_delete_object\<close>, from index \<open>i - 1\<close> down to 0.\<close>

fun Dynarr_delete_object_from :: "'a dynarr \<Rightarrow> 'a \<Rightarrow> nat \<Rightarrow> 'a dynarr option" where
  "Dynarr_delete_object_from d el 0 = Some d"
| "Dynarr_delete_object_from d el (Suc i) = do {
     x \<leftarrow> Dynarr_at d i;
     d \<leftarrow> (if el = x then Dynarr_delete_many d i 1 else Some d);
     Dynarr_delete_object_from d el i }"

definition Dynarr_delete_object :: "'a dynarr \<Rightarrow> 'a \<Rightarrow> 'a dynarr option" where
  "Dynarr_delete_object d el = do {
     d \<leftarrow> Dynarr_verify d; Dynarr_delete_object_from d el (dy_len d) }"


section \<open>Invariant and abstraction\<close>

text \<open>A count that a \<open>Bytecount\<close>, a signed 64-bit number, holds.\<close>

definition fits_size :: "nat \<Rightarrow> bool" where
  "fits_size n \<longleftrightarrow> n < 2 ^ 63"

lemma fits_size_mono: "fits_size n \<Longrightarrow> m \<le> n \<Longrightarrow> fits_size m"
  by (simp add: fits_size_def)

definition dy_wf :: "'a dynarr \<Rightarrow> bool" where
  "dy_wf d \<longleftrightarrow> \<not> dy_locked d \<and> dy_len d \<le> dy_largest d \<and> dy_largest d \<le> dy_max d \<and>
     length (dy_base d) = dy_max d \<and> inited (take (dy_len d) (dy_base d)) \<and>
     0 < dy_elsize d \<and> fits_size (dy_elsize d) \<and> fits_size (dy_max d * dy_elsize d)"

definition dy_els :: "'a dynarr \<Rightarrow> 'a list" where
  "dy_els d = map the (take (dy_len d) (dy_base d))"

text \<open>Enough address space for \<open>n\<close> more elements, after rounding up by the growth loop.\<close>

definition dy_room :: "'a dynarr \<Rightarrow> nat \<Rightarrow> bool" where
  "dy_room d n \<longleftrightarrow>
     fits_size (Dynarr_grow (dy_max d \<le> 8) (dy_max d) (dy_len d + n) * dy_elsize d)"

lemma dy_wf_newf: "0 < e \<Longrightarrow> fits_size e \<Longrightarrow> dy_wf (Dynarr_newf e)" "dy_els (Dynarr_newf e) = []"
  by (simp_all add: dy_wf_def Dynarr_newf_def dy_els_def fits_size_def)

lemma length_dy_els [simp]: "dy_wf d \<Longrightarrow> length (dy_els d) = dy_len d"
  by (simp add: dy_wf_def dy_els_def)

lemma dy_wf_verify:
  "dy_wf d \<Longrightarrow> Dynarr_verify d = Some d" "dy_wf d \<Longrightarrow> Dynarr_verify_mod d = Some d"
  by (simp_all add: dy_wf_def Dynarr_verify_def Dynarr_verify_mod_def)

lemma dy_cells: "dy_wf d \<Longrightarrow> take (dy_len d) (dy_base d) = map Some (dy_els d)"
  by (simp add: dy_wf_def dy_els_def inited_map_Some del: map_map)

lemma dy_wfD:
  assumes "dy_wf d"
  shows "\<not> dy_locked d" "dy_len d \<le> dy_largest d" "dy_largest d \<le> dy_max d" "dy_len d \<le> dy_max d"
    "length (dy_base d) = dy_max d" "0 < dy_elsize d" "fits_size (dy_elsize d)"
    "fits_size (dy_max d * dy_elsize d)"
  using assms by (simp_all add: dy_wf_def)

section \<open>Facts on sizes\<close>

lemma size_mul_overflows_iff:
  assumes "0 < n" "n < 2 ^ 64" "e < 2 ^ 64"
  shows "size_mul_overflows n e \<longleftrightarrow> 2 ^ 64 \<le> n * e"
proof -
  have n: "unat (of_nat n :: 64 word) = n" and e: "unat (of_nat e :: 64 word) = e"
    using assms by (simp_all add: unat_of_nat)
  have "size_mul_overflows n e \<longleftrightarrow> (n * e) mod 2 ^ 64 div n \<noteq> e"
    unfolding size_mul_overflows_def size_mul_def
    by (simp add: word_unat_eq_iff unat_div unat_mult_lem unat_word_ariths n e)
  also have "\<dots> \<longleftrightarrow> 2 ^ 64 \<le> n * e"
  proof
    assume "(n * e) mod 2 ^ 64 div n \<noteq> e"
    then show "2 ^ 64 \<le> n * e" using assms(1) by (metis mod_less nonzero_mult_div_cancel_left not_le not_less0)
  next
    assume "2 ^ 64 \<le> n * e"
    then have "(n * e) mod 2 ^ 64 < n * e"
      by (metis mod_less_divisor order_less_le_trans zero_less_numeral zero_less_power)
    then have "(n * e) mod 2 ^ 64 div n < e"
      using assms(1) by (simp add: div_less_iff_less_mult mult.commute)
    then show "(n * e) mod 2 ^ 64 div n \<noteq> e" by simp
  qed
  finally show ?thesis .
qed

lemma size_mul_fits:
  assumes "fits_size (n * e)" "0 < e" "fits_size e"
  shows "0 < n \<Longrightarrow> \<not> size_mul_overflows n e" "assert_bytecount (size_mul n e) = Some ()"
proof -
  have "n \<le> n * e" using assms(2) by simp
  then have "n < 2 ^ 63" "n * e < 2 ^ 63" "e < 2 ^ 63" using assms(1,3) unfolding fits_size_def by linarith+
  then show "0 < n \<Longrightarrow> \<not> size_mul_overflows n e" by (subst size_mul_overflows_iff) simp_all
  have "sint (of_nat m :: 64 word) = int m" if "m < 2 ^ 63" for m :: nat
  proof -
    have "signed_take_bit 63 (int m) = int m" by (rule signed_take_bit_int_eq_self) (use that in simp_all)
    then show ?thesis by (simp add: signed_of_nat)
  qed
  from this [OF \<open>n * e < 2 ^ 63\<close>] have "sint (of_nat (n * e) :: 64 word) = int (n * e)" .
  then show "assert_bytecount (size_mul n e) = Some ()" by (simp add: assert_bytecount_def size_mul_def)
qed

lemma Dynarr_grow_ge: "n \<le> Dynarr_grow d n s \<and> s \<le> Dynarr_grow d n s"
proof (induction d n s rule: Dynarr_grow.induct)
  case (1 d n s)
  then show ?case
    by (cases "n < s") (auto simp: Dynarr_grow.simps [of d n s] Dynarr_min_size_def max_def
        split: if_splits)
qed

lemma Dynarr_grow_id: "s \<le> n \<Longrightarrow> Dynarr_grow d n s = n"
  by (simp add: Dynarr_grow.simps [of d n s])

lemma Dynarr_grow_le: "n < s \<Longrightarrow> Dynarr_grow d n s \<le> max Dynarr_min_size (2 * s)"
proof (induction d n s rule: Dynarr_grow.induct)
  case (1 d n s)
  let ?n = "max Dynarr_min_size (if d then 2 * n else 3 * n div 2)"
  have eq: "Dynarr_grow d n s = Dynarr_grow d ?n s"
    using "1.prems" by (subst Dynarr_grow.simps) simp
  show ?case
  proof (cases "?n < s")
    case True
    with 1 eq show ?thesis by simp
  next
    case False
    then have "Dynarr_grow d ?n s = ?n" by (intro Dynarr_grow_id) (simp only: not_less)
    moreover have "?n \<le> max Dynarr_min_size (2 * s)" using "1.prems" by auto
    ultimately show ?thesis using eq by simp
  qed
qed

section \<open>What the operations do\<close>

lemma Dynarr_resize_ok:
  assumes wf: "dy_wf d" and room: "fits_size (Dynarr_grow (dy_max d \<le> 8) (dy_max d) n * dy_elsize d)"
  shows "\<exists>d'. Dynarr_resize d n = Some d' \<and> dy_wf d' \<and> n \<le> dy_max d' \<and>
           dy_els d' = dy_els d \<and> dy_len d' = dy_len d \<and> dy_elsize d' = dy_elsize d"
proof -
  let ?m = "Dynarr_grow (dy_max d \<le> 8) (dy_max d) n"
  have ge: "dy_max d \<le> ?m" "n \<le> ?m" using Dynarr_grow_ge by blast+
  show ?thesis
  proof (cases "dy_max d < ?m")
    case False
    with ge wf show ?thesis by (auto simp: Dynarr_resize_def dy_wf_verify)
  next
    case True
    have e: "0 < dy_elsize d" "fits_size (dy_elsize d)" using wf by (auto simp: dy_wf_def)
    have m: "\<not> size_mul_overflows ?m (dy_elsize d)" "assert_bytecount (size_mul ?m (dy_elsize d)) = Some ()"
      using size_mul_fits [OF room e] True by auto
    with True wf ge room show ?thesis
      by (auto simp: Dynarr_resize_def dy_wf_verify [OF wf] Let_def Dynarr_realloc_def dy_wf_def
          dy_els_def take_mem_realloc)
  qed
qed

lemma Dynarr_set_length_1_eq:
  "dy_wf d \<Longrightarrow> len \<le> dy_max d \<Longrightarrow>
   Dynarr_set_length_1 d len = Some (d\<lparr>dy_len := len, dy_largest := max (dy_largest d) len\<rparr>)"
  by (simp add: Dynarr_set_length_1_def Dynarr_verify_mod_def Dynarr_verify_def dy_wf_def)

lemma Dynarr_increase_length_ok:
  assumes wf: "dy_wf d" and room: "dy_room d k"
  shows "\<exists>d'. Dynarr_increase_length d (dy_len d + k) = Some d' \<and> \<not> dy_locked d' \<and>
           dy_len d' = dy_len d + k \<and> dy_len d' \<le> dy_largest d' \<and> dy_largest d' \<le> dy_max d' \<and>
           length (dy_base d') = dy_max d' \<and> take (dy_len d) (dy_base d') = map Some (dy_els d) \<and>
           dy_elsize d' = dy_elsize d \<and> fits_size (dy_max d' * dy_elsize d)"
proof -
  have "\<exists>d1. Dynarr_resize_to_fit d (dy_len d + k) = Some d1 \<and> dy_wf d1 \<and>
      dy_len d + k \<le> dy_max d1 \<and> dy_els d1 = dy_els d \<and> dy_len d1 = dy_len d \<and>
      dy_elsize d1 = dy_elsize d"
  proof (cases "dy_len d + k > dy_max d")
    case True
    with Dynarr_resize_ok [OF wf] room show ?thesis
      by (simp add: Dynarr_resize_to_fit_def dy_wf_verify [OF wf] dy_room_def)
  next
    case False
    with wf show ?thesis by (simp add: Dynarr_resize_to_fit_def dy_wf_verify [OF wf])
  qed
  then obtain d1 where d1: "Dynarr_resize_to_fit d (dy_len d + k) = Some d1" "dy_wf d1"
      "dy_len d + k \<le> dy_max d1" "dy_els d1 = dy_els d" "dy_len d1 = dy_len d" "dy_elsize d1 = dy_elsize d"
    by blast
  let ?d = "d1\<lparr>dy_len := dy_len d + k, dy_largest := max (dy_largest d1) (dy_len d + k)\<rparr>"
  have inv: "\<not> dy_locked d1" "dy_largest d1 \<le> dy_max d1" "length (dy_base d1) = dy_max d1"
      "fits_size (dy_max d1 * dy_elsize d)"
    using d1(2,6) by (auto simp: dy_wf_def)
  have "Dynarr_increase_length d (dy_len d + k) = Some ?d"
    using d1 by (simp add: Dynarr_increase_length_def dy_wf_verify [OF wf] Dynarr_set_length_1_eq)
  then show ?thesis
    using inv d1(3-6) dy_cells [OF d1(2)] by auto
qed

text \<open>The cells after an increase of the length: the old elements, then \<open>k\<close> cells of any content.\<close>

lemma Dynarr_increase_length_split:
  assumes wf: "dy_wf d" and room: "dy_room d k"
  obtains d' g r where "Dynarr_increase_length d (dy_len d + k) = Some d'" "\<not> dy_locked d'"
    "dy_len d' = dy_len d + k" "dy_len d' \<le> dy_largest d'" "dy_largest d' \<le> dy_max d'"
    "dy_base d' = map Some (dy_els d) @ g @ r" "length g = k" "length r + dy_len d' = dy_max d'"
    "dy_elsize d' = dy_elsize d" "fits_size (dy_max d' * dy_elsize d)"
proof -
  obtain d' where d': "Dynarr_increase_length d (dy_len d + k) = Some d'" "\<not> dy_locked d'"
      "dy_len d' = dy_len d + k" "dy_len d' \<le> dy_largest d'" "dy_largest d' \<le> dy_max d'"
      "length (dy_base d') = dy_max d'" "take (dy_len d) (dy_base d') = map Some (dy_els d)"
      "dy_elsize d' = dy_elsize d" "fits_size (dy_max d' * dy_elsize d)"
    using Dynarr_increase_length_ok [OF assms] by blast
  have "dy_base d' = map Some (dy_els d) @ take k (drop (dy_len d) (dy_base d')) @ drop (dy_len d + k) (dy_base d')"
    by (metis append_take_drop_id d'(7) drop_drop add.commute)
  moreover have "length (take k (drop (dy_len d) (dy_base d'))) = k"
    "length (drop (dy_len d + k) (dy_base d')) + dy_len d' = dy_max d'"
    using d' by auto
  ultimately show ?thesis using that d' by blast
qed

text \<open>A block that consists of initialised cells up to its length is well formed.\<close>

lemma dy_wfI:
  assumes "dy_base d = map Some xs @ r" "length xs = dy_len d" "\<not> dy_locked d" "dy_len d \<le> dy_largest d"
    "dy_largest d \<le> dy_max d" "length r + dy_len d = dy_max d"
    "0 < dy_elsize d" "fits_size (dy_elsize d)" "fits_size (dy_max d * dy_elsize d)"
  shows "dy_wf d \<and> dy_els d = xs"
  using assms by (auto simp: dy_wf_def dy_els_def)

lemma dy_elsize_bounds: "dy_wf d \<Longrightarrow> 0 < dy_elsize d \<and> fits_size (dy_elsize d)"
  by (simp add: dy_wf_def)

lemma Dynarr_add_many_ok:
  assumes wf: "dy_wf d" and room: "dy_room d (length xs)"
  shows "\<exists>d'. Dynarr_add_many d (Some xs) (length xs) = Some d' \<and> dy_wf d' \<and> dy_els d' = dy_els d @ xs"
proof -
  from Dynarr_increase_length_split [OF assms] obtain d' g r where
    d': "Dynarr_increase_length d (dy_len d + length xs) = Some d'" "\<not> dy_locked d'"
      "dy_len d' = dy_len d + length xs" "dy_len d' \<le> dy_largest d'" "dy_largest d' \<le> dy_max d'"
    and b: "dy_base d' = map Some (dy_els d) @ g @ r" "length g = length xs"
      "length r + dy_len d' = dy_max d'"
    and e: "dy_elsize d' = dy_elsize d" "fits_size (dy_max d' * dy_elsize d)" .
  let ?d = "d'\<lparr>dy_base := map Some (dy_els d @ xs) @ r\<rparr>"
  have "mem_copy (dy_base d') (dy_len d) (map Some xs) = map Some (dy_els d @ xs) @ r"
    using b wf by (simp add: mem_copy_def)
  then have "Dynarr_add_many d (Some xs) (length xs) = Some ?d"
    using d' by (simp add: Dynarr_add_many_def dy_wf_verify [OF wf])
  moreover have "dy_wf ?d \<and> dy_els ?d = dy_els d @ xs"
    using d' b e dy_elsize_bounds [OF wf] wf by (intro dy_wfI [where r = r]) auto
  ultimately show ?thesis by blast
qed

lemma Dynarr_insert_many_ok:
  assumes wf: "dy_wf d" and pos: "pos \<le> length (dy_els d)" and room: "dy_room d (length xs)"
  shows "\<exists>d'. Dynarr_insert_many d (Some xs) (length xs) pos = Some d' \<and> dy_wf d' \<and>
           dy_els d' = list_insert (dy_els d) pos xs"
proof -
  from Dynarr_increase_length_split [OF wf room] obtain d' g r where
    d': "Dynarr_increase_length d (dy_len d + length xs) = Some d'" "\<not> dy_locked d'"
      "dy_len d' = dy_len d + length xs" "dy_len d' \<le> dy_largest d'" "dy_largest d' \<le> dy_max d'"
    and b: "dy_base d' = map Some (dy_els d) @ g @ r" "length g = length xs"
      "length r + dy_len d' = dy_max d'"
    and e: "dy_elsize d' = dy_elsize d" "fits_size (dy_max d' * dy_elsize d)" .
  have p: "pos \<le> dy_len d" using pos wf by simp
  let ?d = "d'\<lparr>dy_base := map Some (list_insert (dy_els d) pos xs) @ r\<rparr>"
  have "\<not> size_mul_overflows (dy_len d - pos) (dy_elsize d')" if "pos \<noteq> dy_len d"
  proof -
    have "(dy_len d - pos) * dy_elsize d \<le> dy_max d' * dy_elsize d"
      using d' by (intro mult_le_mono1) linarith
    with e(2) have "fits_size ((dy_len d - pos) * dy_elsize d)" by (rule fits_size_mono)
    then show ?thesis using that p e(1) dy_elsize_bounds [OF wf] by (intro size_mul_fits(1)) auto
  qed
  moreover have "assert_bytecount (size_mul (length xs) (dy_elsize d')) = Some ()"
  proof (rule size_mul_fits(2))
    have "length xs * dy_elsize d' \<le> dy_max d' * dy_elsize d" using d' e(1) by (intro mult_le_mono) linarith+
    with e(2) show "fits_size (length xs * dy_elsize d')" by (rule fits_size_mono)
  qed (use e(1) dy_elsize_bounds [OF wf] in simp_all)
  moreover have "mem_copy (if pos \<noteq> dy_len d
        then mem_move (dy_base d') (pos + length xs) pos (dy_len d - pos) else dy_base d') pos (map Some xs)
      = map Some (list_insert (dy_els d) pos xs) @ r"
    using b wf p by (auto simp: mem_copy_def mem_move_def list_insert_def take_map drop_map min_def)
  ultimately have "Dynarr_insert_many d (Some xs) (length xs) pos = Some ?d"
    using d' p by (auto simp: Dynarr_insert_many_def dy_wf_verify [OF wf] Let_def)
  moreover have "dy_wf ?d \<and> dy_els ?d = list_insert (dy_els d) pos xs"
    using d' b e dy_elsize_bounds [OF wf] wf by (intro dy_wfI [where r = r]) auto
  ultimately show ?thesis by blast
qed

lemma dy_base_split:
  assumes "dy_wf d"
  shows "\<exists>r. dy_base d = map Some (dy_els d) @ r \<and> length r + dy_len d = dy_max d"
proof -
  have "dy_base d = map Some (dy_els d) @ drop (dy_len d) (dy_base d)"
    by (metis append_take_drop_id assms dy_cells)
  moreover have "length (drop (dy_len d) (dy_base d)) + dy_len d = dy_max d"
    using assms by (auto simp: dy_wf_def)
  ultimately show ?thesis by blast
qed

lemma Dynarr_delete_many_ok:
  assumes wf: "dy_wf d" and pos: "pos + n \<le> length (dy_els d)"
  shows "\<exists>d'. Dynarr_delete_many d pos n = Some d' \<and> dy_wf d' \<and>
           dy_els d' = list_delete (dy_els d) pos n"
proof -
  have p: "pos + n \<le> dy_len d" using pos wf by simp
  obtain r where r: "dy_base d = map Some (dy_els d) @ r" "length r + dy_len d = dy_max d"
    using dy_base_split [OF wf] by blast
  let ?mv = "if dy_len d - pos - n \<noteq> 0
          then d\<lparr>dy_base := mem_move (dy_base d) pos (pos + n) (dy_len d - pos - n)\<rparr> else d"
  let ?r = "drop (dy_len d - n) (dy_base ?mv)"
  have cells: "take (dy_len d - n) (dy_base ?mv) = map Some (list_delete (dy_els d) pos n)"
    using r p wf by (auto simp: mem_move_def list_delete_def take_map drop_map min_def)
  have len: "length (dy_base ?mv) = dy_max d"
    using p dy_wfD [OF wf] by simp
  let ?d = "?mv\<lparr>dy_len := dy_len d - n, dy_largest := max (dy_largest d) (dy_len d - n)\<rparr>"
  have wf_mv: "\<not> dy_locked ?mv" "dy_len ?mv \<le> dy_largest ?mv" "dy_largest ?mv \<le> dy_max ?mv"
      "dy_max ?mv = dy_max d" "dy_largest ?mv = dy_largest d" "dy_len d \<le> dy_largest d"
    using wf by (auto simp: dy_wf_def)
  have "Dynarr_set_length_1 ?mv (dy_len d - n) = Some ?d"
    using wf_mv by (auto simp: Dynarr_set_length_1_def Dynarr_verify_mod_def Dynarr_verify_def)
  then have "Dynarr_delete_many d pos n = Some ?d"
    using p by (simp add: Dynarr_delete_many_def dy_wf_verify [OF wf])
  moreover have "dy_wf ?d \<and> dy_els ?d = list_delete (dy_els d) pos n"
  proof (rule dy_wfI [where r = ?r])
    show "dy_base ?d = map Some (list_delete (dy_els d) pos n) @ ?r"
      unfolding cells [symmetric] by simp
    show "length ?r + dy_len ?d = dy_max ?d" using len p wf_mv by simp
    show "length (list_delete (dy_els d) pos n) = dy_len ?d" using p wf by simp
  qed (use wf wf_mv dy_elsize_bounds [OF wf] in \<open>auto simp: dy_wf_def\<close>)
  ultimately show ?thesis by blast
qed

lemma Dynarr_at_ok:
  assumes wf: "dy_wf d" and i: "i < length (dy_els d)"
  shows "Dynarr_at d i = Some (dy_els d ! i)"
proof -
  obtain r where "dy_base d = map Some (dy_els d) @ r" using dy_base_split [OF wf] by blast
  then have "dy_base d ! i = Some (dy_els d ! i)" using i by (simp add: nth_append)
  moreover have "i < dy_largest d" using assms by (auto simp: dy_wf_def)
  ultimately show ?thesis by (simp add: Dynarr_at_def Dynarr_verify_pos_at_def)
qed

lemma Dynarr_store_ok:
  assumes wf: "dy_wf d" and i: "i < length (dy_els d)"
  shows "\<exists>d'. Dynarr_store d i x = Some d' \<and> dy_wf d' \<and> dy_els d' = (dy_els d)[i := x]"
proof -
  let ?d = "d\<lparr>dy_base := (dy_base d)[i := Some x]\<rparr>"
  have "i < dy_largest d" using assms by (auto simp: dy_wf_def)
  then have "Dynarr_store d i x = Some ?d"
    by (simp add: Dynarr_store_def Dynarr_verify_pos_at_def)
  moreover obtain r where r: "dy_base d = map Some (dy_els d) @ r" "length r + dy_len d = dy_max d"
    using dy_base_split [OF wf] by blast
  have "dy_wf ?d \<and> dy_els ?d = (dy_els d)[i := x]"
  proof (rule dy_wfI [where r = r])
    show "dy_base ?d = map Some ((dy_els d)[i := x]) @ r"
      using r i by (simp add: map_update list_update_append)
  qed (use wf r dy_wfD [OF wf] in simp_all)
  ultimately show ?thesis by blast
qed

lemma Dynarr_add_ok:
  assumes wf: "dy_wf d" and room: "dy_room d 1"
  shows "\<exists>d'. Dynarr_add d x = Some d' \<and> dy_wf d' \<and> dy_els d' = dy_els d @ [x]"
proof -
  from Dynarr_increase_length_split [OF assms] obtain d' g r where
    d': "Dynarr_increase_length d (dy_len d + 1) = Some d'" "\<not> dy_locked d'"
      "dy_len d' = dy_len d + 1" "dy_len d' \<le> dy_largest d'" "dy_largest d' \<le> dy_max d'"
    and b: "dy_base d' = map Some (dy_els d) @ g @ r" "length g = 1" "length r + dy_len d' = dy_max d'"
    and e: "dy_elsize d' = dy_elsize d" "fits_size (dy_max d' * dy_elsize d)" .
  let ?d = "d'\<lparr>dy_base := (dy_base d')[dy_len d := Some x]\<rparr>"
  have "Dynarr_add d x = Some ?d"
    using d' by (simp add: Dynarr_add_def dy_wf_verify [OF wf])
  moreover have "dy_wf ?d \<and> dy_els ?d = dy_els d @ [x]"
  proof (rule dy_wfI [where r = r])
    show "dy_base ?d = map Some (dy_els d @ [x]) @ r"
      using b wf by (cases g) (simp_all add: list_update_append)
  qed (use d' b e dy_wfD [OF wf] wf in simp_all)
  ultimately show ?thesis by blast
qed

lemma Dynarr_pop_ok:
  assumes wf: "dy_wf d" and ne: "dy_els d \<noteq> []"
  shows "\<exists>d'. Dynarr_pop d = Some (last (dy_els d), d') \<and> dy_wf d' \<and> dy_els d' = butlast (dy_els d)"
proof -
  let ?d = "d\<lparr>dy_len := dy_len d - 1\<rparr>"
  have len: "0 < dy_len d" using assms by (metis length_dy_els length_greater_0_conv)
  obtain r where r: "dy_base d = map Some (dy_els d) @ r" "length r + dy_len d = dy_max d"
    using dy_base_split [OF wf] by blast
  have last: "dy_els d = butlast (dy_els d) @ [last (dy_els d)]" using ne by simp
  have "dy_base d ! (dy_len d - 1) = Some (last (dy_els d))"
    using r len ne wf by (simp add: nth_append last_conv_nth)
  then have "Dynarr_pop d = Some (last (dy_els d), ?d)"
    using len dy_wfD [OF wf]
    by (simp add: Dynarr_pop_def dy_wf_verify [OF wf] Dynarr_at_def Dynarr_verify_pos_at_def Let_def)
  moreover have "dy_wf ?d \<and> dy_els ?d = butlast (dy_els d)"
  proof (rule dy_wfI [where r = "Some (last (dy_els d)) # r"])
    show "dy_base ?d = map Some (butlast (dy_els d)) @ Some (last (dy_els d)) # r"
      using r(1) last by (metis append.assoc append_Cons append_Nil dynarr.select_convs(1)
          dynarr.surjective dynarr.update_convs(4) list.simps(8) list.simps(9) map_append)
  qed (use len r dy_wfD [OF wf] wf in simp_all)
  ultimately show ?thesis by blast
qed

text \<open>Deleting backwards from index \<open>i\<close> removes every occurrence among the first \<open>i\<close> elements.\<close>

lemma Dynarr_delete_object_from_ok:
  "dy_wf d \<Longrightarrow> i \<le> length (dy_els d) \<Longrightarrow>
   \<exists>d'. Dynarr_delete_object_from d el i = Some d' \<and> dy_wf d' \<and>
        dy_els d' = filter (\<lambda>x. x \<noteq> el) (take i (dy_els d)) @ drop i (dy_els d)"
proof (induction i arbitrary: d)
  case 0
  then show ?case by simp
next
  case (Suc i)
  have at: "Dynarr_at d i = Some (dy_els d ! i)" 
    using Dynarr_at_ok [OF Suc.prems(1), of i] Suc.prems(2) by linarith
  show ?case
  proof (cases "el = dy_els d ! i")
    case True
    obtain d1 where d1: "Dynarr_delete_many d i 1 = Some d1" "dy_wf d1"
        "dy_els d1 = list_delete (dy_els d) i 1"
      using Dynarr_delete_many_ok [OF Suc.prems(1), of i 1] Suc.prems(2) by auto
    then have els: "take i (dy_els d1) = take i (dy_els d)" "drop i (dy_els d1) = drop (Suc i) (dy_els d)"
      "i \<le> length (dy_els d1)"
      using Suc.prems(2) by (simp_all add: list_delete_def del: length_dy_els)
    from Suc.IH [OF d1(2) els(3)] True at d1(1) els Suc.prems(2) show ?thesis
      by (simp add: take_Suc_conv_app_nth del: length_dy_els)
  next
    case False
    from Suc.IH [OF Suc.prems(1)] Suc.prems(2) False at show ?thesis
      by (simp add: take_Suc_conv_app_nth Cons_nth_drop_Suc del: length_dy_els)
  qed
qed

lemma Dynarr_delete_object_ok:
  "dy_wf d \<Longrightarrow> \<exists>d'. Dynarr_delete_object d el = Some d' \<and> dy_wf d' \<and>
     dy_els d' = filter (\<lambda>x. x \<noteq> el) (dy_els d)"
  using Dynarr_delete_object_from_ok [of d "dy_len d" el]
  by (simp add: Dynarr_delete_object_def dy_wf_verify)

text \<open>Dynamic arrays provide the editable-sequence interface.\<close>

interpretation dy: editable_seq dy_els dy_wf dy_room Dynarr_at Dynarr_store
    "\<lambda>d pos xs. Dynarr_insert_many d (Some xs) (length xs) pos" Dynarr_delete_many
  by unfold_locales
    (fact Dynarr_at_ok Dynarr_store_ok Dynarr_insert_many_ok Dynarr_delete_many_ok)+

section \<open>Properties\<close>

text \<open>C36: inserting a block and deleting the same block again restores the sequence that the
  dynamic array holds, whatever memory the insertion had to allocate, and keeps the array's
  representation invariant.  The new array, as the growth loop rounds it up, must be smaller than the
  largest \<open>Bytecount\<close> (\<open>dy_room\<close>); then none of the assertions of the insertion and the deletion fails.\<close>

theorem dynarr_insert_delete_id:
  assumes "dy_wf d" "pos \<le> length (dy_els d)" "dy_room d (length xs)"
  shows "\<exists>d1 d2. Dynarr_insert_many d (Some xs) (length xs) pos = Some d1 \<and>
           dy_els d1 = take pos (dy_els d) @ xs @ drop pos (dy_els d) \<and>
           Dynarr_delete_many d1 pos (length xs) = Some d2 \<and> dy_wf d2 \<and> dy_els d2 = dy_els d"
  using dy.ins_law [OF assms] dy.ins_del_id [OF assms] by (auto simp: list_insert_def)

theorem dynarr_insert_delete_id_witness:
  "\<exists>d1 d2. Dynarr_insert_many (Dynarr_newf 4 :: nat dynarr) (Some [7, 9]) 2 0 = Some d1 \<and>
     Dynarr_delete_many d1 0 2 = Some d2 \<and> dy_wf d2 \<and> dy_els d2 = []"
proof -
  have h: "dy_wf (Dynarr_newf 4 :: nat dynarr)" "0 \<le> length (dy_els (Dynarr_newf 4 :: nat dynarr))"
    "dy_room (Dynarr_newf 4 :: nat dynarr) (length [7, 9 :: nat])"
    using dy_wf_newf [of 4]
    by (simp_all add: fits_size_def dy_room_def dy_els_def Dynarr_newf_def Dynarr_grow.simps Dynarr_min_size_def)
  show ?thesis using dynarr_insert_delete_id [OF h] by (auto simp: dy_wf_newf numeral_2_eq_2)
qed

text \<open>A resize to \<open>n\<close> elements of a well-formed array that has the address space succeeds,
  leaves the elements alone, and allocates at least \<open>n\<close> cells but at most twice as many
  (eight at least): the geometric growth the header promises.\<close>

theorem dynarr_resize_bounds:
  assumes "dy_wf d" "dy_max d < n" "fits_size (max 8 (2 * n) * dy_elsize d)"
  shows "\<exists>d'. Dynarr_resize d n = Some d' \<and> dy_els d' = dy_els d \<and>
           n \<le> dy_max d' \<and> dy_max d' \<le> max 8 (2 * n)"
proof -
  let ?m = "Dynarr_grow (dy_max d \<le> 8) (dy_max d) n"
  have m: "?m \<le> max 8 (2 * n)"
    using Dynarr_grow_le [OF assms(2)] by (simp add: Dynarr_min_size_def)
  then have "fits_size (?m * dy_elsize d)"
    by (intro fits_size_mono [OF assms(3)] mult_le_mono1)
  then obtain d' where d': "Dynarr_resize d n = Some d'" "n \<le> dy_max d'" "dy_els d' = dy_els d"
    using Dynarr_resize_ok [OF assms(1)] by blast
  moreover have "dy_max d' = ?m"
    using d'(1) assms(2) Dynarr_grow_ge [of "dy_max d" "dy_max d \<le> 8" n]
    by (auto simp: Dynarr_resize_def dy_wf_verify [OF assms(1)] Let_def Dynarr_realloc_def split: if_splits)
  ultimately show ?thesis using m by auto
qed

theorem dynarr_resize_bounds_witness:
  "\<exists>d'. Dynarr_resize (Dynarr_newf 4 :: nat dynarr) 20 = Some d' \<and> dy_els d' = [] \<and>
     20 \<le> dy_max d' \<and> dy_max d' \<le> 40"
proof -
  have h: "dy_wf (Dynarr_newf 4 :: nat dynarr)" "dy_max (Dynarr_newf 4 :: nat dynarr) < 20"
    "fits_size (max 8 (2 * 20) * dy_elsize (Dynarr_newf 4 :: nat dynarr))"
    using dy_wf_newf [of 4] by (simp_all add: fits_size_def Dynarr_newf_def)
  show ?thesis using dynarr_resize_bounds [OF h] by (simp add: dy_wf_newf)
qed

text \<open>Once locked, a dynamic array rejects every operation that would change it: each aborts
  instead of writing, and only an unlock makes it writable again.\<close>

theorem dynarr_lock_protects:
  assumes "dy_wf d"
  shows "\<exists>l. Dynarr_lock d = Some l \<and> dy_els l = dy_els d \<and>
           Dynarr_lock l = None \<and> Dynarr_add l x = None \<and> Dynarr_add_many l src n = None \<and>
           Dynarr_insert_many l src n pos = None \<and> Dynarr_delete_many l pos n = None \<and>
           Dynarr_pop l = None \<and> Dynarr_set_length l n = None \<and> Dynarr_reset l = None \<and>
           Dynarr_unlock l = Some d"
proof -
  let ?l = "d\<lparr>dy_locked := True\<rparr>"
  have "Dynarr_verify_mod ?l = None" by (simp add: Dynarr_verify_mod_def)
  moreover have "Dynarr_verify ?l = Some ?l" using assms by (simp add: Dynarr_verify_def dy_wf_def)
  moreover have "?l\<lparr>dy_locked := False\<rparr> = d" using assms by (simp add: dy_wf_def)
  ultimately show ?thesis
    by (intro exI [where x = ?l])
      (simp add: Dynarr_lock_def dy_wf_verify [OF assms] dy_els_def Dynarr_add_def Dynarr_add_many_def
        Dynarr_insert_many_def Dynarr_delete_many_def Dynarr_pop_def Dynarr_set_length_def
        Dynarr_reset_def Dynarr_set_lengthr_def Dynarr_unlock_def)
qed

theorem dynarr_lock_protects_witness:
  "\<exists>l. Dynarr_lock (Dynarr_newf 8 :: nat dynarr) = Some l \<and> Dynarr_add l 3 = None"
proof -
  have "dy_wf (Dynarr_newf 8 :: nat dynarr)" by (simp add: dy_wf_newf fits_size_def)
  from dynarr_lock_protects [OF this] show ?thesis by blast
qed

end
