(* ===== verification/Gap_Array.thy ===== *)
theory Gap_Array
  imports Prelude
begin

text \<open>
  Gap arrays: \<open>Gap_Array\<close>, its markers and its operations, from \<open>src/array.h\<close> and
  \<open>src/array.c\<close>, with the marker arithmetic \<open>do_marker_adjustment\<close> of
  \<open>src/insdel.c\<close> that gap arrays, buffers and extents share.  Memory positions count the
  gap, array positions do not.  A marker is an identity (the address of its node) and a memory
  position; a failing \<open>assert\<close> is \<open>None\<close>.
\<close>

section \<open>Data\<close>

record 'a gap_array =
  ga_gap :: nat
  ga_gapsize :: nat
  ga_numels :: nat
  ga_elsize :: nat
  ga_offset_past_gap :: nat
  ga_els_past_gap :: nat
  ga_markers :: "(nat \<times> int) list"
  ga_array :: "'a cells"

definition make_gap_array :: "nat \<Rightarrow> 'a gap_array" where
  "make_gap_array elsize =
     \<lparr>ga_gap = 0, ga_gapsize = 0, ga_numels = 0, ga_elsize = elsize, ga_offset_past_gap = 0,
      ga_els_past_gap = 0, ga_markers = [], ga_array = []\<rparr>"

text \<open>Conversions between array and memory positions.\<close>

definition GAP_ARRAY_ARRAY_TO_MEMORY_POS_1 :: "nat \<Rightarrow> nat \<Rightarrow> nat \<Rightarrow> nat" where
  "GAP_ARRAY_ARRAY_TO_MEMORY_POS_1 pos gappos gapsize = (if pos < gappos then pos else pos + gapsize)"

definition GAP_ARRAY_ARRAY_TO_MEMORY_POS :: "'a gap_array \<Rightarrow> nat \<Rightarrow> nat" where
  "GAP_ARRAY_ARRAY_TO_MEMORY_POS ga pos =
     GAP_ARRAY_ARRAY_TO_MEMORY_POS_1 pos (ga_gap ga) (ga_gapsize ga)"

definition GAP_ARRAY_MEMORY_TO_ARRAY_POS :: "'a gap_array \<Rightarrow> int \<Rightarrow> int" where
  "GAP_ARRAY_MEMORY_TO_ARRAY_POS ga pos =
     (if pos \<le> int (ga_gap ga) then pos else pos - int (ga_gapsize ga))"

text \<open>The element at an array position, and an assignment to it.\<close>

definition gap_array_at :: "'a gap_array \<Rightarrow> nat \<Rightarrow> 'a option" where
  "gap_array_at ga pos =
     (let m = GAP_ARRAY_ARRAY_TO_MEMORY_POS ga pos in
      if m < length (ga_array ga) then ga_array ga ! m else None)"

definition gap_array_store :: "'a gap_array \<Rightarrow> nat \<Rightarrow> 'a \<Rightarrow> 'a gap_array option" where
  "gap_array_store ga pos x =
     (let m = GAP_ARRAY_ARRAY_TO_MEMORY_POS ga pos in
      if m < length (ga_array ga) then Some (ga\<lparr>ga_array := (ga_array ga)[m := Some x]\<rparr>) else None)"

section \<open>Marker arithmetic\<close>

definition do_marker_adjustment :: "int \<Rightarrow> int \<Rightarrow> int \<Rightarrow> int \<Rightarrow> int" where
  "do_marker_adjustment mpos from till amount =
     (let mpos =
        (if amount > 0 then
           (if mpos > till \<and> mpos < till + amount then till + amount else mpos)
         else
           (if mpos > from + amount \<and> mpos \<le> from then from + amount else mpos))
      in if mpos > from \<and> mpos \<le> till then mpos + amount else mpos)"

definition gap_array_adjust_markers :: "'a gap_array \<Rightarrow> int \<Rightarrow> int \<Rightarrow> int \<Rightarrow> 'a gap_array" where
  "gap_array_adjust_markers ga from till amount =
     ga\<lparr>ga_markers := map (\<lambda>(m, p). (m, do_marker_adjustment p from till amount)) (ga_markers ga)\<rparr>"

definition gap_array_recompute_derived_values :: "'a gap_array \<Rightarrow> 'a gap_array" where
  "gap_array_recompute_derived_values ga =
     ga\<lparr>ga_offset_past_gap := ga_elsize ga * (ga_gap ga + ga_gapsize ga),
        ga_els_past_gap := ga_numels ga - ga_gap ga\<rparr>"

section \<open>Moving and growing the gap\<close>

definition gap_array_move_gap :: "'a gap_array \<Rightarrow> nat \<Rightarrow> 'a gap_array" where
  "gap_array_move_gap ga pos =
     (let gap = ga_gap ga; gapsize = ga_gapsize ga;
          ga = (if pos < gap then
                  gap_array_adjust_markers
                    (ga\<lparr>ga_array := mem_move (ga_array ga) (pos + gapsize) pos (gap - pos)\<rparr>)
                    (int pos) (int gap) (int gapsize)
                else if pos > gap then
                  gap_array_adjust_markers
                    (ga\<lparr>ga_array := mem_move (ga_array ga) gap (gap + gapsize) (pos - gap)\<rparr>)
                    (int (gap + gapsize)) (int (pos + gapsize)) (- int gapsize)
                else ga)
      in gap_array_recompute_derived_values (ga\<lparr>ga_gap := pos\<rparr>))"

definition gap_array_make_gap :: "'a gap_array \<Rightarrow> nat \<Rightarrow> 'a gap_array" where
  "gap_array_make_gap ga increment =
     (let increment = increment + (100 + ga_numels ga div 8);
          ga = ga\<lparr>ga_array := mem_realloc (ga_array ga) (ga_numels ga + ga_gapsize ga + increment)\<rparr>;
          real_gap_loc = ga_gap ga;
          old_gap_size = ga_gapsize ga;
          ga = ga\<lparr>ga_gap := ga_numels ga + ga_gapsize ga, ga_gapsize := increment\<rparr>;
          ga = gap_array_move_gap ga (real_gap_loc + old_gap_size);
          ga = ga\<lparr>ga_gapsize := ga_gapsize ga + old_gap_size, ga_gap := real_gap_loc\<rparr>
      in gap_array_recompute_derived_values ga)"

section \<open>Inserting and deleting\<close>

definition gap_array_insert_els :: "'a gap_array \<Rightarrow> nat \<Rightarrow> 'a list \<Rightarrow> 'a gap_array option" where
  "gap_array_insert_els ga pos els =
     (if pos \<le> ga_numels ga then
        let n = length els;
            ga = (if ga_gapsize ga < n then gap_array_make_gap ga (n - ga_gapsize ga) else ga);
            ga = (if pos \<noteq> ga_gap ga then gap_array_move_gap ga pos else ga);
            ga = ga\<lparr>ga_array := mem_copy (ga_array ga) (ga_gap ga) (map Some els)\<rparr>;
            ga = ga\<lparr>ga_gapsize := ga_gapsize ga - n, ga_gap := ga_gap ga + n,
                    ga_numels := ga_numels ga + n\<rparr>;
            ga = gap_array_recompute_derived_values ga
        in Some (gap_array_adjust_markers ga (int pos - 1) (int pos) (int n))
      else None)"

definition gap_array_delete_els :: "'a gap_array \<Rightarrow> nat \<Rightarrow> nat \<Rightarrow> 'a gap_array option" where
  "gap_array_delete_els ga from numdel =
     (let till = from + numdel; gapsize = ga_gapsize ga in
      if till \<le> ga_numels ga then
        let ga = (if till < ga_gap ga then gap_array_move_gap ga till else ga);
            ga = (if from > ga_gap ga then gap_array_move_gap ga from else ga);
            ga = gap_array_adjust_markers ga (int (till + gapsize)) (int (till + gapsize))
                   (- int numdel - int gapsize);
            ga = ga\<lparr>ga_gapsize := ga_gapsize ga + numdel, ga_numels := ga_numels ga - numdel,
                    ga_gap := from\<rparr>
        in Some (gap_array_recompute_derived_values ga)
      else None)"

definition gap_array_delete_all_els :: "'a gap_array \<Rightarrow> 'a gap_array option" where
  "gap_array_delete_all_els ga = gap_array_delete_els ga 0 (ga_numels ga)"

definition gap_array_byte_size :: "nat \<Rightarrow> 'a gap_array \<Rightarrow> nat" where
  \<comment> \<open>the first argument is \<open>offsetof (Gap_Array, array)\<close>, fixed by the compiler\<close>
  "gap_array_byte_size header ga = header + (ga_numels ga + ga_gapsize ga) * ga_elsize ga"

section \<open>Markers\<close>

text \<open>The allocator of marker nodes: the global free list, and the next address \<open>xnew\<close> returns.\<close>

record marker_pool =
  mp_freelist :: "nat list"
  mp_next :: nat

definition alloc_marker :: "marker_pool \<Rightarrow> nat \<times> marker_pool" where
  "alloc_marker mp =
     (case mp_freelist mp of
        m # rest \<Rightarrow> (m, mp\<lparr>mp_freelist := rest\<rparr>)
      | [] \<Rightarrow> (mp_next mp, mp\<lparr>mp_next := Suc (mp_next mp)\<rparr>))"

definition gap_array_make_marker ::
    "marker_pool \<Rightarrow> 'a gap_array \<Rightarrow> nat \<Rightarrow> (nat \<times> marker_pool \<times> 'a gap_array) option" where
  "gap_array_make_marker mp ga pos =
     (if pos \<le> ga_numels ga then
        let (m, mp) = alloc_marker mp in
        Some (m, mp, ga\<lparr>ga_markers := (m, int (GAP_ARRAY_ARRAY_TO_MEMORY_POS ga pos)) # ga_markers ga\<rparr>)
      else None)"

text \<open>The walk of \<open>gap_array_delete_marker\<close> to the node \<open>m\<close>, which it unlinks.\<close>

fun unlink_marker :: "(nat \<times> int) list \<Rightarrow> nat \<Rightarrow> (nat \<times> int) list option" where
  "unlink_marker [] m = None"
| "unlink_marker ((p, pos) # ms) m =
     (if p = m then Some ms else map_option (\<lambda>ms. (p, pos) # ms) (unlink_marker ms m))"

definition gap_array_delete_marker ::
    "marker_pool \<Rightarrow> 'a gap_array \<Rightarrow> nat \<Rightarrow> (marker_pool \<times> 'a gap_array) option" where
  "gap_array_delete_marker mp ga m =
     (case unlink_marker (ga_markers ga) m of
        None \<Rightarrow> None
      | Some ms \<Rightarrow> Some (mp\<lparr>mp_freelist := m # mp_freelist mp\<rparr>, ga\<lparr>ga_markers := ms\<rparr>))"

definition gap_array_move_marker :: "'a gap_array \<Rightarrow> nat \<Rightarrow> nat \<Rightarrow> 'a gap_array option" where
  "gap_array_move_marker ga m pos =
     (if pos \<le> ga_numels ga then
        Some (ga\<lparr>ga_markers := map (\<lambda>(k, p). (k, if k = m
                then int (GAP_ARRAY_ARRAY_TO_MEMORY_POS ga pos) else p)) (ga_markers ga)\<rparr>)
      else None)"

definition gap_array_marker_pos :: "'a gap_array \<Rightarrow> nat \<Rightarrow> int option" where
  "gap_array_marker_pos ga m = map_option (GAP_ARRAY_MEMORY_TO_ARRAY_POS ga) (map_of (ga_markers ga) m)"

text \<open>
  Every node goes to the free list; the array's own list pointer is left as it is, so the array
  must not be used again (\<open>free_gap_array\<close>, the only caller, frees it at once).
\<close>

definition gap_array_delete_all_markers :: "marker_pool \<Rightarrow> 'a gap_array \<Rightarrow> marker_pool" where
  "gap_array_delete_all_markers mp ga =
     mp\<lparr>mp_freelist := rev (map fst (ga_markers ga)) @ mp_freelist mp\<rparr>"

text \<open>
  A clone copies the memory block and then makes one marker for each marker of the original,
  passing the original's \<^emph>\<open>memory\<close> position to \<open>gap_array_make_marker\<close>.
\<close>

fun clone_markers ::
    "marker_pool \<Rightarrow> 'a gap_array \<Rightarrow> (nat \<times> int) list \<Rightarrow> (marker_pool \<times> 'a gap_array) option" where
  "clone_markers mp ga2 [] = Some (mp, ga2)"
| "clone_markers mp ga2 ((m, p) # ms) =
     (if 0 \<le> p then
        case gap_array_make_marker mp ga2 (nat p) of
          None \<Rightarrow> None
        | Some (_, mp, ga2) \<Rightarrow> clone_markers mp ga2 ms
      else None)"

definition gap_array_clone :: "marker_pool \<Rightarrow> 'a gap_array \<Rightarrow> (marker_pool \<times> 'a gap_array) option" where
  "gap_array_clone mp ga = clone_markers mp (ga\<lparr>ga_markers := []\<rparr>) (ga_markers ga)"

section \<open>Invariant and abstraction\<close>

text \<open>
  The memory block is the elements before the gap, the gap (any content), the elements after it.
  A marker never points inside the gap, only at one of its two ends.
\<close>

definition ga_layout :: "'a gap_array \<Rightarrow> 'a list \<Rightarrow> 'a cells \<Rightarrow> 'a list \<Rightarrow> bool" where
  "ga_layout ga L g R \<longleftrightarrow> ga_array ga = map Some L @ g @ map Some R \<and> ga_gap ga = length L \<and>
     ga_gapsize ga = length g \<and> ga_numels ga = length L + length R"

definition ga_derived :: "'a gap_array \<Rightarrow> bool" where
  "ga_derived ga \<longleftrightarrow> ga_offset_past_gap ga = ga_elsize ga * (ga_gap ga + ga_gapsize ga) \<and>
     ga_els_past_gap ga = ga_numels ga - ga_gap ga"

definition ga_marker_ok :: "'a gap_array \<Rightarrow> int \<Rightarrow> bool" where
  "ga_marker_ok ga p \<longleftrightarrow> (0 \<le> p \<and> p \<le> int (ga_gap ga)) \<or>
     (int (ga_gap ga + ga_gapsize ga) \<le> p \<and> p \<le> int (ga_numels ga + ga_gapsize ga))"

definition ga_wf :: "'a gap_array \<Rightarrow> bool" where
  "ga_wf ga \<longleftrightarrow> length (ga_array ga) = ga_numels ga + ga_gapsize ga \<and> ga_gap ga \<le> ga_numels ga \<and>
     inited (take (ga_gap ga) (ga_array ga)) \<and>
     inited (drop (ga_gap ga + ga_gapsize ga) (ga_array ga)) \<and>
     ga_derived ga \<and> (\<forall>(m, p) \<in> set (ga_markers ga). ga_marker_ok ga p)"

definition ga_els :: "'a gap_array \<Rightarrow> 'a list" where
  "ga_els ga = map the (take (ga_gap ga) (ga_array ga) @ drop (ga_gap ga + ga_gapsize ga) (ga_array ga))"

lemma ga_wf_layout:
  "ga_wf ga \<longleftrightarrow> (\<exists>L g R. ga_layout ga L g R) \<and> ga_derived ga \<and>
     (\<forall>(m, p) \<in> set (ga_markers ga). ga_marker_ok ga p)" (is "_ \<longleftrightarrow> ?rhs")
proof
  assume wf: "ga_wf ga"
  let ?a = "ga_array ga" and ?g = "ga_gap ga" and ?s = "ga_gapsize ga"
  obtain L R where L: "take ?g ?a = map Some L" and R: "drop (?g + ?s) ?a = map Some R"
    using wf unfolding ga_wf_def inited_conv by blast
  have "?a = take ?g ?a @ take ?s (drop ?g ?a) @ drop (?g + ?s) ?a"
    by (metis append_take_drop_id drop_drop add.commute)
  moreover have "length L = ?g" "length R + ?g = ga_numels ga" "length (take ?s (drop ?g ?a)) = ?s"
    using wf arg_cong [OF L, of length] arg_cong [OF R, of length] by (auto simp: ga_wf_def)
  ultimately have "ga_layout ga L (take ?s (drop ?g ?a)) R"
    using L R by (simp add: ga_layout_def)
  with wf show ?rhs by (auto simp: ga_wf_def)
next
  assume ?rhs
  then show "ga_wf ga" by (auto simp: ga_wf_def ga_layout_def)
qed

lemma ga_wf_layoutE:
  assumes "ga_wf ga"
  obtains L g R where "ga_layout ga L g R"
  using assms ga_wf_layout by blast

lemma ga_layout_els: "ga_layout ga L g R \<Longrightarrow> ga_els ga = L @ R"
  by (simp add: ga_layout_def ga_els_def)

lemma length_ga_els [simp]: "ga_wf ga \<Longrightarrow> length (ga_els ga) = ga_numels ga"
  by (auto elim!: ga_wf_layoutE simp: ga_layout_els) (simp add: ga_layout_def)

lemma ga_wf_make [simp]: "ga_wf (make_gap_array e)" "ga_els (make_gap_array e) = []"
  by (simp_all add: ga_wf_def make_gap_array_def ga_els_def ga_derived_def)

subsection \<open>Positions of markers\<close>

text \<open>
  The array position of a memory position for any gap; inside the gap it is the gap's position.
  \<open>gap_array_make_gap\<close> leaves a marker inside the gap for a moment, and the adjustments of
  the operation that called it put it right.
\<close>

definition gpos :: "int \<Rightarrow> int \<Rightarrow> int \<Rightarrow> int" where
  "gpos gap gapsize p = (if p \<le> gap then p else max gap (p - gapsize))"

definition ga_marker_in :: "'a gap_array \<Rightarrow> int \<Rightarrow> bool" where
  "ga_marker_in ga p \<longleftrightarrow> 0 \<le> p \<and> p \<le> int (ga_numels ga + ga_gapsize ga)"

abbreviation ga_pos :: "'a gap_array \<Rightarrow> int \<Rightarrow> int" where
  "ga_pos ga \<equiv> gpos (int (ga_gap ga)) (int (ga_gapsize ga))"

lemma ga_marker_ok_in: "ga_marker_ok ga p \<Longrightarrow> ga_gap ga \<le> ga_numels ga \<Longrightarrow> ga_marker_in ga p"
  by (auto simp: ga_marker_ok_def ga_marker_in_def)

lemma ga_pos_ok: "ga_marker_ok ga p \<Longrightarrow> GAP_ARRAY_MEMORY_TO_ARRAY_POS ga p = ga_pos ga p"
  by (auto simp: ga_marker_ok_def GAP_ARRAY_MEMORY_TO_ARRAY_POS_def gpos_def)

lemma adjust_left:
  assumes "0 \<le> pos" "pos < gap" "0 \<le> s"
  shows "gpos pos s (do_marker_adjustment p pos gap s) = gpos gap s p"
    and "0 \<le> p \<Longrightarrow> p \<le> n + s \<Longrightarrow> gap \<le> n \<Longrightarrow>
      (let q = do_marker_adjustment p pos gap s in
       0 \<le> q \<and> q \<le> pos \<or> pos + s \<le> q \<and> q \<le> n + s)"
  using assms by (auto simp: gpos_def do_marker_adjustment_def Let_def max_def split: if_splits)

lemma adjust_right:
  assumes "0 \<le> gap" "gap < pos" "0 \<le> s"
  shows "gpos pos s (do_marker_adjustment p (gap + s) (pos + s) (- s)) = gpos gap s p"
    and "0 \<le> p \<Longrightarrow> p \<le> n + s \<Longrightarrow> pos \<le> n \<Longrightarrow>
      (let q = do_marker_adjustment p (gap + s) (pos + s) (- s) in
       0 \<le> q \<and> q \<le> pos \<or> pos + s \<le> q \<and> q \<le> n + s)"
  using assms by (auto simp: gpos_def do_marker_adjustment_def Let_def max_def split: if_splits)

subsection \<open>Moving the gap\<close>

lemma gap_array_move_gap_fields [simp]:
  "ga_gap (gap_array_move_gap ga pos) = pos"
  "ga_gapsize (gap_array_move_gap ga pos) = ga_gapsize ga"
  "ga_numels (gap_array_move_gap ga pos) = ga_numels ga"
  "ga_elsize (gap_array_move_gap ga pos) = ga_elsize ga"
  "ga_derived (gap_array_move_gap ga pos)"
  by (auto simp: gap_array_move_gap_def Let_def gap_array_recompute_derived_values_def
      gap_array_adjust_markers_def ga_derived_def)

lemma gap_array_move_gap_layout:
  assumes lay: "ga_layout ga L g R" and pos: "pos \<le> length (L @ R)"
  shows "\<exists>g'. ga_layout (gap_array_move_gap ga pos) (take pos (L @ R)) g' (drop pos (L @ R)) \<and>
           length g' = length g"
proof -
  have len: "ga_gap ga = length L" "ga_gapsize ga = length g" "ga_numels ga = length L + length R"
    and arr: "ga_array ga = map Some L @ g @ map Some R"
    using lay by (auto simp: ga_layout_def)
  consider "pos < length L" | "pos = length L" | "length L < pos" by linarith
  then show ?thesis
  proof cases
    case 1
    let ?g = "take (length g) (drop pos (map Some L @ g))"
    have "ga_array (gap_array_move_gap ga pos) = map Some (take pos L) @ ?g @ map Some (drop pos L @ R)"
      using 1 len arr
      by (simp add: gap_array_move_gap_def Let_def gap_array_recompute_derived_values_def
          gap_array_adjust_markers_def mem_move_def take_map drop_map min_def take_drop add.commute)
        (metis append_take_drop_id le_add1 map_append min.absorb1 take_take)
    moreover have "length ?g = length g" using 1 by simp
    ultimately show ?thesis using 1 len pos by (intro exI [where x = ?g]) (auto simp: ga_layout_def)
  next
    case 2
    then have "ga_array (gap_array_move_gap ga pos) = ga_array ga"
      using len by (simp add: gap_array_move_gap_def Let_def gap_array_recompute_derived_values_def)
    with 2 lay show ?thesis by (auto simp: ga_layout_def)
  next
    case 3
    let ?k = "pos - length L"
    let ?g = "drop ?k (g @ take ?k (map Some R))"
    have "ga_array (gap_array_move_gap ga pos) = map Some (L @ take ?k R) @ ?g @ map Some (drop ?k R)"
      using 3 len arr pos
      by (simp add: gap_array_move_gap_def Let_def gap_array_recompute_derived_values_def
          gap_array_adjust_markers_def mem_move_def take_map drop_map)
        (simp add: drop_take_split [of "pos - (length L + length g)" ?k R])
    moreover have "length ?g = length g" using 3 pos by simp
    ultimately show ?thesis using 3 len pos by (intro exI [where x = ?g]) (auto simp: ga_layout_def)
  qed
qed

lemma gap_array_move_gap_wf0:
  assumes lay: "ga_layout ga L g R" and pos: "pos \<le> length (L @ R)"
    and ms: "\<forall>(m, p) \<in> set (ga_markers ga). ga_marker_in ga p"
  shows "ga_els (gap_array_move_gap ga pos) = L @ R"
    and "length (ga_array (gap_array_move_gap ga pos)) = length (ga_array ga)"
    and "map fst (ga_markers (gap_array_move_gap ga pos)) = map fst (ga_markers ga)"
    and "map (ga_pos (gap_array_move_gap ga pos) \<circ> snd) (ga_markers (gap_array_move_gap ga pos)) =
         map (ga_pos ga \<circ> snd) (ga_markers ga)"
    and "pos \<noteq> ga_gap ga \<Longrightarrow>
         \<forall>(m, p) \<in> set (ga_markers (gap_array_move_gap ga pos)). ga_marker_ok (gap_array_move_gap ga pos) p"
    and "pos = ga_gap ga \<Longrightarrow> ga_markers (gap_array_move_gap ga pos) = ga_markers ga"
proof -
  have gap: "ga_gap ga = length L" "ga_gapsize ga = length g" "ga_numels ga = length (L @ R)"
    using lay by (simp_all add: ga_layout_def)
  note defs = gap_array_move_gap_def Let_def gap_array_recompute_derived_values_def gap_array_adjust_markers_def
  from gap_array_move_gap_layout [OF lay pos] obtain g' where
    g': "ga_layout (gap_array_move_gap ga pos) (take pos (L @ R)) g' (drop pos (L @ R))" "length g' = length g"
    by blast
  then show "ga_els (gap_array_move_gap ga pos) = L @ R" by (simp only: ga_layout_els append_take_drop_id)
  from g' lay show "length (ga_array (gap_array_move_gap ga pos)) = length (ga_array ga)"
    by (auto simp: ga_layout_def)
  show "map fst (ga_markers (gap_array_move_gap ga pos)) = map fst (ga_markers ga)"
    by (simp add: defs case_prod_unfold comp_def)
  show "pos = ga_gap ga \<Longrightarrow> ga_markers (gap_array_move_gap ga pos) = ga_markers ga"
    by (simp add: defs)
  show "map (ga_pos (gap_array_move_gap ga pos) \<circ> snd) (ga_markers (gap_array_move_gap ga pos)) =
         map (ga_pos ga \<circ> snd) (ga_markers ga)"
    using adjust_left(1) [of "int pos" "int (ga_gap ga)" "int (ga_gapsize ga)"]
      adjust_right(1) [of "int (ga_gap ga)" "int pos" "int (ga_gapsize ga)"]
    by (cases "pos < ga_gap ga"; cases "pos = ga_gap ga") (simp_all add: defs case_prod_unfold comp_def)
  show "\<forall>(m, p) \<in> set (ga_markers (gap_array_move_gap ga pos)). ga_marker_ok (gap_array_move_gap ga pos) p"
    if "pos \<noteq> ga_gap ga"
  proof (cases "pos < ga_gap ga")
    case True
    have "ga_marker_ok (gap_array_move_gap ga pos)
        (do_marker_adjustment p (int pos) (int (ga_gap ga)) (int (ga_gapsize ga)))"
      if "(m, p) \<in> set (ga_markers ga)" for m p
      using adjust_left(2) [of "int pos" "int (ga_gap ga)" "int (ga_gapsize ga)" p "int (ga_numels ga)"]
        True ms that gap by (auto simp: ga_marker_ok_def ga_marker_in_def Let_def)
    with True show ?thesis by (auto simp: defs)
  next
    case False
    with that have "ga_gap ga < pos" by simp
    have "ga_marker_ok (gap_array_move_gap ga pos)
        (do_marker_adjustment p (int (ga_gap ga + ga_gapsize ga)) (int (pos + ga_gapsize ga)) (- int (ga_gapsize ga)))"
      if "(m, p) \<in> set (ga_markers ga)" for m p
      using adjust_right(2) [of "int (ga_gap ga)" "int pos" "int (ga_gapsize ga)" p "int (ga_numels ga)"]
        \<open>ga_gap ga < pos\<close> ms that gap pos by (auto simp: ga_marker_ok_def ga_marker_in_def Let_def)
    with \<open>ga_gap ga < pos\<close> show ?thesis by (auto simp: defs)
  qed
qed

subsection \<open>Growing the gap\<close>

lemma adjust_grow:
  assumes "0 \<le> gap" "0 \<le> s" "0 \<le> inc" "gap \<le> n" "0 \<le> p" "p \<le> n + s"
  shows "gpos gap (s + inc) (do_marker_adjustment p (gap + s) (n + s) inc) = gpos gap s p"
    and "0 \<le> do_marker_adjustment p (gap + s) (n + s) inc"
    and "do_marker_adjustment p (gap + s) (n + s) inc \<le> n + (s + inc)"
  using assms by (auto simp: gpos_def do_marker_adjustment_def Let_def max_def split: if_splits)

lemma gap_array_make_gap_layout:
  fixes k :: nat
  assumes lay: "ga_layout ga L g R" and ms: "\<forall>(m, p) \<in> set (ga_markers ga). ga_marker_in ga p"
  defines "ga' \<equiv> gap_array_make_gap ga k"
  shows "\<exists>g'. ga_layout ga' L g' R \<and> length g' = length g + (k + (100 + ga_numels ga div 8))"
    and "ga_elsize ga' = ga_elsize ga"
    and "map fst (ga_markers ga') = map fst (ga_markers ga)"
    and "map (ga_pos ga' \<circ> snd) (ga_markers ga') = map (ga_pos ga \<circ> snd) (ga_markers ga)"
    and "\<forall>(m, p) \<in> set (ga_markers ga'). ga_marker_in ga' p"
    and "\<forall>(m, p) \<in> set (ga_markers ga). ga_marker_ok ga p \<Longrightarrow>
      \<forall>(m, p) \<in> set (ga_markers ga'). ga_marker_ok ga' p \<or> p = int (ga_gap ga + ga_gapsize ga)"
proof -
  let ?inc = "k + (100 + ga_numels ga div 8)"
  let ?adj = "\<lambda>p. if R = [] then p else
    do_marker_adjustment p (int (length L + length g)) (int (length L + length R + length g)) (int ?inc)"
  note defs = gap_array_move_gap_def Let_def gap_array_recompute_derived_values_def gap_array_adjust_markers_def
  have len: "ga_gap ga = length L" "ga_gapsize ga = length g" "ga_numels ga = length L + length R"
    and arr: "ga_array ga = map Some L @ g @ map Some R"
    using lay by (auto simp: ga_layout_def)
  let ?g = "g @ take ?inc (map Some R @ replicate ?inc None)"
  have eq: "mem_realloc (ga_array ga) (ga_numels ga + ga_gapsize ga + ?inc) =
      map Some L @ g @ map Some R @ replicate ?inc None"
    using arr len mem_realloc_extend [of "ga_array ga" ?inc] by (simp add: algebra_simps)
  have fields: "ga_gap ga' = length L" "ga_gapsize ga' = length g + ?inc" "ga_numels ga' = ga_numels ga"
    "ga_elsize ga' = ga_elsize ga"
    "ga_markers ga' = map (\<lambda>(m, p). (m, ?adj p)) (ga_markers ga)"
    using len by (auto simp: ga'_def gap_array_make_gap_def defs algebra_simps)
  have "ga_array ga' = map Some L @ ?g @ map Some R"
    using eq len by (cases "R = []") (auto simp: ga'_def gap_array_make_gap_def defs mem_move_def algebra_simps)
  with fields len show "\<exists>g'. ga_layout ga' L g' R \<and> length g' = length g + ?inc"
    by (intro exI [where x = ?g]) (auto simp: ga_layout_def)
  show "ga_elsize ga' = ga_elsize ga" by (fact fields)
  show "map fst (ga_markers ga') = map fst (ga_markers ga)"
    by (simp add: fields case_prod_unfold comp_def)
  have adj: "gpos (int (length L)) (int (length g) + int ?inc) (?adj p) = ga_pos ga p \<and>
      0 \<le> ?adj p \<and> ?adj p \<le> int (length L + length R) + (int (length g) + int ?inc)"
    if "(m, p) \<in> set (ga_markers ga)" for m p
  proof -
    have p: "0 \<le> p" "p \<le> int (length L + length R) + int (length g)"
      using ms that len by (auto simp: ga_marker_in_def)
    show ?thesis
    proof (cases "R = []")
      case True
      with p show ?thesis by (auto simp: gpos_def len max_def)
    next
      case False
      with adjust_grow [of "int (length L)" "int (length g)" "int ?inc" "int (length L + length R)" p] p
      show ?thesis by (simp add: len)
    qed
  qed
  then show "map (ga_pos ga' \<circ> snd) (ga_markers ga') = map (ga_pos ga \<circ> snd) (ga_markers ga)"
    by (auto simp: fields)
  show "\<forall>(m, p) \<in> set (ga_markers ga'). ga_marker_in ga' p"
    using adj by (auto simp: fields ga_marker_in_def len)
  show "\<forall>(m, p) \<in> set (ga_markers ga'). ga_marker_ok ga' p \<or> p = int (ga_gap ga + ga_gapsize ga)"
    if ok: "\<forall>(m, p) \<in> set (ga_markers ga). ga_marker_ok ga p"
  proof -
    have "ga_marker_ok ga' (?adj p) \<or> ?adj p = int (ga_gap ga + ga_gapsize ga)"
      if "(m, p) \<in> set (ga_markers ga)" for m p
    proof -
      have "ga_marker_ok ga p" using ok that by blast
      then show ?thesis
        by (cases "R = []") (auto simp: ga_marker_ok_def fields len do_marker_adjustment_def Let_def)
    qed
    then show ?thesis by (auto simp: fields)
  qed
qed

subsection \<open>Inserting\<close>

lemma adjust_insert:
  assumes "0 \<le> n" "n \<le> s" "0 \<le> pos" "pos \<le> N"
    and "(0 \<le> p \<and> p \<le> pos) \<or> (pos + s \<le> p \<and> p \<le> N + s) \<or> (pos < p \<and> p < pos + n)"
  defines "q \<equiv> do_marker_adjustment p (pos - 1) pos n"
  shows "gpos (pos + n) (s - n) q = (if gpos pos s p < pos then gpos pos s p else gpos pos s p + n)"
    and "(0 \<le> q \<and> q \<le> pos + n) \<or> (pos + s \<le> q \<and> q \<le> N + s)"
  using assms(1-5) by (auto simp: q_def gpos_def do_marker_adjustment_def Let_def max_def split: if_splits)

text \<open>The state in which \<open>gap_array_insert_els\<close> copies the new elements: gap at \<open>pos\<close>, big enough.\<close>

lemma gap_array_open_gap:
  fixes n :: nat
  assumes wf: "ga_wf ga" and pos: "pos \<le> ga_numels ga"
  defines "ga1 \<equiv> (if ga_gapsize ga < n then gap_array_make_gap ga (n - ga_gapsize ga) else ga)"
  defines "ga2 \<equiv> (if pos \<noteq> ga_gap ga1 then gap_array_move_gap ga1 pos else ga1)"
  shows "\<exists>g. ga_layout ga2 (take pos (ga_els ga)) g (drop pos (ga_els ga)) \<and> n \<le> length g"
    and "map fst (ga_markers ga2) = map fst (ga_markers ga)"
    and "map (ga_pos ga2 \<circ> snd) (ga_markers ga2) = map (ga_pos ga \<circ> snd) (ga_markers ga)"
    and "\<forall>(m, p) \<in> set (ga_markers ga2). ga_marker_ok ga2 p \<or> (int pos < p \<and> p < int (pos + n))"
proof -
  obtain L g R where lay: "ga_layout ga L g R" using wf by (rule ga_wf_layoutE)
  have els: "ga_els ga = L @ R" using lay by (rule ga_layout_els)
  have len: "ga_gap ga = length L" "ga_gapsize ga = length g" "ga_numels ga = length (L @ R)"
    using lay by (simp_all add: ga_layout_def)
  have ok: "\<forall>(m, p) \<in> set (ga_markers ga). ga_marker_ok ga p" and inn: "\<forall>(m, p) \<in> set (ga_markers ga). ga_marker_in ga p"
    using wf len by (auto simp: ga_wf_def intro!: ga_marker_ok_in)
  note mk = gap_array_make_gap_layout [OF lay inn, of "n - ga_gapsize ga"]
  obtain g1 where lay1: "ga_layout ga1 L g1 R" and n: "n \<le> length g1"
  proof (cases "ga_gapsize ga < n")
    case True
    with mk(1) show ?thesis using that len by (force simp: ga1_def)
  next
    case False
    with lay that len show ?thesis by (auto simp: ga1_def)
  qed
  have gap1: "ga_gap ga1 = length L" "ga_gapsize ga1 = length g1" using lay1 by (simp_all add: ga_layout_def)
  have m1: "map fst (ga_markers ga1) = map fst (ga_markers ga)"
    "map (ga_pos ga1 \<circ> snd) (ga_markers ga1) = map (ga_pos ga \<circ> snd) (ga_markers ga)"
    "\<forall>(m, p) \<in> set (ga_markers ga1). ga_marker_in ga1 p"
    using mk(3-5) inn by (simp_all add: ga1_def)
  have near: "\<forall>(m, p) \<in> set (ga_markers ga1). ga_marker_ok ga1 p \<or> (int (length L) < p \<and> p < int (length L + n))"
  proof (cases "ga_gapsize ga < n")
    case False
    with ok show ?thesis by (auto simp: ga1_def)
  next
    case True
    have "ga_marker_ok ga1 p \<or> (int (length L) < p \<and> p < int (length L + n))"
      if "(m, p) \<in> set (ga_markers ga1)" for m p
    proof -
      have "ga_marker_ok ga1 p \<or> p = int (ga_gap ga + ga_gapsize ga)"
        using mk(6) [OF ok] True that by (auto simp: ga1_def)
      then show ?thesis using True len gap1 by (cases "g = []") (auto simp: ga_marker_ok_def)
    qed
    then show ?thesis by blast
  qed
  have pos': "pos \<le> length (L @ R)" using pos len by simp
  show "map fst (ga_markers ga2) = map fst (ga_markers ga)"
    "map (ga_pos ga2 \<circ> snd) (ga_markers ga2) = map (ga_pos ga \<circ> snd) (ga_markers ga)"
    using gap_array_move_gap_wf0(3,4) [OF lay1 pos' m1(3)] m1 by (simp_all add: ga2_def)
  show "\<forall>(m, p) \<in> set (ga_markers ga2). ga_marker_ok ga2 p \<or> (int pos < p \<and> p < int (pos + n))"
    using gap_array_move_gap_wf0(5) [OF lay1 pos' m1(3)] near gap1 by (auto simp: ga2_def)
  show "\<exists>g. ga_layout ga2 (take pos (ga_els ga)) g (drop pos (ga_els ga)) \<and> n \<le> length g"
    using gap_array_move_gap_layout [OF lay1 pos'] lay1 n gap1 els by (auto simp: ga2_def)
qed

lemma gap_array_insert_els_ok:
  assumes wf: "ga_wf ga" and pos: "pos \<le> ga_numels ga"
  shows "\<exists>ga'. gap_array_insert_els ga pos xs = Some ga' \<and> ga_wf ga' \<and>
           ga_els ga' = list_insert (ga_els ga) pos xs \<and>
           map fst (ga_markers ga') = map fst (ga_markers ga) \<and>
           map (ga_pos ga' \<circ> snd) (ga_markers ga') =
             map ((\<lambda>p. if p < int pos then p else p + int (length xs)) \<circ> (ga_pos ga \<circ> snd)) (ga_markers ga)"
proof -
  let ?n = "length xs"
  define ga1 where "ga1 = (if ga_gapsize ga < ?n then gap_array_make_gap ga (?n - ga_gapsize ga) else ga)"
  define ga2 where "ga2 = (if pos \<noteq> ga_gap ga1 then gap_array_move_gap ga1 pos else ga1)"
  note open_gap = gap_array_open_gap [OF wf pos, of ?n, folded ga1_def, folded ga2_def]
  obtain g where lay2: "ga_layout ga2 (take pos (ga_els ga)) g (drop pos (ga_els ga))" and n: "?n \<le> length g"
    using open_gap(1) by blast
  have len2: "ga_gap ga2 = pos" "ga_gapsize ga2 = length g" "ga_numels ga2 = ga_numels ga"
    using lay2 pos wf by (auto simp: ga_layout_def)
  define ga' where "ga' = gap_array_adjust_markers (gap_array_recompute_derived_values
      (ga2\<lparr>ga_array := mem_copy (ga_array ga2) pos (map Some xs), ga_gapsize := length g - ?n,
           ga_gap := pos + ?n, ga_numels := ga_numels ga + ?n\<rparr>)) (int pos - 1) (int pos) (int ?n)"
  have eq: "gap_array_insert_els ga pos xs = Some ga'"
    unfolding gap_array_insert_els_def Let_def ga1_def [symmetric]
    unfolding ga2_def [symmetric] using pos len2 by (simp add: ga'_def)
  have lay': "ga_layout ga' (take pos (ga_els ga) @ xs) (drop ?n g) (drop pos (ga_els ga))"
    using lay2 n pos wf by (simp add: ga_layout_def ga'_def gap_array_adjust_markers_def
        gap_array_recompute_derived_values_def mem_copy_def)
  have mk: "ga_markers ga' = map (\<lambda>(m, p). (m, do_marker_adjustment p (int pos - 1) (int pos) (int ?n))) (ga_markers ga2)"
    and der: "ga_derived ga'" and fields: "ga_gap ga' = pos + ?n" "ga_gapsize ga' = length g - ?n"
      "ga_numels ga' = ga_numels ga + ?n"
    by (simp_all add: ga'_def gap_array_adjust_markers_def gap_array_recompute_derived_values_def ga_derived_def)
  let ?q = "\<lambda>p. do_marker_adjustment p (int pos - 1) (int pos) (int ?n)"
  have adj: "ga_marker_ok ga' (?q p) \<and>
      ga_pos ga' (?q p) = (if ga_pos ga2 p < int pos then ga_pos ga2 p else ga_pos ga2 p + int ?n)"
    if "(m, p) \<in> set (ga_markers ga2)" for m p
  proof -
    have "ga_marker_ok ga2 p \<or> (int pos < p \<and> p < int (pos + ?n))" using open_gap(4) that by blast
    then have "(0 \<le> p \<and> p \<le> int pos) \<or> (int pos + int (length g) \<le> p \<and> p \<le> int (ga_numels ga) + int (length g))
        \<or> (int pos < p \<and> p < int pos + int ?n)"
      using len2 by (auto simp: ga_marker_ok_def)
    from adjust_insert [OF _ _ _ _ this] n pos show ?thesis
      by (auto simp: ga_marker_ok_def fields len2 of_nat_diff)
  qed
  have "ga_wf ga'" using lay' der adj by (auto simp: ga_wf_layout mk)
  moreover have "ga_els ga' = list_insert (ga_els ga) pos xs"
    using ga_layout_els [OF lay'] by (simp add: list_insert_def)
  moreover have "map fst (ga_markers ga') = map fst (ga_markers ga)"
    using open_gap(2) by (simp add: mk case_prod_unfold comp_def)
  moreover have "map (ga_pos ga' \<circ> snd) (ga_markers ga') =
      map ((\<lambda>p. if p < int pos then p else p + int ?n) \<circ> (ga_pos ga \<circ> snd)) (ga_markers ga)"
  proof -
    have "map (ga_pos ga' \<circ> snd) (ga_markers ga') =
        map (\<lambda>p. if p < int pos then p else p + int ?n) (map (ga_pos ga2 \<circ> snd) (ga_markers ga2))"
      using adj by (auto simp: mk)
    then show ?thesis by (simp add: open_gap(3))
  qed
  ultimately show ?thesis using eq by blast
qed

subsection \<open>Deleting\<close>

lemma adjust_delete:
  assumes "0 \<le> s" "0 \<le> frm" "frm \<le> gap" "gap \<le> till" "till \<le> N"
    and "(0 \<le> p \<and> p \<le> gap) \<or> (gap + s \<le> p \<and> p \<le> N + s)"
  defines "n \<equiv> till - frm"
  defines "q \<equiv> do_marker_adjustment p (till + s) (till + s) (- n - s)"
  shows "gpos frm (s + n) q =
           (if gpos gap s p \<le> frm then gpos gap s p else if gpos gap s p \<le> till then frm else gpos gap s p - n)"
    and "(0 \<le> q \<and> q \<le> frm) \<or> (frm + (s + n) \<le> q \<and> q \<le> N + s)"
  using assms(1-6) by (auto simp: q_def n_def gpos_def do_marker_adjustment_def Let_def max_def split: if_splits)

lemma gap_array_move_gap_wf:
  assumes wf: "ga_wf ga" and pos: "pos \<le> ga_numels ga"
  defines "ga1 \<equiv> gap_array_move_gap ga pos"
  shows "ga_wf ga1" "ga_els ga1 = ga_els ga"
    "map fst (ga_markers ga1) = map fst (ga_markers ga)"
    "map (ga_pos ga1 \<circ> snd) (ga_markers ga1) = map (ga_pos ga \<circ> snd) (ga_markers ga)"
proof -
  obtain L g R where lay: "ga_layout ga L g R" using wf by (rule ga_wf_layoutE)
  have len: "ga_gap ga = length L" "ga_gapsize ga = length g" "ga_numels ga = length (L @ R)"
    using lay by (simp_all add: ga_layout_def)
  have ok: "\<forall>(m, p) \<in> set (ga_markers ga). ga_marker_ok ga p" and inn: "\<forall>(m, p) \<in> set (ga_markers ga). ga_marker_in ga p"
    using wf len by (auto simp: ga_wf_def intro!: ga_marker_ok_in)
  have p: "pos \<le> length (L @ R)" using pos len by simp
  note mv = gap_array_move_gap_wf0 [OF lay p inn, folded ga1_def]
  have "\<forall>(m, p) \<in> set (ga_markers ga1). ga_marker_ok ga1 p"
    using mv(5,6) ok by (cases "pos = ga_gap ga") (simp_all add: ga_marker_ok_def ga1_def)
  moreover have "\<exists>g'. ga_layout ga1 (take pos (L @ R)) g' (drop pos (L @ R))"
    using gap_array_move_gap_layout [OF lay p] by (auto simp: ga1_def)
  moreover have "ga_derived ga1" by (simp add: ga1_def)
  ultimately show "ga_wf ga1" by (auto simp: ga_wf_layout)
  show "ga_els ga1 = ga_els ga" using mv(1) ga_layout_els [OF lay] by simp
  show "map fst (ga_markers ga1) = map fst (ga_markers ga)" by (fact mv(3))
  show "map (ga_pos ga1 \<circ> snd) (ga_markers ga1) = map (ga_pos ga \<circ> snd) (ga_markers ga)" by (fact mv(4))
qed

definition delete_pos :: "nat \<Rightarrow> nat \<Rightarrow> int \<Rightarrow> int" where
  "delete_pos frm n p =
     (if p \<le> int frm then p else if p \<le> int (frm + n) then int frm else p - int n)"

lemma gap_array_delete_els_ok:
  assumes wf: "ga_wf ga" and pos: "frm + n \<le> ga_numels ga"
  shows "\<exists>ga'. gap_array_delete_els ga frm n = Some ga' \<and> ga_wf ga' \<and>
           ga_els ga' = list_delete (ga_els ga) frm n \<and>
           map fst (ga_markers ga') = map fst (ga_markers ga) \<and>
           map (ga_pos ga' \<circ> snd) (ga_markers ga') =
             map (delete_pos frm n \<circ> (ga_pos ga \<circ> snd)) (ga_markers ga)"
proof -
  let ?till = "frm + n"
  define ga1 where "ga1 = (if ?till < ga_gap ga then gap_array_move_gap ga ?till
      else if frm > ga_gap ga then gap_array_move_gap ga frm else ga)"
  have "frm \<le> ga_numels ga" using pos by simp
  note mv1 = gap_array_move_gap_wf [OF wf this] and mv2 = gap_array_move_gap_wf [OF wf pos]
  have wf1: "ga_wf ga1" and els1: "ga_els ga1 = ga_els ga"
    and m1: "map fst (ga_markers ga1) = map fst (ga_markers ga)"
      "map (ga_pos ga1 \<circ> snd) (ga_markers ga1) = map (ga_pos ga \<circ> snd) (ga_markers ga)"
    and f1: "ga_numels ga1 = ga_numels ga" "ga_gapsize ga1 = ga_gapsize ga"
    and gap1: "frm \<le> ga_gap ga1" "ga_gap ga1 \<le> ?till"
    using mv1 mv2 wf by (auto simp: ga1_def)
  obtain L g R where lay: "ga_layout ga1 L g R" using wf1 by (rule ga_wf_layoutE)
  have len: "ga_gap ga1 = length L" "ga_gapsize ga1 = length g" "ga_numels ga = length L + length R"
    using lay f1 by (simp_all add: ga_layout_def)
  define ga' where "ga' = gap_array_recompute_derived_values
      ((gap_array_adjust_markers ga1 (int (?till + length g)) (int (?till + length g)) (- int n - int (length g)))
        \<lparr>ga_gapsize := length g + n, ga_numels := ga_numels ga - n, ga_gap := frm\<rparr>)"
  have "(if frm > ga_gap (if ?till < ga_gap ga then gap_array_move_gap ga ?till else ga)
      then gap_array_move_gap (if ?till < ga_gap ga then gap_array_move_gap ga ?till else ga) frm
      else (if ?till < ga_gap ga then gap_array_move_gap ga ?till else ga)) = ga1"
    by (simp add: ga1_def)
  then have eq: "gap_array_delete_els ga frm n = Some ga'"
    using pos f1 len by (simp add: gap_array_delete_els_def Let_def ga'_def gap_array_adjust_markers_def)
  let ?L = "take frm L" and ?R = "drop (?till - length L) R"
  let ?g = "map Some (drop frm L) @ g @ map Some (take (?till - length L) R)"
  have lay': "ga_layout ga' ?L ?g ?R"
    using lay gap1 pos len
    by (auto simp: ga_layout_def ga'_def gap_array_adjust_markers_def gap_array_recompute_derived_values_def
        simp flip: map_append)
  have mk: "ga_markers ga' = map (\<lambda>(m, p). (m, do_marker_adjustment p (int (?till + length g))
        (int (?till + length g)) (- int n - int (length g)))) (ga_markers ga1)"
    and der: "ga_derived ga'" and fields: "ga_gap ga' = frm" "ga_gapsize ga' = length g + n"
      "ga_numels ga' = ga_numels ga - n"
    by (simp_all add: ga'_def gap_array_adjust_markers_def gap_array_recompute_derived_values_def ga_derived_def)
  let ?q = "\<lambda>p. do_marker_adjustment p (int (?till + length g)) (int (?till + length g)) (- int n - int (length g))"
  have adj: "ga_marker_ok ga' (?q p) \<and> ga_pos ga' (?q p) = delete_pos frm n (ga_pos ga1 p)"
    if "(m, p) \<in> set (ga_markers ga1)" for m p
  proof -
    have "ga_marker_ok ga1 p" using wf1 that by (auto simp: ga_wf_def)
    then have "(0 \<le> p \<and> p \<le> int (length L)) \<or>
        (int (length L) + int (length g) \<le> p \<and> p \<le> int (ga_numels ga) + int (length g))"
      using len f1 by (auto simp: ga_marker_ok_def)
    from adjust_delete [OF _ _ _ _ _ this, of "int frm" "int ?till"] gap1 pos
    show ?thesis by (auto simp: ga_marker_ok_def fields len delete_pos_def of_nat_diff)
  qed
  have "ga_wf ga'" using lay' der adj by (auto simp: ga_wf_layout mk)
  moreover have "ga_els ga' = list_delete (ga_els ga) frm n"
    using ga_layout_els [OF lay'] ga_layout_els [OF lay] gap1 len els1 by (simp add: list_delete_def)
  moreover have "map fst (ga_markers ga') = map fst (ga_markers ga)"
    using m1 by (simp add: mk case_prod_unfold comp_def)
  moreover have "map (ga_pos ga' \<circ> snd) (ga_markers ga') = map (delete_pos frm n \<circ> (ga_pos ga \<circ> snd)) (ga_markers ga)"
  proof -
    have "map (ga_pos ga' \<circ> snd) (ga_markers ga') =
        map (delete_pos frm n) (map (ga_pos ga1 \<circ> snd) (ga_markers ga1))"
      using adj by (auto simp: mk)
    then show ?thesis by (simp add: m1(2))
  qed
  ultimately show ?thesis using eq by blast
qed

subsection \<open>Access\<close>

lemma gap_array_at_layout:
  assumes "ga_layout ga L g R" "i < length (L @ R)"
  shows "GAP_ARRAY_ARRAY_TO_MEMORY_POS ga i < length (ga_array ga)"
    and "ga_array ga ! GAP_ARRAY_ARRAY_TO_MEMORY_POS ga i = Some ((L @ R) ! i)"
    and "(ga_array ga)[GAP_ARRAY_ARRAY_TO_MEMORY_POS ga i := Some x] =
      (if i < length L then map Some (L[i := x]) @ g @ map Some R
       else map Some L @ g @ map Some (R[i - length L := x]))"
  using assms
  by (auto simp: ga_layout_def GAP_ARRAY_ARRAY_TO_MEMORY_POS_def GAP_ARRAY_ARRAY_TO_MEMORY_POS_1_def
      nth_append list_update_append map_update)

lemma gap_array_at_ok:
  assumes wf: "ga_wf ga" and i: "i < length (ga_els ga)"
  shows "gap_array_at ga i = Some (ga_els ga ! i)"
proof -
  obtain L g R where lay: "ga_layout ga L g R" using wf by (rule ga_wf_layoutE)
  have "i < length (L @ R)" using i by (simp add: ga_layout_els [OF lay])
  from gap_array_at_layout [OF lay this] show ?thesis
    by (simp add: gap_array_at_def Let_def ga_layout_els [OF lay])
qed

lemma gap_array_store_ok:
  assumes wf: "ga_wf ga" and i: "i < length (ga_els ga)"
  shows "\<exists>ga'. gap_array_store ga i x = Some ga' \<and> ga_wf ga' \<and> ga_els ga' = (ga_els ga)[i := x] \<and>
           ga_markers ga' = ga_markers ga \<and> ga_gap ga' = ga_gap ga \<and> ga_gapsize ga' = ga_gapsize ga"
proof -
  obtain L g R where lay: "ga_layout ga L g R" using wf by (rule ga_wf_layoutE)
  have i': "i < length (L @ R)" using i by (simp add: ga_layout_els [OF lay])
  let ?ga = "ga\<lparr>ga_array := (ga_array ga)[GAP_ARRAY_ARRAY_TO_MEMORY_POS ga i := Some x]\<rparr>"
  have "ga_layout ?ga (if i < length L then L[i := x] else L) g (if i < length L then R else R[i - length L := x])"
    using gap_array_at_layout(3) [OF lay i'] lay by (auto simp: ga_layout_def)
  moreover from this have "ga_els ?ga = (ga_els ga)[i := x]"
    using i' by (subst ga_layout_els) (auto simp: ga_layout_els [OF lay] list_update_append)
  moreover have "ga_derived ?ga" "\<forall>(m, p) \<in> set (ga_markers ?ga). ga_marker_ok ?ga p"
    using wf by (auto simp: ga_wf_def ga_derived_def ga_marker_ok_def)
  moreover have "gap_array_store ga i x = Some ?ga"
    using gap_array_at_layout(1) [OF lay i'] by (simp add: gap_array_store_def Let_def)
  ultimately show ?thesis by (intro exI [where x = ?ga]) (auto simp: ga_wf_layout)
qed

text \<open>Gap arrays provide the editable-sequence interface.\<close>

interpretation ga: editable_seq ga_els ga_wf "\<lambda>_ _. True" gap_array_at gap_array_store
    gap_array_insert_els gap_array_delete_els
proof unfold_locales
  show "\<exists>s'. gap_array_store s i x = Some s' \<and> ga_wf s' \<and> ga_els s' = (ga_els s)[i := x]"
    if "ga_wf s" "i < length (ga_els s)" for s :: "'a gap_array" and i x
    using gap_array_store_ok [OF that] by blast
  show "\<exists>s'. gap_array_insert_els s pos xs = Some s' \<and> ga_wf s' \<and> ga_els s' = list_insert (ga_els s) pos xs"
    if "ga_wf s" "pos \<le> length (ga_els s)" for s :: "'a gap_array" and pos xs
    using gap_array_insert_els_ok [of s pos xs] that by auto
  show "\<exists>s'. gap_array_delete_els s pos n = Some s' \<and> ga_wf s' \<and> ga_els s' = list_delete (ga_els s) pos n"
    if "ga_wf s" "pos + n \<le> length (ga_els s)" for s :: "'a gap_array" and pos n
    using gap_array_delete_els_ok [of s pos n] that by auto
qed (fact gap_array_at_ok)

subsection \<open>Markers, seen from outside\<close>

lemma marker_map_of:
  "map fst ms' = map fst ms \<Longrightarrow> map (f' \<circ> snd) ms' = map (h \<circ> (f \<circ> snd)) ms \<Longrightarrow>
   map_option f' (map_of ms' m) = map_option (h \<circ> f) (map_of ms m)"
proof (induction ms' arbitrary: ms)
  case Nil
  then show ?case by simp
next
  case (Cons a ms')
  then show ?case by (cases ms) (auto split: prod.splits if_splits)
qed

lemma gap_array_marker_pos_gpos:
  assumes "ga_wf ga"
  shows "gap_array_marker_pos ga m = map_option (ga_pos ga) (map_of (ga_markers ga) m)"
  using assms map_of_SomeD [of "ga_markers ga" m]
  by (cases "map_of (ga_markers ga) m") (auto simp: gap_array_marker_pos_def ga_wf_def intro: ga_pos_ok)

lemma gap_array_make_marker_ok:
  assumes wf: "ga_wf ga" and pos: "pos \<le> ga_numels ga"
  shows "\<exists>m mp' ga'. gap_array_make_marker mp ga pos = Some (m, mp', ga') \<and> ga_wf ga' \<and>
           ga_els ga' = ga_els ga \<and> gap_array_marker_pos ga' m = Some (int pos) \<and>
           (\<forall>k. k \<noteq> m \<longrightarrow> gap_array_marker_pos ga' k = gap_array_marker_pos ga k)"
proof -
  obtain m mp' where al: "alloc_marker mp = (m, mp')" by fastforce
  let ?p = "int (GAP_ARRAY_ARRAY_TO_MEMORY_POS ga pos)"
  let ?ga = "ga\<lparr>ga_markers := (m, ?p) # ga_markers ga\<rparr>"
  have "gap_array_make_marker mp ga pos = Some (m, mp', ?ga)"
    using pos by (simp add: gap_array_make_marker_def al)
  moreover have "ga_wf ?ga"
    using assms by (auto simp: ga_wf_def ga_marker_ok_def ga_derived_def GAP_ARRAY_ARRAY_TO_MEMORY_POS_def
        GAP_ARRAY_ARRAY_TO_MEMORY_POS_1_def)
  moreover have "ga_els ?ga = ga_els ga" by (simp add: ga_els_def)
  moreover have "gap_array_marker_pos ?ga m = Some (int pos)"
    by (simp add: gap_array_marker_pos_def GAP_ARRAY_MEMORY_TO_ARRAY_POS_def
        GAP_ARRAY_ARRAY_TO_MEMORY_POS_def GAP_ARRAY_ARRAY_TO_MEMORY_POS_1_def)
  moreover have "GAP_ARRAY_MEMORY_TO_ARRAY_POS ?ga = GAP_ARRAY_MEMORY_TO_ARRAY_POS ga"
    by (simp add: fun_eq_iff GAP_ARRAY_MEMORY_TO_ARRAY_POS_def)
  then have "\<forall>k. k \<noteq> m \<longrightarrow> gap_array_marker_pos ?ga k = gap_array_marker_pos ga k"
    by (simp add: gap_array_marker_pos_def)
  ultimately show ?thesis by blast
qed

lemma clone_markers_pos:
  "ga_wf ga2 \<Longrightarrow> clone_markers mp ga2 ms = Some (mp', ga') \<Longrightarrow>
   ga_wf ga' \<and> ga_els ga' = ga_els ga2 \<and> ga_gap ga' = ga_gap ga2 \<and> ga_gapsize ga' = ga_gapsize ga2 \<and>
   map (GAP_ARRAY_MEMORY_TO_ARRAY_POS ga' \<circ> snd) (ga_markers ga') =
     rev (map snd ms) @ map (GAP_ARRAY_MEMORY_TO_ARRAY_POS ga2 \<circ> snd) (ga_markers ga2)"
proof (induction mp ga2 ms arbitrary: mp' ga' rule: clone_markers.induct)
  case (1 mp ga2)
  then show ?case by simp
next
  case (2 mp ga2 m p ms)
  from "2.prems"(2) obtain k mp1 ga1 where mk: "gap_array_make_marker mp ga2 (nat p) = Some (k, mp1, ga1)"
    and p: "0 \<le> p" and rest: "clone_markers mp1 ga1 ms = Some (mp', ga')"
    by (auto split: if_splits option.splits)
  have pos: "nat p \<le> ga_numels ga2" using mk by (auto simp: gap_array_make_marker_def split: if_splits)
  obtain "ga_wf ga1" "ga_els ga1 = ga_els ga2"
    using gap_array_make_marker_ok [OF "2.prems"(1) pos, of mp] mk by auto
  moreover have ga1: "ga1 = ga2\<lparr>ga_markers := (k, int (GAP_ARRAY_ARRAY_TO_MEMORY_POS ga2 (nat p))) # ga_markers ga2\<rparr>"
    using mk by (auto simp: gap_array_make_marker_def Let_def split: if_splits prod.splits)
  moreover have "GAP_ARRAY_MEMORY_TO_ARRAY_POS ga1 (int (GAP_ARRAY_ARRAY_TO_MEMORY_POS ga2 (nat p))) = p"
    using p by (auto simp: ga1 GAP_ARRAY_MEMORY_TO_ARRAY_POS_def GAP_ARRAY_ARRAY_TO_MEMORY_POS_def
        GAP_ARRAY_ARRAY_TO_MEMORY_POS_1_def)
  moreover have "GAP_ARRAY_MEMORY_TO_ARRAY_POS ga1 = GAP_ARRAY_MEMORY_TO_ARRAY_POS ga2"
    by (simp add: ga1 fun_eq_iff GAP_ARRAY_MEMORY_TO_ARRAY_POS_def)
  ultimately show ?case using "2.IH" [OF p mk refl refl _ rest] by simp
qed

section \<open>Properties\<close>

text \<open>C31: inserting a block into a gap array at an array position splices it into the sequence of
  elements, wherever the gap was and whether or not memory had to be reallocated; every marker at or
  after the position moves forward by the length of the block, and every earlier one stays.\<close>

theorem gap_array_insert_correct:
  assumes "ga_wf ga" "pos \<le> ga_numels ga"
  shows "\<exists>ga'. gap_array_insert_els ga pos xs = Some ga' \<and> ga_wf ga' \<and>
           ga_els ga' = take pos (ga_els ga) @ xs @ drop pos (ga_els ga) \<and>
           (\<forall>m. gap_array_marker_pos ga' m =
              map_option (\<lambda>p. if p < int pos then p else p + int (length xs)) (gap_array_marker_pos ga m))"
proof -
  obtain ga' where ga': "gap_array_insert_els ga pos xs = Some ga'" "ga_wf ga'"
      "ga_els ga' = list_insert (ga_els ga) pos xs"
      "map fst (ga_markers ga') = map fst (ga_markers ga)"
      "map (ga_pos ga' \<circ> snd) (ga_markers ga') =
         map ((\<lambda>p. if p < int pos then p else p + int (length xs)) \<circ> (ga_pos ga \<circ> snd)) (ga_markers ga)"
    using gap_array_insert_els_ok [OF assms] by blast
  have "gap_array_marker_pos ga' m =
      map_option (\<lambda>p. if p < int pos then p else p + int (length xs)) (gap_array_marker_pos ga m)" for m
    using marker_map_of [OF ga'(4,5), of m]
    by (simp add: gap_array_marker_pos_gpos [OF assms(1)] gap_array_marker_pos_gpos [OF ga'(2)]
        option.map_comp)
  with ga' show ?thesis by (auto simp: list_insert_def)
qed

text \<open>C32: deleting a range of a gap array removes exactly that range of the sequence; every marker
  inside the range ends at its start, every later marker moves back by its length.\<close>

theorem gap_array_delete_correct:
  assumes "ga_wf ga" "frm + n \<le> ga_numels ga"
  shows "\<exists>ga'. gap_array_delete_els ga frm n = Some ga' \<and> ga_wf ga' \<and>
           ga_els ga' = take frm (ga_els ga) @ drop (frm + n) (ga_els ga) \<and>
           (\<forall>m. gap_array_marker_pos ga' m =
              map_option (\<lambda>p. if p \<le> int frm then p else if p \<le> int (frm + n) then int frm
                              else p - int n) (gap_array_marker_pos ga m))"
proof -
  obtain ga' where ga': "gap_array_delete_els ga frm n = Some ga'" "ga_wf ga'"
      "ga_els ga' = list_delete (ga_els ga) frm n"
      "map fst (ga_markers ga') = map fst (ga_markers ga)"
      "map (ga_pos ga' \<circ> snd) (ga_markers ga') = map (delete_pos frm n \<circ> (ga_pos ga \<circ> snd)) (ga_markers ga)"
    using gap_array_delete_els_ok [OF assms] by blast
  have "gap_array_marker_pos ga' m = map_option (delete_pos frm n) (gap_array_marker_pos ga m)" for m
    using marker_map_of [OF ga'(4,5), of m]
    by (simp add: gap_array_marker_pos_gpos [OF assms(1)] gap_array_marker_pos_gpos [OF ga'(2)]
        option.map_comp)
  with ga' show ?thesis by (auto simp: list_delete_def delete_pos_def [abs_def])
qed

text \<open>A gap array with three elements, its gap after them, and two markers.\<close>

definition example_ga :: "nat gap_array" where
  "example_ga = \<lparr>ga_gap = 1, ga_gapsize = 2, ga_numels = 3, ga_elsize = 8, ga_offset_past_gap = 24,
     ga_els_past_gap = 2, ga_markers = [(0, 1), (1, 4)],
     ga_array = [Some 10, None, None, Some 20, Some 30]\<rparr>"

lemma example_ga_wf: "ga_wf example_ga"
  by (simp add: ga_wf_def example_ga_def ga_derived_def ga_marker_ok_def)

lemma example_ga_facts:
  "ga_els example_ga = [10, 20, 30]" "ga_numels example_ga = 3"
  "gap_array_marker_pos example_ga 0 = Some 1" "gap_array_marker_pos example_ga 1 = Some 2"
  by (simp_all add: example_ga_def ga_els_def gap_array_marker_pos_def GAP_ARRAY_MEMORY_TO_ARRAY_POS_def)

theorem gap_array_insert_correct_witness:
  "\<exists>ga'. gap_array_insert_els example_ga 2 [7, 8, 9] = Some ga' \<and> ga_els ga' = [10, 20, 7, 8, 9, 30] \<and>
     gap_array_marker_pos ga' 0 = Some 1 \<and> gap_array_marker_pos ga' 1 = Some 5"
proof -
  have "2 \<le> ga_numels example_ga" by (simp add: example_ga_facts)
  from gap_array_insert_correct [OF example_ga_wf this, of "[7, 8, 9]"] show ?thesis
    using example_ga_facts by (auto simp: numeral_2_eq_2)
qed

theorem gap_array_delete_correct_witness:
  "\<exists>ga'. gap_array_delete_els example_ga 1 2 = Some ga' \<and> ga_els ga' = [10] \<and>
     gap_array_marker_pos ga' 0 = Some 1 \<and> gap_array_marker_pos ga' 1 = Some 1"
proof -
  have "1 + 2 \<le> ga_numels example_ga" by (simp add: example_ga_facts)
  from gap_array_delete_correct [OF example_ga_wf this] show ?thesis
    using example_ga_facts by auto
qed

text \<open>Cloning a gap array keeps its elements, but the clone's markers are placed at the
  original's \<^emph>\<open>memory\<close> positions: a marker beyond the gap comes out a gap's length
  further on than the marker it copies (or the clone aborts, when that is past the end).\<close>

theorem gap_array_clone_positions:
  assumes "ga_wf ga" "gap_array_clone mp ga = Some (mp', ga2)"
  shows "ga_els ga2 = ga_els ga \<and>
    map (GAP_ARRAY_MEMORY_TO_ARRAY_POS ga2 \<circ> snd) (rev (ga_markers ga2)) = map snd (ga_markers ga)"
proof -
  have wf: "ga_wf (ga\<lparr>ga_markers := []\<rparr>)" using assms(1) by (auto simp: ga_wf_def ga_derived_def)
  note c = clone_markers_pos [OF wf assms(2) [unfolded gap_array_clone_def]]
  moreover have "ga_els (ga\<lparr>ga_markers := []\<rparr>) = ga_els ga" by (simp add: ga_els_def)
  moreover have "map (GAP_ARRAY_MEMORY_TO_ARRAY_POS ga2 \<circ> snd) (ga_markers ga2) = rev (map snd (ga_markers ga))"
    using c by simp
  ultimately show ?thesis by (metis rev_map rev_rev_ident)
qed

theorem gap_array_clone_positions_witness:
  "\<exists>mp' ga2. gap_array_clone \<lparr>mp_freelist = [], mp_next = 5\<rparr>
        (example_ga\<lparr>ga_markers := [(1, 3)]\<rparr>) = Some (mp', ga2) \<and>
     map (GAP_ARRAY_MEMORY_TO_ARRAY_POS ga2 \<circ> snd) (rev (ga_markers ga2)) = [3] \<and>
     gap_array_marker_pos (example_ga\<lparr>ga_markers := [(1, 3)]\<rparr>) 1 = Some 1"
proof -
  let ?ga = "example_ga\<lparr>ga_markers := [(1, 3)]\<rparr>"
  let ?mp = "\<lparr>mp_freelist = [], mp_next = 5\<rparr>"
  have wf: "ga_wf ?ga" by (simp add: ga_wf_def example_ga_def ga_derived_def ga_marker_ok_def)
  have "\<exists>mp' ga2. gap_array_clone ?mp ?ga = Some (mp', ga2)"
    by (simp add: gap_array_clone_def gap_array_make_marker_def alloc_marker_def example_ga_def)
  then obtain mp' ga2 where c: "gap_array_clone ?mp ?ga = Some (mp', ga2)" by blast
  from gap_array_clone_positions [OF wf c] have
    "map (GAP_ARRAY_MEMORY_TO_ARRAY_POS ga2 \<circ> snd) (rev (ga_markers ga2)) = [3]" by auto
  with c show ?thesis
    by (simp add: gap_array_marker_pos_def GAP_ARRAY_MEMORY_TO_ARRAY_POS_def example_ga_def)
qed

end
