(* ===== verification/Range_Table.thy ===== *)
theory Range_Table
  imports Gap_Array
begin

text \<open>
  Range tables (\<open>src/rangetab.c\<close>, \<open>src/rangetab.h\<close>): maps from ranges of integers to
  Lisp values, kept as a gap array of entries sorted by position.  An entry is closed at its start
  and open at its end whatever the table's type says; the type only adjusts the bounds that
  enter and leave.  Positions are \<open>EMACS_INT\<close>s made from fixnums, so the adjustments by one
  cannot overflow and are modelled on \<open>int\<close>.  The unbound marker, whose insertion removes a
  range, is the value \<open>None\<close>.
\<close>

section \<open>Data\<close>

datatype range_table_type =
    RANGE_START_CLOSED_END_OPEN
  | RANGE_START_CLOSED_END_CLOSED
  | RANGE_START_OPEN_END_CLOSED
  | RANGE_START_OPEN_END_OPEN

record 'v range_table_entry =
  rte_first :: int
  rte_last :: int
  rte_val :: 'v

record 'v range_table =
  rt_entries :: "'v range_table_entry gap_array"
  rt_type :: range_table_type

datatype range_table_error = Invalid_Argument int int | Invalid_Constant string | Aborted

text \<open>The byte size of an entry on a 64-bit machine: three words.\<close>

definition sizeof_range_table_entry :: nat where "sizeof_range_table_entry = 24"

section \<open>Types of tables\<close>

text \<open>A symbol is its name; \<open>nil\<close> stands for the default.\<close>

definition range_table_symbol_to_type :: "string \<Rightarrow> range_table_error + range_table_type" where
  "range_table_symbol_to_type symbol =
     (if symbol = ''nil'' then Inr RANGE_START_CLOSED_END_OPEN
      else if symbol = ''start-closed-end-open'' then Inr RANGE_START_CLOSED_END_OPEN
      else if symbol = ''start-closed-end-closed'' then Inr RANGE_START_CLOSED_END_CLOSED
      else if symbol = ''start-open-end-open'' then Inr RANGE_START_OPEN_END_OPEN
      else if symbol = ''start-open-end-closed'' then Inr RANGE_START_OPEN_END_CLOSED
      else Inl (Invalid_Constant symbol))"

fun range_table_type_to_symbol :: "range_table_type \<Rightarrow> string" where
  "range_table_type_to_symbol RANGE_START_CLOSED_END_OPEN = ''start-closed-end-open''"
| "range_table_type_to_symbol RANGE_START_CLOSED_END_CLOSED = ''start-closed-end-closed''"
| "range_table_type_to_symbol RANGE_START_OPEN_END_OPEN = ''start-open-end-open''"
| "range_table_type_to_symbol RANGE_START_OPEN_END_CLOSED = ''start-open-end-closed''"

fun external_to_internal_adjust_ends :: "range_table_type \<Rightarrow> int \<Rightarrow> int \<Rightarrow> int \<times> int" where
  "external_to_internal_adjust_ends RANGE_START_CLOSED_END_OPEN first limit = (first, limit)"
| "external_to_internal_adjust_ends RANGE_START_CLOSED_END_CLOSED first limit = (first, limit + 1)"
| "external_to_internal_adjust_ends RANGE_START_OPEN_END_OPEN first limit = (first + 1, limit)"
| "external_to_internal_adjust_ends RANGE_START_OPEN_END_CLOSED first limit = (first + 1, limit + 1)"

fun internal_to_external_adjust_ends :: "range_table_type \<Rightarrow> int \<Rightarrow> int \<Rightarrow> int \<times> int" where
  "internal_to_external_adjust_ends RANGE_START_CLOSED_END_OPEN first limit = (first, limit)"
| "internal_to_external_adjust_ends RANGE_START_CLOSED_END_CLOSED first limit = (first, limit - 1)"
| "internal_to_external_adjust_ends RANGE_START_OPEN_END_OPEN first limit = (first - 1, limit)"
| "internal_to_external_adjust_ends RANGE_START_OPEN_END_CLOSED first limit = (first - 1, limit - 1)"

section \<open>Creation\<close>

definition Fmake_range_table :: "string \<Rightarrow> range_table_error + 'v range_table" where
  "Fmake_range_table type =
     (case range_table_symbol_to_type type of
        Inl e \<Rightarrow> Inl e
      | Inr t \<Rightarrow> Inr \<lparr>rt_entries = make_gap_array sizeof_range_table_entry, rt_type = t\<rparr>)"

text \<open>The copying loop of \<open>copy-range-table\<close> from entry \<open>i\<close> on, \<open>k\<close> entries to go.\<close>

fun copy_entries :: "'v range_table_entry gap_array \<Rightarrow> nat \<Rightarrow> nat \<Rightarrow>
    'v range_table_entry gap_array \<Rightarrow> 'v range_table_entry gap_array option" where
  "copy_entries src 0 i dst = Some dst"
| "copy_entries src (Suc k) i dst =
     (case gap_array_at src i of
        None \<Rightarrow> None
      | Some e \<Rightarrow> (case gap_array_insert_els dst i [e] of
                      None \<Rightarrow> None
                    | Some dst \<Rightarrow> copy_entries src k (Suc i) dst))"

definition Fcopy_range_table :: "'v range_table \<Rightarrow> 'v range_table option" where
  "Fcopy_range_table rt =
     map_option (\<lambda>ents. \<lparr>rt_entries = ents, rt_type = rt_type rt\<rparr>)
       (copy_entries (rt_entries rt) (ga_numels (rt_entries rt)) 0
          (make_gap_array sizeof_range_table_entry))"

section \<open>Lookup\<close>

text \<open>The binary search, on the raw memory block of the table and its gap.\<close>

partial_function (option) get_range_table_pos_loop ::
    "int \<Rightarrow> 'v range_table_entry cells \<Rightarrow> nat \<Rightarrow> nat \<Rightarrow> nat \<Rightarrow> nat \<Rightarrow> (nat \<times> bool) option" where
  "get_range_table_pos_loop pos tab gappos gapsize left right =
     (if left \<noteq> right then
        let newpos = (left + right) div 2;
            m = GAP_ARRAY_ARRAY_TO_MEMORY_POS_1 newpos gappos gapsize
        in case (if m < length tab then tab ! m else None) of
             None \<Rightarrow> None
           | Some entry \<Rightarrow>
               if pos \<ge> rte_last entry then
                 get_range_table_pos_loop pos tab gappos gapsize (newpos + 1) right
               else if pos < rte_first entry then
                 get_range_table_pos_loop pos tab gappos gapsize left newpos
               else Some (newpos, True)
      else Some (left, False))"

declare get_range_table_pos_loop.simps [code]

definition get_range_table_pos ::
    "int \<Rightarrow> nat \<Rightarrow> 'v range_table_entry cells \<Rightarrow> nat \<Rightarrow> nat \<Rightarrow> (nat \<times> bool) option" where
  "get_range_table_pos pos nentries tab gappos gapsize =
     get_range_table_pos_loop pos tab gappos gapsize 0 nentries"

definition get_range_table ::
    "int \<Rightarrow> nat \<Rightarrow> 'v range_table_entry cells \<Rightarrow> nat \<Rightarrow> nat \<Rightarrow> 'v \<Rightarrow> 'v option" where
  "get_range_table pos nentries tab gappos gapsize dflt =
     (case get_range_table_pos pos nentries tab gappos gapsize of
        None \<Rightarrow> None
      | Some (entrypos, foundp) \<Rightarrow>
          if foundp then
            map_option rte_val (tab ! GAP_ARRAY_ARRAY_TO_MEMORY_POS_1 entrypos gappos gapsize)
          else Some dflt)"

definition Fget_range_table :: "int \<Rightarrow> 'v range_table \<Rightarrow> 'v \<Rightarrow> 'v option" where
  "Fget_range_table pos rt dflt =
     (let ents = rt_entries rt in
      get_range_table pos (ga_numels ents) (ga_array ents) (ga_gap ents) (ga_gapsize ents) dflt)"

section \<open>Insertion\<close>

text \<open>
  The loop of \<open>put_range_table\<close> that deletes all sections of existing ranges that overlap the
  new one.  The position to insert at is \<open>None\<close> while the C variable is negative.  Writing
  through the pointer to an entry is \<open>gap_array_store\<close>; after a deletion, the C code's
  decrement and the loop's increment cancel.
\<close>

partial_function (option) put_range_table_loop ::
    "int \<Rightarrow> int \<Rightarrow> 'v range_table_entry gap_array \<Rightarrow> nat \<Rightarrow> nat option \<Rightarrow>
     ('v range_table_entry gap_array \<times> nat \<times> nat option) option" where
  "put_range_table_loop first limit ents i insert_me_here =
     (if i < ga_numels ents then
        case gap_array_at ents i of
          None \<Rightarrow> None
        | Some entry \<Rightarrow>
            let insert_me_here =
              (if rte_first entry \<ge> first \<and> insert_me_here = None then Some i else insert_me_here)
            in if rte_last entry < first then
                 put_range_table_loop first limit ents (i + 1) insert_me_here
               else if rte_first entry > limit then Some (ents, i, insert_me_here)
               else if rte_first entry < first \<and> rte_last entry \<le> limit then
                 case gap_array_store ents i (entry\<lparr>rte_last := first\<rparr>) of
                   None \<Rightarrow> None
                 | Some ents \<Rightarrow> put_range_table_loop first limit ents (i + 1) insert_me_here
               else if rte_first entry < first \<and> rte_last entry > limit then
                 case gap_array_store ents i (entry\<lparr>rte_last := first\<rparr>) of
                   None \<Rightarrow> None
                 | Some ents \<Rightarrow>
                     case gap_array_insert_els ents (i + 1)
                       [\<lparr>rte_first = limit, rte_last = rte_last entry, rte_val = rte_val entry\<rparr>] of
                       None \<Rightarrow> None
                     | Some ents \<Rightarrow> put_range_table_loop first limit ents (i + 1) insert_me_here
               else if rte_last entry \<ge> limit then
                 case gap_array_store ents i (entry\<lparr>rte_first := limit\<rparr>) of
                   None \<Rightarrow> None
                 | Some ents \<Rightarrow> put_range_table_loop first limit ents (i + 1) insert_me_here
               else
                 case gap_array_delete_els ents i 1 of
                   None \<Rightarrow> None
                 | Some ents \<Rightarrow> put_range_table_loop first limit ents i insert_me_here
      else Some (ents, i, insert_me_here))"

declare put_range_table_loop.simps [code]

text \<open>Combining the entry at position \<open>k\<close> with the one before it, and then with the one after it.\<close>

definition combine_before ::
    "int \<Rightarrow> int \<Rightarrow> 'v \<Rightarrow> 'v range_table_entry gap_array \<Rightarrow> nat \<Rightarrow>
     ('v range_table_entry gap_array \<times> nat \<times> int) option" where
  "combine_before first limit val ents k =
     (if k > 0 then do {
        entry \<leftarrow> gap_array_at ents (k - 1);
        if val = rte_val entry \<and> rte_last entry = first then do {
          ents \<leftarrow> gap_array_store ents (k - 1) (entry\<lparr>rte_last := limit\<rparr>);
          ents \<leftarrow> gap_array_delete_els ents k 1;
          Some (ents, k - 1, rte_first entry) }
        else Some (ents, k, first) }
      else Some (ents, k, first))"

definition combine_after ::
    "int \<Rightarrow> int \<Rightarrow> 'v \<Rightarrow> 'v range_table_entry gap_array \<Rightarrow> nat \<Rightarrow>
     'v range_table_entry gap_array option" where
  "combine_after first limit val ents k =
     (if k + 1 < ga_numels ents then do {
        entry \<leftarrow> gap_array_at ents (k + 1);
        if val = rte_val entry \<and> rte_first entry = limit then do {
          ents \<leftarrow> gap_array_store ents (k + 1) (entry\<lparr>rte_first := first\<rparr>);
          gap_array_delete_els ents k 1 }
        else Some ents }
      else Some ents)"

text \<open>
  The assertions of \<open>put_range_table\<close> under \<open>ERROR_CHECK_TYPES\<close> on what the search gives: a found entry
  holds the start of the new range; otherwise the start is before the entry at the position and not
  before the end of the one in front of it.
\<close>

definition assert_search_result :: "int \<Rightarrow> 'v range_table_entry gap_array \<Rightarrow> nat \<Rightarrow> bool \<Rightarrow> unit option" where
  "assert_search_result first ents i foundp =
     (if foundp then
        if i < ga_numels ents then do {
          entry \<leftarrow> gap_array_at ents i;
          if first \<ge> rte_first entry \<and> first < rte_last entry then Some () else None }
        else Some ()
      else do {
        _ \<leftarrow> (if i < ga_numels ents then do {
                entry \<leftarrow> gap_array_at ents i;
                if first < rte_first entry then Some () else None }
              else Some ());
        if i > 0 then do {
          entry \<leftarrow> gap_array_at ents (i - 1);
          if first \<ge> rte_last entry then Some () else None }
        else Some () })"

definition put_entries ::
    "int \<Rightarrow> int \<Rightarrow> 'v option \<Rightarrow> 'v range_table_entry gap_array \<Rightarrow> 'v range_table_entry gap_array option" where
  "put_entries first limit val ents = do {
     (i, foundp) \<leftarrow> get_range_table_pos first (ga_numels ents) (ga_array ents) (ga_gap ents) (ga_gapsize ents);
     _ \<leftarrow> assert_search_result first ents i foundp;
     let i = (if \<not> foundp \<and> i > 0 then i - 1 else i);
     (ents, i, insert_me_here) \<leftarrow> put_range_table_loop first limit ents i None;
     case val of
       None \<Rightarrow> Some ents
     | Some val \<Rightarrow> do {
         let k = (case insert_me_here of None \<Rightarrow> i | Some k \<Rightarrow> k);
         ents \<leftarrow> gap_array_insert_els ents k [\<lparr>rte_first = first, rte_last = limit, rte_val = val\<rparr>];
         (ents, k, first) \<leftarrow> combine_before first limit val ents k;
         combine_after first limit val ents k } }"

definition put_range_table :: "'v range_table \<Rightarrow> int \<Rightarrow> int \<Rightarrow> 'v option \<Rightarrow> 'v range_table option" where
  "put_range_table rt first limit val =
     (let (first, limit) = external_to_internal_adjust_ends (rt_type rt) first limit in
      if first = limit then Some rt
      else if first > limit then Some rt
      else map_option (\<lambda>ents. rt\<lparr>rt_entries := ents\<rparr>) (put_entries first limit val (rt_entries rt)))"

text \<open>The check of \<open>verify_range_table\<close>, which runs after every \<open>put-range-table\<close>.\<close>

fun verify_entries :: "'v range_table_entry list \<Rightarrow> bool" where
  "verify_entries [] = True"
| "verify_entries [e] = (rte_first e \<le> rte_last e)"
| "verify_entries (e # f # es) =
     (rte_first e \<le> rte_last e \<and> rte_last e \<le> rte_first f \<and> verify_entries (f # es))"

definition verify_range_table :: "'v range_table \<Rightarrow> bool" where
  "verify_range_table rt = verify_entries (ga_els (rt_entries rt))"

definition Fput_range_table ::
    "int \<Rightarrow> int \<Rightarrow> 'v option \<Rightarrow> 'v range_table \<Rightarrow> range_table_error + 'v range_table" where
  "Fput_range_table start end value rt =
     (if start > end then Inl (Invalid_Argument start end)
      else case put_range_table rt start end value of
             None \<Rightarrow> Inl Aborted
           | Some rt \<Rightarrow> if verify_range_table rt then Inr rt else Inl Aborted)"

definition Fremove_range_table :: "int \<Rightarrow> int \<Rightarrow> 'v range_table \<Rightarrow> range_table_error + 'v range_table" where
  "Fremove_range_table start end rt = Fput_range_table start end None rt"

definition Fclear_range_table :: "'v range_table \<Rightarrow> 'v range_table option" where
  "Fclear_range_table rt =
     map_option (\<lambda>ents. rt\<lparr>rt_entries := ents\<rparr>) (gap_array_delete_all_els (rt_entries rt))"

section \<open>Mapping\<close>

text \<open>
  \<open>map-range-table\<close>: the Lisp function gets the table as it is and may change it; its own state
  is threaded along, and an error it signals is an \<open>Inl\<close>.  The entry is copied before the call,
  so the test for a changed entry compares the copy with itself.
\<close>

partial_function (option) map_range_table_loop ::
    "('v range_table \<Rightarrow> int \<Rightarrow> int \<Rightarrow> 'v \<Rightarrow> 's \<Rightarrow> range_table_error + 'v range_table \<times> 's) \<Rightarrow>
     nat \<Rightarrow> 'v range_table_entry option \<Rightarrow> 'v range_table \<Rightarrow> 's \<Rightarrow>
     (range_table_error + 'v range_table \<times> 's) option" where
  "map_range_table_loop f i again rt s =
     (if again = None \<and> \<not> i < ga_numels (rt_entries rt) then Some (Inr (rt, s))
      else case (case again of None \<Rightarrow> gap_array_at (rt_entries rt) i | Some e \<Rightarrow> Some e) of
             None \<Rightarrow> Some (Inl Aborted)
           | Some entry \<Rightarrow>
               let first = rte_first entry; limit = rte_last entry;
                   oldlen = ga_numels (rt_entries rt);
                   (premier, dernier) = internal_to_external_adjust_ends (rt_type rt) first limit
               in case f rt premier dernier (rte_val entry) s of
                    Inl e \<Rightarrow> Some (Inl e)
                  | Inr (rt, s) \<Rightarrow>
                      if oldlen > ga_numels (rt_entries rt) \<and> i < ga_numels (rt_entries rt)
                         \<and> (first \<noteq> rte_first entry \<or> limit \<noteq> rte_last entry)
                      then map_range_table_loop f i (Some entry) rt s
                      else map_range_table_loop f (i + 1) None rt s)"

declare map_range_table_loop.simps [code]

definition Fmap_range_table where
  "Fmap_range_table f rt s = map_range_table_loop f 0 None rt s"

section \<open>Comparison\<close>

text \<open>\<open>range_table_equal\<close>, with \<open>internal_equal_0\<close> at the current depth as the comparison of values.\<close>

definition range_table_equal :: "('v \<Rightarrow> 'v \<Rightarrow> bool) \<Rightarrow> 'v range_table \<Rightarrow> 'v range_table \<Rightarrow> bool" where
  "range_table_equal eqv rt1 rt2 =
     (let es1 = ga_els (rt_entries rt1); es2 = ga_els (rt_entries rt2) in
      length es1 = length es2 \<and>
      list_all2 (\<lambda>e1 e2. rte_first e1 = rte_first e2 \<and> rte_last e1 = rte_last e2 \<and>
        eqv (rte_val e1) (rte_val e2)) es1 es2)"

section \<open>Invariant and meaning\<close>

definition covers :: "int \<Rightarrow> 'v range_table_entry \<Rightarrow> bool" where
  "covers x e \<longleftrightarrow> rte_first e \<le> x \<and> x < rte_last e"

text \<open>The sequence of entries is sorted; empty entries are allowed (and do occur).\<close>

definition rt_ok :: "'v range_table_entry list \<Rightarrow> bool" where
  "rt_ok es \<longleftrightarrow> sorted_wrt (\<lambda>a b. rte_last a \<le> rte_first b) es \<and> (\<forall>e \<in> set es. rte_first e \<le> rte_last e)"

definition assoc :: "'v range_table_entry list \<Rightarrow> int \<Rightarrow> 'v \<Rightarrow> bool" where
  "assoc es x v \<longleftrightarrow> (\<exists>e \<in> set es. covers x e \<and> rte_val e = v)"

definition rt_wf :: "'v range_table \<Rightarrow> bool" where
  "rt_wf rt \<longleftrightarrow> ga_wf (rt_entries rt) \<and> rt_ok (ga_els (rt_entries rt))"

lemma rt_ok_simps [simp]:
  "rt_ok []"
  "rt_ok (e # es) \<longleftrightarrow> rte_first e \<le> rte_last e \<and> (\<forall>b \<in> set es. rte_last e \<le> rte_first b) \<and> rt_ok es"
  "rt_ok (es @ fs) \<longleftrightarrow> rt_ok es \<and> rt_ok fs \<and> (\<forall>a \<in> set es. \<forall>b \<in> set fs. rte_last a \<le> rte_first b)"
  by (auto simp: rt_ok_def sorted_wrt_append)

lemma assoc_simps [simp]:
  "\<not> assoc [] x v"
  "assoc (e # es) x v \<longleftrightarrow> covers x e \<and> rte_val e = v \<or> assoc es x v"
  "assoc (es @ fs) x v \<longleftrightarrow> assoc es x v \<or> assoc fs x v"
  by (auto simp: assoc_def)

lemma assoc_unique: "rt_ok es \<Longrightarrow> assoc es x v \<Longrightarrow> assoc es x w \<Longrightarrow> v = w"
  by (induction es) (force simp: assoc_def covers_def)+

lemma verify_entries_iff: "verify_entries es \<longleftrightarrow> rt_ok es"
proof (induction es rule: verify_entries.induct)
  case (3 e f es)
  have "rt_ok (f # es) \<Longrightarrow> rte_last e \<le> rte_first f \<Longrightarrow> \<forall>b \<in> set es. rte_last e \<le> rte_first b"
    by fastforce
  with 3 show ?case by auto
qed auto

lemma rt_ok_nth:
  assumes "rt_ok es" "i < j" "j < length es"
  shows "rte_last (es ! i) \<le> rte_first (es ! j)"
  using assms by (auto simp: rt_ok_def sorted_wrt_iff_nth_less)

lemma rt_ok_nth_self: "rt_ok es \<Longrightarrow> i < length es \<Longrightarrow> rte_first (es ! i) \<le> rte_last (es ! i)"
  by (auto simp: rt_ok_def)

section \<open>The binary search\<close>

definition search_result :: "'v range_table_entry list \<Rightarrow> int \<Rightarrow> nat \<times> bool \<Rightarrow> bool" where
  "search_result es pos r \<longleftrightarrow> (case r of (k, found) \<Rightarrow>
     (if found then k < length es \<and> covers pos (es ! k)
      else k \<le> length es \<and> (\<forall>j < k. rte_last (es ! j) \<le> pos) \<and>
           (\<forall>j. k \<le> j \<and> j < length es \<longrightarrow> pos < rte_first (es ! j))))"

lemma get_range_table_pos_loop_ok:
  assumes lay: "ga_layout ga L g R" and ok: "rt_ok (L @ R)"
  shows "left \<le> right \<Longrightarrow> right \<le> length (L @ R) \<Longrightarrow>
    \<forall>j < left. rte_last ((L @ R) ! j) \<le> pos \<Longrightarrow>
    \<forall>j. right \<le> j \<and> j < length (L @ R) \<longrightarrow> pos < rte_first ((L @ R) ! j) \<Longrightarrow>
    \<exists>r. get_range_table_pos_loop pos (ga_array ga) (ga_gap ga) (ga_gapsize ga) left right = Some r \<and>
        search_result (L @ R) pos r"
proof (induction "right - left" arbitrary: left right rule: less_induct)
  case less
  let ?es = "L @ R" and ?n = "(left + right) div 2"
  show ?case
  proof (cases "left = right")
    case True
    then have "get_range_table_pos_loop pos (ga_array ga) (ga_gap ga) (ga_gapsize ga) left right = Some (left, False)"
      by (simp add: get_range_table_pos_loop.simps)
    moreover have "search_result ?es pos (left, False)"
      using True less.prems by (simp add: search_result_def)
    ultimately show ?thesis by blast
  next
    case False
    then have n: "left \<le> ?n" "?n < right" "?n < length ?es" using less.prems by auto
    let ?m = "GAP_ARRAY_ARRAY_TO_MEMORY_POS_1 ?n (ga_gap ga) (ga_gapsize ga)"
    have cell: "?m < length (ga_array ga)" "ga_array ga ! ?m = Some (?es ! ?n)"
      using gap_array_at_layout(1,2) [OF lay n(3)] by (simp_all add: GAP_ARRAY_ARRAY_TO_MEMORY_POS_def)
    have unfold: "get_range_table_pos_loop pos (ga_array ga) (ga_gap ga) (ga_gapsize ga) left right =
        (if pos \<ge> rte_last (?es ! ?n) then
           get_range_table_pos_loop pos (ga_array ga) (ga_gap ga) (ga_gapsize ga) (?n + 1) right
         else if pos < rte_first (?es ! ?n) then
           get_range_table_pos_loop pos (ga_array ga) (ga_gap ga) (ga_gapsize ga) left ?n
         else Some (?n, True))"
      using False cell by (simp add: get_range_table_pos_loop.simps [of _ _ _ _ left right] Let_def)
    consider "rte_last (?es ! ?n) \<le> pos" | "pos < rte_last (?es ! ?n)" "pos < rte_first (?es ! ?n)"
      | "pos < rte_last (?es ! ?n)" "rte_first (?es ! ?n) \<le> pos" by linarith
    then show ?thesis
    proof cases
      case 1
      have "rte_last (?es ! j) \<le> pos" if "j < ?n + 1" for j
        using that rt_ok_nth [OF ok, of j ?n] rt_ok_nth_self [OF ok n(3)] n(3) 1
        by (cases "j = ?n") auto
      then have "\<exists>r. get_range_table_pos_loop pos (ga_array ga) (ga_gap ga) (ga_gapsize ga) (?n + 1) right = Some r \<and>
          search_result ?es pos r"
        using n less.prems by (intro less.hyps) auto
      with 1 unfold show ?thesis by simp
    next
      case 2
      have "pos < rte_first (?es ! j)" if "?n \<le> j" "j < length ?es" for j
        using that rt_ok_nth [OF ok, of ?n j] rt_ok_nth_self [OF ok n(3)] 2 by (cases "j = ?n") auto
      then have "\<exists>r. get_range_table_pos_loop pos (ga_array ga) (ga_gap ga) (ga_gapsize ga) left ?n = Some r \<and>
          search_result ?es pos r"
        using n less.prems by (intro less.hyps) auto
      with 2 unfold show ?thesis by simp
    next
      case 3
      with unfold n show ?thesis by (simp add: search_result_def covers_def)
    qed
  qed
qed

lemma get_range_table_pos_ok:
  assumes "ga_wf ga" "rt_ok (ga_els ga)"
  shows "\<exists>r. get_range_table_pos pos (ga_numels ga) (ga_array ga) (ga_gap ga) (ga_gapsize ga) = Some r \<and>
           search_result (ga_els ga) pos r"
proof -
  obtain L g R where lay: "ga_layout ga L g R" using assms(1) by (rule ga_wf_layoutE)
  from get_range_table_pos_loop_ok [OF lay, of 0 "length (L @ R)" pos] assms lay
  show ?thesis by (simp add: get_range_table_pos_def ga_layout_els) (simp add: ga_layout_def)
qed

lemma search_found: "search_result es pos (k, True) \<Longrightarrow> assoc es pos (rte_val (es ! k))"
  by (auto simp: search_result_def assoc_def)

lemma search_not_found:
  assumes "search_result es pos (k, False)"
  shows "\<not> assoc es pos v"
proof
  assume "assoc es pos v"
  then obtain j where j: "j < length es" "covers pos (es ! j)" by (auto simp: assoc_def in_set_conv_nth)
  have "j < k \<Longrightarrow> rte_last (es ! j) \<le> pos" "k \<le> j \<Longrightarrow> pos < rte_first (es ! j)"
    using assms j(1) by (simp_all add: search_result_def)
  with j(2) show False by (cases "j < k") (simp_all add: covers_def)
qed

lemma Fget_range_table_ok:
  assumes "rt_wf rt"
  shows "if \<exists>v. assoc (ga_els (rt_entries rt)) pos v
         then \<exists>v. assoc (ga_els (rt_entries rt)) pos v \<and> Fget_range_table pos rt dflt = Some v
         else Fget_range_table pos rt dflt = Some dflt"
proof -
  let ?ga = "rt_entries rt"
  have wf: "ga_wf ?ga" and ok: "rt_ok (ga_els ?ga)" using assms by (auto simp: rt_wf_def)
  obtain k b where r: "get_range_table_pos pos (ga_numels ?ga) (ga_array ?ga) (ga_gap ?ga) (ga_gapsize ?ga) = Some (k, b)"
      "search_result (ga_els ?ga) pos (k, b)"
    using get_range_table_pos_ok [OF wf ok] by fast
  show ?thesis
  proof (cases b)
    case True
    obtain L g R where lay: "ga_layout ?ga L g R" using wf by (rule ga_wf_layoutE)
    have k: "k < length (L @ R)" using r True by (simp add: search_result_def ga_layout_els [OF lay])
    have "Fget_range_table pos rt dflt = Some (rte_val (ga_els ?ga ! k))"
      using r True gap_array_at_layout(2) [OF lay k]
      by (simp add: Fget_range_table_def get_range_table_def Let_def ga_layout_els [OF lay]
          GAP_ARRAY_ARRAY_TO_MEMORY_POS_def)
    with search_found r True show ?thesis by auto
  next
    case False
    have none: "\<not> assoc (ga_els ?ga) pos v" for v
      using search_not_found [of "ga_els ?ga" pos k v] r(2) False by simp
    then have "\<not> (\<exists>v. assoc (ga_els ?ga) pos v)" by simp
    moreover have "Fget_range_table pos rt dflt = Some dflt"
      using r(1) False by (simp add: Fget_range_table_def get_range_table_def Let_def)
    ultimately show ?thesis by simp
  qed
qed

text \<open>The value of a table at a position, as one function.\<close>

lemma Fget_range_table_iff:
  assumes "rt_wf rt"
  shows "Fget_range_table pos rt dflt = Some w \<longleftrightarrow>
    assoc (ga_els (rt_entries rt)) pos w \<or> (w = dflt \<and> (\<nexists>v. assoc (ga_els (rt_entries rt)) pos v))"
  using Fget_range_table_ok [OF assms, of pos dflt] assms assoc_unique
  by (auto simp: rt_wf_def split: if_splits)

section \<open>The deleting loop\<close>

text \<open>
  \<open>put_inv\<close> relates the entries already passed (\<open>P\<close>), those still to come (\<open>Q\<close>) and the
  insertion point; \<open>put_post\<close> says that the new range fits at \<open>k\<close> and that nothing outside
  it has changed.
\<close>

definition put_inv :: "int \<Rightarrow> int \<Rightarrow> 'v range_table_entry list \<Rightarrow> 'v range_table_entry list \<Rightarrow> nat option \<Rightarrow> bool" where
  "put_inv f l P Q ins \<longleftrightarrow>
     (case ins of
        None \<Rightarrow> \<forall>a \<in> set P. rte_last a \<le> f
      | Some k \<Rightarrow> k \<le> length P \<and> (\<forall>a \<in> set (take k P). rte_last a \<le> f) \<and>
          (\<forall>b \<in> set (drop k P). l \<le> rte_first b) \<and> (\<forall>b \<in> set Q. f \<le> rte_first b))"

definition put_post :: "int \<Rightarrow> int \<Rightarrow> 'v range_table_entry list \<Rightarrow> 'v range_table_entry list \<Rightarrow> nat \<Rightarrow> bool" where
  "put_post f l es es' k \<longleftrightarrow>
     rt_ok es' \<and> k \<le> length es' \<and> (\<forall>a \<in> set (take k es'). rte_last a \<le> f) \<and>
     (\<forall>b \<in> set (drop k es'). l \<le> rte_first b) \<and>
     (\<forall>x v. x < f \<or> l \<le> x \<longrightarrow> assoc es' x v = assoc es x v)"

lemma put_post_trans:
  "put_post f l es1 es' k \<Longrightarrow> (\<And>x v. x < f \<or> l \<le> x \<Longrightarrow> assoc es1 x v = assoc es x v) \<Longrightarrow>
   put_post f l es es' k"
  by (simp add: put_post_def)

text \<open>The update of the insertion point at the start of an iteration.\<close>

lemma put_inv_enter:
  assumes "rt_ok (P @ e # Q)" "put_inv f l P (e # Q) ins" "length P = i"
  shows "put_inv f l P (e # Q) (if f \<le> rte_first e \<and> ins = None then Some i else ins)"
  using assms by (fastforce simp: put_inv_def split: option.splits)

lemma put_inv_before:
  assumes "rt_ok (P @ e # Q)" "put_inv f l P (e # Q) ins" "rte_first e < f"
  shows "ins = None" "\<forall>a \<in> set P. rte_last a \<le> f"
  using assms by (auto simp: put_inv_def split: option.splits)

lemma put_inv_exit:
  assumes "rt_ok (P @ Q)" "put_inv f l P Q ins" "\<forall>b \<in> set Q. l \<le> rte_first b"
  shows "put_post f l (P @ Q) (P @ Q) (case ins of None \<Rightarrow> length P | Some k \<Rightarrow> k)"
  using assms by (auto simp: put_inv_def put_post_def split: option.splits)

abbreviation put_splits :: "int \<Rightarrow> int \<Rightarrow> 'v range_table_entry list \<Rightarrow> nat" where
  "put_splits f l Q \<equiv> length (filter (\<lambda>e. rte_first e < f \<and> l < rte_last e) Q)"

lemma put_range_table_loop_ok:
  assumes fl: "f < l"
  shows "ga_wf ents \<Longrightarrow> ga_els ents = P @ Q \<Longrightarrow> length P = i \<Longrightarrow> rt_ok (P @ Q) \<Longrightarrow>
    put_inv f l P Q ins \<Longrightarrow>
    \<exists>ents' i' ins'. put_range_table_loop f l ents i ins = Some (ents', i', ins') \<and> ga_wf ents' \<and>
      put_post f l (P @ Q) (ga_els ents') (case ins' of None \<Rightarrow> i' | Some k \<Rightarrow> k)"
proof (induction "length Q + put_splits f l Q" arbitrary: ents P Q i ins rule: less_induct)
  case less
  note wf = less.prems(1) and els = less.prems(2) and i = less.prems(3) and ok = less.prems(4) and inv = less.prems(5)
  have num: "ga_numels ents = length P + length Q" using length_ga_els [OF wf] els by simp
  let ?goal = "\<lambda>r. \<exists>ents' i' ins'. r = Some (ents', i', ins') \<and> ga_wf ents' \<and>
      put_post f l (P @ Q) (ga_els ents') (case ins' of None \<Rightarrow> i' | Some k \<Rightarrow> k)"
  show ?case
  proof (cases Q)
    case Nil
    with num i have "put_range_table_loop f l ents i ins = Some (ents, i, ins)"
      by (simp add: put_range_table_loop.simps)
    moreover have "put_post f l (P @ Q) (ga_els ents) (case ins of None \<Rightarrow> i | Some k \<Rightarrow> k)"
      using put_inv_exit [OF ok inv, unfolded i] Nil els by simp
    ultimately show ?thesis using wf by blast
  next
    case (Cons e Q')
    define ins1 where "ins1 = (if f \<le> rte_first e \<and> ins = None then Some i else ins)"
    have inv1: "put_inv f l P (e # Q') ins1"
      unfolding ins1_def using put_inv_enter ok inv i Cons by blast
    have at: "gap_array_at ents i = Some e" using gap_array_at_ok [OF wf, of i] els i Cons by (auto simp: nth_append)
    have step: "put_range_table_loop f l ents i ins =
      (if rte_last e < f then put_range_table_loop f l ents (i + 1) ins1
       else if rte_first e > l then Some (ents, i, ins1)
       else if rte_first e < f \<and> rte_last e \<le> l then
         (case gap_array_store ents i (e\<lparr>rte_last := f\<rparr>) of
            None \<Rightarrow> None | Some ents \<Rightarrow> put_range_table_loop f l ents (i + 1) ins1)
       else if rte_first e < f \<and> rte_last e > l then
         (case gap_array_store ents i (e\<lparr>rte_last := f\<rparr>) of
            None \<Rightarrow> None
          | Some ents \<Rightarrow>
              (case gap_array_insert_els ents (i + 1)
                      [\<lparr>rte_first = l, rte_last = rte_last e, rte_val = rte_val e\<rparr>] of
                 None \<Rightarrow> None | Some ents \<Rightarrow> put_range_table_loop f l ents (i + 1) ins1))
       else if rte_last e \<ge> l then
         (case gap_array_store ents i (e\<lparr>rte_first := l\<rparr>) of
            None \<Rightarrow> None | Some ents \<Rightarrow> put_range_table_loop f l ents (i + 1) ins1)
       else (case gap_array_delete_els ents i 1 of
               None \<Rightarrow> None | Some ents \<Rightarrow> put_range_table_loop f l ents i ins1))"
      using num i Cons at
      by (subst put_range_table_loop.simps) (simp add: ins1_def [symmetric] Let_def del: not_less)
    have rec: "?goal (put_range_table_loop f l ents1 i1 ins1)"
      if "ga_wf ents1" "ga_els ents1 = P1 @ Q1" "length P1 = i1" "rt_ok (P1 @ Q1)" "put_inv f l P1 Q1 ins1"
        "length Q1 + put_splits f l Q1 < length Q + put_splits f l Q"
        "\<And>x v. x < f \<or> l \<le> x \<Longrightarrow> assoc (P1 @ Q1) x v = assoc (P @ Q) x v"
      for ents1 i1 P1 Q1
      using less.hyps [OF that(6,1,2,3,4,5)] put_post_trans that(7) by meson
    have store: "\<exists>ents1. gap_array_store ents i e' = Some ents1 \<and> ga_wf ents1 \<and> ga_els ents1 = P @ e' # Q'" for e'
      using gap_array_store_ok [OF wf, of i e'] els i Cons by (auto simp: list_update_append)
    consider (before) "rte_last e < f"
      | (after) "f \<le> rte_last e" "l < rte_first e"
      | (cut) "f \<le> rte_last e" "rte_first e < f" "rte_last e \<le> l"
      | (split) "rte_first e < f" "l < rte_last e"
      | (cut_start) "f \<le> rte_first e" "rte_first e \<le> l" "l \<le> rte_last e"
      | (inside) "f \<le> rte_first e" "rte_last e < l" by linarith
    then show ?thesis
    proof cases
      case before
      then have "rte_first e < f" using ok Cons by auto
      with put_inv_before [OF ok [unfolded Cons] inv1] before
      have "put_inv f l (P @ [e]) Q' ins1" by (auto simp: put_inv_def)
      then have "?goal (put_range_table_loop f l ents (i + 1) ins1)"
        using wf els i ok Cons by (intro rec [of ents "P @ [e]" Q']) auto
      with before step show ?thesis by simp
    next
      case after
      then have "\<forall>b \<in> set (e # Q'). l \<le> rte_first b" using ok Cons by fastforce
      from put_inv_exit [OF ok [unfolded Cons] inv1 this, unfolded i] Cons
      have "put_post f l (P @ Q) (ga_els ents) (case ins1 of None \<Rightarrow> i | Some k \<Rightarrow> k)" using els by simp
      with after step wf show ?thesis by auto
    next
      case cut
      note b = put_inv_before [OF ok [unfolded Cons] inv1 cut(2)]
      obtain ents1 where s: "gap_array_store ents i (e\<lparr>rte_last := f\<rparr>) = Some ents1" "ga_wf ents1"
          "ga_els ents1 = (P @ [e\<lparr>rte_last := f\<rparr>]) @ Q'" using store by fastforce
      have "?goal (put_range_table_loop f l ents1 (i + 1) ins1)"
        using ok cut s b Cons i fl
        by (intro rec [OF s(2,3)]) (auto simp: put_inv_def covers_def)
      with cut step s show ?thesis by simp
    next
      case split
      note b = put_inv_before [OF ok [unfolded Cons] inv1 split(1)]
      let ?new = "\<lparr>rte_first = l, rte_last = rte_last e, rte_val = rte_val e\<rparr>"
      obtain ents1 where s: "gap_array_store ents i (e\<lparr>rte_last := f\<rparr>) = Some ents1" "ga_wf ents1"
          "ga_els ents1 = P @ e\<lparr>rte_last := f\<rparr> # Q'" using store by blast
      obtain ents2 where n: "gap_array_insert_els ents1 (i + 1) [?new] = Some ents2" "ga_wf ents2"
          "ga_els ents2 = (P @ [e\<lparr>rte_last := f\<rparr>]) @ ?new # Q'"
        using ga.ins_law [OF s(2), of "i + 1" "[?new]"] s(3) i by (auto simp: list_insert_def)
      have "?goal (put_range_table_loop f l ents2 (i + 1) ins1)"
        using ok split n b Cons i fl
        by (intro rec [OF n(2,3)]) (fastforce simp: put_inv_def covers_def)+
      with split fl step s n show ?thesis by simp
    next
      case cut_start
      obtain ents1 where s: "gap_array_store ents i (e\<lparr>rte_first := l\<rparr>) = Some ents1" "ga_wf ents1"
          "ga_els ents1 = (P @ [e\<lparr>rte_first := l\<rparr>]) @ Q'" using store by fastforce
      obtain k where k: "ins1 = Some k" using cut_start by (cases ins) (auto simp: ins1_def)
      have "?goal (put_range_table_loop f l ents1 (i + 1) ins1)"
        using ok cut_start s inv1 Cons i fl k
        by (intro rec [OF s(2,3)]) (auto simp: put_inv_def covers_def)
      with cut_start fl step s show ?thesis by simp
    next
      case inside
      obtain ents1 where s: "gap_array_delete_els ents i 1 = Some ents1" "ga_wf ents1" "ga_els ents1 = P @ Q'"
        using ga.del_law [OF wf, of i 1] els i Cons by (auto simp: list_delete_def)
      obtain k where k: "ins1 = Some k" using inside by (cases ins) (auto simp: ins1_def)
      have "?goal (put_range_table_loop f l ents1 i ins1)"
        using ok inside s inv1 Cons i fl k
        by (intro rec [OF s(2,3)]) (auto simp: put_inv_def covers_def)
      moreover have "rte_first e \<le> rte_last e" using ok Cons by simp
      ultimately show ?thesis using inside fl step s by simp
    qed
  qed
qed


section \<open>Inserting and combining\<close>

lemma combine_before_ok:
  assumes wf: "ga_wf ents" and els: "ga_els ents = A @ \<lparr>rte_first = f, rte_last = l, rte_val = v\<rparr> # B"
    and k: "length A = k" and ok: "rt_ok (ga_els ents)" and fl: "f < l"
  shows "\<exists>ents' k' f' A'. combine_before f l v ents k = Some (ents', k', f') \<and> ga_wf ents' \<and>
    ga_els ents' = A' @ \<lparr>rte_first = f', rte_last = l, rte_val = v\<rparr> # B \<and> length A' = k' \<and> f' < l \<and>
    rt_ok (ga_els ents') \<and> (\<forall>x w. assoc (ga_els ents') x w = assoc (ga_els ents) x w)"
proof (cases A rule: rev_cases)
  case Nil
  with assms show ?thesis by (auto simp: combine_before_def)
next
  case (snoc A0 e)
  have at: "gap_array_at ents (k - 1) = Some e"
    using gap_array_at_ok [OF wf, of "k - 1"] els k snoc length_ga_els [OF wf] by (auto simp: nth_append)
  show ?thesis
  proof (cases "v = rte_val e \<and> rte_last e = f")
    case False
    with at assms snoc show ?thesis by (auto simp: combine_before_def)
  next
    case True
    obtain ents1 where s: "gap_array_store ents (k - 1) (e\<lparr>rte_last := l\<rparr>) = Some ents1" "ga_wf ents1"
        "ga_els ents1 = (ga_els ents)[k - 1 := e\<lparr>rte_last := l\<rparr>]"
      using gap_array_store_ok [OF wf, of "k - 1"] els k snoc length_ga_els [OF wf] by fastforce
    have s3: "ga_els ents1 = A0 @ e\<lparr>rte_last := l\<rparr> # \<lparr>rte_first = f, rte_last = l, rte_val = v\<rparr> # B"
      using s(3) els k snoc by (auto simp: list_update_append)
    obtain ents2 where d: "gap_array_delete_els ents1 k 1 = Some ents2" "ga_wf ents2"
        "ga_els ents2 = A0 @ e\<lparr>rte_last := l\<rparr> # B"
      using ga.del_law [OF s(2), of k 1] s3 k snoc by (auto simp: list_delete_def)
    have "combine_before f l v ents k = Some (ents2, k - 1, rte_first e)"
      using at True s(1) d(1) k snoc by (simp add: combine_before_def)
    moreover have "e\<lparr>rte_last := l\<rparr> = \<lparr>rte_first = rte_first e, rte_last = l, rte_val = v\<rparr>"
      using True by simp
    moreover have "rte_first e < l" "rt_ok (ga_els ents2)"
      using ok els snoc True fl d(3) by auto
    moreover have "\<forall>x w. assoc (ga_els ents2) x w = assoc (ga_els ents) x w"
      using True d(3) els snoc fl ok by (auto simp: covers_def)
    ultimately show ?thesis using d k snoc
      by (intro exI [of _ ents2] exI [of _ "k - 1"] exI [of _ "rte_first e"] exI [of _ A0]) simp
  qed
qed

lemma combine_after_ok:
  assumes wf: "ga_wf ents" and els: "ga_els ents = A @ \<lparr>rte_first = f, rte_last = l, rte_val = v\<rparr> # B"
    and k: "length A = k" and ok: "rt_ok (ga_els ents)" and fl: "f < l"
  shows "\<exists>ents'. combine_after f l v ents k = Some ents' \<and> ga_wf ents' \<and> rt_ok (ga_els ents') \<and>
    (\<forall>x w. assoc (ga_els ents') x w = assoc (ga_els ents) x w)"
proof (cases B)
  case Nil
  then have "combine_after f l v ents k = Some ents"
    using length_ga_els [OF wf] els k by (simp add: combine_after_def)
  with wf ok show ?thesis by simp
next
  case (Cons e B0)
  have at: "gap_array_at ents (k + 1) = Some e"
    using gap_array_at_ok [OF wf, of "k + 1"] els k Cons length_ga_els [OF wf] by (auto simp: nth_append)
  have len: "k + 1 < ga_numels ents" using length_ga_els [OF wf] els k Cons by simp
  show ?thesis
  proof (cases "v = rte_val e \<and> rte_first e = l")
    case False
    with at len wf ok show ?thesis by (auto simp: combine_after_def)
  next
    case True
    obtain ents1 where s: "gap_array_store ents (k + 1) (e\<lparr>rte_first := f\<rparr>) = Some ents1" "ga_wf ents1"
        "ga_els ents1 = (ga_els ents)[k + 1 := e\<lparr>rte_first := f\<rparr>]"
      using gap_array_store_ok [OF wf, of "k + 1"] len length_ga_els [OF wf] by fastforce
    have s3: "ga_els ents1 = A @ \<lparr>rte_first = f, rte_last = l, rte_val = v\<rparr> # e\<lparr>rte_first := f\<rparr> # B0"
      using s(3) els k Cons by (auto simp: list_update_append)
    obtain ents2 where d: "gap_array_delete_els ents1 k 1 = Some ents2" "ga_wf ents2"
        "ga_els ents2 = A @ e\<lparr>rte_first := f\<rparr> # B0"
      using ga.del_law [OF s(2), of k 1] s3 k by (auto simp: list_delete_def)
    have "combine_after f l v ents k = Some ents2"
      using at len True s(1) d(1) by (simp add: combine_after_def)
    moreover have "rt_ok (ga_els ents2)" using ok els Cons True fl d(3) by auto
    moreover have "\<forall>x w. assoc (ga_els ents2) x w = assoc (ga_els ents) x w"
      using True d(3) els Cons fl ok by (auto simp: covers_def)
    ultimately show ?thesis using d(2) by blast
  qed
qed

lemma assert_search_result_ok:
  assumes wf: "ga_wf ents" and r: "search_result (ga_els ents) first (i, found)"
  shows "assert_search_result first ents i found = Some ()"
proof -
  have len: "length (ga_els ents) = ga_numels ents" by (rule length_ga_els [OF wf])
  have at: "gap_array_at ents j = Some (ga_els ents ! j)" if "j < ga_numels ents" for j
    using gap_array_at_ok [OF wf, of j] that len by simp
  show ?thesis
  proof (cases found)
    case True
    then show ?thesis using r at [of i] len by (simp add: assert_search_result_def search_result_def covers_def)
  next
    case False
    then have "i > 0 \<Longrightarrow> i - 1 < ga_numels ents" using r len by (auto simp: search_result_def)
    then show ?thesis using False r at [of i] at [of "i - 1"] len
      by (simp add: assert_search_result_def search_result_def)
  qed
qed

text \<open>Where the loop starts: every entry before the starting index ends at or before the new range.\<close>

lemma put_start:
  assumes ok: "rt_ok es" and r: "search_result es f (k, found)"
  defines "i \<equiv> if \<not> found \<and> k > 0 then k - 1 else k"
  shows "i \<le> length es" "put_inv f l (take i es) (drop i es) None"
proof -
  show i: "i \<le> length es" using r by (auto simp: i_def search_result_def split: if_splits)
  have "rte_last (es ! j) \<le> f" if "j < i" "j < length es" for j
  proof (cases found)
    case True
    then have "i = k" "k < length es" "rte_first (es ! k) \<le> f"
      using r by (auto simp: i_def search_result_def covers_def)
    with rt_ok_nth [OF ok, of j k] that show ?thesis by simp
  next
    case False
    then have "\<forall>j < k. rte_last (es ! j) \<le> f" "i \<le> k" using r by (auto simp: i_def search_result_def)
    with that show ?thesis by simp
  qed
  then show "put_inv f l (take i es) (drop i es) None"
    using i by (auto simp: put_inv_def in_set_conv_nth)
qed

lemma put_entries_ok:
  assumes wf: "ga_wf ents" and ok: "rt_ok (ga_els ents)" and fl: "f < l"
  shows "\<exists>ents'. put_entries f l val ents = Some ents' \<and> ga_wf ents' \<and> rt_ok (ga_els ents') \<and>
    (\<forall>x w. assoc (ga_els ents') x w =
       (if f \<le> x \<and> x < l then val = Some w else assoc (ga_els ents) x w))"
proof -
  obtain i0 found where s: "get_range_table_pos f (ga_numels ents) (ga_array ents) (ga_gap ents) (ga_gapsize ents)
      = Some (i0, found)" "search_result (ga_els ents) f (i0, found)"
    using get_range_table_pos_ok [OF wf ok] by fast
  have chk: "assert_search_result f ents i0 found = Some ()" by (rule assert_search_result_ok [OF wf s(2)])
  define i where "i = (if \<not> found \<and> i0 > 0 then i0 - 1 else i0)"
  have st: "i \<le> length (ga_els ents)" "put_inv f l (take i (ga_els ents)) (drop i (ga_els ents)) None"
    unfolding i_def using put_start [OF ok s(2)] by auto
  have split: "ga_els ents = take i (ga_els ents) @ drop i (ga_els ents)" by simp
  have "length (take i (ga_els ents)) = i" using st(1) by simp
  from put_range_table_loop_ok [OF fl wf split this _ st(2)] ok
  obtain ents1 i1 ins1 where lp: "put_range_table_loop f l ents i None = Some (ents1, i1, ins1)" "ga_wf ents1"
    "put_post f l (ga_els ents) (ga_els ents1) (case ins1 of None \<Rightarrow> i1 | Some k \<Rightarrow> k)" by auto
  define k where "k = (case ins1 of None \<Rightarrow> i1 | Some k \<Rightarrow> k)"
  define A where "A = take k (ga_els ents1)"
  define B where "B = drop k (ga_els ents1)"
  have AB: "ga_els ents1 = A @ B" by (simp add: A_def B_def)
  have post: "rt_ok (A @ B)" "k \<le> length (ga_els ents1)" "length A = k" "\<forall>a \<in> set A. rte_last a \<le> f"
      "\<forall>b \<in> set B. l \<le> rte_first b" "\<And>x v. x < f \<or> l \<le> x \<Longrightarrow> assoc (A @ B) x v = assoc (ga_els ents) x v"
    using lp(3) unfolding k_def [symmetric] AB [symmetric] by (auto simp: put_post_def A_def B_def)
  have out: "\<not> assoc (A @ B) x w" if "f \<le> x" "x < l" for x w
    using that post(4,5) by (force simp: assoc_def covers_def)
  show ?thesis
  proof (cases val)
    case None
    then have "put_entries f l val ents = Some ents1"
      using s(1) chk lp(1) by (simp add: put_entries_def i_def [symmetric])
    moreover have "assoc (ga_els ents1) x w =
        (if f \<le> x \<and> x < l then val = Some w else assoc (ga_els ents) x w)" for x w
      using out [of x w] post(6) [of x w] None unfolding AB by auto
    ultimately show ?thesis using lp(2) post(1) AB by auto
  next
    case (Some v)
    let ?new = "\<lparr>rte_first = f, rte_last = l, rte_val = v\<rparr>"
    obtain ents2 where n: "gap_array_insert_els ents1 k [?new] = Some ents2" "ga_wf ents2"
        "ga_els ents2 = A @ ?new # B"
      using ga.ins_law [OF lp(2) post(2), of "[?new]"] by (auto simp: list_insert_def A_def B_def)
    have ok2: "rt_ok (ga_els ents2)" using n(3) post fl by auto
    obtain ents3 k3 f3 A3 where b: "combine_before f l v ents2 k = Some (ents3, k3, f3)" "ga_wf ents3"
        "ga_els ents3 = A3 @ \<lparr>rte_first = f3, rte_last = l, rte_val = v\<rparr> # B" "length A3 = k3" "f3 < l"
        "rt_ok (ga_els ents3)" "\<And>x w. assoc (ga_els ents3) x w = assoc (ga_els ents2) x w"
      using combine_before_ok [OF n(2,3) post(3) ok2 fl] by blast
    obtain ents4 where a: "combine_after f3 l v ents3 k3 = Some ents4" "ga_wf ents4" "rt_ok (ga_els ents4)"
        "\<And>x w. assoc (ga_els ents4) x w = assoc (ga_els ents3) x w"
      using combine_after_ok [OF b(2,3,4,6,5)] by blast
    have "put_entries f l val ents = Some ents4"
      using s(1) chk lp(1) n(1) b(1) a(1) Some
      by (simp add: put_entries_def i_def [symmetric] k_def [symmetric])
    moreover have "assoc (ga_els ents4) x w =
        (if f \<le> x \<and> x < l then val = Some w else assoc (ga_els ents) x w)" for x w
    proof -
      have "assoc (ga_els ents4) x w \<longleftrightarrow> covers x ?new \<and> v = w \<or> assoc (A @ B) x w"
        using a(4) b(7) n(3) by auto
      then show ?thesis using out [of x w] post(6) [of x w] Some
        by (auto simp: covers_def)
    qed
    ultimately show ?thesis using a(2,3) by blast
  qed
qed

section \<open>Properties\<close>

text \<open>Binary search is right: in a well-formed table, \<open>get-range-table\<close> never reads an uninitialised
  cell, returns the value of the one entry covering the position, and the default if there is none.\<close>

theorem Fget_range_table_correct:
  assumes "rt_wf rt"
  shows "(\<forall>e \<in> set (ga_els (rt_entries rt)). rte_first e \<le> pos \<and> pos < rte_last e \<longrightarrow>
            Fget_range_table pos rt dflt = Some (rte_val e)) \<and>
    ((\<forall>e \<in> set (ga_els (rt_entries rt)). pos < rte_first e \<or> rte_last e \<le> pos) \<longrightarrow>
            Fget_range_table pos rt dflt = Some dflt)"
  using Fget_range_table_iff [OF assms, of pos dflt]
  by (fastforce simp: assoc_def covers_def)

lemma Fget_range_table_cong:
  assumes "rt_wf rt" "rt_wf rt'"
    and "\<And>v. assoc (ga_els (rt_entries rt')) pos v = assoc (ga_els (rt_entries rt)) pos v"
  shows "Fget_range_table pos rt' dflt = Fget_range_table pos rt dflt"
  using Fget_range_table_iff [OF assms(1), of pos dflt] Fget_range_table_iff [OF assms(2), of pos dflt]
    assms(3) by (metis option.exhaust)

text \<open>C12: \<open>put_range_table\<close> implements the update of a function on positions: inside the (type
  adjusted) range every later lookup gives the new value, or the default after a removal, and outside
  it every lookup is unchanged; the table stays well-formed, whatever overlaps, splits and merges of
  existing entries that takes.  The call returns: no cell is read that is not an entry, and the assertions on
  the result of the search (under \<open>ERROR_CHECK_TYPES\<close>) hold.\<close>

theorem put_range_table_correct:
  assumes wf: "rt_wf rt" and adj: "external_to_internal_adjust_ends (rt_type rt) first limit = (lo, hi)"
  shows "\<exists>rt'. put_range_table rt first limit val = Some rt' \<and> rt_wf rt' \<and> rt_type rt' = rt_type rt \<and>
    (\<forall>pos dflt. Fget_range_table pos rt' dflt =
       (if lo \<le> pos \<and> pos < hi then Some (case val of None \<Rightarrow> dflt | Some v \<Rightarrow> v)
        else Fget_range_table pos rt dflt))"
proof (cases "lo < hi")
  case False
  then have "put_range_table rt first limit val = Some rt"
    using adj by (auto simp: put_range_table_def)
  with wf False show ?thesis by auto
next
  case True
  obtain ents where e: "put_entries lo hi val (rt_entries rt) = Some ents" "ga_wf ents" "rt_ok (ga_els ents)"
      "\<And>x w. assoc (ga_els ents) x w = (if lo \<le> x \<and> x < hi then val = Some w
                                          else assoc (ga_els (rt_entries rt)) x w)"
    using put_entries_ok [OF _ _ True, of "rt_entries rt" val] wf by (auto simp: rt_wf_def)
  let ?rt = "rt\<lparr>rt_entries := ents\<rparr>"
  have put: "put_range_table rt first limit val = Some ?rt"
    using adj True e(1) by (simp add: put_range_table_def)
  have wf': "rt_wf ?rt" using e by (simp add: rt_wf_def)
  have "Fget_range_table pos ?rt dflt =
       (if lo \<le> pos \<and> pos < hi then Some (case val of None \<Rightarrow> dflt | Some v \<Rightarrow> v)
        else Fget_range_table pos rt dflt)" for pos dflt
  proof (cases "lo \<le> pos \<and> pos < hi")
    case True
    with Fget_range_table_iff [OF wf', of pos dflt] e(4) show ?thesis by (cases val) auto
  next
    case False
    with e(4) show ?thesis by (auto intro: Fget_range_table_cong [OF wf wf'])
  qed
  with put wf' show ?thesis by auto
qed


lemma Fput_range_table_ok:
  assumes "rt_wf rt" "start \<le> end'"
  obtains rt' where "put_range_table rt start end' val = Some rt'" "Fput_range_table start end' val rt = Inr rt'"
    "rt_wf rt'" "rt_type rt' = rt_type rt"
proof -
  obtain lo hi where adj: "external_to_internal_adjust_ends (rt_type rt) start end' = (lo, hi)" by fastforce
  show thesis
  proof (cases "lo < hi")
    case True
    obtain ents where e: "put_entries lo hi val (rt_entries rt) = Some ents" "ga_wf ents" "rt_ok (ga_els ents)"
      using put_entries_ok [OF _ _ True, of "rt_entries rt" val] assms by (auto simp: rt_wf_def)
    with adj assms(2) True show thesis
      by (intro that [of "rt\<lparr>rt_entries := ents\<rparr>"])
        (auto simp: put_range_table_def Fput_range_table_def rt_wf_def verify_range_table_def verify_entries_iff)
  next
    case False
    with adj assms show thesis
      by (intro that [of rt])
        (auto simp: put_range_table_def Fput_range_table_def rt_wf_def verify_range_table_def verify_entries_iff)
  qed
qed

text \<open>\<open>put-range-table\<close> and \<open>remove-range-table\<close> signal exactly when the start is above the end;
  otherwise they succeed and \<open>verify_range_table\<close>, which aborts on a damaged table, never fires.\<close>

theorem Fput_range_table_errors:
  assumes "rt_wf rt"
  shows "(start > end' \<longrightarrow> Fput_range_table start end' val rt = Inl (Invalid_Argument start end')) \<and>
    (start \<le> end' \<longrightarrow> (\<exists>rt'. Fput_range_table start end' val rt = Inr rt' \<and>
       put_range_table rt start end' val = Some rt' \<and> verify_range_table rt' \<and> rt_wf rt'))"
proof (cases "start \<le> end'")
  case True
  obtain rt' where "put_range_table rt start end' val = Some rt'" "Fput_range_table start end' val rt = Inr rt'"
    "rt_wf rt'" using Fput_range_table_ok [OF assms True] by metis
  moreover from this have "verify_range_table rt'"
    by (simp add: rt_wf_def verify_range_table_def verify_entries_iff)
  ultimately show ?thesis using True by simp
qed (simp add: Fput_range_table_def)

lemma copy_entries_ok:
  "ga_wf src \<Longrightarrow> i + k = ga_numels src \<Longrightarrow> ga_wf dst \<Longrightarrow> ga_els dst = take i (ga_els src) \<Longrightarrow>
   \<exists>dst'. copy_entries src k i dst = Some dst' \<and> ga_wf dst' \<and> ga_els dst' = ga_els src"
proof (induction k arbitrary: i dst)
  case 0
  then show ?case using length_ga_els [of src] by simp
next
  case (Suc k)
  have len: "i < length (ga_els src)" "length (ga_els dst) = i"
    using Suc.prems length_ga_els [of src] by auto
  obtain dst1 where d: "gap_array_insert_els dst i [ga_els src ! i] = Some dst1" "ga_wf dst1"
      "ga_els dst1 = list_insert (ga_els dst) i [ga_els src ! i]"
    using ga.ins_law [OF Suc.prems(3), of i "[ga_els src ! i]"] len by auto
  have "ga_els dst1 = take (Suc i) (ga_els src)"
    using d(3) len Suc.prems(4) by (simp add: list_insert_def take_Suc_conv_app_nth)
  with Suc.IH [of "Suc i" dst1] Suc.prems d(1,2) gap_array_at_ok [OF Suc.prems(1) len(1)]
  show ?case by simp
qed

text \<open>A copied table is a well-formed table of the same type that holds the same entries and
  answers every lookup the same way.\<close>

theorem Fcopy_range_table_correct:
  assumes "rt_wf rt"
  shows "\<exists>rt'. Fcopy_range_table rt = Some rt' \<and> rt_wf rt' \<and> rt_type rt' = rt_type rt \<and>
    ga_els (rt_entries rt') = ga_els (rt_entries rt) \<and>
    (\<forall>pos dflt. Fget_range_table pos rt' dflt = Fget_range_table pos rt dflt)"
proof -
  have wf: "ga_wf (rt_entries rt)" using assms by (simp add: rt_wf_def)
  obtain ents where e: "copy_entries (rt_entries rt) (ga_numels (rt_entries rt)) 0
        (make_gap_array sizeof_range_table_entry) = Some ents" "ga_wf ents" "ga_els ents = ga_els (rt_entries rt)"
    using copy_entries_ok [OF wf, of 0 "ga_numels (rt_entries rt)" "make_gap_array sizeof_range_table_entry"] by auto
  let ?rt = "\<lparr>rt_entries = ents, rt_type = rt_type rt\<rparr>"
  have "rt_wf ?rt" using e assms by (simp add: rt_wf_def)
  moreover have "Fget_range_table pos ?rt dflt = Fget_range_table pos rt dflt" for pos dflt
    using \<open>rt_wf ?rt\<close> e(3) assms by (intro Fget_range_table_cong) simp_all
  ultimately show ?thesis using e by (simp add: Fcopy_range_table_def)
qed

lemma map_range_table_loop_ok:
  assumes f: "\<And>a b v s. f rt a b v s = Inr (rt, g a b v s)" and wf: "ga_wf (rt_entries rt)"
  shows "i \<le> ga_numels (rt_entries rt) \<Longrightarrow> map_range_table_loop f i None rt s =
    Some (Inr (rt, fold (\<lambda>e s. case internal_to_external_adjust_ends (rt_type rt) (rte_first e) (rte_last e) of
       (a, b) \<Rightarrow> g a b (rte_val e) s) (drop i (ga_els (rt_entries rt))) s))"
proof (induction "ga_numels (rt_entries rt) - i" arbitrary: i s)
  case 0
  then show ?case using length_ga_els [OF wf] by (subst map_range_table_loop.simps) simp
next
  case (Suc n)
  then have i: "i < length (ga_els (rt_entries rt))" using length_ga_els [OF wf] by simp
  have at: "gap_array_at (rt_entries rt) i = Some (ga_els (rt_entries rt) ! i)"
    using gap_array_at_ok [OF wf i] .
  obtain a b where ab: "internal_to_external_adjust_ends (rt_type rt) (rte_first (ga_els (rt_entries rt) ! i))
      (rte_last (ga_els (rt_entries rt) ! i)) = (a, b)" by fastforce
  have "map_range_table_loop f i None rt s =
      map_range_table_loop f (i + 1) None rt (g a b (rte_val (ga_els (rt_entries rt) ! i)) s)"
    using at ab i length_ga_els [OF wf] by (subst map_range_table_loop.simps) (simp add: f Let_def)
  also have "drop i (ga_els (rt_entries rt)) = ga_els (rt_entries rt) ! i # drop (i + 1) (ga_els (rt_entries rt))"
    using i by (simp add: Cons_nth_drop_Suc)
  ultimately show ?case using Suc.hyps(1) [of "i + 1"] Suc.hyps(2) ab by simp
qed

text \<open>\<open>map-range-table\<close> with a function that leaves the table alone ends, calls the function
  once for each entry in ascending order, with the bounds of the entry as the table's type shows
  them, and leaves the table as it was.\<close>

theorem Fmap_range_table_fold:
  assumes "rt_wf rt" "\<forall>a b v s. f rt a b v s = Inr (rt, g a b v s)"
  shows "Fmap_range_table f rt s =
    Some (Inr (rt, fold (\<lambda>e s. case internal_to_external_adjust_ends (rt_type rt) (rte_first e) (rte_last e) of
       (a, b) \<Rightarrow> g a b (rte_val e) s) (ga_els (rt_entries rt)) s))"
proof -
  have "ga_wf (rt_entries rt)" using assms(1) by (simp add: rt_wf_def)
  from map_range_table_loop_ok [OF _ this, of f g 0 s] assms(2) show ?thesis
    by (simp add: Fmap_range_table_def)
qed

section \<open>The empty entry that a removal leaves\<close>

lemma search_result_single:
  "search_result [\<lparr>rte_first = lo, rte_last = hi, rte_val = v\<rparr>] lo r \<Longrightarrow> lo < hi \<Longrightarrow> r = (0, True)"
  by (cases r) (auto simp: search_result_def covers_def split: if_splits)

lemma put_entries_first:
  assumes wf: "ga_wf ents" and els: "ga_els ents = []" and "lo < hi"
  shows "\<exists>ents'. put_entries lo hi (Some v) ents = Some ents' \<and> ga_wf ents' \<and>
    ga_els ents' = [\<lparr>rte_first = lo, rte_last = hi, rte_val = v\<rparr>]"
proof -
  have n: "ga_numels ents = 0" using length_ga_els [OF wf] els by simp
  have "get_range_table_pos lo 0 (ga_array ents) (ga_gap ents) (ga_gapsize ents) = Some (0, False)"
    by (simp add: get_range_table_pos_def get_range_table_pos_loop.simps)
  moreover have "assert_search_result lo ents 0 False = Some ()" using n by (simp add: assert_search_result_def)
  moreover have "put_range_table_loop lo hi ents 0 None = Some (ents, 0, None)"
    using n by (simp add: put_range_table_loop.simps)
  moreover obtain ents1 where "gap_array_insert_els ents 0 [\<lparr>rte_first = lo, rte_last = hi, rte_val = v\<rparr>] = Some ents1"
      "ga_wf ents1" "ga_els ents1 = [\<lparr>rte_first = lo, rte_last = hi, rte_val = v\<rparr>]"
    using ga.ins_law [OF wf, of 0 "[\<lparr>rte_first = lo, rte_last = hi, rte_val = v\<rparr>]"] els
    by (auto simp: list_insert_def)
  moreover from this have "ga_numels ents1 = 1" using length_ga_els [of ents1] by simp
  ultimately show ?thesis using n
    by (simp add: put_entries_def combine_before_def combine_after_def)
qed

lemma remove_entries_exact:
  assumes wf: "ga_wf ents" and els: "ga_els ents = [\<lparr>rte_first = lo, rte_last = hi, rte_val = v\<rparr>]"
    and lh: "lo < hi"
  shows "\<exists>ents'. put_entries lo hi None ents = Some ents' \<and> ga_wf ents' \<and>
    ga_els ents' = [\<lparr>rte_first = hi, rte_last = hi, rte_val = v\<rparr>]"
proof -
  have n: "ga_numels ents = 1" using length_ga_els [OF wf] els by simp
  have at: "gap_array_at ents 0 = Some \<lparr>rte_first = lo, rte_last = hi, rte_val = v\<rparr>"
    using gap_array_at_ok [OF wf, of 0] els by simp
  obtain r where "get_range_table_pos lo 1 (ga_array ents) (ga_gap ents) (ga_gapsize ents) = Some r"
      "search_result (ga_els ents) lo r"
    using get_range_table_pos_ok [OF wf, of lo] els lh n by auto
  then have s: "get_range_table_pos lo 1 (ga_array ents) (ga_gap ents) (ga_gapsize ents) = Some (0, True)"
    using search_result_single [of lo hi v r] els lh by simp
  obtain ents1 where st: "gap_array_store ents 0 \<lparr>rte_first = hi, rte_last = hi, rte_val = v\<rparr> = Some ents1"
      "ga_wf ents1" "ga_els ents1 = [\<lparr>rte_first = hi, rte_last = hi, rte_val = v\<rparr>]"
    using gap_array_store_ok [OF wf, of 0] els by fastforce
  have "ga_numels ents1 = 1" using length_ga_els [OF st(2)] st(3) by simp
  then have "put_range_table_loop lo hi ents1 1 (Some 0) = Some (ents1, 1, Some 0)"
    by (simp add: put_range_table_loop.simps)
  then have "put_range_table_loop lo hi ents 0 None = Some (ents1, 1, Some 0)"
    using n at st(1) lh by (subst put_range_table_loop.simps) simp
  moreover have "assert_search_result lo ents 0 True = Some ()" using at lh by (simp add: assert_search_result_def)
  ultimately show ?thesis using s n st by (simp add: put_entries_def)
qed

text \<open>Removing exactly the range that was put into a fresh table does not give back an empty
  table: an entry of length zero stays behind (the comparison \<open>entry->last >= last\<close> truncates where
  it should delete), so the result is not \<open>equal\<close> to a fresh table, though no lookup finds the entry.\<close>

theorem remove_leaves_empty_entry:
  assumes "lo < hi"
  shows "\<exists>rt0 rt1 rt2. Fmake_range_table ''nil'' = Inr rt0 \<and> Fput_range_table lo hi (Some v) rt0 = Inr rt1 \<and>
    Fremove_range_table lo hi rt1 = Inr rt2 \<and>
    ga_els (rt_entries rt2) = [\<lparr>rte_first = hi, rte_last = hi, rte_val = v\<rparr>] \<and>
    \<not> range_table_equal (=) rt0 rt2 \<and> (\<forall>pos dflt. Fget_range_table pos rt2 dflt = Some dflt)"
proof -
  let ?rt0 = "\<lparr>rt_entries = make_gap_array sizeof_range_table_entry, rt_type = RANGE_START_CLOSED_END_OPEN\<rparr>"
  obtain e1 where e1: "put_entries lo hi (Some v) (make_gap_array sizeof_range_table_entry) = Some e1" "ga_wf e1"
      "ga_els e1 = [\<lparr>rte_first = lo, rte_last = hi, rte_val = v\<rparr>]"
    using put_entries_first [OF _ _ assms, of "make_gap_array sizeof_range_table_entry" v] by auto
  obtain e2 where e2: "put_entries lo hi None e1 = Some e2" "ga_wf e2"
      "ga_els e2 = [\<lparr>rte_first = hi, rte_last = hi, rte_val = v\<rparr>]"
    using remove_entries_exact [OF e1(2,3) assms] by auto
  have "Fmake_range_table ''nil'' = Inr ?rt0"
    by (simp add: Fmake_range_table_def range_table_symbol_to_type_def)
  moreover have "Fput_range_table lo hi (Some v) ?rt0 = Inr (?rt0\<lparr>rt_entries := e1\<rparr>)"
    using e1 assms by (simp add: Fput_range_table_def put_range_table_def verify_range_table_def)
  moreover have "Fremove_range_table lo hi (?rt0\<lparr>rt_entries := e1\<rparr>) = Inr (?rt0\<lparr>rt_entries := e2\<rparr>)"
    using e2 assms by (simp add: Fremove_range_table_def Fput_range_table_def put_range_table_def verify_range_table_def)
  moreover have "\<not> range_table_equal (=) ?rt0 (?rt0\<lparr>rt_entries := e2\<rparr>)"
    using e2(3) by (simp add: range_table_equal_def)
  moreover have "rt_wf (?rt0\<lparr>rt_entries := e2\<rparr>)" using e2 by (simp add: rt_wf_def)
  from Fget_range_table_iff [OF this] have "Fget_range_table pos (?rt0\<lparr>rt_entries := e2\<rparr>) dflt = Some dflt" for pos dflt
    using e2(3) by (simp add: covers_def)
  ultimately show ?thesis
    by (intro exI [of _ ?rt0] exI [of _ "?rt0\<lparr>rt_entries := e1\<rparr>"] exI [of _ "?rt0\<lparr>rt_entries := e2\<rparr>"]) (simp add: e2(3))
qed

section \<open>Witnesses\<close>

definition example_rt :: "nat range_table" where
  "example_rt = \<lparr>rt_entries =
     \<lparr>ga_gap = 1, ga_gapsize = 1, ga_numels = 2, ga_elsize = 24, ga_offset_past_gap = 48, ga_els_past_gap = 1,
      ga_markers = [],
      ga_array = [Some \<lparr>rte_first = 0, rte_last = 10, rte_val = 7\<rparr>, None,
                  Some \<lparr>rte_first = 20, rte_last = 30, rte_val = 8\<rparr>]\<rparr>,
     rt_type = RANGE_START_CLOSED_END_CLOSED\<rparr>"

lemma example_rt_facts:
  "rt_wf example_rt" "rt_type example_rt = RANGE_START_CLOSED_END_CLOSED"
  "ga_els (rt_entries example_rt) =
     [\<lparr>rte_first = 0, rte_last = 10, rte_val = 7\<rparr>, \<lparr>rte_first = 20, rte_last = 30, rte_val = 8\<rparr>]"
  by (simp_all add: example_rt_def rt_wf_def ga_wf_def ga_els_def ga_derived_def)

theorem Fget_range_table_correct_witness:
  "Fget_range_table 25 example_rt 0 = Some 8 \<and> Fget_range_table 15 example_rt 0 = Some 0"
  using Fget_range_table_correct [OF example_rt_facts(1), of 25 0]
    Fget_range_table_correct [OF example_rt_facts(1), of 15 0] example_rt_facts(3) by simp

theorem put_range_table_correct_witness:
  "\<exists>rt'. put_range_table example_rt 5 22 (Some 9) = Some rt' \<and> Fget_range_table 22 rt' 0 = Some 9 \<and>
     Fget_range_table 23 rt' 0 = Some 8"
proof -
  have adj: "external_to_internal_adjust_ends (rt_type example_rt) 5 22 = (5, 23)"
    by (simp add: example_rt_facts)
  have "Fget_range_table 23 example_rt 0 = Some 8"
    using Fget_range_table_iff [OF example_rt_facts(1), of 23 0 8]
    by (simp add: example_rt_facts covers_def)
  with put_range_table_correct [OF example_rt_facts(1) adj, of "Some 9"] show ?thesis by fastforce
qed

theorem Fput_range_table_errors_witness:
  "Fput_range_table 6 5 (Some 9) example_rt = Inl (Invalid_Argument 6 5) \<and>
   (\<exists>rt'. Fput_range_table 5 6 None example_rt = Inr rt' \<and> rt_wf rt')"
  using Fput_range_table_errors [OF example_rt_facts(1), of 5 6 "Some 9"]
    Fput_range_table_errors [OF example_rt_facts(1), of 6 5 None] by auto

theorem Fcopy_range_table_correct_witness:
  "\<exists>rt'. Fcopy_range_table example_rt = Some rt' \<and> length (ga_els (rt_entries rt')) = 2"
  using Fcopy_range_table_correct [OF example_rt_facts(1)] example_rt_facts(3) by force

theorem Fmap_range_table_fold_witness:
  "Fmap_range_table (\<lambda>rt a b v s. Inr (rt, s @ [(a, b, v)])) example_rt [] =
     Some (Inr (example_rt, [(0, 9, 7), (20, 29, 8)]))"
  using Fmap_range_table_fold [OF example_rt_facts(1), of "\<lambda>rt a b v s. Inr (rt, s @ [(a, b, v)])"
      "\<lambda>a b v s. s @ [(a, b, v)]" "[]"] by (simp add: example_rt_facts)

theorem remove_leaves_empty_entry_witness:
  "\<exists>rt2. ga_els (rt_entries rt2) = [\<lparr>rte_first = 10, rte_last = 10, rte_val = (3 :: nat)\<rparr>] \<and>
     (\<exists>rt1. Fremove_range_table 5 10 rt1 = Inr rt2)"
  using remove_leaves_empty_entry [of 5 10 "3 :: nat"] by auto

end
