(* ===== verification/Base64.thy ===== *)
theory Base64
  imports Prelude
begin

text \<open>
  The base64 codec of \<open>src/fns.c\<close>: the two tables, \<open>base64_encode_1\<close> and \<open>base64_decode_1\<close>, and
  the string functions on top of them.  An input stream is the list of the characters
  (\<open>Ichar\<close>) still to be read, its end the value -1 of \<open>Lstream_get_ichar\<close>; the output is the
  list of characters written.  A byte is an \<open>8 word\<close>, the accumulated \<open>value\<close> an
  \<open>unsigned int\<close> in the encoder and an \<open>unsigned long\<close> in the decoder.
\<close>

unbundle bit_operations_syntax

datatype base64_error =
    Non_Ascii nat
  | Illegal_Equals nat
  | Padding_Expected nat
  | Premature_EOF
  | Assertion_Failed

section \<open>Tables\<close>

definition MIME_LINE_LENGTH :: nat where "MIME_LINE_LENGTH = 72"

definition base64_value_to_char :: "nat list" where
  "base64_value_to_char = map of_char
     ''ABCDEFGHIJKLMNOPQRSTUVWXYZabcdefghijklmnopqrstuvwxyz0123456789+/''"

definition base64_char_to_value :: "int list" where
  "base64_char_to_value =
     replicate 43 (-1) @ [62, -1, -1, -1, 63] @ map int [52..<62] @ replicate 7 (-1) @
     map int [0..<26] @ replicate 6 (-1) @ map int [26..<52] @ replicate 5 (-1)"

definition IS_ASCII :: "nat \<Rightarrow> bool" where "IS_ASCII c = (c < 128)"

definition IS_BASE64 :: "nat \<Rightarrow> bool" where
  "IS_BASE64 c = (IS_ASCII c \<and> base64_char_to_value ! c \<ge> 0)"

definition EQUALS :: nat where "EQUALS = 61"
definition NEWLINE :: nat where "NEWLINE = 10"

section \<open>Encoding\<close>

text \<open>\<open>ADVANCE_INPUT\<close>: false at the end of the stream, an error on a character above 255.\<close>

fun advance_input :: "nat list \<Rightarrow> base64_error + (8 word \<times> nat list) option" where
  "advance_input [] = Inr None"
| "advance_input (ec # s) = (if ec > 255 then Inl (Non_Ascii ec) else Inr (Some (of_nat ec, s)))"

definition value_char :: "32 word \<Rightarrow> nat" where
  "value_char v = base64_value_to_char ! unat v"

text \<open>One iteration writes the line break and a quadruplet after what was written before.\<close>

definition line_wrap :: "bool \<Rightarrow> nat \<Rightarrow> nat list \<times> nat" where
  "line_wrap line_break counter =
     (if line_break then
        (if counter < MIME_LINE_LENGTH div 4 then ([], counter + 1) else ([NEWLINE], 1))
      else ([], counter))"

lemma advance_input_shorter: "advance_input s = Inr (Some (c, s')) \<Longrightarrow> length s' < length s"
  by (cases s) (auto split: if_splits)

function base64_encode_loop :: "bool \<Rightarrow> nat \<Rightarrow> nat list \<Rightarrow> nat list \<Rightarrow> base64_error + nat list" where
  "base64_encode_loop line_break counter s e =
     (case advance_input s of
        Inl err \<Rightarrow> Inl err
      | Inr None \<Rightarrow> Inr e
      | Inr (Some (c, s)) \<Rightarrow>
          let (nl, counter) = line_wrap line_break counter;
              e = e @ nl @ [value_char (0x3f AND drop_bit 2 (ucast c))];
              val = push_bit 4 (0x03 AND ucast c)
          in case advance_input s of
               Inl err \<Rightarrow> Inl err
             | Inr None \<Rightarrow> Inr (e @ [value_char val, EQUALS, EQUALS])
             | Inr (Some (c, s)) \<Rightarrow>
                 let e = e @ [value_char (val OR (0x0f AND drop_bit 4 (ucast c)))];
                     val = push_bit 2 (0x0f AND ucast c)
                 in case advance_input s of
                      Inl err \<Rightarrow> Inl err
                    | Inr None \<Rightarrow> Inr (e @ [value_char val, EQUALS])
                    | Inr (Some (c, s)) \<Rightarrow>
                        base64_encode_loop line_break counter s
                          (e @ [value_char (val OR (0x03 AND drop_bit 6 (ucast c))),
                                value_char (0x3f AND ucast c)]))"
  by pat_completeness auto
termination
  by (relation "measure (\<lambda>(lb, k, s, e). length s)") (simp, clarsimp dest!: advance_input_shorter)

definition base64_encode_1 :: "nat list \<Rightarrow> bool \<Rightarrow> base64_error + nat list" where
  "base64_encode_1 istream line_break = base64_encode_loop line_break 0 istream []"

text \<open>The size of the buffer the callers allocate, and their assertion.\<close>

definition encode_allength :: "nat \<Rightarrow> nat" where
  "encode_allength len =
     (let allength = len + len div 3 + 1 in allength + (allength div MIME_LINE_LENGTH + 1 + 6))"

definition Fbase64_encode_string :: "nat list \<Rightarrow> bool \<Rightarrow> base64_error + nat list" where
  "Fbase64_encode_string str no_line_break =
     (case base64_encode_1 str (\<not> no_line_break) of
        Inl err \<Rightarrow> Inl err
      | Inr encoded \<Rightarrow>
          if length encoded \<le> encode_allength (length str) then Inr encoded else Inl Assertion_Failed)"

section \<open>Decoding\<close>

text \<open>\<open>ADVANCE_INPUT_IGNORE_NONBASE64\<close>; the position counts the characters read, the end included.\<close>

fun advance_input_ignore_nonbase64 :: "nat list \<Rightarrow> nat \<Rightarrow> (nat \<times> nat list) option \<times> nat" where
  "advance_input_ignore_nonbase64 [] streampos = (None, streampos + 1)"
| "advance_input_ignore_nonbase64 (ec # s) streampos =
     (if IS_BASE64 ec \<or> ec = EQUALS then (Some (ec, s), streampos + 1)
      else advance_input_ignore_nonbase64 s (streampos + 1))"

definition char_value :: "nat \<Rightarrow> 64 word" where
  "char_value ec = word_of_int (base64_char_to_value ! ec)"

definition store_byte :: "64 word \<Rightarrow> nat" where
  "store_byte v = unat (ucast v :: 8 word)"

lemma advance_ignore_shorter:
  "(Some (ec, s'), p') = advance_input_ignore_nonbase64 s p \<Longrightarrow> length s' < length s"
  by (induction s p rule: advance_input_ignore_nonbase64.induct) (auto split: if_splits)

function base64_decode_loop :: "nat list \<Rightarrow> nat \<Rightarrow> nat list \<Rightarrow> base64_error + nat list" where
  "base64_decode_loop s pos e =
     (case advance_input_ignore_nonbase64 s pos of
        (None, pos) \<Rightarrow> Inr e
      | (Some (ec, s), pos) \<Rightarrow>
          if ec = EQUALS then Inl (Illegal_Equals pos)
          else let val = push_bit 18 (char_value ec) in
          case advance_input_ignore_nonbase64 s pos of
            (None, pos) \<Rightarrow> Inl Premature_EOF
          | (Some (ec, s), pos) \<Rightarrow>
              if ec = EQUALS then Inl (Illegal_Equals pos)
              else let val = val OR push_bit 12 (char_value ec);
                       e = e @ [store_byte (drop_bit 16 val)] in
              case advance_input_ignore_nonbase64 s pos of
                (None, pos) \<Rightarrow> Inl Premature_EOF
              | (Some (ec, s), pos) \<Rightarrow>
                  if ec = EQUALS then
                    case advance_input_ignore_nonbase64 s pos of
                      (None, pos) \<Rightarrow> Inl Premature_EOF
                    | (Some (ec, s), pos) \<Rightarrow>
                        if ec \<noteq> EQUALS then Inl (Padding_Expected pos)
                        else base64_decode_loop s pos e
                  else let val = val OR push_bit 6 (char_value ec);
                           e = e @ [store_byte (0xff AND drop_bit 8 val)] in
                  case advance_input_ignore_nonbase64 s pos of
                    (None, pos) \<Rightarrow> Inl Premature_EOF
                  | (Some (ec, s), pos) \<Rightarrow>
                      if ec = EQUALS then base64_decode_loop s pos e
                      else base64_decode_loop s pos
                             (e @ [store_byte (0xff AND (val OR char_value ec))]))"
  by pat_completeness auto
termination
  by (relation "measure (\<lambda>(s, pos, e). length s)") (simp, (clarsimp dest!: advance_ignore_shorter)+)

definition base64_decode_1 :: "nat list \<Rightarrow> base64_error + nat list" where
  "base64_decode_1 istream = base64_decode_loop istream 0 []"

text \<open>The bytes of the characters below 256 that are decoded, and the assertion that the caller's block is large enough.\<close>

definition decoded_length :: "nat list \<Rightarrow> nat" where
  "decoded_length decoded = sum_list (map (\<lambda>c. if c < 0x80 then 1 else 2) decoded)"

definition MAX_ICHAR_LEN :: nat where "MAX_ICHAR_LEN = 4"

definition Fbase64_decode_string :: "nat list \<Rightarrow> base64_error + nat list" where
  "Fbase64_decode_string str =
     (case base64_decode_1 str of
        Inl err \<Rightarrow> Inl err
      | Inr decoded \<Rightarrow>
          if decoded_length decoded \<le> length str * MAX_ICHAR_LEN then Inr decoded else Inl Assertion_Failed)"

declare base64_encode_loop.simps [simp del] base64_decode_loop.simps [simp del]

section \<open>The tables are inverse\<close>

lemma base64_value_to_char_eq:
  "base64_value_to_char = [65, 66, 67, 68, 69, 70, 71, 72, 73, 74, 75, 76, 77, 78, 79, 80, 81, 82, 83, 84, 85, 86, 87, 88, 89, 90, 97, 98, 99, 100, 101, 102, 103, 104, 105, 106, 107, 108, 109, 110, 111, 112, 113, 114, 115, 116, 117, 118, 119, 120, 121, 122, 48, 49, 50, 51, 52, 53, 54, 55, 56, 57, 43, 47]"
  by (simp add: base64_value_to_char_def)

lemma base64_char_to_value_eq:
  "base64_char_to_value = [-1, -1, -1, -1, -1, -1, -1, -1, -1, -1, -1, -1, -1, -1, -1, -1, -1, -1, -1, -1, -1, -1, -1, -1, -1, -1, -1, -1, -1, -1, -1, -1, -1, -1, -1, -1, -1, -1, -1, -1, -1, -1, -1, 62, -1, -1, -1, 63, 52, 53, 54, 55, 56, 57, 58, 59, 60, 61, -1, -1, -1, -1, -1, -1, -1, 0, 1, 2, 3, 4, 5, 6, 7, 8, 9, 10, 11, 12, 13, 14, 15, 16, 17, 18, 19, 20, 21, 22, 23, 24, 25, -1, -1, -1, -1, -1, -1, 26, 27, 28, 29, 30, 31, 32, 33, 34, 35, 36, 37, 38, 39, 40, 41, 42, 43, 44, 45, 46, 47, 48, 49, 50, 51, -1, -1, -1, -1, -1]"
  by (simp add: base64_char_to_value_def numeral_eq_Suc upt_conv_Cons)

definition table_entry_ok :: "nat \<Rightarrow> nat \<Rightarrow> bool" where
  "table_entry_ok c v \<longleftrightarrow> IS_BASE64 c \<and> c \<noteq> EQUALS \<and> c \<noteq> NEWLINE \<and> base64_char_to_value ! c = int v"

lemma base64_tables: "list_all2 table_entry_ok base64_value_to_char [0..<64]"
  by (simp add: base64_value_to_char_eq base64_char_to_value_eq table_entry_ok_def upt_conv_Cons
      IS_BASE64_def IS_ASCII_def EQUALS_def NEWLINE_def)

lemma value_char_ok: "v < 64 \<Longrightarrow> table_entry_ok (base64_value_to_char ! v) v"
  using list_all2_nthD2 [OF base64_tables, of v] by simp

lemma not_base64 [simp]: "\<not> IS_BASE64 10" "\<not> IS_BASE64 61"
  by (simp_all add: IS_BASE64_def base64_char_to_value_eq)

section \<open>The bits of a quadruplet\<close>


definition chr1 :: "8 word \<Rightarrow> 32 word" where "chr1 a = 0x3f AND drop_bit 2 (ucast a)"
definition val1 :: "8 word \<Rightarrow> 32 word" where "val1 a = push_bit 4 (0x03 AND ucast a)"
definition chr2 :: "8 word \<Rightarrow> 8 word \<Rightarrow> 32 word" where "chr2 a b = val1 a OR (0x0f AND drop_bit 4 (ucast b))"
definition val2 :: "8 word \<Rightarrow> 32 word" where "val2 b = push_bit 2 (0x0f AND ucast b)"
definition chr3 :: "8 word \<Rightarrow> 8 word \<Rightarrow> 32 word" where "chr3 b c = val2 b OR (0x03 AND drop_bit 6 (ucast c))"
definition chr4 :: "8 word \<Rightarrow> 32 word" where "chr4 c = 0x3f AND ucast c"

lemma masks:
  "(0x3f :: 'a :: len word) = mask 6" "(0x0f :: 'a word) = mask 4" "(0x03 :: 'a word) = mask 2"
  "(0xff :: 'a word) = mask 8"
  by (simp_all add: mask_eq_exp_minus_1)

lemmas chr_defs = chr1_def val1_def chr2_def val2_def chr3_def chr4_def masks

lemma lt64:
  assumes "take_bit 6 w = w"
  shows "unat (w :: 32 word) < 64"
proof -
  have "unat w = take_bit 6 (unat w)" by (metis assms unsigned_take_bit_eq)
  with take_bit_nat_less_exp [of 6 "unat w"] show ?thesis by simp
qed

lemma chr_lt64: "unat (chr1 a) < 64" "unat (val1 a) < 64" "unat (chr2 a b) < 64" "unat (val2 b) < 64"
  "unat (chr3 b c) < 64" "unat (chr4 c) < 64"
  by (rule lt64, rule bit_word_eqI, auto simp: chr_defs bit_simps)+

lemma nat8: "n < 8 \<longleftrightarrow> n \<in> {0, 1, 2, 3, 4, 5, 6, 7 :: nat}" by auto

definition q2 :: "32 word \<Rightarrow> 32 word \<Rightarrow> 64 word" where
  "q2 x y = push_bit 18 (ucast x) OR push_bit 12 (ucast y)"

lemma byte1: "(ucast (drop_bit 16 (q2 (chr1 a) (val1 a))) :: 8 word) = a"
  "(ucast (drop_bit 16 (q2 (chr1 a) (chr2 a b))) :: 8 word) = a"
  by (rule bit_word_eqI; simp add: q2_def chr_defs bit_simps nat8; elim disjE; simp add: eval_nat_numeral)+

lemma byte2: "(ucast (0xff AND drop_bit 8 (q2 (chr1 a) (chr2 a b) OR push_bit 6 (ucast (val2 b)))) :: 8 word) = b"
  "(ucast (0xff AND drop_bit 8 (q2 (chr1 a) (chr2 a b) OR push_bit 6 (ucast (chr3 b c)))) :: 8 word) = b"
  by (rule bit_word_eqI; simp add: q2_def chr_defs bit_simps nat8; elim disjE; simp add: eval_nat_numeral)+

lemma byte3: "(ucast (0xff AND (q2 (chr1 a) (chr2 a b) OR push_bit 6 (ucast (chr3 b c)) OR ucast (chr4 c))) :: 8 word) = c"
  by (rule bit_word_eqI; simp add: q2_def chr_defs bit_simps nat8; elim disjE; simp add: eval_nat_numeral)


section \<open>The encoder as one function on triplets\<close>

fun encoding :: "bool \<Rightarrow> nat \<Rightarrow> nat list \<Rightarrow> nat list" where
  "encoding lb k [] = []"
| "encoding lb k [x] = fst (line_wrap lb k) @
     [value_char (chr1 (of_nat x)), value_char (val1 (of_nat x)), EQUALS, EQUALS]"
| "encoding lb k [x, y] = fst (line_wrap lb k) @
     [value_char (chr1 (of_nat x)), value_char (chr2 (of_nat x) (of_nat y)), value_char (val2 (of_nat y)), EQUALS]"
| "encoding lb k (x # y # z # s) = fst (line_wrap lb k) @
     [value_char (chr1 (of_nat x)), value_char (chr2 (of_nat x) (of_nat y)),
      value_char (chr3 (of_nat y) (of_nat z)), value_char (chr4 (of_nat z))] @
     encoding lb (snd (line_wrap lb k)) s"

lemma base64_encode_loop_ok:
  "\<forall>x \<in> set s. x < 256 \<Longrightarrow> base64_encode_loop lb k s e = Inr (e @ encoding lb k s)"
  by (induction lb k s arbitrary: e rule: encoding.induct)
    (subst base64_encode_loop.simps, simp add: chr1_def val1_def chr2_def val2_def chr3_def chr4_def
      Let_def case_prod_beta)+

lemma base64_encode_loop_error:
  "\<forall>y \<in> set ys. y < 256 \<Longrightarrow> c > 255 \<Longrightarrow> base64_encode_loop lb k (ys @ c # zs) e = Inl (Non_Ascii c)"
  by (induction lb k ys arbitrary: e rule: encoding.induct)
    (subst base64_encode_loop.simps, simp add: Let_def case_prod_beta)+

lemma base64_encode_1_ok: "\<forall>x \<in> set s. x < 256 \<Longrightarrow> base64_encode_1 s lb = Inr (encoding lb 0 s)"
  by (simp add: base64_encode_1_def base64_encode_loop_ok)

section \<open>Decoding what was encoded\<close>

lemma quad_char:
  assumes "unat w < 64"
  shows "IS_BASE64 (value_char w)" "value_char w \<noteq> EQUALS" "NEWLINE \<noteq> value_char w"
    "char_value (value_char w) = ucast w"
  using value_char_ok [OF assms]
  by (auto simp: table_entry_ok_def value_char_def char_value_def)

lemmas quad_chars [simp] = quad_char [OF chr_lt64(1)] quad_char [OF chr_lt64(2)] quad_char [OF chr_lt64(3)]
  quad_char [OF chr_lt64(4)] quad_char [OF chr_lt64(5)] quad_char [OF chr_lt64(6)]

lemma advance_ignore_nl [simp]:
  "advance_input_ignore_nonbase64 (NEWLINE # s) p = advance_input_ignore_nonbase64 s (p + 1)"
  by (simp add: NEWLINE_def EQUALS_def)

lemma decode_nl: "base64_decode_loop (NEWLINE # s) p e = base64_decode_loop s (p + 1) e"
  by (simp only: base64_decode_loop.simps [of "NEWLINE # s" p e] base64_decode_loop.simps [of s "p + 1" e]
      advance_ignore_nl)

lemma decode_wrap: "\<exists>p'. base64_decode_loop (fst (line_wrap lb k) @ s) p e = base64_decode_loop s p' e"
  by (auto simp: line_wrap_def decode_nl)

lemma decode_quads:
  "base64_decode_loop [value_char (chr1 a), value_char (val1 a), EQUALS, EQUALS] p e = Inr (e @ [unat a])"
  "base64_decode_loop [value_char (chr1 a), value_char (chr2 a b), value_char (val2 b), EQUALS] p e =
     Inr (e @ [unat a, unat b])"
  "base64_decode_loop (value_char (chr1 a) # value_char (chr2 a b) # value_char (chr3 b c) #
       value_char (chr4 c) # s) p e =
     base64_decode_loop s (Suc (Suc (Suc (Suc p)))) (e @ [unat a, unat b, unat c])"
  by (subst base64_decode_loop.simps,
      simp add: Let_def store_byte_def q2_def [symmetric] byte1 byte2 byte3 or.assoc base64_decode_loop.simps [of "[]"]
        del: drop_bit_or)+

lemma decode_length: "base64_decode_loop s p e = Inr r \<Longrightarrow> length r \<le> length e + length s"
proof (induction s arbitrary: p e rule: length_induct)
  case (1 s)
  have IH: "length r \<le> length e' + length s'"
    if "base64_decode_loop s' p' e' = Inr r" "length s' < length s" for s' p' e'
    using 1(1) that by blast
  show ?case
    using 1(2)
    by (subst (asm) base64_decode_loop.simps)
      (auto simp: Let_def split: prod.splits option.splits if_splits dest!: advance_ignore_shorter [OF sym] IH)
qed

lemma decoded_length_le: "decoded_length d \<le> 2 * length d"
  by (induction d) (simp_all add: decoded_length_def)

text \<open>The assertion never fails.\<close>

lemma Fbase64_decode_string_eq: "Fbase64_decode_string s = base64_decode_1 s"
proof (cases "base64_decode_1 s")
  case (Inr r)
  then have "length r \<le> length s" using decode_length [of s 0 "[]" r] by (simp add: base64_decode_1_def)
  with decoded_length_le [of r] have "decoded_length r \<le> length s * MAX_ICHAR_LEN" by (simp add: MAX_ICHAR_LEN_def)
  with Inr show ?thesis by (simp add: Fbase64_decode_string_def)
qed (simp add: Fbase64_decode_string_def)

lemma decode_encoding:
  "\<forall>x \<in> set s. x < 256 \<Longrightarrow> base64_decode_loop (encoding lb k s) p e = Inr (e @ s)"
proof (induction lb k s arbitrary: p e rule: encoding.induct)
  case (1 lb k)
  then show ?case by (simp add: base64_decode_loop.simps)
next
  case (2 lb k x)
  obtain p' where "base64_decode_loop (encoding lb k [x]) p e = base64_decode_loop
      [value_char (chr1 (of_nat x)), value_char (val1 (of_nat x)), EQUALS, EQUALS] p' e"
    using decode_wrap by fastforce
  with 2 show ?case by (simp add: decode_quads unat_of_nat)
next
  case (3 lb k x y)
  obtain p' where "base64_decode_loop (encoding lb k [x, y]) p e = base64_decode_loop
      [value_char (chr1 (of_nat x)), value_char (chr2 (of_nat x) (of_nat y)), value_char (val2 (of_nat y)), EQUALS] p' e"
    using decode_wrap by fastforce
  with 3 show ?case by (simp add: decode_quads unat_of_nat)
next
  case (4 lb k x y z s)
  obtain p' where "base64_decode_loop (encoding lb k (x # y # z # s)) p e = base64_decode_loop
      (value_char (chr1 (of_nat x)) # value_char (chr2 (of_nat x) (of_nat y)) #
       value_char (chr3 (of_nat y) (of_nat z)) # value_char (chr4 (of_nat z)) #
       encoding lb (snd (line_wrap lb k)) s) p' e"
    using decode_wrap by fastforce
  with 4 show ?case by (simp add: decode_quads unat_of_nat)
qed

section \<open>The length of the encoding and its lines\<close>

definition groups :: "nat \<Rightarrow> nat" where "groups n = (n + 2) div 3"

lemma groups_simps [simp]:
  "groups 0 = 0" "groups (Suc 0) = 1" "groups (Suc (Suc 0)) = 1" "groups (Suc (Suc (Suc n))) = Suc (groups n)"
  by (simp_all add: groups_def)

lemma groups_pos: "s \<noteq> [] \<Longrightarrow> groups (length s) > 0"
  by (cases s) (simp_all add: groups_def)

lemma newline_neq [simp]: "NEWLINE \<noteq> EQUALS" "EQUALS \<noteq> NEWLINE"
  by (simp_all add: NEWLINE_def EQUALS_def)

lemma length_encoding_nobreak: "length (encoding False k s) = 4 * groups (length s)"
  by (induction "False" k s rule: encoding.induct) (simp_all add: line_wrap_def)

lemma length_encoding_break:
  "k \<le> 18 \<Longrightarrow> s \<noteq> [] \<Longrightarrow> length (encoding True k s) = 4 * groups (length s) + (groups (length s) - 1 + k) div 18"
proof (induction "True" k s rule: encoding.induct)
  case (4 k x y z s)
  have g: "groups (length (x # y # z # s)) = Suc (groups (length s))" by simp
  show ?case
  proof (cases "s = []")
    case True
    with 4 show ?thesis by (auto simp: line_wrap_def MIME_LINE_LENGTH_def)
  next
    case False
    then obtain m where m: "groups (length s) = Suc m" using groups_pos [of s] gr0_conv_Suc by auto
    have k': "snd (line_wrap True k) \<le> 18" using 4(2) by (auto simp: line_wrap_def MIME_LINE_LENGTH_def)
    show ?thesis using 4(1) [OF k' False] 4(2) by (auto simp: g m line_wrap_def MIME_LINE_LENGTH_def)
  qed
qed (auto simp: line_wrap_def MIME_LINE_LENGTH_def)

text \<open>A line break stands at every position that is 72 modulo 73, and nowhere else.\<close>

lemma wrap_newlines:
  assumes "k \<le> 18" "length q = 4" "NEWLINE \<notin> set q"
    and "\<And>j. j < length r \<Longrightarrow> r ! j = NEWLINE \<longleftrightarrow> (j + 4 * snd (line_wrap True k)) mod 73 = 72"
    and "i < length (fst (line_wrap True k) @ q @ r)"
  shows "(fst (line_wrap True k) @ q @ r) ! i = NEWLINE \<longleftrightarrow> (i + 4 * k) mod 73 = 72"
proof -
  have q: "j < 4 \<Longrightarrow> q ! j \<noteq> NEWLINE" for j using assms(2,3) by (metis nth_mem)
  show ?thesis
  proof (cases "k < 18")
    case True
    then have "line_wrap True k = ([], k + 1)" by (simp add: line_wrap_def MIME_LINE_LENGTH_def)
    moreover have "i < 4 \<Longrightarrow> (i + 4 * k) mod 73 \<noteq> 72" using True by simp
    moreover have "i \<ge> 4 \<Longrightarrow> i - 4 + 4 * (k + 1) = i + 4 * k" by simp
    ultimately show ?thesis using assms(2,4,5) q [of i] assms(4) [of "i - 4"] by (auto simp: nth_append)
  next
    case False
    then have k: "k = 18" "line_wrap True 18 = ([NEWLINE], 1)"
      using assms(1) by (auto simp: line_wrap_def MIME_LINE_LENGTH_def)
    consider "i = 0" | "i > 0" "i < 5" | "i \<ge> 5" by linarith
    then show ?thesis
    proof cases
      case 1
      then show ?thesis by (simp add: k)
    next
      case 2
      then obtain j where j: "i = Suc j" "j < 4" by (cases i) auto
      have "(i + 4 * 18) mod 73 = (j + 73) mod 73" by (simp add: j)
      also have "\<dots> = j" using j(2) by (simp only: mod_add_self2) simp
      finally show ?thesis using q [OF j(2)] assms(2) j by (simp add: k nth_append)
    next
      case 3
      then obtain j where j: "i = j + 5" by (metis le_add_diff_inverse2)
      have "(i + 72) mod 73 = (j + 4 + 73) mod 73" by (simp add: j)
      then have m: "(i + 72) mod 73 = (j + 4) mod 73" by (simp only: mod_add_self2)
      have "([NEWLINE] @ q @ r) ! i = r ! j" using assms(2) by (simp add: j nth_append)
      then show ?thesis using assms(4) [of j] assms(2,5) m j by (simp add: k)
    qed
  qed
qed

lemmas wrap_newlines4 = wrap_newlines [where q = "[a, b, c, d]" for a b c d, simplified]

lemma encoding_newlines:
  "k \<le> 18 \<Longrightarrow> i < length (encoding True k s) \<Longrightarrow>
   encoding True k s ! i = NEWLINE \<longleftrightarrow> (i + 4 * k) mod 73 = 72"
proof (induction True k s arbitrary: i rule: encoding.induct)
  case (2 k x)
  then show ?case using wrap_newlines4 [of k _ _ _ _ "[]" i] by simp
next
  case (3 k x y)
  then show ?case using wrap_newlines4 [of k _ _ _ _ "[]" i] by simp
next
  case (4 k x y z s)
  have "snd (line_wrap True k) \<le> 18" using 4(2) by (auto simp: line_wrap_def MIME_LINE_LENGTH_def)
  with 4 show ?case using wrap_newlines4 [of k _ _ _ _ "encoding True (snd (line_wrap True k)) s" i] by simp
qed simp

section \<open>Properties of the encoder\<close>

lemma length_encoding_le:
  "length (encoding lb 0 s) = 4 * groups (length s) + (if lb then (groups (length s) - 1) div 18 else 0)"
  by (cases lb; cases "s = []") (simp_all add: length_encoding_nobreak length_encoding_break)

lemma length_encoding_bound: "length (encoding lb 0 s) \<le> encode_allength (length s)"
proof -
  let ?n = "length s" and ?A = "length s + length s div 3 + 1"
  have g: "4 * groups ?n \<le> ?A + 2" unfolding groups_def by presburger
  have "groups ?n - 1 \<le> ?n div 3" unfolding groups_def by presburger
  then have "(groups ?n - 1) div 18 \<le> ?n div 3 div 18" by (rule div_le_mono)
  also have "\<dots> = (4 * (?n div 3)) div 72" by (simp add: div_mult2_eq)
  also have "\<dots> \<le> ?A div 72" by (intro div_le_mono) presburger
  finally show ?thesis using g by (simp add: length_encoding_le encode_allength_def Let_def MIME_LINE_LENGTH_def)
qed

lemma Fbase64_encode_string_ok:
  "\<forall>x \<in> set s. x < 256 \<Longrightarrow> Fbase64_encode_string s nb = Inr (encoding (\<not> nb) 0 s)"
  by (simp add: Fbase64_encode_string_def base64_encode_1_ok length_encoding_bound)

text \<open>C18: decoding what was encoded gives back the string, with line breaks or without, for every
  string of characters below 256; neither function signals an error on the way.\<close>

theorem base64_roundtrip:
  assumes "\<forall>x \<in> set s. x < 256"
  shows "\<exists>e. Fbase64_encode_string s nb = Inr e \<and> Fbase64_decode_string e = Inr s"
  using assms by (simp add: Fbase64_encode_string_ok Fbase64_decode_string_eq base64_decode_1_def decode_encoding)

text \<open>The encoder signals an error exactly when some character is above 255, for the first such
  character, and otherwise its output fits the buffer the caller has allocated: four characters for
  every three begun, and one line break for every 18 full groups before the last one.\<close>

theorem base64_encode_result:
  "case Fbase64_encode_string s nb of
     Inr e \<Rightarrow> (\<forall>x \<in> set s. x < 256) \<and>
       length e = 4 * ((length s + 2) div 3) + (if nb then 0 else ((length s + 2) div 3 - 1) div 18) \<and>
       length e \<le> encode_allength (length s)
   | Inl err \<Rightarrow> (\<exists>ys c zs. s = ys @ c # zs \<and> (\<forall>y \<in> set ys. y < 256) \<and> c > 255 \<and> err = Non_Ascii c)"
proof (cases "\<forall>x \<in> set s. x < 256")
  case True
  then show ?thesis
    using length_encoding_bound [of "\<not> nb" s]
    by (simp add: Fbase64_encode_string_ok length_encoding_le groups_def)
next
  case False
  then obtain ys c zs where s: "s = ys @ c # zs" "\<forall>y \<in> set ys. y < 256" "c > 255"
    using split_list_first_prop [of s "\<lambda>x. \<not> x < 256"] by auto
  then have "Fbase64_encode_string s nb = Inl (Non_Ascii c)"
    by (simp add: Fbase64_encode_string_def base64_encode_1_def base64_encode_loop_error)
  with s show ?thesis by auto
qed

lemma encoding_Nil [simp]: "encoding lb k s = [] \<longleftrightarrow> s = []"
  by (cases "(lb, k, s)" rule: encoding.cases) auto

lemma last_encoding: "s \<noteq> [] \<Longrightarrow> last (encoding True k s) \<noteq> NEWLINE"
proof (induction True k s rule: encoding.induct)
  case (4 k x y z s)
  then show ?case using quad_chars(11,15,19,23) by (cases "s = []") (simp_all add: not_sym)
qed simp_all

text \<open>Encoding with line breaks puts a newline at exactly every 73rd character, so no line is
  longer than \<open>MIME_LINE_LENGTH\<close> (72, where the comment in the code says 76), and there is none
  at the end.\<close>

theorem base64_line_length:
  assumes "Fbase64_encode_string s False = Inr e" "i < length e"
  shows "(e ! i = NEWLINE \<longleftrightarrow> i mod (MIME_LINE_LENGTH + 1) = MIME_LINE_LENGTH) \<and> last e \<noteq> NEWLINE"
proof -
  have "\<forall>x \<in> set s. x < 256" using base64_encode_result [of s False] assms(1) by simp
  then have e: "e = encoding True 0 s" using assms(1) by (simp add: Fbase64_encode_string_ok)
  then have s: "s \<noteq> []" using assms(2) by auto
  with encoding_newlines [of 0 i s] last_encoding [of s 0] assms(2) e s show ?thesis by (simp add: MIME_LINE_LENGTH_def)
qed

section \<open>Decoding any text\<close>

abbreviation significant :: "nat list \<Rightarrow> nat list" where
  "significant \<equiv> filter (\<lambda>c. IS_BASE64 c \<or> c = EQUALS)"

fun without_position :: "base64_error \<Rightarrow> base64_error" where
  "without_position (Illegal_Equals p) = Illegal_Equals 0"
| "without_position (Padding_Expected p) = Padding_Expected 0"
| "without_position err = err"

abbreviation same_result :: "base64_error + nat list \<Rightarrow> base64_error + nat list \<Rightarrow> bool" where
  "same_result r1 r2 \<equiv> map_sum without_position id r1 = map_sum without_position id r2"

lemma advance_significant_cases:
  "(\<exists>q q'. advance_input_ignore_nonbase64 s p = (None, q) \<and>
      advance_input_ignore_nonbase64 (significant s) p' = (None, q')) \<or>
   (\<exists>ec s' q q'. advance_input_ignore_nonbase64 s p = (Some (ec, s'), q) \<and>
      advance_input_ignore_nonbase64 (significant s) p' = (Some (ec, significant s'), q') \<and> length s' < length s)"
proof (induction s arbitrary: p)
  case (Cons a s)
  show ?case
  proof (cases "IS_BASE64 a \<or> a = EQUALS")
    case True
    then show ?thesis by auto
  next
    case False
    then have eq: "advance_input_ignore_nonbase64 (a # s) p = advance_input_ignore_nonbase64 s (Suc p)"
      "significant (a # s) = significant s" by simp_all
    have "length s' < length s \<Longrightarrow> length s' < length (a # s)" for s' :: "nat list" by simp
    with Cons.IH [of "Suc p"] show ?thesis unfolding eq by blast
  qed
qed simp

lemma decode_significant:
  "same_result (base64_decode_loop s p e) (base64_decode_loop (significant s) p' e)"
proof (induction "length s" arbitrary: s p p' e rule: less_induct)
  case less
  let ?adv = advance_input_ignore_nonbase64
  let ?f = significant
  note unfold = base64_decode_loop.simps [of s p e] base64_decode_loop.simps [of "?f s" p' e]
  note [simp] = Let_def
  from advance_significant_cases [of s p p'] show ?case
  proof (elim disjE exE conjE)
    fix q q' assume "?adv s p = (None, q)" "?adv (?f s) p' = (None, q')"
    then show ?thesis by (simp add: unfold)
  next
    fix c1 s1 q1 q1' assume 1: "?adv s p = (Some (c1, s1), q1)" "?adv (?f s) p' = (Some (c1, ?f s1), q1')"
      "length s1 < length s"
    show ?thesis
    proof (cases "c1 = EQUALS")
      case True with 1 show ?thesis by (simp add: unfold)
    next
      case c1: False
      from advance_significant_cases [of s1 q1 q1'] show ?thesis
      proof (elim disjE exE conjE)
        fix q q' assume "?adv s1 q1 = (None, q)" "?adv (?f s1) q1' = (None, q')"
        with 1 c1 show ?thesis by (simp add: unfold)
      next
        fix c2 s2 q2 q2' assume 2: "?adv s1 q1 = (Some (c2, s2), q2)" "?adv (?f s1) q1' = (Some (c2, ?f s2), q2')"
          "length s2 < length s1"
        show ?thesis
        proof (cases "c2 = EQUALS")
          case True with 1 2 c1 show ?thesis by (simp add: unfold)
        next
          case c2: False
          from advance_significant_cases [of s2 q2 q2'] show ?thesis
          proof (elim disjE exE conjE)
            fix q q' assume "?adv s2 q2 = (None, q)" "?adv (?f s2) q2' = (None, q')"
            with 1 2 c1 c2 show ?thesis by (simp add: unfold)
          next
            fix c3 s3 q3 q3' assume 3: "?adv s2 q2 = (Some (c3, s3), q3)"
              "?adv (?f s2) q2' = (Some (c3, ?f s3), q3')" "length s3 < length s2"
            from advance_significant_cases [of s3 q3 q3'] show ?thesis
            proof (elim disjE exE conjE)
              fix q q' assume "?adv s3 q3 = (None, q)" "?adv (?f s3) q3' = (None, q')"
              with 1 2 3 c1 c2 show ?thesis by (simp add: unfold)
            next
              fix c4 s4 q4 q4' assume 4: "?adv s3 q3 = (Some (c4, s4), q4)"
                "?adv (?f s3) q3' = (Some (c4, ?f s4), q4')" "length s4 < length s3"
              have "length s4 < length s" using 1 2 3 4 by simp
              from less.hyps [OF this] 1 2 3 4 c1 c2 show ?thesis by (simp add: unfold)
            qed
          qed
        qed
      qed
    qed
  qed
qed

text \<open>The decoder ignores every character that is neither in the base64 alphabet nor the padding
  character, wherever it stands: its result on a text is its result on the significant characters
  alone, the reported position of an error apart.\<close>

theorem base64_decode_ignores:
  "map_sum without_position id (Fbase64_decode_string s) =
   map_sum without_position id (Fbase64_decode_string (filter (\<lambda>c. IS_BASE64 c \<or> c = EQUALS) s))"
  by (simp add: Fbase64_decode_string_eq base64_decode_1_def decode_significant)

section \<open>Witnesses\<close>

theorem base64_roundtrip_witness:
  "\<exists>e. Fbase64_encode_string [77, 0, 255, 10] False = Inr e \<and> Fbase64_decode_string e = Inr [77, 0, 255, 10]"
  by (rule base64_roundtrip) simp

theorem base64_line_length_witness:
  "\<exists>e. Fbase64_encode_string (replicate 55 0) False = Inr e \<and> e ! 72 = NEWLINE"
proof -
  have e: "Fbase64_encode_string (replicate 55 0) False = Inr (encoding True 0 (replicate 55 0))"
    by (simp add: Fbase64_encode_string_ok)
  have "72 < length (encoding True 0 (replicate 55 0))" by (simp add: length_encoding_le groups_def)
  from base64_line_length [OF e this] e show ?thesis by (simp add: MIME_LINE_LENGTH_def)
qed

theorem base64_encode_result_witness:
  "\<exists>e. Fbase64_encode_string [77, 0] True = Inr e \<and> length e = 4"
proof (cases "Fbase64_encode_string [77, 0] True")
  case (Inl err)
  then obtain ys c zs where "[77, 0 :: nat] = ys @ c # zs" "c > 255"
    using base64_encode_result [of "[77, 0]" True] by auto
  then have "c \<in> set [77, 0 :: nat]" by (metis in_set_conv_decomp)
  with \<open>c > 255\<close> show ?thesis by simp
next
  case (Inr e)
  then show ?thesis using base64_encode_result [of "[77, 0]" True] by simp
qed

end
