(* ===== verification/Lisp_Object.thy ===== *)
theory Lisp_Object
  imports Prelude
begin

text \<open>
  Lisp objects: the tagged machine word of \<open>src/lisp-disunion.h\<close>, \<open>equal\<close> (\<open>internal_equal\<close> of
  \<open>src/fns.c\<close> with the methods \<open>cons_equal\<close>, \<open>vector_equal\<close> and \<open>string_equal\<close> of \<open>src/alloc.c\<close>)
  and the hash functions that have to agree with it (\<open>src/elhash.c\<close>), on a 64-bit machine.
  An object is modelled with everything reachable from it; a pointer type carries its address
  besides, so that \<open>EQ\<close>, which compares words, is equality of the modelled objects.  Circular
  structures, floats and the display types are not modelled.
\<close>

unbundle bit_operations_syntax

section \<open>Tagged words\<close>

type_synonym lisp_word = "64 word"

datatype lisp_type = Lisp_Type_Record | Lisp_Type_Fixnum_Even | Lisp_Type_Char | Lisp_Type_Fixnum_Odd

definition GCTYPEBITS :: nat where "GCTYPEBITS = 2"
definition GCBITS :: nat where "GCBITS = 2"
definition FIXNUM_GCBITS :: nat where "FIXNUM_GCBITS = 1"
definition FIXNUM_VALBITS :: nat where "FIXNUM_VALBITS = 64 - FIXNUM_GCBITS"
definition VALBITS :: nat where "VALBITS = 64 - GCBITS"

definition MOST_POSITIVE_FIXNUM :: int where
  "MOST_POSITIVE_FIXNUM = push_bit (FIXNUM_VALBITS - 1) 1 - 1"

definition MOST_NEGATIVE_FIXNUM :: int where
  "MOST_NEGATIVE_FIXNUM = - MOST_POSITIVE_FIXNUM - 1"

text \<open>\<open>Lisp_Type_Fixnum_Even & Lisp_Type_Fixnum_Odd\<close>, the values of the enumeration being 1 and 3.\<close>

definition Lisp_Type_Fixnum_Bit :: lisp_word where "Lisp_Type_Fixnum_Bit = 1 AND 3"

definition VALMASK :: lisp_word where "VALMASK = push_bit GCTYPEBITS (push_bit VALBITS 1 - 1)"

definition XTYPE :: "lisp_word \<Rightarrow> lisp_type" where
  "XTYPE x = [Lisp_Type_Record, Lisp_Type_Fixnum_Even, Lisp_Type_Char, Lisp_Type_Fixnum_Odd] !
     unat (x AND NOT VALMASK)"

definition XCHARVAL :: "lisp_word \<Rightarrow> lisp_word" where "XCHARVAL x = drop_bit GCBITS x"
definition XREALFIXNUM :: "lisp_word \<Rightarrow> int" where "XREALFIXNUM x = sint (signed_drop_bit FIXNUM_GCBITS x)"

definition make_fixnum :: "int \<Rightarrow> lisp_word" where
  "make_fixnum x = push_bit FIXNUM_GCBITS (word_of_int x) OR Lisp_Type_Fixnum_Bit"

text \<open>The assertion of \<open>make_fixnum_verify\<close> is the \<open>None\<close>.\<close>

definition make_fixnum_verify :: "int \<Rightarrow> lisp_word option" where
  "make_fixnum_verify val =
     (let obj = push_bit FIXNUM_GCBITS (word_of_int val) OR Lisp_Type_Fixnum_Bit
      in if XREALFIXNUM obj = val then Some obj else None)"

definition make_char_1 :: "lisp_word \<Rightarrow> lisp_word" where "make_char_1 x = push_bit GCBITS x OR 2"

definition FIXNUMP :: "lisp_word \<Rightarrow> bool" where "FIXNUMP x = (x AND Lisp_Type_Fixnum_Bit \<noteq> 0)"
definition CHARP :: "lisp_word \<Rightarrow> bool" where "CHARP x = (XTYPE x = Lisp_Type_Char)"
definition POINTER_TYPE_P :: "lisp_type \<Rightarrow> bool" where "POINTER_TYPE_P t = (t = Lisp_Type_Record)"

text \<open>Addition and subtraction of fixnums on their words, without untagging.\<close>

definition FIXNUM_PLUS :: "lisp_word \<Rightarrow> lisp_word \<Rightarrow> lisp_word" where
  "FIXNUM_PLUS x y = x + y - Lisp_Type_Fixnum_Bit"

definition FIXNUM_MINUS :: "lisp_word \<Rightarrow> lisp_word \<Rightarrow> lisp_word" where
  "FIXNUM_MINUS x y = x - y + Lisp_Type_Fixnum_Bit"

section \<open>Objects\<close>

datatype lisp_object =
    Immediate lisp_word
  | Symbol lisp_word
  | Cons lisp_word lisp_object lisp_object
  | Lisp_String lisp_word "8 word list"
  | Vector lisp_word "lisp_object list"
  | Bignum lisp_word int
  | Lisp_Record lisp_word

definition EQ :: "lisp_object \<Rightarrow> lisp_object \<Rightarrow> bool" where "EQ x y = (x = y)"

fun CONSP :: "lisp_object \<Rightarrow> bool" where
  "CONSP (Cons _ _ _) = True"
| "CONSP _ = False"

fun XCAR :: "lisp_object \<Rightarrow> lisp_object" where
  "XCAR (Cons _ a _) = a"
| "XCAR obj = obj"

fun XCDR :: "lisp_object \<Rightarrow> lisp_object" where
  "XCDR (Cons _ _ d) = d"
| "XCDR obj = obj"

lemma CONSP_iff: "CONSP d \<longleftrightarrow> (\<exists>p a e. d = Cons p a e)"
  by (cases d) auto

fun SYMBOLP :: "lisp_object \<Rightarrow> bool" where
  "SYMBOLP (Symbol _) = True"
| "SYMBOLP _ = False"

fun FIXNUM_OR_CHARP :: "lisp_object \<Rightarrow> bool" where
  "FIXNUM_OR_CHARP (Immediate w) = (FIXNUMP w \<or> CHARP w)"
| "FIXNUM_OR_CHARP _ = False"

fun NON_FIXNUM_NUMBER_P :: "lisp_object \<Rightarrow> bool" where
  "NON_FIXNUM_NUMBER_P (Bignum _ _) = True"
| "NON_FIXNUM_NUMBER_P _ = False"

text \<open>\<open>LISP_HASH\<close>: the word itself.\<close>

fun LISP_HASH :: "lisp_object \<Rightarrow> 64 word" where
  "LISP_HASH (Immediate w) = w"
| "LISP_HASH (Symbol p) = p"
| "LISP_HASH (Cons p _ _) = p"
| "LISP_HASH (Lisp_String p _) = p"
| "LISP_HASH (Vector p _) = p"
| "LISP_HASH (Bignum p _) = p"
| "LISP_HASH (Lisp_Record p) = p"

section \<open>Equality\<close>

text \<open>
  \<open>internal_equal\<close>, with \<open>lisp_eval_depth\<close> and \<open>max_lisp_eval_depth\<close> as arguments; the result is
  \<open>None\<close> when it signals \<open>Stack overflow in equal\<close>.  The \<open>QUIT\<close> at its start, which either does nothing or
  leaves the comparison with a \<open>quit\<close> signal, is left out: no quit is pending.
\<close>

function (sequential) internal_equal :: "nat \<Rightarrow> nat \<Rightarrow> nat \<Rightarrow> lisp_object \<Rightarrow> lisp_object \<Rightarrow> bool option"
  and cons_equal :: "nat \<Rightarrow> nat \<Rightarrow> nat \<Rightarrow> lisp_object \<Rightarrow> lisp_object \<Rightarrow> lisp_object \<Rightarrow> lisp_object \<Rightarrow> bool option"
  and vector_equal :: "nat \<Rightarrow> nat \<Rightarrow> nat \<Rightarrow> lisp_object list \<Rightarrow> lisp_object list \<Rightarrow> bool option"
where
  "internal_equal mx ed depth obj1 obj2 =
     (if depth + ed > mx then None
      else if EQ obj1 obj2 then Some True
      else case (obj1, obj2) of
        (Cons _ a1 d1, Cons _ a2 d2) \<Rightarrow> cons_equal mx ed (depth + 1) a1 d1 a2 d2
      | (Vector _ xs, Vector _ ys) \<Rightarrow>
          if length xs \<noteq> length ys then Some False else vector_equal mx ed (depth + 1) xs ys
      | (Lisp_String _ s, Lisp_String _ t) \<Rightarrow> Some (length s = length t \<and> s = t)
      | (Bignum _ m, Bignum _ n) \<Rightarrow> Some (m = n)
      | _ \<Rightarrow> Some False)"
| "cons_equal mx ed depth a1 d1 a2 d2 =
     (case internal_equal mx ed depth a1 a2 of
        None \<Rightarrow> None
      | Some False \<Rightarrow> Some False
      | Some True \<Rightarrow>
          if \<not> CONSP d1 \<or> \<not> CONSP d2 then internal_equal mx ed depth d1 d2
          else cons_equal mx ed depth (XCAR d1) (XCDR d1) (XCAR d2) (XCDR d2))"
| "vector_equal mx ed depth (x # xs) (y # ys) =
     (case internal_equal mx ed depth x y of
        None \<Rightarrow> None
      | Some False \<Rightarrow> Some False
      | Some True \<Rightarrow> vector_equal mx ed depth xs ys)"
| "vector_equal mx ed depth _ _ = Some True"
  by pat_completeness auto
termination
  by (relation "measure (\<lambda>r. case r of
        Inl (_, _, _, o1, _) \<Rightarrow> 2 * size o1
      | Inr (Inl (_, _, _, a1, d1, _)) \<Rightarrow> 2 * (size a1 + size d1) + 1
      | Inr (Inr (_, _, _, xs, _)) \<Rightarrow> 2 * size_list size xs)") (auto simp: CONSP_iff)

declare internal_equal.simps [simp del] cons_equal.simps [simp del]

section \<open>Hashing\<close>

definition GOOD_HASH :: "64 word" where "GOOD_HASH = 4294967311"
definition HASH2 :: "64 word \<Rightarrow> 64 word \<Rightarrow> 64 word" where "HASH2 a b = GOOD_HASH * a + b"
definition HASH3 :: "64 word \<Rightarrow> 64 word \<Rightarrow> 64 word \<Rightarrow> 64 word" where
  "HASH3 a b c = GOOD_HASH * HASH2 a b + c"

fun hash_string_loop :: "32 word \<Rightarrow> 8 word list \<Rightarrow> 32 word" where
  "hash_string_loop hash [] = hash"
| "hash_string_loop hash (b # bs) = hash_string_loop (31 * hash + ucast b) bs"

definition hash_string :: "8 word list \<Rightarrow> 32 word" where "hash_string ptr = hash_string_loop 0 ptr"

text \<open>
  \<open>bignum_hashcode\<close> of the build with the MP library: \<open>bignum_to_uint\<close> collects the four low bytes
  of the absolute value, dividing a copy of the number by 256 four times.
\<close>

definition bignum_to_uint :: "int \<Rightarrow> 32 word" where
  "bignum_to_uint b =
     (if b = 0 then 0
      else snd (foldl (\<lambda>(quo, retval) i. (quo div 256, retval OR push_bit (8 * i) (word_of_int (quo mod 256))))
                 (\<bar>b\<bar>, 0) [0, 1, 2, 3]))"

definition bignum_hashcode :: "int \<Rightarrow> 64 word" where "bignum_hashcode b = ucast (bignum_to_uint b)"

text \<open>The positions \<open>internal_array_hash\<close> looks at: all of them, or five spread over the array.\<close>

definition array_hash_sample :: "'a list \<Rightarrow> 'a list" where
  "array_hash_sample arr =
     (if length arr \<le> 5 then arr else map (\<lambda>i. arr ! (i * length arr div 5)) [0, 1, 2, 3, 4])"

text \<open>\<open>internal_hash\<close> with the \<open>equalp\<close> flag off; the loop over the cdrs of a list starts at \<open>s = 1\<close>.\<close>

lemma size_sample: "x \<in> set (array_hash_sample xs) \<Longrightarrow> size x \<le> size_list size xs"
proof -
  assume x: "x \<in> set (array_hash_sample xs)"
  have "length xs > 5 \<Longrightarrow> i < 5 \<Longrightarrow> i * length xs div 5 < length xs" for i
    by (auto simp: div_less_iff_less_mult)
  with x have "x \<in> set xs" by (fastforce simp: array_hash_sample_def split: if_splits intro!: nth_mem)
  then show ?thesis by (simp add: size_list_estimation')
qed

function (sequential) internal_hash :: "lisp_object \<Rightarrow> nat \<Rightarrow> 64 word"
  and list_hash_loop :: "lisp_object \<Rightarrow> nat \<Rightarrow> nat \<Rightarrow> 64 word \<Rightarrow> 64 word"
where
  "internal_hash obj depth =
     (if depth > 5 then 0
      else case obj of
        Cons _ car cdr \<Rightarrow>
          let depth = depth + 1 in
          if \<not> CONSP cdr then HASH2 (internal_hash car depth) (internal_hash cdr depth)
          else list_hash_loop cdr depth 1 (internal_hash car depth)
      | Lisp_String _ s \<Rightarrow> ucast (hash_string s)
      | Vector _ xs \<Rightarrow>
          HASH2 (of_nat (length xs))
            (let depth = depth + 1 + 1
             in foldl (\<lambda>hash x. HASH2 hash x) 0 (map (\<lambda>x. internal_hash x depth) (array_hash_sample xs)))
      | Bignum _ n \<Rightarrow> bignum_hashcode n
      | _ \<Rightarrow> LISP_HASH obj)"
| "list_hash_loop (Cons _ car cdr) depth s hash =
     (if s < 6 then list_hash_loop cdr depth (s + 1) (HASH3 hash (internal_hash car depth) (of_nat s))
      else hash)"
| "list_hash_loop obj depth s hash = hash"
  by pat_completeness auto
termination
  by (relation "measure (\<lambda>r. case r of Inl (o1, _) \<Rightarrow> size o1 | Inr (o1, _) \<Rightarrow> size o1)")
    (auto dest: size_sample)

declare internal_hash.simps [simp del]

text \<open>The hash and equality functions of the built-in hash table tests \<open>eql\<close> and \<open>equal\<close>.\<close>

definition lisp_object_eql_equal :: "nat \<Rightarrow> nat \<Rightarrow> lisp_object \<Rightarrow> lisp_object \<Rightarrow> bool option" where
  "lisp_object_eql_equal mx ed obj1 obj2 =
     (if EQ obj1 obj2 then Some True
      else if NON_FIXNUM_NUMBER_P obj1 then internal_equal mx ed 0 obj1 obj2
      else Some False)"

definition lisp_object_eql_hash :: "lisp_object \<Rightarrow> 64 word" where
  "lisp_object_eql_hash obj = (if NON_FIXNUM_NUMBER_P obj then internal_hash obj 0 else LISP_HASH obj)"

definition lisp_object_equal_hash :: "lisp_object \<Rightarrow> 64 word" where
  "lisp_object_equal_hash obj = internal_hash obj 0"

section \<open>Tags\<close>

lemma tag_values: "VALMASK = NOT 3" "Lisp_Type_Fixnum_Bit = 1"
  by (simp_all add: VALMASK_def VALBITS_def GCBITS_def GCTYPEBITS_def Lisp_Type_Fixnum_Bit_def push_bit_eq_mult)

lemma bit_double_64: "bit (w * 2 :: 64 word) n \<longleftrightarrow> 0 < n \<and> n < 64 \<and> bit w (n - 1)"
  using bit_double_iff [of w n] by (auto simp: mult.commute)

lemma make_fixnum_eq: "make_fixnum x = 2 * word_of_int x + 1"
proof -
  have "push_bit 1 (word_of_int x) OR (1 :: 64 word) = push_bit 1 (word_of_int x) + 1"
    by (rule disjunctive_add [symmetric]) (auto simp: bit_simps bit_double_64)
  then show ?thesis by (simp add: make_fixnum_def tag_values FIXNUM_GCBITS_def push_bit_eq_mult)
qed

lemma XREALFIXNUM_make_fixnum: "XREALFIXNUM (make_fixnum x) = signed_take_bit 62 x"
proof (rule bit_eqI)
  fix n
  show "bit (XREALFIXNUM (make_fixnum x)) n \<longleftrightarrow> bit (signed_take_bit 62 x) n"
    by (cases "n = 62")
      (auto simp: XREALFIXNUM_def make_fixnum_def FIXNUM_GCBITS_def tag_values bit_simps bit_double_64 min_def)
qed

lemma XTYPE_eq: "XTYPE x = [Lisp_Type_Record, Lisp_Type_Fixnum_Even, Lisp_Type_Char, Lisp_Type_Fixnum_Odd] ! (unat x mod 4)"
proof -
  have "x AND NOT VALMASK = take_bit 2 x"
    by (simp add: tag_values take_bit_eq_mask mask_eq_exp_minus_1)
  moreover have "unat (take_bit 2 x) = unat x mod 4"
    by (simp only: unsigned_take_bit_eq) (simp add: take_bit_eq_mod)
  ultimately show ?thesis by (simp add: XTYPE_def)
qed

lemma odd_unat: "odd (unat (x :: 64 word)) \<longleftrightarrow> odd x"
  using bit_unsigned_iff [of x 0] by (simp add: bit_0)

lemma FIXNUMP_eq: "FIXNUMP x \<longleftrightarrow> odd (unat x)"
  by (simp add: FIXNUMP_def tag_values and_one_eq odd_unat flip: odd_iff_mod_2_eq_one)

lemma odd_mod_4: "odd n \<Longrightarrow> n mod 4 = 1 \<or> n mod 4 = (3 :: nat)"
  by presburger

lemma FIXNUMP_XTYPE: "FIXNUMP x \<longleftrightarrow> XTYPE x = Lisp_Type_Fixnum_Even \<or> XTYPE x = Lisp_Type_Fixnum_Odd"
proof -
  have "unat x mod 4 < 4" by simp
  then consider "unat x mod 4 = 0" | "unat x mod 4 = 1" | "unat x mod 4 = 2" | "unat x mod 4 = 3" by linarith
  then show ?thesis
    by cases (simp_all add: FIXNUMP_eq XTYPE_eq numeral_3_eq_3, presburger+)
qed

lemma FIXNUMP_make_fixnum [simp]: "FIXNUMP (make_fixnum x)"
  by (simp add: FIXNUMP_eq make_fixnum_eq odd_unat)

lemma char_word:
  "CHARP (make_char_1 c)" "\<not> FIXNUMP (make_char_1 c)" "unat c < 2 ^ 62 \<Longrightarrow> XCHARVAL (make_char_1 c) = c"
proof -
  have "bit (take_bit 2 (make_char_1 c)) n \<longleftrightarrow> bit (2 :: 64 word) n" for n
    by (auto simp: make_char_1_def GCBITS_def bit_simps)
  then have "take_bit 2 (make_char_1 c) = 2" by (rule bit_word_eqI)
  then have "unat (take_bit 2 (make_char_1 c)) = 2" by simp
  then have "unat (make_char_1 c) mod 4 = 2" by (simp only: unsigned_take_bit_eq) (simp add: take_bit_eq_mod)
  then show "CHARP (make_char_1 c)" "\<not> FIXNUMP (make_char_1 c)"
    by (simp_all add: FIXNUMP_XTYPE CHARP_def XTYPE_eq)
  assume c: "unat c < 2 ^ 62"
  then have "take_bit 62 (unat c) = unat c" by (rule take_bit_nat_eq_self)
  then have "bit (unat c) n \<Longrightarrow> n < 62" for n by (metis bit_take_bit_iff)
  moreover have "bit c n \<Longrightarrow> bit (unat c) n" for n by (simp add: bit_unsigned_iff)
  ultimately have "bit c n \<Longrightarrow> n < 62" for n by blast
  then show "XCHARVAL (make_char_1 c) = c"
    by (intro bit_word_eqI) (force simp: XCHARVAL_def make_char_1_def GCBITS_def bit_simps)
qed

lemma fixnum_limits: "MOST_POSITIVE_FIXNUM = 2 ^ 62 - 1" "MOST_NEGATIVE_FIXNUM = - (2 ^ 62)"
  by (simp_all add: MOST_POSITIVE_FIXNUM_def MOST_NEGATIVE_FIXNUM_def FIXNUM_VALBITS_def FIXNUM_GCBITS_def
      push_bit_eq_mult)

text \<open>The tagged word of a fixnum: every integer of the fixnum range comes back from its word, which
  has a fixnum tag and neither the character's nor the pointer's; outside the range the assertion of
  \<open>make_fixnum_verify\<close> fails.\<close>

theorem make_fixnum_verify_correct:
  "(case make_fixnum_verify n of
      Some w \<Rightarrow> MOST_NEGATIVE_FIXNUM \<le> n \<and> n \<le> MOST_POSITIVE_FIXNUM \<and> w = make_fixnum n \<and>
        XREALFIXNUM w = n \<and> FIXNUMP w \<and> \<not> CHARP w \<and> \<not> POINTER_TYPE_P (XTYPE w)
    | None \<Rightarrow> n < MOST_NEGATIVE_FIXNUM \<or> MOST_POSITIVE_FIXNUM < n)"
proof -
  have "make_fixnum_verify n = (if signed_take_bit 62 n = n then Some (make_fixnum n) else None)"
    using XREALFIXNUM_make_fixnum [of n] by (simp add: make_fixnum_verify_def make_fixnum_def)
  moreover have "signed_take_bit 62 n = n \<longleftrightarrow> MOST_NEGATIVE_FIXNUM \<le> n \<and> n \<le> MOST_POSITIVE_FIXNUM"
    using signed_take_bit_int_eq_self_iff [of 62 n] by (auto simp: fixnum_limits)
  moreover have "\<not> CHARP (make_fixnum n)" "\<not> POINTER_TYPE_P (XTYPE (make_fixnum n))"
    using FIXNUMP_XTYPE [of "make_fixnum n"] by (auto simp: CHARP_def POINTER_TYPE_P_def)
  ultimately show ?thesis
    using XREALFIXNUM_make_fixnum [of n] by auto
qed

text \<open>Fixnum arithmetic on tagged words is arithmetic on the numbers: the sum and the difference of two
  words denote the sum and the difference, wrapped to the 63 bits of a fixnum.\<close>

theorem fixnum_word_arithmetic:
  "FIXNUM_PLUS (make_fixnum a) (make_fixnum b) = make_fixnum (a + b) \<and>
   FIXNUM_MINUS (make_fixnum a) (make_fixnum b) = make_fixnum (a - b) \<and>
   XREALFIXNUM (FIXNUM_PLUS (make_fixnum a) (make_fixnum b)) = signed_take_bit 62 (a + b)"
proof -
  have "FIXNUM_PLUS (make_fixnum a) (make_fixnum b) = make_fixnum (a + b)"
    "FIXNUM_MINUS (make_fixnum a) (make_fixnum b) = make_fixnum (a - b)"
    by (simp_all add: FIXNUM_PLUS_def FIXNUM_MINUS_def make_fixnum_eq tag_values algebra_simps)
  then show ?thesis using XREALFIXNUM_make_fixnum [of "a + b"] by simp
qed

section \<open>Equality is equality of structure\<close>

text \<open>The addresses of the objects that \<open>equal\<close> looks into are immaterial.\<close>

fun skeleton :: "lisp_object \<Rightarrow> lisp_object" where
  "skeleton (Cons p a d) = Cons 0 (skeleton a) (skeleton d)"
| "skeleton (Lisp_String p s) = Lisp_String 0 s"
| "skeleton (Vector p xs) = Vector 0 (map skeleton xs)"
| "skeleton (Bignum p n) = Bignum 0 n"
| "skeleton obj = obj"

definition agrees :: "bool option \<Rightarrow> bool \<Rightarrow> bool" where
  "agrees r b \<longleftrightarrow> r = None \<or> r = Some b"

lemma agrees_simps [simp]: "agrees None b" "agrees (Some a) b \<longleftrightarrow> a = b"
  by (auto simp: agrees_def)

lemma agrees_and:
  "agrees r a \<Longrightarrow> (r = Some True \<Longrightarrow> agrees q b) \<Longrightarrow>
   agrees (case r of None \<Rightarrow> None | Some False \<Rightarrow> Some False | Some True \<Rightarrow> q) (a \<and> b)"
  by (auto simp: agrees_def split: option.splits bool.splits)

lemma equal_skeleton:
  "agrees (internal_equal mx ed depth o1 o2) (skeleton o1 = skeleton o2)"
  "agrees (cons_equal mx ed depth a1 d1 a2 d2) (skeleton a1 = skeleton a2 \<and> skeleton d1 = skeleton d2)"
  "length xs = length ys \<Longrightarrow> agrees (vector_equal mx ed depth xs ys) (map skeleton xs = map skeleton ys)"
proof (induction mx ed depth o1 o2 and mx ed depth a1 d1 a2 d2 and mx ed depth xs ys
    rule: internal_equal_cons_equal_vector_equal.induct)
  case (1 mx ed depth obj1 obj2)
  then show ?case
    by (cases obj1; cases obj2)
      (auto simp: internal_equal.simps EQ_def dest: map_eq_imp_length_eq)
next
  case (2 mx ed depth a1 d1 a2 d2)
  show ?case
    unfolding cons_equal.simps [of mx ed depth a1 d1 a2 d2]
    using 2 by (intro agrees_and) (auto simp: CONSP_iff)
next
  case (3 mx ed depth x xs y ys)
  then show ?case unfolding vector_equal.simps list.map list.inject by (intro agrees_and) auto
qed auto

text \<open>How deep \<open>internal_equal\<close> can recurse: into the cars of a list and its final cdr, and into
  the elements of a vector, but not along the cdrs.\<close>

fun height :: "lisp_object \<Rightarrow> nat" where
  "height (Cons p a d) = Suc (max (height a) (if CONSP d then height d - 1 else height d))"
| "height (Vector p xs) = Suc (foldr max (map height xs) 0)"
| "height obj = 0"

lemma equal_returns:
  "depth + ed + height o1 \<le> mx \<Longrightarrow> internal_equal mx ed depth o1 o2 \<noteq> None"
  "depth + ed + max (height a1) (if CONSP d1 then height d1 - 1 else height d1) \<le> mx \<Longrightarrow>
     cons_equal mx ed depth a1 d1 a2 d2 \<noteq> None"
  "length xs = length ys \<Longrightarrow> depth + ed + foldr max (map height xs) 0 \<le> mx \<Longrightarrow>
     vector_equal mx ed depth xs ys \<noteq> None"
proof (induction mx ed depth o1 o2 and mx ed depth a1 d1 a2 d2 and mx ed depth xs ys
    rule: internal_equal_cons_equal_vector_equal.induct)
  case (1 mx ed depth obj1 obj2)
  then show ?case
    unfolding internal_equal.simps [of mx ed depth obj1 obj2] EQ_def
    by (cases obj1; cases obj2) (simp_all del: not_None_eq)
next
  case (2 mx ed depth a1 d1 a2 d2)
  have "internal_equal mx ed depth a1 a2 \<noteq> None" using 2 by simp
  moreover have "internal_equal mx ed depth d1 d2 \<noteq> None"
    if "internal_equal mx ed depth a1 a2 = Some True" "\<not> CONSP d1 \<or> \<not> CONSP d2"
  proof (cases "CONSP d1")
    case False
    then show ?thesis using 2 that by simp
  next
    case True
    then show ?thesis using that(2) "2.prems" unfolding internal_equal.simps [of mx ed depth d1 d2]
      by (cases d2) (auto simp: CONSP_iff EQ_def)
  qed
  moreover have "cons_equal mx ed depth (XCAR d1) (XCDR d1) (XCAR d2) (XCDR d2) \<noteq> None"
    if r: "internal_equal mx ed depth a1 a2 = Some True" "CONSP d1" "CONSP d2"
  proof -
    obtain p a d q b e where "d1 = Cons p a d" "d2 = Cons q b e" using r(2,3) by (auto simp: CONSP_iff)
    with 2 r show ?thesis by (simp cong: if_cong)
  qed
  ultimately show ?case
    unfolding cons_equal.simps [of mx ed depth a1 d1 a2 d2] by (auto split: option.split bool.split)
next
  case (3 mx ed depth x xs y ys)
  then show ?case by (auto split: option.splits bool.splits)
qed auto

lemma internal_equal_ok:
  "depth + ed + height o1 \<le> mx \<Longrightarrow> internal_equal mx ed depth o1 o2 = Some (skeleton o1 = skeleton o2)"
  using equal_skeleton(1) [of mx ed depth o1 o2] equal_returns(1) [of depth ed o1 mx o2]
  by (auto simp: agrees_def)

text \<open>C34: \<open>equal\<close> decides equality of structure: when it returns, its answer is whether the two objects
  are the same up to the addresses of their conses, strings, vectors and bignums, and it returns (does
  not signal a stack overflow) whenever the nesting of the first object fits the depth that is left;
  the length of a list does not count.\<close>

theorem internal_equal_correct:
  "(internal_equal mx ed depth o1 o2 = None \<or>
    internal_equal mx ed depth o1 o2 = Some (skeleton o1 = skeleton o2)) \<and>
   (depth + ed + height o1 \<le> mx \<longrightarrow> internal_equal mx ed depth o1 o2 = Some (skeleton o1 = skeleton o2))"
  using equal_skeleton(1) [of mx ed depth o1 o2] equal_returns(1) [of depth ed o1 mx o2]
  by (auto simp: agrees_def)

section \<open>Equal objects hash alike\<close>

lemma CONSP_skeleton [simp]: "CONSP (skeleton d) = CONSP d"
  by (cases d) auto

lemma array_hash_sample_map: "array_hash_sample (map f xs) = map f (array_hash_sample xs)"
proof -
  have "length xs > 5 \<Longrightarrow> i < 5 \<Longrightarrow> i * length xs div 5 < length xs" for i
    by (auto simp: div_less_iff_less_mult)
  moreover have "length xs > 5 \<Longrightarrow> map f xs ! 0 = f (xs ! 0)" by (cases xs) auto
  ultimately show ?thesis by (auto simp: array_hash_sample_def)
qed

lemma hash_skeleton:
  "internal_hash (skeleton obj) depth = internal_hash obj depth"
  "list_hash_loop (skeleton obj) depth s hash = list_hash_loop obj depth s hash"
proof (induction obj depth and obj depth s hash rule: internal_hash_list_hash_loop.induct)
  case (1 obj depth)
  show ?case
  proof (cases "depth > 5")
    case True then show ?thesis by (simp add: internal_hash.simps)
  next
    case False
    with 1 show ?thesis
      by (cases obj) (simp_all add: internal_hash.simps [of _ depth] Let_def array_hash_sample_map cong: map_cong)
  qed
qed simp_all

lemma NON_FIXNUM_NUMBER_P_skeleton: "NON_FIXNUM_NUMBER_P (skeleton d) = NON_FIXNUM_NUMBER_P d"
  by (cases d) simp_all

text \<open>C35: the promise of a hash function, that equal objects have equal hash codes, holds for the hash tables' tests
  \<open>equal\<close> and \<open>eql\<close>: objects for which \<open>equal\<close> answers yes have the same \<open>internal_hash\<close> at every depth and so the
  same \<open>lisp_object_equal_hash\<close>, and objects for which \<open>lisp_object_eql_equal\<close> answers yes have the same
  \<open>lisp_object_eql_hash\<close>.\<close>

theorem equal_hash_law:
  "(internal_equal mx ed depth o1 o2 = Some True \<longrightarrow>
      internal_hash o1 k = internal_hash o2 k \<and> lisp_object_equal_hash o1 = lisp_object_equal_hash o2) \<and>
   (lisp_object_eql_equal mx ed o1 o2 = Some True \<longrightarrow> lisp_object_eql_hash o1 = lisp_object_eql_hash o2)"
proof -
  have h: "internal_hash o1 j = internal_hash o2 j \<and> skeleton o1 = skeleton o2"
    if "internal_equal mx ed i o1 o2 = Some True" for i j
    using equal_skeleton(1) [of mx ed i o1 o2] that hash_skeleton(1) [of o1 j] hash_skeleton(1) [of o2 j] by simp
  moreover have "lisp_object_eql_hash o1 = lisp_object_eql_hash o2" if eql: "lisp_object_eql_equal mx ed o1 o2 = Some True"
  proof (cases "EQ o1 o2")
    case True
    then show ?thesis by (simp add: EQ_def)
  next
    case False
    then have n: "NON_FIXNUM_NUMBER_P o1" "internal_equal mx ed 0 o1 o2 = Some True"
      using eql by (auto simp: lisp_object_eql_equal_def split: if_splits)
    then have "NON_FIXNUM_NUMBER_P o2" using h NON_FIXNUM_NUMBER_P_skeleton by metis
    then show ?thesis using n h by (simp add: lisp_object_eql_hash_def)
  qed
  ultimately show ?thesis by (simp add: lisp_object_equal_hash_def)
qed

theorem equal_hash_law_witness:
  "internal_hash (Cons 8 (Immediate 3) (Lisp_String 16 [65])) 0 =
     internal_hash (Cons 24 (Immediate 3) (Lisp_String 32 [65])) 0 \<and>
   lisp_object_eql_hash (Bignum 8 5) = lisp_object_eql_hash (Bignum 16 5)"
proof -
  have "internal_equal 10 0 0 (Cons 8 (Immediate 3) (Lisp_String 16 [65])) (Cons 24 (Immediate 3) (Lisp_String 32 [65]))
      = Some True" "lisp_object_eql_equal 10 0 (Bignum 8 5) (Bignum 16 5) = Some True"
    by (simp_all add: internal_equal.simps cons_equal.simps EQ_def lisp_object_eql_equal_def)
  then show ?thesis
    using equal_hash_law [of 10 0 0 "Cons 8 (Immediate 3) (Lisp_String 16 [65])" "Cons 24 (Immediate 3) (Lisp_String 32 [65])" 0]
      equal_hash_law [of 10 0 0 "Bignum 8 5" "Bignum 16 5" 0] by blast
qed

theorem internal_equal_correct_witness:
  "internal_equal 10 2 0 (Vector 8 [Immediate 3]) (Vector 16 [Immediate 3]) = Some True"
  using internal_equal_correct [of 10 2 0 "Vector 8 [Immediate 3]" "Vector 16 [Immediate 3]"] by simp

end
