(* ===== verification/Linear_Probing.thy ===== *)
theory Linear_Probing
  imports Prelude "HOL-Library.Multiset"
begin

text \<open>
  Linear probing, as the hash tables of \<open>src/elhash.c\<close> use it: the macro \<open>LINEAR_PROBING_LOOP\<close>,
  and the loops of \<open>resize_hash_table\<close> and \<open>remhash_1\<close>.  An array of entries has
  \<open>size + 1\<close> cells, the last of which (the sentinel) is always clear; a clear cell is \<open>None\<close>.
  A comparison of keys may signal an error, which is the \<open>None\<close> of its result; a probe that never
  ends is \<open>None\<close> too.
\<close>

section \<open>The loops\<close>

type_synonym ('k, 'v) htentries = "('k \<times> 'v) option list"

partial_function (option) linear_probing_loop ::
    "('k \<Rightarrow> bool option) \<Rightarrow> ('k, 'v) htentries \<Rightarrow> nat \<Rightarrow> nat \<Rightarrow> nat option" where
  "linear_probing_loop stop entries sz probe =
     (if probe < length entries then
        case entries ! probe of
          Some e \<Rightarrow>
            (case stop (fst e) of
               None \<Rightarrow> None
             | Some b \<Rightarrow> if b then Some probe else linear_probing_loop stop entries sz (probe + 1))
        | None \<Rightarrow>
            if probe = sz then
              (case entries ! 0 of
                 Some e \<Rightarrow>
                   (case stop (fst e) of
                      None \<Rightarrow> None
                    | Some b \<Rightarrow> if b then Some 0 else linear_probing_loop stop entries sz 1)
               | None \<Rightarrow> Some 0)
            else Some probe
      else None)"

declare linear_probing_loop.simps [code]

text \<open>Filling a fresh array from the cells of the old one, in order.\<close>

fun rehash_entries :: "('k \<Rightarrow> nat) \<Rightarrow> nat \<Rightarrow> ('k, 'v) htentries \<Rightarrow> ('k, 'v) htentries \<Rightarrow> ('k, 'v) htentries option" where
  "rehash_entries home sz [] new_entries = Some new_entries"
| "rehash_entries home sz (None # es) new_entries = rehash_entries home sz es new_entries"
| "rehash_entries home sz (Some e # es) new_entries =
     (case linear_probing_loop (\<lambda>_. Some False) new_entries sz (home (fst e)) of
        None \<Rightarrow> None
      | Some probe \<Rightarrow> rehash_entries home sz es (new_entries[probe := Some e]))"

text \<open>
  The loop of \<open>remhash_1\<close> that enters the entries after the removed one again; \<open>home\<close> is
  \<open>HASHCODE\<close>.  Keys are compared with \<open>EQ\<close> here.
\<close>

definition reinsert_entry :: "('k \<Rightarrow> nat) \<Rightarrow> nat \<Rightarrow> ('k, 'v) htentries \<Rightarrow> nat \<Rightarrow> ('k \<times> 'v) \<Rightarrow> ('k, 'v) htentries option" where
  "reinsert_entry home sz entries probe e =
     (case linear_probing_loop (\<lambda>k. Some (k = fst e)) entries sz (home (fst e)) of
        None \<Rightarrow> None
      | Some probe2 \<Rightarrow>
          if entries ! probe2 \<noteq> None then Some entries
          else Some (entries[probe2 := Some e, probe := None]))"

partial_function (option) reinsert_loop ::
    "('k \<Rightarrow> nat) \<Rightarrow> nat \<Rightarrow> ('k, 'v) htentries \<Rightarrow> nat \<Rightarrow> ('k, 'v) htentries option" where
  "reinsert_loop home sz entries probe =
     (if probe < length entries then
        case entries ! probe of
          Some e \<Rightarrow>
            (case reinsert_entry home sz entries probe e of
               None \<Rightarrow> None
             | Some entries \<Rightarrow> reinsert_loop home sz entries (probe + 1))
        | None \<Rightarrow>
            if probe = sz then
              (case entries ! 0 of
                 Some e \<Rightarrow>
                   (case reinsert_entry home sz entries 0 e of
                      None \<Rightarrow> None
                    | Some entries \<Rightarrow> reinsert_loop home sz entries 1)
               | None \<Rightarrow> Some entries)
            else Some entries
      else None)"

declare reinsert_loop.simps [code]

section \<open>Positions on the ring\<close>

definition dist :: "nat \<Rightarrow> nat \<Rightarrow> nat \<Rightarrow> nat" where
  "dist sz h i = (i + sz - h) mod sz"

lemma dist_less [simp]: "0 < sz \<Longrightarrow> dist sz h i < sz"
  by (simp add: dist_def)

lemma dist_step: "h < sz \<Longrightarrow> i < sz \<Longrightarrow> (h + dist sz h i) mod sz = i"
  by (simp add: dist_def mod_add_right_eq)

lemma dist_unique:
  assumes "h < sz" "n < sz" "(h + n) mod sz = i"
  shows "dist sz h i = n"
proof -
  show ?thesis
  proof (cases "h + n < sz")
    case True
    then have "i + sz - h = n + sz" using assms by simp
    then show ?thesis using assms by (simp add: dist_def)
  next
    case False
    then have "i = h + n - sz" using assms by (simp add: le_mod_geq)
    then have "i + sz - h = n" using False by simp
    then show ?thesis using assms by (simp add: dist_def)
  qed
qed

section \<open>What a probe finds\<close>

definition lp_shape :: "nat \<Rightarrow> ('k, 'v) htentries \<Rightarrow> bool" where
  "lp_shape sz es \<longleftrightarrow> 0 < sz \<and> length es = sz + 1 \<and> es ! sz = None"

lemma linear_probing_loop_sentinel:
  assumes "lp_shape sz es"
  shows "linear_probing_loop stop es sz sz = linear_probing_loop stop es sz 0"
  using assms unfolding linear_probing_loop.simps [of stop es sz sz] linear_probing_loop.simps [of stop es sz 0]
  by (simp add: lp_shape_def split: option.split)

lemma linear_probing_loop_wrap:
  assumes "lp_shape sz es" "p \<le> sz"
  shows "linear_probing_loop stop es sz p = linear_probing_loop stop es sz (p mod sz)"
  using assms linear_probing_loop_sentinel [of sz es stop] by (cases "p = sz") auto

lemma linear_probing_loop_hit:
  assumes sh: "lp_shape sz es"
  shows "p < sz \<Longrightarrow> \<forall>d < n. \<exists>e. es ! ((p + d) mod sz) = Some e \<and> stop (fst e) = Some False \<Longrightarrow>
    (case es ! ((p + n) mod sz) of None \<Rightarrow> True | Some e \<Rightarrow> stop (fst e) = Some True) \<Longrightarrow>
    linear_probing_loop stop es sz p = Some ((p + n) mod sz)"
proof (induction n arbitrary: p)
  case 0
  then show ?case using sh
    by (subst linear_probing_loop.simps) (auto simp: lp_shape_def split: option.splits)
next
  case (Suc n)
  from Suc.prems(2) have "\<exists>e. es ! (p mod sz) = Some e \<and> stop (fst e) = Some False" by force
  then obtain e where e: "es ! p = Some e" "stop (fst e) = Some False" using Suc.prems(1) by auto
  have "linear_probing_loop stop es sz p = linear_probing_loop stop es sz (p + 1)"
    using e Suc.prems(1) sh by (subst linear_probing_loop.simps) (simp add: lp_shape_def)
  also have "\<dots> = linear_probing_loop stop es sz ((p + 1) mod sz)"
    using Suc.prems(1) by (intro linear_probing_loop_wrap [OF sh]) simp
  also have "\<dots> = Some (((p + 1) mod sz + n) mod sz)"
  proof (rule Suc.IH)
    show "(p + 1) mod sz < sz" using sh by (simp add: lp_shape_def)
    show "\<forall>d < n. \<exists>e. es ! (((p + 1) mod sz + d) mod sz) = Some e \<and> stop (fst e) = Some False"
      using Suc.prems(2) by (auto simp: mod_add_left_eq dest: spec [of _ "Suc _"])
    show "case es ! (((p + 1) mod sz + n) mod sz) of None \<Rightarrow> True | Some e \<Rightarrow> stop (fst e) = Some True"
      using Suc.prems(3) by (simp add: mod_add_left_eq)
  qed
  finally show ?case by (simp add: mod_add_left_eq)
qed

text \<open>With a clear cell somewhere, and comparisons that return, every probe ends.\<close>

lemma linear_probing_loop_ends:
  assumes sh: "lp_shape sz es" and p: "p < sz" and c: "c < sz" "es ! c = None"
    and stop: "\<And>i e. i < sz \<Longrightarrow> es ! i = Some e \<Longrightarrow> stop (fst e) \<noteq> None"
  shows "\<exists>n < sz. linear_probing_loop stop es sz p = Some ((p + n) mod sz) \<and>
    (\<forall>d < n. \<exists>e. es ! ((p + d) mod sz) = Some e \<and> stop (fst e) = Some False) \<and>
    (case es ! ((p + n) mod sz) of None \<Rightarrow> True | Some e \<Rightarrow> stop (fst e) = Some True)"
proof -
  let ?hit = "\<lambda>n. case es ! ((p + n) mod sz) of None \<Rightarrow> True | Some e \<Rightarrow> stop (fst e) = Some True"
  define n where "n = (LEAST n. ?hit n)"
  have s0: "0 < sz" using p by simp
  have hc: "?hit (dist sz p c)" using dist_step [OF p c(1)] c(2) by simp
  have hn: "?hit n" unfolding n_def using hc by (rule LeastI)
  have "n \<le> dist sz p c" unfolding n_def using hc by (rule Least_le)
  then have n: "n < sz" using dist_less [OF s0, of p c] by simp
  have before: "\<exists>e. es ! ((p + d) mod sz) = Some e \<and> stop (fst e) = Some False" if "d < n" for d
  proof -
    have nh: "\<not> ?hit d" using that not_less_Least unfolding n_def by blast
    have i: "(p + d) mod sz < sz" using s0 by simp
    show ?thesis using nh stop [OF i] by (auto split: option.splits)
  qed
  then show ?thesis using linear_probing_loop_hit [OF sh p, of n stop] hn n by blast
qed

text \<open>In an array without a clear cell, a probe for a key that is not there never ends.\<close>

lemma linear_probing_loop_not_full:
  "linear_probing_loop stop es sz p = Some q \<Longrightarrow> lp_shape sz es \<Longrightarrow> p \<le> sz \<Longrightarrow>
   \<exists>i < sz. \<forall>e. es ! i = Some e \<longrightarrow> stop (fst e) \<noteq> Some False"
proof (induction stop es sz p q rule: linear_probing_loop.raw_induct [rotated, consumes 1])
  case (1 loop stop es sz p q)
  show ?case
  proof (rule ccontr)
    assume none: "\<not> ?thesis"
    then have full: "\<exists>e. es ! i = Some e \<and> stop (fst e) = Some False" if "i < sz" for i
      using that by blast
    show False
    proof (cases "p < sz")
      case True
      obtain e where "es ! p = Some e" "stop (fst e) = Some False" using full [OF True] by blast
      with True "1.prems" "1.hyps" have "loop stop es sz (p + 1) = Some q"
        by (simp add: lp_shape_def)
      with "1.IH" [OF this "1.prems"(1)] none True show False by simp
    next
      case False
      then have p: "p = sz" "0 < sz" using "1.prems" by (simp_all add: lp_shape_def)
      obtain e where "es ! 0 = Some e" "stop (fst e) = Some False" using full [OF p(2)] by blast
      with p "1.prems" "1.hyps" have "loop stop es sz 1 = Some q"
        by (simp add: lp_shape_def)
      with "1.IH" [OF this "1.prems"(1)] none p show False by simp
    qed
  qed
qed

lemma linear_probing_loop_full:
  assumes "lp_shape sz es" "\<And>i. i < sz \<Longrightarrow> \<exists>e. es ! i = Some e \<and> stop (fst e) = Some False" "p \<le> sz"
  shows "linear_probing_loop stop es sz p = None"
  using linear_probing_loop_not_full [of stop es sz p] assms by (cases "linear_probing_loop stop es sz p") fastforce+

section \<open>Well-formed arrays and their meaning\<close>

text \<open>\<open>HASHCODE\<close>, given the hash function and the table's multiplier.\<close>

definition HASHCODE :: "('k \<Rightarrow> 64 word) \<Rightarrow> nat \<Rightarrow> nat \<Rightarrow> 'k \<Rightarrow> nat" where
  "HASHCODE hash golden_ratio sz key = unat (hash key * of_nat golden_ratio) mod sz"

definition lp_reach :: "('k \<Rightarrow> nat) \<Rightarrow> nat \<Rightarrow> ('k, 'v) htentries \<Rightarrow> bool" where
  "lp_reach home sz es \<longleftrightarrow> (\<forall>i < sz. \<forall>e. es ! i = Some e \<longrightarrow>
     (\<forall>d < dist sz (home (fst e)) i. es ! ((home (fst e) + d) mod sz) \<noteq> None))"

definition lp_unique :: "('k \<Rightarrow> 'k \<Rightarrow> bool) \<Rightarrow> ('k, 'v) htentries \<Rightarrow> bool" where
  "lp_unique eqv es \<longleftrightarrow> (\<forall>i < length es. \<forall>j < length es. \<forall>e f. es ! i = Some e \<longrightarrow> es ! j = Some f \<longrightarrow>
     eqv (fst e) (fst f) \<longrightarrow> i = j)"

definition lp_wf :: "('k \<Rightarrow> 'k \<Rightarrow> bool) \<Rightarrow> ('k \<Rightarrow> nat) \<Rightarrow> nat \<Rightarrow> ('k, 'v) htentries \<Rightarrow> bool" where
  "lp_wf eqv home sz es \<longleftrightarrow> lp_shape sz es \<and> lp_reach home sz es \<and> lp_unique eqv es"

definition lp_count :: "('k, 'v) htentries \<Rightarrow> nat" where
  "lp_count es = length (filter (\<lambda>c. c \<noteq> None) es)"

lemma HASHCODE_less [simp]: "0 < sz \<Longrightarrow> HASHCODE hash g sz k < sz"
  by (simp add: HASHCODE_def)

lemma lp_shape_update [simp]: "q < sz \<Longrightarrow> lp_shape sz (es[q := c]) \<longleftrightarrow> lp_shape sz es"
  by (auto simp: lp_shape_def)

lemma lp_shape_mem: "lp_shape sz es \<Longrightarrow> Some e \<in> set es \<longleftrightarrow> (\<exists>i < sz. es ! i = Some e)"
  by (auto simp: lp_shape_def in_set_conv_nth less_Suc_eq)

lemma lp_uniqueD:
  "lp_unique eqv es \<Longrightarrow> i < length es \<Longrightarrow> j < length es \<Longrightarrow> es ! i = Some e \<Longrightarrow> es ! j = Some f \<Longrightarrow>
   eqv (fst e) (fst f) \<Longrightarrow> i = j"
  unfolding lp_unique_def by blast

lemma lp_reachD:
  "lp_reach home sz es \<Longrightarrow> i < sz \<Longrightarrow> es ! i = Some e \<Longrightarrow> d < dist sz (home (fst e)) i \<Longrightarrow>
   es ! ((home (fst e) + d) mod sz) \<noteq> None"
  unfolding lp_reach_def by blast

text \<open>The invariant only depends on the keys of the cells.\<close>

lemma lp_wf_cong:
  assumes wf: "lp_wf eqv home sz es" and len: "length es' = length es"
    and keys: "\<And>i. i < length es \<Longrightarrow> map_option fst (es' ! i) = map_option fst (es ! i)"
  shows "lp_wf eqv home sz es'"
proof -
  have sh: "0 < sz" "length es = sz + 1" "es ! sz = None" using wf by (simp_all add: lp_wf_def lp_shape_def)
  have none: "i < length es \<Longrightarrow> es' ! i = None \<longleftrightarrow> es ! i = None" for i
    using keys [of i] by (metis map_option_is_None)
  have some: "\<exists>e'. es ! i = Some e' \<and> fst e' = fst e" if "i < length es" "es' ! i = Some e" for i e
    using keys [OF that(1)] that(2) by (cases "es ! i") auto
  have mod_len: "m mod sz < length es" for m
    using sh mod_less_divisor [of sz m] by (simp add: less_SucI)
  have "lp_reach home sz es'" unfolding lp_reach_def
  proof (intro allI impI)
    fix i e d assume a: "i < sz" "es' ! i = Some e" "d < dist sz (home (fst e)) i"
    obtain e' where e': "es ! i = Some e'" "fst e' = fst e" using some [of i e] a sh by auto
    show "es' ! ((home (fst e) + d) mod sz) \<noteq> None"
      using lp_reachD [of home sz es i e' d] wf a e' none [OF mod_len] by (simp add: lp_wf_def)
  qed
  moreover have "lp_unique eqv es'" unfolding lp_unique_def
  proof (intro allI impI)
    fix i j e f assume a: "i < length es'" "j < length es'" "es' ! i = Some e" "es' ! j = Some f" "eqv (fst e) (fst f)"
    obtain e' f' where "es ! i = Some e'" "fst e' = fst e" "es ! j = Some f'" "fst f' = fst f"
      using some [of i e] some [of j f] a len by auto
    with a len wf show "i = j" by (intro lp_uniqueD [of eqv es i j e' f']) (simp_all add: lp_wf_def)
  qed
  ultimately show ?thesis using sh none [of sz] len by (simp add: lp_wf_def lp_shape_def)
qed

lemma lp_count_simps [simp]:
  "lp_count [] = 0" "lp_count (None # es) = lp_count es" "lp_count (Some e # es) = Suc (lp_count es)"
  "lp_count (xs @ ys) = lp_count xs + lp_count ys"
  by (simp_all add: lp_count_def)

lemma lp_count_update:
  "q < length es \<Longrightarrow> lp_count (es[q := c]) + (if es ! q = None then 0 else 1) =
     lp_count es + (if c = None then 0 else 1)"
proof (induction es arbitrary: q)
  case (Cons a es)
  then show ?case by (cases q; cases a; cases c) auto
qed simp

lemma mem_update_clear:
  assumes "q < length es" "es ! q = None"
  shows "Some f \<in> set (es[q := Some e]) \<longleftrightarrow> Some f \<in> set es \<or> f = e"
proof -
  have "Some f \<in> set (es[q := Some e]) \<longleftrightarrow> (\<exists>i < length es. es[q := Some e] ! i = Some f)"
    by (simp add: in_set_conv_nth)
  also have "\<dots> \<longleftrightarrow> (\<exists>i < length es. es ! i = Some f) \<or> f = e"
    using assms by (auto simp: nth_list_update) (metis option.distinct(1))
  finally show ?thesis by (simp add: in_set_conv_nth)
qed

lemma lp_count_mset: "mset es' = mset es \<Longrightarrow> lp_count es' = lp_count es"
  unfolding lp_count_def by (metis mset_filter size_mset)

lemma lp_count_full: "None \<notin> set es \<Longrightarrow> lp_count es = length es"
proof (induction es)
  case (Cons a es)
  then show ?case by (cases a) auto
qed simp

lemma lp_count_clear:
  assumes "lp_shape sz es" "lp_count es < sz"
  shows "\<exists>c < sz. es ! c = None"
proof (rule ccontr)
  assume none: "\<not> (\<exists>c < sz. es ! c = None)"
  have es: "es = take sz es @ [None]" and len: "length (take sz es) = sz"
    using assms(1) take_Suc_conv_app_nth [of sz es] by (simp_all add: lp_shape_def)
  have "None \<notin> set (take sz es)"
    using none len by (metis in_set_conv_nth nth_take)
  then have "lp_count (take sz es) = sz" using lp_count_full len by metis
  then have "lp_count es = sz" using lp_count_simps(4) [of "take sz es" "[None]"] es by simp
  with assms show False by simp
qed

section \<open>The ring, read from a clear cell\<close>

text \<open>
  Counted from a clear cell \<open>c\<close>, no probe path wraps around: an entry stands at or after its home, and
  the cells between are full.  \<open>lp_linear\<close> says this for the cells before \<open>a\<close>; from there on only the order
  of home and position is known.
\<close>

definition lp_linear :: "('k \<Rightarrow> nat) \<Rightarrow> nat \<Rightarrow> nat \<Rightarrow> ('k, 'v) htentries \<Rightarrow> nat \<Rightarrow> bool" where
  "lp_linear home sz c es a \<longleftrightarrow> (\<forall>b < sz. \<forall>e. es ! ((c + b) mod sz) = Some e \<longrightarrow>
     0 < dist sz c (home (fst e)) \<and> dist sz c (home (fst e)) \<le> b \<and>
     (b < a \<longrightarrow> (\<forall>x. dist sz c (home (fst e)) \<le> x \<longrightarrow> x < b \<longrightarrow> es ! ((c + x) mod sz) \<noteq> None)))"

lemma lp_linearD:
  assumes "lp_linear home sz c es a" "b < sz" "es ! ((c + b) mod sz) = Some e"
  shows "0 < dist sz c (home (fst e))" "dist sz c (home (fst e)) \<le> b"
    "b < a \<Longrightarrow> dist sz c (home (fst e)) \<le> x \<Longrightarrow> x < b \<Longrightarrow> es ! ((c + x) mod sz) \<noteq> None"
  using assms unfolding lp_linear_def by blast+

lemma ring_shift:
  assumes "c < sz" "h < sz"
  shows "(h + d) mod sz = (c + (dist sz c h + d)) mod sz"
proof -
  have "(c + (dist sz c h + d)) mod sz = ((c + dist sz c h) mod sz + d) mod sz"
    by (simp add: mod_add_left_eq add.assoc)
  then show ?thesis using dist_step [OF assms] by simp
qed

lemma ring_inj: "(c :: nat) < sz \<Longrightarrow> x < sz \<Longrightarrow> y < sz \<Longrightarrow> (c + x) mod sz = (c + y) mod sz \<Longrightarrow> x = y"
  using dist_unique [of c sz x "(c + x) mod sz"] dist_unique [of c sz y "(c + x) mod sz"] by simp

lemma ring_dist:
  assumes "c < sz" "h < sz" "b < sz" "dist sz c h \<le> b"
  shows "dist sz h ((c + b) mod sz) = b - dist sz c h"
proof (rule dist_unique [OF assms(2)])
  show "b - dist sz c h < sz" using assms(3) by simp
  show "(h + (b - dist sz c h)) mod sz = (c + b) mod sz"
    using ring_shift [OF assms(1,2), of "b - dist sz c h"] assms(4) by simp
qed

lemma ring_passes:
  assumes "c < sz" "h < sz" "b < sz" "b < dist sz c h" "0 < b"
  shows "\<exists>d < dist sz h ((c + b) mod sz). (h + d) mod sz = c"
proof -
  let ?H = "dist sz c h"
  have H: "?H < sz" using assms(1) by simp
  have "(h + (sz - ?H + b)) mod sz = (c + (sz + b)) mod sz"
    using ring_shift [OF assms(1,2), of "sz - ?H + b"] H by simp
  also have "\<dots> = (c + b + sz) mod sz" by (simp add: ac_simps)
  also have "\<dots> = (c + b) mod sz" by simp
  finally have "dist sz h ((c + b) mod sz) = sz - ?H + b"
    using assms(4) H by (intro dist_unique [OF assms(2)]) auto
  moreover have "(h + (sz - ?H)) mod sz = c"
  proof -
    have "?H + (sz - ?H) = sz" using H by simp
    then show ?thesis unfolding ring_shift [OF assms(1,2)] using assms(1) by simp
  qed
  ultimately show ?thesis using assms(5) by (intro exI [of _ "sz - ?H"]) simp
qed

lemma lp_reach_linear:
  assumes c: "c < sz" "es ! c = None" and home: "\<And>k. home k < sz"
  shows "lp_reach home sz es \<longleftrightarrow> lp_linear home sz c es sz"
proof
  assume r: "lp_reach home sz es"
  show "lp_linear home sz c es sz"
    unfolding lp_linear_def
  proof (intro allI impI)
    fix b e assume b: "b < sz" and e: "es ! ((c + b) mod sz) = Some e"
    let ?h = "home (fst e)"
    have i: "(c + b) mod sz < sz" using c by simp
    have b0: "0 < b" using e c by (cases b) auto
    have path: "d < dist sz ?h ((c + b) mod sz) \<Longrightarrow> es ! ((?h + d) mod sz) \<noteq> None" for d
      using lp_reachD [OF r i e] .
    have H: "dist sz c ?h \<le> b"
    proof (rule ccontr)
      assume "\<not> dist sz c ?h \<le> b"
      then obtain d where "d < dist sz ?h ((c + b) mod sz)" "(?h + d) mod sz = c"
        using ring_passes [OF c(1) home b _ b0, of "fst e"] by auto
      with path [of d] c(2) show False by simp
    qed
    have "es ! ((c + x) mod sz) \<noteq> None" if x: "dist sz c ?h \<le> x" "x < b" for x
    proof -
      have "x - dist sz c ?h < dist sz ?h ((c + b) mod sz)"
        unfolding ring_dist [OF c(1) home b H] using x by linarith
      from path [OF this] show ?thesis
        unfolding ring_shift [OF c(1) home] using x by simp
    qed
    moreover have "0 < dist sz c ?h"
    proof (rule ccontr)
      assume "\<not> 0 < dist sz c ?h"
      with calculation [of 0] b0 c show False by simp
    qed
    ultimately show "0 < dist sz c ?h \<and> dist sz c ?h \<le> b \<and>
      (b < sz \<longrightarrow> (\<forall>x. dist sz c ?h \<le> x \<longrightarrow> x < b \<longrightarrow> es ! ((c + x) mod sz) \<noteq> None))" using H by blast
  qed
next
  assume l: "lp_linear home sz c es sz"
  show "lp_reach home sz es"
    unfolding lp_reach_def
  proof (intro allI impI)
    fix i e d assume i: "i < sz" and e: "es ! i = Some e" and d: "d < dist sz (home (fst e)) i"
    let ?h = "home (fst e)" and ?b = "dist sz c i"
    have ib: "(c + ?b) mod sz = i" using dist_step [OF c(1) i] .
    have b: "?b < sz" using c(1) by simp
    have H: "dist sz c ?h \<le> ?b" and path: "\<And>x. dist sz c ?h \<le> x \<Longrightarrow> x < ?b \<Longrightarrow> es ! ((c + x) mod sz) \<noteq> None"
      using l b e ib unfolding lp_linear_def by metis+
    have "d < ?b - dist sz c ?h" using d ring_dist [OF c(1) home b H] ib by simp
    then show "es ! ((?h + d) mod sz) \<noteq> None"
      unfolding ring_shift [OF c(1) home] by (intro path) auto
  qed
qed

lemma lp_unique_swap:
  assumes "lp_unique eqv es" "p < length es" "q < length es"
  shows "lp_unique eqv (es[q := es ! p, p := es ! q])"
proof -
  let ?\<pi> = "\<lambda>i. if i = p then q else if i = q then p else i"
  have nth: "i < length es \<Longrightarrow> es[q := es ! p, p := es ! q] ! i = es ! ?\<pi> i" for i
    using assms by (auto simp: nth_list_update)
  have lt: "i < length es \<Longrightarrow> ?\<pi> i < length es" for i using assms by simp
  show ?thesis
    unfolding lp_unique_def
  proof (intro allI impI)
    fix i j e f
    assume a: "i < length (es[q := es ! p, p := es ! q])" "j < length (es[q := es ! p, p := es ! q])"
      "es[q := es ! p, p := es ! q] ! i = Some e" "es[q := es ! p, p := es ! q] ! j = Some f" "eqv (fst e) (fst f)"
    have "?\<pi> i = ?\<pi> j"
      using a nth lt by (intro lp_uniqueD [OF assms(1), of "?\<pi> i" "?\<pi> j" e f]) simp_all
    then show "i = j" by (auto split: if_splits)
  qed
qed

lemma nth_update_two:
  "p < length es \<Longrightarrow> q < length es \<Longrightarrow> es[q := a, p := b] ! i = (if i = p then b else if i = q then a else es ! i)"
  by (cases "i = p"; cases "i = q") auto

lemma reinsert_loop_wrap:
  assumes "lp_shape sz es" "p \<le> sz"
  shows "reinsert_loop home sz es p = reinsert_loop home sz es (p mod sz)"
proof (cases "p = sz")
  case True
  have "reinsert_loop home sz es sz = reinsert_loop home sz es 0"
    using assms unfolding reinsert_loop.simps [of home sz es sz] reinsert_loop.simps [of home sz es 0]
    by (simp add: lp_shape_def split: option.split)
  with True show ?thesis by simp
qed (use assms in simp)

lemma reinsert_loop_step:
  assumes "lp_shape sz es" "p < sz" "es ! p = Some e" "reinsert_entry home sz es p e = Some es1" "lp_shape sz es1"
  shows "reinsert_loop home sz es p = reinsert_loop home sz es1 ((p + 1) mod sz)"
proof -
  have "reinsert_loop home sz es p = reinsert_loop home sz es1 (p + 1)"
    using assms by (subst reinsert_loop.simps) (simp add: lp_shape_def)
  then show ?thesis using reinsert_loop_wrap [OF assms(5), of "p + 1"] assms(2) by simp
qed

text \<open>
  The contract of a hash table test: its equality is an equivalence, and equal keys hash alike.
\<close>

locale hash_test_laws =
  fixes eqv :: "'k \<Rightarrow> 'k \<Rightarrow> bool"
    and hash :: "'k \<Rightarrow> 64 word"
  assumes eqv_refl: "eqv k k"
    and eqv_sym: "eqv a b \<Longrightarrow> eqv b a"
    and eqv_trans: "eqv a b \<Longrightarrow> eqv b c \<Longrightarrow> eqv a c"
    and hash_eqv: "eqv a b \<Longrightarrow> hash a = hash b"
begin

lemma home_eqv: "eqv a b \<Longrightarrow> HASHCODE hash g sz a = HASHCODE hash g sz b"
  using hash_eqv by (simp add: HASHCODE_def)

text \<open>A lookup finds the entry whose key is equal to the one sought, or the clear cell where it belongs.\<close>

lemma find_ok:
  assumes wf: "lp_wf eqv (HASHCODE hash g sz) sz es" and cnt: "lp_count es < sz"
    and stop: "\<And>e. Some e \<in> set es \<Longrightarrow> stop (fst e) = Some (eqv (fst e) key)"
  shows "\<exists>q < sz. linear_probing_loop stop es sz (HASHCODE hash g sz key) = Some q \<and>
    (case es ! q of
       Some e \<Rightarrow> eqv (fst e) key
     | None \<Rightarrow> (\<forall>e. Some e \<in> set es \<longrightarrow> \<not> eqv (fst e) key) \<and>
         (\<forall>d < dist sz (HASHCODE hash g sz key) q. es ! ((HASHCODE hash g sz key + d) mod sz) \<noteq> None))"
proof -
  let ?h = "HASHCODE hash g sz key"
  have sh: "lp_shape sz es" using wf by (simp add: lp_wf_def)
  then have s0: "0 < sz" and len: "length es = sz + 1" by (simp_all add: lp_shape_def)
  then have h: "?h < sz" by simp
  obtain c where c: "c < sz" "es ! c = None" using lp_count_clear [OF sh cnt] by blast
  have mem: "i < sz \<Longrightarrow> es ! i = Some e \<Longrightarrow> Some e \<in> set es" for i e
    using lp_shape_mem [OF sh] by blast
  have nn: "stop (fst e) \<noteq> None" if "i < sz" "es ! i = Some e" for i e
    using stop [OF mem [OF that]] by simp
  obtain n where n: "n < sz" "linear_probing_loop stop es sz ?h = Some ((?h + n) mod sz)"
      "\<And>d. d < n \<Longrightarrow> \<exists>e. es ! ((?h + d) mod sz) = Some e \<and> stop (fst e) = Some False"
      "case es ! ((?h + n) mod sz) of None \<Rightarrow> True | Some e \<Rightarrow> stop (fst e) = Some True"
    using linear_probing_loop_ends [OF sh h c, of stop] nn by blast
  let ?q = "(?h + n) mod sz"
  have q: "?q < sz" using s0 by simp
  have dq: "dist sz ?h ?q = n" using dist_unique [OF h n(1)] by simp
  show ?thesis
  proof (intro exI [of _ ?q] conjI q n(2), cases "es ! ?q")
    case (Some e)
    with n(4) stop [OF mem [OF q Some]] show "case es ! ?q of Some e \<Rightarrow> eqv (fst e) key
     | None \<Rightarrow> (\<forall>e. Some e \<in> set es \<longrightarrow> \<not> eqv (fst e) key) \<and>
         (\<forall>d < dist sz ?h ?q. es ! ((?h + d) mod sz) \<noteq> None)" by simp
  next
    case None
    have "\<not> eqv (fst e) key" if e: "Some e \<in> set es" for e
    proof
      assume eq: "eqv (fst e) key"
      obtain i where i: "i < sz" "es ! i = Some e" using e lp_shape_mem [OF sh] by blast
      have home: "HASHCODE hash g sz (fst e) = ?h" using home_eqv [OF eq] .
      let ?m = "dist sz ?h i"
      have im: "(?h + ?m) mod sz = i" using dist_step [OF h i(1)] .
      have path: "d < ?m \<Longrightarrow> es ! ((?h + d) mod sz) \<noteq> None" for d
        using wf i home unfolding lp_wf_def lp_reach_def by metis
      consider "?m < n" | "?m = n" | "n < ?m" by linarith
      then show False
      proof cases
        case 1
        with n(3) [of ?m] im i(2) stop [OF e] eq show False by auto
      next
        case 2
        with None im i(2) show False by simp
      next
        case 3
        with path None show False by blast
      qed
    qed
    moreover have "\<forall>d < n. es ! ((?h + d) mod sz) \<noteq> None" using n(3) by (metis option.distinct(1))
    ultimately show "case es ! ?q of Some e \<Rightarrow> eqv (fst e) key
     | None \<Rightarrow> (\<forall>e. Some e \<in> set es \<longrightarrow> \<not> eqv (fst e) key) \<and>
         (\<forall>d < dist sz ?h ?q. es ! ((?h + d) mod sz) \<noteq> None)" using None dq by simp
  qed
qed

lemma insert_wf:
  assumes wf: "lp_wf eqv home sz es" and q: "q < sz" "es ! q = None"
    and fresh: "\<forall>f. Some f \<in> set es \<longrightarrow> \<not> eqv (fst f) (fst e)"
    and path: "\<forall>d < dist sz (home (fst e)) q. es ! ((home (fst e) + d) mod sz) \<noteq> None"
  shows "lp_wf eqv home sz (es[q := Some e])"
proof -
  have sh: "lp_shape sz es" using wf by (simp add: lp_wf_def)
  then have len: "length es = sz + 1" and s0: "0 < sz" by (simp_all add: lp_shape_def)
  have keep: "es ! j \<noteq> None \<Longrightarrow> es[q := Some e] ! j \<noteq> None" for j
    using q len by (cases "j = q") auto
  have "lp_reach home sz (es[q := Some e])"
    unfolding lp_reach_def
  proof (intro allI impI)
    fix i f d
    assume a: "i < sz" "es[q := Some e] ! i = Some f" "d < dist sz (home (fst f)) i"
    show "es[q := Some e] ! ((home (fst f) + d) mod sz) \<noteq> None"
    proof (cases "i = q")
      case True
      with a q len have "f = e" by simp
      with True a path keep show ?thesis by blast
    next
      case False
      with a have "es ! i = Some f" by simp
      with wf a keep show ?thesis unfolding lp_wf_def lp_reach_def by blast
    qed
  qed
  moreover have "lp_unique eqv (es[q := Some e])"
    unfolding lp_unique_def
  proof (intro allI impI)
    fix i j f f'
    assume a: "i < length (es[q := Some e])" "j < length (es[q := Some e])" "es[q := Some e] ! i = Some f"
      "es[q := Some e] ! j = Some f'" "eqv (fst f) (fst f')"
    have old: "k \<noteq> q \<Longrightarrow> k < length es \<Longrightarrow> es[q := Some e] ! k = Some h \<Longrightarrow> Some h \<in> set es" for k h
      by (metis nth_list_update_neq nth_mem)
    show "i = j"
    proof (cases "i = q")
      case iq: True
      show ?thesis
      proof (cases "j = q")
        case False
        then have "Some f' \<in> set es" using a old by simp
        moreover have "f = e" using a(3) iq q len by simp
        ultimately show ?thesis using a(5) fresh eqv_sym by blast
      qed (use iq in simp)
    next
      case iq: False
      show ?thesis
      proof (cases "j = q")
        case True
        have "Some f \<in> set es" using a old iq by simp
        moreover have "f' = e" using a(4) True q len by simp
        ultimately show ?thesis using a(5) fresh by blast
      next
        case False
        with a iq wf show ?thesis by (intro lp_uniqueD [of eqv es i j f f']) (simp_all add: lp_wf_def)
      qed
    qed
  qed
  ultimately show ?thesis using sh q by (simp add: lp_wf_def)
qed

lemma update_wf:
  assumes wf: "lp_wf eqv home sz es" and q: "q < sz" "es ! q = Some (k, v)"
  shows "lp_wf eqv home sz (es[q := Some (k, w)])"
proof (rule lp_wf_cong [OF wf])
  fix i assume "i < length es"
  then show "map_option fst (es[q := Some (k, w)] ! i) = map_option fst (es ! i)"
    using q by (cases "i = q") auto
qed simp

text \<open>Rehashing enters every old entry into the new array and loses none.\<close>

lemma rehash_ok:
  "lp_wf eqv (HASHCODE hash g sz) sz new \<Longrightarrow> lp_count new + lp_count es \<le> sz \<Longrightarrow>
   lp_unique eqv es \<Longrightarrow> (\<And>e f. Some e \<in> set es \<Longrightarrow> Some f \<in> set new \<Longrightarrow> \<not> eqv (fst f) (fst e)) \<Longrightarrow>
   \<exists>new'. rehash_entries (HASHCODE hash g sz) sz es new = Some new' \<and> lp_wf eqv (HASHCODE hash g sz) sz new' \<and>
     lp_count new' = lp_count new + lp_count es \<and> (\<forall>e. Some e \<in> set new' \<longleftrightarrow> Some e \<in> set new \<or> Some e \<in> set es)"
proof (induction es arbitrary: new)
  case Nil
  then show ?case by simp
next
  case (Cons c es)
  have un: "lp_unique eqv es" unfolding lp_unique_def
  proof (intro allI impI)
    fix i j e f assume "i < length es" "j < length es" "es ! i = Some e" "es ! j = Some f" "eqv (fst e) (fst f)"
    with lp_uniqueD [OF Cons.prems(3), of "Suc i" "Suc j" e f] show "i = j" by simp
  qed
  show ?case
  proof (cases c)
    case None
    with Cons.IH [OF Cons.prems(1) _ un] Cons.prems show ?thesis by auto
  next
    case (Some e)
    let ?home = "HASHCODE hash g sz"
    have sh: "lp_shape sz new" using Cons.prems(1) by (simp add: lp_wf_def)
    have fresh: "\<forall>f. Some f \<in> set new \<longrightarrow> \<not> eqv (fst f) (fst e)" using Cons.prems(4) Some by auto
    have nomatch: "\<not> eqv (fst f) (fst e)" if mem_f: "Some f \<in> set es" for f
    proof
      assume eq: "eqv (fst f) (fst e)"
      obtain j where "j < length es" "es ! j = Some f" using mem_f by (auto simp: in_set_conv_nth)
      with lp_uniqueD [OF Cons.prems(3), of "Suc j" 0 f e] eq Some show False by simp
    qed
    have room: "lp_count new < sz" using Cons.prems(2) Some by simp
    obtain c' where c': "c' < sz" "new ! c' = None" using lp_count_clear [OF sh room] by blast
    have h: "?home (fst e) < sz" using c'(1) by simp
    obtain n where n: "n < sz" "linear_probing_loop (\<lambda>_. Some False) new sz (?home (fst e)) = Some ((?home (fst e) + n) mod sz)"
        "\<forall>d < n. \<exists>f. new ! ((?home (fst e) + d) mod sz) = Some f \<and> Some False = Some False"
        "case new ! ((?home (fst e) + n) mod sz) of None \<Rightarrow> True | Some e \<Rightarrow> Some False = Some True"
      using linear_probing_loop_ends [OF sh h c', of "\<lambda>_. Some False"] by blast
    have clear: "new ! ((?home (fst e) + n) mod sz) = None" using n(4) by (simp split: option.splits)
    let ?q = "(?home (fst e) + n) mod sz"
    have q: "?q < sz" "?q < length new" using h sh by (simp_all add: lp_shape_def less_SucI)
    have dq: "dist sz (?home (fst e)) ?q = n" using dist_unique [OF h n(1)] by simp
    have wf': "lp_wf eqv ?home sz (new[?q := Some e])"
      using n(3) by (intro insert_wf [OF Cons.prems(1) q(1) clear fresh]) (force simp: dq)
    have cnt: "lp_count (new[?q := Some e]) = Suc (lp_count new)"
      using lp_count_update [OF q(2), of "Some e"] clear by simp
    have mem: "Some f \<in> set (new[?q := Some e]) \<longleftrightarrow> Some f \<in> set new \<or> f = e" for f
      using mem_update_clear [OF q(2) clear] by blast
    have pre: "\<not> eqv (fst f) (fst e')" if "Some e' \<in> set es" "Some f \<in> set (new[?q := Some e])" for e' f
      using that mem [of f] Cons.prems(4) [of e' f] nomatch [of e'] eqv_sym by auto
    have le: "lp_count (new[?q := Some e]) + lp_count es \<le> sz" using Cons.prems(2) Some cnt by simp
    from Cons.IH [OF wf' le un pre] obtain new' where
      "rehash_entries ?home sz es (new[?q := Some e]) = Some new'" "lp_wf eqv ?home sz new'"
      "lp_count new' = lp_count (new[?q := Some e]) + lp_count es"
      "\<forall>f. Some f \<in> set new' \<longleftrightarrow> Some f \<in> set (new[?q := Some e]) \<or> Some f \<in> set es" by blast
    with Some n(2) cnt mem show ?thesis by auto
  qed
qed

text \<open>Deletion: the entries after the removed one are moved into the holes that precede them.\<close>

lemma reinsert_entry_ok:
  assumes sh: "lp_shape sz es" and c: "c < sz" "es ! c = None" and un: "lp_unique eqv es"
    and home: "\<And>k. home k < sz" and lin: "lp_linear home sz c es a" and a: "a < sz"
    and e: "es ! ((c + a) mod sz) = Some e"
  shows "\<exists>es1. reinsert_entry home sz es ((c + a) mod sz) e = Some es1 \<and> lp_shape sz es1 \<and> es1 ! c = None \<and>
    lp_unique eqv es1 \<and> lp_linear home sz c es1 (Suc a) \<and> mset es1 = mset es \<and>
    (\<forall>b. a < b \<longrightarrow> b < sz \<longrightarrow> es1 ! ((c + b) mod sz) = es ! ((c + b) mod sz))"
proof -
  let ?h = "home (fst e)" and ?p = "(c + a) mod sz"
  let ?H = "dist sz c ?h"
  have s0: "0 < sz" and len: "length es = sz + 1" using sh by (simp_all add: lp_shape_def)
  have H: "?H \<le> a" "0 < ?H" using lp_linearD [OF lin a e] by blast+
  have at: "(?h + d) mod sz = (c + (?H + d)) mod sz" for d using ring_shift [OF c(1) home] .
  obtain n where n: "n < sz" "linear_probing_loop (\<lambda>k. Some (k = fst e)) es sz ?h = Some ((?h + n) mod sz)"
      "\<And>d. d < n \<Longrightarrow> \<exists>f. es ! ((?h + d) mod sz) = Some f \<and> Some (fst f = fst e) = Some False"
      "case es ! ((?h + n) mod sz) of None \<Rightarrow> True | Some f \<Rightarrow> Some (fst f = fst e) = Some True"
    using linear_probing_loop_ends [OF sh home c, of "\<lambda>k. Some (k = fst e)"] by blast
  have self: "(?h + (a - ?H)) mod sz = ?p" unfolding at using H by simp
  have le: "n \<le> a - ?H"
  proof (rule ccontr)
    assume "\<not> n \<le> a - ?H"
    then show False using n(3) [of "a - ?H"] self e by auto
  qed
  let ?x = "?H + n" and ?q = "(?h + n) mod sz"
  have x: "?x \<le> a" "?x < sz" using le H a by simp_all
  have q: "?q = (c + ?x) mod sz" using at .
  have plt: "?p < sz" "?q < sz" "?p < length es" "?q < length es" using s0 len by (simp_all add: less_SucI)
  have full: "es ! ((c + y) mod sz) \<noteq> None" if "?H \<le> y" "y < ?x" for y
  proof -
    have "y - ?H < n" "?H + (y - ?H) = y" using that by linarith+
    with n(3) [of "y - ?H"] at [of "y - ?H"] show ?thesis by auto
  qed
  show ?thesis
  proof (cases "es ! ?q")
    case (Some f)
    then have "fst f = fst e" using n(4) by simp
    then have "?q = ?p" using lp_uniqueD [OF un plt(4,3) Some e] eqv_refl by simp
    then have xa: "?x = a" using ring_inj [OF c(1) x(2) a] q by simp
    have "lp_linear home sz c es (Suc a)"
      unfolding lp_linear_def
    proof (intro allI impI)
      fix b f assume b: "b < sz" "es ! ((c + b) mod sz) = Some f"
      show "0 < dist sz c (home (fst f)) \<and> dist sz c (home (fst f)) \<le> b \<and> (b < Suc a \<longrightarrow>
        (\<forall>y. dist sz c (home (fst f)) \<le> y \<longrightarrow> y < b \<longrightarrow> es ! ((c + y) mod sz) \<noteq> None))"
      proof (cases "b = a")
        case True
        then show ?thesis using e b H full xa by auto
      next
        case False
        then have "b < Suc a \<Longrightarrow> b < a" by simp
        then show ?thesis using lp_linearD [OF lin b] by blast
      qed
    qed
    moreover have "reinsert_entry home sz es ?p e = Some es"
      using n(2) Some by (simp add: reinsert_entry_def)
    ultimately show ?thesis using sh c un by blast
  next
    case None
    have xa: "?x < a" using x None e q by (cases "?x = a") auto
    have pq: "?p \<noteq> ?q" using None e by auto
    let ?es = "es[?q := Some e, ?p := None]"
    have swap: "?es = es[?q := es ! ?p, ?p := es ! ?q]" using e None by simp
    have cell: "?es ! ((c + y) mod sz) = (if y = a then None else if y = ?x then Some e else es ! ((c + y) mod sz))"
      if y: "y < sz" for y
    proof -
      have "(c + y) mod sz = ?p \<longleftrightarrow> y = a" using ring_inj [OF c(1) y a] by blast
      moreover have "(c + y) mod sz = ?q \<longleftrightarrow> y = ?x" using ring_inj [OF c(1) y x(2)] q by metis
      ultimately show ?thesis unfolding nth_update_two [OF plt(3,4)] by (simp only:)
    qed
    have "reinsert_entry home sz es ?p e = Some ?es"
      using n(2) None by (simp add: reinsert_entry_def)
    moreover have "lp_shape sz ?es" using sh plt by simp
    moreover have "?es ! c = None"
    proof -
      have "0 \<noteq> ?x" "0 \<noteq> a" using H by auto
      then show ?thesis using cell [of 0] s0 c by simp
    qed
    moreover have "lp_unique eqv ?es" unfolding swap by (rule lp_unique_swap [OF un plt(3,4)])
    moreover have "mset ?es = mset es" unfolding swap by (rule mset_swap [OF plt(3,4)])
    moreover have "lp_linear home sz c ?es (Suc a)"
      unfolding lp_linear_def
    proof (intro allI impI)
      fix b f assume b: "b < sz" "?es ! ((c + b) mod sz) = Some f"
      have keep: "y < a \<Longrightarrow> es ! ((c + y) mod sz) \<noteq> None \<Longrightarrow> ?es ! ((c + y) mod sz) \<noteq> None" for y
        using cell [of y] a by auto
      show "0 < dist sz c (home (fst f)) \<and> dist sz c (home (fst f)) \<le> b \<and> (b < Suc a \<longrightarrow>
        (\<forall>y. dist sz c (home (fst f)) \<le> y \<longrightarrow> y < b \<longrightarrow> ?es ! ((c + y) mod sz) \<noteq> None))"
      proof (cases "b = ?x")
        case True
        then have "f = e" using cell [OF b(1)] b(2) xa by simp
        have "?es ! ((c + y) mod sz) \<noteq> None" if "?H \<le> y" "y < ?x" for y
          using keep [OF _ full [OF that]] that(2) xa by simp
        with \<open>f = e\<close> True H show ?thesis by simp
      next
        case False
        then have ba: "b \<noteq> a" and old: "es ! ((c + b) mod sz) = Some f"
          using cell [OF b(1)] b(2) by (auto split: if_splits)
        have "b < Suc a \<Longrightarrow> b < a" using ba by simp
        then show ?thesis using lp_linearD [OF lin b(1) old] keep by (meson less_trans)
      qed
    qed
    moreover have "\<forall>b. a < b \<longrightarrow> b < sz \<longrightarrow> ?es ! ((c + b) mod sz) = es ! ((c + b) mod sz)"
      using cell xa by auto
    ultimately show ?thesis by blast
  qed
qed

lemma reinsert_loop_ok:
  assumes c: "c < sz" and home: "\<And>k. home k < sz"
  shows "lp_shape sz es \<Longrightarrow> es ! c = None \<Longrightarrow> lp_unique eqv es \<Longrightarrow> lp_linear home sz c es a \<Longrightarrow> a \<le> sz \<Longrightarrow>
    (\<And>b. a \<le> b \<Longrightarrow> b < sz \<Longrightarrow> es ! ((c + b) mod sz) \<noteq> None) \<Longrightarrow>
    \<exists>es'. reinsert_loop home sz es ((c + a) mod sz) = Some es' \<and> lp_wf eqv home sz es' \<and> mset es' = mset es"
proof (induction "sz - a" arbitrary: a es)
  case 0
  then have a: "a = sz" by simp
  have "length es = sz + 1" using 0(2) by (simp add: lp_shape_def)
  then have "reinsert_loop home sz es c = Some es"
    using c 0(3) by (subst reinsert_loop.simps) simp
  moreover have "lp_reach home sz es"
    using 0(5) a unfolding lp_reach_linear [where c = c, OF c 0(3) home] by simp
  ultimately show ?case using 0 a c by (simp add: lp_wf_def)
next
  case (Suc n)
  then have a: "a < sz" by simp
  obtain e where e: "es ! ((c + a) mod sz) = Some e" using Suc.prems(6) [of a] a by blast
  obtain es1 where r: "reinsert_entry home sz es ((c + a) mod sz) e = Some es1" "lp_shape sz es1" "es1 ! c = None"
      "lp_unique eqv es1" "lp_linear home sz c es1 (Suc a)" "mset es1 = mset es"
      "\<And>b. a < b \<Longrightarrow> b < sz \<Longrightarrow> es1 ! ((c + b) mod sz) = es ! ((c + b) mod sz)"
    using reinsert_entry_ok [where home = home, OF Suc.prems(1) c Suc.prems(2,3) home Suc.prems(4) a e] by blast
  have plt: "(c + a) mod sz < sz" using a by simp
  have "reinsert_loop home sz es ((c + a) mod sz) = reinsert_loop home sz es1 (((c + a) mod sz + 1) mod sz)"
    by (rule reinsert_loop_step [OF Suc.prems(1) plt e r(1,2)])
  also have "((c + a) mod sz + 1) mod sz = (c + Suc a) mod sz" by (simp add: mod_Suc_eq)
  finally have step: "reinsert_loop home sz es ((c + a) mod sz) = reinsert_loop home sz es1 ((c + Suc a) mod sz)" .
  have "\<exists>es'. reinsert_loop home sz es1 ((c + Suc a) mod sz) = Some es' \<and> lp_wf eqv home sz es' \<and> mset es' = mset es1"
  proof (rule Suc.hyps(1))
    show "n = sz - Suc a" using Suc.hyps(2) by simp
    show "es1 ! ((c + b) mod sz) \<noteq> None" if "Suc a \<le> b" "b < sz" for b
      using r(7) [of b] Suc.prems(6) [of b] that by simp
  qed (use r a in simp_all)
  with step r(6) show ?case by simp
qed

text \<open>Clearing the cell of an entry and entering the rest of its cluster again keeps the array
  well-formed and loses nothing but that entry.\<close>

lemma remove_ok:
  assumes wf: "lp_wf eqv home sz es" and home: "\<And>k. home k < sz" and cnt: "lp_count es < sz"
    and q: "q < sz" "es ! q = Some e"
  shows "\<exists>es'. reinsert_loop home sz (es[q := None]) (q + 1) = Some es' \<and> lp_wf eqv home sz es' \<and>
    mset es' = mset (es[q := None])"
proof -
  let ?es = "es[q := None]"
  have sh: "lp_shape sz es" and un: "lp_unique eqv es" and reach: "lp_reach home sz es"
    using wf by (simp_all add: lp_wf_def)
  have len: "length es = sz + 1" using sh by (simp add: lp_shape_def)
  have sh': "lp_shape sz ?es" using sh q(1) by simp
  have s0: "0 < sz" using q(1) by simp
  obtain c0 where c0: "c0 < sz" "es ! c0 = None" using lp_count_clear [OF sh cnt] by blast
  define n where "n = (LEAST n. es ! ((q + Suc n) mod sz) = None)"
  define c where "c = (q + Suc n) mod sz"
  have d0: "0 < dist sz q c0" using dist_step [OF q(1) c0(1)] q c0 by (cases "dist sz q c0") auto
  then obtain m where m: "dist sz q c0 = Suc m" using gr0_conv_Suc by auto
  have ex: "es ! ((q + Suc m) mod sz) = None" using dist_step [OF q(1) c0(1)] c0(2) m by simp
  have c: "es ! c = None" unfolding c_def n_def using ex by (rule LeastI)
  have "n \<le> m" unfolding n_def using ex by (rule Least_le)
  then have n: "Suc n < sz" using m dist_less [OF s0, of q c0] by simp
  have full: "es ! ((q + Suc k) mod sz) \<noteq> None" if "k < n" for k
    using not_less_Least that unfolding n_def by blast
  have clt: "c < sz" using s0 by (simp add: c_def)
  have cq: "c \<noteq> q" using c q(2) by auto
  let ?D = "sz - Suc n"
  have D: "(c + ?D) mod sz = q"
  proof -
    have "(c + ?D) mod sz = (q + Suc n + ?D) mod sz" unfolding c_def by (simp only: mod_add_left_eq)
    also have "q + Suc n + ?D = q + sz" using n by simp
    finally show ?thesis using q(1) by simp
  qed
  have off: "(c + x) mod sz \<noteq> q" if "x < sz" "x \<noteq> ?D" for x
  proof
    assume "(c + x) mod sz = q"
    then have "(c + x) mod sz = (c + ?D) mod sz" using D by (rule trans [OF _ sym])
    from ring_inj [OF clt that(1) _ this] that(2) n show False by linarith
  qed
  have shift: "(c + (?D + k)) mod sz = (q + k) mod sz" for k
    using D by (metis add.assoc mod_add_left_eq)
  have lin: "lp_linear home sz c es sz"
    using reach unfolding lp_reach_linear [where c = c, OF clt c home] .
  have "lp_linear home sz c ?es (Suc ?D)"
    unfolding lp_linear_def
  proof (intro allI impI)
    fix b f assume b: "b < sz" "?es ! ((c + b) mod sz) = Some f"
    have bD: "b \<noteq> ?D"
    proof
      assume "b = ?D"
      with b D q(1) len show False by simp
    qed
    have ne: "(c + b) mod sz \<noteq> q" by (rule off [OF b(1) bD])
    then have old: "es ! ((c + b) mod sz) = Some f" using b(2) by simp
    note l = lp_linearD [OF lin b(1) old]
    have "?es ! ((c + x) mod sz) \<noteq> None"
      if x: "dist sz c (home (fst f)) \<le> x" "x < b" "b < Suc ?D" for x
    proof -
      have xD: "x < ?D" using x bD by simp
      have "(c + x) mod sz \<noteq> q" using xD n by (intro off) linarith+
      then show ?thesis using l(3) [OF b(1) x(1,2)] by simp
    qed
    with l(1,2) show "0 < dist sz c (home (fst f)) \<and> dist sz c (home (fst f)) \<le> b \<and> (b < Suc ?D \<longrightarrow>
        (\<forall>x. dist sz c (home (fst f)) \<le> x \<longrightarrow> x < b \<longrightarrow> ?es ! ((c + x) mod sz) \<noteq> None))" by blast
  qed
  moreover have "?es ! ((c + b) mod sz) \<noteq> None" if b: "Suc ?D \<le> b" "b < sz" for b
  proof -
    obtain k where k: "b = ?D + Suc k" using b(1) by (metis add_Suc_right less_eqE add_Suc)
    then have "es ! ((q + Suc k) mod sz) \<noteq> None" using b(2) n by (intro full) linarith
    moreover have "(c + b) mod sz = (q + Suc k) mod sz" unfolding k by (rule shift)
    moreover have "(c + b) mod sz \<noteq> q" using b(1) by (intro off [OF b(2)]) linarith
    ultimately show ?thesis by simp
  qed
  moreover have "lp_unique eqv ?es"
    unfolding lp_unique_def
  proof (intro allI impI)
    fix i j f f' assume a: "i < length ?es" "j < length ?es" "?es ! i = Some f" "?es ! j = Some f'" "eqv (fst f) (fst f')"
    then have "i \<noteq> q" "j \<noteq> q" by auto
    with a show "i = j" by (intro lp_uniqueD [OF un, of i j f f']) auto
  qed
  moreover have "?es ! c = None" using c cq by simp
  moreover have le: "Suc ?D \<le> sz" using n by linarith
  ultimately obtain es' where es': "reinsert_loop home sz ?es ((c + Suc ?D) mod sz) = Some es'"
      "lp_wf eqv home sz es'" "mset es' = mset ?es"
    using reinsert_loop_ok [where home = home, OF clt home sh', of "Suc ?D"] le by blast
  have "(c + Suc ?D) mod sz = (q + 1) mod sz" using shift [of 1] by simp
  then have "reinsert_loop home sz ?es (q + 1) = Some es'"
    using reinsert_loop_wrap [OF sh', of "q + 1"] q(1) es'(1) by simp
  then show ?thesis using es'(2,3) by blast
qed

end

end
