(* ===== verification/Hash_Table.thy ===== *)
theory Hash_Table
  imports Complex_Main Linear_Probing Lisp_Object
begin

text \<open>
  Lisp hash tables (\<open>src/elhash.c\<close>): creation, lookup, insertion with resizing, deletion without
  tombstones, clearing, copying and mapping.  Keys are the Lisp objects of \<open>Lisp_Object\<close>.
  Sizes are \<open>Elemcount\<close>s (natural numbers here); the products with a \<open>double\<close> are arguments,
  gathered in the record \<open>fpu\<close>.  The code marks a clear entry by a key whose word is 0, the null pointer,
  which no Lisp object has; here a clear entry is \<open>None\<close>.  An operation is \<open>None\<close> when a comparison signals an error or a probe
  never ends.  The limits \<open>max_lisp_eval_depth\<close> and \<open>lisp_eval_depth\<close> are the arguments \<open>mx\<close> and \<open>ed\<close>.
\<close>

section \<open>Tests\<close>

text \<open>
  A \<open>Hash_Table_Test\<close>.  The functions of \<open>equalp\<close> tables, which depend on the case tables of a buffer, and those of
  tests made by \<open>define-hash-table-test\<close> are function pointers in the C code and arguments here.
\<close>

datatype hash_table_test =
    Veq_hash_table_test
  | Veql_hash_table_test
  | Vequal_hash_table_test
  | Vequalp_hash_table_test "lisp_object \<Rightarrow> lisp_object \<Rightarrow> bool option" "lisp_object \<Rightarrow> 64 word"
  | Other_hash_table_test "lisp_object \<Rightarrow> lisp_object \<Rightarrow> bool option" "lisp_object \<Rightarrow> 64 word"

fun hash_function :: "hash_table_test \<Rightarrow> lisp_object \<Rightarrow> 64 word" where
  "hash_function Veq_hash_table_test = LISP_HASH"
| "hash_function Veql_hash_table_test = lisp_object_eql_hash"
| "hash_function Vequal_hash_table_test = lisp_object_equal_hash"
| "hash_function (Vequalp_hash_table_test eqf hf) = hf"
| "hash_function (Other_hash_table_test eqf hf) = hf"

datatype hash_table_weakness =
    HASH_TABLE_NON_WEAK | HASH_TABLE_KEY_WEAK | HASH_TABLE_VALUE_WEAK | HASH_TABLE_KEY_VALUE_WEAK | HASH_TABLE_WEAK

section \<open>Tables\<close>

record 'v hash_table =
  ht_size :: nat
  ht_count :: nat
  ht_rehash_count :: nat
  ht_rehash_size :: rat
  ht_rehash_threshold :: rat
  ht_golden_ratio :: nat
  ht_hentries :: "(lisp_object, 'v) htentries"
  ht_test :: hash_table_test
  ht_weakness :: hash_table_weakness

text \<open>
  \<open>fp_mul n x\<close> is \<open>(Elemcount) ((double) n * x)\<close> and \<open>fp_slots n x\<close> is
  \<open>(Elemcount) (((double) n / x) + 1.0)\<close>, as the floating point unit computes them.
\<close>

record fpu =
  fp_mul :: "nat \<Rightarrow> rat \<Rightarrow> nat"
  fp_slots :: "nat \<Rightarrow> rat \<Rightarrow> nat"

definition HASH_TABLE_DEFAULT_SIZE :: nat where "HASH_TABLE_DEFAULT_SIZE = 16"
definition HASH_TABLE_DEFAULT_REHASH_SIZE :: rat where "HASH_TABLE_DEFAULT_REHASH_SIZE = 13 / 10"
definition HASH_TABLE_MIN_SIZE :: nat where "HASH_TABLE_MIN_SIZE = 10"

fun HASH_TABLE_DEFAULT_REHASH_THRESHOLD :: "nat \<Rightarrow> hash_table_test \<Rightarrow> rat" where
  "HASH_TABLE_DEFAULT_REHASH_THRESHOLD sz Veq_hash_table_test = (if sz > 4096 then 7 / 10 else 6 / 10)"
| "HASH_TABLE_DEFAULT_REHASH_THRESHOLD sz _ = 6 / 10"

definition primes :: "nat list" where
  "primes =
    [19, 29, 41, 59, 79, 107, 149, 197, 263, 347, 457, 599, 787, 1031,
     1361, 1777, 2333, 3037, 3967, 5167, 6719, 8737, 11369, 14783,
     19219, 24989, 32491, 42257, 54941, 71429, 92861, 120721, 156941,
     204047, 265271, 344857, 448321, 582821, 757693, 985003, 1280519,
     1664681, 2164111, 2813353, 3657361, 4754591, 6180989, 8035301,
     10445899, 13579681, 17653589, 22949669, 29834603, 38784989,
     50420551, 65546729, 85210757, 110774011, 144006217, 187208107,
     243370577, 316381771, 411296309, 534685237, 695090819, 903618083,
     1174703521, 1527114613, 1985248999]"

text \<open>The binary search of \<open>hash_table_size\<close>.\<close>

function hash_table_size_loop :: "nat \<Rightarrow> nat \<Rightarrow> nat \<Rightarrow> nat" where
  "hash_table_size_loop requested_size low high =
     (if high - low > 1 then
        let mid = (low + high) div 2
        in if primes ! mid < requested_size then hash_table_size_loop requested_size mid high
           else hash_table_size_loop requested_size low mid
      else primes ! high)"
  by pat_completeness auto
termination by (relation "measure (\<lambda>(r, low, high). high - low)") auto

declare hash_table_size_loop.simps [simp del]

definition hash_table_size :: "nat \<Rightarrow> nat" where
  "hash_table_size requested_size = hash_table_size_loop requested_size 0 (length primes - 1)"

unbundle bit_operations_syntax

definition compute_hash_table_derived_values :: "fpu \<Rightarrow> 'v hash_table \<Rightarrow> 'v hash_table" where
  "compute_hash_table_derived_values fpu ht =
     ht\<lparr>ht_golden_ratio :=
          (if ht_size ht AND (ht_size ht - 1) = 0 then 1
           else fp_mul fpu (ht_size ht) (6180339887 / 10000000000 / 8)),
        ht_rehash_count := fp_mul fpu (ht_size ht) (ht_rehash_threshold ht)\<rparr>"

definition allocate_hash_table_entries :: "nat \<Rightarrow> (lisp_object, 'v) htentries" where
  "allocate_hash_table_entries n = replicate n None"

text \<open>
  \<open>Vall_weak_hash_tables\<close> is a list of object identities; the new table is \<open>hash_table\<close>.
\<close>

definition make_general_lisp_hash_table ::
    "fpu \<Rightarrow> nat \<Rightarrow> nat list \<Rightarrow> hash_table_test \<Rightarrow> nat \<Rightarrow> rat \<Rightarrow> rat \<Rightarrow> hash_table_weakness \<Rightarrow>
     'v hash_table \<times> nat list" where
  "make_general_lisp_hash_table fpu hash_table all_weak test sz rehash_size rehash_threshold weakness =
     (let rs = (if rehash_size > 1 then rehash_size else HASH_TABLE_DEFAULT_REHASH_SIZE);
          rt = (if rehash_threshold > 0 then rehash_threshold
                else HASH_TABLE_DEFAULT_REHASH_THRESHOLD sz test);
          sz = (if sz < HASH_TABLE_MIN_SIZE then HASH_TABLE_MIN_SIZE else sz);
          slots = hash_table_size (fp_slots fpu sz rt);
          ht = compute_hash_table_derived_values fpu
                 \<lparr>ht_size = slots, ht_count = 0, ht_rehash_count = 0, ht_rehash_size = rs,
                  ht_rehash_threshold = rt, ht_golden_ratio = 0, ht_hentries = [], ht_test = test,
                  ht_weakness = weakness\<rparr>
      in (ht\<lparr>ht_hentries := allocate_hash_table_entries (slots + 1)\<rparr>,
          if weakness \<noteq> HASH_TABLE_NON_WEAK then hash_table # all_weak else all_weak))"

text \<open>\<open>copy-hash-table\<close>: the copy is \<open>obj\<close>; what is entered in the list is \<open>hash_table\<close>, the original.\<close>

definition Fcopy_hash_table :: "nat \<Rightarrow> nat \<Rightarrow> nat list \<Rightarrow> 'v hash_table \<Rightarrow> 'v hash_table \<times> nat list" where
  "Fcopy_hash_table obj hash_table all_weak ht_old =
     (let entries = allocate_hash_table_entries (ht_size ht_old + 1);
          ht = ht_old\<lparr>ht_hentries := mem_copy entries 0 (take (ht_size ht_old + 1) (ht_hentries ht_old))\<rparr>
      in (ht, if ht_weakness ht \<noteq> HASH_TABLE_NON_WEAK then hash_table # all_weak else all_weak))"

section \<open>Resizing\<close>

definition resize_hash_table :: "fpu \<Rightarrow> 'v hash_table \<Rightarrow> nat \<Rightarrow> 'v hash_table option" where
  "resize_hash_table fpu ht new_size =
     (let old_size = ht_size ht;
          old_entries = ht_hentries ht;
          ht = compute_hash_table_derived_values fpu
                 (ht\<lparr>ht_size := new_size, ht_hentries := allocate_hash_table_entries (new_size + 1)\<rparr>)
      in map_option (\<lambda>es. ht\<lparr>ht_hentries := es\<rparr>)
           (rehash_entries (HASHCODE (hash_function (ht_test ht)) (ht_golden_ratio ht) new_size) new_size
              (take old_size old_entries) (ht_hentries ht)))"

definition enlarge_hash_table :: "fpu \<Rightarrow> 'v hash_table \<Rightarrow> 'v hash_table option" where
  "enlarge_hash_table fpu ht =
     resize_hash_table fpu ht (hash_table_size (fp_mul fpu (ht_size ht) (ht_rehash_size ht)))"

section \<open>Finding an entry\<close>

definition choose_hash_table_test_for_lookup :: "'v hash_table \<Rightarrow> lisp_object \<Rightarrow> hash_table_test" where
  "choose_hash_table_test_for_lookup ht key =
     (case ht_test ht of
        Veq_hash_table_test \<Rightarrow> Veq_hash_table_test
      | Veql_hash_table_test \<Rightarrow>
          if NON_FIXNUM_NUMBER_P key then Vequal_hash_table_test else Veq_hash_table_test
      | Vequal_hash_table_test \<Rightarrow>
          if FIXNUM_OR_CHARP key \<or> SYMBOLP key then Veq_hash_table_test else Vequal_hash_table_test
      | Vequalp_hash_table_test eqf hf \<Rightarrow>
          if SYMBOLP key then Veq_hash_table_test else Vequalp_hash_table_test eqf hf
      | Other_hash_table_test eqf hf \<Rightarrow> Other_hash_table_test eqf hf)"

text \<open>What stops a probe for \<open>key\<close>.  \<open>internal_equal\<close> gets \<open>lisp_eval_depth\<close> as its depth and adds it once more.\<close>

fun probe_stop :: "nat \<Rightarrow> nat \<Rightarrow> hash_table_test \<Rightarrow> lisp_object \<Rightarrow> lisp_object \<Rightarrow> bool option" where
  "probe_stop mx ed Veq_hash_table_test key k = Some (EQ k key)"
| "probe_stop mx ed Veql_hash_table_test key k = (if EQ k key then Some True else lisp_object_eql_equal mx ed k key)"
| "probe_stop mx ed Vequal_hash_table_test key k = (if EQ k key then Some True else internal_equal mx ed ed k key)"
| "probe_stop mx ed (Vequalp_hash_table_test eqf hf) key k = (if EQ k key then Some True else eqf k key)"
| "probe_stop mx ed (Other_hash_table_test eqf hf) key k = (if EQ k key then Some True else eqf k key)"

definition find_htentry_1 :: "nat \<Rightarrow> nat \<Rightarrow> lisp_object \<Rightarrow> 'v hash_table \<Rightarrow> nat option" where
  "find_htentry_1 mx ed key ht =
     (let test = choose_hash_table_test_for_lookup ht key in
      linear_probing_loop (probe_stop mx ed test key) (ht_hentries ht) (ht_size ht)
        (HASHCODE (hash_function test) (ht_golden_ratio ht) (ht_size ht) key))"

section \<open>The Lisp operations\<close>

definition Fgethash :: "nat \<Rightarrow> nat \<Rightarrow> lisp_object \<Rightarrow> 'v hash_table \<Rightarrow> 'v \<Rightarrow> 'v option" where
  "Fgethash mx ed key ht dflt =
     (case find_htentry_1 mx ed key ht of
        None \<Rightarrow> None
      | Some e \<Rightarrow> Some (case ht_hentries ht ! e of None \<Rightarrow> dflt | Some (k, v) \<Rightarrow> v))"

definition Fputhash :: "fpu \<Rightarrow> nat \<Rightarrow> nat \<Rightarrow> lisp_object \<Rightarrow> 'v \<Rightarrow> 'v hash_table \<Rightarrow> 'v hash_table option" where
  "Fputhash fpu mx ed key val ht =
     (case find_htentry_1 mx ed key ht of
        None \<Rightarrow> None
      | Some e \<Rightarrow>
          (case ht_hentries ht ! e of
             Some (k, v) \<Rightarrow> Some (ht\<lparr>ht_hentries := (ht_hentries ht)[e := Some (k, val)]\<rparr>)
           | None \<Rightarrow>
               let ht = ht\<lparr>ht_hentries := (ht_hentries ht)[e := Some (key, val)], ht_count := ht_count ht + 1\<rparr>
               in if ht_count ht \<ge> ht_rehash_count ht then enlarge_hash_table fpu ht else Some ht))"

text \<open>\<open>inchash\<close>, for tables with fixnum values: the position of the entry, unless the table was resized.\<close>

definition inchash ::
    "fpu \<Rightarrow> nat \<Rightarrow> nat \<Rightarrow> lisp_object \<Rightarrow> lisp_word hash_table \<Rightarrow> int \<Rightarrow> (lisp_word hash_table \<times> nat option) option" where
  "inchash fpu mx ed key ht offset =
     (case find_htentry_1 mx ed key ht of
        None \<Rightarrow> None
      | Some e \<Rightarrow>
          (case ht_hentries ht ! e of
             Some (k, v) \<Rightarrow>
               Some (ht\<lparr>ht_hentries := (ht_hentries ht)[e := Some (k, make_fixnum (XREALFIXNUM v + offset))]\<rparr>, Some e)
           | None \<Rightarrow>
               let ht = ht\<lparr>ht_hentries := (ht_hentries ht)[e := Some (key, make_fixnum offset)],
                           ht_count := ht_count ht + 1\<rparr>
               in if ht_count ht \<ge> ht_rehash_count ht
                  then map_option (\<lambda>ht. (ht, None)) (enlarge_hash_table fpu ht)
                  else Some (ht, Some e)))"

definition remhash_1 :: "'v hash_table \<Rightarrow> nat \<Rightarrow> 'v hash_table option" where
  "remhash_1 ht probe =
     (let entries = (ht_hentries ht)[probe := None] in
      map_option (\<lambda>es. ht\<lparr>ht_hentries := es, ht_count := ht_count ht - 1\<rparr>)
        (reinsert_loop (HASHCODE (hash_function (ht_test ht)) (ht_golden_ratio ht) (ht_size ht))
           (ht_size ht) entries (probe + 1)))"

definition Fremhash :: "nat \<Rightarrow> nat \<Rightarrow> lisp_object \<Rightarrow> 'v hash_table \<Rightarrow> (bool \<times> 'v hash_table) option" where
  "Fremhash mx ed key ht =
     (case find_htentry_1 mx ed key ht of
        None \<Rightarrow> None
      | Some e \<Rightarrow>
          if ht_hentries ht ! e = None then Some (False, ht)
          else map_option (\<lambda>ht. (True, ht)) (remhash_1 ht e))"

definition Fclrhash :: "'v hash_table \<Rightarrow> 'v hash_table" where
  "Fclrhash ht =
     ht\<lparr>ht_hentries := replicate (ht_size ht) None @ drop (ht_size ht) (ht_hentries ht), ht_count := 0\<rparr>"

definition Fhash_table_count :: "'v hash_table \<Rightarrow> nat" where "Fhash_table_count ht = ht_count ht"
definition Fhash_table_size :: "'v hash_table \<Rightarrow> nat" where "Fhash_table_size ht = ht_size ht"

section \<open>Mapping\<close>

text \<open>The assertion of \<open>copy_compress_hentries\<close> is its \<open>None\<close>.\<close>

definition copy_compress_hentries :: "'v hash_table \<Rightarrow> (lisp_object \<times> 'v) list option" where
  "copy_compress_hentries ht =
     (let objs = map the (filter (\<lambda>c. c \<noteq> None) (take (ht_size ht) (ht_hentries ht)))
      in if length objs = ht_count ht then Some objs else None)"

text \<open>The mapping loops run over the copy; the function may change the table, which is part of the state.\<close>

fun maphash_loop :: "(lisp_object \<Rightarrow> 'v \<Rightarrow> 's \<Rightarrow> 's option) \<Rightarrow> (lisp_object \<times> 'v) list \<Rightarrow> 's \<Rightarrow> 's option" where
  "maphash_loop f [] s = Some s"
| "maphash_loop f ((k, v) # objs) s = (case f k v s of None \<Rightarrow> None | Some s \<Rightarrow> maphash_loop f objs s)"

definition Fmaphash ::
    "(lisp_object \<Rightarrow> 'v \<Rightarrow> 'v hash_table \<times> 's \<Rightarrow> ('v hash_table \<times> 's) option) \<Rightarrow> 'v hash_table \<times> 's \<Rightarrow>
     ('v hash_table \<times> 's) option" where
  "Fmaphash f s =
     (case copy_compress_hentries (fst s) of
        None \<Rightarrow> None
      | Some objs \<Rightarrow> maphash_loop f objs s)"

definition elisp_map_remhash ::
    "nat \<Rightarrow> nat \<Rightarrow> (lisp_object \<Rightarrow> 'v \<Rightarrow> bool) \<Rightarrow> 'v hash_table \<Rightarrow> 'v hash_table option" where
  "elisp_map_remhash mx ed predicate ht =
     (case copy_compress_hentries ht of
        None \<Rightarrow> None
      | Some objs \<Rightarrow>
          maphash_loop (\<lambda>k v ht. if predicate k v then map_option snd (Fremhash mx ed k ht) else Some ht) objs ht)"

section \<open>The built-in tests keep the contract\<close>

definition eql_eqv :: "lisp_object \<Rightarrow> lisp_object \<Rightarrow> bool" where
  "eql_eqv a b \<longleftrightarrow> a = b \<or> (NON_FIXNUM_NUMBER_P a \<and> skeleton a = skeleton b)"

definition equal_eqv :: "lisp_object \<Rightarrow> lisp_object \<Rightarrow> bool" where
  "equal_eqv a b \<longleftrightarrow> skeleton a = skeleton b"

lemma NON_FIXNUM_NUMBER_skeleton: "skeleton a = skeleton b \<Longrightarrow> NON_FIXNUM_NUMBER_P a = NON_FIXNUM_NUMBER_P b"
  by (cases a; cases b) auto

lemma hash_skeleton_eq: "skeleton a = skeleton b \<Longrightarrow> internal_hash a 0 = internal_hash b 0"
  using hash_skeleton(1) [of a 0] hash_skeleton(1) [of b 0] by simp

interpretation eq_test: hash_test_laws "(=)" LISP_HASH
  by unfold_locales auto

interpretation eql_test: hash_test_laws eql_eqv lisp_object_eql_hash
proof unfold_locales
  show "eql_eqv a c" if "eql_eqv a b" "eql_eqv b c" for a b c
    using that by (auto simp: eql_eqv_def)
  show "eql_eqv b a" if "eql_eqv a b" for a b
    using that NON_FIXNUM_NUMBER_skeleton [of a b] by (auto simp: eql_eqv_def)
  show "lisp_object_eql_hash a = lisp_object_eql_hash b" if "eql_eqv a b" for a b
    using that NON_FIXNUM_NUMBER_skeleton [of a b] hash_skeleton_eq [of a b]
    by (auto simp: eql_eqv_def lisp_object_eql_hash_def)
qed (simp add: eql_eqv_def)

interpretation equal_test: hash_test_laws equal_eqv lisp_object_equal_hash
  by unfold_locales (auto simp: equal_eqv_def lisp_object_equal_hash_def intro: hash_skeleton_eq)

text \<open>The equality of keys in a table, by its test.\<close>

fun key_eqv :: "hash_table_test \<Rightarrow> lisp_object \<Rightarrow> lisp_object \<Rightarrow> bool" where
  "key_eqv Veq_hash_table_test = (=)"
| "key_eqv Veql_hash_table_test = eql_eqv"
| "key_eqv _ = equal_eqv"

definition builtin :: "hash_table_test \<Rightarrow> bool" where
  "builtin t \<longleftrightarrow> t \<in> {Veq_hash_table_test, Veql_hash_table_test, Vequal_hash_table_test}"

lemma builtin_laws: "builtin t \<Longrightarrow> hash_test_laws (key_eqv t) (hash_function t)"
  using eq_test.hash_test_laws_axioms eql_test.hash_test_laws_axioms equal_test.hash_test_laws_axioms
  by (auto simp: builtin_def)

lemma key_eqv_refl [simp]: "key_eqv t a a"
  by (cases t) (auto simp: eql_eqv_def equal_eqv_def)

text \<open>
  The test chosen for a key hashes it as the table's own test does, and compares as that test's
  equality, as long as the nesting of the stored keys fits the depth that is left.
\<close>

definition keys_fit :: "nat \<Rightarrow> nat \<Rightarrow> 'v hash_table \<Rightarrow> bool" where
  "keys_fit mx ed ht \<longleftrightarrow> (\<forall>e. Some e \<in> set (ht_hentries ht) \<longrightarrow> ed + ed + height (fst e) \<le> mx)"

lemma skeleton_immediate: "FIXNUM_OR_CHARP key \<or> SYMBOLP key \<Longrightarrow> skeleton k = skeleton key \<longleftrightarrow> k = key"
  by (cases key; cases k) auto

lemma hash_immediate: "FIXNUM_OR_CHARP key \<or> SYMBOLP key \<Longrightarrow> internal_hash key 0 = LISP_HASH key"
  by (cases key) (auto simp: internal_hash.simps)

lemma chosen_hash:
  "builtin (ht_test ht) \<Longrightarrow>
   hash_function (choose_hash_table_test_for_lookup ht key) key = hash_function (ht_test ht) key"
  by (auto simp: builtin_def choose_hash_table_test_for_lookup_def lisp_object_eql_hash_def
      lisp_object_equal_hash_def hash_immediate)

lemma chosen_stop:
  assumes "builtin (ht_test ht)" "ed + ed + height k \<le> mx"
  shows "probe_stop mx ed (choose_hash_table_test_for_lookup ht key) key k = Some (key_eqv (ht_test ht) k key)"
proof -
  have eq: "internal_equal mx ed ed k key = Some (skeleton k = skeleton key)"
    using internal_equal_ok [OF assms(2)] .
  show ?thesis
    using assms(1) eq NON_FIXNUM_NUMBER_skeleton [of k key] skeleton_immediate [of key k]
    by (auto simp: builtin_def choose_hash_table_test_for_lookup_def EQ_def eql_eqv_def equal_eqv_def)
qed

section \<open>Well-formed tables\<close>

abbreviation ht_home :: "'v hash_table \<Rightarrow> lisp_object \<Rightarrow> nat" where
  "ht_home ht \<equiv> HASHCODE (hash_function (ht_test ht)) (ht_golden_ratio ht) (ht_size ht)"

definition ht_wf :: "'v hash_table \<Rightarrow> bool" where
  "ht_wf ht \<longleftrightarrow> builtin (ht_test ht) \<and>
     lp_wf (key_eqv (ht_test ht)) (ht_home ht) (ht_size ht) (ht_hentries ht) \<and>
     ht_count ht = lp_count (ht_hentries ht) \<and> ht_count ht < ht_size ht \<and> ht_rehash_count ht \<le> ht_size ht"

text \<open>The finite map a table stands for: a key has the value of the entry whose key is equal to it.\<close>

definition ht_assoc :: "'v hash_table \<Rightarrow> lisp_object \<Rightarrow> 'v \<Rightarrow> bool" where
  "ht_assoc ht key v \<longleftrightarrow> (\<exists>k. Some (k, v) \<in> set (ht_hentries ht) \<and> key_eqv (ht_test ht) k key)"

lemma find_htentry_ok:
  assumes wf: "ht_wf ht" and fit: "keys_fit mx ed ht"
  shows "\<exists>q < ht_size ht. find_htentry_1 mx ed key ht = Some q \<and>
    (case ht_hentries ht ! q of
       Some e \<Rightarrow> key_eqv (ht_test ht) (fst e) key
     | None \<Rightarrow> (\<forall>e. Some e \<in> set (ht_hentries ht) \<longrightarrow> \<not> key_eqv (ht_test ht) (fst e) key) \<and>
         (\<forall>d < dist (ht_size ht) (ht_home ht key) q. ht_hentries ht ! ((ht_home ht key + d) mod ht_size ht) \<noteq> None))"
proof -
  let ?t = "choose_hash_table_test_for_lookup ht key"
  have b: "builtin (ht_test ht)" using wf by (simp add: ht_wf_def)
  have stop: "probe_stop mx ed ?t key (fst e) = Some (key_eqv (ht_test ht) (fst e) key)"
    if "Some e \<in> set (ht_hentries ht)" for e
    using fit that unfolding keys_fit_def by (intro chosen_stop [OF b]) blast
  have "HASHCODE (hash_function ?t) (ht_golden_ratio ht) (ht_size ht) key = ht_home ht key"
    using chosen_hash [OF b] by (simp add: HASHCODE_def)
  then have "find_htentry_1 mx ed key ht =
      linear_probing_loop (probe_stop mx ed ?t key) (ht_hentries ht) (ht_size ht) (ht_home ht key)"
    by (simp add: find_htentry_1_def Let_def)
  with hash_test_laws.find_ok [OF builtin_laws [OF b] _ _ stop, of "ht_golden_ratio ht" "ht_size ht"] wf
  show ?thesis by (simp add: ht_wf_def)
qed

lemma ht_assoc_unique:
  assumes "ht_wf ht" "ht_assoc ht key v" "ht_assoc ht key w"
  shows "v = w"
proof -
  have b: "builtin (ht_test ht)" and un: "lp_unique (key_eqv (ht_test ht)) (ht_hentries ht)"
    using assms(1) by (auto simp: ht_wf_def lp_wf_def)
  obtain k1 k2 where k: "Some (k1, v) \<in> set (ht_hentries ht)" "key_eqv (ht_test ht) k1 key"
      "Some (k2, w) \<in> set (ht_hentries ht)" "key_eqv (ht_test ht) k2 key"
    using assms(2,3) by (auto simp: ht_assoc_def)
  then have "key_eqv (ht_test ht) k1 k2"
    using hash_test_laws.eqv_sym [OF builtin_laws [OF b]] hash_test_laws.eqv_trans [OF builtin_laws [OF b]] by blast
  moreover obtain i j where "i < length (ht_hentries ht)" "ht_hentries ht ! i = Some (k1, v)"
      "j < length (ht_hentries ht)" "ht_hentries ht ! j = Some (k2, w)"
    using k by (metis in_set_conv_nth)
  ultimately show ?thesis using lp_uniqueD [OF un, of i j "(k1, v)" "(k2, w)"] by auto
qed

section \<open>Lookup\<close>

lemma Fgethash_iff:
  assumes wf: "ht_wf ht" and fit: "keys_fit mx ed ht"
  shows "Fgethash mx ed key ht dflt = Some w \<longleftrightarrow>
    ht_assoc ht key w \<or> (w = dflt \<and> (\<nexists>v. ht_assoc ht key v))"
proof -
  obtain q where q: "q < ht_size ht" "find_htentry_1 mx ed key ht = Some q"
    and cell: "case ht_hentries ht ! q of
       Some e \<Rightarrow> key_eqv (ht_test ht) (fst e) key
     | None \<Rightarrow> (\<forall>e. Some e \<in> set (ht_hentries ht) \<longrightarrow> \<not> key_eqv (ht_test ht) (fst e) key) \<and>
         (\<forall>d < dist (ht_size ht) (ht_home ht key) q. ht_hentries ht ! ((ht_home ht key + d) mod ht_size ht) \<noteq> None)"
    using find_htentry_ok [OF wf fit] by blast
  have len: "q < length (ht_hentries ht)" using q(1) wf by (auto simp: ht_wf_def lp_wf_def lp_shape_def)
  show ?thesis
  proof (cases "ht_hentries ht ! q")
    case None
    then have "\<nexists>v. ht_assoc ht key v" using cell by (force simp: ht_assoc_def)
    with None q(2) show ?thesis by (auto simp: Fgethash_def)
  next
    case (Some e)
    then have "Some (fst e, snd e) \<in> set (ht_hentries ht)" using nth_mem [OF len] by simp
    then have a: "ht_assoc ht key (snd e)" using cell Some unfolding ht_assoc_def
      by (intro exI [of _ "fst e"]) simp
    have "Fgethash mx ed key ht dflt = Some (snd e)" using Some q(2) by (simp add: Fgethash_def split: prod.split)
    moreover have "ht_assoc ht key w \<longleftrightarrow> w = snd e" using a ht_assoc_unique [OF wf a, of w] by blast
    ultimately show ?thesis using a by auto
  qed
qed

lemma Fgethash_cong:
  assumes "ht_wf ht" "keys_fit mx ed ht" "ht_wf ht'" "keys_fit mx ed ht'"
    and "\<And>v. ht_assoc ht' key' v = ht_assoc ht key v"
  shows "Fgethash mx ed key' ht' dflt = Fgethash mx ed key ht dflt"
proof (rule option.expand)
  have some: "Fgethash mx ed k t d \<noteq> None" if "ht_wf t" "keys_fit mx ed t" for k d and t :: "'a hash_table"
    using find_htentry_ok [OF that, of k] by (auto simp: Fgethash_def)
  then show "(Fgethash mx ed key' ht' dflt = None) = (Fgethash mx ed key ht dflt = None)" using assms by blast
  obtain w where w: "Fgethash mx ed key ht dflt = Some w" using some [OF assms(1,2)] by blast
  then have "Fgethash mx ed key' ht' dflt = Some w"
    unfolding Fgethash_iff [OF assms(1,2)] Fgethash_iff [OF assms(3,4)] assms(5) .
  with w show "the (Fgethash mx ed key' ht' dflt) = the (Fgethash mx ed key ht dflt)" by simp
qed

section \<open>Sizes\<close>

lemma hash_table_size_loop_props:
  "low < high \<Longrightarrow> high < length primes \<Longrightarrow> r \<le> primes ! high \<Longrightarrow> (low > 0 \<Longrightarrow> primes ! low < r) \<Longrightarrow>
   \<exists>i. 0 < i \<and> i \<le> high \<and> hash_table_size_loop r low high = primes ! i \<and> r \<le> primes ! i \<and>
       (i > 1 \<longrightarrow> primes ! (i - 1) < r)"
proof (induction r low high rule: hash_table_size_loop.induct)
  case (1 r low high)
  show ?case
  proof (cases "high - low > 1")
    case False
    then have "high = Suc low" using "1.prems" by simp
    with False "1.prems" show ?thesis by (subst hash_table_size_loop.simps) (auto intro!: exI [of _ high])
  next
    case True
    let ?mid = "(low + high) div 2"
    have m: "low < ?mid" "?mid < high" using True by linarith+
    show ?thesis
    proof (cases "primes ! ?mid < r")
      case True': True
      with "1.IH"(1) [OF True refl True'] m "1.prems" True
      show ?thesis by (subst hash_table_size_loop.simps) (simp add: Let_def)
    next
      case False
      with "1.IH"(2) [OF True refl False] m "1.prems" True
      obtain i where "0 < i" "i \<le> ?mid" "hash_table_size_loop r low ?mid = primes ! i" "r \<le> primes ! i"
         "i > 1 \<longrightarrow> primes ! (i - 1) < r" by auto
      with False True m show ?thesis by (subst hash_table_size_loop.simps) (auto simp: Let_def intro!: exI [of _ i])
    qed
  qed
qed

lemma primes_bounds: "length primes = 69" "primes ! 68 = 1985248999"
  by (simp_all add: primes_def)

text \<open>\<open>hash_table_size\<close> returns the first number of its table, the very first (19) apart, that is at
  least the size asked for, as long as there is one; it never returns 19, not even for sizes it would fit.\<close>

theorem hash_table_size_least:
  assumes "requested_size \<le> 1985248999"
  shows "\<exists>i. 0 < i \<and> i < length primes \<and> hash_table_size requested_size = primes ! i \<and>
    requested_size \<le> hash_table_size requested_size \<and> (i > 1 \<longrightarrow> primes ! (i - 1) < requested_size)"
  using hash_table_size_loop_props [of 0 68 requested_size] assms
  by (fastforce simp: hash_table_size_def primes_bounds)

lemma hash_table_size_ge: "r \<le> 1985248999 \<Longrightarrow> r \<le> hash_table_size r"
  using hash_table_size_loop_props [of 0 68 r] by (auto simp: hash_table_size_def primes_bounds)

section \<open>Resizing keeps every entry\<close>

lemma lp_wf_fresh: "0 < sz \<Longrightarrow> lp_wf eqv home sz (replicate (sz + 1) None)"
  by (auto simp: lp_wf_def lp_shape_def lp_reach_def lp_unique_def nth_append simp del: replicate_Suc)

lemma fresh_facts [simp]: "lp_count (replicate n None) = 0" "Some e \<notin> set (replicate n None)"
  by (auto simp: lp_count_def)

lemma lp_shape_take:
  assumes "lp_shape sz es"
  shows "lp_count (take sz es) = lp_count es" "Some e \<in> set (take sz es) \<longleftrightarrow> Some e \<in> set es"
proof -
  have es: "es = take sz es @ [None]"
    using assms take_Suc_conv_app_nth [of sz es] by (simp add: lp_shape_def)
  show "lp_count (take sz es) = lp_count es"
    using lp_count_simps(4) [of "take sz es" "[None]"] es by simp
  have "set es = set (take sz es) \<union> {None}" by (subst es) simp
  then show "Some e \<in> set (take sz es) \<longleftrightarrow> Some e \<in> set es" by auto
qed

lemma lp_unique_take: "lp_unique eqv es \<Longrightarrow> lp_unique eqv (take n es)"
  unfolding lp_unique_def by simp

lemma resize_ok:
  fixes ht :: "'v hash_table"
  assumes b: "builtin (ht_test ht)" and sh: "lp_shape (ht_size ht) (ht_hentries ht)"
    and un: "lp_unique (key_eqv (ht_test ht)) (ht_hentries ht)" and cnt: "ht_count ht = lp_count (ht_hentries ht)"
    and room: "ht_count ht \<le> new_size" "0 < new_size"
    and thr: "fp_mul fpu new_size (ht_rehash_threshold ht) \<le> new_size"
  shows "\<exists>ht'. resize_hash_table fpu ht new_size = Some ht' \<and> ht_test ht' = ht_test ht \<and>
    lp_wf (key_eqv (ht_test ht)) (ht_home ht') new_size (ht_hentries ht') \<and>
    lp_count (ht_hentries ht') = ht_count ht \<and> (ht_count ht < new_size \<longrightarrow> ht_wf ht') \<and>
    ht_size ht' = new_size \<and> ht_rehash_size ht' = ht_rehash_size ht \<and> ht_rehash_threshold ht' = ht_rehash_threshold ht \<and>
    (\<forall>e. Some e \<in> set (ht_hentries ht') \<longleftrightarrow> Some e \<in> set (ht_hentries ht))"
proof -
  define ht1 where "ht1 = compute_hash_table_derived_values fpu
      (ht\<lparr>ht_size := new_size, ht_hentries := allocate_hash_table_entries (new_size + 1)\<rparr>)"
  let ?g = "ht_golden_ratio ht1"
  have s0: "0 < new_size" by (rule room(2))
  let ?home = "HASHCODE (hash_function (ht_test ht)) ?g new_size"
  have "\<exists>new'. rehash_entries ?home new_size (take (ht_size ht) (ht_hentries ht)) (replicate (new_size + 1) None) = Some new' \<and>
     lp_wf (key_eqv (ht_test ht)) ?home new_size new' \<and>
     lp_count new' = lp_count (replicate (new_size + 1) None :: (lisp_object, 'v) htentries) + lp_count (take (ht_size ht) (ht_hentries ht)) \<and>
     (\<forall>e. Some e \<in> set new' \<longleftrightarrow> Some e \<in> set (replicate (new_size + 1) None) \<or> Some e \<in> set (take (ht_size ht) (ht_hentries ht)))"
    using room cnt lp_shape_take(1) [OF sh]
    by (intro hash_test_laws.rehash_ok [OF builtin_laws [OF b] lp_wf_fresh [OF s0]] lp_unique_take [OF un])
      (simp_all del: replicate_Suc)
  then obtain new' where n: "rehash_entries ?home new_size (take (ht_size ht) (ht_hentries ht)) (replicate (new_size + 1) None) = Some new'"
     "lp_wf (key_eqv (ht_test ht)) ?home new_size new'" "lp_count new' = lp_count (ht_hentries ht)"
     "\<forall>e. Some e \<in> set new' \<longleftrightarrow> Some e \<in> set (ht_hentries ht)"
    using lp_shape_take [OF sh] by (auto simp del: replicate_Suc)
  let ?ht' = "ht1\<lparr>ht_hentries := new'\<rparr>"
  have same: "ht_test ht1 = ht_test ht" "ht_size ht1 = new_size" "ht_count ht1 = ht_count ht"
    "ht_rehash_size ht1 = ht_rehash_size ht" "ht_rehash_threshold ht1 = ht_rehash_threshold ht"
    "ht_hentries ht1 = replicate (new_size + 1) None" "ht_rehash_count ht1 = fp_mul fpu new_size (ht_rehash_threshold ht)"
    by (simp_all add: ht1_def compute_hash_table_derived_values_def allocate_hash_table_entries_def del: replicate_Suc)
  have "resize_hash_table fpu ht new_size = Some ?ht'"
    using n(1) unfolding resize_hash_table_def Let_def ht1_def [symmetric] same by simp
  moreover have "ht_count ht < new_size \<longrightarrow> ht_wf ?ht'"
    using n(2,3) b cnt room thr by (simp add: ht_wf_def same)
  moreover have "lp_wf (key_eqv (ht_test ht)) (ht_home ?ht') new_size (ht_hentries ?ht')" "lp_count (ht_hentries ?ht') = ht_count ht"
    using n(2,3) cnt by (simp_all add: same)
  ultimately show ?thesis using n(4) same by (intro exI [of _ ?ht']) simp
qed

section \<open>Insertion\<close>

text \<open>
  What insertion needs of the arithmetic: the rehash threshold does not exceed the size, and one step of
  growth is a growth (a rehash size too close to 1 rounds down to none) within the table of primes.
\<close>

definition rehash_ok :: "fpu \<Rightarrow> 'v hash_table \<Rightarrow> bool" where
  "rehash_ok fpu ht \<longleftrightarrow> (\<forall>n. fp_mul fpu n (ht_rehash_threshold ht) \<le> n) \<and>
     ht_size ht < fp_mul fpu (ht_size ht) (ht_rehash_size ht) \<and>
     fp_mul fpu (ht_size ht) (ht_rehash_size ht) \<le> 1985248999"

lemma enlarge_ok:
  fixes ht :: "'v hash_table"
  assumes "builtin (ht_test ht)" "lp_shape (ht_size ht) (ht_hentries ht)"
    "lp_unique (key_eqv (ht_test ht)) (ht_hentries ht)" "ht_count ht = lp_count (ht_hentries ht)"
    and room: "ht_count ht \<le> ht_size ht" and ok: "rehash_ok fpu ht"
  shows "\<exists>ht'. enlarge_hash_table fpu ht = Some ht' \<and> ht_wf ht' \<and> ht_test ht' = ht_test ht \<and>
    (\<forall>e. Some e \<in> set (ht_hentries ht') \<longleftrightarrow> Some e \<in> set (ht_hentries ht))"
proof -
  let ?n = "hash_table_size (fp_mul fpu (ht_size ht) (ht_rehash_size ht))"
  have n: "fp_mul fpu (ht_size ht) (ht_rehash_size ht) \<le> ?n"
    using ok hash_table_size_ge by (simp add: rehash_ok_def)
  then have "ht_count ht < ?n" using ok room by (simp add: rehash_ok_def)
  moreover have "fp_mul fpu ?n (ht_rehash_threshold ht) \<le> ?n" using ok by (simp add: rehash_ok_def)
  ultimately show ?thesis
    using resize_ok [OF assms(1-4), of ?n fpu] unfolding enlarge_hash_table_def
    by (meson less_imp_le_nat le_less_trans zero_le)
qed

text \<open>How the map of a table changes when the entry with key \<open>k0\<close> (equal to \<open>key\<close>) gets the value \<open>val\<close>.\<close>

lemma ht_assoc_upd:
  assumes b: "builtin (ht_test ht)" and t: "ht_test ht' = ht_test ht" and k0: "key_eqv (ht_test ht) k0 key"
    and mem: "\<And>k w. Some (k, w) \<in> set (ht_hentries ht') \<longleftrightarrow>
      k = k0 \<and> w = val \<or> (Some (k, w) \<in> set (ht_hentries ht) \<and> k \<noteq> k0)"
    and other: "\<And>k w. Some (k, w) \<in> set (ht_hentries ht) \<Longrightarrow> k \<noteq> k0 \<Longrightarrow> \<not> key_eqv (ht_test ht) k key"
  shows "ht_assoc ht' k w \<longleftrightarrow> (if key_eqv (ht_test ht) key k then w = val else ht_assoc ht k w)"
proof -
  note sym = hash_test_laws.eqv_sym [OF builtin_laws [OF b]]
  note trans = hash_test_laws.eqv_trans [OF builtin_laws [OF b]]
  have eq: "key_eqv (ht_test ht) k0 k \<longleftrightarrow> key_eqv (ht_test ht) key k" using k0 sym trans by blast
  have split: "ht_assoc ht' k w \<longleftrightarrow> (w = val \<and> key_eqv (ht_test ht) key k) \<or>
      (\<exists>k'. Some (k', w) \<in> set (ht_hentries ht) \<and> k' \<noteq> k0 \<and> key_eqv (ht_test ht) k' k)"
    unfolding ht_assoc_def t mem using eq by blast
  show ?thesis
  proof (cases "key_eqv (ht_test ht) key k")
    case True
    then have "\<not> key_eqv (ht_test ht) k' k" if "Some (k', w) \<in> set (ht_hentries ht)" "k' \<noteq> k0" for k'
      using other [OF that] sym trans by blast
    with split True show ?thesis by auto
  next
    case False
    then have "ht_assoc ht k w \<longleftrightarrow>
        (\<exists>k'. Some (k', w) \<in> set (ht_hentries ht) \<and> k' \<noteq> k0 \<and> key_eqv (ht_test ht) k' k)"
      unfolding ht_assoc_def using eq by blast
    with split False show ?thesis by simp
  qed
qed

lemma Fputhash_ok:
  assumes wf: "ht_wf ht" and fit: "keys_fit mx ed ht" and key: "ed + ed + height key \<le> mx" and ok: "rehash_ok fpu ht"
  shows "\<exists>ht'. Fputhash fpu mx ed key val ht = Some ht' \<and> ht_wf ht' \<and> keys_fit mx ed ht' \<and>
    ht_test ht' = ht_test ht \<and>
    (\<forall>k w. ht_assoc ht' k w \<longleftrightarrow> (if key_eqv (ht_test ht) key k then w = val else ht_assoc ht k w))"
proof -
  let ?t = "ht_test ht" and ?es = "ht_hentries ht"
  have b: "builtin ?t" and lp: "lp_wf (key_eqv ?t) (ht_home ht) (ht_size ht) ?es"
    and cnt: "ht_count ht = lp_count ?es" "ht_count ht < ht_size ht" "ht_rehash_count ht \<le> ht_size ht"
    using wf by (auto simp: ht_wf_def)
  have sh: "lp_shape (ht_size ht) ?es" and un: "lp_unique (key_eqv ?t) ?es" using lp by (simp_all add: lp_wf_def)
  obtain q where q: "q < ht_size ht" "find_htentry_1 mx ed key ht = Some q"
    and cell: "case ?es ! q of Some e \<Rightarrow> key_eqv ?t (fst e) key
     | None \<Rightarrow> (\<forall>e. Some e \<in> set ?es \<longrightarrow> \<not> key_eqv ?t (fst e) key) \<and>
         (\<forall>d < dist (ht_size ht) (ht_home ht key) q. ?es ! ((ht_home ht key + d) mod ht_size ht) \<noteq> None)"
    using find_htentry_ok [OF wf fit] by blast
  have len: "q < length ?es" using q(1) sh by (simp add: lp_shape_def)
  show ?thesis
  proof (cases "?es ! q")
    case (Some e)
    obtain k0 v0 where e: "e = (k0, v0)" by fastforce
    have k0: "key_eqv ?t k0 key" using cell Some e by simp
    let ?ht = "ht\<lparr>ht_hentries := ?es[q := Some (k0, val)]\<rparr>"
    have put: "Fputhash fpu mx ed key val ht = Some ?ht" using q(2) Some e by (simp add: Fputhash_def)
    have lp': "lp_wf (key_eqv ?t) (ht_home ht) (ht_size ht) (?es[q := Some (k0, val)])"
      using hash_test_laws.update_wf [OF builtin_laws [OF b] lp q(1)] Some e by simp
    have cnt': "lp_count (?es[q := Some (k0, val)]) = lp_count ?es"
      using lp_count_update [OF len, of "Some (k0, val)"] Some by simp
    have same_key: "k \<noteq> k0" if "i < length ?es" "?es ! i = Some (k, w)" "i \<noteq> q" for i k w
      using lp_uniqueD [OF un that(1) len that(2)] Some e that(3) by auto
    have mem: "Some (k, w) \<in> set (?es[q := Some (k0, val)]) \<longleftrightarrow>
        k = k0 \<and> w = val \<or> (Some (k, w) \<in> set ?es \<and> k \<noteq> k0)" for k w
    proof -
      have "Some (k, w) \<in> set (?es[q := Some (k0, val)]) \<longleftrightarrow>
          (\<exists>i < length ?es. (if i = q then Some (k0, val) else ?es ! i) = Some (k, w))"
        by (auto simp: in_set_conv_nth nth_list_update)
      also have "\<dots> \<longleftrightarrow> (k = k0 \<and> w = val) \<or> (\<exists>i < length ?es. i \<noteq> q \<and> ?es ! i = Some (k, w))"
        using len by auto
      also have "(\<exists>i < length ?es. i \<noteq> q \<and> ?es ! i = Some (k, w)) \<longleftrightarrow> Some (k, w) \<in> set ?es \<and> k \<noteq> k0"
      proof
        assume "\<exists>i < length ?es. i \<noteq> q \<and> ?es ! i = Some (k, w)"
        then obtain i where i: "i < length ?es" "i \<noteq> q" "?es ! i = Some (k, w)" by blast
        then show "Some (k, w) \<in> set ?es \<and> k \<noteq> k0" using same_key [OF i(1,3,2)] nth_mem [OF i(1)] by simp
      next
        assume a: "Some (k, w) \<in> set ?es \<and> k \<noteq> k0"
        then obtain i where i: "i < length ?es" "?es ! i = Some (k, w)" by (metis in_set_conv_nth)
        moreover have "i \<noteq> q" using i a Some e by auto
        ultimately show "\<exists>i < length ?es. i \<noteq> q \<and> ?es ! i = Some (k, w)" by blast
      qed
      finally show ?thesis .
    qed
    have other: "\<not> key_eqv ?t k key" if kw: "Some (k, w) \<in> set ?es" "k \<noteq> k0" for k w
    proof
      assume eq: "key_eqv ?t k key"
      obtain i where i: "i < length ?es" "?es ! i = Some (k, w)" using kw(1) by (metis in_set_conv_nth)
      have "key_eqv ?t k k0"
        using eq k0 hash_test_laws.eqv_sym [OF builtin_laws [OF b]] hash_test_laws.eqv_trans [OF builtin_laws [OF b]] by blast
      then have "i = q" using lp_uniqueD [OF un i(1) len i(2) Some] e by simp
      with i(2) Some e kw(2) show False by simp
    qed
    have "ht_wf ?ht" using lp' cnt' b cnt by (simp add: ht_wf_def)
    moreover have "keys_fit mx ed ?ht"
    proof -
      have "Some (k0, v0) \<in> set ?es" using nth_mem [OF len] Some e by simp
      then show ?thesis using fit mem unfolding keys_fit_def by fastforce
    qed
    moreover have "ht_assoc ?ht k w \<longleftrightarrow> (if key_eqv ?t key k then w = val else ht_assoc ht k w)" for k w
      by (rule ht_assoc_upd [OF b _ k0]) (use mem other in auto)
    ultimately show ?thesis using put by auto
  next
    case None
    let ?ht = "ht\<lparr>ht_hentries := ?es[q := Some (key, val)], ht_count := ht_count ht + 1\<rparr>"
    have fresh: "\<forall>e. Some e \<in> set ?es \<longrightarrow> \<not> key_eqv ?t (fst e) key"
      and path: "\<forall>d < dist (ht_size ht) (ht_home ht key) q. ?es ! ((ht_home ht key + d) mod ht_size ht) \<noteq> None"
      using cell None by simp_all
    have lp': "lp_wf (key_eqv ?t) (ht_home ht) (ht_size ht) (?es[q := Some (key, val)])"
      using hash_test_laws.insert_wf [OF builtin_laws [OF b] lp q(1) None, of "(key, val)"] fresh path by simp
    have cnt': "lp_count (?es[q := Some (key, val)]) = Suc (lp_count ?es)"
      using lp_count_update [OF len, of "Some (key, val)"] None by simp
    have mem: "Some (k, w) \<in> set (?es[q := Some (key, val)]) \<longleftrightarrow>
        k = key \<and> w = val \<or> (Some (k, w) \<in> set ?es \<and> k \<noteq> key)" for k w
      using mem_update_clear [OF len None, of "(k, w)" "(key, val)"] fresh by fastforce
    have put: "Fputhash fpu mx ed key val ht =
        (if ht_count ht + 1 \<ge> ht_rehash_count ht then enlarge_hash_table fpu ?ht else Some ?ht)"
      using q(2) None by (simp add: Fputhash_def Let_def)
    have "\<exists>ht'. Fputhash fpu mx ed key val ht = Some ht' \<and> ht_wf ht' \<and> ht_test ht' = ?t \<and>
        (\<forall>e. Some e \<in> set (ht_hentries ht') \<longleftrightarrow> Some e \<in> set (?es[q := Some (key, val)]))"
    proof (cases "ht_count ht + 1 \<ge> ht_rehash_count ht")
      case False
      then have "ht_wf ?ht" using lp' cnt' b cnt by (simp add: ht_wf_def)
      with False put show ?thesis by simp
    next
      case True
      have "rehash_ok fpu ?ht" using ok by (simp add: rehash_ok_def)
      with enlarge_ok [of ?ht fpu] lp' cnt' b cnt True put show ?thesis by (simp add: lp_wf_def)
    qed
    then obtain ht' where ht': "Fputhash fpu mx ed key val ht = Some ht'" "ht_wf ht'" "ht_test ht' = ?t"
      "\<And>e. Some e \<in> set (ht_hentries ht') \<longleftrightarrow> Some e \<in> set (?es[q := Some (key, val)])" by blast
    have "keys_fit mx ed ht'"
      using fit key mem ht'(4) unfolding keys_fit_def by fastforce
    moreover have "ht_assoc ht' k w \<longleftrightarrow> (if key_eqv ?t key k then w = val else ht_assoc ht k w)" for k w
      by (rule ht_assoc_upd [OF b ht'(3) key_eqv_refl]) (use mem fresh ht'(4) in auto)
    ultimately show ?thesis using ht' by blast
  qed
qed

text \<open>C10: \<open>puthash\<close> is an update of the finite map the table stands for, with the table's test as the equality
  of keys: afterwards every key equal to the new one has the new value and every other key what it had,
  whether or not the table had to grow, and the result is a well-formed table.\<close>

theorem Fputhash_correct:
  assumes "ht_wf ht" "keys_fit mx ed ht" "ed + ed + height key \<le> mx" "rehash_ok fpu ht"
  shows "\<exists>ht'. Fputhash fpu mx ed key val ht = Some ht' \<and> ht_wf ht' \<and> keys_fit mx ed ht' \<and>
    (\<forall>k dflt. Fgethash mx ed k ht' dflt =
       (if key_eqv (ht_test ht) key k then Some val else Fgethash mx ed k ht dflt))"
proof -
  obtain ht' where ht': "Fputhash fpu mx ed key val ht = Some ht'" "ht_wf ht'" "keys_fit mx ed ht'"
    "\<And>k w. ht_assoc ht' k w \<longleftrightarrow> (if key_eqv (ht_test ht) key k then w = val else ht_assoc ht k w)"
    using Fputhash_ok [OF assms] by blast
  have "Fgethash mx ed k ht' dflt =
       (if key_eqv (ht_test ht) key k then Some val else Fgethash mx ed k ht dflt)" for k dflt
    using Fgethash_iff [OF ht'(2,3), of k dflt val] ht'(4) [of k]
      Fgethash_cong [OF assms(1,2) ht'(2,3), of k k dflt] by simp
  with ht' show ?thesis by blast
qed

section \<open>Deletion\<close>

lemma Fremhash_ok:
  assumes wf: "ht_wf ht" and fit: "keys_fit mx ed ht"
  shows "\<exists>r ht'. Fremhash mx ed key ht = Some (r, ht') \<and> ht_wf ht' \<and> ht_test ht' = ht_test ht \<and>
    r = (\<exists>v. ht_assoc ht key v) \<and> ht_count ht' + (if r then 1 else 0) = ht_count ht \<and>
    (\<forall>e. Some e \<in> set (ht_hentries ht') \<longleftrightarrow> Some e \<in> set (ht_hentries ht) \<and> \<not> key_eqv (ht_test ht) (fst e) key)"
proof -
  let ?t = "ht_test ht" and ?es = "ht_hentries ht"
  have b: "builtin ?t" and lp: "lp_wf (key_eqv ?t) (ht_home ht) (ht_size ht) ?es"
    and cnt: "ht_count ht = lp_count ?es" "ht_count ht < ht_size ht" "ht_rehash_count ht \<le> ht_size ht"
    using wf by (auto simp: ht_wf_def)
  have sh: "lp_shape (ht_size ht) ?es" and un: "lp_unique (key_eqv ?t) ?es" using lp by (simp_all add: lp_wf_def)
  obtain q where q: "q < ht_size ht" "find_htentry_1 mx ed key ht = Some q"
    and cell: "case ?es ! q of Some e \<Rightarrow> key_eqv ?t (fst e) key
     | None \<Rightarrow> (\<forall>e. Some e \<in> set ?es \<longrightarrow> \<not> key_eqv ?t (fst e) key) \<and>
         (\<forall>d < dist (ht_size ht) (ht_home ht key) q. ?es ! ((ht_home ht key + d) mod ht_size ht) \<noteq> None)"
    using find_htentry_ok [OF wf fit] by blast
  have len: "q < length ?es" using q(1) sh by (simp add: lp_shape_def)
  show ?thesis
  proof (cases "?es ! q")
    case None
    have none: "\<And>e. Some e \<in> set ?es \<Longrightarrow> \<not> key_eqv ?t (fst e) key"
      using cell unfolding None option.case by blast
    have "Fremhash mx ed key ht = Some (False, ht)" using q(2) None by (simp add: Fremhash_def)
    moreover have "\<not> (\<exists>v. ht_assoc ht key v)" using none by (force simp: ht_assoc_def)
    ultimately show ?thesis using wf none by auto
  next
    case (Some e)
    have ek: "key_eqv ?t (fst e) key" using cell Some by simp
    have e_in: "Some e \<in> set ?es" using nth_mem [OF len] Some by simp
    have home: "ht_home ht k < ht_size ht" for k using q(1) by simp
    obtain es' where es': "reinsert_loop (ht_home ht) (ht_size ht) (?es[q := None]) (q + 1) = Some es'"
        "lp_wf (key_eqv ?t) (ht_home ht) (ht_size ht) es'" "mset es' = mset (?es[q := None])"
      using hash_test_laws.remove_ok [where home = "ht_home ht", OF builtin_laws [OF b] lp home _ q(1) Some] cnt by auto
    let ?ht = "ht\<lparr>ht_hentries := es', ht_count := ht_count ht - 1\<rparr>"
    have rem: "Fremhash mx ed key ht = Some (True, ?ht)"
      using q(2) Some es'(1) by (simp add: Fremhash_def remhash_1_def Let_def)
    have c1: "lp_count es' + 1 = lp_count ?es"
      using lp_count_update [OF len, of None] Some lp_count_mset [OF es'(3)] by simp
    have c2: "ht_count ht - 1 = lp_count es'" "lp_count es' < ht_size ht" using c1 cnt(1,2) by linarith+
    have "ht_wf ?ht" using es'(2) c2 b cnt(3) by (simp add: ht_wf_def)
    moreover have "ht_assoc ht key (snd e)"
      using e_in ek unfolding ht_assoc_def by (intro exI [of _ "fst e"]) simp
    moreover have "Some f \<in> set es' \<longleftrightarrow> Some f \<in> set ?es \<and> \<not> key_eqv ?t (fst f) key" for f
    proof -
      have "Some f \<in> set es' \<longleftrightarrow> Some f \<in> set (?es[q := None])" using es'(3) by (metis set_mset_mset)
      also have "\<dots> \<longleftrightarrow> (\<exists>i < length ?es. i \<noteq> q \<and> ?es ! i = Some f)"
        using len by (auto simp: in_set_conv_nth nth_list_update)
      also have "\<dots> \<longleftrightarrow> Some f \<in> set ?es \<and> \<not> key_eqv ?t (fst f) key"
      proof
        assume "\<exists>i < length ?es. i \<noteq> q \<and> ?es ! i = Some f"
        then obtain i where i: "i < length ?es" "i \<noteq> q" "?es ! i = Some f" by blast
        have "\<not> key_eqv ?t (fst f) key"
        proof
          assume "key_eqv ?t (fst f) key"
          then have "key_eqv ?t (fst f) (fst e)" using ek hash_test_laws.eqv_sym [OF builtin_laws [OF b]]
              hash_test_laws.eqv_trans [OF builtin_laws [OF b]] by blast
          with lp_uniqueD [OF un i(1) len i(3) Some] i(2) show False by simp
        qed
        with i nth_mem [OF i(1)] show "Some f \<in> set ?es \<and> \<not> key_eqv ?t (fst f) key" by simp
      next
        assume a: "Some f \<in> set ?es \<and> \<not> key_eqv ?t (fst f) key"
        then obtain i where i: "i < length ?es" "?es ! i = Some f" by (metis in_set_conv_nth)
        moreover have "i \<noteq> q" using i a Some ek by auto
        ultimately show "\<exists>i < length ?es. i \<noteq> q \<and> ?es ! i = Some f" by blast
      qed
      finally show ?thesis .
    qed
    ultimately show ?thesis using rem c1 cnt by auto
  qed
qed

lemma ht_assoc_removed:
  assumes b: "builtin (ht_test ht)" and t: "ht_test ht' = ht_test ht"
    and mem: "\<And>e. Some e \<in> set (ht_hentries ht') \<longleftrightarrow>
      Some e \<in> set (ht_hentries ht) \<and> \<not> key_eqv (ht_test ht) (fst e) key"
  shows "ht_assoc ht' k v \<longleftrightarrow> ht_assoc ht k v \<and> \<not> key_eqv (ht_test ht) key k"
  unfolding ht_assoc_def t mem fst_conv
  using hash_test_laws.eqv_sym [OF builtin_laws [OF b]] hash_test_laws.eqv_trans [OF builtin_laws [OF b]] by blast

lemma keys_fit_subset:
  "keys_fit mx ed ht \<Longrightarrow> (\<And>e. Some e \<in> set (ht_hentries ht') \<Longrightarrow> Some e \<in> set (ht_hentries ht)) \<Longrightarrow> keys_fit mx ed ht'"
  unfolding keys_fit_def by blast

text \<open>C11: \<open>remhash\<close> deletes exactly the entry of the key: it says whether there was one, and afterwards every
  equal key is absent and every other key has what it had.  The entries behind the removed one that
  were displaced by it are moved back, so that every remaining entry is still found.\<close>

theorem Fremhash_correct:
  assumes "ht_wf ht" "keys_fit mx ed ht"
  shows "\<exists>r ht'. Fremhash mx ed key ht = Some (r, ht') \<and> ht_wf ht' \<and> keys_fit mx ed ht' \<and>
    r = (\<exists>v. ht_assoc ht key v) \<and> ht_count ht' + (if r then 1 else 0) = ht_count ht \<and>
    (\<forall>k dflt. Fgethash mx ed k ht' dflt =
       (if key_eqv (ht_test ht) key k then Some dflt else Fgethash mx ed k ht dflt))"
proof -
  obtain r ht' where ht': "Fremhash mx ed key ht = Some (r, ht')" "ht_wf ht'" "ht_test ht' = ht_test ht"
    "r = (\<exists>v. ht_assoc ht key v)" "ht_count ht' + (if r then 1 else 0) = ht_count ht"
    "\<And>e. Some e \<in> set (ht_hentries ht') \<longleftrightarrow> Some e \<in> set (ht_hentries ht) \<and> \<not> key_eqv (ht_test ht) (fst e) key"
    using Fremhash_ok [OF assms, of key] by blast
  have b: "builtin (ht_test ht)" using assms(1) by (simp add: ht_wf_def)
  have fit': "keys_fit mx ed ht'" by (rule keys_fit_subset [OF assms(2)]) (use ht'(6) in blast)
  note assoc = ht_assoc_removed [OF b ht'(3,6)]
  have "Fgethash mx ed k ht' dflt =
       (if key_eqv (ht_test ht) key k then Some dflt else Fgethash mx ed k ht dflt)" for k dflt
    using Fgethash_iff [OF ht'(2) fit', of k dflt dflt] assoc [of k]
      Fgethash_cong [OF assms(1,2) ht'(2) fit', of k k dflt] by simp
  with ht' fit' show ?thesis by blast
qed

section \<open>Creation, clearing and copying\<close>

lemma hash_table_size_loop_range: "low < high \<Longrightarrow> \<exists>i. 0 < i \<and> i \<le> high \<and> hash_table_size_loop r low high = primes ! i"
proof (induction r low high rule: hash_table_size_loop.induct)
  case (1 r low high)
  let ?mid = "(low + high) div 2"
  show ?case
  proof (cases "high - low > 1")
    case False
    with "1.prems" show ?thesis by (subst hash_table_size_loop.simps) (auto intro!: exI [of _ high])
  next
    case True
    have m: "low < ?mid" "?mid < high" using True by linarith+
    show ?thesis
    proof (cases "primes ! ?mid < r")
      case True': True
      with "1.IH"(1) [OF True refl True' m(2)] True show ?thesis
        by (subst hash_table_size_loop.simps) (simp add: Let_def)
    next
      case False
      with "1.IH"(2) [OF True refl False m(1)] True m(2) show ?thesis
        by (subst hash_table_size_loop.simps) (auto simp: Let_def)
    qed
  qed
qed

lemma hash_table_size_pos [simp]: "0 < hash_table_size r"
proof -
  obtain i where i: "i \<le> 68" "hash_table_size r = primes ! i"
    using hash_table_size_loop_range [of 0 68 r] by (auto simp: hash_table_size_def primes_bounds)
  have "list_all (\<lambda>p. 0 < p) primes" by (simp add: primes_def)
  then have "0 < primes ! i" using i(1) primes_bounds by (simp add: list_all_length)
  with i(2) show ?thesis by simp
qed

lemma empty_table:
  assumes "builtin (ht_test ht)" "ht_hentries ht = replicate (ht_size ht + 1) None" "0 < ht_size ht"
    "ht_count ht = 0" "ht_rehash_count ht \<le> ht_size ht"
  shows "ht_wf ht" "Fgethash mx ed k ht dflt = Some dflt"
proof -
  show wf: "ht_wf ht"
    using assms lp_wf_fresh [OF assms(3)] by (simp add: ht_wf_def del: replicate_Suc)
  have "keys_fit mx ed ht" "\<not> ht_assoc ht k v" for v
    using assms(2) by (simp_all add: keys_fit_def ht_assoc_def del: replicate_Suc)
  then show "Fgethash mx ed k ht dflt = Some dflt"
    using Fgethash_iff [OF wf, of mx ed k dflt dflt] by simp
qed

text \<open>A new table is well-formed and empty, and so is a cleared one: every lookup gives the default.\<close>

theorem empty_hash_tables:
  fixes ht :: "'v hash_table"
  assumes "builtin test" "\<forall>n x. x < 1 \<longrightarrow> fp_mul fpu n x \<le> n" "rehash_threshold < 1" "ht_wf ht"
  shows "(case make_general_lisp_hash_table fpu i weak test sz rs rehash_threshold w of (new, weak') \<Rightarrow>
            ht_wf new \<and> Fgethash mx ed k new dflt = Some dflt) \<and>
         ht_wf (Fclrhash ht) \<and> Fgethash mx ed k (Fclrhash ht) dflt = Some dflt"
proof -
  let ?new = "fst (make_general_lisp_hash_table fpu i weak test sz rs rehash_threshold w) :: 'v hash_table"
  have thr: "HASH_TABLE_DEFAULT_REHASH_THRESHOLD n test < 1" for n
    by (cases "(n, test)" rule: HASH_TABLE_DEFAULT_REHASH_THRESHOLD.cases) auto
  have new: "ht_test ?new = test" "ht_hentries ?new = replicate (ht_size ?new + 1) None" "0 < ht_size ?new"
    "ht_count ?new = 0" "ht_rehash_count ?new = fp_mul fpu (ht_size ?new) (ht_rehash_threshold ?new)"
    "ht_rehash_threshold ?new < 1"
    using assms(3) thr
    by (simp_all add: make_general_lisp_hash_table_def Let_def compute_hash_table_derived_values_def
        allocate_hash_table_entries_def del: replicate_Suc)
  have "ht_rehash_count ?new \<le> ht_size ?new" unfolding new(5) using new(6) assms(2) by blast
  note n = empty_table [OF _ new(2-4) this]
  have sh: "lp_shape (ht_size ht) (ht_hentries ht)" and b: "builtin (ht_test ht)"
    and r: "ht_rehash_count ht \<le> ht_size ht" using assms(4) by (simp_all add: ht_wf_def lp_wf_def)
  have d: "drop (ht_size ht) (ht_hentries ht) = [None]"
    using sh Cons_nth_drop_Suc [of "ht_size ht" "ht_hentries ht"] by (simp add: lp_shape_def)
  have "ht_hentries (Fclrhash ht) = replicate (ht_size (Fclrhash ht) + 1) None"
    by (simp add: Fclrhash_def d replicate_append_same)
  note c = empty_table [OF _ this]
  have "ht_wf (Fclrhash ht) \<and> Fgethash mx ed k (Fclrhash ht) dflt = Some dflt"
    using c b sh r by (simp add: Fclrhash_def lp_shape_def)
  with n assms(1) new(1) show ?thesis by (simp add: case_prod_beta)
qed

text \<open>The copy of a table answers like the table; but a copy of a weak table is not entered in the list of
  weak tables (the table copied is, once more), so the collector, which goes through that list, does not
  know it.\<close>

theorem Fcopy_hash_table_not_registered:
  assumes "ht_wf ht" "obj \<notin> set all_weak" "obj \<noteq> hash_table"
  shows "fst (Fcopy_hash_table obj hash_table all_weak ht) = ht \<and>
    obj \<notin> set (snd (Fcopy_hash_table obj hash_table all_weak ht)) \<and>
    (ht_weakness ht \<noteq> HASH_TABLE_NON_WEAK \<longrightarrow>
       snd (Fcopy_hash_table obj hash_table all_weak ht) = hash_table # all_weak)"
proof -
  have "length (ht_hentries ht) = ht_size ht + 1" using assms(1) by (simp add: ht_wf_def lp_wf_def lp_shape_def)
  then show ?thesis using assms(2,3)
    by (simp add: Fcopy_hash_table_def allocate_hash_table_entries_def mem_copy_def)
qed

section \<open>Mapping\<close>

lemma copy_compress_ok:
  assumes "ht_wf ht"
  shows "\<exists>objs. copy_compress_hentries ht = Some objs \<and>
    (\<forall>e. e \<in> set objs \<longleftrightarrow> Some e \<in> set (ht_hentries ht)) \<and> length objs = ht_count ht"
proof -
  have sh: "lp_shape (ht_size ht) (ht_hentries ht)" and cnt: "ht_count ht = lp_count (ht_hentries ht)"
    using assms by (simp_all add: ht_wf_def lp_wf_def)
  let ?es = "filter (\<lambda>c. c \<noteq> None) (take (ht_size ht) (ht_hentries ht))"
  have "length ?es = ht_count ht" using lp_shape_take(1) [OF sh] cnt by (simp add: lp_count_def)
  moreover have "e \<in> set (map the ?es) \<longleftrightarrow> Some e \<in> set (take (ht_size ht) (ht_hentries ht))" for e
    by (auto simp: image_iff)
  ultimately show ?thesis using lp_shape_take(2) [OF sh] by (simp add: copy_compress_hentries_def)
qed

lemma entries_unique:
  assumes "ht_wf ht" "Some e \<in> set (ht_hentries ht)" "Some f \<in> set (ht_hentries ht)"
    "key_eqv (ht_test ht) (fst e) (fst f)"
  shows "e = f"
proof -
  obtain i j where ij: "i < length (ht_hentries ht)" "ht_hentries ht ! i = Some e"
      "j < length (ht_hentries ht)" "ht_hentries ht ! j = Some f"
    using assms(2,3) by (metis in_set_conv_nth)
  have "lp_unique (key_eqv (ht_test ht)) (ht_hentries ht)" using assms(1) by (simp add: ht_wf_def lp_wf_def)
  from lp_uniqueD [OF this ij(1,3,2,4) assms(4)] ij show ?thesis by simp
qed

lemma map_remhash_loop:
  assumes "\<And>k v. (k, v) \<in> set objs \<Longrightarrow> ed + ed + height k \<le> mx"
  shows "ht_wf ht \<Longrightarrow> keys_fit mx ed ht \<Longrightarrow>
    \<exists>ht'. maphash_loop (\<lambda>k v ht. if predicate k v then map_option snd (Fremhash mx ed k ht) else Some ht) objs ht = Some ht' \<and>
      ht_wf ht' \<and> keys_fit mx ed ht' \<and> ht_test ht' = ht_test ht \<and>
      (\<forall>e. Some e \<in> set (ht_hentries ht') \<longleftrightarrow> Some e \<in> set (ht_hentries ht) \<and>
         \<not> (\<exists>k v. (k, v) \<in> set objs \<and> predicate k v \<and> key_eqv (ht_test ht) (fst e) k))"
proof (induction objs arbitrary: ht)
  case Nil
  then show ?case by simp
next
  case (Cons a objs)
  obtain k v where a: "a = (k, v)" by fastforce
  show ?case
  proof (cases "predicate k v")
    case False
    then have "(\<exists>k' v'. (k', v') \<in> set (a # objs) \<and> predicate k' v' \<and> key_eqv (ht_test ht) x k') \<longleftrightarrow>
        (\<exists>k' v'. (k', v') \<in> set objs \<and> predicate k' v' \<and> key_eqv (ht_test ht) x k')" for x
      using a by auto
    with Cons.IH [OF Cons.prems] a False show ?thesis by simp
  next
    case True
    obtain r ht1 where r: "Fremhash mx ed k ht = Some (r, ht1)" "ht_wf ht1" "ht_test ht1 = ht_test ht"
      "\<And>e. Some e \<in> set (ht_hentries ht1) \<longleftrightarrow> Some e \<in> set (ht_hentries ht) \<and> \<not> key_eqv (ht_test ht) (fst e) k"
      using Fremhash_ok [OF Cons.prems, of k] by blast
    have "keys_fit mx ed ht1" by (rule keys_fit_subset [OF Cons.prems(2)]) (use r(4) in blast)
    note IH = Cons.IH [OF r(2) this]
    have "(\<exists>k' v'. (k', v') \<in> set (a # objs) \<and> predicate k' v' \<and> key_eqv (ht_test ht) x k') \<longleftrightarrow>
        key_eqv (ht_test ht) x k \<or> (\<exists>k' v'. (k', v') \<in> set objs \<and> predicate k' v' \<and> key_eqv (ht_test ht) x k')" for x
      using a True by auto
    with IH True r a show ?thesis by (simp add: conj_ac)
  qed
qed

text \<open>\<open>elisp_map_remhash\<close> removes exactly the entries that satisfy the predicate, although the table is
  rearranged under it by every removal.\<close>

theorem elisp_map_remhash_correct:
  assumes "ht_wf ht" "keys_fit mx ed ht"
  shows "\<exists>ht'. elisp_map_remhash mx ed predicate ht = Some ht' \<and> ht_wf ht' \<and>
    (\<forall>k v. Some (k, v) \<in> set (ht_hentries ht') \<longleftrightarrow> Some (k, v) \<in> set (ht_hentries ht) \<and> \<not> predicate k v)"
proof -
  obtain objs where objs: "copy_compress_hentries ht = Some objs"
    "\<And>e. e \<in> set objs \<longleftrightarrow> Some e \<in> set (ht_hentries ht)"
    using copy_compress_ok [OF assms(1)] by blast
  have fit: "(k, v) \<in> set objs \<Longrightarrow> ed + ed + height k \<le> mx" for k v
    using assms(2) unfolding objs(2) keys_fit_def by fastforce
  obtain ht' where ht': "maphash_loop (\<lambda>k v ht. if predicate k v then map_option snd (Fremhash mx ed k ht) else Some ht) objs ht = Some ht'"
    "ht_wf ht'" "\<And>e. Some e \<in> set (ht_hentries ht') \<longleftrightarrow> Some e \<in> set (ht_hentries ht) \<and>
         \<not> (\<exists>k v. (k, v) \<in> set objs \<and> predicate k v \<and> key_eqv (ht_test ht) (fst e) k)"
    using map_remhash_loop [of objs ed mx ht predicate] fit assms by blast
  have "Some (k, v) \<in> set (ht_hentries ht') \<longleftrightarrow> Some (k, v) \<in> set (ht_hentries ht) \<and> \<not> predicate k v" for k v
  proof
    assume "Some (k, v) \<in> set (ht_hentries ht')"
    then show "Some (k, v) \<in> set (ht_hentries ht) \<and> \<not> predicate k v"
      unfolding ht'(3) objs(2) fst_conv using key_eqv_refl by blast
  next
    assume a: "Some (k, v) \<in> set (ht_hentries ht) \<and> \<not> predicate k v"
    have "\<not> (Some (k', v') \<in> set (ht_hentries ht) \<and> predicate k' v' \<and> key_eqv (ht_test ht) k k')" for k' v'
      using entries_unique [OF assms(1), of "(k, v)" "(k', v')"] a by auto
    with a show "Some (k, v) \<in> set (ht_hentries ht')"
      unfolding ht'(3) objs(2) fst_conv by blast
  qed
  with objs(1) ht'(1,2) show ?thesis by (auto simp: elisp_map_remhash_def)
qed

section \<open>A table that does not grow\<close>

lemma lp_count_full_cells:
  assumes sh: "lp_shape sz es" and cnt: "lp_count es = sz" and i: "i < sz"
  shows "es ! i \<noteq> None"
proof
  assume none: "es ! i = None"
  have len: "i < length es" using sh i by (simp add: lp_shape_def)
  let ?es = "es[i := Some undefined]"
  have "lp_shape sz ?es" using sh i by simp
  then have "lp_count ?es = lp_count (take sz ?es)" using lp_shape_take(1) by metis
  also have "\<dots> \<le> length (take sz ?es)" unfolding lp_count_def by (rule length_filter_le)
  finally have "lp_count ?es \<le> sz" by simp
  then show False using lp_count_update [OF len, of "Some undefined"] none cnt by simp
qed

text \<open>C33: when the rehash size is so close to 1 that enlarging gives the same prime, the table fills up: the put
  that takes its last slot succeeds, and from then on looking up any absent key, with \<open>gethash\<close>,
  \<open>puthash\<close> or \<open>remhash\<close>, never ends (the loop is left at a clear entry only, and there is none before
  the sentinel).\<close>

theorem puthash_without_growth_hangs:
  assumes wf: "ht_wf ht" and fit: "keys_fit mx ed ht" and key: "ed + ed + height key \<le> mx"
    and absent: "\<nexists>v. ht_assoc ht key v" and last: "ht_count ht + 1 = ht_size ht"
    and same: "hash_table_size (fp_mul fpu (ht_size ht) (ht_rehash_size ht)) = ht_size ht"
    and thr: "fp_mul fpu (ht_size ht) (ht_rehash_threshold ht) \<le> ht_size ht"
  shows "\<exists>ht'. Fputhash fpu mx ed key val ht = Some ht' \<and>
    (\<forall>k dflt w. (\<nexists>v. ht_assoc ht' k v) \<longrightarrow>
       Fgethash mx ed k ht' dflt = None \<and> Fputhash fpu mx ed k w ht' = None \<and> Fremhash mx ed k ht' = None)"
proof -
  let ?t = "ht_test ht" and ?es = "ht_hentries ht"
  have b: "builtin ?t" and lp: "lp_wf (key_eqv ?t) (ht_home ht) (ht_size ht) ?es"
    and cnt: "ht_count ht = lp_count ?es" "ht_count ht < ht_size ht" "ht_rehash_count ht \<le> ht_size ht"
    using wf by (auto simp: ht_wf_def)
  obtain q where q: "q < ht_size ht" "find_htentry_1 mx ed key ht = Some q"
    and cell: "case ?es ! q of Some e \<Rightarrow> key_eqv ?t (fst e) key
     | None \<Rightarrow> (\<forall>e. Some e \<in> set ?es \<longrightarrow> \<not> key_eqv ?t (fst e) key) \<and>
         (\<forall>d < dist (ht_size ht) (ht_home ht key) q. ?es ! ((ht_home ht key + d) mod ht_size ht) \<noteq> None)"
    using find_htentry_ok [OF wf fit] by blast
  have len: "q < length ?es" using q(1) lp by (simp add: lp_wf_def lp_shape_def)
  have None: "?es ! q = None"
  proof (rule ccontr)
    assume "?es ! q \<noteq> None"
    then obtain e where e: "?es ! q = Some e" by blast
    have "Some (fst e, snd e) \<in> set ?es" using nth_mem [OF len] e by simp
    with absent cell e show False unfolding ht_assoc_def by auto
  qed
  let ?ht = "ht\<lparr>ht_hentries := ?es[q := Some (key, val)], ht_count := ht_count ht + 1\<rparr>"
  have fresh: "\<forall>e. Some e \<in> set ?es \<longrightarrow> \<not> key_eqv ?t (fst e) key"
    and path: "\<forall>d < dist (ht_size ht) (ht_home ht key) q. ?es ! ((ht_home ht key + d) mod ht_size ht) \<noteq> None"
    using cell None by simp_all
  have lp': "lp_wf (key_eqv ?t) (ht_home ht) (ht_size ht) (?es[q := Some (key, val)])"
    using hash_test_laws.insert_wf [OF builtin_laws [OF b] lp q(1) None, of "(key, val)"] fresh path by simp
  have cnt': "lp_count (?es[q := Some (key, val)]) = Suc (lp_count ?es)"
    using lp_count_update [OF len, of "Some (key, val)"] None by simp
  have put: "Fputhash fpu mx ed key val ht = enlarge_hash_table fpu ?ht"
    using q(2) None last cnt(3) by (simp add: Fputhash_def Let_def)
  have "\<exists>ht'. resize_hash_table fpu ?ht (ht_size ht) = Some ht' \<and> ht_test ht' = ht_test ?ht \<and>
    lp_wf (key_eqv (ht_test ?ht)) (ht_home ht') (ht_size ht) (ht_hentries ht') \<and>
    lp_count (ht_hentries ht') = ht_count ?ht \<and> (ht_count ?ht < ht_size ht \<longrightarrow> ht_wf ht') \<and>
    ht_size ht' = ht_size ht \<and> ht_rehash_size ht' = ht_rehash_size ?ht \<and> ht_rehash_threshold ht' = ht_rehash_threshold ?ht \<and>
    (\<forall>e. Some e \<in> set (ht_hentries ht') \<longleftrightarrow> Some e \<in> set (ht_hentries ?ht))"
    using lp' cnt' b cnt last thr by (intro resize_ok) (simp_all add: lp_wf_def)
  then obtain ht' where r: "resize_hash_table fpu ?ht (ht_size ht) = Some ht'" "ht_test ht' = ?t"
    "lp_shape (ht_size ht) (ht_hentries ht')" "lp_count (ht_hentries ht') = ht_size ht" "ht_size ht' = ht_size ht"
    "\<And>e. Some e \<in> set (ht_hentries ht') \<longleftrightarrow> Some e \<in> set (?es[q := Some (key, val)])"
    using last by (auto simp: lp_wf_def)
  have "keys_fit mx ed ht'"
    unfolding keys_fit_def r(6) using fit key mem_update_clear [OF len None, of _ "(key, val)"]
    by (auto simp: keys_fit_def)
  have hang: "find_htentry_1 mx ed k ht' = None" if none: "\<nexists>v. ht_assoc ht' k v" for k
  proof -
    let ?c = "choose_hash_table_test_for_lookup ht' k"
    have b': "builtin (ht_test ht')" using b r(2) by simp
    have stop: "\<exists>e. ht_hentries ht' ! i = Some e \<and> probe_stop mx ed ?c k (fst e) = Some False" if i: "i < ht_size ht" for i
    proof -
      obtain e where e: "ht_hentries ht' ! i = Some e"
        using lp_count_full_cells [OF r(3,4) i] by blast
      have mem: "Some e \<in> set (ht_hentries ht')" using e i r(3) lp_shape_mem by metis
      then have "ed + ed + height (fst e) \<le> mx" using \<open>keys_fit mx ed ht'\<close> unfolding keys_fit_def by blast
      moreover have "\<not> key_eqv (ht_test ht') (fst e) k"
        using none mem unfolding ht_assoc_def by (metis prod.collapse)
      ultimately show ?thesis using chosen_stop [OF b', of ed "fst e" mx k] e by simp
    qed
    have "HASHCODE (hash_function ?c) (ht_golden_ratio ht') (ht_size ht) k \<le> ht_size ht"
      using HASHCODE_less [of "ht_size ht"] q(1) by (meson less_imp_le le_less_trans zero_le)
    from linear_probing_loop_full [OF r(3) stop this] show ?thesis
      by (simp add: find_htentry_1_def Let_def r(5))
  qed
  have "Fputhash fpu mx ed key val ht = Some ht'" using put r(1) same by (simp add: enlarge_hash_table_def)
  with hang show ?thesis by (auto simp: Fgethash_def Fputhash_def Fremhash_def)
qed

section \<open>Witnesses\<close>

text \<open>An \<open>eq\<close> table of 29 slots with the fixnum words 0 to \<open>n - 1\<close> as keys, each in its home slot.\<close>

definition example_fpu :: fpu where
  "example_fpu = \<lparr>fp_mul = (\<lambda>n x. nat \<lfloor>of_nat n * x\<rfloor>), fp_slots = (\<lambda>n x. nat \<lfloor>of_nat n / x + 1\<rfloor>)\<rparr>"

definition example_ht :: "rat \<Rightarrow> nat \<Rightarrow> nat hash_table" where
  "example_ht rs n = \<lparr>ht_size = 29, ht_count = n, ht_rehash_count = 17, ht_rehash_size = rs,
     ht_rehash_threshold = 6 / 10, ht_golden_ratio = 1,
     ht_hentries = map (\<lambda>i. Some (Immediate (of_nat i), i)) [0..<n] @ replicate (30 - n) None,
     ht_test = Veq_hash_table_test, ht_weakness = HASH_TABLE_NON_WEAK\<rparr>"

lemma example_home: "i < 29 \<Longrightarrow> HASHCODE LISP_HASH 1 29 (Immediate (of_nat i)) = i"
  by (simp add: HASHCODE_def unat_of_nat)

lemma example_ht_wf:
  assumes n: "n < 29"
  shows "ht_wf (example_ht rs n)"
proof -
  let ?es = "ht_hentries (example_ht rs n)"
  have nth: "?es ! i = (if i < n then Some (Immediate (of_nat i), i) else None)" if "i < 30" for i
    using that n by (auto simp: example_ht_def nth_append)
  have len: "length ?es = 30" using n by (simp add: example_ht_def)
  have "lp_reach (HASHCODE LISP_HASH 1 29) 29 ?es"
    unfolding lp_reach_def
  proof (intro allI impI)
    fix i e d assume a: "i < 29" "?es ! i = Some e" "d < dist 29 (HASHCODE LISP_HASH 1 29 (fst e)) i"
    then have e: "e = (Immediate (of_nat i), i)" using nth [of i] by (simp split: if_splits)
    have "HASHCODE LISP_HASH 1 29 (fst e) = i" using example_home [OF a(1)] e by simp
    with a(1,3) show "?es ! ((HASHCODE LISP_HASH 1 29 (fst e) + d) mod 29) \<noteq> None" by (simp add: dist_def)
  qed
  moreover have "lp_unique (=) ?es"
    unfolding lp_unique_def
  proof (intro allI impI)
    fix i j e f assume a: "i < length ?es" "j < length ?es" "?es ! i = Some e" "?es ! j = Some f" "fst e = fst f"
    have "i < n" "j < n" "e = (Immediate (of_nat i), i)" "f = (Immediate (of_nat j), j)"
      using nth [of i] nth [of j] a(1-4) len by (simp_all split: if_splits)
    with a(5) n have "of_nat i = (of_nat j :: 64 word)" "i < 29" "j < 29" by simp_all
    then have "unat (of_nat i :: 64 word) = unat (of_nat j :: 64 word)" by simp
    with \<open>i < 29\<close> \<open>j < 29\<close> show "i = j" by (simp add: unat_of_nat)
  qed
  moreover have "lp_shape 29 ?es" using nth [of 29] n len by (simp add: lp_shape_def)
  moreover have "lp_count ?es = n"
  proof -
    have "lp_count (map (\<lambda>i. Some (Immediate (of_nat i), i)) [0..<n]) = n"
      using lp_count_full [of "map (\<lambda>i. Some (Immediate (of_nat i), i)) [0..<n]"] by auto
    then show ?thesis by (simp add: example_ht_def)
  qed
  ultimately show ?thesis using n by (simp add: ht_wf_def lp_wf_def example_ht_def builtin_def)
qed

lemma example_ht_fits: "keys_fit 10 0 (example_ht rs n)"
  by (auto simp: keys_fit_def example_ht_def)

lemma example_ht_absent: "n < 29 \<Longrightarrow> \<not> ht_assoc (example_ht rs n) (Immediate 1000) v"
proof
  assume n: "n < 29" and "ht_assoc (example_ht rs n) (Immediate 1000) v"
  then obtain i where i: "i < n" "of_nat i = (1000 :: 64 word)" by (auto simp: ht_assoc_def example_ht_def)
  then have "unat (of_nat i :: 64 word) = 1000" by simp
  with i(1) n show False by (simp add: unat_of_nat)
qed

lemma example_threshold: "fp_mul example_fpu m (6 / 10) \<le> m"
proof -
  have "\<lfloor>of_nat m * (6 / 10 :: rat)\<rfloor> \<le> \<lfloor>of_nat m :: rat\<rfloor>" by (intro floor_mono) simp
  then show ?thesis by (simp add: example_fpu_def)
qed

lemma example_floors: "\<lfloor>2929 / 100 :: rat\<rfloor> = 29" "\<lfloor>377 / 10 :: rat\<rfloor> = 37"
  by (rule floor_unique; simp)+

lemma example_growth: "rehash_ok example_fpu (example_ht (13 / 10) n)"
  using example_threshold by (simp add: rehash_ok_def example_ht_def) (simp add: example_fpu_def example_floors)

theorem hash_table_size_least_witness: "27 \<le> hash_table_size 27"
  using hash_table_size_least [of 27] by auto

theorem Fputhash_correct_witness:
  "\<exists>ht'. Fputhash example_fpu 10 0 (Immediate 1000) 5 (example_ht (13 / 10) 20) = Some ht' \<and>
     Fgethash 10 0 (Immediate 1000) ht' 0 = Some 5"
  using Fputhash_correct [OF example_ht_wf example_ht_fits _ example_growth, of 20 "Immediate 1000" 5] by auto

theorem Fremhash_correct_witness:
  "\<exists>ht'. Fremhash 10 0 (Immediate 3) (example_ht 2 20) = Some (True, ht') \<and> Fgethash 10 0 (Immediate 3) ht' 77 = Some 77"
proof -
  have "Some (Immediate 3, 3) \<in> set (ht_hentries (example_ht 2 20))"
    by (auto simp: example_ht_def image_iff intro!: bexI [of _ 3])
  then have "ht_assoc (example_ht 2 20) (Immediate 3) 3" by (auto simp: ht_assoc_def)
  with Fremhash_correct [OF example_ht_wf [of 20 2] example_ht_fits, of "Immediate 3"] show ?thesis by auto
qed

theorem empty_hash_tables_witness:
  "Fgethash 10 0 (Immediate 3) (Fclrhash (example_ht 2 20)) 77 = Some 77"
proof -
  have "\<forall>n x. x < 1 \<longrightarrow> fp_mul example_fpu n x \<le> n"
  proof (intro allI impI)
    fix n and x :: rat assume "x < 1"
    then have "\<lfloor>of_nat n * x\<rfloor> \<le> \<lfloor>of_nat n :: rat\<rfloor>" by (intro floor_mono) (simp add: mult_left_le)
    then show "fp_mul example_fpu n x \<le> n" by (simp add: example_fpu_def)
  qed
  from empty_hash_tables [OF _ this _ example_ht_wf [of 20 2], of Veq_hash_table_test 0 10 0 "Immediate 3" 77]
  show ?thesis by (simp add: builtin_def)
qed

theorem Fcopy_hash_table_not_registered_witness:
  "7 \<notin> set (snd (Fcopy_hash_table 7 3 [3] ((example_ht 2 20)\<lparr>ht_weakness := HASH_TABLE_WEAK\<rparr>)))"
proof -
  have "ht_wf ((example_ht 2 20)\<lparr>ht_weakness := HASH_TABLE_WEAK\<rparr>)"
    using example_ht_wf [of 20 2] by (simp add: ht_wf_def)
  from Fcopy_hash_table_not_registered [OF this, of 7 "[3]" 3] show ?thesis by simp
qed

theorem elisp_map_remhash_correct_witness:
  "\<exists>ht'. elisp_map_remhash 10 0 (\<lambda>k v. v < 5) (example_ht 2 20) = Some ht' \<and>
     Some (Immediate 3, 3) \<notin> set (ht_hentries ht')"
  using elisp_map_remhash_correct [OF example_ht_wf [of 20 2] example_ht_fits, of "\<lambda>k v. v < 5"] by fastforce

theorem puthash_without_growth_hangs_witness:
  "\<exists>ht'. Fputhash example_fpu 10 0 (Immediate 1000) 5 (example_ht (101 / 100) 28) = Some ht'"
proof -
  have "fp_mul example_fpu 29 (101 / 100) = 29" by (simp add: example_fpu_def example_floors)
  moreover have "hash_table_size 29 = 29"
    by (simp add: hash_table_size_def primes_def hash_table_size_loop.simps)
  ultimately show ?thesis
    using puthash_without_growth_hangs [OF example_ht_wf [of 28 "101 / 100"] example_ht_fits, of "Immediate 1000" example_fpu 5]
      example_ht_absent [of 28] example_threshold [of 29]
    by (auto simp: example_ht_def)
qed

end
