(* ===== verification/Cons_Heap.thy ===== *)
theory Cons_Heap
  imports Prelude "HOL-Library.Multiset"
begin

text \<open>
  Lists as the Lisp engine has them: conses in memory, whose cdrs destructive operations change
  (\<open>src/alloc.c\<close>, \<open>src/data.c\<close>, \<open>src/fns.c\<close>), the list iteration macros of \<open>src/lisp.h\<close> with their
  detection of circular lists, and \<open>nreverse\<close> and \<open>reverse\<close> of \<open>src/sequence.c\<close> on lists.
  An object that is neither \<open>nil\<close> nor a cons is an \<open>Atom\<close>; memory is a map from addresses, with the
  first address never allocated.  Garbage collection is not modelled.
\<close>

section \<open>Conses in memory\<close>

datatype 'a obj = Qnil | Cell nat | Atom 'a

record 'a heap =
  cells :: "nat \<Rightarrow> ('a obj \<times> 'a obj) option"
  brk :: nat

datatype 'a list_error =
    Wrong_Type_Argument "'a obj"
  | Circular_List "'a obj"
  | Malformed_List "'a obj"
  | Mapping_Interaction "'a obj"
  | Invalid_Access

text \<open>A computation that may signal, followed by one that may signal or not return.\<close>

definition ebind :: "'e + 'b \<Rightarrow> ('b \<Rightarrow> ('e + 'c) option) \<Rightarrow> ('e + 'c) option" where
  "ebind r f = (case r of Inl e \<Rightarrow> Some (Inl e) | Inr x \<Rightarrow> f x)"

lemma ebind_simps [simp]: "ebind (Inl e) f = Some (Inl e)" "ebind (Inr x) f = f x"
  by (simp_all add: ebind_def)

lemma ebind_mono [partial_function_mono]:
  assumes "\<And>x. mono_option (\<lambda>f. C f x)"
  shows "mono_option (\<lambda>f. ebind r (\<lambda>x. C f x))"
  using assms by (cases r) (simp_all add: option.const_mono)

definition rbind :: "('e + 'b) option \<Rightarrow> ('b \<Rightarrow> ('e + 'c) option) \<Rightarrow> ('e + 'c) option" where
  "rbind m f = Option.bind m (\<lambda>r. ebind r f)"

lemma rbind_simps [simp]: "rbind None f = None" "rbind (Some r) f = ebind r f"
  by (simp_all add: rbind_def)

lemma rbind_mono [partial_function_mono]:
  assumes "mono_option B" "\<And>x. mono_option (\<lambda>f. C f x)"
  shows "mono_option (\<lambda>f. rbind (B f) (\<lambda>x. C f x))"
  unfolding rbind_def by (intro bind_mono ebind_mono assms)

fun consp :: "'a obj \<Rightarrow> bool" where
  "consp (Cell a) = True"
| "consp _ = False"

text \<open>\<open>XCAR\<close> and \<open>XCDR\<close> of something that is no cons read memory that is not the program's.\<close>

fun heap_XCAR :: "'a heap \<Rightarrow> 'a obj \<Rightarrow> 'a list_error + 'a obj" where
  "heap_XCAR h (Cell a) = (case cells h a of Some (x, d) \<Rightarrow> Inr x | None \<Rightarrow> Inl Invalid_Access)"
| "heap_XCAR h _ = Inl Invalid_Access"

fun heap_XCDR :: "'a heap \<Rightarrow> 'a obj \<Rightarrow> 'a list_error + 'a obj" where
  "heap_XCDR h (Cell a) = (case cells h a of Some (x, d) \<Rightarrow> Inr d | None \<Rightarrow> Inl Invalid_Access)"
| "heap_XCDR h _ = Inl Invalid_Access"

fun Fcar :: "'a heap \<Rightarrow> 'a obj \<Rightarrow> 'a list_error + 'a obj" where
  "Fcar h (Cell a) = heap_XCAR h (Cell a)"
| "Fcar h Qnil = Inr Qnil"
| "Fcar h (Atom x) = Inl (Wrong_Type_Argument (Atom x))"

fun Fcdr :: "'a heap \<Rightarrow> 'a obj \<Rightarrow> 'a list_error + 'a obj" where
  "Fcdr h (Cell a) = heap_XCDR h (Cell a)"
| "Fcdr h Qnil = Inr Qnil"
| "Fcdr h (Atom x) = Inl (Wrong_Type_Argument (Atom x))"

fun Fsetcdr :: "'a heap \<Rightarrow> 'a obj \<Rightarrow> 'a obj \<Rightarrow> 'a list_error + 'a heap" where
  "Fsetcdr h (Cell a) newcdr =
     (case cells h a of
        Some (x, d) \<Rightarrow> Inr (h\<lparr>cells := (cells h)(a \<mapsto> (x, newcdr))\<rparr>)
      | None \<Rightarrow> Inl Invalid_Access)"
| "Fsetcdr h c newcdr = Inl (Wrong_Type_Argument c)"

definition Fcons :: "'a heap \<Rightarrow> 'a obj \<Rightarrow> 'a obj \<Rightarrow> 'a obj \<times> 'a heap" where
  "Fcons h car cdr = (Cell (brk h), h\<lparr>cells := (cells h)(brk h \<mapsto> (car, cdr)), brk := brk h + 1\<rparr>)"

text \<open>\<open>Flist\<close> conses its arguments from the last to the first.\<close>

fun Flist_loop :: "'a heap \<Rightarrow> 'a obj list \<Rightarrow> 'a obj \<Rightarrow> 'a obj \<times> 'a heap" where
  "Flist_loop h [] val = (val, h)"
| "Flist_loop h (x # revargs) val = (let (v, h) = Fcons h x val in Flist_loop h revargs v)"

definition Flist :: "'a heap \<Rightarrow> 'a obj list \<Rightarrow> 'a obj \<times> 'a heap" where
  "Flist h args = Flist_loop h (rev args) Qnil"

fun Fnthcdr :: "'a heap \<Rightarrow> nat \<Rightarrow> 'a obj \<Rightarrow> 'a list_error + 'a obj" where
  "Fnthcdr h 0 tail = Inr tail"
| "Fnthcdr h (Suc i) (Cell a) = (case heap_XCDR h (Cell a) of Inl e \<Rightarrow> Inl e | Inr d \<Rightarrow> Fnthcdr h i d)"
| "Fnthcdr h (Suc i) Qnil = Inr Qnil"
| "Fnthcdr h (Suc i) (Atom x) = Inl (Wrong_Type_Argument (Atom x))"

section \<open>Iterating over a list that may be circular\<close>

definition CIRCULAR_LIST_SUSPICION_LENGTH :: nat where "CIRCULAR_LIST_SUSPICION_LENGTH = 1024"

text \<open>
  \<open>PRIVATE_UNVERIFIED_LIST_LOOP_7\<close> with \<open>signalp\<close> set, collecting the elements it visits: after the
  suspicion length the tortoise takes one step for every two of the hare, and the hare meeting it is
  a circular list.
\<close>

partial_function (option) external_list_loop ::
  "'a heap \<Rightarrow> 'a obj \<Rightarrow> nat \<Rightarrow> 'a obj \<Rightarrow> 'a obj \<Rightarrow> nat \<Rightarrow> 'a obj list \<Rightarrow> ('a list_error + 'a obj list \<times> nat) option"
where
  "external_list_loop h list suspicion_length hare tortoise len acc =
     (if consp hare then
        ebind (heap_XCAR h hare) (\<lambda>elt.
        ebind (heap_XCDR h hare) (\<lambda>hare.
        if len + 1 > suspicion_length then
          ebind (if odd (len + 1) then heap_XCDR h tortoise else Inr tortoise) (\<lambda>tortoise.
          if hare = tortoise then Some (Inl (Circular_List list))
          else external_list_loop h list suspicion_length hare tortoise (len + 1) (acc @ [elt]))
        else external_list_loop h list suspicion_length hare tortoise (len + 1) (acc @ [elt])))
      else if hare = Qnil then Some (Inr (acc, len))
      else Some (Inl (Malformed_List list)))"

declare external_list_loop.simps [code]

definition external_list :: "'a heap \<Rightarrow> 'a obj \<Rightarrow> ('a list_error + 'a obj list \<times> nat) option" where
  "external_list h list = external_list_loop h list CIRCULAR_LIST_SUSPICION_LENGTH list list 0 []"

text \<open>\<open>Flength\<close> on lists.\<close>

definition Flength :: "'a heap \<Rightarrow> 'a obj \<Rightarrow> ('a list_error + nat) option" where
  "Flength h list =
     (if list = Qnil then Some (Inr 0)
      else if consp list then
        rbind (external_list h list) (\<lambda>(elts, len). Some (Inr len))
      else Some (Inl (Wrong_Type_Argument list)))"

section \<open>\<open>nreverse\<close> and \<open>reverse\<close>\<close>

text \<open>\<open>nreverse\<close> on a list: \<open>CONCHECK_CONS\<close> on what is neither \<open>nil\<close> nor a cons signals.\<close>

partial_function (option) nreverse_loop ::
  "'a heap \<Rightarrow> 'a obj \<Rightarrow> 'a obj \<Rightarrow> ('a list_error + 'a obj \<times> 'a heap) option"
where
  "nreverse_loop h prev tail =
     (if tail = Qnil then Some (Inr (prev, h))
      else if \<not> consp tail then Some (Inl (Wrong_Type_Argument tail))
      else ebind (heap_XCDR h tail) (\<lambda>next.
           ebind (Fsetcdr h tail prev) (\<lambda>h.
           nreverse_loop h tail next)))"

declare nreverse_loop.simps [code]

definition nreverse_list :: "'a heap \<Rightarrow> 'a obj \<Rightarrow> ('a list_error + 'a obj \<times> 'a heap) option" where
  "nreverse_list h list = (if consp list then nreverse_loop h Qnil list else Some (Inr (list, h)))"

fun reverse_loop :: "'a heap \<Rightarrow> 'a obj list \<Rightarrow> 'a obj \<Rightarrow> 'a obj \<times> 'a heap" where
  "reverse_loop h [] result = (result, h)"
| "reverse_loop h (elt # elts) result = (let (result, h) = Fcons h elt result in reverse_loop h elts result)"

definition reverse_list :: "'a heap \<Rightarrow> 'a obj \<Rightarrow> ('a list_error + 'a obj \<times> 'a heap) option" where
  "reverse_list h list =
     rbind (external_list h list) (\<lambda>(elts, len). Some (Inr (reverse_loop h elts Qnil)))"


section \<open>Chains of conses\<close>

fun path :: "'a heap \<Rightarrow> 'a obj \<Rightarrow> nat list \<Rightarrow> 'a obj \<Rightarrow> bool" where
  "path h p [] q \<longleftrightarrow> p = q"
| "path h p (a # as) q \<longleftrightarrow> p = Cell a \<and> (\<exists>x d. cells h a = Some (x, d) \<and> path h d as q)"

definition car_at :: "'a heap \<Rightarrow> nat \<Rightarrow> 'a obj" where "car_at h a = fst (the (cells h a))"

definition heap_wf :: "'a heap \<Rightarrow> bool" where
  "heap_wf h \<longleftrightarrow> (\<forall>a x d. cells h a = Some (x, d) \<longrightarrow>
     a < brk h \<and> (\<forall>b. d = Cell b \<longrightarrow> b \<in> dom (cells h)))"

definition valid_obj :: "'a heap \<Rightarrow> 'a obj \<Rightarrow> bool" where
  "valid_obj h p \<longleftrightarrow> (\<forall>a. p = Cell a \<longrightarrow> a \<in> dom (cells h))"

lemma path_append: "path h p (as @ bs) q \<longleftrightarrow> (\<exists>m. path h p as m \<and> path h m bs q)"
  by (induction as arbitrary: p) auto

lemma path_dom: "path h p as q \<Longrightarrow> set as \<subseteq> dom (cells h)"
  by (induction as arbitrary: p) auto

lemma path_functional:
  "path h p as q \<Longrightarrow> path h p bs r \<Longrightarrow> \<not> consp q \<Longrightarrow> \<not> consp r \<Longrightarrow> as = bs \<and> q = r"
proof (induction as arbitrary: p bs)
  case Nil
  then show ?case by (cases bs) auto
next
  case (Cons a as)
  then show ?case by (cases bs) auto
qed

lemma path_cong:
  assumes "path h p as q" "\<And>a. a \<in> set as \<Longrightarrow> cells h' a = cells h a"
  shows "path h' p as q"
  using assms
proof (induction as arbitrary: p)
  case (Cons a as)
  then obtain x d where "p = Cell a" "cells h a = Some (x, d)" "path h d as q" by auto
  moreover have "path h' d as q" by (rule Cons.IH) (use \<open>path h d as q\<close> Cons.prems in auto)
  ultimately show ?case using Cons.prems by auto
qed simp

text \<open>The object reached after \<open>k\<close> cdrs.\<close>

fun walk :: "'a heap \<Rightarrow> 'a obj \<Rightarrow> nat \<Rightarrow> 'a obj" where
  "walk h p 0 = p"
| "walk h p (Suc k) = (case walk h p k of
     Cell a \<Rightarrow> (case cells h a of Some (x, d) \<Rightarrow> d | None \<Rightarrow> Qnil)
   | q \<Rightarrow> q)"

lemma walk_Suc_shift:
  "cells h a = Some (x, d) \<Longrightarrow> walk h (Cell a) (Suc k) = walk h d k"
proof (induction k)
  case (Suc k)
  then have "walk h (Cell a) (Suc k) = walk h d k" by blast
  then show ?case by (simp only: walk.simps)
qed simp

lemma walk_path: "path h p as q \<Longrightarrow> walk h p (length as) = q"
  by (induction as arbitrary: p) (auto simp: walk_Suc_shift simp del: walk.simps(2))

lemma walk_cell:
  "path h p as q \<Longrightarrow> k < length as \<Longrightarrow> walk h p k = Cell (as ! k)"
proof (induction as arbitrary: p k)
  case (Cons a as)
  then show ?case by (cases k) (auto simp: walk_Suc_shift simp del: walk.simps(2))
qed simp

lemma valid_walk: "heap_wf h \<Longrightarrow> valid_obj h p \<Longrightarrow> valid_obj h (walk h p k)"
proof (induction k)
  case (Suc k)
  then have v: "valid_obj h (walk h p k)" by blast
  show ?case
  proof (cases "walk h p k")
    case (Cell a)
    then obtain x d where c: "cells h a = Some (x, d)" using v by (auto simp: valid_obj_def)
    moreover have "valid_obj h d" using Suc.prems(1) c by (auto simp: heap_wf_def valid_obj_def)
    ultimately show ?thesis using Cell by simp
  qed (use v in simp_all)
qed simp

lemma finite_heap: "heap_wf h \<Longrightarrow> finite (dom (cells h))"
  by (rule finite_subset [of _ "{..<brk h}"]) (auto simp: heap_wf_def)

lemma walk_step:
  assumes "heap_wf h" "valid_obj h p" "walk h p k = Cell a"
  obtains x where "cells h a = Some (x, walk h p (Suc k))"
proof -
  have "a \<in> dom (cells h)" using valid_walk [OF assms(1,2), of k] assms(3) by (simp add: valid_obj_def)
  then obtain x d where c: "cells h a = Some (x, d)" by auto
  with assms(3) have "walk h p (Suc k) = d" by simp
  with c that show ?thesis by blast
qed

text \<open>A chain that is left after \<open>n\<close> conses is a path through \<open>n\<close> distinct conses.\<close>

lemma path_of_walk:
  assumes "heap_wf h" "valid_obj h p" "\<And>k. k < n \<Longrightarrow> consp (walk h p k)"
  obtains as where "path h p as (walk h p n)" "length as = n"
  using assms(3)
proof (induction n arbitrary: thesis)
  case 0
  show ?case by (rule 0(1) [of "[]"]) simp_all
next
  case (Suc n)
  obtain as where as: "path h p as (walk h p n)" "length as = n" using Suc.IH Suc.prems(2) by auto
  from Suc.prems(2) [of n] obtain a where a: "walk h p n = Cell a" by (cases "walk h p n") auto
  obtain x where "cells h a = Some (x, walk h p (Suc n))" using walk_step [OF assms(1,2) a] by blast
  then have "path h (Cell a) [a] (walk h p (Suc n))" by simp
  with as a have "path h p (as @ [a]) (walk h p (Suc n))" using path_append [of h p as "[a]"] by metis
  with as(2) show ?case using Suc.prems(1) [of "as @ [a]"] by simp
qed

lemma walk_period: "walk h p i = walk h p j \<Longrightarrow> walk h p (i + k) = walk h p (j + k)"
  by (induction k) simp_all

lemma path_distinct:
  assumes p: "path h p as q" and q: "\<not> consp q"
  shows "distinct as"
proof (rule ccontr)
  assume "\<not> distinct as"
  then obtain i j where ij: "i < j" "j < length as" "as ! i = as ! j"
    by (metis distinct_conv_nth nat_neq_iff)
  define d where "d = length as - j"
  have "walk h p i = walk h p j" using ij p by (simp add: walk_cell)
  then have "walk h p (i + d) = walk h p (j + d)" by (rule walk_period)
  also have "\<dots> = q" using walk_path [OF p] ij(2) by (simp add: d_def)
  finally have "walk h p (i + d) = q" .
  moreover have "i + d < length as" using ij by (simp add: d_def)
  ultimately show False using walk_cell [OF p] q by auto
qed


section \<open>The iteration macros decide the three kinds of lists\<close>

definition tortoise_pos :: "nat \<Rightarrow> nat" where "tortoise_pos n = (n - 1023) div 2"

definition visited :: "'a heap \<Rightarrow> 'a obj \<Rightarrow> nat \<Rightarrow> 'a obj list" where
  "visited h p n = map (\<lambda>k. case walk h p k of Cell a \<Rightarrow> car_at h a | q \<Rightarrow> q) [0..<n]"

definition caught :: "'a heap \<Rightarrow> 'a obj \<Rightarrow> nat \<Rightarrow> bool" where
  "caught h p n \<longleftrightarrow> 1024 < n \<and> walk h p n = walk h p (tortoise_pos n)"

lemma tortoise_pos_less: "0 < n \<Longrightarrow> tortoise_pos n < n"
  by (simp add: tortoise_pos_def div_less_iff_less_mult)

lemma tortoise_pos_Suc: "1024 \<le> n \<Longrightarrow> tortoise_pos (Suc n) = (if odd (Suc n) then Suc (tortoise_pos n) else tortoise_pos n)"
  unfolding tortoise_pos_def by presburger

lemma tortoise_pos_start: "n \<le> 1024 \<Longrightarrow> tortoise_pos n = 0"
  by (simp add: tortoise_pos_def)

lemma external_list_loop_step:
  assumes h: "heap_wf h" "valid_obj h p" and c: "\<And>k. k \<le> n \<Longrightarrow> consp (walk h p k)"
  shows "external_list_loop h l 1024 (walk h p n) (walk h p (tortoise_pos n)) n (visited h p n) =
    (if caught h p (Suc n) then Some (Inl (Circular_List l))
     else external_list_loop h l 1024 (walk h p (Suc n)) (walk h p (tortoise_pos (Suc n))) (Suc n) (visited h p (Suc n)))"
proof -
  obtain a where a: "walk h p n = Cell a" using c [of n] by (cases "walk h p n") auto
  obtain x where x: "cells h a = Some (x, walk h p (Suc n))" using walk_step [OF h a] by blast
  have t: "tortoise_pos n \<le> n" using tortoise_pos_less [of n] by (cases "n = 0") (auto simp: tortoise_pos_def)
  obtain b where b: "walk h p (tortoise_pos n) = Cell b" using c [OF t] by (cases "walk h p (tortoise_pos n)") auto
  obtain y where y: "cells h b = Some (y, walk h p (Suc (tortoise_pos n)))" using walk_step [OF h b] by blast
  have v: "visited h p (Suc n) = visited h p n @ [x]" using a x by (simp add: visited_def car_at_def del: walk.simps)
  have step: "(if odd (Suc n) then heap_XCDR h (walk h p (tortoise_pos n)) else Inr (walk h p (tortoise_pos n))) =
      Inr (walk h p (tortoise_pos (Suc n)))" if "1024 \<le> n"
    using tortoise_pos_Suc [OF that] b y by (simp del: walk.simps)
  have "external_list_loop h l 1024 (walk h p n) (walk h p (tortoise_pos n)) n (visited h p n) =
    (if 1024 \<le> n
     then ebind (if odd (Suc n) then heap_XCDR h (walk h p (tortoise_pos n)) else Inr (walk h p (tortoise_pos n)))
       (\<lambda>tortoise. if walk h p (Suc n) = tortoise then Some (Inl (Circular_List l))
         else external_list_loop h l 1024 (walk h p (Suc n)) tortoise (Suc n) (visited h p (Suc n)))
     else external_list_loop h l 1024 (walk h p (Suc n)) (walk h p (tortoise_pos n)) (Suc n) (visited h p (Suc n)))"
    by (subst external_list_loop.simps) (simp add: a x v cong: if_cong del: walk.simps)
  note unfold = this
  show ?thesis
  proof (cases "1024 \<le> n")
    case True
    then show ?thesis unfolding unfold step [OF True] by (simp add: caught_def del: walk.simps)
  next
    case False
    then have "tortoise_pos n = tortoise_pos (Suc n)" by (simp add: tortoise_pos_start)
    with False show ?thesis unfolding unfold by (simp add: caught_def del: walk.simps)
  qed
qed

lemma external_list_loop_runs:
  assumes h: "heap_wf h" "valid_obj h p"
    and before: "\<And>k. k < N \<Longrightarrow> consp (walk h p k)" "\<And>k. k < N \<Longrightarrow> \<not> caught h p k"
    and at: "\<not> consp (walk h p N)" and n: "n \<le> N"
  shows "external_list_loop h l 1024 (walk h p n) (walk h p (tortoise_pos n)) n (visited h p n) =
    Some (if walk h p N = Qnil then Inr (visited h p N, N) else Inl (Malformed_List l))"
  using n
proof (induction "N - n" arbitrary: n)
  case 0
  then show ?case using at by (subst external_list_loop.simps) simp
next
  case (Suc m)
  then have n: "n < N" by simp
  have "\<not> caught h p (Suc n)"
  proof (cases "Suc n = N")
    case True
    have "consp (walk h p (tortoise_pos N))" using before(1) tortoise_pos_less [of N] n by (simp del: walk.simps)
    with at True show ?thesis by (auto simp: caught_def simp del: walk.simps)
  qed (use before(2) n in simp)
  moreover have "m = N - Suc n" "Suc n \<le> N" using Suc n by simp_all
  moreover have "\<And>k. k \<le> n \<Longrightarrow> consp (walk h p k)" using before(1) n by simp
  ultimately show ?case using external_list_loop_step [OF h, of n l] Suc(1) [of "Suc n"] by simp
qed

lemma external_list_loop_catches:
  assumes h: "heap_wf h" "valid_obj h p"
    and before: "\<And>k. consp (walk h p k)" "\<And>k. k < N \<Longrightarrow> \<not> caught h p k"
    and at: "caught h p N" and n: "n < N"
  shows "external_list_loop h l 1024 (walk h p n) (walk h p (tortoise_pos n)) n (visited h p n) =
    Some (Inl (Circular_List l))"
  using n
proof (induction "N - n" arbitrary: n)
  case (Suc m)
  show ?case
  proof (cases "Suc n = N")
    case True
    then show ?thesis using external_list_loop_step [OF h, of n l] before(1) at by simp
  next
    case False
    then have "m = N - Suc n" "Suc n < N" using Suc by simp_all
    then show ?thesis using external_list_loop_step [OF h, of n l] before at Suc(1) [of "Suc n"] by simp
  qed
qed simp

text \<open>A walk that never leaves the conses comes back to the tortoise.\<close>

lemma endless_caught:
  assumes h: "heap_wf h" "valid_obj h p" and c: "\<And>k. consp (walk h p k)"
  shows "\<exists>n. caught h p n"
proof -
  have "range (walk h p) \<subseteq> Cell ` dom (cells h)"
  proof
    fix q assume "q \<in> range (walk h p)"
    then obtain k where k: "q = walk h p k" by auto
    obtain a where "q = Cell a" using c [of k] unfolding k by (cases "walk h p k") auto
    moreover from this have "a \<in> dom (cells h)" using valid_walk [OF h, of k] k by (simp add: valid_obj_def)
    ultimately show "q \<in> Cell ` dom (cells h)" by blast
  qed
  then have "finite (range (walk h p))" using finite_heap [OF h(1)] by (metis finite_imageI finite_subset)
  then have "\<not> inj (walk h p)" using finite_imageD infinite_UNIV_nat by blast
  then obtain i j where ij: "walk h p i = walk h p j" "i < j" by (metis injI linorder_neqE_nat)
  define lam where "lam = j - i"
  have period: "walk h p (m + c * lam) = walk h p m" if "i \<le> m" for m c
  proof (induction c)
    case (Suc c)
    have "walk h p (i + (m - i + c * lam)) = walk h p (j + (m - i + c * lam))" by (rule walk_period [OF ij(1)])
    moreover have "i + (m - i + c * lam) = m + c * lam" "j + (m - i + c * lam) = m + Suc c * lam"
      using that ij(2) by (simp_all add: lam_def)
    ultimately show ?case using Suc by simp
  qed simp
  have lam: "0 < lam" using ij(2) by (simp add: lam_def)
  define c where "c = i + 1024 + 1"
  define m where "m = c * lam - 1024"
  have "c \<le> c * lam" using lam by simp
  moreover have "i + 1024 < c" by (simp add: c_def)
  ultimately have big: "i + 1024 < c * lam" by linarith
  have m: "m + 1024 = c * lam" "i \<le> m" "0 < m" using big by (simp_all add: m_def)
  have "tortoise_pos (1024 + 2 * m) = m" by (simp add: tortoise_pos_def)
  moreover have "1024 + 2 * m = m + c * lam" using m(1) by simp
  then have "walk h p (1024 + 2 * m) = walk h p m" using period [OF m(2), of c] by metis
  ultimately have "caught h p (1024 + 2 * m)" using m(3) by (simp add: caught_def)
  then show ?thesis by blast
qed


lemma visited_path: "path h p as q \<Longrightarrow> visited h p (length as) = map (car_at h) as"
  unfolding visited_def by (rule nth_equalityI) (simp_all add: walk_cell)

lemma external_list_cases:
  assumes "heap_wf h" "valid_obj h p"
  shows "(\<exists>as. path h p as Qnil \<and> external_list h p = Some (Inr (map (car_at h) as, length as)))
    \<or> (\<exists>as x. path h p as (Atom x) \<and> external_list h p = Some (Inl (Malformed_List p)))
    \<or> ((\<forall>k. consp (walk h p k)) \<and> external_list h p = Some (Inl (Circular_List p)))"
proof (cases "\<forall>k. consp (walk h p k)")
  case True
  then obtain N where N: "caught h p N" "\<And>k. k < N \<Longrightarrow> \<not> caught h p k"
    using endless_caught [OF assms] exists_least_iff [of "caught h p"] by blast
  then have "0 < N" by (auto simp: caught_def)
  with external_list_loop_catches [OF assms, of N 0] True N show ?thesis
    by (simp add: external_list_def CIRCULAR_LIST_SUSPICION_LENGTH_def visited_def tortoise_pos_def)
next
  case False
  then obtain N where N: "\<not> consp (walk h p N)" "\<And>k. k < N \<Longrightarrow> consp (walk h p k)"
    using exists_least_iff [of "\<lambda>k. \<not> consp (walk h p k)"] by blast
  have "\<not> caught h p k" if "k < N" for k
  proof
    assume "caught h p k"
    then have k: "walk h p k = walk h p (tortoise_pos k)" "0 < k" by (auto simp: caught_def)
    then have "walk h p (k + (N - k)) = walk h p (tortoise_pos k + (N - k))" by (intro walk_period)
    moreover have "tortoise_pos k + (N - k) < N" using tortoise_pos_less [OF k(2)] that by simp
    ultimately show False using N that by simp
  qed
  then have r: "external_list h p = Some (if walk h p N = Qnil then Inr (visited h p N, N) else Inl (Malformed_List p))"
    using external_list_loop_runs [OF assms N(2) _ N(1), of 0 p]
    by (simp add: external_list_def CIRCULAR_LIST_SUSPICION_LENGTH_def visited_def tortoise_pos_def)
  obtain as where as: "path h p as (walk h p N)" "length as = N" using path_of_walk [OF assms N(2)] by blast
  show ?thesis
  proof (cases "walk h p N")
    case Qnil
    with r as visited_path [OF as(1)] show ?thesis by auto
  next
    case (Atom x)
    with r as show ?thesis by auto
  qed (use N(1) in simp)
qed

text \<open>
  C20: The loop of \<open>EXTERNAL_LIST_LOOP\<close> returns on every list, circular ones included, and tells the
  three kinds of lists apart: of a proper list it visits the elements in order, each once; a list
  that ends in an atom signals a malformed list; a list whose cdrs never leave the conses signals a
  circular list.
\<close>

theorem external_list_decides:
  assumes "heap_wf h" "valid_obj h p"
  shows "(\<exists>as. path h p as Qnil \<and> external_list h p = Some (Inr (map (car_at h) as, length as)))
    \<or> (\<exists>as x. path h p as (Atom x) \<and> external_list h p = Some (Inl (Malformed_List p)))
    \<or> ((\<forall>k. consp (walk h p k)) \<and> external_list h p = Some (Inl (Circular_List p)))"
  by (rule external_list_cases [OF assms])

definition example_heap :: "nat heap" where
  "example_heap = \<lparr>cells = [0 \<mapsto> (Atom 3, Cell 1), 1 \<mapsto> (Atom 1, Cell 2), 2 \<mapsto> (Atom 2, Qnil), 3 \<mapsto> (Atom 7, Cell 3)], brk = 4\<rparr>"

lemma example_heap_wf: "heap_wf example_heap" "valid_obj example_heap (Cell 3)"
  by (auto simp: heap_wf_def example_heap_def valid_obj_def split: if_splits)

lemma external_list_decides_witness:
  "external_list example_heap (Cell 3) = Some (Inl (Circular_List (Cell 3)))"
proof -
  have "walk example_heap (Cell 3) k = Cell 3" for k by (induction k) (simp_all add: example_heap_def)
  then have "\<not> path example_heap (Cell 3) as q" if "\<not> consp q" for as q
    using walk_path [of example_heap "Cell 3" as q] that by auto
  then show ?thesis using external_list_decides [OF example_heap_wf] by auto
qed

lemma external_list_proper:
  assumes "heap_wf h" "valid_obj h p" "path h p as Qnil"
  shows "external_list h p = Some (Inr (map (car_at h) as, length as))"
proof -
  have "walk h p (length as) = Qnil" using assms(3) by (rule walk_path)
  then have "\<not> (\<forall>k. consp (walk h p k))" by (metis consp.simps(2))
  moreover have "bs = as" if "path h p bs Qnil" for bs using path_functional [OF that assms(3)] by simp
  moreover have "\<not> path h p bs (Atom x)" for bs x using path_functional [OF _ assms(3), of bs "Atom x"] by auto
  ultimately show ?thesis using external_list_cases [OF assms(1,2)] by blast
qed

section \<open>Relinking\<close>

text \<open>Memory where only the cdrs of the conses in \<open>S\<close> have changed.\<close>

definition relinked :: "nat set \<Rightarrow> 'a heap \<Rightarrow> 'a heap \<Rightarrow> bool" where
  "relinked S h h' \<longleftrightarrow> brk h' = brk h \<and> dom (cells h') = dom (cells h) \<and>
     (\<forall>a. a \<notin> S \<longrightarrow> cells h' a = cells h a) \<and> (\<forall>a. car_at h' a = car_at h a)"

lemma relinked_refl [simp]: "relinked S h h"
  by (simp add: relinked_def)

lemma relinked_trans: "relinked S h h' \<Longrightarrow> relinked T h' h'' \<Longrightarrow> relinked (S \<union> T) h h''"
  by (auto simp: relinked_def)

lemma relinked_mono: "relinked S h h' \<Longrightarrow> S \<subseteq> T \<Longrightarrow> relinked T h h'"
  by (auto simp: relinked_def)

lemma Fsetcdr_relinks:
  assumes "a \<in> dom (cells h)"
  obtains h' where "Fsetcdr h (Cell a) q = Inr h'" "relinked {a} h h'" "cells h' a = Some (car_at h a, q)"
proof -
  obtain x d where c: "cells h a = Some (x, d)" using assms by auto
  define h' where "h' = h\<lparr>cells := (cells h)(a \<mapsto> (x, q))\<rparr>"
  have "Fsetcdr h (Cell a) q = Inr h'" "cells h' a = Some (car_at h a, q)"
    using c by (simp_all add: h'_def car_at_def)
  moreover have "relinked {a} h h'"
    using c assms by (auto simp: relinked_def car_at_def h'_def)
  ultimately show ?thesis using that by blast
qed

lemma relinked_path:
  "relinked S h h' \<Longrightarrow> path h p as q \<Longrightarrow> set as \<inter> S = {} \<Longrightarrow> path h' p as q"
  by (erule path_cong) (auto simp: relinked_def)

lemma nreverse_loop_reverses:
  assumes "path h tail as Qnil" "path h prev bs Qnil" "distinct (as @ bs)"
  shows "\<exists>r h'. nreverse_loop h prev tail = Some (Inr (r, h')) \<and> path h' r (rev as @ bs) Qnil \<and> relinked (set as) h h'"
  using assms
proof (induction as arbitrary: h tail prev bs)
  case Nil
  then show ?case by (subst nreverse_loop.simps) simp
next
  case (Cons a as)
  then obtain x d where a: "tail = Cell a" "cells h a = Some (x, d)" "path h d as Qnil" by auto
  then obtain h1 where h1: "Fsetcdr h (Cell a) prev = Inr h1" "relinked {a} h h1" "cells h1 a = Some (car_at h a, prev)"
    using Fsetcdr_relinks [of a h prev] by blast
  have "path h1 d as Qnil" "path h1 (Cell a) (a # bs) Qnil"
    using relinked_path [OF h1(2) a(3)] relinked_path [OF h1(2) Cons.prems(2)] Cons.prems(3) h1(3) by simp_all
  then obtain r h' where r: "nreverse_loop h1 (Cell a) d = Some (Inr (r, h'))" "path h' r (rev as @ a # bs) Qnil"
      "relinked (set as) h1 h'"
    using Cons.IH [of h1 d "Cell a" "a # bs"] Cons.prems(3) by auto
  have "nreverse_loop h prev tail = nreverse_loop h1 (Cell a) d"
    using a h1(1) by (subst nreverse_loop.simps) simp
  moreover have "relinked (set (a # as)) h h'" using relinked_trans [OF h1(2) r(3)] by simp
  ultimately show ?case using r by auto
qed

text \<open>
  \<open>nreverse\<close> of a proper list returns a list of the same conses in the opposite order; it changes
  no car and no cons that is not of the list.
\<close>

theorem nreverse_correct:
  assumes "path h p as Qnil"
  shows "\<exists>r h'. nreverse_list h p = Some (Inr (r, h')) \<and> path h' r (rev as) Qnil \<and>
    (\<forall>a. car_at h' a = car_at h a) \<and> (\<forall>a. a \<notin> set as \<longrightarrow> cells h' a = cells h a)"
proof (cases as)
  case Nil
  then show ?thesis using assms by (simp add: nreverse_list_def)
next
  case (Cons a bs)
  then have "consp p" using assms by auto
  moreover have "distinct as" using path_distinct [OF assms] by simp
  ultimately show ?thesis
    using nreverse_loop_reverses [OF assms, of Qnil "[]"] by (auto simp: nreverse_list_def relinked_def)
qed

lemma nreverse_correct_witness:
  "\<exists>r h'. nreverse_list example_heap (Cell 0) = Some (Inr (r, h')) \<and> path h' r [2, 1, 0] Qnil"
proof -
  have "path example_heap (Cell 0) [0, 1, 2] Qnil" by (simp add: example_heap_def)
  from nreverse_correct [OF this] show ?thesis by auto
qed

end
