(* ===== verification/Sequence_Sort.thy ===== *)
theory Sequence_Sort
  imports Cons_Heap Lisp_Object
begin

text \<open>
  Merging and sorting of \<open>src/sequence.c\<close>: the destructive merge of two lists, the merge of two
  arrays, the merges of a list with an array, and the merge sorts on lists and arrays built on them.
  The counters of the merges, \<open>int\<close>s in the code, are natural numbers.
  \<open>check_merge\<close>, the predicate together with its key, is a function of two elements that may signal.
\<close>

type_synonym 'a check_merge = "'a obj \<Rightarrow> 'a obj \<Rightarrow> 'a list_error + bool"

section \<open>The comparison functions\<close>

text \<open>
  \<open>bytecode_arithcompare\<close> on fixnums and characters; a word of another type is no number here, as
  floats and markers are not modelled.
\<close>

definition arith_value :: "lisp_word obj \<Rightarrow> lisp_word list_error + int" where
  "arith_value obj =
     (case obj of
        Atom w \<Rightarrow> if FIXNUMP w then Inr (XREALFIXNUM w)
                  else if CHARP w then Inr (uint (XCHARVAL w))
                  else Inl (Wrong_Type_Argument obj)
      | _ \<Rightarrow> Inl (Wrong_Type_Argument obj))"

definition bytecode_arithcompare :: "lisp_word obj \<Rightarrow> lisp_word obj \<Rightarrow> lisp_word list_error + int" where
  "bytecode_arithcompare obj1 obj2 =
     (case arith_value obj1 of
        Inl e \<Rightarrow> Inl e
      | Inr ival1 \<Rightarrow>
          (case arith_value obj2 of
             Inl e \<Rightarrow> Inl e
           | Inr ival2 \<Rightarrow> Inr (if ival1 < ival2 then -1 else if ival1 > ival2 then 1 else 0)))"

definition check_lss_nokey :: "lisp_word check_merge" where
  "check_lss_nokey elt1 elt2 =
     (case bytecode_arithcompare elt1 elt2 of Inl e \<Rightarrow> Inl e | Inr c \<Rightarrow> Inr (c < 0))"

text \<open>\<open>check_lss_key\<close>: \<open>key\<close> stands for the funcall of the \<open>:key\<close> argument.\<close>

definition check_lss_key :: "(lisp_word obj \<Rightarrow> lisp_word list_error + lisp_word obj) \<Rightarrow> lisp_word check_merge" where
  "check_lss_key key elt1 elt2 =
     (case key elt1 of
        Inl e \<Rightarrow> Inl e
      | Inr arg0 \<Rightarrow>
          (case key elt2 of
             Inl e \<Rightarrow> Inl e
           | Inr arg1 \<Rightarrow>
               (case bytecode_arithcompare arg0 arg1 of Inl e \<Rightarrow> Inl e | Inr c \<Rightarrow> Inr (c < 0))))"

text \<open>\<open>check_other_nokey\<close>: \<open>test\<close> stands for the funcall of the predicate; anything but \<open>nil\<close> is true.\<close>

definition check_other_nokey :: "('a obj \<Rightarrow> 'a obj \<Rightarrow> 'a list_error + 'a obj) \<Rightarrow> 'a check_merge" where
  "check_other_nokey test item elt =
     (case test item elt of Inl e \<Rightarrow> Inl e | Inr item \<Rightarrow> Inr (item \<noteq> Qnil))"

definition check_match_other_key ::
  "('a obj \<Rightarrow> 'a obj \<Rightarrow> 'a list_error + 'a obj) \<Rightarrow> ('a obj \<Rightarrow> 'a list_error + 'a obj) \<Rightarrow> 'a check_merge"
where
  "check_match_other_key test key elt1 elt2 =
     (case key elt1 of
        Inl e \<Rightarrow> Inl e
      | Inr arg0 \<Rightarrow>
          (case key elt2 of
             Inl e \<Rightarrow> Inl e
           | Inr arg2 \<Rightarrow> (case test arg0 arg2 of Inl e \<Rightarrow> Inl e | Inr elt1 \<Rightarrow> Inr (elt1 \<noteq> Qnil))))"

section \<open>Merging two lists\<close>

text \<open>
  The check for circularity of one of the two lists, after an element of it was taken: \<open>taken\<close> is
  the number taken before it, \<open>org\<close> the rest of the list.
\<close>

definition merge_tortoise :: "'a heap \<Rightarrow> nat \<Rightarrow> 'a obj \<Rightarrow> 'a obj \<Rightarrow> 'a list_error + 'a obj" where
  "merge_tortoise h taken tortoise org =
     (if taken > CIRCULAR_LIST_SUSPICION_LENGTH then
        (case (if odd (taken + 1)
               then if \<not> consp tortoise then Inl (Mapping_Interaction tortoise) else heap_XCDR h tortoise
               else Inr tortoise) of
           Inl e \<Rightarrow> Inl e
         | Inr tortoise \<Rightarrow> if org = tortoise then Inl (Circular_List org) else Inr tortoise)
      else Inr tortoise)"

text \<open>The end of the loop: \<open>tem\<close> becomes the last cons of the result.\<close>

definition merge_link :: "'a heap \<Rightarrow> 'a obj \<Rightarrow> 'a obj \<Rightarrow> 'a obj \<Rightarrow> 'a list_error + 'a obj \<times> 'a heap" where
  "merge_link h tail value tem =
     (if tail = Qnil then Inr (tem, h)
      else (case Fsetcdr h tail tem of Inl e \<Rightarrow> Inl e | Inr h \<Rightarrow> Inr (value, h)))"

definition merge_finish :: "'a heap \<Rightarrow> 'a obj \<Rightarrow> 'a obj \<Rightarrow> 'a obj \<Rightarrow> 'a list_error + 'a obj \<times> 'a heap" where
  "merge_finish h tail value rest =
     (if tail = Qnil then Inr (rest, h)
      else (case Fsetcdr h tail rest of Inl e \<Rightarrow> Inl e | Inr h \<Rightarrow> Inr (value, h)))"

partial_function (option) list_merge_loop ::
  "'a check_merge \<Rightarrow> 'a heap \<Rightarrow> 'a obj \<Rightarrow> 'a obj \<Rightarrow> 'a obj \<Rightarrow> 'a obj \<Rightarrow> 'a obj \<Rightarrow> 'a obj \<Rightarrow> nat \<Rightarrow> nat \<Rightarrow>
   ('a list_error + 'a obj \<times> 'a heap) option"
where
  "list_merge_loop check_merge h l1 l2 tail value tortoise1 tortoise2 l1_count l2_count =
     (if l1 = Qnil then Some (merge_finish h tail value l2)
      else if l2 = Qnil then Some (merge_finish h tail value l1)
      else
        ebind (Fcar h l2) (\<lambda>elt2.
        ebind (Fcar h l1) (\<lambda>elt1.
        ebind (check_merge elt2 elt1) (\<lambda>lss.
        if \<not> lss then
          ebind (Fcdr h l1) (\<lambda>rest.
          ebind (merge_tortoise h l1_count tortoise1 rest) (\<lambda>tortoise1.
          ebind (merge_link h tail value l1) (\<lambda>(value, h).
          list_merge_loop check_merge h rest l2 l1 value tortoise1 tortoise2 (l1_count + 1) l2_count)))
        else
          ebind (Fcdr h l2) (\<lambda>rest.
          ebind (merge_tortoise h l2_count tortoise2 rest) (\<lambda>tortoise2.
          ebind (merge_link h tail value l2) (\<lambda>(value, h).
          list_merge_loop check_merge h l1 rest l2 value tortoise1 tortoise2 l1_count (l2_count + 1))))))))"

declare list_merge_loop.simps [code]

definition list_merge ::
  "'a check_merge \<Rightarrow> 'a heap \<Rightarrow> 'a obj \<Rightarrow> 'a obj \<Rightarrow> ('a list_error + 'a obj \<times> 'a heap) option"
where
  "list_merge check_merge h org_l1 org_l2 =
     list_merge_loop check_merge h org_l1 org_l2 Qnil Qnil org_l1 org_l2 0 0"

partial_function (option) list_sort ::
  "'a check_merge \<Rightarrow> 'a heap \<Rightarrow> 'a obj \<Rightarrow> ('a list_error + 'a obj \<times> 'a heap) option"
where
  "list_sort check_merge h list =
     rbind (Flength h list) (\<lambda>len.
     if len < 2 then Some (Inr (list, h))
     else
       ebind (Fnthcdr h (len div 2 - 1) list) (\<lambda>tem.
       ebind (Fcdr h tem) (\<lambda>back.
       ebind (Fsetcdr h tem Qnil) (\<lambda>h.
       rbind (list_sort check_merge h list) (\<lambda>(front, h).
       rbind (list_sort check_merge h back) (\<lambda>(back, h).
       list_merge check_merge h front back))))))"

declare list_sort.simps [code]

section \<open>Merging two arrays\<close>

text \<open>
  Arrays are segments of one memory of objects.  A part that starts within the destination is copied
  before the merge: \<open>staging\<close> is that copy, or \<open>None\<close> when the part is read where it is.
\<close>

definition staged :: "'x list \<Rightarrow> nat \<Rightarrow> nat \<Rightarrow> nat \<Rightarrow> nat \<Rightarrow> 'x list option" where
  "staged mem dest dest_len part part_len =
     (if part \<ge> dest \<and> part < dest + dest_len then Some (take part_len (drop part mem)) else None)"

definition fetch :: "'x list \<Rightarrow> 'x list option \<Rightarrow> nat \<Rightarrow> nat \<Rightarrow> 'x" where
  "fetch mem staging part i = (case staging of Some xs \<Rightarrow> xs ! i | None \<Rightarrow> mem ! (part + i))"

fun copy_rest :: "'x list \<Rightarrow> nat \<Rightarrow> 'x list option \<Rightarrow> nat \<Rightarrow> nat \<Rightarrow> nat \<Rightarrow> 'x list" where
  "copy_rest mem dest staging part from 0 = mem"
| "copy_rest mem dest staging part from (Suc n) =
     copy_rest (mem[dest := fetch mem staging part from]) (dest + 1) staging part (from + 1) n"

function array_merge_loop ::
  "'a check_merge \<Rightarrow> 'a obj list \<Rightarrow> nat \<Rightarrow> nat \<Rightarrow> 'a obj list option \<Rightarrow> nat \<Rightarrow> nat \<Rightarrow>
   'a obj list option \<Rightarrow> nat \<Rightarrow> nat \<Rightarrow> nat \<Rightarrow> nat \<Rightarrow> nat \<Rightarrow> 'a list_error + 'a obj list"
where
  "array_merge_loop check_merge mem dest dest_len fs front front_len bs back back_len ii fronting backing =
     (if ii < dest_len then
        if fronting \<ge> front_len then
          Inr (copy_rest mem (dest + ii) bs back backing (dest_len - ii))
        else if backing \<ge> back_len then
          Inr (copy_rest mem (dest + ii) fs front fronting (dest_len - ii))
        else
          (case check_merge (fetch mem bs back backing) (fetch mem fs front fronting) of
             Inl e \<Rightarrow> Inl e
           | Inr lss \<Rightarrow>
               if \<not> lss then
                 array_merge_loop check_merge (mem[dest + ii := fetch mem fs front fronting]) dest dest_len
                   fs front front_len bs back back_len (ii + 1) (fronting + 1) backing
               else
                 array_merge_loop check_merge (mem[dest + ii := fetch mem bs back backing]) dest dest_len
                   fs front front_len bs back back_len (ii + 1) fronting (backing + 1))
      else Inr mem)"
  by pat_completeness auto
termination
  by (relation "measure (\<lambda>(_, _, _, dest_len, _, _, _, _, _, _, ii, _, _). dest_len - ii)") auto

declare array_merge_loop.simps [simp del]

text \<open>The assertion on the lengths is the \<open>None\<close>.\<close>

definition array_merge ::
  "'a check_merge \<Rightarrow> 'a obj list \<Rightarrow> nat \<Rightarrow> nat \<Rightarrow> nat \<Rightarrow> nat \<Rightarrow> nat \<Rightarrow> nat \<Rightarrow> ('a list_error + 'a obj list) option"
where
  "array_merge check_merge mem dest dest_len front front_len back back_len =
     (if dest_len \<noteq> back_len + front_len then None
      else if dest_len = 0 then Some (Inr mem)
      else Some (array_merge_loop check_merge mem dest dest_len
             (staged mem dest dest_len front front_len) front front_len
             (staged mem dest dest_len back back_len) back back_len 0 0 0))"

function array_sort :: "'a check_merge \<Rightarrow> 'a obj list \<Rightarrow> nat \<Rightarrow> nat \<Rightarrow> ('a list_error + 'a obj list) option" where
  "array_sort check_merge mem arr array_len =
     (if array_len < 2 then Some (Inr mem)
      else let split = array_len div 2 in
        rbind (array_sort check_merge mem arr split) (\<lambda>mem.
        rbind (array_sort check_merge mem (arr + split) (array_len - split)) (\<lambda>mem.
        array_merge check_merge mem arr array_len arr split (arr + split) (array_len - split))))"
  by pat_completeness auto
termination
  by (relation "measure (\<lambda>(_, _, _, array_len). array_len)") auto

declare array_sort.simps [simp del]


section \<open>The stable merge sort the routines compute\<close>

fun stable_merge :: "('x \<Rightarrow> 'x \<Rightarrow> bool) \<Rightarrow> 'x list \<Rightarrow> 'x list \<Rightarrow> 'x list" where
  "stable_merge lt [] ys = ys"
| "stable_merge lt (x # xs) [] = x # xs"
| "stable_merge lt (x # xs) (y # ys) =
     (if \<not> lt y x then x # stable_merge lt xs (y # ys) else y # stable_merge lt (x # xs) ys)"

function stable_msort :: "('x \<Rightarrow> 'x \<Rightarrow> bool) \<Rightarrow> 'x list \<Rightarrow> 'x list" where
  "stable_msort lt xs =
     (if length xs < 2 then xs
      else stable_merge lt (stable_msort lt (take (length xs div 2) xs)) (stable_msort lt (drop (length xs div 2) xs)))"
  by pat_completeness auto
termination
  by (relation "measure (\<lambda>(_, xs). length xs)") auto

declare stable_msort.simps [simp del]

lemma stable_merge_Nil2 [simp]: "stable_merge lt xs [] = xs"
  by (cases xs) simp_all

lemma mset_stable_merge [simp]: "mset (stable_merge lt xs ys) = mset xs + mset ys"
  by (induction lt xs ys rule: stable_merge.induct) simp_all

lemma length_stable_merge [simp]: "length (stable_merge lt xs ys) = length xs + length ys"
  by (induction lt xs ys rule: stable_merge.induct) simp_all

lemma set_stable_merge [simp]: "set (stable_merge lt xs ys) = set xs \<union> set ys"
  by (metis mset_stable_merge set_mset_mset set_mset_union)

lemma mset_stable_msort [simp]: "mset (stable_msort lt xs) = mset xs"
proof (induction lt xs rule: stable_msort.induct)
  case (1 lt xs)
  show ?case
  proof (cases "length xs < 2")
    case True
    then show ?thesis by (subst stable_msort.simps) simp
  next
    case False
    have "mset (take n xs) + mset (drop n xs) = mset xs" for n
      by (metis append_take_drop_id mset_append)
    with False 1 show ?thesis by (subst stable_msort.simps) simp
  qed
qed

lemma set_stable_msort [simp]: "set (stable_msort lt xs) = set xs"
  by (metis mset_stable_msort set_mset_mset)

lemma length_stable_msort [simp]: "length (stable_msort lt xs) = length xs"
  by (metis mset_stable_msort size_mset)

text \<open>
  What a predicate has to satisfy for the sorts to sort: on the admissible elements it returns, and
  \<open>less\<close> is a strict weak order.
\<close>

definition lss :: "'a check_merge \<Rightarrow> 'a obj \<Rightarrow> 'a obj \<Rightarrow> bool" where
  "lss check_merge x y \<longleftrightarrow> check_merge x y = Inr True"

definition returns_on :: "'a check_merge \<Rightarrow> 'a obj set \<Rightarrow> bool" where
  "returns_on check_merge A \<longleftrightarrow> (\<forall>x \<in> A. \<forall>y \<in> A. \<exists>b. check_merge x y = Inr b)"

lemma returns_onD: "returns_on c A \<Longrightarrow> x \<in> A \<Longrightarrow> y \<in> A \<Longrightarrow> c x y = Inr (lss c x y)"
  unfolding returns_on_def lss_def by (cases "c x y") (fastforce, auto)

lemma returns_on_subset: "returns_on c B \<Longrightarrow> A \<subseteq> B \<Longrightarrow> returns_on c A"
  by (auto simp: returns_on_def)

locale merge_predicate =
  fixes chk :: "'a check_merge" and adm :: "'a obj set"
  assumes returns: "returns_on chk adm"
    and asym: "x \<in> adm \<Longrightarrow> y \<in> adm \<Longrightarrow> lss chk x y \<Longrightarrow> \<not> lss chk y x"
    and cotrans: "x \<in> adm \<Longrightarrow> y \<in> adm \<Longrightarrow> z \<in> adm \<Longrightarrow> lss chk x z \<Longrightarrow> lss chk x y \<or> lss chk y z"
begin

definition ordered :: "'a obj list \<Rightarrow> bool" where
  "ordered xs \<longleftrightarrow> sorted_wrt (\<lambda>x y. \<not> lss chk y x) xs"

definition alike :: "'a obj \<Rightarrow> 'a obj \<Rightarrow> bool" where
  "alike x y \<longleftrightarrow> \<not> lss chk x y \<and> \<not> lss chk y x"

lemma stable_merge_ordered:
  "set xs \<subseteq> adm \<Longrightarrow> set ys \<subseteq> adm \<Longrightarrow> ordered xs \<Longrightarrow> ordered ys \<Longrightarrow> ordered (stable_merge (lss chk) xs ys)"
proof (induction "lss chk" xs ys rule: stable_merge.induct)
  case (3 x xs y ys)
  show ?case
  proof (cases "lss chk y x")
    case True
    then have "\<not> lss chk x y" using asym 3(3,4) by auto
    moreover have "\<not> lss chk z y" if "z \<in> set xs" for z
    proof
      assume "lss chk z y"
      moreover have "\<not> lss chk z x" using 3(5) that by (simp add: ordered_def)
      ultimately have "lss chk x y" using cotrans [of z x y] 3(3,4) that by auto
      with \<open>\<not> lss chk x y\<close> show False ..
    qed
    ultimately show ?thesis using True 3 by (auto simp: ordered_def)
  next
    case False
    moreover have "\<not> lss chk z x" if "z \<in> set ys" for z
    proof
      assume "lss chk z x"
      moreover have "\<not> lss chk z y" using 3(6) that by (simp add: ordered_def)
      ultimately show False using cotrans [of z y x] 3(3,4) False that by auto
    qed
    ultimately show ?thesis using 3 by (auto simp: ordered_def)
  qed
qed simp_all

lemma stable_merge_stable:
  "set xs \<subseteq> adm \<Longrightarrow> set ys \<subseteq> adm \<Longrightarrow> a \<in> adm \<Longrightarrow> ordered xs \<Longrightarrow>
   filter (alike a) (stable_merge (lss chk) xs ys) = filter (alike a) xs @ filter (alike a) ys"
proof (induction "lss chk" xs ys rule: stable_merge.induct)
  case (3 x xs y ys)
  show ?case
  proof (cases "lss chk y x")
    case True
    have "\<not> alike a z" if "alike a y" "z \<in> set (x # xs)" for z
    proof -
      have z: "z \<in> adm" "x \<in> adm" "y \<in> adm" using that(2) 3(3,4) by auto
      have "\<not> lss chk z x" using 3(6) that(2) asym [of x x] z by (auto simp: ordered_def)
      then have "lss chk y z" using cotrans [of y z x] True z by auto
      then show ?thesis using cotrans [of y a z] that(1) z 3(5) by (auto simp: alike_def)
    qed
    then have "alike a y \<Longrightarrow> filter (alike a) (x # xs) = []" by (simp only: filter_empty_conv) blast
    with True 3 show ?thesis by (auto split: if_splits)
  next
    case False
    with 3 show ?thesis by (simp add: ordered_def)
  qed
qed simp_all

theorem stable_msort_sorts:
  "set xs \<subseteq> adm \<Longrightarrow> ordered (stable_msort (lss chk) xs) \<and>
     (\<forall>a \<in> adm. filter (alike a) (stable_msort (lss chk) xs) = filter (alike a) xs)"
proof (induction "lss chk" xs rule: stable_msort.induct)
  case (1 xs)
  show ?case
  proof (cases "length xs < 2")
    case True
    then have "ordered xs" by (cases xs) (auto simp: ordered_def)
    with True show ?thesis by (subst (1 2) stable_msort.simps) simp
  next
    case False
    let ?n = "length xs div 2"
    let ?f = "stable_msort (lss chk) (take ?n xs)" and ?b = "stable_msort (lss chk) (drop ?n xs)"
    have sub: "set (take ?n xs) \<subseteq> adm" "set (drop ?n xs) \<subseteq> adm"
      using 1(3) set_take_subset [of ?n xs] set_drop_subset [of ?n xs] by auto
    have f: "ordered ?f" "\<forall>a \<in> adm. filter (alike a) ?f = filter (alike a) (take ?n xs)" using 1(1) False sub(1) by auto
    have b: "ordered ?b" "\<forall>a \<in> adm. filter (alike a) ?b = filter (alike a) (drop ?n xs)" using 1(2) False sub(2) by auto
    have e: "stable_msort (lss chk) xs = stable_merge (lss chk) ?f ?b" using False by (subst stable_msort.simps) simp
    have s: "set ?f \<subseteq> adm" "set ?b \<subseteq> adm" using sub by simp_all
    have "filter (alike a) (take ?n xs) @ filter (alike a) (drop ?n xs) = filter (alike a) xs" for a
      by (metis append_take_drop_id filter_append)
    then show ?thesis
      unfolding e using stable_merge_ordered [OF s f(1) b(1)] stable_merge_stable [OF s _ f(1)] f(2) b(2) by simp
  qed
qed

end


section \<open>The merge of two lists\<close>

text \<open>
  The loop of \<open>list_merge\<close> has moved the conses \<open>ds\<close> to the result: they are linked but for the
  cdr of the last one.
\<close>

definition chain :: "'a heap \<Rightarrow> nat list \<Rightarrow> 'a obj \<Rightarrow> 'a obj \<Rightarrow> bool" where
  "chain h ds value tail \<longleftrightarrow>
     (if ds = [] then value = Qnil \<and> tail = Qnil
      else tail = Cell (last ds) \<and> path h value (butlast ds) tail \<and> last ds \<in> dom (cells h))"

text \<open>A tortoise stays behind on the result, at least as far as the suspicion length.\<close>

definition trails :: "nat list \<Rightarrow> nat \<Rightarrow> 'a obj \<Rightarrow> 'a obj \<Rightarrow> bool" where
  "trails ds taken l t \<longleftrightarrow>
     (if taken = 0 then t = l
      else \<exists>i < length ds. t = Cell (ds ! i) \<and> i + min taken 1024 \<le> length ds)"

lemma trails_other: "trails ds taken l t \<Longrightarrow> trails (ds @ [a]) taken l t"
proof (cases "taken = 0")
  case False
  assume "trails ds taken l t"
  with False obtain i where "i < length ds" "t = Cell (ds ! i)" "i + min taken 1024 \<le> length ds"
    by (auto simp: trails_def)
  then have "i < length (ds @ [a])" "t = Cell ((ds @ [a]) ! i)" "i + min taken 1024 \<le> length (ds @ [a])"
    by (simp_all add: nth_append)
  with False show ?thesis unfolding trails_def by auto
qed (simp add: trails_def)

lemma chain_step:
  assumes "chain h ds value tail" "Suc i < length ds"
  shows "heap_XCDR h (Cell (ds ! i)) = Inr (Cell (ds ! Suc i))"
proof -
  from assms have p: "path h value (butlast ds) (Cell (last ds))" by (auto simp: chain_def split: if_splits)
  from assms(2) have i: "i < length (butlast ds)" "ds \<noteq> []" by auto
  have "butlast ds = take i ds @ ds ! i # drop (Suc i) (butlast ds)"
    using id_take_nth_drop [OF i(1)] i by (simp add: nth_butlast take_butlast)
  with p have "path h value (take i ds @ ds ! i # drop (Suc i) (butlast ds)) (Cell (last ds))" by simp
  then obtain x d where d: "cells h (ds ! i) = Some (x, d)" "path h d (drop (Suc i) (butlast ds)) (Cell (last ds))"
    by (auto simp: path_append)
  have "d = Cell (ds ! Suc i)"
  proof (cases "Suc i < length (butlast ds)")
    case True
    then have "drop (Suc i) (butlast ds) = butlast ds ! Suc i # drop (Suc (Suc i)) (butlast ds)"
      by (rule Cons_nth_drop_Suc [symmetric])
    with d(2) True show ?thesis by (simp add: nth_butlast)
  next
    case False
    with i(1) have "Suc i = length ds - 1" by simp
    with d(2) False i(2) show ?thesis by (simp add: last_conv_nth)
  qed
  with d(1) show ?thesis by simp
qed

lemma merge_tortoise_trails:
  assumes t: "trails ds taken (Cell a) t" and c: "chain h ds value tail"
    and p: "path h rest as Qnil" and dist: "distinct (ds @ a # as)"
  shows "\<exists>t'. merge_tortoise h taken t rest = Inr t' \<and> trails (ds @ [a]) (taken + 1) rest t'"
proof (cases "taken > 1024")
  case False
  have "trails (ds @ [a]) (taken + 1) rest t"
  proof (cases "taken = 0")
    case True
    then have "t = Cell ((ds @ [a]) ! length ds)" using t by (simp add: trails_def)
    with True show ?thesis unfolding trails_def by (auto intro!: exI [of _ "length ds"])
  next
    case False
    then obtain i where "i < length ds" "t = Cell (ds ! i)" "i + min taken 1024 \<le> length ds"
      using t by (auto simp: trails_def)
    then have "i < length (ds @ [a])" "t = Cell ((ds @ [a]) ! i)" "i + min (taken + 1) 1024 \<le> length (ds @ [a])"
      by (simp_all add: nth_append)
    then show ?thesis unfolding trails_def by (auto intro!: exI [of _ i])
  qed
  with False show ?thesis by (simp add: merge_tortoise_def CIRCULAR_LIST_SUSPICION_LENGTH_def)
next
  case True
  then obtain i where i: "t = Cell (ds ! i)" "i + 1024 \<le> length ds" using t by (auto simp: trails_def)
  define j where "j = (if odd (taken + 1) then Suc i else i)"
  have j: "j < length ds" "j + 1024 \<le> length (ds @ [a])" using i(2) by (auto simp: j_def)
  have step: "(if odd (taken + 1) then if \<not> consp t then Inl (Mapping_Interaction t) else heap_XCDR h t else Inr t) =
      Inr (Cell (ds ! j))"
    using i chain_step [OF c, of i] by (simp add: j_def)
  have "rest \<noteq> Cell (ds ! j)"
  proof
    assume "rest = Cell (ds ! j)"
    then have "ds ! j \<in> set as" using p by (cases as) auto
    with dist nth_mem [OF j(1)] show False by auto
  qed
  then have "merge_tortoise h taken t rest = Inr (Cell (ds ! j))"
    using True unfolding merge_tortoise_def step by (simp add: CIRCULAR_LIST_SUSPICION_LENGTH_def)
  moreover have "trails (ds @ [a]) (taken + 1) rest (Cell (ds ! j))"
    using j True unfolding trails_def by (auto intro!: exI [of _ j] simp: nth_append)
  ultimately show ?thesis by blast
qed

lemma chain_last:
  assumes "chain h ds value tail" "ds \<noteq> []" "distinct ds"
  obtains h' where "Fsetcdr h tail q = Inr h'" "relinked {last ds} h h'" "path h' value ds q"
proof -
  have t: "tail = Cell (last ds)" "path h value (butlast ds) tail" "last ds \<in> dom (cells h)"
    using assms(1,2) by (auto simp: chain_def)
  obtain h' where h': "Fsetcdr h tail q = Inr h'" "relinked {last ds} h h'" "cells h' (last ds) = Some (car_at h (last ds), q)"
    using Fsetcdr_relinks [OF t(3), of q] t(1) by blast
  have "last ds \<notin> set (butlast ds)"
    using assms(2,3) by (metis append_butlast_last_id distinct_append disjoint_iff list.set_intros(1))
  then have "path h' value (butlast ds) tail" using relinked_path [OF h'(2) t(2)] by simp
  then have "path h' value (butlast ds @ [last ds]) q" using t(1) h'(3) by (auto simp: path_append)
  with assms(2) h' that show ?thesis by simp
qed

lemma merge_link_chains:
  assumes "chain h ds value tail" "distinct (ds @ [a])" "a \<in> dom (cells h)"
  obtains value' h' where "merge_link h tail value (Cell a) = Inr (value', h')"
    "chain h' (ds @ [a]) value' (Cell a)" "relinked (set ds) h h'"
proof (cases "ds = []")
  case True
  then show ?thesis using assms that [of "Cell a" h] by (simp add: chain_def merge_link_def)
next
  case False
  moreover have "distinct ds" using assms(2) by simp
  ultimately obtain h' where h': "Fsetcdr h tail (Cell a) = Inr h'" "relinked {last ds} h h'" "path h' value ds (Cell a)"
    using chain_last [OF assms(1), of "Cell a"] by blast
  have "tail \<noteq> Qnil" using assms(1) False by (auto simp: chain_def)
  moreover have "chain h' (ds @ [a]) value (Cell a)" using h'(2,3) assms(3) by (auto simp: chain_def relinked_def)
  moreover have "relinked (set ds) h h'" using relinked_mono [OF h'(2)] False by simp
  ultimately show ?thesis using that [of "value" h'] h'(1) by (simp add: merge_link_def)
qed

lemma merge_finish_chains:
  assumes "chain h ds value tail" "distinct (ds @ as)" "path h rest as Qnil"
  shows "\<exists>r h'. merge_finish h tail value rest = Inr (r, h') \<and> path h' r (ds @ as) Qnil \<and> relinked (set ds) h h'"
proof (cases "ds = []")
  case True
  then show ?thesis using assms by (simp add: chain_def merge_finish_def)
next
  case False
  moreover have "distinct ds" using assms(2) by simp
  ultimately obtain h' where h': "Fsetcdr h tail rest = Inr h'" "relinked {last ds} h h'" "path h' value ds rest"
    using chain_last [OF assms(1), of rest] by blast
  have "tail \<noteq> Qnil" using assms(1) False by (auto simp: chain_def)
  moreover have "last ds \<notin> set as" using assms(2) last_in_set [OF False] by auto
  then have "path h' rest as Qnil" using relinked_path [OF h'(2) assms(3)] by simp
  with h'(3) have "path h' value (ds @ as) Qnil" by (auto simp: path_append)
  moreover have "relinked (set ds) h h'" using relinked_mono [OF h'(2)] False by simp
  ultimately show ?thesis using h'(1) by (simp add: merge_finish_def)
qed


lemma relinked_cars: "relinked S h h' \<Longrightarrow> car_at h' = car_at h"
  by (simp add: relinked_def fun_eq_iff)

lemma trails_zero: "trails ds taken l t \<Longrightarrow> taken = 0 \<Longrightarrow> t = l"
  by (simp add: trails_def)

lemma trails_rest: "trails ds taken l t \<Longrightarrow> 0 < taken \<Longrightarrow> trails ds taken l' t"
  by (simp add: trails_def)

lemma list_merge_loop_merges:
  assumes "path h l1 as Qnil" "path h l2 bs Qnil" "distinct (ds @ as @ bs)" "chain h ds value tail"
    and "trails ds c1 l1 t1" "trails ds c2 l2 t2" "returns_on chk (car_at h ` set (as @ bs))"
  shows "\<exists>r h' cs. list_merge_loop chk h l1 l2 tail value t1 t2 c1 c2 = Some (Inr (r, h')) \<and>
    path h' r (ds @ cs) Qnil \<and> map (car_at h) cs = stable_merge (lss chk) (map (car_at h) as) (map (car_at h) bs) \<and>
    mset cs = mset as + mset bs \<and> relinked (set (ds @ as @ bs)) h h'"
  using assms
proof (induction "length as + length bs" arbitrary: h l1 l2 as bs ds "value" tail t1 t2 c1 c2 rule: less_induct)
  case less
  note prems = less.prems
  consider "as = []" | "as \<noteq> []" "bs = []" | a as' b bs' where "as = a # as'" "bs = b # bs'"
    by (cases as; cases bs) auto
  then show ?case
  proof cases
    case 1
    then have "l1 = Qnil" using prems(1) by simp
    moreover obtain r h' where "merge_finish h tail value l2 = Inr (r, h')" "path h' r (ds @ bs) Qnil" "relinked (set ds) h h'"
      using merge_finish_chains [OF prems(4) _ prems(2)] prems(3) 1 by auto
    ultimately show ?thesis using 1
      by (subst list_merge_loop.simps) (auto intro!: exI [of _ bs] elim: relinked_mono)
  next
    case 2
    then have "l1 \<noteq> Qnil" "l2 = Qnil" using prems(1,2) by (cases as, auto)
    moreover obtain r h' where "merge_finish h tail value l1 = Inr (r, h')" "path h' r (ds @ as) Qnil" "relinked (set ds) h h'"
      using merge_finish_chains [OF prems(4) _ prems(1)] prems(3) 2 by auto
    ultimately show ?thesis using 2
      by (subst list_merge_loop.simps) (auto intro!: exI [of _ as] elim: relinked_mono)
  next
    case (3 a as' b bs')
    obtain x d1 where a: "l1 = Cell a" "cells h a = Some (x, d1)" "path h d1 as' Qnil" using prems(1) 3(1) by auto
    obtain y d2 where b: "l2 = Cell b" "cells h b = Some (y, d2)" "path h d2 bs' Qnil" using prems(2) 3(2) by auto
    have xy: "x = car_at h a" "y = car_at h b" using a b by (simp_all add: car_at_def)
    have chk: "chk y x = Inr (lss chk y x)" using returns_onD [OF prems(7)] 3 xy by simp
    show ?thesis
    proof (cases "lss chk y x")
      case False
      obtain t1' where t1': "merge_tortoise h c1 t1 d1 = Inr t1'" "trails (ds @ [a]) (c1 + 1) d1 t1'"
        using merge_tortoise_trails [of ds c1 a t1 h "value" tail d1 as'] prems(3-5) a 3 by auto
      obtain v h1 where link: "merge_link h tail value (Cell a) = Inr (v, h1)" "chain h1 (ds @ [a]) v (Cell a)" "relinked (set ds) h h1"
        using merge_link_chains [OF prems(4), of a] prems(3) a 3 by auto
      have p: "path h1 d1 as' Qnil" "path h1 l2 bs Qnil"
        using relinked_path [OF link(3) a(3)] relinked_path [OF link(3) prems(2)] prems(3) 3 by auto
      have cars: "car_at h1 = car_at h" by (rule relinked_cars [OF link(3)])
      have "returns_on chk (car_at h1 ` set (as' @ bs))" unfolding cars by (rule returns_on_subset [OF prems(7)]) (use 3 in auto)
      then obtain r h' cs where ih: "list_merge_loop chk h1 d1 l2 (Cell a) v t1' t2 (c1 + 1) c2 = Some (Inr (r, h'))"
          "path h' r ((ds @ [a]) @ cs) Qnil"
          "map (car_at h) cs = stable_merge (lss chk) (map (car_at h) as') (map (car_at h) bs)"
          "mset cs = mset as' + mset bs" "relinked (set ((ds @ [a]) @ as' @ bs)) h1 h'"
        using less.hyps [of as' bs h1 d1 l2 "ds @ [a]" v "Cell a" "c1 + 1" t1' c2 t2]
          p link(2) t1'(2) trails_other [OF prems(6)] prems(3) 3 unfolding cars by auto
      have "list_merge_loop chk h l1 l2 tail value t1 t2 c1 c2 = Some (Inr (r, h'))"
        using a b chk False t1'(1) link(1) ih(1) by (subst list_merge_loop.simps) simp
      moreover have "relinked (set (ds @ as @ bs)) h h'"
        using relinked_trans [OF link(3) ih(5)] by (rule relinked_mono) (use 3 in auto)
      ultimately show ?thesis using ih(2-4) 3 xy False by (intro exI [of _ r] exI [of _ h'] exI [of _ "a # cs"]) simp
    next
      case True
      obtain t2' where t2': "merge_tortoise h c2 t2 d2 = Inr t2'" "trails (ds @ [b]) (c2 + 1) d2 t2'"
        using merge_tortoise_trails [of ds c2 b t2 h "value" tail d2 bs'] prems(3,4,6) b 3 by auto
      obtain v h1 where link: "merge_link h tail value (Cell b) = Inr (v, h1)" "chain h1 (ds @ [b]) v (Cell b)" "relinked (set ds) h h1"
        using merge_link_chains [OF prems(4), of b] prems(3) b 3 by auto
      have p: "path h1 l1 as Qnil" "path h1 d2 bs' Qnil"
        using relinked_path [OF link(3) b(3)] relinked_path [OF link(3) prems(1)] prems(3) 3 by auto
      have cars: "car_at h1 = car_at h" by (rule relinked_cars [OF link(3)])
      have "returns_on chk (car_at h1 ` set (as @ bs'))" unfolding cars by (rule returns_on_subset [OF prems(7)]) (use 3 in auto)
      then obtain r h' cs where ih: "list_merge_loop chk h1 l1 d2 (Cell b) v t1 t2' c1 (c2 + 1) = Some (Inr (r, h'))"
          "path h' r ((ds @ [b]) @ cs) Qnil"
          "map (car_at h) cs = stable_merge (lss chk) (map (car_at h) as) (map (car_at h) bs')"
          "mset cs = mset as + mset bs'" "relinked (set ((ds @ [b]) @ as @ bs')) h1 h'"
        using less.hyps [of as bs' h1 l1 d2 "ds @ [b]" v "Cell b" c1 t1 "c2 + 1" t2']
          p link(2) t2'(2) trails_other [OF prems(5)] prems(3) 3 unfolding cars by auto
      have "list_merge_loop chk h l1 l2 tail value t1 t2 c1 c2 = Some (Inr (r, h'))"
        using a b chk True t2'(1) link(1) ih(1) by (subst list_merge_loop.simps) simp
      moreover have "relinked (set (ds @ as @ bs)) h h'"
        using relinked_trans [OF link(3) ih(5)] by (rule relinked_mono) (use 3 in auto)
      ultimately show ?thesis using ih(2-4) 3 xy True by (intro exI [of _ r] exI [of _ h'] exI [of _ "b # cs"]) simp
    qed
  qed
qed

lemma list_merge_merges:
  assumes "path h l1 as Qnil" "path h l2 bs Qnil" "set as \<inter> set bs = {}"
    and "returns_on chk (car_at h ` (set as \<union> set bs))"
  shows "\<exists>r h' cs. list_merge chk h l1 l2 = Some (Inr (r, h')) \<and> path h' r cs Qnil \<and>
    map (car_at h') cs = stable_merge (lss chk) (map (car_at h) as) (map (car_at h) bs) \<and>
    mset cs = mset as + mset bs \<and> relinked (set as \<union> set bs) h h'"
proof -
  have "distinct (as @ bs)" using path_distinct [OF assms(1)] path_distinct [OF assms(2)] assms(3) by simp
  then obtain r h' cs where r: "list_merge chk h l1 l2 = Some (Inr (r, h'))" "path h' r cs Qnil"
      "map (car_at h) cs = stable_merge (lss chk) (map (car_at h) as) (map (car_at h) bs)"
      "mset cs = mset as + mset bs" "relinked (set as \<union> set bs) h h'"
    using list_merge_loop_merges [OF assms(1,2), of "[]" Qnil Qnil 0 l1 0 l2 chk] assms(4)
    by (auto simp: list_merge_def chain_def trails_def image_Un)
  then show ?thesis using relinked_cars [OF r(5)] by auto
qed


text \<open>
  C19: The destructive merge of two disjoint lists returns, without a false report of circularity
  however long they are: the result consists of the conses of the two lists, in the order of the
  stable merge of their elements, and nothing else in memory has changed.
\<close>

theorem list_merge_correct:
  assumes "path h l1 as Qnil" "path h l2 bs Qnil" "set as \<inter> set bs = {}"
    and "returns_on chk (car_at h ` (set as \<union> set bs))"
  shows "\<exists>r h' cs. list_merge chk h l1 l2 = Some (Inr (r, h')) \<and> path h' r cs Qnil \<and>
    map (car_at h') cs = stable_merge (lss chk) (map (car_at h) as) (map (car_at h) bs) \<and>
    mset cs = mset as + mset bs \<and> relinked (set as \<union> set bs) h h'"
  by (rule list_merge_merges [OF assms])

lemma list_merge_correct_witness:
  "\<exists>r h' cs. list_merge (\<lambda>x y. Inr (x = Atom (1::nat) \<and> y = Atom 2)) example_heap (Cell 1) Qnil = Some (Inr (r, h')) \<and>
     path h' r cs Qnil \<and> mset cs = {#1, 2#}"
proof -
  have "path example_heap (Cell 1) [1, 2] Qnil" "path example_heap Qnil [] Qnil" by (simp_all add: example_heap_def)
  from list_merge_correct [OF this, of "\<lambda>x y. Inr (x = Atom 1 \<and> y = Atom 2)"] show ?thesis
    by (fastforce simp: returns_on_def)
qed

section \<open>The merge sort of a list\<close>

lemma heap_wf_relinked:
  assumes "heap_wf h" "relinked S h h'" "path h' r bs Qnil" "S \<subseteq> set bs"
  shows "heap_wf h'"
  unfolding heap_wf_def
proof (intro allI impI conjI)
  fix a x d assume c: "cells h' a = Some (x, d)"
  have dom: "dom (cells h') = dom (cells h)" using assms(2) by (simp add: relinked_def)
  then have "a \<in> dom (cells h)" using c by auto
  then show "a < brk h'" using assms(1,2) by (auto simp: heap_wf_def relinked_def)
  fix b assume b: "d = Cell b"
  show "b \<in> dom (cells h')"
  proof (cases "a \<in> S")
    case True
    then obtain us vs where bs: "bs = us @ a # vs" using assms(4) by (meson split_list subset_iff)
    with assms(3) c have "path h' d vs Qnil" by (auto simp: path_append)
    with b have "b \<in> set vs" by (cases vs) auto
    with path_dom [OF assms(3)] bs show ?thesis by auto
  next
    case False
    with c assms(2) have "cells h a = Some (x, d)" by (simp add: relinked_def)
    with assms(1) b dom show ?thesis by (auto simp: heap_wf_def)
  qed
qed

lemma Fnthcdr_path: "path h p as q \<Longrightarrow> k < length as \<Longrightarrow> Fnthcdr h k p = Inr (Cell (as ! k))"
proof (induction as arbitrary: p k)
  case (Cons a as)
  then show ?case by (cases k) auto
qed simp

lemma path_valid: "path h p as q \<Longrightarrow> \<not> consp q \<Longrightarrow> valid_obj h p"
  by (cases as) (auto simp: valid_obj_def)

lemma Flength_path:
  assumes "heap_wf h" "path h p as Qnil"
  shows "Flength h p = Some (Inr (length as))"
proof (cases as)
  case (Cons a bs)
  with external_list_proper [OF assms(1) path_valid [OF assms(2)] assms(2)] assms(2) show ?thesis
    by (auto simp: Flength_def)
qed (use assms in \<open>simp add: Flength_def\<close>)

text \<open>What \<open>list_sort\<close> does before it recurs: it cuts the list in two.\<close>

lemma list_sort_cut:
  assumes "heap_wf h" "path h p as Qnil" "2 \<le> length as"
  obtains tem rear h1 where
    "Fnthcdr h (length as div 2 - 1) p = Inr tem" "Fcdr h tem = Inr rear" "Fsetcdr h tem Qnil = Inr h1"
    "path h1 p (take (length as div 2) as) Qnil" "path h1 rear (drop (length as div 2) as) Qnil"
    "relinked (set (take (length as div 2) as)) h h1" "heap_wf h1"
proof -
  let ?k = "length as div 2 - 1"
  let ?t = "as ! ?k" and ?rear = "drop (Suc ?k) as"
  have k: "?k < length as" "Suc ?k = length as div 2" using assms(3) by auto
  have split: "as = take ?k as @ ?t # ?rear" using k(1) by (rule id_take_nth_drop)
  have "path h p (take ?k as @ ?t # ?rear) Qnil" using assms(2) split by simp
  then obtain x d where t: "path h p (take ?k as) (Cell ?t)" "cells h ?t = Some (x, d)" "path h d ?rear Qnil"
    by (auto simp: path_append)
  obtain h1 where h1: "Fsetcdr h (Cell ?t) Qnil = Inr h1" "relinked {?t} h h1" "cells h1 ?t = Some (car_at h ?t, Qnil)"
    using Fsetcdr_relinks [of ?t h Qnil] t(2) by blast
  have "distinct (take ?k as @ ?t # ?rear)" using path_distinct [OF assms(2)] split by simp
  then have "?t \<notin> set (take ?k as)" "?t \<notin> set ?rear" by auto
  then have "path h1 p (take ?k as) (Cell ?t)" "path h1 d ?rear Qnil"
    using relinked_path [OF h1(2) t(1)] relinked_path [OF h1(2) t(3)] by auto
  then have p1: "path h1 p (take ?k as @ [?t]) Qnil" "path h1 d ?rear Qnil" using h1(3) by (auto simp: path_append)
  have front: "take ?k as @ [?t] = take (length as div 2) as" using k by (metis take_Suc_conv_app_nth)
  have r: "relinked (set (take (length as div 2) as)) h h1" by (rule relinked_mono [OF h1(2)]) (simp add: front [symmetric])
  show ?thesis
  proof (rule that [of "Cell ?t" d h1])
    show "Fnthcdr h ?k p = Inr (Cell ?t)" using assms(2) k(1) by (rule Fnthcdr_path)
    show "heap_wf h1" using heap_wf_relinked [OF assms(1) h1(2) p1(1)] by simp
  qed (use t(2) h1(1) p1 front k(2) r in simp_all)
qed

lemma list_sort_sorts:
  assumes "heap_wf h" "path h p as Qnil" "returns_on chk (car_at h ` set as)"
  shows "\<exists>r h' cs. list_sort chk h p = Some (Inr (r, h')) \<and> path h' r cs Qnil \<and>
    map (car_at h) cs = stable_msort (lss chk) (map (car_at h) as) \<and> mset cs = mset as \<and>
    relinked (set as) h h' \<and> heap_wf h'"
  using assms
proof (induction "length as" arbitrary: h p as rule: less_induct)
  case less
  note prems = less.prems
  show ?case
  proof (cases "length as < 2")
    case True
    then show ?thesis using prems Flength_path [OF prems(1,2)]
      by (subst list_sort.simps, subst stable_msort.simps) auto
  next
    case False
    let ?f = "take (length as div 2) as" and ?b = "drop (length as div 2) as"
    obtain tem rear h1 where cut: "Fnthcdr h (length as div 2 - 1) p = Inr tem" "Fcdr h tem = Inr rear"
        "Fsetcdr h tem Qnil = Inr h1" "path h1 p ?f Qnil" "path h1 rear ?b Qnil" "relinked (set ?f) h h1" "heap_wf h1"
      using list_sort_cut [OF prems(1,2)] False by auto
    have sub: "set ?f \<subseteq> set as" "set ?b \<subseteq> set as" by (rule set_take_subset, rule set_drop_subset)
    have disj: "set ?f \<inter> set ?b = {}" using path_distinct [OF prems(2)] by (simp add: set_take_disj_set_drop_if_distinct)
    have c1: "car_at h1 = car_at h" by (rule relinked_cars [OF cut(6)])
    have lt: "length ?f < length as" "length ?b < length as" using False by simp_all
    have ret1: "returns_on chk (car_at h1 ` set ?f)" unfolding c1 by (rule returns_on_subset [OF prems(3)]) (use sub in auto)
    obtain front h2 fs where s1: "list_sort chk h1 p = Some (Inr (front, h2))" "path h2 front fs Qnil"
        "map (car_at h1) fs = stable_msort (lss chk) (map (car_at h1) ?f)" "mset fs = mset ?f" "relinked (set ?f) h1 h2" "heap_wf h2"
      using less.hyps [OF lt(1) cut(7,4) ret1] by blast
    have c2: "car_at h2 = car_at h" using relinked_cars [OF s1(5)] c1 by simp
    have ret2: "returns_on chk (car_at h2 ` set ?b)" unfolding c2 by (rule returns_on_subset [OF prems(3)]) (use sub in auto)
    have pb: "path h2 rear ?b Qnil" using relinked_path [OF s1(5) cut(5)] disj by blast
    obtain back' h3 gs where s2: "list_sort chk h2 rear = Some (Inr (back', h3))" "path h3 back' gs Qnil"
        "map (car_at h2) gs = stable_msort (lss chk) (map (car_at h2) ?b)" "mset gs = mset ?b" "relinked (set ?b) h2 h3" "heap_wf h3"
      using less.hyps [OF lt(2) s1(6) pb ret2] by blast
    have c3: "car_at h3 = car_at h" using relinked_cars [OF s2(5)] c2 by simp
    have fsgs: "set fs = set ?f" "set gs = set ?b" using s1(4) s2(4) by (metis set_mset_mset)+
    have pf: "path h3 front fs Qnil" using relinked_path [OF s2(5) s1(2)] disj fsgs(1) by simp
    have ret3: "returns_on chk (car_at h3 ` (set fs \<union> set gs))"
      unfolding c3 fsgs by (rule returns_on_subset [OF prems(3)]) (use sub in auto)
    obtain r h4 cs where m: "list_merge chk h3 front back' = Some (Inr (r, h4))" "path h4 r cs Qnil"
        "map (car_at h4) cs = stable_merge (lss chk) (map (car_at h3) fs) (map (car_at h3) gs)"
        "mset cs = mset fs + mset gs" "relinked (set fs \<union> set gs) h3 h4"
      using list_merge_merges [OF pf s2(2) _ ret3] disj fsgs by auto
    have c4: "car_at h4 = car_at h" using relinked_cars [OF m(5)] c3 by simp
    have ms: "mset cs = mset as" using m(4) s1(4) s2(4) by (metis append_take_drop_id mset_append)
    have "list_sort chk h p = Some (Inr (r, h4))"
      using Flength_path [OF prems(1,2)] False cut(1-3) s1(1) s2(1) m(1) by (subst list_sort.simps) simp
    moreover have "map (car_at h) cs = stable_msort (lss chk) (map (car_at h) as)"
      using m(3) s1(3) s2(3) False by (subst stable_msort.simps) (simp add: c1 c2 c3 c4 take_map drop_map)
    moreover have "relinked (set as) h h4"
      by (rule relinked_mono [OF relinked_trans [OF relinked_trans [OF relinked_trans [OF cut(6) s1(5)] s2(5)] m(5)]])
        (use sub fsgs in auto)
    moreover have "heap_wf h4"
      by (rule heap_wf_relinked [OF s2(6) m(5) m(2)]) (use m(4) in \<open>metis set_mset_mset set_mset_union subset_refl\<close>)
    ultimately show ?thesis using m(2) ms by blast
  qed
qed


section \<open>Sorting by numbers\<close>

text \<open>The number an element is compared by, and the elements that have one.\<close>

definition key_number :: "(lisp_word obj \<Rightarrow> lisp_word list_error + lisp_word obj) \<Rightarrow> lisp_word obj \<Rightarrow> int" where
  "key_number key x = projr (arith_value (projr (key x)))"

definition number_keys :: "(lisp_word obj \<Rightarrow> lisp_word list_error + lisp_word obj) \<Rightarrow> lisp_word obj set" where
  "number_keys key = {x. \<exists>k n. key x = Inr k \<and> arith_value k = Inr n}"

lemma check_lss_key_number:
  "x \<in> number_keys key \<Longrightarrow> y \<in> number_keys key \<Longrightarrow>
     check_lss_key key x y = Inr (key_number key x < key_number key y)"
  by (auto simp: number_keys_def check_lss_key_def bytecode_arithcompare_def key_number_def)

lemma lss_key_number:
  "x \<in> number_keys key \<Longrightarrow> y \<in> number_keys key \<Longrightarrow>
     lss (check_lss_key key) x y \<longleftrightarrow> key_number key x < key_number key y"
  by (simp add: lss_def check_lss_key_number)

lemma returns_on_number_keys: "returns_on (check_lss_key key) (number_keys key)"
  by (simp add: returns_on_def check_lss_key_number)

lemma merge_predicate_lss_key: "merge_predicate (check_lss_key key) (number_keys key)"
  by unfold_locales (auto simp: lss_key_number returns_on_number_keys)

interpretation lss_key: merge_predicate "check_lss_key key" "number_keys key" for key
  by (rule merge_predicate_lss_key)

lemma check_lss_nokey_key: "check_lss_nokey = check_lss_key Inr"
  by (simp add: fun_eq_iff check_lss_nokey_def check_lss_key_def)

interpretation lss_nokey: merge_predicate check_lss_nokey "number_keys Inr"
  unfolding check_lss_nokey_key by (rule merge_predicate_lss_key)

lemma stable_msort_sort_key:
  assumes "set xs \<subseteq> number_keys key"
  shows "stable_msort (lss (check_lss_key key)) xs = sort_key (key_number key) xs"
proof -
  let ?ys = "stable_msort (lss (check_lss_key key)) xs" and ?f = "key_number key"
  have s: "lss_key.ordered key ?ys" "\<And>a. a \<in> number_keys key \<Longrightarrow> filter (lss_key.alike key a) ?ys = filter (lss_key.alike key a) xs"
    using lss_key.stable_msort_sorts [OF assms] by auto
  have "sort_key ?f xs = ?ys"
  proof (rule properties_for_sort_key)
    show "mset ?ys = mset xs" by simp
    have "sorted_wrt (\<lambda>x y. ?f x \<le> ?f y) ?ys"
      using s(1) unfolding lss_key.ordered_def
      by (rule sorted_wrt_mono_rel [rotated]) (use assms in \<open>auto simp: lss_key_number subset_iff not_less\<close>)
    then show "sorted (map ?f ?ys)" by (simp add: sorted_wrt_map)
  next
    fix k assume "k \<in> set ?ys"
    then have k: "k \<in> number_keys key" using assms by auto
    have "filter (\<lambda>x. ?f k = ?f x) zs = filter (lss_key.alike key k) zs" if "set zs \<subseteq> number_keys key" for zs
      by (rule filter_cong) (use k that in \<open>auto simp: lss_key.alike_def lss_key_number subset_iff\<close>)
    with s(2) [OF k] assms show "filter (\<lambda>x. ?f k = ?f x) ?ys = filter (\<lambda>x. ?f k = ?f x) xs" by simp
  qed
  then show ?thesis by simp
qed

text \<open>
  C13: \<open>sort*\<close> with the predicate \<open><\<close> on a list whose elements have numbers as keys returns a list of
  the same conses, in which the elements are sorted by their keys and elements with the same key
  are in the order they had before; no other cons has changed.
\<close>

theorem list_sort_correct:
  assumes "heap_wf h" "path h p as Qnil" "car_at h ` set as \<subseteq> number_keys key"
  shows "\<exists>r h' cs. list_sort (check_lss_key key) h p = Some (Inr (r, h')) \<and> path h' r cs Qnil \<and>
    map (car_at h') cs = sort_key (key_number key) (map (car_at h) as) \<and> mset cs = mset as \<and>
    (\<forall>a. a \<notin> set as \<longrightarrow> cells h' a = cells h a)"
proof -
  have "returns_on (check_lss_key key) (car_at h ` set as)"
    using returns_on_subset [OF returns_on_number_keys assms(3)] .
  then obtain r h' cs where r: "list_sort (check_lss_key key) h p = Some (Inr (r, h'))" "path h' r cs Qnil"
      "map (car_at h) cs = stable_msort (lss (check_lss_key key)) (map (car_at h) as)" "mset cs = mset as"
      "relinked (set as) h h'"
    using list_sort_sorts [OF assms(1,2)] by blast
  moreover have "set (map (car_at h) as) \<subseteq> number_keys key" using assms(3) by simp
  ultimately show ?thesis
    using stable_msort_sort_key [of "map (car_at h) as" key] relinked_cars [OF r(5)] by (auto simp: relinked_def)
qed

definition example_numbers :: "lisp_word heap" where
  "example_numbers = \<lparr>cells = [0 \<mapsto> (Atom (make_fixnum 3), Cell 1), 1 \<mapsto> (Atom (make_fixnum 1), Cell 2),
     2 \<mapsto> (Atom (make_fixnum 2), Qnil)], brk = 3\<rparr>"

lemma list_sort_correct_witness:
  "\<exists>r h' cs. list_sort (check_lss_key Inr) example_numbers (Cell 0) = Some (Inr (r, h')) \<and> path h' r cs Qnil \<and>
     mset cs = {#0, 1, 2#}"
proof -
  have w: "heap_wf example_numbers" by (auto simp: heap_wf_def example_numbers_def split: if_splits)
  have p: "path example_numbers (Cell 0) [0, 1, 2] Qnil" by (simp add: example_numbers_def)
  have "car_at example_numbers ` set [0, 1, 2] \<subseteq> number_keys Inr"
    by (auto simp: number_keys_def arith_value_def example_numbers_def car_at_def)
  from list_sort_correct [OF w p this] show ?thesis by fastforce
qed


section \<open>The merge of two arrays\<close>

text \<open>A part reads as \<open>xs\<close> while the memory from \<open>lo\<close> up to \<open>hi\<close> is written.\<close>

definition reads :: "nat \<Rightarrow> nat \<Rightarrow> 'x list \<Rightarrow> 'x list option \<Rightarrow> nat \<Rightarrow> 'x list \<Rightarrow> bool" where
  "reads lo hi mem st part xs \<longleftrightarrow>
     (\<forall>i < length xs. fetch mem st part i = xs ! i) \<and>
     (st = None \<longrightarrow> part + length xs \<le> lo \<or> hi \<le> part)"

lemma reads_update:
  "reads lo hi mem st part xs \<Longrightarrow> lo \<le> j \<Longrightarrow> j < hi \<Longrightarrow> reads lo hi (mem[j := v]) st part xs"
  by (auto simp: reads_def fetch_def nth_list_update split: option.splits)

lemma readsD: "reads lo hi mem st part xs \<Longrightarrow> i < length xs \<Longrightarrow> fetch mem st part i = xs ! i"
  by (simp add: reads_def)

lemma copy_rest_copies:
  "reads lo hi mem st part xs \<Longrightarrow> lo \<le> d \<Longrightarrow> d + n \<le> hi \<Longrightarrow> hi \<le> length mem \<Longrightarrow> k + n = length xs \<Longrightarrow>
     copy_rest mem d st part k n = take d mem @ drop k xs @ drop (d + n) mem"
proof (induction n arbitrary: mem d k)
  case (Suc n)
  then have r: "reads lo hi (mem[d := xs ! k]) st part xs" "fetch mem st part k = xs ! k"
    by (auto intro: reads_update readsD)
  have d: "d < length mem" "k < length xs" using Suc.prems by simp_all
  then have "take (d + 1) (mem[d := xs ! k]) = take d mem @ [xs ! k]" by (simp add: take_Suc_conv_app_nth)
  moreover have "drop k xs = xs ! k # drop (k + 1) xs" using Cons_nth_drop_Suc [OF d(2)] by simp
  ultimately show ?case using Suc.IH [OF r(1), of "d + 1" "k + 1"] Suc.prems r(2) by simp
qed simp

lemma array_merge_loop_merges:
  assumes "reads dest (dest + dest_len) mem fs front xs" "reads dest (dest + dest_len) mem bs rear ys"
    and "dest_len = length xs + length ys" "dest + dest_len \<le> length mem"
    and "ii = i + j" "i \<le> length xs" "j \<le> length ys" "returns_on chk (set xs \<union> set ys)"
  shows "array_merge_loop chk mem dest dest_len fs front (length xs) bs rear (length ys) ii i j =
    Inr (take (dest + ii) mem @ stable_merge (lss chk) (drop i xs) (drop j ys) @ drop (dest + dest_len) mem)"
  using assms
proof (induction "dest_len - ii" arbitrary: mem ii i j rule: less_induct)
  case less
  note prems = less.prems
  consider "i = length xs" | "i < length xs" "j = length ys" | "i < length xs" "j < length ys"
    using prems(6,7) by linarith
  then show ?case
  proof cases
    case 1
    show ?thesis
    proof (cases "ii < dest_len")
      case True
      then show ?thesis using 1 prems copy_rest_copies [OF prems(2), of "dest + ii" "dest_len - ii" j]
        by (subst array_merge_loop.simps) simp
    qed (use 1 prems in \<open>subst array_merge_loop.simps, simp\<close>)
  next
    case 2
    then show ?thesis using prems copy_rest_copies [OF prems(1), of "dest + ii" "dest_len - ii" i]
      by (subst array_merge_loop.simps) (simp add: ac_simps)
  next
    case 3
    let ?x = "xs ! i" and ?y = "ys ! j"
    have f: "fetch mem fs front i = ?x" "fetch mem bs rear j = ?y" using prems(1,2) 3 by (auto intro: readsD)
    have chk: "chk ?y ?x = Inr (lss chk ?y ?x)" using returns_onD [OF prems(8)] 3 by simp
    have d: "drop i xs = ?x # drop (Suc i) xs" "drop j ys = ?y # drop (Suc j) ys"
      using 3 by (simp_all add: Cons_nth_drop_Suc)
    have lt: "dest_len - (ii + 1) < dest_len - ii" "ii < dest_len" "dest + ii < length mem" using prems 3 by simp_all
    have u: "reads dest (dest + dest_len) (mem[dest + ii := v]) fs front xs"
        "reads dest (dest + dest_len) (mem[dest + ii := v]) bs rear ys"
        "take (dest + ii + 1) (mem[dest + ii := v]) = take (dest + ii) mem @ [v]" for v
      using prems(1,2) lt by (auto intro!: reads_update simp: take_Suc_conv_app_nth)
    show ?thesis
    proof (cases "lss chk ?y ?x")
      case False
      have "array_merge_loop chk (mem[dest + ii := ?x]) dest dest_len fs front (length xs) bs rear (length ys) (ii + 1) (i + 1) j =
          Inr (take (dest + (ii + 1)) (mem[dest + ii := ?x]) @ stable_merge (lss chk) (drop (i + 1) xs) (drop j ys) @
            drop (dest + dest_len) (mem[dest + ii := ?x]))"
        by (rule less.hyps [OF lt(1) u(1,2)]) (use prems 3 in auto)
      then show ?thesis using False f chk u(3) [of ?x] lt 3 d by (subst array_merge_loop.simps) (simp add: add.assoc)
    next
      case True
      have "array_merge_loop chk (mem[dest + ii := ?y]) dest dest_len fs front (length xs) bs rear (length ys) (ii + 1) i (j + 1) =
          Inr (take (dest + (ii + 1)) (mem[dest + ii := ?y]) @ stable_merge (lss chk) (drop i xs) (drop (j + 1) ys) @
            drop (dest + dest_len) (mem[dest + ii := ?y]))"
        by (rule less.hyps [OF lt(1) u(1,2)]) (use prems 3 in auto)
      then show ?thesis using True f chk u(3) [of ?y] lt 3 d by (subst array_merge_loop.simps) (simp add: add.assoc)
    qed
  qed
qed

definition segment :: "'x list \<Rightarrow> nat \<Rightarrow> nat \<Rightarrow> 'x list" where
  "segment mem part len = take len (drop part mem)"

text \<open>A part of the merge lies outside the destination, or starts in it (and then it is copied).\<close>

definition part_ok :: "nat \<Rightarrow> nat \<Rightarrow> nat \<Rightarrow> nat \<Rightarrow> bool" where
  "part_ok dest dest_len part len \<longleftrightarrow> dest \<le> part \<or> part + len \<le> dest"

lemma staged_reads:
  "part_ok dest dest_len part len \<Longrightarrow> part + len \<le> length mem \<Longrightarrow>
     reads dest (dest + dest_len) mem (staged mem dest dest_len part len) part (segment mem part len)"
  by (auto simp: reads_def part_ok_def staged_def fetch_def segment_def)

lemma length_segment [simp]: "part + len \<le> length mem \<Longrightarrow> length (segment mem part len) = len"
  by (simp add: segment_def)

lemma array_merge_merges:
  assumes "dest_len = front_len + back_len" "dest + dest_len \<le> length mem"
    and "front + front_len \<le> length mem" "rear + back_len \<le> length mem"
    and "part_ok dest dest_len front front_len" "part_ok dest dest_len rear back_len"
    and "returns_on chk (set (segment mem front front_len) \<union> set (segment mem rear back_len))"
  shows "array_merge chk mem dest dest_len front front_len rear back_len =
    Some (Inr (take dest mem @
      stable_merge (lss chk) (segment mem front front_len) (segment mem rear back_len) @ drop (dest + dest_len) mem))"
proof (cases "dest_len = 0")
  case True
  then show ?thesis using assms(1) by (simp add: array_merge_def segment_def)
next
  case False
  have r: "reads dest (dest + dest_len) mem (staged mem dest dest_len front front_len) front (segment mem front front_len)"
      "reads dest (dest + dest_len) mem (staged mem dest dest_len rear back_len) rear (segment mem rear back_len)"
    using staged_reads assms(3-6) by blast+
  show ?thesis
    using array_merge_loop_merges [OF r, of 0 0 0 chk] assms False by (auto simp: array_merge_def add.commute)
qed

text \<open>
  The merge of two arrays writes the stable merge of them to the destination and nothing else,
  also where the destination overlaps the arrays merged.
\<close>

theorem array_merge_correct:
  assumes "dest_len = front_len + back_len" "dest + dest_len \<le> length mem"
    and "front + front_len \<le> length mem" "rear + back_len \<le> length mem"
    and "part_ok dest dest_len front front_len" "part_ok dest dest_len rear back_len"
    and "returns_on chk (set (segment mem front front_len) \<union> set (segment mem rear back_len))"
  shows "array_merge chk mem dest dest_len front front_len rear back_len =
    Some (Inr (take dest mem @
      stable_merge (lss chk) (segment mem front front_len) (segment mem rear back_len) @ drop (dest + dest_len) mem))"
  by (rule array_merge_merges [OF assms])

lemma array_merge_correct_witness:
  "array_merge check_lss_nokey (map (\<lambda>n. Atom (make_fixnum n)) [1, 3, 2, 4]) 0 4 0 2 2 2 =
     Some (Inr (stable_merge (lss check_lss_nokey) (map (\<lambda>n. Atom (make_fixnum n)) [1, 3]) (map (\<lambda>n. Atom (make_fixnum n)) [2, 4])))"
proof -
  let ?mem = "map (\<lambda>n. Atom (make_fixnum n)) [1, 3, 2, 4]"
  have "returns_on check_lss_nokey (set (segment ?mem 0 2) \<union> set (segment ?mem 2 2))"
    by (rule returns_on_subset [OF lss_nokey.returns])
      (auto simp: segment_def number_keys_def arith_value_def numeral_2_eq_2)
  from array_merge_correct [OF _ _ _ _ _ _ this, of 4 0] show ?thesis
    by (simp add: part_ok_def segment_def numeral_2_eq_2)
qed


section \<open>The merge sort of an array\<close>

lemma segment_replace:
  assumes "arr + len \<le> length mem" "length xs = len" "mem' = take arr mem @ xs @ drop (arr + len) mem"
  shows "length mem' = length mem" "segment mem' arr len = xs"
    "n \<le> arr \<Longrightarrow> take n mem' = take n mem" "arr + len \<le> n \<Longrightarrow> drop n mem' = drop n mem"
  using assms by (simp_all add: segment_def)

lemma segment_halves:
  assumes "arr + len \<le> length mem" "k \<le> len"
  shows "segment mem arr k = take k (segment mem arr len)" "segment mem (arr + k) (len - k) = drop k (segment mem arr len)"
  using assms by (simp_all add: segment_def min_def drop_take add.commute)

lemma array_sort_sorts:
  assumes "arr + len \<le> length mem" "returns_on chk (set (segment mem arr len))"
  shows "array_sort chk mem arr len =
    Some (Inr (take arr mem @ stable_msort (lss chk) (segment mem arr len) @ drop (arr + len) mem))"
  using assms
proof (induction len arbitrary: mem arr rule: less_induct)
  case (less len)
  note prems = less.prems
  let ?s = "segment mem arr len"
  show ?case
  proof (cases "len < 2")
    case True
    then have "stable_msort (lss chk) ?s = ?s" using prems(1) by (subst stable_msort.simps) simp
    moreover have "take arr mem @ ?s @ drop (arr + len) mem = mem"
      by (simp add: segment_def) (metis add.commute append_take_drop_id drop_drop)
    ultimately show ?thesis using True by (subst array_sort.simps) simp
  next
    case False
    define k where "k = len div 2"
    have k: "k \<le> len" "k < len" "len - k < len" using False by (auto simp: k_def)
    let ?f = "take k ?s" and ?b = "drop k ?s"
    have halves: "segment mem arr k = ?f" "segment mem (arr + k) (len - k) = ?b"
      using segment_halves [OF prems(1) k(1)] by simp_all
    have sub: "set ?f \<subseteq> set ?s" "set ?b \<subseteq> set ?s" by (rule set_take_subset, rule set_drop_subset)
    define m1 where "m1 = take arr mem @ stable_msort (lss chk) ?f @ drop (arr + k) mem"
    have s1: "array_sort chk mem arr k = Some (Inr m1)"
      unfolding m1_def halves [symmetric]
      by (rule less.IH) (use k prems halves returns_on_subset [OF prems(2) sub(1)] in auto)
    have lf: "length ?f = k" "length ?b = len - k" using prems(1) k(1) by simp_all
    note r1 = segment_replace [of arr k mem "stable_msort (lss chk) ?f" m1]
    have m1: "length m1 = length mem" "segment m1 arr k = stable_msort (lss chk) ?f" "take arr m1 = take arr mem"
        "drop (arr + k) m1 = drop (arr + k) mem"
      using r1(1,2) r1(3) [of arr] r1(4) [of "arr + k"] prems(1) k(1) lf by (simp_all add: m1_def)
    have b1: "segment m1 (arr + k) (len - k) = ?b" using m1(4) halves(2) by (simp add: segment_def)
    define m2 where "m2 = take (arr + k) m1 @ stable_msort (lss chk) ?b @ drop (arr + k + (len - k)) m1"
    have s2: "array_sort chk m1 (arr + k) (len - k) = Some (Inr m2)"
      unfolding m2_def b1 [symmetric]
      by (rule less.IH) (use k prems m1(1) b1 returns_on_subset [OF prems(2) sub(2)] in auto)
    note r2 = segment_replace [of "arr + k" "len - k" m1 "stable_msort (lss chk) ?b" m2]
    have m2: "length m2 = length m1" "segment m2 (arr + k) (len - k) = stable_msort (lss chk) ?b"
        "take (arr + k) m2 = take (arr + k) m1" "drop (arr + len) m2 = drop (arr + len) m1"
      using r2(1,2) r2(3) [of "arr + k"] r2(4) [of "arr + len"] prems(1) k(1) lf m1(1) by (simp_all add: m2_def)
    have f2: "segment m2 arr k = stable_msort (lss chk) ?f"
      using m2(3) m1(2) by (simp add: segment_def) (metis add_diff_cancel_left' drop_take)
    have ends: "take arr m2 = take arr mem" "drop (arr + len) m2 = drop (arr + len) mem"
    proof -
      have "take arr m2 = take arr m1" using m2(3) by (metis le_add1 min.absorb1 take_take)
      with m1(3) show "take arr m2 = take arr mem" by simp
      have "drop (len - k) (drop (arr + k) m1) = drop (len - k) (drop (arr + k) mem)" using m1(4) by simp
      then have "drop (arr + len) m1 = drop (arr + len) mem" using k(1) by (simp add: add.commute)
      with m2(4) show "drop (arr + len) m2 = drop (arr + len) mem" by simp
    qed
    have ret: "returns_on chk (set (segment m2 arr k) \<union> set (segment m2 (arr + k) (len - k)))"
      unfolding f2 m2(2) by (rule returns_on_subset [OF prems(2)]) (use sub in auto)
    have s3: "array_merge chk m2 arr len arr k (arr + k) (len - k) =
        Some (Inr (take arr m2 @ stable_merge (lss chk) (segment m2 arr k) (segment m2 (arr + k) (len - k)) @ drop (arr + len) m2))"
      by (rule array_merge_merges [OF _ _ _ _ _ _ ret]) (use prems(1) k m1(1) m2(1) in \<open>auto simp: part_ok_def\<close>)
    have "stable_msort (lss chk) ?s = stable_merge (lss chk) (stable_msort (lss chk) ?f) (stable_msort (lss chk) ?b)"
      using False prems(1) by (subst stable_msort.simps) (simp add: k_def)
    then show ?thesis
      using False s1 s2 s3 f2 m2(2) ends by (subst array_sort.simps) (simp add: k_def Let_def)
  qed
qed

text \<open>
  C14: The sort of a vector with the predicate \<open><\<close> sorts the segment it is given in place, stably, and
  changes nothing outside it.
\<close>

theorem array_sort_correct:
  assumes "arr + len \<le> length mem" "set (segment mem arr len) \<subseteq> number_keys key"
  shows "array_sort (check_lss_key key) mem arr len =
    Some (Inr (take arr mem @ sort_key (key_number key) (segment mem arr len) @ drop (arr + len) mem))"
  using array_sort_sorts [OF assms(1) returns_on_subset [OF returns_on_number_keys assms(2)]]
    stable_msort_sort_key [OF assms(2)] by simp

lemma array_sort_correct_witness:
  "array_sort (check_lss_key Inr) (map (\<lambda>n. Atom (make_fixnum n)) [3, 1, 2]) 0 3 =
     Some (Inr (sort_key (key_number Inr) (map (\<lambda>n. Atom (make_fixnum n)) [3, 1, 2])))"
proof -
  let ?mem = "map (\<lambda>n. Atom (make_fixnum n)) [3, 1, 2]"
  have "set (segment ?mem 0 3) \<subseteq> number_keys Inr"
    by (auto simp: segment_def number_keys_def arith_value_def numeral_3_eq_3)
  from array_sort_correct [OF _ this] show ?thesis by (simp add: segment_def numeral_3_eq_3)
qed

end
