(* ===== verification/Sequence_Merge.thy ===== *)
theory Sequence_Merge
  imports Sequence_Sort
begin

text \<open>
  The merges of \<open>src/sequence.c\<close> between a list and an array, and the merges that fill an array:
  \<open>list_array_merge_into_list\<close>, \<open>list_list_merge_into_array\<close> and \<open>list_array_merge_into_array\<close>.
  The counters, \<open>int\<close>s in the code, are natural numbers.
\<close>

section \<open>A list and an array into a list\<close>

text \<open>Whether the element of the list goes first; \<open>reverse_order\<close> when the array is the first sequence.\<close>

definition takes_list :: "'a check_merge \<Rightarrow> bool \<Rightarrow> 'a obj \<Rightarrow> 'a obj \<Rightarrow> 'a list_error + bool" where
  "takes_list check_merge reverse_order elt arr_elt =
     (if reverse_order then check_merge elt arr_elt
      else (case check_merge arr_elt elt of Inl e \<Rightarrow> Inl e | Inr b \<Rightarrow> Inr (\<not> b)))"

text \<open>The two ways the result grows; the last component is the new tail.\<close>

definition link_list :: "'a heap \<Rightarrow> 'a obj \<Rightarrow> 'a obj \<Rightarrow> 'a obj \<Rightarrow> 'a list_error + 'a heap \<times> 'a obj \<times> 'a obj" where
  "link_list h tail value list =
     (if tail = Qnil then Inr (h, list, list)
      else (case Fsetcdr h tail list of
              Inl e \<Rightarrow> Inl e
            | Inr h \<Rightarrow> (case heap_XCDR h tail of Inl e \<Rightarrow> Inl e | Inr tail \<Rightarrow> Inr (h, value, tail))))"

definition link_new :: "'a heap \<Rightarrow> 'a obj \<Rightarrow> 'a obj \<Rightarrow> 'a obj \<Rightarrow> 'a list_error + 'a heap \<times> 'a obj \<times> 'a obj" where
  "link_new h tail value x =
     (if tail = Qnil then (let (c, h) = Fcons h x Qnil in Inr (h, c, c))
      else (let (c, h) = Fcons h x tail in
            case Fsetcdr h tail c of
              Inl e \<Rightarrow> Inl e
            | Inr h \<Rightarrow> (case heap_XCDR h tail of Inl e \<Rightarrow> Inl e | Inr tail \<Rightarrow> Inr (h, value, tail))))"

text \<open>The check for circularity at the end of the loop; \<open>looped\<close> is the count after its increment.\<close>

definition loop_tortoise :: "'a heap \<Rightarrow> nat \<Rightarrow> 'a obj \<Rightarrow> 'a obj \<Rightarrow> 'a list_error + 'a obj" where
  "loop_tortoise h looped tortoise list =
     (if looped > CIRCULAR_LIST_SUSPICION_LENGTH then
        (case (if odd looped then heap_XCDR h tortoise else Inr tortoise) of
           Inl e \<Rightarrow> Inl e
         | Inr tortoise \<Rightarrow> if list = tortoise then Inl (Circular_List list) else Inr tortoise)
      else Inr tortoise)"

definition finish_with :: "'a heap \<Rightarrow> 'a obj \<Rightarrow> 'a obj \<Rightarrow> 'a obj \<Rightarrow> ('a list_error + 'a obj \<times> 'a heap) option" where
  "finish_with h tail value rest = ebind (Fsetcdr h tail rest) (\<lambda>h. Some (Inr (value, h)))"

partial_function (option) list_array_merge_loop ::
  "'a check_merge \<Rightarrow> bool \<Rightarrow> 'a obj list \<Rightarrow> 'a heap \<Rightarrow> 'a obj \<Rightarrow> 'a obj \<Rightarrow> 'a obj \<Rightarrow> 'a obj \<Rightarrow> nat \<Rightarrow> nat \<Rightarrow>
   ('a list_error + 'a obj \<times> 'a heap) option"
where
  "list_array_merge_loop check_merge reverse_order array h list tail value tortoise array_index looped =
     (if list = Qnil then
        (if tail = Qnil then Some (Inr (Flist h array))
         else let (rest, h) = Flist h (drop array_index array) in finish_with h tail value rest)
      else if array_index \<ge> length array then
        (if tail = Qnil then Some (Inr (list, h)) else finish_with h tail value list)
      else
        ebind (Fcar h list) (\<lambda>elt.
        ebind (takes_list check_merge reverse_order elt (array ! array_index)) (\<lambda>takes.
        if takes then
          ebind (link_list h tail value list) (\<lambda>(h, value, tail).
          ebind (Fcdr h list) (\<lambda>list.
          ebind (loop_tortoise h (looped + 1) tortoise list) (\<lambda>tortoise.
          list_array_merge_loop check_merge reverse_order array h list tail value tortoise array_index (looped + 1))))
        else
          ebind (link_new h tail value (array ! array_index)) (\<lambda>(h, value, tail).
          ebind (loop_tortoise h (looped + 1) tortoise list) (\<lambda>tortoise.
          list_array_merge_loop check_merge reverse_order array h list tail value tortoise (array_index + 1) (looped + 1))))))"

declare list_array_merge_loop.simps [code]

definition list_array_merge_into_list ::
  "'a check_merge \<Rightarrow> 'a heap \<Rightarrow> 'a obj \<Rightarrow> 'a obj list \<Rightarrow> bool \<Rightarrow> ('a list_error + 'a obj \<times> 'a heap) option"
where
  "list_array_merge_into_list check_merge h list array reverse_order =
     list_array_merge_loop check_merge reverse_order array h list Qnil Qnil list 0 0"

section \<open>Into an array\<close>

fun drain_list :: "'a heap \<Rightarrow> 'a obj list \<Rightarrow> nat \<Rightarrow> nat \<Rightarrow> 'a obj \<Rightarrow> 'a list_error + 'a obj list" where
  "drain_list h output output_index 0 list = Inr output"
| "drain_list h output output_index (Suc n) list =
     (case Fcar h list of
        Inl e \<Rightarrow> Inl e
      | Inr elt \<Rightarrow>
          (case Fcdr h list of
             Inl e \<Rightarrow> Inl e
           | Inr list \<Rightarrow> drain_list h (output[output_index := elt]) (output_index + 1) n list))"

function list_list_merge_into_array ::
  "'a check_merge \<Rightarrow> 'a heap \<Rightarrow> 'a obj list \<Rightarrow> nat \<Rightarrow> nat \<Rightarrow> 'a obj \<Rightarrow> 'a obj \<Rightarrow> 'a list_error + 'a obj list"
where
  "list_list_merge_into_array check_merge h output output_index output_len list_one list_two =
     (if output_index < output_len then
        if list_one = Qnil then drain_list h output output_index (output_len - output_index) list_two
        else if list_two = Qnil then drain_list h output output_index (output_len - output_index) list_one
        else
          (case Fcar h list_two of Inl e \<Rightarrow> Inl e | Inr elt2 \<Rightarrow>
          (case Fcar h list_one of Inl e \<Rightarrow> Inl e | Inr elt1 \<Rightarrow>
          (case check_merge elt2 elt1 of Inl e \<Rightarrow> Inl e | Inr less2 \<Rightarrow>
           if \<not> less2 then
             (case heap_XCDR h list_one of Inl e \<Rightarrow> Inl e | Inr rest \<Rightarrow>
              list_list_merge_into_array check_merge h (output[output_index := elt1]) (output_index + 1) output_len rest list_two)
           else
             (case heap_XCDR h list_two of Inl e \<Rightarrow> Inl e | Inr rest \<Rightarrow>
              list_list_merge_into_array check_merge h (output[output_index := elt2]) (output_index + 1) output_len list_one rest))))
      else Inr output)"
  by pat_completeness auto
termination
  by (relation "measure (\<lambda>(_, _, _, i, n, _, _). n - i)") auto

declare list_list_merge_into_array.simps [simp del]

text \<open>Copying the rest of the array: \<open>output[output_index++] = array[array_index++]\<close>.\<close>

fun copy_array :: "'a obj list \<Rightarrow> nat \<Rightarrow> 'a obj list \<Rightarrow> 'a obj list" where
  "copy_array output output_index [] = output"
| "copy_array output output_index (x # rest) = copy_array (output[output_index := x]) (output_index + 1) rest"

function list_array_merge_into_array ::
  "'a check_merge \<Rightarrow> bool \<Rightarrow> 'a heap \<Rightarrow> 'a obj list \<Rightarrow> nat \<Rightarrow> nat \<Rightarrow> 'a obj \<Rightarrow> 'a obj list \<Rightarrow> nat \<Rightarrow>
   'a list_error + 'a obj list"
where
  "list_array_merge_into_array check_merge reverse_order h output output_index output_len list array array_index =
     (if output_index < output_len then
        if list = Qnil then
          if length array - array_index \<noteq> output_len - output_index then Inl (Mapping_Interaction list)
          else Inr (copy_array output output_index (drop array_index array))
        else if array_index \<ge> length array then
          drain_list h output output_index (output_len - output_index) list
        else
          (case Fcar h list of Inl e \<Rightarrow> Inl e | Inr elt \<Rightarrow>
          (case takes_list check_merge reverse_order elt (array ! array_index) of Inl e \<Rightarrow> Inl e | Inr takes \<Rightarrow>
           if takes then
             (case heap_XCAR h list of Inl e \<Rightarrow> Inl e | Inr elt \<Rightarrow>
             (case heap_XCDR h list of Inl e \<Rightarrow> Inl e | Inr rest \<Rightarrow>
              list_array_merge_into_array check_merge reverse_order h (output[output_index := elt]) (output_index + 1)
                output_len rest array array_index))
           else
             list_array_merge_into_array check_merge reverse_order h (output[output_index := array ! array_index])
               (output_index + 1) output_len list array (array_index + 1)))
      else Inr output)"
  by pat_completeness auto
termination
  by (relation "measure (\<lambda>(_, _, _, _, i, n, _, _, _). n - i)") auto

declare list_array_merge_into_array.simps [simp del]


section \<open>The tortoise of the merge into a list\<close>

text \<open>
  Before the first element of a one-element list is taken, the cons \<open>a\<close> of the list is as it was and
  the tail of the result is another cons.
\<close>

definition untouched :: "'a heap \<Rightarrow> nat \<Rightarrow> 'a obj \<Rightarrow> 'a obj \<Rightarrow> bool" where
  "untouched h a x tail \<longleftrightarrow> cells h a = Some (x, Qnil) \<and> a < brk h \<and>
     (tail = Qnil \<or> (\<exists>t. tail = Cell t \<and> t \<noteq> a \<and> t < brk h \<and> t \<in> dom (cells h)))"

lemma link_new_untouched:
  assumes "untouched h a x tail"
  shows "\<exists>h' value' tail'. link_new h tail value y = Inr (h', value', tail') \<and> untouched h' a x tail'"
  using assms by (auto simp: link_new_def Fcons_def untouched_def)

lemma list_array_merge_crashes:
  assumes "untouched h a x tail" "1027 \<le> length array" "n \<le> 1026"
    and "\<And>i. i < 1027 \<Longrightarrow> takes_list chk ro x (array ! i) = Inr False"
    and "tortoise = (if n \<le> 1024 then Cell a else Qnil)"
  shows "list_array_merge_loop chk ro array h (Cell a) tail value tortoise n n = Some (Inl Invalid_Access)"
  using assms(1,3,5)
proof (induction "1026 - n" arbitrary: h tail "value" n tortoise)
  case 0
  then have n: "n = 1026" "tortoise = Qnil" by simp_all
  obtain h' v' t' where l: "link_new h tail value (array ! n) = Inr (h', v', t')"
    using link_new_untouched [OF 0(2)] by blast
  have c: "cells h a = Some (x, Qnil)" using 0(2) by (simp add: untouched_def)
  show ?case
    using n c l assms(2) assms(4) [of n]
    by (subst list_array_merge_loop.simps) (simp add: loop_tortoise_def CIRCULAR_LIST_SUSPICION_LENGTH_def)
next
  case (Suc m)
  then have n: "n < 1026" by simp
  obtain h' v' t' where l: "link_new h tail value (array ! n) = Inr (h', v', t')" "untouched h' a x t'"
    using link_new_untouched [OF Suc(3)] by blast
  have c: "cells h a = Some (x, Qnil)" "cells h' a = Some (x, Qnil)" using Suc(3) l(2) by (simp_all add: untouched_def)
  define t2 where "t2 = (if n + 1 \<le> 1024 then Cell a else Qnil :: 'a obj)"
  have t: "loop_tortoise h' (n + 1) tortoise (Cell a) = Inr t2"
  proof -
    consider "n < 1024" | "n = 1024" | "n = 1025" using n by linarith
    then show ?thesis
      by cases (simp_all add: Suc(5) t2_def loop_tortoise_def CIRCULAR_LIST_SUSPICION_LENGTH_def c)
  qed
  have "list_array_merge_loop chk ro array h (Cell a) tail value tortoise n n =
      list_array_merge_loop chk ro array h' (Cell a) t' v' t2 (n + 1) (n + 1)"
    using n c l(1) t assms(2) assms(4) [of n] by (subst list_array_merge_loop.simps) simp
  also have "\<dots> = Some (Inl Invalid_Access)"
    by (rule Suc(1)) (use Suc(2) l(2) n in \<open>auto simp: t2_def\<close>)
  finally show ?case .
qed

text \<open>
  C37: The check for circularity in the merge of a list with an array is wrong: the tortoise walks the
  list although the elements came from the array, so merging a list of one element with an array
  of 1027 elements that all go before it takes the cdr of \<open>nil\<close>.
\<close>

theorem list_array_merge_invalid_access:
  assumes "heap_wf h" "path h p [a] Qnil" "1027 \<le> length array"
    and "\<And>i. i < 1027 \<Longrightarrow> takes_list chk ro (car_at h a) (array ! i) = Inr False"
  shows "list_array_merge_into_list chk h p array ro = Some (Inl Invalid_Access)"
proof -
  have "p = Cell a" "untouched h a (car_at h a) Qnil"
    using assms(1,2) by (auto simp: untouched_def heap_wf_def car_at_def)
  then show ?thesis
    using list_array_merge_crashes [OF _ assms(3), of h a "car_at h a" Qnil 0 chk ro "Cell a" Qnil] assms(4)
    by (simp add: list_array_merge_into_list_def)
qed

lemma list_array_merge_invalid_access_witness:
  "list_array_merge_into_list (\<lambda>x y. Inr True) example_heap (Cell 2) (replicate 1500 Qnil) False = Some (Inl Invalid_Access)"
proof -
  have w: "heap_wf example_heap" by (rule example_heap_wf)
  have p: "path example_heap (Cell 2) [2] Qnil" by (simp add: example_heap_def)
  show ?thesis
    by (rule list_array_merge_invalid_access [OF w p]) (simp_all add: takes_list_def)
qed


section \<open>The merges into an array\<close>

lemma update_splice:
  "j < length out \<Longrightarrow> take (Suc j) (out[j := v]) = take j out @ [v]"
  by (simp add: take_Suc_conv_app_nth)

lemma drain_list_splices:
  "path h p as Qnil \<Longrightarrow> j + length as \<le> length out \<Longrightarrow>
     drain_list h out j (length as) p = Inr (take j out @ map (car_at h) as @ drop (j + length as) out)"
proof (induction as arbitrary: p j out)
  case (Cons a as)
  then obtain x d where a: "p = Cell a" "cells h a = Some (x, d)" "path h d as Qnil" by auto
  then show ?case
    using Cons.IH [OF a(3), of "j + 1" "out[j := x]"] Cons.prems(2) by (simp add: update_splice car_at_def)
qed simp

lemma copy_array_splices:
  "j + length xs \<le> length out \<Longrightarrow> copy_array out j xs = take j out @ xs @ drop (j + length xs) out"
  by (induction xs arbitrary: j out) (simp_all add: update_splice)

lemma list_list_merge_splices:
  assumes "path h p as Qnil" "path h q bs Qnil" "n = j + length as + length bs" "n \<le> length out"
    and "returns_on chk (car_at h ` (set as \<union> set bs))"
  shows "list_list_merge_into_array chk h out j n p q =
    Inr (take j out @ stable_merge (lss chk) (map (car_at h) as) (map (car_at h) bs) @ drop n out)"
  using assms
proof (induction "n - j" arbitrary: j p q as bs out)
  case 0
  then show ?case by (subst list_list_merge_into_array.simps) simp
next
  case (Suc m)
  note prems = Suc.prems
  consider "as = []" | "as \<noteq> []" "bs = []" | a as' b bs' where "as = a # as'" "bs = b # bs'"
    by (cases as; cases bs) auto
  then show ?case
  proof cases
    case 1
    then show ?thesis using prems drain_list_splices [OF prems(2), of j out] Suc.hyps(2)
      by (subst list_list_merge_into_array.simps) simp
  next
    case 2
    then have "p \<noteq> Qnil" "q = Qnil" using prems(1,2) by (cases as, auto)
    with 2 show ?thesis using prems drain_list_splices [OF prems(1), of j out] Suc.hyps(2)
      by (subst list_list_merge_into_array.simps) simp
  next
    case (3 a as' b bs')
    obtain x d1 where a: "p = Cell a" "cells h a = Some (x, d1)" "path h d1 as' Qnil" using prems(1) 3(1) by auto
    obtain y d2 where b: "q = Cell b" "cells h b = Some (y, d2)" "path h d2 bs' Qnil" using prems(2) 3(2) by auto
    have xy: "x = car_at h a" "y = car_at h b" using a b by (simp_all add: car_at_def)
    have chk: "chk y x = Inr (lss chk y x)" using returns_onD [OF prems(5)] 3 xy by simp
    have j: "j < n" "j < length out" using Suc.hyps(2) prems(4) by simp_all
    show ?thesis
    proof (cases "lss chk y x")
      case False
      have "list_list_merge_into_array chk h (out[j := x]) (j + 1) n d1 q =
          Inr (take (j + 1) (out[j := x]) @ stable_merge (lss chk) (map (car_at h) as') (map (car_at h) bs) @ drop n (out[j := x]))"
        by (rule Suc.hyps(1)) (use Suc.hyps(2) a(3) prems 3 returns_on_subset [OF prems(5)] in auto)
      then show ?thesis using a b chk False j xy 3 by (subst list_list_merge_into_array.simps) (simp add: update_splice)
    next
      case True
      have "list_list_merge_into_array chk h (out[j := y]) (j + 1) n p d2 =
          Inr (take (j + 1) (out[j := y]) @ stable_merge (lss chk) (map (car_at h) as) (map (car_at h) bs') @ drop n (out[j := y]))"
        by (rule Suc.hyps(1)) (use Suc.hyps(2) b(3) prems 3 returns_on_subset [OF prems(5)] in auto)
      then show ?thesis using a b chk True j xy 3 by (subst list_list_merge_into_array.simps) (simp add: update_splice)
    qed
  qed
qed

text \<open>The merge of a list with an array; the array is the first sequence when \<open>ro\<close> is set.\<close>

definition ordered_merge :: "('x \<Rightarrow> 'x \<Rightarrow> bool) \<Rightarrow> bool \<Rightarrow> 'x list \<Rightarrow> 'x list \<Rightarrow> 'x list" where
  "ordered_merge lt ro xs ys = (if ro then stable_merge lt ys xs else stable_merge lt xs ys)"

lemma ordered_merge_simps [simp]:
  "ordered_merge lt ro [] ys = ys" "ordered_merge lt ro xs [] = xs"
  "ordered_merge lt ro (x # xs) (y # ys) =
     (if (if ro then lt x y else \<not> lt y x) then x # ordered_merge lt ro xs (y # ys) else y # ordered_merge lt ro (x # xs) ys)"
  by (simp_all add: ordered_merge_def)

lemma takes_list_returns:
  assumes "returns_on chk A" "x \<in> A" "y \<in> A"
  shows "takes_list chk ro x y = Inr (if ro then lss chk x y else \<not> lss chk y x)"
  using returns_onD [OF assms] returns_onD [OF assms(1,3,2)] by (simp add: takes_list_def)

lemma list_array_merge_splices:
  assumes "path h p as Qnil" "n = j + length as + (length array - i)" "i \<le> length array" "n \<le> length out"
    and "returns_on chk (car_at h ` set as \<union> set array)"
  shows "list_array_merge_into_array chk ro h out j n p array i =
    Inr (take j out @ ordered_merge (lss chk) ro (map (car_at h) as) (drop i array) @ drop n out)"
  using assms
proof (induction "n - j" arbitrary: j p as i out)
  case 0
  then have "length as = 0" "i = length array" "j = n" by linarith+
  then show ?case by (subst list_array_merge_into_array.simps) simp
next
  case (Suc m)
  note prems = Suc.prems
  have less: "j < n" using Suc.hyps(2) by simp
  consider "as = []" | "as \<noteq> []" "i = length array" | a as' where "as = a # as'" "i < length array"
    using prems(3) by (cases as; cases "i = length array") auto
  then show ?case
  proof cases
    case 1
    then show ?thesis using prems copy_array_splices [of j "drop i array" out] less
      by (subst list_array_merge_into_array.simps) simp
  next
    case 2
    then have "p \<noteq> Qnil" using prems(1) by (cases as) auto
    with 2 show ?thesis using prems drain_list_splices [OF prems(1), of j out] less
      by (subst list_array_merge_into_array.simps) simp
  next
    case (3 a as')
    obtain x d where a: "p = Cell a" "cells h a = Some (x, d)" "path h d as' Qnil" using prems(1) 3(1) by auto
    let ?y = "array ! i"
    have x: "x = car_at h a" using a by (simp add: car_at_def)
    define takes where "takes = (if ro then lss chk x ?y else \<not> lss chk ?y x)"
    have t: "takes_list chk ro x ?y = Inr takes"
      unfolding takes_def by (rule takes_list_returns [OF prems(5)]) (use 3 x in auto)
    have m: "ordered_merge (lss chk) ro (x # xs) (?y # ys) =
        (if takes then x # ordered_merge (lss chk) ro xs (?y # ys) else ?y # ordered_merge (lss chk) ro (x # xs) ys)" for xs ys
      by (simp add: takes_def)
    have j: "j < n" "j < length out" using Suc.hyps(2) prems(4) by simp_all
    have d: "drop i array = ?y # drop (Suc i) array" using 3(2) by (simp add: Cons_nth_drop_Suc)
    show ?thesis
    proof (cases takes)
      case True
      have "list_array_merge_into_array chk ro h (out[j := x]) (j + 1) n d array i =
          Inr (take (j + 1) (out[j := x]) @ ordered_merge (lss chk) ro (map (car_at h) as') (drop i array) @ drop n (out[j := x]))"
        by (rule Suc.hyps(1)) (use Suc.hyps(2) a(3) prems 3 returns_on_subset [OF prems(5)] in auto)
      then show ?thesis using a t True j x 3 d m by (subst list_array_merge_into_array.simps) (simp add: update_splice del: ordered_merge_simps(3))
    next
      case False
      have "list_array_merge_into_array chk ro h (out[j := ?y]) (j + 1) n p array (i + 1) =
          Inr (take (j + 1) (out[j := ?y]) @ ordered_merge (lss chk) ro (map (car_at h) as) (drop (i + 1) array) @ drop n (out[j := ?y]))"
        by (rule Suc.hyps(1)) (use Suc.hyps(2) prems 3 in auto)
      then show ?thesis using a t False j x 3 d m by (subst list_array_merge_into_array.simps) (simp add: update_splice del: ordered_merge_simps(3))
    qed
  qed
qed

text \<open>
  The merges into an array fill the whole of an output of the right length with the stable merge
  of the two sequences, whichever of them is the list and whichever comes first, and never report
  that the list was changed under them.
\<close>

theorem merge_into_array_correct:
  assumes "path h p as Qnil" "path h q bs Qnil"
    and "returns_on chk (car_at h ` (set as \<union> set bs) \<union> set array)"
  shows "(length out = length as + length bs \<longrightarrow>
      list_list_merge_into_array chk h out 0 (length out) p q =
        Inr (stable_merge (lss chk) (map (car_at h) as) (map (car_at h) bs))) \<and>
    (length out = length as + length array \<longrightarrow>
      list_array_merge_into_array chk False h out 0 (length out) p array 0 =
        Inr (stable_merge (lss chk) (map (car_at h) as) array) \<and>
      list_array_merge_into_array chk True h out 0 (length out) p array 0 =
        Inr (stable_merge (lss chk) array (map (car_at h) as)))"
proof -
  have r: "returns_on chk (car_at h ` (set as \<union> set bs))" "returns_on chk (car_at h ` set as \<union> set array)"
    by (rule returns_on_subset [OF assms(3)], blast)+
  show ?thesis
    using list_list_merge_splices [OF assms(1,2) _ _ r(1), of "length out" 0 out]
      list_array_merge_splices [OF assms(1) _ _ _ r(2), of "length out" 0 0 out]
    by (simp add: ordered_merge_def)
qed

lemma merge_into_array_correct_witness:
  "list_list_merge_into_array check_lss_nokey example_numbers [Qnil, Qnil] 0 2 (Cell 1) Qnil =
     Inr [Atom (make_fixnum 1), Atom (make_fixnum 2)]"
proof -
  have p: "path example_numbers (Cell 1) [1, 2] Qnil" "path example_numbers Qnil [] Qnil"
    by (simp_all add: example_numbers_def)
  have "returns_on check_lss_nokey (car_at example_numbers ` (set [1, 2] \<union> set []) \<union> set [])"
    by (rule returns_on_subset [OF lss_nokey.returns])
      (auto simp: number_keys_def arith_value_def example_numbers_def car_at_def)
  from merge_into_array_correct [OF p this, of "[Qnil, Qnil]"] show ?thesis
    by (simp add: example_numbers_def car_at_def numeral_2_eq_2)
qed

end
