(* ===== verification/Coro_State.thy ===== *)
theory Coro_State
  imports Cons_Heap
begin

text \<open>
  What a switch between coroutines does to the state of the interpreter (\<open>src/async-scheduler.c\<close>):
  the dynamic bindings of the coroutine are exchanged with the values of their symbols
  (\<open>specpdl_unwind_range\<close>, \<open>specpdl_rebind_range\<close>), and its part of the chain of condition handlers
  is cut off and put back (\<open>coro_detach_condition_handlers\<close>, \<open>coro_reattach_condition_handlers\<close>).
  Symbols whose value is magic (buffer-local, forwarded or aliased) are not modelled.
\<close>

section \<open>Dynamic bindings\<close>

record 'v specbinding =
  sb_symbol :: nat
  sb_old_value :: 'v
  sb_func :: bool   \<comment> \<open>an entry with a function is an unwind-protect, not a binding\<close>

definition specpdl_swap_one :: "(nat \<Rightarrow> 'v) \<Rightarrow> 'v specbinding \<Rightarrow> (nat \<Rightarrow> 'v) \<times> 'v specbinding" where
  "specpdl_swap_one vals p =
     (let cur = vals (sb_symbol p)
      in (vals(sb_symbol p := sb_old_value p), p\<lparr>sb_old_value := cur\<rparr>))"

text \<open>One turn of the loops: the entry at an index of the binding stack.\<close>

definition swap_at :: "(nat \<Rightarrow> 'v) \<times> 'v specbinding list \<Rightarrow> nat \<Rightarrow> (nat \<Rightarrow> 'v) \<times> 'v specbinding list" where
  "swap_at st i =
     (case st of (vals, pdl) \<Rightarrow>
        if \<not> sb_func (pdl ! i) then
          (case specpdl_swap_one vals (pdl ! i) of (vals, p) \<Rightarrow> (vals, pdl[i := p]))
        else (vals, pdl))"

function specpdl_unwind_range ::
  "(nat \<Rightarrow> 'v) \<times> 'v specbinding list \<Rightarrow> nat \<Rightarrow> nat \<Rightarrow> (nat \<Rightarrow> 'v) \<times> 'v specbinding list"
where
  "specpdl_unwind_range st from to =
     (if from < to then specpdl_unwind_range (swap_at st (to - 1)) from (to - 1) else st)"
  by pat_completeness auto
termination
  by (relation "measure (\<lambda>(_, from, to). to - from)") auto

function specpdl_rebind_range ::
  "(nat \<Rightarrow> 'v) \<times> 'v specbinding list \<Rightarrow> nat \<Rightarrow> nat \<Rightarrow> (nat \<Rightarrow> 'v) \<times> 'v specbinding list"
where
  "specpdl_rebind_range st from to =
     (if from < to then specpdl_rebind_range (swap_at st from) (from + 1) to else st)"
  by pat_completeness auto
termination
  by (relation "measure (\<lambda>(_, from, to). to - from)") auto

declare specpdl_unwind_range.simps [simp del] specpdl_rebind_range.simps [simp del]

text \<open>\<open>specbind\<close> of a symbol with a plain value.\<close>

definition specbind :: "(nat \<Rightarrow> 'v) \<times> 'v specbinding list \<Rightarrow> nat \<Rightarrow> 'v \<Rightarrow> (nat \<Rightarrow> 'v) \<times> 'v specbinding list" where
  "specbind st symbol value =
     (case st of (vals, pdl) \<Rightarrow>
        (vals(symbol := value), pdl @ [\<lparr>sb_symbol = symbol, sb_old_value = vals symbol, sb_func = False\<rparr>]))"

section \<open>Condition handlers\<close>

text \<open>The walk to the last cons of the chain before \<open>outer\<close>; reading what is no cons is the \<open>None\<close>.\<close>

partial_function (option) find_boundary :: "'a heap \<Rightarrow> 'a obj \<Rightarrow> 'a obj \<Rightarrow> 'a obj option" where
  "find_boundary h cur outer =
     (if consp cur then
        (case heap_XCDR h cur of
           Inl e \<Rightarrow> None
         | Inr d \<Rightarrow> if d = outer then Some cur else find_boundary h d outer)
      else Some cur)"

declare find_boundary.simps [code]

text \<open>
  The result: memory, and the two fields of the coroutine.  \<open>Vcondition_handlers\<close> is \<open>outer\<close> afterwards
  in every case.
\<close>

definition coro_detach_condition_handlers ::
  "'a heap \<Rightarrow> 'a obj \<Rightarrow> 'a obj \<Rightarrow> ('a heap \<times> 'a obj \<times> 'a obj) option"
where
  "coro_detach_condition_handlers h head outer =
     (if head = outer then Some (h, Qnil, Qnil)
      else
        (case find_boundary h head outer of
           None \<Rightarrow> None
         | Some cur \<Rightarrow>
             if consp cur \<and> heap_XCDR h cur = Inr outer then
               (case Fsetcdr h cur Qnil of Inl e \<Rightarrow> None | Inr h \<Rightarrow> Some (h, head, cur))
             else Some (h, head, Qnil)))"

text \<open>The result: memory and \<open>Vcondition_handlers\<close>; the saved fields are \<open>nil\<close> afterwards.\<close>

definition coro_reattach_condition_handlers ::
  "'a heap \<Rightarrow> 'a obj \<Rightarrow> 'a obj \<Rightarrow> 'a obj \<Rightarrow> ('a heap \<times> 'a obj) option"
where
  "coro_reattach_condition_handlers h head boundary handlers =
     (if head = Qnil then Some (h, handlers)
      else if boundary \<noteq> Qnil then
        (case Fsetcdr h boundary handlers of Inl e \<Rightarrow> None | Inr h \<Rightarrow> Some (h, head))
      else Some (h, head))"

section \<open>Switching out and in again\<close>

lemma swap_at_twice: "i < length (snd st) \<Longrightarrow> swap_at (swap_at st i) i = st"
  by (cases st) (simp add: swap_at_def specpdl_swap_one_def Let_def)

lemma length_swap_at [simp]: "length (snd (swap_at st i)) = length (snd st)"
  by (cases st) (simp add: swap_at_def specpdl_swap_one_def Let_def)

lemma length_unwind [simp]: "length (snd (specpdl_unwind_range st from to)) = length (snd st)"
proof (induction "to - from" arbitrary: st to)
  case 0
  then show ?case by (subst specpdl_unwind_range.simps) simp
next
  case (Suc n)
  then show ?case by (subst specpdl_unwind_range.simps) simp
qed

lemma rebind_last: "from \<le> n \<Longrightarrow> specpdl_rebind_range st from (Suc n) = swap_at (specpdl_rebind_range st from n) n"
proof (induction "n - from" arbitrary: st "from")
  case 0
  then have "n = from" by simp
  then show ?case
    by (subst specpdl_rebind_range.simps, subst specpdl_rebind_range.simps) (simp add: specpdl_rebind_range.simps)
next
  case (Suc m)
  then have "m = n - Suc from" "Suc from \<le> n" by simp_all
  with Suc.hyps(1) show ?case using Suc.prems
    by (subst specpdl_rebind_range.simps, subst (2) specpdl_rebind_range.simps) simp
qed

lemma rebind_unwind:
  assumes "to \<le> length (snd st)"
  shows "specpdl_rebind_range (specpdl_unwind_range st from to) from to = st"
  using assms
proof (induction "to - from" arbitrary: st to)
  case 0
  then show ?case by (subst specpdl_unwind_range.simps, subst specpdl_rebind_range.simps) simp
next
  case (Suc n)
  then obtain t where t: "to = Suc t" "from \<le> t" by (cases to) auto
  have "specpdl_unwind_range st from to = specpdl_unwind_range (swap_at st t) from t"
    using t by (subst specpdl_unwind_range.simps) simp
  moreover have "specpdl_rebind_range (specpdl_unwind_range (swap_at st t) from t) from t = swap_at st t"
    by (rule Suc.hyps(1)) (use Suc t in auto)
  ultimately show ?case using t Suc.prems by (simp add: rebind_last swap_at_twice)
qed

text \<open>Bindings made on top of a binding stack.\<close>

fun specbinds :: "(nat \<Rightarrow> 'v) \<times> 'v specbinding list \<Rightarrow> (nat \<times> 'v) list \<Rightarrow> (nat \<Rightarrow> 'v) \<times> 'v specbinding list" where
  "specbinds st [] = st"
| "specbinds st ((symbol, v) # bs) = specbinds (specbind st symbol v) bs"

lemma specbinds_append: "specbinds st (bs @ cs) = specbinds (specbinds st bs) cs"
  by (induction st bs rule: specbinds.induct) simp_all

lemma length_specbinds: "length (snd (specbinds st bs)) = length (snd st) + length bs"
  by (induction st bs rule: specbinds.induct) (auto simp: specbind_def)

lemma unwind_keeps_end:
  "to \<le> length (snd st) \<Longrightarrow>
     specpdl_unwind_range (fst st, snd st @ ys) from to =
       (fst (specpdl_unwind_range st from to), snd (specpdl_unwind_range st from to) @ ys)"
proof (induction "to - from" arbitrary: st to)
  case 0
  then show ?case by (subst (1 2 3) specpdl_unwind_range.simps) simp
next
  case (Suc n)
  then have to: "from < to" "to - 1 < length (snd st)" by simp_all
  have "swap_at (fst st, snd st @ ys) (to - 1) = (fst (swap_at st (to - 1)), snd (swap_at st (to - 1)) @ ys)"
    using to(2) by (cases st) (simp add: swap_at_def specpdl_swap_one_def Let_def nth_append list_update_append)
  moreover have "n = to - 1 - from" "to - 1 \<le> length (snd (swap_at st (to - 1)))" using Suc by simp_all
  ultimately show ?case
    using Suc.hyps(1) [of "to - 1" "swap_at st (to - 1)"] to(1) by (subst (1 2 3) specpdl_unwind_range.simps) simp
qed

lemma unwind_specbinds:
  "fst (specpdl_unwind_range (specbinds st bs) (length (snd st)) (length (snd st) + length bs)) = fst st"
proof (induction bs rule: rev_induct)
  case Nil
  then show ?case by (subst specpdl_unwind_range.simps) simp
next
  case (snoc b bs)
  obtain symbol v where b: "b = (symbol, v)" by (cases b)
  define st' where "st' = specbinds st bs"
  let ?n = "length (snd st) + length bs"
  have len: "length (snd st') = ?n" by (simp add: st'_def length_specbinds)
  have e: "swap_at (specbind st' symbol v) ?n = (fst st', snd st' @ [\<lparr>sb_symbol = symbol, sb_old_value = v, sb_func = False\<rparr>])"
    using len by (cases st') (auto simp: swap_at_def specpdl_swap_one_def specbind_def Let_def nth_append list_update_append)
  have "specpdl_unwind_range (specbinds st (bs @ [b])) (length (snd st)) (length (snd st) + length (bs @ [b])) =
      specpdl_unwind_range (swap_at (specbind st' symbol v) ?n) (length (snd st)) ?n"
    by (subst specpdl_unwind_range.simps) (simp add: b specbinds_append st'_def)
  then show ?case unfolding e using snoc len by (simp add: unwind_keeps_end) (simp add: st'_def)
qed

text \<open>
  C38: When a coroutine yields, taking its bindings off gives every symbol the value it had before the
  coroutine made them, whatever it has bound since, and switching it in again restores the
  symbols' values and the binding stack exactly.
\<close>

theorem specpdl_switch_correct:
  assumes "length pdl = base"
  shows "fst (specpdl_unwind_range (specbinds (vals, pdl) bs) base (base + length bs)) = vals \<and>
    specpdl_rebind_range (specpdl_unwind_range (specbinds (vals, pdl) bs) base (base + length bs)) base (base + length bs) =
      specbinds (vals, pdl) bs"
  using assms unwind_specbinds [of "(vals, pdl)" bs]
  by (auto intro!: rebind_unwind simp: length_specbinds)

lemma specpdl_switch_correct_witness:
  "fst (specpdl_unwind_range (specbinds (\<lambda>_. 0, []) [(1, 5), (1, 6), (2, 7)]) 0 3) = (\<lambda>_. 0 :: nat)"
  using specpdl_switch_correct [of "[]" 0 "\<lambda>_. 0 :: nat" "[(1, 5), (1, 6), (2, 7)]"] by (simp add: numeral_3_eq_3)

section \<open>Cutting off and putting back the handlers\<close>

lemma find_boundary_last:
  "path h p as outer \<Longrightarrow> as \<noteq> [] \<Longrightarrow> outer \<notin> Cell ` set as \<Longrightarrow> find_boundary h p outer = Some (Cell (last as))"
proof (induction as arbitrary: p)
  case (Cons a as)
  then obtain x d where a: "p = Cell a" "cells h a = Some (x, d)" "path h d as outer" by auto
  show ?case
  proof (cases as)
    case Nil
    with a show ?thesis by (subst find_boundary.simps) simp
  next
    case (Cons b bs)
    with a(3) have "d = Cell b" by auto
    then have "d \<noteq> outer" using Cons.prems(3) Cons by auto
    then show ?thesis using a Cons Cons.IH [OF a(3)] Cons.prems(3) by (subst find_boundary.simps) auto
  qed
qed simp

lemma path_relink_last:
  assumes "path h p as q" "as \<noteq> []" "distinct as"
  obtains h' where "Fsetcdr h (Cell (last as)) r = Inr h'" "path h' p as r" "relinked {last as} h h'"
proof -
  have bl: "path h p (butlast as @ [last as]) q" using assms(1,2) by simp
  then have p: "path h p (butlast as) (Cell (last as))" "last as \<in> dom (cells h)" by (auto simp: path_append)
  have "last as \<notin> set (butlast as)"
    using assms(2,3) by (metis append_butlast_last_id distinct_append disjoint_iff list.set_intros(1))
  moreover obtain h' where h': "Fsetcdr h (Cell (last as)) r = Inr h'" "relinked {last as} h h'"
      "cells h' (last as) = Some (car_at h (last as), r)"
    using Fsetcdr_relinks [OF p(2)] by blast
  ultimately have "path h' p (butlast as) (Cell (last as))" using relinked_path [OF h'(2) p(1)] by simp
  with h'(3) have "path h' p (butlast as @ [last as]) r" by (auto simp: path_append)
  with assms(2) h' that show ?thesis by simp
qed

text \<open>
  Detaching cuts the coroutine's own conses \<open>as\<close> off the chain of handlers, as a list of their
  own, so that they no longer refer to handlers outside; and if they are still as they were when
  the coroutine is switched in again, re-attaching puts the same handlers, in the same order, on
  top of whatever the chain outside is by then.
\<close>

theorem condition_handlers_switch:
  assumes "path h handlers as outer" "as \<noteq> []" "distinct as" "outer \<notin> Cell ` set as"
  shows "\<exists>h' head boundary. coro_detach_condition_handlers h handlers outer = Some (h', head, boundary) \<and>
    path h' head as Qnil \<and> (\<forall>a. a \<notin> set as \<longrightarrow> cells h' a = cells h a) \<and>
    (\<forall>h2 outer2. (\<forall>a \<in> set as. cells h2 a = cells h' a) \<longrightarrow>
      (\<exists>h3 handlers3. coro_reattach_condition_handlers h2 head boundary outer2 = Some (h3, handlers3) \<and>
        path h3 handlers3 as outer2 \<and> (\<forall>a. car_at h3 a = car_at h2 a)))"
proof -
  have ne: "handlers \<noteq> outer" "handlers \<noteq> Qnil" using assms by (cases as; auto)+
  have fb: "find_boundary h handlers outer = Some (Cell (last as))"
    using find_boundary_last [OF assms(1,2,4)] .
  obtain h' where h': "Fsetcdr h (Cell (last as)) Qnil = Inr h'" "path h' handlers as Qnil" "relinked {last as} h h'"
    using path_relink_last [OF assms(1-3)] by blast
  have "path h handlers (butlast as @ [last as]) outer" using assms(1,2) by simp
  then have "heap_XCDR h (Cell (last as)) = Inr outer" by (auto simp: path_append)
  then have d: "coro_detach_condition_handlers h handlers outer = Some (h', handlers, Cell (last as))"
    using ne(1) fb h'(1) by (simp add: coro_detach_condition_handlers_def)
  have "\<exists>h3 handlers3. coro_reattach_condition_handlers h2 handlers (Cell (last as)) outer2 = Some (h3, handlers3) \<and>
      path h3 handlers3 as outer2 \<and> (\<forall>a. car_at h3 a = car_at h2 a)"
    if same: "\<forall>a \<in> set as. cells h2 a = cells h' a" for h2 outer2
  proof -
    have "path h2 handlers as Qnil" using path_cong [OF h'(2)] same by blast
    then obtain h3 where "Fsetcdr h2 (Cell (last as)) outer2 = Inr h3" "path h3 handlers as outer2" "relinked {last as} h2 h3"
      using path_relink_last [OF _ assms(2,3)] by blast
    then show ?thesis using ne(2) by (simp add: coro_reattach_condition_handlers_def relinked_def)
  qed
  moreover have "\<forall>a. a \<notin> set as \<longrightarrow> cells h' a = cells h a" using h'(3) last_in_set [OF assms(2)] unfolding relinked_def by (metis singletonD)
  ultimately show ?thesis using d h'(2) by blast
qed

lemma condition_handlers_switch_witness:
  "\<exists>h' head boundary. coro_detach_condition_handlers example_heap (Cell 0) (Cell 2) = Some (h', head, boundary) \<and>
     path h' head [0, 1] Qnil"
proof -
  have "path example_heap (Cell 0) [0, 1] (Cell 2)" by (simp add: example_heap_def)
  from condition_handlers_switch [OF this] show ?thesis by fastforce
qed

end
