(* ===== verification/Async_Scheduler.thy ===== *)
theory Async_Scheduler
  imports Coro_State "HOL-Library.Monad_Syntax"
begin

text \<open>
  The coroutine scheduler of \<open>src/async-scheduler.c\<close> and \<open>src/async-scheduler.h\<close>: the table of
  coroutines with its two linked lists, spawning, yielding and resuming, actors with their mailboxes,
  joins and monitors, and the tick that runs every runnable coroutine.

  The Lisp code that a coroutine runs is a possibly infinite tree of the primitives that it calls and of
  its changes to the interpreter's state: \<open>Do a k\<close> performs \<open>a\<close> and goes on with \<open>k\<close> of its value or
  error.  Which tree a Lisp function has on an argument is the parameter \<open>call1\<close>.  The C stack of a
  suspended coroutine is the continuation in its field \<open>ctx\<close>.  Coroutines are addresses; one that was
  freed is not in the table, and an access to it is \<open>None\<close>, as is a failed assertion.  A coroutine that throws to a catch
  of its spawner leaves the tick in the middle; this too has no result (\<open>Escape\<close>).
  Configurations without \<open>libcurl\<close> are modelled, and the garbage collector's walk over the coroutines
  is not.
\<close>

section \<open>Data\<close>

datatype 'v lval =
    Lnil
  | Lint int
  | Lsym string
  | Lstr string
  | Lopaque nat              \<comment> \<open>an opaque pointer to a coroutine\<close>
  | Lcons "'v lval" "'v lval"
  | Lobj 'v

datatype coro_state_t = CORO_RUNNABLE | CORO_RUNNING | CORO_SUSPENDED | CORO_DEAD

datatype wait_reason_t = WAIT_NONE | WAIT_FD | WAIT_TIMER | WAIT_MAILBOX | WAIT_JOIN

datatype 'v action =
    Async_Spawn_Coroutine "'v lval" "'v lval"
  | Async_Scheduler_Tick
  | Async_Current_Coroutine
  | Async_Coroutine_Yield
  | Async_Coroutine_P "'v lval"
  | Async_Coro_Result "'v lval"
  | Async_Coro_Error "'v lval"
  | Actor_Spawn_Internal "'v lval" "'v lval" "'v lval"
  | Actor_Send_Internal "'v lval" "'v lval"
  | Actor_Receive_Internal "'v lval"
  | Actor_Join_Internal "'v lval"
  | Actor_Monitor_Internal "'v lval" "'v lval"
  | Specbind nat "'v lval"
  | Unbind_To nat
  | Set_Value nat "'v lval"
  | Symbol_Value nat
  | Push_Handler "'v lval"
  | Pop_Handler
  | Frames "nat list" "'v lval obj list" "nat list"   \<comment> \<open>backtrace, catch tags, protected variables\<close>
  | Elapse nat                                        \<comment> \<open>the code takes that many microseconds\<close>

text \<open>
  The code ends with a value, with an error that none of its handlers takes, or with a \<open>throw\<close> to a
  catch of its spawner, which \<open>catchlist\<close> still holds: this jump leaves the coroutine's stack and the tick.
\<close>

codatatype 'v body =
    Finish "'v lval"
  | Throw "'v lval"
  | Escape
  | Do "'v action" "'v lval + 'v lval \<Rightarrow> 'v body"

text \<open>The registers of the interpreter; a pointer into a binding stack is its block and an index.\<close>

record 'v regs =
  specpdl :: nat
  specpdl_ptr :: "nat \<times> nat"
  specpdl_depth_counter :: nat
  specpdl_size :: nat
  backtrace_list :: "nat list"
  catchlist :: "'v lval obj list"
  gcprolist :: "nat list"

text \<open>
  The interpreter's state.  A block of the binding stack is the list of the entries written so far;
  \<open>realloc_moves\<close> says whether the C library's \<open>realloc\<close> moves the block, which it may do for any new size, also
  for the old one.
\<close>

record 'v interp =
  regs :: "'v regs"
  sym_value :: "nat \<Rightarrow> 'v lval"
  stacks :: "nat \<Rightarrow> 'v lval specbinding list option"
  next_stack :: nat
  condition_handlers :: "'v lval obj"
  conses :: "'v lval heap"
  max_specpdl_size :: nat
  realloc_moves :: bool

text \<open>The locals of the trampoline's \<open>condition_case_1\<close>.\<close>

record 'v cc_frame =
  speccount :: nat
  cc_tag :: "'v lval obj"
  cc_next :: "'v lval obj list"
  cc_backlist :: "nat list"
  cc_gcpro :: "nat list"

datatype 'v ctx =
    Entry
  | In_Yield "'v cc_frame" "'v lval + 'v lval \<Rightarrow> 'v body"
  | In_Receive "'v cc_frame" "'v lval + 'v lval \<Rightarrow> 'v body"
  | In_Join "'v cc_frame" "'v lval + 'v lval \<Rightarrow> 'v body"
  | At_Exit

record 'v coro =
  ctx :: "'v ctx"
  stack_live :: bool
  state :: coro_state_t
  wait_reason :: wait_reason_t
  result :: "'v lval"
  error :: "'v lval"
  lisp_fn :: "'v lval"
  saved_gcprolist :: "nat list"
  saved_backtrace_list :: "nat list"
  saved_catchlist :: "'v lval obj list"
  saved_condition_handlers_head :: "'v lval obj"
  saved_condition_handlers_boundary :: "'v lval obj"
  coro_specpdl :: nat
  coro_specpdl_ptr :: "nat \<times> nat"
  coro_specpdl_size :: nat
  coro_inherit_depth :: nat
  wait_fd :: int
  wait_deadline :: int
  mailbox :: "'v lval list"
  actor_name :: "'v lval"
  is_actor :: bool
  join_waiter :: "nat option"
  monitor_list :: "nat list"
  monitor_cap :: nat
  next_coro :: "nat option"
  prev_coro :: "nat option"

record 'v sched =
  ip :: "'v interp"
  coros :: "nat \<Rightarrow> 'v coro option"
  fresh_coro :: nat
  all_coros :: "nat option"
  dead_coros :: "nat option"
  coro_count :: int
  current_coro :: "nat option"
  in_tick :: bool
  async_tick_forbidden :: int
  sched_regs :: "'v regs"
  sched_condition_handlers :: "'v lval obj"
  now :: int                        \<comment> \<open>microseconds\<close>
  wakeups :: "nat list"             \<comment> \<open>delays of the timeouts generated, in milliseconds\<close>
  noninteractive :: bool
  event_stream :: bool

text \<open>A write to a field of a coroutine.\<close>

definition upd_coro :: "nat \<Rightarrow> ('v coro \<Rightarrow> 'v coro) \<Rightarrow> 'v sched \<Rightarrow> 'v sched option" where
  "upd_coro c f st = map_option (\<lambda>x. st\<lparr>coros := (coros st)(c \<mapsto> f x)\<rparr>) (coros st c)"

definition set_ip :: "'v interp \<Rightarrow> 'v sched \<Rightarrow> 'v sched" where
  "set_ip i st = st\<lparr>ip := i\<rparr>"

fun list2 :: "'v lval \<Rightarrow> 'v lval \<Rightarrow> 'v lval" where
  "list2 x y = Lcons x (Lcons y Lnil)"

text \<open>The error value that \<open>signal_error\<close> throws (\<open>build_error_data\<close> conses the reason in front).\<close>

definition signal_error :: "string \<Rightarrow> string \<Rightarrow> 'v lval \<Rightarrow> 'v lval" where
  "signal_error type reason frob = Lcons (Lsym type) (list2 (Lstr reason) frob)"

section \<open>The linked lists\<close>

definition coro_list_add :: "nat \<Rightarrow> 'v sched \<Rightarrow> 'v sched option" where
  "coro_list_add c st = do {
     st \<leftarrow> upd_coro c (\<lambda>x. x\<lparr>next_coro := all_coros st, prev_coro := None\<rparr>) st;
     st \<leftarrow> (case all_coros st of None \<Rightarrow> Some st | Some a \<Rightarrow> upd_coro a (\<lambda>x. x\<lparr>prev_coro := Some c\<rparr>) st);
     Some (st\<lparr>all_coros := Some c, coro_count := coro_count st + 1\<rparr>) }"

definition coro_list_remove :: "nat \<Rightarrow> 'v sched \<Rightarrow> 'v sched option" where
  "coro_list_remove c st = do {
     x \<leftarrow> coros st c;
     st \<leftarrow> (case prev_coro x of
             Some p \<Rightarrow> upd_coro p (\<lambda>y. y\<lparr>next_coro := next_coro x\<rparr>) st
           | None \<Rightarrow> Some (st\<lparr>all_coros := next_coro x\<rparr>));
     x \<leftarrow> coros st c;
     st \<leftarrow> (case next_coro x of
             Some n \<Rightarrow> upd_coro n (\<lambda>y. y\<lparr>prev_coro := prev_coro x\<rparr>) st
           | None \<Rightarrow> Some st);
     Some (st\<lparr>coro_count := coro_count st - 1\<rparr>) }"

text \<open>\<open>p\<close> is the address of \<open>dead_coros\<close> (\<open>None\<close>) or of the field \<open>next\<close> of a coroutine.\<close>

definition read_link :: "nat option \<Rightarrow> 'v sched \<Rightarrow> nat option option" where
  "read_link p st = (case p of None \<Rightarrow> Some (dead_coros st) | Some q \<Rightarrow> map_option next_coro (coros st q))"

definition write_link :: "nat option \<Rightarrow> nat option \<Rightarrow> 'v sched \<Rightarrow> 'v sched option" where
  "write_link p n st =
     (case p of
        None \<Rightarrow> Some (st\<lparr>dead_coros := n\<rparr>)
      | Some q \<Rightarrow> upd_coro q (\<lambda>x. x\<lparr>next_coro := n\<rparr>) st)"

partial_function (option) graveyard_loop :: "nat \<Rightarrow> nat option \<Rightarrow> 'v sched \<Rightarrow> 'v sched option" where
  "graveyard_loop c p st =
     do { cur \<leftarrow> read_link p st;
          (case cur of
             None \<Rightarrow> Some st
           | Some d \<Rightarrow>
               if d = c then do { x \<leftarrow> coros st c; write_link p (next_coro x) st }
               else graveyard_loop c (Some d) st) }"

declare graveyard_loop.simps [code]

definition coro_graveyard_remove :: "nat \<Rightarrow> 'v sched \<Rightarrow> 'v sched option" where
  "coro_graveyard_remove c st = graveyard_loop c None st"

section \<open>Wakeups and resumption\<close>

definition async_schedule_wakeup_tick :: "nat \<Rightarrow> 'v sched \<Rightarrow> 'v sched" where
  "async_schedule_wakeup_tick milliseconds st =
     (if noninteractive st \<or> \<not> event_stream st then st
      else st\<lparr>wakeups := wakeups st @ [if milliseconds < 1 then 1 else milliseconds]\<rparr>)"

definition coro_resume :: "nat \<Rightarrow> 'v lval \<Rightarrow> 'v sched \<Rightarrow> 'v sched option" where
  "coro_resume c res = upd_coro c (\<lambda>x. x\<lparr>result := res, error := Lnil, state := CORO_RUNNABLE, wait_reason := WAIT_NONE\<rparr>)"

definition coro_resume_with_error :: "nat \<Rightarrow> 'v lval \<Rightarrow> 'v sched \<Rightarrow> 'v sched option" where
  "coro_resume_with_error c err =
     upd_coro c (\<lambda>x. x\<lparr>result := Lnil, error := err, state := CORO_RUNNABLE, wait_reason := WAIT_NONE\<rparr>)"

section \<open>The interpreter's binding stack\<close>

text \<open>\<open>XREALLOC_ARRAY (specpdl, struct specbinding, n)\<close> and the new \<open>specpdl_ptr\<close>.\<close>

definition realloc_specpdl :: "nat \<Rightarrow> 'v interp \<Rightarrow> 'v interp option" where
  "realloc_specpdl n i =
     (let r = regs i; old = specpdl r; new = (if realloc_moves i then next_stack i else old)
      in case stacks i old of
           None \<Rightarrow> None
         | Some es \<Rightarrow>
             Some (i\<lparr>stacks := ((stacks i)(old := None))(new \<mapsto> es), next_stack := next_stack i + 1,
                     regs := r\<lparr>specpdl := new, specpdl_size := n, specpdl_ptr := (new, specpdl_depth_counter r)\<rparr>\<rparr>))"

function double_size :: "nat \<Rightarrow> nat \<Rightarrow> nat \<Rightarrow> nat option" where
  "double_size mx needed sz =
     (if sz < needed then
        let sz2 = (if sz * 2 > mx then mx else sz * 2)
        in if sz2 \<le> sz then None else double_size mx needed sz2
      else Some sz)"
  by pat_completeness auto
termination
  by (relation "measure (\<lambda>(mx, needed, sz). needed - sz)") (auto simp: Let_def split: if_splits)

declare double_size.simps [simp del]

definition specpdl_overflow :: "'v lval" where
  "specpdl_overflow =
     Lcons (Lsym ''stack-overflow'') (Lcons (Lstr ''Variable binding depth exceeds max-specpdl-size'') Lnil)"

text \<open>
  The result is the error that is signalled, if any, with the state.  \<open>None\<close> is also the loop that
  never reaches \<open>size_needed\<close>.
\<close>

definition grow_specpdl :: "nat \<Rightarrow> 'v interp \<Rightarrow> ('v lval option \<times> 'v interp) option" where
  "grow_specpdl reserved i =
     (let size_needed = specpdl_depth_counter (regs i) + reserved;
          mx = (if size_needed \<ge> max_specpdl_size i \<and> max_specpdl_size i < 400 then 400 else max_specpdl_size i)
      in if size_needed \<ge> mx then
           let mx = size_needed + 100; i = i\<lparr>max_specpdl_size := mx\<rparr>
           in if mx > specpdl_size (regs i)
              then map_option (\<lambda>i. (Some specpdl_overflow, i)) (realloc_specpdl mx i)
              else Some (Some specpdl_overflow, i)
         else do {
           n \<leftarrow> double_size mx size_needed (specpdl_size (regs i));
           i \<leftarrow> realloc_specpdl n (i\<lparr>max_specpdl_size := mx\<rparr>);
           Some (None, i) })"

text \<open>Writing an entry at \<open>specpdl_ptr\<close> and moving on.\<close>

definition push_specpdl :: "'v lval specbinding \<Rightarrow> 'v interp \<Rightarrow> 'v interp option" where
  "push_specpdl e i =
     (let r = regs i; (blk, n) = specpdl_ptr r
      in case stacks i blk of
           None \<Rightarrow> None
         | Some es \<Rightarrow>
             if n \<le> length es then
               Some (i\<lparr>stacks := (stacks i)(blk \<mapsto> take n es @ e # drop (n + 1) es),
                       regs := r\<lparr>specpdl_ptr := (blk, n + 1), specpdl_depth_counter := specpdl_depth_counter r + 1\<rparr>\<rparr>)
             else None)"

definition SPECPDL_RESERVE :: "nat \<Rightarrow> 'v interp \<Rightarrow> ('v lval option \<times> 'v interp) option" where
  "SPECPDL_RESERVE n i =
     (if specpdl_depth_counter (regs i) + n \<ge> specpdl_size (regs i) then grow_specpdl n i else Some (None, i))"

definition SPECBIND :: "nat \<Rightarrow> 'v lval \<Rightarrow> 'v interp \<Rightarrow> ('v lval option \<times> 'v interp) option" where
  "SPECBIND symbol newval i = do {
     (e, i) \<leftarrow> SPECPDL_RESERVE 1 i;
     (case e of
        Some e \<Rightarrow> Some (Some e, i)
      | None \<Rightarrow> do {
          i \<leftarrow> push_specpdl \<lparr>sb_symbol = symbol, sb_old_value = sym_value i symbol, sb_func = False\<rparr> i;
          Some (None, i\<lparr>sym_value := (sym_value i)(symbol := newval)\<rparr>) }) }"

definition record_unwind_protect :: "'v interp \<Rightarrow> ('v lval option \<times> 'v interp) option" where
  "record_unwind_protect i = do {
     (e, i) \<leftarrow> SPECPDL_RESERVE 1 i;
     (case e of
        Some e \<Rightarrow> Some (Some e, i)
      | None \<Rightarrow> do {
          i \<leftarrow> push_specpdl \<lparr>sb_symbol = 0, sb_old_value = Lnil, sb_func = True\<rparr> i;
          Some (None, i) }) }"

text \<open>
  The only unwind-protect recorded is \<open>condition_case_unwind\<close>, which finds \<open>Vcondition_handlers\<close> reset
  already and does nothing.
\<close>

partial_function (option) UNBIND_TO :: "nat \<Rightarrow> 'v interp \<Rightarrow> 'v interp option" where
  "UNBIND_TO depth i =
     (let r = regs i; (blk, n) = specpdl_ptr r
      in if specpdl_depth_counter r = depth then Some i
         else if n = 0 \<or> specpdl_depth_counter r = 0 then None
         else (case stacks i blk of
                 None \<Rightarrow> None
               | Some es \<Rightarrow>
                   if n > length es then None
                   else
                     let e = es ! (n - 1);
                         i = i\<lparr>regs := r\<lparr>specpdl_ptr := (blk, n - 1),
                                        specpdl_depth_counter := specpdl_depth_counter r - 1\<rparr>\<rparr>
                     in UNBIND_TO depth
                          (if sb_func e then i
                           else i\<lparr>sym_value := (sym_value i)(sb_symbol e := sb_old_value e)\<rparr>)))"

declare UNBIND_TO.simps [code]

text \<open>
  The loops of \<open>Coro_State\<close> on a block: the pointers \<open>from\<close> and \<open>to\<close> must be into the same block, which
  must not have been freed.
\<close>

definition swap_range ::
  "((nat \<Rightarrow> 'v lval) \<times> 'v lval specbinding list \<Rightarrow> nat \<Rightarrow> nat \<Rightarrow> (nat \<Rightarrow> 'v lval) \<times> 'v lval specbinding list) \<Rightarrow>
   nat \<times> nat \<Rightarrow> nat \<times> nat \<Rightarrow> 'v interp \<Rightarrow> 'v interp option"
where
  "swap_range loop from to i =
     (case stacks i (fst from) of
        None \<Rightarrow> None
      | Some es \<Rightarrow>
          if fst to = fst from \<and> snd to \<le> length es then
            (case loop (sym_value i, es) (snd from) (snd to) of
               (vals, es) \<Rightarrow> Some (i\<lparr>sym_value := vals, stacks := (stacks i)(fst from \<mapsto> es)\<rparr>))
          else None)"

section \<open>Spawning\<close>

definition CORO_SPECPDL_INITIAL_SIZE :: nat where "CORO_SPECPDL_INITIAL_SIZE = 200"

text \<open>The coroutine before it is put on the list; \<open>base\<close> are the registers that it starts from.\<close>

definition new_coro :: "'v lval \<Rightarrow> 'v lval \<Rightarrow> 'v regs \<Rightarrow> nat \<Rightarrow> 'v coro" where
  "new_coro fn arg base blk =
     (let inherit_depth = specpdl_depth_counter base
      in \<lparr>ctx = Entry, stack_live = True, state = CORO_RUNNABLE, wait_reason = WAIT_NONE,
          result = arg, error = Lnil, lisp_fn = fn, saved_gcprolist = [],
          saved_backtrace_list = backtrace_list base, saved_catchlist = catchlist base,
          saved_condition_handlers_head = Qnil, saved_condition_handlers_boundary = Qnil,
          coro_specpdl = blk, coro_specpdl_ptr = (blk, inherit_depth),
          coro_specpdl_size = inherit_depth + CORO_SPECPDL_INITIAL_SIZE,
          coro_inherit_depth = inherit_depth, wait_fd = -1, wait_deadline = 0,
          mailbox = [], actor_name = Lnil, is_actor = False, join_waiter = None,
          monitor_list = [], monitor_cap = 0, next_coro = None, prev_coro = None\<rparr>)"

definition alloc_coro :: "'v lval \<Rightarrow> 'v lval \<Rightarrow> 'v sched \<Rightarrow> (nat \<times> 'v sched) option" where
  "alloc_coro fn arg st =
     (let c = fresh_coro st; blk = next_stack (ip st);
          base = (if current_coro st \<noteq> None then sched_regs st else regs (ip st));
          inherit_depth = specpdl_depth_counter base
      in case stacks (ip st) (specpdl base) of
           None \<Rightarrow> None
         | Some es \<Rightarrow>
             if inherit_depth > length es then None
             else Some (c, st\<lparr>fresh_coro := c + 1,
               ip := (ip st)\<lparr>stacks := (stacks (ip st))(blk \<mapsto> take inherit_depth es), next_stack := blk + 1\<rparr>,
               coros := (coros st)(c \<mapsto> new_coro fn arg base blk)\<rparr>))"

definition coro_spawn :: "'v lval \<Rightarrow> 'v lval \<Rightarrow> 'v sched \<Rightarrow> (nat \<times> 'v sched) option" where
  "coro_spawn fn arg st = do {
     (c, st) \<leftarrow> alloc_coro fn arg st;
     st \<leftarrow> coro_list_add c st;
     x \<leftarrow> coros st c;
     Some (c, if current_coro st = None \<or> wait_reason x = WAIT_NONE
              then async_schedule_wakeup_tick 1 st else st) }"

section \<open>Yielding\<close>

text \<open>\<open>(deadline - now)\<close> in milliseconds, as \<open>coro_yield\<close> computes it; the caller passes an \<open>unsigned int\<close>.\<close>

definition timer_delay :: "int \<Rightarrow> int \<Rightarrow> nat" where
  "timer_delay tm deadline =
     (let ms = (if tm \<ge> deadline then 1
                else let delta = deadline - tm;
                         ms = (delta div 1000000) * 1000 + (delta mod 1000000) div 1000
                     in if ms < 1 then 1 else ms)
      in nat (ms mod 2 ^ 32))"

definition save_registers :: "nat \<Rightarrow> wait_reason_t \<Rightarrow> 'v sched \<Rightarrow> 'v sched option" where
  "save_registers c reason st =
     (let r = regs (ip st)
      in upd_coro c (\<lambda>x. x\<lparr>state := CORO_SUSPENDED, wait_reason := reason,
             coro_specpdl_ptr := specpdl_ptr r, saved_catchlist := catchlist r,
             saved_gcprolist := gcprolist r, saved_backtrace_list := backtrace_list r\<rparr>) st)"

definition detach_handlers :: "nat \<Rightarrow> 'v sched \<Rightarrow> 'v sched option" where
  "detach_handlers c st =
     (case coro_detach_condition_handlers (conses (ip st)) (condition_handlers (ip st)) (sched_condition_handlers st) of
        None \<Rightarrow> None
      | Some (h, head, bd) \<Rightarrow>
          upd_coro c (\<lambda>x. x\<lparr>saved_condition_handlers_head := head, saved_condition_handlers_boundary := bd\<rparr>)
            (set_ip ((ip st)\<lparr>conses := h, condition_handlers := sched_condition_handlers st\<rparr>) st))"

text \<open>The coroutine's own bindings are those above the ones it inherited.\<close>

definition swap_bindings ::
  "((nat \<Rightarrow> 'v lval) \<times> 'v lval specbinding list \<Rightarrow> nat \<Rightarrow> nat \<Rightarrow> (nat \<Rightarrow> 'v lval) \<times> 'v lval specbinding list) \<Rightarrow>
   nat \<Rightarrow> 'v sched \<Rightarrow> 'v sched option"
where
  "swap_bindings loop c st = do {
     x \<leftarrow> coros st c;
     i \<leftarrow> swap_range loop (coro_specpdl x, coro_inherit_depth x) (coro_specpdl_ptr x) (ip st);
     Some (set_ip i st) }"

definition arm_wakeup :: "wait_reason_t \<Rightarrow> int \<Rightarrow> 'v sched \<Rightarrow> 'v sched" where
  "arm_wakeup reason deadline st =
     (case reason of
        WAIT_NONE \<Rightarrow> async_schedule_wakeup_tick 1 st
      | WAIT_FD \<Rightarrow> async_schedule_wakeup_tick 10 st
      | WAIT_TIMER \<Rightarrow> async_schedule_wakeup_tick (timer_delay (now st) deadline) st
      | _ \<Rightarrow> st)"

definition coro_yield :: "wait_reason_t \<Rightarrow> 'v ctx \<Rightarrow> 'v sched \<Rightarrow> 'v sched option" where
  "coro_yield reason cont st = do {
     c \<leftarrow> current_coro st;
     st \<leftarrow> save_registers c reason st;
     st \<leftarrow> detach_handlers c st;
     st \<leftarrow> swap_bindings specpdl_unwind_range c st;
     x \<leftarrow> coros st c;
     upd_coro c (\<lambda>x. x\<lparr>ctx := cont\<rparr>)
       ((arm_wakeup reason (wait_deadline x) (set_ip ((ip st)\<lparr>regs := sched_regs st\<rparr>) st))\<lparr>current_coro := None\<rparr>) }"

section \<open>Actors\<close>

definition actor_spawn_internal :: "'v lval \<Rightarrow> 'v lval \<Rightarrow> 'v lval \<Rightarrow> 'v sched \<Rightarrow> (nat \<times> 'v sched) option" where
  "actor_spawn_internal name fn args st = do {
     arg \<leftarrow> (case args of Lnil \<Rightarrow> Some Lnil | Lcons a _ \<Rightarrow> Some a | _ \<Rightarrow> None);
     (c, st) \<leftarrow> coro_spawn fn arg st;
     st \<leftarrow> upd_coro c (\<lambda>x. x\<lparr>is_actor := True, actor_name := name\<rparr>) st;
     Some (c, st) }"

definition actor_send_internal :: "nat \<Rightarrow> 'v lval \<Rightarrow> 'v sched \<Rightarrow> 'v sched option" where
  "actor_send_internal target msg st = do {
     x \<leftarrow> coros st target;
     let woke_mailbox = (state x = CORO_SUSPENDED \<and> wait_reason x = WAIT_MAILBOX);
     st \<leftarrow> upd_coro target (\<lambda>x. x\<lparr>mailbox := mailbox x @ [msg]\<rparr>) st;
     st \<leftarrow> (if woke_mailbox then coro_resume target msg st else Some st);
     Some (if woke_mailbox \<and> current_coro st = None then async_schedule_wakeup_tick 1 st else st) }"

text \<open>
  The primitives that may switch to the scheduler take the rest of the coroutine; the result is the
  value when they return to it, and \<open>None\<close> inside when control is with the scheduler.
\<close>

type_synonym 'v rest = "'v lval + 'v lval \<Rightarrow> 'v body"
type_synonym 'v outcome = "(('v lval + 'v lval) option \<times> 'v sched) option"

definition actor_receive_internal :: "int \<Rightarrow> 'v cc_frame \<Rightarrow> 'v rest \<Rightarrow> 'v sched \<Rightarrow> 'v outcome" where
  "actor_receive_internal timeout_ms fr k st = do {
     c \<leftarrow> current_coro st;
     x \<leftarrow> coros st c;
     if \<not> is_actor x then None
     else (case mailbox x of
             msg # rest \<Rightarrow> do {
               st \<leftarrow> upd_coro c (\<lambda>x. x\<lparr>mailbox := rest\<rparr>) st;
               Some (Some (Inr msg), st) }
           | [] \<Rightarrow> do {
               st \<leftarrow> (if timeout_ms > 0 then
                       let extra_sec = timeout_ms div 1000; extra_usec = (timeout_ms mod 1000) * 1000
                       in upd_coro c (\<lambda>x. x\<lparr>wait_deadline := now st + extra_sec * 1000000 + extra_usec\<rparr>) st
                     else Some st);
               st \<leftarrow> coro_yield (if timeout_ms > 0 then WAIT_TIMER else WAIT_MAILBOX) (In_Receive fr k) st;
               Some (None, st) }) }"

definition opaque_coro :: "'v lval \<Rightarrow> 'v lval + nat" where
  "opaque_coro handle =
     (case handle of
        Lopaque c \<Rightarrow> Inr c
      | _ \<Rightarrow> Inl (signal_error ''async-error'' ''not a coroutine handle'' handle))"

definition Factor_receive_internal :: "'v lval \<Rightarrow> 'v cc_frame \<Rightarrow> 'v rest \<Rightarrow> 'v sched \<Rightarrow> 'v outcome" where
  "Factor_receive_internal timeout_ms fr k st =
     (case timeout_ms of
        Lnil \<Rightarrow> actor_receive_internal 0 fr k st
      | Lint i \<Rightarrow> actor_receive_internal (signed_take_bit 31 i) fr k st
      | _ \<Rightarrow> None)"

definition Factor_send_internal :: "'v lval \<Rightarrow> 'v lval \<Rightarrow> 'v sched \<Rightarrow> 'v outcome" where
  "Factor_send_internal handle message st =
     (case opaque_coro handle of
        Inl e \<Rightarrow> Some (Some (Inl e), st)
      | Inr c \<Rightarrow> map_option (\<lambda>st. (Some (Inr Lnil), st)) (actor_send_internal c message st))"

definition Factor_spawn_internal :: "'v lval \<Rightarrow> 'v lval \<Rightarrow> 'v lval \<Rightarrow> 'v sched \<Rightarrow> 'v outcome" where
  "Factor_spawn_internal name function args st =
     map_option (\<lambda>(c, st). (Some (Inr (Lopaque c)), st)) (actor_spawn_internal name function args st)"

definition Fasync_spawn_coroutine :: "'v lval \<Rightarrow> 'v lval \<Rightarrow> 'v sched \<Rightarrow> 'v outcome" where
  "Fasync_spawn_coroutine function arg st =
     map_option (\<lambda>(c, st). (Some (Inr (Lopaque c)), st)) (coro_spawn function arg st)"

text \<open>The block that a joined coroutine points to is freed, which must not have happened before.\<close>

definition Factor_join_internal :: "'v lval \<Rightarrow> 'v cc_frame \<Rightarrow> 'v rest \<Rightarrow> 'v sched \<Rightarrow> 'v outcome" where
  "Factor_join_internal handle fr k st =
     (case opaque_coro handle of
        Inl e \<Rightarrow> Some (Some (Inl e), st)
      | Inr target \<Rightarrow>
          (case current_coro st of
             None \<Rightarrow> Some (Some (Inl (signal_error ''async-error'' ''actor-join called outside coroutine'' Lnil)), st)
           | Some self \<Rightarrow> do {
               t \<leftarrow> coros st target;
               if state t = CORO_DEAD then do {
                 st \<leftarrow> coro_graveyard_remove target st;
                 t2 \<leftarrow> coros st target;
                 _ \<leftarrow> stacks (ip st) (coro_specpdl t2);
                 Some (Some (Inr (result t)),
                   st\<lparr>coros := (coros st)(target := None),
                      ip := (ip st)\<lparr>stacks := (stacks (ip st))(coro_specpdl t2 := None)\<rparr>\<rparr>) }
               else do {
                 st \<leftarrow> upd_coro target (\<lambda>x. x\<lparr>join_waiter := Some self\<rparr>) st;
                 st \<leftarrow> coro_yield WAIT_JOIN (In_Join fr k) st;
                 Some (None, st) } }))"

definition Factor_monitor_internal :: "'v lval \<Rightarrow> 'v lval \<Rightarrow> 'v sched \<Rightarrow> 'v outcome" where
  "Factor_monitor_internal target watcher st =
     (case opaque_coro target of
        Inl e \<Rightarrow> Some (Some (Inl e), st)
      | Inr t \<Rightarrow>
          (case opaque_coro watcher of
             Inl e \<Rightarrow> Some (Some (Inl e), st)
           | Inr w \<Rightarrow> do {
               x \<leftarrow> coros st t;
               st \<leftarrow> (if length (monitor_list x) \<ge> monitor_cap x
                      then upd_coro t (\<lambda>x. x\<lparr>monitor_cap := if monitor_cap x = 0 then 4 else monitor_cap x * 2\<rparr>) st
                      else Some st);
               st \<leftarrow> upd_coro t (\<lambda>x. x\<lparr>monitor_list := monitor_list x @ [w]\<rparr>) st;
               Some (Some (Inr Lnil), st) }))"

definition Fasync_coroutine_yield :: "'v cc_frame \<Rightarrow> 'v rest \<Rightarrow> 'v sched \<Rightarrow> 'v outcome" where
  "Fasync_coroutine_yield fr k st =
     (if current_coro st = None then
        Some (Some (Inl (signal_error ''async-error'' ''async-yield called outside coroutine'' Lnil)), st)
      else map_option (\<lambda>st. (None, st)) (coro_yield WAIT_NONE (In_Yield fr k) st))"

definition Fasync_current_coroutine :: "'v sched \<Rightarrow> 'v lval" where
  "Fasync_current_coroutine st = (case current_coro st of Some c \<Rightarrow> Lopaque c | None \<Rightarrow> Lnil)"

text \<open>Whether \<open>c\<close> is on the list from \<open>p\<close> on.\<close>

partial_function (option) on_list :: "'v sched \<Rightarrow> nat \<Rightarrow> nat option \<Rightarrow> bool option" where
  "on_list st c p =
     (case p of
        None \<Rightarrow> Some False
      | Some q \<Rightarrow> if q = c then Some True else do { x \<leftarrow> coros st q; on_list st c (next_coro x) })"

declare on_list.simps [code]

definition Fasync_coroutine_p :: "'v lval \<Rightarrow> 'v sched \<Rightarrow> 'v outcome" where
  "Fasync_coroutine_p object st =
     (case object of
        Lopaque c \<Rightarrow> do {
          live \<leftarrow> on_list st c (all_coros st);
          found \<leftarrow> (if live then Some True else on_list st c (dead_coros st));
          Some (Some (Inr (if found then Lsym ''t'' else Lnil)), st) }
      | _ \<Rightarrow> Some (Some (Inr Lnil), st))"

definition Fasync_coro_field :: "('v coro \<Rightarrow> 'v lval) \<Rightarrow> 'v lval \<Rightarrow> 'v sched \<Rightarrow> 'v outcome" where
  "Fasync_coro_field field handle st =
     (case opaque_coro handle of
        Inl e \<Rightarrow> Some (Some (Inl e), st)
      | Inr c \<Rightarrow> map_option (\<lambda>x. (Some (Inr (field x)), st)) (coros st c))"

definition Fasync__coro_result :: "'v lval \<Rightarrow> 'v sched \<Rightarrow> 'v outcome" where
  "Fasync__coro_result = Fasync_coro_field result"

definition Fasync__coro_error :: "'v lval \<Rightarrow> 'v sched \<Rightarrow> 'v outcome" where
  "Fasync__coro_error = Fasync_coro_field error"

section \<open>Running a coroutine\<close>

definition tick_blocked :: "'v sched \<Rightarrow> bool" where
  "tick_blocked st \<longleftrightarrow> in_tick st \<or> async_tick_forbidden st \<noteq> 0"

text \<open>A change of the interpreter's state, which may signal.\<close>

definition on_interp :: "('v interp \<Rightarrow> ('v lval option \<times> 'v interp) option) \<Rightarrow> 'v sched \<Rightarrow> 'v outcome" where
  "on_interp f st =
     map_option (\<lambda>(e, i). (Some (case e of None \<Rightarrow> Inr Lnil | Some e \<Rightarrow> Inl e), set_ip i st)) (f (ip st))"

definition push_handler :: "'v lval \<Rightarrow> 'v interp \<Rightarrow> 'v interp" where
  "push_handler handlers i =
     (let (c, h) = Fcons (conses i) (Atom (Lcons (Lsym ''unbound'') handlers)) (condition_handlers i)
      in i\<lparr>conses := h, condition_handlers := c\<rparr>)"

definition pop_handler :: "'v lval obj \<Rightarrow> 'v interp \<Rightarrow> 'v interp option" where
  "pop_handler tag i =
     (case heap_XCDR (conses i) tag of Inl e \<Rightarrow> None | Inr d \<Rightarrow> Some (i\<lparr>condition_handlers := d\<rparr>))"

text \<open>A tick inside a coroutine returns at once, since one is under way: that \<open>tick_blocked\<close> holds wherever coroutines run
  is shown in \<open>Async_Invariant\<close>, so that the \<open>None\<close> here does not arise.\<close>

fun perform :: "'v action \<Rightarrow> 'v cc_frame \<Rightarrow> 'v rest \<Rightarrow> 'v sched \<Rightarrow> 'v outcome" where
  "perform (Async_Spawn_Coroutine f arg) fr k st = Fasync_spawn_coroutine f arg st"
| "perform Async_Scheduler_Tick fr k st = (if tick_blocked st then Some (Some (Inr Lnil), st) else None)"
| "perform Async_Current_Coroutine fr k st = Some (Some (Inr (Fasync_current_coroutine st)), st)"
| "perform Async_Coroutine_Yield fr k st = Fasync_coroutine_yield fr k st"
| "perform (Async_Coroutine_P x) fr k st = Fasync_coroutine_p x st"
| "perform (Async_Coro_Result x) fr k st = Fasync__coro_result x st"
| "perform (Async_Coro_Error x) fr k st = Fasync__coro_error x st"
| "perform (Actor_Spawn_Internal name f args) fr k st = Factor_spawn_internal name f args st"
| "perform (Actor_Send_Internal x msg) fr k st = Factor_send_internal x msg st"
| "perform (Actor_Receive_Internal tmo) fr k st = Factor_receive_internal tmo fr k st"
| "perform (Actor_Join_Internal x) fr k st = Factor_join_internal x fr k st"
| "perform (Actor_Monitor_Internal x w) fr k st = Factor_monitor_internal x w st"
| "perform (Specbind s v) fr k st = on_interp (SPECBIND s v) st"
| "perform (Unbind_To depth) fr k st = on_interp (map_option (Pair None) \<circ> UNBIND_TO depth) st"
| "perform (Set_Value s v) fr k st = on_interp (\<lambda>i. Some (None, i\<lparr>sym_value := (sym_value i)(s := v)\<rparr>)) st"
| "perform (Symbol_Value s) fr k st = Some (Some (Inr (sym_value (ip st) s)), st)"
| "perform (Push_Handler hs) fr k st = on_interp (\<lambda>i. Some (None, push_handler hs i)) st"
| "perform Pop_Handler fr k st =
     on_interp (\<lambda>i. map_option (Pair None) (pop_handler (condition_handlers i) i)) st"
| "perform (Frames bt ct gp) fr k st =
     on_interp (\<lambda>i. Some (None, i\<lparr>regs := (regs i)\<lparr>backtrace_list := bt, catchlist := ct, gcprolist := gp\<rparr>\<rparr>)) st"
| "perform (Elapse us) fr k st = Some (Some (Inr Lnil), st\<lparr>now := now st + int us\<rparr>)"

text \<open>
  How \<open>condition_case_1\<close> returns: normally, or from the throw of an error, which unwinds to the
  catch first and calls \<open>coro_trampoline_handler\<close>.
\<close>

definition condition_case_return :: "'v cc_frame \<Rightarrow> 'v sched \<Rightarrow> 'v sched option" where
  "condition_case_return fr st = do {
     i \<leftarrow> pop_handler (cc_tag fr) ((ip st)\<lparr>regs := (regs (ip st))\<lparr>catchlist := cc_next fr\<rparr>\<rparr>);
     i \<leftarrow> UNBIND_TO (speccount fr) i;
     Some (set_ip i st) }"

definition condition_case_throw :: "'v cc_frame \<Rightarrow> 'v lval \<Rightarrow> 'v sched \<Rightarrow> 'v sched option" where
  "condition_case_throw fr err st = do {
     c \<leftarrow> current_coro st;
     i \<leftarrow> pop_handler (cc_tag fr) (ip st);
     i \<leftarrow> UNBIND_TO (speccount fr) i;
     upd_coro c (\<lambda>x. x\<lparr>error := err\<rparr>)
       (set_ip (i\<lparr>regs := (regs i)\<lparr>catchlist := cc_next fr, gcprolist := cc_gcpro fr, backtrace_list := cc_backlist fr\<rparr>\<rparr>) st) }"

text \<open>The loop over the monitors; reading the state of a freed watcher is \<open>None\<close>.\<close>

fun notify_monitors :: "'v lval \<Rightarrow> nat list \<Rightarrow> 'v sched \<Rightarrow> 'v sched option" where
  "notify_monitors exit_msg [] st = Some st"
| "notify_monitors exit_msg (w # ws) st = do {
     x \<leftarrow> coros st w;
     st \<leftarrow> (if state x \<noteq> CORO_DEAD then actor_send_internal w exit_msg st else Some st);
     notify_monitors exit_msg ws st }"

text \<open>\<open>coro_trampoline\<close> after \<open>condition_case_1\<close> has returned \<open>ret\<close>.\<close>

definition wake_join_waiter :: "nat \<Rightarrow> 'v lval \<Rightarrow> 'v sched \<Rightarrow> 'v sched option" where
  "wake_join_waiter c ret st = do {
     x \<leftarrow> coros st c;
     st \<leftarrow> (if error x \<noteq> Lnil then Some st else upd_coro c (\<lambda>x. x\<lparr>result := ret\<rparr>) st);
     (case join_waiter x of
        None \<Rightarrow> Some st
      | Some w \<Rightarrow> do {
          st \<leftarrow> (if error x \<noteq> Lnil then coro_resume_with_error w (error x) st else coro_resume w ret st);
          st \<leftarrow> upd_coro c (\<lambda>x. x\<lparr>join_waiter := None\<rparr>) st;
          Some (async_schedule_wakeup_tick 1 st) }) }"

definition trampoline_exit :: "'v lval \<Rightarrow> 'v sched \<Rightarrow> 'v sched option" where
  "trampoline_exit ret st = do {
     c \<leftarrow> current_coro st;
     st \<leftarrow> upd_coro c (\<lambda>x. x\<lparr>lisp_fn := Lnil\<rparr>) st;
     st \<leftarrow> wake_join_waiter c ret st;
     x \<leftarrow> coros st c;
     st \<leftarrow> notify_monitors (list2 (Lsym '':exit'') (error x)) (monitor_list x) st;
     st \<leftarrow> upd_coro c (\<lambda>x. x\<lparr>monitor_list := [], monitor_cap := 0, state := CORO_DEAD\<rparr>) st;
     st \<leftarrow> coro_list_remove c st;
     st \<leftarrow> upd_coro c (\<lambda>x. x\<lparr>next_coro := dead_coros st, ctx := At_Exit\<rparr>) st;
     Some (st\<lparr>dead_coros := Some c\<rparr>) }"

text \<open>A coroutine's code up to the next switch to the scheduler; after an escape there is none.\<close>

partial_function (option) run_body :: "'v cc_frame \<Rightarrow> 'v body \<Rightarrow> 'v sched \<Rightarrow> 'v sched option" where
  "run_body fr b st =
     (case b of
        Finish v \<Rightarrow> do { st \<leftarrow> condition_case_return fr st; trampoline_exit v st }
      | Throw e \<Rightarrow> do { st \<leftarrow> condition_case_throw fr e st; trampoline_exit Lnil st }
      | Escape \<Rightarrow> None
      | Do a k \<Rightarrow> do {
          (r, st) \<leftarrow> perform a fr k st;
          (case r of None \<Rightarrow> Some st | Some v \<Rightarrow> run_body fr (k v) st) })"

declare run_body.simps [code]

text \<open>
  \<open>coro_trampoline\<close> up to the call of the Lisp function.  An error of \<open>record_unwind_protect\<close> would leave
  the coroutine's stack: \<open>None\<close>.
\<close>

definition trampoline_start :: "'v sched \<Rightarrow> ('v cc_frame \<times> 'v lval \<times> 'v lval \<times> 'v sched) option" where
  "trampoline_start st = do {
     c \<leftarrow> current_coro st;
     x \<leftarrow> coros st c;
     st \<leftarrow> upd_coro c (\<lambda>y. y\<lparr>result := Lcons (lisp_fn x) (result x)\<rparr>) st;
     let i = ip st;
     let (tag, h) = Fcons (conses i) (Atom (Lcons (Lsym ''unbound'') (Lsym ''t''))) (condition_handlers i);
     let fr = \<lparr>speccount = specpdl_depth_counter (regs i), cc_tag = tag, cc_next = catchlist (regs i),
               cc_backlist = backtrace_list (regs i), cc_gcpro = gcprolist (regs i)\<rparr>;
     (e, i) \<leftarrow> record_unwind_protect (i\<lparr>conses := h\<rparr>);
     if e \<noteq> None then None
     else Some (fr, lisp_fn x, result x,
            set_ip (i\<lparr>regs := (regs i)\<lparr>catchlist := tag # cc_next fr\<rparr>, condition_handlers := tag\<rparr>) st) }"

text \<open>\<open>coro_swap\<close> to a coroutine: where it goes on, and what it does until control is with the scheduler again.\<close>

definition coro_entry ::
  "('v lval \<Rightarrow> 'v lval \<Rightarrow> 'v body) \<Rightarrow> nat \<Rightarrow> 'v sched \<Rightarrow> ('v cc_frame \<times> 'v body \<times> 'v sched) option"
where
  "coro_entry call1 c st = do {
     x \<leftarrow> coros st c;
     (case ctx x of
        Entry \<Rightarrow> do { (fr, fn, arg, st) \<leftarrow> trampoline_start st; Some (fr, call1 fn arg, st) }
      | In_Yield fr k \<Rightarrow> Some (fr, k (Inr Lnil), st)
      | In_Receive fr k \<Rightarrow> Some (fr, k (Inr (result x)), st)
      | In_Join fr k \<Rightarrow> Some (fr, k (Inr (result x)), st)
      | At_Exit \<Rightarrow> None) }"

definition enter_coro :: "('v lval \<Rightarrow> 'v lval \<Rightarrow> 'v body) \<Rightarrow> nat \<Rightarrow> 'v sched \<Rightarrow> 'v sched option" where
  "enter_coro call1 c st = do { (fr, b, st) \<leftarrow> coro_entry call1 c st; run_body fr b st }"

section \<open>The tick\<close>

partial_function (option) resume_yielded :: "nat option \<Rightarrow> 'v sched \<Rightarrow> 'v sched option" where
  "resume_yielded p st =
     (case p of
        None \<Rightarrow> Some st
      | Some c \<Rightarrow> do {
          x \<leftarrow> coros st c;
          st \<leftarrow> (if state x = CORO_SUSPENDED \<and> wait_reason x = WAIT_NONE then coro_resume c (result x) st else Some st);
          x \<leftarrow> coros st c;
          resume_yielded (next_coro x) st })"

declare resume_yielded.simps [code]

partial_function (option) resume_timers :: "nat option \<Rightarrow> 'v sched \<Rightarrow> 'v sched option" where
  "resume_timers p st =
     (case p of
        None \<Rightarrow> Some st
      | Some c \<Rightarrow> do {
          x \<leftarrow> coros st c;
          st \<leftarrow> (if state x = CORO_SUSPENDED \<and> wait_reason x = WAIT_TIMER \<and> now st \<ge> wait_deadline x
                 then coro_resume_with_error c (list2 (Lsym ''async-timeout'') (Lstr ''timeout'')) st else Some st);
          x \<leftarrow> coros st c;
          resume_timers (next_coro x) st })"

declare resume_timers.simps [code]

text \<open>Saving the scheduler's interpreter state and switching to the coroutine's; then the way back.\<close>

definition load_registers :: "nat \<Rightarrow> 'v sched \<Rightarrow> 'v sched option" where
  "load_registers c st = do {
     x \<leftarrow> coros st c;
     let r = \<lparr>specpdl = coro_specpdl x, specpdl_ptr = coro_specpdl_ptr x,
              specpdl_depth_counter = snd (coro_specpdl_ptr x), specpdl_size = coro_specpdl_size x,
              backtrace_list = saved_backtrace_list x, catchlist = saved_catchlist x, gcprolist = saved_gcprolist x\<rparr>;
     Some (set_ip ((ip st)\<lparr>regs := r\<rparr>) st) }"

definition reattach_handlers :: "nat \<Rightarrow> 'v sched \<Rightarrow> 'v sched option" where
  "reattach_handlers c st = do {
     x \<leftarrow> coros st c;
     (case coro_reattach_condition_handlers (conses (ip st)) (saved_condition_handlers_head x)
             (saved_condition_handlers_boundary x) (condition_handlers (ip st)) of
        None \<Rightarrow> None
      | Some (h, handlers) \<Rightarrow>
          upd_coro c (\<lambda>x. if saved_condition_handlers_head x = Qnil then x
                         else x\<lparr>saved_condition_handlers_head := Qnil, saved_condition_handlers_boundary := Qnil\<rparr>)
            (set_ip ((ip st)\<lparr>conses := h, condition_handlers := handlers\<rparr>) st)) }"

definition switch_in :: "nat \<Rightarrow> 'v sched \<Rightarrow> 'v sched option" where
  "switch_in c st = do {
     st \<leftarrow> upd_coro c (\<lambda>x. x\<lparr>state := CORO_RUNNING\<rparr>) st;
     st \<leftarrow> load_registers c (st\<lparr>current_coro := Some c, sched_regs := regs (ip st),
                                 sched_condition_handlers := condition_handlers (ip st)\<rparr>);
     st \<leftarrow> reattach_handlers c st;
     swap_bindings specpdl_rebind_range c st }"

definition switch_out :: "nat \<Rightarrow> 'v sched \<Rightarrow> 'v sched option" where
  "switch_out c st = do {
     let st = (set_ip ((ip st)\<lparr>regs := sched_regs st, condition_handlers := sched_condition_handlers st\<rparr>) st)
                \<lparr>current_coro := None\<rparr>;
     upd_coro c (\<lambda>x. if state x = CORO_DEAD \<and> stack_live x then x\<lparr>stack_live := False\<rparr> else x) st }"

definition run_slice :: "('v lval \<Rightarrow> 'v lval \<Rightarrow> 'v body) \<Rightarrow> nat \<Rightarrow> 'v sched \<Rightarrow> 'v sched option" where
  "run_slice call1 c st = do {
     st \<leftarrow> switch_in c st;
     st \<leftarrow> enter_coro call1 c st;
     switch_out c st }"

partial_function (option) run_runnable :: "('v lval \<Rightarrow> 'v lval \<Rightarrow> 'v body) \<Rightarrow> nat option \<Rightarrow> 'v sched \<Rightarrow> 'v sched option" where
  "run_runnable call1 p st =
     (case p of
        None \<Rightarrow> Some st
      | Some c \<Rightarrow> do {
          x \<leftarrow> coros st c;
          st \<leftarrow> (if state x = CORO_RUNNABLE then run_slice call1 c st else Some st);
          run_runnable call1 (next_coro x) st })"

declare run_runnable.simps [code]

partial_function (option) some_wait_fd :: "'v sched \<Rightarrow> nat option \<Rightarrow> bool option" where
  "some_wait_fd st p =
     (case p of
        None \<Rightarrow> Some False
      | Some c \<Rightarrow> do {
          x \<leftarrow> coros st c;
          if state x = CORO_SUSPENDED \<and> wait_reason x = WAIT_FD then Some True
          else some_wait_fd st (next_coro x) })"

declare some_wait_fd.simps [code]

definition async_scheduler_tick :: "('v lval \<Rightarrow> 'v lval \<Rightarrow> 'v body) \<Rightarrow> 'v sched \<Rightarrow> 'v sched option" where
  "async_scheduler_tick call1 st =
     (if tick_blocked st then Some st
      else
        let st = st\<lparr>in_tick := True\<rparr>
        in if all_coros st = None then Some (st\<lparr>in_tick := False\<rparr>)
           else do {
             st \<leftarrow> resume_yielded (all_coros st) st;
             st \<leftarrow> resume_timers (all_coros st) st;
             st \<leftarrow> run_runnable call1 (all_coros st) st;
             has_wait_fd \<leftarrow> some_wait_fd st (all_coros st);
             let st = (if has_wait_fd then async_schedule_wakeup_tick 10 st else st);
             Some (st\<lparr>in_tick := False\<rparr>) })"

text \<open>The guard around the event loop, and the callback of the timeout that a wakeup generates.\<close>

definition async_tick_forbid_start :: "'v sched \<Rightarrow> 'v sched" where
  "async_tick_forbid_start st = st\<lparr>async_tick_forbidden := async_tick_forbidden st + 1\<rparr>"

definition async_tick_unforbid :: "'v sched \<Rightarrow> 'v sched" where
  "async_tick_unforbid st =
     (if async_tick_forbidden st > 0 then st\<lparr>async_tick_forbidden := async_tick_forbidden st - 1\<rparr> else st)"

definition Fasync_scheduler_tick :: "('v lval \<Rightarrow> 'v lval \<Rightarrow> 'v body) \<Rightarrow> 'v sched \<Rightarrow> ('v lval \<times> 'v sched) option" where
  "Fasync_scheduler_tick call1 st = map_option (Pair Lnil) (async_scheduler_tick call1 st)"

definition Fasync__scheduler_tick_from_timer ::
  "('v lval \<Rightarrow> 'v lval \<Rightarrow> 'v body) \<Rightarrow> 'v lval \<Rightarrow> 'v sched \<Rightarrow> ('v lval \<times> 'v sched) option"
where
  "Fasync__scheduler_tick_from_timer call1 object st = map_option (Pair Lnil) (async_scheduler_tick call1 st)"

text \<open>The state after \<open>vars_of_async_scheduler\<close>, over an interpreter at top level.\<close>

definition init_sched :: "'v interp \<Rightarrow> bool \<Rightarrow> bool \<Rightarrow> 'v sched" where
  "init_sched i batch stream =
     \<lparr>ip = i, coros = (\<lambda>_. None), fresh_coro = 0, all_coros = None, dead_coros = None, coro_count = 0,
      current_coro = None, in_tick = False, async_tick_forbidden = 0, sched_regs = regs i,
      sched_condition_handlers = Qnil, now = 0, wakeups = [], noninteractive = batch, event_stream = stream\<rparr>"

end
