(* ===== verification/Async_Invariant.thy ===== *)
theory Async_Invariant
  imports Async_Scheduler
begin

text \<open>
  The invariant of the table of coroutines of \<open>Async_Scheduler\<close>: the two linked lists, the states and
  the joins; every primitive, every slice of a coroutine and every tick keeps it.
\<close>

section \<open>The part of a coroutine that the invariant is about\<close>

record core =
  c_next :: "nat option"
  c_prev :: "nat option"
  c_state :: coro_state_t
  c_reason :: wait_reason_t
  c_join :: "nat option"
  c_exited :: bool
  c_stack :: bool

definition core :: "'v coro \<Rightarrow> core" where
  "core x = \<lparr>c_next = next_coro x, c_prev = prev_coro x, c_state = state x, c_reason = wait_reason x,
             c_join = join_waiter x, c_exited = (ctx x = At_Exit), c_stack = stack_live x\<rparr>"

lemma core_sel [simp]:
  "c_next (core x) = next_coro x" "c_prev (core x) = prev_coro x" "c_state (core x) = state x"
  "c_reason (core x) = wait_reason x" "c_join (core x) = join_waiter x"
  "c_exited (core x) \<longleftrightarrow> ctx x = At_Exit" "c_stack (core x) = stack_live x"
  by (simp_all add: core_def)

definition cores :: "'v sched \<Rightarrow> nat \<Rightarrow> core option" where
  "cores st c = map_option core (coros st c)"

text \<open>The doubly linked list of the live coroutines and the singly linked one of the dead.\<close>

fun dll :: "(nat \<Rightarrow> core option) \<Rightarrow> nat option \<Rightarrow> nat option \<Rightarrow> nat list \<Rightarrow> bool" where
  "dll cs prv p [] \<longleftrightarrow> p = None"
| "dll cs prv p (c # xs) \<longleftrightarrow> p = Some c \<and> (\<exists>x. cs c = Some x \<and> c_prev x = prv \<and> dll cs (Some c) (c_next x) xs)"

fun sll :: "(nat \<Rightarrow> core option) \<Rightarrow> nat option \<Rightarrow> nat list \<Rightarrow> bool" where
  "sll cs p [] \<longleftrightarrow> p = None"
| "sll cs p (c # xs) \<longleftrightarrow> p = Some c \<and> (\<exists>x. cs c = Some x \<and> sll cs (c_next x) xs)"

text \<open>
  \<open>cur\<close> is the running coroutine; \<open>z\<close> is one that has died and whose stack control has not left yet.
\<close>

definition coro_ok :: "nat option \<Rightarrow> nat option \<Rightarrow> nat list \<Rightarrow> nat \<Rightarrow> core \<Rightarrow> bool" where
  "coro_ok cur z ds c x \<longleftrightarrow>
     (c \<in> set ds \<longleftrightarrow> c_state x = CORO_DEAD) \<and> (c_exited x \<longleftrightarrow> c_state x = CORO_DEAD) \<and>
     (c_state x = CORO_RUNNING \<longleftrightarrow> cur = Some c) \<and>
     (c_stack x \<longleftrightarrow> c_state x \<noteq> CORO_DEAD \<or> z = Some c)"

definition joins_ok :: "(nat \<Rightarrow> core option) \<Rightarrow> bool" where
  "joins_ok cs \<longleftrightarrow>
     (\<forall>c x w. cs c = Some x \<and> c_join x = Some w \<longrightarrow>
        c_state x \<noteq> CORO_DEAD \<and> (\<exists>y. cs w = Some y \<and> c_state y = CORO_SUSPENDED \<and> c_reason y = WAIT_JOIN)) \<and>
     (\<forall>c d x y w. cs c = Some x \<and> cs d = Some y \<and> c_join x = Some w \<and> c_join y = Some w \<longrightarrow> c = d)"

definition table_ok ::
  "(nat \<Rightarrow> core option) \<Rightarrow> nat option \<Rightarrow> nat option \<Rightarrow> nat option \<Rightarrow> nat option \<Rightarrow> nat list \<Rightarrow> nat list \<Rightarrow> bool"
where
  "table_ok cs all dead cur z xs ds \<longleftrightarrow>
     dll cs None all xs \<and> sll cs dead ds \<and> distinct (xs @ ds) \<and> dom cs = set (xs @ ds) \<and>
     (\<forall>c x. cs c = Some x \<longrightarrow> coro_ok cur z ds c x) \<and> set_option cur \<union> set_option z \<subseteq> dom cs \<and> joins_ok cs"

definition sched_ok :: "nat option \<Rightarrow> nat option \<Rightarrow> nat list \<Rightarrow> nat list \<Rightarrow> 'v sched \<Rightarrow> bool" where
  "sched_ok cur z xs ds st \<longleftrightarrow>
     table_ok (cores st) (all_coros st) (dead_coros st) cur z xs ds \<and>
     coro_count st = int (length xs) \<and> (\<forall>c \<in> set (xs @ ds). c < fresh_coro st)"

section \<open>The lists\<close>

definition same_links :: "core option \<Rightarrow> core option \<Rightarrow> bool" where
  "same_links x y \<longleftrightarrow> map_option c_next x = map_option c_next y \<and> map_option c_prev x = map_option c_prev y"

lemma same_links_refl [simp]: "same_links x x"
  by (simp add: same_links_def)

lemma same_links_Some [simp]: "same_links (Some x) (Some y) \<longleftrightarrow> c_next x = c_next y \<and> c_prev x = c_prev y"
  by (simp add: same_links_def)

lemma dll_cong: "dll cs prv p xs \<Longrightarrow> (\<And>c. c \<in> set xs \<Longrightarrow> same_links (cs c) (cs' c)) \<Longrightarrow> dll cs' prv p xs"
proof (induction xs arbitrary: prv p)
  case (Cons c xs)
  then obtain x where x: "p = Some c" "cs c = Some x" "c_prev x = prv" "dll cs (Some c) (c_next x) xs" by auto
  then obtain x' where "cs' c = Some x'" "c_next x' = c_next x" "c_prev x' = c_prev x"
    using Cons.prems(2) [of c] by (cases "cs' c") (auto simp: same_links_def)
  with x Cons show ?case by auto
qed simp

lemma sll_cong:
  "sll cs p xs \<Longrightarrow> (\<And>c. c \<in> set xs \<Longrightarrow> map_option c_next (cs c) = map_option c_next (cs' c)) \<Longrightarrow> sll cs' p xs"
proof (induction xs arbitrary: p)
  case (Cons c xs)
  then obtain x where x: "p = Some c" "cs c = Some x" "sll cs (c_next x) xs" by auto
  then obtain x' where "cs' c = Some x'" "c_next x' = c_next x"
    using Cons.prems(2) [of c] by (cases "cs' c") auto
  with x Cons show ?case by auto
qed simp


lemma dll_hd: "dll cs prv p xs \<Longrightarrow> p = (case xs of [] \<Rightarrow> None | c # _ \<Rightarrow> Some c)"
  by (cases xs) auto

lemma dll_nth_next:
  "dll cs prv p (xs @ c # ys) \<Longrightarrow> \<exists>x. cs c = Some x \<and> dll cs (Some c) (c_next x) ys \<and>
     c_prev x = (if xs = [] then prv else Some (last xs))"
  by (induction xs arbitrary: prv p) auto

text \<open>Taking \<open>c\<close> out: its neighbours are linked with each other.\<close>

lemma dll_remove:
  assumes "dll cs prv p (xs @ c # ys)" "distinct (xs @ c # ys)" "cs c = Some x"
  defines "nx \<equiv> (\<lambda>y. y\<lparr>c_next := c_next x\<rparr>)"
    and "pv \<equiv> (\<lambda>y. y\<lparr>c_prev := c_prev x\<rparr>)"
  defines "cs1 \<equiv> (if xs = [] then cs else cs(last xs := map_option nx (cs (last xs))))"
  defines "cs2 \<equiv> (case ys of [] \<Rightarrow> cs1 | y # _ \<Rightarrow> cs1(y := map_option pv (cs1 y)))"
  shows "dll cs2 prv (if xs = [] then c_next x else p) (xs @ ys)"
  using assms(1-3) unfolding cs2_def cs1_def nx_def pv_def
proof (induction xs arbitrary: prv p)
  case Nil
  show ?case
  proof (cases ys)
    case (Cons y ys')
    with Nil obtain xy where y: "cs y = Some xy" "dll cs (Some y) (c_next xy) ys'" "c_next x = Some y" "c_prev x = prv"
      by auto
    have "dll (cs(y \<mapsto> xy\<lparr>c_prev := c_prev x\<rparr>)) (Some y) (c_next xy) ys'"
      by (rule dll_cong [OF y(2)]) (use Nil Cons in auto)
    with y Cons show ?thesis by (simp add: fun_upd_def)
  qed (use Nil in auto)
next
  case (Cons a xs)
  then obtain xa where a: "p = Some a" "cs a = Some xa" "c_prev xa = prv" "dll cs (Some a) (c_next xa) (xs @ c # ys)" by auto
  have IH: "dll (case ys of [] \<Rightarrow> if xs = [] then cs else cs(last xs := map_option (\<lambda>y. y\<lparr>c_next := c_next x\<rparr>) (cs (last xs)))
        | y # _ \<Rightarrow> (if xs = [] then cs else cs(last xs := map_option (\<lambda>y. y\<lparr>c_next := c_next x\<rparr>) (cs (last xs))))
            (y := map_option (\<lambda>y. y\<lparr>c_prev := c_prev x\<rparr>)
               ((if xs = [] then cs else cs(last xs := map_option (\<lambda>y. y\<lparr>c_next := c_next x\<rparr>) (cs (last xs)))) y)))
      (Some a) (if xs = [] then c_next x else c_next xa) (xs @ ys)" (is "dll ?cs _ _ _")
    by (rule Cons.IH [OF a(4)]) (use Cons.prems in auto)
  show ?case
  proof (cases "xs = []")
    case True
    with a have nx: "c_next xa = Some c" by auto
    let ?cs2 = "(case ys of [] \<Rightarrow> cs(a \<mapsto> xa\<lparr>c_next := c_next x\<rparr>)
       | y # _ \<Rightarrow> (cs(a \<mapsto> xa\<lparr>c_next := c_next x\<rparr>))(y := map_option (\<lambda>y. y\<lparr>c_prev := c_prev x\<rparr>) (cs y)))"
    have "dll ?cs2 (Some a) (c_next x) ys"
      by (rule dll_cong [of ?cs]) (use IH True Cons.prems(2) in \<open>auto split: list.splits\<close>)
    moreover have "?cs2 a = Some (xa\<lparr>c_next := c_next x\<rparr>)" using Cons.prems(2) True by (auto split: list.splits)
    ultimately show ?thesis using True a Cons.prems(2) by (auto split: list.splits)
  next
    case False
    then have la: "last xs \<noteq> a" using Cons.prems(2) by (metis distinct.simps(2) append_Cons Un_iff last_in_set set_append)
    have "?cs a = Some xa" using a(2) la False Cons.prems(2) by (auto split: list.splits)
    with IH False a la Cons.prems(2) show ?thesis by (auto split: list.splits)
  qed
qed

section \<open>What the operations do to the table\<close>

definition lists :: "'v sched \<Rightarrow> nat option \<times> nat option \<times> int \<times> nat" where
  "lists st = (all_coros st, dead_coros st, coro_count st, fresh_coro st)"

text \<open>What only a tick changes.\<close>

definition fixed :: "'v sched \<Rightarrow> bool \<times> int \<times> 'v regs \<times> 'v lval obj \<times> bool \<times> bool" where
  "fixed st = (in_tick st, async_tick_forbidden st, sched_regs st, sched_condition_handlers st,
     noninteractive st, event_stream st)"

lemmas ctl_defs = lists_def fixed_def cores_def [abs_def]

lemma upd_coro_Some:
  "upd_coro c f st = Some st' \<longleftrightarrow> (\<exists>x. coros st c = Some x \<and> st' = st\<lparr>coros := (coros st)(c \<mapsto> f x)\<rparr>)"
  by (auto simp: upd_coro_def)

lemma cores_upd [simp]: "cores (st\<lparr>coros := (coros st)(c \<mapsto> x)\<rparr>) = (cores st)(c \<mapsto> core x)"
  by (auto simp: cores_def)

lemma cores_cong: "coros st' = coros st \<Longrightarrow> cores st' = cores st"
  by (simp add: cores_def fun_eq_iff)

lemma cores_upd_same:
  "coros st c = Some x \<Longrightarrow> core y = core x \<Longrightarrow> (cores st)(c \<mapsto> core y) = cores st"
  by (auto simp: cores_def)

lemma sched_ok_cong:
  "cores st' = cores st \<Longrightarrow> lists st' = lists st \<Longrightarrow> sched_ok cur z xs ds st \<Longrightarrow> sched_ok cur z xs ds st'"
  by (simp add: sched_ok_def lists_def)

lemma wakeup_ctl [simp]:
  "coros (async_schedule_wakeup_tick ms st) = coros st" "lists (async_schedule_wakeup_tick ms st) = lists st"
  "fixed (async_schedule_wakeup_tick ms st) = fixed st" "ip (async_schedule_wakeup_tick ms st) = ip st"
  "current_coro (async_schedule_wakeup_tick ms st) = current_coro st"
  "all_coros (async_schedule_wakeup_tick ms st) = all_coros st"
  by (simp_all add: async_schedule_wakeup_tick_def lists_def fixed_def)

lemma set_ip_ctl [simp]:
  "coros (set_ip i st) = coros st" "lists (set_ip i st) = lists st" "fixed (set_ip i st) = fixed st"
  "ip (set_ip i st) = i" "current_coro (set_ip i st) = current_coro st"
  "sched_regs (set_ip i st) = sched_regs st" "sched_condition_handlers (set_ip i st) = sched_condition_handlers st"
  by (simp_all add: set_ip_def lists_def fixed_def)

lemma bind_Some: "Option.bind m f = Some y \<longleftrightarrow> (\<exists>x. m = Some x \<and> f x = Some y)"
  by (cases m) auto

lemma set_current_ctl [simp]:
  "lists (st\<lparr>current_coro := p\<rparr>) = lists st" "fixed (st\<lparr>current_coro := p\<rparr>) = fixed st"
  "cores (st\<lparr>current_coro := p\<rparr>) = cores st"
  by (simp_all add: lists_def fixed_def cores_def fun_eq_iff)

lemma upd_coro_effect:
  assumes "upd_coro c f st = Some st'"
  obtains x where "coros st c = Some x" "coros st' = (coros st)(c \<mapsto> f x)" "cores st' = (cores st)(c \<mapsto> core (f x))"
    "lists st' = lists st" "fixed st' = fixed st" "ip st' = ip st" "current_coro st' = current_coro st"
  using assms by (auto simp: upd_coro_Some lists_def fixed_def)

text \<open>An operation that leaves the table and the tick's variables alone, up to what \<open>core\<close> does not see.\<close>

definition quiet :: "'v sched \<Rightarrow> 'v sched \<Rightarrow> bool" where
  "quiet st st' \<longleftrightarrow> cores st' = cores st \<and> lists st' = lists st \<and> fixed st' = fixed st \<and> current_coro st' = current_coro st"

lemma quiet_refl [simp]: "quiet st st"
  by (simp add: quiet_def)

lemma quiet_trans: "quiet st1 st2 \<Longrightarrow> quiet st2 st3 \<Longrightarrow> quiet st1 st3"
  by (simp add: quiet_def)

lemma quiet_upd:
  assumes "upd_coro c f st = Some st'" "\<And>x. core (f x) = core x"
  shows "quiet st st'"
  using assms(1) by (rule upd_coro_effect) (simp add: quiet_def assms(2) cores_def fun_eq_iff)

lemma quiet_set_ip [simp]: "quiet st (set_ip i st)"
  by (simp add: quiet_def cores_def fun_eq_iff)

lemma quiet_detach: "detach_handlers c st = Some st' \<Longrightarrow> quiet st st'"
  by (auto simp: detach_handlers_def core_def split: option.splits dest!: quiet_upd intro: quiet_trans [OF quiet_set_ip])

lemma quiet_swap_bindings: "swap_bindings loop c st = Some st' \<Longrightarrow> quiet st st'"
  by (auto simp: swap_bindings_def bind_Some)

lemma arm_wakeup_ctl [simp]:
  "coros (arm_wakeup r d st) = coros st" "lists (arm_wakeup r d st) = lists st" "fixed (arm_wakeup r d st) = fixed st"
  "ip (arm_wakeup r d st) = ip st"
  by (cases r; simp add: arm_wakeup_def)+

lemma coro_yield_effect:
  fixes st :: "'v sched"
  assumes "coro_yield reason cont st = Some st'"
  obtains c x where "current_coro st = Some c" "coros st c = Some x" "current_coro st' = None"
    "cores st' = (cores st)(c \<mapsto> (core x)\<lparr>c_state := CORO_SUSPENDED, c_reason := reason, c_exited := (cont = At_Exit)\<rparr>)"
    "lists st' = lists st" "fixed st' = fixed st"
proof -
  from assms obtain c st1 st2 st3 and y :: "'v coro" where
    c: "current_coro st = Some c" and
    s1: "save_registers c reason st = Some st1" and
    s2: "detach_handlers c st1 = Some st2" and
    s3: "swap_bindings specpdl_unwind_range c st2 = Some st3" and
    s4: "upd_coro c (\<lambda>x. x\<lparr>ctx := cont\<rparr>)
       ((arm_wakeup reason (wait_deadline y) (set_ip ((ip st3)\<lparr>regs := sched_regs st3\<rparr>) st3))\<lparr>current_coro := None\<rparr>) = Some st'"
    by (auto simp: coro_yield_def bind_Some)
  obtain x where x: "coros st c = Some x" and
      1: "cores st1 = (cores st)(c \<mapsto> (core x)\<lparr>c_state := CORO_SUSPENDED, c_reason := reason\<rparr>)"
        "lists st1 = lists st" "fixed st1 = fixed st"
    using s1 unfolding save_registers_def Let_def by (rule upd_coro_effect) (simp add: core_def)
  have q: "quiet st1 st3" using quiet_trans quiet_detach [OF s2] quiet_swap_bindings [OF s3] by blast
  obtain z where z: "coros st3 c = Some z" "cores st' = (cores st3)(c \<mapsto> (core z)\<lparr>c_exited := (cont = At_Exit)\<rparr>)"
      "lists st' = lists st3" "fixed st' = fixed st3" "current_coro st' = None"
    using s4 by (rule upd_coro_effect) (auto simp: core_def cores_def fun_eq_iff)
  have "core z = (core x)\<lparr>c_state := CORO_SUSPENDED, c_reason := reason\<rparr>"
    using q z(1) 1(1) by (auto simp: quiet_def cores_def fun_eq_iff split: if_splits)
  with q 1 z x c that show ?thesis by (auto simp: quiet_def)
qed

section \<open>Updates of the table\<close>

lemma table_upd:
  assumes "table_ok cs all dead cur z xs ds" "cs c = Some x" "c_next x' = c_next x" "c_prev x' = c_prev x"
    and "coro_ok cur' z' ds c x'" "\<And>d y. d \<noteq> c \<Longrightarrow> coro_ok cur z ds d y \<Longrightarrow> coro_ok cur' z' ds d y"
    and "set_option cur' \<union> set_option z' \<subseteq> dom cs" "joins_ok (cs(c \<mapsto> x'))"
  shows "table_ok (cs(c \<mapsto> x')) all dead cur' z' xs ds"
proof -
  have "dll (cs(c \<mapsto> x')) None all xs" "sll (cs(c \<mapsto> x')) dead ds"
    using assms(1-4) by (auto simp: table_ok_def elim!: dll_cong sll_cong)
  moreover have "dom (cs(c \<mapsto> x')) = dom cs" using assms(2) by auto
  ultimately show ?thesis using assms by (auto simp: table_ok_def)
qed

definition waits_join :: "(nat \<Rightarrow> core option) \<Rightarrow> nat \<Rightarrow> bool" where
  "waits_join cs w \<longleftrightarrow> (\<exists>y. cs w = Some y \<and> c_state y = CORO_SUSPENDED \<and> c_reason y = WAIT_JOIN)"

lemma joinsI:
  assumes "\<And>c x w. cs c = Some x \<Longrightarrow> c_join x = Some w \<Longrightarrow> c_state x \<noteq> CORO_DEAD \<and> waits_join cs w"
    and "\<And>c d x y w. cs c = Some x \<Longrightarrow> cs d = Some y \<Longrightarrow> c_join x = Some w \<Longrightarrow> c_join y = Some w \<Longrightarrow> c = d"
  shows "joins_ok cs"
  using assms unfolding joins_ok_def waits_join_def by metis

lemma joinsD:
  assumes "joins_ok cs" "cs c = Some x" "c_join x = Some w"
  shows "c_state x \<noteq> CORO_DEAD" "waits_join cs w"
  using assms unfolding joins_ok_def waits_join_def by metis+

lemma joins_inj:
  "joins_ok cs \<Longrightarrow> cs c = Some x \<Longrightarrow> cs d = Some y \<Longrightarrow> c_join x = Some w \<Longrightarrow> c_join y = Some w \<Longrightarrow> c = d"
  unfolding joins_ok_def by metis

lemma joins_upd:
  assumes "joins_ok cs" "cs c = Some x" "c_join x' = c_join x" "c_state x' \<noteq> CORO_DEAD \<or> c_join x' = None"
    and "waits_join cs c \<Longrightarrow> c_state x' = CORO_SUSPENDED \<and> c_reason x' = WAIT_JOIN"
  shows "joins_ok (cs(c \<mapsto> x'))"
proof (rule joinsI)
  have w: "waits_join cs w \<Longrightarrow> waits_join (cs(c \<mapsto> x')) w" for w
    using assms(5) by (cases "w = c") (auto simp: waits_join_def)
  show "c_state y \<noteq> CORO_DEAD \<and> waits_join (cs(c \<mapsto> x')) w" if "(cs(c \<mapsto> x')) d = Some y" "c_join y = Some w" for d y w
    using that assms(2-4) w joinsD [OF assms(1)] by (cases "d = c") auto
  show "d = e" if "(cs(c \<mapsto> x')) d = Some y" "(cs(c \<mapsto> x')) e = Some v" "c_join y = Some w" "c_join v = Some w" for d e y v w
  proof -
    have "\<exists>y'. cs d = Some y' \<and> c_join y' = Some w" "\<exists>v'. cs e = Some v' \<and> c_join v' = Some w"
      using that assms(2,3) by (auto split: if_splits)
    then show ?thesis using joins_inj [OF assms(1)] by blast
  qed
qed

lemma table_okD:
  assumes "table_ok cs all dead cur z xs ds" "cs c = Some x"
  shows "coro_ok cur z ds c x" "c \<in> set xs \<union> set ds"
  using assms by (auto simp: table_ok_def dom_def)

definition running :: "nat \<Rightarrow> nat list \<Rightarrow> nat list \<Rightarrow> 'v sched \<Rightarrow> bool" where
  "running c xs ds st \<longleftrightarrow> sched_ok (Some c) None xs ds st \<and> current_coro st = Some c"

lemma quiet_ok: "quiet st st' \<Longrightarrow> sched_ok cur z xs ds st \<Longrightarrow> sched_ok cur z xs ds st'"
  by (auto simp: quiet_def intro: sched_ok_cong)

lemma quiet_running: "quiet st st' \<Longrightarrow> running c xs ds st \<Longrightarrow> running c xs ds st'"
  using quiet_ok [of st st'] by (auto simp: running_def quiet_def)

lemma sched_ok_upd:
  assumes "sched_ok cur z xs ds st" "cores st' = (cores st)(c \<mapsto> x')" "cores st c = Some x" "lists st' = lists st"
    and "c_next x' = c_next x" "c_prev x' = c_prev x"
    and "coro_ok cur' z' ds c x'" "\<And>d y. d \<noteq> c \<Longrightarrow> coro_ok cur z ds d y \<Longrightarrow> coro_ok cur' z' ds d y"
    and "set_option cur' \<union> set_option z' \<subseteq> dom (cores st)" "joins_ok ((cores st)(c \<mapsto> x'))"
  shows "sched_ok cur' z' xs ds st'"
  using assms(1,2,4) table_upd [OF _ assms(3,5-10)] by (auto simp: sched_ok_def lists_def)

lemma cores_Some: "cores st c = Some x \<longleftrightarrow> (\<exists>y. coros st c = Some y \<and> x = core y)"
  by (auto simp: cores_def)

lemma core_of: "coros st c = Some x \<Longrightarrow> cores st c = Some (core x)"
  by (simp add: cores_def)

lemma sched_okD:
  assumes "sched_ok cur z xs ds st"
  shows "coros st c = Some x \<Longrightarrow> coro_ok cur z ds c (core x)" "coros st c = Some x \<Longrightarrow> c \<in> set xs \<union> set ds"
    "joins_ok (cores st)" "set_option cur \<union> set_option z \<subseteq> dom (cores st)"
  using assms by (auto simp: sched_ok_def table_ok_def cores_def dom_def)

lemma quiet_wakeup [simp]: "quiet st (async_schedule_wakeup_tick ms st)"
  by (simp add: quiet_def cores_def fun_eq_iff)

text \<open>Making a coroutine runnable that waits for anything but the end of another.\<close>

lemma resume_ok:
  assumes "sched_ok cur z xs ds st" "coros st w = Some y" "state y = CORO_SUSPENDED" "wait_reason y \<noteq> WAIT_JOIN"
    and "cores st' = (cores st)(w \<mapsto> (core y)\<lparr>c_state := CORO_RUNNABLE, c_reason := WAIT_NONE\<rparr>)" "lists st' = lists st"
  shows "sched_ok cur z xs ds st'"
proof (rule sched_ok_upd [OF assms(1,5) core_of [OF assms(2)] assms(6)])
  show "coro_ok cur z ds w ((core y)\<lparr>c_state := CORO_RUNNABLE, c_reason := WAIT_NONE\<rparr>)"
    using sched_okD(1) [OF assms(1,2)] assms(3) by (auto simp: coro_ok_def)
  show "joins_ok ((cores st)(w \<mapsto> (core y)\<lparr>c_state := CORO_RUNNABLE, c_reason := WAIT_NONE\<rparr>))"
    by (rule joins_upd [OF sched_okD(3) [OF assms(1)] core_of [OF assms(2)]])
      (use assms(2,3,4) in \<open>auto simp: waits_join_def cores_def\<close>)
  show "set_option cur \<union> set_option z \<subseteq> dom (cores st)" by (rule sched_okD [OF assms(1)])
qed auto

lemma actor_send_ok:
  assumes "sched_ok cur z xs ds st" "actor_send_internal t msg st = Some st'"
  shows "sched_ok cur z xs ds st' \<and> fixed st' = fixed st \<and> current_coro st' = current_coro st"
proof -
  from assms(2) obtain x st1 st2 where x: "coros st t = Some x" and
    s1: "upd_coro t (\<lambda>x. x\<lparr>mailbox := mailbox x @ [msg]\<rparr>) st = Some st1" and
    s2: "(if state x = CORO_SUSPENDED \<and> wait_reason x = WAIT_MAILBOX then coro_resume t msg st1 else Some st1) = Some st2" and
    "st' = (if (state x = CORO_SUSPENDED \<and> wait_reason x = WAIT_MAILBOX) \<and> current_coro st2 = None
       then async_schedule_wakeup_tick 1 st2 else st2)"
    by (simp add: actor_send_internal_def Let_def bind_Some) blast
  then have st': "quiet st2 st'" by simp
  have q: "quiet st st1" by (rule quiet_upd [OF s1]) (simp add: core_def)
  have "sched_ok cur z xs ds st2 \<and> fixed st2 = fixed st1 \<and> current_coro st2 = current_coro st1"
  proof (cases "state x = CORO_SUSPENDED \<and> wait_reason x = WAIT_MAILBOX")
    case True
    with s2 have r: "coro_resume t msg st1 = Some st2" by simp
    have t: "coros st1 t = Some (x\<lparr>mailbox := mailbox x @ [msg]\<rparr>)" using s1 x by (auto simp: upd_coro_Some)
    show ?thesis
      using r unfolding coro_resume_def
      by (rule upd_coro_effect)
        (use t True in \<open>auto intro!: resume_ok [OF quiet_ok [OF q assms(1)] t] simp: core_def\<close>)
  next
    case False
    with s2 q quiet_ok [OF q assms(1)] show ?thesis by auto
  qed
  with q st' show ?thesis using quiet_ok [OF st'] by (auto simp: quiet_def)
qed

section \<open>Spawning\<close>

lemma dll_add:
  assumes "dll cs None all xs" "c \<notin> set xs" "distinct xs" "c_next x = all" "c_prev x = None"
  shows "dll (case all of None \<Rightarrow> cs(c \<mapsto> x)
            | Some a \<Rightarrow> (cs(c \<mapsto> x))(a := map_option (\<lambda>y. y\<lparr>c_prev := Some c\<rparr>) (cs a))) None (Some c) (c # xs)"
proof (cases xs)
  case Nil
  then show ?thesis using assms by simp
next
  case (Cons a ys)
  then obtain y where y: "all = Some a" "cs a = Some y" "dll cs (Some a) (c_next y) ys" using assms(1) by auto
  have "dll ((cs(c \<mapsto> x))(a \<mapsto> y\<lparr>c_prev := Some c\<rparr>)) (Some a) (c_next y) ys"
    by (rule dll_cong [OF y(3)]) (use assms Cons in auto)
  with y Cons assms show ?thesis by auto
qed

lemma coro_ok_links [simp]:
  "coro_ok cur z ds c (x\<lparr>c_prev := p\<rparr>) = coro_ok cur z ds c x"
  "coro_ok cur z ds c (x\<lparr>c_next := p\<rparr>) = coro_ok cur z ds c x"
  by (simp_all add: coro_ok_def)

definition same_joins :: "core option \<Rightarrow> core option \<Rightarrow> bool" where
  "same_joins x y \<longleftrightarrow> map_option (\<lambda>x. (c_state x, c_reason x, c_join x)) x = map_option (\<lambda>x. (c_state x, c_reason x, c_join x)) y"

lemma joins_cong:
  assumes "joins_ok cs" "\<And>c. same_joins (cs' c) (cs c)"
  shows "joins_ok cs'"
proof (rule joinsI)
  have s: "\<exists>x'. cs c = Some x' \<and> c_state x' = c_state x \<and> c_reason x' = c_reason x \<and> c_join x' = c_join x"
    if "cs' c = Some x" for c x
    using assms(2) [of c] that by (cases "cs c") (auto simp: same_joins_def)
  have w: "waits_join cs w \<Longrightarrow> waits_join cs' w" for w
    using assms(2) [of w] by (cases "cs' w") (auto simp: same_joins_def waits_join_def)
  show "c_state x \<noteq> CORO_DEAD \<and> waits_join cs' w" if "cs' c = Some x" "c_join x = Some w" for c x w
    using s [OF that(1)] that(2) joinsD [OF assms(1)] w by metis
  show "c = d" if "cs' c = Some x" "cs' d = Some y" "c_join x = Some w" "c_join y = Some w" for c d x y w
    using s [OF that(1)] s [OF that(2)] that(3,4) joins_inj [OF assms(1)] by metis
qed

lemma joins_new:
  assumes "joins_ok cs" "cs c = None" "c_join x = None"
  shows "joins_ok (cs(c \<mapsto> x))"
proof (rule joinsI)
  have w: "waits_join cs w \<Longrightarrow> waits_join (cs(c \<mapsto> x)) w" for w
    using assms(2) by (auto simp: waits_join_def)
  show "c_state y \<noteq> CORO_DEAD \<and> waits_join (cs(c \<mapsto> x)) w" if "(cs(c \<mapsto> x)) d = Some y" "c_join y = Some w" for d y w
    using that assms(2,3) w joinsD [OF assms(1)] by (auto split: if_splits)
  show "d = e" if "(cs(c \<mapsto> x)) d = Some y" "(cs(c \<mapsto> x)) e = Some v" "c_join y = Some w" "c_join v = Some w" for d e y v w
    using that assms(3) joins_inj [OF assms(1)] by (auto split: if_splits)
qed

lemma table_add:
  assumes "table_ok cs all dead cur z xs ds" "cs c = None" "c_next x = all" "c_prev x = None" "c_join x = None"
    and "coro_ok None None [] c x" "c_state x \<noteq> CORO_DEAD"
  defines "cs' \<equiv> case all of None \<Rightarrow> cs(c \<mapsto> x)
     | Some a \<Rightarrow> (cs(c \<mapsto> x))(a := map_option (\<lambda>y. y\<lparr>c_prev := Some c\<rparr>) (cs a))"
  shows "table_ok cs' (Some c) dead cur z (c # xs) ds"
proof -
  have dom: "dom cs = set (xs @ ds)" "c \<notin> set (xs @ ds)" "distinct (xs @ ds)" using assms(1,2) by (auto simp: table_ok_def)
  have al: "all = (case xs of [] \<Rightarrow> None | a # _ \<Rightarrow> Some a)" using assms(1) dll_hd by (auto simp: table_ok_def)
  have ac: "all \<noteq> Some c" using al dom(2) by (auto split: list.splits)
  have "dll cs' None (Some c) (c # xs)"
    unfolding cs'_def by (rule dll_add) (use assms(1,3,4) dom in \<open>auto simp: table_ok_def\<close>)
  moreover have "sll cs' dead ds"
    by (rule sll_cong [of cs]) (use assms(1) dom al in \<open>auto simp: table_ok_def cs'_def split: list.splits\<close>)
  moreover have "dom cs' = set (c # xs @ ds)" using dom al by (auto simp: cs'_def split: list.splits)
  moreover have "coro_ok cur z ds d y" if "cs' d = Some y" for d y
  proof (cases "d = c")
    case True
    moreover have "set_option cur \<union> set_option z \<subseteq> set (xs @ ds)" using assms(1) unfolding table_ok_def by auto
    ultimately show ?thesis using that assms(6,7) dom(2) al by (auto simp: coro_ok_def cs'_def split: list.splits)
  next
    case False
    then have "\<exists>y'. cs d = Some y' \<and> (y = y' \<or> y = y'\<lparr>c_prev := Some c\<rparr>)"
      using that by (auto simp: cs'_def split: option.splits if_splits)
    then show ?thesis using assms(1) by (auto simp: table_ok_def)
  qed
  moreover have "joins_ok cs'"
    by (rule joins_cong [OF joins_new [of cs c x]])
      (use assms(1,2,5) ac in \<open>auto simp: table_ok_def cs'_def same_joins_def option.map_comp comp_def split: option.splits\<close>)
  moreover have "set_option cur \<union> set_option z \<subseteq> dom cs'" using assms(1) calculation(3) dom by (auto simp: table_ok_def)
  ultimately show ?thesis using dom by (auto simp: table_ok_def)
qed

lemma coro_list_add_effect:
  assumes "coro_list_add c st = Some st'" "all_coros st \<noteq> Some c"
  obtains x where "coros st c = Some x"
    "cores st' = (case all_coros st of None \<Rightarrow> (cores st)(c \<mapsto> (core x)\<lparr>c_next := None, c_prev := None\<rparr>)
      | Some a \<Rightarrow> ((cores st)(c \<mapsto> (core x)\<lparr>c_next := Some a, c_prev := None\<rparr>))
          (a := map_option (\<lambda>y. y\<lparr>c_prev := Some c\<rparr>) (cores st a)))"
    "all_coros st' = Some c" "dead_coros st' = dead_coros st" "coro_count st' = coro_count st + 1"
    "fresh_coro st' = fresh_coro st" "fixed st' = fixed st" "current_coro st' = current_coro st"
proof -
  from assms(1) obtain st1 st2 where
    1: "upd_coro c (\<lambda>x. x\<lparr>next_coro := all_coros st, prev_coro := None\<rparr>) st = Some st1" and
    2: "(case all_coros st1 of None \<Rightarrow> Some st1 | Some a \<Rightarrow> upd_coro a (\<lambda>x. x\<lparr>prev_coro := Some c\<rparr>) st1) = Some st2" and
    3: "st' = st2\<lparr>all_coros := Some c, coro_count := coro_count st2 + 1\<rparr>"
    by (auto simp: coro_list_add_def bind_Some)
  obtain x where x: "coros st c = Some x" "cores st1 = (cores st)(c \<mapsto> (core x)\<lparr>c_next := all_coros st, c_prev := None\<rparr>)"
      "lists st1 = lists st" "fixed st1 = fixed st" "current_coro st1 = current_coro st"
    using 1 by (rule upd_coro_effect) (simp add: core_def)
  have c2: "cores st2 = (case all_coros st of None \<Rightarrow> cores st1
      | Some a \<Rightarrow> (cores st1)(a := map_option (\<lambda>y. y\<lparr>c_prev := Some c\<rparr>) (cores st1 a))) \<and>
      lists st2 = lists st1 \<and> fixed st2 = fixed st1 \<and> current_coro st2 = current_coro st1"
  proof (cases "all_coros st")
    case None
    with 2 x(3) show ?thesis by (auto simp: lists_def)
  next
    case (Some a)
    with 2 x(3) have "upd_coro a (\<lambda>x. x\<lparr>prev_coro := Some c\<rparr>) st1 = Some st2" by (simp add: lists_def)
    then obtain y where "coros st1 a = Some y" "cores st2 = (cores st1)(a \<mapsto> core (y\<lparr>prev_coro := Some c\<rparr>))"
      "lists st2 = lists st1" "fixed st2 = fixed st1" "current_coro st2 = current_coro st1"
      by (rule upd_coro_effect)
    with Some show ?thesis by (auto simp: core_def cores_def)
  qed
  then have "cores st' = (case all_coros st of None \<Rightarrow> (cores st)(c \<mapsto> (core x)\<lparr>c_next := None, c_prev := None\<rparr>)
      | Some a \<Rightarrow> ((cores st)(c \<mapsto> (core x)\<lparr>c_next := Some a, c_prev := None\<rparr>))
          (a := map_option (\<lambda>y. y\<lparr>c_prev := Some c\<rparr>) (cores st a)))"
    using x(2) 3 assms(2) by (auto simp: cores_def fun_eq_iff split: option.splits)
  with x c2 3 that show ?thesis by (auto simp: lists_def fixed_def)
qed

lemma alloc_coro_effect:
  assumes "alloc_coro fn arg st = Some (c, st')"
  obtains base blk i where "c = fresh_coro st"
    "st' = st\<lparr>fresh_coro := c + 1, ip := i, coros := (coros st)(c \<mapsto> new_coro fn arg base blk)\<rparr>"
  using assms by (auto simp: alloc_coro_def Let_def split: option.splits if_splits)

lemma core_new_coro [simp]:
  "core (new_coro fn arg base blk) = \<lparr>c_next = None, c_prev = None, c_state = CORO_RUNNABLE, c_reason = WAIT_NONE,
     c_join = None, c_exited = False, c_stack = True\<rparr>"
  by (simp add: core_def new_coro_def Let_def)

lemma coro_spawn_ok:
  fixes st :: "'v sched"
  assumes "sched_ok cur z xs ds st" "coro_spawn fn arg st = Some (c, st')"
  shows "sched_ok cur z (c # xs) ds st' \<and> fixed st' = fixed st \<and> current_coro st' = current_coro st"
proof -
  let ?c = "fresh_coro st"
  have ok: "table_ok (cores st) (all_coros st) (dead_coros st) cur z xs ds" "coro_count st = int (length xs)"
      "\<forall>d \<in> set (xs @ ds). d < ?c"
    using assms(1) by (auto simp: sched_ok_def)
  then have al: "all_coros st \<noteq> Some ?c" by (cases xs) (auto simp: table_ok_def)
  from assms(2) obtain st0 st1 and x1 :: "'v coro" where a: "alloc_coro fn arg st = Some (c, st0)" and
    st1: "coro_list_add c st0 = Some st1" and
    st': "st' = (if current_coro st1 = None \<or> wait_reason x1 = WAIT_NONE then async_schedule_wakeup_tick 1 st1 else st1)"
    by (auto simp: coro_spawn_def bind_Some)
  then have q: "quiet st1 st'" by simp
  obtain base blk i where c: "c = ?c" and
      e0: "st0 = st\<lparr>fresh_coro := c + 1, ip := i, coros := (coros st)(c \<mapsto> new_coro fn arg base blk)\<rparr>"
    using a by (rule alloc_coro_effect)
  let ?x0 = "new_coro fn arg base blk"
  have st0: "cores st0 = (cores st)(?c \<mapsto> core ?x0)" "coros st0 ?c = Some ?x0" "all_coros st0 = all_coros st"
      "dead_coros st0 = dead_coros st" "coro_count st0 = coro_count st" "fresh_coro st0 = ?c + 1" "fixed st0 = fixed st"
      "current_coro st0 = current_coro st"
    using e0 c by (auto simp: cores_def fixed_def fun_eq_iff)
  obtain x where x: "coros st0 ?c = Some x" and
    e: "cores st1 = (case all_coros st0 of None \<Rightarrow> (cores st0)(?c \<mapsto> (core x)\<lparr>c_next := None, c_prev := None\<rparr>)
      | Some a \<Rightarrow> ((cores st0)(?c \<mapsto> (core x)\<lparr>c_next := Some a, c_prev := None\<rparr>))
          (a := map_option (\<lambda>y. y\<lparr>c_prev := Some ?c\<rparr>) (cores st0 a)))"
    "all_coros st1 = Some ?c" "dead_coros st1 = dead_coros st0" "coro_count st1 = coro_count st0 + 1"
    "fresh_coro st1 = fresh_coro st0" "fixed st1 = fixed st0" "current_coro st1 = current_coro st0"
    by (rule coro_list_add_effect [OF st1 [unfolded c]]) (use al st0(3) in auto)
  let ?x = "(core ?x0)\<lparr>c_next := all_coros st\<rparr>"
  let ?cs = "case all_coros st of None \<Rightarrow> (cores st)(?c \<mapsto> ?x)
     | Some a \<Rightarrow> ((cores st)(?c \<mapsto> ?x))(a := map_option (\<lambda>y. y\<lparr>c_prev := Some ?c\<rparr>) (cores st a))"
  have cs: "cores st1 = ?cs"
    using e(1) x st0 al by (auto simp: fun_eq_iff split: option.splits)
  have "cores st ?c = None" using ok(1,3) by (auto simp: table_ok_def dom_def)
  then have "table_ok ?cs (Some ?c) (dead_coros st) cur z (?c # xs) ds"
    using table_add [OF ok(1), of ?c ?x] by (simp add: coro_ok_def)
  with e st0 ok c cs have "sched_ok cur z (c # xs) ds st1"
    by (auto simp: sched_ok_def less_Suc_eq)
  with q e st0 show ?thesis using quiet_ok [OF q] by (auto simp: quiet_def)
qed

section \<open>Yielding and joining\<close>

lemma not_awaited:
  assumes "joins_ok cs" "\<not> waits_join cs c" "cs d = Some y"
  shows "c_join y \<noteq> Some c"
  using joinsD(2) [OF assms(1,3)] assms(2) by auto

lemma running_not_waiting:
  assumes "table_ok cs all dead (Some c) z xs ds"
  shows "\<not> waits_join cs c" "c \<in> set xs" "c \<notin> set ds"
proof -
  have "\<forall>c x. cs c = Some x \<longrightarrow> coro_ok (Some c) z ds c x \<or> True" by simp
  obtain x where x: "cs c = Some x" using assms by (auto simp: table_ok_def)
  then have "coro_ok (Some c) z ds c x" "c \<in> set xs \<union> set ds" using table_okD [OF assms] by auto
  with x show "\<not> waits_join cs c" "c \<in> set xs" "c \<notin> set ds" by (auto simp: coro_ok_def waits_join_def)
qed

lemma table_yield:
  assumes "table_ok cs all dead (Some c) None xs ds" "cs c = Some x"
  shows "table_ok (cs(c \<mapsto> x\<lparr>c_state := CORO_SUSPENDED, c_reason := r, c_exited := False\<rparr>)) all dead None None xs ds"
proof (rule table_upd [OF assms(1,2)])
  show "coro_ok None None ds c (x\<lparr>c_state := CORO_SUSPENDED, c_reason := r, c_exited := False\<rparr>)"
    using table_okD(1) [OF assms] by (auto simp: coro_ok_def)
  show "joins_ok (cs(c \<mapsto> x\<lparr>c_state := CORO_SUSPENDED, c_reason := r, c_exited := False\<rparr>))"
    by (rule joins_upd [of cs c x]) (use assms running_not_waiting(1) [OF assms(1)] in \<open>auto simp: table_ok_def\<close>)
qed (auto simp: coro_ok_def)

lemma table_join:
  assumes "table_ok cs all dead cur z xs ds" "cs t = Some x" "c_state x \<noteq> CORO_DEAD" "waits_join cs c"
    and "\<And>d y. cs d = Some y \<Longrightarrow> c_join y \<noteq> Some c"
  shows "table_ok (cs(t \<mapsto> x\<lparr>c_join := Some c\<rparr>)) all dead cur z xs ds"
proof (rule table_upd [OF assms(1,2)])
  have ok: "joins_ok cs" using assms(1) by (simp add: table_ok_def)
  show "joins_ok (cs(t \<mapsto> x\<lparr>c_join := Some c\<rparr>))"
  proof (rule joinsI)
    have w: "waits_join cs w \<Longrightarrow> waits_join (cs(t \<mapsto> x\<lparr>c_join := Some c\<rparr>)) w" for w
      using assms(2) by (auto simp: waits_join_def)
    show "c_state y \<noteq> CORO_DEAD \<and> waits_join (cs(t \<mapsto> x\<lparr>c_join := Some c\<rparr>)) w"
      if "(cs(t \<mapsto> x\<lparr>c_join := Some c\<rparr>)) d = Some y" "c_join y = Some w" for d y w
      using that assms(3,4) w joinsD [OF ok] by (auto split: if_splits)
    show "d = e" if "(cs(t \<mapsto> x\<lparr>c_join := Some c\<rparr>)) d = Some y" "(cs(t \<mapsto> x\<lparr>c_join := Some c\<rparr>)) e = Some v"
        "c_join y = Some w" "c_join v = Some w" for d e y v w
      using that assms(5) joins_inj [OF ok] by (auto split: if_splits)
  qed
  show "coro_ok cur z ds t (x\<lparr>c_join := Some c\<rparr>)" using table_okD(1) [OF assms(1,2)] by (simp add: coro_ok_def)
  show "set_option cur \<union> set_option z \<subseteq> dom cs" using assms(1) unfolding table_ok_def by blast
qed (auto simp: coro_ok_def)

definition idle :: "nat list \<Rightarrow> nat list \<Rightarrow> 'v sched \<Rightarrow> bool" where
  "idle xs ds st \<longleftrightarrow> sched_ok None None xs ds st \<and> current_coro st = None"

lemma yield_ok:
  assumes "running c xs ds st" "coro_yield reason cont st = Some st'" "cont \<noteq> At_Exit"
  shows "idle xs ds st' \<and> fixed st' = fixed st"
  using assms(2)
proof (rule coro_yield_effect)
  fix c' x
  assume e: "current_coro st = Some c'" "coros st c' = Some x" "current_coro st' = None"
    "cores st' = (cores st)(c' \<mapsto> (core x)\<lparr>c_state := CORO_SUSPENDED, c_reason := reason, c_exited := (cont = At_Exit)\<rparr>)"
    "lists st' = lists st" "fixed st' = fixed st"
  have c: "c' = c" "table_ok (cores st) (all_coros st) (dead_coros st) (Some c) None xs ds"
    using assms(1) e(1) by (auto simp: running_def sched_ok_def)
  from table_yield [OF c(2), of "core x" reason] e assms(1,3) c(1) show ?thesis
    by (auto simp: idle_def running_def sched_ok_def lists_def cores_def)
qed

lemma join_yield_ok:
  assumes "running c xs ds st" "coros st t = Some x" "state x \<noteq> CORO_DEAD"
    and "upd_coro t (\<lambda>x. x\<lparr>join_waiter := Some c\<rparr>) st = Some st1" "coro_yield WAIT_JOIN cont st1 = Some st'" "cont \<noteq> At_Exit"
  shows "idle xs ds st' \<and> fixed st' = fixed st"
proof -
  have ok: "table_ok (cores st) (all_coros st) (dead_coros st) (Some c) None xs ds" "current_coro st = Some c"
    using assms(1) by (auto simp: running_def sched_ok_def)
  have s1: "cores st1 = (cores st)(t \<mapsto> (core x)\<lparr>c_join := Some c\<rparr>)" "lists st1 = lists st" "fixed st1 = fixed st"
      "current_coro st1 = current_coro st" "coros st1 = (coros st)(t \<mapsto> x\<lparr>join_waiter := Some c\<rparr>)"
    using assms(4) by (rule upd_coro_effect, use assms(2) in \<open>simp add: core_def\<close>)+
  obtain y where y: "coros st1 c = Some y" "current_coro st' = None"
    "cores st' = (cores st1)(c \<mapsto> (core y)\<lparr>c_state := CORO_SUSPENDED, c_reason := WAIT_JOIN, c_exited := (cont = At_Exit)\<rparr>)"
    "lists st' = lists st1" "fixed st' = fixed st1"
    using assms(5) by (rule coro_yield_effect) (use s1(4) ok(2) in auto)
  obtain y0 where y0: "coros st c = Some y0" using ok(1) by (auto simp: table_ok_def cores_def)
  let ?s = "\<lambda>u. u\<lparr>c_state := CORO_SUSPENDED, c_reason := WAIT_JOIN, c_exited := False\<rparr>"
  let ?cs = "(cores st)(c \<mapsto> ?s (core y0))"
  have t: "table_ok ?cs (all_coros st) (dead_coros st) None None xs ds"
    using table_yield [OF ok(1) core_of [OF y0]] .
  have nobody: "c_join v \<noteq> Some c" if "?cs d = Some v" for d v
  proof -
    have "\<exists>v'. cores st d = Some v' \<and> c_join v' = c_join v" using that core_of [OF y0] by (cases "d = c") auto
    moreover have "joins_ok (cores st)" using ok(1) by (simp add: table_ok_def)
    ultimately show ?thesis using not_awaited running_not_waiting(1) [OF ok(1)] by metis
  qed
  have "\<exists>x'. ?cs t = Some x' \<and> c_state x' \<noteq> CORO_DEAD \<and> cores st' = ?cs(t \<mapsto> x'\<lparr>c_join := Some c\<rparr>)"
    using s1(1,5) y(1,3) y0 assms(2,3,6) by (cases "t = c") (auto simp: cores_def fun_eq_iff core_def)
  then have "table_ok (cores st') (all_coros st) (dead_coros st) None None xs ds"
    using table_join [OF t] nobody by (auto simp: waits_join_def)
  with assms(1) y s1 show ?thesis by (auto simp: idle_def running_def sched_ok_def lists_def)
qed

section \<open>The graveyard\<close>

lemma graveyard_loop_finds:
  assumes "read_link p st = Some q" "sll (cores st) q (as @ c # bs)" "c \<notin> set as"
  shows "\<exists>y. coros st c = Some y \<and>
    graveyard_loop c p st = write_link (if as = [] then p else Some (last as)) (next_coro y) st"
  using assms
proof (induction as arbitrary: p q)
  case Nil
  then show ?case by (subst graveyard_loop.simps) (auto simp: cores_def)
next
  case (Cons a as)
  then obtain x where a: "q = Some a" "coros st a = Some x" "sll (cores st) (next_coro x) (as @ c # bs)" "a \<noteq> c"
    by (auto simp: cores_Some)
  have "read_link (Some a) st = Some (next_coro x)" using a(2) by (simp add: read_link_def)
  from Cons.IH [OF this a(3)] Cons.prems(3) have IH: "\<exists>y. coros st c = Some y \<and>
      graveyard_loop c (Some a) st = write_link (if as = [] then Some a else Some (last as)) (next_coro y) st" by auto
  have "graveyard_loop c p st = graveyard_loop c (Some a) st"
    using Cons.prems(1) a(1,4) by (subst graveyard_loop.simps) simp
  with IH show ?case by auto
qed

lemma sll_remove:
  assumes "sll cs p (as @ c # bs)" "distinct (as @ c # bs)" "cs c = Some y"
  shows "sll (if as = [] then cs else cs(last as := map_option (\<lambda>u. u\<lparr>c_next := c_next y\<rparr>) (cs (last as))))
    (if as = [] then c_next y else p) (as @ bs)"
  using assms
proof (induction as arbitrary: p)
  case (Cons a as)
  then obtain x where a: "p = Some a" "cs a = Some x" "sll cs (c_next x) (as @ c # bs)" by auto
  show ?case
  proof (cases "as = []")
    case True
    have "sll (cs(a \<mapsto> x\<lparr>c_next := c_next y\<rparr>)) (c_next y) bs"
      by (rule sll_cong [of cs]) (use a True Cons.prems in auto)
    with a True show ?thesis by (simp add: fun_upd_def)
  next
    case False
    then have "last as \<noteq> a" using Cons.prems(2) by (metis Un_iff append_Cons distinct.simps(2) last_in_set set_append)
    with False a Cons.IH [OF a(3)] Cons.prems show ?thesis by auto
  qed
qed auto

lemma sll_mono: "sll cs p xs \<Longrightarrow> c \<notin> set xs \<Longrightarrow> sll (cs(c := None)) p xs"
  by (erule sll_cong) auto

text \<open>Taking a dead coroutine out of the graveyard and freeing it.\<close>

lemma table_free:
  assumes "table_ok cs all dead cur None xs (as @ c # bs)" "cs c = Some y"
  defines "cs1 \<equiv> if as = [] then cs else cs(last as := map_option (\<lambda>u. u\<lparr>c_next := c_next y\<rparr>) (cs (last as)))"
  shows "table_ok (cs1(c := None)) all (if as = [] then c_next y else dead) cur None xs (as @ bs)"
proof -
  have dd: "distinct (xs @ as @ c # bs)" "dom cs = set (xs @ as @ c # bs)" using assms(1) by (auto simp: table_ok_def)
  have dead: "c_state y = CORO_DEAD" "cur \<noteq> Some c" using table_okD(1) [OF assms(1,2)] by (auto simp: coro_ok_def)
  have same: "\<exists>x'. cs d = Some x' \<and> (x = x' \<or> x = x'\<lparr>c_next := c_next y\<rparr>) \<and> d \<noteq> c" if "(cs1(c := None)) d = Some x" for d x
    using that by (auto simp: cs1_def split: if_splits)
  have dom: "dom (cs1(c := None)) = set (xs @ as @ bs)" using dd by (auto simp: cs1_def split: if_splits)
  have la: "as \<noteq> [] \<Longrightarrow> last as \<in> set as" by simp
  have "dll (cs1(c := None)) None all xs"
    by (rule dll_cong [of cs]) (use assms(1) dd la in \<open>auto simp: table_ok_def cs1_def same_links_def\<close>)
  moreover have "sll (cs1(c := None)) (if as = [] then c_next y else dead) (as @ bs)"
    using sll_remove [of cs dead as c bs y] assms(1,2) dd by (auto simp: table_ok_def cs1_def intro!: sll_mono)
  moreover have "coro_ok cur None (as @ bs) d x" if h: "(cs1(c := None)) d = Some x" for d x
  proof -
    obtain x' where "cs d = Some x'" "x = x' \<or> x = x'\<lparr>c_next := c_next y\<rparr>" "d \<noteq> c" using same [OF h] by auto
    with table_okD(1) [OF assms(1) this(1)] show ?thesis by (auto simp: coro_ok_def)
  qed
  moreover have "joins_ok (cs1(c := None))"
  proof (rule joinsI)
    have ok: "joins_ok cs" using assms(1) by (simp add: table_ok_def)
    have w: "waits_join cs w \<Longrightarrow> waits_join (cs1(c := None)) w" for w
      using dead(1) assms(2) by (auto simp: waits_join_def cs1_def)
    show "c_state x \<noteq> CORO_DEAD \<and> waits_join (cs1(c := None)) w" if h: "(cs1(c := None)) d = Some x" "c_join x = Some w" for d x w
    proof -
      obtain x' where "cs d = Some x'" "c_join x' = Some w" "c_state x' = c_state x" using same [OF h(1)] h(2) by auto
      with joinsD [OF ok this(1,2)] w show ?thesis by simp
    qed
    show "d = e" if h: "(cs1(c := None)) d = Some x" "(cs1(c := None)) e = Some v" "c_join x = Some w" "c_join v = Some w" for d e x v w
    proof -
      obtain x' v' where "cs d = Some x'" "c_join x' = Some w" "cs e = Some v'" "c_join v' = Some w"
        using same [OF h(1)] same [OF h(2)] h(3,4) by auto
      then show ?thesis using joins_inj [OF ok] by blast
    qed
  qed
  moreover have "set_option cur \<subseteq> dom (cs1(c := None))" using assms(1) dead(2) dom dd by (auto simp: table_ok_def)
  ultimately show ?thesis using dd dom by (auto simp: table_ok_def)
qed

lemma graveyard_remove_ok:
  assumes "sched_ok cur None xs ds st" "coros st t = Some x" "state x = CORO_DEAD" "coro_graveyard_remove t st = Some st1"
    and st': "st' = st1\<lparr>coros := (coros st1)(t := None), ip := i\<rparr>"
  shows "\<exists>ds'. sched_ok cur None xs ds' st' \<and> fixed st' = fixed st \<and> current_coro st' = current_coro st"
proof -
  have ok: "table_ok (cores st) (all_coros st) (dead_coros st) cur None xs ds" using assms(1) by (simp add: sched_ok_def)
  have "t \<in> set ds" using table_okD(1) [OF ok, of t "core x"] core_of [OF assms(2)] assms(3) by (simp add: coro_ok_def)
  then obtain as bs where ds: "ds = as @ t # bs" "t \<notin> set as" by (meson split_list_first)
  have dist: "distinct ds" using ok by (simp add: table_ok_def)
  have "read_link None st = Some (dead_coros st)" by (simp add: read_link_def)
  moreover have "sll (cores st) (dead_coros st) (as @ t # bs)" using ok ds by (simp add: table_ok_def)
  ultimately have wl: "write_link (if as = [] then None else Some (last as)) (next_coro x) st = Some st1"
    using graveyard_loop_finds [of None st "dead_coros st" as t bs] ds(2) assms(2,4) by (auto simp: coro_graveyard_remove_def)
  let ?cs1 = "if as = [] then cores st else (cores st)(last as := map_option (\<lambda>u. u\<lparr>c_next := next_coro x\<rparr>) (cores st (last as)))"
  have e: "cores st1 = ?cs1 \<and> all_coros st1 = all_coros st \<and>
      dead_coros st1 = (if as = [] then next_coro x else dead_coros st) \<and> coro_count st1 = coro_count st \<and>
      fresh_coro st1 = fresh_coro st \<and> fixed st1 = fixed st \<and> current_coro st1 = current_coro st"
  proof (cases "as = []")
    case True
    with wl show ?thesis by (auto simp: write_link_def fixed_def cores_def)
  next
    case False
    with wl have "upd_coro (last as) (\<lambda>x'. x'\<lparr>next_coro := next_coro x\<rparr>) st = Some st1" by (simp add: write_link_def)
    then show ?thesis
      by (rule upd_coro_effect) (use False in \<open>auto simp: lists_def cores_def core_def\<close>)
  qed
  have "cores st' = (cores st1)(t := None)" by (auto simp: st' cores_def fun_eq_iff)
  moreover have "table_ok (?cs1(t := None)) (all_coros st) (if as = [] then next_coro x else dead_coros st) cur None xs (as @ bs)"
    using table_free [OF ok [unfolded ds(1)] core_of [OF assms(2)]] by (cases "as = []") simp_all
  ultimately have "sched_ok cur None xs (as @ bs) st'"
    using e assms(1) ds(1) by (auto simp: sched_ok_def st')
  with e show ?thesis by (auto simp: st' fixed_def)
qed

section \<open>The primitives\<close>

definition step_ok :: "nat \<Rightarrow> nat list \<Rightarrow> 'v sched \<Rightarrow> ('v lval + 'v lval) option \<times> 'v sched \<Rightarrow> bool" where
  "step_ok c xs st r \<longleftrightarrow> fixed (snd r) = fixed st \<and>
     (\<exists>pre ds. if fst r = None then idle (pre @ xs) ds (snd r) else running c (pre @ xs) ds (snd r))"

lemma step_ok_valueI: "running c (pre @ xs) ds st' \<Longrightarrow> fixed st' = fixed st \<Longrightarrow> step_ok c xs st (Some v, st')"
  unfolding step_ok_def by auto

lemmas step_ok_value = step_ok_valueI [where pre = "[]", simplified]

lemma step_ok_switchI: "idle (pre @ xs) ds st' \<Longrightarrow> fixed st' = fixed st \<Longrightarrow> step_ok c xs st (None, st')"
  unfolding step_ok_def by auto

lemmas step_ok_switch = step_ok_switchI [where pre = "[]", simplified]

lemma step_ok_quiet: "quiet st st' \<Longrightarrow> running c xs ds st \<Longrightarrow> step_ok c xs st (Some v, st')"
  by (rule step_ok_value [OF quiet_running]) (auto simp: quiet_def)

lemma spawn_step_ok:
  assumes "running c xs ds st" "coro_spawn fn arg st = Some (d, st')" "quiet st' st2"
  shows "step_ok c xs st (Some v, st2)"
proof -
  have "sched_ok (Some c) None ([d] @ xs) ds st' \<and> fixed st' = fixed st \<and> current_coro st' = current_coro st"
    using coro_spawn_ok [of "Some c" None xs ds st] assms(1,2) by (simp add: running_def)
  then have "running c ([d] @ xs) ds st2 \<and> fixed st2 = fixed st"
    using quiet_running [OF assms(3), of c "[d] @ xs" ds] assms(1,3) by (simp add: running_def quiet_def)
  then show ?thesis using step_ok_valueI by blast
qed

lemma join_step_ok:
  fixes st :: "'v sched"
  assumes "running c xs ds st" "Factor_join_internal handle fr k st = Some r"
  shows "step_ok c xs st r"
proof (cases "opaque_coro handle")
  case (Inl e)
  with assms show ?thesis by (auto simp: Factor_join_internal_def intro: step_ok_quiet)
next
  case (Inr t)
  have c: "current_coro st = Some c" using assms(1) by (simp add: running_def)
  with assms(2) Inr obtain x where x: "coros st t = Some x" by (auto simp: Factor_join_internal_def bind_Some)
  show ?thesis
  proof (cases "state x = CORO_DEAD")
    case True
    with assms(2) Inr c x obtain st1 and t2 :: "'v coro" where s: "coro_graveyard_remove t st = Some st1"
        "r = (Some (Inr (result x)), st1\<lparr>coros := (coros st1)(t := None),
           ip := (ip st1)\<lparr>stacks := (stacks (ip st1))(coro_specpdl t2 := None)\<rparr>\<rparr>)"
      by (auto simp: Factor_join_internal_def bind_Some)
    have "sched_ok (Some c) None xs ds st" using assms(1) by (simp add: running_def)
    from graveyard_remove_ok [OF this x True s(1) refl] obtain ds' where
      "sched_ok (Some c) None xs ds' (snd r)" "fixed (snd r) = fixed st" "current_coro (snd r) = current_coro st"
      using s(2) by auto
    then have "running c xs ds' (snd r)" "fixed (snd r) = fixed st" using c by (simp_all add: running_def)
    then show ?thesis using s(2) by (auto intro: step_ok_value)
  next
    case False
    with assms(2) Inr c x obtain st1 st2 where s: "upd_coro t (\<lambda>x. x\<lparr>join_waiter := Some c\<rparr>) st = Some st1"
        "coro_yield WAIT_JOIN (In_Join fr k) st1 = Some st2" "r = (None, st2)"
      by (auto simp: Factor_join_internal_def bind_Some)
    from join_yield_ok [OF assms(1) x False s(1,2)] s(3) show ?thesis by (auto intro: step_ok_switch)
  qed
qed

lemma receive_step_ok:
  assumes "running c xs ds st" "actor_receive_internal tmo fr k st = Some r"
  shows "step_ok c xs st r"
proof -
  have c: "current_coro st = Some c" using assms(1) by (simp add: running_def)
  with assms(2) obtain x where x: "coros st c = Some x" "is_actor x"
    by (auto simp: actor_receive_internal_def bind_Some split: if_splits)
  show ?thesis
  proof (cases "mailbox x")
    case (Cons msg rest)
    with assms(2) c x obtain st1 where "upd_coro c (\<lambda>x. x\<lparr>mailbox := rest\<rparr>) st = Some st1" "r = (Some (Inr msg), st1)"
      by (auto simp: actor_receive_internal_def bind_Some)
    then show ?thesis using assms(1) by (auto intro!: step_ok_quiet elim!: quiet_upd simp: core_def)
  next
    case Nil
    with assms(2) c x obtain st1 st2 where s: "(if tmo > 0 then
           upd_coro c (\<lambda>x. x\<lparr>wait_deadline := now st + (tmo div 1000) * 1000000 + (tmo mod 1000) * 1000\<rparr>) st
         else Some st) = Some st1"
      and y: "coro_yield (if tmo > 0 then WAIT_TIMER else WAIT_MAILBOX) (In_Receive fr k) st1 = Some st2" "r = (None, st2)"
      by (auto simp: actor_receive_internal_def bind_Some Let_def cong: if_cong)
    have q: "quiet st st1" using s by (auto elim!: quiet_upd simp: core_def split: if_splits)
    from yield_ok [OF quiet_running [OF q assms(1)] y(1)] y(2) q show ?thesis
      by (auto intro: step_ok_switch simp: quiet_def)
  qed
qed

lemma opaque_step_ok:
  assumes "running c xs ds st" "opaque_coro handle = Inl e"
  shows "step_ok c xs st (Some (Inl e), st)"
  using assms(1) by (rule step_ok_quiet [OF quiet_refl])

lemma monitor_step_ok:
  fixes st :: "'v sched"
  assumes "running c xs ds st" "Factor_monitor_internal t w st = Some r"
  shows "step_ok c xs st r"
proof (cases "\<exists>t' w'. opaque_coro t = Inr t' \<and> opaque_coro w = Inr w'")
  case False
  with assms show ?thesis
    by (auto simp: Factor_monitor_internal_def split: sum.splits intro: step_ok_quiet)
next
  case True
  then obtain t' w' where "opaque_coro t = Inr t'" "opaque_coro w = Inr w'" by blast
  with assms(2) obtain st1 st2 and x :: "'v coro" where
    1: "(if length (monitor_list x) \<ge> monitor_cap x
         then upd_coro t' (\<lambda>x. x\<lparr>monitor_cap := if monitor_cap x = 0 then 4 else monitor_cap x * 2\<rparr>) st else Some st) = Some st1" and
    2: "upd_coro t' (\<lambda>x. x\<lparr>monitor_list := monitor_list x @ [w']\<rparr>) st1 = Some st2" and r: "r = (Some (Inr Lnil), st2)"
    by (auto simp: Factor_monitor_internal_def bind_Some)
  have "quiet st st1" using 1 by (auto elim!: quiet_upd simp: core_def split: if_splits)
  moreover have "quiet st1 st2" by (rule quiet_upd [OF 2]) (simp add: core_def)
  ultimately show ?thesis using assms(1) r by (auto intro: step_ok_quiet quiet_trans)
qed

lemma on_interp_step_ok: "running c xs ds st \<Longrightarrow> on_interp f st = Some r \<Longrightarrow> step_ok c xs st r"
  by (auto simp: on_interp_def intro!: step_ok_quiet)

lemma send_step_ok:
  assumes "running c xs ds st" "Factor_send_internal h m st = Some r"
  shows "step_ok c xs st r"
proof (cases "opaque_coro h")
  case (Inl e)
  with assms show ?thesis by (auto simp: Factor_send_internal_def intro: step_ok_quiet)
next
  case (Inr t)
  with assms(2) obtain st1 where "actor_send_internal t m st = Some st1" "r = (Some (Inr Lnil), st1)"
    by (auto simp: Factor_send_internal_def)
  with actor_send_ok [of "Some c" None xs ds st t m st1] assms(1) show ?thesis
    by (auto intro!: step_ok_value simp: running_def)
qed

lemma perform_ok:
  assumes "running c xs ds st" "perform a fr k st = Some r"
  shows "step_ok c xs st r"
proof (cases a)
  case (Async_Spawn_Coroutine f arg)
  with assms show ?thesis
    by (auto simp: Fasync_spawn_coroutine_def intro: spawn_step_ok [OF _ _ quiet_refl])
next
  case Async_Coroutine_Yield
  have c: "current_coro st = Some c" using assms(1) by (simp add: running_def)
  with assms(2) Async_Coroutine_Yield obtain st1 where "coro_yield WAIT_NONE (In_Yield fr k) st = Some st1" "r = (None, st1)"
    by (auto simp: Fasync_coroutine_yield_def)
  with yield_ok [OF assms(1)] show ?thesis by (auto intro: step_ok_switch)
next
  case (Async_Coroutine_P x)
  with assms show ?thesis by (auto simp: Fasync_coroutine_p_def bind_Some split: lval.splits intro: step_ok_quiet)
next
  case (Async_Coro_Result x)
  with assms show ?thesis
    by (auto simp: Fasync__coro_result_def Fasync_coro_field_def split: sum.splits intro: step_ok_quiet)
next
  case (Async_Coro_Error x)
  with assms show ?thesis
    by (auto simp: Fasync__coro_error_def Fasync_coro_field_def split: sum.splits intro: step_ok_quiet)
next
  case (Actor_Spawn_Internal name f args)
  with assms(2) obtain arg d st1 st2 where s: "coro_spawn f arg st = Some (d, st1)"
      "upd_coro d (\<lambda>x. x\<lparr>is_actor := True, actor_name := name\<rparr>) st1 = Some st2" "r = (Some (Inr (Lopaque d)), st2)"
    by (auto simp: Factor_spawn_internal_def actor_spawn_internal_def bind_Some)
  have "quiet st1 st2" by (rule quiet_upd [OF s(2)]) (simp add: core_def)
  with spawn_step_ok [OF assms(1) s(1)] s(3) show ?thesis by simp
next
  case (Actor_Receive_Internal tmo)
  with assms show ?thesis by (auto simp: Factor_receive_internal_def split: lval.splits intro: receive_step_ok)
next
  case (Elapse us)
  with assms show ?thesis
    by (auto intro!: step_ok_quiet simp: quiet_def cores_def lists_def fixed_def fun_eq_iff)
qed (use assms in \<open>auto simp: Fasync_current_coroutine_def split: if_splits
       intro: step_ok_quiet on_interp_step_ok join_step_ok send_step_ok monitor_step_ok\<close>)

section \<open>The end of a coroutine\<close>

lemma joins_free_upd:
  assumes "joins_ok cs" "cs c = Some x" "c_join x' = c_join x \<or> c_join x' = None" "c_state x' \<noteq> CORO_DEAD \<or> c_join x' = None"
    and "\<And>d y. cs d = Some y \<Longrightarrow> c_join y \<noteq> Some c \<or> (c_state x' = CORO_SUSPENDED \<and> c_reason x' = WAIT_JOIN)"
  shows "joins_ok (cs(c \<mapsto> x'))"
proof (rule joinsI)
  have w: "waits_join (cs(c \<mapsto> x')) w" if "cs d = Some y" "c_join y = Some w" for d y w
    using joinsD(2) [OF assms(1) that] assms(5) [OF that(1)] that(2) by (cases "w = c") (auto simp: waits_join_def)
  have old: "\<exists>y'. cs d = Some y' \<and> c_join y' = Some w" if "(cs(c \<mapsto> x')) d = Some y" "c_join y = Some w" for d y w
    using that assms(2,3) by (auto split: if_splits)
  show "c_state y \<noteq> CORO_DEAD \<and> waits_join (cs(c \<mapsto> x')) w" if h: "(cs(c \<mapsto> x')) d = Some y" "c_join y = Some w" for d y w
  proof -
    obtain y' where y': "cs d = Some y'" "c_join y' = Some w" using old [OF h] by blast
    with joinsD(1) [OF assms(1) y'] w [OF y'] h assms(4) show ?thesis by (auto split: if_splits)
  qed
  show "d = e" if "(cs(c \<mapsto> x')) d = Some y" "(cs(c \<mapsto> x')) e = Some v" "c_join y = Some w" "c_join v = Some w" for d e y v w
    using old [OF that(1,3)] old [OF that(2,4)] joins_inj [OF assms(1)] by blast
qed

text \<open>Waking the coroutine that joins \<open>c\<close>, which is running.\<close>

lemma table_wake:
  assumes "table_ok cs all dead (Some c) None xs ds" "cs c = Some x" "c_join x = Some w"
  obtains y where "cs w = Some y" "w \<noteq> c"
    "table_ok (cs(w \<mapsto> y\<lparr>c_state := CORO_RUNNABLE, c_reason := WAIT_NONE\<rparr>, c \<mapsto> x\<lparr>c_join := None\<rparr>)) all dead (Some c) None xs ds"
proof -
  have ok: "joins_ok cs" using assms(1) by (simp add: table_ok_def)
  obtain y where y: "cs w = Some y" "c_state y = CORO_SUSPENDED"
    using joinsD(2) [OF ok assms(2,3)] by (auto simp: waits_join_def)
  have wc: "w \<noteq> c" using running_not_waiting(1) [OF assms(1)] joinsD(2) [OF ok assms(2,3)] by auto
  let ?x = "x\<lparr>c_join := None\<rparr>" and ?y = "y\<lparr>c_state := CORO_RUNNABLE, c_reason := WAIT_NONE\<rparr>"
  have c: "coro_ok (Some c) None ds c x" "coro_ok (Some c) None ds w y" using table_okD(1) [OF assms(1)] assms(2) y(1) by auto
  have t1: "table_ok (cs(c \<mapsto> ?x)) all dead (Some c) None xs ds"
  proof (rule table_upd [OF assms(1,2)])
    show "joins_ok (cs(c \<mapsto> ?x))"
      by (rule joins_free_upd [OF ok assms(2)])
        (use not_awaited [OF ok running_not_waiting(1) [OF assms(1)]] in auto)
    show "coro_ok (Some c) None ds c ?x" using c(1) by (simp add: coro_ok_def)
    show "set_option (Some c) \<union> set_option None \<subseteq> dom cs" using assms(2) by auto
  qed auto
  have "table_ok ((cs(c \<mapsto> ?x))(w \<mapsto> ?y)) all dead (Some c) None xs ds"
  proof (rule table_upd [OF t1])
    show "(cs(c \<mapsto> ?x)) w = Some y" using y(1) wc by simp
    have "c_join v \<noteq> Some w" if "(cs(c \<mapsto> ?x)) d = Some v" for d v
      using that joins_inj [OF ok _ assms(2) _ assms(3), of d v] by (auto split: if_splits)
    then show "joins_ok ((cs(c \<mapsto> ?x))(w \<mapsto> ?y))"
      using t1 y(1) wc by (intro joins_free_upd [of _ w y]) (auto simp: table_ok_def)
    show "coro_ok (Some c) None ds w ?y" using c(2) y(2) wc by (simp add: coro_ok_def)
    show "set_option (Some c) \<union> set_option None \<subseteq> dom (cs(c \<mapsto> ?x))" by simp
  qed auto
  then show ?thesis using that [OF y(1) wc] wc by (simp add: fun_upd_twist)
qed

lemma wake_join_waiter_ok:
  assumes "running c xs ds st" "wake_join_waiter c ret st = Some st'"
  shows "running c xs ds st' \<and> fixed st' = fixed st \<and> (\<exists>x. coros st' c = Some x \<and> join_waiter x = None)"
proof -
  from assms(2) obtain x st1 where x: "coros st c = Some x" and
    1: "(if error x \<noteq> Lnil then Some st else upd_coro c (\<lambda>x. x\<lparr>result := ret\<rparr>) st) = Some st1"
    by (auto simp: wake_join_waiter_def bind_Some)
  have q: "quiet st st1" using 1 by (auto elim!: quiet_upd simp: core_def split: if_splits)
  have r1: "running c xs ds st1" by (rule quiet_running [OF q assms(1)])
  obtain x1 where x1: "coros st1 c = Some x1" "core x1 = core x"
    using 1 x by (auto simp: upd_coro_Some core_def split: if_splits)
  have jw: "join_waiter x1 = join_waiter x" using x1(2) by (simp add: core_def)
  show ?thesis
  proof (cases "join_waiter x")
    case None
    then have "st' = st1" using assms(2) x 1 by (auto simp: wake_join_waiter_def bind_Some)
    with r1 q x1 jw None show ?thesis by (auto simp: quiet_def)
  next
    case (Some w)
    obtain st2 st3 where
      2: "(if error x \<noteq> Lnil then coro_resume_with_error w (error x) st1 else coro_resume w ret st1) = Some st2" and
      3: "upd_coro c (\<lambda>x. x\<lparr>join_waiter := None\<rparr>) st2 = Some st3" and st': "st' = async_schedule_wakeup_tick 1 st3"
      using assms(2) x 1 Some by (auto simp: wake_join_waiter_def bind_Some split: if_splits)
    have t1: "table_ok (cores st1) (all_coros st1) (dead_coros st1) (Some c) None xs ds"
      using r1 by (simp add: running_def sched_ok_def)
    obtain y where y: "cores st1 w = Some y" "w \<noteq> c"
      "table_ok ((cores st1)(w \<mapsto> y\<lparr>c_state := CORO_RUNNABLE, c_reason := WAIT_NONE\<rparr>, c \<mapsto> (core x1)\<lparr>c_join := None\<rparr>))
        (all_coros st1) (dead_coros st1) (Some c) None xs ds"
      by (rule table_wake [OF t1 core_of [OF x1(1)]]) (use Some jw in auto)
    have e2: "cores st2 = (cores st1)(w \<mapsto> y\<lparr>c_state := CORO_RUNNABLE, c_reason := WAIT_NONE\<rparr>)" "lists st2 = lists st1"
        "fixed st2 = fixed st1" "current_coro st2 = current_coro st1" "coros st2 c = Some x1"
      using 2 y(1,2) x1(1)
      by (auto simp: coro_resume_def coro_resume_with_error_def core_def cores_Some split: if_splits elim!: upd_coro_effect)
    have e3: "cores st3 = (cores st2)(c \<mapsto> (core x1)\<lparr>c_join := None\<rparr>)" "lists st3 = lists st2" "fixed st3 = fixed st2"
        "current_coro st3 = current_coro st2" "coros st3 c = Some (x1\<lparr>join_waiter := None\<rparr>)"
      using 3 e2(5) by (auto simp: core_def elim!: upd_coro_effect)
    have "running c xs ds st3"
      using y(3) e2 e3 r1 by (auto simp: running_def sched_ok_def lists_def)
    then have "running c xs ds st'" using quiet_running [of st3 st'] st' by simp
    with e2 e3 q st' show ?thesis by (auto simp: quiet_def)
  qed
qed

text \<open>Messages do not change who joins whom.\<close>

definition joiners :: "'v sched \<Rightarrow> nat \<Rightarrow> nat option option" where
  "joiners st c = map_option join_waiter (coros st c)"

lemma actor_send_joiners: "actor_send_internal t msg st = Some st' \<Longrightarrow> joiners st' = joiners st"
  by (auto simp: actor_send_internal_def bind_Some Let_def joiners_def upd_coro_Some coro_resume_def
      async_schedule_wakeup_tick_def fun_eq_iff split: if_splits)

lemma notify_monitors_joiners: "notify_monitors m ws st = Some st' \<Longrightarrow> joiners st' = joiners st"
proof (induction ws arbitrary: st)
  case (Cons w ws)
  then obtain x st1 where "coros st w = Some x"
    "(if state x \<noteq> CORO_DEAD then actor_send_internal w m st else Some st) = Some st1" "notify_monitors m ws st1 = Some st'"
    by (auto simp: bind_Some)
  with Cons.IH show ?case by (auto simp: actor_send_joiners split: if_splits)
qed simp

lemma notify_monitors_ok:
  "sched_ok cur z xs ds st \<Longrightarrow> notify_monitors m ws st = Some st' \<Longrightarrow>
     sched_ok cur z xs ds st' \<and> fixed st' = fixed st \<and> current_coro st' = current_coro st"
proof (induction m ws st arbitrary: rule: notify_monitors.induct)
  case (2 m w ws st)
  then obtain x st1 where x: "coros st w = Some x" and
    1: "(if state x \<noteq> CORO_DEAD then actor_send_internal w m st else Some st) = Some st1" and
    2: "notify_monitors m ws st1 = Some st'"
    by (auto simp: bind_Some)
  have "sched_ok cur z xs ds st1 \<and> fixed st1 = fixed st \<and> current_coro st1 = current_coro st"
    using 1 actor_send_ok [OF "2.prems"(1)] "2.prems"(1) by (auto split: if_splits)
  with "2.IH" [OF x 1] 2 show ?case by auto
qed simp

text \<open>What \<open>coro_list_remove\<close> does to the links.\<close>

definition unlink :: "nat \<Rightarrow> (nat \<Rightarrow> core option) \<Rightarrow> nat list \<Rightarrow> nat list \<Rightarrow> core \<Rightarrow> nat \<Rightarrow> core option" where
  "unlink c cs as bs x =
     (let cs1 = (if as = [] then cs else cs(last as := map_option (\<lambda>y. y\<lparr>c_next := c_next x\<rparr>) (cs (last as))))
      in case bs of [] \<Rightarrow> cs1 | y # _ \<Rightarrow> cs1(y := map_option (\<lambda>y. y\<lparr>c_prev := c_prev x\<rparr>) (cs1 y)))"

lemma unlink_at:
  assumes "distinct (as @ c # bs)"
  shows "unlink c cs as bs x c = cs c"
    "\<exists>n p. unlink c cs as bs x d = map_option (\<lambda>y. y\<lparr>c_next := n y, c_prev := p y\<rparr>) (cs d)"
    "d \<notin> set (as @ bs) \<Longrightarrow> unlink c cs as bs x d = cs d"
proof -
  have la: "as \<noteq> [] \<Longrightarrow> last as \<in> set as" by simp
  show "unlink c cs as bs x c = cs c" using assms la by (auto simp: unlink_def Let_def split: list.splits)
  show "d \<notin> set (as @ bs) \<Longrightarrow> unlink c cs as bs x d = cs d" using la by (auto simp: unlink_def Let_def split: list.splits)
  let ?n = "\<lambda>y. if as \<noteq> [] \<and> d = last as then c_next x else c_next y"
  let ?p = "\<lambda>y. if bs \<noteq> [] \<and> d = hd bs then c_prev x else c_prev y"
  have "unlink c cs as bs x d = map_option (\<lambda>y. y\<lparr>c_next := ?n y, c_prev := ?p y\<rparr>) (cs d)"
    by (cases "cs d") (auto simp: unlink_def Let_def split: list.splits)
  then show "\<exists>n p. unlink c cs as bs x d = map_option (\<lambda>y. y\<lparr>c_next := n y, c_prev := p y\<rparr>) (cs d)"
    by (intro exI [of _ ?n] exI [of _ ?p])
qed

lemma dll_unlink:
  "dll cs prv p (as @ c # bs) \<Longrightarrow> distinct (as @ c # bs) \<Longrightarrow> cs c = Some x \<Longrightarrow>
     dll (unlink c cs as bs x) prv (if as = [] then c_next x else p) (as @ bs)"
  unfolding unlink_def Let_def by (rule dll_remove)

lemma table_die:
  assumes "table_ok cs all dead (Some c) None (as @ c # bs) ds" "cs c = Some x" "c_join x = None"
  defines "cs4 \<equiv> cs(c \<mapsto> x\<lparr>c_state := CORO_DEAD\<rparr>)"
  defines "cs6 \<equiv> (unlink c cs4 as bs x)(c \<mapsto> x\<lparr>c_state := CORO_DEAD, c_next := dead, c_exited := True\<rparr>)"
  shows "table_ok cs6 (if as = [] then c_next x else all) (Some c) None (Some c) (as @ bs) (c # ds)"
proof -
  let ?x = "x\<lparr>c_state := CORO_DEAD, c_next := dead, c_exited := True\<rparr>"
  have dist: "distinct (as @ c # bs)" "distinct ((as @ c # bs) @ ds)" "dom cs = set (as @ c # bs) \<union> set ds" "joins_ok cs"
    using assms(1) by (auto simp: table_ok_def)
  have c: "coro_ok (Some c) None ds c x" by (rule table_okD [OF assms(1,2)])
  have d4: "dll cs4 None all (as @ c # bs)"
    by (rule dll_cong [of cs]) (use assms(1,2) in \<open>auto simp: table_ok_def cs4_def\<close>)
  have "unlink c cs4 as bs (x\<lparr>c_state := CORO_DEAD\<rparr>) = unlink c cs4 as bs x"
    by (cases bs) (simp_all add: unlink_def Let_def)
  then have D: "dll (unlink c cs4 as bs x) None (if as = [] then c_next x else all) (as @ bs)"
    using dll_unlink [OF d4 dist(1), of "x\<lparr>c_state := CORO_DEAD\<rparr>"] by (cases "as = []") (simp_all add: cs4_def)
  have "dll cs6 None (if as = [] then c_next x else all) (as @ bs)"
    by (rule dll_cong [OF D]) (use dist in \<open>auto simp: cs6_def\<close>)
  moreover have "sll cs6 (Some c) (c # ds)"
  proof -
    have "cs6 d = cs d" if "d \<in> set ds" for d
    proof -
      have d: "d \<notin> set (as @ bs)" "d \<noteq> c" using that dist(2) by auto
      show ?thesis using unlink_at(3) [OF dist(1) d(1), of cs4 x] d(2) by (simp add: cs6_def cs4_def)
    qed
    moreover have "sll cs dead ds" using assms(1) by (simp add: table_ok_def)
    ultimately have "sll cs6 dead ds" by (metis sll_cong)
    then show ?thesis by (simp add: cs6_def)
  qed
  moreover have other: "\<exists>y n p. cs d = Some y \<and> v = y\<lparr>c_next := n, c_prev := p\<rparr>" if "cs6 d = Some v" "d \<noteq> c" for d v
    using unlink_at(2) [OF dist(1), of cs4 x d] that by (cases "cs d") (auto simp: cs6_def cs4_def)
  moreover have "dom cs6 = set ((as @ bs) @ c # ds)"
  proof -
    have "cs6 d \<noteq> None \<longleftrightarrow> cs d \<noteq> None" for d
      using unlink_at(2) [OF dist(1), of cs4 x d] assms(2) by (cases "cs d") (auto simp: cs6_def cs4_def)
    then have "dom cs6 = dom cs" by (auto simp: dom_def)
    with dist(3) show ?thesis by auto
  qed
  moreover have "coro_ok None (Some c) (c # ds) d v" if h: "cs6 d = Some v" for d v
  proof (cases "d = c")
    case True
    then show ?thesis using h c by (auto simp: cs6_def coro_ok_def)
  next
    case False
    then obtain y n p where y: "cs d = Some y" "v = y\<lparr>c_next := n, c_prev := p\<rparr>" using other [OF h] by blast
    then have "coro_ok (Some c) None ds d y" using table_okD(1) [OF assms(1)] by blast
    with y(2) False show ?thesis by (auto simp: coro_ok_def)
  qed
  moreover have "joins_ok cs6"
  proof (rule joins_cong [of "cs(c \<mapsto> ?x)"])
    show "joins_ok (cs(c \<mapsto> ?x))"
      by (rule joins_free_upd [OF dist(4) assms(2)])
        (use assms(3) not_awaited [OF dist(4) running_not_waiting(1) [OF assms(1)]] in auto)
    show "same_joins (cs6 d) ((cs(c \<mapsto> ?x)) d)" for d
      using unlink_at(2) [OF dist(1), of cs4 x d] by (auto simp: same_joins_def cs6_def cs4_def option.map_comp comp_def)
  qed
  ultimately show ?thesis using dist by (auto simp: table_ok_def)
qed

lemma coro_list_remove_effect:
  assumes "coro_list_remove c st = Some st'" "coros st c = Some x" "distinct (as @ c # bs)"
    and "prev_coro x = (if as = [] then None else Some (last as))" "next_coro x = (case bs of [] \<Rightarrow> None | b # _ \<Rightarrow> Some b)"
  shows "cores st' = unlink c (cores st) as bs (core x)"
    "all_coros st' = (if as = [] then next_coro x else all_coros st)"
    "dead_coros st' = dead_coros st \<and> coro_count st' = coro_count st - 1 \<and> fresh_coro st' = fresh_coro st \<and>
     fixed st' = fixed st \<and> current_coro st' = current_coro st \<and> coros st' c = Some x"
proof -
  from assms(1,2) obtain st1 st2 and y :: "'a coro" where
    1: "(case prev_coro x of Some p \<Rightarrow> upd_coro p (\<lambda>y. y\<lparr>next_coro := next_coro x\<rparr>) st
         | None \<Rightarrow> Some (st\<lparr>all_coros := next_coro x\<rparr>)) = Some st1" and
    y: "coros st1 c = Some y" and
    2: "(case next_coro y of Some n \<Rightarrow> upd_coro n (\<lambda>u. u\<lparr>prev_coro := prev_coro y\<rparr>) st1 | None \<Rightarrow> Some st1) = Some st2" and
    st': "st' = st2\<lparr>coro_count := coro_count st2 - 1\<rparr>"
    by (auto simp: coro_list_remove_def bind_Some)
  have la: "as \<noteq> [] \<Longrightarrow> last as \<noteq> c" "bs \<noteq> [] \<Longrightarrow> hd bs \<noteq> c"
    using assms(3) last_in_set [of as] hd_in_set [of bs] by auto
  have e1: "cores st1 = (if as = [] then cores st else (cores st)(last as := map_option (\<lambda>y. y\<lparr>c_next := next_coro x\<rparr>) (cores st (last as))))"
      "all_coros st1 = (if as = [] then next_coro x else all_coros st)" "dead_coros st1 = dead_coros st"
      "coro_count st1 = coro_count st" "fresh_coro st1 = fresh_coro st" "fixed st1 = fixed st" "current_coro st1 = current_coro st"
      "coros st1 c = coros st c"
  proof -
    have "cores st1 = (if as = [] then cores st else (cores st)(last as := map_option (\<lambda>y. y\<lparr>c_next := next_coro x\<rparr>) (cores st (last as)))) \<and>
      all_coros st1 = (if as = [] then next_coro x else all_coros st) \<and> dead_coros st1 = dead_coros st \<and>
      coro_count st1 = coro_count st \<and> fresh_coro st1 = fresh_coro st \<and> fixed st1 = fixed st \<and>
      current_coro st1 = current_coro st \<and> coros st1 c = coros st c"
    proof (cases "as = []")
      case True
      with 1 assms(4) show ?thesis by (auto simp: fixed_def cores_def)
    next
      case False
      with 1 assms(4) have "upd_coro (last as) (\<lambda>y. y\<lparr>next_coro := next_coro x\<rparr>) st = Some st1" by simp
      then show ?thesis
        by (rule upd_coro_effect) (use False la(1) in \<open>auto simp: lists_def core_def cores_Some cores_def\<close>)
    qed
    then show "cores st1 = (if as = [] then cores st else (cores st)(last as := map_option (\<lambda>y. y\<lparr>c_next := next_coro x\<rparr>) (cores st (last as))))"
      "all_coros st1 = (if as = [] then next_coro x else all_coros st)" "dead_coros st1 = dead_coros st"
      "coro_count st1 = coro_count st" "fresh_coro st1 = fresh_coro st" "fixed st1 = fixed st" "current_coro st1 = current_coro st"
      "coros st1 c = coros st c" by blast+
  qed
  then have yx: "y = x" using y assms(2) by simp
  have e2: "cores st2 = (case bs of [] \<Rightarrow> cores st1 | b # _ \<Rightarrow> (cores st1)(b := map_option (\<lambda>y. y\<lparr>c_prev := prev_coro x\<rparr>) (cores st1 b)))"
      "lists st2 = lists st1" "fixed st2 = fixed st1" "current_coro st2 = current_coro st1" "coros st2 c = coros st1 c"
    using 2 la(2) assms(5) yx by (auto simp: core_def cores_def split: list.splits elim!: upd_coro_effect)
  show "cores st' = unlink c (cores st) as bs (core x)"
  proof -
    have "cores st' = cores st2" by (rule cores_cong) (simp add: st')
    then show ?thesis using e1(1) e2(1) by (cases bs) (simp_all add: unlink_def Let_def)
  qed
  show "all_coros st' = (if as = [] then next_coro x else all_coros st)"
    using e1(2) e2(2) st' by (auto simp: lists_def)
  show "dead_coros st' = dead_coros st \<and> coro_count st' = coro_count st - 1 \<and> fresh_coro st' = fresh_coro st \<and>
     fixed st' = fixed st \<and> current_coro st' = current_coro st \<and> coros st' c = Some x"
    using e1 e2 st' assms(2) by (auto simp: lists_def fixed_def)
qed

lemma trampoline_exit_ok:
  assumes "running c (as @ c # bs) ds st" "trampoline_exit ret st = Some st'"
  shows "sched_ok None (Some c) (as @ bs) (c # ds) st' \<and> fixed st' = fixed st \<and> current_coro st' = Some c"
proof -
  have cur: "current_coro st = Some c" using assms(1) by (simp add: running_def)
  from assms(2) cur obtain st1 st2 st3 st4 st5 st6 and x :: "'a coro" where
    1: "upd_coro c (\<lambda>x. x\<lparr>lisp_fn := Lnil\<rparr>) st = Some st1" and
    2: "wake_join_waiter c ret st1 = Some st2" and x: "coros st2 c = Some x" and
    3: "notify_monitors (list2 (Lsym '':exit'') (error x)) (monitor_list x) st2 = Some st3" and
    4: "upd_coro c (\<lambda>x. x\<lparr>monitor_list := [], monitor_cap := 0, state := CORO_DEAD\<rparr>) st3 = Some st4" and
    5: "coro_list_remove c st4 = Some st5" and
    6: "upd_coro c (\<lambda>x. x\<lparr>next_coro := dead_coros st5, ctx := At_Exit\<rparr>) st5 = Some st6" and
    7: "st' = st6\<lparr>dead_coros := Some c\<rparr>"
    by (auto simp: trampoline_exit_def bind_Some)
  have q1: "quiet st st1" by (rule quiet_upd [OF 1]) (simp add: core_def)
  have r2: "running c (as @ c # bs) ds st2" "fixed st2 = fixed st" "join_waiter x = None"
    using wake_join_waiter_ok [OF quiet_running [OF q1 assms(1)] 2] x q1 by (auto simp: quiet_def)
  have r3: "running c (as @ c # bs) ds st3" "fixed st3 = fixed st"
    using notify_monitors_ok [OF _ 3] r2 unfolding running_def by auto
  obtain y where y: "coros st3 c = Some y" "join_waiter y = None"
  proof -
    have "joiners st3 c = Some None" using notify_monitors_joiners [OF 3] r2(3) x by (simp add: joiners_def)
    with that show ?thesis by (auto simp: joiners_def)
  qed
  let ?y = "y\<lparr>monitor_list := [], monitor_cap := 0, state := CORO_DEAD\<rparr>"
  have t3: "table_ok (cores st3) (all_coros st3) (dead_coros st3) (Some c) None (as @ c # bs) ds"
    using r3 by (simp add: running_def sched_ok_def)
  have e4: "cores st4 = (cores st3)(c \<mapsto> (core y)\<lparr>c_state := CORO_DEAD\<rparr>)" "coros st4 c = Some ?y"
      "lists st4 = lists st3" "fixed st4 = fixed st3" "current_coro st4 = current_coro st3"
    using 4 y(1) by (auto simp: core_def elim!: upd_coro_effect)
  have dist: "distinct (as @ c # bs)" using t3 by (auto simp: table_ok_def)
  have links: "prev_coro ?y = (if as = [] then None else Some (last as))"
      "next_coro ?y = (case bs of [] \<Rightarrow> None | b # _ \<Rightarrow> Some b)"
    using dll_nth_next [of "cores st3" None "all_coros st3" as c bs] t3 core_of [OF y(1)] dll_hd [of "cores st3" "Some c" _ bs]
    by (auto simp: table_ok_def)
  note e5 = coro_list_remove_effect [OF 5 e4(2) dist links]
  have un: "unlink c (cores st4) as bs (core ?y) = unlink c (cores st4) as bs (core y)"
    by (cases bs) (simp_all add: unlink_def Let_def)
  have "cores st6 = (cores st5)(c \<mapsto> (core y)\<lparr>c_state := CORO_DEAD, c_next := dead_coros st3, c_exited := True\<rparr>)"
      "lists st6 = lists st5" "fixed st6 = fixed st5" "current_coro st6 = current_coro st5"
    using 6 e5(3) e4(3) by (auto simp: core_def lists_def elim!: upd_coro_effect)
  moreover have "table_ok ((unlink c (cores st4) as bs (core y))
      (c \<mapsto> (core y)\<lparr>c_state := CORO_DEAD, c_next := dead_coros st3, c_exited := True\<rparr>))
      (if as = [] then next_coro y else all_coros st3) (Some c) None (Some c) (as @ bs) (c # ds)"
    using table_die [OF t3 core_of [OF y(1)]] y(2) e4(1) by (cases "as = []") simp_all
  ultimately have "table_ok (cores st') (all_coros st') (dead_coros st') None (Some c) (as @ bs) (c # ds)"
    using 7 e5 e4(3) un cores_cong [of st' st6] by (cases "as = []") (simp_all add: lists_def)
  moreover have "coro_count st' = int (length (as @ bs)) \<and> (\<forall>d \<in> set ((as @ bs) @ c # ds). d < fresh_coro st')"
    using 7 e5(3) e4(3) r3(1) \<open>lists st6 = lists st5\<close> by (auto simp: lists_def running_def sched_ok_def)
  ultimately show ?thesis
    using 7 e5(3) e4(4,5) r3 \<open>fixed st6 = fixed st5\<close> \<open>current_coro st6 = current_coro st5\<close>
    by (simp add: sched_ok_def running_def fixed_def)
qed

section \<open>Slices\<close>

text \<open>What a slice of \<open>c\<close> leaves behind; \<open>bs\<close> are the coroutines after it on the list.\<close>

definition slice_ok :: "nat \<Rightarrow> nat list \<Rightarrow> 'v sched \<Rightarrow> 'v sched \<Rightarrow> bool" where
  "slice_ok c bs st st' \<longleftrightarrow> fixed st' = fixed st \<and>
     (\<exists>as ds. idle (as @ c # bs) ds st' \<or> sched_ok None (Some c) (as @ bs) (c # ds) st')"

lemma condition_case_return_quiet: "condition_case_return fr st = Some st' \<Longrightarrow> quiet st st'"
  by (auto simp: condition_case_return_def bind_Some)

lemma condition_case_throw_quiet: "condition_case_throw fr e st = Some st' \<Longrightarrow> quiet st st'"
  by (auto simp: condition_case_throw_def bind_Some core_def elim!: quiet_trans [OF quiet_set_ip quiet_upd])

lemma exit_slice_ok:
  assumes "running c (as @ c # bs) ds st0" "quiet st0 st" "trampoline_exit ret st = Some st'"
  shows "slice_ok c bs st0 st'"
  using trampoline_exit_ok [OF quiet_running [OF assms(2,1)] assms(3)] assms(2)
  by (auto simp: slice_ok_def quiet_def)

lemma run_body_ok:
  "run_body fr b st = Some st' \<Longrightarrow> running c (as @ c # bs) ds st \<Longrightarrow> slice_ok c bs st st'"
proof (induction fr b st st' arbitrary: as ds rule: run_body.raw_induct [rotated, consumes 1, case_names step])
  case (step run fr b st st')
  show ?case
  proof (cases b)
    case (Finish v)
    with step show ?thesis
      by (auto simp: bind_Some intro: exit_slice_ok [OF _ condition_case_return_quiet])
  next
    case (Throw e)
    with step show ?thesis
      by (auto simp: bind_Some intro: exit_slice_ok [OF _ condition_case_throw_quiet])
  next
    case Escape
    with step show ?thesis by simp
  next
    case (Do a k)
    with step obtain r st1 where p: "perform a fr k st = Some (r, st1)"
      and r: "(case r of None \<Rightarrow> Some st1 | Some v \<Rightarrow> run fr (k v) st1) = Some st'"
      by (auto simp: bind_Some)
    from perform_ok [OF step.prems p] obtain pre ds' where s: "fixed st1 = fixed st"
      "if r = None then idle (pre @ as @ c # bs) ds' st1 else running c (pre @ as @ c # bs) ds' st1"
      by (auto simp: step_ok_def cong: if_cong)
    show ?thesis
    proof (cases r)
      case None
      have "idle ((pre @ as) @ c # bs) ds' st1" using s(2) None by simp
      moreover have "st' = st1" using r None by simp
      ultimately show ?thesis using s(1) unfolding slice_ok_def by blast
    next
      case (Some v)
      with s r have "run fr (k v) st1 = Some st'" "running c ((pre @ as) @ c # bs) ds' st1" by auto
      from step.IH [OF this] s(1) show ?thesis by (simp add: slice_ok_def)
    qed
  qed
qed

lemma trampoline_start_quiet: "trampoline_start st = Some (fr, fn, arg, st') \<Longrightarrow> quiet st st'"
  by (auto simp: trampoline_start_def bind_Some core_def Let_def Fcons_def split: prod.splits if_splits
      intro: quiet_trans [OF quiet_upd quiet_set_ip])

lemma coro_entry_quiet:
  assumes "coro_entry call1 c st = Some (fr, b, st')"
  shows "quiet st st'"
proof -
  from assms obtain x where x: "coros st c = Some x" by (auto simp: coro_entry_def bind_Some)
  show ?thesis using assms x by (cases "ctx x") (auto simp: coro_entry_def bind_Some dest: trampoline_start_quiet)
qed

lemma enter_coro_ok:
  assumes "enter_coro call1 c st = Some st'" "running c (as @ c # bs) ds st"
  shows "slice_ok c bs st st'"
proof -
  from assms(1) obtain fr b st1 where s: "coro_entry call1 c st = Some (fr, b, st1)" "run_body fr b st1 = Some st'"
    by (auto simp: enter_coro_def bind_Some)
  have q: "quiet st st1" by (rule coro_entry_quiet [OF s(1)])
  from run_body_ok [OF s(2) quiet_running [OF q assms(2)]] q show ?thesis by (simp add: slice_ok_def quiet_def)
qed

text \<open>The tick's own variables and what it must leave as it was.\<close>

definition restored :: "'v sched \<Rightarrow> 'v sched \<Rightarrow> bool" where
  "restored st st' \<longleftrightarrow> regs (ip st') = regs (ip st) \<and> condition_handlers (ip st') = condition_handlers (ip st) \<and>
     in_tick st' = in_tick st \<and> async_tick_forbidden st' = async_tick_forbidden st"

lemma restored_trans: "restored st1 st2 \<Longrightarrow> restored st2 st3 \<Longrightarrow> restored st1 st3"
  by (simp add: restored_def)

lemma quiet_reattach: "reattach_handlers c st = Some st' \<Longrightarrow> quiet st st'"
  by (auto simp: reattach_handlers_def core_def bind_Some split: option.splits
      dest!: quiet_upd intro: quiet_trans [OF quiet_set_ip])

lemma quiet_load: "load_registers c st = Some st' \<Longrightarrow> quiet st st'"
  by (auto simp: load_registers_def bind_Some Let_def)

lemma switch_in_ok:
  assumes "idle xs ds st" "coros st c = Some x" "state x = CORO_RUNNABLE" "switch_in c st = Some st'"
  shows "running c xs ds st' \<and> sched_regs st' = regs (ip st) \<and> sched_condition_handlers st' = condition_handlers (ip st) \<and>
    in_tick st' = in_tick st \<and> async_tick_forbidden st' = async_tick_forbidden st"
proof -
  from assms(4) obtain st1 st2 st3 where
    1: "upd_coro c (\<lambda>x. x\<lparr>state := CORO_RUNNING\<rparr>) st = Some st1" and
    2: "load_registers c (st1\<lparr>current_coro := Some c, sched_regs := regs (ip st1),
          sched_condition_handlers := condition_handlers (ip st1)\<rparr>) = Some st2" (is "load_registers c ?st = _") and
    3: "reattach_handlers c st2 = Some st3" "swap_bindings specpdl_rebind_range c st3 = Some st'"
    by (auto simp: switch_in_def bind_Some)
  have e1: "cores st1 = (cores st)(c \<mapsto> (core x)\<lparr>c_state := CORO_RUNNING\<rparr>)" "lists st1 = lists st" "fixed st1 = fixed st"
      "ip st1 = ip st"
    using 1 assms(2) by (auto simp: core_def elim!: upd_coro_effect)
  have ok: "sched_ok None None xs ds st" using assms(1) by (simp add: idle_def)
  have c: "coro_ok None None ds c (core x)" using sched_okD(1) [OF ok assms(2)] .
  have "sched_ok (Some c) None xs ds st1"
  proof (rule sched_ok_upd [OF ok e1(1) core_of [OF assms(2)] e1(2)])
    show "coro_ok (Some c) None ds c ((core x)\<lparr>c_state := CORO_RUNNING\<rparr>)" using c assms(3) by (auto simp: coro_ok_def)
    show "joins_ok ((cores st)(c \<mapsto> (core x)\<lparr>c_state := CORO_RUNNING\<rparr>))"
      by (rule joins_upd [OF sched_okD(3) [OF ok] core_of [OF assms(2)]])
        (use assms(2,3) in \<open>auto simp: waits_join_def cores_def\<close>)
    show "set_option (Some c) \<union> set_option None \<subseteq> dom (cores st)" using assms(2) by (auto simp: cores_def)
  qed (auto simp: coro_ok_def)
  then have "running c xs ds ?st"
    by (auto simp: running_def intro: sched_ok_cong [rotated 2] simp: lists_def cores_def fun_eq_iff)
  moreover have q: "quiet ?st st'"
    using quiet_trans quiet_load [OF 2] quiet_reattach [OF 3(1)] quiet_swap_bindings [OF 3(2)] by blast
  ultimately show ?thesis using quiet_running [OF q] e1 by (auto simp: quiet_def fixed_def)
qed

lemma switch_out_ok:
  assumes "slice_ok c bs st st1" "switch_out c st1 = Some st'"
  shows "\<exists>as ds. idle (as @ bs) ds st' \<and> regs (ip st') = sched_regs st \<and>
    condition_handlers (ip st') = sched_condition_handlers st \<and> in_tick st' = in_tick st \<and>
    async_tick_forbidden st' = async_tick_forbidden st"
proof -
  let ?st = "(set_ip ((ip st1)\<lparr>regs := sched_regs st1, condition_handlers := sched_condition_handlers st1\<rparr>) st1)\<lparr>current_coro := None\<rparr>"
  from assms(2) have u: "upd_coro c (\<lambda>x. if state x = CORO_DEAD \<and> stack_live x then x\<lparr>stack_live := False\<rparr> else x) ?st = Some st'"
    by (simp add: switch_out_def Let_def)
  have e: "cores ?st = cores st1" "lists ?st = lists st1" "fixed ?st = fixed st1" by (auto intro!: cores_cong)
  obtain x where x: "coros st1 c = Some x" and
    e': "cores st' = (cores st1)(c \<mapsto> core (if state x = CORO_DEAD \<and> stack_live x then x\<lparr>stack_live := False\<rparr> else x))"
      "lists st' = lists st1" "fixed st' = fixed st1" "ip st' = ip ?st" "current_coro st' = None"
    using u e by (auto elim!: upd_coro_effect)
  have f: "fixed st1 = fixed st" using assms(1) by (simp add: slice_ok_def)
  from assms(1) obtain as ds where "idle (as @ c # bs) ds st1 \<or> sched_ok None (Some c) (as @ bs) (c # ds) st1"
    by (auto simp: slice_ok_def)
  then have "\<exists>as ds. idle (as @ bs) ds st'"
  proof
    assume i: "idle (as @ c # bs) ds st1"
    then have "coro_ok None None ds c (core x)" using sched_okD(1) [OF _ x] by (auto simp: idle_def)
    then have "core (if state x = CORO_DEAD \<and> stack_live x then x\<lparr>stack_live := False\<rparr> else x) = core x"
      by (auto simp: coro_ok_def)
    then have "cores st' = cores st1" using e'(1) cores_upd_same [OF x, of x] by simp
    then have "idle ((as @ [c]) @ bs) ds st'" using i e' sched_ok_cong [of st' st1] by (simp add: idle_def)
    then show ?thesis by blast
  next
    assume s: "sched_ok None (Some c) (as @ bs) (c # ds) st1"
    then have c: "coro_ok None (Some c) (c # ds) c (core x)" using sched_okD(1) [OF s x] by simp
    have "core (if state x = CORO_DEAD \<and> stack_live x then x\<lparr>stack_live := False\<rparr> else x) = (core x)\<lparr>c_stack := False\<rparr>"
      using c by (auto simp: coro_ok_def core_def)
    with e'(1) have e1: "cores st' = (cores st1)(c \<mapsto> (core x)\<lparr>c_stack := False\<rparr>)" by simp
    have "sched_ok None None (as @ bs) (c # ds) st'"
    proof (rule sched_ok_upd [OF s e1 core_of [OF x] e'(2)])
      show "coro_ok None None (c # ds) c ((core x)\<lparr>c_stack := False\<rparr>)" using c by (auto simp: coro_ok_def)
      show "joins_ok ((cores st1)(c \<mapsto> (core x)\<lparr>c_stack := False\<rparr>))"
        by (rule joins_cong [OF sched_okD(3) [OF s]]) (use x in \<open>auto simp: same_joins_def cores_def\<close>)
    qed (auto simp: coro_ok_def)
    with e'(5) show ?thesis by (auto simp: idle_def)
  qed
  with e' f show ?thesis by (auto simp: fixed_def)
qed

lemma run_slice_ok:
  assumes "idle (as @ c # bs) ds st" "coros st c = Some x" "state x = CORO_RUNNABLE" "run_slice call1 c st = Some st'"
  shows "\<exists>as ds. idle (as @ bs) ds st' \<and> restored st st'"
proof -
  from assms(4) obtain st1 st2 where s: "switch_in c st = Some st1" "enter_coro call1 c st1 = Some st2" "switch_out c st2 = Some st'"
    by (auto simp: run_slice_def bind_Some)
  have 1: "running c (as @ c # bs) ds st1" "sched_regs st1 = regs (ip st)" "sched_condition_handlers st1 = condition_handlers (ip st)"
      "in_tick st1 = in_tick st" "async_tick_forbidden st1 = async_tick_forbidden st"
    using switch_in_ok [OF assms(1-3) s(1)] by auto
  from switch_out_ok [OF enter_coro_ok [OF s(2) 1(1)] s(3)] 1(2-) show ?thesis by (auto simp: restored_def)
qed

section \<open>The tick\<close>

abbreviation first :: "nat list \<Rightarrow> nat option" where
  "first xs \<equiv> (case xs of [] \<Rightarrow> None | c # _ \<Rightarrow> Some c)"

lemma idle_links:
  assumes "idle (as @ bs) ds st"
  shows "as = [] \<Longrightarrow> all_coros st = first bs"
    "bs = c # cs \<Longrightarrow> \<exists>x. coros st c = Some x \<and> next_coro x = first cs"
proof -
  have d: "dll (cores st) None (all_coros st) (as @ bs)" using assms by (simp add: idle_def sched_ok_def table_ok_def)
  then show "as = [] \<Longrightarrow> all_coros st = first bs" using dll_hd by fastforce
  show "\<exists>x. coros st c = Some x \<and> next_coro x = first cs" if "bs = c # cs"
    using dll_nth_next [of "cores st" None "all_coros st" as c cs] d that dll_hd [of "cores st" "Some c" _ cs]
    by (auto simp: cores_Some)
qed

lemma run_runnable_ok:
  "idle (as @ bs) ds st \<Longrightarrow> run_runnable call1 (first bs) st = Some st' \<Longrightarrow> \<exists>xs ds. idle xs ds st' \<and> restored st st'"
proof (induction bs arbitrary: as ds st)
  case Nil
  then show ?case by (subst (asm) run_runnable.simps) (auto simp: restored_def)
next
  case (Cons c bs)
  obtain x where x: "coros st c = Some x" "next_coro x = first bs" using idle_links(2) [OF Cons.prems(1)] by blast
  from Cons.prems(2) x obtain st1 where
    1: "(if state x = CORO_RUNNABLE then run_slice call1 c st else Some st) = Some st1" and
    2: "run_runnable call1 (first bs) st1 = Some st'"
    by (subst (asm) run_runnable.simps) (auto simp: bind_Some)
  have "\<exists>as ds. idle (as @ bs) ds st1 \<and> restored st st1"
  proof (cases "state x = CORO_RUNNABLE")
    case True
    with run_slice_ok [OF Cons.prems(1) x(1) True, of call1 st1] 1 show ?thesis by simp
  next
    case False
    with 1 Cons.prems(1) have "idle ((as @ [c]) @ bs) ds st1" "restored st st1" by (auto simp: restored_def)
    then show ?thesis by blast
  qed
  then obtain as' ds' where "idle (as' @ bs) ds' st1" "restored st st1" by blast
  from Cons.IH [OF this(1) 2] this(2) show ?case using restored_trans by blast
qed

text \<open>The two loops that make coroutines runnable always come to an end.\<close>

definition wake_yielded :: "'v coro \<Rightarrow> 'v coro" where
  "wake_yielded x = (if state x = CORO_SUSPENDED \<and> wait_reason x = WAIT_NONE
     then x\<lparr>error := Lnil, state := CORO_RUNNABLE, wait_reason := WAIT_NONE\<rparr> else x)"

definition wake_timer :: "int \<Rightarrow> 'v coro \<Rightarrow> 'v coro" where
  "wake_timer tm x = (if state x = CORO_SUSPENDED \<and> wait_reason x = WAIT_TIMER \<and> tm \<ge> wait_deadline x
     then x\<lparr>result := Lnil, error := list2 (Lsym ''async-timeout'') (Lstr ''timeout''),
            state := CORO_RUNNABLE, wait_reason := WAIT_NONE\<rparr> else x)"

lemma idle_wake:
  assumes "idle xs ds st" "coros st c = Some x" "core (f x) = core x \<or>
      (state x = CORO_SUSPENDED \<and> wait_reason x \<noteq> WAIT_JOIN \<and> core (f x) = (core x)\<lparr>c_state := CORO_RUNNABLE, c_reason := WAIT_NONE\<rparr>)"
  shows "idle xs ds (st\<lparr>coros := (coros st)(c \<mapsto> f x)\<rparr>)"
  using assms(3)
proof
  assume "core (f x) = core x"
  then have "cores (st\<lparr>coros := (coros st)(c \<mapsto> f x)\<rparr>) = cores st" using cores_upd_same [OF assms(2), of x] by simp
  then show ?thesis
    using assms(1) sched_ok_cong [of "st\<lparr>coros := (coros st)(c \<mapsto> f x)\<rparr>" st] by (simp add: idle_def lists_def)
next
  assume w: "state x = CORO_SUSPENDED \<and> wait_reason x \<noteq> WAIT_JOIN \<and> core (f x) = (core x)\<lparr>c_state := CORO_RUNNABLE, c_reason := WAIT_NONE\<rparr>"
  then have c: "cores (st\<lparr>coros := (coros st)(c \<mapsto> f x)\<rparr>) = (cores st)(c \<mapsto> (core x)\<lparr>c_state := CORO_RUNNABLE, c_reason := WAIT_NONE\<rparr>)"
    unfolding cores_upd by simp
  have "sched_ok None None xs ds (st\<lparr>coros := (coros st)(c \<mapsto> f x)\<rparr>)"
    by (rule resume_ok [OF _ assms(2) _ _ c]) (use assms(1) w in \<open>simp_all add: idle_def lists_def\<close>)
  with assms(1) show ?thesis by (simp add: idle_def)
qed

lemma idle_same:
  "idle xs ds st \<Longrightarrow> coros st' = coros st \<Longrightarrow> lists st' = lists st \<Longrightarrow> current_coro st' = current_coro st \<Longrightarrow> idle xs ds st'"
  using sched_ok_cong [OF cores_cong, of st' st] by (simp add: idle_def)

lemma idle_distinct: "idle xs ds st \<Longrightarrow> distinct (xs @ ds)"
  by (simp add: idle_def sched_ok_def table_ok_def)

lemma resume_yielded_ok:
  "idle (as @ bs) ds st \<Longrightarrow> \<exists>st'. resume_yielded (first bs) st = Some st' \<and> idle (as @ bs) ds st' \<and>
     st' = st\<lparr>coros := \<lambda>c. if c \<in> set bs then map_option wake_yielded (coros st c) else coros st c\<rparr>"
proof (induction bs arbitrary: as st)
  case Nil
  then show ?case by (subst resume_yielded.simps) simp
next
  case (Cons c bs)
  obtain x where x: "coros st c = Some x" "next_coro x = first bs" using idle_links(2) [OF Cons.prems] by blast
  let ?st1 = "st\<lparr>coros := (coros st)(c \<mapsto> wake_yielded x)\<rparr>"
  have 1: "(if state x = CORO_SUSPENDED \<and> wait_reason x = WAIT_NONE then coro_resume c (result x) st else Some st) = Some ?st1"
    using x(1) by (auto simp: coro_resume_def upd_coro_def wake_yielded_def fun_upd_idem)
  have n: "next_coro (wake_yielded x) = first bs" using x(2) by (simp add: wake_yielded_def)
  have i: "idle ((as @ [c]) @ bs) ds ?st1"
    using idle_wake [OF Cons.prems x(1), of wake_yielded] by (simp add: wake_yielded_def core_def)
  obtain st' where st': "resume_yielded (first bs) ?st1 = Some st'" "idle ((as @ [c]) @ bs) ds st'"
      "st' = ?st1\<lparr>coros := \<lambda>d. if d \<in> set bs then map_option wake_yielded (coros ?st1 d) else coros ?st1 d\<rparr>"
    using Cons.IH [OF i] by blast
  have "c \<notin> set bs" using idle_distinct [OF Cons.prems] by simp
  then have "st' = st\<lparr>coros := \<lambda>d. if d \<in> set (c # bs) then map_option wake_yielded (coros st d) else coros st d\<rparr>"
    using st'(3) x(1) by (auto simp: fun_eq_iff)
  with st' show ?case using x 1 n by (subst resume_yielded.simps) simp
qed

lemma resume_timers_ok:
  "idle (as @ bs) ds st \<Longrightarrow> \<exists>st'. resume_timers (first bs) st = Some st' \<and> idle (as @ bs) ds st' \<and>
     st' = st\<lparr>coros := \<lambda>c. if c \<in> set bs then map_option (wake_timer (now st)) (coros st c) else coros st c\<rparr>"
proof (induction bs arbitrary: as st)
  case Nil
  then show ?case by (subst resume_timers.simps) simp
next
  case (Cons c bs)
  obtain x where x: "coros st c = Some x" "next_coro x = first bs" using idle_links(2) [OF Cons.prems] by blast
  let ?w = "wake_timer (now st)"
  let ?st1 = "st\<lparr>coros := (coros st)(c \<mapsto> ?w x)\<rparr>"
  have 1: "(if state x = CORO_SUSPENDED \<and> wait_reason x = WAIT_TIMER \<and> now st \<ge> wait_deadline x
      then coro_resume_with_error c (list2 (Lsym ''async-timeout'') (Lstr ''timeout'')) st else Some st) = Some ?st1"
    using x(1) by (auto simp: coro_resume_with_error_def upd_coro_def wake_timer_def fun_upd_idem)
  have n: "next_coro (?w x) = first bs" using x(2) by (simp add: wake_timer_def)
  have i: "idle ((as @ [c]) @ bs) ds ?st1"
    using idle_wake [OF Cons.prems x(1), of ?w] by (simp add: wake_timer_def core_def)
  obtain st' where st': "resume_timers (first bs) ?st1 = Some st'" "idle ((as @ [c]) @ bs) ds st'"
      "st' = ?st1\<lparr>coros := \<lambda>d. if d \<in> set bs then map_option (wake_timer (now ?st1)) (coros ?st1 d) else coros ?st1 d\<rparr>"
    using Cons.IH [OF i] by blast
  have "c \<notin> set bs" using idle_distinct [OF Cons.prems] by simp
  then have "st' = st\<lparr>coros := \<lambda>d. if d \<in> set (c # bs) then map_option ?w (coros st d) else coros st d\<rparr>"
    using st'(3) x(1) by (auto simp: fun_eq_iff)
  with st' show ?case using x 1 n by (subst resume_timers.simps) simp
qed

lemma tick_ok:
  assumes "idle xs ds st" "async_scheduler_tick call1 st = Some st'"
  shows "\<exists>xs ds. idle xs ds st' \<and> restored st st'"
proof (cases "tick_blocked st \<or> all_coros st = None")
  case True
  with assms(2) have "st' = st \<or> st' = st\<lparr>in_tick := False\<rparr> \<and> \<not> in_tick st"
    by (auto simp: async_scheduler_tick_def Let_def tick_blocked_def split: if_splits)
  then have "idle xs ds st' \<and> restored st st'"
    using idle_same [OF assms(1), of st'] assms(1) by (auto simp: restored_def lists_def)
  then show ?thesis by blast
next
  case False
  let ?st0 = "st\<lparr>in_tick := True\<rparr>"
  from False assms(2) obtain st1 st2 st3 wfd where
    1: "resume_yielded (all_coros ?st0) ?st0 = Some st1" and
    2: "resume_timers (all_coros st1) st1 = Some st2" and
    3: "run_runnable call1 (all_coros st2) st2 = Some st3" and
    st': "st' = (if wfd then async_schedule_wakeup_tick 10 st3 else st3)\<lparr>in_tick := False\<rparr>"
    by (auto simp: async_scheduler_tick_def Let_def bind_Some)
  have i0: "idle ([] @ xs) ds ?st0" using idle_same [OF assms(1), of ?st0] by (simp add: lists_def)
  have i1: "idle ([] @ xs) ds st1" "restored ?st0 st1"
    using resume_yielded_ok [OF i0] 1 idle_links(1) [OF i0] by (auto simp: restored_def)
  have i2: "idle ([] @ xs) ds st2" "restored st1 st2"
    using resume_timers_ok [OF i1(1)] 2 idle_links(1) [OF i1(1)] by (auto simp: restored_def)
  have "run_runnable call1 (first xs) st2 = Some st3" using 3 idle_links(1) [OF i2(1)] by simp
  then obtain xs' ds' where i3: "idle xs' ds' st3" "restored st2 st3"
    using run_runnable_ok [OF i2(1)] by blast
  have "restored ?st0 st3" using i1 i2 i3 restored_trans by blast
  then have "restored st st'" using st' False
    by (auto simp: restored_def tick_blocked_def async_schedule_wakeup_tick_def)
  moreover have "idle xs' ds' st'"
    using idle_same [OF i3(1), of st'] st' by (auto simp: lists_def async_schedule_wakeup_tick_def)
  ultimately show ?thesis by blast
qed

section \<open>Reachable states\<close>

text \<open>
  What happens to the scheduler between ticks: the editor's top level spawns coroutines and actors,
  sends messages, registers monitors, evaluates Lisp, lets time pass, forbids and allows ticks; and the
  event loop runs ticks.
\<close>

inductive reachable :: "('v lval \<Rightarrow> 'v lval \<Rightarrow> 'v body) \<Rightarrow> 'v sched \<Rightarrow> bool" for call1 where
  init: "reachable call1 (init_sched i batch stream)"
| spawn: "reachable call1 st \<Longrightarrow> coro_spawn fn arg st = Some (c, st') \<Longrightarrow> reachable call1 st'"
| actor: "reachable call1 st \<Longrightarrow> actor_spawn_internal name fn args st = Some (c, st') \<Longrightarrow> reachable call1 st'"
| send: "reachable call1 st \<Longrightarrow> actor_send_internal t msg st = Some st' \<Longrightarrow> reachable call1 st'"
| monitor: "reachable call1 st \<Longrightarrow> Factor_monitor_internal t w st = Some (r, st') \<Longrightarrow> reachable call1 st'"
| eval: "reachable call1 st \<Longrightarrow> reachable call1 (set_ip i st)"
| time: "reachable call1 st \<Longrightarrow> reachable call1 (st\<lparr>now := tm\<rparr>)"
| forbid: "reachable call1 st \<Longrightarrow> reachable call1 (async_tick_forbid_start st)"
| allow: "reachable call1 st \<Longrightarrow> reachable call1 (async_tick_unforbid st)"
| tick: "reachable call1 st \<Longrightarrow> async_scheduler_tick call1 st = Some st' \<Longrightarrow> reachable call1 st'"

lemma quiet_idle: "quiet st st' \<Longrightarrow> idle xs ds st \<Longrightarrow> idle xs ds st'"
  using quiet_ok [of st st'] by (auto simp: quiet_def idle_def)

lemma spawn_idle:
  assumes "idle xs ds st" "coro_spawn fn arg st = Some (c, st')"
  shows "idle (c # xs) ds st' \<and> in_tick st' = in_tick st"
  using coro_spawn_ok [of None None xs ds st fn arg c st'] assms by (auto simp: idle_def fixed_def)

lemma monitor_quiet:
  fixes st :: "'v sched"
  assumes "Factor_monitor_internal t w st = Some (r, st')"
  shows "quiet st st'"
proof (cases "\<exists>t' w'. opaque_coro t = Inr t' \<and> opaque_coro w = Inr w'")
  case False
  with assms show ?thesis by (auto simp: Factor_monitor_internal_def split: sum.splits)
next
  case True
  then obtain t' w' where "opaque_coro t = Inr t'" "opaque_coro w = Inr w'" by blast
  with assms obtain st1 and x :: "'v coro" where
    1: "(if length (monitor_list x) \<ge> monitor_cap x
         then upd_coro t' (\<lambda>x. x\<lparr>monitor_cap := if monitor_cap x = 0 then 4 else monitor_cap x * 2\<rparr>) st else Some st) = Some st1" and
    2: "upd_coro t' (\<lambda>x. x\<lparr>monitor_list := monitor_list x @ [w']\<rparr>) st1 = Some st'"
    by (auto simp: Factor_monitor_internal_def bind_Some)
  have "quiet st st1" using 1 by (auto elim!: quiet_upd simp: core_def split: if_splits)
  moreover have "quiet st1 st'" by (rule quiet_upd [OF 2]) (simp add: core_def)
  ultimately show ?thesis by (rule quiet_trans)
qed

lemma reachable_idle: "reachable call1 st \<Longrightarrow> \<exists>xs ds. idle xs ds st \<and> \<not> in_tick st"
proof (induction rule: reachable.induct)
  case (init i batch stream)
  have "idle [] [] (init_sched i batch stream)"
    by (auto simp: idle_def sched_ok_def table_ok_def init_sched_def cores_def joins_ok_def)
  then show ?case by (auto simp: init_sched_def)
next
  case (spawn st fn arg c st')
  then show ?case using spawn_idle by blast
next
  case (actor st name fn args c st')
  then obtain xs ds arg st1 where s: "idle xs ds st" "\<not> in_tick st" "coro_spawn fn arg st = Some (c, st1)"
      "upd_coro c (\<lambda>x. x\<lparr>is_actor := True, actor_name := name\<rparr>) st1 = Some st'"
    by (auto simp: actor_spawn_internal_def bind_Some)
  have "quiet st1 st'" by (rule quiet_upd [OF s(4)]) (simp add: core_def)
  moreover from this have "in_tick st' = in_tick st1" by (simp add: quiet_def fixed_def)
  ultimately show ?case using spawn_idle [OF s(1,3)] s(2) quiet_idle by blast
next
  case (send st t msg st')
  then obtain xs ds where "idle xs ds st" "\<not> in_tick st" by blast
  with actor_send_ok [OF _ send.hyps(2), of None None xs ds] show ?case by (auto simp: idle_def fixed_def)
next
  case (monitor st t w r st')
  then obtain xs ds where "idle xs ds st" "\<not> in_tick st" by blast
  then have "idle xs ds st' \<and> \<not> in_tick st'"
    using monitor_quiet [OF monitor.hyps(2)] quiet_idle by (auto simp: quiet_def fixed_def)
  then show ?case by blast
next
  case (eval st i)
  then obtain xs ds where "idle xs ds st" "\<not> in_tick st" by blast
  then have "idle xs ds (set_ip i st) \<and> \<not> in_tick (set_ip i st)"
    using quiet_idle [OF quiet_set_ip] by (auto simp: set_ip_def)
  then show ?case by blast
next
  case (tick st st')
  then obtain xs ds where "idle xs ds st" "\<not> in_tick st" by blast
  with tick_ok [OF this(1) tick.hyps(2)] show ?case by (auto simp: restored_def)
next
  case (time st tm)
  then obtain xs ds where "idle xs ds st" "\<not> in_tick st" by blast
  then have "idle xs ds (st\<lparr>now := tm\<rparr>) \<and> \<not> in_tick (st\<lparr>now := tm\<rparr>)"
    using idle_same [of xs ds st "st\<lparr>now := tm\<rparr>"] by (simp add: lists_def)
  then show ?case by blast
next
  case (forbid st)
  then obtain xs ds where "idle xs ds st" "\<not> in_tick st" by blast
  then have "idle xs ds (async_tick_forbid_start st) \<and> \<not> in_tick (async_tick_forbid_start st)"
    using idle_same [of xs ds st "async_tick_forbid_start st"] by (simp add: async_tick_forbid_start_def lists_def)
  then show ?case by blast
next
  case (allow st)
  then obtain xs ds where "idle xs ds st" "\<not> in_tick st" by blast
  then have "idle xs ds (async_tick_unforbid st) \<and> \<not> in_tick (async_tick_unforbid st)"
    using idle_same [of xs ds st "async_tick_unforbid st"] by (simp add: async_tick_unforbid_def lists_def)
  then show ?case by blast
qed

section \<open>While a tick is under way\<close>

text \<open>The states in which the loop of a tick from \<open>st\<close> looks at the next coroutine.\<close>

inductive tick_loop :: "('v lval \<Rightarrow> 'v lval \<Rightarrow> 'v body) \<Rightarrow> 'v sched \<Rightarrow> nat option \<Rightarrow> 'v sched \<Rightarrow> bool" for call1 st where
  start: "\<not> tick_blocked st \<Longrightarrow> all_coros st \<noteq> None \<Longrightarrow> resume_yielded (all_coros st) (st\<lparr>in_tick := True\<rparr>) = Some st1 \<Longrightarrow>
     resume_timers (all_coros st1) st1 = Some st2 \<Longrightarrow> tick_loop call1 st (all_coros st2) st2"
| skip: "tick_loop call1 st (Some c) s \<Longrightarrow> coros s c = Some x \<Longrightarrow> state x \<noteq> CORO_RUNNABLE \<Longrightarrow> tick_loop call1 st (next_coro x) s"
| slice: "tick_loop call1 st (Some c) s \<Longrightarrow> coros s c = Some x \<Longrightarrow> state x = CORO_RUNNABLE \<Longrightarrow> run_slice call1 c s = Some s' \<Longrightarrow>
     tick_loop call1 st (next_coro x) s'"

text \<open>The states in which the code of a coroutine goes on during a tick from \<open>st\<close>.\<close>

inductive tick_body ::
  "('v lval \<Rightarrow> 'v lval \<Rightarrow> 'v body) \<Rightarrow> 'v sched \<Rightarrow> 'v cc_frame \<Rightarrow> 'v body \<Rightarrow> 'v sched \<Rightarrow> bool" for call1 st where
  enter: "tick_loop call1 st (Some c) s \<Longrightarrow> coros s c = Some x \<Longrightarrow> state x = CORO_RUNNABLE \<Longrightarrow> switch_in c s = Some s1 \<Longrightarrow>
     coro_entry call1 c s1 = Some (fr, b, s2) \<Longrightarrow> tick_body call1 st fr b s2"
| step: "tick_body call1 st fr (Do a k) s \<Longrightarrow> perform a fr k s = Some (Some v, s') \<Longrightarrow> tick_body call1 st fr (k v) s'"

lemma tick_loop_inv:
  assumes "tick_loop call1 st p s" "idle xs ds st"
  shows "\<exists>as bs ds. idle (as @ bs) ds s \<and> p = first bs \<and> in_tick s"
  using assms
proof (induction rule: tick_loop.induct)
  case (start st1 st2)
  let ?st0 = "st\<lparr>in_tick := True\<rparr>"
  have i0: "idle ([] @ xs) ds ?st0" using idle_same [OF start.prems, of ?st0] by (simp add: lists_def)
  have i1: "idle ([] @ xs) ds st1" "in_tick st1"
    using resume_yielded_ok [OF i0] start.hyps(3) idle_links(1) [OF i0] by auto
  have i2: "idle ([] @ xs) ds st2" "in_tick st2"
    using resume_timers_ok [OF i1(1)] start.hyps(4) idle_links(1) [OF i1(1)] i1(2) by auto
  then show ?case using idle_links(1) [OF i2(1)] by blast
next
  case (skip c s x)
  then obtain as bs ds where i: "idle (as @ bs) ds s" "Some c = first bs" "in_tick s" by blast
  then obtain cs where cs: "bs = c # cs" by (auto split: list.splits)
  then have "next_coro x = first cs" using idle_links(2) [OF i(1)] skip.hyps(2) by fastforce
  moreover have "idle ((as @ [c]) @ cs) ds s" using i(1) cs by simp
  ultimately show ?case using i(3) by blast
next
  case (slice c s x s')
  then obtain as bs ds where i: "idle (as @ bs) ds s" "Some c = first bs" "in_tick s" by blast
  then obtain cs where cs: "bs = c # cs" by (auto split: list.splits)
  then have "next_coro x = first cs" using idle_links(2) [OF i(1)] slice.hyps(2) by fastforce
  moreover have "\<exists>as ds. idle (as @ cs) ds s' \<and> restored s s'"
    using run_slice_ok [of as c cs ds s x] i(1) cs slice.hyps by simp
  ultimately show ?case using i(3) by (auto simp: restored_def)
qed

lemma tick_body_inv:
  assumes "tick_body call1 st fr b s" "idle xs ds st"
  shows "\<exists>c as bs ds. running c (as @ c # bs) ds s \<and> in_tick s"
  using assms
proof (induction rule: tick_body.induct)
  case (enter c s x s1 fr b s2)
  from tick_loop_inv [OF enter.hyps(1) enter.prems] obtain as bs ds where
    i: "idle (as @ bs) ds s" "Some c = first bs" "in_tick s" by blast
  then obtain cs where cs: "bs = c # cs" by (auto split: list.splits)
  have r: "running c (as @ c # cs) ds s1" "in_tick s1"
    using switch_in_ok [of "as @ c # cs" ds s c x s1] i cs enter.hyps by auto
  have q: "quiet s1 s2" by (rule coro_entry_quiet [OF enter.hyps(5)])
  then show ?case using quiet_running [OF q r(1)] r(2) by (auto simp: quiet_def fixed_def)
next
  case (step fr a k s v s')
  then obtain c as bs ds where i: "running c (as @ c # bs) ds s" "in_tick s" by blast
  from perform_ok [OF i(1) step.hyps(2)] obtain pre ds' where
    "fixed s' = fixed s" "running c (pre @ as @ c # bs) ds' s'" by (auto simp: step_ok_def)
  then show ?case using i(2) by (metis append.assoc fixed_def prod.inject)
qed

lemma nested_tick:
  assumes "reachable call1 st" "tick_body call1 st fr b s"
  shows "in_tick s"
  using reachable_idle [OF assms(1)] tick_body_inv [OF assms(2)] by blast

end
