(* ===== verification/Async_Actors.thy ===== *)
theory Async_Actors
  imports Async_Invariant
begin

text \<open>
  The theorems about the scheduler of \<open>Async_Scheduler\<close>: its invariant, what a tick does to the
  coroutines and to the interpreter, and the delivery of messages, timeouts, errors and results.
\<close>

section \<open>Ticks\<close>

text \<open>
  C27: In every state that spawning, sending, monitoring, evaluation and ticks that return lead to (a coroutine that throws
  to a catch of its spawner leaves the tick, and nothing is said of what follows), the live coroutines form
  one doubly linked list and the dead ones the graveyard, without repetition and without any others;
  \<open>coro_count\<close> is the length of the list; no coroutine is left running; exactly the dead ones have
  their stack freed; and each coroutine that some other is to wake at its end waits for that.
\<close>

theorem scheduler_invariant:
  assumes "reachable call1 st"
  shows "\<exists>xs ds. idle xs ds st \<and> \<not> in_tick st"
  using assms by (rule reachable_idle)


text \<open>
  C29: The first two loops of a tick always come to their end and make runnable exactly the coroutines that
  yielded and those whose deadline has passed, the latter with the timeout error; all others are as
  they were.
\<close>

theorem tick_wakes:
  assumes "reachable call1 st"
  shows "\<exists>st1 st2. resume_yielded (all_coros st) st = Some st1 \<and> resume_timers (all_coros st1) st1 = Some st2 \<and>
    (\<forall>c x. coros st c = Some x \<longrightarrow> coros st2 c = Some
      (if state x = CORO_SUSPENDED \<and> wait_reason x = WAIT_NONE then x\<lparr>error := Lnil, state := CORO_RUNNABLE\<rparr>
       else if state x = CORO_SUSPENDED \<and> wait_reason x = WAIT_TIMER \<and> now st \<ge> wait_deadline x
         then x\<lparr>result := Lnil, error := list2 (Lsym ''async-timeout'') (Lstr ''timeout''),
                state := CORO_RUNNABLE, wait_reason := WAIT_NONE\<rparr>
       else x))"
proof -
  obtain xs ds where i0: "idle ([] @ xs) ds st" using reachable_idle [OF assms] by auto
  then obtain st1 where 1: "resume_yielded (all_coros st) st = Some st1" "idle ([] @ xs) ds st1"
      "st1 = st\<lparr>coros := \<lambda>c. if c \<in> set xs then map_option wake_yielded (coros st c) else coros st c\<rparr>"
    using resume_yielded_ok [OF i0] idle_links(1) [OF i0] by auto
  then obtain st2 where 2: "resume_timers (all_coros st1) st1 = Some st2"
      "st2 = st1\<lparr>coros := \<lambda>c. if c \<in> set xs then map_option (wake_timer (now st1)) (coros st1 c) else coros st1 c\<rparr>"
    using resume_timers_ok [OF 1(2)] idle_links(1) [OF 1(2)] by auto
  have dead: "state x = CORO_DEAD" if "coros st c = Some x" "c \<notin> set xs" for c x
    using that sched_okD(1,2) [of None None xs ds st c x] i0 by (auto simp: idle_def coro_ok_def)
  have "coros st2 c = Some (wake_timer (now st) (wake_yielded x))" if "coros st c = Some x" for c x
    using that 1(3) 2(2) dead [OF that] by (auto simp: wake_timer_def wake_yielded_def)
  then have "\<forall>c x. coros st c = Some x \<longrightarrow> coros st2 c = Some
      (if state x = CORO_SUSPENDED \<and> wait_reason x = WAIT_NONE then x\<lparr>error := Lnil, state := CORO_RUNNABLE\<rparr>
       else if state x = CORO_SUSPENDED \<and> wait_reason x = WAIT_TIMER \<and> now st \<ge> wait_deadline x
         then x\<lparr>result := Lnil, error := list2 (Lsym ''async-timeout'') (Lstr ''timeout''),
                state := CORO_RUNNABLE, wait_reason := WAIT_NONE\<rparr>
       else x)"
    by (auto simp: wake_timer_def wake_yielded_def)
  with 1(1) 2(1) show ?thesis by blast
qed

section \<open>Messages\<close>

lemma switch_in_keeps:
  assumes "switch_in c st = Some st'" "coros st c = Some x"
  shows "current_coro st' = Some c" "\<exists>y. coros st' c = Some y \<and> ctx y = ctx x \<and> result y = result x \<and> error y = error x \<and>
    mailbox y = mailbox x \<and> is_actor y = is_actor x \<and> join_waiter y = join_waiter x"
    "d \<noteq> c \<Longrightarrow> coros st' d = coros st d"
  using assms by (auto simp: switch_in_def load_registers_def reattach_handlers_def swap_bindings_def bind_Some Let_def
      upd_coro_Some split: option.splits if_splits)

text \<open>
  C30: A message sent to an actor that waits for one without a timeout is delivered twice: the receive that
  was waiting returns it, and it is still in the mailbox for the next receive.
\<close>

theorem message_delivered_twice:
  assumes "coros st t = Some x" "state x = CORO_SUSPENDED" "wait_reason x = WAIT_MAILBOX" "mailbox x = []"
    and "is_actor x" "ctx x = In_Receive fr k"
  shows "\<exists>st1. actor_send_internal t msg st = Some st1 \<and>
    (\<forall>st2. switch_in t st1 = Some st2 \<longrightarrow> enter_coro call1 t st2 = run_body fr (k (Inr msg)) st2 \<and>
       (\<exists>st3. perform (Actor_Receive_Internal Lnil) fr k2 st2 = Some (Some (Inr msg), st3)))"
proof -
  obtain st1 where st1: "actor_send_internal t msg st = Some st1"
    "coros st1 t = Some (x\<lparr>mailbox := [msg], result := msg, error := Lnil, state := CORO_RUNNABLE, wait_reason := WAIT_NONE\<rparr>)"
    using assms by (auto simp: actor_send_internal_def upd_coro_def coro_resume_def async_schedule_wakeup_tick_def)
  have "enter_coro call1 t st2 = run_body fr (k (Inr msg)) st2 \<and>
      (\<exists>st3. perform (Actor_Receive_Internal Lnil) fr k2 st2 = Some (Some (Inr msg), st3))"
    if s: "switch_in t st1 = Some st2" for st2
    using switch_in_keeps [OF s st1(2)] assms(5,6)
    by (auto simp: enter_coro_def coro_entry_def Factor_receive_internal_def actor_receive_internal_def upd_coro_def)
  with st1(1) show ?thesis by blast
qed

text \<open>
  A message sent to an actor that waits with a timeout does not wake it, and when the deadline has passed
  the receive returns \<open>nil\<close>, the message still unread, instead of signalling the error that the
  coroutine was resumed with.
\<close>

theorem timed_receive_returns_nil:
  assumes "coros st t = Some x" "state x = CORO_SUSPENDED" "wait_reason x = WAIT_TIMER" "ctx x = In_Receive fr k"
  shows "\<exists>st1. actor_send_internal t msg st = Some st1 \<and> coros st1 t = Some (x\<lparr>mailbox := mailbox x @ [msg]\<rparr>) \<and>
    wakeups st1 = wakeups st \<and>
    (\<forall>st2 st3. coro_resume_with_error t err st1 = Some st2 \<and> switch_in t st2 = Some st3 \<longrightarrow>
       enter_coro call1 t st3 = run_body fr (k (Inr Lnil)) st3)"
proof -
  obtain st1 where st1: "actor_send_internal t msg st = Some st1" "coros st1 t = Some (x\<lparr>mailbox := mailbox x @ [msg]\<rparr>)"
      "wakeups st1 = wakeups st"
    using assms by (auto simp: actor_send_internal_def upd_coro_def)
  have "enter_coro call1 t st3 = run_body fr (k (Inr Lnil)) st3"
    if s: "coro_resume_with_error t err st1 = Some st2" "switch_in t st2 = Some st3" for st2 st3
  proof -
    have "coros st2 t = Some (x\<lparr>mailbox := mailbox x @ [msg], result := Lnil, error := err, state := CORO_RUNNABLE,
        wait_reason := WAIT_NONE\<rparr>)"
      using s(1) st1(2) by (auto simp: coro_resume_with_error_def upd_coro_def)
    from switch_in_keeps [OF s(2) this] assms(4) show ?thesis by (auto simp: enter_coro_def coro_entry_def)
  qed
  with st1 show ?thesis by blast
qed

section \<open>Results and errors\<close>

text \<open>What a coroutine's end leaves alone in those that do not wait.\<close>

definition same_outcome :: "'v coro \<Rightarrow> 'v coro \<Rightarrow> bool" where
  "same_outcome x y \<longleftrightarrow> result y = result x \<and> error y = error x \<and> state y = state x"

lemma same_outcome_refl [simp]: "same_outcome x x"
  by (simp add: same_outcome_def)

lemma actor_send_outcome:
  assumes "actor_send_internal t msg st = Some st'" "coros st d = Some y" "state y \<noteq> CORO_SUSPENDED"
  shows "\<exists>y'. coros st' d = Some y' \<and> same_outcome y y'"
  using assms by (auto simp: actor_send_internal_def bind_Some upd_coro_Some coro_resume_def same_outcome_def Let_def split: if_splits)

lemma notify_monitors_outcome:
  assumes "notify_monitors msg ws st = Some st'" "coros st d = Some y" "state y \<noteq> CORO_SUSPENDED"
  shows "\<exists>y'. coros st' d = Some y' \<and> same_outcome y y'"
  using assms
proof (induction ws arbitrary: st y)
  case (Cons w ws)
  from Cons.prems(1) obtain st1 and x :: "'a coro" where
    1: "(if state x \<noteq> CORO_DEAD then actor_send_internal w msg st else Some st) = Some st1" "notify_monitors msg ws st1 = Some st'"
    by (auto simp: bind_Some)
  obtain y1 where y1: "coros st1 d = Some y1" "same_outcome y y1"
    using actor_send_outcome [OF _ Cons.prems(2,3), of w msg st1] 1(1) Cons.prems(2) by (auto split: if_splits)
  then have "state y1 \<noteq> CORO_SUSPENDED" using Cons.prems(3) by (simp add: same_outcome_def)
  with Cons.IH [OF 1(2) y1(1)] y1(2) show ?case by (auto simp: same_outcome_def)
qed auto

lemma coro_list_remove_outcome:
  assumes "coro_list_remove c st = Some st'" "coros st d = Some y"
  shows "\<exists>y'. coros st' d = Some y' \<and> same_outcome y y'"
  using assms by (auto simp: coro_list_remove_def bind_Some upd_coro_Some same_outcome_def split: option.splits)

lemma trampoline_exit_stale:
  assumes ex: "trampoline_exit ret st = Some st'" and cur: "current_coro st = Some c"
    and x: "coros st c = Some x" "error x \<noteq> Lnil" "state x \<noteq> CORO_SUSPENDED" "join_waiter x = Some w"
    and w: "coros st w = Some y" "w \<noteq> c"
  shows "\<exists>y' z. coros st' w = Some y' \<and> result y' = Lnil \<and> error y' = error x \<and> state y' = CORO_RUNNABLE \<and>
    coros st' c = Some z \<and> state z = CORO_DEAD \<and> result z = result x \<and> error z = error x"
proof -
  let ?x = "x\<lparr>lisp_fn := Lnil\<rparr>"
  let ?y = "y\<lparr>result := Lnil, error := error x, state := CORO_RUNNABLE, wait_reason := WAIT_NONE\<rparr>"
  from ex cur obtain st1 st2 st3 st4 st5 st6 v where
    1: "upd_coro c (\<lambda>x. x\<lparr>lisp_fn := Lnil\<rparr>) st = Some st1" "wake_join_waiter c ret st1 = Some st2" "coros st2 c = Some v" and
    3: "notify_monitors (list2 (Lsym '':exit'') (error v)) (monitor_list v) st2 = Some st3" and
    4: "upd_coro c (\<lambda>x. x\<lparr>monitor_list := [], monitor_cap := 0, state := CORO_DEAD\<rparr>) st3 = Some st4" and
    5: "coro_list_remove c st4 = Some st5" and
    6: "upd_coro c (\<lambda>x. x\<lparr>next_coro := dead_coros st5, ctx := At_Exit\<rparr>) st5 = Some st6" and
    7: "st' = st6\<lparr>dead_coros := Some c\<rparr>"
    by (auto simp: trampoline_exit_def bind_Some)
  have "coros st1 c = Some ?x" "coros st1 w = Some y" using 1(1) x(1) w by (auto simp: upd_coro_Some)
  then have s2: "coros st2 w = Some ?y" "coros st2 c = Some (?x\<lparr>join_waiter := None\<rparr>)"
    using 1(2) x(2,4) w(2)
    by (auto simp: wake_join_waiter_def coro_resume_with_error_def upd_coro_def async_schedule_wakeup_tick_def split: if_splits)
  from notify_monitors_outcome [OF 3 s2(1)] obtain y3 where y3: "coros st3 w = Some y3" "same_outcome ?y y3" by auto
  from notify_monitors_outcome [OF 3 s2(2)] x(3) obtain x3 where x3: "coros st3 c = Some x3" "same_outcome x x3"
    by (auto simp: same_outcome_def)
  have s4: "coros st4 w = Some y3" "coros st4 c = Some (x3\<lparr>monitor_list := [], monitor_cap := 0, state := CORO_DEAD\<rparr>)"
    using 4 y3(1) x3(1) w(2) by (auto simp: upd_coro_Some)
  obtain y5 x5 where s5: "coros st5 w = Some y5" "same_outcome y3 y5" "coros st5 c = Some x5"
    "same_outcome (x3\<lparr>monitor_list := [], monitor_cap := 0, state := CORO_DEAD\<rparr>) x5"
    using coro_list_remove_outcome [OF 5 s4(1)] coro_list_remove_outcome [OF 5 s4(2)] by blast
  have "coros st' w = Some y5" "coros st' c = Some (x5\<lparr>next_coro := dead_coros st5, ctx := At_Exit\<rparr>)"
    using 6 7 s5(1,3) w(2) by (auto simp: upd_coro_Some)
  then show ?thesis using y3(2) x3(2) s5(2,4) by (auto simp: same_outcome_def)
qed

text \<open>
  C39: An actor waits for a message with a timeout, another coroutine waits for the actor to end, and the deadline has
  passed.  The tick resumes the actor with the timeout error, but its receive returns \<open>nil\<close>, as for any other
  message; when its function then returns a value without any error, the actor still ends as if it had failed: the one that
  joins it is resumed with the timeout error and no result, and the value is not kept.
\<close>

theorem stale_error_exit:
  assumes reach: "reachable call1 st"
    and x: "coros st c = Some x" "state x = CORO_SUSPENDED" "wait_reason x = WAIT_TIMER" "wait_deadline x \<le> now st"
      "ctx x = In_Receive fr k" "join_waiter x = Some w"
    and returns: "k (Inr Lnil) = Finish v"
  shows "\<exists>st1 st2. resume_yielded (all_coros st) st = Some st1 \<and> resume_timers (all_coros st1) st1 = Some st2 \<and>
    (\<forall>st3. run_slice call1 c st2 = Some st3 \<longrightarrow> (\<exists>y z.
      coros st3 w = Some y \<and> state y = CORO_RUNNABLE \<and> result y = Lnil \<and> error y = list2 (Lsym ''async-timeout'') (Lstr ''timeout'') \<and>
      coros st3 c = Some z \<and> state z = CORO_DEAD \<and> result z = Lnil \<and> error z = list2 (Lsym ''async-timeout'') (Lstr ''timeout'')))"
proof -
  let ?err = "list2 (Lsym ''async-timeout'') (Lstr ''timeout'')"
  obtain xs ds where i: "idle ([] @ xs) ds st" using reachable_idle [OF reach] by auto
  then obtain st1 where 1: "resume_yielded (all_coros st) st = Some st1" "idle ([] @ xs) ds st1"
      "st1 = st\<lparr>coros := \<lambda>c. if c \<in> set xs then map_option wake_yielded (coros st c) else coros st c\<rparr>"
    using resume_yielded_ok [OF i] idle_links(1) [OF i] by auto
  then obtain st2 where 2: "resume_timers (all_coros st1) st1 = Some st2"
      "st2 = st1\<lparr>coros := \<lambda>c. if c \<in> set xs then map_option (wake_timer (now st1)) (coros st1 c) else coros st1 c\<rparr>"
    using resume_timers_ok [OF 1(2)] idle_links(1) [OF 1(2)] by auto
  have ok: "sched_ok None None xs ds st" using i by (simp add: idle_def)
  have "c \<in> set xs" using sched_okD(1,2) [OF ok x(1)] x(2) by (auto simp: coro_ok_def)
  then have c2: "coros st2 c = Some (x\<lparr>result := Lnil, error := ?err, state := CORO_RUNNABLE, wait_reason := WAIT_NONE\<rparr>)"
    using 1(3) 2(2) x by (simp add: wake_yielded_def wake_timer_def)
  from joinsD(2) [OF sched_okD(3) [OF ok] core_of [OF x(1)]] x(6) obtain y where
    y: "coros st w = Some y" "state y = CORO_SUSPENDED" "wait_reason y = WAIT_JOIN" by (auto simp: waits_join_def cores_Some)
  then have w: "coros st2 w = Some y" "w \<noteq> c" using 1(3) 2(2) x by (auto simp: wake_yielded_def wake_timer_def)
  have "\<exists>y z. coros st3 w = Some y \<and> state y = CORO_RUNNABLE \<and> result y = Lnil \<and> error y = ?err \<and>
      coros st3 c = Some z \<and> state z = CORO_DEAD \<and> result z = Lnil \<and> error z = ?err" if "run_slice call1 c st2 = Some st3" for st3
  proof -
    from that obtain s1 s2 where s: "switch_in c st2 = Some s1" "enter_coro call1 c s1 = Some s2" "switch_out c s2 = Some st3"
      by (auto simp: run_slice_def bind_Some)
    note in_keeps = switch_in_keeps [OF s(1) c2]
    from in_keeps(2) obtain u where u: "coros s1 c = Some u" "ctx u = In_Receive fr k" "result u = Lnil" "error u = ?err"
      "join_waiter u = Some w" using x by auto
    have "coros s1 w = Some y" using in_keeps(3) [OF w(2)] w(1) by simp
    from s(2) u returns have "run_body fr (Finish v) s1 = Some s2" by (simp add: enter_coro_def coro_entry_def)
    then obtain s1' where e: "condition_case_return fr s1 = Some s1'" "trampoline_exit v s1' = Some s2"
      by (subst (asm) run_body.simps) (auto simp: bind_Some)
    then have c1: "coros s1' = coros s1" "current_coro s1' = current_coro s1" by (auto simp: condition_case_return_def bind_Some)
    have st: "state u \<noteq> CORO_SUSPENDED"
      using s(1) c2 u(1) by (auto simp: switch_in_def load_registers_def reattach_handlers_def swap_bindings_def bind_Some Let_def
          upd_coro_Some split: option.splits if_splits)
    obtain y' z where r: "coros s2 w = Some y'" "result y' = Lnil" "error y' = ?err" "state y' = CORO_RUNNABLE"
      "coros s2 c = Some z" "state z = CORO_DEAD" "result z = Lnil" "error z = ?err"
      using trampoline_exit_stale [OF e(2), of c u w y] c1 in_keeps(1) u st \<open>coros s1 w = Some y\<close> w(2) by auto
    then show ?thesis using s(3) w(2) by (auto simp: switch_out_def upd_coro_Some Let_def)
  qed
  with 1(1) 2(1) show ?thesis by blast
qed

lemma graveyard_remove_total:
  assumes "sched_ok cur None xs ds st" "coros st t = Some x" "state x = CORO_DEAD"
  shows "\<exists>st1 y. coro_graveyard_remove t st = Some st1 \<and> coros st1 t = Some y \<and> coro_specpdl y = coro_specpdl x \<and> ip st1 = ip st"
proof -
  have ok: "table_ok (cores st) (all_coros st) (dead_coros st) cur None xs ds" using assms(1) by (simp add: sched_ok_def)
  have "t \<in> set ds" using sched_okD(1) [OF assms(1,2)] assms(3) by (simp add: coro_ok_def)
  then obtain as bs where ds: "ds = as @ t # bs" "t \<notin> set as" by (meson split_list_first)
  have "read_link None st = Some (dead_coros st)" by (simp add: read_link_def)
  moreover have "sll (cores st) (dead_coros st) (as @ t # bs)" using ok ds by (simp add: table_ok_def)
  ultimately have g: "coro_graveyard_remove t st = write_link (if as = [] then None else Some (last as)) (next_coro x) st"
    using graveyard_loop_finds [of None st "dead_coros st" as t bs] ds(2) assms(2) by (auto simp: coro_graveyard_remove_def)
  show ?thesis
  proof (cases "as = []")
    case True
    with g assms(2) show ?thesis by (simp add: write_link_def)
  next
    case False
    then have "last as \<in> dom (cores st)" using ok ds(1) by (simp add: table_ok_def)
    then obtain y where "coros st (last as) = Some y" by (auto simp: cores_def)
    moreover have "last as \<noteq> t" using ds(2) False last_in_set by metis
    ultimately show ?thesis using g False assms(2) by (simp add: write_link_def upd_coro_def)
  qed
qed

text \<open>
  Joining a coroutine that has ended already returns its field \<open>result\<close>, also when it ended with an
  error, which is lost; and the coroutine is freed, so that any further use of the handle is an
  access to freed memory.
\<close>

theorem join_dead_coroutine:
  assumes "running self xs ds st" "coros st target = Some t" "state t = CORO_DEAD" "stacks (ip st) (coro_specpdl t) \<noteq> None"
  shows "\<exists>st'. Factor_join_internal (Lopaque target) fr k st = Some (Some (Inr (result t)), st') \<and>
    coros st' target = None \<and> Factor_join_internal (Lopaque target) fr k st' = None \<and>
    Fasync__coro_error (Lopaque target) st' = None \<and> Factor_send_internal (Lopaque target) msg st' = None"
proof -
  have ok: "sched_ok (Some self) None xs ds st" "current_coro st = Some self" using assms(1) by (auto simp: running_def)
  obtain st1 t2 where g: "coro_graveyard_remove target st = Some st1" "coros st1 target = Some t2"
      "coro_specpdl t2 = coro_specpdl t" "ip st1 = ip st"
    using graveyard_remove_total [OF ok(1) assms(2,3)] by auto
  obtain es where "stacks (ip st) (coro_specpdl t) = Some es" using assms(4) by auto
  let ?st = "st1\<lparr>coros := (coros st1)(target := None), ip := (ip st1)\<lparr>stacks := (stacks (ip st1))(coro_specpdl t2 := None)\<rparr>\<rparr>"
  have cur: "current_coro ?st = Some self"
    using graveyard_remove_ok [OF ok(1) assms(2,3) g(1) refl] ok(2) by auto
  have "Factor_join_internal (Lopaque target) fr k st = Some (Some (Inr (result t)), ?st)"
    using assms(2,3) ok(2) g \<open>stacks (ip st) (coro_specpdl t) = Some es\<close> by (simp add: Factor_join_internal_def opaque_coro_def)
  moreover have "Factor_join_internal (Lopaque target) fr k ?st = None"
    using cur by (simp add: Factor_join_internal_def opaque_coro_def)
  ultimately show ?thesis
    by (auto simp: Fasync__coro_error_def Fasync_coro_field_def Factor_send_internal_def actor_send_internal_def opaque_coro_def)
qed

section \<open>The binding stack of a coroutine\<close>

text \<open>
  C40: When the binding stack of a running coroutine is full, a new binding makes it grow, and \<open>realloc\<close> moves
  its block; but the coroutine still points to the old one: the next yield goes through freed memory.
\<close>

theorem grown_stack_dangles:
  assumes "current_coro st = Some c" "coros st c = Some x" "specpdl (regs (ip st)) = coro_specpdl x"
    and "coro_specpdl x \<noteq> next_stack (ip st)" "realloc_moves (ip st)"
    and "specpdl_size (regs (ip st)) \<le> specpdl_depth_counter (regs (ip st)) + 1"
    and "SPECBIND symbol newval (ip st) = Some (None, i)"
  shows "coro_yield reason cont (set_ip i st) = None"
proof -
  from assms(6,7) obtain i1 zs where g: "grow_specpdl 1 (ip st) = Some (None, i1)" and
      p: "stacks i = (stacks i1)(fst (specpdl_ptr (regs i1)) \<mapsto> zs)"
    by (auto simp: SPECBIND_def SPECPDL_RESERVE_def push_specpdl_def bind_Some Let_def split: option.splits if_splits prod.splits)
  then have "stacks i1 (coro_specpdl x) = None" "fst (specpdl_ptr (regs i1)) \<noteq> coro_specpdl x"
    using assms(3,4,5) by (auto simp: grow_specpdl_def realloc_specpdl_def Let_def bind_Some split: option.splits if_splits)
  with p have i: "stacks i (coro_specpdl x) = None" by simp
  show ?thesis
  proof (rule ccontr)
    assume "coro_yield reason cont (set_ip i st) \<noteq> None"
    then obtain st1 st2 st3 where s: "save_registers c reason (set_ip i st) = Some st1" "detach_handlers c st1 = Some st2"
        "swap_bindings specpdl_unwind_range c st2 = Some st3"
      using assms(1) by (auto simp: coro_yield_def bind_Some)
    have 1: "stacks (ip st1) = stacks i" "\<exists>y. coros st1 c = Some y \<and> coro_specpdl y = coro_specpdl x"
      using s(1) assms(2) by (auto simp: save_registers_def upd_coro_Some Let_def)
    then have "stacks (ip st2) = stacks i" "\<exists>y. coros st2 c = Some y \<and> coro_specpdl y = coro_specpdl x"
      using s(2) by (auto simp: detach_handlers_def upd_coro_Some split: option.splits)
    with s(3) i show False by (auto simp: swap_bindings_def swap_range_def bind_Some)
  qed
qed

section \<open>Examples\<close>

definition top_interp :: "nat interp" where
  "top_interp =
     \<lparr>regs = \<lparr>specpdl = 0, specpdl_ptr = (0, 0), specpdl_depth_counter = 0, specpdl_size = 50,
              backtrace_list = [], catchlist = [], gcprolist = []\<rparr>,
      sym_value = (\<lambda>_. Lnil), stacks = (\<lambda>b. if b = 0 then Some [] else None), next_stack = 1,
      condition_handlers = Qnil, conses = \<lparr>cells = (\<lambda>_. None), brk = 1\<rparr>,
      max_specpdl_size = 3000, realloc_moves = True\<rparr>"

definition pair_body :: "'v lval + 'v lval \<Rightarrow> 'v lval + 'v lval \<Rightarrow> 'v body" where
  "pair_body r1 r2 = Finish (case r1 of Inl e \<Rightarrow> e | Inr v1 \<Rightarrow> (case r2 of Inl e \<Rightarrow> e | Inr v2 \<Rightarrow> list2 v1 v2))"

definition two_receives :: "'v lval \<Rightarrow> 'v lval \<Rightarrow> 'v body" where
  "two_receives fn arg = Do (Actor_Receive_Internal Lnil) (\<lambda>r1. Do (Actor_Receive_Internal Lnil) (pair_body r1))"

definition delivered :: "nat lval option" where
  "delivered =
     do { (c, st) \<leftarrow> actor_spawn_internal Lnil (Lsym ''f'') Lnil (init_sched top_interp True False);
          st \<leftarrow> async_scheduler_tick two_receives st;
          st \<leftarrow> actor_send_internal c (Lint 7) st;
          st \<leftarrow> async_scheduler_tick two_receives st;
          x \<leftarrow> coros st c;
          Some (result x) }"

lemma delivered: "delivered = Some (list2 (Lint 7) (Lint 7))"
  by code_simp

text \<open>An actor that waits for a message, without and with a timeout.\<close>

definition timed_receive :: "'v lval \<Rightarrow> 'v lval \<Rightarrow> 'v body" where
  "timed_receive fn arg = Do (Actor_Receive_Internal (Lint 5)) (pair_body (Inr Lnil))"

definition waiting :: "(nat lval \<Rightarrow> nat lval \<Rightarrow> nat body) \<Rightarrow> nat sched option" where
  "waiting call1 =
     do { (c, st) \<leftarrow> actor_spawn_internal Lnil (Lsym ''f'') Lnil (init_sched top_interp True False);
          async_scheduler_tick call1 st }"

definition waits_in_receive :: "wait_reason_t \<Rightarrow> nat sched \<Rightarrow> bool" where
  "waits_in_receive reason st =
     (case coros st 0 of
        None \<Rightarrow> False
      | Some x \<Rightarrow> state x = CORO_SUSPENDED \<and> wait_reason x = reason \<and> mailbox x = [] \<and> is_actor x \<and>
          (case ctx x of In_Receive fr k \<Rightarrow> True | _ \<Rightarrow> False))"

lemma waiting_examples:
  "map_option (waits_in_receive WAIT_MAILBOX) (waiting two_receives) = Some True"
  "map_option (waits_in_receive WAIT_TIMER) (waiting timed_receive) = Some True"
  by code_simp+

lemma map_option_True: "map_option P m = Some True \<Longrightarrow> \<exists>x. m = Some x \<and> P x"
  by (cases m) auto

lemmas waiting_states = waiting_examples(1,2) [THEN map_option_True]

lemma waits_in_receiveE:
  assumes "waits_in_receive reason st"
  obtains x fr k where "coros st 0 = Some x" "state x = CORO_SUSPENDED" "wait_reason x = reason" "mailbox x = []" "is_actor x"
    "ctx x = In_Receive fr k"
  using assms by (auto simp: waits_in_receive_def split: option.splits ctx.splits)

lemma waiting_reachable:
  assumes "waiting call1 = Some st"
  shows "\<exists>st0. reachable call1 st0 \<and> async_scheduler_tick call1 st0 = Some st"
  using assms by (auto simp: waiting_def bind_Some intro: reachable.actor [OF reachable.init])

lemma scheduler_invariant_witness:
  "\<exists>st. waiting two_receives = Some st \<and> (\<exists>xs ds. idle xs ds st \<and> \<not> in_tick st)"
proof -
  obtain st where st: "waiting two_receives = Some st" using waiting_states(1) by blast
  then have "reachable two_receives st" using waiting_reachable reachable.tick by blast
  from scheduler_invariant [OF this] st show ?thesis by blast
qed






lemma tick_wakes_witness:
  "\<exists>st st1. waiting two_receives = Some st \<and> resume_yielded (all_coros st) st = Some st1"
proof -
  obtain st where st: "waiting two_receives = Some st" using waiting_states(1) by blast
  then have "reachable two_receives st" using waiting_reachable reachable.tick by blast
  from tick_wakes [OF this] st show ?thesis by blast
qed

lemma message_delivered_twice_witness:
  "\<exists>st fr k st1. waiting two_receives = Some st \<and> actor_send_internal 0 (Lint 7) st = Some st1 \<and>
     (\<forall>st2. switch_in 0 st1 = Some st2 \<longrightarrow> enter_coro two_receives 0 st2 = run_body fr (k (Inr (Lint 7))) st2 \<and>
        (\<exists>st3. perform (Actor_Receive_Internal Lnil) fr k st2 = Some (Some (Inr (Lint 7)), st3)))"
proof -
  obtain st where st: "waiting two_receives = Some st" "waits_in_receive WAIT_MAILBOX st" using waiting_states(1) by blast
  obtain x fr k where "coros st 0 = Some x" "state x = CORO_SUSPENDED" "wait_reason x = WAIT_MAILBOX" "mailbox x = []"
      "is_actor x" "ctx x = In_Receive fr k"
    using st(2) by (rule waits_in_receiveE)
  from message_delivered_twice [OF this, of "Lint 7" two_receives k] st(1) show ?thesis by blast
qed

lemma timed_receive_returns_nil_witness:
  "\<exists>st st1. waiting timed_receive = Some st \<and> actor_send_internal 0 (Lint 7) st = Some st1 \<and> wakeups st1 = wakeups st"
proof -
  obtain st where st: "waiting timed_receive = Some st" "waits_in_receive WAIT_TIMER st" using waiting_states(2) by blast
  obtain x fr k where "coros st 0 = Some x" "state x = CORO_SUSPENDED" "wait_reason x = WAIT_TIMER" "mailbox x = []"
      "is_actor x" "ctx x = In_Receive fr k"
    using st(2) by (rule waits_in_receiveE)
  from timed_receive_returns_nil [OF this(1-3,6), of "Lint 7" Lnil timed_receive] st(1) show ?thesis by blast
qed

definition example_coro :: "nat coro" where
  "example_coro = new_coro (Lsym ''f'') (Lint 1) (regs top_interp) 1"

text \<open>An actor that waits with a timeout and then returns 1, and a coroutine that joins it, when the deadline has passed.\<close>

definition timed_join :: "'v lval \<Rightarrow> 'v lval \<Rightarrow> 'v body" where
  "timed_join fn arg =
     (case fn of
        Lsym s \<Rightarrow> Do (Actor_Join_Internal arg) (pair_body (Inr Lnil))
      | _ \<Rightarrow> Do (Actor_Receive_Internal (Lint 5)) (\<lambda>r. Finish (Lint 1)))"

definition overdue :: "nat sched option" where
  "overdue =
     do { (c, st) \<leftarrow> actor_spawn_internal Lnil (Lint 0) Lnil (init_sched top_interp True False);
          (j, st) \<leftarrow> coro_spawn (Lsym ''f'') (Lopaque c) st;
          st \<leftarrow> async_scheduler_tick timed_join st;
          Some (st\<lparr>now := 10000\<rparr>) }"

definition overdue_ok :: "nat sched \<Rightarrow> bool" where
  "overdue_ok st \<longleftrightarrow>
     (case coros st 0 of
        None \<Rightarrow> False
      | Some x \<Rightarrow> state x = CORO_SUSPENDED \<and> wait_reason x = WAIT_TIMER \<and> wait_deadline x \<le> now st \<and> join_waiter x = Some 1 \<and>
          (case ctx x of In_Receive fr k \<Rightarrow> (case k (Inr Lnil) of Finish v \<Rightarrow> v = Lint 1 | _ \<Rightarrow> False) | _ \<Rightarrow> False)) \<and>
     (case do { st1 \<leftarrow> resume_yielded (all_coros st) st; st2 \<leftarrow> resume_timers (all_coros st1) st1; run_slice timed_join 0 st2 } of
        None \<Rightarrow> False | Some st3 \<Rightarrow> True)"

lemma overdue_ok: "map_option overdue_ok overdue = Some True"
  by code_simp

lemma stale_error_exit_witness:
  "\<exists>st st1 st2 st3 y. overdue = Some st \<and> resume_yielded (all_coros st) st = Some st1 \<and> resume_timers (all_coros st1) st1 = Some st2 \<and>
     run_slice timed_join 0 st2 = Some st3 \<and> coros st3 1 = Some y \<and> result y = Lnil \<and>
     error y = list2 (Lsym ''async-timeout'') (Lstr ''timeout'')"
proof -
  obtain st where st: "overdue = Some st" "overdue_ok st" using overdue_ok by (auto simp: map_option_True)
  have r: "reachable timed_join st"
    using st(1) by (auto simp: overdue_def bind_Some intro!: reachable.time
        elim: reachable.tick [OF reachable.spawn [OF reachable.actor [OF reachable.init]]])
  from st(2) obtain x fr k st1 st2 st3 where
    x: "coros st 0 = Some x" "state x = CORO_SUSPENDED" "wait_reason x = WAIT_TIMER" "wait_deadline x \<le> now st"
      "ctx x = In_Receive fr k" "join_waiter x = Some 1" "k (Inr Lnil) = Finish (Lint 1)" and
    s: "resume_yielded (all_coros st) st = Some st1" "resume_timers (all_coros st1) st1 = Some st2" "run_slice timed_join 0 st2 = Some st3"
    by (auto simp: overdue_ok_def bind_Some split: option.splits ctx.splits body.splits)
  from stale_error_exit [OF r x] s st(1) show ?thesis by force
qed

definition example_joining :: "nat sched" where
  "example_joining = (init_sched top_interp True False)\<lparr>
     coros := (\<lambda>c. if c = 0 then Some (example_coro\<lparr>state := CORO_RUNNING\<rparr>)
       else if c = 1 then Some (example_coro\<lparr>state := CORO_DEAD, ctx := At_Exit, stack_live := False,
         result := Lcons (Lsym ''f'') (Lint 1), error := Lsym ''some-error''\<rparr>) else None),
     ip := top_interp\<lparr>stacks := (\<lambda>b. if b \<le> 1 then Some [] else None), next_stack := 2\<rparr>,
     fresh_coro := 2, all_coros := Some 0, dead_coros := Some 1, coro_count := 1, current_coro := Some 0\<rparr>"

lemma example_joining_running: "running 0 [0] [1] example_joining"
  by (auto simp: running_def sched_ok_def table_ok_def coro_ok_def joins_ok_def example_joining_def example_coro_def
      new_coro_def cores_def core_def init_sched_def Let_def split: if_splits)

definition example_frame :: "nat cc_frame" where
  "example_frame = \<lparr>speccount = 0, cc_tag = Qnil, cc_next = [], cc_backlist = [], cc_gcpro = []\<rparr>"

lemma join_dead_coroutine_witness:
  "\<exists>st'. Factor_join_internal (Lopaque 1) example_frame (pair_body (Inr Lnil)) example_joining =
       Some (Some (Inr (Lcons (Lsym ''f'') (Lint 1))), st') \<and> coros st' 1 = None"
proof -
  have "stacks (ip example_joining) (coro_specpdl (the (coros example_joining 1))) \<noteq> None"
    by (simp add: example_joining_def example_coro_def new_coro_def Let_def)
  from join_dead_coroutine [OF example_joining_running _ _ this, of 1 example_frame "pair_body (Inr Lnil)"] show ?thesis
    by (auto simp: example_joining_def)
qed

text \<open>A coroutine whose binding stack is full: there is one entry in a block for one.\<close>

definition example_full :: "nat sched" where
  "example_full = (init_sched (top_interp\<lparr>regs := (regs top_interp)\<lparr>specpdl_ptr := (0, 1), specpdl_depth_counter := 1, specpdl_size := 1\<rparr>,
       stacks := (\<lambda>b. if b = 0 then Some [\<lparr>sb_symbol = 2, sb_old_value = Lnil, sb_func = False\<rparr>] else None)\<rparr>) True False)\<lparr>
     coros := (\<lambda>c. if c = 0 then Some (example_coro\<lparr>coro_specpdl := 0\<rparr>) else None), current_coro := Some 0\<rparr>"

lemma grown_stack_dangles_witness:
  "\<exists>i. SPECBIND 3 (Lint 4) (ip example_full) = Some (None, i) \<and>
     coro_yield WAIT_NONE (In_Yield example_frame (pair_body (Inr Lnil))) (set_ip i example_full) = None"
proof -
  have "map_option fst (SPECBIND 3 (Lint 4) (ip example_full)) = Some None" by code_simp
  then obtain i where i: "SPECBIND 3 (Lint 4) (ip example_full) = Some (None, i)" by auto
  have "current_coro example_full = Some 0" "coros example_full 0 = Some (example_coro\<lparr>coro_specpdl := 0\<rparr>)"
    "specpdl (regs (ip example_full)) = coro_specpdl (example_coro\<lparr>coro_specpdl := 0\<rparr>)"
    "coro_specpdl (example_coro\<lparr>coro_specpdl := 0\<rparr>) \<noteq> next_stack (ip example_full)" "realloc_moves (ip example_full)"
    "specpdl_size (regs (ip example_full)) \<le> specpdl_depth_counter (regs (ip example_full)) + 1"
    by (simp_all add: example_full_def init_sched_def top_interp_def)
  from grown_stack_dangles [OF this i] i show ?thesis by blast
qed

end
