(* ===== verification/Mule_Text.thy ===== *)
theory Mule_Text
  imports Prelude
begin

text \<open>
  The internal text format (\<open>src/text.h\<close>, \<open>src/text.c\<close>), in the default configuration
  without \<open>UNICODE_INTERNAL\<close>: a character is a first byte below \<open>0xA0\<close>, whose value
  gives the length, and bytes from \<open>0xA0\<close> up.  An \<open>Ichar\<close> is represented by its
  internal text, a list of bytes; a text is the concatenation of its characters.  A pointer is an
  index of a block of cells; a read outside the block or of a byte never stored is \<open>None\<close>.
\<close>

type_synonym byte = "8 word"
type_synonym ichar = "byte list"

unbundle bit_operations_syntax

section \<open>Bytes and characters\<close>

definition byte_ascii_p :: "byte \<Rightarrow> bool" where
  "byte_ascii_p b \<longleftrightarrow> b AND NOT 0x7f = 0"

definition ibyte_first_byte_p :: "byte \<Rightarrow> bool" where
  "ibyte_first_byte_p b \<longleftrightarrow> b < 0xA0"

text \<open>The table \<open>rep_bytes_by_first_byte\<close>; \<open>None\<close> is a subscript outside it.\<close>

definition rep_bytes_by_first_byte :: "byte \<Rightarrow> nat option" where
  "rep_bytes_by_first_byte b =
     (if b < 0x80 then Some 1 else if b < 0x8e then Some 2 else if b < 0x9f then Some 3
      else if b < 0xA0 then Some 4 else None)"

definition mem_read :: "'a cells \<Rightarrow> nat \<Rightarrow> 'a option" where
  "mem_read mem p = (if p < length mem then mem ! p else None)"

definition INC_IBYTEPTR :: "byte cells \<Rightarrow> nat \<Rightarrow> nat option" where
  "INC_IBYTEPTR mem p = do { b \<leftarrow> mem_read mem p; n \<leftarrow> rep_bytes_by_first_byte b; Some (p + n) }"

text \<open>\<open>DEC_IBYTEPTR\<close>; a pointer that would leave the block at its start is \<open>None\<close>.\<close>

fun DEC_IBYTEPTR :: "byte cells \<Rightarrow> nat \<Rightarrow> nat option" where
  "DEC_IBYTEPTR mem 0 = None"
| "DEC_IBYTEPTR mem (Suc p) =
     do { b \<leftarrow> mem_read mem p; if ibyte_first_byte_p b then Some p else DEC_IBYTEPTR mem p }"

section \<open>Skipping ASCII\<close>

text \<open>
  The stride is the 64-bit one.  The first argument of the functions that test the alignment is
  the address of the block, of which only the residue modulo 8 matters.
\<close>

definition HIGH_BIT_MASK :: "64 word" where
  "HIGH_BIT_MASK = 0x8080808080808080"

definition STRIDE_ALIGNED :: "nat \<Rightarrow> nat \<Rightarrow> bool" where
  "STRIDE_ALIGNED base p \<longleftrightarrow> (base + p) mod 8 = 0"

text \<open>The load of a stride, the first byte lowest.\<close>

definition load_bytes :: "byte list \<Rightarrow> 64 word" where
  "load_bytes bs = foldr (\<lambda>b w. push_bit 8 w OR ucast b) bs 0"

definition stride_read :: "byte cells \<Rightarrow> nat \<Rightarrow> 64 word option" where
  "stride_read mem p = map_option load_bytes (those (map (mem_read mem) [p..<p + 8]))"

text \<open>The section before the alignment; \<open>True\<close> says that the function returns at once.\<close>

partial_function (option) skip_ascii_unaligned ::
    "nat \<Rightarrow> byte cells \<Rightarrow> nat \<Rightarrow> nat \<Rightarrow> (bool \<times> nat) option" where
  "skip_ascii_unaligned base mem ptr lim =
     (if STRIDE_ALIGNED base ptr then Some (False, ptr)
      else if ptr = lim then Some (True, ptr)
      else do {
        b \<leftarrow> mem_read mem ptr;
        if \<not> byte_ascii_p b then Some (True, ptr)
        else skip_ascii_unaligned base mem (ptr + 1) lim
      })"

partial_function (option) skip_ascii_strides :: "byte cells \<Rightarrow> nat \<Rightarrow> nat \<Rightarrow> nat option" where
  "skip_ascii_strides mem ascii_end lim =
     (if ascii_end + 8 \<le> lim then do {
        w \<leftarrow> stride_read mem ascii_end;
        if w AND HIGH_BIT_MASK = 0 then skip_ascii_strides mem (ascii_end + 8) lim
        else Some ascii_end
      } else Some ascii_end)"

partial_function (option) skip_ascii_tail :: "byte cells \<Rightarrow> nat \<Rightarrow> nat \<Rightarrow> nat option" where
  "skip_ascii_tail mem ptr lim =
     (if ptr < lim then do {
        b \<leftarrow> mem_read mem ptr;
        if byte_ascii_p b then skip_ascii_tail mem (ptr + 1) lim else Some ptr
      } else Some ptr)"

definition skip_ascii :: "nat \<Rightarrow> byte cells \<Rightarrow> nat \<Rightarrow> nat \<Rightarrow> nat option" where
  "skip_ascii base mem ptr lim = do {
     (ret, ptr) \<leftarrow> skip_ascii_unaligned base mem ptr lim;
     if ret then Some ptr
     else do { ptr \<leftarrow> skip_ascii_strides mem ptr lim; skip_ascii_tail mem ptr lim } }"

partial_function (option) skip_ascii_down_unaligned ::
    "nat \<Rightarrow> byte cells \<Rightarrow> nat \<Rightarrow> nat \<Rightarrow> (bool \<times> nat) option" where
  "skip_ascii_down_unaligned base mem ptr lim =
     (if STRIDE_ALIGNED base ptr then Some (False, ptr)
      else if ptr = lim then Some (True, ptr)
      else if ptr = 0 then None
      else do {
        b \<leftarrow> mem_read mem (ptr - 1);
        if \<not> byte_ascii_p b then Some (True, ptr)
        else skip_ascii_down_unaligned base mem (ptr - 1) lim
      })"

text \<open>The argument is \<open>ascii_end + 1\<close> of the source, the pointer above the stride to be read.\<close>

partial_function (option) skip_ascii_down_strides :: "byte cells \<Rightarrow> nat \<Rightarrow> nat \<Rightarrow> nat option" where
  "skip_ascii_down_strides mem ptr lim =
     (if lim + 8 \<le> ptr then do {
        w \<leftarrow> stride_read mem (ptr - 8);
        if w AND HIGH_BIT_MASK = 0 then skip_ascii_down_strides mem (ptr - 8) lim
        else Some ptr
      } else Some ptr)"

partial_function (option) skip_ascii_down_tail :: "byte cells \<Rightarrow> nat \<Rightarrow> nat \<Rightarrow> nat option" where
  "skip_ascii_down_tail mem ptr lim =
     (if lim < ptr then do {
        b \<leftarrow> mem_read mem (ptr - 1);
        if byte_ascii_p b then skip_ascii_down_tail mem (ptr - 1) lim else Some ptr
      } else Some ptr)"

definition skip_ascii_down :: "nat \<Rightarrow> byte cells \<Rightarrow> nat \<Rightarrow> nat \<Rightarrow> nat option" where
  "skip_ascii_down base mem ptr lim = do {
     (ret, ptr) \<leftarrow> skip_ascii_down_unaligned base mem ptr lim;
     if ret then Some ptr
     else do { ptr \<leftarrow> skip_ascii_down_strides mem ptr lim; skip_ascii_down_tail mem ptr lim } }"

section \<open>Counting characters and bytes\<close>

text \<open>The inner loop over successive characters with the same lead byte.\<close>

partial_function (option) same_lead_loop ::
    "byte cells \<Rightarrow> byte \<Rightarrow> nat \<Rightarrow> nat \<Rightarrow> nat \<Rightarrow> nat \<Rightarrow> (nat \<times> nat) option" where
  "same_lead_loop mem lead bytes ptr lim cnt =
     (if ptr < lim then do {
        b \<leftarrow> mem_read mem ptr;
        if b = lead then same_lead_loop mem lead bytes (ptr + bytes) lim (cnt + 1)
        else Some (ptr, cnt)
      } else Some (ptr, cnt))"

partial_function (option) bytecount_to_charcount_loop ::
    "nat \<Rightarrow> byte cells \<Rightarrow> nat \<Rightarrow> nat \<Rightarrow> nat \<Rightarrow> nat option" where
  "bytecount_to_charcount_loop base mem ptr lim cnt = do {
     newptr \<leftarrow> skip_ascii base mem ptr lim;
     let cnt = cnt + (newptr - ptr);
     if newptr = lim then Some cnt
     else do {
       lead_byte \<leftarrow> mem_read mem newptr;
       bytes \<leftarrow> rep_bytes_by_first_byte lead_byte;
       (ptr, cnt) \<leftarrow> same_lead_loop mem lead_byte bytes newptr lim cnt;
       bytecount_to_charcount_loop base mem ptr lim cnt
     } }"

definition bytecount_to_charcount_fun :: "nat \<Rightarrow> byte cells \<Rightarrow> nat \<Rightarrow> nat \<Rightarrow> nat option" where
  "bytecount_to_charcount_fun base mem ptr len = bytecount_to_charcount_loop base mem ptr (ptr + len) 0"

partial_function (option) bytecount_short_loop :: "byte cells \<Rightarrow> nat \<Rightarrow> nat \<Rightarrow> nat \<Rightarrow> nat option" where
  "bytecount_short_loop mem ptr lim cnt =
     (if ptr < lim then do { ptr \<leftarrow> INC_IBYTEPTR mem ptr; bytecount_short_loop mem ptr lim (cnt + 1) }
      else Some cnt)"

definition bytecount_to_charcount :: "nat \<Rightarrow> byte cells \<Rightarrow> nat \<Rightarrow> nat \<Rightarrow> nat option" where
  "bytecount_to_charcount base mem ptr len =
     (if len < 20 then bytecount_short_loop mem ptr (ptr + len) 0
      else bytecount_to_charcount_fun base mem ptr len)"

partial_function (option) same_lead_chars ::
    "byte cells \<Rightarrow> byte \<Rightarrow> nat \<Rightarrow> nat \<Rightarrow> nat \<Rightarrow> (nat \<times> nat) option" where
  "same_lead_chars mem lead bytes newptr len =
     (if len > 0 then do {
        b \<leftarrow> mem_read mem newptr;
        if b = lead then same_lead_chars mem lead bytes (newptr + bytes) (len - 1)
        else Some (newptr, len)
      } else Some (newptr, len))"

partial_function (option) charcount_to_bytecount_loop ::
    "nat \<Rightarrow> byte cells \<Rightarrow> nat \<Rightarrow> nat \<Rightarrow> nat option" where
  "charcount_to_bytecount_loop base mem newptr len = do {
     newnewptr \<leftarrow> skip_ascii base mem newptr (newptr + len);
     let len = len - (newnewptr - newptr);
     if len = 0 then Some newnewptr
     else do {
       lead_byte \<leftarrow> mem_read mem newnewptr;
       bytes \<leftarrow> rep_bytes_by_first_byte lead_byte;
       (newptr, len) \<leftarrow> same_lead_chars mem lead_byte bytes newnewptr len;
       charcount_to_bytecount_loop base mem newptr len
     } }"

definition charcount_to_bytecount_fun :: "nat \<Rightarrow> byte cells \<Rightarrow> nat \<Rightarrow> nat \<Rightarrow> nat option" where
  "charcount_to_bytecount_fun base mem ptr len =
     map_option (\<lambda>newptr. newptr - ptr) (charcount_to_bytecount_loop base mem ptr len)"

fun charcount_short_loop :: "byte cells \<Rightarrow> nat \<Rightarrow> nat \<Rightarrow> nat option" where
  "charcount_short_loop mem newptr 0 = Some newptr"
| "charcount_short_loop mem newptr (Suc len) =
     do { newptr \<leftarrow> INC_IBYTEPTR mem newptr; charcount_short_loop mem newptr len }"

definition charcount_to_bytecount :: "nat \<Rightarrow> byte cells \<Rightarrow> nat \<Rightarrow> nat \<Rightarrow> nat option" where
  "charcount_to_bytecount base mem ptr len =
     (if len < 20 then map_option (\<lambda>newptr. newptr - ptr) (charcount_short_loop mem ptr len)
      else charcount_to_bytecount_fun base mem ptr len)"

text \<open>The loop that walks down over non-ASCII characters; \<open>None\<close> when it leaves the block.\<close>

fun nonascii_down_loop :: "byte cells \<Rightarrow> nat \<Rightarrow> nat \<Rightarrow> (nat \<times> nat) option" where
  "nonascii_down_loop mem newptr 0 = Some (newptr, 0)"
| "nonascii_down_loop mem 0 (Suc len) = None"
| "nonascii_down_loop mem (Suc p) (Suc len) =
     do { b \<leftarrow> mem_read mem p;
          if byte_ascii_p b then Some (Suc p, Suc len)
          else nonascii_down_loop mem p (if ibyte_first_byte_p b then len else Suc len) }"

partial_function (option) charcount_to_bytecount_down_loop ::
    "nat \<Rightarrow> byte cells \<Rightarrow> nat \<Rightarrow> nat \<Rightarrow> nat option" where
  "charcount_to_bytecount_down_loop base mem newptr len = do {
     newnewptr \<leftarrow> skip_ascii_down base mem newptr (newptr - len);
     let len = len - (newptr - newnewptr);
     (newptr, len) \<leftarrow> nonascii_down_loop mem newnewptr len;
     if len = 0 then Some newptr else charcount_to_bytecount_down_loop base mem newptr len }"

definition charcount_to_bytecount_down_fun :: "nat \<Rightarrow> byte cells \<Rightarrow> nat \<Rightarrow> nat \<Rightarrow> nat option" where
  "charcount_to_bytecount_down_fun base mem ptr len =
     map_option (\<lambda>newptr. ptr - newptr) (charcount_to_bytecount_down_loop base mem ptr len)"

fun charcount_down_short_loop :: "byte cells \<Rightarrow> nat \<Rightarrow> nat \<Rightarrow> nat option" where
  "charcount_down_short_loop mem newptr 0 = Some newptr"
| "charcount_down_short_loop mem newptr (Suc len) =
     do { newptr \<leftarrow> DEC_IBYTEPTR mem newptr; charcount_down_short_loop mem newptr len }"

definition charcount_to_bytecount_down :: "nat \<Rightarrow> byte cells \<Rightarrow> nat \<Rightarrow> nat \<Rightarrow> nat option" where
  "charcount_to_bytecount_down base mem ptr len =
     (if len < 20 then map_option (\<lambda>newptr. ptr - newptr) (charcount_down_short_loop mem ptr len)
      else charcount_to_bytecount_down_fun base mem ptr len)"

declare skip_ascii_unaligned.simps [code] skip_ascii_strides.simps [code] skip_ascii_tail.simps [code]
  skip_ascii_down_unaligned.simps [code] skip_ascii_down_strides.simps [code]
  skip_ascii_down_tail.simps [code] same_lead_loop.simps [code] bytecount_to_charcount_loop.simps [code]
  bytecount_short_loop.simps [code] same_lead_chars.simps [code] charcount_to_bytecount_loop.simps [code]
  charcount_to_bytecount_down_loop.simps [code]

section \<open>Reading text\<close>

text \<open>\<open>holds mem p xs\<close>: the block has \<open>xs\<close> from the index \<open>p\<close> on.\<close>

definition holds :: "'a cells \<Rightarrow> nat \<Rightarrow> 'a list \<Rightarrow> bool" where
  "holds mem p xs \<longleftrightarrow> (\<forall>i<length xs. mem_read mem (p + i) = Some (xs ! i))"

lemma holds_Nil [simp]: "holds mem p []"
  by (simp add: holds_def)

lemma holds_Cons: "holds mem p (x # xs) \<longleftrightarrow> mem_read mem p = Some x \<and> holds mem (Suc p) xs"
  unfolding holds_def by (simp add: All_less_Suc2)

lemma holds_append: "holds mem p (xs @ ys) \<longleftrightarrow> holds mem p xs \<and> holds mem (p + length xs) ys"
  by (induction xs arbitrary: p) (auto simp: holds_Cons)

lemma byte_high_bit: "b < 0x80 \<longleftrightarrow> \<not> bit b 7" for b :: byte
proof -
  have "unat b < 256" using unsigned_less [of b] by simp
  have "bit b 7 \<longleftrightarrow> odd (unat b div 128)"
    using bit_unsigned_iff [where 'a = nat, of b 7] by (simp add: bit_iff_odd)
  also have "\<dots> \<longleftrightarrow> 128 \<le> unat b"
  proof -
    have "unat b div 128 < 2" using \<open>unat b < 256\<close> by simp
    then have "unat b div 128 = 0 \<or> unat b div 128 = 1" by linarith
    then show ?thesis by (auto simp: div_eq_0_iff)
  qed
  finally have "bit b 7 \<longleftrightarrow> 128 \<le> unat b" .
  then show ?thesis by (auto simp: word_less_nat_alt)
qed

lemma byte_ascii_less: "byte_ascii_p b \<longleftrightarrow> b < 0x80"
proof -
  have "NOT 0x7f = (2 ^ 7 :: byte)" by code_simp
  then have "b AND NOT 0x7f = b AND 2 ^ 7" by (rule arg_cong)
  then show ?thesis
    unfolding byte_ascii_p_def byte_high_bit using and_exp_eq_0_iff_not_bit [of b 7] by argo
qed

lemma bit_load_bytes:
  "bit (load_bytes bs) n \<longleftrightarrow> n < 64 \<and> n div 8 < length bs \<and> bit (bs ! (n div 8)) (n mod 8)"
proof (induction bs arbitrary: n)
  case (Cons b bs)
  show ?case
  proof (cases "n < 8")
    case True
    then show ?thesis by (auto simp: load_bytes_def bit_simps)
  next
    case False
    then have d: "n div 8 = Suc ((n - 8) div 8)" "n mod 8 = (n - 8) mod 8"
      using False by (simp_all add: le_div_geq le_mod_geq)
    have "bit (load_bytes (b # bs)) n \<longleftrightarrow> n < 64 \<and> bit (load_bytes bs) (n - 8)"
      using False bit_imp_le_length [of b n] by (auto simp: load_bytes_def bit_simps)
    with Cons.IH [of "n - 8"] d show ?thesis by auto
  qed
qed (simp add: load_bytes_def)

lemma stride_ascii:
  assumes "load_bytes bs AND HIGH_BIT_MASK = 0" "length bs = 8" "b \<in> set bs"
  shows "byte_ascii_p b"
proof -
  obtain k where k: "k < 8" "b = bs ! k" using assms(2,3) by (auto simp: in_set_conv_nth)
  let ?hs = "[0x80, 0x80, 0x80, 0x80, 0x80, 0x80, 0x80, 0x80] :: byte list"
  have m: "HIGH_BIT_MASK = load_bytes ?hs" by (simp add: HIGH_BIT_MASK_def load_bytes_def)
  have "?hs ! k \<in> set ?hs" using k(1) by (intro nth_mem) simp
  then have "?hs ! k = 0x80" by simp
  with k have "bit HIGH_BIT_MASK (8 * k + 7)" unfolding m bit_load_bytes by simp
  moreover have "\<not> bit (load_bytes bs AND HIGH_BIT_MASK) (8 * k + 7)" using assms(1) by simp
  ultimately have "\<not> bit (load_bytes bs) (8 * k + 7)" by (simp add: bit_and_iff)
  with k assms(2) have "\<not> bit b 7" by (simp add: bit_load_bytes)
  then show ?thesis by (simp add: byte_ascii_less byte_high_bit)
qed

lemma stride_read_holds:
  assumes "holds mem p bs" "8 \<le> length bs"
  shows "stride_read mem p = Some (load_bytes (take 8 bs))"
proof -
  have "map (mem_read mem) [p..<p + 8] = map Some (take 8 bs)"
    using assms by (intro nth_equalityI) (auto simp: holds_def)
  moreover have "those (map Some xs) = Some xs" for xs :: "byte list"
    by (induction xs) auto
  ultimately show ?thesis by (simp add: stride_read_def)
qed

abbreviation ascii_prefix :: "byte list \<Rightarrow> nat" where
  "ascii_prefix bs \<equiv> length (takeWhile byte_ascii_p bs)"

lemma holds_drop: "holds mem p xs \<Longrightarrow> n \<le> length xs \<Longrightarrow> holds mem (p + n) (drop n xs)"
  by (metis append_take_drop_id holds_append length_take min.absorb2)

lemma skip_ascii_unaligned_prefix:
  assumes "holds mem p bs"
  shows "\<exists>r k. skip_ascii_unaligned base mem p (p + length bs) = Some (r, p + k) \<and>
    k \<le> ascii_prefix bs \<and> (r \<longrightarrow> k = ascii_prefix bs)"
  using assms
proof (induction bs arbitrary: p)
  case Nil
  then show ?case by (subst skip_ascii_unaligned.simps) auto
next
  case (Cons b bs)
  then have "holds mem (Suc p) bs" by (simp add: holds_Cons)
  from Cons.IH [OF this]
  obtain r k where "skip_ascii_unaligned base mem (Suc p) (Suc p + length bs) = Some (r, Suc p + k)"
      "k \<le> ascii_prefix bs" "r \<longrightarrow> k = ascii_prefix bs" by blast
  moreover have "mem_read mem p = Some b" using Cons.prems by (simp add: holds_Cons)
  ultimately show ?case
    by (cases "STRIDE_ALIGNED base p"; cases "byte_ascii_p b"; subst skip_ascii_unaligned.simps)
       (auto intro: exI [of _ "Suc k"])
qed

lemma takeWhile_skip: "\<forall>b\<in>set (take n bs). P b \<Longrightarrow> n \<le> length bs \<Longrightarrow>
    length (takeWhile P bs) = n + length (takeWhile P (drop n bs))"
  by (metis append_take_drop_id length_append length_take min.absorb2 takeWhile_append2)

lemma skip_ascii_strides_prefix:
  assumes "holds mem p bs"
  shows "\<exists>k. skip_ascii_strides mem p (p + length bs) = Some (p + k) \<and> k \<le> ascii_prefix bs"
  using assms
proof (induction bs arbitrary: p rule: length_induct)
  case (1 bs)
  show ?case
  proof (cases "8 \<le> length bs \<and> load_bytes (take 8 bs) AND HIGH_BIT_MASK = 0")
    case True
    then have a: "ascii_prefix bs = 8 + ascii_prefix (drop 8 bs)"
      using stride_ascii [of "take 8 bs"] by (intro takeWhile_skip) auto
    have "length (drop 8 bs) < length bs" "holds mem (p + 8) (drop 8 bs)"
      using True holds_drop [OF 1(2)] by auto
    then obtain k where "skip_ascii_strides mem (p + 8) (p + 8 + length (drop 8 bs)) = Some (p + 8 + k)"
        "k \<le> ascii_prefix (drop 8 bs)" using 1(1) by blast
    then show ?thesis using True a stride_read_holds [OF 1(2)]
      by (subst skip_ascii_strides.simps) (auto intro: exI [of _ "8 + k"] simp: add.assoc)
  next
    case False
    then show ?thesis using stride_read_holds [OF 1(2)]
      by (subst skip_ascii_strides.simps) auto
  qed
qed

lemma skip_ascii_tail_prefix:
  "holds mem p bs \<Longrightarrow> skip_ascii_tail mem p (p + length bs) = Some (p + ascii_prefix bs)"
proof (induction bs arbitrary: p)
  case Nil
  then show ?case by (subst skip_ascii_tail.simps) simp
next
  case (Cons b bs)
  then show ?case using Cons.IH [of "Suc p"] by (subst skip_ascii_tail.simps) (auto simp: holds_Cons)
qed

lemma take_takeWhile: "k \<le> length (takeWhile P xs) \<Longrightarrow> take k xs = take k (takeWhile P xs)"
  by (induction xs arbitrary: k) (auto simp: take_Cons split: nat.splits if_splits)

lemma skip_ascii_prefix:
  assumes h: "holds mem p bs"
  shows "skip_ascii base mem p (p + length bs) = Some (p + ascii_prefix bs)"
proof -
  have rest: "holds mem (p + k) (drop k bs) \<and> p + length bs = (p + k) + length (drop k bs) \<and>
      ascii_prefix bs = k + ascii_prefix (drop k bs)" if "k \<le> ascii_prefix bs" for k
  proof -
    have kl: "k \<le> length bs" using that length_takeWhile_le le_trans by blast
    moreover have "\<forall>b\<in>set (take k bs). byte_ascii_p b"
      using take_takeWhile [OF that] by (metis in_set_takeD set_takeWhileD)
    ultimately show ?thesis using holds_drop [OF h kl] takeWhile_skip by force
  qed
  obtain r k where k: "skip_ascii_unaligned base mem p (p + length bs) = Some (r, p + k)"
      "k \<le> ascii_prefix bs" "r \<longrightarrow> k = ascii_prefix bs"
    using skip_ascii_unaligned_prefix [OF h] by blast
  show ?thesis
  proof (cases r)
    case True
    with k show ?thesis by (simp add: skip_ascii_def)
  next
    case False
    note rk = rest [OF k(2)]
    obtain j where j: "skip_ascii_strides mem (p + k) (p + length bs) = Some (p + k + j)"
        "j \<le> ascii_prefix (drop k bs)"
      using skip_ascii_strides_prefix [of mem "p + k" "drop k bs"] rk by metis
    have "k + j \<le> ascii_prefix bs" using j(2) rk by linarith
    from rest [OF this] have "skip_ascii_tail mem (p + k + j) (p + length bs) = Some (p + ascii_prefix bs)"
      using skip_ascii_tail_prefix [of mem "p + (k + j)" "drop (k + j) bs"] by (metis add.assoc)
    with k(1) j(1) False show ?thesis by (simp add: skip_ascii_def)
  qed
qed


section \<open>Characters of a text\<close>

definition ichar_ok :: "ichar \<Rightarrow> bool" where
  "ichar_ok c \<longleftrightarrow> (case c of [] \<Rightarrow> False
     | b # bs \<Rightarrow> rep_bytes_by_first_byte b = Some (length c) \<and> (\<forall>x\<in>set bs. \<not> ibyte_first_byte_p x))"

abbreviation chars_ok :: "ichar list \<Rightarrow> bool" where
  "chars_ok C \<equiv> (\<forall>c\<in>set C. ichar_ok c)"

lemma rep_bytes_facts:
  "rep_bytes_by_first_byte b = Some n \<Longrightarrow> ibyte_first_byte_p b \<and> 0 < n \<and> n \<le> 4 \<and> (byte_ascii_p b \<longleftrightarrow> n = 1)"
  unfolding rep_bytes_by_first_byte_def byte_ascii_less ibyte_first_byte_p_def
  by (auto split: if_splits simp: word_less_nat_alt)

lemma rep_bytes_first: "ibyte_first_byte_p b \<Longrightarrow> \<exists>n. rep_bytes_by_first_byte b = Some n"
  by (auto simp: rep_bytes_by_first_byte_def ibyte_first_byte_p_def)

lemma ascii_first: "byte_ascii_p b \<Longrightarrow> ibyte_first_byte_p b"
  by (simp add: byte_ascii_less ibyte_first_byte_p_def word_less_nat_alt)

lemma ichar_okE:
  assumes "ichar_ok c"
  obtains b bs where "c = b # bs" "rep_bytes_by_first_byte b = Some (Suc (length bs))"
    "ibyte_first_byte_p b" "\<forall>x\<in>set bs. \<not> ibyte_first_byte_p x" "byte_ascii_p b \<longleftrightarrow> bs = []"
  using assms rep_bytes_facts by (cases c) (fastforce simp: ichar_ok_def)+

lemma ichar_ok_nonempty: "ichar_ok c \<Longrightarrow> c \<noteq> []"
  by (auto elim: ichar_okE)

abbreviation ichar_ascii_p :: "ichar \<Rightarrow> bool" where
  "ichar_ascii_p c \<equiv> length c = 1"

lemma concat_length: "chars_ok C \<Longrightarrow> length C \<le> length (concat C)"
proof (induction C)
  case (Cons c C)
  then show ?case using ichar_ok_nonempty [of c] by (cases c) auto
qed simp

lemma concat_Nil_iff: "chars_ok C \<Longrightarrow> concat C = [] \<longleftrightarrow> C = []"
  using ichar_ok_nonempty by (cases C) auto

lemma ascii_prefix_concat:
  "chars_ok C \<Longrightarrow> ascii_prefix (concat C) = length (takeWhile ichar_ascii_p C)"
proof (induction C)
  case (Cons c C)
  from Cons.prems obtain b bs where "c = b # bs" "byte_ascii_p b \<longleftrightarrow> bs = []" by (auto elim: ichar_okE)
  with Cons show ?case by auto
qed simp

lemma concat_ascii: "\<forall>c\<in>set C. ichar_ascii_p c \<Longrightarrow> length (concat C) = length C"
  by (induction C) auto

text \<open>A text begins with a run of ASCII characters.\<close>

lemma ascii_split:
  assumes "chars_ok C"
  obtains A D where "C = A @ D" "length A = ascii_prefix (concat C)" "length (concat A) = length A"
    "D = [] \<or> \<not> ichar_ascii_p (hd D)" "chars_ok D"
proof
  let ?A = "takeWhile ichar_ascii_p C" and ?D = "dropWhile ichar_ascii_p C"
  show "C = ?A @ ?D" by simp
  show "length ?A = ascii_prefix (concat C)" using ascii_prefix_concat assms by simp
  show "length (concat ?A) = length ?A" by (rule concat_ascii) (auto dest: set_takeWhileD)
  show "?D = [] \<or> \<not> ichar_ascii_p (hd ?D)" using hd_dropWhile by blast
  show "chars_ok ?D" using assms set_dropWhileD by fastforce
qed

lemma INC_IBYTEPTR_char:
  "holds mem p (c @ xs) \<Longrightarrow> ichar_ok c \<Longrightarrow> INC_IBYTEPTR mem p = Some (p + length c)"
  by (erule ichar_okE) (auto simp: INC_IBYTEPTR_def holds_Cons)

lemma bytecount_short_loop_correct:
  "holds mem p (concat C) \<Longrightarrow> chars_ok C \<Longrightarrow>
   bytecount_short_loop mem p (p + length (concat C)) n = Some (n + length C)"
proof (induction C arbitrary: p n)
  case Nil
  then show ?case by (subst bytecount_short_loop.simps) simp
next
  case (Cons c C)
  then have "INC_IBYTEPTR mem p = Some (p + length c)" "c \<noteq> []"
    by (auto intro: INC_IBYTEPTR_char dest: ichar_ok_nonempty)
  moreover have "bytecount_short_loop mem (p + length c) (p + length c + length (concat C)) (n + 1) =
      Some (n + 1 + length C)"
    using Cons.prems by (intro Cons.IH) (auto simp: holds_append)
  ultimately show ?case by (subst bytecount_short_loop.simps) (simp add: add.assoc)
qed

lemma same_lead_loop_correct:
  assumes "holds mem p (concat C)" "chars_ok C" "rep_bytes_by_first_byte lead = Some bytes"
  shows "\<exists>A D. C = A @ D \<and> (C \<noteq> [] \<and> hd (hd C) = lead \<longrightarrow> A \<noteq> []) \<and>
    same_lead_loop mem lead bytes p (p + length (concat C)) n =
      Some (p + length (concat A), n + length A)"
  using assms(1,2)
proof (induction C arbitrary: p n)
  case Nil
  then show ?case by (subst same_lead_loop.simps) simp
next
  case (Cons c C)
  then obtain b bs where c: "c = b # bs" "rep_bytes_by_first_byte b = Some (Suc (length bs))"
    by (auto elim: ichar_okE)
  then have b: "mem_read mem p = Some b" using Cons.prems by (simp add: holds_Cons)
  show ?case
  proof (cases "b = lead")
    case True
    have "holds mem (p + length c) (concat C)" using Cons.prems by (simp add: holds_append)
    moreover have "chars_ok C" using Cons.prems by simp
    ultimately obtain A D where
      "C = A @ D" "same_lead_loop mem lead bytes (p + length c) (p + length c + length (concat C)) (n + 1) =
         Some (p + length c + length (concat A), n + 1 + length A)" using Cons.IH by metis
    moreover have "length c = bytes" using c True assms(3) by simp
    ultimately show ?thesis using b True
      by (intro exI [of _ "c # A"] exI [of _ D]) (subst same_lead_loop.simps, auto simp: c add.assoc)
  next
    case False
    with b c show ?thesis
      by (intro exI [of _ "[]"] exI [of _ "c # C"]) (subst same_lead_loop.simps, auto)
  qed
qed

lemma bytecount_to_charcount_loop_correct:
  "holds mem p (concat C) \<Longrightarrow> chars_ok C \<Longrightarrow>
   bytecount_to_charcount_loop base mem p (p + length (concat C)) n = Some (n + length C)"
proof (induction C arbitrary: p n rule: length_induct)
  case (1 C)
  obtain A D where AD: "C = A @ D" "length A = ascii_prefix (concat C)" "length (concat A) = length A"
      "D = [] \<or> \<not> ichar_ascii_p (hd D)" "chars_ok D" using ascii_split [OF 1(3)] .
  have skip: "skip_ascii base mem p (p + length (concat C)) = Some (p + length A)"
    using skip_ascii_prefix [OF 1(2)] AD(2) by simp
  show ?case
  proof (cases D)
    case Nil
    then show ?thesis using AD skip by (subst bytecount_to_charcount_loop.simps) (simp add: Let_def)
  next
    case (Cons d D')
    then obtain b bs where d: "d = b # bs" "rep_bytes_by_first_byte b = Some (Suc (length bs))"
      using AD(5) by (auto elim: ichar_okE)
    have hD: "holds mem (p + length A) (concat D)" using 1(2) AD by (simp add: holds_append)
    then have b: "mem_read mem (p + length A) = Some b" using Cons d by (simp add: holds_Cons)
    have ne: "D \<noteq> [] \<and> hd (hd D) = b" using Cons d by simp
    obtain E F where EF: "D = E @ F" "E \<noteq> []"
        "same_lead_loop mem b (Suc (length bs)) (p + length A) (p + length A + length (concat D)) (n + length A) =
         Some (p + length A + length (concat E), n + length A + length E)"
      using same_lead_loop_correct [OF hD AD(5) d(2), of "n + length A"] ne by metis
    have "length F < length C" using AD(1) EF by (auto simp: length_greater_0_conv [symmetric] simp del: length_greater_0_conv)
    moreover have "holds mem (p + length A + length (concat E)) (concat F)"
      using hD EF by (simp add: holds_append)
    moreover have "chars_ok F" using AD(5) EF by simp
    ultimately have "bytecount_to_charcount_loop base mem (p + length A + length (concat E))
        (p + length A + length (concat E) + length (concat F)) (n + length A + length E) =
        Some (n + length A + length E + length F)" using 1(1) by blast
    moreover have "concat D \<noteq> []" using concat_Nil_iff [OF AD(5)] ne by blast
    ultimately show ?thesis using skip b d EF AD Cons
      by (subst bytecount_to_charcount_loop.simps) (simp add: Let_def add.assoc)
  qed
qed

lemma bytecount_to_charcount_correct:
  "holds mem p (concat C) \<Longrightarrow> chars_ok C \<Longrightarrow>
   bytecount_to_charcount base mem p (length (concat C)) = Some (length C)"
  using bytecount_short_loop_correct [of mem p C 0] bytecount_to_charcount_loop_correct [of mem p C base 0]
  by (simp add: bytecount_to_charcount_def bytecount_to_charcount_fun_def)


lemma charcount_short_loop_correct:
  "holds mem p (concat C) \<Longrightarrow> chars_ok C \<Longrightarrow>
   charcount_short_loop mem p (length C) = Some (p + length (concat C))"
proof (induction C arbitrary: p)
  case (Cons c C)
  then have "INC_IBYTEPTR mem p = Some (p + length c)" by (auto intro: INC_IBYTEPTR_char)
  with Cons show ?case by (simp add: holds_append add.assoc)
qed simp

lemma same_lead_chars_correct:
  assumes "holds mem p (concat C)" "chars_ok C" "rep_bytes_by_first_byte lead = Some bytes"
  shows "\<exists>A D. C = A @ D \<and> (C \<noteq> [] \<and> hd (hd C) = lead \<longrightarrow> A \<noteq> []) \<and>
    same_lead_chars mem lead bytes p (length C) = Some (p + length (concat A), length D)"
  using assms(1,2)
proof (induction C arbitrary: p)
  case Nil
  then show ?case by (subst same_lead_chars.simps) simp
next
  case (Cons c C)
  then obtain b bs where c: "c = b # bs" "rep_bytes_by_first_byte b = Some (Suc (length bs))"
    by (auto elim: ichar_okE)
  then have b: "mem_read mem p = Some b" using Cons.prems by (simp add: holds_Cons)
  show ?case
  proof (cases "b = lead")
    case True
    have "holds mem (p + length c) (concat C)" using Cons.prems by (simp add: holds_append)
    moreover have "chars_ok C" using Cons.prems by simp
    ultimately obtain A D where
      "C = A @ D" "same_lead_chars mem lead bytes (p + length c) (length C) =
         Some (p + length c + length (concat A), length D)" using Cons.IH by metis
    moreover have "length c = bytes" using c True assms(3) by simp
    ultimately show ?thesis using b True
      by (intro exI [of _ "c # A"] exI [of _ D]) (subst same_lead_chars.simps, auto simp: c add.assoc)
  next
    case False
    with b c show ?thesis
      by (intro exI [of _ "[]"] exI [of _ "c # C"]) (subst same_lead_chars.simps, auto)
  qed
qed

lemma ascii_prefix_take:
  assumes "chars_ok C"
  shows "ascii_prefix (take (length C) (concat C)) = ascii_prefix (concat C)"
proof -
  have "ascii_prefix (concat C) \<le> length C"
    using ascii_prefix_concat [OF assms] length_takeWhile_le [of ichar_ascii_p C] by simp
  moreover have "takeWhile byte_ascii_p (take n xs) = take n (takeWhile byte_ascii_p xs)" for n xs
    by (induction xs arbitrary: n) (auto simp: take_Cons split: nat.splits)
  ultimately show ?thesis by simp
qed

lemma charcount_to_bytecount_loop_correct:
  "holds mem p (concat C) \<Longrightarrow> chars_ok C \<Longrightarrow>
   charcount_to_bytecount_loop base mem p (length C) = Some (p + length (concat C))"
proof (induction C arbitrary: p rule: length_induct)
  case (1 C)
  obtain A D where AD: "C = A @ D" "length A = ascii_prefix (concat C)" "length (concat A) = length A"
      "D = [] \<or> \<not> ichar_ascii_p (hd D)" "chars_ok D" using ascii_split [OF 1(3)] .
  have "holds mem p (take (length C) (concat C))"
    using 1(2) by (metis append_take_drop_id holds_append)
  from skip_ascii_prefix [OF this]
  have skip: "skip_ascii base mem p (p + length C) = Some (p + length A)"
    using AD(2) ascii_prefix_take [OF 1(3)] concat_length [OF 1(3)] by simp
  show ?case
  proof (cases D)
    case Nil
    then show ?thesis using AD skip by (subst charcount_to_bytecount_loop.simps) (simp add: Let_def)
  next
    case (Cons d D')
    then obtain b bs where d: "d = b # bs" "rep_bytes_by_first_byte b = Some (Suc (length bs))"
      using AD(5) by (auto elim: ichar_okE)
    have hD: "holds mem (p + length A) (concat D)" using 1(2) AD by (simp add: holds_append)
    then have b: "mem_read mem (p + length A) = Some b" using Cons d by (simp add: holds_Cons)
    have ne: "D \<noteq> [] \<and> hd (hd D) = b" using Cons d by simp
    obtain E F where EF: "D = E @ F" "E \<noteq> []"
        "same_lead_chars mem b (Suc (length bs)) (p + length A) (length D) =
         Some (p + length A + length (concat E), length F)"
      using same_lead_chars_correct [OF hD AD(5) d(2)] ne by metis
    have "length F < length C" using AD(1) EF by (auto simp: length_greater_0_conv [symmetric] simp del: length_greater_0_conv)
    moreover have "holds mem (p + length A + length (concat E)) (concat F)"
      using hD EF by (simp add: holds_append)
    moreover have "chars_ok F" using AD(5) EF by simp
    ultimately have "charcount_to_bytecount_loop base mem (p + length A + length (concat E)) (length F) =
        Some (p + length A + length (concat E) + length (concat F))" using 1(1) by blast
    moreover have "concat D \<noteq> []" using concat_Nil_iff [OF AD(5)] ne by blast
    ultimately show ?thesis using skip b d EF AD Cons
      by (subst charcount_to_bytecount_loop.simps) (simp add: Let_def add.assoc)
  qed
qed

lemma charcount_to_bytecount_correct:
  "holds mem p (concat C) \<Longrightarrow> chars_ok C \<Longrightarrow>
   charcount_to_bytecount base mem p (length C) = Some (length (concat C))"
  using charcount_short_loop_correct [of mem p C] charcount_to_bytecount_loop_correct [of mem p C base]
  by (simp add: charcount_to_bytecount_def charcount_to_bytecount_fun_def)


subsection \<open>Downwards\<close>

abbreviation ascii_suffix :: "byte list \<Rightarrow> nat" where
  "ascii_suffix bs \<equiv> length (takeWhile byte_ascii_p (rev bs))"

lemma ascii_suffix_le: "ascii_suffix bs \<le> length bs"
  using length_takeWhile_le [of byte_ascii_p "rev bs"] by simp

lemma holds_snoc: "holds mem p (xs @ [x]) \<longleftrightarrow> holds mem p xs \<and> mem_read mem (p + length xs) = Some x"
  by (simp add: holds_append holds_Cons)

lemma holds_take: "holds mem p xs \<Longrightarrow> holds mem p (take n xs)"
  by (metis append_take_drop_id holds_append)

lemma skip_ascii_down_unaligned_suffix:
  assumes "holds mem p bs"
  shows "\<exists>r k. skip_ascii_down_unaligned base mem (p + length bs) p = Some (r, p + length bs - k) \<and>
    k \<le> ascii_suffix bs \<and> (r \<longrightarrow> k = ascii_suffix bs)"
  using assms
proof (induction bs rule: rev_induct)
  case Nil
  then show ?case by (subst skip_ascii_down_unaligned.simps) auto
next
  case (snoc b bs)
  then have "holds mem p bs" by (simp add: holds_append)
  from snoc.IH [OF this]
  obtain r k where "skip_ascii_down_unaligned base mem (p + length bs) p = Some (r, p + length bs - k)"
      "k \<le> ascii_suffix bs" "r \<longrightarrow> k = ascii_suffix bs" by blast
  moreover have "mem_read mem (p + length bs) = Some b" using snoc.prems by (simp add: holds_snoc)
  ultimately show ?case
    by (intro exI [of _ "if STRIDE_ALIGNED base (p + length (bs @ [b])) then False
              else if byte_ascii_p b then r else True"]
          exI [of _ "if STRIDE_ALIGNED base (p + length (bs @ [b])) then 0
              else if byte_ascii_p b then Suc k else 0"])
       (subst skip_ascii_down_unaligned.simps, auto)
qed

lemma skip_ascii_down_strides_suffix:
  assumes "holds mem p bs"
  shows "\<exists>k. skip_ascii_down_strides mem (p + length bs) p = Some (p + length bs - k) \<and> k \<le> ascii_suffix bs"
  using assms
proof (induction bs rule: length_induct)
  case (1 bs)
  let ?l = "drop (length bs - 8) bs" and ?f = "take (length bs - 8) bs"
  have h: "holds mem (p + (length bs - 8)) ?l" by (rule holds_drop [OF 1(2)]) simp
  show ?case
  proof (cases "8 \<le> length bs \<and> load_bytes ?l AND HIGH_BIT_MASK = 0")
    case True
    have "rev bs = rev ?l @ rev ?f" by (metis append_take_drop_id rev_append)
    moreover have "\<forall>b\<in>set (rev ?l). byte_ascii_p b" using stride_ascii [of ?l] True by simp
    ultimately have a: "ascii_suffix bs = 8 + ascii_suffix ?f"
      using True by (simp add: takeWhile_append)
    have "length ?f < length bs" "holds mem p ?f" using True holds_take [OF 1(2)] by auto
    then obtain k where "skip_ascii_down_strides mem (p + length ?f) p = Some (p + length ?f - k)"
        "k \<le> ascii_suffix ?f" using 1(1) by blast
    moreover have "stride_read mem (p + length bs - 8) = Some (load_bytes ?l)"
      using stride_read_holds [OF h] True by simp
    ultimately show ?thesis using True a
      by (subst skip_ascii_down_strides.simps) (auto intro!: exI [of _ "8 + k"])
  next
    case False
    moreover have "stride_read mem (p + length bs - 8) = Some (load_bytes ?l)" if "8 \<le> length bs"
      using stride_read_holds [OF h] that by simp
    ultimately show ?thesis by (intro exI [of _ 0]) (subst skip_ascii_down_strides.simps, auto)
  qed
qed

lemma skip_ascii_down_tail_suffix:
  "holds mem p bs \<Longrightarrow> skip_ascii_down_tail mem (p + length bs) p = Some (p + length bs - ascii_suffix bs)"
proof (induction bs rule: rev_induct)
  case Nil
  then show ?case by (subst skip_ascii_down_tail.simps) simp
next
  case (snoc b bs)
  then show ?case by (subst skip_ascii_down_tail.simps) (auto simp: holds_snoc)
qed

lemma skip_ascii_down_suffix:
  assumes h: "holds mem p bs"
  shows "skip_ascii_down base mem (p + length bs) p = Some (p + length bs - ascii_suffix bs)"
proof -
  have rest: "holds mem p (take (length bs - k) bs) \<and> p + length bs - k = p + length (take (length bs - k) bs) \<and>
      ascii_suffix bs = k + ascii_suffix (take (length bs - k) bs)" if k: "k \<le> ascii_suffix bs" for k
  proof -
    have kl: "k \<le> length bs" using k ascii_suffix_le le_trans by blast
    have "\<forall>b\<in>set (take k (rev bs)). byte_ascii_p b"
      using take_takeWhile [OF k] by (metis in_set_takeD set_takeWhileD)
    with kl have "ascii_suffix bs = k + length (takeWhile byte_ascii_p (drop k (rev bs)))"
      by (intro takeWhile_skip) auto
    with kl h holds_take show ?thesis by (auto simp: drop_rev)
  qed
  obtain r k where k: "skip_ascii_down_unaligned base mem (p + length bs) p = Some (r, p + length bs - k)"
      "k \<le> ascii_suffix bs" "r \<longrightarrow> k = ascii_suffix bs"
    using skip_ascii_down_unaligned_suffix [OF h] by blast
  show ?thesis
  proof (cases r)
    case True
    with k show ?thesis by (simp add: skip_ascii_down_def)
  next
    case False
    let ?t = "take (length bs - k) bs"
    note rk = rest [OF k(2)]
    obtain j where j: "skip_ascii_down_strides mem (p + length bs - k) p = Some (p + length bs - k - j)"
        "j \<le> ascii_suffix ?t"
      using skip_ascii_down_strides_suffix [of mem p ?t] rk by metis
    have kj: "k + j \<le> ascii_suffix bs" using j(2) rk by linarith
    from rest [OF this]
    have "skip_ascii_down_tail mem (p + length bs - (k + j)) p =
        Some (p + length bs - (k + j) - ascii_suffix (take (length bs - (k + j)) bs))"
      using skip_ascii_down_tail_suffix [of mem p "take (length bs - (k + j)) bs"] by metis
    moreover have "p + length bs - k - j = p + length bs - (k + j)" by simp
    moreover have "p + length bs - (k + j) - ascii_suffix (take (length bs - (k + j)) bs) =
        p + length bs - ascii_suffix bs" using rest [OF kj] by linarith
    ultimately show ?thesis using k(1) j(1) False by (simp add: skip_ascii_down_def)
  qed
qed

lemma DEC_IBYTEPTR_fill:
  "holds mem p xs \<Longrightarrow> \<forall>x\<in>set xs. \<not> ibyte_first_byte_p x \<Longrightarrow>
   DEC_IBYTEPTR mem (p + length xs) = DEC_IBYTEPTR mem p"
  by (induction xs rule: rev_induct) (auto simp: holds_snoc)

lemma DEC_IBYTEPTR_char:
  assumes "holds mem p c" "ichar_ok c"
  shows "DEC_IBYTEPTR mem (p + length c) = Some p"
proof -
  from assms(2) obtain b bs where c: "c = b # bs" "ibyte_first_byte_p b" "\<forall>x\<in>set bs. \<not> ibyte_first_byte_p x"
    by (auto elim: ichar_okE)
  then have "DEC_IBYTEPTR mem (Suc p + length bs) = DEC_IBYTEPTR mem (Suc p)"
    using assms(1) by (intro DEC_IBYTEPTR_fill) (auto simp: holds_Cons)
  with c assms(1) show ?thesis by (simp add: holds_Cons)
qed

lemma charcount_down_short_loop_correct:
  "holds mem p (concat C) \<Longrightarrow> chars_ok C \<Longrightarrow>
   charcount_down_short_loop mem (p + length (concat C)) (length C) = Some p"
proof (induction C rule: rev_induct)
  case (snoc c C)
  then have "DEC_IBYTEPTR mem (p + length (concat C) + length c) = Some (p + length (concat C))"
    by (intro DEC_IBYTEPTR_char) (auto simp: holds_append)
  with snoc show ?case by (simp add: holds_append add.assoc)
qed simp

lemma nonascii_down_fill:
  "holds mem p xs \<Longrightarrow> \<forall>x\<in>set xs. \<not> ibyte_first_byte_p x \<Longrightarrow>
   nonascii_down_loop mem (p + length xs) (Suc n) = nonascii_down_loop mem p (Suc n)"
  by (induction xs rule: rev_induct) (auto simp: holds_snoc dest: ascii_first)

lemma nonascii_down_loop_correct:
  "holds mem p (concat C) \<Longrightarrow> chars_ok C \<Longrightarrow>
   \<exists>A D. C = A @ D \<and> (A = [] \<or> ichar_ascii_p (last A)) \<and> (C \<noteq> [] \<and> \<not> ichar_ascii_p (last C) \<longrightarrow> D \<noteq> []) \<and>
     nonascii_down_loop mem (p + length (concat C)) (length C) = Some (p + length (concat A), length A)"
proof (induction C rule: rev_induct)
  case (snoc c C)
  from snoc.prems obtain b bs where c: "c = b # bs" "ibyte_first_byte_p b"
      "\<forall>x\<in>set bs. \<not> ibyte_first_byte_p x" "byte_ascii_p b \<longleftrightarrow> bs = []" by (auto elim: ichar_okE)
  let ?q = "p + length (concat C)"
  have h: "holds mem p (concat C)" "mem_read mem ?q = Some b" "holds mem (Suc ?q) bs"
    using snoc.prems c by (auto simp: holds_append holds_Cons)
  show ?case
  proof (cases "bs = []")
    case True
    with c h show ?thesis by (intro exI [of _ "C @ [c]"] exI [of _ "[]"]) auto
  next
    case False
    moreover have "chars_ok C" using snoc.prems by simp
    ultimately obtain A D where AD: "C = A @ D" "A = [] \<or> ichar_ascii_p (last A)"
        "nonascii_down_loop mem ?q (length C) = Some (p + length (concat A), length A)"
      using snoc.IH [OF h(1)] by blast
    have "nonascii_down_loop mem (Suc ?q + length bs) (Suc (length C)) =
        nonascii_down_loop mem (Suc ?q) (Suc (length C))" using h(3) c(3) by (rule nonascii_down_fill)
    moreover have "nonascii_down_loop mem (Suc ?q) (Suc (length C)) = Some (p + length (concat A), length A)"
      using AD(3) c h(2) False by simp
    moreover have "p + length (concat (C @ [c])) = Suc ?q + length bs" "length (C @ [c]) = Suc (length C)"
      using c(1) by simp_all
    ultimately have "nonascii_down_loop mem (p + length (concat (C @ [c]))) (length (C @ [c])) =
        Some (p + length (concat A), length A)" by argo
    with AD(1,2) show ?thesis by (intro exI [of _ A] exI [of _ "D @ [c]"]) simp
  qed
qed simp

lemma takeWhile_take_eq: "takeWhile P (take n xs) = take n (takeWhile P xs)"
  by (induction xs arbitrary: n) (auto simp: take_Cons split: nat.splits)

lemma ascii_suffix_concat:
  "chars_ok C \<Longrightarrow> ascii_suffix (concat C) = length (takeWhile ichar_ascii_p (rev C))"
proof (induction C rule: rev_induct)
  case (snoc c C)
  from snoc.prems obtain b bs where "c = b # bs" "byte_ascii_p b \<longleftrightarrow> bs = []"
    "\<forall>x\<in>set bs. \<not> ibyte_first_byte_p x" by (auto elim: ichar_okE)
  moreover have "ascii_suffix (concat C) = length (takeWhile ichar_ascii_p (rev C))"
    using snoc by simp
  ultimately show ?case by (cases bs rule: rev_cases) (auto dest: ascii_first)
qed simp


lemma charcount_to_bytecount_down_loop_correct:
  "holds mem p (concat C) \<Longrightarrow> chars_ok C \<Longrightarrow>
   charcount_to_bytecount_down_loop base mem (p + length (concat C)) (length C) = Some p"
proof (induction C rule: length_induct)
  case (1 C)
  let ?B = "rev (takeWhile ichar_ascii_p (rev C))" and ?A = "rev (dropWhile ichar_ascii_p (rev C))"
  have C: "C = ?A @ ?B" by (metis rev_append rev_rev_ident takeWhile_dropWhile_id)
  have B: "length (concat ?B) = length ?B" by (rule concat_ascii) (auto dest: set_takeWhileD)
  have A: "?A \<noteq> [] \<longrightarrow> \<not> ichar_ascii_p (last ?A)"
    using hd_dropWhile [of ichar_ascii_p "rev C"] by (auto simp: last_rev)
  have len: "length (concat C) = length (concat ?A) + length ?B" "length C = length ?A + length ?B"
    by (subst C, simp only: concat_append length_append B)+
  have ok: "chars_ok ?A" using 1(3) set_dropWhileD [of _ ichar_ascii_p "rev C"] by auto
  have hA: "holds mem p (concat ?A)" using 1(2) by (subst (asm) C) (simp add: holds_append)
  let ?n = "length C" and ?L = "length (concat C)"
  have nL: "?n \<le> ?L" using concat_length 1(3) by blast
  have sfx: "ascii_suffix (drop (?L - ?n) (concat C)) = length ?B"
  proof -
    have "ascii_suffix (drop (?L - ?n) (concat C)) = length (takeWhile byte_ascii_p (take ?n (rev (concat C))))"
      using nL by (simp add: rev_drop)
    also have "\<dots> = length (take ?n (takeWhile byte_ascii_p (rev (concat C))))"
      by (simp add: takeWhile_take_eq)
    also have "\<dots> = length ?B"
      using ascii_suffix_concat [OF 1(3)] len(2) by simp
    finally show ?thesis .
  qed
  have "holds mem (p + (?L - ?n)) (drop (?L - ?n) (concat C))" using holds_drop [OF 1(2)] by simp
  from skip_ascii_down_suffix [OF this, of base]
  have skip: "skip_ascii_down base mem (p + ?L) (p + ?L - ?n) = Some (p + ?L - length ?B)"
    using sfx nL by simp
  have pl: "p + ?L - length ?B = p + length (concat ?A)" "?n - (p + ?L - (p + length (concat ?A))) = length ?A"
    using len by linarith+
  obtain D E where DE: "?A = D @ E" "D = [] \<or> ichar_ascii_p (last D)" "?A \<noteq> [] \<longrightarrow> E \<noteq> []"
      "nonascii_down_loop mem (p + length (concat ?A)) (length ?A) = Some (p + length (concat D), length D)"
    using nonascii_down_loop_correct [OF hA ok] A by blast
  have "charcount_to_bytecount_down_loop base mem (p + ?L) ?n =
      (if length D = 0 then Some (p + length (concat D))
       else charcount_to_bytecount_down_loop base mem (p + length (concat D)) (length D))"
    using skip DE(4) pl by (subst charcount_to_bytecount_down_loop.simps) (simp add: Let_def)
  moreover have "charcount_to_bytecount_down_loop base mem (p + length (concat D)) (length D) = Some p"
    if "D \<noteq> []"
  proof -
    have "length D < length ?A" using DE that by auto
    then have "length D < length C" using len by linarith
    moreover have "holds mem p (concat D)" using hA DE(1) by (simp add: holds_append)
    moreover have "chars_ok D" using ok unfolding DE(1) by simp
    ultimately show ?thesis using 1(1) by blast
  qed
  ultimately show ?case by auto
qed

lemma charcount_to_bytecount_down_correct:
  "holds mem p (concat C) \<Longrightarrow> chars_ok C \<Longrightarrow>
   charcount_to_bytecount_down base mem (p + length (concat C)) (length C) = Some (length (concat C))"
  using charcount_down_short_loop_correct [of mem p C] charcount_to_bytecount_down_loop_correct [of mem p C base]
  by (simp add: charcount_to_bytecount_down_def charcount_to_bytecount_down_fun_def)

text \<open>C15: counting the characters of a number of bytes and the bytes of a number of characters, forwards and
  backwards, in strides of eight bytes at whatever alignment: the counts are exact for every text.\<close>

theorem counts_between_bytes_and_characters:
  assumes "holds mem p (concat C)" "chars_ok C"
  shows "bytecount_to_charcount base mem p (length (concat C)) = Some (length C) \<and>
    charcount_to_bytecount base mem p (length C) = Some (length (concat C)) \<and>
    charcount_to_bytecount_down base mem (p + length (concat C)) (length C) = Some (length (concat C))"
  using bytecount_to_charcount_correct [OF assms] charcount_to_bytecount_correct [OF assms]
    charcount_to_bytecount_down_correct [OF assms] by blast

theorem counts_between_bytes_and_characters_witness:
  "let C = replicate 7 [0x61] @ [[0x81, 0xE9]] @ replicate 15 [0x62]; mem = map Some (concat C) in
   bytecount_to_charcount 4 mem 0 24 = Some 23 \<and> charcount_to_bytecount 4 mem 0 23 = Some 24 \<and>
   charcount_to_bytecount_down 4 mem 24 23 = Some 24"
proof -
  define C :: "ichar list" where "C = replicate 7 [0x61] @ [[0x81, 0xE9]] @ replicate 15 [0x62]"
  have "holds (map Some (concat C)) 0 (concat C)" by (simp add: holds_def mem_read_def)
  moreover have "chars_ok C"
    by (simp add: C_def ichar_ok_def rep_bytes_by_first_byte_def ibyte_first_byte_p_def)
  moreover have "length C = 23" "length (concat C) = 24" by (simp_all add: C_def length_concat sum_list_replicate)
  ultimately show ?thesis
    using counts_between_bytes_and_characters [of "map Some (concat C)" 0 C 4] by (simp add: C_def Let_def)
qed

end
