(* ===== verification/Buffer_Position.thy ===== *)
theory Buffer_Position
  imports Mule_Text
begin

text \<open>
  The text of a buffer and its positions (\<open>src/buffer.h\<close>, \<open>src/text.c\<close>).  A buffer text is
  one block of cells with a gap, an end gap and two sentinel bytes.  A character position
  (\<open>Charbpos\<close>) counts characters from 1, a byte position (\<open>Bytebpos\<close>) bytes from 1, neither
  counting the gap; a memory position (\<open>Membpos\<close>) counts the gap.  Conversion between the
  first two scans the text from the nearest known position and remembers the result in the
  caches of the text.  The format is \<open>FORMAT_DEFAULT\<close>, which \<open>BUF_FORMAT\<close> always is.
\<close>

section \<open>Data\<close>

text \<open>
  \<open>struct buffer_text\<close> with its \<open>struct buffer_text_change_data\<close>.  The two parallel arrays
  \<open>mule_charbpos_cache\<close> and \<open>mule_bytebpos_cache\<close> are one list of pairs, as long as
  \<open>next_cache_pos\<close>.
\<close>

record buffer_text =
  bt_beg :: "byte cells"
  bt_gpt :: nat
  bt_bufgpt :: nat
  bt_z :: nat
  bt_bufz :: nat
  bt_gap_size :: nat
  bt_end_gap_size :: nat
  bt_modiff :: "64 word"
  bt_save_modiff :: "64 word"
  bt_pos_cache :: "(int \<times> int) list"
  bt_cached_charpos :: int
  bt_cached_bytepos :: int
  bt_entirely_one_byte_p :: bool
  bt_num_ascii_chars :: int
  bt_in_multiple_change :: nat
  bt_mc_begin :: int
  bt_mc_orig_end :: int
  bt_mc_new_end :: int
  bt_mc_begin_signaled :: bool

record marker =
  mk_id :: nat
  mk_membpos :: int
  mk_insertion_type :: bool

text \<open>
  The elements of an undo list: \<open>nil\<close>, a position, \<open>(BEG . END)\<close>, \<open>(STRING . POS)\<close>,
  \<open>(t . TIME)\<close>; any other object is \<open>U_other\<close>, with a flag that says whether it is a cons.
\<close>

datatype undo_elt =
    U_boundary
  | U_position int
  | U_insert int int
  | U_delete "byte list" int
  | U_modtime int
  | U_other bool

text \<open>The value of \<open>buffer-undo-list\<close>: \<open>t\<close> disables undo.\<close>

datatype undo_list = U_t | U_list "undo_elt list"

text \<open>The part of \<open>struct buffer\<close> that belongs to one buffer, whether base or indirect.\<close>

record buffer =
  b_live :: bool
  b_pt :: int
  b_bufpt :: int
  b_begv :: int
  b_bufbegv :: int
  b_zv :: int
  b_bufzv :: int
  b_point_marker :: nat
  b_markers :: "marker list"
  b_newline_was_deleted :: bool
  b_begin_unchanged :: int
  b_end_unchanged :: int
  b_read_only :: bool
  b_modtime :: int
  b_undo_list :: undo_list

definition BYTE_BUF_BEG :: int where "BYTE_BUF_BEG = 1"
definition BUF_BEG :: int where "BUF_BEG = 1"

text \<open>The address of a byte position, as an index of the block.\<close>

definition BYTE_BUF_BYTE_ADDRESS :: "buffer_text \<Rightarrow> int \<Rightarrow> nat" where
  "BYTE_BUF_BYTE_ADDRESS t x = nat ((if int (bt_gpt t) \<le> x then x + int (bt_gap_size t) else x) - 1)"

definition bytebpos_to_membpos :: "buffer_text \<Rightarrow> int \<Rightarrow> int" where
  "bytebpos_to_membpos t x = (if x > int (bt_gpt t) then x + int (bt_gap_size t) else x)"

definition membpos_to_bytebpos :: "buffer_text \<Rightarrow> int \<Rightarrow> int" where
  "membpos_to_bytebpos t x = (if x > int (bt_gpt t) then x - int (bt_gap_size t) else x)"

definition valid_membpos_p :: "buffer_text \<Rightarrow> int \<Rightarrow> bool" where
  "valid_membpos_p t x \<longleftrightarrow> (1 \<le> x \<and> x \<le> int (bt_gpt t)) \<or>
     (int (bt_gpt t) + int (bt_gap_size t) < x \<and> x \<le> int (bt_z t) + int (bt_gap_size t))"

section \<open>Moving over a character\<close>

text \<open>The loops of \<open>VALIDATE_BYTEBPOS_FORWARD\<close> and \<open>_BACKWARD\<close>: a pointer and the position.\<close>

partial_function (option) VALIDATE_BYTEBPOS_FORWARD :: "byte cells \<Rightarrow> nat \<Rightarrow> int \<Rightarrow> int option" where
  "VALIDATE_BYTEBPOS_FORWARD mem ptr x = do {
     b \<leftarrow> mem_read mem ptr;
     if ibyte_first_byte_p b then Some x else VALIDATE_BYTEBPOS_FORWARD mem (ptr + 1) (x + 1) }"

fun VALIDATE_BYTEBPOS_BACKWARD :: "byte cells \<Rightarrow> nat \<Rightarrow> int \<Rightarrow> int option" where
  "VALIDATE_BYTEBPOS_BACKWARD mem ptr x = do {
     b \<leftarrow> mem_read mem ptr;
     if ibyte_first_byte_p b then Some x
     else case ptr of 0 \<Rightarrow> None | Suc ptr \<Rightarrow> VALIDATE_BYTEBPOS_BACKWARD mem ptr (x - 1) }"

definition INC_BYTEBPOS :: "buffer_text \<Rightarrow> int \<Rightarrow> int option" where
  "INC_BYTEBPOS t x =
     (let x = x + 1 in VALIDATE_BYTEBPOS_FORWARD (bt_beg t) (BYTE_BUF_BYTE_ADDRESS t x) x)"

definition DEC_BYTEBPOS :: "buffer_text \<Rightarrow> int \<Rightarrow> int option" where
  "DEC_BYTEBPOS t x =
     (let x = x - 1 in VALIDATE_BYTEBPOS_BACKWARD (bt_beg t) (BYTE_BUF_BYTE_ADDRESS t x) x)"

section \<open>The caches of known positions\<close>

definition NUM_CACHED_POSITIONS :: nat where "NUM_CACHED_POSITIONS = 50"
definition NUM_MOVED_POSITIONS :: nat where "NUM_MOVED_POSITIONS = 10"
definition FAR_AWAY_DISTANCE :: int where "FAR_AWAY_DISTANCE = 5000"

text \<open>The position found, entered in the array when \<open>record\<close>, and always as the single cached one.\<close>

definition cache_position :: "bool \<Rightarrow> int \<Rightarrow> int \<Rightarrow> buffer_text \<Rightarrow> buffer_text" where
  "cache_position recordp charpos bytepos t =
     (let t = (if recordp then
                 let cache = (if length (bt_pos_cache t) = NUM_CACHED_POSITIONS
                              then drop NUM_MOVED_POSITIONS (bt_pos_cache t) else bt_pos_cache t)
                 in t\<lparr>bt_pos_cache := cache @ [(charpos, bytepos)]\<rparr>
               else t)
      in t\<lparr>bt_cached_charpos := charpos, bt_cached_bytepos := bytepos\<rparr>)"

text \<open>The bounds found so far: character and byte position below, character and byte position above.\<close>

record bounds =
  best_below :: int
  best_below_byte :: int
  best_above :: int
  best_above_byte :: int

definition initial_bounds :: "buffer_text \<Rightarrow> bounds" where
  "initial_bounds t = \<lparr>best_below = BUF_BEG, best_below_byte = BYTE_BUF_BEG,
     best_above = int (bt_bufz t), best_above_byte = int (bt_z t)\<rparr>"

text \<open>
  The macro \<open>CONSIDER\<close>: \<open>Inl\<close> is a jump to \<open>done\<close> with the value, \<open>Inr\<close> the bounds so far.
\<close>

definition CONSIDER_char :: "int \<Rightarrow> int \<Rightarrow> int \<Rightarrow> bounds \<Rightarrow> int + bounds" where
  "CONSIDER_char x charpos bytepos bd =
     (let interpolate = (\<lambda>bd. if best_above bd - best_below bd = best_above_byte bd - best_below_byte bd
                              then Inl (best_below_byte bd + (x - best_below bd)) else Inr bd) in
      if charpos = x then Inl bytepos
      else if charpos > x then
        (if charpos < best_above bd
         then interpolate (bd\<lparr>best_above := charpos, best_above_byte := bytepos\<rparr>) else Inr bd)
      else if charpos > best_below bd
        then interpolate (bd\<lparr>best_below := charpos, best_below_byte := bytepos\<rparr>)
      else Inr bd)"

definition CONSIDER_byte :: "int \<Rightarrow> int \<Rightarrow> int \<Rightarrow> bounds \<Rightarrow> int + bounds" where
  "CONSIDER_byte x bytepos charpos bd =
     (let interpolate = (\<lambda>bd. if best_above bd - best_below bd = best_above_byte bd - best_below_byte bd
                              then Inl (best_below bd + (x - best_below_byte bd)) else Inr bd) in
      if bytepos = x then Inl charpos
      else if bytepos > x then
        (if bytepos < best_above_byte bd
         then interpolate (bd\<lparr>best_above := charpos, best_above_byte := bytepos\<rparr>) else Inr bd)
      else if bytepos > best_below_byte bd
        then interpolate (bd\<lparr>best_below := charpos, best_below_byte := bytepos\<rparr>)
      else Inr bd)"

text \<open>The known positions considered one after the other.\<close>

fun consider_all :: "(int \<times> int \<Rightarrow> bounds \<Rightarrow> int + bounds) \<Rightarrow> (int \<times> int) list \<Rightarrow> bounds \<Rightarrow> int + bounds" where
  "consider_all f [] bd = Inr bd"
| "consider_all f (p # ps) bd = (case f p bd of Inl r \<Rightarrow> Inl r | Inr bd \<Rightarrow> consider_all f ps bd)"

text \<open>The loop over the array, the most recent entry first, until the bounds are close.\<close>

fun consider_cache :: "(int \<times> int \<Rightarrow> bounds \<Rightarrow> int + bounds) \<Rightarrow> (int \<times> int) list \<Rightarrow> bounds \<Rightarrow> int + bounds" where
  "consider_cache f [] bd = Inr bd"
| "consider_cache f (p # ps) bd =
     (case f p bd of Inl r \<Rightarrow> Inl r
      | Inr bd \<Rightarrow> if best_above bd - best_below bd < 50 then Inr bd else consider_cache f ps bd)"

definition known_positions :: "buffer_text \<Rightarrow> buffer \<Rightarrow> (int \<times> int) list" where
  "known_positions t b = [(b_bufpt b, b_pt b), (int (bt_bufgpt t), int (bt_gpt t)),
     (b_bufbegv b, b_begv b), (b_bufzv b, b_zv b), (bt_cached_charpos t, bt_cached_bytepos t)]"

definition consider_known :: "(int \<times> int \<Rightarrow> bounds \<Rightarrow> int + bounds) \<Rightarrow> buffer_text \<Rightarrow> buffer \<Rightarrow> int + bounds" where
  "consider_known f t b =
     (case consider_all f (known_positions t b) (initial_bounds t) of Inl r \<Rightarrow> Inl r
      | Inr bd \<Rightarrow> consider_cache f (rev (bt_pos_cache t)) bd)"

section \<open>Converting positions\<close>

text \<open>The scanning loops; each returns the character and the byte position at which it stops.\<close>

partial_function (option) scan_up_to_char :: "buffer_text \<Rightarrow> int \<Rightarrow> int \<Rightarrow> int \<Rightarrow> int option" where
  "scan_up_to_char t x c b =
     (if c \<noteq> x then do { b \<leftarrow> INC_BYTEBPOS t b; scan_up_to_char t x (c + 1) b } else Some b)"

partial_function (option) scan_down_to_char :: "buffer_text \<Rightarrow> int \<Rightarrow> int \<Rightarrow> int \<Rightarrow> int option" where
  "scan_down_to_char t x c b =
     (if c \<noteq> x then do { b \<leftarrow> DEC_BYTEBPOS t b; scan_down_to_char t x (c - 1) b } else Some b)"

definition charbpos_to_bytebpos_func :: "buffer_text \<Rightarrow> buffer \<Rightarrow> int \<Rightarrow> (int \<times> buffer_text) option" where
  "charbpos_to_bytebpos_func t b x =
     (case consider_known (\<lambda>(c, by). CONSIDER_char x c by) t b of
        Inl r \<Rightarrow> Some (r, t)
      | Inr bd \<Rightarrow>
          if x - best_below bd < best_above bd - x then do {
            by \<leftarrow> scan_up_to_char t x (best_below bd) (best_below_byte bd);
            Some (by, cache_position (x - best_below bd > FAR_AWAY_DISTANCE) x by t)
          } else do {
            by \<leftarrow> scan_down_to_char t x (best_above bd) (best_above_byte bd);
            Some (by, cache_position (best_above bd - x > FAR_AWAY_DISTANCE) x by t)
          })"

definition charbpos_to_bytebpos :: "buffer_text \<Rightarrow> buffer \<Rightarrow> int \<Rightarrow> (int \<times> buffer_text) option" where
  "charbpos_to_bytebpos t b x =
     (if bt_entirely_one_byte_p t then Some (x, t) else charbpos_to_bytebpos_func t b x)"

partial_function (option) scan_up_to_byte :: "buffer_text \<Rightarrow> int \<Rightarrow> int \<Rightarrow> int \<Rightarrow> (int \<times> int) option" where
  "scan_up_to_byte t x c b =
     (if b < x then do { b \<leftarrow> INC_BYTEBPOS t b; scan_up_to_byte t x (c + 1) b } else Some (c, b))"

partial_function (option) scan_down_to_byte :: "buffer_text \<Rightarrow> int \<Rightarrow> int \<Rightarrow> int \<Rightarrow> (int \<times> int) option" where
  "scan_down_to_byte t x c b =
     (if b > x then do { b \<leftarrow> DEC_BYTEBPOS t b; scan_down_to_byte t x (c - 1) b } else Some (c, b))"

definition bytebpos_to_charbpos_func :: "buffer_text \<Rightarrow> buffer \<Rightarrow> int \<Rightarrow> (int \<times> buffer_text) option" where
  "bytebpos_to_charbpos_func t b x =
     (case consider_known (\<lambda>(c, by). CONSIDER_byte x by c) t b of
        Inl r \<Rightarrow> Some (r, t)
      | Inr bd \<Rightarrow>
          if x - best_below_byte bd < best_above_byte bd - x then do {
            (c, by) \<leftarrow> scan_up_to_byte t x (best_below bd) (best_below_byte bd);
            Some (c, cache_position (x - best_below_byte bd > 5000) c by t)
          } else do {
            (c, by) \<leftarrow> scan_down_to_byte t x (best_above bd) (best_above_byte bd);
            Some (c, cache_position (best_above_byte bd - x > 5000) c by t)
          })"

definition bytebpos_to_charbpos :: "buffer_text \<Rightarrow> buffer \<Rightarrow> int \<Rightarrow> (int \<times> buffer_text) option" where
  "bytebpos_to_charbpos t b x =
     (if bt_entirely_one_byte_p t then Some (x, t) else bytebpos_to_charbpos_func t b x)"

text \<open>The adjustments of the caches to an insertion and a deletion.\<close>

definition buffer_mule_signal_inserted_region :: "int \<Rightarrow> int \<Rightarrow> int \<Rightarrow> buffer_text \<Rightarrow> buffer_text" where
  "buffer_mule_signal_inserted_region start bytelength charlength t =
     (let adj = (\<lambda>(c, b). if c > start then (c + charlength, b + bytelength) else (c, b));
          (cc, cb) = adj (bt_cached_charpos t, bt_cached_bytepos t)
      in t\<lparr>bt_pos_cache := map adj (bt_pos_cache t), bt_cached_charpos := cc, bt_cached_bytepos := cb\<rparr>)"

definition buffer_mule_signal_deleted_region ::
    "int \<Rightarrow> int \<Rightarrow> int \<Rightarrow> int \<Rightarrow> buffer_text \<Rightarrow> buffer_text" where
  "buffer_mule_signal_deleted_region start en byte_start byte_end t =
     (let adj = (\<lambda>(c, b). if c > en then (c - (en - start), b - (byte_end - byte_start))
                          else if c > start then (start, byte_start) else (c, b));
          (cc, cb) = adj (bt_cached_charpos t, bt_cached_bytepos t)
      in t\<lparr>bt_pos_cache := map adj (bt_pos_cache t), bt_cached_charpos := cc, bt_cached_bytepos := cb\<rparr>)"

declare VALIDATE_BYTEBPOS_FORWARD.simps [code] scan_up_to_char.simps [code] scan_down_to_char.simps [code]
  scan_up_to_byte.simps [code] scan_down_to_byte.simps [code]

declare VALIDATE_BYTEBPOS_BACKWARD.simps [simp del]

section \<open>The text and its character boundaries\<close>

text \<open>The bytes of the first \<open>n\<close> characters, and the byte position of a character position.\<close>

definition bofs :: "ichar list \<Rightarrow> nat \<Rightarrow> nat" where
  "bofs C n = length (concat (take n C))"

definition char_to_byte :: "ichar list \<Rightarrow> int \<Rightarrow> int" where
  "char_to_byte C x = 1 + int (bofs C (nat (x - 1)))"

definition pos_pair :: "ichar list \<Rightarrow> int \<times> int \<Rightarrow> bool" where
  "pos_pair C p \<longleftrightarrow> 1 \<le> fst p \<and> fst p \<le> 1 + int (length C) \<and> snd p = char_to_byte C (fst p)"

lemma bofs_0 [simp]: "bofs C 0 = 0"
  by (simp add: bofs_def)

lemma bofs_all: "length C \<le> n \<Longrightarrow> bofs C n = length (concat C)"
  by (simp add: bofs_def)

lemma bofs_Suc: "n < length C \<Longrightarrow> bofs C (Suc n) = bofs C n + length (C ! n)"
  by (simp add: bofs_def take_Suc_conv_app_nth)

lemma bofs_append: "bofs (A @ B) n = (if n \<le> length A then bofs A n else length (concat A) + bofs B (n - length A))"
  by (simp add: bofs_def)

lemma bofs_mono:
  assumes "chars_ok C" "m \<le> n" "n \<le> length C"
  shows "bofs C m + n \<le> bofs C n + m"
proof -
  have "take n C = take m C @ take (n - m) (drop m C)"
    using assms(2) by (metis le_add_diff_inverse take_add)
  moreover have "chars_ok (take (n - m) (drop m C))"
    using assms(1) by (auto dest!: in_set_takeD in_set_dropD)
  then have "n - m \<le> length (concat (take (n - m) (drop m C)))"
    using concat_length [of "take (n - m) (drop m C)"] assms(2,3) by simp
  ultimately show ?thesis using assms(2) by (simp add: bofs_def)
qed

lemma bofs_le: "bofs C n \<le> length (concat C)"
  by (metis append_take_drop_id bofs_def concat_append le_add1 length_append)

lemma char_to_byte_1 [simp]: "char_to_byte C 1 = 1"
  by (simp add: char_to_byte_def)

lemma char_to_byte_end [simp]: "char_to_byte C (1 + int (length C)) = 1 + int (length (concat C))"
  by (simp add: char_to_byte_def bofs_all)

lemma char_to_byte_mono:
  assumes "chars_ok C" "1 \<le> c" "c \<le> d" "d \<le> 1 + int (length C)"
  shows "char_to_byte C c + (d - c) \<le> char_to_byte C d"
proof -
  have "nat (c - 1) \<le> nat (d - 1)" "nat (d - 1) \<le> length C" using assms(2-) by linarith+
  from bofs_mono [OF assms(1) this] have
    "int (bofs C (nat (c - 1))) + int (nat (d - 1)) \<le> int (bofs C (nat (d - 1))) + int (nat (c - 1))" by linarith
  with assms(2-) show ?thesis by (simp add: char_to_byte_def)
qed

lemma char_to_byte_less:
  assumes "chars_ok C" "1 \<le> c" "1 \<le> d" "c \<le> 1 + int (length C)" "d \<le> 1 + int (length C)"
  shows "char_to_byte C c < char_to_byte C d \<longleftrightarrow> c < d"
  using char_to_byte_mono [OF assms(1)] assms(2-) by (smt (verit))

lemma char_to_byte_eq:
  assumes "chars_ok C" "1 \<le> c" "1 \<le> d" "c \<le> 1 + int (length C)" "d \<le> 1 + int (length C)"
  shows "char_to_byte C c = char_to_byte C d \<longleftrightarrow> c = d"
  using char_to_byte_less [of C c d] char_to_byte_less [of C d c] assms by (smt (verit))

lemma char_to_byte_linear:
  assumes "chars_ok C" "1 \<le> c" "c \<le> x" "x \<le> d" "d \<le> 1 + int (length C)"
    and "d - c = char_to_byte C d - char_to_byte C c"
  shows "char_to_byte C x = char_to_byte C c + (x - c)"
  using char_to_byte_mono [OF assms(1), of c x] char_to_byte_mono [OF assms(1), of x d] assms(2-) by simp

section \<open>The layout of the block\<close>

definition first_cell :: "byte cells \<Rightarrow> bool" where
  "first_cell cs \<longleftrightarrow> (\<exists>b ds. cs = Some b # ds \<and> ibyte_first_byte_p b)"

text \<open>
  The characters before the gap, the gap with its sentinel, the characters after it, the end gap
  with the sentinel before it.  The byte of the end sentinel is only known to be a first byte.
\<close>

definition bt_layout :: "buffer_text \<Rightarrow> ichar list \<Rightarrow> byte cells \<Rightarrow> ichar list \<Rightarrow> byte cells \<Rightarrow> bool" where
  "bt_layout t L g R eg \<longleftrightarrow> bt_beg t = map Some (concat L) @ g @ map Some (concat R) @ eg \<and>
     bt_gpt t = 1 + length (concat L) \<and> bt_bufgpt t = 1 + length L \<and>
     bt_z t = 1 + length (concat L) + length (concat R) \<and> bt_bufz t = 1 + length L + length R \<and>
     bt_gap_size t = length g \<and> Suc (bt_end_gap_size t) = length eg \<and>
     first_cell g \<and> first_cell eg \<and> chars_ok L \<and> chars_ok R"

lemma mem_read_append: "mem_read (xs @ ys) p =
    (if p < length xs then mem_read xs p else mem_read ys (p - length xs))"
  by (auto simp: mem_read_def nth_append)

lemma holds_map_Some: "holds (map Some xs @ ys) 0 xs"
  by (simp add: holds_def mem_read_append) (simp add: mem_read_def)

lemma holds_shift: "holds (A @ m) (length A + p) xs \<longleftrightarrow> holds m p xs"
  by (simp add: holds_def mem_read_append)

lemma holds_at: "n = length A \<Longrightarrow> holds (A @ map Some xs @ B) n xs"
  using holds_shift [of A "map Some xs @ B" 0 xs] holds_map_Some by simp

lemma first_cell_head: "first_cell cs \<Longrightarrow> cs = Some (the (hd cs)) # tl cs \<and> ibyte_first_byte_p (the (hd cs))"
  by (auto simp: first_cell_def)

text \<open>The two contiguous stretches, each with the first byte that ends it.\<close>

lemma layout_before_gap:
  assumes "bt_layout t L g R eg"
  shows "\<exists>s. ibyte_first_byte_p s \<and> holds (bt_beg t) 0 (concat L @ [s])"
proof -
  obtain s where s: "g = Some s # tl g" "ibyte_first_byte_p s"
    using assms first_cell_head unfolding bt_layout_def by blast
  then have "bt_beg t = map Some (concat L @ [s]) @ tl g @ map Some (concat R) @ eg"
    using assms by (auto simp: bt_layout_def)
  with s(2) show ?thesis using holds_map_Some by metis
qed

lemma layout_after_gap:
  assumes "bt_layout t L g R eg"
  shows "\<exists>s. ibyte_first_byte_p s \<and> holds (bt_beg t) (length (concat L) + bt_gap_size t) (concat R @ [s])"
proof -
  obtain s where s: "eg = Some s # tl eg" "ibyte_first_byte_p s"
    using assms first_cell_head unfolding bt_layout_def by blast
  then have "bt_beg t = (map Some (concat L) @ g) @ map Some (concat R @ [s]) @ tl eg"
    using assms by (auto simp: bt_layout_def)
  with s(2) show ?thesis using holds_at [of _ "map Some (concat L) @ g"] assms
    by (metis bt_layout_def length_append length_map)
qed

lemma head_first:
  assumes "chars_ok D" "ibyte_first_byte_p s"
  shows "\<exists>z zs. concat D @ [s] = z # zs \<and> ibyte_first_byte_p z"
  using assms by (cases D) (auto elim: ichar_okE)

lemma VALIDATE_FORWARD_fill:
  "holds mem p (xs @ [y]) \<Longrightarrow> \<forall>b\<in>set xs. \<not> ibyte_first_byte_p b \<Longrightarrow> ibyte_first_byte_p y \<Longrightarrow>
   VALIDATE_BYTEBPOS_FORWARD mem p x = Some (x + int (length xs))"
proof (induction xs arbitrary: p x)
  case Nil
  then show ?case by (subst VALIDATE_BYTEBPOS_FORWARD.simps) (simp add: holds_Cons)
next
  case (Cons b xs)
  then show ?case by (subst VALIDATE_BYTEBPOS_FORWARD.simps) (simp add: holds_Cons)
qed

lemma VALIDATE_BACKWARD_fill:
  "holds mem p (y # xs) \<Longrightarrow> \<forall>b\<in>set xs. \<not> ibyte_first_byte_p b \<Longrightarrow> ibyte_first_byte_p y \<Longrightarrow>
   VALIDATE_BYTEBPOS_BACKWARD mem (p + length xs) x = Some (x - int (length xs))"
proof (induction xs arbitrary: x rule: rev_induct)
  case Nil
  then show ?case by (subst VALIDATE_BYTEBPOS_BACKWARD.simps) (simp add: holds_Cons)
next
  case (snoc b xs)
  then have "mem_read mem (Suc (p + length xs)) = Some b" "holds mem p (y # xs)"
    by (auto simp: holds_Cons holds_append)
  with snoc show ?case by (subst VALIDATE_BYTEBPOS_BACKWARD.simps) simp
qed

text \<open>Moving forward over a character inside one stretch.\<close>

lemma VALIDATE_FORWARD_char:
  assumes "holds mem p (c @ concat D @ [s])" "ichar_ok c" "chars_ok D" "ibyte_first_byte_p s"
  shows "VALIDATE_BYTEBPOS_FORWARD mem (Suc p) (x + 1) = Some (x + int (length c))"
proof -
  obtain b bs where c: "c = b # bs" "\<forall>x\<in>set bs. \<not> ibyte_first_byte_p x" using assms(2) by (auto elim: ichar_okE)
  obtain z zs where z: "concat D @ [s] = z # zs" "ibyte_first_byte_p z" using head_first [OF assms(3,4)] by blast
  have "holds mem p (b # (bs @ [z]) @ zs)" using assms(1) c z by simp
  then have "holds mem (Suc p) (bs @ [z])" by (simp add: holds_Cons holds_append)
  from VALIDATE_FORWARD_fill [OF this c(2) z(2), of "x + 1"] c show ?thesis by simp
qed

lemma char_split: "n < length C \<Longrightarrow> C = take n C @ C ! n # drop (Suc n) C"
  by (simp add: id_take_nth_drop)

lemma INC_BYTEBPOS_char:
  assumes lay: "bt_layout t L g R eg" and n: "n < length (L @ R)"
  shows "INC_BYTEBPOS t (1 + int (bofs (L @ R) n)) = Some (1 + int (bofs (L @ R) (Suc n)))"
proof (cases "n < length L")
  case True
  obtain s where s: "ibyte_first_byte_p s" "holds (bt_beg t) 0 (concat L @ [s])"
    using layout_before_gap [OF lay] by blast
  obtain s' where s': "ibyte_first_byte_p s'" "holds (bt_beg t) (length (concat L) + bt_gap_size t) (concat R @ [s'])"
    using layout_after_gap [OF lay] by blast
  let ?c = "L ! n" and ?D = "drop (Suc n) L"
  have L: "concat L = concat (take n L) @ ?c @ concat ?D" using arg_cong [OF char_split [OF True], of concat] by simp
  have ok: "ichar_ok ?c" "chars_ok ?D" "chars_ok R"
    using lay True by (auto simp: bt_layout_def dest: in_set_dropD)
  have b: "bofs (L @ R) n = length (concat (take n L))" "bofs (L @ R) (Suc n) = length (concat (take n L)) + length ?c"
    using True by (auto simp: bofs_append bofs_Suc) (simp_all add: bofs_def)
  have h: "holds (bt_beg t) (length (concat (take n L))) (?c @ concat ?D @ [s])"
    using s(2) by (subst (asm) L) (simp add: holds_append)
  show ?thesis
  proof (cases "Suc (length (concat (take n L))) = length (concat L)")
    case True
    then have c: "length ?c = 1" using L ichar_ok_nonempty [OF ok(1)] by (cases ?c) (auto dest: arg_cong [of _ _ length])
    obtain z zs where "concat R @ [s'] = z # zs" "ibyte_first_byte_p z" using head_first [OF ok(3) s'(1)] by blast
    then have "mem_read (bt_beg t) (length (concat L) + bt_gap_size t) = Some z" "ibyte_first_byte_p z"
      using s'(2) by (simp_all add: holds_Cons)
    moreover have "BYTE_BUF_BYTE_ADDRESS t (1 + int (length (concat (take n L))) + 1) = length (concat L) + bt_gap_size t"
      using True lay by (simp add: BYTE_BUF_BYTE_ADDRESS_def bt_layout_def)
    ultimately show ?thesis using c b
      by (simp add: INC_BYTEBPOS_def Let_def) (subst VALIDATE_BYTEBPOS_FORWARD.simps, simp)
  next
    case False
    have "Suc (length (concat (take n L))) \<le> length (concat L)"
      using L ichar_ok_nonempty [OF ok(1)] by (cases ?c) (auto dest: arg_cong [of _ _ length])
    with False have "BYTE_BUF_BYTE_ADDRESS t (1 + int (length (concat (take n L))) + 1) = Suc (length (concat (take n L)))"
      using lay by (simp add: BYTE_BUF_BYTE_ADDRESS_def bt_layout_def nat_add_distrib)
    with VALIDATE_FORWARD_char [OF h ok(1,2) s(1), of "1 + int (length (concat (take n L)))"] b show ?thesis
      by (simp add: INC_BYTEBPOS_def Let_def)
  qed
next
  case False
  obtain s' where s': "ibyte_first_byte_p s'" "holds (bt_beg t) (length (concat L) + bt_gap_size t) (concat R @ [s'])"
    using layout_after_gap [OF lay] by blast
  let ?m = "n - length L"
  let ?c = "R ! ?m" and ?D = "drop (Suc ?m) R"
  have m: "?m < length R" using n False by simp
  have R: "concat R = concat (take ?m R) @ ?c @ concat ?D" using arg_cong [OF char_split [OF m], of concat] by simp
  have ok: "ichar_ok ?c" "chars_ok ?D"
    using lay m by (auto simp: bt_layout_def dest: in_set_dropD)
  have b: "bofs (L @ R) n = length (concat L) + length (concat (take ?m R))"
      "bofs (L @ R) (Suc n) = length (concat L) + length (concat (take ?m R)) + length ?c"
    using False m bofs_Suc [OF m] by (auto simp: bofs_append Suc_diff_le) (simp_all add: bofs_def)
  have h: "holds (bt_beg t) (length (concat L) + bt_gap_size t + length (concat (take ?m R))) (?c @ concat ?D @ [s'])"
    using s'(2) by (subst (asm) R) (simp add: holds_append)
  have "BYTE_BUF_BYTE_ADDRESS t (1 + int (bofs (L @ R) n) + 1) =
      Suc (length (concat L) + bt_gap_size t + length (concat (take ?m R)))"
    using lay b by (simp add: BYTE_BUF_BYTE_ADDRESS_def bt_layout_def nat_add_distrib)
  with VALIDATE_FORWARD_char [OF h ok s'(1), of "1 + int (bofs (L @ R) n)"] b show ?thesis
    by (simp add: INC_BYTEBPOS_def Let_def)
qed


lemma DEC_BYTEBPOS_char:
  assumes lay: "bt_layout t L g R eg" and n: "n < length (L @ R)"
  shows "DEC_BYTEBPOS t (1 + int (bofs (L @ R) (Suc n))) = Some (1 + int (bofs (L @ R) n))"
proof -
  let ?c = "(L @ R) ! n"
  let ?p = "if n < length L then bofs (L @ R) n else bofs (L @ R) n + bt_gap_size t"
  have "?c \<in> set (L @ R)" using n nth_mem by blast
  then have "ichar_ok ?c" using lay by (auto simp: bt_layout_def)
  then obtain b bs where c: "?c = b # bs" "ibyte_first_byte_p b" "\<forall>x\<in>set bs. \<not> ibyte_first_byte_p x"
    by (auto elim: ichar_okE)
  have b: "bofs (L @ R) (Suc n) = bofs (L @ R) n + length ?c" using n by (rule bofs_Suc)
  have h: "holds (bt_beg t) ?p ?c"
  proof (cases "n < length L")
    case True
    have "concat L = concat (take n L) @ L ! n @ concat (drop (Suc n) L)"
      using arg_cong [OF char_split [OF True], of concat] by simp
    with layout_before_gap [OF lay] True show ?thesis
      by (auto simp: holds_append nth_append bofs_append) (auto simp: bofs_def)
  next
    case False
    let ?m = "n - length L"
    have m: "?m < length R" using n False by simp
    have R: "concat R = concat (take ?m R) @ R ! ?m @ concat (drop (Suc ?m) R)"
      using arg_cong [OF char_split [OF m], of concat] by simp
    have "holds (bt_beg t) (length (concat L) + bt_gap_size t) (concat R)"
      using layout_after_gap [OF lay] by (auto simp: holds_append)
    then have "holds (bt_beg t) (length (concat L) + bt_gap_size t + length (concat (take ?m R))) (R ! ?m)"
      by (subst (asm) R) (simp add: holds_append)
    moreover have "bofs (L @ R) n = length (concat L) + length (concat (take ?m R))"
      using False by (auto simp: bofs_append) (simp_all add: bofs_def)
    then have "bofs (L @ R) n + bt_gap_size t = length (concat L) + bt_gap_size t + length (concat (take ?m R))"
      by simp
    ultimately show ?thesis using False by (simp add: nth_append ac_simps)
  qed
  have le: "bofs (L @ R) (Suc n) \<le> length (concat L)" if "n < length L"
    using that by (simp add: bofs_append bofs_le)
  have ge: "length (concat L) \<le> bofs (L @ R) n" if "\<not> n < length L"
    using that by (auto simp: bofs_append) (simp add: bofs_def)
  have "BYTE_BUF_BYTE_ADDRESS t (1 + int (bofs (L @ R) (Suc n)) - 1) = ?p + length bs"
    using lay b c le ge by (auto simp: BYTE_BUF_BYTE_ADDRESS_def bt_layout_def)
  moreover have "VALIDATE_BYTEBPOS_BACKWARD (bt_beg t) (?p + length bs) (1 + int (bofs (L @ R) (Suc n)) - 1) =
      Some (1 + int (bofs (L @ R) (Suc n)) - 1 - int (length bs))"
    using h c by (intro VALIDATE_BACKWARD_fill) auto
  ultimately show ?thesis using b c by (simp add: DEC_BYTEBPOS_def Let_def)
qed

text \<open>The same in character positions.\<close>

lemma INC_BYTEBPOS_next:
  assumes "bt_layout t L g R eg" "C = L @ R" "1 \<le> c" "c \<le> int (length C)"
  shows "INC_BYTEBPOS t (char_to_byte C c) = Some (char_to_byte C (c + 1))"
proof -
  have "Suc (nat (c - 1)) = nat c" using assms(3) by simp
  then show ?thesis using INC_BYTEBPOS_char [OF assms(1), of "nat (c - 1)"] assms(2-) by (simp add: char_to_byte_def)
qed

lemma DEC_BYTEBPOS_prev:
  assumes "bt_layout t L g R eg" "C = L @ R" "1 \<le> c" "c \<le> int (length C)"
  shows "DEC_BYTEBPOS t (char_to_byte C (c + 1)) = Some (char_to_byte C c)"
proof -
  have "Suc (nat (c - 1)) = nat c" using assms(3) by simp
  then show ?thesis using DEC_BYTEBPOS_char [OF assms(1), of "nat (c - 1)"] assms(2-) by (simp add: char_to_byte_def)
qed

lemma scan_up_to_char_correct:
  assumes "bt_layout t L g R eg" "C = L @ R" "1 \<le> x" "x \<le> 1 + int (length C)"
  shows "1 \<le> c \<Longrightarrow> c \<le> x \<Longrightarrow> scan_up_to_char t x c (char_to_byte C c) = Some (char_to_byte C x)"
proof (induction "nat (x - c)" arbitrary: c)
  case 0
  then show ?case by (subst scan_up_to_char.simps) simp
next
  case (Suc n)
  then have "n = nat (x - (c + 1))" "1 \<le> c + 1" "c + 1 \<le> x" "c \<le> int (length C)" "c \<noteq> x"
    using assms(4) by linarith+
  with Suc INC_BYTEBPOS_next [OF assms(1,2)] show ?case by (subst scan_up_to_char.simps) simp
qed

lemma scan_down_to_char_correct:
  assumes "bt_layout t L g R eg" "C = L @ R" "1 \<le> x"
  shows "x \<le> c \<Longrightarrow> c \<le> 1 + int (length C) \<Longrightarrow> scan_down_to_char t x c (char_to_byte C c) = Some (char_to_byte C x)"
proof (induction "nat (c - x)" arbitrary: c)
  case 0
  then show ?case by (subst scan_down_to_char.simps) simp
next
  case (Suc n)
  then have n: "n = nat ((c - 1) - x)" "x \<le> c - 1" "c - 1 \<le> 1 + int (length C)" "c \<noteq> x" "1 \<le> c - 1"
    using assms(3) by linarith+
  have "DEC_BYTEBPOS t (char_to_byte C (c - 1 + 1)) = Some (char_to_byte C (c - 1))"
    using n Suc.prems by (intro DEC_BYTEBPOS_prev [OF assms(1,2)]) auto
  with Suc(1) [OF n(1-3)] n show ?case by (subst scan_down_to_char.simps) simp
qed

lemma scan_up_to_byte_correct:
  assumes "bt_layout t L g R eg" "C = L @ R" "1 \<le> x" "x \<le> 1 + int (length C)" "chars_ok C"
  shows "1 \<le> c \<Longrightarrow> c \<le> x \<Longrightarrow>
    scan_up_to_byte t (char_to_byte C x) c (char_to_byte C c) = Some (x, char_to_byte C x)"
proof (induction "nat (x - c)" arbitrary: c)
  case 0
  then show ?case by (subst scan_up_to_byte.simps) simp
next
  case (Suc n)
  then have "n = nat (x - (c + 1))" "1 \<le> c + 1" "c + 1 \<le> x" "c \<le> int (length C)" "c < x"
    using assms(4) by linarith+
  with Suc INC_BYTEBPOS_next [OF assms(1,2)] char_to_byte_less [OF assms(5), of c x] assms(4)
  show ?case by (subst scan_up_to_byte.simps) simp
qed

lemma scan_down_to_byte_correct:
  assumes "bt_layout t L g R eg" "C = L @ R" "1 \<le> x" "chars_ok C"
  shows "x \<le> c \<Longrightarrow> c \<le> 1 + int (length C) \<Longrightarrow>
    scan_down_to_byte t (char_to_byte C x) c (char_to_byte C c) = Some (x, char_to_byte C x)"
proof (induction "nat (c - x)" arbitrary: c)
  case 0
  then show ?case by (subst scan_down_to_byte.simps) simp
next
  case (Suc n)
  then have n: "n = nat ((c - 1) - x)" "x \<le> c - 1" "c - 1 \<le> 1 + int (length C)" "x < c" "1 \<le> c - 1"
    using assms(3) by linarith+
  have "DEC_BYTEBPOS t (char_to_byte C (c - 1 + 1)) = Some (char_to_byte C (c - 1))"
    using n Suc.prems by (intro DEC_BYTEBPOS_prev [OF assms(1,2)]) auto
  with Suc(1) [OF n(1-3)] n char_to_byte_less [OF assms(4), of x c] Suc.prems assms(3)
  show ?case by (subst scan_down_to_byte.simps) simp
qed


section \<open>Conversions are correct\<close>

definition bounds_ok :: "ichar list \<Rightarrow> int \<Rightarrow> bounds \<Rightarrow> bool" where
  "bounds_ok C k bd \<longleftrightarrow> pos_pair C (best_below bd, best_below_byte bd) \<and>
     pos_pair C (best_above bd, best_above_byte bd) \<and> best_below bd \<le> k \<and> k \<le> best_above bd"

lemma bounds_linear:
  assumes "chars_ok C" "bounds_ok C k bd"
    "best_above bd - best_below bd = best_above_byte bd - best_below_byte bd"
  shows "char_to_byte C k = best_below_byte bd + (k - best_below bd)"
  using char_to_byte_linear [OF assms(1), of "best_below bd" k "best_above bd"] assms(2,3)
  by (auto simp: bounds_ok_def pos_pair_def)

lemma initial_bounds_ok:
  assumes "bt_layout t L g R eg" "1 \<le> k" "k \<le> 1 + int (length (L @ R))"
  shows "bounds_ok (L @ R) k (initial_bounds t)"
  using assms char_to_byte_end [of "L @ R"]
  by (auto simp: bounds_ok_def pos_pair_def initial_bounds_def bt_layout_def BUF_BEG_def BYTE_BUF_BEG_def)

lemma CONSIDER_char_ok:
  assumes "chars_ok C" "pos_pair C (c, b)" "bounds_ok C k bd"
  shows "case CONSIDER_char k c b bd of Inl r \<Rightarrow> r = char_to_byte C k | Inr bd' \<Rightarrow> bounds_ok C k bd'"
proof -
  have "bounds_ok C k (bd\<lparr>best_above := c, best_above_byte := b\<rparr>)" if "k < c"
    using assms(2,3) that by (auto simp: bounds_ok_def)
  moreover have "bounds_ok C k (bd\<lparr>best_below := c, best_below_byte := b\<rparr>)" if "c < k"
    using assms(2,3) that by (auto simp: bounds_ok_def)
  ultimately show ?thesis
    using assms bounds_linear [OF assms(1)]
    by (auto simp: CONSIDER_char_def Let_def pos_pair_def)
qed

lemma CONSIDER_byte_ok:
  assumes "chars_ok C" "pos_pair C (c, b)" "bounds_ok C k bd"
  shows "case CONSIDER_byte (char_to_byte C k) b c bd of Inl r \<Rightarrow> r = k | Inr bd' \<Rightarrow> bounds_ok C k bd'"
proof -
  have k: "1 \<le> k" "k \<le> 1 + int (length C)" using assms(3) by (auto simp: bounds_ok_def pos_pair_def)
  have "bounds_ok C k (bd\<lparr>best_above := c, best_above_byte := b\<rparr>)" if "k < c"
    using assms(2,3) that by (auto simp: bounds_ok_def)
  moreover have "bounds_ok C k (bd\<lparr>best_below := c, best_below_byte := b\<rparr>)" if "c < k"
    using assms(2,3) that by (auto simp: bounds_ok_def)
  moreover have "b = char_to_byte C k \<longleftrightarrow> c = k" "b > char_to_byte C k \<longleftrightarrow> k < c"
    using assms(1,2) k char_to_byte_eq [OF assms(1), of c k] char_to_byte_less [OF assms(1), of k c]
    by (auto simp: pos_pair_def)
  ultimately show ?thesis
    using assms bounds_linear [OF assms(1)]
    by (auto simp: CONSIDER_byte_def Let_def)
qed

lemma consider_all_ok:
  assumes "\<And>p bd. p \<in> set ps \<Longrightarrow> I bd \<Longrightarrow> case f p bd of Inl r \<Rightarrow> r = v | Inr bd' \<Rightarrow> I bd'"
  shows "I bd \<Longrightarrow> case consider_all f ps bd of Inl r \<Rightarrow> r = v | Inr bd' \<Rightarrow> I bd'"
  using assms
proof (induction ps arbitrary: bd)
  case (Cons p ps)
  from Cons.prems(2) [of p bd] Cons.prems(1) Cons show ?case by (cases "f p bd") auto
qed simp

lemma consider_cache_ok:
  assumes "\<And>p bd. p \<in> set ps \<Longrightarrow> I bd \<Longrightarrow> case f p bd of Inl r \<Rightarrow> r = v | Inr bd' \<Rightarrow> I bd'"
  shows "I bd \<Longrightarrow> case consider_cache f ps bd of Inl r \<Rightarrow> r = v | Inr bd' \<Rightarrow> I bd'"
  using assms
proof (induction ps arbitrary: bd)
  case (Cons p ps)
  from Cons.prems(2) [of p bd] Cons.prems(1) Cons show ?case by (cases "f p bd") auto
qed simp

definition caches_ok :: "buffer_text \<Rightarrow> ichar list \<Rightarrow> bool" where
  "caches_ok t C \<longleftrightarrow> pos_pair C (bt_cached_charpos t, bt_cached_bytepos t) \<and>
     (\<forall>p\<in>set (bt_pos_cache t). pos_pair C p) \<and> length (bt_pos_cache t) \<le> NUM_CACHED_POSITIONS"

definition buffer_pairs_ok :: "buffer \<Rightarrow> ichar list \<Rightarrow> bool" where
  "buffer_pairs_ok b C \<longleftrightarrow> pos_pair C (b_bufpt b, b_pt b) \<and> pos_pair C (b_bufbegv b, b_begv b) \<and>
     pos_pair C (b_bufzv b, b_zv b)"

lemma known_positions_ok:
  assumes "bt_layout t L g R eg" "caches_ok t (L @ R)" "buffer_pairs_ok b (L @ R)"
  shows "\<forall>p\<in>set (known_positions t b) \<union> set (bt_pos_cache t). pos_pair (L @ R) p"
proof -
  have "pos_pair (L @ R) (int (bt_bufgpt t), int (bt_gpt t))"
    using assms(1) by (auto simp: pos_pair_def bt_layout_def char_to_byte_def bofs_append bofs_all)
  with assms show ?thesis by (auto simp: known_positions_def caches_ok_def buffer_pairs_ok_def)
qed

lemma consider_known_ok:
  assumes "\<And>p bd. p \<in> set (known_positions t b) \<union> set (bt_pos_cache t) \<Longrightarrow> I bd \<Longrightarrow>
      case f p bd of Inl r \<Rightarrow> r = v | Inr bd' \<Rightarrow> I bd'"
    and "I (initial_bounds t)"
  shows "case consider_known f t b of Inl r \<Rightarrow> r = v | Inr bd' \<Rightarrow> I bd'"
proof -
  have "case consider_all f (known_positions t b) (initial_bounds t) of Inl r \<Rightarrow> r = v | Inr bd' \<Rightarrow> I bd'"
    using assms by (intro consider_all_ok) auto
  moreover have "case consider_cache f (rev (bt_pos_cache t)) bd of Inl r \<Rightarrow> r = v | Inr bd' \<Rightarrow> I bd'"
    if "I bd" for bd using assms that by (intro consider_cache_ok) auto
  ultimately show ?thesis
    by (cases "consider_all f (known_positions t b) (initial_bounds t)") (simp_all add: consider_known_def)
qed

text \<open>A conversion changes the caches of the text only.\<close>

definition same_but_caches :: "buffer_text \<Rightarrow> buffer_text \<Rightarrow> bool" where
  "same_but_caches t t' \<longleftrightarrow> t'\<lparr>bt_pos_cache := bt_pos_cache t, bt_cached_charpos := bt_cached_charpos t,
     bt_cached_bytepos := bt_cached_bytepos t\<rparr> = t"

lemma same_but_caches_refl [simp]: "same_but_caches t t"
  by (simp add: same_but_caches_def)

lemma same_but_caches_trans: "same_but_caches t t' \<Longrightarrow> same_but_caches t' t'' \<Longrightarrow> same_but_caches t t''"
  unfolding same_but_caches_def by (cases t; cases t'; cases t'') simp

lemma same_but_caches_sel:
  assumes "same_but_caches t t'"
  shows "bt_beg t' = bt_beg t" "bt_gpt t' = bt_gpt t" "bt_bufgpt t' = bt_bufgpt t" "bt_z t' = bt_z t"
    "bt_bufz t' = bt_bufz t" "bt_gap_size t' = bt_gap_size t" "bt_end_gap_size t' = bt_end_gap_size t"
    "bt_modiff t' = bt_modiff t" "bt_save_modiff t' = bt_save_modiff t"
    "bt_entirely_one_byte_p t' = bt_entirely_one_byte_p t" "bt_num_ascii_chars t' = bt_num_ascii_chars t"
    "bt_in_multiple_change t' = bt_in_multiple_change t" "bt_mc_begin t' = bt_mc_begin t"
    "bt_mc_orig_end t' = bt_mc_orig_end t" "bt_mc_new_end t' = bt_mc_new_end t"
    "bt_mc_begin_signaled t' = bt_mc_begin_signaled t"
  using assms unfolding same_but_caches_def by (cases t; cases t'; simp)+

lemma cache_position_ok:
  assumes "caches_ok t C" "pos_pair C (c, b)"
  shows "caches_ok (cache_position r c b t) C" "same_but_caches t (cache_position r c b t)"
  using assms by (auto simp: cache_position_def caches_ok_def same_but_caches_def Let_def
      NUM_CACHED_POSITIONS_def NUM_MOVED_POSITIONS_def dest: in_set_dropD)

lemma charbpos_to_bytebpos_ok:
  assumes lay: "bt_layout t L g R eg" and cache: "caches_ok t (L @ R)" and buf: "buffer_pairs_ok b (L @ R)"
    and one: "bt_entirely_one_byte_p t \<longleftrightarrow> bt_bufz t = bt_z t"
    and x: "1 \<le> x" "x \<le> 1 + int (length (L @ R))"
  shows "\<exists>t'. charbpos_to_bytebpos t b x = Some (char_to_byte (L @ R) x, t') \<and>
    same_but_caches t t' \<and> caches_ok t' (L @ R)"
proof (cases "bt_entirely_one_byte_p t")
  case True
  have ok: "chars_ok (L @ R)" using lay by (auto simp: bt_layout_def)
  have "int (length (concat (L @ R))) = int (length (L @ R))"
    using True one lay by (simp add: bt_layout_def)
  then have "char_to_byte (L @ R) x = char_to_byte (L @ R) 1 + (x - 1)"
    using x by (intro char_to_byte_linear [OF ok, of _ _ "1 + int (length (L @ R))"]) (simp_all del: length_append concat_append)
  with True cache show ?thesis by (auto simp: charbpos_to_bytebpos_def)
next
  case False
  let ?C = "L @ R"
  have ok: "chars_ok ?C" using lay by (auto simp: bt_layout_def)
  let ?k = "consider_known (\<lambda>(c, by). CONSIDER_char x c by) t b"
  have k: "case ?k of Inl r \<Rightarrow> r = char_to_byte ?C x | Inr bd \<Rightarrow> bounds_ok ?C x bd"
    using known_positions_ok [OF lay cache buf] initial_bounds_ok [OF lay x] CONSIDER_char_ok [OF ok]
    by (intro consider_known_ok) auto
  show ?thesis
  proof (cases ?k)
    case (Inl r)
    with k False cache show ?thesis by (simp add: charbpos_to_bytebpos_def charbpos_to_bytebpos_func_def)
  next
    case (Inr bd)
    with k have bd: "bounds_ok ?C x bd" by simp
    then have "scan_up_to_char t x (best_below bd) (best_below_byte bd) = Some (char_to_byte ?C x)"
        "scan_down_to_char t x (best_above bd) (best_above_byte bd) = Some (char_to_byte ?C x)"
      using scan_up_to_char_correct [OF lay refl x, of "best_below bd"]
        scan_down_to_char_correct [OF lay refl x(1), of "best_above bd"]
      by (auto simp: bounds_ok_def pos_pair_def)
    moreover have "pos_pair ?C (x, char_to_byte ?C x)" using x by (simp add: pos_pair_def)
    ultimately show ?thesis using Inr False cache_position_ok [OF cache]
      by (auto simp: charbpos_to_bytebpos_def charbpos_to_bytebpos_func_def)
  qed
qed

lemma bytebpos_to_charbpos_ok:
  assumes lay: "bt_layout t L g R eg" and cache: "caches_ok t (L @ R)" and buf: "buffer_pairs_ok b (L @ R)"
    and one: "bt_entirely_one_byte_p t \<longleftrightarrow> bt_bufz t = bt_z t"
    and x: "1 \<le> x" "x \<le> 1 + int (length (L @ R))"
  shows "\<exists>t'. bytebpos_to_charbpos t b (char_to_byte (L @ R) x) = Some (x, t') \<and>
    same_but_caches t t' \<and> caches_ok t' (L @ R)"
proof (cases "bt_entirely_one_byte_p t")
  case True
  have ok: "chars_ok (L @ R)" using lay by (auto simp: bt_layout_def)
  have "int (length (concat (L @ R))) = int (length (L @ R))"
    using True one lay by (simp add: bt_layout_def)
  then have "char_to_byte (L @ R) x = char_to_byte (L @ R) 1 + (x - 1)"
    using x by (intro char_to_byte_linear [OF ok, of _ _ "1 + int (length (L @ R))"]) (simp_all del: length_append concat_append)
  with True cache show ?thesis by (auto simp: bytebpos_to_charbpos_def)
next
  case False
  let ?C = "L @ R"
  have ok: "chars_ok ?C" using lay by (auto simp: bt_layout_def)
  let ?x = "char_to_byte ?C x"
  let ?k = "consider_known (\<lambda>(c, by). CONSIDER_byte ?x by c) t b"
  have k: "case ?k of Inl r \<Rightarrow> r = x | Inr bd \<Rightarrow> bounds_ok ?C x bd"
    using known_positions_ok [OF lay cache buf] initial_bounds_ok [OF lay x] CONSIDER_byte_ok [OF ok]
    by (intro consider_known_ok) auto
  show ?thesis
  proof (cases ?k)
    case (Inl r)
    with k False cache show ?thesis by (simp add: bytebpos_to_charbpos_def bytebpos_to_charbpos_func_def)
  next
    case (Inr bd)
    with k have bd: "bounds_ok ?C x bd" by simp
    then have "scan_up_to_byte t ?x (best_below bd) (best_below_byte bd) = Some (x, ?x)"
        "scan_down_to_byte t ?x (best_above bd) (best_above_byte bd) = Some (x, ?x)"
      using scan_up_to_byte_correct [OF lay refl x ok, of "best_below bd"]
        scan_down_to_byte_correct [OF lay refl x(1) ok, of "best_above bd"]
      by (auto simp: bounds_ok_def pos_pair_def)
    moreover have "pos_pair ?C (x, ?x)" using x by (simp add: pos_pair_def)
    ultimately show ?thesis using Inr False cache_position_ok [OF cache]
      by (auto simp: bytebpos_to_charbpos_def bytebpos_to_charbpos_func_def)
  qed
qed


section \<open>Positions across an insertion and a deletion\<close>

lemma bofs_list_insert:
  assumes "n \<le> length C"
  shows "m \<le> n \<Longrightarrow> bofs (list_insert C n S) m = bofs C m"
    and "n \<le> m \<Longrightarrow> bofs (list_insert C n S) (m + length S) = bofs C m + length (concat S)"
proof -
  show "bofs (list_insert C n S) m = bofs C m" if "m \<le> n"
    using that assms by (simp add: list_insert_def bofs_append) (simp add: bofs_def min_absorb1)
  have "take m C = take n C @ take (m - n) (drop n C)" if "n \<le> m"
    using that by (metis le_add_diff_inverse take_add)
  then show "bofs (list_insert C n S) (m + length S) = bofs C m + length (concat S)" if "n \<le> m"
    using that assms by (simp add: list_insert_def bofs_def)
qed

lemma bofs_list_delete:
  assumes "n + k \<le> length C"
  shows "m \<le> n \<Longrightarrow> bofs (list_delete C n k) m = bofs C m"
    and "n + k \<le> m \<Longrightarrow> bofs (list_delete C n k) (m - k) + bofs C (n + k) = bofs C m + bofs C n"
proof -
  show "bofs (list_delete C n k) m = bofs C m" if "m \<le> n"
    using that assms by (simp add: list_delete_def bofs_append) (simp add: bofs_def min_absorb1)
  have "take m C = take (n + k) C @ take (m - (n + k)) (drop (n + k) C)" if "n + k \<le> m"
    using that by (metis le_add_diff_inverse take_add)
  then show "bofs (list_delete C n k) (m - k) + bofs C (n + k) = bofs C m + bofs C n" if "n + k \<le> m"
    using that assms by (simp add: list_delete_def bofs_def diff_commute add.commute)
qed

text \<open>A pair of positions beyond the change moves; one inside a deleted range goes to its start.\<close>

definition pair_insert :: "int \<Rightarrow> ichar list \<Rightarrow> int \<times> int \<Rightarrow> int \<times> int" where
  "pair_insert start S p =
     (if fst p > start then (fst p + int (length S), snd p + int (length (concat S))) else p)"

definition pair_delete :: "int \<Rightarrow> int \<Rightarrow> int \<Rightarrow> int \<Rightarrow> int \<times> int \<Rightarrow> int \<times> int" where
  "pair_delete start en bstart bend p =
     (if fst p > en then (fst p - (en - start), snd p - (bend - bstart))
      else if fst p > start then (start, bstart) else p)"

lemma pos_pair_insert:
  assumes "pos_pair C p" "1 \<le> start" "start \<le> 1 + int (length C)"
  shows "pos_pair (list_insert C (nat (start - 1)) S) (pair_insert start S p)"
proof -
  let ?n = "nat (start - 1)"
  have n: "?n \<le> length C" using assms(3) by linarith
  show ?thesis
  proof (cases "fst p > start")
    case True
    let ?m = "nat (fst p - 1)"
    have "nat (fst p + int (length S) - 1) = ?m + length S" "?n \<le> ?m" using True assms(2) by linarith+
    with assms True bofs_list_insert(2) [OF n, of ?m S] show ?thesis
      by (simp add: pair_insert_def pos_pair_def char_to_byte_def)
  next
    case False
    then have "nat (fst p - 1) \<le> ?n" by linarith
    with assms False bofs_list_insert(1) [OF n, of "nat (fst p - 1)" S] show ?thesis
      by (auto simp: pair_insert_def pos_pair_def char_to_byte_def)
  qed
qed

lemma pos_pair_delete:
  assumes "pos_pair C p" "pos_pair C (start, bstart)" "pos_pair C (en, bend)" "start \<le> en"
  shows "pos_pair (list_delete C (nat (start - 1)) (nat (en - start))) (pair_delete start en bstart bend p)"
proof -
  let ?n = "nat (start - 1)" and ?k = "nat (en - start)"
  have nk: "?n + ?k \<le> length C" "nat (en - 1) = ?n + ?k" using assms(2-4) by (auto simp: pos_pair_def)
  have len: "int (length (list_delete C ?n ?k)) = int (length C) - (en - start)"
    using nk assms(4) by (simp add: of_nat_diff)
  consider "fst p > en" | "start < fst p" "fst p \<le> en" | "fst p \<le> start" by linarith
  then show ?thesis
  proof cases
    case 1
    let ?m = "nat (fst p - 1)"
    have m: "?n + ?k \<le> ?m" "nat (fst p - (en - start) - 1) = ?m - ?k"
      using 1 assms(2,4) by (auto simp: pos_pair_def)
    have "int (bofs (list_delete C ?n ?k) (?m - ?k)) = int (bofs C ?m) - (int (bofs C (?n + ?k)) - int (bofs C ?n))"
      using bofs_list_delete(2) [OF nk(1) m(1)] by linarith
    with 1 m nk(2) len assms show ?thesis by (simp add: pair_delete_def pos_pair_def char_to_byte_def)
  next
    case 2
    then show ?thesis using bofs_list_delete(1) [OF nk(1), of ?n] len assms
      by (auto simp: pair_delete_def pos_pair_def char_to_byte_def)
  next
    case 3
    then have "nat (fst p - 1) \<le> ?n" by linarith
    with 3 assms bofs_list_delete(1) [OF nk(1), of "nat (fst p - 1)"] len show ?thesis
      by (auto simp: pair_delete_def pos_pair_def char_to_byte_def)
  qed
qed

lemma caches_ok_signal_inserted:
  assumes "caches_ok t C" "1 \<le> start" "start \<le> 1 + int (length C)"
  shows "caches_ok (buffer_mule_signal_inserted_region start (int (length (concat S))) (int (length S)) t)
    (list_insert C (nat (start - 1)) S)"
proof -
  have adj: "(\<lambda>(c, b). if c > start then (c + int (length S), b + int (length (concat S))) else (c, b)) =
      pair_insert start S" by (auto simp: pair_insert_def fun_eq_iff)
  have "pos_pair (list_insert C (nat (start - 1)) S) (pair_insert start S p)" if "pos_pair C p" for p
    using pos_pair_insert [OF that] assms(2,3) .
  with assms(1) show ?thesis
    by (simp add: caches_ok_def buffer_mule_signal_inserted_region_def adj Let_def split_beta)
qed

lemma caches_ok_signal_deleted:
  assumes "caches_ok t C" "pos_pair C (start, bstart)" "pos_pair C (en, bend)" "start \<le> en"
  shows "caches_ok (buffer_mule_signal_deleted_region start en bstart bend t)
    (list_delete C (nat (start - 1)) (nat (en - start)))"
proof -
  have adj: "(\<lambda>(c, b). if c > en then (c - (en - start), b - (bend - bstart))
      else if c > start then (start, bstart) else (c, b)) = pair_delete start en bstart bend"
    by (auto simp: pair_delete_def fun_eq_iff)
  have "pos_pair (list_delete C (nat (start - 1)) (nat (en - start))) (pair_delete start en bstart bend p)"
    if "pos_pair C p" for p using pos_pair_delete [OF that] assms(2-) .
  with assms(1) show ?thesis
    by (simp add: caches_ok_def buffer_mule_signal_deleted_region_def adj Let_def split_beta)
qed


end
