(* ===== verification/Buffer_State.thy ===== *)
theory Buffer_State
  imports Buffer_Position Gap_Array Lisp_Object
begin

text \<open>
  A buffer text together with the buffers that share it, what \<open>src/insdel.c\<close> does before and
  after a change (the change hooks and multiple changes), and what \<open>src/undo.c\<close> records.

  The state holds one text and the buffers on it, the base buffer first and then its indirect
  children, in the order of \<open>MAP_INDIRECT_BUFFERS\<close>; a buffer is the index of its entry.  The Lisp
  functions on the hooks are not part of the program: a call of a hook is an entry of a log.
  Extents, the line-number cache, file locking and the flags of redisplay are left out.

  A result is \<open>None\<close> where a failing \<open>assert\<close> or an access outside the text ends the program,
  and otherwise a Lisp error (\<open>Inl\<close>) or a value (\<open>Inr\<close>) with the state.
\<close>

section \<open>The state\<close>

datatype lisp_error = Quit | Args_out_of_range | Buffer_read_only | Out_of_memory | Undo_invisible | Undo_rotten

datatype hook_call = First_change nat | Before_change nat int int | After_change nat int int int

text \<open>
  \<open>ed_quit\<close> holds the answers of the next checks for a quit; a check that says yes keeps saying
  so until the quit is signalled.  \<open>ed_base\<close> stands for the identity of the base buffer.
\<close>

record ed =
  ed_text :: buffer_text
  ed_bufs :: "buffer list"
  ed_quit :: "bool list"
  ed_inhibit_quit :: bool
  ed_inhibit_read_only :: bool
  ed_hooks :: "hook_call list"
  ed_base :: nat
  ed_last_undo_buffer :: "nat option"
  ed_pending_boundary :: bool
  ed_last_point_position :: int
  ed_last_point_position_buffer :: "nat option"

type_synonym 'a outcome = "((lisp_error + 'a) \<times> ed) option"

text \<open>Going on with the value, if there is one.\<close>

definition ebind :: "'a outcome \<Rightarrow> ('a \<Rightarrow> ed \<Rightarrow> 'b outcome) \<Rightarrow> 'b outcome" where
  "ebind m f = (case m of None \<Rightarrow> None | Some (Inl e, st) \<Rightarrow> Some (Inl e, st) | Some (Inr x, st) \<Rightarrow> f x st)"

text \<open>The loop over the buffers, by index.\<close>

fun eloop :: "(nat \<Rightarrow> ed \<Rightarrow> unit outcome) \<Rightarrow> nat list \<Rightarrow> ed \<Rightarrow> unit outcome" where
  "eloop f [] st = Some (Inr (), st)"
| "eloop f (j # js) st = ebind (f j st) (\<lambda>_. eloop f js)"

abbreviation map_indirect_buffers :: "(nat \<Rightarrow> ed \<Rightarrow> unit outcome) \<Rightarrow> ed \<Rightarrow> unit outcome" where
  "map_indirect_buffers f st \<equiv> eloop f [0..<length (ed_bufs st)] st"

definition upd_bufs :: "(buffer \<Rightarrow> buffer) \<Rightarrow> ed \<Rightarrow> ed" where
  "upd_bufs f st = st\<lparr>ed_bufs := map f (ed_bufs st)\<rparr>"

definition upd_buf :: "nat \<Rightarrow> (buffer \<Rightarrow> buffer) \<Rightarrow> ed \<Rightarrow> ed" where
  "upd_buf i f st = st\<lparr>ed_bufs := (ed_bufs st)[i := f (ed_bufs st ! i)]\<rparr>"

definition upd_text :: "(buffer_text \<Rightarrow> buffer_text) \<Rightarrow> ed \<Rightarrow> ed" where
  "upd_text f st = st\<lparr>ed_text := f (ed_text st)\<rparr>"

text \<open>Conversions in the state.\<close>

definition ed_charbpos_to_bytebpos :: "nat \<Rightarrow> int \<Rightarrow> ed \<Rightarrow> int outcome" where
  "ed_charbpos_to_bytebpos i x st =
     map_option (\<lambda>(r, t). (Inr r, st\<lparr>ed_text := t\<rparr>)) (charbpos_to_bytebpos (ed_text st) (ed_bufs st ! i) x)"

definition ed_bytebpos_to_charbpos :: "nat \<Rightarrow> int \<Rightarrow> ed \<Rightarrow> int outcome" where
  "ed_bytebpos_to_charbpos i x st =
     map_option (\<lambda>(r, t). (Inr r, st\<lparr>ed_text := t\<rparr>)) (bytebpos_to_charbpos (ed_text st) (ed_bufs st ! i) x)"

section \<open>Quitting\<close>

definition QUITP :: "bool \<Rightarrow> bool list \<Rightarrow> bool \<times> bool list" where
  "QUITP inhibit qs =
     (if inhibit then (False, qs)
      else case qs of [] \<Rightarrow> (False, []) | True # _ \<Rightarrow> (True, qs) | False # qs \<Rightarrow> (False, qs))"

text \<open>\<open>QUIT\<close>: signalling the quit resets \<open>quit-flag\<close>.\<close>

definition QUIT :: "ed \<Rightarrow> unit outcome" where
  "QUIT st = (case QUITP (ed_inhibit_quit st) (ed_quit st) of
     (True, qs) \<Rightarrow> Some (Inl Quit, st\<lparr>ed_quit := tl qs\<rparr>)
   | (False, qs) \<Rightarrow> Some (Inr (), st\<lparr>ed_quit := qs\<rparr>))"

section \<open>Point and markers\<close>

definition JUST_SET_POINT :: "int \<Rightarrow> int \<Rightarrow> buffer \<Rightarrow> buffer" where
  "JUST_SET_POINT charbpos ind b = b\<lparr>b_bufpt := charbpos, b_pt := ind\<rparr>"

definition set_marker_membpos :: "nat \<Rightarrow> int \<Rightarrow> buffer \<Rightarrow> buffer" where
  "set_marker_membpos m p b =
     b\<lparr>b_markers := map (\<lambda>k. if mk_id k = m then k\<lparr>mk_membpos := p\<rparr> else k) (b_markers b)\<rparr>"

definition set_buffer_point :: "nat \<Rightarrow> int \<Rightarrow> int \<Rightarrow> ed \<Rightarrow> unit outcome" where
  "set_buffer_point i charbpos bytpos st =
     (let b = ed_bufs st ! i in
      if \<not> (b_begv b \<le> bytpos \<and> bytpos \<le> b_zv b) then None
      else if bytpos = b_pt b then Some (Inr (), st)
      else Some (Inr (), upd_buf i
        (\<lambda>b. set_marker_membpos (b_point_marker b) (bytebpos_to_membpos (ed_text st) bytpos)
               (JUST_SET_POINT charbpos bytpos b)) st))"

definition BUF_SET_PT :: "nat \<Rightarrow> int \<Rightarrow> ed \<Rightarrow> unit outcome" where
  "BUF_SET_PT i val st = ebind (ed_charbpos_to_bytebpos i val st) (\<lambda>by. set_buffer_point i val by)"

definition BYTE_BUF_SET_PT :: "nat \<Rightarrow> int \<Rightarrow> ed \<Rightarrow> unit outcome" where
  "BYTE_BUF_SET_PT i bpval st = ebind (ed_bytebpos_to_charbpos i bpval st) (\<lambda>c. set_buffer_point i c bpval)"

definition adjust_markers :: "int \<Rightarrow> int \<Rightarrow> int \<Rightarrow> buffer \<Rightarrow> buffer" where
  "adjust_markers frm till amount b =
     b\<lparr>b_markers := map (\<lambda>m. m\<lparr>mk_membpos := do_marker_adjustment (mk_membpos m) frm till amount\<rparr>) (b_markers b)\<rparr>"

definition adjust_markers_for_insert :: "int \<Rightarrow> int \<Rightarrow> buffer \<Rightarrow> buffer" where
  "adjust_markers_for_insert ind amount b =
     b\<lparr>b_markers := map (\<lambda>m. if mk_insertion_type m \<and> mk_membpos m = ind
                            then m\<lparr>mk_membpos := mk_membpos m + amount\<rparr> else m) (b_markers b)\<rparr>"

section \<open>Before and after a change\<close>

definition buf_tick_arithcompare :: "64 word \<Rightarrow> 64 word \<Rightarrow> int" where
  "buf_tick_arithcompare val1 val2 =
     (if val1 <s val2 \<and> val2 - val1 <s drop_bit 2 (NOT 0) then - 1
      else if val1 \<noteq> val2 then 1 else 0)"

definition get_buffer_range_char :: "buffer \<Rightarrow> int \<Rightarrow> int \<Rightarrow> lisp_error + (int \<times> int)" where
  "get_buffer_range_char b frm till =
     (if frm < b_bufbegv b \<or> b_bufzv b < frm \<or> till < b_bufbegv b \<or> b_bufzv b < till
      then Inl Args_out_of_range
      else if frm > till then Inr (till, frm) else Inr (frm, till))"

definition get_buffer_range_byte :: "nat \<Rightarrow> int \<Rightarrow> int \<Rightarrow> ed \<Rightarrow> (int \<times> int) outcome" where
  "get_buffer_range_byte i frm till st =
     (case get_buffer_range_char (ed_bufs st ! i) frm till of
        Inl e \<Rightarrow> Some (Inl e, st)
      | Inr (s, e) \<Rightarrow>
          ebind (ed_charbpos_to_bytebpos i s st) (\<lambda>bs st.
          ebind (ed_charbpos_to_bytebpos i e st) (\<lambda>be st. Some (Inr (bs, be), st))))"

definition Fbarf_if_buffer_read_only :: "int \<Rightarrow> int \<Rightarrow> nat \<Rightarrow> ed \<Rightarrow> unit outcome" where
  "Fbarf_if_buffer_read_only start en i st =
     ebind (get_buffer_range_byte i start en st) (\<lambda>_ st.
       if \<not> ed_inhibit_read_only st \<and> b_read_only (ed_bufs st ! i) then Some (Inl Buffer_read_only, st)
       else Some (Inr (), st))"

definition buffer_signal_changed_region :: "buffer_text \<Rightarrow> int \<Rightarrow> int \<Rightarrow> buffer \<Rightarrow> buffer" where
  "buffer_signal_changed_region t start en b =
     (let b = (if b_begin_unchanged b < 0 \<or> b_begin_unchanged b > start - BYTE_BUF_BEG
               then b\<lparr>b_begin_unchanged := start - BYTE_BUF_BEG\<rparr> else b)
      in if b_end_unchanged b < 0 \<or> b_end_unchanged b > int (bt_z t) - en
         then b\<lparr>b_end_unchanged := int (bt_z t) - en\<rparr> else b)"

definition buffer_reset_changes :: "buffer \<Rightarrow> buffer" where
  "buffer_reset_changes b = b\<lparr>b_begin_unchanged := - 1, b_end_unchanged := - 1, b_newline_was_deleted := False\<rparr>"

definition clip :: "buffer \<Rightarrow> int \<Rightarrow> int" where
  "clip b x = (let x = (if x < b_bufbegv b then b_bufbegv b else x) in if x > b_bufzv b then b_bufzv b else x)"

definition call_hooks :: "(nat \<Rightarrow> hook_call) \<Rightarrow> ed \<Rightarrow> ed" where
  "call_hooks h st = st\<lparr>ed_hooks := ed_hooks st @ map h [0..<length (ed_bufs st)]\<rparr>"

text \<open>The byte positions of a region, as the extents are told.\<close>

definition report_extent_modification :: "nat \<Rightarrow> int \<Rightarrow> int \<Rightarrow> ed \<Rightarrow> unit outcome" where
  "report_extent_modification i start en st =
     (let b = ed_bufs st ! i in
      ebind (ed_charbpos_to_bytebpos i (clip b start) st) (\<lambda>_ st.
      ebind (ed_charbpos_to_bytebpos i (clip b en) st) (\<lambda>_ st. Some (Inr (), st))))"

definition signal_after_change :: "nat \<Rightarrow> int \<Rightarrow> int \<Rightarrow> int \<Rightarrow> ed \<Rightarrow> unit outcome" where
  "signal_after_change i start orig_end new_end st =
     ebind (ed_charbpos_to_bytebpos i start st) (\<lambda>bstart st.
     ebind (ed_charbpos_to_bytebpos i new_end st) (\<lambda>bend st.
       let st = upd_bufs (buffer_signal_changed_region (ed_text st) bstart bend) st;
           t = ed_text st in
       if bt_in_multiple_change t \<noteq> 0 \<and> bt_mc_begin t \<noteq> 0 then
         if bt_mc_begin t \<le> start \<and> start \<le> bt_mc_new_end t \<and>
            bt_mc_begin t \<le> orig_end \<and> orig_end \<le> bt_mc_new_end t
         then Some (Inr (), upd_text (\<lambda>t. t\<lparr>bt_mc_new_end := bt_mc_new_end t + (new_end - orig_end)\<rparr>) st)
         else None
       else
         report_extent_modification i start new_end
           (call_hooks (\<lambda>j. After_change j start new_end (orig_end - start)) st)))"

definition cancel_multiple_change :: "nat \<Rightarrow> ed \<Rightarrow> unit outcome" where
  "cancel_multiple_change i st =
     (let t = ed_text st; st' = upd_text (\<lambda>t. t\<lparr>bt_mc_begin := 0\<rparr>) st in
      if bt_mc_begin t \<noteq> 0 \<and> bt_mc_begin_signaled t
      then signal_after_change i (bt_mc_begin t) (bt_mc_orig_end t) (bt_mc_new_end t) st'
      else Some (Inr (), st'))"

definition begin_multiple_change :: "nat \<Rightarrow> int \<Rightarrow> int \<Rightarrow> ed \<Rightarrow> unit outcome" where
  "begin_multiple_change i start en st =
     (let t = ed_text st in
      ebind
        (if bt_in_multiple_change t \<noteq> 0 then
           (if bt_mc_begin t \<noteq> 0 \<and> (start < bt_mc_begin t \<or> en > bt_mc_new_end t)
            then cancel_multiple_change i st else Some (Inr (), st))
         else Some (Inr (), upd_text (\<lambda>t. t\<lparr>bt_mc_begin := start, bt_mc_orig_end := en, bt_mc_new_end := en,
                bt_mc_begin_signaled := False\<rparr>) st))
        (\<lambda>_ st. Some (Inr (), upd_text (\<lambda>t. t\<lparr>bt_in_multiple_change := Suc (bt_in_multiple_change t)\<rparr>) st)))"

definition multiple_change_finish_up :: "nat \<Rightarrow> ed \<Rightarrow> unit outcome" where
  "multiple_change_finish_up i st =
     (if \<not> b_live (ed_bufs st ! i) then Some (Inr (), st)
      else cancel_multiple_change i (upd_text (\<lambda>t. t\<lparr>bt_in_multiple_change := 0\<rparr>) st))"

definition end_multiple_change :: "nat \<Rightarrow> ed \<Rightarrow> unit outcome" where
  "end_multiple_change i st =
     (if bt_in_multiple_change (ed_text st) = 0 then None
      else let st = upd_text (\<lambda>t. t\<lparr>bt_in_multiple_change := bt_in_multiple_change t - 1\<rparr>) st in
        if bt_in_multiple_change (ed_text st) = 0 then multiple_change_finish_up i st
        else Some (Inr (), st))"

text \<open>The hooks of a change that is about to happen, once the region to report is known.\<close>

definition run_before_change :: "nat \<Rightarrow> int \<Rightarrow> int \<Rightarrow> ed \<Rightarrow> unit outcome" where
  "run_before_change i start en st =
     (let t = ed_text st;
          st = (if buf_tick_arithcompare (bt_save_modiff t) (bt_modiff t) > - 1 then call_hooks First_change st
                else st);
          st = call_hooks (\<lambda>j. Before_change j start en) st in
      ebind (report_extent_modification i start en st) (\<lambda>_ st.
        Some (Inr (), upd_text (\<lambda>t. t\<lparr>bt_mc_begin_signaled := True\<rparr>) st)))"

definition signal_before_change :: "nat \<Rightarrow> int \<Rightarrow> int \<Rightarrow> ed \<Rightarrow> unit outcome" where
  "signal_before_change i start en st =
     (let t = ed_text st in
      if bt_in_multiple_change t \<noteq> 0 \<and> bt_mc_begin t \<noteq> 0 then
        if start < bt_mc_begin t \<or> en > bt_mc_new_end t then
          ebind (cancel_multiple_change i st) (\<lambda>_. run_before_change i start en)
        else if bt_mc_begin_signaled t then Some (Inr (), st)
        else run_before_change i (bt_mc_begin t) (bt_mc_new_end t) st
      else run_before_change i start en st)"

definition prepare_to_modify_buffer :: "nat \<Rightarrow> int \<Rightarrow> int \<Rightarrow> ed \<Rightarrow> unit outcome" where
  "prepare_to_modify_buffer i start en st =
     ebind (map_indirect_buffers (Fbarf_if_buffer_read_only start en) st) (\<lambda>_ st.
       if \<not> b_live (ed_bufs st ! i) then Some (Inr (), st)
       else signal_before_change i start en st)"

end
