(* ===== verification/Undo_List.thy ===== *)
theory Undo_List
  imports Buffer_State
begin

text \<open>
  The recording half of \<open>src/undo.c\<close>: what an insertion or deletion adds to the undo list of a
  buffer, and the truncation of undo lists by the garbage collector.  The other half,
  \<open>primitive-undo\<close>, changes buffer text and comes after \<open>Buffer_Text\<close>.  The records for extents
  are left out.
\<close>

section \<open>Recording\<close>

definition cons_undo :: "undo_elt \<Rightarrow> undo_list \<Rightarrow> undo_list" where
  "cons_undo e ul = (case ul of U_t \<Rightarrow> U_t | U_list es \<Rightarrow> U_list (e # es))"

text \<open>\<open>undo_boundary\<close>; the caller has excluded an undo list \<open>t\<close>.\<close>

definition undo_boundary :: "nat \<Rightarrow> ed \<Rightarrow> ed" where
  "undo_boundary j st =
     (case b_undo_list (ed_bufs st ! j) of
        U_list (e # es) \<Rightarrow>
          if e \<noteq> U_boundary
          then upd_buf j (\<lambda>b. b\<lparr>b_undo_list := cons_undo U_boundary (b_undo_list b)\<rparr>)
                 (st\<lparr>ed_pending_boundary := False\<rparr>)
          else st
      | _ \<Rightarrow> st)"

definition undo_prelude :: "nat \<Rightarrow> bool \<Rightarrow> ed \<Rightarrow> bool \<times> ed" where
  "undo_prelude j hack_pending_boundary st =
     (if b_undo_list (ed_bufs st ! j) = U_t then (False, st)
      else
        let st = (if ed_last_undo_buffer st \<noteq> Some (ed_base st)
                  then (undo_boundary j st)\<lparr>ed_last_undo_buffer := Some (ed_base st)\<rparr> else st);
            st = (if hack_pending_boundary then st\<lparr>ed_pending_boundary := True\<rparr> else st);
            t = ed_text st;
            st = (if buf_tick_arithcompare (bt_modiff t) (bt_save_modiff t) \<le> 0
                  then upd_buf j (\<lambda>b. b\<lparr>b_undo_list := cons_undo (U_modtime (b_modtime b)) (b_undo_list b)\<rparr>) st
                  else st)
        in (True, st))"

text \<open>An insertion, joined with a consecutive insertion before it.\<close>

definition join_insert :: "int \<Rightarrow> int \<Rightarrow> undo_list \<Rightarrow> undo_list" where
  "join_insert beg len ul =
     (case ul of
        U_list (U_insert b e # es) \<Rightarrow>
          if e = beg then U_list (U_insert b (beg + len) # es)
          else U_list (U_insert beg (beg + len) # U_insert b e # es)
      | _ \<Rightarrow> cons_undo (U_insert beg (beg + len)) ul)"

definition record_insert :: "int \<Rightarrow> int \<Rightarrow> nat \<Rightarrow> ed \<Rightarrow> unit outcome" where
  "record_insert beg len j st =
     (let (go_on, st) = undo_prelude j True st in
      Some (Inr (), if go_on then upd_buf j (\<lambda>b. b\<lparr>b_undo_list := join_insert beg len (b_undo_list b)\<rparr>) st
                    else st))"

text \<open>The bytes of a region, across the gap: the string that \<open>make_string_from_buffer\<close> makes.\<close>

definition make_string_from_buffer :: "buffer_text \<Rightarrow> int \<Rightarrow> int \<Rightarrow> byte list option" where
  "make_string_from_buffer t bytepos bytelen =
     those (map (\<lambda>k. mem_read (bt_beg t) (BYTE_BUF_BYTE_ADDRESS t (bytepos + int k))) [0..<nat bytelen])"

definition Fbuffer_substring :: "nat \<Rightarrow> int \<Rightarrow> int \<Rightarrow> ed \<Rightarrow> byte list outcome" where
  "Fbuffer_substring i start en st =
     ebind (get_buffer_range_byte i start en st) (\<lambda>(begv, zv) st.
       map_option (\<lambda>s. (Inr s, st)) (make_string_from_buffer (ed_text st) begv (zv - begv)))"

definition record_delete :: "int \<Rightarrow> int \<Rightarrow> nat \<Rightarrow> ed \<Rightarrow> unit outcome" where
  "record_delete beg len j st =
     (let (go_on, st) = undo_prelude j True st in
      if \<not> go_on then Some (Inr (), st)
      else
        let b = ed_bufs st ! j;
            at_boundary = (case b_undo_list b of U_list (e # es) \<Rightarrow> e = U_boundary | _ \<Rightarrow> False);
            sbeg = (if b_bufpt b = beg + len then - beg else beg);
            st = (if at_boundary \<and> ed_last_point_position_buffer st = Some j \<and>
                     ed_last_point_position st \<noteq> sbeg
                  then upd_buf j (\<lambda>b. b\<lparr>b_undo_list :=
                         cons_undo (U_position (ed_last_point_position st)) (b_undo_list b)\<rparr>) st
                  else st)
        in ebind (Fbuffer_substring j beg (beg + len) st) (\<lambda>s st.
             Some (Inr (), upd_buf j (\<lambda>b. b\<lparr>b_undo_list := cons_undo (U_delete s sbeg) (b_undo_list b)\<rparr>) st)))"

definition record_change :: "int \<Rightarrow> int \<Rightarrow> nat \<Rightarrow> ed \<Rightarrow> unit outcome" where
  "record_change beg len j st = ebind (record_delete beg len j st) (\<lambda>_. record_insert beg len j)"

definition Fundo_boundary :: "nat \<Rightarrow> ed \<Rightarrow> ed" where
  "Fundo_boundary j st = (if b_undo_list (ed_bufs st ! j) = U_t then st else undo_boundary j st)"

section \<open>Truncation\<close>

text \<open>
  The first two arguments are \<open>sizeof (Lisp_Cons)\<close> and \<open>sizeof (Lisp_String)\<close>.  The list cell
  \<open>prev\<close> is the number of elements up to it; cutting the list after \<open>last_boundary\<close> is taking so
  many elements.
\<close>

definition undo_elt_size :: "int \<Rightarrow> int \<Rightarrow> undo_elt \<Rightarrow> int" where
  "undo_elt_size consz strsz e = consz +
     (case e of
        U_insert b en \<Rightarrow> consz
      | U_delete s p \<Rightarrow> consz + (strsz - 1 + int (length s))
      | U_modtime t \<Rightarrow> consz
      | U_other c \<Rightarrow> if c then consz else 0
      | _ \<Rightarrow> 0)"

fun truncate_first_group :: "int \<Rightarrow> int \<Rightarrow> int \<Rightarrow> nat \<Rightarrow> undo_elt list \<Rightarrow> int \<times> nat \<times> undo_elt list" where
  "truncate_first_group consz strsz sz prev [] = (sz, prev, [])"
| "truncate_first_group consz strsz sz prev (e # es) =
     (if e = U_boundary then (sz, prev, e # es)
      else truncate_first_group consz strsz (sz + undo_elt_size consz strsz e) (Suc prev) es)"

text \<open>The loop over the boundaries; the result says where to cut, \<open>None\<close> that the list is kept.\<close>

fun truncate_loop ::
    "int \<Rightarrow> int \<Rightarrow> int \<Rightarrow> int \<Rightarrow> int \<Rightarrow> nat \<Rightarrow> nat \<Rightarrow> undo_elt list \<Rightarrow> nat option" where
  "truncate_loop consz strsz minsize maxsize sz prev last_boundary [] = None"
| "truncate_loop consz strsz minsize maxsize sz prev last_boundary (e # es) =
     (if e = U_boundary \<and> sz > maxsize \<and> maxsize > 0 then Some last_boundary
      else
        let last_boundary = (if e = U_boundary then prev else last_boundary) in
        if e = U_boundary \<and> sz > minsize \<and> minsize > 0 then Some last_boundary
        else truncate_loop consz strsz minsize maxsize (sz + undo_elt_size consz strsz e) (Suc prev)
               last_boundary es)"

definition truncate_undo_list :: "int \<Rightarrow> int \<Rightarrow> undo_elt list \<Rightarrow> int \<Rightarrow> int \<Rightarrow> undo_elt list" where
  "truncate_undo_list consz strsz xs minsize maxsize =
     (if \<not> (minsize > 0 \<or> maxsize > 0) then xs
      else
        let (sz, prev, nxt) = (case xs of U_boundary # es \<Rightarrow> (consz, 1, es) | _ \<Rightarrow> (0, 0, xs));
            (sz, prev, nxt) = truncate_first_group consz strsz sz prev nxt
        in case truncate_loop consz strsz minsize maxsize sz prev prev nxt of
             None \<Rightarrow> xs
           | Some k \<Rightarrow> take k xs)"

section \<open>What truncation keeps\<close>

definition undo_size :: "int \<Rightarrow> int \<Rightarrow> undo_elt list \<Rightarrow> int" where
  "undo_size consz strsz es = sum_list (map (undo_elt_size consz strsz) es)"

text \<open>The records of the latest command: no boundary after the first element.\<close>

definition one_group :: "undo_elt list \<Rightarrow> bool" where
  "one_group es \<longleftrightarrow> U_boundary \<notin> set (tl es)"

lemma undo_size_snoc: "i < length xs \<Longrightarrow>
    undo_size c s (take (Suc i) xs) = undo_size c s (take i xs) + undo_elt_size c s (xs ! i)"
  by (simp add: undo_size_def take_Suc_conv_app_nth)

lemma truncate_first_group_correct:
  "xs = pre @ nxt \<Longrightarrow> n = length pre \<Longrightarrow> sz = undo_size c s pre \<Longrightarrow>
   truncate_first_group c s sz n nxt = (sz', n', nxt') \<Longrightarrow>
   \<exists>g. nxt = g @ nxt' \<and> U_boundary \<notin> set g \<and> n' = n + length g \<and> sz' = undo_size c s (pre @ g) \<and>
     (nxt' = [] \<or> hd nxt' = U_boundary)"
proof (induction nxt arbitrary: pre n sz)
  case (Cons e es)
  show ?case
  proof (cases "e = U_boundary")
    case False
    then have "truncate_first_group c s (sz + undo_elt_size c s e) (Suc n) es = (sz', n', nxt')"
      using Cons.prems(4) by simp
    from Cons.IH [OF _ _ _ this, of "pre @ [e]"] Cons.prems obtain g where
      "es = g @ nxt'" "U_boundary \<notin> set g" "n' = Suc n + length g" "sz' = undo_size c s ((pre @ [e]) @ g)"
      "nxt' = [] \<or> hd nxt' = U_boundary" by (auto simp: undo_size_def)
    with False show ?thesis by (intro exI [of _ "e # g"]) auto
  qed (use Cons.prems in auto)
qed simp

lemma truncate_loop_correct:
  assumes "nxt = drop prev xs" "prev \<le> length xs" "sz = undo_size c s (take prev xs)"
    and "lb \<le> prev" "lb < prev \<longrightarrow> xs ! lb = U_boundary" "lb = prev \<longrightarrow> nxt = [] \<or> hd nxt = U_boundary"
    and "maxsize > 0 \<longrightarrow> undo_size c s (take lb xs) \<le> maxsize \<or> one_group (take lb xs)"
    and "truncate_loop c s minsize maxsize sz prev lb nxt = Some k"
  shows "k < length xs \<and> lb \<le> k \<and> xs ! k = U_boundary \<and>
    (maxsize > 0 \<longrightarrow> undo_size c s (take k xs) \<le> maxsize \<or> one_group (take k xs))"
  using assms
proof (induction nxt arbitrary: prev sz lb)
  case (Cons e es)
  from Cons.prems(1) have e: "prev < length xs" "xs ! prev = e" "es = drop (Suc prev) xs"
    by (metis drop_eq_Nil list.distinct(1) not_le, metis nth_via_drop, metis drop_Suc list.sel(3) tl_drop)
  show ?case
  proof (cases "e = U_boundary \<and> sz > maxsize \<and> maxsize > 0")
    case True
    then have "k = lb" using Cons.prems(8) by simp
    moreover have "xs ! lb = U_boundary" using Cons.prems(4,5) e(2) True by (cases "lb = prev") auto
    ultimately show ?thesis using Cons.prems(4,7) e(1) by simp
  next
    case nobreak: False
    let ?lb = "if e = U_boundary then prev else lb"
    have lb: "maxsize > 0 \<longrightarrow> undo_size c s (take ?lb xs) \<le> maxsize \<or> one_group (take ?lb xs)"
      using nobreak Cons.prems(3,7) by auto
    show ?thesis
    proof (cases "e = U_boundary \<and> sz > minsize \<and> minsize > 0")
      case True
      then have "k = prev" using Cons.prems(8) nobreak by (auto cong: if_cong)
      with True lb Cons.prems(4) e show ?thesis by simp
    next
      case False
      have "k < length xs \<and> ?lb \<le> k \<and> xs ! k = U_boundary \<and>
          (maxsize > 0 \<longrightarrow> undo_size c s (take k xs) \<le> maxsize \<or> one_group (take k xs))"
      proof (rule Cons.IH [OF e(3)])
        show "sz + undo_elt_size c s e = undo_size c s (take (Suc prev) xs)"
          using Cons.prems(3) undo_size_snoc [OF e(1)] e(2) by simp
        show "truncate_loop c s minsize maxsize (sz + undo_elt_size c s e) (Suc prev) ?lb es = Some k"
          using Cons.prems(8) nobreak False by (simp add: Let_def cong: if_cong)
        show "?lb < Suc prev \<longrightarrow> xs ! ?lb = U_boundary" using Cons.prems(4-6) e by auto
      qed (use Cons.prems e lb in auto)
      moreover have "lb \<le> ?lb" using Cons.prems(4) by simp
      ultimately show ?thesis by linarith
    qed
  qed
qed simp

definition latest_command :: "undo_elt list \<Rightarrow> nat" where
  "latest_command xs = (case xs of
     U_boundary # es \<Rightarrow> Suc (length (takeWhile (\<lambda>e. e \<noteq> U_boundary) es))
   | _ \<Rightarrow> length (takeWhile (\<lambda>e. e \<noteq> U_boundary) xs))"

text \<open>A list is over a limit when the limit is in force and its size is larger.\<close>

definition over_limit :: "int \<Rightarrow> int \<Rightarrow> int \<Rightarrow> int \<Rightarrow> undo_elt list \<Rightarrow> bool" where
  "over_limit consz strsz minsize maxsize es \<longleftrightarrow>
     0 < minsize \<and> minsize < undo_size consz strsz es \<or> 0 < maxsize \<and> maxsize < undo_size consz strsz es"

lemma truncate_loop_limits:
  assumes "nxt = drop prev xs" "prev \<le> length xs" "sz = undo_size c s (take prev xs)" "lb \<le> prev"
  shows "truncate_loop c s minsize maxsize sz prev lb nxt = None \<Longrightarrow> prev \<le> i \<Longrightarrow> i < length xs \<Longrightarrow>
      xs ! i = U_boundary \<Longrightarrow> \<not> over_limit c s minsize maxsize (take i xs)"
    and "truncate_loop c s minsize maxsize sz prev lb nxt = Some k \<Longrightarrow>
      \<exists>i. k \<le> i \<and> i < length xs \<and> xs ! i = U_boundary \<and> over_limit c s minsize maxsize (take i xs)"
proof -
  have "(truncate_loop c s minsize maxsize sz prev lb nxt = None \<longrightarrow>
      (\<forall>i. prev \<le> i \<and> i < length xs \<and> xs ! i = U_boundary \<longrightarrow> \<not> over_limit c s minsize maxsize (take i xs))) \<and>
    (\<forall>k. truncate_loop c s minsize maxsize sz prev lb nxt = Some k \<longrightarrow>
      (\<exists>i. k \<le> i \<and> i < length xs \<and> xs ! i = U_boundary \<and> over_limit c s minsize maxsize (take i xs)))"
    using assms
  proof (induction nxt arbitrary: prev sz lb)
    case (Cons e es)
    from Cons.prems(1) have e: "prev < length xs" "xs ! prev = e" "es = drop (Suc prev) xs"
      by (metis drop_eq_Nil list.distinct(1) not_le, metis nth_via_drop, metis drop_Suc list.sel(3) tl_drop)
    let ?over = "over_limit c s minsize maxsize (take prev xs)"
    let ?lb = "if e = U_boundary then prev else lb"
    let ?rest = "truncate_loop c s minsize maxsize (sz + undo_elt_size c s e) (Suc prev) ?lb es"
    have IH: "(?rest = None \<longrightarrow>
        (\<forall>i. Suc prev \<le> i \<and> i < length xs \<and> xs ! i = U_boundary \<longrightarrow> \<not> over_limit c s minsize maxsize (take i xs))) \<and>
      (\<forall>k. ?rest = Some k \<longrightarrow>
        (\<exists>i. k \<le> i \<and> i < length xs \<and> xs ! i = U_boundary \<and> over_limit c s minsize maxsize (take i xs)))"
      by (rule Cons.IH) (use e Cons.prems(3,4) undo_size_snoc [OF e(1)] in auto)
    show ?case
    proof (cases "e = U_boundary \<and> ?over")
      case True
      then have "\<exists>k\<le>prev. truncate_loop c s minsize maxsize sz prev lb (e # es) = Some k"
        using Cons.prems(3,4) by (auto simp: over_limit_def)
      then show ?thesis using True e by fastforce
    next
      case False
      then have "truncate_loop c s minsize maxsize sz prev lb (e # es) = ?rest"
        using Cons.prems(3) by (auto simp: over_limit_def Let_def)
      moreover have "prev \<le> i \<and> xs ! i = U_boundary \<longrightarrow> i = prev \<and> e = U_boundary \<or> Suc prev \<le> i" for i
        using e(2) by (cases "i = prev") auto
      ultimately show ?thesis using IH False by metis
    qed
  qed auto
  then show "truncate_loop c s minsize maxsize sz prev lb nxt = None \<Longrightarrow> prev \<le> i \<Longrightarrow> i < length xs \<Longrightarrow>
      xs ! i = U_boundary \<Longrightarrow> \<not> over_limit c s minsize maxsize (take i xs)"
    "truncate_loop c s minsize maxsize sz prev lb nxt = Some k \<Longrightarrow>
      \<exists>i. k \<le> i \<and> i < length xs \<and> xs ! i = U_boundary \<and> over_limit c s minsize maxsize (take i xs)" by blast+
qed

text \<open>C17: truncating an undo list keeps whole command groups, and always those of the latest command.  When
  something is cut off, the cut falls right before a boundary, what is kept is no larger than the upper limit unless it is
  the latest command alone, and the records up to some boundary at the cut or after it are indeed over a limit.  When nothing is cut off,
  the records up to every boundary after the latest command are within both limits; the group after the last
  boundary is not counted, so that the list itself may be over a limit.\<close>

theorem truncate_undo_list_groups:
  "\<exists>k\<le>length xs. truncate_undo_list consz strsz xs minsize maxsize = take k xs \<and> latest_command xs \<le> k \<and>
     (if k < length xs
      then xs ! k = U_boundary \<and>
        (0 < maxsize \<longrightarrow> undo_size consz strsz (take k xs) \<le> maxsize \<or> one_group (take k xs)) \<and>
        (\<exists>i\<ge>k. i < length xs \<and> xs ! i = U_boundary \<and> over_limit consz strsz minsize maxsize (take i xs))
      else \<forall>i\<ge>latest_command xs. i < length xs \<and> xs ! i = U_boundary \<longrightarrow>
        \<not> over_limit consz strsz minsize maxsize (take i xs))"
proof -
  let ?r = "truncate_undo_list consz strsz xs minsize maxsize"
  obtain sz0 n0 nxt0 where s0: "(case xs of U_boundary # es \<Rightarrow> (consz, 1::nat, es) | _ \<Rightarrow> (0, 0, xs)) = (sz0, n0, nxt0)"
    by (metis prod_cases3)
  then have s0': "xs = take n0 xs @ nxt0" "n0 = length (take n0 xs)" "sz0 = undo_size consz strsz (take n0 xs)"
      "latest_command xs = n0 + length (takeWhile (\<lambda>e. e \<noteq> U_boundary) nxt0)" "n0 = 0 \<or> n0 = 1"
      "n0 = 0 \<longrightarrow> nxt0 = [] \<or> hd nxt0 \<noteq> U_boundary"
    by (auto simp: undo_size_def undo_elt_size_def latest_command_def split: list.splits undo_elt.splits)
  obtain sz n nxt where s1: "truncate_first_group consz strsz sz0 n0 nxt0 = (sz, n, nxt)" by (metis prod_cases3)
  from truncate_first_group_correct [OF s0'(1-3) s1] obtain g where
    g: "nxt0 = g @ nxt" "U_boundary \<notin> set g" "n = n0 + length g" "sz = undo_size consz strsz (take n0 xs @ g)"
      "nxt = [] \<or> hd nxt = U_boundary" by blast
  have "takeWhile (\<lambda>e. e \<noteq> U_boundary) nxt0 = g"
    using g(1,2,5) by (cases nxt) (auto simp: takeWhile_append)
  then have lc: "latest_command xs = n" using s0'(4) g(3) by simp
  have tk: "take n xs = take n0 xs @ g" "nxt = drop n xs" "n \<le> length xs"
    using s0'(1,2) g(1,3) by (metis append.assoc append_eq_conv_conj length_append, metis append.assoc append_eq_conv_conj length_append, metis append.assoc le_add1 length_append)
  have og: "one_group (take n xs)"
    using g(2) s0'(5) unfolding tk(1) by (cases xs; cases g) (auto simp: one_group_def)
  show ?thesis
  proof (cases "\<not> (minsize > 0 \<or> maxsize > 0) \<or> truncate_loop consz strsz minsize maxsize sz n n nxt = None")
    case True
    then have "?r = take (length xs) xs" using s0 s1 by (auto simp: truncate_undo_list_def)
    moreover have "\<not> over_limit consz strsz minsize maxsize (take i xs)" if "n \<le> i" "i < length xs" "xs ! i = U_boundary" for i
    proof (cases "minsize > 0 \<or> maxsize > 0")
      case True
      with \<open>\<not> (minsize > 0 \<or> maxsize > 0) \<or> truncate_loop consz strsz minsize maxsize sz n n nxt = None\<close>
      have "truncate_loop consz strsz minsize maxsize sz n n nxt = None" by simp
      then show ?thesis using truncate_loop_limits(1) [OF tk(2,3) _ order_refl _ that] g(4) tk(1) by simp
    qed (simp add: over_limit_def)
    ultimately show ?thesis using tk(3) lc by (intro exI [of _ "length xs"]) simp
  next
    case False
    then obtain k where k: "truncate_loop consz strsz minsize maxsize sz n n nxt = Some k" by auto
    have "k < length xs \<and> n \<le> k \<and> xs ! k = U_boundary \<and>
        (maxsize > 0 \<longrightarrow> undo_size consz strsz (take k xs) \<le> maxsize \<or> one_group (take k xs))"
      using truncate_loop_correct [OF tk(2,3) _ _ _ _ _ k] g(4,5) tk(1) og by auto
    moreover have "\<exists>i\<ge>k. i < length xs \<and> xs ! i = U_boundary \<and> over_limit consz strsz minsize maxsize (take i xs)"
      using truncate_loop_limits(2) [OF tk(2,3) _ order_refl k] g(4) tk(1) by auto
    moreover have "?r = take k xs" using False s0 s1 k by (auto simp: truncate_undo_list_def)
    ultimately show ?thesis using lc by (intro exI [of _ k]) simp
  qed
qed

theorem truncate_undo_list_groups_witness:
  "truncate_undo_list 16 24 [U_boundary, U_insert 1 3, U_boundary, U_insert 5 9, U_boundary, U_insert 9 12] 1 60 =
     [U_boundary, U_insert 1 3] \<and>
   (\<exists>k. k \<le> 6 \<and> [U_boundary, U_insert 1 3] = take k [U_boundary, U_insert 1 3, U_boundary, U_insert 5 9, U_boundary, U_insert 9 12] \<and>
      latest_command [U_boundary, U_insert 1 3, U_boundary, U_insert 5 9, U_boundary, U_insert 9 12] \<le> k)"
proof -
  let ?l = "[U_boundary, U_insert 1 3, U_boundary, U_insert 5 9, U_boundary, U_insert 9 12]"
  have t: "truncate_undo_list 16 24 ?l 1 60 = [U_boundary, U_insert 1 3]"
    by (simp add: truncate_undo_list_def undo_elt_size_def numeral_2_eq_2)
  have "\<exists>k. k \<le> 6 \<and> truncate_undo_list 16 24 ?l 1 60 = take k ?l \<and> latest_command ?l \<le> k"
  proof -
    obtain k where "k \<le> length ?l" "truncate_undo_list 16 24 ?l 1 60 = take k ?l" "latest_command ?l \<le> k"
      using truncate_undo_list_groups [of ?l 16 24 1 60] by blast
    moreover have "length ?l = 6" by simp
    ultimately show ?thesis by metis
  qed
  with t show ?thesis by simp
qed

end
