(* ===== verification/Buffer_Gap.thy ===== *)
theory Buffer_Gap
  imports Undo_List
begin

text \<open>
  Moving and growing the gap of a buffer text (\<open>src/insdel.c\<close>).  The gap moves in chunks, and a
  quit between two chunks leaves it where it has got to.  Addresses and byte positions of the gap
  are natural numbers, marker positions integers.
\<close>

section \<open>Sentinels\<close>

definition GAP_CAN_HOLD_SIZE_P :: "buffer_text \<Rightarrow> nat \<Rightarrow> bool" where
  "GAP_CAN_HOLD_SIZE_P t len \<longleftrightarrow> bt_gap_size t \<ge> len + 1"

definition SET_GAP_SENTINEL :: "buffer_text \<Rightarrow> buffer_text" where
  "SET_GAP_SENTINEL t = t\<lparr>bt_beg := (bt_beg t)[bt_gpt t - 1 := Some 0]\<rparr>"

definition SET_END_SENTINEL :: "buffer_text \<Rightarrow> buffer_text" where
  "SET_END_SENTINEL t = t\<lparr>bt_beg := (bt_beg t)[bt_gap_size t + bt_z t - 1 := Some 0]\<rparr>"

section \<open>Moving the gap\<close>

definition GAP_MOVE_CHUNK :: nat where "GAP_MOVE_CHUNK = 300000"

text \<open>The byte loops for short moves: \<open>*--to = *--from\<close> and \<open>*to++ = *from++\<close>.\<close>

fun copy_down :: "'a cells \<Rightarrow> nat \<Rightarrow> nat \<Rightarrow> nat \<Rightarrow> 'a cells" where
  "copy_down mem frm till 0 = mem"
| "copy_down mem frm till (Suc i) = copy_down (mem[till - 1 := mem ! (frm - 1)]) (frm - 1) (till - 1) i"

fun copy_up :: "'a cells \<Rightarrow> nat \<Rightarrow> nat \<Rightarrow> nat \<Rightarrow> 'a cells" where
  "copy_up mem frm till 0 = mem"
| "copy_up mem frm till (Suc i) = copy_up (mem[till := mem ! frm]) (frm + 1) (till + 1) i"

text \<open>The result: whether the loop stopped for a quit, the remaining checks, the block, and \<open>new_s1\<close>.\<close>

function gap_left_loop ::
    "bool \<Rightarrow> nat \<Rightarrow> bool list \<Rightarrow> 'a cells \<Rightarrow> nat \<Rightarrow> nat \<Rightarrow> nat \<Rightarrow> bool \<times> bool list \<times> 'a cells \<times> nat" where
  "gap_left_loop inhibit bpos qs mem frm till new_s1 =
     (let i = new_s1 - bpos in
      if i = 0 then (False, qs, mem, new_s1)
      else if fst (QUITP inhibit qs) then (True, snd (QUITP inhibit qs), mem, new_s1)
      else
        let qs = snd (QUITP inhibit qs);
            i = (if i > GAP_MOVE_CHUNK then GAP_MOVE_CHUNK else i)
        in if i \<ge> 10
           then gap_left_loop inhibit bpos qs (mem_move mem (till - i) (frm - i) i) (frm - i) (till - i) (new_s1 - i)
           else gap_left_loop inhibit bpos qs (copy_down mem frm till i) (frm - i) (till - i) (new_s1 - i))"
  by pat_completeness auto

termination
  by (relation "measure (\<lambda>(inhibit, bpos, qs, mem, frm, till, new_s1). new_s1 - bpos)")
     (auto simp: GAP_MOVE_CHUNK_def)

function gap_right_loop ::
    "bool \<Rightarrow> nat \<Rightarrow> bool list \<Rightarrow> 'a cells \<Rightarrow> nat \<Rightarrow> nat \<Rightarrow> nat \<Rightarrow> bool \<times> bool list \<times> 'a cells \<times> nat" where
  "gap_right_loop inhibit bpos qs mem frm till new_s1 =
     (let i = bpos - new_s1 in
      if i = 0 then (False, qs, mem, new_s1)
      else if fst (QUITP inhibit qs) then (True, snd (QUITP inhibit qs), mem, new_s1)
      else
        let qs = snd (QUITP inhibit qs);
            i = (if i > GAP_MOVE_CHUNK then GAP_MOVE_CHUNK else i)
        in if i \<ge> 10
           then gap_right_loop inhibit bpos qs (mem_move mem till frm i) (frm + i) (till + i) (new_s1 + i)
           else gap_right_loop inhibit bpos qs (copy_up mem frm till i) (frm + i) (till + i) (new_s1 + i))"
  by pat_completeness auto

termination
  by (relation "measure (\<lambda>(inhibit, bpos, qs, mem, frm, till, new_s1). bpos - new_s1)")
     (auto simp: GAP_MOVE_CHUNK_def)

declare gap_left_loop.simps [simp del] gap_right_loop.simps [simp del]

text \<open>
  After a quit the character position of the place where the loop stopped is computed from the
  text as it is then: the block has been moved, the position of the gap is still the old one.
\<close>

definition gap_stop :: "nat \<Rightarrow> bool \<Rightarrow> nat \<Rightarrow> nat \<Rightarrow> nat \<Rightarrow> ed \<Rightarrow> (nat \<times> nat) outcome" where
  "gap_stop i quit new_s1 cpos bpos st =
     (if quit then ebind (ed_bytebpos_to_charbpos i (int new_s1) st) (\<lambda>c st. Some (Inr (nat c, new_s1), st))
      else Some (Inr (cpos, bpos), st))"

definition SET_BOTH_BUF_GPT :: "nat \<Rightarrow> nat \<Rightarrow> buffer_text \<Rightarrow> buffer_text" where
  "SET_BOTH_BUF_GPT cval bval t = t\<lparr>bt_gpt := bval, bt_bufgpt := cval\<rparr>"

definition gap_left :: "nat \<Rightarrow> nat \<Rightarrow> nat \<Rightarrow> ed \<Rightarrow> unit outcome" where
  "gap_left i cpos bpos st =
     (let t = ed_text st;
          frm = bt_gpt t - 1;
          (quit, qs, mem, new_s1) =
            gap_left_loop (ed_inhibit_quit st) bpos (ed_quit st) (bt_beg t) frm (frm + bt_gap_size t) (bt_gpt t);
          st = st\<lparr>ed_text := t\<lparr>bt_beg := mem\<rparr>, ed_quit := qs\<rparr>
      in ebind (gap_stop i quit new_s1 cpos bpos st) (\<lambda>(cpos, bpos) st.
           let t = ed_text st;
               st = upd_bufs (adjust_markers (int bpos) (int (bt_gpt t)) (int (bt_gap_size t))) st
           in QUIT (upd_text (\<lambda>t. SET_GAP_SENTINEL (SET_BOTH_BUF_GPT cpos bpos t)) st)))"

text \<open>\<open>gap_right\<close> keeps the size of the gap in an \<open>int\<close>.\<close>

definition c_int :: "nat \<Rightarrow> int" where
  "c_int n = sint (word_of_nat n :: 32 word)"

definition merge_at_end :: "buffer_text \<Rightarrow> buffer_text" where
  "merge_at_end t =
     (if bt_gpt t = bt_z t
      then SET_END_SENTINEL (t\<lparr>bt_gap_size := bt_gap_size t + bt_end_gap_size t, bt_end_gap_size := 0\<rparr>)
      else t)"

definition gap_right :: "nat \<Rightarrow> nat \<Rightarrow> nat \<Rightarrow> ed \<Rightarrow> unit outcome" where
  "gap_right i cpos bpos st =
     (let t = ed_text st;
          till = bt_gpt t - 1;
          (quit, qs, mem, new_s1) =
            gap_right_loop (ed_inhibit_quit st) bpos (ed_quit st) (bt_beg t) (till + bt_gap_size t) till (bt_gpt t);
          st = st\<lparr>ed_text := t\<lparr>bt_beg := mem\<rparr>, ed_quit := qs\<rparr>
      in ebind (gap_stop i quit new_s1 cpos bpos st) (\<lambda>(cpos, bpos) st.
           let t = ed_text st;
               gsize = c_int (bt_gap_size t);
               st = upd_bufs (adjust_markers (int (bt_gpt t) + gsize) (int bpos + gsize) (- gsize)) st
           in QUIT (upd_text (\<lambda>t. merge_at_end (SET_GAP_SENTINEL (SET_BOTH_BUF_GPT cpos bpos t))) st)))"

definition move_gap :: "nat \<Rightarrow> nat \<Rightarrow> nat \<Rightarrow> ed \<Rightarrow> unit outcome" where
  "move_gap i cpos bpos st =
     (if bpos < bt_gpt (ed_text st) then gap_left i cpos bpos st
      else if bpos > bt_gpt (ed_text st) then gap_right i cpos bpos st
      else Some (Inr (), st))"

section \<open>Growing the gap\<close>

text \<open>
  The common end of \<open>merge_gap_with_end_gap\<close> and \<open>make_gap\<close>: the \<open>increment\<close> bytes at the end are
  taken for the gap, moved down to the real gap, and the two become one.
\<close>

definition join_gaps :: "nat \<Rightarrow> nat \<Rightarrow> ed \<Rightarrow> unit outcome" where
  "join_gaps i increment st =
     (let t = ed_text st;
          tem = ed_inhibit_quit st;
          real_gap_loc_char = bt_bufgpt t;
          real_gap_loc_byte = bt_gpt t;
          old_gap_size = bt_gap_size t;
          st = st\<lparr>ed_inhibit_quit := True\<rparr>;
          st = upd_text (\<lambda>t. (SET_BOTH_BUF_GPT (bt_bufz t + bt_gap_size t) (bt_z t + bt_gap_size t) t)
                  \<lparr>bt_gap_size := increment, bt_end_gap_size := 0\<rparr>) st
      in ebind (gap_left i (real_gap_loc_char + old_gap_size) (real_gap_loc_byte + old_gap_size) st) (\<lambda>_ st.
           let st = upd_text (\<lambda>t. SET_END_SENTINEL (SET_GAP_SENTINEL
                      (SET_BOTH_BUF_GPT real_gap_loc_char real_gap_loc_byte
                        (t\<lparr>bt_gap_size := bt_gap_size t + old_gap_size\<rparr>)))) st
           in Some (Inr (), st\<lparr>ed_inhibit_quit := tem\<rparr>)))"

definition merge_gap_with_end_gap :: "nat \<Rightarrow> ed \<Rightarrow> unit outcome" where
  "merge_gap_with_end_gap i st =
     (let increment = bt_end_gap_size (ed_text st);
          st = upd_text (\<lambda>t. t\<lparr>bt_end_gap_size := 0\<rparr>) st
      in if increment > 0 then join_gaps i increment st else Some (Inr (), st))"

text \<open>The alignment of \<open>max_align_t\<close> is 16.\<close>

definition MAX_ALIGN_SIZE :: "nat \<Rightarrow> nat" where
  "MAX_ALIGN_SIZE len = (len + 15) div 16 * 16"

definition make_gap :: "nat \<Rightarrow> nat \<Rightarrow> ed \<Rightarrow> unit outcome" where
  "make_gap i increment st =
     (let t = ed_text st;
          increment = MAX_ALIGN_SIZE (increment + (2000 + (bt_z t - 1) div 8))
      in if increment > bt_end_gap_size t then
           if int (bt_bufz t - 1 + bt_gap_size t + increment) > MOST_POSITIVE_FIXNUM
           then Some (Inl Out_of_memory, st)
           else join_gaps i increment
                  (upd_text (\<lambda>t. t\<lparr>bt_beg := mem_realloc (bt_beg t) (bt_z t - 1 + bt_gap_size t + increment + 1)\<rparr>) st)
         else join_gaps i (bt_end_gap_size t) st)"

section \<open>Block moves\<close>

lemma nth_mem_move:
  assumes "dst + n \<le> length mem" "src + n \<le> length mem" "k < length mem"
  shows "mem_move mem dst src n ! k = (if dst \<le> k \<and> k < dst + n then mem ! (src + (k - dst)) else mem ! k)"
proof -
  have l: "length (take dst mem) = dst" "length (take n (drop src mem)) = n" using assms(1,2) by auto
  consider "k < dst" | "dst \<le> k" "k < dst + n" | "dst + n \<le> k" by linarith
  then show ?thesis
  proof cases
    case 2
    then have "k - dst < n" by linarith
    with 2 l assms show ?thesis by (simp add: mem_move_def nth_append)
  next
    case 3
    then have "\<not> k - dst < n" "dst + n + (k - dst - n) = k" by linarith+
    with 3 l assms show ?thesis by (simp add: mem_move_def nth_append)
  qed (use l assms in \<open>simp add: mem_move_def nth_append\<close>)
qed

lemma copy_down_mem_move:
  "f \<le> d \<Longrightarrow> d + i \<le> length mem \<Longrightarrow> copy_down mem (f + i) (d + i) i = mem_move mem d f i"
proof (induction i arbitrary: mem)
  case 0
  then show ?case by (simp add: mem_move_def)
next
  case (Suc i)
  let ?mem = "mem[d + i := mem ! (f + i)]"
  have "copy_down mem (f + Suc i) (d + Suc i) (Suc i) = mem_move ?mem d f i"
    using Suc.IH [of ?mem] Suc.prems by simp
  also have "\<dots> = mem_move mem d f (Suc i)"
  proof (rule nth_equalityI)
    fix k assume "k < length (mem_move ?mem d f i)"
    then have k: "k < length mem" using Suc.prems by simp
    consider "k = d + i" | "d \<le> k" "k < d + i" | "k < d" | "d + i < k" by linarith
    then show "mem_move ?mem d f i ! k = mem_move mem d f (Suc i) ! k"
      by cases (use k Suc.prems in \<open>simp_all add: nth_mem_move\<close>)
  qed (use Suc.prems in simp)
  finally show ?case .
qed

lemma copy_up_mem_move:
  "till \<le> frm \<Longrightarrow> frm + i \<le> length mem \<Longrightarrow> copy_up mem frm till i = mem_move mem till frm i"
proof (induction i arbitrary: mem frm till)
  case 0
  then show ?case by (simp add: mem_move_def)
next
  case (Suc i)
  let ?mem = "mem[till := mem ! frm]"
  have "copy_up mem frm till (Suc i) = mem_move ?mem (till + 1) (frm + 1) i"
    using Suc.prems by (simp add: Suc.IH)
  also have "\<dots> = mem_move mem till frm (Suc i)"
  proof (rule nth_equalityI)
    fix k assume "k < length (mem_move ?mem (till + 1) (frm + 1) i)"
    then have k: "k < length mem" using Suc.prems by simp
    have e: "till < k \<Longrightarrow> Suc (frm + (k - Suc till)) = frm + (k - till)" by linarith
    consider "k = till" | "till < k" "k < till + Suc i" | "k < till" | "till + Suc i \<le> k" by linarith
    then show "mem_move ?mem (till + 1) (frm + 1) i ! k = mem_move mem till frm (Suc i) ! k"
      by cases (use k e Suc.prems in \<open>simp_all add: nth_mem_move\<close>)
  qed (use Suc.prems in simp)
  finally show ?case .
qed

lemma mem_move_over_left:
  "mem_move (A @ C @ G @ B) (length A + length G) (length A) (length C) = A @ take (length G) (C @ G) @ C @ B"
  by (simp add: mem_move_def)

lemma mem_move_over_right:
  "mem_move (A @ G @ C @ B) (length A) (length A + length G) (length C) =
   A @ C @ drop (length C) (G @ C) @ B"
  by (simp add: mem_move_def)

section \<open>The loops\<close>

lemma split_last: "n \<le> length xs \<Longrightarrow> \<exists>ys zs. xs = ys @ zs \<and> length zs = n"
  by (metis append_take_drop_id diff_diff_cancel length_drop)

lemma gap_left_loop_step:
  assumes "\<not> fst (QUITP inhibit qs)" "n = min GAP_MOVE_CHUNK (s1 - bpos)" "bpos < s1"
    and "f \<le> d" "d + n \<le> length mem"
  shows "gap_left_loop inhibit bpos qs mem (f + n) (d + n) s1 =
    gap_left_loop inhibit bpos (snd (QUITP inhibit qs)) (mem_move mem d f n) f d (s1 - n)"
proof -
  have i: "(if s1 - bpos > GAP_MOVE_CHUNK then GAP_MOVE_CHUNK else s1 - bpos) = n" using assms(2) by simp
  have "s1 - bpos \<noteq> 0" using assms(3) by simp
  then show ?thesis
    unfolding gap_left_loop.simps [of _ _ _ _ _ _ s1] Let_def i
    using assms(1) copy_down_mem_move [OF assms(4,5)] by simp
qed

lemma gap_right_loop_step:
  assumes "\<not> fst (QUITP inhibit qs)" "n = min GAP_MOVE_CHUNK (bpos - s1)" "s1 < bpos"
    and "till \<le> frm" "frm + n \<le> length mem"
  shows "gap_right_loop inhibit bpos qs mem frm till s1 =
    gap_right_loop inhibit bpos (snd (QUITP inhibit qs)) (mem_move mem till frm n) (frm + n) (till + n) (s1 + n)"
proof -
  have i: "(if bpos - s1 > GAP_MOVE_CHUNK then GAP_MOVE_CHUNK else bpos - s1) = n" using assms(2) by simp
  have "bpos - s1 \<noteq> 0" using assms(3) by simp
  then show ?thesis
    unfolding gap_right_loop.simps [of _ _ _ _ _ _ s1] Let_def i
    using assms(1) copy_up_mem_move [OF assms(4,5)] by simp
qed

text \<open>What a loop does to the quit checks.\<close>

definition quit_step :: "bool \<Rightarrow> bool list \<Rightarrow> bool \<Rightarrow> bool list \<Rightarrow> bool" where
  "quit_step inhibit qs quit qs' \<longleftrightarrow>
     (inhibit \<or> True \<notin> set qs \<longrightarrow> \<not> quit) \<and> set qs' \<subseteq> set qs \<and> (inhibit \<longrightarrow> qs' = qs)"

lemma quit_step_refl: "quit_step inhibit qs False qs"
  by (simp add: quit_step_def)

lemma quit_step_QUITP: "quit_step inhibit qs (fst (QUITP inhibit qs)) (snd (QUITP inhibit qs))"
  by (auto simp: quit_step_def QUITP_def split: list.splits bool.splits)

lemma quit_step_trans: "quit_step inhibit qs False qs1 \<Longrightarrow> quit_step inhibit qs1 quit qs2 \<Longrightarrow> quit_step inhibit qs quit qs2"
  by (auto simp: quit_step_def)

lemma gap_left_loop_moves:
  assumes "gap_left_loop inhibit bpos qs (A @ X @ G @ B) (length A + length X) (length A + length X + length G)
      (bpos + length X) = (quit, qs', mem', s1)"
  shows "\<exists>X1 X2 G'. X = X1 @ X2 \<and> length G' = length G \<and> mem' = A @ X1 @ G' @ X2 @ B \<and>
    s1 = bpos + length X1 \<and> (\<not> quit \<longrightarrow> X1 = []) \<and> quit_step inhibit qs quit qs'"
  using assms
proof (induction "length X" arbitrary: X G B qs rule: less_induct)
  case less
  show ?case
  proof (cases "X = [] \<or> fst (QUITP inhibit qs)")
    case True
    with less.prems quit_step_QUITP [of inhibit qs] show ?thesis
      by (subst (asm) gap_left_loop.simps, intro exI [of _ X] exI [of _ "[]"] exI [of _ G])
        (auto simp: Let_def quit_step_refl split: if_splits)
  next
    case False
    define n where "n = min GAP_MOVE_CHUNK (length X)"
    have n: "0 < n" "n \<le> length X" using False by (auto simp: n_def GAP_MOVE_CHUNK_def)
    obtain Y C where X: "X = Y @ C" "length C = n" using split_last [OF n(2)] by blast
    obtain H where H: "length H = length G" and
      mm: "mem_move (A @ X @ G @ B) (length A + length Y + length G) (length A + length Y) n = A @ Y @ H @ C @ B"
      using mem_move_over_left [of "A @ Y" C G B] X that [of "take (length G) (C @ G)"] by simp
    have "gap_left_loop inhibit bpos qs (A @ X @ G @ B) (length A + length Y + n)
        (length A + length Y + length G + n) (bpos + length X) =
      gap_left_loop inhibit bpos (snd (QUITP inhibit qs)) (A @ Y @ H @ C @ B)
        (length A + length Y) (length A + length Y + length G) (bpos + length X - n)"
      unfolding mm [symmetric] by (rule gap_left_loop_step) (use False X n_def in auto)
    then have "gap_left_loop inhibit bpos (snd (QUITP inhibit qs)) (A @ Y @ H @ C @ B)
        (length A + length Y) (length A + length Y + length H) (bpos + length Y)
        = (quit, qs', mem', s1)"
      using less.prems X H by (simp add: ac_simps)
    from less.hyps [OF _ this] n X H obtain X1 X2 G' where
      "Y = X1 @ X2" "length G' = length G" "mem' = A @ X1 @ G' @ (X2 @ C) @ B" "s1 = bpos + length X1"
      "\<not> quit \<longrightarrow> X1 = []" "quit_step inhibit (snd (QUITP inhibit qs)) quit qs'" by auto
    with X(1) quit_step_trans [of inhibit qs "snd (QUITP inhibit qs)"] quit_step_QUITP [of inhibit qs] False
    show ?thesis by (intro exI [of _ X1] exI [of _ "X2 @ C"] exI [of _ G']) auto
  qed
qed

lemma gap_right_loop_moves:
  assumes "gap_right_loop inhibit (s0 + length X) qs (A @ G @ X @ B) (length A + length G) (length A) s0 =
      (quit, qs', mem', s1)"
  shows "\<exists>X1 X2 G'. X = X1 @ X2 \<and> length G' = length G \<and> mem' = A @ X1 @ G' @ X2 @ B \<and>
    s1 = s0 + length X1 \<and> (\<not> quit \<longrightarrow> X2 = []) \<and> quit_step inhibit qs quit qs'"
  using assms
proof (induction "length X" arbitrary: X G A qs s0 rule: less_induct)
  case less
  show ?case
  proof (cases "X = [] \<or> fst (QUITP inhibit qs)")
    case True
    with less.prems quit_step_QUITP [of inhibit qs] show ?thesis
      by (subst (asm) gap_right_loop.simps, intro exI [of _ "[]"] exI [of _ X] exI [of _ G])
        (auto simp: Let_def quit_step_refl split: if_splits)
  next
    case False
    define n where "n = min GAP_MOVE_CHUNK (length X)"
    have n: "0 < n" "n \<le> length X" using False by (auto simp: n_def GAP_MOVE_CHUNK_def)
    obtain C Y where X: "X = C @ Y" "length C = n"
      using n(2) by (metis append_take_drop_id length_take min.absorb2)
    obtain H where H: "length H = length G" and
      mm: "mem_move (A @ G @ X @ B) (length A) (length A + length G) n = (A @ C) @ H @ Y @ B"
      using mem_move_over_right [of A G C "Y @ B"] X that [of "drop n (G @ C)"] by simp
    have "gap_right_loop inhibit (s0 + length X) qs (A @ G @ X @ B) (length A + length G) (length A) s0 =
      gap_right_loop inhibit (s0 + length X) (snd (QUITP inhibit qs)) ((A @ C) @ H @ Y @ B)
        (length A + length G + n) (length A + n) (s0 + n)"
      unfolding mm [symmetric] by (rule gap_right_loop_step) (use False X n_def in auto)
    then have "gap_right_loop inhibit ((s0 + n) + length Y) (snd (QUITP inhibit qs)) ((A @ C) @ H @ Y @ B)
        (length (A @ C) + length H) (length (A @ C)) (s0 + n) = (quit, qs', mem', s1)"
      using less.prems X H by (simp add: ac_simps)
    moreover have "length Y < length X" using n X by simp
    ultimately obtain X1 X2 G' where
      "Y = X1 @ X2" "length G' = length H" "mem' = (A @ C) @ X1 @ G' @ X2 @ B" "s1 = s0 + n + length X1"
      "\<not> quit \<longrightarrow> X2 = []" "quit_step inhibit (snd (QUITP inhibit qs)) quit qs'" using less.hyps by blast
    with X H quit_step_trans [of inhibit qs "snd (QUITP inhibit qs)"] quit_step_QUITP [of inhibit qs] False
    show ?thesis by (intro exI [of _ "C @ X1"] exI [of _ X2] exI [of _ G']) auto
  qed
qed

end
