(* ===== verification/Buffer_Rep.thy ===== *)
theory Buffer_Rep
  imports Buffer_Gap
begin

text \<open>
  What a buffer text with its buffers represents.  \<open>ed_rep st C\<close> is the invariant: the characters
  of the text are \<open>C\<close>, and every position, marker and cache is right for them.  \<open>norm st\<close> is the
  state without the gap, the caches and the checks for quits, the abstract value on which
  \<open>Buffer_Text\<close> specifies edits.  The operations on the gap and the conversions of positions
  leave it as it is.
\<close>

section \<open>The state without the gap\<close>

text \<open>In normal form the gap is empty and stands at the end.\<close>

definition text_of :: "buffer_text \<Rightarrow> byte cells" where
  "text_of t = take (bt_gpt t - 1) (bt_beg t) @
     take (bt_z t - bt_gpt t) (drop (bt_gpt t - 1 + bt_gap_size t) (bt_beg t))"

definition norm_text :: "buffer_text \<Rightarrow> buffer_text" where
  "norm_text t = t\<lparr>bt_beg := text_of t, bt_gpt := bt_z t, bt_bufgpt := bt_bufz t, bt_gap_size := 0,
     bt_end_gap_size := 0, bt_pos_cache := [], bt_cached_charpos := 1, bt_cached_bytepos := 1\<rparr>"

definition norm_marker :: "buffer_text \<Rightarrow> marker \<Rightarrow> marker" where
  "norm_marker t m = m\<lparr>mk_membpos := membpos_to_bytebpos t (mk_membpos m)\<rparr>"

definition norm_buf :: "buffer_text \<Rightarrow> buffer \<Rightarrow> buffer" where
  "norm_buf t b = b\<lparr>b_markers := map (norm_marker t) (b_markers b)\<rparr>"

definition norm :: "ed \<Rightarrow> ed" where
  "norm st = st\<lparr>ed_text := norm_text (ed_text st), ed_bufs := map (norm_buf (ed_text st)) (ed_bufs st),
     ed_quit := []\<rparr>"

section \<open>The invariant\<close>

definition ascii_char :: "ichar \<Rightarrow> bool" where
  "ascii_char c \<longleftrightarrow> (\<exists>b. c = [b] \<and> byte_ascii_p b)"

definition marker_ok :: "buffer_text \<Rightarrow> ichar list \<Rightarrow> marker \<Rightarrow> bool" where
  "marker_ok t C m \<longleftrightarrow> valid_membpos_p t (mk_membpos m) \<and>
     (\<exists>c. pos_pair C (c, membpos_to_bytebpos t (mk_membpos m)))"

definition buffer_ok :: "buffer_text \<Rightarrow> ichar list \<Rightarrow> buffer \<Rightarrow> bool" where
  "buffer_ok t C b \<longleftrightarrow> buffer_pairs_ok b C \<and> b_bufbegv b \<le> b_bufpt b \<and> b_bufpt b \<le> b_bufzv b \<and>
     (\<forall>m\<in>set (b_markers b). marker_ok t C m)"

definition ed_rep :: "ed \<Rightarrow> ichar list \<Rightarrow> bool" where
  "ed_rep st C \<longleftrightarrow> (\<exists>L g R eg. C = L @ R \<and> bt_layout (ed_text st) L g R eg) \<and> caches_ok (ed_text st) C \<and>
     (bt_entirely_one_byte_p (ed_text st) \<longleftrightarrow> bt_bufz (ed_text st) = bt_z (ed_text st)) \<and>
     bt_num_ascii_chars (ed_text st) = int (length (filter ascii_char C)) \<and>
     (\<forall>b\<in>set (ed_bufs st). buffer_ok (ed_text st) C b)"

text \<open>No quit is on its way, and an \<open>int\<close> can hold the size of every gap.\<close>

definition quiet :: "ed \<Rightarrow> bool" where
  "quiet st \<longleftrightarrow> ed_inhibit_quit st \<or> True \<notin> set (ed_quit st)"

definition block_size :: "buffer_text \<Rightarrow> nat" where
  "block_size t = bt_z t - 1 + bt_gap_size t + bt_end_gap_size t"

definition ed_small :: "ed \<Rightarrow> bool" where
  "ed_small st \<longleftrightarrow> block_size (ed_text st) < 2 ^ 31"

text \<open>\<open>st'\<close> is \<open>st\<close> but for the gap, the caches and harmless checks for quits.\<close>

definition same_norm :: "ichar list \<Rightarrow> ed \<Rightarrow> ed \<Rightarrow> bool" where
  "same_norm C st st' \<longleftrightarrow> norm st' = norm st \<and> ed_rep st' C \<and> quiet st'"

lemma c_int_small: "n < 2 ^ 31 \<Longrightarrow> c_int n = int n"
  by (simp add: c_int_def sint_uint unsigned_of_nat take_bit_nat_eq_self signed_take_bit_int_eq_self)

lemma QUIT_quiet:
  assumes "quiet st"
  shows "\<exists>qs. QUIT st = Some (Inr (), st\<lparr>ed_quit := qs\<rparr>) \<and> quit_step (ed_inhibit_quit st) (ed_quit st) False qs"
proof -
  obtain q qs where q: "QUITP (ed_inhibit_quit st) (ed_quit st) = (q, qs)" by fastforce
  with quit_step_QUITP [of "ed_inhibit_quit st" "ed_quit st"] assms have
    "\<not> q" "quit_step (ed_inhibit_quit st) (ed_quit st) q qs" by (auto simp: quiet_def quit_step_def)
  with q show ?thesis by (intro exI [of _ qs]) (simp add: QUIT_def)
qed

lemma quit_step_quiet:
  "quiet st \<Longrightarrow> quit_step (ed_inhibit_quit st) (ed_quit st) q qs \<Longrightarrow>
   \<not> q \<and> (ed_inhibit_quit st \<or> True \<notin> set qs)"
  by (auto simp: quit_step_def quiet_def)

section \<open>Moving the gap\<close>

text \<open>The block of memory, for any cells and any gap.\<close>

lemma gap_left_cells:
  assumes "bt_beg (ed_text st) = A @ X @ G @ B" "bt_gpt (ed_text st) = 1 + length A + length X"
    and "bt_gap_size (ed_text st) = length G" "G \<noteq> []" "quiet st"
  shows "\<exists>G' qs. gap_left i cpos (1 + length A) st = Some (Inr (),
      st\<lparr>ed_text := (ed_text st)\<lparr>bt_beg := A @ (Some 0 # G') @ X @ B, bt_gpt := 1 + length A, bt_bufgpt := cpos\<rparr>,
         ed_quit := qs,
         ed_bufs := map (adjust_markers (1 + int (length A)) (1 + int (length A) + int (length X)) (int (length G)))
           (ed_bufs st)\<rparr>) \<and>
    Suc (length G') = length G \<and> quit_step (ed_inhibit_quit st) (ed_quit st) False qs"
proof -
  obtain quit qs mem s1 where l: "gap_left_loop (ed_inhibit_quit st) (1 + length A) (ed_quit st) (A @ X @ G @ B)
      (length A + length X) (length A + length X + length G) (1 + length A + length X) = (quit, qs, mem, s1)"
    by (metis prod_cases4)
  from gap_left_loop_moves [OF l] obtain X1 X2 G' where
    X: "X = X1 @ X2" "length G' = length G" "mem = A @ X1 @ G' @ X2 @ B" "\<not> quit \<longrightarrow> X1 = []"
      "quit_step (ed_inhibit_quit st) (ed_quit st) quit qs" by blast
  have q: "\<not> quit" "ed_inhibit_quit st \<or> True \<notin> set qs" using quit_step_quiet [OF assms(5) X(5)] by auto
  let ?st = "st\<lparr>ed_text := (ed_text st)\<lparr>bt_beg := A @ (Some 0 # tl G') @ X @ B, bt_gpt := 1 + length A, bt_bufgpt := cpos\<rparr>,
         ed_quit := qs, ed_bufs := map (adjust_markers (1 + int (length A)) (1 + int (length A) + int (length X)) (int (length G)))
           (ed_bufs st)\<rparr>"
  have G': "G' \<noteq> []" "Suc (length (tl G')) = length G" using X(2) assms(4) by (cases G'; auto)+
  have upd: "(A @ G' @ X @ B)[length A := Some 0] = A @ (Some 0 # tl G') @ X @ B"
    using G'(1) by (cases G') (simp_all add: list_update_append)
  have "quiet ?st" using q(2) by (simp add: quiet_def)
  from QUIT_quiet [OF this] obtain qs' where qs': "QUIT ?st = Some (Inr (), ?st\<lparr>ed_quit := qs'\<rparr>)"
    "quit_step (ed_inhibit_quit st) qs False qs'" by auto
  have "gap_left i cpos (1 + length A) st = QUIT ?st"
    using assms l X q(1) upd
    by (simp add: gap_left_def gap_stop_def ebind_def upd_bufs_def upd_text_def SET_GAP_SENTINEL_def
        SET_BOTH_BUF_GPT_def Let_def ac_simps) (intro arg_cong [of _ _ QUIT] ed.equality buffer_text.equality; simp)
  with qs' X q(1) G' show ?thesis
    by (intro exI [of _ "tl G'"] exI [of _ qs']) (auto intro: quit_step_trans simp del: length_tl)
qed

lemma gap_right_cells:
  assumes "bt_beg (ed_text st) = A @ G @ X @ B" "bt_gpt (ed_text st) = 1 + length A"
    and "bt_gap_size (ed_text st) = length G" "G \<noteq> []" "length G < 2 ^ 31" "quiet st"
  shows "\<exists>G' qs. gap_right i cpos (1 + length A + length X) st = Some (Inr (),
      st\<lparr>ed_text := merge_at_end ((ed_text st)\<lparr>bt_gpt := 1 + length A + length X, bt_bufgpt := cpos,
             bt_beg := A @ X @ (Some 0 # G') @ B\<rparr>),
         ed_quit := qs,
         ed_bufs := map (adjust_markers (1 + int (length A) + int (length G))
             (1 + int (length A) + int (length X) + int (length G)) (- int (length G))) (ed_bufs st)\<rparr>) \<and>
    Suc (length G') = length G \<and> quit_step (ed_inhibit_quit st) (ed_quit st) False qs"
proof -
  obtain quit qs mem s1 where l: "gap_right_loop (ed_inhibit_quit st) ((1 + length A) + length X) (ed_quit st)
      (A @ G @ X @ B) (length A + length G) (length A) (1 + length A) = (quit, qs, mem, s1)"
    by (metis prod_cases4)
  from gap_right_loop_moves [OF l] obtain X1 X2 G' where
    X: "X = X1 @ X2" "length G' = length G" "mem = A @ X1 @ G' @ X2 @ B" "\<not> quit \<longrightarrow> X2 = []"
      "quit_step (ed_inhibit_quit st) (ed_quit st) quit qs" by blast
  have q: "\<not> quit" "ed_inhibit_quit st \<or> True \<notin> set qs" using quit_step_quiet [OF assms(6) X(5)] by auto
  let ?st = "st\<lparr>ed_text := merge_at_end ((ed_text st)\<lparr>bt_gpt := 1 + length A + length X, bt_bufgpt := cpos,
             bt_beg := A @ X @ (Some 0 # tl G') @ B\<rparr>),
         ed_quit := qs, ed_bufs := map (adjust_markers (1 + int (length A) + int (length G))
             (1 + int (length A) + int (length X) + int (length G)) (- int (length G))) (ed_bufs st)\<rparr>"
  have G': "G' \<noteq> []" "Suc (length (tl G')) = length G" using X(2) assms(4) by (cases G'; auto)+
  have upd: "(A @ X @ G' @ B)[length A + length X := Some 0] = A @ X @ (Some 0 # tl G') @ B"
    using G'(1) by (cases G') (simp_all add: list_update_append)
  have "quiet ?st" using q(2) by (simp add: quiet_def)
  from QUIT_quiet [OF this] obtain qs' where qs': "QUIT ?st = Some (Inr (), ?st\<lparr>ed_quit := qs'\<rparr>)"
    "quit_step (ed_inhibit_quit st) qs False qs'" by auto
  have "gap_right i cpos (1 + length A + length X) st = QUIT ?st"
    using assms l X q(1) upd
    by (simp add: gap_right_def gap_stop_def ebind_def upd_bufs_def upd_text_def SET_GAP_SENTINEL_def
        SET_BOTH_BUF_GPT_def Let_def c_int_small ac_simps)
      (intro arg_cong [of _ _ QUIT] ed.equality; simp)
  with qs' X q(1) G' show ?thesis
    by (intro exI [of _ "tl G'"] exI [of _ qs']) (auto intro: quit_step_trans simp del: length_tl)
qed

text \<open>Moving the gap keeps the byte position of every marker.\<close>

lemma adjust_markers_left:
  assumes "p < bt_gpt t" "bt_gap_size t = s" "0 < s" "bt_gpt t \<le> bt_z t" "1 \<le> p"
    and "bt_gpt t' = p" "bt_gap_size t' = s" "bt_z t' = bt_z t" "valid_membpos_p t x"
  defines "y \<equiv> do_marker_adjustment x (int p) (int (bt_gpt t)) (int s)"
  shows "valid_membpos_p t' y \<and> membpos_to_bytebpos t' y = membpos_to_bytebpos t x"
  using assms by (auto simp: valid_membpos_p_def membpos_to_bytebpos_def do_marker_adjustment_def)

lemma adjust_markers_right:
  assumes "bt_gpt t < p" "bt_gap_size t = s" "0 < s" "p \<le> bt_z t" "1 \<le> bt_gpt t"
    and "bt_gpt t' = p" "bt_gap_size t' = s \<or> p = bt_z t \<and> s \<le> bt_gap_size t'" "bt_z t' = bt_z t" "valid_membpos_p t x"
  defines "y \<equiv> do_marker_adjustment x (int (bt_gpt t) + int s) (int p + int s) (- int s)"
  shows "valid_membpos_p t' y \<and> membpos_to_bytebpos t' y = membpos_to_bytebpos t x"
  using assms by (auto simp: valid_membpos_p_def membpos_to_bytebpos_def do_marker_adjustment_def)

lemma text_of_layout: "bt_layout t L g R eg \<Longrightarrow> text_of t = map Some (concat (L @ R))"
  by (simp add: text_of_def bt_layout_def)

lemma norm_text_layout:
  "bt_layout t L g R eg \<Longrightarrow> bt_layout t' L' g' R' eg' \<Longrightarrow> L' @ R' = L @ R \<Longrightarrow>
   t'\<lparr>bt_beg := bt_beg t, bt_gpt := bt_gpt t, bt_bufgpt := bt_bufgpt t, bt_gap_size := bt_gap_size t,
     bt_end_gap_size := bt_end_gap_size t\<rparr> = t \<Longrightarrow> norm_text t' = norm_text t"
proof -
  assume l: "bt_layout t L g R eg" "bt_layout t' L' g' R' eg'" "L' @ R' = L @ R"
    and t: "t'\<lparr>bt_beg := bt_beg t, bt_gpt := bt_gpt t, bt_bufgpt := bt_bufgpt t, bt_gap_size := bt_gap_size t,
     bt_end_gap_size := bt_end_gap_size t\<rparr> = t"
  have "text_of t' = text_of t" using text_of_layout [OF l(1)] text_of_layout [OF l(2)] l(3) by simp
  with t show ?thesis unfolding norm_text_def by (cases t; cases t'; simp)
qed

definition move_markers :: "(int \<Rightarrow> int) \<Rightarrow> buffer \<Rightarrow> buffer" where
  "move_markers k b = b\<lparr>b_markers := map (\<lambda>m. m\<lparr>mk_membpos := k (mk_membpos m)\<rparr>) (b_markers b)\<rparr>"

lemma adjust_markers_move: "adjust_markers f u a = move_markers (\<lambda>x. do_marker_adjustment x f u a)"
  by (simp add: fun_eq_iff adjust_markers_def move_markers_def)

lemma norm_text_sel:
  assumes "norm_text t' = norm_text t"
  shows "bt_z t' = bt_z t" "bt_bufz t' = bt_bufz t" "bt_modiff t' = bt_modiff t" "bt_save_modiff t' = bt_save_modiff t"
    "bt_entirely_one_byte_p t' = bt_entirely_one_byte_p t" "bt_num_ascii_chars t' = bt_num_ascii_chars t"
    "bt_in_multiple_change t' = bt_in_multiple_change t" "bt_mc_begin t' = bt_mc_begin t"
    "bt_mc_orig_end t' = bt_mc_orig_end t" "bt_mc_new_end t' = bt_mc_new_end t"
    "bt_mc_begin_signaled t' = bt_mc_begin_signaled t"
  using assms unfolding norm_text_def by (cases t; cases t'; simp)+

lemma regap:
  assumes rep: "ed_rep st C" and lay: "bt_layout t' L g R eg" "L @ R = C"
    and tx: "norm_text t' = norm_text (ed_text st)" "caches_ok t' C"
    and mk: "\<And>x. valid_membpos_p (ed_text st) x \<Longrightarrow>
      valid_membpos_p t' (k x) \<and> membpos_to_bytebpos t' (k x) = membpos_to_bytebpos (ed_text st) x"
  shows "norm (st\<lparr>ed_text := t', ed_quit := qs, ed_bufs := map (move_markers k) (ed_bufs st)\<rparr>) = norm st"
    and "ed_rep (st\<lparr>ed_text := t', ed_quit := qs, ed_bufs := map (move_markers k) (ed_bufs st)\<rparr>) C"
proof -
  have b: "buffer_ok (ed_text st) C b" if "b \<in> set (ed_bufs st)" for b using rep that by (simp add: ed_rep_def)
  have "norm_buf t' (move_markers k b) = norm_buf (ed_text st) b" if "b \<in> set (ed_bufs st)" for b
    using b [OF that] mk by (auto simp: norm_buf_def move_markers_def norm_marker_def buffer_ok_def marker_ok_def)
  then show "norm (st\<lparr>ed_text := t', ed_quit := qs, ed_bufs := map (move_markers k) (ed_bufs st)\<rparr>) = norm st"
    using tx(1) by (simp add: norm_def)
  have "buffer_ok t' C (move_markers k b)" if "b \<in> set (ed_bufs st)" for b
    using b [OF that] mk by (auto simp: buffer_ok_def move_markers_def marker_ok_def buffer_pairs_ok_def)
  moreover have "L @ R = C \<and> bt_layout t' L g R eg" using lay by simp
  ultimately show "ed_rep (st\<lparr>ed_text := t', ed_quit := qs, ed_bufs := map (move_markers k) (ed_bufs st)\<rparr>) C"
    using rep tx(2) norm_text_sel [OF tx(1)] by (auto simp: ed_rep_def)
qed

lemma bofs_less: "chars_ok C \<Longrightarrow> m \<le> length C \<Longrightarrow> n \<le> length C \<Longrightarrow> bofs C m < bofs C n \<longleftrightarrow> m < n"
  using bofs_mono [of C m n] bofs_mono [of C n m] by linarith

lemma concat_empty_iff: "chars_ok C \<Longrightarrow> concat C = [] \<longleftrightarrow> C = []"
  by (cases C) (auto dest: ichar_ok_nonempty)

lemma chars_ok_take_drop: "chars_ok C \<Longrightarrow> chars_ok (take n C)" "chars_ok C \<Longrightarrow> chars_ok (drop n C)"
  by (auto dest: in_set_takeD in_set_dropD)

text \<open>The gap stands before the character of the given index.\<close>

definition gap_at :: "ed \<Rightarrow> ichar list \<Rightarrow> nat \<Rightarrow> bool" where
  "gap_at st C n \<longleftrightarrow> (\<exists>g eg. bt_layout (ed_text st) (take n C) g (drop n C) eg)"

lemma ed_rep_chars_ok: "ed_rep st C \<Longrightarrow> chars_ok C"
  by (auto simp: ed_rep_def bt_layout_def)

lemma first_cell_0: "first_cell (Some 0 # xs)"
  by (simp add: first_cell_def ibyte_first_byte_p_def)

lemma move_gap_left_ok:
  assumes rep: "ed_rep st C" and q: "quiet st" and lay: "bt_layout (ed_text st) L g R eg" "C = L @ R"
    and n: "n < length L"
  shows "\<exists>st'. gap_left i (1 + n) (1 + bofs C n) st = Some (Inr (), st') \<and> same_norm C st st' \<and>
    block_size (ed_text st') = block_size (ed_text st) \<and> gap_at st' C n"
proof -
  let ?t = "ed_text st" and ?A = "concat (take n L)" and ?X = "concat (drop n L)"
  have L: "concat L = ?A @ ?X" by (metis append_take_drop_id concat_append)
  have X: "?X \<noteq> []" using lay(1) n concat_empty_iff [OF chars_ok_take_drop(2)] by (auto simp: bt_layout_def simp del: concat_eq_Nil_conv)
  have t: "bt_beg ?t = map Some ?A @ map Some ?X @ g @ map Some (concat R) @ eg"
    "bt_gpt ?t = 1 + length (map Some ?A) + length (map Some ?X)" "bt_gap_size ?t = length g" "g \<noteq> []"
    using lay(1) L by (auto simp: bt_layout_def first_cell_def)
  from gap_left_cells [OF t q, of i "1 + n"] obtain G' qs where
    st': "gap_left i (1 + n) (1 + length ?A) st = Some (Inr (),
      st\<lparr>ed_text := ?t\<lparr>bt_beg := map Some ?A @ (Some 0 # G') @ map Some ?X @ map Some (concat R) @ eg,
           bt_gpt := 1 + length ?A, bt_bufgpt := 1 + n\<rparr>,
         ed_quit := qs,
         ed_bufs := map (adjust_markers (1 + int (length ?A)) (1 + int (length ?A) + int (length ?X)) (int (length g)))
           (ed_bufs st)\<rparr>)" (is "_ = Some (Inr (), ?st')")
    and G': "Suc (length G') = length g" "quit_step (ed_inhibit_quit st) (ed_quit st) False qs" by auto
  let ?t' = "?t\<lparr>bt_beg := map Some ?A @ (Some 0 # G') @ map Some ?X @ map Some (concat R) @ eg,
           bt_gpt := 1 + length ?A, bt_bufgpt := 1 + n\<rparr>"
  have b: "bofs C n = length ?A" using n lay(2) by (simp add: bofs_def)
  have CC: "take n C = take n L" "drop n C = drop n L @ R" "take n L @ drop n L @ R = C" using n lay(2)
    by (simp_all add: append_assoc [symmetric] del: append_assoc)
  have lay': "bt_layout ?t' (take n L) (Some 0 # G') (drop n L @ R) eg"
    using lay(1) L n G'(1) first_cell_0 by (auto simp: bt_layout_def dest: in_set_takeD in_set_dropD)
  have nt: "norm_text ?t' = norm_text ?t" by (rule norm_text_layout [OF lay(1) lay']) (use lay(2) in simp_all)
  have ca: "caches_ok ?t' C" using rep by (simp add: ed_rep_def caches_ok_def)
  have adj: "adjust_markers (1 + int (length ?A)) (1 + int (length ?A) + int (length ?X)) (int (length g)) =
      move_markers (\<lambda>x. do_marker_adjustment x (int (1 + length ?A)) (int (bt_gpt ?t)) (int (length g)))"
    using t(2) by (simp add: adjust_markers_move ac_simps)
  have mk: "valid_membpos_p ?t' (do_marker_adjustment x (int (1 + length ?A)) (int (bt_gpt ?t)) (int (length g))) \<and>
      membpos_to_bytebpos ?t' (do_marker_adjustment x (int (1 + length ?A)) (int (bt_gpt ?t)) (int (length g))) =
      membpos_to_bytebpos ?t x" if "valid_membpos_p ?t x" for x
    by (rule adjust_markers_left) (use that t X lay(1) L in \<open>auto simp: bt_layout_def simp del: concat_eq_Nil_conv\<close>)
  have qt: "quiet (st\<lparr>ed_text := ?t', ed_quit := qs, ed_bufs := f\<rparr>)" for f
    using quit_step_quiet [OF q G'(2)] by (simp add: quiet_def)
  have "same_norm C st ?st'" unfolding same_norm_def adj
    using regap [OF rep lay' CC(3) nt ca mk] qt by blast
  moreover have "gap_at ?st' C n" using lay' CC by (auto simp: gap_at_def)
  moreover have "block_size ?t' = block_size ?t" by (simp add: block_size_def)
  ultimately show ?thesis using st' b by auto
qed

lemma move_gap_right_ok:
  assumes rep: "ed_rep st C" and q: "quiet st" and lay: "bt_layout (ed_text st) L g R eg" "C = L @ R"
    and n: "length L < n" "n \<le> length C" and small: "ed_small st"
  shows "\<exists>st'. gap_right i (1 + n) (1 + bofs C n) st = Some (Inr (), st') \<and> same_norm C st st' \<and>
    block_size (ed_text st') = block_size (ed_text st) \<and> gap_at st' C n"
proof -
  let ?t = "ed_text st" and ?m = "n - length L"
  let ?A = "concat L" and ?X = "concat (take ?m R)" and ?Y = "concat (drop ?m R)"
  have R: "concat R = ?X @ ?Y" by (metis append_take_drop_id concat_append)
  have X: "?X \<noteq> []" using lay n concat_empty_iff [OF chars_ok_take_drop(1)] by (auto simp: bt_layout_def simp del: concat_eq_Nil_conv)
  have t: "bt_beg ?t = map Some ?A @ g @ map Some ?X @ (map Some ?Y @ eg)"
    "bt_gpt ?t = 1 + length (map Some ?A)" "bt_gap_size ?t = length g" "g \<noteq> []" "length g < 2 ^ 31"
    using lay(1) R small by (auto simp: bt_layout_def first_cell_def ed_small_def block_size_def)
  from gap_right_cells [OF t q, of i "1 + n"] obtain G' qs where
    st': "gap_right i (1 + n) (1 + length ?A + length ?X) st = Some (Inr (),
      st\<lparr>ed_text := merge_at_end (?t\<lparr>bt_gpt := 1 + length ?A + length ?X, bt_bufgpt := 1 + n,
             bt_beg := map Some ?A @ map Some ?X @ (Some 0 # G') @ map Some ?Y @ eg\<rparr>),
         ed_quit := qs,
         ed_bufs := map (adjust_markers (1 + int (length ?A) + int (length g))
             (1 + int (length ?A) + int (length ?X) + int (length g)) (- int (length g))) (ed_bufs st)\<rparr>)"
      (is "_ = Some (Inr (), ?st')")
    and G': "Suc (length G') = length g" "quit_step (ed_inhibit_quit st) (ed_quit st) False qs" by auto
  let ?t1 = "?t\<lparr>bt_gpt := 1 + length ?A + length ?X, bt_bufgpt := 1 + n,
             bt_beg := map Some ?A @ map Some ?X @ (Some 0 # G') @ map Some ?Y @ eg\<rparr>"
  let ?t' = "merge_at_end ?t1"
  have b: "bofs C n = length ?A + length ?X" using n lay(2) by (simp add: bofs_def)
  have CC: "take n C = L @ take ?m R" "drop n C = drop ?m R" "(L @ take ?m R) @ drop ?m R = C" using n lay(2)
    by simp_all
  have lay1: "bt_layout ?t1 (L @ take ?m R) (Some 0 # G') (drop ?m R) eg"
    using lay R n G'(1) first_cell_0 by (auto simp: bt_layout_def dest: in_set_takeD in_set_dropD)
  have "\<exists>g' eg'. bt_layout ?t' (L @ take ?m R) g' (drop ?m R) eg'"
  proof (cases "bt_gpt ?t1 = bt_z ?t1")
    case True
    then have Y: "concat (drop ?m R) = []" "drop ?m R = []" 
    proof -
      have "length (concat R) = length ?X + length ?Y" using R by (metis length_append)
      then have "length ?Y = 0" using True lay(1) unfolding bt_layout_def by simp
      moreover have "chars_ok (drop ?m R)" using lay(1) chars_ok_take_drop(2) by (auto simp: bt_layout_def)
      ultimately show "?Y = []" "drop ?m R = []" using concat_empty_iff by blast+
    qed
    obtain e es where eg: "eg = es @ [e]" using lay(1) by (cases eg rule: rev_cases) (auto simp: bt_layout_def first_cell_def)
    have z: "bt_z ?t = 1 + length ?A + length ?X" using True by simp
    have u: "(map Some ?A @ map Some ?X @ Some 0 # G' @ es @ [e])[length ?A + length ?X + Suc (length G') + length es := Some 0] =
        map Some ?A @ map Some ?X @ Some 0 # G' @ es @ [Some 0]"
      by (simp add: list_update_append)
    have "bt_layout ?t' (L @ take ?m R) (Some 0 # G' @ es) [] [Some 0]"
      using lay1 True Y eg u z t(3) G'(1) first_cell_0 lay(1)
      by (simp add: merge_at_end_def SET_END_SENTINEL_def bt_layout_def ac_simps)
    then show ?thesis using Y(2) by auto
  qed (use lay1 in \<open>auto simp: merge_at_end_def\<close>)
  then obtain g' eg' where lay': "bt_layout ?t' (L @ take ?m R) g' (drop ?m R) eg'" by blast
  have nt: "norm_text ?t' = norm_text ?t" by (rule norm_text_layout [OF lay(1) lay'])
      (use lay(2) CC in \<open>auto simp: merge_at_end_def SET_END_SENTINEL_def\<close>)
  have ca: "caches_ok ?t' C" using rep by (auto simp: ed_rep_def caches_ok_def merge_at_end_def SET_END_SENTINEL_def)
  have adj: "adjust_markers (1 + int (length ?A) + int (length g))
             (1 + int (length ?A) + int (length ?X) + int (length g)) (- int (length g)) =
      move_markers (\<lambda>x. do_marker_adjustment x (int (bt_gpt ?t) + int (length g))
             (int (1 + length ?A + length ?X) + int (length g)) (- int (length g)))"
    using t(2) by (simp add: adjust_markers_move ac_simps)
  have mk: "valid_membpos_p ?t' (do_marker_adjustment x (int (bt_gpt ?t) + int (length g))
             (int (1 + length ?A + length ?X) + int (length g)) (- int (length g))) \<and>
      membpos_to_bytebpos ?t' (do_marker_adjustment x (int (bt_gpt ?t) + int (length g))
             (int (1 + length ?A + length ?X) + int (length g)) (- int (length g))) =
      membpos_to_bytebpos ?t x" if "valid_membpos_p ?t x" for x
    by (rule adjust_markers_right) (use that t X R lay(1) in
        \<open>auto simp: bt_layout_def merge_at_end_def SET_END_SENTINEL_def simp del: concat_eq_Nil_conv\<close>)
  have qt: "quiet (st\<lparr>ed_text := ?t', ed_quit := qs, ed_bufs := f\<rparr>)" for f
    using quit_step_quiet [OF q G'(2)] by (simp add: quiet_def)
  have "same_norm C st ?st'" unfolding same_norm_def adj
    using regap [OF rep lay' CC(3) nt ca mk] qt by blast
  moreover have "gap_at ?st' C n" using lay' CC by (auto simp: gap_at_def)
  moreover have "block_size ?t' = block_size ?t" by (simp add: block_size_def merge_at_end_def SET_END_SENTINEL_def ac_simps)
  ultimately show ?thesis using st' b by auto
qed

lemma same_norm_refl: "ed_rep st C \<Longrightarrow> quiet st \<Longrightarrow> same_norm C st st"
  by (simp add: same_norm_def)

lemma same_norm_trans: "same_norm C st st' \<Longrightarrow> same_norm C st' st'' \<Longrightarrow> same_norm C st st''"
  by (simp add: same_norm_def)

lemma move_gap_ok:
  assumes rep: "ed_rep st C" and q: "quiet st" "ed_small st" and n: "n \<le> length C"
  shows "\<exists>st'. move_gap i (1 + n) (1 + bofs C n) st = Some (Inr (), st') \<and> same_norm C st st' \<and>
    block_size (ed_text st') = block_size (ed_text st) \<and> gap_at st' C n"
proof -
  obtain L g R eg where C: "C = L @ R" "bt_layout (ed_text st) L g R eg" using rep by (auto simp: ed_rep_def)
  have gpt: "bt_gpt (ed_text st) = 1 + bofs C (length L)" using C by (simp add: bt_layout_def bofs_append bofs_all)
  have ok: "chars_ok C" using ed_rep_chars_ok [OF rep] .
  consider "n < length L" | "length L < n" | "n = length L" by linarith
  then show ?thesis
  proof cases
    case 1
    then have "bofs C n < bofs C (length L)" using bofs_less [OF ok] n C by simp
    then show ?thesis using move_gap_left_ok [OF rep q(1) C(2,1) 1] gpt by (simp add: move_gap_def)
  next
    case 2
    then have "bofs C (length L) < bofs C n" using bofs_less [OF ok] n C by simp
    then show ?thesis using move_gap_right_ok [OF rep q(1) C(2,1) 2 n q(2)] gpt by (simp add: move_gap_def)
  next
    case 3
    then have "gap_at st C n" using C by (auto simp: gap_at_def)
    with 3 gpt same_norm_refl [OF rep q(1)] show ?thesis by (simp add: move_gap_def)
  qed
qed

section \<open>Growing the gap\<close>

lemma adjust_markers_join:
  assumes "bt_gap_size t = s" "bt_gpt t' = bt_gpt t" "bt_gap_size t' = s + n" "bt_z t' = bt_z t" "0 < n"
    and "valid_membpos_p t x" "bt_gpt t \<le> bt_z t"
  defines "y \<equiv> do_marker_adjustment x (int (bt_gpt t) + int s) (int (bt_z t) + int s) (int n)"
  shows "valid_membpos_p t' y \<and> membpos_to_bytebpos t' y = membpos_to_bytebpos t x"
  using assms by (auto simp: valid_membpos_p_def membpos_to_bytebpos_def do_marker_adjustment_def)

lemma join_gaps_ok:
  assumes rep: "ed_rep st C" and q: "quiet st" and lay: "bt_layout (ed_text st) L g R eg" "C = L @ R"
    and n: "length e1 = n" "0 < n" "length e2 = 1"
    and t'_def: "t' = (ed_text st)\<lparr>bt_beg := map Some (concat L) @ g @ map Some (concat R) @ e1 @ e2, bt_end_gap_size := k\<rparr>"
  shows "\<exists>st' g'. join_gaps i n (st\<lparr>ed_text := t'\<rparr>) = Some (Inr (), st') \<and> same_norm C st st' \<and>
    bt_layout (ed_text st') L g' R [Some 0] \<and> length g' = length g + n"
proof -
  let ?t = "ed_text st" and ?A = "map Some (concat L) @ g" and ?X = "map Some (concat R)"
  let ?t1 = "(SET_BOTH_BUF_GPT (bt_bufz t' + bt_gap_size t') (bt_z t' + bt_gap_size t') t')
                  \<lparr>bt_gap_size := n, bt_end_gap_size := 0\<rparr>"
  let ?st1 = "st\<lparr>ed_text := ?t1, ed_inhibit_quit := True\<rparr>"
  have e1: "e1 \<noteq> []" using n by auto
  have "bt_beg (ed_text ?st1) = ?A @ ?X @ e1 @ e2" "bt_gpt (ed_text ?st1) = 1 + length ?A + length ?X"
    "bt_gap_size (ed_text ?st1) = length e1"
    using lay(1) n by (simp_all add: t'_def SET_BOTH_BUF_GPT_def bt_layout_def ac_simps)
  from gap_left_cells [OF this e1, of i "bt_bufgpt ?t + length g"] obtain G' qs where
    gl: "gap_left i (bt_bufgpt ?t + length g) (1 + length ?A) ?st1 = Some (Inr (),
      ?st1\<lparr>ed_text := ?t1\<lparr>bt_beg := ?A @ (Some 0 # G') @ ?X @ e2, bt_gpt := 1 + length ?A, bt_bufgpt := bt_bufgpt ?t + length g\<rparr>,
         ed_quit := qs,
         ed_bufs := map (adjust_markers (1 + int (length ?A)) (1 + int (length ?A) + int (length ?X)) (int (length e1)))
           (ed_bufs st)\<rparr>)"
    and G': "Suc (length G') = length e1" "qs = ed_quit st"
    by (auto simp: quiet_def quit_step_def)
  let ?mem = "?A @ (Some 0 # G') @ ?X @ e2"
  obtain s0 g0 where g: "g = s0 # g0" using lay(1) by (auto simp: bt_layout_def first_cell_def)
  let ?g' = "Some 0 # g0 @ Some 0 # G'"
  let ?t' = "?t\<lparr>bt_beg := map Some (concat L) @ ?g' @ ?X @ [Some 0], bt_gap_size := length g + n, bt_end_gap_size := 0\<rparr>"
  let ?k = "\<lambda>x. do_marker_adjustment x (int (bt_gpt ?t) + int (length g)) (int (bt_z ?t) + int (length g)) (int n)"
  let ?st' = "st\<lparr>ed_text := ?t', ed_quit := ed_quit st, ed_bufs := map (move_markers ?k) (ed_bufs st)\<rparr>"
  have adj: "adjust_markers (1 + int (length ?A)) (1 + int (length ?A) + int (length ?X)) (int (length e1)) = move_markers ?k"
    using lay(1) n by (simp add: adjust_markers_move bt_layout_def ac_simps)
  obtain e where e2: "e2 = [e]" using n(3) by (auto simp: length_Suc_conv)
  have mem: "(?mem[length (concat L) := Some 0])[length g + n + length (concat L) + length (concat R) := Some 0] =
      map Some (concat L) @ ?g' @ ?X @ [Some 0]"
  proof -
    let ?front = "map Some (concat L) @ ?g' @ ?X"
    have "?mem[length (concat L) := Some 0] = ?front @ [e]" using g e2 by (simp add: list_update_append)
    moreover have "length g + n + length (concat L) + length (concat R) = length ?front"
      using G'(1) g n(1) by simp
    ultimately show ?thesis by (metis append.assoc list_update_length)
  qed
  have t'_sel: "bt_bufgpt t' = bt_bufgpt ?t" "bt_gpt t' = bt_gpt ?t" "bt_gap_size t' = length g"
    "bt_bufz t' = bt_bufz ?t" "bt_z t' = bt_z ?t"
    using lay(1) by (simp_all add: t'_def bt_layout_def)
  have st1: "upd_text (\<lambda>t. (SET_BOTH_BUF_GPT (bt_bufz t + bt_gap_size t) (bt_z t + bt_gap_size t) t)
                  \<lparr>bt_gap_size := n, bt_end_gap_size := 0\<rparr>) (st\<lparr>ed_text := t', ed_inhibit_quit := True\<rparr>) = ?st1"
    by (simp add: upd_text_def)
  have gpt: "bt_gpt ?t + length g = 1 + length ?A" using lay(1) by (simp add: bt_layout_def)
  let ?t2 = "?t1\<lparr>bt_beg := ?mem, bt_gpt := 1 + length ?A, bt_bufgpt := bt_bufgpt ?t + length g\<rparr>"
  have t2: "SET_END_SENTINEL (SET_GAP_SENTINEL (SET_BOTH_BUF_GPT (bt_bufgpt ?t) (bt_gpt ?t)
      (?t2\<lparr>bt_gap_size := bt_gap_size ?t2 + length g\<rparr>))) = ?t'"
    using lay(1) mem t'_def by (simp add: SET_BOTH_BUF_GPT_def SET_GAP_SENTINEL_def SET_END_SENTINEL_def bt_layout_def ac_simps)
  have jg: "join_gaps i n (st\<lparr>ed_text := t'\<rparr>) = Some (Inr (), ?st')"
    unfolding join_gaps_def Let_def using gl G'(2) st1 t2
    by (simp add: t'_sel gpt ebind_def) (rule ed.equality; simp add: upd_text_def adj [simplified])
  have lay': "bt_layout ?t' L ?g' R [Some 0]"
    using lay(1) G'(1) g n(1) first_cell_0 by (simp add: bt_layout_def)
  have nt: "norm_text ?t' = norm_text ?t" by (rule norm_text_layout [OF lay(1) lay']) simp_all
  have ca: "caches_ok ?t' C" using rep by (simp add: ed_rep_def caches_ok_def)
  have mk: "valid_membpos_p ?t' (?k x) \<and> membpos_to_bytebpos ?t' (?k x) = membpos_to_bytebpos ?t x"
    if "valid_membpos_p ?t x" for x
    by (rule adjust_markers_join) (use that lay(1) n in \<open>auto simp: bt_layout_def\<close>)
  have "quiet ?st'" using q by (simp add: quiet_def)
  then have "same_norm C st ?st'" unfolding same_norm_def
    using regap [OF rep lay' lay(2) [symmetric] nt ca mk] by blast
  moreover have "length ?g' = length g + n" using G'(1) g n(1) by simp
  moreover have "bt_layout (ed_text ?st') L ?g' R [Some 0]" using lay' by simp
  ultimately show ?thesis using jg by blast
qed

lemma merge_gap_with_end_gap_ok:
  assumes rep: "ed_rep st C" and q: "quiet st" and at: "gap_at st C n"
  shows "\<exists>st'. merge_gap_with_end_gap i st = Some (Inr (), st') \<and> same_norm C st st' \<and> gap_at st' C n \<and>
    bt_gap_size (ed_text st') = bt_gap_size (ed_text st) + bt_end_gap_size (ed_text st) \<and>
    block_size (ed_text st') = block_size (ed_text st)"
proof -
  let ?t = "ed_text st" and ?L = "take n C" and ?R = "drop n C"
  obtain g eg where lay: "bt_layout ?t ?L g ?R eg" using at by (auto simp: gap_at_def)
  show ?thesis
  proof (cases "bt_end_gap_size ?t = 0")
    case True
    have t: "?t\<lparr>bt_end_gap_size := 0\<rparr> = ?t" using True by (cases ?t) simp
    have "upd_text (\<lambda>t. t\<lparr>bt_end_gap_size := 0\<rparr>) st = st" using t by (simp add: upd_text_def)
    with True same_norm_refl [OF rep q] at show ?thesis by (simp add: merge_gap_with_end_gap_def)
  next
    case False
    obtain e1 e2 where eg: "eg = e1 @ e2" "length e1 = bt_end_gap_size ?t" "length e2 = 1"
      using lay split_last [of 1 eg] by (auto simp: bt_layout_def)
    have "?t\<lparr>bt_beg := map Some (concat ?L) @ g @ map Some (concat ?R) @ e1 @ e2, bt_end_gap_size := 0\<rparr> =
        ?t\<lparr>bt_end_gap_size := 0\<rparr>" using lay eg(1) by (simp add: bt_layout_def)
    moreover obtain st' g' where "join_gaps i (bt_end_gap_size ?t) (st\<lparr>ed_text := ?t\<lparr>bt_beg := map Some (concat ?L) @ g @
          map Some (concat ?R) @ e1 @ e2, bt_end_gap_size := 0\<rparr>\<rparr>) = Some (Inr (), st')" "same_norm C st st'"
        "bt_layout (ed_text st') ?L g' ?R [Some 0]" "length g' = length g + bt_end_gap_size ?t"
      using join_gaps_ok [OF rep q lay _ eg(2) _ eg(3) refl] False by (metis append_take_drop_id neq0_conv)
    moreover from this have "gap_at st' C n" unfolding gap_at_def by blast
    ultimately show ?thesis using False lay
      by (intro exI [of _ st']) (auto simp: merge_gap_with_end_gap_def upd_text_def bt_layout_def block_size_def)
  qed
qed

lemma make_gap_ok:
  assumes rep: "ed_rep st C" and q: "quiet st" and at: "gap_at st C n"
    and fits: "int (bt_bufz (ed_text st) - 1 + bt_gap_size (ed_text st) +
      MAX_ALIGN_SIZE (inc + (2000 + (bt_z (ed_text st) - 1) div 8))) \<le> MOST_POSITIVE_FIXNUM"
  shows "\<exists>st' k. make_gap i inc st = Some (Inr (), st') \<and> same_norm C st st' \<and> gap_at st' C n \<and>
    k = max (bt_end_gap_size (ed_text st)) (MAX_ALIGN_SIZE (inc + (2000 + (bt_z (ed_text st) - 1) div 8))) \<and>
    bt_gap_size (ed_text st') = bt_gap_size (ed_text st) + k \<and> bt_end_gap_size (ed_text st') = 0"
proof -
  let ?t = "ed_text st" and ?L = "take n C" and ?R = "drop n C"
  let ?inc = "MAX_ALIGN_SIZE (inc + (2000 + (bt_z ?t - 1) div 8))"
  obtain g eg where lay: "bt_layout ?t ?L g ?R eg" using at by (auto simp: gap_at_def)
  have inc: "0 < ?inc" by (simp add: MAX_ALIGN_SIZE_def)
  show ?thesis
  proof (cases "?inc > bt_end_gap_size ?t")
    case True
    let ?e = "eg @ replicate (?inc - length eg + 1) None"
    have el: "length ?e = Suc ?inc" using True lay by (simp add: bt_layout_def)
    obtain e1 e2 where e12: "?e = e1 @ e2" "length e2 = 1" using split_last [of 1 ?e] el by (metis le_add1 plus_1_eq_Suc)
    with el have e: "?e = e1 @ e2" "length e1 = ?inc" "length e2 = 1" by (metis add_right_cancel length_append Suc_eq_plus1)+
    have "mem_realloc (bt_beg ?t) (bt_z ?t - 1 + bt_gap_size ?t + ?inc + 1) =
        map Some (concat ?L) @ g @ map Some (concat ?R) @ ?e"
      using lay True by (simp add: mem_realloc_def bt_layout_def ac_simps Suc_diff_le)
    then have t': "?t\<lparr>bt_beg := mem_realloc (bt_beg ?t) (bt_z ?t - 1 + bt_gap_size ?t + ?inc + 1)\<rparr> =
        ?t\<lparr>bt_beg := map Some (concat ?L) @ g @ map Some (concat ?R) @ e1 @ e2, bt_end_gap_size := bt_end_gap_size ?t\<rparr>"
      unfolding e(1) by simp
    obtain st' g' where "join_gaps i ?inc (st\<lparr>ed_text := ?t\<lparr>bt_beg := map Some (concat ?L) @ g @
          map Some (concat ?R) @ e1 @ e2, bt_end_gap_size := bt_end_gap_size ?t\<rparr>\<rparr>) = Some (Inr (), st')" "same_norm C st st'"
        "bt_layout (ed_text st') ?L g' ?R [Some 0]" "length g' = length g + ?inc"
      using join_gaps_ok [OF rep q lay append_take_drop_id [symmetric] e(2) inc e(3) refl] by blast
    moreover from this have "gap_at st' C n" unfolding gap_at_def by blast
    ultimately show ?thesis using True t' lay fits
      by (intro exI [of _ st']) (auto simp: make_gap_def upd_text_def Let_def bt_layout_def)
  next
    case False
    obtain e1 e2 where eg: "eg = e1 @ e2" "length e1 = bt_end_gap_size ?t" "length e2 = 1"
      using lay split_last [of 1 eg] by (auto simp: bt_layout_def)
    have "st\<lparr>ed_text := ?t\<lparr>bt_beg := map Some (concat ?L) @ g @ map Some (concat ?R) @ e1 @ e2,
        bt_end_gap_size := bt_end_gap_size ?t\<rparr>\<rparr> = st" using lay eg(1) by (simp add: bt_layout_def)
    moreover have "0 < bt_end_gap_size ?t" using False inc by linarith
    moreover obtain st' g' where "join_gaps i (bt_end_gap_size ?t) (st\<lparr>ed_text := ?t\<lparr>bt_beg := map Some (concat ?L) @ g @
          map Some (concat ?R) @ e1 @ e2, bt_end_gap_size := bt_end_gap_size ?t\<rparr>\<rparr>) = Some (Inr (), st')" "same_norm C st st'"
        "bt_layout (ed_text st') ?L g' ?R [Some 0]" "length g' = length g + bt_end_gap_size ?t"
      using join_gaps_ok [OF rep q lay append_take_drop_id [symmetric] eg(2) \<open>0 < bt_end_gap_size ?t\<close> eg(3) refl] by blast
    moreover from this have "gap_at st' C n" unfolding gap_at_def by blast
    ultimately have j: "join_gaps i (bt_end_gap_size ?t) st = Some (Inr (), st')" "same_norm C st st'" "gap_at st' C n"
      "bt_layout (ed_text st') ?L g' ?R [Some 0]" "length g' = length g + bt_end_gap_size ?t" by simp_all
    then have "make_gap i inc st = Some (Inr (), st')" using False by (simp add: make_gap_def Let_def)
    moreover have "bt_gap_size (ed_text st') = bt_gap_size ?t + bt_end_gap_size ?t" "bt_end_gap_size (ed_text st') = 0"
      using j(4,5) lay by (simp_all add: bt_layout_def)
    moreover have "max (bt_end_gap_size ?t) ?inc = bt_end_gap_size ?t" using False by simp
    ultimately show ?thesis using j(2,3) by auto
  qed
qed

section \<open>An example\<close>

text \<open>A buffer with four characters, one of them of two bytes, the gap and point before the newline.\<close>

definition sample_chars :: "ichar list" where
  "sample_chars = [[0x61], [0x81, 0xE9], [0x0A], [0x62]]"

definition sample_text :: buffer_text where
  "sample_text = \<lparr>bt_beg = [Some 0x61, Some 0x81, Some 0xE9, Some 0, None, None, Some 0x0A, Some 0x62, Some 0],
     bt_gpt = 4, bt_bufgpt = 3, bt_z = 6, bt_bufz = 5, bt_gap_size = 3, bt_end_gap_size = 0, bt_modiff = 1,
     bt_save_modiff = 1, bt_pos_cache = [], bt_cached_charpos = 1, bt_cached_bytepos = 1,
     bt_entirely_one_byte_p = False, bt_num_ascii_chars = 3, bt_in_multiple_change = 0, bt_mc_begin = 0,
     bt_mc_orig_end = 0, bt_mc_new_end = 0, bt_mc_begin_signaled = False\<rparr>"

definition sample_buffer :: buffer where
  "sample_buffer = \<lparr>b_live = True, b_pt = 4, b_bufpt = 3, b_begv = 1, b_bufbegv = 1, b_zv = 6, b_bufzv = 5,
     b_point_marker = 0,
     b_markers = [\<lparr>mk_id = 0, mk_membpos = 4, mk_insertion_type = False\<rparr>, \<lparr>mk_id = 1, mk_membpos = 8, mk_insertion_type = True\<rparr>],
     b_newline_was_deleted = False, b_begin_unchanged = 0, b_end_unchanged = 0, b_read_only = False, b_modtime = 0,
     b_undo_list = U_list []\<rparr>"

definition sample_ed :: ed where
  "sample_ed = \<lparr>ed_text = sample_text, ed_bufs = [sample_buffer], ed_quit = [False], ed_inhibit_quit = False,
     ed_inhibit_read_only = False, ed_hooks = [], ed_base = 0, ed_last_undo_buffer = None, ed_pending_boundary = False,
     ed_last_point_position = 1, ed_last_point_position_buffer = None\<rparr>"

lemma sample_chars_ok: "chars_ok sample_chars"
  by (simp add: sample_chars_def ichar_ok_def rep_bytes_by_first_byte_def ibyte_first_byte_p_def)

lemma sample_layout: "bt_layout sample_text [[0x61], [0x81, 0xE9]] [Some 0, None, None] [[0x0A], [0x62]] [Some 0]"
  by (simp add: sample_text_def bt_layout_def first_cell_def ichar_ok_def rep_bytes_by_first_byte_def
      ibyte_first_byte_p_def)

lemma sample_positions: "char_to_byte sample_chars 1 = 1" "char_to_byte sample_chars 3 = 4"
  "char_to_byte sample_chars 4 = 5" "char_to_byte sample_chars 5 = 6"
  by (simp_all add: char_to_byte_def bofs_def sample_chars_def numeral_3_eq_3 numeral_2_eq_2 eval_nat_numeral)

lemma sample_rep: "ed_rep sample_ed sample_chars" "quiet sample_ed" "ed_small sample_ed"
proof -
  have "pos_pair sample_chars (1, 1)" "pos_pair sample_chars (3, 4)" "pos_pair sample_chars (5, 6)" "pos_pair sample_chars (4, 5)"
    using sample_positions by (simp_all add: pos_pair_def) (simp_all add: sample_chars_def)
  moreover have "\<exists>L g R eg. sample_chars = L @ R \<and> bt_layout sample_text L g R eg"
  proof -
    have "sample_chars = [[0x61], [0x81, 0xE9]] @ [[0x0A], [0x62]]" by (simp add: sample_chars_def)
    with sample_layout show ?thesis by blast
  qed
  moreover have "filter ascii_char sample_chars = [[0x61], [0x0A], [0x62]]"
    by (simp add: sample_chars_def ascii_char_def byte_ascii_less)
  ultimately show "ed_rep sample_ed sample_chars"
    by (simp add: ed_rep_def sample_ed_def caches_ok_def sample_text_def buffer_ok_def buffer_pairs_ok_def
        sample_buffer_def marker_ok_def valid_membpos_p_def membpos_to_bytebpos_def) blast
  show "quiet sample_ed" "ed_small sample_ed"
    by (simp_all add: quiet_def ed_small_def sample_ed_def sample_text_def block_size_def)
qed

end
