(* ===== verification/Buffer_Scan.thy ===== *)
theory Buffer_Scan
  imports Buffer_Rep
begin

text \<open>
  Reading the text of a buffer across the gap: single characters and substrings, and the search
  for occurrences of a character (\<open>byte_scan_buffer\<close> and \<open>scan_buffer\<close> of
  \<open>src/search.c\<close>), which runs \<open>memchr\<close> over the contiguous stretches.
  The \<open>QUIT\<close> at the end of \<open>byte_scan_buffer\<close> is in \<open>scan_buffer\<close>, the only caller that is modelled.
\<close>

section \<open>Stretches and addresses\<close>

definition BYTE_BUF_CEILING_OF :: "buffer_text \<Rightarrow> buffer \<Rightarrow> int \<Rightarrow> int" where
  "BYTE_BUF_CEILING_OF t b n = (if n < int (bt_gpt t) \<and> int (bt_gpt t) < b_zv b then int (bt_gpt t) else b_zv b)"

definition BYTE_BUF_FLOOR_OF :: "buffer_text \<Rightarrow> buffer \<Rightarrow> int \<Rightarrow> int" where
  "BYTE_BUF_FLOOR_OF t b n = (if b_begv b < int (bt_gpt t) \<and> int (bt_gpt t) < n then int (bt_gpt t) else b_begv b)"

definition BYTE_BUF_PTR_BYTE_POS :: "buffer_text \<Rightarrow> nat \<Rightarrow> int" where
  "BYTE_BUF_PTR_BYTE_POS t ptr =
     (let x = int ptr + 1 in x - (if x > int (bt_gpt t) then int (bt_gap_size t) else 0))"

definition BYTE_BUF_BYTE_ADDRESS_BEFORE :: "buffer_text \<Rightarrow> int \<Rightarrow> int" where
  "BYTE_BUF_BYTE_ADDRESS_BEFORE t x = (if x > int (bt_gpt t) then x + int (bt_gap_size t) else x) - 2"

definition BYTE_BUF_FETCH_CHAR :: "buffer_text \<Rightarrow> int \<Rightarrow> ichar option" where
  "BYTE_BUF_FETCH_CHAR t x = do {
     let p = BYTE_BUF_BYTE_ADDRESS t x;
     b \<leftarrow> mem_read (bt_beg t) p;
     n \<leftarrow> rep_bytes_by_first_byte b;
     those (map (mem_read (bt_beg t)) [p..<p + n]) }"

section \<open>Searching\<close>

text \<open>\<open>memchr\<close> over initialised cells: the index of the first occurrence.\<close>

fun mem_chr :: "byte cells \<Rightarrow> nat \<Rightarrow> nat \<Rightarrow> byte \<Rightarrow> nat option option" where
  "mem_chr mem p 0 raw = Some None"
| "mem_chr mem p (Suc n) raw = do {
     b \<leftarrow> mem_read mem p;
     if b = raw then Some (Some p) else mem_chr mem (Suc p) n raw }"

text \<open>The loops over the stretches, for a byte; a ceiling before \<open>st\<close> would be a huge length.\<close>

partial_function (option) scan_forward ::
    "buffer_text \<Rightarrow> buffer \<Rightarrow> byte \<Rightarrow> int \<Rightarrow> int \<Rightarrow> int \<Rightarrow> (int \<times> int) option" where
  "scan_forward t b raw st lim cnt =
     (if st < lim \<and> cnt > 0 then
        let ceiling = min lim (BYTE_BUF_CEILING_OF t b st) in
        if ceiling < st then None
        else do {
          r \<leftarrow> mem_chr (bt_beg t) (BYTE_BUF_BYTE_ADDRESS t st) (nat (ceiling - st)) raw;
          case r of
            Some bufptr \<Rightarrow> scan_forward t b raw (BYTE_BUF_PTR_BYTE_POS t bufptr + 1) lim (cnt - 1)
          | None \<Rightarrow> scan_forward t b raw ceiling lim cnt
        }
      else Some (st, cnt))"

partial_function (option) scan_stretch_backward ::
    "byte cells \<Rightarrow> byte \<Rightarrow> int \<Rightarrow> int \<Rightarrow> int \<Rightarrow> (int \<times> bool) option" where
  "scan_stretch_backward mem raw bufptr floorptr st =
     (if bufptr \<ge> floorptr then do {
        b \<leftarrow> mem_read mem (nat bufptr);
        if b = raw then Some (st - 1, True)
        else scan_stretch_backward mem raw (bufptr - 1) floorptr (st - 1)
      } else Some (st, False))"

partial_function (option) scan_backward ::
    "buffer_text \<Rightarrow> buffer \<Rightarrow> byte \<Rightarrow> int \<Rightarrow> int \<Rightarrow> int \<Rightarrow> (int \<times> int) option" where
  "scan_backward t b raw st lim cnt =
     (if st > lim \<and> cnt < 0 then
        let floorpos = max lim (BYTE_BUF_FLOOR_OF t b st) in do {
          (st, found) \<leftarrow> scan_stretch_backward (bt_beg t) raw (BYTE_BUF_BYTE_ADDRESS_BEFORE t st)
                            (int (BYTE_BUF_BYTE_ADDRESS t floorpos)) st;
          scan_backward t b raw st lim (if found then cnt + 1 else cnt)
        }
      else Some (st, cnt))"

text \<open>The loops over the characters, for a target that is not ASCII.\<close>

partial_function (option) scan_chars_forward ::
    "buffer_text \<Rightarrow> ichar \<Rightarrow> int \<Rightarrow> int \<Rightarrow> int \<Rightarrow> (int \<times> int) option" where
  "scan_chars_forward t raw st lim cnt =
     (if st < lim \<and> cnt > 0 then do {
        c \<leftarrow> BYTE_BUF_FETCH_CHAR t st;
        st \<leftarrow> INC_BYTEBPOS t st;
        scan_chars_forward t raw st lim (if c = raw then cnt - 1 else cnt)
      } else Some (st, cnt))"

partial_function (option) scan_chars_backward ::
    "buffer_text \<Rightarrow> ichar \<Rightarrow> int \<Rightarrow> int \<Rightarrow> int \<Rightarrow> (int \<times> int) option" where
  "scan_chars_backward t raw st lim cnt =
     (if st > lim \<and> cnt < 0 then do {
        st \<leftarrow> DEC_BYTEBPOS t st;
        c \<leftarrow> BYTE_BUF_FETCH_CHAR t st;
        scan_chars_backward t raw st lim (if c = raw then cnt + 1 else cnt)
      } else Some (st, cnt))"

text \<open>Where the search stops, and the shortage; every character fits in \<open>FORMAT_DEFAULT\<close>.\<close>

definition byte_scan_buffer ::
    "buffer_text \<Rightarrow> buffer \<Rightarrow> ichar \<Rightarrow> int \<Rightarrow> int \<Rightarrow> int \<Rightarrow> (int \<times> int) option" where
  "byte_scan_buffer t b target st en cnt =
     (let lim = (if en > 0 then en else if cnt > 0 then b_zv b else b_begv b);
          ascii = (length target = 1 \<and> byte_ascii_p (hd target)) in
      if cnt = 0 then None
      else if cnt > 0 then
        (if ascii then scan_forward t b (hd target) st lim cnt else scan_chars_forward t target st lim cnt)
      else do {
        (st, cnt) \<leftarrow> (if ascii then scan_backward t b (hd target) st lim cnt
                       else scan_chars_backward t target st lim cnt);
        if cnt \<noteq> 0 then Some (st, - cnt) else do { st \<leftarrow> INC_BYTEBPOS t st; Some (st, 0) }
      })"

definition scan_buffer :: "nat \<Rightarrow> ichar \<Rightarrow> int \<Rightarrow> int \<Rightarrow> int \<Rightarrow> bool \<Rightarrow> ed \<Rightarrow> (int \<times> int) outcome" where
  "scan_buffer i target start en cnt allow_quit st =
     ebind (ed_charbpos_to_bytebpos i start st) (\<lambda>byte_start st.
     ebind (if en \<noteq> 0 then ed_charbpos_to_bytebpos i en st else Some (Inr 0, st)) (\<lambda>byte_end st.
       case byte_scan_buffer (ed_text st) (ed_bufs st ! i) target byte_start byte_end cnt of
         None \<Rightarrow> None
       | Some (byte_retval, shortage) \<Rightarrow>
           ebind (if allow_quit then QUIT st else Some (Inr (), st)) (\<lambda>_ st.
           ebind (ed_bytebpos_to_charbpos i byte_retval st) (\<lambda>r st. Some (Inr (r, shortage), st)))))"

declare scan_forward.simps [code] scan_stretch_backward.simps [code] scan_backward.simps [code]
  scan_chars_forward.simps [code] scan_chars_backward.simps [code]

section \<open>Reading the text\<close>

lemma layout_read:
  assumes "bt_layout t L g R eg" "k < length (concat (L @ R))"
  shows "mem_read (bt_beg t) (BYTE_BUF_BYTE_ADDRESS t (1 + int k)) = Some (concat (L @ R) ! k)"
proof (cases "k < length (concat L)")
  case True
  then show ?thesis using assms by (simp add: BYTE_BUF_BYTE_ADDRESS_def bt_layout_def mem_read_append nth_append)
      (simp add: mem_read_def)
next
  case False
  then obtain j where k: "k = length (concat L) + j" by (metis le_iff_add not_less)
  have "nat (int k + int (bt_gap_size t)) = length (concat L) + (length g + j)"
    using assms(1) k by (simp add: bt_layout_def)
  moreover have "int (bt_gpt t) \<le> 1 + int k" "j < length (concat R)" using assms k by (simp_all add: bt_layout_def)
  ultimately have "mem_read (bt_beg t) (BYTE_BUF_BYTE_ADDRESS t (1 + int k)) =
      mem_read (map Some (concat L) @ g @ map Some (concat R) @ eg) (length (concat L) + (length g + j))"
    using assms(1) by (simp add: BYTE_BUF_BYTE_ADDRESS_def bt_layout_def)
  also have "\<dots> = Some (concat R ! j)" using \<open>j < length (concat R)\<close>
    by (simp add: mem_read_def nth_append)
  finally show ?thesis using k by (simp add: nth_append)
qed

lemma those_map_Some: "\<forall>x\<in>set xs. f x = Some (h x) \<Longrightarrow> those (map f xs) = Some (map h xs)"
  by (induction xs) auto

lemma make_string_from_buffer_ok:
  assumes "bt_layout t L g R eg" "k + n \<le> length (concat (L @ R))"
  shows "make_string_from_buffer t (1 + int k) (int n) = Some (take n (drop k (concat (L @ R))))"
proof -
  have "\<forall>j\<in>set [0..<n]. mem_read (bt_beg t) (BYTE_BUF_BYTE_ADDRESS t (1 + int k + int j)) = Some (concat (L @ R) ! (k + j))"
    using layout_read [OF assms(1), of "k + j" for j] assms(2) by (auto simp: add.assoc)
  from those_map_Some [OF this] have "make_string_from_buffer t (1 + int k) (int n) =
      Some (map (\<lambda>j. concat (L @ R) ! (k + j)) [0..<n])"
    by (simp add: make_string_from_buffer_def)
  also have "map (\<lambda>j. concat (L @ R) ! (k + j)) [0..<n] = take n (drop k (concat (L @ R)))"
    using assms(2) by (intro nth_equalityI) (auto simp del: concat_append)
  finally show ?thesis .
qed

section \<open>The forward search\<close>

lemma mem_chr_correct:
  "holds mem p xs \<Longrightarrow> mem_chr mem p (length xs) raw =
     Some (if raw \<in> set xs then Some (p + length (takeWhile (\<lambda>b. b \<noteq> raw) xs)) else None)"
  by (induction xs arbitrary: p) (auto simp: holds_Cons)

text \<open>The bytes from one position up to another.\<close>

definition seg :: "'a list \<Rightarrow> int \<Rightarrow> int \<Rightarrow> 'a list" where
  "seg T x y = take (nat (y - x)) (drop (nat (x - 1)) T)"

lemma seg_split: "1 \<le> x \<Longrightarrow> x \<le> y \<Longrightarrow> y \<le> z \<Longrightarrow> seg T x z = seg T x y @ seg T y z"
proof -
  assume a: "1 \<le> x" "x \<le> y" "y \<le> z"
  then have "nat (z - x) = nat (y - x) + nat (z - y)" "nat (y - x) + nat (x - 1) = nat (y - 1)" by linarith+
  then show ?thesis by (simp add: seg_def take_add)
qed

lemma length_seg: "1 \<le> x \<Longrightarrow> x \<le> y \<Longrightarrow> y \<le> 1 + int (length T) \<Longrightarrow> length (seg T x y) = nat (y - x)"
  by (simp add: seg_def)

lemma nth_seg: "1 \<le> x \<Longrightarrow> y \<le> 1 + int (length T) \<Longrightarrow> int j < y - x \<Longrightarrow> seg T x y ! j = T ! (nat (x - 1) + j)"
  by (simp add: seg_def)

lemma stretch_holds:
  assumes "bt_layout t L g R eg" "1 \<le> x" "x \<le> y" "y \<le> 1 + int (length (concat (L @ R)))"
    and "int (bt_gpt t) \<le> x \<or> y \<le> int (bt_gpt t)"
  shows "holds (bt_beg t) (BYTE_BUF_BYTE_ADDRESS t x) (seg (concat (L @ R)) x y)"
  unfolding holds_def
proof (intro allI impI)
  let ?T = "concat (L @ R)"
  fix j assume "j < length (seg ?T x y)"
  then have j: "int j < y - x" using length_seg [OF assms(2-4)] by linarith
  then have k: "nat (x - 1) + j < length ?T" "1 + int (nat (x - 1) + j) = x + int j" using assms(2,4) by linarith+
  have "BYTE_BUF_BYTE_ADDRESS t (x + int j) = BYTE_BUF_BYTE_ADDRESS t x + j"
    using assms(2,5) j by (auto simp: BYTE_BUF_BYTE_ADDRESS_def)
  with layout_read [OF assms(1) k(1)] nth_seg [OF assms(2,4) j] k(2)
  show "mem_read (bt_beg t) (BYTE_BUF_BYTE_ADDRESS t x + j) = Some (seg ?T x y ! j)" by simp
qed

lemma BYTE_BUF_PTR_BYTE_POS_address: "1 \<le> x \<Longrightarrow> BYTE_BUF_PTR_BYTE_POS t (BYTE_BUF_BYTE_ADDRESS t x) = x \<or>
    x = int (bt_gpt t) \<and> bt_gap_size t = 0"
  by (auto simp: BYTE_BUF_PTR_BYTE_POS_def BYTE_BUF_BYTE_ADDRESS_def Let_def)

text \<open>The outcome of a search of \<open>T\<close> from \<open>x\<close> to \<open>lim\<close> for \<open>cnt\<close> occurrences.\<close>

definition found_forward :: "'a list \<Rightarrow> 'a \<Rightarrow> int \<Rightarrow> int \<Rightarrow> int \<Rightarrow> int \<times> int \<Rightarrow> bool" where
  "found_forward T raw x lim cnt res \<longleftrightarrow> (case res of (r, short) \<Rightarrow>
     x \<le> r \<and> r \<le> lim \<and> 0 \<le> short \<and> cnt = short + int (count_list (seg T x r) raw) \<and>
     (if short = 0 then x < r \<and> T ! nat (r - 2) = raw else r = lim))"

lemma scan_forward_correct:
  assumes lay: "bt_layout t L g R eg" and T: "T = concat (L @ R)"
    and lim: "lim \<le> b_zv b" "b_zv b \<le> 1 + int (length T)"
  shows "1 \<le> x \<Longrightarrow> x \<le> lim \<Longrightarrow> 0 \<le> cnt \<Longrightarrow> \<exists>r short. scan_forward t b raw x lim cnt = Some (r, short) \<and>
    x \<le> r \<and> r \<le> lim \<and> 0 \<le> short \<and> cnt = short + int (count_list (seg T x r) raw) \<and>
    (short = 0 \<longrightarrow> x < r \<and> T ! nat (r - 2) = raw \<or> r = x \<and> cnt = 0) \<and> (0 < short \<longrightarrow> r = lim)"
proof (induction "nat (lim - x)" arbitrary: x cnt rule: less_induct)
  case less
  show ?case
  proof (cases "x < lim \<and> cnt > 0")
    case False
    with less.prems show ?thesis by (subst scan_forward.simps) (auto simp: seg_def)
  next
    case True
    define y where "y = min lim (BYTE_BUF_CEILING_OF t b x)"
    have y: "x < y" "y \<le> lim" "int (bt_gpt t) \<le> x \<or> y \<le> int (bt_gpt t)"
      using True lim by (auto simp: y_def BYTE_BUF_CEILING_OF_def)
    have h: "holds (bt_beg t) (BYTE_BUF_BYTE_ADDRESS t x) (seg T x y)"
      unfolding T by (rule stretch_holds [OF lay]) (use less.prems y lim T in auto)
    have len: "length (seg T x y) = nat (y - x)" using less.prems y lim by (intro length_seg) auto
    let ?k = "length (takeWhile (\<lambda>b. b \<noteq> raw) (seg T x y))"
    have sf: "scan_forward t b raw x lim cnt =
        (if raw \<in> set (seg T x y)
         then scan_forward t b raw (BYTE_BUF_PTR_BYTE_POS t (BYTE_BUF_BYTE_ADDRESS t x + ?k) + 1) lim (cnt - 1)
         else scan_forward t b raw y lim cnt)"
      using mem_chr_correct [OF h, of raw] True y(1) unfolding len
      by (subst scan_forward.simps) (simp add: y_def [symmetric] Let_def)
    show ?thesis
    proof (cases "raw \<in> set (seg T x y)")
      case inT: True
      obtain ys zs where ys: "seg T x y = ys @ raw # zs" "raw \<notin> set ys" using split_list_first [OF inT] by blast
      then have tw: "takeWhile (\<lambda>b. b \<noteq> raw) (seg T x y) = ys" by (auto simp: takeWhile_append)
      have k: "int ?k < y - x" using len ys(1) y(1) unfolding tw by (simp add: nat_eq_iff2)
      let ?z = "x + int ?k"
      have addr: "BYTE_BUF_BYTE_ADDRESS t x + ?k = BYTE_BUF_BYTE_ADDRESS t ?z"
        using less.prems(1) y(3) k by (auto simp: BYTE_BUF_BYTE_ADDRESS_def)
      have "bt_gap_size t \<noteq> 0" using lay by (auto simp: bt_layout_def first_cell_def)
      with BYTE_BUF_PTR_BYTE_POS_address [of ?z t] less.prems(1) addr
      have z: "BYTE_BUF_PTR_BYTE_POS t (BYTE_BUF_BYTE_ADDRESS t x + ?k) + 1 = ?z + 1" by simp
      have sk: "seg T x y ! ?k = raw" unfolding tw using ys(1) by (simp add: nth_append)
      have Tz: "T ! nat (?z + 1 - 2) = raw"
        using sk nth_seg [of x y T ?k] k less.prems(1) y(2) lim by (simp add: nat_add_distrib nat_diff_distrib)
      have zl: "?z + 1 \<le> lim" "1 \<le> ?z + 1" "nat (lim - (?z + 1)) < nat (lim - x)" using k y(2) less.prems by linarith+
      have c1: "count_list (seg T x (?z + 1)) raw = 1"
      proof -
        have "nat (x + int (length ys) + 1 - x) = Suc (length ys)" "Suc (length ys) \<le> nat (y - x)"
          using k unfolding tw by linarith+
        then have "seg T x (?z + 1) = take (Suc (length ys)) (seg T x y)" unfolding tw by (simp add: seg_def min_def)
        also have "\<dots> = ys @ [raw]" using ys(1) by simp
        finally show ?thesis using ys(2) by (simp add: count_list_0_iff)
      qed
      have "0 \<le> cnt - 1" using True by simp
      from less.hyps [OF zl(3,2,1) this] obtain r short where
        r: "scan_forward t b raw (?z + 1) lim (cnt - 1) = Some (r, short)" "?z + 1 \<le> r" "r \<le> lim" "0 \<le> short"
          "cnt - 1 = short + int (count_list (seg T (?z + 1) r) raw)"
          "short = 0 \<longrightarrow> ?z + 1 < r \<and> T ! nat (r - 2) = raw \<or> r = ?z + 1 \<and> cnt - 1 = 0" "0 < short \<longrightarrow> r = lim"
        by blast
      have "x \<le> ?z + 1" by linarith
      from seg_split [OF less.prems(1) this r(2), of T]
      have "count_list (seg T x r) raw = 1 + count_list (seg T (?z + 1) r) raw" using c1 by simp
      then have "cnt = short + int (count_list (seg T x r) raw)" using r(5) by linarith
      moreover have "short = 0 \<longrightarrow> T ! nat (r - 2) = raw" using r(6) Tz by blast
      moreover have "x < r" using r(2) by linarith
      moreover have "scan_forward t b raw x lim cnt = Some (r, short)" using r(1) sf inT z by presburger
      ultimately show ?thesis using r(3,4,7) less_imp_le by blast
    next
      case notin: False
      have yl: "nat (lim - y) < nat (lim - x)" "1 \<le> y" using y less.prems by linarith+
      from less.hyps [OF yl y(2) less.prems(3)] obtain r short where
        r: "scan_forward t b raw y lim cnt = Some (r, short)" "y \<le> r" "r \<le> lim" "0 \<le> short"
          "cnt = short + int (count_list (seg T y r) raw)"
          "short = 0 \<longrightarrow> y < r \<and> T ! nat (r - 2) = raw \<or> r = y \<and> cnt = 0" "0 < short \<longrightarrow> r = lim" by blast
      have "seg T x r = seg T x y @ seg T y r" using less.prems(1) r(2) y(1) by (intro seg_split) auto
      then have "cnt = short + int (count_list (seg T x r) raw)" using r(5) notin by (simp add: count_list_0_iff)
      with r sf notin y(1) True show ?thesis by (intro exI [of _ r] exI [of _ short]) auto
    qed
  qed
qed

lemma byte_scan_buffer_forward_lemma:
  assumes "ed_rep st C" "b \<in> set (ed_bufs st)" "byte_ascii_p raw" "0 < cnt"
    and "1 \<le> x" "x \<le> en" "en \<le> b_zv b"
  shows "\<exists>res. byte_scan_buffer (ed_text st) b [raw] x en cnt = Some res \<and> found_forward (concat C) raw x en cnt res"
proof -
  obtain L g R eg where lay: "bt_layout (ed_text st) L g R eg" "C = L @ R" using assms(1) by (auto simp: ed_rep_def)
  have ok: "chars_ok C" by (rule ed_rep_chars_ok [OF assms(1)])
  have zv: "pos_pair C (b_bufzv b, b_zv b)" using assms(1,2) by (auto simp: ed_rep_def buffer_ok_def buffer_pairs_ok_def)
  have "b_zv b \<le> char_to_byte C (1 + int (length C))"
    using char_to_byte_mono [OF ok, of "b_bufzv b" "1 + int (length C)"] zv by (simp add: pos_pair_def)
  then have "b_zv b \<le> 1 + int (length (concat C))" by simp
  from scan_forward_correct [OF lay(1) refl assms(7) this [unfolded lay(2)] assms(5,6), of cnt raw] assms(4) lay(2)
  obtain r short where "scan_forward (ed_text st) b raw x en cnt = Some (r, short)" "x \<le> r" "r \<le> en" "0 \<le> short"
    "cnt = short + int (count_list (seg (concat C) x r) raw)"
    "short = 0 \<longrightarrow> x < r \<and> concat C ! nat (r - 2) = raw \<or> r = x \<and> cnt = 0" "0 < short \<longrightarrow> r = en" by auto
  with assms(3-6) show ?thesis
    by (intro exI [of _ "(r, short)"]) (auto simp: byte_scan_buffer_def found_forward_def Let_def)
qed

text \<open>C16: the forward search for a byte of ASCII in the text of a buffer, whatever the place of the gap: it
  ends, after as many occurrences as were asked for and right behind the last of them, or at the
  limit, and then the shortage is the number of those that were not found.\<close>

theorem byte_scan_buffer_forward:
  assumes "ed_rep st C" "b \<in> set (ed_bufs st)" "byte_ascii_p raw" "0 < cnt"
    and "1 \<le> x" "x \<le> en" "en \<le> b_zv b"
  shows "\<exists>res. byte_scan_buffer (ed_text st) b [raw] x en cnt = Some res \<and> found_forward (concat C) raw x en cnt res"
  using assms by (rule byte_scan_buffer_forward_lemma)

theorem byte_scan_buffer_forward_witness:
  "\<exists>res. byte_scan_buffer sample_text sample_buffer [0x0A] 2 6 1 = Some res \<and>
     found_forward (concat sample_chars) 0x0A 2 6 1 res"
  using byte_scan_buffer_forward [OF sample_rep(1), of sample_buffer "0x0A" 1 2 6]
  by (simp add: sample_ed_def byte_ascii_less) (simp add: sample_buffer_def)

end
