(* ===== verification/Buffer_Text.thy ===== *)
theory Buffer_Text
  imports Buffer_Scan
begin

text \<open>
  Changing the text of a buffer (\<open>src/insdel.c\<close>): the creation of a text, insertion,
  deletion and replacement of a character, and the restriction of a buffer to a region
  (\<open>src/editfns.c\<close>).  An edit runs the hooks, moves and grows the gap, records the change
  for undo in every buffer on the text, and adjusts markers, points, restrictions and caches.
  Strings are lists of bytes.  Left out: the extents of strings and buffers, the cache of line numbers, the counts of
  characters of 8 and 16 bits (only fixed-width formats use them), and the assertion (under \<open>ERROR_CHECK_TEXT\<close>) that a count of
  characters given by the caller is right.
\<close>

section \<open>Creation\<close>

text \<open>A buffer whose own text is fresh; \<open>None\<close> cells are uninitialised.\<close>

definition init_buffer_text_base :: "buffer \<Rightarrow> buffer_text \<times> buffer" where
  "init_buffer_text_base b =
     (SET_END_SENTINEL (SET_GAP_SENTINEL
        \<lparr>bt_beg = replicate 21 None, bt_gpt = 1, bt_bufgpt = 1, bt_z = 1, bt_bufz = 1, bt_gap_size = 20,
         bt_end_gap_size = 0, bt_modiff = 1, bt_save_modiff = 1, bt_pos_cache = [], bt_cached_charpos = 1,
         bt_cached_bytepos = 1, bt_entirely_one_byte_p = True, bt_num_ascii_chars = 0,
         bt_in_multiple_change = 0, bt_mc_begin = 0, bt_mc_orig_end = 0, bt_mc_new_end = 0,
         bt_mc_begin_signaled = False\<rparr>),
      b\<lparr>b_pt := 1, b_bufpt := 1, b_begv := 1, b_bufbegv := 1, b_zv := 1, b_bufzv := 1,
        b_begin_unchanged := 0, b_end_unchanged := 0, b_newline_was_deleted := False\<rparr>)"

definition init_buffer_text_indirect :: "buffer \<Rightarrow> buffer \<Rightarrow> buffer" where
  "init_buffer_text_indirect base b =
     b\<lparr>b_pt := b_pt base, b_bufpt := b_bufpt base, b_begv := b_begv base, b_bufbegv := b_bufbegv base,
       b_zv := b_zv base, b_bufzv := b_bufzv base,
       b_begin_unchanged := 0, b_end_unchanged := 0, b_newline_was_deleted := False\<rparr>"

section \<open>Insertion\<close>

text \<open>The count of the ASCII characters of a string.\<close>

partial_function (option) count_ascii :: "byte cells \<Rightarrow> nat \<Rightarrow> nat \<Rightarrow> int \<Rightarrow> int option" where
  "count_ascii mem ptr ptrend n =
     (if ptr < ptrend then do {
        b \<leftarrow> mem_read mem ptr;
        ptr \<leftarrow> INC_IBYTEPTR mem ptr;
        count_ascii mem ptr ptrend (if byte_ascii_p b then n + 1 else n)
      } else Some n)"

text \<open>Room for \<open>len\<close> bytes in a gap at the position.\<close>

definition make_room :: "nat \<Rightarrow> int \<Rightarrow> int \<Rightarrow> nat \<Rightarrow> ed \<Rightarrow> unit outcome" where
  "make_room i pos bytepos len st =
     ebind (if bytepos \<noteq> int (bt_gpt (ed_text st)) then move_gap i (nat pos) (nat bytepos) st
            else Some (Inr (), st)) (\<lambda>_ st.
       if GAP_CAN_HOLD_SIZE_P (ed_text st) len then Some (Inr (), st)
       else if bt_end_gap_size (ed_text st) \<ge> len then merge_gap_with_end_gap i st
       else make_gap i (len - bt_gap_size (ed_text st)) st)"

text \<open>The bytes enter the gap; the new text is \<open>FORMAT_DEFAULT\<close> like the string.\<close>

definition entirely_one_byte :: "buffer_text \<Rightarrow> buffer_text" where
  "entirely_one_byte t = t\<lparr>bt_entirely_one_byte_p := bt_bufz t = bt_z t\<rparr>"

definition fill_gap :: "byte list \<Rightarrow> nat \<Rightarrow> buffer_text \<Rightarrow> buffer_text" where
  "fill_gap bs cclen t =
     SET_GAP_SENTINEL (t\<lparr>bt_beg := mem_copy (bt_beg t) (bt_gpt t - 1) (map Some bs),
       bt_gap_size := bt_gap_size t - length bs,
       bt_bufgpt := bt_bufgpt t + cclen, bt_gpt := bt_gpt t + length bs,
       bt_bufz := bt_bufz t + cclen, bt_z := bt_z t + length bs\<rparr>)"

definition ZV_after_insert :: "int \<Rightarrow> int \<Rightarrow> buffer \<Rightarrow> buffer" where
  "ZV_after_insert cclen len b = b\<lparr>b_bufzv := b_bufzv b + cclen, b_zv := b_zv b + len\<rparr>"

definition PT_after_insert :: "int \<Rightarrow> int \<Rightarrow> int \<Rightarrow> buffer \<Rightarrow> buffer" where
  "PT_after_insert bytepos cclen len b =
     (if b_pt b > bytepos then JUST_SET_POINT (b_bufpt b + cclen) (b_pt b + len) b else b)"

text \<open>The part that cannot quit, from \<open>record_insert\<close> to the adjustment of the points.\<close>

definition insert_in_gap :: "int \<Rightarrow> int \<Rightarrow> byte list \<Rightarrow> int \<Rightarrow> ed \<Rightarrow> unit outcome" where
  "insert_in_gap pos bytepos bs cclen st =
     ebind (map_indirect_buffers (record_insert pos cclen) st) (\<lambda>_ st.
       let len = int (length bs);
           st = upd_text (\<lambda>t. t\<lparr>bt_modiff := bt_modiff t + 1\<rparr>) st;
           st = upd_bufs (ZV_after_insert cclen len) (upd_text (fill_gap bs (nat cclen)) st);
           st = upd_text (buffer_mule_signal_inserted_region pos len cclen) st
       in case count_ascii (map Some bs) 0 (length bs) (bt_num_ascii_chars (ed_text st)) of
            None \<Rightarrow> None
          | Some n \<Rightarrow>
              let st = upd_text (\<lambda>t. entirely_one_byte (t\<lparr>bt_num_ascii_chars := n\<rparr>)) st;
                  st = upd_bufs (adjust_markers_for_insert bytepos len) st
              in Some (Inr (), upd_bufs (PT_after_insert bytepos cclen len) st))"

definition insert_cclen :: "byte list \<Rightarrow> int \<Rightarrow> int option" where
  "insert_cclen bs cclen =
     (if cclen < 0 then map_option int (bytecount_to_charcount 0 (map Some bs) 0 (length bs)) else Some cclen)"

text \<open>\<open>before_markers\<close> is the flag \<open>INSDEL_BEFORE_MARKERS\<close>.\<close>

definition buffer_insert_string_1 :: "nat \<Rightarrow> int \<Rightarrow> byte list \<Rightarrow> int \<Rightarrow> bool \<Rightarrow> ed \<Rightarrow> int outcome" where
  "buffer_insert_string_1 i pos bs cclen before_markers st =
     (if \<not> b_live (ed_bufs st ! i) then Some (Inr 0, st)
      else
        let move_point = (pos = - 1);
            pos = (if pos = - 1 then b_bufpt (ed_bufs st ! i) else pos) in
        ebind (prepare_to_modify_buffer i pos pos st) (\<lambda>_ st.
        if \<not> b_live (ed_bufs st ! i) then Some (Inr 0, st)
        else
          let pos = clip (ed_bufs st ! i) pos in
          ebind (ed_charbpos_to_bytebpos i pos st) (\<lambda>bytepos st.
          case insert_cclen bs cclen of None \<Rightarrow> None | Some cclen \<Rightarrow>
          if (MOST_POSITIVE_FIXNUM - 1) - int (bt_bufz (ed_text st)) < cclen then Some (Inl Out_of_memory, st)
          else
            ebind (make_room i pos bytepos (length bs) st) (\<lambda>_ st.
            ebind (insert_in_gap pos bytepos bs cclen st) (\<lambda>_ st.
            ebind (if move_point then BYTE_BUF_SET_PT i (bytepos + int (length bs)) st else Some (Inr (), st)) (\<lambda>_ st.
            let st = (if before_markers
                      then upd_bufs (adjust_markers (bytepos - 1) bytepos (int (length bs))) st else st) in
            ebind (signal_after_change i pos pos (pos + cclen) st) (\<lambda>_ st. Some (Inr cclen, st))))))))"

definition buffer_insert_raw_string_1 :: "nat \<Rightarrow> int \<Rightarrow> byte list \<Rightarrow> bool \<Rightarrow> ed \<Rightarrow> int outcome" where
  "buffer_insert_raw_string_1 i pos bs flags = buffer_insert_string_1 i pos bs (- 1) flags"

definition buffer_insert_emacs_char_1 :: "nat \<Rightarrow> int \<Rightarrow> ichar \<Rightarrow> bool \<Rightarrow> ed \<Rightarrow> int outcome" where
  "buffer_insert_emacs_char_1 i pos ch flags = buffer_insert_string_1 i pos ch (- 1) flags"

text \<open>Text copied from the buffer \<open>k\<close> on the same text.\<close>

definition buffer_insert_from_buffer_1 :: "nat \<Rightarrow> int \<Rightarrow> nat \<Rightarrow> int \<Rightarrow> int \<Rightarrow> bool \<Rightarrow> ed \<Rightarrow> int outcome" where
  "buffer_insert_from_buffer_1 i pos k pos2 len flags st =
     ebind (ed_charbpos_to_bytebpos k pos2 st) (\<lambda>bpos2 st.
     ebind (ed_charbpos_to_bytebpos k (pos2 + len) st) (\<lambda>bpos3 st.
       case make_string_from_buffer (ed_text st) bpos2 (bpos3 - bpos2) of
         None \<Rightarrow> None
       | Some bs \<Rightarrow> buffer_insert_string_1 i pos bs (- 1) flags st))"

section \<open>Deletion\<close>

text \<open>The count of the ASCII characters of the region, downwards from \<open>n\<close>.\<close>

partial_function (option) uncount_ascii :: "buffer_text \<Rightarrow> int \<Rightarrow> int \<Rightarrow> int \<Rightarrow> int option" where
  "uncount_ascii t x byte_to n =
     (if x < byte_to then do {
        b \<leftarrow> mem_read (bt_beg t) (BYTE_BUF_BYTE_ADDRESS t x);
        y \<leftarrow> INC_BYTEBPOS t x;
        uncount_ascii t y byte_to (if byte_ascii_p b then n - 1 else n)
      } else Some n)"

definition PT_after_delete :: "int \<Rightarrow> int \<Rightarrow> int \<Rightarrow> int \<Rightarrow> buffer \<Rightarrow> buffer" where
  "PT_after_delete frm numdel byte_from byte_numdel b =
     (if byte_from < b_pt b then
        (if b_pt b < byte_from + byte_numdel then JUST_SET_POINT frm byte_from b
         else JUST_SET_POINT (b_bufpt b - numdel) (b_pt b - byte_numdel) b)
      else b)"

definition ZV_after_delete :: "int \<Rightarrow> int \<Rightarrow> buffer \<Rightarrow> buffer" where
  "ZV_after_delete numdel byte_numdel b = b\<lparr>b_bufzv := b_bufzv b - numdel, b_zv := b_zv b - byte_numdel\<rparr>"

definition widen_gap :: "bool \<Rightarrow> nat \<Rightarrow> nat \<Rightarrow> nat \<Rightarrow> nat \<Rightarrow> buffer_text \<Rightarrow> buffer_text" where
  "widen_gap do_move_gap frm numdel byte_from byte_numdel t =
     (let t = (if do_move_gap then t\<lparr>bt_gap_size := bt_gap_size t + byte_numdel\<rparr>
               else t\<lparr>bt_end_gap_size := bt_end_gap_size t + byte_numdel\<rparr>);
          t = t\<lparr>bt_bufz := bt_bufz t - numdel, bt_z := bt_z t - byte_numdel\<rparr>;
          t = (if do_move_gap then SET_BOTH_BUF_GPT frm byte_from t else t)
      in SET_GAP_SENTINEL t)"

text \<open>The search for a newline in the region, which may quit.\<close>

definition note_deleted_newline :: "nat \<Rightarrow> int \<Rightarrow> int \<Rightarrow> ed \<Rightarrow> unit outcome" where
  "note_deleted_newline i frm till st =
     (if b_newline_was_deleted (ed_bufs st ! i) then Some (Inr (), st)
      else ebind (scan_buffer i [0x0A] frm till 1 True st) (\<lambda>(_, shortage) st.
        Some (Inr (), if shortage = 0 then upd_bufs (\<lambda>b. b\<lparr>b_newline_was_deleted := True\<rparr>) st else st)))"

text \<open>The changes to text and buffers; \<open>n\<close> is the new count of ASCII characters.\<close>

definition apply_deletion :: "bool \<Rightarrow> int \<Rightarrow> int \<Rightarrow> int \<Rightarrow> int \<Rightarrow> int \<Rightarrow> ed \<Rightarrow> ed" where
  "apply_deletion do_move_gap frm till byte_from byte_to n st =
     (let numdel = till - frm; byte_numdel = byte_to - byte_from;
          st = upd_text (\<lambda>t. t\<lparr>bt_num_ascii_chars := n\<rparr>) st;
          gap = int (bt_gap_size (ed_text st));
          st = upd_bufs (adjust_markers (byte_to + gap) (byte_to + gap)
                 (- byte_numdel - (if do_move_gap then gap else 0))) st;
          st = upd_bufs (PT_after_delete frm numdel byte_from byte_numdel) st;
          st = upd_bufs (ZV_after_delete numdel byte_numdel) st;
          st = upd_text (widen_gap do_move_gap (nat frm) (nat numdel) (nat byte_from) (nat byte_numdel)) st;
          st = upd_text (buffer_mule_signal_deleted_region frm till byte_from byte_to) st
      in upd_text entirely_one_byte st)"

text \<open>The part after the gap has moved.\<close>

definition delete_at_gap :: "nat \<Rightarrow> bool \<Rightarrow> int \<Rightarrow> int \<Rightarrow> int \<Rightarrow> int \<Rightarrow> ed \<Rightarrow> unit outcome" where
  "delete_at_gap i do_move_gap frm till byte_from byte_to st =
     ebind (map_indirect_buffers (record_delete frm (till - frm)) st) (\<lambda>_ st.
     let st = upd_text (\<lambda>t. t\<lparr>bt_modiff := bt_modiff t + 1\<rparr>) st in
     ebind (note_deleted_newline i frm till st) (\<lambda>_ st.
     case uncount_ascii (ed_text st) byte_from byte_to (bt_num_ascii_chars (ed_text st)) of
       None \<Rightarrow> None
     | Some n \<Rightarrow> Some (Inr (), apply_deletion do_move_gap frm till byte_from byte_to n st)))"

definition bring_gap :: "nat \<Rightarrow> int \<Rightarrow> int \<Rightarrow> int \<Rightarrow> int \<Rightarrow> ed \<Rightarrow> bool outcome" where
  "bring_gap i frm till byte_from byte_to st =
     (if till = int (bt_bufz (ed_text st)) \<and> byte_from > int (bt_gpt (ed_text st)) then Some (Inr False, st)
      else
        ebind (if byte_to < int (bt_gpt (ed_text st)) then gap_left i (nat till) (nat byte_to) st
               else Some (Inr (), st)) (\<lambda>_ st.
        ebind (if byte_from > int (bt_gpt (ed_text st)) then gap_right i (nat frm) (nat byte_from) st
               else Some (Inr (), st)) (\<lambda>_ st. Some (Inr True, st))))"

definition clip_range :: "buffer \<Rightarrow> int \<Rightarrow> int \<Rightarrow> int \<times> int" where
  "clip_range b frm till =
     ((if frm < b_bufbegv b then b_bufbegv b else frm), (if till > b_bufzv b then b_bufzv b else till))"

definition buffer_delete_range :: "nat \<Rightarrow> int \<Rightarrow> int \<Rightarrow> ed \<Rightarrow> unit outcome" where
  "buffer_delete_range i frm till st =
     (if \<not> b_live (ed_bufs st ! i) then Some (Inr (), st)
      else
        let (frm, till) = clip_range (ed_bufs st ! i) frm till in
        if till - frm \<le> 0 then Some (Inr (), st)
        else ebind (prepare_to_modify_buffer i frm till st) (\<lambda>_ st.
          if \<not> b_live (ed_bufs st ! i) then Some (Inr (), st)
          else
            let (frm, till) = clip_range (ed_bufs st ! i) frm till in
            if till - frm \<le> 0 then Some (Inr (), st)
            else
              ebind (ed_charbpos_to_bytebpos i frm st) (\<lambda>byte_from st.
              ebind (ed_charbpos_to_bytebpos i till st) (\<lambda>byte_to st.
              ebind (bring_gap i frm till byte_from byte_to st) (\<lambda>do_move_gap st.
              ebind (delete_at_gap i do_move_gap frm till byte_from byte_to st) (\<lambda>_.
                signal_after_change i frm till frm))))))"

section \<open>Replacement of a character\<close>

text \<open>The bytes replaced in place, after the hooks.\<close>

definition overwrite_char :: "nat \<Rightarrow> int \<Rightarrow> ichar \<Rightarrow> ichar \<Rightarrow> bool \<Rightarrow> ed \<Rightarrow> unit outcome" where
  "overwrite_char i pos ch oldch not_real_change st =
     (let asc = (\<lambda>c. length c = 1 \<and> byte_ascii_p (hd c)) in
      ebind (ed_charbpos_to_bytebpos i pos st) (\<lambda>bpos st.
      case BYTE_BUF_FETCH_CHAR (ed_text st) bpos of None \<Rightarrow> None | Some c \<Rightarrow>
      let st = (if c = [0x0A] then upd_bufs (\<lambda>b. b\<lparr>b_newline_was_deleted := True\<rparr>) st else st) in
      ebind (if not_real_change then Some (Inr (), st)
             else ebind (map_indirect_buffers (record_change pos 1) st) (\<lambda>_ st.
               Some (Inr (), upd_text (\<lambda>t. t\<lparr>bt_modiff := bt_modiff t + 1\<rparr>) st))) (\<lambda>_ st.
      let st = upd_text (\<lambda>t. t\<lparr>bt_num_ascii_chars := bt_num_ascii_chars t - (if asc oldch then 1 else 0)
                 + (if asc ch then 1 else 0)\<rparr>) st in
      ebind (ed_charbpos_to_bytebpos i pos st) (\<lambda>bpos st.
      let t = ed_text st; addr = BYTE_BUF_BYTE_ADDRESS t bpos;
          st = upd_text (\<lambda>t. t\<lparr>bt_beg := mem_copy (bt_beg t) addr (map Some ch)\<rparr>) st
      in signal_after_change i pos (pos + 1) (pos + 1) st))))"

text \<open>A position made valid again for a character: \<open>None\<close> when the restriction is empty.\<close>

definition clip_char :: "buffer \<Rightarrow> int \<Rightarrow> int option" where
  "clip_char b pos =
     (let pos = (if pos < b_bufbegv b then b_bufbegv b else pos);
          pos = (if pos \<ge> b_bufzv b then b_bufzv b - 1 else pos)
      in if pos < b_bufbegv b then None else Some pos)"

definition buffer_replace_char :: "nat \<Rightarrow> int \<Rightarrow> ichar \<Rightarrow> bool \<Rightarrow> ed \<Rightarrow> unit outcome" where
  "buffer_replace_char i pos ch not_real_change st =
     (if \<not> b_live (ed_bufs st ! i) then Some (Inr (), st)
      else
        ebind (ed_charbpos_to_bytebpos i pos st) (\<lambda>bpos st.
        case BYTE_BUF_FETCH_CHAR (ed_text st) bpos of None \<Rightarrow> None | Some oldch \<Rightarrow>
        if length ch = length oldch then
          ebind (prepare_to_modify_buffer i pos (pos + 1) st) (\<lambda>_ st.
            if \<not> b_live (ed_bufs st ! i) then Some (Inr (), st)
            else case clip_char (ed_bufs st ! i) pos of
              None \<Rightarrow> Some (Inr (), st)
            | Some pos \<Rightarrow> overwrite_char i pos ch oldch not_real_change st)
        else
          let movepoint = (pos = b_bufpt (ed_bufs st ! i) - 1) in
          ebind (buffer_delete_range i pos (pos + 1) st) (\<lambda>_ st.
            if \<not> b_live (ed_bufs st ! i) then Some (Inr (), st)
            else case clip_char (ed_bufs st ! i) pos of
              None \<Rightarrow> Some (Inr (), st)
            | Some pos \<Rightarrow>
                ebind (buffer_insert_string_1 i (if movepoint then - 1 else pos) ch (- 1) False st)
                  (\<lambda>_ st. Some (Inr (), st)))))"

section \<open>Restrictions\<close>

definition widen_buffer :: "nat \<Rightarrow> ed \<Rightarrow> ed" where
  "widen_buffer i st =
     (let t = ed_text st;
          set_begv = (\<lambda>b. if b_bufbegv b \<noteq> BUF_BEG then b\<lparr>b_bufbegv := BUF_BEG, b_begv := BYTE_BUF_BEG\<rparr> else b);
          set_zv = (\<lambda>b. if b_bufzv b \<noteq> int (bt_bufz t) then b\<lparr>b_bufzv := int (bt_bufz t), b_zv := int (bt_z t)\<rparr> else b)
      in upd_buf i (\<lambda>b. set_zv (set_begv b)) st)"

definition Fnarrow_to_region :: "nat \<Rightarrow> int \<Rightarrow> int \<Rightarrow> ed \<Rightarrow> unit outcome" where
  "Fnarrow_to_region i start en st =
     (let t = ed_text st in
      if start < BUF_BEG \<or> int (bt_bufz t) < start \<or> en < BUF_BEG \<or> int (bt_bufz t) < en
      then Some (Inl Args_out_of_range, st)
      else
        let (char_start, char_end) = (if start > en then (en, start) else (start, en)) in
        ebind (ed_charbpos_to_bytebpos i char_start st) (\<lambda>byte_start st.
        ebind (ed_charbpos_to_bytebpos i char_end st) (\<lambda>byte_end st.
        let st = upd_buf i (\<lambda>b. b\<lparr>b_bufbegv := char_start, b_begv := byte_start,
                                b_bufzv := char_end, b_zv := byte_end\<rparr>) st in
        ebind (if b_bufpt (ed_bufs st ! i) < char_start then BUF_SET_PT i char_start st else Some (Inr (), st)) (\<lambda>_ st.
        if b_bufpt (ed_bufs st ! i) > char_end then BUF_SET_PT i char_end st else Some (Inr (), st)))))"

declare count_ascii.simps [code] uncount_ascii.simps [code]

end
