(* ===== verification/Buffer_Edit.thy ===== *)
theory Buffer_Edit
  imports Buffer_Text
begin

text \<open>
  The steps that the edits of \<open>Buffer_Text\<close> share: conversions of positions, the hooks before and
  after a change, the records of undo, and room in the gap.  For each step the function of the
  normal form that it computes.
\<close>

section \<open>Conversions of positions\<close>

text \<open>A state after some conversions: only the caches of the text have changed.\<close>

definition cached :: "ichar list \<Rightarrow> ed \<Rightarrow> ed \<Rightarrow> bool" where
  "cached C st st' \<longleftrightarrow> (\<exists>t'. st' = st\<lparr>ed_text := t'\<rparr> \<and> same_but_caches (ed_text st) t' \<and> caches_ok t' C)"

lemma cached_refl: "ed_rep st C \<Longrightarrow> cached C st st"
  by (auto simp: cached_def ed_rep_def intro!: exI [of _ "ed_text st"])

lemma cached_trans: "cached C st st' \<Longrightarrow> cached C st' st'' \<Longrightarrow> cached C st st''"
  unfolding cached_def using same_but_caches_trans by fastforce

lemma same_but_caches_norm:
  assumes "same_but_caches t t'"
  shows "norm_text t' = norm_text t" "membpos_to_bytebpos t' = membpos_to_bytebpos t"
    "valid_membpos_p t' = valid_membpos_p t" "bt_layout t' L g R eg = bt_layout t L g R eg"
    "block_size t' = block_size t"
proof -
  note sel = same_but_caches_sel [OF assms]
  show "membpos_to_bytebpos t' = membpos_to_bytebpos t" "valid_membpos_p t' = valid_membpos_p t"
    "bt_layout t' L g R eg = bt_layout t L g R eg" "block_size t' = block_size t"
    by (simp_all add: fun_eq_iff membpos_to_bytebpos_def valid_membpos_p_def bt_layout_def block_size_def sel)
  have "text_of t' = text_of t" by (simp add: text_of_def sel)
  then show "norm_text t' = norm_text t" using assms unfolding norm_text_def same_but_caches_def
    by (cases t; cases t'; simp)
qed

lemma norm_buf_cong: "membpos_to_bytebpos t' = membpos_to_bytebpos t \<Longrightarrow> norm_buf t' = norm_buf t"
  by (simp add: norm_buf_def norm_marker_def fun_eq_iff)

lemma cached_ok:
  assumes "cached C st st'"
  shows "norm st' = norm st" "ed_bufs st' = ed_bufs st" "ed_rep st C \<Longrightarrow> ed_rep st' C" "quiet st' = quiet st"
    "ed_small st' = ed_small st" "gap_at st' C n = gap_at st C n"
    "block_size (ed_text st') = block_size (ed_text st)" "bt_bufz (ed_text st') = bt_bufz (ed_text st)"
    "bt_z (ed_text st') = bt_z (ed_text st)" "ed_hooks st' = ed_hooks st"
    "bt_in_multiple_change (ed_text st') = bt_in_multiple_change (ed_text st)"
    "ed_inhibit_read_only st' = ed_inhibit_read_only st" "bt_modiff (ed_text st') = bt_modiff (ed_text st)"
    "bt_save_modiff (ed_text st') = bt_save_modiff (ed_text st)"
    "bt_gpt (ed_text st') = bt_gpt (ed_text st)" "bt_gap_size (ed_text st') = bt_gap_size (ed_text st)"
proof -
  obtain t' where t': "st' = st\<lparr>ed_text := t'\<rparr>" "same_but_caches (ed_text st) t'" "caches_ok t' C"
    using assms by (auto simp: cached_def)
  note n = same_but_caches_norm [OF t'(2)] and sel = same_but_caches_sel [OF t'(2)]
  show "norm st' = norm st" using n(1) norm_buf_cong [OF n(2)] by (simp add: norm_def t'(1))
  show "ed_bufs st' = ed_bufs st" "ed_hooks st' = ed_hooks st" "ed_inhibit_read_only st' = ed_inhibit_read_only st"
    by (simp_all add: t'(1))
  have "buffer_ok t' C = buffer_ok (ed_text st) C" by (simp add: fun_eq_iff buffer_ok_def marker_ok_def n)
  with t' n sel show "ed_rep st' C" if "ed_rep st C" using that by (simp add: ed_rep_def)
  show "quiet st' = quiet st" by (simp add: t'(1) quiet_def)
  show "ed_small st' = ed_small st" "block_size (ed_text st') = block_size (ed_text st)"
    by (simp_all add: t'(1) ed_small_def n)
  show "gap_at st' C n = gap_at st C n" by (simp add: t'(1) gap_at_def n)
  show "bt_bufz (ed_text st') = bt_bufz (ed_text st)" "bt_z (ed_text st') = bt_z (ed_text st)"
    "bt_in_multiple_change (ed_text st') = bt_in_multiple_change (ed_text st)"
    "bt_modiff (ed_text st') = bt_modiff (ed_text st)" "bt_save_modiff (ed_text st') = bt_save_modiff (ed_text st)"
    "bt_gpt (ed_text st') = bt_gpt (ed_text st)" "bt_gap_size (ed_text st') = bt_gap_size (ed_text st)"
    by (simp_all add: t'(1) sel)
qed

lemma ed_charbpos_to_bytebpos_ok:
  assumes "ed_rep st C" "i < length (ed_bufs st)" "1 \<le> x" "x \<le> 1 + int (length C)"
  shows "\<exists>st'. ed_charbpos_to_bytebpos i x st = Some (Inr (char_to_byte C x), st') \<and> cached C st st'"
proof -
  obtain L g R eg where l: "bt_layout (ed_text st) L g R eg" "C = L @ R" using assms(1) by (auto simp: ed_rep_def)
  have "ed_bufs st ! i \<in> set (ed_bufs st)" using assms(2) by simp
  then have "buffer_pairs_ok (ed_bufs st ! i) C" using assms(1) by (auto simp: ed_rep_def buffer_ok_def)
  with charbpos_to_bytebpos_ok [OF l(1), of "ed_bufs st ! i" x] assms l(2) obtain t' where
    "charbpos_to_bytebpos (ed_text st) (ed_bufs st ! i) x = Some (char_to_byte C x, t')"
    "same_but_caches (ed_text st) t'" "caches_ok t' C" by (auto simp: ed_rep_def)
  then show ?thesis by (auto simp: ed_charbpos_to_bytebpos_def cached_def)
qed

lemma ed_bytebpos_to_charbpos_ok:
  assumes "ed_rep st C" "i < length (ed_bufs st)" "1 \<le> x" "x \<le> 1 + int (length C)"
  shows "\<exists>st'. ed_bytebpos_to_charbpos i (char_to_byte C x) st = Some (Inr x, st') \<and> cached C st st'"
proof -
  obtain L g R eg where l: "bt_layout (ed_text st) L g R eg" "C = L @ R" using assms(1) by (auto simp: ed_rep_def)
  have "ed_bufs st ! i \<in> set (ed_bufs st)" using assms(2) by simp
  then have "buffer_pairs_ok (ed_bufs st ! i) C" using assms(1) by (auto simp: ed_rep_def buffer_ok_def)
  with bytebpos_to_charbpos_ok [OF l(1), of "ed_bufs st ! i" x] assms l(2) obtain t' where
    "bytebpos_to_charbpos (ed_text st) (ed_bufs st ! i) (char_to_byte C x) = Some (x, t')"
    "same_but_caches (ed_text st) t'" "caches_ok t' C" by (auto simp: ed_rep_def)
  then show ?thesis by (auto simp: ed_bytebpos_to_charbpos_def cached_def)
qed

section \<open>The hooks around a change\<close>

text \<open>Every buffer on the text can be changed from \<open>start\<close> to \<open>en\<close>, and no multiple change is going on.\<close>

definition editable :: "ed \<Rightarrow> int \<Rightarrow> int \<Rightarrow> bool" where
  "editable st start en \<longleftrightarrow> start \<le> en \<and> bt_in_multiple_change (ed_text st) = 0 \<and>
     (\<forall>b\<in>set (ed_bufs st). b_live b \<and> b_bufbegv b \<le> start \<and> en \<le> b_bufzv b \<and>
        (b_read_only b \<longrightarrow> ed_inhibit_read_only st))"

definition before_change :: "int \<Rightarrow> int \<Rightarrow> ed \<Rightarrow> ed" where
  "before_change start en st =
     (let st = (if buf_tick_arithcompare (bt_save_modiff (ed_text st)) (bt_modiff (ed_text st)) > - 1
                then call_hooks First_change st else st)
      in upd_text (\<lambda>t. t\<lparr>bt_mc_begin_signaled := True\<rparr>) (call_hooks (\<lambda>j. Before_change j start en) st))"

definition after_change :: "int \<Rightarrow> int \<Rightarrow> int \<Rightarrow> int \<Rightarrow> int \<Rightarrow> ed \<Rightarrow> ed" where
  "after_change start orig_end new_end bstart bend st =
     call_hooks (\<lambda>j. After_change j start new_end (orig_end - start))
       (upd_bufs (buffer_signal_changed_region (ed_text st) bstart bend) st)"

lemma ed_rep_buffer:
  assumes "ed_rep st C" "i < length (ed_bufs st)"
  shows "1 \<le> b_bufbegv (ed_bufs st ! i)" "b_bufbegv (ed_bufs st ! i) \<le> b_bufpt (ed_bufs st ! i)"
    "b_bufpt (ed_bufs st ! i) \<le> b_bufzv (ed_bufs st ! i)" "b_bufzv (ed_bufs st ! i) \<le> 1 + int (length C)"
    "b_pt (ed_bufs st ! i) = char_to_byte C (b_bufpt (ed_bufs st ! i))"
    "b_begv (ed_bufs st ! i) = char_to_byte C (b_bufbegv (ed_bufs st ! i))"
    "b_zv (ed_bufs st ! i) = char_to_byte C (b_bufzv (ed_bufs st ! i))"
proof -
  have "buffer_ok (ed_text st) C (ed_bufs st ! i)" using assms by (simp add: ed_rep_def)
  then show "1 \<le> b_bufbegv (ed_bufs st ! i)" "b_bufbegv (ed_bufs st ! i) \<le> b_bufpt (ed_bufs st ! i)"
    "b_bufpt (ed_bufs st ! i) \<le> b_bufzv (ed_bufs st ! i)" "b_bufzv (ed_bufs st ! i) \<le> 1 + int (length C)"
    "b_pt (ed_bufs st ! i) = char_to_byte C (b_bufpt (ed_bufs st ! i))"
    "b_begv (ed_bufs st ! i) = char_to_byte C (b_bufbegv (ed_bufs st ! i))"
    "b_zv (ed_bufs st ! i) = char_to_byte C (b_bufzv (ed_bufs st ! i))"
    by (auto simp: buffer_ok_def buffer_pairs_ok_def pos_pair_def)
qed

lemma report_extent_modification_ok:
  assumes rep: "ed_rep st C" and i: "i < length (ed_bufs st)"
  shows "\<exists>st'. report_extent_modification i start en st = Some (Inr (), st') \<and> cached C st st'"
proof -
  let ?b = "ed_bufs st ! i"
  have r: "1 \<le> clip ?b x \<and> clip ?b x \<le> 1 + int (length C)" for x
    using ed_rep_buffer [OF rep i] by (auto simp: clip_def Let_def)
  obtain st1 where 1: "ed_charbpos_to_bytebpos i (clip ?b start) st = Some (Inr (char_to_byte C (clip ?b start)), st1)"
    "cached C st st1" using ed_charbpos_to_bytebpos_ok [OF rep i] r by blast
  obtain st2 where 2: "ed_charbpos_to_bytebpos i (clip ?b en) st1 = Some (Inr (char_to_byte C (clip ?b en)), st2)"
    "cached C st1 st2" using ed_charbpos_to_bytebpos_ok [OF cached_ok(3) [OF 1(2) rep], of i] cached_ok(2) [OF 1(2)] r i by metis
  show ?thesis using 1 2 cached_trans [OF 1(2) 2(2)] by (simp add: report_extent_modification_def ebind_def Let_def)
qed

lemma Fbarf_if_buffer_read_only_ok:
  assumes rep: "ed_rep st C" and ed: "editable st start en" and i: "i < length (ed_bufs st)"
  shows "\<exists>st'. Fbarf_if_buffer_read_only start en i st = Some (Inr (), st') \<and> cached C st st'"
proof -
  let ?b = "ed_bufs st ! i"
  have "?b \<in> set (ed_bufs st)" using i by simp
  then have b: "b_bufbegv ?b \<le> start" "start \<le> en" "en \<le> b_bufzv ?b" "b_read_only ?b \<longrightarrow> ed_inhibit_read_only st"
    using ed by (auto simp: editable_def)
  have g: "get_buffer_range_char ?b start en = Inr (start, en)" using b by (simp add: get_buffer_range_char_def)
  have r: "1 \<le> start" "start \<le> 1 + int (length C)" "1 \<le> en" "en \<le> 1 + int (length C)"
    using ed_rep_buffer [OF rep i] b by linarith+
  obtain st1 where 1: "ed_charbpos_to_bytebpos i start st = Some (Inr (char_to_byte C start), st1)"
    "cached C st st1" using ed_charbpos_to_bytebpos_ok [OF rep i r(1,2)] by blast
  obtain st2 where 2: "ed_charbpos_to_bytebpos i en st1 = Some (Inr (char_to_byte C en), st2)"
    "cached C st1 st2" using ed_charbpos_to_bytebpos_ok [OF cached_ok(3) [OF 1(2) rep], of i] cached_ok(2) [OF 1(2)] r i by metis
  show ?thesis using 1 2 cached_trans [OF 1(2) 2(2)] g b(4) cached_ok(2,12) [OF 1(2)] cached_ok(2,12) [OF 2(2)]
    by (auto simp: Fbarf_if_buffer_read_only_def get_buffer_range_byte_def ebind_def)
qed

lemma editable_cached: "cached C st st' \<Longrightarrow> editable st' = editable st"
  by (simp add: fun_eq_iff editable_def cached_ok)

lemma eloop_cached:
  assumes "\<And>j st. j \<in> set js \<Longrightarrow> P st \<Longrightarrow> ed_rep st C \<Longrightarrow> \<exists>st'. f j st = Some (Inr (), st') \<and> cached C st st'"
    and "\<And>st st'. P st \<Longrightarrow> cached C st st' \<Longrightarrow> P st'"
    and "ed_rep st C" "P st"
  shows "\<exists>st'. eloop f js st = Some (Inr (), st') \<and> cached C st st'"
  using assms
proof (induction js arbitrary: st)
  case Nil
  then show ?case using cached_refl by simp
next
  case (Cons j js)
  from Cons.prems(1) [of j st] Cons.prems(3,4) obtain st1 where 1: "f j st = Some (Inr (), st1)" "cached C st st1" by auto
  have "\<exists>st'. eloop f js st1 = Some (Inr (), st') \<and> cached C st1 st'"
    using Cons.prems 1(2) cached_ok(3) by (intro Cons.IH) (auto; blast)+
  then obtain st2 where 2: "eloop f js st1 = Some (Inr (), st2)" "cached C st1 st2" by blast
  then show ?case using 1 cached_trans by (fastforce simp: ebind_def)
qed

lemma before_change_rep:
  assumes "ed_rep st C"
  shows "ed_rep (before_change start en st) C" "norm (before_change start en st) = before_change start en (norm st)"
    "quiet (before_change start en st) = quiet st" "ed_small (before_change start en st) = ed_small st"
    "ed_bufs (before_change start en st) = ed_bufs st" "editable (before_change start en st) = editable st"
    "block_size (ed_text (before_change start en st)) = block_size (ed_text st)"
    "bt_z (ed_text (before_change start en st)) = bt_z (ed_text st)"
proof -
  let ?t = "(ed_text st)\<lparr>bt_mc_begin_signaled := True\<rparr>"
  have t: "ed_text (before_change start en st) = ?t" by (simp add: before_change_def call_hooks_def upd_text_def Let_def)
  show b: "ed_bufs (before_change start en st) = ed_bufs st"
    by (simp add: before_change_def call_hooks_def upd_text_def Let_def)
  have "buffer_ok ?t C = buffer_ok (ed_text st) C"
    by (simp add: fun_eq_iff buffer_ok_def marker_ok_def valid_membpos_p_def membpos_to_bytebpos_def)
  then show "ed_rep (before_change start en st) C" using assms
    by (simp add: ed_rep_def t b bt_layout_def caches_ok_def)
  have "norm_buf ?t = norm_buf (ed_text st)" by (rule norm_buf_cong) (simp add: fun_eq_iff membpos_to_bytebpos_def)
  then show "norm (before_change start en st) = before_change start en (norm st)"
    by (simp add: norm_def before_change_def call_hooks_def upd_text_def norm_text_def text_of_def Let_def)
  show "quiet (before_change start en st) = quiet st"
    by (simp add: quiet_def before_change_def call_hooks_def upd_text_def Let_def)
  show "ed_small (before_change start en st) = ed_small st"
    "block_size (ed_text (before_change start en st)) = block_size (ed_text st)"
    "bt_z (ed_text (before_change start en st)) = bt_z (ed_text st)"
    by (simp_all add: ed_small_def block_size_def t)
  show "editable (before_change start en st) = editable st"
    by (simp add: fun_eq_iff editable_def before_change_def call_hooks_def upd_text_def Let_def)
qed

lemma same_but_caches_signaled:
  "same_but_caches t t' \<Longrightarrow> same_but_caches (t\<lparr>bt_mc_begin_signaled := v\<rparr>) (t'\<lparr>bt_mc_begin_signaled := v\<rparr>)"
  by (cases t; cases t') (simp add: same_but_caches_def)

lemma run_before_change_ok:
  assumes "ed_rep st C" "i < length (ed_bufs st)"
  shows "\<exists>st'. run_before_change i start en st = Some (Inr (), st') \<and> cached C (before_change start en st) st'"
proof -
  let ?st = "call_hooks (\<lambda>j. Before_change j start en)
      (if buf_tick_arithcompare (bt_save_modiff (ed_text st)) (bt_modiff (ed_text st)) > - 1
       then call_hooks First_change st else st)"
  have rep: "ed_rep ?st C" "i < length (ed_bufs ?st)" using assms by (simp_all add: ed_rep_def call_hooks_def)
  obtain st1 where 1: "report_extent_modification i start en ?st = Some (Inr (), st1)" "cached C ?st st1"
    using report_extent_modification_ok [OF rep] by blast
  obtain t1 where t1: "st1 = ?st\<lparr>ed_text := t1\<rparr>" "same_but_caches (ed_text ?st) t1" "caches_ok t1 C"
    using 1(2) by (auto simp: cached_def)
  have "ed_text ?st = ed_text st" by (simp add: call_hooks_def)
  with t1(2) have "same_but_caches ((ed_text st)\<lparr>bt_mc_begin_signaled := True\<rparr>) (t1\<lparr>bt_mc_begin_signaled := True\<rparr>)"
    by (simp add: same_but_caches_signaled)
  then have "cached C (before_change start en st) (upd_text (\<lambda>t. t\<lparr>bt_mc_begin_signaled := True\<rparr>) st1)"
    using t1 by (auto simp: cached_def before_change_def upd_text_def Let_def call_hooks_def caches_ok_def
        intro!: exI [of _ "t1\<lparr>bt_mc_begin_signaled := True\<rparr>"])
  with 1(1) show ?thesis by (simp add: run_before_change_def ebind_def Let_def)
qed

lemma prepare_to_modify_buffer_ok:
  assumes rep: "ed_rep st C" and ed: "editable st start en" and i: "i < length (ed_bufs st)"
  shows "\<exists>st'. prepare_to_modify_buffer i start en st = Some (Inr (), st') \<and> cached C (before_change start en st) st'"
proof -
  let ?P = "\<lambda>st'. editable st' start en \<and> length (ed_bufs st') = length (ed_bufs st)"
  have "\<exists>st'. eloop (Fbarf_if_buffer_read_only start en) [0..<length (ed_bufs st)] st = Some (Inr (), st') \<and> cached C st st'"
  proof (rule eloop_cached [where P = ?P])
    show "\<exists>st''. Fbarf_if_buffer_read_only start en j st' = Some (Inr (), st'') \<and> cached C st' st''"
      if "j \<in> set [0..<length (ed_bufs st)]" "?P st'" "ed_rep st' C" for j st'
      using Fbarf_if_buffer_read_only_ok [OF that(3), of start en j] that by auto
    show "?P st''" if "?P st'" "cached C st' st''" for st' st''
      using that editable_cached [OF that(2)] cached_ok(2) [OF that(2)] by simp
  qed (use rep ed in simp_all)
  then obtain st1 where 1: "map_indirect_buffers (Fbarf_if_buffer_read_only start en) st = Some (Inr (), st1)" "cached C st st1"
    by blast
  have b: "b_live (ed_bufs st ! i)" "bt_in_multiple_change (ed_text st) = 0" using ed i by (simp_all add: editable_def)
  obtain st2 where 2: "run_before_change i start en st1 = Some (Inr (), st2)" "cached C (before_change start en st1) st2"
    using run_before_change_ok [OF cached_ok(3) [OF 1(2) rep], of i] i cached_ok(2) [OF 1(2)] by auto
  obtain t1 where t1: "st1 = st\<lparr>ed_text := t1\<rparr>" "same_but_caches (ed_text st) t1" "caches_ok t1 C"
    using 1(2) by (auto simp: cached_def)
  have "same_but_caches ((ed_text st)\<lparr>bt_mc_begin_signaled := True\<rparr>) (t1\<lparr>bt_mc_begin_signaled := True\<rparr>)"
    using t1(2) by (rule same_but_caches_signaled)
  then have "cached C (before_change start en st) (before_change start en st1)"
    using t1 same_but_caches_sel [OF t1(2)] by (auto simp: cached_def before_change_def upd_text_def Let_def call_hooks_def
        caches_ok_def intro!: exI [of _ "t1\<lparr>bt_mc_begin_signaled := True\<rparr>"])
  from cached_trans [OF this 2(2)] show ?thesis
    using 1(1) 2(1) b cached_ok(2,11) [OF 1(2)]
    by (simp add: prepare_to_modify_buffer_def signal_before_change_def ebind_def Let_def)
qed

lemma after_change_rep:
  assumes "ed_rep st C"
  shows "ed_rep (after_change start orig_end new_end bs be st) C"
    "norm (after_change start orig_end new_end bs be st) = after_change start orig_end new_end bs be (norm st)"
    "quiet (after_change start orig_end new_end bs be st) = quiet st"
    "ed_small (after_change start orig_end new_end bs be st) = ed_small st"
    "ed_text (after_change start orig_end new_end bs be st) = ed_text st"
proof -
  have "buffer_ok t C (buffer_signal_changed_region t' bs be b) = buffer_ok t C b" for t t' b
    by (simp add: buffer_ok_def buffer_signal_changed_region_def buffer_pairs_ok_def Let_def)
  then show "ed_rep (after_change start orig_end new_end bs be st) C" using assms
    by (auto simp: ed_rep_def after_change_def call_hooks_def upd_bufs_def)
  have "norm_buf t (buffer_signal_changed_region t bs be b) = buffer_signal_changed_region (norm_text t) bs be (norm_buf t b)"
    for t b by (simp add: norm_buf_def buffer_signal_changed_region_def norm_text_def Let_def)
  then show "norm (after_change start orig_end new_end bs be st) = after_change start orig_end new_end bs be (norm st)"
    by (simp add: norm_def after_change_def call_hooks_def upd_bufs_def)
  show "quiet (after_change start orig_end new_end bs be st) = quiet st"
    "ed_small (after_change start orig_end new_end bs be st) = ed_small st"
    "ed_text (after_change start orig_end new_end bs be st) = ed_text st"
    by (simp_all add: quiet_def ed_small_def after_change_def call_hooks_def upd_bufs_def)
qed

lemma signal_after_change_ok:
  assumes rep: "ed_rep st C" and i: "i < length (ed_bufs st)"
    and pos: "1 \<le> start" "start \<le> 1 + int (length C)" "1 \<le> new_end" "new_end \<le> 1 + int (length C)"
    and mc: "bt_in_multiple_change (ed_text st) = 0"
  shows "\<exists>st'. signal_after_change i start orig_end new_end st = Some (Inr (), st') \<and>
    cached C (after_change start orig_end new_end (char_to_byte C start) (char_to_byte C new_end) st) st'"
proof -
  obtain st1 where 1: "ed_charbpos_to_bytebpos i start st = Some (Inr (char_to_byte C start), st1)"
    "cached C st st1" using ed_charbpos_to_bytebpos_ok [OF rep i pos(1,2)] by blast
  obtain st2 where 2: "ed_charbpos_to_bytebpos i new_end st1 = Some (Inr (char_to_byte C new_end), st2)"
    "cached C st1 st2"
    using ed_charbpos_to_bytebpos_ok [OF cached_ok(3) [OF 1(2) rep], of i] cached_ok(2) [OF 1(2)] pos i by metis
  note c2 = cached_trans [OF 1(2) 2(2)]
  let ?after = "\<lambda>st. after_change start orig_end new_end (char_to_byte C start) (char_to_byte C new_end) st"
  obtain t2 where t2: "st2 = st\<lparr>ed_text := t2\<rparr>" "same_but_caches (ed_text st) t2" "caches_ok t2 C"
    using c2 by (auto simp: cached_def)
  have bs: "buffer_signal_changed_region t2 = buffer_signal_changed_region (ed_text st)"
    using same_but_caches_sel(4) [OF t2(2)] by (simp add: fun_eq_iff buffer_signal_changed_region_def Let_def)
  have c3: "cached C (?after st) (?after st2)"
    using t2 by (auto simp: cached_def after_change_def bs call_hooks_def upd_bufs_def intro!: exI [of _ t2])
  have "i < length (ed_bufs (?after st2))"
    using i cached_ok(2) [OF c2] by (simp add: after_change_def call_hooks_def upd_bufs_def)
  note rep2 = after_change_rep(1) [OF cached_ok(3) [OF c2 rep]] this
  obtain st3 where 3: "report_extent_modification i start new_end (?after st2) = Some (Inr (), st3)" "cached C (?after st2) st3"
    using report_extent_modification_ok [OF rep2] by blast
  have "bt_in_multiple_change (ed_text st2) = 0" using cached_ok(11) [OF c2] mc by simp
  then have "signal_after_change i start orig_end new_end st = report_extent_modification i start new_end (?after st2)"
    using 1(1) 2(1) by (simp add: signal_after_change_def ebind_def Let_def after_change_def upd_bufs_def)
  with 3 cached_trans [OF c3 3(2)] show ?thesis by auto
qed

section \<open>Recording changes\<close>

text \<open>A function of the state applied for every buffer.\<close>

definition all_bufs :: "(nat \<Rightarrow> ed \<Rightarrow> ed) \<Rightarrow> ed \<Rightarrow> ed" where
  "all_bufs f st = fold f [0..<length (ed_bufs st)] st"

definition insert_recorded :: "int \<Rightarrow> int \<Rightarrow> nat \<Rightarrow> ed \<Rightarrow> ed" where
  "insert_recorded beg len j st =
     (let (go_on, st) = undo_prelude j True st in
      if go_on then upd_buf j (\<lambda>b. b\<lparr>b_undo_list := join_insert beg len (b_undo_list b)\<rparr>) st else st)"

text \<open>The deleted text \<open>s\<close>, and the position of point before the command when it was elsewhere.\<close>

definition delete_recorded :: "byte list \<Rightarrow> int \<Rightarrow> int \<Rightarrow> nat \<Rightarrow> ed \<Rightarrow> ed" where
  "delete_recorded s beg len j st =
     (let (go_on, st) = undo_prelude j True st in
      if \<not> go_on then st
      else
        let b = ed_bufs st ! j;
            at_boundary = (case b_undo_list b of U_list (e # es) \<Rightarrow> e = U_boundary | _ \<Rightarrow> False);
            sbeg = (if b_bufpt b = beg + len then - beg else beg);
            st = (if at_boundary \<and> ed_last_point_position_buffer st = Some j \<and>
                     ed_last_point_position st \<noteq> sbeg
                  then upd_buf j (\<lambda>b. b\<lparr>b_undo_list :=
                         cons_undo (U_position (ed_last_point_position st)) (b_undo_list b)\<rparr>) st
                  else st)
        in upd_buf j (\<lambda>b. b\<lparr>b_undo_list := cons_undo (U_delete s sbeg) (b_undo_list b)\<rparr>) st)"

text \<open>What recording leaves alone.\<close>

definition but_undo :: "ed \<Rightarrow> ed" where
  "but_undo st = st\<lparr>ed_bufs := map (\<lambda>b. b\<lparr>b_undo_list := U_t\<rparr>) (ed_bufs st), ed_last_undo_buffer := None,
     ed_pending_boundary := False\<rparr>"

lemma map_list_update_same: "(\<And>x. g (h x) = g x) \<Longrightarrow> map g (xs[j := h (xs ! j)]) = map g xs"
  by (cases "j < length xs") (auto simp: map_update list_update_beyond intro!: list_update_same_conv [THEN iffD2])

lemma but_undo_upd: "but_undo (upd_buf j (\<lambda>b. b\<lparr>b_undo_list := f b\<rparr>) st) = but_undo st"
  using map_list_update_same [where g = "\<lambda>b. b\<lparr>b_undo_list := U_t\<rparr>" and h = "\<lambda>b. b\<lparr>b_undo_list := f b\<rparr>"]
  by (simp add: but_undo_def upd_buf_def)

lemma but_undo_fields: "but_undo (st\<lparr>ed_last_undo_buffer := x\<rparr>) = but_undo st" "but_undo (st\<lparr>ed_pending_boundary := y\<rparr>) = but_undo st"
  by (simp_all add: but_undo_def)

lemma but_undo_boundary: "but_undo (undo_boundary j st) = but_undo st"
  by (simp add: undo_boundary_def but_undo_upd but_undo_fields split: undo_list.splits list.splits)

lemma but_undo_prelude: "but_undo (snd (undo_prelude j h st)) = but_undo st"
  by (simp add: undo_prelude_def Let_def but_undo_upd but_undo_fields but_undo_boundary)

lemma but_undo_recorded: "but_undo (insert_recorded beg len j st) = but_undo st"
    "but_undo (delete_recorded s beg len j st) = but_undo st"
  using but_undo_prelude [of j True st]
  by (auto simp: insert_recorded_def delete_recorded_def but_undo_upd Let_def split: prod.splits if_splits)

lemma but_undo_all_bufs: "(\<And>j st. but_undo (f j st) = but_undo st) \<Longrightarrow> but_undo (all_bufs f st) = but_undo st"
proof -
  assume f: "\<And>j st. but_undo (f j st) = but_undo st"
  have "but_undo (fold f js st) = but_undo st" for js by (induction js arbitrary: st) (simp_all add: f)
  then show ?thesis by (simp add: all_bufs_def)
qed

lemma but_undo_sel:
  assumes "but_undo st' = but_undo st"
  shows "ed_text st' = ed_text st" "length (ed_bufs st') = length (ed_bufs st)" "ed_quit st' = ed_quit st"
    "ed_inhibit_quit st' = ed_inhibit_quit st" "ed_hooks st' = ed_hooks st"
    "ed_inhibit_read_only st' = ed_inhibit_read_only st" "ed_rep st' = ed_rep st" "quiet st' = quiet st"
    "ed_small st' = ed_small st" "gap_at st' = gap_at st" "editable st' = editable st"
proof -
  show t: "ed_text st' = ed_text st" and q: "ed_quit st' = ed_quit st" "ed_inhibit_quit st' = ed_inhibit_quit st" "ed_hooks st' = ed_hooks st"
    "ed_inhibit_read_only st' = ed_inhibit_read_only st"
    using assms unfolding but_undo_def by (cases st; cases st'; simp)+
  have b: "map (\<lambda>b. b\<lparr>b_undo_list := U_t\<rparr>) (ed_bufs st') = map (\<lambda>b. b\<lparr>b_undo_list := U_t\<rparr>) (ed_bufs st)"
    using assms unfolding but_undo_def by (cases st; cases st'; simp)
  then show "length (ed_bufs st') = length (ed_bufs st)" by (metis length_map)
  have all: "(\<forall>b\<in>set (ed_bufs st'). P b) \<longleftrightarrow> (\<forall>b\<in>set (ed_bufs st). P b)" if "\<And>b. P (b\<lparr>b_undo_list := U_t\<rparr>) = P b" for P
    using arg_cong [OF b, of "\<lambda>bs. \<forall>b\<in>set bs. P b"] that by simp
  have "buffer_ok t C (b\<lparr>b_undo_list := U_t\<rparr>) = buffer_ok t C b" for t C b by (simp add: buffer_ok_def buffer_pairs_ok_def)
  then show "ed_rep st' = ed_rep st" by (simp add: fun_eq_iff ed_rep_def t all)
  show "quiet st' = quiet st" "ed_small st' = ed_small st" "gap_at st' = gap_at st"
    by (simp_all add: fun_eq_iff quiet_def ed_small_def gap_at_def t q)
  show "editable st' = editable st" by (simp add: fun_eq_iff editable_def t q all)
qed

lemma norm_upd_buf:
  assumes "\<And>b. norm_buf (ed_text st) (f b) = f (norm_buf (ed_text st) b)"
  shows "norm (upd_buf j f st) = upd_buf j f (norm st)"
  using assms by (cases "j < length (ed_bufs st)") (simp_all add: norm_def upd_buf_def map_update list_update_beyond)

lemma norm_sel: "b_undo_list (ed_bufs (norm st) ! j) = b_undo_list (ed_bufs st ! j)"
    "b_bufpt (ed_bufs (norm st) ! j) = b_bufpt (ed_bufs st ! j)" if "j < length (ed_bufs st)"
  using that by (simp_all add: norm_def norm_buf_def)

lemma norm_fields: "norm (st\<lparr>ed_last_undo_buffer := x\<rparr>) = (norm st)\<lparr>ed_last_undo_buffer := x\<rparr>"
    "norm (st\<lparr>ed_pending_boundary := y\<rparr>) = (norm st)\<lparr>ed_pending_boundary := y\<rparr>"
    "ed_last_undo_buffer (norm st) = ed_last_undo_buffer st" "ed_base (norm st) = ed_base st"
    "ed_last_point_position_buffer (norm st) = ed_last_point_position_buffer st"
    "ed_last_point_position (norm st) = ed_last_point_position st" "length (ed_bufs (norm st)) = length (ed_bufs st)"
    "bt_modiff (ed_text (norm st)) = bt_modiff (ed_text st)" "bt_save_modiff (ed_text (norm st)) = bt_save_modiff (ed_text st)"
  by (simp_all add: norm_def norm_text_def)

lemma norm_upd_undo:
  "norm (upd_buf j (\<lambda>b. b\<lparr>b_undo_list := cons_undo e (b_undo_list b)\<rparr>) st) =
   upd_buf j (\<lambda>b. b\<lparr>b_undo_list := cons_undo e (b_undo_list b)\<rparr>) (norm st)"
  "norm (upd_buf j (\<lambda>b. b\<lparr>b_undo_list := cons_undo (U_modtime (b_modtime b)) (b_undo_list b)\<rparr>) st) =
   upd_buf j (\<lambda>b. b\<lparr>b_undo_list := cons_undo (U_modtime (b_modtime b)) (b_undo_list b)\<rparr>) (norm st)"
  by (rule norm_upd_buf, simp add: norm_buf_def)+

lemma norm_undo_boundary:
  assumes "j < length (ed_bufs st)"
  shows "norm (undo_boundary j st) = undo_boundary j (norm st)"
proof (cases "b_undo_list (ed_bufs st ! j)")
  case (U_list es)
  then show ?thesis using assms
    by (cases es) (simp_all add: undo_boundary_def norm_sel(1) norm_upd_undo norm_fields)
qed (use assms in \<open>simp add: undo_boundary_def norm_sel(1)\<close>)

lemma norm_undo_prelude:
  assumes "j < length (ed_bufs st)"
  shows "undo_prelude j h (norm st) = (fst (undo_prelude j h st), norm (snd (undo_prelude j h st)))"
proof -
  define s1 where "s1 st = (if ed_last_undo_buffer st \<noteq> Some (ed_base st)
      then (undo_boundary j st)\<lparr>ed_last_undo_buffer := Some (ed_base st)\<rparr> else st)" for st :: ed
  define s2 where "s2 st = (if h then st\<lparr>ed_pending_boundary := True\<rparr> else st)" for st :: ed
  define s3 where "s3 st = (if buf_tick_arithcompare (bt_modiff (ed_text st)) (bt_save_modiff (ed_text st)) \<le> 0
      then upd_buf j (\<lambda>b. b\<lparr>b_undo_list := cons_undo (U_modtime (b_modtime b)) (b_undo_list b)\<rparr>) st else st)" for st :: ed
  have up: "undo_prelude j h st = (if b_undo_list (ed_bufs st ! j) = U_t then (False, st) else (True, s3 (s2 (s1 st))))" for st
    by (simp add: undo_prelude_def Let_def s1_def s2_def s3_def)
  have "norm (s1 st) = s1 (norm st)" using norm_undo_boundary [OF assms] by (simp add: s1_def norm_fields)
  moreover have "norm (s2 x) = s2 (norm x)" for x by (simp add: s2_def norm_fields)
  moreover have "norm (s3 x) = s3 (norm x)" for x using norm_upd_undo(2) by (simp add: s3_def norm_fields)
  ultimately show ?thesis unfolding up using norm_sel(1) [OF assms] by simp
qed

lemma norm_recorded:
  assumes "j < length (ed_bufs st)"
  shows "norm (insert_recorded beg len j st) = insert_recorded beg len j (norm st)"
    and "norm (delete_recorded s beg len j st) = delete_recorded s beg len j (norm st)"
proof -
  obtain g st1 where p: "undo_prelude j True st = (g, st1)" by fastforce
  then have n: "undo_prelude j True (norm st) = (g, norm st1)" using norm_undo_prelude [OF assms, of True] by simp
  have "length (ed_bufs st1) = length (ed_bufs st)" using but_undo_sel(2) [OF but_undo_prelude [of j True st]] p by simp
  with assms have j: "j < length (ed_bufs st1)" by simp
  show "norm (insert_recorded beg len j st) = insert_recorded beg len j (norm st)"
    using p n by (simp add: insert_recorded_def norm_upd_buf norm_buf_def)
  let ?ul = "b_undo_list (ed_bufs st1 ! j)" and ?sbeg = "if b_bufpt (ed_bufs st1 ! j) = beg + len then - beg else beg"
  define at where "at = (case ?ul of U_list (e # es) \<Rightarrow> e = U_boundary | _ \<Rightarrow> False)"
  have "delete_recorded s beg len j st' = (if \<not> g then st1' else
      upd_buf j (\<lambda>b. b\<lparr>b_undo_list := cons_undo (U_delete s ?sbeg) (b_undo_list b)\<rparr>)
        (if at \<and> ed_last_point_position_buffer st1' = Some j \<and> ed_last_point_position st1' \<noteq> ?sbeg
         then upd_buf j (\<lambda>b. b\<lparr>b_undo_list := cons_undo (U_position (ed_last_point_position st1')) (b_undo_list b)\<rparr>) st1'
         else st1'))"
    if "undo_prelude j True st' = (g, st1')" "st1' = st1 \<or> st1' = norm st1" for st' st1'
  proof -
    have "b_undo_list (ed_bufs st1' ! j) = ?ul" "b_bufpt (ed_bufs st1' ! j) = b_bufpt (ed_bufs st1 ! j)"
      using that(2) norm_sel [OF j] by auto
    then show ?thesis using that(1) by (simp add: delete_recorded_def at_def Let_def)
  qed
  from this [OF p] this [OF n] show "norm (delete_recorded s beg len j st) = delete_recorded s beg len j (norm st)"
    by (simp add: norm_upd_undo norm_fields)
qed

lemma norm_all_bufs:
  assumes "\<And>j st. j < length (ed_bufs st) \<Longrightarrow> norm (f j st) = f j (norm st)"
    and "\<And>j st. length (ed_bufs (f j st)) = length (ed_bufs st)"
  shows "norm (all_bufs f st) = all_bufs f (norm st)"
proof -
  have "\<forall>j\<in>set js. j < length (ed_bufs st) \<Longrightarrow> norm (fold f js st) = fold f js (norm st)" for js
    using assms by (induction js arbitrary: st) simp_all
  then show ?thesis by (simp add: all_bufs_def norm_fields)
qed

lemma record_insert_all:
  "map_indirect_buffers (record_insert beg len) st = Some (Inr (), all_bufs (insert_recorded beg len) st)"
proof -
  have "eloop (record_insert beg len) js st = Some (Inr (), fold (insert_recorded beg len) js st)" for js
    by (induction js arbitrary: st) (simp_all add: record_insert_def insert_recorded_def ebind_def Let_def split: prod.splits)
  then show ?thesis by (simp add: all_bufs_def)
qed

section \<open>Room in the gap\<close>

lemma same_norm_sel:
  assumes "same_norm C st st'"
  shows "bt_z (ed_text st') = bt_z (ed_text st)" "bt_bufz (ed_text st') = bt_bufz (ed_text st)"
    "length (ed_bufs st') = length (ed_bufs st)"
    "bt_in_multiple_change (ed_text st') = bt_in_multiple_change (ed_text st)"
    "ed_rep st' C" "quiet st'" "norm st' = norm st"
proof -
  have n: "norm st' = norm st" using assms by (simp add: same_norm_def)
  have "norm_text (ed_text st') = norm_text (ed_text st)" using arg_cong [OF n, of ed_text] by (simp add: norm_def)
  from norm_text_sel [OF this] show "bt_z (ed_text st') = bt_z (ed_text st)" "bt_bufz (ed_text st') = bt_bufz (ed_text st)"
    "bt_in_multiple_change (ed_text st') = bt_in_multiple_change (ed_text st)" by simp_all
  show "length (ed_bufs st') = length (ed_bufs st)" using arg_cong [OF n, of "\<lambda>s. length (ed_bufs s)"] by (simp add: norm_def)
  show "ed_rep st' C" "quiet st'" "norm st' = norm st" using assms by (simp_all add: same_norm_def)
qed

lemma MAX_ALIGN_SIZE_bounds: "n \<le> MAX_ALIGN_SIZE n" "MAX_ALIGN_SIZE n \<le> n + 15"
  unfolding MAX_ALIGN_SIZE_def by presburger+

lemma small_fixnum: "x < 2 ^ 31 \<Longrightarrow> int x \<le> MOST_POSITIVE_FIXNUM"
  by (simp add: fixnum_limits)

lemma make_room_ok:
  assumes rep: "ed_rep st C" and q: "quiet st" "ed_small st" and n: "n \<le> length C"
    and len: "bt_z (ed_text st) + len \<le> 2 ^ 30"
  shows "\<exists>st'. make_room i (1 + int n) (1 + int (bofs C n)) len st = Some (Inr (), st') \<and> same_norm C st st' \<and>
    gap_at st' C n \<and> len < bt_gap_size (ed_text st') \<and> ed_small st'"
proof -
  obtain st1 where 1: "(if 1 + int (bofs C n) \<noteq> int (bt_gpt (ed_text st))
      then move_gap i (nat (1 + int n)) (nat (1 + int (bofs C n))) st else Some (Inr (), st)) = Some (Inr (), st1)"
    "same_norm C st st1" "block_size (ed_text st1) = block_size (ed_text st)" "gap_at st1 C n"
  proof (cases "1 + int (bofs C n) = int (bt_gpt (ed_text st))")
    case False
    have "nat (1 + int n) = 1 + n" "nat (1 + int (bofs C n)) = 1 + bofs C n" by linarith+
    then show ?thesis using False move_gap_ok [OF rep q n, of i] that by auto
  next
    case True
    obtain L g R eg where l: "bt_layout (ed_text st) L g R eg" "C = L @ R" using rep by (auto simp: ed_rep_def)
    have "bofs C n = bofs C (length L)" using True l by (simp add: bt_layout_def bofs_append bofs_all)
    then have "n = length L" using bofs_less [OF ed_rep_chars_ok [OF rep]] n l(2)
      by (metis le_add1 length_append less_irrefl linorder_neqE_nat)
    then have "gap_at st C n" using l by (auto simp: gap_at_def)
    then show ?thesis using that [of st] True same_norm_refl [OF rep q(1)] by simp
  qed
  note s1 = same_norm_sel [OF 1(2)]
  show ?thesis
  proof (cases "GAP_CAN_HOLD_SIZE_P (ed_text st1) len")
    case True
    then have "make_room i (1 + int n) (1 + int (bofs C n)) len st = Some (Inr (), st1)"
      unfolding make_room_def 1(1) by (simp add: ebind_def)
    then show ?thesis using 1(2-4) q(2) True by (auto simp: GAP_CAN_HOLD_SIZE_P_def ed_small_def)
  next
    case False
    show ?thesis
    proof (cases "len \<le> bt_end_gap_size (ed_text st1)")
      case True
      obtain st2 where 2: "merge_gap_with_end_gap i st1 = Some (Inr (), st2)" "same_norm C st1 st2" "gap_at st2 C n"
        "bt_gap_size (ed_text st2) = bt_gap_size (ed_text st1) + bt_end_gap_size (ed_text st1)"
        "block_size (ed_text st2) = block_size (ed_text st1)"
        using merge_gap_with_end_gap_ok [OF s1(5,6) 1(4), of i] by blast
      have "0 < bt_gap_size (ed_text st1)" using 1(4) by (auto simp: gap_at_def bt_layout_def first_cell_def)
      then have "len < bt_gap_size (ed_text st2)" using 2(4) True by linarith
      moreover have "make_room i (1 + int n) (1 + int (bofs C n)) len st = Some (Inr (), st2)"
        unfolding make_room_def 1(1) using 2(1) True False by (simp add: ebind_def)
      moreover have "ed_small st2" using 1(3) 2(5) q(2) by (simp add: ed_small_def)
      ultimately show ?thesis using 2(3) same_norm_trans [OF 1(2) 2(2)] by blast
    next
      case more: False
      let ?t = "ed_text st1"
      let ?a = "MAX_ALIGN_SIZE (len - bt_gap_size ?t + (2000 + (bt_z ?t - 1) div 8))"
      have gap: "bt_gap_size ?t \<le> len" using False by (simp add: GAP_CAN_HOLD_SIZE_P_def)
      have a: "?a \<le> len - bt_gap_size ?t + (2000 + (bt_z ?t - 1) div 8) + 15" using MAX_ALIGN_SIZE_bounds(2) .
      have z: "bt_z ?t + len \<le> 2 ^ 30" "bt_bufz ?t \<le> bt_z ?t"
      proof -
        show "bt_z ?t + len \<le> 2 ^ 30" unfolding s1(1) by (rule len)
        obtain L g R eg where l: "bt_layout ?t L g R eg" using s1(5) by (auto simp: ed_rep_def)
        then show "bt_bufz ?t \<le> bt_z ?t" using concat_length [of L] concat_length [of R] by (auto simp: bt_layout_def)
      qed
      have sum: "bt_z ?t - 1 + bt_gap_size ?t + ?a < 2 ^ 31"
      proof -
        have "bt_z ?t - 1 \<le> bt_z ?t" "8 * ((bt_z ?t - 1) div 8) \<le> bt_z ?t - 1" "len - bt_gap_size ?t + bt_gap_size ?t = len"
          using gap by simp_all
        moreover have "(2::nat) ^ 31 = 2 * 2 ^ 30" "(4096::nat) \<le> 2 ^ 30" by simp_all
        ultimately show ?thesis using a z(1) by linarith
      qed
      then have "bt_bufz ?t - 1 + bt_gap_size ?t + ?a < 2 ^ 31" using z(2) by linarith
      then have "int (bt_bufz ?t - 1 + bt_gap_size ?t + ?a) \<le> MOST_POSITIVE_FIXNUM" by (rule small_fixnum)
      from make_gap_ok [OF s1(5,6) 1(4) this, of i] obtain st2 k where 2: "make_gap i (len - bt_gap_size ?t) st1 = Some (Inr (), st2)"
        "same_norm C st1 st2" "gap_at st2 C n" "k = max (bt_end_gap_size ?t) ?a"
        "bt_gap_size (ed_text st2) = bt_gap_size ?t + k" "bt_end_gap_size (ed_text st2) = 0" by blast
      have small: "block_size (ed_text st2) < 2 ^ 31"
        using 1(3) q(2) sum 2(4-6) same_norm_sel(1) [OF 2(2)] by (auto simp: block_size_def ed_small_def max_def)
      have "len - bt_gap_size ?t < ?a"
        using MAX_ALIGN_SIZE_bounds(1) [of "len - bt_gap_size ?t + (2000 + (bt_z ?t - 1) div 8)"] by linarith
      moreover have "?a \<le> k" using 2(4) by simp
      ultimately have "len < bt_gap_size (ed_text st2)" using 2(5) by linarith
      moreover note small
      moreover have "make_room i (1 + int n) (1 + int (bofs C n)) len st = Some (Inr (), st2)"
        unfolding make_room_def 1(1) using 2(1) more False by (simp add: ebind_def)
      ultimately show ?thesis using 2(3) same_norm_trans [OF 1(2) 2(2)] unfolding ed_small_def by blast
    qed
  qed
qed

end
