(* ===== verification/Buffer_Insert.thy ===== *)
theory Buffer_Insert
  imports Buffer_Edit
begin

text \<open>
  What insertion does.  It is a functional refinement: on a state that represents the characters
  \<open>C\<close> it gives a state that represents the new characters, and whose normal form is the specified
  function of the old one, whatever the place and size of the gap and the contents of the caches.
\<close>

section \<open>Insertion\<close>

text \<open>The text and the buffers after an insertion, without the gap.\<close>

definition inserted_text :: "nat \<Rightarrow> ichar list \<Rightarrow> buffer_text \<Rightarrow> buffer_text" where
  "inserted_text k S t =
     (let z = bt_z t + length (concat S); bufz = bt_bufz t + length S
      in t\<lparr>bt_beg := list_insert (bt_beg t) k (map Some (concat S)), bt_gpt := z, bt_bufgpt := bufz,
           bt_z := z, bt_bufz := bufz, bt_modiff := bt_modiff t + 1, bt_entirely_one_byte_p := bufz = z,
           bt_num_ascii_chars := bt_num_ascii_chars t + int (length (filter ascii_char S))\<rparr>)"

definition inserted_marker :: "int \<Rightarrow> int \<Rightarrow> marker \<Rightarrow> marker" where
  "inserted_marker bytepos len m =
     (if mk_membpos m > bytepos \<or> mk_insertion_type m \<and> mk_membpos m = bytepos
      then m\<lparr>mk_membpos := mk_membpos m + len\<rparr> else m)"

definition inserted_buf :: "int \<Rightarrow> int \<Rightarrow> int \<Rightarrow> buffer \<Rightarrow> buffer" where
  "inserted_buf bytepos cclen len b =
     PT_after_insert bytepos cclen len (ZV_after_insert cclen len
       (b\<lparr>b_markers := map (inserted_marker bytepos len) (b_markers b)\<rparr>))"

lemma count_ascii_correct:
  "holds mem p (concat S) \<Longrightarrow> chars_ok S \<Longrightarrow>
   count_ascii mem p (p + length (concat S)) n = Some (n + int (length (filter ascii_char S)))"
proof (induction S arbitrary: p n)
  case Nil
  then show ?case by (subst count_ascii.simps) simp
next
  case (Cons c S)
  obtain b bs where c: "c = b # bs" using Cons.prems(2) by (cases c) (auto dest: ichar_ok_nonempty)
  have inc: "INC_IBYTEPTR mem p = Some (p + length c)" using Cons.prems by (auto intro: INC_IBYTEPTR_char simp: holds_append)
  have rd: "mem_read mem p = Some b" using Cons.prems(1) c by (simp add: holds_Cons)
  have asc: "byte_ascii_p b \<longleftrightarrow> ascii_char c" using Cons.prems(2) c by (auto simp: ascii_char_def elim: ichar_okE)
  have "count_ascii mem (p + length c) (p + length c + length (concat S)) m = Some (m + int (length (filter ascii_char S)))" for m
    using Cons.prems by (intro Cons.IH) (auto simp: holds_append)
  then show ?case using inc rd asc c by (subst count_ascii.simps) (simp add: add.assoc)
qed

lemma ed_repI:
  assumes "bt_layout (ed_text st) L g R eg" "C = L @ R" "caches_ok (ed_text st) C"
    "bt_entirely_one_byte_p (ed_text st) \<longleftrightarrow> bt_bufz (ed_text st) = bt_z (ed_text st)"
    "bt_num_ascii_chars (ed_text st) = int (length (filter ascii_char C))"
    "\<And>b. b \<in> set (ed_bufs st) \<Longrightarrow> buffer_ok (ed_text st) C b"
  shows "ed_rep st C"
  using assms unfolding ed_rep_def by blast

lemma concat_list_insert: "n \<le> length C \<Longrightarrow> concat (list_insert C n S) = list_insert (concat C) (bofs C n) (concat S)"
proof -
  assume "n \<le> length C"
  have "concat C = concat (take n C) @ concat (drop n C)" by (metis append_take_drop_id concat_append)
  then show ?thesis by (simp add: list_insert_def bofs_def)
qed

lemma pair_shift:
  assumes "pos_pair C (c, b)" "n \<le> length C"
  shows "c \<le> 1 + int n \<Longrightarrow> pos_pair (list_insert C n S) (c, b)"
    and "1 + int n \<le> c \<Longrightarrow> pos_pair (list_insert C n S) (c + int (length S), b + int (length (concat S)))"
proof -
  show "pos_pair (list_insert C n S) (c, b)" if "c \<le> 1 + int n"
    using pos_pair_insert [OF assms(1), of "1 + int n" S] assms(2) that by (simp add: pair_insert_def)
  show "pos_pair (list_insert C n S) (c + int (length S), b + int (length (concat S)))" if c: "1 + int n \<le> c"
  proof (cases "c = 1 + int n")
    case True
    have "nat (int n + int (length S)) = n + length S" by linarith
    then show ?thesis using assms True bofs_list_insert(2) [OF assms(2) order.refl, of S]
      by (simp add: pos_pair_def char_to_byte_def)
  next
    case False
    then show ?thesis using pos_pair_insert [OF assms(1), of "1 + int n" S] assms(2) c by (simp add: pair_insert_def)
  qed
qed

text \<open>The text after the critical section.\<close>

definition text_inserted :: "nat \<Rightarrow> ichar list \<Rightarrow> buffer_text \<Rightarrow> buffer_text" where
  "text_inserted n S t =
     entirely_one_byte ((buffer_mule_signal_inserted_region (1 + int n) (int (length (concat S))) (int (length S))
       (fill_gap (concat S) (length S) (t\<lparr>bt_modiff := bt_modiff t + 1\<rparr>)))
       \<lparr>bt_num_ascii_chars := bt_num_ascii_chars t + int (length (filter ascii_char S))\<rparr>)"

lemma text_inserted_ok:
  assumes lay: "bt_layout t (take n C) g (drop n C) eg" and n: "n \<le> length C" and S: "chars_ok S"
    and room: "length (concat S) < length g" and ca: "caches_ok t C"
  shows "bt_layout (text_inserted n S t) (take n C @ S) (Some 0 # drop (Suc (length (concat S))) g) (drop n C) eg"
    "caches_ok (text_inserted n S t) (list_insert C n S)"
    "norm_text (text_inserted n S t) = inserted_text (bofs C n) S (norm_text t)"
    "bt_gpt (text_inserted n S t) = bt_gpt t + length (concat S)"
    "bt_gap_size (text_inserted n S t) = bt_gap_size t - length (concat S)"
    "bt_z (text_inserted n S t) = bt_z t + length (concat S)"
    "bt_end_gap_size (text_inserted n S t) = bt_end_gap_size t"
proof -
  let ?len = "length (concat S)" and ?t = "t\<lparr>bt_modiff := bt_modiff t + 1\<rparr>"
  show sel: "bt_gpt (text_inserted n S t) = bt_gpt t + ?len" "bt_gap_size (text_inserted n S t) = bt_gap_size t - ?len"
    "bt_z (text_inserted n S t) = bt_z t + ?len" "bt_end_gap_size (text_inserted n S t) = bt_end_gap_size t"
    by (simp_all add: text_inserted_def entirely_one_byte_def buffer_mule_signal_inserted_region_def fill_gap_def
        SET_GAP_SENTINEL_def Let_def split_beta)
  have sel2: "bt_bufgpt (text_inserted n S t) = bt_bufgpt t + length S" "bt_bufz (text_inserted n S t) = bt_bufz t + length S"
    "bt_beg (text_inserted n S t) = bt_beg (fill_gap (concat S) (length S) ?t)"
    by (simp_all add: text_inserted_def entirely_one_byte_def buffer_mule_signal_inserted_region_def fill_gap_def
        SET_GAP_SENTINEL_def Let_def split_beta)
  obtain gs gr where g: "g = gs @ gr" "length gs = ?len" using room
    by (metis append_take_drop_id length_take less_imp_le min.absorb2)
  with room obtain x gr' where gr: "gr = x # gr'" by (cases gr) auto
  have gpt: "bt_gpt t - 1 = length (concat (take n C))" using lay by (simp add: bt_layout_def)
  have mc: "mem_copy (bt_beg t) (bt_gpt t - 1) (map Some (concat S)) =
      (map Some (concat (take n C)) @ map Some (concat S)) @ x # gr' @ map Some (concat (drop n C)) @ eg"
    using lay g gr unfolding gpt by (simp add: mem_copy_def bt_layout_def)
  have beg: "bt_beg (fill_gap (concat S) (length S) ?t) =
      map Some (concat (take n C @ S)) @ (Some 0 # gr') @ map Some (concat (drop n C)) @ eg"
  proof -
    have "bt_beg (fill_gap (concat S) (length S) ?t) =
        ((map Some (concat (take n C)) @ map Some (concat S)) @ x # gr' @ map Some (concat (drop n C)) @ eg)
        [length (map Some (concat (take n C)) @ map Some (concat S)) := Some 0]"
      using mc gpt lay by (simp add: fill_gap_def SET_GAP_SENTINEL_def bt_layout_def)
    then show ?thesis unfolding list_update_length by simp
  qed
  have gd: "Some 0 # drop (Suc ?len) g = Some 0 # gr'" using g gr by simp
  show lay': "bt_layout (text_inserted n S t) (take n C @ S) (Some 0 # drop (Suc ?len) g) (drop n C) eg"
    using lay S beg gd g gr first_cell_0 sel sel2 by (auto simp: bt_layout_def)
  have "caches_ok (fill_gap (concat S) (length S) ?t) C" using ca
    by (simp add: caches_ok_def fill_gap_def SET_GAP_SENTINEL_def)
  from caches_ok_signal_inserted [OF this, of "1 + int n" S] n
  show "caches_ok (text_inserted n S t) (list_insert C n S)"
    by (simp add: text_inserted_def entirely_one_byte_def caches_ok_def)
  have "text_of (text_inserted n S t) = map Some (concat (list_insert C n S))"
    using text_of_layout [OF lay'] by (simp add: list_insert_def)
  also have "\<dots> = list_insert (text_of t) (bofs C n) (map Some (concat S))"
    using text_of_layout [OF lay] concat_list_insert [OF n] by (simp add: list_insert_def take_map drop_map)
  finally have tx: "text_of (text_inserted n S t) = list_insert (text_of t) (bofs C n) (map Some (concat S))" .
  have eq: "text_inserted n S t = t\<lparr>bt_beg := bt_beg (text_inserted n S t), bt_gpt := bt_gpt (text_inserted n S t),
      bt_bufgpt := bt_bufgpt (text_inserted n S t), bt_z := bt_z t + ?len, bt_bufz := bt_bufz t + length S,
      bt_gap_size := bt_gap_size (text_inserted n S t), bt_modiff := bt_modiff t + 1,
      bt_pos_cache := bt_pos_cache (text_inserted n S t), bt_cached_charpos := bt_cached_charpos (text_inserted n S t),
      bt_cached_bytepos := bt_cached_bytepos (text_inserted n S t),
      bt_entirely_one_byte_p := bt_bufz t + length S = bt_z t + ?len,
      bt_num_ascii_chars := bt_num_ascii_chars t + int (length (filter ascii_char S))\<rparr>"
    by (rule buffer_text.equality) (simp_all add: text_inserted_def entirely_one_byte_def
        buffer_mule_signal_inserted_region_def fill_gap_def SET_GAP_SENTINEL_def Let_def split_beta)
  show "norm_text (text_inserted n S t) = inserted_text (bofs C n) S (norm_text t)"
    unfolding norm_text_def tx inserted_text_def Let_def
    by (rule buffer_text.equality) (subst eq, simp)+
qed

lemma char_to_byte_bofs: "char_to_byte C (1 + int n) = 1 + int (bofs C n)"
  by (simp add: char_to_byte_def)

lemma pos_pair_less:
  assumes "chars_ok C" "pos_pair C (c, b)" "n \<le> length C"
  shows "1 + int (bofs C n) < b \<longleftrightarrow> 1 + int n < c" "1 + int (bofs C n) = b \<longleftrightarrow> 1 + int n = c"
  using char_to_byte_less [OF assms(1), of "1 + int n" c] char_to_byte_eq [OF assms(1), of "1 + int n" c] assms(2,3)
  by (simp_all add: pos_pair_def char_to_byte_bofs)

lemma marker_inserted_ok:
  assumes m: "marker_ok t C m" and ok: "chars_ok C" and n: "n \<le> length C"
    and t: "int (bt_gpt t) = 1 + int (bofs C n)" "len \<le> bt_gap_size t" "len = length (concat S)"
    and t': "bt_gpt t' = bt_gpt t + len" "bt_gap_size t' = bt_gap_size t - len" "bt_z t' = bt_z t + len"
  defines "m' \<equiv> if mk_insertion_type m \<and> mk_membpos m = int (bt_gpt t) then m\<lparr>mk_membpos := mk_membpos m + int len\<rparr> else m"
  shows "marker_ok t' (list_insert C n S) m' \<and> norm_marker t' m' = inserted_marker (int (bt_gpt t)) (int len) (norm_marker t m)"
proof -
  let ?x = "mk_membpos m" and ?g = "int (bt_gpt t)"
  obtain c where c: "pos_pair C (c, membpos_to_bytebpos t ?x)" using m by (auto simp: marker_ok_def)
  have v: "valid_membpos_p t ?x" using m by (simp add: marker_ok_def)
  have shift: "?g < membpos_to_bytebpos t ?x \<longleftrightarrow> 1 + int n < c" "?g = membpos_to_bytebpos t ?x \<longleftrightarrow> 1 + int n = c"
    using pos_pair_less [OF ok c n] t(1) by simp_all
  consider "?x > ?g + int (bt_gap_size t)" | "?x = ?g" "mk_insertion_type m" | "?x \<le> ?g" "\<not> (?x = ?g \<and> mk_insertion_type m)"
    using v by (auto simp: valid_membpos_p_def)
  then show ?thesis
  proof cases
    case 1
    have "membpos_to_bytebpos t' ?x = membpos_to_bytebpos t ?x + int len"
      using 1 t(2) t' by (simp add: membpos_to_bytebpos_def of_nat_diff)
    moreover have gt: "?g < membpos_to_bytebpos t ?x" using 1 by (simp add: membpos_to_bytebpos_def)
    moreover have "m' = m" using 1 t(2) by (auto simp: m'_def)
    moreover have "valid_membpos_p t' ?x" using 1 v t(2) t' by (auto simp: valid_membpos_p_def of_nat_diff)
    moreover have "1 + int n \<le> c" using gt shift(1) by simp
    ultimately show ?thesis using pair_shift(2) [OF c n, of S] t(3)
      by (auto simp: marker_ok_def norm_marker_def inserted_marker_def)
  next
    case 2
    have "m' = m\<lparr>mk_membpos := ?x + int len\<rparr>" using 2 by (simp add: m'_def)
    moreover have b: "membpos_to_bytebpos t ?x = ?x" "membpos_to_bytebpos t' (?x + int len) = ?x + int len"
      using 2 t'(1) by (simp_all add: membpos_to_bytebpos_def)
    moreover have "valid_membpos_p t' (?x + int len)" using 2 v t' by (auto simp: valid_membpos_p_def)
    moreover have "1 + int n \<le> c" using shift(2) 2 b(1) by simp
    ultimately show ?thesis using pair_shift(2) [OF c n, of S] t(3) 2
      by (auto simp: marker_ok_def norm_marker_def inserted_marker_def)
  next
    case 3
    have "m' = m" using 3(2) by (auto simp: m'_def)
    moreover have b: "membpos_to_bytebpos t ?x = ?x" "membpos_to_bytebpos t' ?x = ?x"
      using 3 t'(1) by (simp_all add: membpos_to_bytebpos_def)
    moreover have "valid_membpos_p t' ?x" using 3(1) v t' by (auto simp: valid_membpos_p_def)
    moreover have "c \<le> 1 + int n" using shift(1) 3(1) b(1) by simp
    ultimately show ?thesis using pair_shift(1) [OF c n, of S] 3
      by (auto simp: marker_ok_def norm_marker_def inserted_marker_def)
  qed
qed

definition buf_inserted :: "int \<Rightarrow> int \<Rightarrow> int \<Rightarrow> buffer \<Rightarrow> buffer" where
  "buf_inserted bytepos cclen len b =
     PT_after_insert bytepos cclen len (adjust_markers_for_insert bytepos len (ZV_after_insert cclen len b))"

lemma buf_inserted_ok:
  assumes b: "buffer_ok t C b" "b_bufbegv b \<le> 1 + int n" "1 + int n \<le> b_bufzv b" and ok: "chars_ok C" and n: "n \<le> length C"
    and t: "int (bt_gpt t) = 1 + int (bofs C n)" "len \<le> bt_gap_size t" "len = length (concat S)"
    and t': "bt_gpt t' = bt_gpt t + len" "bt_gap_size t' = bt_gap_size t - len" "bt_z t' = bt_z t + len"
  shows "buffer_ok t' (list_insert C n S) (buf_inserted (int (bt_gpt t)) (int (length S)) (int len) b)"
    and "norm_buf t' (buf_inserted (int (bt_gpt t)) (int (length S)) (int len) b) =
      inserted_buf (int (bt_gpt t)) (int (length S)) (int len) (norm_buf t b)"
proof -
  let ?C = "list_insert C n S" and ?b = "buf_inserted (int (bt_gpt t)) (int (length S)) (int len) b"
  have pp: "pos_pair C (b_bufpt b, b_pt b)" "pos_pair C (b_bufbegv b, b_begv b)" "pos_pair C (b_bufzv b, b_zv b)"
    "b_bufbegv b \<le> b_bufpt b" "b_bufpt b \<le> b_bufzv b"
    using b(1) by (auto simp: buffer_ok_def buffer_pairs_ok_def)
  define f where "f m = (if mk_insertion_type m \<and> mk_membpos m = int (bt_gpt t)
      then m\<lparr>mk_membpos := mk_membpos m + int len\<rparr> else m)" for m :: marker
  have mk: "marker_ok t' ?C (f m) \<and> norm_marker t' (f m) = inserted_marker (int (bt_gpt t)) (int len) (norm_marker t m)"
    if "m \<in> set (b_markers b)" for m
    using marker_inserted_ok [OF _ ok n t t', of m] b(1) that unfolding buffer_ok_def f_def by blast
  have pt: "int (bt_gpt t) < b_pt b \<longleftrightarrow> 1 + int n < b_bufpt b" using pos_pair_less(1) [OF ok pp(1) n] t(1) by simp
  have "pos_pair ?C (b_bufpt ?b, b_pt ?b)" "b_bufbegv ?b \<le> b_bufpt ?b" "b_bufpt ?b \<le> b_bufzv ?b"
    using pair_shift [OF pp(1) n, of S] pt pp(4,5) b(2,3) t(3)
    by (auto simp: buf_inserted_def PT_after_insert_def JUST_SET_POINT_def ZV_after_insert_def adjust_markers_for_insert_def)
  moreover have "pos_pair ?C (b_bufbegv ?b, b_begv ?b)" "pos_pair ?C (b_bufzv ?b, b_zv ?b)"
    using pair_shift(1) [OF pp(2) n b(2), of S] pair_shift(2) [OF pp(3) n b(3), of S] t(3)
    by (auto simp: buf_inserted_def PT_after_insert_def JUST_SET_POINT_def ZV_after_insert_def adjust_markers_for_insert_def)
  moreover have ms: "b_markers ?b = map f (b_markers b)"
    by (simp add: buf_inserted_def PT_after_insert_def JUST_SET_POINT_def ZV_after_insert_def adjust_markers_for_insert_def f_def)
  then have "\<forall>m\<in>set (b_markers ?b). marker_ok t' ?C m" using mk by simp
  ultimately show "buffer_ok t' ?C ?b" by (simp add: buffer_ok_def buffer_pairs_ok_def)
  have "map (norm_marker t') (b_markers ?b) = map (inserted_marker (int (bt_gpt t)) (int len)) (b_markers (norm_buf t b))"
    unfolding ms using mk by (simp add: norm_buf_def)
  then show "norm_buf t' ?b = inserted_buf (int (bt_gpt t)) (int (length S)) (int len) (norm_buf t b)"
    by (simp add: norm_buf_def inserted_buf_def) (simp add: buf_inserted_def PT_after_insert_def JUST_SET_POINT_def
        ZV_after_insert_def adjust_markers_for_insert_def)
qed

lemma recorded_inserts:
  "norm (all_bufs (insert_recorded beg len) st) = all_bufs (insert_recorded beg len) (norm st)"
  "but_undo (all_bufs (insert_recorded beg len) st) = but_undo st"
  by (rule norm_all_bufs, simp_all add: norm_recorded but_undo_sel(2) [OF but_undo_recorded(1)] but_undo_all_bufs but_undo_recorded)

lemma insert_in_gap_ok:
  assumes rep: "ed_rep st C" and at: "gap_at st C n" and n: "n \<le> length C" and S: "chars_ok S"
    and room: "length (concat S) < bt_gap_size (ed_text st)" and ed: "editable st (1 + int n) (1 + int n)"
  defines "bytepos \<equiv> 1 + int (bofs C n)" and "len \<equiv> int (length (concat S))" and "cclen \<equiv> int (length S)"
  shows "\<exists>st'. insert_in_gap (1 + int n) bytepos (concat S) cclen st = Some (Inr (), st') \<and>
    ed_rep st' (list_insert C n S) \<and> quiet st' = quiet st \<and> block_size (ed_text st') = block_size (ed_text st) \<and>
    norm st' = upd_bufs (inserted_buf bytepos cclen len) (upd_text (inserted_text (bofs C n) S)
      (all_bufs (insert_recorded (1 + int n) cclen) (norm st))) \<and>
    int (bt_gpt (ed_text st')) = bytepos + len \<and> bt_in_multiple_change (ed_text st') = 0"
proof -
  let ?t = "ed_text st" and ?C = "list_insert C n S"
  define st1 where "st1 = all_bufs (insert_recorded (1 + int n) cclen) st"
  note bu = but_undo_sel [OF recorded_inserts(2) [of "1 + int n" cclen st, folded st1_def]]
  let ?t' = "text_inserted n S ?t"
  let ?st' = "st1\<lparr>ed_text := ?t', ed_bufs := map (buf_inserted bytepos cclen len) (ed_bufs st1)\<rparr>"
  obtain g eg where lay: "bt_layout ?t (take n C) g (drop n C) eg" using at by (auto simp: gap_at_def)
  have gap: "bt_gap_size ?t = length g" and gpt: "int (bt_gpt ?t) = bytepos"
    using lay n by (simp_all add: bt_layout_def bytepos_def bofs_def)
  have ca: "caches_ok ?t C" using rep by (simp add: ed_rep_def)
  have ok: "chars_ok C" using ed_rep_chars_ok [OF rep] .
  note ti = text_inserted_ok [OF lay n S room [unfolded gap] ca]
  have "count_ascii (map Some (concat S)) 0 (length (concat S)) m = Some (m + int (length (filter ascii_char S)))" for m
    using count_ascii_correct [of "map Some (concat S)" 0 S m] holds_map_Some [of "concat S" "[]"] S by simp
  moreover have e1: "map_indirect_buffers (record_insert (1 + int n) cclen) st = Some (Inr (), st1)"
    by (simp add: record_insert_all st1_def)
  moreover have "bt_num_ascii_chars (buffer_mule_signal_inserted_region p l k (fill_gap bs j t)) = bt_num_ascii_chars t"
    for p l k bs j t
    by (simp add: buffer_mule_signal_inserted_region_def fill_gap_def SET_GAP_SENTINEL_def split_beta)
  moreover have "buf_inserted bytepos cclen len =
      (\<lambda>b. PT_after_insert bytepos cclen len (adjust_markers_for_insert bytepos len (ZV_after_insert cclen len b)))"
    by (simp add: fun_eq_iff buf_inserted_def)
  ultimately have eq: "insert_in_gap (1 + int n) bytepos (concat S) cclen st = Some (Inr (), ?st')"
    unfolding insert_in_gap_def e1 using bu(1)
    by (simp add: ebind_def Let_def upd_text_def upd_bufs_def text_inserted_def comp_def cclen_def len_def)
  have bufs: "buffer_ok ?t C b \<and> b_bufbegv b \<le> 1 + int n \<and> 1 + int n \<le> b_bufzv b" if "b \<in> set (ed_bufs st1)" for b
  proof -
    have "ed_rep st1 C" "editable st1 (1 + int n) (1 + int n)" using rep ed bu(7,11) by simp_all
    then show ?thesis using that bu(1) by (auto simp: ed_rep_def editable_def)
  qed
  have one: "int (bt_gpt ?t) = 1 + int (bofs C n)" "length (concat S) \<le> bt_gap_size ?t" using gpt room by (simp_all add: bytepos_def)
  have bi: "buffer_ok ?t' ?C (buf_inserted bytepos cclen len b) \<and>
      norm_buf ?t' (buf_inserted bytepos cclen len b) = inserted_buf bytepos cclen len (norm_buf ?t b)"
    if "b \<in> set (ed_bufs st1)" for b
    using buf_inserted_ok [OF _ _ _ ok n one refl ti(4-6), of b] bufs [OF that] unfolding gpt cclen_def len_def by blast
  have rep': "ed_rep ?st' ?C"
  proof (rule ed_repI)
    show "bt_layout (ed_text ?st') (take n C @ S) (Some 0 # drop (Suc (length (concat S))) g) (drop n C) eg"
      using ti(1) by simp
    show "?C = (take n C @ S) @ drop n C" by (simp add: list_insert_def)
    show "caches_ok (ed_text ?st') ?C" using ti(2) by simp
    show "bt_entirely_one_byte_p (ed_text ?st') = (bt_bufz (ed_text ?st') = bt_z (ed_text ?st'))"
      by (simp add: text_inserted_def entirely_one_byte_def)
    have "length (filter ascii_char C) = length (filter ascii_char (take n C)) + length (filter ascii_char (drop n C))"
      by (metis append_take_drop_id filter_append length_append)
    then show "bt_num_ascii_chars (ed_text ?st') = int (length (filter ascii_char ?C))"
      using rep by (simp add: text_inserted_def entirely_one_byte_def ed_rep_def list_insert_def)
  qed (use bi in auto)
  have "norm ?st' = upd_bufs (inserted_buf bytepos cclen len) (upd_text (inserted_text (bofs C n) S) (norm st1))"
    using bi ti(3) bu(1) by (simp add: norm_def upd_bufs_def upd_text_def)
  moreover have "norm st1 = all_bufs (insert_recorded (1 + int n) cclen) (norm st)"
    unfolding st1_def by (rule recorded_inserts(1))
  moreover have "quiet ?st' = quiet st" using bu(3,4) by (simp add: quiet_def)
  moreover have "block_size ?t' = block_size ?t"
  proof -
    have "1 \<le> bt_z ?t" using lay by (simp add: bt_layout_def)
    then show ?thesis using ti(5-7) room by (simp add: block_size_def)
  qed
  moreover have "bt_in_multiple_change ?t' = 0" using ed
    by (simp add: editable_def text_inserted_def entirely_one_byte_def buffer_mule_signal_inserted_region_def
        fill_gap_def SET_GAP_SENTINEL_def Let_def split_beta)
  ultimately show ?thesis using eq rep' ti(4) gpt len_def by auto
qed

section \<open>Point\<close>

definition point_set :: "int \<Rightarrow> int \<Rightarrow> buffer \<Rightarrow> buffer" where
  "point_set charpos bytpos b =
     (if bytpos = b_pt b then b
      else set_marker_membpos (b_point_marker b) bytpos (JUST_SET_POINT charpos bytpos b))"

lemma set_buffer_point_ok:
  assumes rep: "ed_rep st C" and i: "i < length (ed_bufs st)"
    and x: "b_bufbegv (ed_bufs st ! i) \<le> x" "x \<le> b_bufzv (ed_bufs st ! i)"
  shows "\<exists>st'. set_buffer_point i x (char_to_byte C x) st = Some (Inr (), st') \<and> ed_rep st' C \<and>
    norm st' = upd_buf i (point_set x (char_to_byte C x)) (norm st) \<and> ed_text st' = ed_text st \<and>
    ed_quit st' = ed_quit st \<and> ed_inhibit_quit st' = ed_inhibit_quit st \<and> length (ed_bufs st') = length (ed_bufs st)"
proof -
  let ?b = "ed_bufs st ! i" and ?t = "ed_text st" and ?y = "char_to_byte C x"
  let ?p = "bytebpos_to_membpos ?t ?y"
  define F where "F b = set_marker_membpos (b_point_marker b) ?p (JUST_SET_POINT x ?y b)" for b
  have ok: "chars_ok C" using ed_rep_chars_ok [OF rep] .
  note b = ed_rep_buffer [OF rep i]
  have xr: "1 \<le> x" "x \<le> 1 + int (length C)" using x b by linarith+
  have le: "b_begv ?b \<le> ?y" "?y \<le> b_zv ?b"
    using char_to_byte_less [OF ok, of x "b_bufbegv ?b"] char_to_byte_less [OF ok, of "b_bufzv ?b" x] x b xr by linarith+
  have inv: "membpos_to_bytebpos ?t ?p = ?y" by (simp add: membpos_to_bytebpos_def bytebpos_to_membpos_def)
  have bok: "buffer_ok ?t C ?b" using rep i by (simp add: ed_rep_def)
  obtain L g R eg where lay: "bt_layout ?t L g R eg" "C = L @ R" using rep by (auto simp: ed_rep_def)
  have yr: "1 \<le> ?y" "?y \<le> int (bt_z ?t)"
    using char_to_byte_mono [OF ok, of 1 x] char_to_byte_mono [OF ok, of x "1 + int (length C)"] xr
      char_to_byte_end [of C] lay by (simp_all add: bt_layout_def)
  have pp: "pos_pair C (x, ?y)" using xr by (simp add: pos_pair_def)
  have "valid_membpos_p ?t ?p" using yr by (auto simp: valid_membpos_p_def bytebpos_to_membpos_def)
  then have "marker_ok ?t C (m\<lparr>mk_membpos := ?p\<rparr>)" for m using pp by (auto simp: marker_ok_def inv)
  with bok pp x have Fok: "buffer_ok ?t C (F ?b)"
    by (auto simp: F_def buffer_ok_def buffer_pairs_ok_def set_marker_membpos_def JUST_SET_POINT_def)
  have Fn: "norm_buf ?t (F b) = set_marker_membpos (b_point_marker b) ?y (JUST_SET_POINT x ?y (norm_buf ?t b))" for b
    by (simp add: F_def norm_buf_def set_marker_membpos_def JUST_SET_POINT_def comp_def norm_marker_def inv if_distrib cong: if_cong)
  show ?thesis
  proof (cases "?y = b_pt ?b")
    case True
    have "upd_buf i (point_set x ?y) (norm st) = norm st"
    proof -
      have "ed_bufs (norm st) ! i = norm_buf ?t ?b" using i by (simp add: norm_def)
      moreover have "point_set x ?y (norm_buf ?t ?b) = norm_buf ?t ?b" using True by (simp add: point_set_def norm_buf_def)
      ultimately show ?thesis by (metis ed.surjective ed.update_convs(2) list_update_id upd_buf_def)
    qed
    with True le rep show ?thesis by (simp add: set_buffer_point_def Let_def)
  next
    case False
    have "norm (upd_buf i F st) = upd_buf i (point_set x ?y) (norm st)"
      using False i Fn [of ?b] by (simp add: upd_buf_def norm_def map_update point_set_def norm_buf_def)
    moreover have "ed_rep (upd_buf i F st) C"
    proof (rule ed_repI)
      show "buffer_ok (ed_text (upd_buf i F st)) C b'" if "b' \<in> set (ed_bufs (upd_buf i F st))" for b'
        using that Fok rep i by (auto simp: upd_buf_def ed_rep_def dest!: set_update_subset_insert [THEN subsetD])
    qed (use rep lay in \<open>simp_all add: upd_buf_def ed_rep_def\<close>)
    ultimately show ?thesis using False le
      by (intro exI [of _ "upd_buf i F st"]) (simp add: set_buffer_point_def Let_def F_def upd_buf_def)
  qed
qed

lemma BYTE_BUF_SET_PT_ok:
  assumes rep: "ed_rep st C" and i: "i < length (ed_bufs st)"
    and x: "b_bufbegv (ed_bufs st ! i) \<le> x" "x \<le> b_bufzv (ed_bufs st ! i)"
  shows "\<exists>st'. BYTE_BUF_SET_PT i (char_to_byte C x) st = Some (Inr (), st') \<and> ed_rep st' C \<and>
    norm st' = upd_buf i (point_set x (char_to_byte C x)) (norm st) \<and> quiet st' = quiet st \<and>
    block_size (ed_text st') = block_size (ed_text st) \<and> bt_gpt (ed_text st') = bt_gpt (ed_text st) \<and>
    bt_in_multiple_change (ed_text st') = bt_in_multiple_change (ed_text st)"
proof -
  have "1 \<le> x" "x \<le> 1 + int (length C)" using x ed_rep_buffer [OF rep i] by linarith+
  then obtain st1 where 1: "ed_bytebpos_to_charbpos i (char_to_byte C x) st = Some (Inr x, st1)" "cached C st st1"
    using ed_bytebpos_to_charbpos_ok [OF rep i] by blast
  note c = cached_ok [OF 1(2)]
  have q: "quiet st1 = quiet st" by (rule c(4))
  from set_buffer_point_ok [OF c(3) [OF rep], of i x] i x obtain st' where
    "set_buffer_point i x (char_to_byte C x) st1 = Some (Inr (), st')" "ed_rep st' C"
    "norm st' = upd_buf i (point_set x (char_to_byte C x)) (norm st)" "ed_text st' = ed_text st1"
    "ed_quit st' = ed_quit st1" "ed_inhibit_quit st' = ed_inhibit_quit st1" unfolding c(1,2) by blast
  with 1(1) c(7,11,15) q show ?thesis by (simp add: BYTE_BUF_SET_PT_def ebind_def quiet_def)
qed

section \<open>The whole insertion\<close>

definition before_marker :: "int \<Rightarrow> int \<Rightarrow> marker \<Rightarrow> marker" where
  "before_marker bytepos len m = (if mk_membpos m = bytepos then m\<lparr>mk_membpos := bytepos + len\<rparr> else m)"

definition before_markers :: "int \<Rightarrow> int \<Rightarrow> buffer \<Rightarrow> buffer" where
  "before_markers bytepos len b = b\<lparr>b_markers := map (before_marker bytepos len) (b_markers b)\<rparr>"

text \<open>
  The insertion of \<open>S\<close> before the character of index \<open>n\<close> and byte \<open>k\<close>: hooks, undo records, text and
  buffers, point of the buffer \<open>i\<close> if asked for, markers at the place, hooks.
\<close>

definition insert_spec :: "nat \<Rightarrow> nat \<Rightarrow> nat \<Rightarrow> ichar list \<Rightarrow> bool \<Rightarrow> bool \<Rightarrow> ed \<Rightarrow> ed" where
  "insert_spec i n k S mp before a =
     (let pos = 1 + int n; bytepos = 1 + int k; cclen = int (length S); len = int (length (concat S));
          a = all_bufs (insert_recorded pos cclen) (before_change pos pos a);
          a = upd_bufs (inserted_buf bytepos cclen len) (upd_text (inserted_text k S) a);
          a = (if mp then upd_buf i (point_set (pos + cclen) (bytepos + len)) a else a);
          a = (if before then upd_bufs (before_markers bytepos len) a else a)
      in after_change pos pos (pos + cclen) bytepos (bytepos + len) a)"

text \<open>No marker stands inside the text just inserted.\<close>

definition outside :: "int \<Rightarrow> int \<Rightarrow> ed \<Rightarrow> bool" where
  "outside bytepos len a \<longleftrightarrow> (\<forall>b\<in>set (ed_bufs a). \<forall>m\<in>set (b_markers b). \<not> (bytepos < mk_membpos m \<and> mk_membpos m < bytepos + len))"

lemma outside_inserted: "0 \<le> len \<Longrightarrow> outside bytepos len (upd_bufs (inserted_buf bytepos cclen len) a)"
  by (auto simp: outside_def upd_bufs_def inserted_buf_def PT_after_insert_def ZV_after_insert_def JUST_SET_POINT_def
      inserted_marker_def)

lemma outside_point_set: "outside bytepos len a \<Longrightarrow> outside bytepos len (upd_buf i (point_set x (bytepos + len)) a)"
proof (cases "i < length (ed_bufs a)")
  case True
  assume out: "outside bytepos len a"
  have "\<not> (bytepos < mk_membpos m \<and> mk_membpos m < bytepos + len)"
    if "m \<in> set (b_markers (point_set x (bytepos + len) (ed_bufs a ! i)))" for m
    using that out nth_mem [OF True] unfolding outside_def
    by (auto simp: point_set_def set_marker_membpos_def JUST_SET_POINT_def split: if_splits)
  with out show ?thesis unfolding outside_def upd_buf_def
    by (auto dest!: set_update_subset_insert [THEN subsetD])
qed (simp add: upd_buf_def list_update_beyond)

lemma before_markers_ok:
  assumes rep: "ed_rep st C" and gpt: "int (bt_gpt (ed_text st)) = bytepos + len" and len: "0 \<le> len"
    and out: "outside bytepos len (norm st)" and pp: "\<exists>c. pos_pair C (c, bytepos + len)" and pos: "1 \<le> bytepos"
  shows "ed_rep (upd_bufs (adjust_markers (bytepos - 1) bytepos len) st) C"
    and "norm (upd_bufs (adjust_markers (bytepos - 1) bytepos len) st) = upd_bufs (before_markers bytepos len) (norm st)"
proof -
  let ?t = "ed_text st"
  let ?f = "\<lambda>m. m\<lparr>mk_membpos := do_marker_adjustment (mk_membpos m) (bytepos - 1) bytepos len\<rparr>"
  obtain L g R eg where lay: "bt_layout ?t L g R eg" "C = L @ R" using rep by (auto simp: ed_rep_def)
  have mk: "marker_ok ?t C (?f m) \<and> norm_marker ?t (?f m) = before_marker bytepos len (norm_marker ?t m)"
    if m: "b \<in> set (ed_bufs st)" "m \<in> set (b_markers b)" for b m
  proof -
    have mok: "marker_ok ?t C m" using rep m by (auto simp: ed_rep_def buffer_ok_def)
    then have v: "valid_membpos_p ?t (mk_membpos m)" by (simp add: marker_ok_def)
    have "norm_marker ?t m \<in> set (b_markers (norm_buf ?t b))" "norm_buf ?t b \<in> set (ed_bufs (norm st))"
      using m by (auto simp: norm_buf_def norm_def)
    with out have "\<not> (bytepos < mk_membpos (norm_marker ?t m) \<and> mk_membpos (norm_marker ?t m) < bytepos + len)"
      unfolding outside_def by blast
    then have "\<not> (bytepos < membpos_to_bytebpos ?t (mk_membpos m) \<and> membpos_to_bytebpos ?t (mk_membpos m) < bytepos + len)"
      by (simp add: norm_marker_def)
    with v gpt len have cases: "mk_membpos m < bytepos \<or> mk_membpos m = bytepos \<or> bytepos + len \<le> mk_membpos m"
      by (auto simp: membpos_to_bytebpos_def valid_membpos_p_def split: if_splits)
    show ?thesis
    proof (cases "mk_membpos m = bytepos")
      case True
      have "do_marker_adjustment (mk_membpos m) (bytepos - 1) bytepos len = bytepos + len"
        using True len by (simp add: do_marker_adjustment_def)
      then show ?thesis using True gpt len pos pp
        by (simp add: marker_ok_def valid_membpos_p_def membpos_to_bytebpos_def norm_marker_def before_marker_def)
    next
      case False
      have "do_marker_adjustment (mk_membpos m) (bytepos - 1) bytepos len = mk_membpos m"
        using False len cases by (auto simp: do_marker_adjustment_def)
      moreover have "membpos_to_bytebpos ?t (mk_membpos m) \<noteq> bytepos"
        using False cases gpt len v by (auto simp: membpos_to_bytebpos_def valid_membpos_p_def)
      ultimately show ?thesis using mok by (simp add: norm_marker_def before_marker_def)
    qed
  qed
  have adj: "adjust_markers (bytepos - 1) bytepos len b = b\<lparr>b_markers := map ?f (b_markers b)\<rparr>" for b
    by (simp add: adjust_markers_def)
  show "ed_rep (upd_bufs (adjust_markers (bytepos - 1) bytepos len) st) C"
  proof (rule ed_repI)
    show "buffer_ok (ed_text (upd_bufs (adjust_markers (bytepos - 1) bytepos len) st)) C b'"
      if b': "b' \<in> set (ed_bufs (upd_bufs (adjust_markers (bytepos - 1) bytepos len) st))" for b'
    proof -
      obtain b where b: "b \<in> set (ed_bufs st)" "b' = b\<lparr>b_markers := map ?f (b_markers b)\<rparr>"
        using b' adj unfolding upd_bufs_def by auto
      have "\<forall>m\<in>set (b_markers b'). marker_ok ?t C m" using mk [OF b(1)] b(2) by auto
      moreover have "buffer_ok ?t C b" using rep b(1) by (simp add: ed_rep_def)
      ultimately show ?thesis using b(2) by (simp add: buffer_ok_def buffer_pairs_ok_def upd_bufs_def)
    qed
  qed (use rep lay in \<open>simp_all add: upd_bufs_def ed_rep_def\<close>)
  have "norm_buf ?t (adjust_markers (bytepos - 1) bytepos len b) = before_markers bytepos len (norm_buf ?t b)"
    if "b \<in> set (ed_bufs st)" for b using mk [OF that] by (simp add: adj norm_buf_def before_markers_def)
  then show "norm (upd_bufs (adjust_markers (bytepos - 1) bytepos len) st) = upd_bufs (before_markers bytepos len) (norm st)"
    by (simp add: norm_def upd_bufs_def)
qed

lemma insert_cclen_ok: "chars_ok S \<Longrightarrow> insert_cclen (concat S) (- 1) = Some (int (length S))"
  using bytecount_to_charcount_correct [of "map Some (concat S)" 0 S 0] holds_map_Some [of "concat S" "[]"]
  by (simp add: insert_cclen_def)

text \<open>The steps after the room has been made.\<close>

lemma finish_insert_ok:
  assumes rep: "ed_rep st C" and q: "quiet st" and i: "i < length (ed_bufs st)"
    and at: "gap_at st C n" "length (concat S) < bt_gap_size (ed_text st)" and n: "n \<le> length C" and S: "chars_ok S"
    and ed: "editable st (1 + int n) (1 + int n)"
  defines "bytepos \<equiv> 1 + int (bofs C n)" and "len \<equiv> int (length (concat S))" and "cclen \<equiv> int (length S)"
  shows "\<exists>st'. ebind (insert_in_gap (1 + int n) bytepos (concat S) cclen st) (\<lambda>_ st.
            ebind (if mp then BYTE_BUF_SET_PT i (bytepos + len) st else Some (Inr (), st)) (\<lambda>_ st.
            let st = (if before then upd_bufs (adjust_markers (bytepos - 1) bytepos len) st else st) in
            ebind (signal_after_change i (1 + int n) (1 + int n) (1 + int n + cclen) st) (\<lambda>_ st. Some (Inr cclen, st)))) =
      Some (Inr cclen, st') \<and> ed_rep st' (list_insert C n S) \<and> quiet st' \<and>
    block_size (ed_text st') = block_size (ed_text st) \<and>
    norm st' = (let a = upd_bufs (inserted_buf bytepos cclen len) (upd_text (inserted_text (bofs C n) S)
                      (all_bufs (insert_recorded (1 + int n) cclen) (norm st)));
          a = (if mp then upd_buf i (point_set (1 + int n + cclen) (bytepos + len)) a else a);
          a = (if before then upd_bufs (before_markers bytepos len) a else a)
      in after_change (1 + int n) (1 + int n) (1 + int n + cclen) bytepos (bytepos + len) a)"
proof -
  let ?C = "list_insert C n S" and ?pos = "1 + int n"
  from insert_in_gap_ok [OF rep at(1) n S at(2) ed, folded bytepos_def len_def cclen_def] obtain st1 where
    1: "insert_in_gap ?pos bytepos (concat S) cclen st = Some (Inr (), st1)" "ed_rep st1 ?C" "quiet st1 = quiet st"
      "block_size (ed_text st1) = block_size (ed_text st)"
      "norm st1 = upd_bufs (inserted_buf bytepos cclen len) (upd_text (inserted_text (bofs C n) S)
        (all_bufs (insert_recorded ?pos cclen) (norm st)))"
      "int (bt_gpt (ed_text st1)) = bytepos + len" "bt_in_multiple_change (ed_text st1) = 0" by blast
  have ok: "chars_ok C" using ed_rep_chars_ok [OF rep] .
  have ctb: "char_to_byte ?C ?pos = bytepos" "char_to_byte ?C (?pos + cclen) = bytepos + len"
  proof -
    show "char_to_byte ?C ?pos = bytepos" using bofs_list_insert(1) [OF n order.refl, of S] by (simp add: char_to_byte_def bytepos_def)
    have "nat (?pos + cclen - 1) = n + length S" by (simp add: cclen_def nat_add_distrib)
    then show "char_to_byte ?C (?pos + cclen) = bytepos + len"
      using bofs_list_insert(2) [OF n order.refl, of S] by (simp add: char_to_byte_def bytepos_def len_def)
  qed
  have range: "1 \<le> ?pos" "?pos \<le> 1 + int (length ?C)" "1 \<le> ?pos + cclen" "?pos + cclen \<le> 1 + int (length ?C)"
    using n by (simp_all add: cclen_def)
  have len1: "length (ed_bufs st1) = length (ed_bufs st)"
  proof -
    have "length (ed_bufs (norm st1)) = length (ed_bufs (all_bufs (insert_recorded ?pos cclen) (norm st)))"
      using 1(5) by (simp add: upd_bufs_def upd_text_def)
    then show ?thesis using but_undo_sel(2) [OF recorded_inserts(2)] by (simp add: norm_fields)
  qed
  have zv: "b_bufbegv (ed_bufs st1 ! i) \<le> ?pos + cclen" "?pos + cclen \<le> b_bufzv (ed_bufs st1 ! i)"
  proof -
    let ?a = "all_bufs (insert_recorded ?pos cclen) (norm st)"
    have la: "length (ed_bufs ?a) = length (ed_bufs st)" using but_undo_sel(2) [OF recorded_inserts(2)] by (simp add: norm_fields)
    have "editable (norm st) ?pos ?pos" using ed by (simp add: editable_def norm_def norm_text_def norm_buf_def)
    then have "editable ?a ?pos ?pos" using but_undo_sel(11) [OF recorded_inserts(2)] by simp
    then have "b_bufbegv (ed_bufs ?a ! i) \<le> ?pos" "?pos \<le> b_bufzv (ed_bufs ?a ! i)"
      using i la by (simp_all add: editable_def)
    moreover have "norm_buf (ed_text st1) (ed_bufs st1 ! i) = inserted_buf bytepos cclen len (ed_bufs ?a ! i)"
      using arg_cong [OF 1(5), of "\<lambda>s. ed_bufs s ! i"] i len1 la by (simp add: norm_def upd_bufs_def upd_text_def)
    from arg_cong [OF this, of b_bufbegv] arg_cong [OF this, of b_bufzv]
    have "b_bufbegv (ed_bufs st1 ! i) = b_bufbegv (ed_bufs ?a ! i)" "b_bufzv (ed_bufs st1 ! i) = b_bufzv (ed_bufs ?a ! i) + cclen"
      by (simp_all add: norm_buf_def inserted_buf_def PT_after_insert_def JUST_SET_POINT_def ZV_after_insert_def)
    ultimately show "b_bufbegv (ed_bufs st1 ! i) \<le> ?pos + cclen" "?pos + cclen \<le> b_bufzv (ed_bufs st1 ! i)"
      by (simp_all add: cclen_def)
  qed
  have i1: "i < length (ed_bufs st1)" using i len1 by simp
  obtain st2 where 2: "(if mp then BYTE_BUF_SET_PT i (bytepos + len) st1 else Some (Inr (), st1)) = Some (Inr (), st2)"
    "ed_rep st2 ?C" "norm st2 = (if mp then upd_buf i (point_set (?pos + cclen) (bytepos + len)) (norm st1) else norm st1)"
    "quiet st2 = quiet st1" "block_size (ed_text st2) = block_size (ed_text st1)" "bt_gpt (ed_text st2) = bt_gpt (ed_text st1)"
    "bt_in_multiple_change (ed_text st2) = 0"
  proof (cases mp)
    case True
    with BYTE_BUF_SET_PT_ok [OF 1(2) i1 zv] that 1(7) show ?thesis unfolding ctb(2) by fastforce
  qed (use that [of st1] 1 in simp)
  have out: "outside bytepos len (norm st2)"
    using outside_inserted [of len bytepos cclen] outside_point_set unfolding 2(3) 1(5) by (auto simp: len_def)
  have pp: "\<exists>c. pos_pair ?C (c, bytepos + len)" using range ctb(2) by (auto simp: pos_pair_def intro!: exI [of _ "?pos + cclen"])
  let ?st3 = "if before then upd_bufs (adjust_markers (bytepos - 1) bytepos len) st2 else st2"
  have gpt2: "int (bt_gpt (ed_text st2)) = bytepos + len" using 2(6) 1(6) by simp
  have "0 \<le> len" "1 \<le> bytepos" by (simp_all add: len_def bytepos_def)
  note bm = before_markers_ok [OF 2(2) gpt2 this(1) out pp this(2)]
  have 3: "ed_rep ?st3 ?C" "norm ?st3 = (if before then upd_bufs (before_markers bytepos len) (norm st2) else norm st2)"
    "quiet ?st3 = quiet st2" "ed_text ?st3 = ed_text st2" "length (ed_bufs ?st3) = length (ed_bufs st2)"
    using bm 2(2) by (simp_all add: quiet_def upd_bufs_def)
  have i3: "i < length (ed_bufs ?st3)"
  proof -
    have "length (ed_bufs (norm st2)) = length (ed_bufs (norm st1))" unfolding 2(3) by (simp add: upd_buf_def)
    then show ?thesis using i1 3(5) by (simp add: norm_fields)
  qed
  obtain st4 where 4: "signal_after_change i ?pos ?pos (?pos + cclen) ?st3 = Some (Inr (), st4)"
    "cached ?C (after_change ?pos ?pos (?pos + cclen) bytepos (bytepos + len) ?st3) st4"
    using signal_after_change_ok [OF 3(1) i3 range, of ?pos] 2(7) 3(4) unfolding ctb by auto
  note c4 = cached_ok [OF 4(2)] and ac = after_change_rep [OF 3(1)]
  show ?thesis
    using 1(1,3-5) 2(1,3-5) 3(2-4) 4(1) c4(1,3,4,7) ac q
    by (intro exI [of _ st4]) (simp add: ebind_def Let_def)
qed

lemma editable_clip:
  assumes "editable st (1 + int n) (1 + int n)" "i < length (ed_bufs st)"
  shows "clip (ed_bufs st ! i) (1 + int n) = 1 + int n" "b_live (ed_bufs st ! i)"
proof -
  have "b_bufbegv (ed_bufs st ! i) \<le> 1 + int n" "1 + int n \<le> b_bufzv (ed_bufs st ! i)" "b_live (ed_bufs st ! i)"
    using assms by (simp_all add: editable_def)
  then show "clip (ed_bufs st ! i) (1 + int n) = 1 + int n" "b_live (ed_bufs st ! i)" by (simp_all add: clip_def Let_def)
qed

lemma but_undo_all_inserts: "but_undo (all_bufs (insert_recorded beg len) st) = but_undo st"
  by (rule recorded_inserts(2))

lemma insert_refines:
  assumes rep: "ed_rep st C" and q: "quiet st" "ed_small st" and i: "i < length (ed_bufs st)"
    and n: "n \<le> length C" and S: "chars_ok S" and size: "bt_z (ed_text st) + length (concat S) \<le> 2 ^ 30"
    and ed: "editable st (1 + int n) (1 + int n)"
    and pos: "pos = 1 + int n \<or> pos = - 1 \<and> b_bufpt (ed_bufs st ! i) = 1 + int n"
  shows "\<exists>st'. buffer_insert_string_1 i pos (concat S) (- 1) before st = Some (Inr (int (length S)), st') \<and>
    ed_rep st' (list_insert C n S) \<and> quiet st' \<and> ed_small st' \<and>
    norm st' = insert_spec i n (bofs C n) S (pos = - 1) before (norm st)"
proof -
  let ?pos = "1 + int n" and ?bp = "1 + int (bofs C n)" and ?len = "int (length (concat S))"
  have p: "(if pos = - 1 then b_bufpt (ed_bufs st ! i) else pos) = ?pos" using pos by auto
  obtain st1 where 1: "prepare_to_modify_buffer i ?pos ?pos st = Some (Inr (), st1)" "cached C (before_change ?pos ?pos st) st1"
    using prepare_to_modify_buffer_ok [OF rep ed i] by blast
  note c1 = cached_ok [OF 1(2)] and b1 = before_change_rep [OF rep, of ?pos ?pos]
  have rep1: "ed_rep st1 C" using c1(3) b1(1) by simp
  have ed1: "editable st1 ?pos ?pos" using editable_cached [OF 1(2)] b1(6) ed by simp
  have i1: "i < length (ed_bufs st1)" using i c1(2) b1(5) by simp
  have xr: "1 \<le> ?pos" "?pos \<le> 1 + int (length C)" using n by simp_all
  obtain st2 where 2: "ed_charbpos_to_bytebpos i ?pos st1 = Some (Inr ?bp, st2)" "cached C st1 st2"
    using ed_charbpos_to_bytebpos_ok [OF rep1 i1 xr] unfolding char_to_byte_bofs by blast
  note c2 = cached_ok [OF 2(2)]
  have 22: "ed_rep st2 C" "quiet st2" "ed_small st2" "norm st2 = norm st1" "editable st2 ?pos ?pos" "length (ed_bufs st2) = length (ed_bufs st1)"
    "bt_z (ed_text st2) = bt_z (ed_text st)"
    using c2 rep1 q c1 b1 ed1 editable_cached [OF 2(2)] by simp_all
  obtain st3 where 3: "make_room i ?pos ?bp (length (concat S)) st2 = Some (Inr (), st3)" "same_norm C st2 st3"
    "gap_at st3 C n" "length (concat S) < bt_gap_size (ed_text st3)" "ed_small st3"
    using make_room_ok [OF 22(1-3) n, of "length (concat S)"] size 22(7) by auto
  note s3 = same_norm_sel [OF 3(2)]
  have ed3: "editable st3 ?pos ?pos"
  proof -
    have e: "editable (norm st) = editable st" for st
      by (simp add: fun_eq_iff editable_def norm_def norm_text_def norm_buf_def)
    show ?thesis using e [of st3] e [of st2] s3(7) 22(5) by simp
  qed
  have i3: "i < length (ed_bufs st3)" using i1 22(6) s3(3) by simp
  from finish_insert_ok [OF s3(5,6) i3 3(3,4) n S ed3, of "pos = - 1" before] obtain st4 where
    4: "ebind (insert_in_gap ?pos ?bp (concat S) (int (length S)) st3) (\<lambda>_ st.
            ebind (if pos = - 1 then BYTE_BUF_SET_PT i (?bp + ?len) st else Some (Inr (), st)) (\<lambda>_ st.
            let st = (if before then upd_bufs (adjust_markers (?bp - 1) ?bp ?len) st else st) in
            ebind (signal_after_change i ?pos ?pos (?pos + int (length S)) st) (\<lambda>_ st. Some (Inr (int (length S)), st)))) =
      Some (Inr (int (length S)), st4)" "ed_rep st4 (list_insert C n S)" "quiet st4"
      "block_size (ed_text st4) = block_size (ed_text st3)"
      "norm st4 = (let a = upd_bufs (inserted_buf ?bp (int (length S)) ?len) (upd_text (inserted_text (bofs C n) S)
                      (all_bufs (insert_recorded ?pos (int (length S))) (norm st3)));
          a = (if pos = - 1 then upd_buf i (point_set (?pos + int (length S)) (?bp + ?len)) a else a);
          a = (if before then upd_bufs (before_markers ?bp ?len) a else a)
      in after_change ?pos ?pos (?pos + int (length S)) ?bp (?bp + ?len) a)" by blast
  have nn: "norm st3 = before_change ?pos ?pos (norm st)" using s3(7) 22(4) c1(1) b1(2) by simp
  have big: "\<not> (MOST_POSITIVE_FIXNUM - 1) - int (bt_bufz (ed_text st2)) < int (length S)"
  proof -
    obtain L g R eg where l: "bt_layout (ed_text st2) L g R eg" using 22(1) by (auto simp: ed_rep_def)
    then have "bt_bufz (ed_text st2) \<le> bt_z (ed_text st2)" using concat_length [of L] concat_length [of R] by (auto simp: bt_layout_def)
    moreover have "length S \<le> length (concat S)" using concat_length [OF S] .
    ultimately have "bt_bufz (ed_text st2) + length S \<le> 2 ^ 30" using size 22(7) by linarith
    then have "int (bt_bufz (ed_text st2)) + int (length S) \<le> 1073741824" by simp
    then show ?thesis by (simp add: fixnum_limits)
  qed
  have "buffer_insert_string_1 i pos (concat S) (- 1) before st = Some (Inr (int (length S)), st4)"
    unfolding buffer_insert_string_1_def Let_def p
    using editable_clip [OF ed i] editable_clip [OF ed1 i1] 1(1) 2(1) 3(1) 4(1) big insert_cclen_ok [OF S]
    by (simp add: ebind_def Let_def)
  moreover have "norm st4 = insert_spec i n (bofs C n) S (pos = - 1) before (norm st)"
    unfolding 4(5) insert_spec_def nn Let_def by simp
  ultimately show ?thesis using 4(2-4) 3(5) by (auto simp: ed_small_def)
qed

text \<open>C1: inserting a string into a buffer, at a position or at point, where the position is editable (inside the
  restriction and not read-only), no multiple change is under way, no quit is pending and the text stays within
  \<open>2 ^ 30\<close> bytes: the call returns the number of its
  characters, the new text is the old one with the characters put in, and the state is the
  specified one: hooks before and after, undo records, markers, points, restrictions, counts.\<close>

theorem buffer_insert_string_1_correct:
  assumes "ed_rep st C" "quiet st" "ed_small st" "i < length (ed_bufs st)"
    and "n \<le> length C" "chars_ok S" "bt_z (ed_text st) + length (concat S) \<le> 2 ^ 30"
    and "editable st (1 + int n) (1 + int n)"
    and "pos = 1 + int n \<or> pos = - 1 \<and> b_bufpt (ed_bufs st ! i) = 1 + int n"
  shows "\<exists>st'. buffer_insert_string_1 i pos (concat S) (- 1) before st = Some (Inr (int (length S)), st') \<and>
    ed_rep st' (list_insert C n S) \<and> quiet st' \<and> ed_small st' \<and>
    norm st' = insert_spec i n (bofs C n) S (pos = - 1) before (norm st)"
  using assms by (rule insert_refines)

theorem buffer_insert_string_1_correct_witness:
  "\<exists>st'. buffer_insert_string_1 0 2 [0x63, 0x81, 0xE0] (- 1) False sample_ed = Some (Inr 2, st') \<and>
     ed_rep st' [[0x61], [0x63], [0x81, 0xE0], [0x81, 0xE9], [0x0A], [0x62]]"
proof -
  have S: "chars_ok [[0x63], [0x81, 0xE0]]"
    by (simp add: ichar_ok_def rep_bytes_by_first_byte_def ibyte_first_byte_p_def)
  have "editable sample_ed (1 + int 1) (1 + int 1)" by (simp add: editable_def sample_ed_def sample_text_def sample_buffer_def)
  from buffer_insert_string_1_correct [OF sample_rep, of 0 1 "[[0x63], [0x81, 0xE0]]" 2 False, OF _ _ S _ this]
  obtain st' where "buffer_insert_string_1 0 2 [0x63, 0x81, 0xE0] (- 1) False sample_ed = Some (Inr 2, st')"
    "ed_rep st' (list_insert sample_chars 1 [[0x63], [0x81, 0xE0]])"
    by (auto simp: sample_ed_def sample_chars_def sample_text_def)
  then show ?thesis by (auto simp: list_insert_def sample_chars_def)
qed

end
