(* ===== verification/Buffer_Delete.thy ===== *)
theory Buffer_Delete
  imports Buffer_Insert
begin

text \<open>
  What deletion does: as for insertion, a functional refinement on normal forms, for the two ways of
  the code, with the gap brought to the region or the end gap widened.
\<close>

section \<open>Bringing the gap\<close>

text \<open>Where the gap is after \<open>bring_gap\<close>, for the characters from \<open>n\<close> up to \<open>n + m\<close>.\<close>

definition gap_brought :: "ed \<Rightarrow> ichar list \<Rightarrow> nat \<Rightarrow> nat \<Rightarrow> bool \<Rightarrow> bool" where
  "gap_brought st C n m dm \<longleftrightarrow> (\<exists>L g R eg. C = L @ R \<and> bt_layout (ed_text st) L g R eg \<and>
     (if dm then n \<le> length L \<and> length L \<le> n + m else n + m = length C \<and> length L < n))"

lemma gap_at_brought: "gap_at st C k \<Longrightarrow> k \<le> length C \<Longrightarrow> n \<le> k \<Longrightarrow> k \<le> n + m \<Longrightarrow> gap_brought st C n m True"
proof -
  assume k: "gap_at st C k" "k \<le> length C" "n \<le> k" "k \<le> n + m"
  then obtain g eg where "bt_layout (ed_text st) (take k C) g (drop k C) eg" by (auto simp: gap_at_def)
  moreover have "C = take k C @ drop k C" "n \<le> length (take k C)" "length (take k C) \<le> n + m" using k by simp_all
  ultimately show ?thesis unfolding gap_brought_def by (metis (full_types))
qed

lemma bring_gap_ok:
  assumes rep: "ed_rep st C" and q: "quiet st" "ed_small st" and nm: "n + m \<le> length C"
  shows "\<exists>st' dm. bring_gap i (1 + int n) (1 + int n + int m) (1 + int (bofs C n)) (1 + int (bofs C (n + m))) st =
      Some (Inr dm, st') \<and> same_norm C st st' \<and> block_size (ed_text st') = block_size (ed_text st) \<and>
      gap_brought st' C n m dm"
proof -
  let ?t = "ed_text st" and ?bf = "1 + int (bofs C n)" and ?bt = "1 + int (bofs C (n + m))"
  obtain L g R eg where lay: "bt_layout ?t L g R eg" "C = L @ R" using rep by (auto simp: ed_rep_def)
  have ok: "chars_ok C" by (rule ed_rep_chars_ok [OF rep])
  have gpt: "bt_gpt ?t = 1 + bofs C (length L)" "bt_bufz ?t = 1 + length C"
    using lay by (simp_all add: bt_layout_def bofs_append bofs_all)
  have less: "int (bt_gpt ?t) < ?bf \<longleftrightarrow> length L < n" "?bt < int (bt_gpt ?t) \<longleftrightarrow> n + m < length L"
    using bofs_less [OF ok, of "length L" n] bofs_less [OF ok, of "n + m" "length L"] nm lay(2) gpt(1) by auto
  have nats: "nat (1 + int n + int m) = 1 + (n + m)" "nat ?bt = 1 + bofs C (n + m)" "nat (1 + int n) = 1 + n" "nat ?bf = 1 + bofs C n"
    by linarith+
  consider "n + m = length C" "length L < n" | "n + m < length L" | "length L < n" "n + m \<noteq> length C"
    | "n \<le> length L" "length L \<le> n + m" by linarith
  then show ?thesis
  proof cases
    case 1
    then have "bring_gap i (1 + int n) (1 + int n + int m) ?bf ?bt st = Some (Inr False, st)"
      using less(1) gpt(2) by (simp add: bring_gap_def)
    moreover have "gap_brought st C n m False" using 1 lay by (auto simp: gap_brought_def)
    ultimately show ?thesis using same_norm_refl [OF rep q(1)] by blast
  next
    case 2
    obtain st1 where 1: "gap_left i (1 + (n + m)) (1 + bofs C (n + m)) st = Some (Inr (), st1)" "same_norm C st st1"
      "block_size (ed_text st1) = block_size ?t" "gap_at st1 C (n + m)"
      using move_gap_left_ok [OF rep q(1) lay 2, of i] by blast
    have g1: "int (bt_gpt (ed_text st1)) = ?bt" using 1(4) nm by (auto simp: gap_at_def bt_layout_def bofs_def)
    have "\<not> ?bf > int (bt_gpt (ed_text st1))" using bofs_less [OF ok, of "n + m" n] nm unfolding g1 by auto
    moreover have "\<not> (int (bt_gpt ?t) < ?bf)" "?bt < int (bt_gpt ?t)" using less 2 by auto
    ultimately have "bring_gap i (1 + int n) (1 + int n + int m) ?bf ?bt st = Some (Inr True, st1)"
      using 1(1) unfolding bring_gap_def nats by (simp add: ebind_def)
    then show ?thesis using 1(2,3) gap_at_brought [OF 1(4) nm le_add1 order.refl] by blast
  next
    case 3
    obtain st1 where 1: "gap_right i (1 + n) (1 + bofs C n) st = Some (Inr (), st1)" "same_norm C st st1"
      "block_size (ed_text st1) = block_size ?t" "gap_at st1 C n"
      using move_gap_right_ok [OF rep q(1) lay 3(1) _ q(2), of i] nm by auto
    have "\<not> (?bt < int (bt_gpt ?t))" "int (bt_gpt ?t) < ?bf" using less 3(1) by auto
    moreover have "1 + int n + int m \<noteq> int (bt_bufz ?t)" using gpt(2) 3(2) by simp
    ultimately have "bring_gap i (1 + int n) (1 + int n + int m) ?bf ?bt st = Some (Inr True, st1)"
      using 1(1) unfolding bring_gap_def nats by (simp add: ebind_def)
    then show ?thesis using 1(2,3) gap_at_brought [OF 1(4) add_leD1 [OF nm] order.refl le_add1] by blast
  next
    case 4
    then have "\<not> (?bt < int (bt_gpt ?t))" "\<not> (int (bt_gpt ?t) < ?bf)" using less by auto
    then have "bring_gap i (1 + int n) (1 + int n + int m) ?bf ?bt st = Some (Inr True, st)"
      unfolding bring_gap_def by (simp add: ebind_def)
    moreover have "gap_brought st C n m True" using 4 lay by (auto simp: gap_brought_def)
    ultimately show ?thesis using same_norm_refl [OF rep q(1)] by blast
  qed
qed

section \<open>Recording the deletion\<close>

text \<open>Recording only asks the text for its modification counts.\<close>

lemma undo_prelude_text:
  assumes "bt_modiff t' = bt_modiff (ed_text st)" "bt_save_modiff t' = bt_save_modiff (ed_text st)"
  shows "undo_prelude j h (st\<lparr>ed_text := t'\<rparr>) = (fst (undo_prelude j h st), (snd (undo_prelude j h st))\<lparr>ed_text := t'\<rparr>)"
proof -
  define s1 where "s1 st = (if ed_last_undo_buffer st \<noteq> Some (ed_base st)
      then (undo_boundary j st)\<lparr>ed_last_undo_buffer := Some (ed_base st)\<rparr> else st)" for st :: ed
  define s2 where "s2 st = (if h then st\<lparr>ed_pending_boundary := True\<rparr> else st)" for st :: ed
  define s3 where "s3 st = (if buf_tick_arithcompare (bt_modiff (ed_text st)) (bt_save_modiff (ed_text st)) \<le> 0
      then upd_buf j (\<lambda>b. b\<lparr>b_undo_list := cons_undo (U_modtime (b_modtime b)) (b_undo_list b)\<rparr>) st else st)" for st :: ed
  have up: "undo_prelude j h st = (if b_undo_list (ed_bufs st ! j) = U_t then (False, st) else (True, s3 (s2 (s1 st))))" for st
    by (simp add: undo_prelude_def Let_def s1_def s2_def s3_def)
  have t: "ed_text (s2 (s1 st)) = ed_text st" using but_undo_sel(1) [OF but_undo_boundary] by (simp add: s1_def s2_def)
  have "s1 (st\<lparr>ed_text := t'\<rparr>) = (s1 st)\<lparr>ed_text := t'\<rparr>"
    by (simp add: s1_def undo_boundary_def upd_buf_def split: undo_list.splits list.splits)
  moreover have "s2 (x\<lparr>ed_text := t'\<rparr>) = (s2 x)\<lparr>ed_text := t'\<rparr>" for x by (simp add: s2_def)
  moreover have "s3 (x\<lparr>ed_text := t'\<rparr>) = (s3 x)\<lparr>ed_text := t'\<rparr>" if "ed_text x = ed_text st" for x
    using that assms by (simp add: s3_def upd_buf_def)
  ultimately show ?thesis unfolding up using t by simp
qed

lemma delete_recorded_text:
  assumes "bt_modiff t' = bt_modiff (ed_text st)" "bt_save_modiff t' = bt_save_modiff (ed_text st)"
  shows "delete_recorded s beg len j (st\<lparr>ed_text := t'\<rparr>) = (delete_recorded s beg len j st)\<lparr>ed_text := t'\<rparr>"
proof -
  obtain g st1 where "undo_prelude j True st = (g, st1)" by fastforce
  with undo_prelude_text [OF assms, of j True] show ?thesis
    by (simp add: delete_recorded_def Let_def upd_buf_def)
qed

lemma cached_delete_recorded:
  assumes "cached C a b"
  shows "cached C (delete_recorded s beg len j a) (delete_recorded s beg len j b)"
proof -
  obtain t' where t': "b = a\<lparr>ed_text := t'\<rparr>" "same_but_caches (ed_text a) t'" "caches_ok t' C"
    using assms by (auto simp: cached_def)
  note sel = same_but_caches_sel [OF t'(2)]
  have "delete_recorded s beg len j b = (delete_recorded s beg len j a)\<lparr>ed_text := t'\<rparr>"
    unfolding t'(1) by (rule delete_recorded_text) (simp_all add: sel)
  moreover have "ed_text (delete_recorded s beg len j a) = ed_text a" by (rule but_undo_sel(1) [OF but_undo_recorded(2)])
  ultimately show ?thesis using t' by (auto simp: cached_def)
qed

lemma cached_upd_buf: "cached C a b \<Longrightarrow> cached C (upd_buf j f a) (upd_buf j f b)"
proof -
  assume "cached C a b"
  then obtain t' where t': "b = a\<lparr>ed_text := t'\<rparr>" "same_but_caches (ed_text a) t'" "caches_ok t' C" by (auto simp: cached_def)
  have "upd_buf j f b = (upd_buf j f a)\<lparr>ed_text := t'\<rparr>" unfolding t'(1) by (cases a) (simp add: upd_buf_def)
  then show ?thesis using t'(2,3) unfolding cached_def by (intro exI [of _ t']) (simp add: upd_buf_def)
qed

text \<open>The bytes of the deleted characters.\<close>

definition deleted_bytes :: "ichar list \<Rightarrow> nat \<Rightarrow> nat \<Rightarrow> byte list" where
  "deleted_bytes C n m = concat (take m (drop n C))"

lemma bofs_add: "bofs C (n + m) = bofs C n + length (deleted_bytes C n m)"
  by (simp add: bofs_def deleted_bytes_def take_add)

lemma deleted_bytes_slice:
  "deleted_bytes C n m = take (bofs C (n + m) - bofs C n) (drop (bofs C n) (concat C))"
proof -
  have "concat C = concat (take n C) @ concat (take m (drop n C)) @ concat (drop m (drop n C))"
    by (metis append_take_drop_id concat_append)
  then show ?thesis unfolding bofs_add by (simp add: bofs_def deleted_bytes_def)
qed

lemma Fbuffer_substring_ok:
  assumes rep: "ed_rep st C" and i: "i < length (ed_bufs st)" and nm: "n + m \<le> length C"
    and ed: "editable st (1 + int n) (1 + int n + int m)"
  shows "\<exists>st'. Fbuffer_substring i (1 + int n) (1 + int n + int m) st = Some (Inr (deleted_bytes C n m), st') \<and> cached C st st'"
proof -
  let ?b = "ed_bufs st ! i"
  have b: "b_bufbegv ?b \<le> 1 + int n" "1 + int n + int m \<le> b_bufzv ?b"
    using ed i by (auto simp: editable_def)
  have g: "get_buffer_range_char ?b (1 + int n) (1 + int n + int m) = Inr (1 + int n, 1 + int n + int m)"
    using b by (simp add: get_buffer_range_char_def)
  obtain st1 where 1: "ed_charbpos_to_bytebpos i (1 + int n) st = Some (Inr (1 + int (bofs C n)), st1)" "cached C st st1"
    using ed_charbpos_to_bytebpos_ok [OF rep i, of "1 + int n"] nm unfolding char_to_byte_bofs by auto
  have i1: "i < length (ed_bufs st1)" using i cached_ok(2) [OF 1(2)] by simp
  have e: "1 + int n + int m = 1 + int (n + m)" by simp
  have "1 \<le> 1 + int (n + m)" "1 + int (n + m) \<le> 1 + int (length C)" using nm by simp_all
  then obtain st2 where 2: "ed_charbpos_to_bytebpos i (1 + int n + int m) st1 = Some (Inr (1 + int (bofs C (n + m))), st2)" "cached C st1 st2"
    using ed_charbpos_to_bytebpos_ok [OF cached_ok(3) [OF 1(2) rep] i1, of "1 + int (n + m)"]
    unfolding e char_to_byte_bofs by blast
  note c = cached_trans [OF 1(2) 2(2)]
  obtain L gg R eg where lay: "bt_layout (ed_text st2) L gg R eg" "C = L @ R" using cached_ok(3) [OF c rep] by (auto simp: ed_rep_def)
  have d: "int (bofs C (n + m) - bofs C n) = 1 + int (bofs C (n + m)) - (1 + int (bofs C n))" using bofs_add [of C n m] by simp
  have "make_string_from_buffer (ed_text st2) (1 + int (bofs C n)) (int (bofs C (n + m) - bofs C n)) = Some (deleted_bytes C n m)"
    using make_string_from_buffer_ok [OF lay(1), of "bofs C n" "bofs C (n + m) - bofs C n"] bofs_le [of C "n + m"] bofs_add [of C n m]
      deleted_bytes_slice lay(2) by simp
  then have "make_string_from_buffer (ed_text st2) (1 + int (bofs C n)) (1 + int (bofs C (n + m)) - (1 + int (bofs C n))) =
      Some (deleted_bytes C n m)" unfolding d .
  with 1(1) 2(1) c g show ?thesis by (simp add: Fbuffer_substring_def get_buffer_range_byte_def ebind_def)
qed

lemma record_delete_ok:
  assumes rep: "ed_rep st C" and j: "j < length (ed_bufs st)" and nm: "n + m \<le> length C"
    and ed: "editable st (1 + int n) (1 + int n + int m)"
  shows "\<exists>st'. record_delete (1 + int n) (int m) j st = Some (Inr (), st') \<and>
    cached C (delete_recorded (deleted_bytes C n m) (1 + int n) (int m) j st) st'"
proof -
  let ?beg = "1 + int n" and ?s = "deleted_bytes C n m"
  obtain g st1 where p: "undo_prelude j True st = (g, st1)" by fastforce
  note bu1 = but_undo_prelude [of j True st, unfolded p snd_conv]
  have rep1: "ed_rep st1 C" using rep but_undo_sel(7) [OF bu1] by simp
  show ?thesis
  proof (cases g)
    case False
    then show ?thesis using p cached_refl [OF rep1] by (simp add: record_delete_def delete_recorded_def)
  next
    case True
    let ?sbeg = "if b_bufpt (ed_bufs st1 ! j) = ?beg + int m then - ?beg else ?beg"
    let ?at = "case b_undo_list (ed_bufs st1 ! j) of U_list (e # es) \<Rightarrow> e = U_boundary | _ \<Rightarrow> False"
    define st2 where "st2 = (if ?at \<and> ed_last_point_position_buffer st1 = Some j \<and> ed_last_point_position st1 \<noteq> ?sbeg
        then upd_buf j (\<lambda>b. b\<lparr>b_undo_list := cons_undo (U_position (ed_last_point_position st1)) (b_undo_list b)\<rparr>) st1
        else st1)"
    have bu2: "but_undo st2 = but_undo st" using bu1 but_undo_upd by (simp add: st2_def)
    note sel = but_undo_sel [OF bu2]
    obtain st3 where 3: "Fbuffer_substring j ?beg (?beg + int m) st2 = Some (Inr ?s, st3)" "cached C st2 st3"
      using Fbuffer_substring_ok [of st2 C j n m] rep ed j nm sel by auto
    let ?u = "upd_buf j (\<lambda>b. b\<lparr>b_undo_list := cons_undo (U_delete ?s ?sbeg) (b_undo_list b)\<rparr>)"
    have "record_delete ?beg (int m) j st = Some (Inr (), ?u st3)"
    proof -
      have "record_delete ?beg (int m) j st = ebind (Fbuffer_substring j ?beg (?beg + int m) st2) (\<lambda>s st.
          Some (Inr (), upd_buf j (\<lambda>b. b\<lparr>b_undo_list := cons_undo (U_delete s ?sbeg) (b_undo_list b)\<rparr>) st))"
        unfolding record_delete_def p Let_def prod.case st2_def using True by simp
      then show ?thesis using 3(1) by (simp add: ebind_def)
    qed
    moreover have "delete_recorded ?s ?beg (int m) j st = ?u st2"
      unfolding delete_recorded_def p Let_def prod.case st2_def using True by simp
    moreover have "cached C (?u st2) (?u st3)" using 3(2) by (rule cached_upd_buf)
    ultimately show ?thesis by auto
  qed
qed

lemma record_delete_all:
  assumes rep: "ed_rep st C" and nm: "n + m \<le> length C" and ed: "editable st (1 + int n) (1 + int n + int m)"
  defines "a \<equiv> all_bufs (delete_recorded (deleted_bytes C n m) (1 + int n) (int m)) st"
  shows "\<exists>st'. map_indirect_buffers (record_delete (1 + int n) (int m)) st = Some (Inr (), st') \<and> cached C a st'"
proof -
  let ?f = "delete_recorded (deleted_bytes C n m) (1 + int n) (int m)"
  have "\<exists>st'. eloop (record_delete (1 + int n) (int m)) js st1 = Some (Inr (), st') \<and> cached C (fold ?f js x) st'"
    if "cached C x st1" "ed_rep st1 C" "editable st1 (1 + int n) (1 + int n + int m)" "\<forall>j\<in>set js. j < length (ed_bufs st1)"
    for js x st1 using that
  proof (induction js arbitrary: x st1)
    case Nil
    then show ?case by simp
  next
    case (Cons j js)
    from record_delete_ok [OF Cons.prems(2) _ nm Cons.prems(3), of j] Cons.prems(4) obtain st2 where
      2: "record_delete (1 + int n) (int m) j st1 = Some (Inr (), st2)" "cached C (?f j st1) st2" by auto
    note bu = but_undo_sel [OF but_undo_recorded(2) [of "deleted_bytes C n m" "1 + int n" "int m" j st1]]
    note c2 = cached_ok [OF 2(2)]
    have "\<exists>st'. eloop (record_delete (1 + int n) (int m)) js st2 = Some (Inr (), st') \<and> cached C (fold ?f js (?f j x)) st'"
    proof (rule Cons.IH)
      show "cached C (?f j x) st2" using cached_trans [OF cached_delete_recorded [OF Cons.prems(1)] 2(2)] .
      show "ed_rep st2 C" using c2(3) bu(7) Cons.prems(2) by simp
      show "editable st2 (1 + int n) (1 + int n + int m)" using editable_cached [OF 2(2)] bu(11) Cons.prems(3) by simp
      show "\<forall>j\<in>set js. j < length (ed_bufs st2)" using Cons.prems(4) c2(2) bu(2) by simp
    qed
    with 2(1) show ?case by (auto simp: ebind_def)
  qed
  from this [OF cached_refl [OF rep] rep ed, of "[0..<length (ed_bufs st)]"] show ?thesis by (simp add: a_def all_bufs_def)
qed

section \<open>Newlines and ASCII characters of the region\<close>

text \<open>The search stops between two characters.\<close>

lemma ascii_byte_char:
  assumes "chars_ok C" "k < length (concat C)" "byte_ascii_p (concat C ! k)"
  shows "\<exists>n<length C. bofs C n = k \<and> bofs C (Suc n) = Suc k"
  using assms
proof (induction C arbitrary: k)
  case (Cons c C)
  obtain b bs where c: "c = b # bs" "\<forall>x\<in>set bs. \<not> ibyte_first_byte_p x" "byte_ascii_p b \<longleftrightarrow> bs = []"
    using Cons.prems(1) by (auto elim: ichar_okE)
  have sh: "bofs (c # C) (Suc j) = length c + bofs C j" for j by (simp add: bofs_def)
  show ?case
  proof (cases "k < length c")
    case True
    have "byte_ascii_p (c ! k)" using Cons.prems(3) True by (simp add: nth_append)
    then have "ibyte_first_byte_p (c ! k)" by (auto simp: byte_ascii_less ibyte_first_byte_p_def word_less_nat_alt)
    then have "k = 0" using c(1,2) True by (cases k) auto
    then have "bs = []" using \<open>byte_ascii_p (c ! k)\<close> c by simp
    then show ?thesis using \<open>k = 0\<close> c(1) sh [of 0] by (intro exI [of _ 0]) simp
  next
    case False
    have "k - length c < length (concat C)" "byte_ascii_p (concat C ! (k - length c))"
      using Cons.prems(2,3) False by (auto simp: nth_append)
    then obtain n where "n < length C" "bofs C n = k - length c" "bofs C (Suc n) = Suc (k - length c)"
      using Cons.IH [of "k - length c"] Cons.prems(1) by auto
    then show ?thesis using False sh by (intro exI [of _ "Suc n"]) auto
  qed
qed simp

lemma found_newline_char:
  assumes ok: "chars_ok C" and nm: "n + m \<le> length C"
    and f: "found_forward (concat C) 0x0A (1 + int (bofs C n)) (1 + int (bofs C (n + m))) 1 (r, short)"
  shows "\<exists>c. r = char_to_byte C c \<and> 1 \<le> c \<and> c \<le> 1 + int (length C)"
proof (cases "short = 0")
  case True
  then have r: "1 + int (bofs C n) < r" "concat C ! nat (r - 2) = 0x0A" "r \<le> 1 + int (bofs C (n + m))"
    using f by (auto simp: found_forward_def)
  have "nat (r - 2) < length (concat C)" using r(1,3) bofs_le [of C "n + m"] by linarith
  moreover have "byte_ascii_p (concat C ! nat (r - 2))" by (simp add: r(2) byte_ascii_less)
  ultimately obtain k where k: "k < length C" "bofs C (Suc k) = Suc (nat (r - 2))" using ascii_byte_char [OF ok] by blast
  have "nat (1 + int k) = Suc k" by simp
  then show ?thesis using k r(1) by (intro exI [of _ "1 + int (Suc k)"]) (simp add: char_to_byte_def)
next
  case False
  then have "r = 1 + int (bofs C (n + m))" using f by (auto simp: found_forward_def)
  then show ?thesis using nm char_to_byte_bofs [of C "n + m"] by (intro exI [of _ "1 + int (n + m)"]) simp
qed

lemma newline_in_region:
  assumes "1 \<le> x" "x \<le> y" "found_forward T raw x y 1 (r, short)"
  shows "short = 0 \<longleftrightarrow> raw \<in> set (seg T x y)"
proof -
  have r: "x \<le> r" "r \<le> y" "0 \<le> short" "1 = short + int (count_list (seg T x r) raw)"
    "short \<noteq> 0 \<longrightarrow> r = y" using assms(3) by (auto simp: found_forward_def split: if_splits)
  have s: "seg T x y = seg T x r @ seg T r y" using seg_split [OF assms(1) r(1,2)] .
  show ?thesis
  proof
    assume "short = 0"
    then have "count_list (seg T x r) raw \<noteq> 0" using r(4) by simp
    then show "raw \<in> set (seg T x y)" by (simp add: s count_list_0_iff)
  next
    assume in_seg: "raw \<in> set (seg T x y)"
    show "short = 0"
    proof (rule ccontr)
      assume "short \<noteq> 0"
      then have "r = y" "count_list (seg T x r) raw = 0" using r(3-5) by auto
      then show False using in_seg by (simp add: count_list_0_iff)
    qed
  qed
qed

lemma seg_bytes: "seg (concat C) (1 + int (bofs C n)) (1 + int (bofs C (n + m))) = deleted_bytes C n m"
proof -
  have "nat (1 + int (bofs C (n + m)) - (1 + int (bofs C n))) = bofs C (n + m) - bofs C n" by linarith
  then show ?thesis by (simp add: seg_def deleted_bytes_slice)
qed

definition newline_noted :: "nat \<Rightarrow> byte list \<Rightarrow> ed \<Rightarrow> ed" where
  "newline_noted i s st =
     (if \<not> b_newline_was_deleted (ed_bufs st ! i) \<and> 0x0A \<in> set s
      then upd_bufs (\<lambda>b. b\<lparr>b_newline_was_deleted := True\<rparr>) st else st)"

text \<open>The search for a newline up to its check for a quit.\<close>

lemma scan_newline:
  assumes rep: "ed_rep st C" and i: "i < length (ed_bufs st)" and nm: "n + m \<le> length C"
    and zv: "1 + int n + int m \<le> b_bufzv (ed_bufs st ! i)"
  shows "\<exists>t br short. scan_buffer i [0x0A] (1 + int n) (1 + int n + int m) 1 True st =
      ebind (QUIT (st\<lparr>ed_text := t\<rparr>)) (\<lambda>_ st. ebind (ed_bytebpos_to_charbpos i br st) (\<lambda>r st. Some (Inr (r, short), st))) \<and>
    same_but_caches (ed_text st) t \<and> caches_ok t C \<and>
    found_forward (concat C) 0x0A (1 + int (bofs C n)) (1 + int (bofs C (n + m))) 1 (br, short)"
proof -
  let ?x = "1 + int n" and ?y = "1 + int n + int m" and ?bx = "1 + int (bofs C n)" and ?by = "1 + int (bofs C (n + m))"
  have ok: "chars_ok C" by (rule ed_rep_chars_ok [OF rep])
  have e: "?y = 1 + int (n + m)" by simp
  have r: "1 \<le> ?x" "?x \<le> 1 + int (length C)" "1 \<le> ?y" "?y \<le> 1 + int (length C)" using nm by simp_all
  obtain st1 where 1: "ed_charbpos_to_bytebpos i ?x st = Some (Inr ?bx, st1)" "cached C st st1"
    using ed_charbpos_to_bytebpos_ok [OF rep i r(1,2)] unfolding char_to_byte_bofs by blast
  note c1 = cached_ok [OF 1(2)]
  have i1: "i < length (ed_bufs st1)" using i c1(2) by simp
  obtain st2 where 2: "ed_charbpos_to_bytebpos i ?y st1 = Some (Inr ?by, st2)" "cached C st1 st2"
    using ed_charbpos_to_bytebpos_ok [OF c1(3) [OF rep] i1 r(3,4)] unfolding e char_to_byte_bofs by blast
  note c = cached_trans [OF 1(2) 2(2)]
  note c2 = cached_ok [OF c]
  let ?b = "ed_bufs st ! i"
  have le: "?bx \<le> ?by" using bofs_add [of C n m] by simp
  have "char_to_byte C ?y \<le> char_to_byte C (b_bufzv ?b)"
    using char_to_byte_mono [OF ok, of ?y "b_bufzv ?b"] zv r ed_rep_buffer [OF rep i] by simp
  then have "?by \<le> b_zv ?b" using ed_rep_buffer(7) [OF rep i] unfolding e char_to_byte_bofs by simp
  moreover have "?b \<in> set (ed_bufs st2)" using i c2(2) by simp
  moreover have "byte_ascii_p 0x0A" by (simp add: byte_ascii_less)
  ultimately obtain br short where b: "byte_scan_buffer (ed_text st2) ?b [0x0A] ?bx ?by 1 = Some (br, short)"
    "found_forward (concat C) 0x0A ?bx ?by 1 (br, short)"
    using byte_scan_buffer_forward_lemma [OF c2(3) [OF rep], of ?b "0x0A" 1 ?bx ?by] le by force
  obtain t2 where t2: "st2 = st\<lparr>ed_text := t2\<rparr>" "same_but_caches (ed_text st) t2" "caches_ok t2 C" using c by (auto simp: cached_def)
  have "scan_buffer i [0x0A] ?x ?y 1 True st =
      ebind (QUIT st2) (\<lambda>_ st. ebind (ed_bytebpos_to_charbpos i br st) (\<lambda>r st. Some (Inr (r, short), st)))"
    using 1(1) 2(1) b(1) c2(2) r(3) by (simp add: scan_buffer_def ebind_def)
  with t2 b(2) show ?thesis by blast
qed

lemma note_deleted_newline_ok:
  assumes rep: "ed_rep st C" and q: "quiet st" and i: "i < length (ed_bufs st)" and nm: "n + m \<le> length C"
    and zv: "1 + int n + int m \<le> b_bufzv (ed_bufs st ! i)"
  shows "\<exists>st' t' qs. note_deleted_newline i (1 + int n) (1 + int n + int m) st = Some (Inr (), st') \<and>
    st' = (newline_noted i (deleted_bytes C n m) st)\<lparr>ed_text := t', ed_quit := qs\<rparr> \<and>
    same_but_caches (ed_text st) t' \<and> caches_ok t' C \<and> (ed_inhibit_quit st \<or> True \<notin> set qs)"
proof (cases "b_newline_was_deleted (ed_bufs st ! i)")
  case True
  have "caches_ok (ed_text st) C" using rep by (simp add: ed_rep_def)
  with True q show ?thesis
    by (intro exI [of _ st] exI [of _ "ed_text st"] exI [of _ "ed_quit st"])
      (simp add: note_deleted_newline_def newline_noted_def quiet_def)
next
  case False
  let ?x = "1 + int n" and ?y = "1 + int n + int m" and ?bx = "1 + int (bofs C n)" and ?by = "1 + int (bofs C (n + m))"
  have ok: "chars_ok C" by (rule ed_rep_chars_ok [OF rep])
  obtain t2 br short where scan: "scan_buffer i [0x0A] ?x ?y 1 True st =
      ebind (QUIT (st\<lparr>ed_text := t2\<rparr>)) (\<lambda>_ st. ebind (ed_bytebpos_to_charbpos i br st) (\<lambda>r st. Some (Inr (r, short), st)))"
    and t2: "same_but_caches (ed_text st) t2" "caches_ok t2 C" and b: "found_forward (concat C) 0x0A ?bx ?by 1 (br, short)"
    using scan_newline [OF rep i nm zv] by blast
  let ?st2 = "st\<lparr>ed_text := t2\<rparr>"
  have c2: "cached C st ?st2" using t2 by (auto simp: cached_def)
  obtain qs where qs: "QUIT ?st2 = Some (Inr (), ?st2\<lparr>ed_quit := qs\<rparr>)" "quit_step (ed_inhibit_quit ?st2) (ed_quit ?st2) False qs"
    using QUIT_quiet [of ?st2] q cached_ok(4) [OF c2] by auto
  have rep2: "ed_rep (?st2\<lparr>ed_quit := qs\<rparr>) C" using cached_ok(3) [OF c2 rep] by (simp add: ed_rep_def)
  have "\<exists>c. br = char_to_byte C c \<and> 1 \<le> c \<and> c \<le> 1 + int (length C)" by (rule found_newline_char [OF ok nm b])
  then obtain c where cc: "br = char_to_byte C c" "1 \<le> c" "c \<le> 1 + int (length C)" by blast
  obtain st3 where 3: "ed_bytebpos_to_charbpos i br (?st2\<lparr>ed_quit := qs\<rparr>) = Some (Inr c, st3)" "cached C (?st2\<lparr>ed_quit := qs\<rparr>) st3"
    using ed_bytebpos_to_charbpos_ok [OF rep2 _ cc(2,3), of i] i cc(1) by auto
  have "scan_buffer i [0x0A] ?x ?y 1 True st = Some (Inr (c, short), st3)"
    unfolding scan using qs(1) 3(1) by (simp add: ebind_def)
  then have nd: "note_deleted_newline i ?x ?y st = Some (Inr (), if short = 0 then upd_bufs (\<lambda>b. b\<lparr>b_newline_was_deleted := True\<rparr>) st3 else st3)"
    using False by (simp add: note_deleted_newline_def ebind_def)
  have le: "?bx \<le> ?by" using bofs_add [of C n m] by simp
  have s0: "short = 0 \<longleftrightarrow> 0x0A \<in> set (deleted_bytes C n m)"
    using newline_in_region [OF _ le b] unfolding seg_bytes by simp
  obtain t3 where t3: "st3 = st\<lparr>ed_quit := qs, ed_text := t3\<rparr>" "same_but_caches t2 t3" "caches_ok t3 C"
    using 3(2) by (auto simp: cached_def)
  have "ed_inhibit_quit st \<or> True \<notin> set qs" using quit_step_quiet [OF _ qs(2)] cached_ok(4) [OF c2] q by simp
  then show ?thesis using nd s0 False t3 same_but_caches_trans [OF t2(1) t3(2)]
    by (intro exI [of _ "if short = 0 then upd_bufs (\<lambda>b. b\<lparr>b_newline_was_deleted := True\<rparr>) st3 else st3"]
        exI [of _ t3] exI [of _ qs]) (simp add: newline_noted_def upd_bufs_def)
qed

lemma nth_bofs:
  assumes "chars_ok C" "n < length C"
  shows "bofs C n < length (concat C)" "concat C ! bofs C n = hd (C ! n)"
proof -
  have C: "concat C = concat (take n C) @ C ! n @ concat (drop (Suc n) C)"
    using arg_cong [OF char_split [OF assms(2)], of concat] by simp
  have "ichar_ok (C ! n)" using assms by simp
  then have "C ! n \<noteq> []" by (rule ichar_ok_nonempty)
  then show "bofs C n < length (concat C)" "concat C ! bofs C n = hd (C ! n)"
    unfolding bofs_def by (subst C, simp add: nth_append hd_conv_nth)+
qed

lemma uncount_ascii_correct:
  assumes lay: "bt_layout t L g R eg" "C = L @ R"
  shows "n + m \<le> length C \<Longrightarrow> uncount_ascii t (1 + int (bofs C n)) (1 + int (bofs C (n + m))) k =
    Some (k - int (length (filter ascii_char (take m (drop n C)))))"
proof (induction m arbitrary: n k)
  case 0
  then show ?case by (subst uncount_ascii.simps) simp
next
  case (Suc m)
  have ok: "chars_ok C" using lay by (auto simp: bt_layout_def)
  have n: "n < length C" using Suc.prems by simp
  have rd: "mem_read (bt_beg t) (BYTE_BUF_BYTE_ADDRESS t (1 + int (bofs C n))) = Some (hd (C ! n))"
    using layout_read [OF lay(1), of "bofs C n"] nth_bofs [OF ok n] lay(2) by simp
  have inc: "INC_BYTEBPOS t (1 + int (bofs C n)) = Some (1 + int (bofs C (Suc n)))"
    using INC_BYTEBPOS_char [OF lay(1), of n] n lay(2) by simp
  have asc: "byte_ascii_p (hd (C ! n)) \<longleftrightarrow> ascii_char (C ! n)"
    using ok n by (auto simp: ascii_char_def dest!: nth_mem elim!: ichar_okE)
  have lt: "bofs C n < bofs C (n + Suc m)" using bofs_less [OF ok, of n "n + Suc m"] Suc.prems by simp
  have "take (Suc m) (drop n C) = C ! n # take m (drop (Suc n) C)" using n by (simp add: Cons_nth_drop_Suc [symmetric])
  with Suc.IH [of "Suc n"] Suc.prems rd inc asc lt show ?case
    by (subst uncount_ascii.simps) simp
qed

section \<open>The text and the buffers after a deletion\<close>

definition text_deleted :: "bool \<Rightarrow> nat \<Rightarrow> nat \<Rightarrow> nat \<Rightarrow> nat \<Rightarrow> nat \<Rightarrow> buffer_text \<Rightarrow> buffer_text" where
  "text_deleted dm n m k nb asc t =
     entirely_one_byte (buffer_mule_signal_deleted_region (1 + int n) (1 + int n + int m) (1 + int k) (1 + int k + int nb)
       (widen_gap dm (1 + n) m (1 + k) nb (t\<lparr>bt_num_ascii_chars := bt_num_ascii_chars t - int asc\<rparr>)))"

text \<open>The deletion of \<open>m\<close> characters from index \<open>n\<close>, \<open>nb\<close> bytes from index \<open>k\<close>, without the gap.\<close>

definition deleted_text :: "nat \<Rightarrow> nat \<Rightarrow> nat \<Rightarrow> nat \<Rightarrow> buffer_text \<Rightarrow> buffer_text" where
  "deleted_text k m nb asc t =
     (let z = bt_z t - nb; bufz = bt_bufz t - m
      in t\<lparr>bt_beg := list_delete (bt_beg t) k nb, bt_gpt := z, bt_bufgpt := bufz, bt_z := z, bt_bufz := bufz,
           bt_modiff := bt_modiff t + 1, bt_entirely_one_byte_p := bufz = z,
           bt_num_ascii_chars := bt_num_ascii_chars t - int asc\<rparr>)"

definition deleted_marker :: "int \<Rightarrow> int \<Rightarrow> marker \<Rightarrow> marker" where
  "deleted_marker byte_from byte_to m =
     (if mk_membpos m \<le> byte_from then m
      else if mk_membpos m \<le> byte_to then m\<lparr>mk_membpos := byte_from\<rparr>
      else m\<lparr>mk_membpos := mk_membpos m - (byte_to - byte_from)\<rparr>)"

definition deleted_buf :: "int \<Rightarrow> int \<Rightarrow> int \<Rightarrow> int \<Rightarrow> buffer \<Rightarrow> buffer" where
  "deleted_buf frm numdel byte_from byte_numdel b =
     ZV_after_delete numdel byte_numdel (PT_after_delete frm numdel byte_from byte_numdel
       (b\<lparr>b_markers := map (deleted_marker byte_from (byte_from + byte_numdel)) (b_markers b)\<rparr>))"

lemma first_cell_char: "ichar_ok c \<Longrightarrow> first_cell (map Some c @ cs)"
  by (auto simp: first_cell_def elim: ichar_okE)

lemma text_deleted_layout:
  assumes lay: "bt_layout t L g R eg" "C = L @ R" and nm: "n + m \<le> length C" "0 < m"
    and at: "if dm then n \<le> length L \<and> length L \<le> n + m else n + m = length C \<and> length L < n"
  defines "k \<equiv> bofs C n" and "nb \<equiv> length (deleted_bytes C n m)"
  shows "\<exists>L' g' R' eg'. bt_layout (text_deleted dm n m k nb asc t) L' g' R' eg' \<and> L' @ R' = list_delete C n m"
proof -
  let ?t' = "text_deleted dm n m k nb asc t"
  have fields: "bt_beg ?t' = (bt_beg t)[bt_gpt ?t' - 1 := Some 0]" "bt_z ?t' = bt_z t - nb" "bt_bufz ?t' = bt_bufz t - m"
    "bt_gpt ?t' = (if dm then 1 + k else bt_gpt t)" "bt_bufgpt ?t' = (if dm then 1 + n else bt_bufgpt t)"
    "bt_gap_size ?t' = (if dm then bt_gap_size t + nb else bt_gap_size t)"
    "bt_end_gap_size ?t' = (if dm then bt_end_gap_size t else bt_end_gap_size t + nb)"
    by (simp_all add: text_deleted_def entirely_one_byte_def buffer_mule_signal_deleted_region_def widen_gap_def
        SET_GAP_SENTINEL_def SET_BOTH_BUF_GPT_def Let_def split_beta)
  have ok: "chars_ok L" "chars_ok R" using lay(1) by (simp_all add: bt_layout_def)
  show ?thesis
  proof (cases dm)
    case True
    with at have at': "n \<le> length L" "length L \<le> n + m" by auto
    define X where "X = drop n L" define Y where "Y = take (n + m - length L) R"
    define L' where "L' = take n L" define R' where "R' = drop (n + m - length L) R"
    have LR: "L = L' @ X" "R = Y @ R'" "length L' = n" using at'(1) by (simp_all add: X_def Y_def L'_def R'_def)
    have XY: "take m (drop n C) = X @ Y"
    proof -
      have "drop n C = X @ R" using at'(1) lay(2) by (simp add: X_def)
      moreover have "length X \<le> m" "m - length X = n + m - length L" using at' by (auto simp: X_def)
      ultimately show ?thesis by (simp add: Y_def)
    qed
    have lens: "length Y = n + m - length L" using nm at' lay(2) by (simp add: Y_def)
    have nb: "nb = length (concat X) + length (concat Y)" by (simp add: nb_def deleted_bytes_def XY)
    have k: "k = length (concat L')" using LR(3) at' lay(2) by (simp add: k_def bofs_def L'_def)
    obtain s0 g0 where g: "g = s0 # g0" using lay(1) by (auto simp: bt_layout_def first_cell_def)
    let ?g' = "Some 0 # tl (map Some (concat X) @ g @ map Some (concat Y))"
    have ne: "map Some (concat X) @ g @ map Some (concat Y) \<noteq> []" using g by simp
    have "bt_beg t = map Some (concat L') @ (map Some (concat X) @ g @ map Some (concat Y)) @ map Some (concat R') @ eg"
      using lay(1) LR by (simp add: bt_layout_def)
    then have beg: "(bt_beg t)[length (concat L') := Some 0] = map Some (concat L') @ ?g' @ map Some (concat R') @ eg"
      using ne by (cases "map Some (concat X) @ g @ map Some (concat Y)") (simp_all add: list_update_append)
    have "bt_layout ?t' L' ?g' R' eg"
      using lay LR fields beg k nb True first_cell_0 lens nm at' g
      by (auto simp: bt_layout_def length_tl)
    moreover have "L' @ R' = list_delete C n m" using at' lay(2) by (simp add: L'_def R'_def list_delete_def)
    ultimately show ?thesis by blast
  next
    case False
    with at have at': "n + m = length C" "length L < n" by auto
    define R' where "R' = take (n - length L) R" define Y where "Y = drop (n - length L) R"
    have LR: "R = R' @ Y" by (simp add: R'_def Y_def)
    have XY: "take m (drop n C) = Y" using at' lay(2) by (simp add: Y_def)
    have nb: "nb = length (concat Y)" by (simp add: nb_def deleted_bytes_def XY)
    have "Y \<noteq> []" using at' lay(2) nm(2) by (simp add: Y_def)
    then obtain c Y' where Y: "Y = c # Y'" by (cases Y) auto
    have okY: "ichar_ok c" "chars_ok R'" using ok(2) LR Y by auto
    obtain s0 g0 where g: "g = s0 # g0" using lay(1) by (auto simp: bt_layout_def first_cell_def)
    have beg: "(bt_beg t)[length (concat L) := Some 0] =
        map Some (concat L) @ (Some 0 # g0) @ map Some (concat R') @ (map Some (concat Y) @ eg)"
      using lay(1) LR g by (simp add: bt_layout_def list_update_append)
    have "first_cell (map Some (concat Y) @ eg)" using first_cell_char [OF okY(1)] Y by simp
    moreover have "length Y = m" using at' lay(2) by (simp add: Y_def)
    ultimately have "bt_layout ?t' L (Some 0 # g0) R' (map Some (concat Y) @ eg)"
      using lay LR fields beg nb False first_cell_0 okY g by (auto simp: bt_layout_def)
    moreover have "L @ R' = list_delete C n m" using at' lay(2) by (simp add: R'_def list_delete_def)
    ultimately show ?thesis by blast
  qed
qed

lemma concat_list_delete:
  "n + m \<le> length C \<Longrightarrow> concat (list_delete C n m) = list_delete (concat C) (bofs C n) (length (deleted_bytes C n m))"
proof -
  have C: "concat C = concat (take n C) @ deleted_bytes C n m @ concat (drop (n + m) C)"
    unfolding deleted_bytes_def by (metis append_take_drop_id concat_append drop_drop add.commute)
  have "take (bofs C n) (concat C) = concat (take n C)" "drop (bofs C n + length (deleted_bytes C n m)) (concat C) = concat (drop (n + m) C)"
    by (subst C, simp add: bofs_def)+
  then show ?thesis by (simp add: list_delete_def)
qed

lemma text_deleted_ok:
  fixes asc :: nat
  assumes lay: "bt_layout t L g R eg" "C = L @ R" and nm: "n + m \<le> length C" "0 < m"
    and at: "if dm then n \<le> length L \<and> length L \<le> n + m else n + m = length C \<and> length L < n"
    and ca: "caches_ok t C"
  defines "k \<equiv> bofs C n" and "nb \<equiv> length (deleted_bytes C n m)"
  defines "t' \<equiv> text_deleted dm n m k nb asc (t\<lparr>bt_modiff := bt_modiff t + 1\<rparr>)"
  shows "caches_ok t' (list_delete C n m)" "norm_text t' = deleted_text k m nb asc (norm_text t)"
    "\<exists>L' g' R' eg'. bt_layout t' L' g' R' eg' \<and> L' @ R' = list_delete C n m"
    "block_size t' = block_size t"
proof -
  let ?t = "t\<lparr>bt_modiff := bt_modiff t + 1\<rparr>"
  have ok: "chars_ok C" using lay by (auto simp: bt_layout_def)
  have lay1: "bt_layout ?t L g R eg" using lay(1) by (simp add: bt_layout_def)
  show lay': "\<exists>L' g' R' eg'. bt_layout t' L' g' R' eg' \<and> L' @ R' = list_delete C n m"
    unfolding t'_def k_def nb_def by (rule text_deleted_layout [OF lay1 lay(2) nm at])
  let ?w = "widen_gap dm (1 + n) m (1 + k) nb (?t\<lparr>bt_num_ascii_chars := bt_num_ascii_chars ?t - int asc\<rparr>)"
  have "caches_ok ?w C" using ca
    by (simp add: caches_ok_def widen_gap_def SET_GAP_SENTINEL_def SET_BOTH_BUF_GPT_def Let_def)
  moreover have pf: "pos_pair C (1 + int n, 1 + int k)" using nm char_to_byte_bofs [of C n] by (simp add: pos_pair_def k_def)
  moreover have "char_to_byte C (1 + int n + int m) = 1 + int k + int nb"
    using char_to_byte_bofs [of C "n + m"] bofs_add [of C n m] by (simp add: k_def nb_def add.assoc)
  then have pt: "pos_pair C (1 + int n + int m, 1 + int k + int nb)" using nm by (simp add: pos_pair_def)
  ultimately have "caches_ok (buffer_mule_signal_deleted_region (1 + int n) (1 + int n + int m) (1 + int k) (1 + int k + int nb) ?w)
      (list_delete C (nat (1 + int n - 1)) (nat (1 + int n + int m - (1 + int n))))"
    by (intro caches_ok_signal_deleted) simp_all
  then show "caches_ok t' (list_delete C n m)" by (simp add: t'_def text_deleted_def entirely_one_byte_def caches_ok_def)
  obtain L' g' R' eg' where l': "bt_layout t' L' g' R' eg'" "L' @ R' = list_delete C n m" using lay' by blast
  have "text_of t' = map Some (concat (list_delete C n m))" using text_of_layout [OF l'(1)] l'(2) by simp
  also have "\<dots> = list_delete (text_of t) k nb"
    using text_of_layout [OF lay(1)] concat_list_delete [OF nm(1)] lay(2)
    by (simp add: list_delete_def k_def nb_def take_map drop_map)
  finally have tx: "text_of t' = list_delete (text_of t) k nb" .
  have eq: "t' = t\<lparr>bt_beg := bt_beg t', bt_gpt := bt_gpt t', bt_bufgpt := bt_bufgpt t', bt_z := bt_z t - nb,
      bt_bufz := bt_bufz t - m, bt_gap_size := bt_gap_size t', bt_end_gap_size := bt_end_gap_size t',
      bt_modiff := bt_modiff t + 1, bt_pos_cache := bt_pos_cache t', bt_cached_charpos := bt_cached_charpos t',
      bt_cached_bytepos := bt_cached_bytepos t', bt_entirely_one_byte_p := bt_bufz t - m = bt_z t - nb,
      bt_num_ascii_chars := bt_num_ascii_chars t - int asc\<rparr>"
    by (rule buffer_text.equality) (simp_all add: t'_def text_deleted_def entirely_one_byte_def
        buffer_mule_signal_deleted_region_def widen_gap_def SET_GAP_SENTINEL_def SET_BOTH_BUF_GPT_def Let_def split_beta)
  show "norm_text t' = deleted_text k m nb asc (norm_text t)"
    unfolding norm_text_def tx deleted_text_def Let_def
    by (rule buffer_text.equality) (subst eq, simp)+
  have "nb \<le> bt_z t - 1" using bofs_add [of C n m] bofs_le [of C "n + m"] lay by (simp add: nb_def bt_layout_def)
  then show "block_size t' = block_size t"
    by (simp add: block_size_def t'_def text_deleted_def entirely_one_byte_def buffer_mule_signal_deleted_region_def
        widen_gap_def SET_GAP_SENTINEL_def SET_BOTH_BUF_GPT_def Let_def split_beta)
qed

section \<open>Markers and points\<close>

lemma marker_deleted_position:
  assumes v: "valid_membpos_p t x" and g: "1 \<le> bf" "0 \<le> nb" "bf + nb \<le> int (bt_z t)" "int (bt_gpt t) \<le> int (bt_z t)"
    and dm: "if dm then bf \<le> int (bt_gpt t) \<and> int (bt_gpt t) \<le> bf + nb else bf + nb = int (bt_z t) \<and> int (bt_gpt t) < bf"
    and t': "int (bt_gpt t') = (if dm then bf else int (bt_gpt t))" "int (bt_z t') = int (bt_z t) - nb"
      "int (bt_gap_size t') = int (bt_gap_size t) + (if dm then nb else 0)"
  defines "gap \<equiv> int (bt_gap_size t)"
  defines "y \<equiv> do_marker_adjustment x (bf + nb + gap) (bf + nb + gap) (- nb - (if dm then gap else 0))"
  defines "p \<equiv> membpos_to_bytebpos t x"
  shows "valid_membpos_p t' y \<and>
    membpos_to_bytebpos t' y = (if p \<le> bf then p else if p \<le> bf + nb then bf else p - nb)"
proof (cases dm)
  case True
  then show ?thesis using v g dm t' unfolding gap_def y_def p_def
    by (auto simp: valid_membpos_p_def membpos_to_bytebpos_def do_marker_adjustment_def Let_def)
next
  case False
  then show ?thesis using v g dm t' unfolding gap_def y_def p_def
    by (auto simp: valid_membpos_p_def membpos_to_bytebpos_def do_marker_adjustment_def Let_def)
qed

lemma pair_delete_pos:
  assumes ok: "chars_ok C" and pp: "pos_pair C (c, b)" and nm: "n + m \<le> length C"
  defines "bf \<equiv> 1 + int (bofs C n)" and "nb \<equiv> int (length (deleted_bytes C n m))"
  shows "\<exists>c'. pos_pair (list_delete C n m) (c', if b \<le> bf then b else if b \<le> bf + nb then bf else b - nb) \<and>
    c' = (if c \<le> 1 + int n then c else if c \<le> 1 + int n + int m then 1 + int n else c - int m)"
proof -
  have b: "bf < b \<longleftrightarrow> 1 + int n < c" using pos_pair_less(1) [OF ok pp] nm by (simp add: bf_def)
  have bt: "bf + nb = 1 + int (bofs C (n + m))" by (simp add: bf_def nb_def bofs_add)
  have b2: "bf + nb < b \<longleftrightarrow> 1 + int n + int m < c" using pos_pair_less(1) [OF ok pp nm] unfolding bt by (simp add: add.assoc)
  have "pos_pair C (1 + int n, bf)" using nm char_to_byte_bofs [of C n] by (simp add: pos_pair_def bf_def)
  moreover have "char_to_byte C (1 + int n + int m) = bf + nb"
    using char_to_byte_bofs [of C "n + m"] unfolding bt by (simp add: add.assoc)
  then have "pos_pair C (1 + int n + int m, bf + nb)" using nm by (simp add: pos_pair_def)
  ultimately have "pos_pair (list_delete C n m) (pair_delete (1 + int n) (1 + int n + int m) bf (bf + nb) (c, b))"
    using pos_pair_delete [OF pp, of "1 + int n" bf "1 + int n + int m" "bf + nb"] by simp
  then show ?thesis using b b2 by (auto simp: pair_delete_def split: if_splits)
qed

definition buf_deleted :: "int \<Rightarrow> bool \<Rightarrow> int \<Rightarrow> int \<Rightarrow> int \<Rightarrow> int \<Rightarrow> buffer \<Rightarrow> buffer" where
  "buf_deleted gap dm frm numdel byte_from byte_numdel b =
     ZV_after_delete numdel byte_numdel (PT_after_delete frm numdel byte_from byte_numdel
       (adjust_markers (byte_from + byte_numdel + gap) (byte_from + byte_numdel + gap)
         (- byte_numdel - (if dm then gap else 0)) b))"

lemma buf_deleted_ok:
  assumes b: "buffer_ok t C b" "b_bufbegv b \<le> 1 + int n" "1 + int n + int m \<le> b_bufzv b"
    and ok: "chars_ok C" and nm: "n + m \<le> length C"
    and z: "int (bt_z t) = 1 + int (length (concat C))" "int (bt_gpt t) \<le> int (bt_z t)"
    and bf_def: "bf = 1 + int (bofs C n)" and nb_def: "nb = int (length (deleted_bytes C n m))"
    and dm: "if dm then bf \<le> int (bt_gpt t) \<and> int (bt_gpt t) \<le> bf + nb else bf + nb = int (bt_z t) \<and> int (bt_gpt t) < bf"
    and t': "int (bt_gpt t') = (if dm then bf else int (bt_gpt t))" "int (bt_z t') = int (bt_z t) - nb"
      "int (bt_gap_size t') = int (bt_gap_size t) + (if dm then nb else 0)"
  shows "buffer_ok t' (list_delete C n m) (buf_deleted (int (bt_gap_size t)) dm (1 + int n) (int m) bf nb b)"
    and "norm_buf t' (buf_deleted (int (bt_gap_size t)) dm (1 + int n) (int m) bf nb b) =
      deleted_buf (1 + int n) (int m) bf nb (norm_buf t b)"
proof -
  let ?C = "list_delete C n m" and ?b = "buf_deleted (int (bt_gap_size t)) dm (1 + int n) (int m) bf nb b"
  define f where "f k = k\<lparr>mk_membpos := do_marker_adjustment (mk_membpos k) (bf + nb + int (bt_gap_size t))
      (bf + nb + int (bt_gap_size t)) (- nb - (if dm then int (bt_gap_size t) else 0))\<rparr>" for k :: marker
  have le: "bf + nb \<le> int (bt_z t)" using bofs_le [of C "n + m"] z(1) by (simp add: bf_def nb_def bofs_add)
  have pos: "1 \<le> bf" "0 \<le> nb" by (simp_all add: bf_def nb_def)
  have mk: "marker_ok t' ?C (f k) \<and> norm_marker t' (f k) = deleted_marker bf (bf + nb) (norm_marker t k)"
    if k: "k \<in> set (b_markers b)" for k
  proof -
    have mok: "marker_ok t C k" using b(1) k by (simp add: buffer_ok_def)
    then obtain c where c: "pos_pair C (c, membpos_to_bytebpos t (mk_membpos k))" by (auto simp: marker_ok_def)
    have v: "valid_membpos_p t (mk_membpos k)" using mok by (simp add: marker_ok_def)
    from marker_deleted_position [OF v pos le z(2) dm t'] pair_delete_pos [OF ok c nm, folded bf_def nb_def]
    show ?thesis by (auto simp: marker_ok_def f_def norm_marker_def deleted_marker_def)
  qed
  have pp: "pos_pair C (b_bufpt b, b_pt b)" "pos_pair C (b_bufbegv b, b_begv b)" "pos_pair C (b_bufzv b, b_zv b)"
    "b_bufbegv b \<le> b_bufpt b" "b_bufpt b \<le> b_bufzv b"
    using b(1) by (auto simp: buffer_ok_def buffer_pairs_ok_def)
  note less = pos_pair_less(1) [OF ok _ add_leD1 [OF nm], folded bf_def]
  have bt: "bf + nb = 1 + int (bofs C (n + m))" by (simp add: bf_def nb_def bofs_add)
  have less2: "bf + nb < y \<longleftrightarrow> 1 + int n + int m < c" "bf + nb = y \<longleftrightarrow> 1 + int n + int m = c" if "pos_pair C (c, y)" for c y
    using pos_pair_less [OF ok that nm] unfolding bt by (simp_all add: add.assoc)
  have ms: "b_markers ?b = map f (b_markers b)"
    by (simp add: buf_deleted_def ZV_after_delete_def PT_after_delete_def JUST_SET_POINT_def adjust_markers_def f_def)
  let ?c = "if b_bufpt b \<le> 1 + int n then b_bufpt b else if b_bufpt b \<le> 1 + int n + int m then 1 + int n else b_bufpt b - int m"
  have pd: "pos_pair ?C (?c, if b_pt b \<le> bf then b_pt b else if b_pt b \<le> bf + nb then bf else b_pt b - nb)"
    using pair_delete_pos [OF ok pp(1) nm, folded bf_def nb_def] by blast
  have sel: "b_pt ?b = (if bf < b_pt b then if b_pt b < bf + nb then bf else b_pt b - nb else b_pt b)"
    "b_bufpt ?b = (if bf < b_pt b then if b_pt b < bf + nb then 1 + int n else b_bufpt b - int m else b_bufpt b)"
    "b_bufbegv ?b = b_bufbegv b" "b_bufzv ?b = b_bufzv b - int m"
    by (simp_all add: buf_deleted_def ZV_after_delete_def PT_after_delete_def JUST_SET_POINT_def adjust_markers_def)
  have pts: "b_pt ?b = (if b_pt b \<le> bf then b_pt b else if b_pt b \<le> bf + nb then bf else b_pt b - nb)"
    unfolding sel(1) by auto
  have ptc: "b_bufpt ?b = ?c"
  proof -
    consider "b_bufpt b \<le> 1 + int n" | "1 + int n < b_bufpt b" "b_bufpt b < 1 + int n + int m"
      | "1 + int n < b_bufpt b" "b_bufpt b = 1 + int n + int m" | "1 + int n + int m < b_bufpt b" by linarith
    then show ?thesis
    proof cases
      case 1
      then have "\<not> bf < b_pt b" using less [OF pp(1)] by simp
      then show ?thesis unfolding sel(2) using 1 by simp
    next
      case 2
      then have "bf < b_pt b" "b_pt b < bf + nb" using less [OF pp(1)] less2 [OF pp(1)] by linarith+
      then show ?thesis unfolding sel(2) using 2 by simp
    next
      case 3
      then have "bf < b_pt b" "\<not> b_pt b < bf + nb" using less [OF pp(1)] less2 [OF pp(1)] by linarith+
      then show ?thesis unfolding sel(2) using 3 by simp
    next
      case 4
      then have "bf < b_pt b" "\<not> b_pt b < bf + nb" using less [OF pp(1)] less2 [OF pp(1)] by linarith+
      then show ?thesis unfolding sel(2) using 4 by simp
    qed
  qed
  have "pos_pair ?C (b_bufpt ?b, b_pt ?b)" unfolding pts ptc by (rule pd)
  moreover have "b_bufbegv ?b \<le> b_bufpt ?b \<and> b_bufpt ?b \<le> b_bufzv ?b"
    unfolding ptc sel(3,4) using pp(4,5) b(2,3) by auto
  ultimately have pt: "pos_pair ?C (b_bufpt ?b, b_pt ?b) \<and> b_bufbegv ?b \<le> b_bufpt ?b \<and> b_bufpt ?b \<le> b_bufzv ?b" by simp
  have "b_begv b \<le> bf" using less [OF pp(2)] b(2) by linarith
  then have begv: "pos_pair ?C (b_bufbegv ?b, b_begv ?b)"
    using pair_delete_pos [OF ok pp(2) nm, folded bf_def nb_def] b(2)
    by (auto simp: buf_deleted_def ZV_after_delete_def PT_after_delete_def JUST_SET_POINT_def adjust_markers_def split: if_splits)
  have zv_sel: "b_bufzv ?b = b_bufzv b - int m" "b_zv ?b = b_zv b - nb"
    by (simp_all add: buf_deleted_def ZV_after_delete_def PT_after_delete_def JUST_SET_POINT_def adjust_markers_def)
  have zv: "pos_pair ?C (b_bufzv ?b, b_zv ?b)"
  proof (cases "b_bufzv b = 1 + int n + int m")
    case True
    have "pos_pair C (1 + int n, bf)" using nm char_to_byte_bofs [of C n] by (simp add: pos_pair_def bf_def)
    from pair_delete_pos [OF ok this nm, folded bf_def nb_def] have "pos_pair ?C (1 + int n, bf)" by simp
    moreover have "b_zv b - nb = bf" "b_bufzv b - int m = 1 + int n" using less2(2) [OF pp(3)] True by linarith+
    ultimately show ?thesis unfolding zv_sel by simp
  next
    case False
    then have "1 + int n + int m < b_bufzv b" "bf + nb < b_zv b" using b(3) less2(1) [OF pp(3)] by linarith+
    then show ?thesis using pair_delete_pos [OF ok pp(3) nm, folded bf_def nb_def] pos(2) unfolding zv_sel by auto
  qed
  have "\<forall>k\<in>set (b_markers ?b). marker_ok t' ?C k" unfolding ms using mk by simp
  with pt begv zv show "buffer_ok t' ?C ?b" by (simp add: buffer_ok_def buffer_pairs_ok_def)
  have "map (norm_marker t') (b_markers ?b) = map (deleted_marker bf (bf + nb)) (b_markers (norm_buf t b))"
    unfolding ms using mk by (simp add: norm_buf_def)
  then show "norm_buf t' ?b = deleted_buf (1 + int n) (int m) bf nb (norm_buf t b)"
    by (simp add: norm_buf_def deleted_buf_def) (simp add: buf_deleted_def PT_after_delete_def JUST_SET_POINT_def
        ZV_after_delete_def adjust_markers_def)
qed

section \<open>The whole deletion\<close>

text \<open>
  The deletion of \<open>m\<close> characters from index \<open>n\<close>, \<open>s\<close> being their bytes, \<open>k\<close> the index of the first
  byte and \<open>asc\<close> the number of ASCII characters among them.
\<close>

definition delete_spec :: "nat \<Rightarrow> nat \<Rightarrow> nat \<Rightarrow> nat \<Rightarrow> byte list \<Rightarrow> nat \<Rightarrow> ed \<Rightarrow> ed" where
  "delete_spec i n m k s asc a =
     (let frm = 1 + int n; till = frm + int m; bf = 1 + int k; nb = int (length s);
          a = all_bufs (delete_recorded s frm (int m)) (before_change frm till a);
          a = newline_noted i s a;
          a = upd_bufs (deleted_buf frm (int m) bf nb) (upd_text (deleted_text k m (length s) asc) a)
      in after_change frm till frm bf bf a)"

lemma norm_newline_noted:
  assumes "i < length (ed_bufs st)"
  shows "norm (newline_noted i s st) = newline_noted i s (norm st)"
proof -
  have "b_newline_was_deleted (ed_bufs (norm st) ! i) = b_newline_was_deleted (ed_bufs st ! i)"
    using assms by (simp add: norm_def norm_buf_def)
  moreover have "norm (upd_bufs (\<lambda>b. b\<lparr>b_newline_was_deleted := True\<rparr>) st) = upd_bufs (\<lambda>b. b\<lparr>b_newline_was_deleted := True\<rparr>) (norm st)"
    by (simp add: norm_def upd_bufs_def norm_buf_def)
  ultimately show ?thesis by (simp add: newline_noted_def)
qed

lemma recorded_deletes:
  "norm (all_bufs (delete_recorded s beg len) st) = all_bufs (delete_recorded s beg len) (norm st)"
  "but_undo (all_bufs (delete_recorded s beg len) st) = but_undo st"
  by (rule norm_all_bufs, simp_all add: norm_recorded but_undo_sel(2) [OF but_undo_recorded(2)] but_undo_all_bufs but_undo_recorded)

lemma delete_at_gap_ok:
  assumes rep: "ed_rep st C" and q: "quiet st" and i: "i < length (ed_bufs st)" and nm: "n + m \<le> length C" "0 < m"
    and at: "gap_brought st C n m dm" and ed: "editable st (1 + int n) (1 + int n + int m)"
  defines "k \<equiv> bofs C n" and "s \<equiv> deleted_bytes C n m" and "asc \<equiv> length (filter ascii_char (take m (drop n C)))"
  shows "\<exists>st'. delete_at_gap i dm (1 + int n) (1 + int n + int m) (1 + int k) (1 + int (bofs C (n + m))) st = Some (Inr (), st') \<and>
    ed_rep st' (list_delete C n m) \<and> quiet st' \<and> block_size (ed_text st') = block_size (ed_text st) \<and>
    norm st' = upd_bufs (deleted_buf (1 + int n) (int m) (1 + int k) (int (length s)))
      (upd_text (deleted_text k m (length s) asc)
        (newline_noted i s (all_bufs (delete_recorded s (1 + int n) (int m)) (norm st)))) \<and>
    bt_in_multiple_change (ed_text st') = 0"
proof -
  let ?frm = "1 + int n" and ?till = "1 + int n + int m" and ?bf = "1 + int k" and ?bt = "1 + int (bofs C (n + m))"
  let ?C = "list_delete C n m" and ?nb = "length s"
  have ok: "chars_ok C" by (rule ed_rep_chars_ok [OF rep])
  have bt: "?bt = ?bf + int ?nb" by (simp add: k_def s_def bofs_add)
  define a where "a = all_bufs (delete_recorded s ?frm (int m)) st"
  note bu = but_undo_sel [OF recorded_deletes(2) [of s ?frm "int m" st, folded a_def]]
  obtain st1 where 1: "map_indirect_buffers (record_delete ?frm (int m)) st = Some (Inr (), st1)" "cached C a st1"
    using record_delete_all [OF rep nm(1) ed] unfolding a_def s_def by blast
  note c1 = cached_ok [OF 1(2)]
  define st2 where "st2 = upd_text (\<lambda>t. t\<lparr>bt_modiff := bt_modiff t + 1\<rparr>) st1"
  obtain L g R eg where lay: "bt_layout (ed_text st) L g R eg" "C = L @ R"
    and LR: "if dm then n \<le> length L \<and> length L \<le> n + m else n + m = length C \<and> length L < n"
    using at by (auto simp: gap_brought_def)
  have rep1: "ed_rep st1 C" using c1(3) bu(7) rep by simp
  obtain t1 where t1: "st1 = a\<lparr>ed_text := t1\<rparr>" "same_but_caches (ed_text st) t1" "caches_ok t1 C"
    using 1(2) bu(1) by (auto simp: cached_def)
  have lay1: "bt_layout t1 L g R eg" using same_but_caches_norm(4) [OF t1(2)] lay(1) by simp
  let ?t2 = "t1\<lparr>bt_modiff := bt_modiff t1 + 1\<rparr>"
  have st2: "st2 = a\<lparr>ed_text := ?t2\<rparr>" by (simp add: st2_def upd_text_def t1(1))
  have rep2: "ed_rep st2 C"
  proof (rule ed_repI)
    show "bt_layout (ed_text st2) L g R eg" using lay1 by (simp add: st2 bt_layout_def)
    show "C = L @ R" by (rule lay(2))
    have "buffer_ok ?t2 C = buffer_ok t1 C"
      by (simp add: fun_eq_iff buffer_ok_def marker_ok_def valid_membpos_p_def membpos_to_bytebpos_def)
    then show "buffer_ok (ed_text st2) C b" if "b \<in> set (ed_bufs st2)" for b
      using rep1 that by (simp add: ed_rep_def t1(1) st2)
  qed (use rep1 in \<open>simp_all add: ed_rep_def st2 t1(1) caches_ok_def\<close>)
  have q2: "quiet st2" using q bu(3,4) by (simp add: st2 quiet_def)
  have i2: "i < length (ed_bufs st2)" using i bu(2) by (simp add: st2)
  have ed2: "editable a ?frm ?till" using ed bu(11) by simp
  have zv: "?till \<le> b_bufzv (ed_bufs st2 ! i)" using ed2 i2 by (simp add: editable_def st2)
  from note_deleted_newline_ok [OF rep2 q2 i2 nm(1) zv, folded s_def] obtain t3 qs where
    3: "note_deleted_newline i ?frm ?till st2 = Some (Inr (), (newline_noted i s st2)\<lparr>ed_text := t3, ed_quit := qs\<rparr>)"
      "same_but_caches ?t2 t3" "caches_ok t3 C" "ed_inhibit_quit st2 \<or> True \<notin> set qs" by (auto simp: st2)
  define t where "t = t3\<lparr>bt_modiff := bt_modiff t1\<rparr>"
  have tt: "same_but_caches t1 t" using 3(2) by (cases t1; cases t3) (simp add: t_def same_but_caches_def)
  have t3: "t3 = t\<lparr>bt_modiff := bt_modiff t + 1\<rparr>" using same_but_caches_sel(8) [OF 3(2)] by (simp add: t_def)
  have tst: "same_but_caches (ed_text st) t" by (rule same_but_caches_trans [OF t1(2) tt])
  note sn = same_but_caches_norm [OF tst] and sel = same_but_caches_sel [OF tst]
  have layt: "bt_layout t L g R eg" using sn(4) lay(1) by simp
  have cat: "caches_ok t C" using 3(3) by (simp add: t_def caches_ok_def)
  let ?t' = "text_deleted dm n m k ?nb asc t3"
  note td = text_deleted_ok [OF layt lay(2) nm LR cat, of asc, folded k_def s_def t3]
  let ?F = "buf_deleted (int (bt_gap_size t)) dm ?frm (int m) ?bf (int ?nb)"
  let ?x = "newline_noted i s a"
  let ?st' = "?x\<lparr>ed_text := ?t', ed_quit := qs, ed_bufs := map ?F (ed_bufs ?x)\<rparr>"
  have unc: "uncount_ascii t3 ?bf ?bt (bt_num_ascii_chars t3) = Some (bt_num_ascii_chars t3 - int asc)"
  proof -
    have "bt_layout t3 L g R eg" using layt by (simp add: t3 bt_layout_def)
    from uncount_ascii_correct [OF this lay(2) nm(1)] show ?thesis unfolding k_def asc_def by blast
  qed
  have nx: "newline_noted i s st2 = ?x\<lparr>ed_text := ?t2\<rparr>" by (simp add: newline_noted_def st2 upd_bufs_def)
  have gapt: "bt_gap_size t3 = bt_gap_size t" by (simp add: t3)
  have nats: "nat ?frm = 1 + n" "nat ?bf = 1 + k" "nat (int ?nb) = ?nb" "nat (int m) = m" by linarith+
  have Fdef: "?F = (\<lambda>b. ZV_after_delete (int m) (int ?nb) (PT_after_delete ?frm (int m) ?bf (int ?nb)
       (adjust_markers (?bt + int (bt_gap_size t)) (?bt + int (bt_gap_size t))
         (- int ?nb - (if dm then int (bt_gap_size t) else 0)) b)))"
    by (simp add: fun_eq_iff buf_deleted_def bt)
  have dd: "?till - ?frm = int m" "?bt - ?bf = int ?nb" using bt by linarith+
  have eq: "delete_at_gap i dm ?frm ?till ?bf ?bt st = Some (Inr (), ?st')"
  proof -
    have "apply_deletion dm ?frm ?till ?bf ?bt (bt_num_ascii_chars t3 - int asc) (?x\<lparr>ed_text := t3, ed_quit := qs\<rparr>) = ?st'"
      unfolding apply_deletion_def Let_def dd nats Fdef text_deleted_def bt
      by (simp add: upd_text_def upd_bufs_def gapt comp_def)
    then show ?thesis using 1(1) 3(1) unc by (simp add: delete_at_gap_def ebind_def Let_def st2_def [symmetric] nx dd)
  qed
  have bufs: "buffer_ok t C b \<and> b_bufbegv b \<le> ?frm \<and> ?till \<le> b_bufzv b" if b: "b \<in> set (ed_bufs ?x)" for b
  proof -
    obtain b0 v where b0: "b0 \<in> set (ed_bufs a)" "b = b0\<lparr>b_newline_was_deleted := v\<rparr>"
    proof (cases "\<not> b_newline_was_deleted (ed_bufs a ! i) \<and> 0x0A \<in> set s")
      case True
      then show ?thesis using b that [of _ True] by (auto simp: newline_noted_def upd_bufs_def)
    next
      case False
      then have "b \<in> set (ed_bufs a)" using b by (auto simp: newline_noted_def)
      then show ?thesis using that [of b "b_newline_was_deleted b"] by simp
    qed
    have "ed_rep a C" using rep bu(7) by simp
    then have "buffer_ok (ed_text st) C b0" using b0(1) bu(1) by (simp add: ed_rep_def)
    then have "buffer_ok t C b0" by (simp add: buffer_ok_def marker_ok_def sn(2,3))
    then show ?thesis using ed2 b0 by (auto simp: editable_def buffer_ok_def buffer_pairs_ok_def)
  qed
  have z: "int (bt_z t) = 1 + int (length (concat C))" "int (bt_gpt t) \<le> int (bt_z t)" "int (bt_gpt t) = 1 + int (bofs C (length L))"
    using layt lay(2) by (simp_all add: bt_layout_def bofs_append bofs_all)
  have dmc: "if dm then ?bf \<le> int (bt_gpt t) \<and> int (bt_gpt t) \<le> ?bf + int ?nb else ?bf + int ?nb = int (bt_z t) \<and> int (bt_gpt t) < ?bf"
  proof (cases dm)
    case True
    then have "n \<le> length L" "length L \<le> n + m" "length L \<le> length C" using LR lay(2) by auto
    then have "bofs C n \<le> bofs C (length L)" "bofs C (length L) \<le> bofs C n + ?nb"
      using bofs_mono [OF ok, of n "length L"] bofs_mono [OF ok, of "length L" "n + m"] nm bofs_add [of C n m, folded s_def]
      by linarith+
    then show ?thesis using True unfolding z(3) k_def by simp
  next
    case False
    then have "n + m = length C" "length L < n" using LR by auto
    then have "bofs C (length L) < bofs C n" "bofs C n + ?nb = length (concat C)"
      using bofs_less [OF ok, of "length L" n] nm bofs_all [of C "n + m"] bofs_add [of C n m, folded s_def] by simp_all
    then show ?thesis using False unfolding z(3) z(1) k_def by simp
  qed
  have nbz: "?nb \<le> bt_z t" using z(1) bofs_le [of C "n + m"] by (simp add: s_def bofs_add)
  have t'sel: "int (bt_gpt ?t') = (if dm then ?bf else int (bt_gpt t))" "int (bt_z ?t') = int (bt_z t) - int ?nb"
      "int (bt_gap_size ?t') = int (bt_gap_size t) + (if dm then int ?nb else 0)"
    using nbz by (simp_all add: text_deleted_def entirely_one_byte_def buffer_mule_signal_deleted_region_def widen_gap_def
        SET_GAP_SENTINEL_def SET_BOTH_BUF_GPT_def Let_def split_beta t3 of_nat_diff)
  have bd: "buffer_ok ?t' ?C (?F b) \<and> norm_buf ?t' (?F b) = deleted_buf ?frm (int m) ?bf (int ?nb) (norm_buf t b)"
    if "b \<in> set (ed_bufs ?x)" for b
    using buf_deleted_ok [OF _ _ _ ok nm(1) z(1,2) _ _ dmc t'sel] bufs [OF that] unfolding k_def s_def by blast
  obtain L' g' R' eg' where lay': "bt_layout ?t' L' g' R' eg'" "L' @ R' = ?C" using td(3) by blast
  have rep': "ed_rep ?st' ?C"
  proof (rule ed_repI)
    show "bt_layout (ed_text ?st') L' g' R' eg'" using lay'(1) by simp
    show "?C = L' @ R'" using lay'(2) by simp
    show "caches_ok (ed_text ?st') ?C" using td(1) by simp
    show "bt_entirely_one_byte_p (ed_text ?st') = (bt_bufz (ed_text ?st') = bt_z (ed_text ?st'))"
      by (simp add: text_deleted_def entirely_one_byte_def)
    have C: "C = take n C @ take m (drop n C) @ drop (n + m) C"
      by (metis append_take_drop_id drop_drop add.commute)
    have "length (filter ascii_char C) = length (filter ascii_char (take n C)) + asc + length (filter ascii_char (drop (n + m) C))"
      unfolding asc_def by (subst C) simp
    then show "bt_num_ascii_chars (ed_text ?st') = int (length (filter ascii_char ?C))"
      using rep sel(11) by (simp add: text_deleted_def entirely_one_byte_def buffer_mule_signal_deleted_region_def widen_gap_def
        SET_GAP_SENTINEL_def SET_BOTH_BUF_GPT_def Let_def split_beta t3 ed_rep_def list_delete_def)
  qed (use bd in auto)
  have nta: "norm_text t = norm_text (ed_text a)" using sn(1) bu(1) by simp
  have nba: "norm_buf t = norm_buf (ed_text a)" using norm_buf_cong [OF sn(2)] bu(1) by simp
  have "ed_text ?x = ed_text a" by (simp add: newline_noted_def upd_bufs_def)
  then have "norm ?st' = upd_bufs (deleted_buf ?frm (int m) ?bf (int ?nb)) (upd_text (deleted_text k m ?nb asc) (norm ?x))"
    using bd td(2) nta nba by (simp add: norm_def upd_bufs_def upd_text_def)
  also have "norm ?x = newline_noted i s (all_bufs (delete_recorded s ?frm (int m)) (norm st))"
    using norm_newline_noted [of i a s] i bu(2) recorded_deletes(1) by (simp add: a_def)
  finally have nst: "norm ?st' = upd_bufs (deleted_buf ?frm (int m) ?bf (int ?nb)) (upd_text (deleted_text k m ?nb asc)
      (newline_noted i s (all_bufs (delete_recorded s ?frm (int m)) (norm st))))" .
  have "quiet ?st'" using 3(4) bu(4) by (simp add: quiet_def st2 newline_noted_def upd_bufs_def)
  moreover have "block_size ?t' = block_size (ed_text st)" using td(4) sn(5) by simp
  moreover have "bt_in_multiple_change ?t' = 0" using ed sel(12)
    by (simp add: editable_def text_deleted_def entirely_one_byte_def buffer_mule_signal_deleted_region_def widen_gap_def
        SET_GAP_SENTINEL_def SET_BOTH_BUF_GPT_def Let_def split_beta t3)
  ultimately show ?thesis using eq rep' nst by auto
qed

lemma clip_range_editable:
  assumes "editable st (1 + int n) (1 + int n + int m)" "i < length (ed_bufs st)"
  shows "clip_range (ed_bufs st ! i) (1 + int n) (1 + int n + int m) = (1 + int n, 1 + int n + int m)" "b_live (ed_bufs st ! i)"
proof -
  have "b_bufbegv (ed_bufs st ! i) \<le> 1 + int n" "1 + int n + int m \<le> b_bufzv (ed_bufs st ! i)" "b_live (ed_bufs st ! i)"
    using assms by (simp_all add: editable_def)
  then show "clip_range (ed_bufs st ! i) (1 + int n) (1 + int n + int m) = (1 + int n, 1 + int n + int m)"
    "b_live (ed_bufs st ! i)" by (simp_all add: clip_range_def)
qed

lemma editable_norm: "editable (norm st) = editable st"
  by (simp add: fun_eq_iff editable_def norm_def norm_text_def norm_buf_def)

lemma delete_refines:
  assumes rep: "ed_rep st C" and q: "quiet st" "ed_small st" and i: "i < length (ed_bufs st)"
    and nm: "n + m \<le> length C" "0 < m" and ed: "editable st (1 + int n) (1 + int n + int m)"
  shows "\<exists>st'. buffer_delete_range i (1 + int n) (1 + int n + int m) st = Some (Inr (), st') \<and>
    ed_rep st' (list_delete C n m) \<and> quiet st' \<and> ed_small st' \<and>
    norm st' = delete_spec i n m (bofs C n) (deleted_bytes C n m) (length (filter ascii_char (take m (drop n C)))) (norm st)"
proof -
  let ?frm = "1 + int n" and ?till = "1 + int n + int m" and ?bf = "1 + int (bofs C n)" and ?bt = "1 + int (bofs C (n + m))"
  let ?C = "list_delete C n m" and ?s = "deleted_bytes C n m" and ?asc = "length (filter ascii_char (take m (drop n C)))"
  obtain st1 where 1: "prepare_to_modify_buffer i ?frm ?till st = Some (Inr (), st1)" "cached C (before_change ?frm ?till st) st1"
    using prepare_to_modify_buffer_ok [OF rep ed i] by blast
  note c1 = cached_ok [OF 1(2)] and b1 = before_change_rep [OF rep, of ?frm ?till]
  have rep1: "ed_rep st1 C" using c1(3) b1(1) by simp
  have ed1: "editable st1 ?frm ?till" using editable_cached [OF 1(2)] b1(6) ed by simp
  have i1: "i < length (ed_bufs st1)" using i c1(2) b1(5) by simp
  have e: "?till = 1 + int (n + m)" by simp
  have r: "1 \<le> ?frm" "?frm \<le> 1 + int (length C)" "1 \<le> ?till" "?till \<le> 1 + int (length C)" using nm by simp_all
  obtain st2 where 2: "ed_charbpos_to_bytebpos i ?frm st1 = Some (Inr ?bf, st2)" "cached C st1 st2"
    using ed_charbpos_to_bytebpos_ok [OF rep1 i1 r(1,2)] unfolding char_to_byte_bofs by blast
  note c2 = cached_ok [OF 2(2)]
  have i2: "i < length (ed_bufs st2)" using i1 c2(2) by simp
  obtain st3 where 3: "ed_charbpos_to_bytebpos i ?till st2 = Some (Inr ?bt, st3)" "cached C st2 st3"
    using ed_charbpos_to_bytebpos_ok [OF c2(3) [OF rep1] i2 r(3,4)] unfolding e char_to_byte_bofs by blast
  note c3 = cached_ok [OF cached_trans [OF 2(2) 3(2)]]
  have 33: "ed_rep st3 C" "quiet st3" "ed_small st3" "norm st3 = before_change ?frm ?till (norm st)" "editable st3 ?frm ?till"
    "length (ed_bufs st3) = length (ed_bufs st1)" "block_size (ed_text st3) = block_size (ed_text st)"
    using c3 rep1 q c1 b1 ed1 editable_cached [OF cached_trans [OF 2(2) 3(2)]] by simp_all
  obtain st4 dm where 4: "bring_gap i ?frm ?till ?bf ?bt st3 = Some (Inr dm, st4)" "same_norm C st3 st4"
    "block_size (ed_text st4) = block_size (ed_text st3)" "gap_brought st4 C n m dm"
    using bring_gap_ok [OF 33(1-3) nm(1), of i] by blast
  note s4 = same_norm_sel [OF 4(2)]
  have ed4: "editable st4 ?frm ?till" using editable_norm [of st4] editable_norm [of st3] s4(7) 33(5) by simp
  have i4: "i < length (ed_bufs st4)" using i1 33(6) s4(3) by simp
  obtain st5 where 5: "delete_at_gap i dm ?frm ?till ?bf ?bt st4 = Some (Inr (), st5)" "ed_rep st5 ?C" "quiet st5"
    "block_size (ed_text st5) = block_size (ed_text st4)" "bt_in_multiple_change (ed_text st5) = 0"
    "norm st5 = upd_bufs (deleted_buf ?frm (int m) ?bf (int (length ?s))) (upd_text (deleted_text (bofs C n) m (length ?s) ?asc)
        (newline_noted i ?s (all_bufs (delete_recorded ?s ?frm (int m)) (norm st4))))"
    using delete_at_gap_ok [OF s4(5,6) i4 nm 4(4) ed4] by blast
  have i5: "i < length (ed_bufs st5)"
  proof -
    have "length (ed_bufs (norm st5)) = length (ed_bufs (norm st4))"
      using but_undo_sel(2) [OF recorded_deletes(2)] unfolding 5(6) by (simp add: upd_bufs_def upd_text_def newline_noted_def)
    then show ?thesis using i4 by (simp add: norm_fields)
  qed
  have ctb: "char_to_byte ?C ?frm = ?bf" using bofs_list_delete(1) [OF nm(1) order.refl] by (simp add: char_to_byte_def)
  have r5: "1 \<le> ?frm" "?frm \<le> 1 + int (length ?C)" using nm by simp_all
  obtain st6 where 6: "signal_after_change i ?frm ?till ?frm st5 = Some (Inr (), st6)"
    "cached ?C (after_change ?frm ?till ?frm ?bf ?bf st5) st6"
    using signal_after_change_ok [OF 5(2) i5 r5 r5 5(5), of ?till] unfolding ctb by blast
  note c6 = cached_ok [OF 6(2)] and ac = after_change_rep [OF 5(2)]
  have pos: "\<not> ?till - ?frm \<le> 0" using nm(2) by simp
  have "buffer_delete_range i ?frm ?till st = Some (Inr (), st6)"
    unfolding buffer_delete_range_def
    using clip_range_editable [OF ed i] clip_range_editable [OF ed1 i1] 1(1) 2(1) 3(1) 4(1) 5(1) 6(1) nm(2)
    by (simp add: ebind_def)
  moreover have "norm st6 = delete_spec i n m (bofs C n) ?s ?asc (norm st)"
    using c6(1) ac(2) 5(6) s4(7) 33(4) by (simp add: delete_spec_def Let_def)
  moreover have "ed_rep st6 ?C" "quiet st6" using c6(3,4) ac(1,3) 5(3) by simp_all
  moreover have "ed_small st6" using c6(7) ac(5) 5(4) 4(3) 33(7) q(2) by (simp add: ed_small_def)
  ultimately show ?thesis by blast
qed

text \<open>C2: deleting a range of a buffer that is editable (inside the restriction and not read-only), while no multiple change
  is under way, no quit is pending and the text is smaller than \<open>2 ^ 30\<close> bytes: the characters of the range are gone from the text, and the state is
  the specified one: hooks before and after, the deleted text in the undo lists, newline flags,
  markers, points, restrictions, counts; whether the gap is moved or the end gap widened.\<close>

theorem buffer_delete_range_correct:
  assumes "ed_rep st C" "quiet st" "ed_small st" "i < length (ed_bufs st)"
    and "n + m \<le> length C" "0 < m" "editable st (1 + int n) (1 + int n + int m)"
  shows "\<exists>st'. buffer_delete_range i (1 + int n) (1 + int n + int m) st = Some (Inr (), st') \<and>
    ed_rep st' (list_delete C n m) \<and> quiet st' \<and> ed_small st' \<and>
    norm st' = delete_spec i n m (bofs C n) (deleted_bytes C n m) (length (filter ascii_char (take m (drop n C)))) (norm st)"
  using assms by (rule delete_refines)

theorem buffer_delete_range_correct_witness:
  "\<exists>st'. buffer_delete_range 0 2 4 sample_ed = Some (Inr (), st') \<and> ed_rep st' [[0x61], [0x62]]"
proof -
  have "editable sample_ed (1 + int 1) (1 + int 1 + int 2)"
    by (simp add: editable_def sample_ed_def sample_text_def sample_buffer_def)
  from buffer_delete_range_correct [OF sample_rep, of 0 1 2, OF _ _ _ this] obtain st' where
    "buffer_delete_range 0 2 4 sample_ed = Some (Inr (), st')" "ed_rep st' (list_delete sample_chars 1 2)"
    by (auto simp: sample_ed_def sample_chars_def)
  then show ?thesis by (auto simp: list_delete_def sample_chars_def)
qed

end
