(* ===== verification/Buffer_Frame.thy ===== *)
theory Buffer_Frame
  imports Buffer_Delete
begin

text \<open>
  What the specified insertions and deletions keep of the restrictions and flags of the buffers, and the
  two edits on a text whose buffers have one restriction in common: there they always succeed.
\<close>

text \<open>All buffers are restricted to \<open>lo\<close> up to \<open>hi\<close> and can be changed; no multiple change is going on.\<close>

definition uniform :: "int \<Rightarrow> int \<Rightarrow> ed \<Rightarrow> bool" where
  "uniform lo hi st \<longleftrightarrow> bt_in_multiple_change (ed_text st) = 0 \<and>
     (\<forall>b\<in>set (ed_bufs st). b_live b \<and> b_bufbegv b = lo \<and> b_bufzv b = hi \<and>
        (b_read_only b \<longrightarrow> ed_inhibit_read_only st))"

lemma uniform_norm: "uniform lo hi (norm st) = uniform lo hi st"
  by (simp add: uniform_def norm_def norm_text_def norm_buf_def)

lemma ed_rep_bufz: "ed_rep st C \<Longrightarrow> bt_bufz (ed_text st) = 1 + length C \<and> bt_z (ed_text st) = 1 + length (concat C)"
  by (auto simp: ed_rep_def bt_layout_def)

lemma uniform_editable: "uniform lo hi st \<Longrightarrow> lo \<le> x \<Longrightarrow> x \<le> y \<Longrightarrow> y \<le> hi \<Longrightarrow> editable st x y"
  by (auto simp: editable_def uniform_def)

lemma uniform_but_undo:
  assumes "but_undo st' = but_undo st"
  shows "uniform lo hi st' = uniform lo hi st"
proof -
  have b: "map (\<lambda>b. b\<lparr>b_undo_list := U_t\<rparr>) (ed_bufs st') = map (\<lambda>b. b\<lparr>b_undo_list := U_t\<rparr>) (ed_bufs st)"
    using assms unfolding but_undo_def by (cases st; cases st'; simp)
  have all: "(\<forall>b\<in>set (ed_bufs st'). P b) \<longleftrightarrow> (\<forall>b\<in>set (ed_bufs st). P b)" if "\<And>b. P (b\<lparr>b_undo_list := U_t\<rparr>) = P b" for P
    using arg_cong [OF b, of "\<lambda>bs. \<forall>b\<in>set bs. P b"] that by simp
  show ?thesis using but_undo_sel [OF assms] by (simp add: uniform_def all)
qed

lemma uniform_upd_buf:
  assumes "\<And>b. b_live (f b) = b_live b" "\<And>b. b_bufbegv (f b) = b_bufbegv b" "\<And>b. b_bufzv (f b) = b_bufzv b"
    "\<And>b. b_read_only (f b) = b_read_only b"
  shows "uniform lo hi st \<Longrightarrow> uniform lo hi (upd_buf i f st)" "uniform lo hi (upd_bufs f st) = uniform lo hi st"
proof -
  show "uniform lo hi (upd_bufs f st) = uniform lo hi st" by (simp add: uniform_def upd_bufs_def assms)
  assume w: "uniform lo hi st"
  show "uniform lo hi (upd_buf i f st)"
  proof (cases "i < length (ed_bufs st)")
    case True
    then have "ed_bufs st ! i \<in> set (ed_bufs st)" by simp
    with w show ?thesis by (auto simp: uniform_def upd_buf_def assms dest!: set_update_subset_insert [THEN subsetD])
  qed (use w in \<open>simp add: upd_buf_def list_update_beyond\<close>)
qed

lemma changed_region_sel: "b_live (buffer_signal_changed_region t x y b) = b_live b"
    "b_bufbegv (buffer_signal_changed_region t x y b) = b_bufbegv b" "b_bufzv (buffer_signal_changed_region t x y b) = b_bufzv b"
    "b_read_only (buffer_signal_changed_region t x y b) = b_read_only b"
    "b_undo_list (buffer_signal_changed_region t x y b) = b_undo_list b"
    "b_modtime (buffer_signal_changed_region t x y b) = b_modtime b"
    "b_bufpt (buffer_signal_changed_region t x y b) = b_bufpt b"
  by (simp_all add: buffer_signal_changed_region_def Let_def)

lemma uniform_after_change: "uniform lo hi (after_change x y z u v st) = uniform lo hi st"
proof -
  have "uniform lo hi (call_hooks h st') = uniform lo hi st'" for h st' by (simp add: uniform_def call_hooks_def)
  then show ?thesis by (simp add: after_change_def uniform_upd_buf changed_region_sel)
qed

lemma uniform_before_change: "uniform lo hi (before_change x y st) = uniform lo hi st"
  by (simp add: before_change_def uniform_def call_hooks_def upd_text_def Let_def)

lemma point_set_sel: "b_live (point_set x y b) = b_live b" "b_bufbegv (point_set x y b) = b_bufbegv b"
    "b_bufzv (point_set x y b) = b_bufzv b" "b_read_only (point_set x y b) = b_read_only b"
    "b_undo_list (point_set x y b) = b_undo_list b" "b_modtime (point_set x y b) = b_modtime b"
  by (simp_all add: point_set_def set_marker_membpos_def JUST_SET_POINT_def)

lemma uniform_insert_spec:
  assumes "uniform lo hi a"
  shows "uniform lo (hi + int (length S)) (insert_spec i n k S mp before a)"
proof -
  let ?a = "all_bufs (insert_recorded (1 + int n) (int (length S))) (before_change (1 + int n) (1 + int n) a)"
  have "uniform lo hi ?a" using assms uniform_but_undo [OF recorded_inserts(2)] by (simp add: uniform_before_change)
  then have "uniform lo (hi + int (length S)) (upd_bufs (inserted_buf bp (int (length S)) ln) (upd_text (inserted_text k S) ?a))" for bp ln
    by (auto simp: uniform_def upd_bufs_def upd_text_def inserted_text_def inserted_buf_def PT_after_insert_def
        ZV_after_insert_def JUST_SET_POINT_def Let_def)
  then show ?thesis
    by (simp add: insert_spec_def Let_def uniform_after_change uniform_upd_buf point_set_sel before_markers_def)
qed

lemma uniform_delete_spec:
  assumes "uniform lo hi a"
  shows "uniform lo (hi - int m) (delete_spec i n m k s asc a)"
proof -
  let ?a = "all_bufs (delete_recorded s (1 + int n) (int m)) (before_change (1 + int n) (1 + int n + int m) a)"
  have w: "uniform lo hi ?a" using assms uniform_but_undo [OF recorded_deletes(2)] by (simp add: uniform_before_change)
  let ?b = "newline_noted i s ?a"
  have "uniform lo hi ?b" using w by (simp add: newline_noted_def uniform_upd_buf)
  then have "uniform lo (hi - int m) (upd_bufs (deleted_buf (1 + int n) (int m) bf nb) (upd_text (deleted_text k m l asc) ?b))" for bf nb l
    by (auto simp: uniform_def upd_bufs_def upd_text_def deleted_text_def deleted_buf_def PT_after_delete_def
        ZV_after_delete_def JUST_SET_POINT_def Let_def)
  then show ?thesis by (simp add: delete_spec_def Let_def uniform_after_change)
qed

text \<open>A text open for edits between \<open>lo\<close> and \<open>hi\<close>; without a restriction, these are its ends.\<close>

definition open_ed :: "ed \<Rightarrow> ichar list \<Rightarrow> int \<Rightarrow> int \<Rightarrow> bool" where
  "open_ed st C lo hi \<longleftrightarrow> ed_rep st C \<and> quiet st \<and> ed_small st \<and> uniform lo hi st"

lemma open_insert:
  assumes st: "open_ed st C lo hi" and i: "i < length (ed_bufs st)" and n: "n \<le> length C" "lo \<le> 1 + int n" "1 + int n \<le> hi"
    and S: "chars_ok S" and z: "length (concat C) + length (concat S) < 2 ^ 30"
    and pos: "pos = 1 + int n \<or> pos = - 1 \<and> b_bufpt (ed_bufs st ! i) = 1 + int n"
  shows "\<exists>st'. buffer_insert_string_1 i pos (concat S) (- 1) before st = Some (Inr (int (length S)), st') \<and>
    open_ed st' (list_insert C n S) lo (hi + int (length S)) \<and>
    norm st' = insert_spec i n (bofs C n) S (pos = - 1) before (norm st)"
proof -
  note s = st [unfolded open_ed_def]
  have z': "bt_z (ed_text st) + length (concat S) \<le> 2 ^ 30" using ed_rep_bufz [of st C] s z by simp
  have ed: "editable st (1 + int n) (1 + int n)" using uniform_editable s n by blast
  from insert_refines [OF _ _ _ i n(1) S z' ed pos] s obtain st' where
    1: "buffer_insert_string_1 i pos (concat S) (- 1) before st = Some (Inr (int (length S)), st')"
      "ed_rep st' (list_insert C n S)" "quiet st'" "ed_small st'"
      "norm st' = insert_spec i n (bofs C n) S (pos = - 1) before (norm st)" by blast
  have "uniform lo (hi + int (length S)) (norm st')" unfolding 1(5) by (rule uniform_insert_spec) (use s in \<open>simp add: uniform_norm\<close>)
  then have "uniform lo (hi + int (length S)) st'" by (simp add: uniform_norm)
  with 1 show ?thesis by (simp add: open_ed_def)
qed

lemma open_delete:
  assumes st: "open_ed st C lo hi" and i: "i < length (ed_bufs st)" and n: "n + m \<le> length C" "0 < m"
    and range: "lo \<le> 1 + int n" "1 + int n + int m \<le> hi"
  shows "\<exists>st'. buffer_delete_range i (1 + int n) (1 + int n + int m) st = Some (Inr (), st') \<and>
    open_ed st' (list_delete C n m) lo (hi - int m) \<and>
    norm st' = delete_spec i n m (bofs C n) (deleted_bytes C n m) (length (filter ascii_char (take m (drop n C)))) (norm st)"
proof -
  note s = st [unfolded open_ed_def]
  have ed: "editable st (1 + int n) (1 + int n + int m)" using uniform_editable [of lo hi st] s range by auto
  from delete_refines [OF _ _ _ i n ed] s obtain st' where
    1: "buffer_delete_range i (1 + int n) (1 + int n + int m) st = Some (Inr (), st')"
      "ed_rep st' (list_delete C n m)" "quiet st'" "ed_small st'"
      "norm st' = delete_spec i n m (bofs C n) (deleted_bytes C n m) (length (filter ascii_char (take m (drop n C)))) (norm st)"
    by blast
  have "uniform lo (hi - int m) (norm st')" unfolding 1(5) by (rule uniform_delete_spec) (use s in \<open>simp add: uniform_norm\<close>)
  then have "uniform lo (hi - int m) st'" by (simp add: uniform_norm)
  with 1 show ?thesis by (simp add: open_ed_def)
qed

end
