(* ===== verification/Undo_Records.thy ===== *)
theory Undo_Records
  imports Buffer_Frame
begin

text \<open>
  The records that edits leave in the undo list, and what a list of records stands for: the relation
  \<open>undoes\<close> says which characters undoing its first group gives back.  Every insertion and deletion of
  a command keeps the characters that its records undo to, whatever \<open>undo_prelude\<close> adds, whether or
  not consecutive insertions are joined, and however many buffers share the text.
\<close>

section \<open>What a list of records undoes\<close>

text \<open>
  \<open>undoes t es C u C' u' r\<close>: undoing the first group of \<open>es\<close> in a text with the characters \<open>C\<close> gives
  \<open>C'\<close> and leaves the records \<open>r\<close>; \<open>u\<close> and \<open>u'\<close> tell that the buffer is known to be unmodified, \<open>t\<close> is
  the time of its file.
\<close>

inductive undoes ::
    "int \<Rightarrow> undo_elt list \<Rightarrow> ichar list \<Rightarrow> bool \<Rightarrow> ichar list \<Rightarrow> bool \<Rightarrow> undo_elt list \<Rightarrow> bool" for t where
  und_Nil: "undoes t [] C u C u []"
| und_boundary: "undoes t (U_boundary # es) C u C u es"
| und_position: "undoes t es C u C' u' r \<Longrightarrow> undoes t (U_position p # es) C u C' u' r"
| und_modtime: "undoes t es C True C' u' r \<Longrightarrow> undoes t (U_modtime t # es) C u C' u' r"
| und_insert: "n + m \<le> length C \<Longrightarrow> undoes t es (list_delete C n m) False C' u' r \<Longrightarrow>
    undoes t (U_insert (1 + int n) (1 + int n + int m) # es) C u C' u' r"
| und_delete: "\<bar>p\<bar> = 1 + int n \<Longrightarrow> n \<le> length C \<Longrightarrow> chars_ok S \<Longrightarrow> length (concat C) + length (concat S) < 2 ^ 30 \<Longrightarrow>
    undoes t es (list_insert C n S) False C' u' r \<Longrightarrow> undoes t (U_delete (concat S) p # es) C u C' u' r"

inductive_cases undoes_insertE: "undoes t (U_insert b e # es) C u C' u' r"

lemma undoes_known: "undoes t es C u C' u' r \<Longrightarrow> \<exists>u2. (u' \<longrightarrow> u2) \<and> undoes t es C True C' u2 r"
proof (induction rule: undoes.induct)
  case (und_position es C u C' u' r p)
  then show ?case by (meson undoes.und_position)
next
  case (und_modtime es C C' u' r u)
  from undoes.und_modtime [OF und_modtime.hyps] show ?case by blast
next
  case (und_insert n m C es C' u' r u)
  from undoes.und_insert [OF und_insert.hyps] show ?case by blast
next
  case (und_delete p n C S es C' u' r u)
  from undoes.und_delete [OF und_delete.hyps] show ?case by blast
next
  case (und_Nil C u)
  show ?case using undoes.und_Nil by blast
next
  case (und_boundary es C u)
  show ?case using undoes.und_boundary by blast
qed

text \<open>Records pushed by an insertion: joined with the record before it, or on their own.\<close>

lemma list_delete_joined:
  assumes "n + m \<le> length C"
  shows "list_delete (list_insert C (n + m) S) n (m + length S) = list_delete C n m"
  using assms by (simp add: list_delete_def list_insert_def min_def)

lemma undoes_join_insert:
  assumes "undoes t es C False C' u' r" "n \<le> length C"
  shows "\<exists>es'. join_insert (1 + int n) (int (length S)) (U_list es) = U_list es' \<and> undoes t es' (list_insert C n S) v C' u' r"
proof (cases "\<exists>b es1. es = U_insert b (1 + int n) # es1")
  case True
  then obtain b es1 where es: "es = U_insert b (1 + int n) # es1" by blast
  from assms(1) [unfolded es] obtain k m where km: "b = 1 + int k" "1 + int n = 1 + int k + int m"
    "undoes t es1 (list_delete C k m) False C' u' r" by (rule undoes_insertE) blast
  then have k: "b = 1 + int k" "n = k + m" "undoes t es1 (list_delete C k m) False C' u' r" by simp_all
  have "undoes t (U_insert (1 + int k) (1 + int k + int (m + length S)) # es1) (list_insert C n S) v C' u' r"
    using k assms(2) list_delete_joined [of k m C S] by (intro und_insert) simp_all
  then show ?thesis using k by (simp add: es join_insert_def algebra_simps)
next
  case False
  have "join_insert (1 + int n) (int (length S)) (U_list es) = U_list (U_insert (1 + int n) (1 + int n + int (length S)) # es)"
    using False by (auto simp: join_insert_def cons_undo_def split: list.splits undo_elt.splits)
  moreover have "undoes t (U_insert (1 + int n) (1 + int n + int (length S)) # es) (list_insert C n S) v C' u' r"
    using assms by (intro und_insert) (simp_all add: list_delete_insert)
  ultimately show ?thesis by blast
qed

lemma list_insert_deleted: "n + m \<le> length C \<Longrightarrow> list_insert (list_delete C n m) n (take m (drop n C)) = C"
  by (simp add: list_insert_def list_delete_def) (metis append_take_drop_id drop_drop add.commute)

lemma undoes_delete:
  assumes "undoes t es C False C' u' r" "n + m \<le> length C" "chars_ok C" "length (concat C) < 2 ^ 30" "\<bar>p\<bar> = 1 + int n"
  shows "undoes t (U_delete (deleted_bytes C n m) p # es) (list_delete C n m) v C' u' r"
proof -
  let ?S = "take m (drop n C)"
  have "length (concat (list_delete C n m)) + length (concat ?S) = length (concat C)"
  proof -
    have "C = take n C @ ?S @ drop (n + m) C" by (metis append_take_drop_id drop_drop add.commute)
    then have "length (concat C) = length (concat (take n C)) + length (concat ?S) + length (concat (drop (n + m) C))"
      by (metis add.assoc concat_append length_append)
    then show ?thesis by (simp add: list_delete_def)
  qed
  moreover have "chars_ok ?S" using assms(3) by (meson in_set_dropD in_set_takeD list_all_iff)
  ultimately show ?thesis
    using und_delete [of p n "list_delete C n m" ?S t es C' u' r v] assms list_insert_deleted [OF assms(2)]
    by (simp add: deleted_bytes_def)
qed

section \<open>The records that edits leave\<close>

definition unmodified :: "ed \<Rightarrow> bool" where
  "unmodified st \<longleftrightarrow> buf_tick_arithcompare (bt_modiff (ed_text st)) (bt_save_modiff (ed_text st)) \<le> 0"

text \<open>The undo list of a buffer after \<open>undo_prelude\<close>.\<close>

definition pre_undo :: "bool \<Rightarrow> bool \<Rightarrow> int \<Rightarrow> undo_elt list \<Rightarrow> undo_elt list" where
  "pre_undo other md t es = (if md then [U_modtime t] else []) @
     (if other \<and> es \<noteq> [] \<and> hd es \<noteq> U_boundary then [U_boundary] else []) @ es"

lemma undo_boundary_list:
  assumes "j < length (ed_bufs st)" "b_undo_list (ed_bufs st ! j) = U_list es"
  shows "b_undo_list (ed_bufs (undo_boundary j st) ! j) = U_list (if es \<noteq> [] \<and> hd es \<noteq> U_boundary then U_boundary # es else es)"
    "b_modtime (ed_bufs (undo_boundary j st) ! j) = b_modtime (ed_bufs st ! j)" "ed_text (undo_boundary j st) = ed_text st"
    "ed_base (undo_boundary j st) = ed_base st" "length (ed_bufs (undo_boundary j st)) = length (ed_bufs st)"
  using assms by (cases es; simp add: undo_boundary_def upd_buf_def cons_undo_def)+

lemma undo_prelude_list:
  assumes "j < length (ed_bufs st)" "b_undo_list (ed_bufs st ! j) = U_list es"
  shows "\<exists>st'. undo_prelude j True st = (True, st') \<and>
    b_undo_list (ed_bufs st' ! j) =
      U_list (pre_undo (ed_last_undo_buffer st \<noteq> Some (ed_base st)) (unmodified st) (b_modtime (ed_bufs st ! j)) es) \<and>
    ed_last_undo_buffer st' = Some (ed_base st) \<and> length (ed_bufs st') = length (ed_bufs st)"
proof -
  note bl = undo_boundary_list [OF assms]
  define st1 where "st1 = (if ed_last_undo_buffer st \<noteq> Some (ed_base st)
      then (undo_boundary j st)\<lparr>ed_last_undo_buffer := Some (ed_base st)\<rparr> else st)\<lparr>ed_pending_boundary := True\<rparr>"
  have 1: "b_undo_list (ed_bufs st1 ! j) = U_list (pre_undo (ed_last_undo_buffer st \<noteq> Some (ed_base st)) False t es)"
    "ed_last_undo_buffer st1 = Some (ed_base st)" "ed_text st1 = ed_text st" "b_modtime (ed_bufs st1 ! j) = b_modtime (ed_bufs st ! j)"
    "length (ed_bufs st1) = length (ed_bufs st)" for t
    using assms bl by (simp_all add: st1_def pre_undo_def)
  define st2 where "st2 = (if unmodified st
      then upd_buf j (\<lambda>b. b\<lparr>b_undo_list := cons_undo (U_modtime (b_modtime b)) (b_undo_list b)\<rparr>) st1 else st1)"
  have "undo_prelude j True st = (True, st2)"
    using assms(2) bl(3) by (simp add: undo_prelude_def st1_def st2_def unmodified_def Let_def)
  moreover have "b_undo_list (ed_bufs st2 ! j) =
      U_list (pre_undo (ed_last_undo_buffer st \<noteq> Some (ed_base st)) (unmodified st) (b_modtime (ed_bufs st ! j)) es)"
    using 1 assms(1) by (simp add: st2_def upd_buf_def cons_undo_def pre_undo_def)
  moreover have "ed_last_undo_buffer st2 = Some (ed_base st)" "length (ed_bufs st2) = length (ed_bufs st)"
    using 1 by (simp_all add: st2_def upd_buf_def)
  ultimately show ?thesis by blast
qed

text \<open>What the recording for one buffer leaves alone.\<close>

definition records_at :: "nat \<Rightarrow> ed \<Rightarrow> ed \<Rightarrow> bool" where
  "records_at k st st' \<longleftrightarrow> but_undo st' = but_undo st \<and> ed_base st' = ed_base st \<and>
     (\<forall>j. j \<noteq> k \<longrightarrow> ed_bufs st' ! j = ed_bufs st ! j) \<and> (\<forall>j. b_modtime (ed_bufs st' ! j) = b_modtime (ed_bufs st ! j)) \<and>
     ed_last_undo_buffer st' \<in> {ed_last_undo_buffer st, Some (ed_base st)}"

lemma records_at_refl: "records_at k st st"
  by (simp add: records_at_def)

lemma records_at_trans: "records_at k st st' \<Longrightarrow> records_at k st' st'' \<Longrightarrow> records_at k st st''"
  by (auto simp: records_at_def)

lemma records_at_upd:
  "records_at k st (upd_buf k (\<lambda>b. b\<lparr>b_undo_list := f b\<rparr>) st)"
proof -
  let ?st' = "upd_buf k (\<lambda>b. b\<lparr>b_undo_list := f b\<rparr>) st"
  have "but_undo ?st' = but_undo st" by (rule but_undo_upd)
  moreover have "b_modtime (ed_bufs ?st' ! j) = b_modtime (ed_bufs st ! j)" for j
    by (cases "k < length (ed_bufs st)") (simp_all add: upd_buf_def nth_list_update list_update_beyond)
  ultimately show ?thesis by (simp add: records_at_def) (simp add: upd_buf_def)
qed

lemma records_at_fields:
  "records_at k st (st\<lparr>ed_pending_boundary := p\<rparr>)" "records_at k st (st\<lparr>ed_last_undo_buffer := Some (ed_base st)\<rparr>)"
  by (simp_all add: records_at_def but_undo_fields)

lemma records_at_boundary: "records_at k st (undo_boundary k st)"
proof -
  have "records_at k st (upd_buf k (\<lambda>b. b\<lparr>b_undo_list := f b\<rparr>) (st\<lparr>ed_pending_boundary := False\<rparr>))" for f
    using records_at_trans [OF records_at_fields(1) records_at_upd] .
  then show ?thesis by (auto simp: undo_boundary_def records_at_refl split: undo_list.splits list.splits)
qed

lemma records_at_prelude: "records_at k st (snd (undo_prelude k h st))"
proof -
  define st1 where "st1 = (if ed_last_undo_buffer st \<noteq> Some (ed_base st)
      then (undo_boundary k st)\<lparr>ed_last_undo_buffer := Some (ed_base st)\<rparr> else st)"
  define st2 where "st2 = (if h then st1\<lparr>ed_pending_boundary := True\<rparr> else st1)"
  have "ed_base (undo_boundary k st) = ed_base st" using records_at_boundary [of k st] by (simp add: records_at_def)
  then have 1: "records_at k st st1"
    using records_at_trans [OF records_at_boundary records_at_fields(2), of k st] by (simp add: st1_def records_at_refl)
  have 2: "records_at k st st2" using records_at_trans [OF 1 records_at_fields(1)] 1 by (simp add: st2_def)
  have 3: "records_at k st (upd_buf k (\<lambda>b. b\<lparr>b_undo_list := f b\<rparr>) st2)" for f
    using records_at_trans [OF 2 records_at_upd] .
  have "snd (undo_prelude k h st) = (if b_undo_list (ed_bufs st ! k) = U_t then st
      else if buf_tick_arithcompare (bt_modiff (ed_text st2)) (bt_save_modiff (ed_text st2)) \<le> 0
      then upd_buf k (\<lambda>b. b\<lparr>b_undo_list := cons_undo (U_modtime (b_modtime b)) (b_undo_list b)\<rparr>) st2 else st2)"
    by (simp add: undo_prelude_def Let_def st1_def st2_def)
  then show ?thesis using 2 3 records_at_refl by presburger
qed

lemma records_at_recorded:
  "records_at k st (insert_recorded beg len k st)" "records_at k st (delete_recorded s beg len k st)"
proof -
  obtain g st1 where p: "undo_prelude k True st = (g, st1)" by fastforce
  then have 1: "records_at k st st1" using records_at_prelude [of k st True] by simp
  have 2: "records_at k st (upd_buf k (\<lambda>b. b\<lparr>b_undo_list := f b\<rparr>) st1)" for f
    by (rule records_at_trans [OF 1 records_at_upd])
  have 3: "records_at k st (upd_buf k (\<lambda>b. b\<lparr>b_undo_list := g b\<rparr>) (upd_buf k (\<lambda>b. b\<lparr>b_undo_list := f b\<rparr>) st1))" for f g
    by (rule records_at_trans [OF 2 records_at_upd])
  show "records_at k st (insert_recorded beg len k st)" using p 1 2 by (simp add: insert_recorded_def)
  show "records_at k st (delete_recorded s beg len k st)" using p 1 2 3 by (simp add: delete_recorded_def Let_def)
qed

text \<open>The records of all the buffers, seen from the buffer \<open>i\<close>.\<close>

lemma all_bufs_at:
  assumes f: "\<And>k st. records_at k st (f k st)" and i: "i < length (ed_bufs st)"
  obtains st1 where "ed_bufs (all_bufs f st) ! i = ed_bufs (f i st1) ! i"
    and "but_undo st1 = but_undo st" "ed_base st1 = ed_base st" "ed_bufs st1 ! i = ed_bufs st ! i"
    "ed_last_undo_buffer st1 \<in> {ed_last_undo_buffer st, Some (ed_base st)}"
    "ed_last_undo_buffer (all_bufs f st) \<in> {ed_last_undo_buffer (f i st1), Some (ed_base st)}"
    "ed_base (all_bufs f st) = ed_base st"
proof -
  have other: "but_undo (fold f js st) = but_undo st \<and> ed_base (fold f js st) = ed_base st \<and>
      ed_bufs (fold f js st) ! i = ed_bufs st ! i \<and> ed_last_undo_buffer (fold f js st) \<in> {ed_last_undo_buffer st, Some (ed_base st)}"
    if "i \<notin> set js" for js st
    using that
  proof (induction js arbitrary: st)
    case (Cons k js)
    then show ?case using f [of k st] Cons.IH [of "f k st"] by (auto simp: records_at_def)
  qed simp
  let ?n = "length (ed_bufs st)"
  let ?st1 = "fold f [0..<i] st"
  have "[0..<?n] = [0..<i] @ i # [Suc i..<?n]" using i by (metis less_imp_add_positive upt_add_eq_append upt_conv_Cons zero_le)
  then have all: "all_bufs f st = fold f [Suc i..<?n] (f i ?st1)" by (simp add: all_bufs_def)
  have 1: "but_undo ?st1 = but_undo st \<and> ed_base ?st1 = ed_base st \<and> ed_bufs ?st1 ! i = ed_bufs st ! i \<and>
      ed_last_undo_buffer ?st1 \<in> {ed_last_undo_buffer st, Some (ed_base st)}" by (rule other) simp
  have 2: "but_undo (all_bufs f st) = but_undo (f i ?st1) \<and> ed_base (all_bufs f st) = ed_base (f i ?st1) \<and>
      ed_bufs (all_bufs f st) ! i = ed_bufs (f i ?st1) ! i \<and>
      ed_last_undo_buffer (all_bufs f st) \<in> {ed_last_undo_buffer (f i ?st1), Some (ed_base (f i ?st1))}"
    unfolding all by (rule other) simp
  have "ed_base (f i ?st1) = ed_base st" using f [of i ?st1] 1 by (simp add: records_at_def)
  with 1 2 show ?thesis by (intro that [of ?st1]) simp_all
qed

text \<open>What the records of the buffer \<open>i\<close> depend on.\<close>

definition undo_view :: "nat \<Rightarrow> ed \<Rightarrow> undo_list \<times> int \<times> nat \<times> nat option \<times> nat" where
  "undo_view i st = (b_undo_list (ed_bufs st ! i), b_modtime (ed_bufs st ! i), ed_base st, ed_last_undo_buffer st,
     length (ed_bufs st))"

lemma undo_view_upd:
  "undo_view i (upd_text g st) = undo_view i st" "undo_view i (call_hooks h st) = undo_view i st"
  "(\<And>b. b_undo_list (f b) = b_undo_list b) \<Longrightarrow> (\<And>b. b_modtime (f b) = b_modtime b) \<Longrightarrow> i < length (ed_bufs st) \<Longrightarrow>
    undo_view i (upd_bufs f st) = undo_view i st"
  "(\<And>b. b_undo_list (f b) = b_undo_list b) \<Longrightarrow> (\<And>b. b_modtime (f b) = b_modtime b) \<Longrightarrow>
    undo_view i (upd_buf j f st) = undo_view i st"
proof -
  show "undo_view i (upd_buf j f st) = undo_view i st" if "\<And>b. b_undo_list (f b) = b_undo_list b" "\<And>b. b_modtime (f b) = b_modtime b"
    by (cases "j < length (ed_bufs st)") (simp_all add: undo_view_def upd_buf_def that nth_list_update list_update_beyond)
qed (simp_all add: undo_view_def upd_text_def call_hooks_def upd_bufs_def)

lemma undo_view_before_change: "undo_view i (before_change x y st) = undo_view i st"
  by (simp add: before_change_def Let_def undo_view_upd)

lemma undo_view_after_change: "i < length (ed_bufs st) \<Longrightarrow> undo_view i (after_change x y z u v st) = undo_view i st"
  by (simp add: after_change_def undo_view_upd changed_region_sel)

lemma unmodified_but_undo: "but_undo st' = but_undo st \<Longrightarrow> unmodified st' = unmodified st"
  by (drule but_undo_sel(1)) (simp add: unmodified_def)

lemma unmodified_before_change: "unmodified (before_change x y st) = unmodified st"
  by (simp add: unmodified_def before_change_def Let_def call_hooks_def upd_text_def)

lemma undo_view_length: "undo_view i st' = undo_view i st \<Longrightarrow> length (ed_bufs st') = length (ed_bufs st)"
  by (simp add: undo_view_def)

lemma recorded_view:
  assumes i: "i < length (ed_bufs a)" and es: "b_undo_list (ed_bufs a ! i) = U_list es"
  shows "\<exists>other. undo_view i (all_bufs (insert_recorded beg len) (before_change x y a)) =
      (join_insert beg len (U_list (pre_undo other (unmodified a) (b_modtime (ed_bufs a ! i)) es)),
       b_modtime (ed_bufs a ! i), ed_base a, Some (ed_base a), length (ed_bufs a)) \<and>
    (other \<longrightarrow> ed_last_undo_buffer a \<noteq> Some (ed_base a))"
    and "\<exists>other sbeg p. undo_view i (all_bufs (delete_recorded s beg len) (before_change x y a)) =
      (U_list (U_delete s sbeg # p @ pre_undo other (unmodified a) (b_modtime (ed_bufs a ! i)) es),
       b_modtime (ed_bufs a ! i), ed_base a, Some (ed_base a), length (ed_bufs a)) \<and>
    (other \<longrightarrow> ed_last_undo_buffer a \<noteq> Some (ed_base a)) \<and> \<bar>sbeg\<bar> = \<bar>beg\<bar> \<and> (p = [] \<or> (\<exists>k. p = [U_position k]))"
proof -
  let ?a = "before_change x y a"
  have v: "undo_view i ?a = undo_view i a" by (rule undo_view_before_change)
  then have a: "i < length (ed_bufs ?a)" "b_undo_list (ed_bufs ?a ! i) = U_list es" "b_modtime (ed_bufs ?a ! i) = b_modtime (ed_bufs a ! i)"
      "ed_base ?a = ed_base a" "ed_last_undo_buffer ?a = ed_last_undo_buffer a" "length (ed_bufs ?a) = length (ed_bufs a)"
    using i es by (simp_all add: undo_view_def)
  have pre: "\<exists>st2. undo_prelude i True st1 = (True, st2) \<and>
      b_undo_list (ed_bufs st2 ! i) = U_list (pre_undo (ed_last_undo_buffer st1 \<noteq> Some (ed_base a)) (unmodified a) (b_modtime (ed_bufs a ! i)) es) \<and>
      ed_last_undo_buffer st2 = Some (ed_base a) \<and> i < length (ed_bufs st2)"
    if "but_undo st1 = but_undo ?a" "ed_base st1 = ed_base ?a" "ed_bufs st1 ! i = ed_bufs ?a ! i" for st1
  proof -
    have st1: "i < length (ed_bufs st1)" "b_undo_list (ed_bufs st1 ! i) = U_list es" using that a but_undo_sel(2) [OF that(1)] by simp_all
    have eqs: "ed_base st1 = ed_base a" "b_modtime (ed_bufs st1 ! i) = b_modtime (ed_bufs a ! i)" "unmodified st1 = unmodified a"
      using that a unmodified_but_undo [OF that(1)] unmodified_before_change by simp_all
    from undo_prelude_list [OF st1] st1(1) show ?thesis unfolding eqs by metis
  qed
  show "\<exists>other. undo_view i (all_bufs (insert_recorded beg len) ?a) =
      (join_insert beg len (U_list (pre_undo other (unmodified a) (b_modtime (ed_bufs a ! i)) es)),
       b_modtime (ed_bufs a ! i), ed_base a, Some (ed_base a), length (ed_bufs a)) \<and>
    (other \<longrightarrow> ed_last_undo_buffer a \<noteq> Some (ed_base a))"
  proof (rule all_bufs_at [OF records_at_recorded(1) a(1)])
    fix st1
    let ?r = "insert_recorded beg len i st1" and ?x = "all_bufs (insert_recorded beg len) ?a"
    assume 1: "ed_bufs ?x ! i = ed_bufs ?r ! i" "but_undo st1 = but_undo ?a" "ed_base st1 = ed_base ?a"
      "ed_bufs st1 ! i = ed_bufs ?a ! i" "ed_last_undo_buffer st1 \<in> {ed_last_undo_buffer ?a, Some (ed_base ?a)}"
      "ed_last_undo_buffer ?x \<in> {ed_last_undo_buffer ?r, Some (ed_base ?a)}" "ed_base ?x = ed_base ?a"
    obtain st2 where 2: "undo_prelude i True st1 = (True, st2)"
      "b_undo_list (ed_bufs st2 ! i) = U_list (pre_undo (ed_last_undo_buffer st1 \<noteq> Some (ed_base a)) (unmodified a) (b_modtime (ed_bufs a ! i)) es)"
      "ed_last_undo_buffer st2 = Some (ed_base a)" "i < length (ed_bufs st2)" using pre [OF 1(2-4)] by blast
    have "length (ed_bufs ?x) = length (ed_bufs a)" using but_undo_sel(2) [OF recorded_inserts(2)] a(6) by simp
    moreover have "b_modtime (ed_bufs ?r ! i) = b_modtime (ed_bufs a ! i)"
      using records_at_recorded(1) [of i st1 beg len] 1(4) a(3) by (simp add: records_at_def)
    moreover have "b_undo_list (ed_bufs ?r ! i) =
        join_insert beg len (U_list (pre_undo (ed_last_undo_buffer st1 \<noteq> Some (ed_base a)) (unmodified a) (b_modtime (ed_bufs a ! i)) es))"
      using 2 by (simp add: insert_recorded_def upd_buf_def)
    moreover have "ed_last_undo_buffer ?r = Some (ed_base a)" using 2 by (simp add: insert_recorded_def upd_buf_def)
    ultimately show ?thesis using 1 a by (intro exI [of _ "ed_last_undo_buffer st1 \<noteq> Some (ed_base a)"]) (auto simp: undo_view_def)
  qed
  show "\<exists>other sbeg p. undo_view i (all_bufs (delete_recorded s beg len) ?a) =
      (U_list (U_delete s sbeg # p @ pre_undo other (unmodified a) (b_modtime (ed_bufs a ! i)) es),
       b_modtime (ed_bufs a ! i), ed_base a, Some (ed_base a), length (ed_bufs a)) \<and>
    (other \<longrightarrow> ed_last_undo_buffer a \<noteq> Some (ed_base a)) \<and> \<bar>sbeg\<bar> = \<bar>beg\<bar> \<and> (p = [] \<or> (\<exists>k. p = [U_position k]))"
  proof (rule all_bufs_at [OF records_at_recorded(2) a(1)])
    fix st1
    let ?r = "delete_recorded s beg len i st1" and ?x = "all_bufs (delete_recorded s beg len) ?a"
    assume 1: "ed_bufs ?x ! i = ed_bufs ?r ! i" "but_undo st1 = but_undo ?a" "ed_base st1 = ed_base ?a"
      "ed_bufs st1 ! i = ed_bufs ?a ! i" "ed_last_undo_buffer st1 \<in> {ed_last_undo_buffer ?a, Some (ed_base ?a)}"
      "ed_last_undo_buffer ?x \<in> {ed_last_undo_buffer ?r, Some (ed_base ?a)}" "ed_base ?x = ed_base ?a"
    let ?es = "pre_undo (ed_last_undo_buffer st1 \<noteq> Some (ed_base a)) (unmodified a) (b_modtime (ed_bufs a ! i)) es"
    obtain st2 where 2: "undo_prelude i True st1 = (True, st2)" "b_undo_list (ed_bufs st2 ! i) = U_list ?es"
      "ed_last_undo_buffer st2 = Some (ed_base a)" "i < length (ed_bufs st2)" using pre [OF 1(2-4)] by blast
    have len: "length (ed_bufs ?x) = length (ed_bufs a)" using but_undo_sel(2) [OF recorded_deletes(2)] a(6) by simp
    have mt: "b_modtime (ed_bufs ?r ! i) = b_modtime (ed_bufs a ! i)"
      using records_at_recorded(2) [of i st1 s beg len] 1(4) a(3) by (simp add: records_at_def)
    have "\<exists>sbeg p. b_undo_list (ed_bufs ?r ! i) = U_list (U_delete s sbeg # p @ ?es) \<and> \<bar>sbeg\<bar> = \<bar>beg\<bar> \<and> (p = [] \<or> (\<exists>k. p = [U_position k]))"
      using 2(1,2,4) by (auto simp: delete_recorded_def upd_buf_def cons_undo_def Let_def)
    moreover have "ed_last_undo_buffer ?r = Some (ed_base a)" using 2 by (simp add: delete_recorded_def upd_buf_def Let_def)
    ultimately show ?thesis using 1 a len mt
      by (elim exE) (rule exI [of _ "ed_last_undo_buffer st1 \<noteq> Some (ed_base a)"], auto simp: undo_view_def)
  qed
qed

lemma undo_view_insert_spec:
  assumes "i < length (ed_bufs a)"
  shows "undo_view i (insert_spec i n k S mp before a) =
    undo_view i (all_bufs (insert_recorded (1 + int n) (int (length S))) (before_change (1 + int n) (1 + int n) a))"
proof -
  let ?a = "all_bufs (insert_recorded (1 + int n) (int (length S))) (before_change (1 + int n) (1 + int n) a)"
  have "length (ed_bufs ?a) = length (ed_bufs a)"
    using but_undo_sel(2) [OF recorded_inserts(2)] undo_view_length [OF undo_view_before_change] by simp
  then have len: "i < length (ed_bufs ?a)" using assms by simp
  have ub: "b_undo_list (inserted_buf u v w b) = b_undo_list b" "b_modtime (inserted_buf u v w b) = b_modtime b" for u v w b
    by (simp_all add: inserted_buf_def PT_after_insert_def ZV_after_insert_def JUST_SET_POINT_def)
  let ?A = "upd_bufs (inserted_buf u v w) (upd_text f ?a)"
  have vA: "undo_view i (upd_bufs (inserted_buf u v w) (upd_text f ?a)) = undo_view i ?a" for u v w f
    using len by (simp add: undo_view_upd ub upd_text_def) (simp add: undo_view_def)
  have lA: "i < length (ed_bufs (upd_bufs (inserted_buf u v w) (upd_text f ?a)))" for u v w f
    using undo_view_length [OF vA] len by metis
  have vB: "undo_view i (if mp then upd_buf i (point_set x y) st else st) = undo_view i st" for x y st
    by (simp add: undo_view_upd point_set_sel)
  have vC: "i < length (ed_bufs st) \<Longrightarrow> undo_view i (if before then upd_bufs (before_markers x y) st else st) = undo_view i st" for x y st
    by (simp add: undo_view_upd before_markers_def)
  show ?thesis unfolding insert_spec_def Let_def
    using lA undo_view_length [OF vB] undo_view_length [OF vC] by (simp add: undo_view_after_change vC vB vA)
qed

lemma undo_view_delete_spec:
  assumes "i < length (ed_bufs a)"
  shows "undo_view i (delete_spec i n m k s asc a) =
    undo_view i (all_bufs (delete_recorded s (1 + int n) (int m)) (before_change (1 + int n) (1 + int n + int m) a))"
proof -
  let ?a = "all_bufs (delete_recorded s (1 + int n) (int m)) (before_change (1 + int n) (1 + int n + int m) a)"
  have "length (ed_bufs ?a) = length (ed_bufs a)"
    using but_undo_sel(2) [OF recorded_deletes(2)] undo_view_length [OF undo_view_before_change] by simp
  then have len: "i < length (ed_bufs ?a)" using assms by simp
  have v1: "undo_view i (newline_noted i s ?a) = undo_view i ?a" using len by (simp add: newline_noted_def undo_view_upd)
  have l1: "i < length (ed_bufs (newline_noted i s ?a))" using undo_view_length [OF v1] len by simp
  have ub: "b_undo_list (deleted_buf u v w x b) = b_undo_list b" "b_modtime (deleted_buf u v w x b) = b_modtime b" for u v w x b
    by (simp_all add: deleted_buf_def PT_after_delete_def ZV_after_delete_def JUST_SET_POINT_def)
  have v2: "undo_view i (upd_bufs (deleted_buf u v w x) (upd_text f (newline_noted i s ?a))) = undo_view i ?a" for u v w x f
    using l1 v1 by (simp add: undo_view_upd ub upd_text_def) (simp add: undo_view_def)
  have l2: "i < length (ed_bufs (upd_bufs (deleted_buf u v w x) (upd_text f (newline_noted i s ?a))))" for u v w x f
    using undo_view_length [OF v2] len by metis
  show ?thesis unfolding delete_spec_def Let_def by (simp add: undo_view_after_change l2 v2)
qed

lemma undo_view_norm: "i < length (ed_bufs st) \<Longrightarrow> undo_view i (norm st) = undo_view i st"
  by (simp add: undo_view_def norm_def norm_buf_def)

lemma unmodified_norm: "unmodified (norm st) = unmodified st"
  by (simp add: unmodified_def norm_fields)

text \<open>The records of the prelude change nothing of what is undone.\<close>

definition at_boundary :: "undo_elt list \<Rightarrow> bool" where
  "at_boundary es \<longleftrightarrow> es = [] \<or> hd es = U_boundary"

inductive_cases undoes_NilE: "undoes t [] C u C' u' r"
inductive_cases undoes_boundaryE: "undoes t (U_boundary # es) C u C' u' r"

lemma undoes_at_boundary: "at_boundary es \<Longrightarrow> undoes t es C u C u (tl es)"
  by (cases es) (auto simp: at_boundary_def intro: und_Nil und_boundary)

lemma undoes_pre:
  assumes "undoes t es C False C' u' r" "other \<longrightarrow> at_boundary es"
  shows "\<exists>u2. undoes t (pre_undo other md t es) C False C' u2 r \<and> (u' \<longrightarrow> u2) \<and> (md \<and> at_boundary es \<longrightarrow> u2)"
proof -
  have pre: "pre_undo other md t es = (if md then [U_modtime t] else []) @ es"
    using assms(2) by (auto simp: pre_undo_def at_boundary_def)
  show ?thesis
  proof (cases md)
    case md: True
    show ?thesis
    proof (cases "at_boundary es")
      case True
      then have "C' = C" "r = tl es" using assms(1)
        by (cases es; auto simp: at_boundary_def elim: undoes_NilE undoes_boundaryE)+
      with undoes_at_boundary [OF True, of t C True] md show ?thesis unfolding pre by (auto intro: und_modtime)
    next
      case False
      obtain u2 where "u' \<longrightarrow> u2" "undoes t es C True C' u2 r" using undoes_known [OF assms(1)] by blast
      with md False show ?thesis unfolding pre by (auto intro: und_modtime)
    qed
  qed (use assms pre in auto)
qed

section \<open>A command and its undo\<close>

text \<open>The edits of a command, on a buffer and on a list of characters.\<close>

datatype edit = Ins nat "ichar list" | Del nat nat

primrec do_edit :: "nat \<Rightarrow> edit \<Rightarrow> ed \<Rightarrow> unit outcome" where
  "do_edit i (Ins n S) st = ebind (buffer_insert_string_1 i (1 + int n) (concat S) (- 1) False st) (\<lambda>_ st. Some (Inr (), st))"
| "do_edit i (Del n m) st = buffer_delete_range i (1 + int n) (1 + int n + int m) st"

fun do_edits :: "nat \<Rightarrow> edit list \<Rightarrow> ed \<Rightarrow> unit outcome" where
  "do_edits i [] st = Some (Inr (), st)"
| "do_edits i (e # es) st = ebind (do_edit i e st) (\<lambda>_. do_edits i es)"

primrec edit_chars :: "edit \<Rightarrow> ichar list \<Rightarrow> ichar list" where
  "edit_chars (Ins n S) C = list_insert C n S"
| "edit_chars (Del n m) C = list_delete C n m"

primrec edit_ok :: "edit \<Rightarrow> ichar list \<Rightarrow> bool" where
  "edit_ok (Ins n S) C \<longleftrightarrow> n \<le> length C \<and> chars_ok S \<and> length (concat C) + length (concat S) < 2 ^ 30"
| "edit_ok (Del n m) C \<longleftrightarrow> n + m \<le> length C \<and> 0 < m \<and> length (concat C) < 2 ^ 30"

fun edits_ok :: "edit list \<Rightarrow> ichar list \<Rightarrow> bool" where
  "edits_ok [] C \<longleftrightarrow> True"
| "edits_ok (e # es) C \<longleftrightarrow> edit_ok e C \<and> edits_ok es (edit_chars e C)"

text \<open>The state between two edits of a command that began with the characters \<open>C0\<close>.\<close>

definition command_state :: "nat \<Rightarrow> ed \<Rightarrow> ichar list \<Rightarrow> undo_elt list \<Rightarrow> bool" where
  "command_state i st C es \<longleftrightarrow> open_ed st C 1 (1 + int (length C)) \<and> i < length (ed_bufs st) \<and>
     b_undo_list (ed_bufs st ! i) = U_list es \<and> (at_boundary es \<or> ed_last_undo_buffer st = Some (ed_base st))"

lemma edit_step:
  assumes st: "command_state i st C es" and und: "undoes (b_modtime (ed_bufs st ! i)) es C False C0 u r" and ok: "edit_ok e C"
  shows "\<exists>st' es' u'. do_edit i e st = Some (Inr (), st') \<and> command_state i st' (edit_chars e C) es' \<and>
    b_modtime (ed_bufs st' ! i) = b_modtime (ed_bufs st ! i) \<and>
    undoes (b_modtime (ed_bufs st ! i)) es' (edit_chars e C) False C0 u' r \<and> (u \<longrightarrow> u') \<and>
    (unmodified st \<and> at_boundary es \<longrightarrow> u')"
proof -
  let ?t = "b_modtime (ed_bufs st ! i)"
  note s = st [unfolded command_state_def]
  have i: "i < length (ed_bufs st)" and ni: "i < length (ed_bufs (norm st))" using s by (simp_all add: norm_fields)
  have nt: "b_modtime (ed_bufs (norm st) ! i) = ?t" "b_undo_list (ed_bufs (norm st) ! i) = U_list es"
    using undo_view_norm [OF i] s by (simp_all add: undo_view_def)
  show ?thesis
  proof (cases e)
    case (Ins n S)
    have n: "n \<le> length C" "chars_ok S" "length (concat C) + length (concat S) < 2 ^ 30" using ok Ins by simp_all
    obtain st' where 1: "buffer_insert_string_1 i (1 + int n) (concat S) (- 1) False st = Some (Inr (int (length S)), st')"
      "open_ed st' (list_insert C n S) 1 (1 + int (length C) + int (length S))"
      "norm st' = insert_spec i n (bofs C n) S (1 + int n = - 1) False (norm st)"
      using open_insert [OF _ i n(1) _ _ n(2,3), of 1 "1 + int (length C)" "1 + int n" False] s n(1) by auto
    obtain other where v: "undo_view i (norm st') =
        (join_insert (1 + int n) (int (length S)) (U_list (pre_undo other (unmodified st) ?t es)), ?t, ed_base st, Some (ed_base st), length (ed_bufs st))"
      "other \<longrightarrow> ed_last_undo_buffer st \<noteq> Some (ed_base st)"
      using recorded_view(1) [OF ni nt(2), of "1 + int n" "int (length S)" "1 + int n" "1 + int n"]
      unfolding 1(3) undo_view_insert_spec [OF ni] by (auto simp: nt norm_fields unmodified_norm)
    have len: "length (ed_bufs st') = length (ed_bufs st)" using v(1) by (simp add: undo_view_def norm_fields)
    then have v': "undo_view i st' = undo_view i (norm st')" using i by (simp add: undo_view_norm)
    have "other \<longrightarrow> at_boundary es" using v(2) s by blast
    from undoes_pre [OF und this, of "unmodified st"] obtain u2 where
      u2: "undoes ?t (pre_undo other (unmodified st) ?t es) C False C0 u2 r" "u \<longrightarrow> u2" "unmodified st \<and> at_boundary es \<longrightarrow> u2" by blast
    from undoes_join_insert [OF u2(1) n(1), of S False] obtain es' where
      es': "join_insert (1 + int n) (int (length S)) (U_list (pre_undo other (unmodified st) ?t es)) = U_list es'"
        "undoes ?t es' (list_insert C n S) False C0 u2 r" by blast
    show ?thesis using 1 v v' es' u2 len i Ins
      by (intro exI [of _ st'] exI [of _ es'] exI [of _ u2]) (simp add: ebind_def command_state_def undo_view_def add.assoc)
  next
    case (Del n m)
    have n: "n + m \<le> length C" "0 < m" "length (concat C) < 2 ^ 30" using ok Del by simp_all
    obtain st' where 1: "buffer_delete_range i (1 + int n) (1 + int n + int m) st = Some (Inr (), st')"
      "open_ed st' (list_delete C n m) 1 (1 + int (length C) - int m)"
      "norm st' = delete_spec i n m (bofs C n) (deleted_bytes C n m) (length (filter ascii_char (take m (drop n C)))) (norm st)"
      using open_delete [OF _ i n(1,2), of 1 "1 + int (length C)"] s n(1) by auto
    have e: "1 + int (length (list_delete C n m)) = 1 + int (length C) - int m" using n(1) by simp
    obtain other sbeg p where v: "undo_view i (norm st') =
        (U_list (U_delete (deleted_bytes C n m) sbeg # p @ pre_undo other (unmodified st) ?t es), ?t, ed_base st, Some (ed_base st), length (ed_bufs st))"
      "other \<longrightarrow> ed_last_undo_buffer st \<noteq> Some (ed_base st)" "\<bar>sbeg\<bar> = \<bar>1 + int n\<bar>" "p = [] \<or> (\<exists>k. p = [U_position k])"
      using recorded_view(2) [OF ni nt(2), of "deleted_bytes C n m" "1 + int n" "int m" "1 + int n" "1 + int n + int m"]
      unfolding 1(3) undo_view_delete_spec [OF ni] by (auto simp: nt norm_fields unmodified_norm)
    have len: "length (ed_bufs st') = length (ed_bufs st)" using v(1) by (simp add: undo_view_def norm_fields)
    then have v': "undo_view i st' = undo_view i (norm st')" using i by (simp add: undo_view_norm)
    have "other \<longrightarrow> at_boundary es" using v(2) s by blast
    from undoes_pre [OF und this, of "unmodified st"] obtain u2 where
      u2: "undoes ?t (pre_undo other (unmodified st) ?t es) C False C0 u2 r" "u \<longrightarrow> u2" "unmodified st \<and> at_boundary es \<longrightarrow> u2" by blast
    have "undoes ?t (p @ pre_undo other (unmodified st) ?t es) C False C0 u2 r" using u2(1) v(4) by (auto intro: und_position)
    from undoes_delete [OF this n(1) _ n(3), of sbeg False] v(3) ed_rep_chars_ok s
    have "undoes ?t (U_delete (deleted_bytes C n m) sbeg # p @ pre_undo other (unmodified st) ?t es) (list_delete C n m) False C0 u2 r"
      by (auto simp: open_ed_def)
    then show ?thesis using 1(1,2) v v' u2 len i Del unfolding e [symmetric]
      by (intro exI [of _ st'] exI [of _ "U_delete (deleted_bytes C n m) sbeg # p @ pre_undo other (unmodified st) ?t es"] exI [of _ u2])
        (simp add: command_state_def undo_view_def)
  qed
qed

lemma do_edits_ok:
  assumes "command_state i st C es" "undoes (b_modtime (ed_bufs st ! i)) es C False C0 u r" "edits_ok eds C"
  shows "\<exists>st' es' u'. do_edits i eds st = Some (Inr (), st') \<and> command_state i st' (fold edit_chars eds C) es' \<and>
    b_modtime (ed_bufs st' ! i) = b_modtime (ed_bufs st ! i) \<and>
    undoes (b_modtime (ed_bufs st ! i)) es' (fold edit_chars eds C) False C0 u' r \<and> (u \<longrightarrow> u') \<and>
    (unmodified st \<and> at_boundary es \<and> eds \<noteq> [] \<longrightarrow> u')"
  using assms
proof (induction eds arbitrary: st C es u)
  case Nil
  then show ?case by auto
next
  case (Cons e eds)
  have ok: "edit_ok e C" "edits_ok eds (edit_chars e C)" using Cons.prems(3) by simp_all
  from edit_step [OF Cons.prems(1,2) ok(1)] obtain st1 es1 u1 where
    1: "do_edit i e st = Some (Inr (), st1)" "command_state i st1 (edit_chars e C) es1"
      "b_modtime (ed_bufs st1 ! i) = b_modtime (ed_bufs st ! i)"
      "undoes (b_modtime (ed_bufs st ! i)) es1 (edit_chars e C) False C0 u1 r" "u \<longrightarrow> u1" "unmodified st \<and> at_boundary es \<longrightarrow> u1"
    by blast
  from Cons.IH [OF 1(2) _ ok(2), unfolded 1(3), OF 1(4)] obtain st2 es2 u2 where
    2: "do_edits i eds st1 = Some (Inr (), st2)" "command_state i st2 (fold edit_chars eds (edit_chars e C)) es2"
      "b_modtime (ed_bufs st2 ! i) = b_modtime (ed_bufs st ! i)"
      "undoes (b_modtime (ed_bufs st ! i)) es2 (fold edit_chars eds (edit_chars e C)) False C0 u2 r" "u1 \<longrightarrow> u2" by blast
  with 1 show ?case by (intro exI [of _ st2] exI [of _ es2] exI [of _ u2]) (simp add: ebind_def)
qed

end
