(* ===== verification/Primitive_Undo.thy ===== *)
theory Primitive_Undo
  imports Undo_Records
begin

text \<open>
  Undoing (\<open>primitive-undo\<close> of \<open>src/undo.c\<close>) with the Lisp functions that it calls, and the round
  trip: whatever a command has inserted and deleted, undoing the records of the command gives the
  text back.  Records of extents and the flag
  \<open>inside_undo\<close> are left out.
\<close>

section \<open>The functions called\<close>

definition charbpos_clip_to_bounds :: "int \<Rightarrow> int \<Rightarrow> int \<Rightarrow> int" where
  "charbpos_clip_to_bounds lower num upper = (if num < lower then lower else if num > upper then upper else num)"

definition Fgoto_char :: "nat \<Rightarrow> int \<Rightarrow> ed \<Rightarrow> int outcome" where
  "Fgoto_char i position st =
     (let b = ed_bufs st ! i in
      if position < b_bufbegv b then ebind (set_buffer_point i (b_bufbegv b) (b_begv b) st) (\<lambda>_ st. Some (Inr (b_bufbegv b), st))
      else if position > b_bufzv b then ebind (set_buffer_point i (b_bufzv b) (b_zv b) st) (\<lambda>_ st. Some (Inr (b_bufzv b), st))
      else ebind (BUF_SET_PT i position st) (\<lambda>_ st. Some (Inr position, st)))"

definition Finsert_string :: "nat \<Rightarrow> byte list \<Rightarrow> ed \<Rightarrow> int outcome" where
  "Finsert_string i bs = buffer_insert_string_1 i (- 1) bs (- 1) False"

definition Fdelete_region :: "nat \<Rightarrow> int \<Rightarrow> int \<Rightarrow> ed \<Rightarrow> unit outcome" where
  "Fdelete_region i start en st =
     (case get_buffer_range_char (ed_bufs st ! i) start en of
        Inl e \<Rightarrow> Some (Inl e, st)
      | Inr (char_start, char_end) \<Rightarrow> buffer_delete_range i char_start char_end st)"

text \<open>\<open>set-buffer-modified-p\<close> with the flag \<open>nil\<close>; locks on files are left out.\<close>

definition Fset_buffer_unmodified :: "ed \<Rightarrow> ed" where
  "Fset_buffer_unmodified =
     upd_text (\<lambda>t. t\<lparr>bt_modiff := bt_modiff t + 1, bt_save_modiff := bt_modiff t + 1\<rparr>)"

section \<open>Undoing\<close>

text \<open>One record; the value says whether to go on with the group.\<close>

definition undo_record :: "nat \<Rightarrow> undo_elt \<Rightarrow> ed \<Rightarrow> bool outcome" where
  "undo_record i e st =
     (let b = ed_bufs st ! i in case e of
        U_boundary \<Rightarrow> Some (Inr False, st)
      | U_position p \<Rightarrow>
          ebind (BUF_SET_PT i (charbpos_clip_to_bounds (b_bufbegv b) p (b_bufzv b)) st) (\<lambda>_ st. Some (Inr True, st))
      | U_modtime mod_time \<Rightarrow>
          if mod_time \<noteq> b_modtime b then Some (Inr False, st)
          else Some (Inr True, Fset_buffer_unmodified st)
      | U_insert beg en \<Rightarrow>
          if beg < b_bufbegv b \<or> en > b_bufzv b then Some (Inl Undo_invisible, st)
          else ebind (Fgoto_char i beg st) (\<lambda>_ st.
               ebind (Fdelete_region i beg en st) (\<lambda>_ st. Some (Inr True, st)))
      | U_delete membuf pos \<Rightarrow>
          if pos < 0 then
            if - pos < b_bufbegv b \<or> - pos > b_bufzv b then Some (Inl Undo_invisible, st)
            else ebind (BUF_SET_PT i (- pos) st) (\<lambda>_ st.
                 ebind (Finsert_string i membuf st) (\<lambda>_ st. Some (Inr True, st)))
          else
            if pos < b_bufbegv b \<or> pos > b_bufzv b then Some (Inl Undo_invisible, st)
            else ebind (BUF_SET_PT i pos st) (\<lambda>_ st.
                 ebind (Finsert_string i membuf st) (\<lambda>_ st.
                 ebind (BUF_SET_PT i pos st) (\<lambda>_ st. Some (Inr True, st))))
      | U_other _ \<Rightarrow> Some (Inl Undo_rotten, st))"

text \<open>The inner loop; the result is the rest of the list.\<close>

fun undo_group :: "nat \<Rightarrow> undo_elt list \<Rightarrow> ed \<Rightarrow> undo_elt list outcome" where
  "undo_group i [] st = Some (Inr [], st)"
| "undo_group i (e # es) st =
     ebind (undo_record i e st) (\<lambda>go_on st. if go_on then undo_group i es st else Some (Inr es, st))"

fun undo_groups :: "nat \<Rightarrow> nat \<Rightarrow> undo_elt list \<Rightarrow> ed \<Rightarrow> undo_elt list outcome" where
  "undo_groups i 0 es st = Some (Inr es, st)"
| "undo_groups i (Suc arg) es st = ebind (undo_group i es st) (undo_groups i arg)"

text \<open>The binding of \<open>inhibit-read-only\<close> is undone however the loop ends.\<close>

definition Fprimitive_undo :: "nat \<Rightarrow> int \<Rightarrow> undo_elt list \<Rightarrow> ed \<Rightarrow> undo_elt list outcome" where
  "Fprimitive_undo i arg es st =
     (let st' = (if b_read_only (ed_bufs st ! i) then st else st\<lparr>ed_inhibit_read_only := True\<rparr>)
      in map_option (\<lambda>(r, st'). (r, st'\<lparr>ed_inhibit_read_only := ed_inhibit_read_only st\<rparr>))
           (undo_groups i (nat arg) es st'))"

section \<open>Undoing a command\<close>

text \<open>A state in which records can be undone, and the mark of an unmodified buffer.\<close>

definition undo_ok :: "nat \<Rightarrow> ed \<Rightarrow> ichar list \<Rightarrow> int \<Rightarrow> bool" where
  "undo_ok i st C t \<longleftrightarrow> open_ed st C 1 (1 + int (length C)) \<and> i < length (ed_bufs st) \<and>
     b_modtime (ed_bufs st ! i) = t"

definition saved :: "ed \<Rightarrow> bool" where
  "saved st \<longleftrightarrow> bt_save_modiff (ed_text st) = bt_modiff (ed_text st)"

lemma saved_norm: "saved (norm st) = saved st"
  by (simp add: saved_def norm_fields)

lemma modtime_spec:
  assumes "i < length (ed_bufs a)"
  shows "b_modtime (ed_bufs (insert_spec i n k S mp before a) ! i) = b_modtime (ed_bufs a ! i)"
    "length (ed_bufs (insert_spec i n k S mp before a)) = length (ed_bufs a)"
    "b_modtime (ed_bufs (delete_spec i n m k s asc a) ! i) = b_modtime (ed_bufs a ! i)"
    "length (ed_bufs (delete_spec i n m k s asc a)) = length (ed_bufs a)"
proof -
  have bu: "b_modtime (ed_bufs st' ! i) = b_modtime (ed_bufs (before_change x y a) ! i) \<and> length (ed_bufs st') = length (ed_bufs a)"
    if "but_undo st' = but_undo (before_change x y a)" for st' x y
  proof -
    have l: "length (ed_bufs st') = length (ed_bufs (before_change x y a))" by (rule but_undo_sel(2) [OF that])
    have la: "length (ed_bufs (before_change x y a)) = length (ed_bufs a)" by (rule undo_view_length [OF undo_view_before_change])
    have b: "map (\<lambda>b. b\<lparr>b_undo_list := U_t\<rparr>) (ed_bufs st') = map (\<lambda>b. b\<lparr>b_undo_list := U_t\<rparr>) (ed_bufs (before_change x y a))"
      using that unfolding but_undo_def by (cases st'; cases "before_change x y a"; simp)
    from arg_cong [OF this, of "\<lambda>bs. b_modtime (bs ! i)"] l la assms show ?thesis by simp
  qed
  note v = undo_view_before_change [of i _ _ a, unfolded undo_view_def prod.inject]
  show "b_modtime (ed_bufs (insert_spec i n k S mp before a) ! i) = b_modtime (ed_bufs a ! i)"
    "length (ed_bufs (insert_spec i n k S mp before a)) = length (ed_bufs a)"
    using undo_view_insert_spec [OF assms, of n k S mp before] bu [OF recorded_inserts(2)] v by (simp_all add: undo_view_def)
  show "b_modtime (ed_bufs (delete_spec i n m k s asc a) ! i) = b_modtime (ed_bufs a ! i)"
    "length (ed_bufs (delete_spec i n m k s asc a)) = length (ed_bufs a)"
    using undo_view_delete_spec [OF assms, of n m k s asc] bu [OF recorded_deletes(2)] v by (simp_all add: undo_view_def)
qed

lemma undo_ok_modtime: "i < length (ed_bufs st) \<Longrightarrow> b_modtime (ed_bufs (norm st) ! i) = b_modtime (ed_bufs st ! i)"
  by (simp add: norm_def norm_buf_def)

lemma set_point_undo:
  assumes st: "undo_ok i st C t" and x: "1 \<le> x" "x \<le> 1 + int (length C)"
  shows "\<exists>st'. BUF_SET_PT i x st = Some (Inr (), st') \<and> undo_ok i st' C t \<and> b_bufpt (ed_bufs st' ! i) = x \<and> saved st' = saved st"
proof -
  note s = st [unfolded undo_ok_def]
  have rep: "ed_rep st C" and i: "i < length (ed_bufs st)" using s by (simp_all add: open_ed_def)
  obtain st1 where 1: "ed_charbpos_to_bytebpos i x st = Some (Inr (char_to_byte C x), st1)" "cached C st st1"
    using ed_charbpos_to_bytebpos_ok [OF rep i x] by blast
  note c = cached_ok [OF 1(2)]
  have b: "b_bufbegv (ed_bufs st ! i) = 1" "b_bufzv (ed_bufs st ! i) = 1 + int (length C)"
    using s i by (auto simp: open_ed_def uniform_def)
  obtain st2 where 2: "set_buffer_point i x (char_to_byte C x) st1 = Some (Inr (), st2)" "ed_rep st2 C"
    "norm st2 = upd_buf i (point_set x (char_to_byte C x)) (norm st)" "ed_text st2 = ed_text st1"
    "ed_quit st2 = ed_quit st1" "ed_inhibit_quit st2 = ed_inhibit_quit st1" "length (ed_bufs st2) = length (ed_bufs st)"
    using set_buffer_point_ok [OF c(3) [OF rep], of i x] i x b unfolding c(1,2) by auto
  have "uniform 1 (1 + int (length C)) (norm st2)"
    unfolding 2(3) by (rule uniform_upd_buf(1)) (use s in \<open>simp_all add: open_ed_def uniform_norm point_set_sel\<close>)
  then have w: "uniform 1 (1 + int (length C)) st2" by (simp add: uniform_norm)
  have i2: "i < length (ed_bufs st2)" using i 2(7) by simp
  have nb: "norm_buf (ed_text st2) (ed_bufs st2 ! i) = point_set x (char_to_byte C x) (norm_buf (ed_text st) (ed_bufs st ! i))"
    using arg_cong [OF 2(3), of "\<lambda>s. ed_bufs s ! i"] i i2 by (simp add: norm_def upd_buf_def)
  have mt: "b_modtime (ed_bufs st2 ! i) = b_modtime (ed_bufs st ! i)"
    using arg_cong [OF nb, of b_modtime] by (simp add: norm_buf_def point_set_sel)
  have "b_pt (ed_bufs st2 ! i) = char_to_byte C x"
    using arg_cong [OF nb, of b_pt] by (simp add: norm_buf_def point_set_def set_marker_membpos_def JUST_SET_POINT_def split: if_splits)
  then have "char_to_byte C (b_bufpt (ed_bufs st2 ! i)) = char_to_byte C x" using ed_rep_buffer(5) [OF 2(2) i2] by simp
  moreover have "1 \<le> b_bufpt (ed_bufs st2 ! i)" "b_bufpt (ed_bufs st2 ! i) \<le> 1 + int (length C)"
    using ed_rep_buffer(1-4) [OF 2(2) i2] by linarith+
  ultimately have "b_bufpt (ed_bufs st2 ! i) = x" using char_to_byte_eq [OF ed_rep_chars_ok [OF rep]] x by blast
  moreover have "quiet st2" "ed_small st2" "saved st2 = saved st"
    using s c(4,5,13,14) 2(4-6) by (simp_all add: open_ed_def quiet_def ed_small_def saved_def)
  ultimately show ?thesis using 1(1) 2(1,2) w i2 s mt by (intro exI [of _ st2]) (simp add: BUF_SET_PT_def ebind_def undo_ok_def open_ed_def)
qed

lemma undo_ok_range:
  assumes "undo_ok i st C t"
  shows "b_bufbegv (ed_bufs st ! i) = 1" "b_bufzv (ed_bufs st ! i) = 1 + int (length C)"
proof -
  have "uniform 1 (1 + int (length C)) st" "ed_bufs st ! i \<in> set (ed_bufs st)" using assms by (simp_all add: undo_ok_def open_ed_def)
  then show "b_bufbegv (ed_bufs st ! i) = 1" "b_bufzv (ed_bufs st ! i) = 1 + int (length C)" by (auto simp: uniform_def)
qed

lemma undo_insertion:
  assumes st: "undo_ok i st C t" and n: "n + m \<le> length C"
  shows "\<exists>st'. undo_record i (U_insert (1 + int n) (1 + int n + int m)) st = Some (Inr True, st') \<and>
    undo_ok i st' (list_delete C n m) t"
proof -
  let ?b = "1 + int n" and ?e = "1 + int n + int m"
  note r = undo_ok_range [OF st]
  obtain st1 where 1: "BUF_SET_PT i ?b st = Some (Inr (), st1)" "undo_ok i st1 C t"
    using set_point_undo [OF st, of ?b] n by auto
  note r1 = undo_ok_range [OF 1(2)] and s1 = 1(2) [unfolded undo_ok_def]
  have g: "Fgoto_char i ?b st = Some (Inr ?b, st1)" using r n 1(1) by (simp add: Fgoto_char_def ebind_def Let_def)
  have d: "Fdelete_region i ?b ?e st1 = buffer_delete_range i ?b ?e st1"
    using r1 n by (simp add: Fdelete_region_def get_buffer_range_char_def)
  have "\<exists>st'. buffer_delete_range i ?b ?e st1 = Some (Inr (), st') \<and> undo_ok i st' (list_delete C n m) t"
  proof (cases "m = 0")
    case True
    then have "buffer_delete_range i ?b ?e st1 = Some (Inr (), st1)"
      using r1 n by (simp add: buffer_delete_range_def clip_range_def)
    with True 1(2) show ?thesis by (simp add: list_delete_def)
  next
    case False
    have i: "i < length (ed_bufs st1)" "0 < m" using s1 False by simp_all
    have ni: "i < length (ed_bufs (norm st1))" using i by (simp add: norm_fields)
    have e: "1 + int (length (list_delete C n m)) = 1 + int (length C) - int m" using n by simp
    obtain st' where 2: "buffer_delete_range i ?b ?e st1 = Some (Inr (), st')"
      "open_ed st' (list_delete C n m) 1 (1 + int (length (list_delete C n m)))"
      "norm st' = delete_spec i n m (bofs C n) (deleted_bytes C n m) (length (filter ascii_char (take m (drop n C)))) (norm st1)"
      using open_delete [OF _ i(1) n i(2), of 1 "1 + int (length C)"] s1 n unfolding e by auto
    have l: "length (ed_bufs st') = length (ed_bufs st1)"
      using modtime_spec(4) [OF ni] unfolding norm_fields(7) [of st', symmetric] 2(3) by (simp add: norm_fields)
    have "b_modtime (ed_bufs (norm st') ! i) = t"
      using modtime_spec(3) [OF ni] undo_ok_modtime [OF i(1)] s1 unfolding 2(3) by simp
    then have "b_modtime (ed_bufs st' ! i) = t" using undo_ok_modtime [of i st'] i l by simp
    then show ?thesis using 2(1,2) i l by (auto simp: undo_ok_def)
  qed
  then obtain st' where "buffer_delete_range i ?b ?e st1 = Some (Inr (), st')" "undo_ok i st' (list_delete C n m) t" by blast
  then show ?thesis using g d r n by (simp add: undo_record_def Let_def ebind_def)
qed

lemma undo_deletion:
  assumes st: "undo_ok i st C t" and p: "\<bar>p\<bar> = 1 + int n" and n: "n \<le> length C" and S: "chars_ok S"
    and bound: "length (concat C) + length (concat S) < 2 ^ 30"
  shows "\<exists>st'. undo_record i (U_delete (concat S) p) st = Some (Inr True, st') \<and> undo_ok i st' (list_insert C n S) t"
proof -
  let ?b = "1 + int n"
  note r = undo_ok_range [OF st]
  obtain st1 where 1: "BUF_SET_PT i ?b st = Some (Inr (), st1)" "undo_ok i st1 C t" "b_bufpt (ed_bufs st1 ! i) = ?b"
    using set_point_undo [OF st, of ?b] n by auto
  note s1 = 1(2) [unfolded undo_ok_def]
  have i: "i < length (ed_bufs st1)" using s1 by simp
  have ni: "i < length (ed_bufs (norm st1))" using i by (simp add: norm_fields)
  obtain st' where 2: "Finsert_string i (concat S) st1 = Some (Inr (int (length S)), st')"
    "open_ed st' (list_insert C n S) 1 (1 + int (length C) + int (length S))"
    "norm st' = insert_spec i n (bofs C n) S True False (norm st1)"
    using open_insert [OF _ i n _ _ S bound, of 1 "1 + int (length C)" "- 1" False] s1 1(3) n unfolding Finsert_string_def by auto
  have l: "length (ed_bufs st') = length (ed_bufs st1)"
    using modtime_spec(2) [OF ni] unfolding norm_fields(7) [of st', symmetric] 2(3) by (simp add: norm_fields)
  have "b_modtime (ed_bufs (norm st') ! i) = t"
    using modtime_spec(1) [OF ni] undo_ok_modtime [OF i] s1 unfolding 2(3) by simp
  then have "b_modtime (ed_bufs st' ! i) = t" using undo_ok_modtime [of i st'] i l by simp
  then have 3: "undo_ok i st' (list_insert C n S) t" using 2(2) i l by (simp add: undo_ok_def add.assoc)
  show ?thesis
  proof (cases "p < 0")
    case True
    then have "- p = ?b" using p by simp
    with True 1(1) 2(1) 3 r n show ?thesis by (simp add: undo_record_def Let_def ebind_def)
  next
    case False
    then have p: "p = ?b" using p by simp
    obtain st2 where "BUF_SET_PT i ?b st' = Some (Inr (), st2)" "undo_ok i st2 (list_insert C n S) t"
      using set_point_undo [OF 3, of ?b] n by auto
    with p 1(1) 2(1) r n show ?thesis by (simp add: undo_record_def Let_def ebind_def)
  qed
qed

lemma undo_position:
  assumes st: "undo_ok i st C t"
  shows "\<exists>st'. undo_record i (U_position p) st = Some (Inr True, st') \<and> undo_ok i st' C t \<and> saved st' = saved st"
proof -
  let ?x = "charbpos_clip_to_bounds (b_bufbegv (ed_bufs st ! i)) p (b_bufzv (ed_bufs st ! i))"
  have "1 \<le> ?x" "?x \<le> 1 + int (length C)" by (simp_all add: charbpos_clip_to_bounds_def undo_ok_range [OF st])
  from set_point_undo [OF st this] show ?thesis by (auto simp: undo_record_def Let_def ebind_def)
qed

lemma undo_unmodified:
  assumes "undo_ok i st C t"
  shows "undo_ok i (Fset_buffer_unmodified st) C t" "saved (Fset_buffer_unmodified st)"
proof -
  let ?t = "\<lambda>t::buffer_text. t\<lparr>bt_modiff := bt_modiff t + 1, bt_save_modiff := bt_modiff t + 1\<rparr>"
  have "buffer_ok (?t x) C = buffer_ok x C" for x
    by (simp add: fun_eq_iff buffer_ok_def marker_ok_def valid_membpos_p_def membpos_to_bytebpos_def)
  moreover have "bt_layout (?t x) = bt_layout x" for x by (simp add: fun_eq_iff bt_layout_def)
  ultimately show "undo_ok i (Fset_buffer_unmodified st) C t" using assms
    by (simp add: undo_ok_def Fset_buffer_unmodified_def upd_text_def ed_rep_def caches_ok_def quiet_def ed_small_def
        block_size_def open_ed_def uniform_def)
  show "saved (Fset_buffer_unmodified st)" by (simp add: saved_def Fset_buffer_unmodified_def upd_text_def)
qed

text \<open>The records are undone as the relation says.\<close>

lemma undo_group_ok:
  assumes "undoes t es C u C' u' r" "undo_ok i st C t" "u \<longrightarrow> saved st"
  shows "\<exists>st'. undo_group i es st = Some (Inr r, st') \<and> undo_ok i st' C' t \<and> (u' \<longrightarrow> saved st')"
  using assms
proof (induction arbitrary: st rule: undoes.induct)
  case (und_position es C u C' u' r p)
  obtain st1 where 1: "undo_record i (U_position p) st = Some (Inr True, st1)" "undo_ok i st1 C t" "saved st1 = saved st"
    using undo_position [OF und_position.prems(1)] by blast
  with und_position.IH [OF 1(2)] und_position.prems(2) show ?case by (simp add: ebind_def)
next
  case (und_modtime es C C' u' r u)
  have "undo_record i (U_modtime t) st = Some (Inr True, Fset_buffer_unmodified st)"
    using und_modtime.prems(1) by (simp add: undo_record_def undo_ok_def Let_def)
  with und_modtime.IH [OF undo_unmodified(1) [OF und_modtime.prems(1)]] undo_unmodified(2) [OF und_modtime.prems(1)]
  show ?case by (simp add: ebind_def)
next
  case (und_insert n m C es C' u' r u)
  obtain st1 where 1: "undo_record i (U_insert (1 + int n) (1 + int n + int m)) st = Some (Inr True, st1)"
    "undo_ok i st1 (list_delete C n m) t" using undo_insertion [OF und_insert.prems(1) und_insert.hyps(1)] by blast
  with und_insert.IH [OF 1(2)] show ?case by (simp add: ebind_def)
next
  case (und_delete p n C S es C' u' r u)
  obtain st1 where 1: "undo_record i (U_delete (concat S) p) st = Some (Inr True, st1)"
    "undo_ok i st1 (list_insert C n S) t" using undo_deletion [OF und_delete.prems(1) und_delete.hyps(1-4)] by blast
  with und_delete.IH [OF 1(2)] show ?case by (simp add: ebind_def)
next
  case (und_boundary es C u)
  then show ?case by (simp add: undo_record_def ebind_def)
qed simp

text \<open>C3: whatever a command inserts into a buffer without restriction and deletes from it, undoing the records that it has left in
  the undo list gives the text back, the rest of the list is what was there before the boundary, and
  the buffer is marked unmodified again if it was before the command.\<close>

theorem primitive_undo_restores:
  assumes "open_ed st C 1 (1 + int (length C))" "i < length (ed_bufs st)"
    and "b_undo_list (ed_bufs st ! i) = U_list es" "at_boundary es" "edits_ok eds C"
  shows "\<exists>st1 es1 st2. do_edits i eds st = Some (Inr (), st1) \<and> ed_rep st1 (fold edit_chars eds C) \<and>
    b_undo_list (ed_bufs st1 ! i) = U_list es1 \<and>
    Fprimitive_undo i 1 es1 st1 = Some (Inr (tl es), st2) \<and> ed_rep st2 C \<and>
    (unmodified st \<and> eds \<noteq> [] \<longrightarrow> bt_save_modiff (ed_text st2) = bt_modiff (ed_text st2))"
proof -
  let ?t = "b_modtime (ed_bufs st ! i)"
  have "command_state i st C es" using assms by (simp add: command_state_def)
  from do_edits_ok [OF this undoes_at_boundary [OF assms(4)] assms(5)] obtain st1 es1 u1 where
    1: "do_edits i eds st = Some (Inr (), st1)" "command_state i st1 (fold edit_chars eds C) es1"
      "b_modtime (ed_bufs st1 ! i) = ?t" "undoes ?t es1 (fold edit_chars eds C) False C u1 (tl es)"
      "unmodified st \<and> eds \<noteq> [] \<longrightarrow> u1" using assms(4) by blast
  note c = 1(2) [unfolded command_state_def]
  let ?st1 = "if b_read_only (ed_bufs st1 ! i) then st1 else st1\<lparr>ed_inhibit_read_only := True\<rparr>"
  have "undo_ok i ?st1 (fold edit_chars eds C) ?t"
    using c 1(3) by (simp add: undo_ok_def open_ed_def ed_rep_def quiet_def ed_small_def uniform_def)
  from undo_group_ok [OF 1(4) this] obtain st2 where
    2: "undo_group i es1 ?st1 = Some (Inr (tl es), st2)" "undo_ok i st2 C ?t" "u1 \<longrightarrow> saved st2" by auto
  let ?st2 = "st2\<lparr>ed_inhibit_read_only := ed_inhibit_read_only st1\<rparr>"
  have "Fprimitive_undo i 1 es1 st1 = Some (Inr (tl es), ?st2)"
    using 2(1) unfolding Fprimitive_undo_def Let_def by (simp add: ebind_def)
  moreover have "ed_rep ?st2 C" using 2(2) by (simp add: undo_ok_def open_ed_def ed_rep_def)
  ultimately show ?thesis using 1(1,5) 2(3) c by (intro exI [of _ st1] exI [of _ es1] exI [of _ ?st2]) (simp add: saved_def open_ed_def)
qed

theorem primitive_undo_restores_witness:
  "\<exists>st1 es1 st2. do_edits 0 [Del 1 2, Ins 0 [[0x63], [0x81, 0xE0]]] sample_ed = Some (Inr (), st1) \<and>
     ed_rep st1 [[0x63], [0x81, 0xE0], [0x61], [0x62]] \<and>
     Fprimitive_undo 0 1 es1 st1 = Some (Inr [], st2) \<and> ed_rep st2 sample_chars"
proof -
  let ?eds = "[Del 1 2, Ins 0 [[0x63], [0x81, 0xE0]]]"
  have "open_ed sample_ed sample_chars 1 (1 + int (length sample_chars))" "b_undo_list (ed_bufs sample_ed ! 0) = U_list []"
    "0 < length (ed_bufs sample_ed)"
    using sample_rep
    by (simp_all add: open_ed_def uniform_def sample_chars_def sample_ed_def sample_text_def sample_buffer_def)
  moreover have "edits_ok ?eds sample_chars"
    by (simp add: sample_chars_def list_delete_def ichar_ok_def rep_bytes_by_first_byte_def ibyte_first_byte_p_def)
  moreover have "fold edit_chars ?eds sample_chars = [[0x63], [0x81, 0xE0], [0x61], [0x62]]"
    by (simp add: sample_chars_def list_delete_def list_insert_def)
  ultimately show ?thesis
    using primitive_undo_restores [of sample_ed sample_chars 0 "[]" ?eds] by (fastforce simp: at_boundary_def)
qed

end
