(* ===== verification/Buffer_Replace.thy ===== *)
theory Buffer_Replace
  imports Buffer_Frame
begin

text \<open>
  Replacing a character (\<open>buffer_replace_char\<close> of \<open>src/insdel.c\<close>): the bytes are overwritten when the
  new character is as long as the old one, and otherwise the old character is deleted and the new one
  inserted, at a position that is first made to fit the text as it is after the deletion.
\<close>

section \<open>The character at a position\<close>

lemma those_reads:
  assumes "holds mem p c"
  shows "those (map (mem_read mem) [p..<p + length c]) = Some c"
proof -
  have "[p..<p + length c] = map (\<lambda>j. p + j) [0..<length c]" by (simp add: map_add_upt add.commute)
  moreover have "those (map (\<lambda>j. mem_read mem (p + j)) [0..<length c]) = Some (map (\<lambda>j. c ! j) [0..<length c])"
    by (rule those_map_Some) (use assms in \<open>simp add: holds_def\<close>)
  ultimately show ?thesis by (simp add: comp_def map_nth)
qed

lemma BYTE_BUF_FETCH_CHAR_ok:
  assumes lay: "bt_layout t L g R eg" "C = L @ R" and n: "n < length C"
  shows "BYTE_BUF_FETCH_CHAR t (1 + int (bofs C n)) = Some (C ! n)"
proof -
  have ok: "chars_ok C" using lay by (auto simp: bt_layout_def)
  have gpt: "bt_gpt t = 1 + bofs C (length L)" using lay by (simp add: bt_layout_def bofs_append bofs_all)
  have "length L \<le> n \<or> Suc n \<le> length L" by linarith
  then have side: "int (bt_gpt t) \<le> 1 + int (bofs C n) \<or> 1 + int (bofs C (n + 1)) \<le> int (bt_gpt t)"
    using bofs_mono [OF ok, of "length L" n] bofs_mono [OF ok, of "Suc n" "length L"] n lay(2) gpt by auto
  have le: "1 + int (bofs C (n + 1)) \<le> 1 + int (length (concat (L @ R)))" using bofs_le [of C "n + 1"] lay(2) by simp
  have "deleted_bytes C n 1 = C ! n" using n by (simp add: deleted_bytes_def take_Suc_conv_app_nth)
  then have h: "holds (bt_beg t) (BYTE_BUF_BYTE_ADDRESS t (1 + int (bofs C n))) (C ! n)"
    using stretch_holds [OF lay(1) _ _ le side] seg_bytes [of C n 1] bofs_mono [OF ok, of n "n + 1"] n
    by (simp add: lay(2) [symmetric])
  have "ichar_ok (C ! n)" using ok n by simp
  then obtain b bs where c: "C ! n = b # bs" "rep_bytes_by_first_byte b = Some (length (C ! n))"
    by (auto simp: ichar_ok_def split: list.splits)
  with h have "mem_read (bt_beg t) (BYTE_BUF_BYTE_ADDRESS t (1 + int (bofs C n))) = Some b" by (simp add: holds_Cons)
  with c(2) those_reads [OF h] show ?thesis by (simp add: BYTE_BUF_FETCH_CHAR_def Let_def)
qed

section \<open>Overwriting\<close>

lemma bofs_update:
  assumes "length c = length (C ! n)"
  shows "bofs (C[n := c]) k = bofs C k"
proof -
  have "map length (C[n := c]) = map length C" using assms
    by (cases "n < length C") (simp_all add: map_update list_update_same_conv list_update_beyond)
  then show ?thesis by (simp add: bofs_def length_concat take_map [symmetric])
qed

lemma mem_copy_middle:
  "length x = length y \<Longrightarrow> p = length A \<Longrightarrow> mem_copy (A @ x @ B) p y = A @ y @ B"
  by (simp add: mem_copy_def)

lemma overwritten_layout:
  assumes lay: "bt_layout t L g R eg" "C = L @ R" and n: "n < length C" and c: "ichar_ok c" "length c = length (C ! n)"
  defines "t' \<equiv> t\<lparr>bt_beg := mem_copy (bt_beg t) (BYTE_BUF_BYTE_ADDRESS t (1 + int (bofs C n))) (map Some c)\<rparr>"
  shows "\<exists>L' R'. bt_layout t' L' g R' eg \<and> C[n := c] = L' @ R'"
proof (cases "n < length L")
  case True
  let ?A = "map Some (concat (take n L))" and ?B = "map Some (concat (drop (Suc n) L)) @ g @ map Some (concat R) @ eg"
  have s: "L = take n L @ L ! n # drop (Suc n) L" by (rule id_take_nth_drop [OF True])
  have Cn: "C ! n = L ! n" using True lay(2) by (simp add: nth_append)
  have mem: "bt_beg t = ?A @ map Some (L ! n) @ ?B"
    using lay(1) arg_cong [OF s, of "\<lambda>L. map Some (concat L)"] by (simp add: bt_layout_def)
  have bo: "bofs C n = length (concat (take n L))" using True lay(2) by (simp add: bofs_def)
  have "chars_ok C" using lay by (auto simp: bt_layout_def)
  then have "bofs C n < bofs C (length L)" using bofs_less [of C n "length L"] True lay(2) by simp
  moreover have "bt_gpt t = 1 + bofs C (length L)" using lay by (simp add: bt_layout_def bofs_append bofs_all)
  ultimately have "BYTE_BUF_BYTE_ADDRESS t (1 + int (bofs C n)) = bofs C n" by (simp add: BYTE_BUF_BYTE_ADDRESS_def)
  then have "BYTE_BUF_BYTE_ADDRESS t (1 + int (bofs C n)) = length ?A" using bo by simp
  then have "bt_beg t' = ?A @ map Some c @ ?B"
    using c(2) Cn mem_copy_middle [of "map Some (L ! n)" "map Some c" "length ?A" ?A ?B] by (simp add: t'_def mem)
  also have "\<dots> = map Some (concat (L[n := c])) @ g @ map Some (concat R) @ eg"
    using True by (simp add: upd_conv_take_nth_drop)
  finally have mem': "bt_beg t' = map Some (concat (L[n := c])) @ g @ map Some (concat R) @ eg" .
  have "length (concat (L[n := c])) = length (concat L)"
    using bofs_update [of c L n "length L"] c(2) Cn by (simp add: bofs_def)
  moreover have "chars_ok (L[n := c])" using lay(1) c(1) by (auto simp: bt_layout_def dest!: set_update_subset_insert [THEN subsetD])
  ultimately have "bt_layout t' (L[n := c]) g R eg" using lay(1) mem' by (simp add: bt_layout_def) (simp add: t'_def)
  moreover have "C[n := c] = L[n := c] @ R" using True lay(2) by (simp add: list_update_append1)
  ultimately show ?thesis by blast
next
  case False
  let ?k = "n - length L"
  have k: "?k < length R" using False n lay(2) by simp
  let ?A = "map Some (concat L) @ g @ map Some (concat (take ?k R))" and ?B = "map Some (concat (drop (Suc ?k) R)) @ eg"
  have s: "R = take ?k R @ R ! ?k # drop (Suc ?k) R" by (rule id_take_nth_drop [OF k])
  have Cn: "C ! n = R ! ?k" using False lay(2) by (simp add: nth_append)
  have mem: "bt_beg t = ?A @ map Some (R ! ?k) @ ?B"
    using lay(1) arg_cong [OF s, of "\<lambda>R. map Some (concat R)"] by (simp add: bt_layout_def)
  have "bofs C n = length (concat L) + length (concat (take ?k R))" using False lay(2) by (simp add: bofs_def)
  moreover have "bt_gpt t = 1 + length (concat L)" "bt_gap_size t = length g" using lay by (simp_all add: bt_layout_def)
  ultimately have "BYTE_BUF_BYTE_ADDRESS t (1 + int (bofs C n)) = length ?A" by (simp add: BYTE_BUF_BYTE_ADDRESS_def)
  then have "bt_beg t' = ?A @ map Some c @ ?B"
    using c(2) Cn mem_copy_middle [of "map Some (R ! ?k)" "map Some c" "length ?A" ?A ?B] by (simp add: t'_def mem)
  also have "\<dots> = map Some (concat L) @ g @ map Some (concat (R[?k := c])) @ eg"
    using k by (simp add: upd_conv_take_nth_drop)
  finally have mem': "bt_beg t' = map Some (concat L) @ g @ map Some (concat (R[?k := c])) @ eg" .
  have "length (concat (R[?k := c])) = length (concat R)"
    using bofs_update [of c R ?k "length R"] c(2) Cn by (simp add: bofs_def)
  moreover have "chars_ok (R[?k := c])" using lay(1) c(1) by (auto simp: bt_layout_def dest!: set_update_subset_insert [THEN subsetD])
  ultimately have "bt_layout t' L g (R[?k := c]) eg" using lay(1) mem' by (simp add: bt_layout_def) (simp add: t'_def)
  moreover have "C[n := c] = L @ R[?k := c]" using False lay(2) by (simp add: list_update_append)
  ultimately show ?thesis by blast
qed

lemma count_ascii_update:
  assumes "n < length C"
  shows "int (length (filter ascii_char (C[n := c]))) =
    int (length (filter ascii_char C)) - (if ascii_char (C ! n) then 1 else 0) + (if ascii_char c then 1 else 0)"
proof -
  have "length (filter ascii_char C) = length (filter ascii_char (take n C @ C ! n # drop (Suc n) C))"
    using id_take_nth_drop [OF assms] by simp
  then show ?thesis using assms by (simp add: upd_conv_take_nth_drop)
qed


text \<open>A state after records and conversions: the same text with other caches, the same buffers with other undo lists.\<close>

definition settled :: "ichar list \<Rightarrow> ed \<Rightarrow> ed \<Rightarrow> bool" where
  "settled C st st' \<longleftrightarrow> (\<exists>a. but_undo a = but_undo st \<and> cached C a st')"

lemma settled_cached: "cached C st st' \<Longrightarrow> settled C st st'"
  by (auto simp: settled_def)

lemma settled_trans:
  assumes "settled C st st1" "settled C st1 st2"
  shows "settled C st st2"
proof -
  obtain a t where a: "but_undo a = but_undo st" "st1 = a\<lparr>ed_text := t\<rparr>" "same_but_caches (ed_text a) t"
    using assms(1) by (auto simp: settled_def cached_def)
  obtain b t' where b: "but_undo b = but_undo st1" "st2 = b\<lparr>ed_text := t'\<rparr>" "same_but_caches (ed_text b) t'" "caches_ok t' C"
    using assms(2) by (auto simp: settled_def cached_def)
  have tb: "ed_text b = t" using but_undo_sel(1) [OF b(1)] by (simp add: a(2))
  have "but_undo (b\<lparr>ed_text := ed_text a\<rparr>) = (but_undo b)\<lparr>ed_text := ed_text a\<rparr>" by (simp add: but_undo_def)
  also have "\<dots> = but_undo a" unfolding b(1) a(2) by (simp add: but_undo_def)
  finally have 1: "but_undo (b\<lparr>ed_text := ed_text a\<rparr>) = but_undo st" using a(1) by simp
  have 2: "cached C (b\<lparr>ed_text := ed_text a\<rparr>) st2"
    using same_but_caches_trans [OF a(3)] b(2-4) tb unfolding cached_def by (intro exI [of _ t']) simp
  from 1 2 show ?thesis unfolding settled_def by blast
qed

lemma settled_ok:
  assumes "settled C st st'"
  shows "open_ed st C lo hi \<Longrightarrow> open_ed st' C lo hi" "ed_rep st C \<Longrightarrow> ed_rep st' C" "editable st' = editable st"
    "length (ed_bufs st') = length (ed_bufs st)" "same_but_caches (ed_text st) (ed_text st')" "quiet st' = quiet st"
    "bt_num_ascii_chars (ed_text st') = bt_num_ascii_chars (ed_text st)"
proof -
  obtain a t where a: "but_undo a = but_undo st" "cached C a st'" "st' = a\<lparr>ed_text := t\<rparr>" "same_but_caches (ed_text a) t"
    using assms by (auto simp: settled_def cached_def)
  note b = but_undo_sel [OF a(1)] and c = cached_ok [OF a(2)]
  show rep: "ed_rep st C \<Longrightarrow> ed_rep st' C" using b(7) c(3) by simp
  show "editable st' = editable st" using editable_cached [OF a(2)] b(11) by simp
  show "length (ed_bufs st') = length (ed_bufs st)" using c(2) b(2) by simp
  show "same_but_caches (ed_text st) (ed_text st')" using a(3,4) b(1) by simp
  then show "bt_num_ascii_chars (ed_text st') = bt_num_ascii_chars (ed_text st)" by (rule same_but_caches_sel(11))
  show "quiet st' = quiet st" using c(4) b(8) by simp
  have "uniform lo hi st' = uniform lo hi a" using c(2,11,12) by (simp add: uniform_def)
  then show "open_ed st C lo hi \<Longrightarrow> open_ed st' C lo hi"
    using rep b(8,9) c(4,5) uniform_but_undo [OF a(1)] by (simp add: open_ed_def)
qed

lemma record_change_settles:
  assumes rep: "ed_rep st C" and nm: "n + m \<le> length C" and ed: "editable st (1 + int n) (1 + int n + int m)"
  shows "\<exists>st'. map_indirect_buffers (record_change (1 + int n) (int m)) st = Some (Inr (), st') \<and> settled C st st'"
proof -
  have "\<exists>st'. eloop (record_change (1 + int n) (int m)) js st1 = Some (Inr (), st') \<and> settled C st st'"
    if "settled C st st1" "\<forall>j\<in>set js. j < length (ed_bufs st)" for js st1 using that
  proof (induction js arbitrary: st1)
    case (Cons j js)
    note s1 = settled_ok [OF Cons.prems(1)]
    have rep1: "ed_rep st1 C" and ed1: "editable st1 (1 + int n) (1 + int n + int m)" and j: "j < length (ed_bufs st1)"
      using s1(2-4) rep ed Cons.prems(2) by simp_all
    from record_delete_ok [OF rep1 j nm ed1] obtain st2 where
      2: "record_delete (1 + int n) (int m) j st1 = Some (Inr (), st2)"
        "cached C (delete_recorded (deleted_bytes C n m) (1 + int n) (int m) j st1) st2" by blast
    then have s2: "settled C st1 st2" using but_undo_recorded(2) unfolding settled_def by blast
    have 3: "record_insert (1 + int n) (int m) j st2 = Some (Inr (), insert_recorded (1 + int n) (int m) j st2)"
      by (auto simp: record_insert_def insert_recorded_def split: prod.splits)
    let ?st3 = "insert_recorded (1 + int n) (int m) j st2"
    have bu: "but_undo ?st3 = but_undo st2" by (rule but_undo_recorded(1))
    have rep2: "ed_rep st2 C" using settled_ok(2) [OF s2] rep1 by simp
    then have "ed_rep ?st3 C" using but_undo_sel(7) [OF bu] by simp
    then have "settled C st2 ?st3" using bu cached_refl unfolding settled_def by blast
    with s2 Cons.prems(1) have "settled C st ?st3" using settled_trans by blast
    with Cons.IH [of ?st3] Cons.prems(2) 2(1) 3 show ?case by (simp add: record_change_def ebind_def)
  qed simp
  from this [OF settled_cached [OF cached_refl [OF rep]], of "[0..<length (ed_bufs st)]"] show ?thesis by simp
qed

lemma buffer_ok_cong:
  assumes "bt_gpt t' = bt_gpt t" "bt_gap_size t' = bt_gap_size t" "bt_z t' = bt_z t" "pos_pair C' = pos_pair C"
  shows "buffer_ok t' C' b = buffer_ok t C b"
  using assms by (simp add: buffer_ok_def buffer_pairs_ok_def marker_ok_def valid_membpos_p_def membpos_to_bytebpos_def)

lemma pos_pair_update:
  "length c = length (C ! n) \<Longrightarrow> pos_pair (C[n := c]) = pos_pair C"
  by (simp add: fun_eq_iff pos_pair_def char_to_byte_def bofs_update)

lemma overwrite_char_ok:
  assumes st: "open_ed st C lo hi" and i: "i < length (ed_bufs st)" and n: "lo \<le> 1 + int n" "1 + int n < hi" "n < length C"
    and c: "ichar_ok c" "length c = length (C ! n)"
  shows "\<exists>st'. overwrite_char i (1 + int n) c (C ! n) nrc st = Some (Inr (), st') \<and> open_ed st' (C[n := c]) lo hi \<and>
    length (ed_bufs st') = length (ed_bufs st)"
proof -
  let ?pos = "1 + int n" and ?C = "C[n := c]"
  have rep: "ed_rep st C" using st by (simp add: open_ed_def)
  have ok: "chars_ok C" by (rule ed_rep_chars_ok [OF rep])
  have r: "1 \<le> ?pos" "?pos \<le> 1 + int (length C)" using n(3) by simp_all
  have asc: "length x = 1 \<and> byte_ascii_p (hd x) \<longleftrightarrow> ascii_char x" for x
    by (cases x) (auto simp: ascii_char_def)
  obtain st1 where 1: "ed_charbpos_to_bytebpos i ?pos st = Some (Inr (1 + int (bofs C n)), st1)" "cached C st st1"
    using ed_charbpos_to_bytebpos_ok [OF rep i r] unfolding char_to_byte_bofs by blast
  have o1: "open_ed st1 C lo hi" using settled_ok(1) [OF settled_cached [OF 1(2)]] st by simp
  have rep1: "ed_rep st1 C" using o1 by (simp add: open_ed_def)
  obtain L g R eg where lay1: "bt_layout (ed_text st1) L g R eg" "C = L @ R" using rep1 by (auto simp: ed_rep_def)
  have f: "BYTE_BUF_FETCH_CHAR (ed_text st1) (1 + int (bofs C n)) = Some (C ! n)" by (rule BYTE_BUF_FETCH_CHAR_ok [OF lay1 n(3)])
  let ?nl = "\<lambda>st. if C ! n = [0x0A] then upd_bufs (\<lambda>b. b\<lparr>b_newline_was_deleted := True\<rparr>) st else st"
  have o2: "open_ed (?nl st1) C lo hi" "length (ed_bufs (?nl st1)) = length (ed_bufs st)"
    using o1 cached_ok(2) [OF 1(2)]
    by (auto simp: open_ed_def ed_rep_def upd_bufs_def buffer_ok_def buffer_pairs_ok_def quiet_def ed_small_def uniform_def)
  have ed2: "editable (?nl st1) ?pos (?pos + int 1)" using uniform_editable [of lo hi "?nl st1" ?pos "?pos + int 1"] o2(1) n by (simp add: open_ed_def)
  have rep2: "ed_rep (?nl st1) C" using o2(1) by (simp add: open_ed_def)
  let ?rec = "\<lambda>st. if nrc then Some (Inr (), st)
             else ebind (map_indirect_buffers (record_change ?pos 1) st) (\<lambda>_ st.
               Some (Inr (), upd_text (\<lambda>t. t\<lparr>bt_modiff := bt_modiff t + 1\<rparr>) st))"
  have mod_ok: "open_ed (upd_text (\<lambda>t. t\<lparr>bt_modiff := bt_modiff t + 1\<rparr>) st3) C lo hi" if "open_ed st3 C lo hi" for st3
  proof -
    have "buffer_ok ((ed_text st3)\<lparr>bt_modiff := bt_modiff (ed_text st3) + 1\<rparr>) C b = buffer_ok (ed_text st3) C b" for b
      by (rule buffer_ok_cong) simp_all
    then show ?thesis using that by (simp add: open_ed_def ed_rep_def upd_text_def caches_ok_def quiet_def ed_small_def block_size_def
      uniform_def bt_layout_def)
  qed
  have "\<exists>st3. ?rec (?nl st1) = Some (Inr (), st3) \<and> open_ed st3 C lo hi \<and> length (ed_bufs st3) = length (ed_bufs st)"
  proof (cases nrc)
    case False
    obtain st2 where 2: "map_indirect_buffers (record_change ?pos (int 1)) (?nl st1) = Some (Inr (), st2)" "settled C (?nl st1) st2"
      using record_change_settles [OF rep2 _ ed2] n(3) by auto
    let ?st3 = "upd_text (\<lambda>t. t\<lparr>bt_modiff := bt_modiff t + 1\<rparr>) st2"
    have "open_ed ?st3 C lo hi" using mod_ok settled_ok(1) [OF 2(2) o2(1)] .
    moreover have "length (ed_bufs ?st3) = length (ed_bufs st)" using settled_ok(4) [OF 2(2)] o2(2) by (simp add: upd_text_def)
    ultimately show ?thesis using 2(1) False by (simp add: ebind_def)
  qed (use o2 in simp)
  then obtain st3 where 3: "?rec (?nl st1) = Some (Inr (), st3)" "open_ed st3 C lo hi" "length (ed_bufs st3) = length (ed_bufs st)"
    by blast
  let ?st4 = "upd_text (\<lambda>t. t\<lparr>bt_num_ascii_chars := bt_num_ascii_chars t - (if ascii_char (C ! n) then 1 else 0)
                 + (if ascii_char c then 1 else 0)\<rparr>) st3"
  have i3: "i < length (ed_bufs st3)" using i 3(3) by simp
  have rep3: "ed_rep st3 C" using 3(2) by (simp add: open_ed_def)
  let ?t4 = "ed_text ?st4"
  obtain L g R eg where lay: "bt_layout (ed_text st3) L g R eg" "C = L @ R" using rep3 by (auto simp: ed_rep_def)
  then have lay4: "bt_layout ?t4 L g R eg" by (simp add: upd_text_def bt_layout_def)
  have "ed_bufs st3 ! i \<in> set (ed_bufs st3)" using i3 by simp
  then have bp: "buffer_pairs_ok (ed_bufs st3 ! i) (L @ R)" using rep3 lay(2) by (auto simp: ed_rep_def buffer_ok_def)
  have ca: "caches_ok ?t4 (L @ R)" using rep3 lay(2) by (simp add: ed_rep_def upd_text_def caches_ok_def)
  have one4: "bt_entirely_one_byte_p ?t4 \<longleftrightarrow> bt_bufz ?t4 = bt_z ?t4" using rep3 by (simp add: ed_rep_def upd_text_def)
  obtain t5 where 5: "charbpos_to_bytebpos ?t4 (ed_bufs st3 ! i) ?pos = Some (1 + int (bofs C n), t5)"
    "same_but_caches ?t4 t5" "caches_ok t5 C"
    using charbpos_to_bytebpos_ok [OF lay4 ca bp one4 r(1)] r(2) lay(2) char_to_byte_bofs [of C n] by auto
  let ?t6 = "t5\<lparr>bt_beg := mem_copy (bt_beg t5) (BYTE_BUF_BYTE_ADDRESS t5 (1 + int (bofs C n))) (map Some c)\<rparr>"
  let ?st6 = "?st4\<lparr>ed_text := ?t6\<rparr>"
  note sel = same_but_caches_sel [OF 5(2)]
  have lay5: "bt_layout t5 L g R eg" using same_but_caches_norm(4) [OF 5(2)] lay4 by simp
  obtain L' R' where lay6: "bt_layout ?t6 L' g R' eg" "?C = L' @ R'"
    using overwritten_layout [OF lay5 lay(2) n(3) c] by blast
  have pp: "pos_pair ?C = pos_pair C" by (rule pos_pair_update [OF c(2)])
  have rep6: "ed_rep ?st6 ?C"
  proof (rule ed_repI)
    show "bt_layout (ed_text ?st6) L' g R' eg" using lay6(1) by simp
    show "?C = L' @ R'" by (rule lay6(2))
    show "caches_ok (ed_text ?st6) ?C" using 5(3) by (simp add: caches_ok_def pp)
    show "bt_entirely_one_byte_p (ed_text ?st6) = (bt_bufz (ed_text ?st6) = bt_z (ed_text ?st6))"
      using rep3 sel by (simp add: ed_rep_def upd_text_def)
    show "bt_num_ascii_chars (ed_text ?st6) = int (length (filter ascii_char ?C))"
      using rep3 sel(11) count_ascii_update [OF n(3), of c] by (simp add: ed_rep_def upd_text_def)
    show "buffer_ok (ed_text ?st6) ?C b" if "b \<in> set (ed_bufs ?st6)" for b
    proof -
      have "buffer_ok (ed_text st3) C b" using rep3 that by (simp add: ed_rep_def upd_text_def)
      moreover have "buffer_ok (ed_text ?st6) ?C b = buffer_ok (ed_text st3) C b"
        by (rule buffer_ok_cong) (use sel pp in \<open>simp_all add: upd_text_def\<close>)
      ultimately show ?thesis by simp
    qed
  qed
  have mc6: "bt_in_multiple_change (ed_text ?st6) = 0"
    using 3(2) sel(12) by (simp add: open_ed_def uniform_def upd_text_def)
  have o6: "open_ed ?st6 ?C lo hi"
    using 3(2) rep6 mc6 sel by (simp add: open_ed_def quiet_def ed_small_def block_size_def uniform_def upd_text_def)
  have i6: "i < length (ed_bufs ?st6)" using i3 by (simp add: upd_text_def)
  have r6: "1 \<le> ?pos" "?pos \<le> 1 + int (length ?C)" "1 \<le> ?pos + 1" "?pos + 1 \<le> 1 + int (length ?C)" using n(3) by simp_all
  obtain st7 where 7: "signal_after_change i ?pos (?pos + 1) (?pos + 1) ?st6 = Some (Inr (), st7)"
    "cached ?C (after_change ?pos (?pos + 1) (?pos + 1) (char_to_byte ?C ?pos) (char_to_byte ?C (?pos + 1)) ?st6) st7"
    using signal_after_change_ok [OF rep6 i6 r6 mc6, of "?pos + 1"] by blast
  let ?a = "after_change ?pos (?pos + 1) (?pos + 1) (char_to_byte ?C ?pos) (char_to_byte ?C (?pos + 1)) ?st6"
  have "open_ed ?a ?C lo hi" using o6 after_change_rep [OF rep6] by (simp add: open_ed_def uniform_after_change)
  then have o7: "open_ed st7 ?C lo hi" using settled_ok(1) [OF settled_cached [OF 7(2)]] by blast
  have "length (ed_bufs ?a) = length (ed_bufs ?st6)" by (simp add: after_change_def call_hooks_def upd_bufs_def)
  then have l7: "length (ed_bufs st7) = length (ed_bufs st)" using cached_ok(2) [OF 7(2)] 3(3) by (simp add: upd_text_def)
  have "overwrite_char i ?pos c (C ! n) nrc st = Some (Inr (), st7)"
  proof -
    have conv: "ed_charbpos_to_bytebpos i ?pos ?st4 = Some (Inr (1 + int (bofs C n)), ?st4\<lparr>ed_text := t5\<rparr>)"
      using 5(1) by (simp add: ed_charbpos_to_bytebpos_def upd_text_def)
    have st6: "upd_text (\<lambda>t. t\<lparr>bt_beg := mem_copy (bt_beg t) (BYTE_BUF_BYTE_ADDRESS t5 (1 + int (bofs C n))) (map Some c)\<rparr>) (?st4\<lparr>ed_text := t5\<rparr>) = ?st6"
      by (simp add: upd_text_def)
    show ?thesis unfolding overwrite_char_def Let_def asc 1(1)
      using f 3(1) conv 7(1) st6 by (simp add: ebind_def)
  qed
  with o7 l7 show ?thesis by blast
qed


section \<open>Replacing\<close>

text \<open>Point after a deletion.\<close>

lemma delete_spec_point:
  assumes "i < length (ed_bufs a)"
  shows "b_bufpt (ed_bufs (delete_spec i n m k s asc a) ! i) =
    (let b = ed_bufs a ! i in if 1 + int k < b_pt b then
       (if b_pt b < 1 + int k + int (length s) then 1 + int n else b_bufpt b - int m) else b_bufpt b)"
    "length (ed_bufs (delete_spec i n m k s asc a)) = length (ed_bufs a)"
proof -
  let ?a = "all_bufs (delete_recorded s (1 + int n) (int m)) (before_change (1 + int n) (1 + int n + int m) a)"
  have bc: "ed_bufs (before_change (1 + int n) (1 + int n + int m) a) = ed_bufs a"
    by (simp add: before_change_def call_hooks_def upd_text_def Let_def)
  have b: "map (\<lambda>b. b\<lparr>b_undo_list := U_t\<rparr>) (ed_bufs ?a) = map (\<lambda>b. b\<lparr>b_undo_list := U_t\<rparr>) (ed_bufs a)"
    using recorded_deletes(2) [of s "1 + int n" "int m" "before_change (1 + int n) (1 + int n + int m) a"] bc
    unfolding but_undo_def by (cases "?a"; cases "before_change (1 + int n) (1 + int n + int m) a"; simp)
  then have len: "length (ed_bufs ?a) = length (ed_bufs a)" by (metis length_map)
  have pt: "b_pt (ed_bufs ?a ! i) = b_pt (ed_bufs a ! i)" "b_bufpt (ed_bufs ?a ! i) = b_bufpt (ed_bufs a ! i)"
    using arg_cong [OF b, of "\<lambda>bs. b_pt (bs ! i)"] arg_cong [OF b, of "\<lambda>bs. b_bufpt (bs ! i)"] assms len by simp_all
  let ?b = "newline_noted i s ?a"
  have 2: "length (ed_bufs ?b) = length (ed_bufs a)" "b_pt (ed_bufs ?b ! i) = b_pt (ed_bufs a ! i)"
    "b_bufpt (ed_bufs ?b ! i) = b_bufpt (ed_bufs a ! i)"
    using assms len pt by (simp_all add: newline_noted_def upd_bufs_def)
  show "b_bufpt (ed_bufs (delete_spec i n m k s asc a) ! i) =
    (let b = ed_bufs a ! i in if 1 + int k < b_pt b then
       (if b_pt b < 1 + int k + int (length s) then 1 + int n else b_bufpt b - int m) else b_bufpt b)"
    "length (ed_bufs (delete_spec i n m k s asc a)) = length (ed_bufs a)"
    unfolding delete_spec_def Let_def after_change_def call_hooks_def
    using 2 assms by (simp_all add: upd_bufs_def upd_text_def changed_region_sel deleted_buf_def ZV_after_delete_def
        PT_after_delete_def JUST_SET_POINT_def)
qed

lemma list_insert_deleted_one: "n < length C \<Longrightarrow> list_insert (list_delete C n 1) n [c] = C[n := c]"
  by (simp add: list_insert_def list_delete_def upd_conv_take_nth_drop)

text \<open>The characters that replacing the character of index \<open>n\<close> leaves, \<open>hi\<close> being the end of the restriction.\<close>

definition replaced :: "int \<Rightarrow> int \<Rightarrow> int \<Rightarrow> nat \<Rightarrow> ichar \<Rightarrow> ichar list \<Rightarrow> ichar list" where
  "replaced lo hi pt n c C =
     (if length c = length (C ! n) \<or> 2 + int n < hi \<or> lo < 1 + int n \<and> pt = hi then C[n := c]
      else if lo = 1 + int n then list_delete C n 1
      else list_insert (list_delete C n 1) (n - 1) [c])"

lemma buffer_replace_char_ok:
  assumes st: "open_ed st C lo hi" and i: "i < length (ed_bufs st)" and n: "lo \<le> 1 + int n" "1 + int n < hi"
    and c: "ichar_ok c" and z: "length (concat C) + length c < 2 ^ 30"
  defines "C' \<equiv> replaced lo hi (b_bufpt (ed_bufs st ! i)) n c C"
  shows "\<exists>st'. buffer_replace_char i (1 + int n) c nrc st = Some (Inr (), st') \<and>
    open_ed st' C' lo (hi + int (length C') - int (length C))"
proof -
  let ?pos = "1 + int n" and ?b = "ed_bufs st ! i"
  have rep: "ed_rep st C" and u: "uniform lo hi st" using st by (simp_all add: open_ed_def)
  have ok: "chars_ok C" by (rule ed_rep_chars_ok [OF rep])
  have b: "b_live ?b" "b_bufbegv ?b = lo" "b_bufzv ?b = hi" using u i by (auto simp: uniform_def)
  note rb = ed_rep_buffer [OF rep i]
  have nC: "n < length C" using n(2) b(3) rb(4) by linarith
  have r: "1 \<le> ?pos" "?pos \<le> 1 + int (length C)" using nC by simp_all
  obtain st1 where 1: "ed_charbpos_to_bytebpos i ?pos st = Some (Inr (1 + int (bofs C n)), st1)" "cached C st st1"
    using ed_charbpos_to_bytebpos_ok [OF rep i r] unfolding char_to_byte_bofs by blast
  have o1: "open_ed st1 C lo hi" using settled_ok(1) [OF settled_cached [OF 1(2)] st] .
  have b1: "ed_bufs st1 = ed_bufs st" by (rule cached_ok(2) [OF 1(2)])
  have rep1: "ed_rep st1 C" using o1 by (simp add: open_ed_def)
  obtain L g R eg where lay1: "bt_layout (ed_text st1) L g R eg" "C = L @ R" using rep1 by (auto simp: ed_rep_def)
  note f = BYTE_BUF_FETCH_CHAR_ok [OF lay1 nC]
  have i1: "i < length (ed_bufs st1)" using i b1 by simp
  show ?thesis
  proof (cases "length c = length (C ! n)")
    case True
    have ed1: "editable st1 ?pos (?pos + 1)" using uniform_editable [of lo hi st1 ?pos "?pos + 1"] o1 n by (simp add: open_ed_def)
    obtain st2 where 2: "prepare_to_modify_buffer i ?pos (?pos + 1) st1 = Some (Inr (), st2)"
      "cached C (before_change ?pos (?pos + 1) st1) st2" using prepare_to_modify_buffer_ok [OF rep1 ed1 i1] by blast
    note bc = before_change_rep [OF rep1, of ?pos "?pos + 1"]
    have "open_ed (before_change ?pos (?pos + 1) st1) C lo hi" using o1 bc by (simp add: open_ed_def uniform_before_change)
    then have o2: "open_ed st2 C lo hi" using settled_ok(1) [OF settled_cached [OF 2(2)]] by blast
    have b2: "ed_bufs st2 = ed_bufs st" using cached_ok(2) [OF 2(2)] bc(5) b1 by simp
    obtain st3 where 3: "overwrite_char i ?pos c (C ! n) nrc st2 = Some (Inr (), st3)" "open_ed st3 (C[n := c]) lo hi"
      using overwrite_char_ok [OF o2 _ n nC c True, of i nrc] i b2 by auto
    have "clip_char ?b ?pos = Some ?pos" using b n by (simp add: clip_char_def Let_def)
    then have "buffer_replace_char i ?pos c nrc st = Some (Inr (), st3)"
      using 1(1) f 2(1) 3(1) b(1) b2 True by (simp add: buffer_replace_char_def ebind_def)
    with 3(2) True show ?thesis by (simp add: C'_def replaced_def)
  next
    case len: False
    let ?D = "list_delete C n 1"
    obtain st2 where 2: "buffer_delete_range i ?pos (?pos + int 1) st1 = Some (Inr (), st2)" "open_ed st2 ?D lo (hi - int 1)"
      "norm st2 = delete_spec i n 1 (bofs C n) (deleted_bytes C n 1) (length (filter ascii_char (take 1 (drop n C)))) (norm st1)"
      using open_delete [OF o1 i1 _ _ n(1), of 1] nC n(2) by auto
    have ni: "i < length (ed_bufs (norm st1))" using i1 by (simp add: norm_fields)
    have l2: "length (ed_bufs st2) = length (ed_bufs st)"
      using delete_spec_point(2) [OF ni] unfolding norm_fields(7) [of st2, symmetric] 2(3) by (simp add: norm_fields b1)
    then have i2: "i < length (ed_bufs st2)" using i by simp
    let ?b2 = "ed_bufs st2 ! i"
    have b2: "b_live ?b2" "b_bufbegv ?b2 = lo" "b_bufzv ?b2 = hi - 1" using 2(2) i2 by (auto simp: open_ed_def uniform_def)
    have pt2: "b_bufpt ?b2 = ?pos" if "b_bufpt ?b = ?pos + 1"
    proof -
      have n1: "deleted_bytes C n 1 = C ! n" using nC by (simp add: deleted_bytes_def take_Suc_conv_app_nth)
      have "b_pt ?b = 1 + int (bofs C (n + 1))" using rb(5) that char_to_byte_bofs [of C "n + 1"] by (simp add: add.commute)
      then have "b_pt ?b = 1 + int (bofs C n) + int (length (deleted_bytes C n 1))" using bofs_add [of C n 1] by simp
      moreover have "0 < length (deleted_bytes C n 1)" using ok nC n1 ichar_ok_nonempty by simp
      moreover have "ed_bufs (norm st1) ! i = norm_buf (ed_text st1) ?b" using i b1 by (simp add: norm_def)
      ultimately have "b_bufpt (ed_bufs (norm st2) ! i) = ?pos"
        using delete_spec_point(1) [OF ni] that unfolding 2(3) by (simp add: norm_buf_def Let_def)
      then show ?thesis using norm_sel(2) [OF i2] by simp
    qed
    have zD: "length (concat ?D) + length (concat [c]) < 2 ^ 30"
    proof -
      have "concat C = concat (take n C) @ C ! n @ concat (drop (Suc n) C)"
        using arg_cong [OF char_split [OF nC], of concat] by simp
      then have "length (concat ?D) \<le> length (concat C)" by (simp add: list_delete_def)
      then show ?thesis using z by simp
    qed
    have lD: "length ?D = length C - 1" "0 < length C" "n \<le> length ?D" using nC by auto
    define mp where "mp = (?pos = b_bufpt ?b - 1)"
    have mp: "(2 + int n = b_bufpt ?b) = mp" "(1 + int n = b_bufpt ?b - 1) = mp" by (auto simp: mp_def)
    have run: "buffer_replace_char i ?pos c nrc st =
        (case clip_char ?b2 ?pos of None \<Rightarrow> Some (Inr (), st2)
         | Some pos \<Rightarrow> ebind (buffer_insert_string_1 i (if mp then - 1 else pos) c (- 1) False st2) (\<lambda>_ st. Some (Inr (), st)))"
      using 1(1) f 2(1) b(1) b2(1) len b1 by (simp add: buffer_replace_char_def ebind_def mp)
    show ?thesis
    proof (cases "2 + int n < hi")
      case True
      have clip: "clip_char ?b2 ?pos = Some ?pos" using b2 n True by (simp add: clip_char_def Let_def)
      have pos: "(if mp then - 1 else ?pos) = ?pos \<or> (if mp then - 1 else ?pos) = - 1 \<and> b_bufpt ?b2 = ?pos"
        using pt2 by (auto simp: mp_def)
      obtain st3 where 3: "buffer_insert_string_1 i (if mp then - 1 else ?pos) (concat [c]) (- 1) False st2 = Some (Inr (int (length [c])), st3)"
        "open_ed st3 (list_insert ?D n [c]) lo (hi - int 1 + int (length [c]))"
        using open_insert [OF 2(2) i2 lD(3) n(1) _ _ zD pos, of False] True c by auto
      have "C' = C[n := c]" using True by (simp add: C'_def replaced_def)
      with 3 run clip list_insert_deleted_one [OF nC, of c] show ?thesis by (simp add: ebind_def)
    next
      case end': False
      then have hi: "hi = 2 + int n" using n(2) by simp
      show ?thesis
      proof (cases "lo = 1 + int n")
        case True
        have "clip_char ?b2 ?pos = None" using b2 hi True by (simp add: clip_char_def Let_def)
        moreover have "C' = ?D" using True end' len by (simp add: C'_def replaced_def)
        moreover have "hi + int (length ?D) - int (length C) = hi - int 1" using lD(1,2) by linarith
        then have "open_ed st2 ?D lo (hi + int (length ?D) - int (length C))" using 2(2) by metis
        ultimately show ?thesis using run by simp
      next
        case False
        have lo: "lo \<le> int n" using False n(1) by simp
        have clip: "clip_char ?b2 ?pos = Some (int n)" using b2 hi lo by (simp add: clip_char_def Let_def)
        have n0: "1 \<le> n" using lo b rb(1) by linarith
        show ?thesis
        proof (cases "b_bufpt ?b = hi")
          case True
          then have p: mp using hi by (simp add: mp_def)
          have "b_bufpt ?b2 = ?pos" using True hi pt2 by simp
          then obtain st3 where 3: "buffer_insert_string_1 i (- 1) (concat [c]) (- 1) False st2 = Some (Inr (int (length [c])), st3)"
            "open_ed st3 (list_insert ?D n [c]) lo (hi - int 1 + int (length [c]))"
            using open_insert [OF 2(2) i2 lD(3) n(1) _ _ zD, of "- 1" False] hi c by auto
          have "C' = C[n := c]" using True end' len False n(1) by (simp add: C'_def replaced_def)
          with 3 run clip p list_insert_deleted_one [OF nC, of c] show ?thesis by (simp add: ebind_def)
        next
          case pt: False
          have p: "\<not> mp" using pt hi by (simp add: mp_def)
          have e: "int n = 1 + int (n - 1)" using n0 by simp
          have l': "n - 1 \<le> length ?D" "lo \<le> 1 + int (n - 1)" "1 + int (n - 1) \<le> hi - int 1" using lo hi e lD by linarith+
          have S: "chars_ok [c]" using c by simp
          obtain st3 where 3: "buffer_insert_string_1 i (int n) (concat [c]) (- 1) False st2 = Some (Inr (int (length [c])), st3)"
            "open_ed st3 (list_insert ?D (n - 1) [c]) lo (hi - int 1 + int (length [c]))"
            using open_insert [OF 2(2) i2 l' S zD disjI1 [OF e], of False] by blast
          have "C' = list_insert ?D (n - 1) [c]" using pt end' len False by (simp add: C'_def replaced_def)
          with 3 run clip p lD show ?thesis by (simp add: ebind_def of_nat_diff)
        qed
      qed
    qed
  qed
qed

text \<open>C4: replacing a character, for every length of the old and the new one.  The character is replaced,
  except that the last accessible character is not when the new one has another number of bytes: then the
  new character comes before the one in front, or, when it was the only one, gets lost; only with point
  at the end of the restriction it comes out right.\<close>

theorem buffer_replace_char_correct:
  assumes "open_ed st C lo hi" "i < length (ed_bufs st)" "lo \<le> 1 + int n" "1 + int n < hi"
    and "ichar_ok c" "length (concat C) + length c < 2 ^ 30"
  shows "\<exists>st'. buffer_replace_char i (1 + int n) c not_real_change st = Some (Inr (), st') \<and>
    ed_rep st' (if length c = length (C ! n) \<or> 2 + int n < hi \<or> lo < 1 + int n \<and> b_bufpt (ed_bufs st ! i) = hi
      then C[n := c]
      else if lo = 1 + int n then list_delete C n 1
      else list_insert (list_delete C n 1) (n - 1) [c])"
  using buffer_replace_char_ok [OF assms, of not_real_change] unfolding replaced_def open_ed_def by blast

theorem buffer_replace_char_correct_witness:
  "\<exists>st'. buffer_replace_char 0 4 [0x81, 0xE0] False sample_ed = Some (Inr (), st') \<and>
     ed_rep st' [[0x61], [0x81, 0xE9], [0x81, 0xE0], [0x0A]]"
proof -
  have "open_ed sample_ed sample_chars 1 5"
    using sample_rep by (simp add: open_ed_def uniform_def sample_ed_def sample_text_def sample_buffer_def)
  moreover have "0 < length (ed_bufs sample_ed)" "b_bufpt (ed_bufs sample_ed ! 0) = 3"
    by (simp_all add: sample_ed_def sample_buffer_def)
  moreover have "ichar_ok [0x81, 0xE0]" by (simp add: ichar_ok_def rep_bytes_by_first_byte_def ibyte_first_byte_p_def)
  moreover have "length (concat sample_chars) + length [0x81::byte, 0xE0] < 2 ^ 30" by (simp add: sample_chars_def)
  moreover have "sample_chars ! 3 = [0x62]" "list_insert (list_delete sample_chars 3 1) 2 [[0x81, 0xE0]] = [[0x61], [0x81, 0xE9], [0x81, 0xE0], [0x0A]]"
    by (simp_all add: sample_chars_def list_delete_def list_insert_def numeral_2_eq_2 numeral_3_eq_3)
  ultimately show ?thesis
    using buffer_replace_char_correct [of sample_ed sample_chars 1 5 0 3 "[0x81, 0xE0]" False]
    by simp
qed

end
