(* ===== verification/Buffer_Quit.thy ===== *)
theory Buffer_Quit
  imports Primitive_Undo
begin

text \<open>
  A quit in the middle of a deletion.  The search for a deleted newline in \<open>buffer_delete_range\<close> may quit
  when the deletion has been recorded for undo and nothing has been deleted yet: undoing then inserts
  text that is still there.
\<close>

text \<open>A quit is pending, and no other will be.\<close>

definition quit_pending :: "ed \<Rightarrow> bool" where
  "quit_pending st \<longleftrightarrow> \<not> ed_inhibit_quit st \<and> (\<exists>qs. ed_quit st = True # qs \<and> True \<notin> set qs)"

definition quit_done :: "buffer_text \<Rightarrow> ed \<Rightarrow> ed" where
  "quit_done t st = st\<lparr>ed_text := t, ed_quit := tl (ed_quit st)\<rparr>"

lemma note_deleted_newline_quits:
  assumes rep: "ed_rep st C" and i: "i < length (ed_bufs st)" and nm: "n + m \<le> length C"
    and zv: "1 + int n + int m \<le> b_bufzv (ed_bufs st ! i)"
    and quit: "quit_pending st" and flag: "\<not> b_newline_was_deleted (ed_bufs st ! i)"
  shows "\<exists>t. note_deleted_newline i (1 + int n) (1 + int n + int m) st = Some (Inl Quit, quit_done t st) \<and>
    same_but_caches (ed_text st) t \<and> caches_ok t C"
proof -
  obtain t br short where
    "scan_buffer i [0x0A] (1 + int n) (1 + int n + int m) 1 True st =
      ebind (QUIT (st\<lparr>ed_text := t\<rparr>)) (\<lambda>_ st. ebind (ed_bytebpos_to_charbpos i br st) (\<lambda>r st. Some (Inr (r, short), st)))"
    "same_but_caches (ed_text st) t" "caches_ok t C"
    using scan_newline [OF rep i nm zv] by blast
  moreover have "QUIT (st\<lparr>ed_text := t\<rparr>) = Some (Inl Quit, quit_done t st)"
    using quit by (auto simp: quit_pending_def QUIT_def QUITP_def quit_done_def)
  ultimately show ?thesis using flag by (auto simp: note_deleted_newline_def ebind_def)
qed

lemma bring_gap_here:
  assumes "ed_rep st C" "1 + bofs C n \<le> bt_gpt (ed_text st)" "bt_gpt (ed_text st) \<le> 1 + bofs C (n + m)"
  shows "bring_gap i (1 + int n) (1 + int n + int m) (1 + int (bofs C n)) (1 + int (bofs C (n + m))) st = Some (Inr True, st)"
proof -
  have "\<not> (1 + int (bofs C (n + m)) < int (bt_gpt (ed_text st)))" "\<not> (int (bt_gpt (ed_text st)) < 1 + int (bofs C n))"
    using assms by linarith+
  then show ?thesis unfolding bring_gap_def by (simp add: ebind_def)
qed

lemma ed_rep_modiff: "ed_rep (upd_text (\<lambda>t. t\<lparr>bt_modiff := f t\<rparr>) st) C = ed_rep st C"
proof -
  have "buffer_ok (t\<lparr>bt_modiff := k\<rparr>) C = buffer_ok t C" for t k
    by (simp add: fun_eq_iff buffer_ok_def marker_ok_def valid_membpos_p_def membpos_to_bytebpos_def)
  moreover have "bt_layout (t\<lparr>bt_modiff := k\<rparr>) = bt_layout t" for t k by (simp add: fun_eq_iff bt_layout_def)
  ultimately show ?thesis by (simp add: ed_rep_def upd_text_def caches_ok_def)
qed

lemma all_deletes_cached:
  assumes "cached C x y"
  shows "cached C (all_bufs (delete_recorded s beg len) x) (all_bufs (delete_recorded s beg len) y)"
proof -
  have "cached C (fold (delete_recorded s beg len) js x) (fold (delete_recorded s beg len) js y)" for js
    using assms by (induction js arbitrary: x y) (simp_all add: cached_delete_recorded)
  then show ?thesis using cached_ok(2) [OF assms] by (simp add: all_bufs_def)
qed

text \<open>The state that such a deletion leaves.\<close>

lemma delete_quits:
  assumes rep: "ed_rep st C" and i: "i < length (ed_bufs st)" and nm: "n + m \<le> length C" "0 < m"
    and ed: "editable st (1 + int n) (1 + int n + int m)"
    and gap: "1 + bofs C n \<le> bt_gpt (ed_text st)" "bt_gpt (ed_text st) \<le> 1 + bofs C (n + m)"
    and quit: "quit_pending st" and flag: "\<not> b_newline_was_deleted (ed_bufs st ! i)"
  defines "a \<equiv> all_bufs (delete_recorded (deleted_bytes C n m) (1 + int n) (int m))
      (before_change (1 + int n) (1 + int n + int m) st)"
  shows "\<exists>t. buffer_delete_range i (1 + int n) (1 + int n + int m) st =
      Some (Inl Quit, quit_done (t\<lparr>bt_modiff := bt_modiff t + 1\<rparr>) a) \<and> same_but_caches (ed_text a) t \<and> caches_ok t C"
proof -
  let ?frm = "1 + int n" and ?till = "1 + int n + int m" and ?bf = "1 + int (bofs C n)" and ?bt = "1 + int (bofs C (n + m))"
  obtain st1 where 1: "prepare_to_modify_buffer i ?frm ?till st = Some (Inr (), st1)" "cached C (before_change ?frm ?till st) st1"
    using prepare_to_modify_buffer_ok [OF rep ed i] by blast
  note c1 = cached_ok [OF 1(2)] and b1 = before_change_rep [OF rep, of ?frm ?till]
  have rep1: "ed_rep st1 C" using c1(3) b1(1) by simp
  have ed1: "editable st1 ?frm ?till" using editable_cached [OF 1(2)] b1(6) ed by simp
  have i1: "i < length (ed_bufs st1)" using i c1(2) b1(5) by simp
  have e: "?till = 1 + int (n + m)" by simp
  have r: "1 \<le> ?frm" "?frm \<le> 1 + int (length C)" "1 \<le> ?till" "?till \<le> 1 + int (length C)" using nm by simp_all
  obtain st2 where 2: "ed_charbpos_to_bytebpos i ?frm st1 = Some (Inr ?bf, st2)" "cached C st1 st2"
    using ed_charbpos_to_bytebpos_ok [OF rep1 i1 r(1,2)] unfolding char_to_byte_bofs by blast
  note c2 = cached_ok [OF 2(2)]
  have i2: "i < length (ed_bufs st2)" using i1 c2(2) by simp
  obtain st3 where 3: "ed_charbpos_to_bytebpos i ?till st2 = Some (Inr ?bt, st3)" "cached C st2 st3"
    using ed_charbpos_to_bytebpos_ok [OF c2(3) [OF rep1] i2 r(3,4)] unfolding e char_to_byte_bofs by blast
  have c13: "cached C (before_change ?frm ?till st) st3" by (rule cached_trans [OF 1(2) cached_trans [OF 2(2) 3(2)]])
  note c3 = cached_ok [OF c13]
  have rep3: "ed_rep st3 C" using c3(3) b1(1) by simp
  have ed3: "editable st3 ?frm ?till" using editable_cached [OF c13] b1(6) ed by simp
  have "bt_gpt (ed_text st3) = bt_gpt (ed_text st)" using c3(15) by (simp add: before_change_def call_hooks_def upd_text_def Let_def)
  then have 4: "bring_gap i ?frm ?till ?bf ?bt st3 = Some (Inr True, st3)" using bring_gap_here [OF rep3] gap by simp
  obtain st5 where 5: "map_indirect_buffers (record_delete ?frm (int m)) st3 = Some (Inr (), st5)"
    "cached C (all_bufs (delete_recorded (deleted_bytes C n m) ?frm (int m)) st3) st5"
    using record_delete_all [OF rep3 nm(1) ed3] by blast
  have c5: "cached C a st5" unfolding a_def by (rule cached_trans [OF all_deletes_cached [OF c13] 5(2)])
  note bu = but_undo_sel [OF recorded_deletes(2) [of "deleted_bytes C n m" ?frm "int m" "before_change ?frm ?till st", folded a_def]]
  let ?inc = "upd_text (\<lambda>t. t\<lparr>bt_modiff := bt_modiff t + 1\<rparr>) st5"
  have repa: "ed_rep a C" using b1(1) bu(7) by simp
  have rep5: "ed_rep ?inc C" using cached_ok(3) [OF c5 repa] by (simp add: ed_rep_modiff)
  obtain t5 where t5: "st5 = a\<lparr>ed_text := t5\<rparr>" "same_but_caches (ed_text a) t5" "caches_ok t5 C" using c5 by (auto simp: cached_def)
  have i5: "i < length (ed_bufs ?inc)" using i b1(5) bu(2) by (simp add: upd_text_def t5(1))
  have "editable a ?frm ?till" using bu(11) b1(6) ed by simp
  then have zv: "?till \<le> b_bufzv (ed_bufs ?inc ! i)" using i5 by (simp add: editable_def upd_text_def t5(1))
  have "map (\<lambda>b. b\<lparr>b_undo_list := U_t\<rparr>) (ed_bufs a) = map (\<lambda>b. b\<lparr>b_undo_list := U_t\<rparr>) (ed_bufs (before_change ?frm ?till st))"
    using recorded_deletes(2) [of "deleted_bytes C n m" ?frm "int m" "before_change ?frm ?till st", folded a_def]
    unfolding but_undo_def by (cases a; cases "before_change ?frm ?till st"; simp)
  from arg_cong [OF this, of "\<lambda>bs. b_newline_was_deleted (bs ! i)"] have "b_newline_was_deleted (ed_bufs a ! i) = b_newline_was_deleted (ed_bufs st ! i)"
    using i b1(5) bu(2) by simp
  then have fl: "\<not> b_newline_was_deleted (ed_bufs ?inc ! i)" using flag by (simp add: upd_text_def t5(1))
  have "ed_quit (before_change ?frm ?till st) = ed_quit st" "ed_inhibit_quit (before_change ?frm ?till st) = ed_inhibit_quit st"
    by (simp_all add: before_change_def call_hooks_def upd_text_def Let_def)
  then have "quit_pending ?inc" using quit bu(3,4) by (simp add: quit_pending_def upd_text_def t5(1))
  from note_deleted_newline_quits [OF rep5 i5 nm(1) zv this fl] obtain t where
    t: "note_deleted_newline i ?frm ?till ?inc = Some (Inl Quit, quit_done t ?inc)" "same_but_caches (ed_text ?inc) t" "caches_ok t C"
    by blast
  define t' where "t' = t\<lparr>bt_modiff := bt_modiff t - 1\<rparr>"
  have tt: "t = t'\<lparr>bt_modiff := bt_modiff t' + 1\<rparr>" by (simp add: t'_def)
  have "same_but_caches t5 t'" using t(2) by (cases t5; cases t) (simp add: t'_def same_but_caches_def upd_text_def t5(1))
  then have "same_but_caches (ed_text a) t'" by (rule same_but_caches_trans [OF t5(2)])
  moreover have "caches_ok t' C" using t(3) by (simp add: t'_def caches_ok_def)
  moreover have "delete_at_gap i True ?frm ?till ?bf ?bt st3 = Some (Inl Quit, quit_done t ?inc)"
    using 5(1) t(1) by (simp add: delete_at_gap_def ebind_def)
  moreover have "quit_done t ?inc = quit_done (t'\<lparr>bt_modiff := bt_modiff t' + 1\<rparr>) a"
    unfolding tt [symmetric] by (simp add: quit_done_def upd_text_def t5(1))
  ultimately show ?thesis
    unfolding buffer_delete_range_def
    using clip_range_editable [OF ed i] clip_range_editable [OF ed1 i1] 1(1) 2(1) 3(1) 4 nm(2)
    by (auto simp: ebind_def)
qed

text \<open>C9: when a quit arrives during a deletion (here one that need not move the gap, in a buffer where no newline was deleted since the last
  redisplay, so that the deleted text is searched for one), the deletion ends with the
  quit and the text is as before, but the deleted text is in the undo list: undoing the command then
  inserts the text of the region a second time.\<close>

theorem delete_quit_corrupts_undo:
  assumes st: "open_ed st C 1 (1 + int (length C))" "\<not> ed_inhibit_quit st" and i: "i < length (ed_bufs st)"
    and flag: "\<not> b_newline_was_deleted (ed_bufs st ! i)"
    and es: "b_undo_list (ed_bufs st ! i) = U_list es" "at_boundary es"
    and nm: "n + m \<le> length C" "0 < m" and z: "length (concat C) < 2 ^ 29"
    and gap: "1 + bofs C n \<le> bt_gpt (ed_text st)" "bt_gpt (ed_text st) \<le> 1 + bofs C (n + m)"
  shows "\<exists>st1 es1 st2. buffer_delete_range i (1 + int n) (1 + int n + int m) (st\<lparr>ed_quit := True # ed_quit st\<rparr>) = Some (Inl Quit, st1) \<and>
    ed_rep st1 C \<and> b_undo_list (ed_bufs st1 ! i) = U_list es1 \<and>
    Fprimitive_undo i 1 es1 st1 = Some (Inr (tl es), st2) \<and> ed_rep st2 (list_insert C n (take m (drop n C)))"
proof -
  let ?frm = "1 + int n" and ?till = "1 + int n + int m" and ?s = "deleted_bytes C n m" and ?S = "take m (drop n C)"
  let ?q = "st\<lparr>ed_quit := True # ed_quit st\<rparr>" and ?hi = "1 + int (length C)" and ?t = "b_modtime (ed_bufs st ! i)"
  note s = st(1) [unfolded open_ed_def]
  have rep: "ed_rep ?q C" using s by (simp add: ed_rep_def)
  have w: "uniform 1 ?hi ?q" using s by (simp add: uniform_def)
  have ed: "editable ?q ?frm ?till" by (rule uniform_editable [OF w]) (use nm in simp_all)
  have quit: "quit_pending ?q" using s st(2) by (simp add: quit_pending_def quiet_def)
  define b where "b = before_change ?frm ?till ?q"
  define a where "a = all_bufs (delete_recorded ?s ?frm (int m)) b"
  obtain t where t: "buffer_delete_range i ?frm ?till ?q = Some (Inl Quit, quit_done (t\<lparr>bt_modiff := bt_modiff t + 1\<rparr>) a)"
    "same_but_caches (ed_text a) t" "caches_ok t C"
    using delete_quits [OF rep _ nm ed _ _ quit, of i] i gap flag unfolding a_def b_def by auto
  let ?st1 = "quit_done (t\<lparr>bt_modiff := bt_modiff t + 1\<rparr>) a"
  note bu = but_undo_sel [OF recorded_deletes(2) [of ?s ?frm "int m" b, folded a_def]]
  note b1 = before_change_rep [OF rep, of ?frm ?till, folded b_def]
  have repa: "ed_rep a C" using bu(7) b1(1) by simp
  have "cached C a (a\<lparr>ed_text := t\<rparr>)" using t(2,3) by (auto simp: cached_def)
  from cached_ok(3) [OF this repa] have "ed_rep (a\<lparr>ed_text := t\<rparr>) C" .
  then have rep1: "ed_rep ?st1 C" using ed_rep_modiff [of "\<lambda>t. bt_modiff t + 1" "a\<lparr>ed_text := t\<rparr>" C]
    by (simp add: quit_done_def upd_text_def ed_rep_def)
  have wa: "uniform 1 ?hi a" using uniform_but_undo [OF recorded_deletes(2)] w by (simp add: a_def b_def uniform_before_change)
  note sel = same_but_caches_sel [OF t(2)]
  have w1: "uniform 1 ?hi ?st1" using wa sel(12) by (simp add: uniform_def quit_done_def)
  have "ed_quit a = True # ed_quit st" "ed_inhibit_quit a = ed_inhibit_quit st"
    using bu(3,4) by (simp_all add: b_def before_change_def call_hooks_def upd_text_def Let_def)
  then have q1: "quiet ?st1" using s by (simp add: quiet_def quit_done_def)
  have "block_size t = block_size (ed_text st)"
    using sel bu(1) by (simp add: block_size_def b_def before_change_def call_hooks_def upd_text_def Let_def)
  then have "ed_small ?st1" using s by (simp add: ed_small_def quit_done_def block_size_def)
  then have open1: "open_ed ?st1 C 1 ?hi" using rep1 q1 w1 by (simp add: open_ed_def)
  have "undo_view i ?st1 = undo_view i a" by (simp add: undo_view_def quit_done_def)
  moreover have "i < length (ed_bufs ?q)" "b_undo_list (ed_bufs ?q ! i) = U_list es" using i es by simp_all
  from recorded_view(2) [OF this, of ?s ?frm "int m" ?frm ?till] obtain other sbeg p where
    v: "undo_view i a = (U_list (U_delete ?s sbeg # p @ pre_undo other (unmodified ?q) ?t es), ?t, ed_base st, Some (ed_base st), length (ed_bufs st))"
      "\<bar>sbeg\<bar> = 1 + int n" "p = [] \<or> (\<exists>k. p = [U_position k])"
    unfolding a_def b_def by auto
  ultimately have u1: "b_undo_list (ed_bufs ?st1 ! i) = U_list (U_delete ?s sbeg # p @ pre_undo other (unmodified ?q) ?t es)"
    "b_modtime (ed_bufs ?st1 ! i) = ?t" "length (ed_bufs ?st1) = length (ed_bufs st)" by (simp_all add: undo_view_def)
  let ?es1 = "U_delete ?s sbeg # p @ pre_undo other (unmodified ?q) ?t es" and ?C = "list_insert C n ?S"
  obtain u2 where "undoes ?t (pre_undo other (unmodified ?q) ?t es) ?C False ?C u2 (tl es)"
    using undoes_pre [OF undoes_at_boundary [OF es(2)], of other] es(2) by blast
  then have u: "undoes ?t (p @ pre_undo other (unmodified ?q) ?t es) ?C False ?C u2 (tl es)" using v(3) by (auto intro: und_position)
  have "concat C = concat (take n C) @ concat ?S @ concat (drop m (drop n C))" by (metis append_take_drop_id concat_append)
  then have "length (concat ?S) \<le> length (concat C)" by simp
  then have "length (concat C) + length (concat ?S) < 2 ^ 30" using z by simp
  moreover have "chars_ok ?S" using ed_rep_chars_ok [OF rep] by (meson in_set_dropD in_set_takeD list_all_iff)
  ultimately have und: "undoes ?t ?es1 C False ?C u2 (tl es)"
    unfolding deleted_bytes_def using und_delete [OF v(2) _ _ _ u, unfolded deleted_bytes_def] nm by simp
  let ?st2 = "if b_read_only (ed_bufs ?st1 ! i) then ?st1 else ?st1\<lparr>ed_inhibit_read_only := True\<rparr>"
  have "undo_ok i ?st2 C ?t"
    using open1 u1 i by (simp add: undo_ok_def open_ed_def ed_rep_def quiet_def ed_small_def uniform_def)
  from undo_group_ok [OF und this] obtain st2 where 2: "undo_group i ?es1 ?st2 = Some (Inr (tl es), st2)" "undo_ok i st2 ?C ?t" by auto
  let ?st3 = "st2\<lparr>ed_inhibit_read_only := ed_inhibit_read_only ?st1\<rparr>"
  have "Fprimitive_undo i 1 ?es1 ?st1 = Some (Inr (tl es), ?st3)"
    using 2(1) unfolding Fprimitive_undo_def Let_def by (simp add: ebind_def)
  moreover have "ed_rep ?st3 ?C" using 2(2) by (simp add: undo_ok_def open_ed_def ed_rep_def)
  ultimately show ?thesis using t(1) rep1 u1(1)
    by (intro exI [of _ ?st1] exI [of _ ?es1] exI [of _ ?st3]) simp
qed

theorem delete_quit_corrupts_undo_witness:
  "\<exists>st1 es1 st2. buffer_delete_range 0 2 4 (sample_ed\<lparr>ed_quit := [True, False]\<rparr>) = Some (Inl Quit, st1) \<and> ed_rep st1 sample_chars \<and>
     Fprimitive_undo 0 1 es1 st1 = Some (Inr [], st2) \<and>
     ed_rep st2 [[0x61], [0x81, 0xE9], [0x0A], [0x81, 0xE9], [0x0A], [0x62]]"
proof -
  have "open_ed sample_ed sample_chars 1 (1 + int (length sample_chars))" "\<not> ed_inhibit_quit sample_ed" "ed_quit sample_ed = [False]"
    "0 < length (ed_bufs sample_ed)" "\<not> b_newline_was_deleted (ed_bufs sample_ed ! 0)" "b_undo_list (ed_bufs sample_ed ! 0) = U_list []"
    using sample_rep by (simp_all add: open_ed_def uniform_def sample_chars_def sample_ed_def sample_text_def sample_buffer_def)
  moreover have "1 + bofs sample_chars 1 \<le> bt_gpt (ed_text sample_ed)" "bt_gpt (ed_text sample_ed) \<le> 1 + bofs sample_chars (1 + 2)"
    "1 + 2 \<le> length sample_chars"
    "list_insert sample_chars 1 (take 2 (drop 1 sample_chars)) = [[0x61], [0x81, 0xE9], [0x0A], [0x81, 0xE9], [0x0A], [0x62]]"
    by (simp_all add: sample_chars_def sample_ed_def sample_text_def bofs_def list_insert_def numeral_3_eq_3 numeral_2_eq_2)
  moreover have "length (concat sample_chars) < 2 ^ 29" by (simp add: sample_chars_def)
  ultimately show ?thesis
    using delete_quit_corrupts_undo [of sample_ed sample_chars 0 "[]" 1 2] by (fastforce simp: at_boundary_def)
qed

end
