(* ===== verification/Lstream.thy ===== *)
theory Lstream
  imports Buffer_Gap
begin

text \<open>
  The buffering streams of \<open>src/lstream.c\<close> and \<open>src/lstream.h\<close>: a stream collects what is written in
  an output buffer until its implementation takes it, and takes what is read from an unget buffer, an
  input buffer and the implementation, in this order.

  The methods of an implementation are a record of functions on streams, since they see the stream;
  what they keep of their own is the field \<open>ls_data\<close>.  A buffer is a block of cells, empty for the null
  pointer, beside its recorded size.  A result is \<open>None\<close> where an assertion fails or memory is used that is
  not there, otherwise a signalled error or a value with the stream.
\<close>

section \<open>Streams\<close>

datatype lstream_buffering =
  LSTREAM_UNBUFFERED | LSTREAM_LINE_BUFFERED | LSTREAM_BLOCK_BUFFERED | LSTREAM_BLOCKN_BUFFERED | LSTREAM_UNLIMITED

text \<open>The flags \<open>LSTR_...\<close> that a stream or its implementation looks at.\<close>

record lstr_flags =
  LSTR_READ :: bool
  LSTR_WRITE :: bool
  LSTR_NO_PARTIAL_CHARS :: bool
  LSTR_NO_SQUIRREL :: bool
  LSTR_IS_OPEN :: bool
  LSTR_CLOSING :: bool
  LSTR_ALLOW_QUIT :: bool
  LSTR_PTY_FLUSHING :: bool
  LSTR_BLOCKED_OK :: bool

record 'd lstream =
  ls_buffering :: lstream_buffering
  ls_buffering_size :: nat
  ls_in_buffer :: "byte cells"
  ls_in_buffer_size :: nat
  ls_in_buffer_current :: nat
  ls_in_buffer_ind :: nat
  ls_out_buffer :: "byte cells"
  ls_out_buffer_size :: nat
  ls_out_buffer_ind :: nat
  ls_unget_buffer :: "byte cells"
  ls_unget_buffer_size :: nat
  ls_unget_buffer_ind :: nat
  ls_unget_character_count :: int
  ls_byte_count :: int
  ls_flags :: lstr_flags
  ls_error_occurred_p :: bool
  ls_public_error_occurred_p :: bool
  ls_data :: 'd

datatype lstream_error = Already_open | Not_open | Not_open_for_writing | Not_open_for_reading
  | No_writer | No_reader | No_rewinder | Not_a_string_stream | Method_error lisp_error

type_synonym ('a, 'd) lout = "((lstream_error + 'a) \<times> 'd lstream) option"

definition lbind :: "('a, 'd) lout \<Rightarrow> ('a \<Rightarrow> 'd lstream \<Rightarrow> ('b, 'd) lout) \<Rightarrow> ('b, 'd) lout" where
  "lbind m f = (case m of None \<Rightarrow> None | Some (Inl e, s) \<Rightarrow> Some (Inl e, s) | Some (Inr x, s) \<Rightarrow> f x s)"

text \<open>
  The methods.  A reader gives the bytes that it has stored, whose number is its value; a writer gives
  its value, which the callers check.  The method \<open>write_with_extents\<close> gets the bytes of the string; the extents
  are left out.
\<close>

record 'd lstream_implementation =
  im_reader :: "('d lstream \<Rightarrow> nat \<Rightarrow> (byte list, 'd) lout) option"
  im_writer :: "('d lstream \<Rightarrow> byte list \<Rightarrow> (int, 'd) lout) option"
  im_write_with_extents :: "('d lstream \<Rightarrow> byte list \<Rightarrow> (int, 'd) lout) option"
  im_rewinder :: "('d lstream \<Rightarrow> (int, 'd) lout) option"
  im_seekable_p :: "('d lstream \<Rightarrow> bool) option"
  im_seek_from_end :: "('d lstream \<Rightarrow> int \<Rightarrow> (bool, 'd) lout) option"
  im_character_tell :: "('d lstream \<Rightarrow> int) option"
  im_flusher :: "('d lstream \<Rightarrow> (int, 'd) lout) option"
  im_closer :: "('d lstream \<Rightarrow> (int, 'd) lout) option"

section \<open>Memory\<close>

text \<open>\<open>DO_REALLOC\<close>.\<close>

function do_realloc_size :: "nat \<Rightarrow> nat \<Rightarrow> nat" where
  "do_realloc_size s needed = (if 0 < s \<and> s < needed then do_realloc_size (s * 2) needed else s)"
  by pat_completeness auto
termination by (relation "measure (\<lambda>(s, needed). needed - s)") auto

declare do_realloc_size.simps [simp del]

definition DO_REALLOC :: "byte cells \<Rightarrow> nat \<Rightarrow> nat \<Rightarrow> byte cells \<times> nat" where
  "DO_REALLOC base sz needed =
     (if sz < needed then let n = do_realloc_size (if sz < 32 then 32 else sz) needed in (mem_realloc base n, n)
      else (base, sz))"

text \<open>Initialised bytes read from a block, and bytes stored in one.\<close>

definition mem_bytes :: "byte cells \<Rightarrow> nat \<Rightarrow> nat \<Rightarrow> byte list option" where
  "mem_bytes mem p n =
     (let cs = take n (drop p mem) in if (n = 0 \<or> p + n \<le> length mem) \<and> list_all (\<lambda>c. c \<noteq> None) cs then Some (map the cs) else None)"

definition mem_store :: "byte cells \<Rightarrow> nat \<Rightarrow> byte list \<Rightarrow> byte cells option" where
  "mem_store mem p bs = (if bs = [] \<or> p + length bs \<le> length mem then Some (mem_copy mem p (map Some bs)) else None)"

section \<open>Creation\<close>

definition INT_MAX :: nat where "INT_MAX = 2147483647"

definition Lstream_set_buffering :: "lstream_buffering \<Rightarrow> nat \<Rightarrow> 'd lstream \<Rightarrow> 'd lstream" where
  "Lstream_set_buffering buffering buffering_size lstr =
     lstr\<lparr>ls_buffering := buffering, ls_buffering_size := (case buffering of
         LSTREAM_UNBUFFERED \<Rightarrow> 0
       | LSTREAM_BLOCK_BUFFERED \<Rightarrow> 512
       | LSTREAM_BLOCKN_BUFFERED \<Rightarrow> buffering_size
       | LSTREAM_LINE_BUFFERED \<Rightarrow> INT_MAX
       | LSTREAM_UNLIMITED \<Rightarrow> INT_MAX)\<rparr>"

definition Lstream_new :: "lstr_flags \<Rightarrow> 'd \<Rightarrow> 'd lstream" where
  "Lstream_new flags d =
     Lstream_set_buffering LSTREAM_BLOCK_BUFFERED 0
       \<lparr>ls_buffering = LSTREAM_UNBUFFERED, ls_buffering_size = 0,
        ls_in_buffer = [], ls_in_buffer_size = 0, ls_in_buffer_current = 0, ls_in_buffer_ind = 0,
        ls_out_buffer = [], ls_out_buffer_size = 0, ls_out_buffer_ind = 0,
        ls_unget_buffer = [], ls_unget_buffer_size = 0, ls_unget_buffer_ind = 0,
        ls_unget_character_count = 0, ls_byte_count = 0, ls_flags = flags\<lparr>LSTR_IS_OPEN := True\<rparr>,
        ls_error_occurred_p = False, ls_public_error_occurred_p = False, ls_data = d\<rparr>"

definition Lstream_set_character_mode :: "'d lstream \<Rightarrow> 'd lstream" where
  "Lstream_set_character_mode lstr = lstr\<lparr>ls_flags := (ls_flags lstr)\<lparr>LSTR_NO_PARTIAL_CHARS := True\<rparr>\<rparr>"

definition Lstream_unset_character_mode :: "'d lstream \<Rightarrow> 'd lstream" where
  "Lstream_unset_character_mode lstr = lstr\<lparr>ls_flags := (ls_flags lstr)\<lparr>LSTR_NO_PARTIAL_CHARS := False\<rparr>\<rparr>"

definition Lstream_reopen :: "'d lstream \<Rightarrow> (unit, 'd) lout" where
  "Lstream_reopen lstr =
     (if LSTR_IS_OPEN (ls_flags lstr) then Some (Inl Already_open, lstr)
      else Some (Inr (), lstr\<lparr>ls_flags := (ls_flags lstr)\<lparr>LSTR_IS_OPEN := True\<rparr>\<rparr>))"

definition Lstream_clear_error_occurred_p :: "'d lstream \<Rightarrow> 'd lstream" where
  "Lstream_clear_error_occurred_p lstr = lstr\<lparr>ls_public_error_occurred_p := False\<rparr>"

section \<open>Writing\<close>

text \<open>\<open>VALIDATE_IBYTEPTR_BACKWARD\<close> on an index; \<open>None\<close> when it leaves the block.\<close>

fun validate_ibyteptr_backward :: "byte list \<Rightarrow> nat \<Rightarrow> nat option" where
  "validate_ibyteptr_backward bs p =
     (if p < length bs \<and> ibyte_first_byte_p (bs ! p) then Some p
      else case p of 0 \<Rightarrow> None | Suc q \<Rightarrow> validate_ibyteptr_backward bs q)"

declare validate_ibyteptr_backward.simps [simp del]

text \<open>
  The number of bytes without a partial character at the end, of the \<open>size\<close> bytes from index \<open>off\<close>;
  a negative number would make the writer read outside the block.
\<close>

definition full_chars_size :: "byte list \<Rightarrow> nat \<Rightarrow> nat \<Rightarrow> nat option" where
  "full_chars_size bs off sz =
     (if byte_ascii_p (bs ! (off + sz - 1)) then Some sz
      else do {
        dataend \<leftarrow> validate_ibyteptr_backward bs (off + sz - 1);
        n \<leftarrow> rep_bytes_by_first_byte (bs ! dataend);
        if dataend + n \<noteq> off + sz then (if off \<le> dataend then Some (dataend - off) else None) else Some sz
      })"

lemma validate_ibyteptr_backward_le: "validate_ibyteptr_backward bs p = Some q \<Longrightarrow> q \<le> p"
proof (induction bs p rule: validate_ibyteptr_backward.induct)
  case (1 bs p)
  then show ?case
    by (subst (asm) (2) validate_ibyteptr_backward.simps) (fastforce split: if_splits nat.splits)
qed

lemma full_chars_size_le: "full_chars_size bs off sz = Some n \<Longrightarrow> n \<le> sz"
  by (auto simp: full_chars_size_def split: if_splits bind_splits dest: validate_ibyteptr_backward_le)

text \<open>The loop of \<open>Lstream_really_write\<close>; its value is the index of the first byte not written.\<close>

function really_write_loop :: "'d lstream_implementation \<Rightarrow> byte list \<Rightarrow> nat \<Rightarrow> nat \<Rightarrow> 'd lstream \<Rightarrow> (nat, 'd) lout" where
  "really_write_loop imp bs off sz lstr =
     (if sz = 0 then Some (Inr off, lstr)
      else if \<not> LSTR_IS_OPEN (ls_flags lstr) then Some (Inl Not_open, lstr)
      else if \<not> LSTR_WRITE (ls_flags lstr) then Some (Inl Not_open_for_writing, lstr)
      else case im_writer imp of None \<Rightarrow> Some (Inl No_writer, lstr) | Some writer \<Rightarrow>
        (case (if LSTR_NO_PARTIAL_CHARS (ls_flags lstr) then full_chars_size bs off sz else Some sz) of
           None \<Rightarrow> None
         | Some n \<Rightarrow>
             if n = 0 then Some (Inr off, lstr)
             else case writer (lstr\<lparr>ls_error_occurred_p := False\<rparr>) (take n (drop off bs)) of
               None \<Rightarrow> None
             | Some (Inl e, s) \<Rightarrow> Some (Inl e, s)
             | Some (Inr num_written, s) \<Rightarrow>
                 (let s = (if ls_error_occurred_p s then s\<lparr>ls_public_error_occurred_p := True\<rparr> else s) in
                  if \<not> (0 \<le> num_written \<and> num_written \<le> int n) then None
                  else if num_written = 0 \<or> ls_error_occurred_p s then Some (Inr (off + nat num_written), s)
                  else really_write_loop imp bs (off + nat num_written) (n - nat num_written) s)))"
  by pat_completeness auto

termination
proof (relation "measure (\<lambda>(imp, bs, off, sz, lstr). sz)")
qed (auto split: if_splits dest: full_chars_size_le)

declare really_write_loop.simps [simp del]

text \<open>The parameter \<open>size\<close> is an \<open>int\<close>.  The value is \<open>-1\<close> or the number of bytes written.\<close>

definition Lstream_really_write :: "'d lstream_implementation \<Rightarrow> byte list \<Rightarrow> 'd lstream \<Rightarrow> (int, 'd) lout" where
  "Lstream_really_write imp bs lstr =
     lbind (really_write_loop imp bs 0 (nat (c_int (length bs))) lstr) (\<lambda>written s.
     lbind (case im_flusher imp of
              Some flusher \<Rightarrow>
                if \<not> ls_error_occurred_p s
                then lbind (flusher s) (\<lambda>r s. Some (Inr (), s\<lparr>ls_error_occurred_p := r < 0\<rparr>))
                else Some (Inr (), s)
            | None \<Rightarrow> Some (Inr (), s)) (\<lambda>_ s.
       Some (Inr (if written = 0 \<and> ls_error_occurred_p s then - 1 else int written), s)))"

definition Lstream_flush_out :: "'d lstream_implementation \<Rightarrow> 'd lstream \<Rightarrow> (int, 'd) lout" where
  "Lstream_flush_out imp lstr =
     (case mem_bytes (ls_out_buffer lstr) 0 (ls_out_buffer_ind lstr) of
        None \<Rightarrow> None
      | Some bs \<Rightarrow>
          lbind (Lstream_really_write imp bs lstr) (\<lambda>num_written s.
            let ind = ls_out_buffer_ind s in
            if num_written = int ind then Some (Inr 0, s\<lparr>ls_out_buffer_ind := 0\<rparr>)
            else if num_written > 0 then
              (let k = nat num_written in
               Some (Inr 0, s\<lparr>ls_out_buffer := mem_move (ls_out_buffer s) 0 k (ind - k), ls_out_buffer_ind := ind - k\<rparr>))
            else Some (Inr num_written, s)))"

definition Lstream_flush :: "'d lstream_implementation \<Rightarrow> 'd lstream \<Rightarrow> (int, 'd) lout" where
  "Lstream_flush imp lstr =
     lbind (Lstream_flush_out imp lstr) (\<lambda>r s.
       if r < 0 then Some (Inr (- 1), s)
       else Some (Inr 0, s\<lparr>ls_in_buffer_current := 0, ls_in_buffer_ind := 0, ls_unget_buffer_ind := 0\<rparr>))"

text \<open>Room for \<open>num\<close> bytes, or fewer, in the output buffer.\<close>

definition Lstream_adding :: "nat \<Rightarrow> bool \<Rightarrow> 'd lstream \<Rightarrow> nat \<times> 'd lstream" where
  "Lstream_adding num force lstr =
     (let sz = num + ls_out_buffer_ind lstr in
      if sz \<le> ls_out_buffer_size lstr then (num, lstr)
      else if sz > ls_buffering_size lstr \<and> \<not> force \<and> ls_buffering_size lstr \<le> ls_out_buffer_ind lstr then (0, lstr)
      else
        let sz = (if sz > ls_buffering_size lstr \<and> \<not> force then ls_buffering_size lstr else sz);
            (b, n) = DO_REALLOC (ls_out_buffer lstr) (ls_out_buffer_size lstr) sz
        in (sz - ls_out_buffer_ind lstr, lstr\<lparr>ls_out_buffer := b, ls_out_buffer_size := n\<rparr>))"

text \<open>Bytes put at the end of the output buffer.\<close>

definition out_buffer_append :: "byte list \<Rightarrow> 'd lstream \<Rightarrow> 'd lstream option" where
  "out_buffer_append bs lstr =
     map_option (\<lambda>b. lstr\<lparr>ls_out_buffer := b, ls_out_buffer_ind := ls_out_buffer_ind lstr + length bs\<rparr>)
       (mem_store (ls_out_buffer lstr) (ls_out_buffer_ind lstr) bs)"

definition write_unbuffered :: "'d lstream_implementation \<Rightarrow> byte list \<Rightarrow> 'd lstream \<Rightarrow> (int, 'd) lout" where
  "write_unbuffered imp bs lstr =
     lbind (if ls_out_buffer_ind lstr > 0 then Lstream_flush_out imp lstr else Some (Inr 0, lstr)) (\<lambda>r s.
     if r < 0 then Some (Inr (- 1), s)
     else
       lbind (if ls_out_buffer_ind s = 0 then Lstream_really_write imp bs s else Some (Inr 0, s)) (\<lambda>off s.
       if off < 0 then Some (Inr (- 1), s)
       else if \<not> LSTR_NO_SQUIRREL (ls_flags s) \<and> off < int (length bs) then
         let s = snd (Lstream_adding (length bs - nat off) True s) in
         (case out_buffer_append (drop (nat off) bs) s of
            None \<Rightarrow> None
          | Some s \<Rightarrow> Some (Inr (int (length bs)), s\<lparr>ls_byte_count := ls_byte_count s + int (length bs)\<rparr>))
       else Some (Inr off, s\<lparr>ls_byte_count := ls_byte_count s + off\<rparr>)))"

text \<open>The loop for buffered streams: \<open>couldnt_write\<close> tells that the buffer was full already.\<close>

definition write_room :: "nat \<Rightarrow> bool \<Rightarrow> 'd lstream \<Rightarrow> nat \<times> 'd lstream" where
  "write_room sz couldnt_write lstr =
     (let (chunk, s) = Lstream_adding sz False lstr
      in if chunk = 0 \<and> couldnt_write then Lstream_adding sz True s else (chunk, s))"

lemma Lstream_adding_force: "fst (Lstream_adding num True lstr) = num"
  by (auto simp: Lstream_adding_def Let_def split: prod.splits)

lemma write_room_pos: "write_room sz True lstr = (chunk, s) \<Longrightarrow> chunk = 0 \<Longrightarrow> sz = 0"
  using Lstream_adding_force [of sz "snd (Lstream_adding sz False lstr)"]
  by (auto simp: write_room_def split: prod.splits if_splits)

function write_buffered :: "'d lstream_implementation \<Rightarrow> byte list \<Rightarrow> nat \<Rightarrow> bool \<Rightarrow> 'd lstream \<Rightarrow> (int, 'd) lout" where
  "write_buffered imp bs off couldnt_write lstr =
     (case write_room (length bs - off) couldnt_write lstr of (chunk, s) \<Rightarrow>
      case out_buffer_append (take chunk (drop off bs)) s of
        None \<Rightarrow> None
      | Some s \<Rightarrow>
          if length bs - off - chunk > 0 then
            (case Lstream_flush_out imp (s\<lparr>ls_byte_count := ls_byte_count s + int chunk\<rparr>) of
               None \<Rightarrow> None
             | Some (Inl e, s) \<Rightarrow> Some (Inl e, s)
             | Some (Inr r, s) \<Rightarrow>
                 if r < 0 then Some (Inr (if off + chunk = 0 then - 1 else int (off + chunk)), s)
                 else write_buffered imp bs (off + chunk) (couldnt_write \<or> chunk = 0) s)
          else Some (Inr (int (off + chunk)), s\<lparr>ls_byte_count := ls_byte_count s + int chunk\<rparr>))"
  by pat_completeness auto

termination
proof (relation "measure (\<lambda>(imp, bs, off, c, lstr). 2 * (length bs - off) + (if c then 0 else 1))", goal_cases)
  case (2 imp bs off c lstr chunk s)
  have "c \<Longrightarrow> chunk = 0 \<Longrightarrow> length bs - off = 0" using 2(1,2) write_room_pos by (metis (full_types))
  then have "0 < chunk \<or> \<not> c" using 2(3) by auto
  then show ?case using 2(3) by auto
qed simp

declare write_buffered.simps [simp del]

definition Lstream_write_1 :: "'d lstream_implementation \<Rightarrow> byte list \<Rightarrow> 'd lstream \<Rightarrow> (int, 'd) lout" where
  "Lstream_write_1 imp bs lstr =
     (if \<not> LSTR_IS_OPEN (ls_flags lstr) then Some (Inl Not_open, lstr)
      else if \<not> LSTR_WRITE (ls_flags lstr) then Some (Inl Not_open_for_writing, lstr)
      else if ls_buffering lstr = LSTREAM_UNBUFFERED then write_unbuffered imp bs lstr
      else write_buffered imp bs 0 False lstr)"

definition Lstream_fputc :: "'d lstream_implementation \<Rightarrow> byte \<Rightarrow> 'd lstream \<Rightarrow> (int, 'd) lout" where
  "Lstream_fputc imp ch lstr =
     lbind (Lstream_write_1 imp [ch] lstr) (\<lambda>r s.
       if r \<ge> 0 \<and> ls_buffering s = LSTREAM_LINE_BUFFERED \<and> ch = 0x0A then Lstream_flush_out imp s
       else Some (Inr (if r \<ge> 0 then 0 else - 1), s))"

definition Lstream_putc :: "'d lstream_implementation \<Rightarrow> byte \<Rightarrow> 'd lstream \<Rightarrow> (int, 'd) lout" where
  "Lstream_putc imp ch lstr =
     (if ls_out_buffer_ind lstr \<ge> ls_out_buffer_size lstr then Lstream_fputc imp ch lstr
      else case out_buffer_append [ch] lstr of
        None \<Rightarrow> None
      | Some s \<Rightarrow>
          let s = s\<lparr>ls_byte_count := ls_byte_count s + 1\<rparr> in
          if ls_buffering s = LSTREAM_LINE_BUFFERED \<and> ch = 0x0A then Lstream_flush_out imp s else Some (Inr 0, s))"

text \<open>The loop over the bytes of a line-buffered stream, with the count of those put.\<close>

fun write_putc_loop :: "'d lstream_implementation \<Rightarrow> byte list \<Rightarrow> nat \<Rightarrow> 'd lstream \<Rightarrow> (int, 'd) lout" where
  "write_putc_loop imp [] i lstr = Some (Inr (if i = 0 then - 1 else int i), lstr)"
| "write_putc_loop imp (c # cs) i lstr =
     lbind (Lstream_putc imp c lstr) (\<lambda>r s.
       if r < 0 then Some (Inr (if i = 0 then - 1 else int i), s) else write_putc_loop imp cs (i + 1) s)"

definition Lstream_write :: "'d lstream_implementation \<Rightarrow> byte list \<Rightarrow> 'd lstream \<Rightarrow> (int, 'd) lout" where
  "Lstream_write imp bs lstr =
     (let lstr = Lstream_clear_error_occurred_p lstr in
      if bs = [] then Some (Inr 0, lstr)
      else if ls_buffering lstr \<noteq> LSTREAM_LINE_BUFFERED then Lstream_write_1 imp bs lstr
      else write_putc_loop imp bs 0 lstr)"

definition Lstream_write_with_extents :: "'d lstream_implementation \<Rightarrow> byte list \<Rightarrow> 'd lstream \<Rightarrow> (int, 'd) lout" where
  "Lstream_write_with_extents imp bs lstr =
     (case im_write_with_extents imp of
        Some write_with_extents \<Rightarrow>
          lbind (Lstream_flush imp lstr) (\<lambda>r s.
            if r < 0 then Some (Inr (- 1), s)
            else write_with_extents (s\<lparr>ls_byte_count := ls_byte_count s + int (length bs)\<rparr>) bs)
      | None \<Rightarrow> Lstream_write imp bs lstr)"

text \<open>A character, as its internal text.\<close>

definition Lstream_fput_ichar :: "'d lstream_implementation \<Rightarrow> ichar \<Rightarrow> 'd lstream \<Rightarrow> (int, 'd) lout" where
  "Lstream_fput_ichar imp ch lstr =
     lbind (Lstream_write imp ch lstr) (\<lambda>r s. Some (Inr (if r \<ge> 0 then 0 else - 1), s))"

definition Lstream_put_ichar :: "'d lstream_implementation \<Rightarrow> ichar \<Rightarrow> 'd lstream \<Rightarrow> (int, 'd) lout" where
  "Lstream_put_ichar imp ch lstr =
     (if length ch = 1 \<and> byte_ascii_p (hd ch) then Lstream_putc imp (hd ch) lstr else Lstream_fput_ichar imp ch lstr)"

section \<open>Reading\<close>

text \<open>A read by the implementation: \<open>None\<close> for the value \<open>-1\<close>.\<close>

definition Lstream_raw_read :: "'d lstream_implementation \<Rightarrow> nat \<Rightarrow> 'd lstream \<Rightarrow> (byte list option, 'd) lout" where
  "Lstream_raw_read imp sz lstr =
     (if \<not> LSTR_IS_OPEN (ls_flags lstr) then Some (Inl Not_open, lstr)
      else if \<not> LSTR_READ (ls_flags lstr) then Some (Inl Not_open_for_reading, lstr)
      else case im_reader imp of None \<Rightarrow> Some (Inl No_reader, lstr) | Some reader \<Rightarrow>
        lbind (reader (lstr\<lparr>ls_error_occurred_p := False\<rparr>) sz) (\<lambda>bs s.
          if length bs > sz then None
          else
            let s = (if ls_error_occurred_p s then s\<lparr>ls_public_error_occurred_p := True\<rparr> else s)
            in Some (Inr (if bs = [] \<and> ls_error_occurred_p s then None else Some bs), s)))"

text \<open>The value is the number of bytes now in the input buffer, \<open>None\<close> for \<open>-1\<close>.\<close>

definition Lstream_read_more :: "'d lstream_implementation \<Rightarrow> 'd lstream \<Rightarrow> (nat option, 'd) lout" where
  "Lstream_read_more imp lstr =
     (let size_needed = max 1 (ls_buffering_size lstr);
          (b, n) = DO_REALLOC (ls_in_buffer lstr) (ls_in_buffer_size lstr) size_needed in
      lbind (Lstream_raw_read imp size_needed (lstr\<lparr>ls_in_buffer := b, ls_in_buffer_size := n\<rparr>)) (\<lambda>r s.
        let bs = (case r of None \<Rightarrow> [] | Some bs \<Rightarrow> bs) in
        case mem_store (ls_in_buffer s) 0 bs of
          None \<Rightarrow> None
        | Some b \<Rightarrow> Some (Inr (map_option length r),
            s\<lparr>ls_in_buffer := b, ls_in_buffer_current := length bs, ls_in_buffer_ind := 0\<rparr>)))"

text \<open>The loop of \<open>Lstream_read_1\<close> for \<open>sz\<close> more bytes; the value tells whether an error ended it.\<close>

definition in_avail :: "'d lstream \<Rightarrow> nat" where
  "in_avail lstr = ls_in_buffer_current lstr - ls_in_buffer_ind lstr"

lemma Lstream_read_more_avail: "Lstream_read_more imp lstr = Some (Inr (Some n), s) \<Longrightarrow> in_avail s = n"
  by (auto simp: Lstream_read_more_def lbind_def in_avail_def Let_def split: prod.splits option.splits sum.splits if_splits)

lemma read_loop_decreases: "bs \<noteq> [] \<Longrightarrow> 0 < sz \<Longrightarrow> 2 * (sz - length bs) + (if P then 1 else 0) < 2 * (sz::nat) + k"
  by (cases bs) auto

function read_loop :: "'d lstream_implementation \<Rightarrow> nat \<Rightarrow> byte list \<Rightarrow> 'd lstream \<Rightarrow> (byte list \<times> bool, 'd) lout" where
  "read_loop imp sz acc lstr =
     (if sz = 0 then Some (Inr (acc, False), lstr)
      else if ls_buffering lstr = LSTREAM_UNBUFFERED then
        (case Lstream_raw_read imp sz lstr of
           None \<Rightarrow> None
         | Some (Inl e, s) \<Rightarrow> Some (Inl e, s)
         | Some (Inr None, s) \<Rightarrow> Some (Inr (acc, True), s)
         | Some (Inr (Some bs), s) \<Rightarrow>
             if bs = [] then Some (Inr (acc, False), s)
             else read_loop imp (sz - length bs) (acc @ bs) (s\<lparr>ls_byte_count := ls_byte_count s + int (length bs)\<rparr>))
      else
        (let chunk = min sz (in_avail lstr) in
         case mem_bytes (ls_in_buffer lstr) (ls_in_buffer_ind lstr) chunk of
           None \<Rightarrow> None
         | Some bs \<Rightarrow>
             (let s = lstr\<lparr>ls_in_buffer_ind := ls_in_buffer_ind lstr + chunk, ls_byte_count := ls_byte_count lstr + int chunk\<rparr> in
              if sz - chunk = 0 then Some (Inr (acc @ bs, False), s)
              else case Lstream_read_more imp s of
                None \<Rightarrow> None
              | Some (Inl e, s) \<Rightarrow> Some (Inl e, s)
              | Some (Inr None, s) \<Rightarrow> Some (Inr (acc @ bs, True), s)
              | Some (Inr (Some n), s) \<Rightarrow>
                  if n = 0 then Some (Inr (acc @ bs, False), s) else read_loop imp (sz - chunk) (acc @ bs) s)))"
  by pat_completeness auto

termination
  by (relation "measure (\<lambda>(imp, sz, acc, lstr). 2 * sz + (if in_avail lstr = 0 then 1 else 0))")
    (auto simp: Let_def read_loop_decreases dest: Lstream_read_more_avail simp del: One_nat_def split: if_splits)

declare read_loop.simps [simp del]

text \<open>Pushing bytes back: they are kept in reverse order, as on a stack.\<close>

definition Lstream_unread :: "byte list \<Rightarrow> 'd lstream \<Rightarrow> 'd lstream option" where
  "Lstream_unread bs lstr =
     (let (b, n) = DO_REALLOC (ls_unget_buffer lstr) (ls_unget_buffer_size lstr) (ls_unget_buffer_ind lstr + length bs) in
      map_option (\<lambda>b. lstr\<lparr>ls_unget_buffer := b, ls_unget_buffer_size := n,
          ls_unget_buffer_ind := ls_unget_buffer_ind lstr + length bs, ls_byte_count := ls_byte_count lstr - int (length bs),
          ls_unget_character_count := ls_unget_character_count lstr + int (length (filter ibyte_first_byte_p bs))\<rparr>)
        (mem_store b (ls_unget_buffer_ind lstr) (rev bs)))"

definition validate_ibyte_string_backward :: "byte list \<Rightarrow> nat option" where
  "validate_ibyte_string_backward bs =
     (if bs = [] then Some 0
      else do {
        ptr2 \<leftarrow> validate_ibyteptr_backward bs (length bs - 1);
        n \<leftarrow> rep_bytes_by_first_byte (bs ! ptr2);
        Some (if ptr2 + n \<noteq> length bs then ptr2 else length bs)
      })"

text \<open>The bytes taken back from the unget buffer.\<close>

definition take_ungot :: "nat \<Rightarrow> 'd lstream \<Rightarrow> (byte list \<times> 'd lstream) option" where
  "take_ungot sz lstr =
     (let chunk = min sz (ls_unget_buffer_ind lstr) in
      map_option (\<lambda>bs. (rev bs, lstr\<lparr>ls_unget_buffer_ind := ls_unget_buffer_ind lstr - chunk,
          ls_byte_count := ls_byte_count lstr + int chunk\<rparr>))
        (mem_bytes (ls_unget_buffer lstr) (ls_unget_buffer_ind lstr - chunk) chunk))"

text \<open>\<open>Lstream_read_1\<close>: the bytes read, \<open>None\<close> for the value \<open>-1\<close>.\<close>

definition Lstream_read_1 :: "'d lstream_implementation \<Rightarrow> nat \<Rightarrow> bool \<Rightarrow> 'd lstream \<Rightarrow> (byte list option, 'd) lout" where
  "Lstream_read_1 imp sz override_no_partial_chars lstr =
     (if sz = 0 then Some (Inr (Some []), lstr)
      else case take_ungot sz lstr of None \<Rightarrow> None | Some (bs, s) \<Rightarrow>
        lbind (read_loop imp (sz - length bs) bs s) (\<lambda>(bs, error_occurred) s.
          if LSTR_NO_PARTIAL_CHARS (ls_flags s) \<and> \<not> override_no_partial_chars then
            (case validate_ibyte_string_backward bs of None \<Rightarrow> None | Some newoff \<Rightarrow>
               if newoff < length bs then
                 (let before = ls_unget_character_count s in
                  case Lstream_unread (drop newoff bs) s of None \<Rightarrow> None | Some s \<Rightarrow>
                    Some (Inr (if newoff = 0 \<and> error_occurred then None else Some (take newoff bs)),
                      s\<lparr>ls_unget_character_count := before\<rparr>))
               else Some (Inr (if bs = [] \<and> error_occurred then None else Some bs), s))
          else Some (Inr (if bs = [] \<and> error_occurred then None else Some bs), s)))"

definition Lstream_read :: "'d lstream_implementation \<Rightarrow> nat \<Rightarrow> 'd lstream \<Rightarrow> (byte list option, 'd) lout" where
  "Lstream_read imp sz lstr = Lstream_read_1 imp sz False lstr"

text \<open>One byte, \<open>None\<close> for the value \<open>-1\<close> at an end or an error.\<close>

definition Lstream_fgetc :: "'d lstream_implementation \<Rightarrow> 'd lstream \<Rightarrow> (byte option, 'd) lout" where
  "Lstream_fgetc imp lstr =
     lbind (Lstream_read_1 imp 1 True lstr) (\<lambda>r s.
       Some (Inr (case r of Some (c # _) \<Rightarrow> Some c | _ \<Rightarrow> None), s))"

definition Lstream_getc :: "'d lstream_implementation \<Rightarrow> 'd lstream \<Rightarrow> (byte option, 'd) lout" where
  "Lstream_getc imp lstr =
     (if ls_unget_buffer_ind lstr > 0 then
        map_option (\<lambda>c. (Inr (Some c), lstr\<lparr>ls_byte_count := ls_byte_count lstr + 1,
            ls_unget_buffer_ind := ls_unget_buffer_ind lstr - 1\<rparr>))
          (mem_read (ls_unget_buffer lstr) (ls_unget_buffer_ind lstr - 1))
      else if ls_in_buffer_ind lstr < ls_in_buffer_current lstr then
        map_option (\<lambda>c. (Inr (Some c), lstr\<lparr>ls_byte_count := ls_byte_count lstr + 1,
            ls_in_buffer_ind := ls_in_buffer_ind lstr + 1\<rparr>))
          (mem_read (ls_in_buffer lstr) (ls_in_buffer_ind lstr))
      else Lstream_fgetc imp lstr)"

definition Lstream_fungetc :: "byte \<Rightarrow> 'd lstream \<Rightarrow> 'd lstream option" where
  "Lstream_fungetc c = Lstream_unread [c]"

definition Lstream_ungetc :: "byte \<Rightarrow> 'd lstream \<Rightarrow> 'd lstream option" where
  "Lstream_ungetc c lstr =
     (if ls_unget_buffer_ind lstr \<ge> ls_unget_buffer_size lstr then Lstream_fungetc c lstr
      else map_option (\<lambda>b. lstr\<lparr>ls_byte_count := ls_byte_count lstr - 1, ls_unget_buffer := b,
          ls_unget_character_count := ls_unget_character_count lstr + (if ibyte_first_byte_p c then 1 else 0),
          ls_unget_buffer_ind := ls_unget_buffer_ind lstr + 1\<rparr>)
        (mem_store (ls_unget_buffer lstr) (ls_unget_buffer_ind lstr) [c]))"

text \<open>The other bytes of a character whose first byte is read; an end in it fails an assertion.\<close>

fun get_ichar_rest :: "'d lstream_implementation \<Rightarrow> nat \<Rightarrow> byte list \<Rightarrow> 'd lstream \<Rightarrow> (ichar, 'd) lout" where
  "get_ichar_rest imp 0 str lstr = Some (Inr str, lstr)"
| "get_ichar_rest imp (Suc bytes) str lstr =
     lbind (Lstream_getc imp lstr) (\<lambda>r s. case r of None \<Rightarrow> None | Some c \<Rightarrow> get_ichar_rest imp bytes (str @ [c]) s)"

definition Lstream_get_ichar_1 :: "'d lstream_implementation \<Rightarrow> byte \<Rightarrow> 'd lstream \<Rightarrow> (ichar, 'd) lout" where
  "Lstream_get_ichar_1 imp ch lstr =
     (case rep_bytes_by_first_byte ch of None \<Rightarrow> None | Some n \<Rightarrow> get_ichar_rest imp (n - 1) [ch] lstr)"

definition Lstream_get_ichar :: "'d lstream_implementation \<Rightarrow> 'd lstream \<Rightarrow> (ichar option, 'd) lout" where
  "Lstream_get_ichar imp lstr =
     lbind (Lstream_getc imp lstr) (\<lambda>r s. case r of
         None \<Rightarrow> Some (Inr None, s)
       | Some c \<Rightarrow>
           if c < 0x80 then Some (Inr (Some [c]), s)
           else lbind (Lstream_get_ichar_1 imp c s) (\<lambda>ch s. Some (Inr (Some ch), s)))"

definition Lstream_funget_ichar :: "ichar \<Rightarrow> 'd lstream \<Rightarrow> 'd lstream option" where
  "Lstream_funget_ichar = Lstream_unread"

definition Lstream_unget_ichar :: "ichar \<Rightarrow> 'd lstream \<Rightarrow> 'd lstream option" where
  "Lstream_unget_ichar ch lstr =
     (if length ch = 1 \<and> byte_ascii_p (hd ch) then Lstream_ungetc (hd ch) lstr else Lstream_funget_ichar ch lstr)"

text \<open>The characters in buffered text, with a partial one at the start and without one at the end.\<close>

definition buffered_bytecount_to_charcount :: "nat \<Rightarrow> byte list \<Rightarrow> nat option" where
  "buffered_bytecount_to_charcount base bs =
     (case bs of [] \<Rightarrow> None | c # _ \<Rightarrow>
        if ibyte_first_byte_p c \<and> (case rep_bytes_by_first_byte c of None \<Rightarrow> False | Some n \<Rightarrow> n > length bs) then Some 0
        else
          (let rest = dropWhile (\<lambda>b. \<not> ibyte_first_byte_p b) bs;
               partial_first = (if ibyte_first_byte_p c then 0 else 1) in do {
             impartial \<leftarrow> (if rest = [] then Some 0 else validate_ibyte_string_backward rest);
             n \<leftarrow> bytecount_to_charcount base (map Some rest) 0 impartial;
             Some (partial_first + n)
           }))"

definition Lstream_character_tell :: "nat \<Rightarrow> 'd lstream_implementation \<Rightarrow> 'd lstream \<Rightarrow> int option" where
  "Lstream_character_tell base imp lstr =
     (let ctell = (case im_character_tell imp of Some f \<Rightarrow> f lstr | None \<Rightarrow> - 1) in
      if ctell < 0 then Some ctell
      else do {
        ungot \<leftarrow> mem_bytes (ls_unget_buffer lstr) 0 (ls_unget_buffer_ind lstr);
        a \<leftarrow> (if ls_unget_buffer_ind lstr > 0 then buffered_bytecount_to_charcount base (rev ungot) else Some 0);
        bs \<leftarrow> mem_bytes (ls_in_buffer lstr) (ls_in_buffer_ind lstr) (in_avail lstr);
        b \<leftarrow> (if ls_in_buffer_ind lstr < ls_in_buffer_current lstr then buffered_bytecount_to_charcount base bs else Some 0);
        (let r = ctell + ls_unget_character_count lstr - int a - int b in if r < 0 then None else Some r)
      })"

section \<open>Rewinding and closing\<close>

definition Lstream_rewind :: "'d lstream_implementation \<Rightarrow> 'd lstream \<Rightarrow> (int, 'd) lout" where
  "Lstream_rewind imp lstr =
     (case im_rewinder imp of None \<Rightarrow> Some (Inl No_rewinder, lstr) | Some rewinder \<Rightarrow>
        lbind (Lstream_flush imp lstr) (\<lambda>r s.
          if r < 0 then Some (Inr (- 1), s)
          else rewinder (s\<lparr>ls_byte_count := 0, ls_unget_character_count := 0\<rparr>)))"

definition Lstream_seek_from_end :: "'d lstream_implementation \<Rightarrow> int \<Rightarrow> 'd lstream \<Rightarrow> (bool, 'd) lout" where
  "Lstream_seek_from_end imp offset lstr =
     (case im_seek_from_end imp of None \<Rightarrow> Some (Inr False, lstr) | Some seek_from_end \<Rightarrow>
        if offset \<ge> 0 then Some (Inr False, lstr)
        else lbind (Lstream_flush imp lstr) (\<lambda>r s.
          if r < 0 then Some (Inr False, s)
          else lbind (seek_from_end s offset) (\<lambda>result s.
            Some (Inr result, if result then s\<lparr>ls_byte_count := 0, ls_unget_character_count := 0\<rparr> else s))))"

definition Lstream_seekable_p :: "'d lstream_implementation \<Rightarrow> 'd lstream \<Rightarrow> bool" where
  "Lstream_seekable_p imp lstr =
     (im_rewinder imp \<noteq> None \<and> (case im_seekable_p imp of None \<Rightarrow> True | Some f \<Rightarrow> f lstr))"

definition Lstream_pseudo_close :: "'d lstream_implementation \<Rightarrow> 'd lstream \<Rightarrow> (int, 'd) lout" where
  "Lstream_pseudo_close imp lstr =
     (if \<not> LSTR_IS_OPEN (ls_flags lstr) then Some (Inl Not_open, lstr) else Lstream_flush imp lstr)"

text \<open>The buffers are freed; their sizes stay.\<close>

definition Lstream_close_noflush :: "'d lstream \<Rightarrow> 'd lstream" where
  "Lstream_close_noflush lstr =
     lstr\<lparr>ls_flags := (ls_flags lstr)\<lparr>LSTR_IS_OPEN := False\<rparr>, ls_byte_count := 0,
          ls_out_buffer := [], ls_in_buffer := [], ls_unget_buffer := []\<rparr>"

definition Lstream_close :: "'d lstream_implementation \<Rightarrow> 'd lstream \<Rightarrow> (int, 'd) lout" where
  "Lstream_close imp lstr =
     lbind (if LSTR_IS_OPEN (ls_flags lstr) then
              lbind (Lstream_pseudo_close imp lstr) (\<lambda>rc s.
                case im_closer imp of None \<Rightarrow> Some (Inr rc, s)
                | Some closer \<Rightarrow> lbind (closer s) (\<lambda>r s. Some (Inr (if r < 0 then - 1 else rc), s)))
            else Some (Inr 0, lstr)) (\<lambda>rc s. Some (Inr rc, Lstream_close_noflush s))"

end
