(* ===== verification/Lstream_Text.thy ===== *)
theory Lstream_Text
  imports Lstream
begin

text \<open>
  Facts on the buffers of streams as blocks of memory, and on text that is cut at any byte: how much of it
  the streams in character mode pass on.
\<close>

section \<open>Blocks\<close>

lemma do_realloc_size_ge: "0 < s \<Longrightarrow> needed \<le> do_realloc_size s needed \<and> s \<le> do_realloc_size s needed"
proof (induction s needed rule: do_realloc_size.induct)
  case (1 s needed)
  show ?case
  proof (cases "s < needed")
    case True
    then have "do_realloc_size s needed = do_realloc_size (s * 2) needed" using 1 by (subst do_realloc_size.simps) simp
    then show ?thesis using 1 True by force
  next
    case False
    then have "do_realloc_size s needed = s" by (subst do_realloc_size.simps) simp
    then show ?thesis using False by simp
  qed
qed

lemma DO_REALLOC_ok:
  assumes "DO_REALLOC base sz needed = (b, n)" "length base = sz"
  shows "length b = n" "needed \<le> n" "sz \<le> n" "\<exists>ys. b = base @ ys"
proof -
  have ge: "needed \<le> do_realloc_size (if sz < 32 then 32 else sz) needed" "sz \<le> do_realloc_size (if sz < 32 then 32 else sz) needed"
    using do_realloc_size_ge [of "if sz < 32 then 32 else sz" needed] by (auto split: if_splits)
  with assms show "length b = n" "needed \<le> n" "sz \<le> n" by (auto simp: DO_REALLOC_def Let_def split: if_splits)
  show "\<exists>ys. b = base @ ys" using assms ge(2) by (auto simp: DO_REALLOC_def Let_def mem_realloc_def split: if_splits)
qed

lemma mem_bytes_at: "mem_bytes (xs @ map Some bs @ ys) (length xs) (length bs) = Some bs"
  by (simp add: mem_bytes_def list_all_iff comp_def)

lemma mem_bytes_start: "mem_bytes (map Some bs @ ys) 0 (length bs) = Some bs"
  using mem_bytes_at [of "[]"] by simp

lemma mem_store_at: "length zs = length bs \<Longrightarrow> mem_store (xs @ zs @ ys) (length xs) bs = Some (xs @ map Some bs @ ys)"
  by (simp add: mem_store_def mem_copy_def)

text \<open>A buffer of recorded size \<open>sz\<close> whose first \<open>ind\<close> bytes are \<open>bs\<close>.\<close>

definition buf_holds :: "byte cells \<Rightarrow> nat \<Rightarrow> nat \<Rightarrow> byte list \<Rightarrow> bool" where
  "buf_holds mem sz ind bs \<longleftrightarrow> length mem = sz \<and> ind = length bs \<and> (\<exists>ys. mem = map Some bs @ ys)"

lemma buf_holds_empty: "buf_holds [] 0 0 []"
  by (simp add: buf_holds_def)

lemma buf_holds_reset: "buf_holds mem sz ind bs \<Longrightarrow> buf_holds mem sz 0 []"
  by (simp add: buf_holds_def)

lemma buf_holds_length: "buf_holds mem sz ind bs \<Longrightarrow> length mem = sz \<and> ind = length bs \<and> length bs \<le> sz"
  by (auto simp: buf_holds_def)

lemma buf_holds_bytes: "buf_holds mem sz ind bs \<Longrightarrow> mem_bytes mem 0 ind = Some bs"
  by (auto simp: buf_holds_def mem_bytes_start)

lemma buf_holds_realloc:
  assumes "buf_holds mem sz ind bs" "DO_REALLOC mem sz needed = (b, n)"
  shows "buf_holds b n ind bs" "needed \<le> n"
proof -
  have "length mem = sz" using assms(1) by (simp add: buf_holds_def)
  note r = DO_REALLOC_ok [OF assms(2) this]
  show "needed \<le> n" by (rule r(2))
  from r(4) obtain ys where "b = mem @ ys" by blast
  with assms(1) r(1) show "buf_holds b n ind bs" by (auto simp: buf_holds_def)
qed

lemma buf_holds_store:
  assumes "buf_holds mem sz ind bs" "ind + length cs \<le> sz"
  shows "\<exists>b. mem_store mem ind cs = Some b \<and> buf_holds b sz (ind + length cs) (bs @ cs)"
proof -
  obtain ys where m: "mem = map Some bs @ ys" "length mem = sz" "ind = length bs" using assms(1) by (auto simp: buf_holds_def)
  then have "length cs \<le> length ys" using assms(2) by auto
  then obtain zs ws where "ys = zs @ ws" "length zs = length cs"
    by (metis append_take_drop_id length_take min.absorb2)
  then have "mem_store mem ind cs = Some (map Some bs @ map Some cs @ ws)"
    using mem_store_at [of zs cs "map Some bs" ws] m by simp
  then show ?thesis using m \<open>ys = zs @ ws\<close> \<open>length zs = length cs\<close> by (auto simp: buf_holds_def)
qed

lemma buf_holds_move:
  assumes "buf_holds mem sz ind bs" "k \<le> length bs"
  shows "buf_holds (mem_move mem 0 k (ind - k)) sz (ind - k) (drop k bs)"
proof -
  obtain ys where m: "mem = map Some bs @ ys" "length mem = sz" "ind = length bs" using assms(1) by (auto simp: buf_holds_def)
  have "take (ind - k) (drop k mem) = map Some (drop k bs)" using m assms(2) by (simp add: drop_map)
  then have "mem_move mem 0 k (ind - k) = map Some (drop k bs) @ drop (ind - k) mem" by (simp add: mem_move_def)
  moreover have "length (mem_move mem 0 k (ind - k)) = sz" using m assms(2) by (subst length_mem_move) auto
  ultimately show ?thesis using m by (auto simp: buf_holds_def)
qed

section \<open>Text cut at any byte\<close>

definition whole_chars :: "byte list \<Rightarrow> bool" where
  "whole_chars bs \<longleftrightarrow> (\<exists>cs. chars_ok cs \<and> bs = concat cs)"

definition partial_char :: "byte list \<Rightarrow> bool" where
  "partial_char bs = (case bs of [] \<Rightarrow> True
     | b # xs \<Rightarrow> (case rep_bytes_by_first_byte b of None \<Rightarrow> False | Some n \<Rightarrow> length bs < n) \<and>
         list_all (\<lambda>x. \<not> ibyte_first_byte_p x) xs)"

definition text_prefix :: "byte list \<Rightarrow> bool" where
  "text_prefix bs \<longleftrightarrow> (\<exists>cs pr. chars_ok cs \<and> partial_char pr \<and> bs = concat cs @ pr)"

lemma whole_chars_Nil [simp]: "whole_chars []"
  by (auto simp: whole_chars_def intro: exI [of _ "[]"])

lemma whole_chars_append: "whole_chars xs \<Longrightarrow> whole_chars ys \<Longrightarrow> whole_chars (xs @ ys)"
proof -
  assume "whole_chars xs" "whole_chars ys"
  then obtain C D where "chars_ok C" "xs = concat C" "chars_ok D" "ys = concat D" by (auto simp: whole_chars_def)
  then show ?thesis unfolding whole_chars_def by (intro exI [of _ "C @ D"]) auto
qed

lemma whole_text_prefix: "whole_chars bs \<Longrightarrow> text_prefix bs"
  unfolding whole_chars_def text_prefix_def by (metis append_Nil2 list.simps(4) partial_char_def)

lemma partial_first: "partial_char (b # xs) \<Longrightarrow> ibyte_first_byte_p b \<and> \<not> byte_ascii_p b"
  by (auto simp: partial_char_def split: option.splits dest!: rep_bytes_facts)

lemma ichar_not_partial:
  assumes "ichar_ok c" "pr = c @ R"
  shows "\<not> partial_char pr"
proof -
  from assms(1) obtain b bs where "c = b # bs" "rep_bytes_by_first_byte b = Some (Suc (length bs))" by (rule ichar_okE) blast
  with assms(2) show ?thesis by (simp add: partial_char_def)
qed

text \<open>The characters at the start of a text are determined.\<close>

lemma ichar_prefix_unique:
  assumes "ichar_ok c" "ichar_ok d" "c @ xs = d @ ys"
  shows "c = d \<and> xs = ys"
proof -
  from assms(1) obtain b bs where c: "c = b # bs" "rep_bytes_by_first_byte b = Some (Suc (length bs))" by (rule ichar_okE) blast
  from assms(2) obtain b' bs' where d: "d = b' # bs'" "rep_bytes_by_first_byte b' = Some (Suc (length bs'))" by (rule ichar_okE) blast
  have "length c = length d" using c d assms(3) by auto
  then show ?thesis using assms(3) by simp
qed

lemma text_prefix_rest: "text_prefix (concat D @ R) \<Longrightarrow> chars_ok D \<Longrightarrow> text_prefix R"
proof (induction D)
  case (Cons d D)
  have d: "ichar_ok d" "chars_ok D" using Cons.prems(2) by simp_all
  obtain cs pr where cp: "chars_ok cs" "partial_char pr" "d @ (concat D @ R) = concat cs @ pr"
    using Cons.prems(1) by (auto simp: text_prefix_def)
  show ?case
  proof (cases cs)
    case Nil
    then have "pr = d @ (concat D @ R)" using cp(3) by simp
    with ichar_not_partial [OF d(1) this] cp(2) show ?thesis by blast
  next
    case (Cons c cs')
    then have "d @ (concat D @ R) = c @ (concat cs' @ pr)" "ichar_ok c" using cp by simp_all
    then have "concat D @ R = concat cs' @ pr" using ichar_prefix_unique [OF d(1)] by blast
    then have "text_prefix (concat D @ R)" unfolding text_prefix_def using cp Cons by (metis list.set_intros(2))
    then show ?thesis using Cons.IH d(2) by blast
  qed
qed simp

lemma text_prefix_drop: "text_prefix bs \<Longrightarrow> whole_chars (take k bs) \<Longrightarrow> text_prefix (drop k bs)"
proof -
  assume t: "text_prefix bs" "whole_chars (take k bs)"
  then obtain D where "chars_ok D" "take k bs = concat D" by (auto simp: whole_chars_def)
  moreover have "bs = concat D @ drop k bs" using calculation by (metis append_take_drop_id)
  ultimately show ?thesis using text_prefix_rest [of D "drop k bs"] t(1) by simp
qed

lemma whole_chars_rest: "whole_chars (xs @ ys) \<Longrightarrow> whole_chars xs \<Longrightarrow> whole_chars ys"
proof -
  have "chars_ok C \<Longrightarrow> chars_ok D \<Longrightarrow> concat C = concat D @ R \<Longrightarrow> \<exists>E. chars_ok E \<and> R = concat E" for C D R
  proof (induction D arbitrary: C)
    case (Cons d D)
    then have "C \<noteq> []" using ichar_ok_nonempty by (cases C) auto
    then obtain c C' where c: "C = c # C'" by (cases C) auto
    then have "c @ concat C' = d @ (concat D @ R)" "ichar_ok c" "ichar_ok d" using Cons.prems by simp_all
    then have "concat C' = concat D @ R" using ichar_prefix_unique by blast
    then show ?case using Cons.IH [of C'] Cons.prems c by simp
  qed auto
  then show "whole_chars (xs @ ys) \<Longrightarrow> whole_chars xs \<Longrightarrow> whole_chars ys" unfolding whole_chars_def by metis
qed

text \<open>Any part of a text from its start is such a prefix.\<close>

lemma text_prefix_take: "chars_ok C \<Longrightarrow> text_prefix (take k (concat C))"
proof (induction C arbitrary: k)
  case Nil
  show ?case by (simp add: whole_text_prefix)
next
  case (Cons c C)
  have c: "ichar_ok c" "chars_ok C" using Cons.prems by simp_all
  show ?case
  proof (cases "k < length c")
    case True
    obtain b bs where b: "c = b # bs" "rep_bytes_by_first_byte b = Some (Suc (length bs))" "\<forall>x\<in>set bs. \<not> ibyte_first_byte_p x"
      using c(1) by (rule ichar_okE) blast
    have "partial_char (take k c)"
      using b True by (cases k) (auto simp: partial_char_def list_all_iff dest: in_set_takeD)
    then have "text_prefix (take k c)" unfolding text_prefix_def by (intro exI [of _ "[]"] exI [of _ "take k c"]) simp
    then show ?thesis using True by simp
  next
    case False
    obtain cs pr where "chars_ok cs" "partial_char pr" "take (k - length c) (concat C) = concat cs @ pr"
      using Cons.IH [OF c(2), of "k - length c"] unfolding text_prefix_def by blast
    then show ?thesis unfolding text_prefix_def
      using c(1) False by (intro exI [of _ "c # cs"] exI [of _ pr]) simp
  qed
qed

text \<open>What \<open>full_chars_size\<close> finds.\<close>

lemma validate_back_at:
  assumes "q < length bs" "p \<le> q" "ibyte_first_byte_p (bs ! p)" "\<And>r. p < r \<Longrightarrow> r \<le> q \<Longrightarrow> \<not> ibyte_first_byte_p (bs ! r)"
  shows "validate_ibyteptr_backward bs q = Some p"
  using assms
proof (induction q)
  case 0
  then show ?case by (subst validate_ibyteptr_backward.simps) simp
next
  case (Suc q)
  show ?case
  proof (cases "p = Suc q")
    case True
    then show ?thesis using Suc.prems by (subst validate_ibyteptr_backward.simps) simp
  next
    case False
    then have "validate_ibyteptr_backward bs q = Some p" using Suc by simp
    then show ?thesis using Suc.prems False by (subst validate_ibyteptr_backward.simps) simp
  qed
qed

text \<open>The last character of a text, which may be partial.\<close>

definition last_char :: "byte list \<Rightarrow> byte list \<Rightarrow> byte \<Rightarrow> byte list \<Rightarrow> nat \<Rightarrow> bool" where
  "last_char bs pre b xs n \<longleftrightarrow> bs = pre @ b # xs \<and> whole_chars pre \<and> rep_bytes_by_first_byte b = Some n \<and>
     (\<forall>x\<in>set xs. \<not> ibyte_first_byte_p x) \<and> Suc (length xs) \<le> n"

lemma last_charE:
  assumes "text_prefix bs" "bs \<noteq> []"
  obtains pre b xs n where "last_char bs pre b xs n" "n = Suc (length xs) \<longrightarrow> whole_chars bs"
proof -
  obtain cs pr where cp: "chars_ok cs" "partial_char pr" "bs = concat cs @ pr" using assms(1) by (auto simp: text_prefix_def)
  show ?thesis
  proof (cases pr)
    case (Cons b xs)
    with cp obtain n where "last_char bs (concat cs) b xs n" "n \<noteq> Suc (length xs)"
      by (auto simp: partial_char_def last_char_def whole_chars_def list_all_iff split: option.splits)
    then show ?thesis using that by blast
  next
    case Nil
    then have "cs \<noteq> []" using cp assms(2) by auto
    then obtain ds c where ds: "cs = ds @ [c]" using rev_exhaust by blast
    with cp have "ichar_ok c" by simp
    then obtain b xs where "c = b # xs" "rep_bytes_by_first_byte b = Some (Suc (length xs))" "\<forall>x\<in>set xs. \<not> ibyte_first_byte_p x"
      by (rule ichar_okE) blast
    then have "last_char bs (concat ds) b xs (Suc (length xs))" using cp Nil ds by (auto simp: last_char_def whole_chars_def)
    moreover have "whole_chars bs" using cp Nil by (auto simp: whole_chars_def)
    ultimately show ?thesis using that by blast
  qed
qed

lemma last_char_validate:
  assumes "last_char bs pre b xs n"
  shows "validate_ibyteptr_backward (ps @ bs @ ys) (length ps + length bs - 1) = Some (length ps + length pre)"
proof (rule validate_back_at)
  note l = assms [unfolded last_char_def]
  have "ibyte_first_byte_p b" using l rep_bytes_facts by blast
  moreover have "(ps @ bs @ ys) ! (length ps + length pre) = b" using l by (simp add: nth_append)
  ultimately show "ibyte_first_byte_p ((ps @ bs @ ys) ! (length ps + length pre))" by simp
  show "\<not> ibyte_first_byte_p ((ps @ bs @ ys) ! r)" if r: "length ps + length pre < r" "r \<le> length ps + length bs - 1" for r
  proof -
    have "(ps @ bs @ ys) ! r = xs ! (r - Suc (length ps + length pre))" "r - Suc (length ps + length pre) < length xs"
      using l r by (auto simp: nth_append nth_Cons')
    then show ?thesis using l by simp
  qed
qed (use assms in \<open>auto simp: last_char_def\<close>)

lemma nth_last_in: "xs \<noteq> [] \<Longrightarrow> (b # xs) ! length xs \<in> set xs"
  by (cases xs rule: rev_cases) simp_all

lemma full_chars_size_ok:
  assumes t: "text_prefix (take sz (drop off bs))" and sz: "0 < sz" "off + sz \<le> length bs"
  shows "\<exists>n. full_chars_size bs off sz = Some n \<and> n \<le> sz \<and> whole_chars (take n (drop off bs)) \<and>
    (whole_chars (take sz (drop off bs)) \<longrightarrow> n = sz)"
proof -
  let ?T = "take sz (drop off bs)"
  have len: "length ?T = sz" using sz by simp
  then have "?T \<noteq> []" using sz by auto
  with t obtain pre b xs n where l: "last_char ?T pre b xs n" "n = Suc (length xs) \<longrightarrow> whole_chars ?T" by (rule last_charE)
  note l' = l(1) [unfolded last_char_def]
  have bs: "bs = take off bs @ ?T @ drop (off + sz) bs" by (metis append_take_drop_id add.commute drop_drop)
  have off: "length (take off bs) = off" using sz by simp
  have v: "validate_ibyteptr_backward bs (off + sz - 1) = Some (off + length pre)"
    using last_char_validate [OF l(1), of "take off bs" "drop (off + sz) bs"] bs off len by simp
  have sz': "sz = length pre + Suc (length xs)" using l' len by (metis length_append length_Cons)
  have nth: "bs ! (off + j) = (pre @ b # xs) ! j" if "j < sz" for j
    using l' that sz by (metis nth_take nth_drop le_add1 le_trans)
  have at: "bs ! (off + length pre) = b" using nth [of "length pre"] sz' by simp
  have pre: "take (length pre) (drop off bs) = pre"
  proof -
    have "take (length pre) ?T = pre" using l' by (metis append_eq_conv_conj)
    then show ?thesis using sz' by (simp add: min_def)
  qed
  have whole: "n = Suc (length xs)" if "whole_chars ?T"
  proof (rule ccontr)
    assume n: "n \<noteq> Suc (length xs)"
    have "whole_chars (pre @ b # xs)" using that l' by simp
    then have "whole_chars (b # xs)" using whole_chars_rest l' by blast
    then obtain E where E: "chars_ok E" "b # xs = concat E" by (auto simp: whole_chars_def)
    then obtain e E' where e: "E = e # E'" by (cases E) auto
    with E have "ichar_ok e" by simp
    then obtain b' xs' where "e = b' # xs'" "rep_bytes_by_first_byte b' = Some (Suc (length xs'))" by (rule ichar_okE) blast
    with E e l' have "n = Suc (length xs')" "length xs' \<le> length xs" by auto
    with n l' show False by simp
  qed
  show ?thesis
  proof (cases "byte_ascii_p (bs ! (off + sz - 1))")
    case True
    have "off + sz - 1 = off + (length pre + length xs)" using sz' by simp
    then have "bs ! (off + sz - 1) = (b # xs) ! length xs" using nth [of "length pre + length xs"] sz' by simp
    then have "xs = []" using True l' ascii_first nth_last_in [of xs b] by metis
    moreover have "n = 1" using True l' sz' at \<open>xs = []\<close> rep_bytes_facts [of b n] by simp
    ultimately have "whole_chars ?T" using l(2) by simp
    then show ?thesis using True by (auto simp: full_chars_size_def)
  next
    case False
    show ?thesis
    proof (cases "n = Suc (length xs)")
      case True
      then show ?thesis using False v at l' l(2) sz' by (auto simp: full_chars_size_def)
    next
      case n: False
      then have "full_chars_size bs off sz = Some (length pre)" using False v at l' sz' by (simp add: full_chars_size_def)
      then show ?thesis using n whole l' pre sz' by auto
    qed
  qed
qed

lemma validate_ibyte_string_backward_ok:
  assumes "text_prefix bs"
  shows "\<exists>n. validate_ibyte_string_backward bs = Some n \<and> n \<le> length bs \<and> whole_chars (take n bs) \<and>
    (whole_chars bs \<longrightarrow> n = length bs)"
proof (cases "bs = []")
  case False
  then have full: "\<exists>n. full_chars_size bs 0 (length bs) = Some n \<and> n \<le> length bs \<and> whole_chars (take n bs) \<and> (whole_chars bs \<longrightarrow> n = length bs)"
    using full_chars_size_ok [of "length bs" 0 bs] assms by simp
  obtain pre b xs n where l: "last_char bs pre b xs n" "n = Suc (length xs) \<longrightarrow> whole_chars bs" using assms False by (rule last_charE)
  note l' = l(1) [unfolded last_char_def]
  have v: "validate_ibyteptr_backward bs (length bs - 1) = Some (length pre)"
    using last_char_validate [OF l(1), of "[]" "[]"] by simp
  have at: "bs ! length pre = b" using l' by simp
  show ?thesis
  proof (cases "byte_ascii_p (bs ! (length bs - 1))")
    case True
    have "bs ! (length bs - 1) = (b # xs) ! length xs" using l' by simp
    then have "xs = []" using True l' ascii_first nth_last_in [of xs b] by metis
    moreover have "n = 1" using True l' at \<open>xs = []\<close> rep_bytes_facts [of b n] by simp
    ultimately show ?thesis using False v at l' l(2) by (auto simp: validate_ibyte_string_backward_def)
  next
    case na: False
    then show ?thesis using False v at l' full by (auto simp: validate_ibyte_string_backward_def full_chars_size_def split: if_splits)
  qed
qed (simp add: validate_ibyte_string_backward_def)

end
