(* ===== verification/Lstream_Write.thy ===== *)
theory Lstream_Write
  imports Lstream_Text Buffer_Rep
begin

text \<open>
  Writing to streams.  The locale \<open>lstream_sink\<close> is the contract of an implementation for output: its writer takes
  some of the bytes, in order, and adds them to what its data hold.  What the functions of \<open>Lstream\<close>
  write is then the implementation's bytes followed by those of the output buffer: no byte is lost,
  repeated or reordered, however the writer splits or refuses them.
\<close>

section \<open>Frames\<close>

text \<open>What a method may change.\<close>

definition meth_frame :: "'d lstream \<Rightarrow> 'd lstream \<Rightarrow> bool" where
  "meth_frame s s' \<longleftrightarrow> (\<exists>e p d. s' = s\<lparr>ls_error_occurred_p := e, ls_public_error_occurred_p := p, ls_data := d\<rparr>)"

lemma meth_frameI [intro]: "meth_frame s (s\<lparr>ls_error_occurred_p := e, ls_public_error_occurred_p := p, ls_data := d\<rparr>)"
  unfolding meth_frame_def by blast

lemma meth_frame_refl [intro, simp]: "meth_frame s s"
  unfolding meth_frame_def by (intro exI [of _ "ls_error_occurred_p s"] exI [of _ "ls_public_error_occurred_p s"] exI [of _ "ls_data s"]) simp

lemma meth_frame_trans:
  assumes "meth_frame s s'" "meth_frame s' s''"
  shows "meth_frame s s''"
proof -
  obtain e p d where "s' = s\<lparr>ls_error_occurred_p := e, ls_public_error_occurred_p := p, ls_data := d\<rparr>"
    using assms(1) by (auto simp: meth_frame_def)
  moreover obtain e p d where "s'' = s'\<lparr>ls_error_occurred_p := e, ls_public_error_occurred_p := p, ls_data := d\<rparr>"
    using assms(2) by (auto simp: meth_frame_def)
  ultimately have "s'' = s\<lparr>ls_error_occurred_p := e, ls_public_error_occurred_p := p, ls_data := d\<rparr>" by simp
  then show ?thesis by (rule ssubst) (rule meth_frameI)
qed

lemma meth_frame_sel:
  assumes "meth_frame s s'"
  shows "ls_buffering s' = ls_buffering s" "ls_buffering_size s' = ls_buffering_size s" "ls_flags s' = ls_flags s"
    "ls_in_buffer s' = ls_in_buffer s" "ls_in_buffer_size s' = ls_in_buffer_size s"
    "ls_in_buffer_current s' = ls_in_buffer_current s" "ls_in_buffer_ind s' = ls_in_buffer_ind s"
    "ls_out_buffer s' = ls_out_buffer s" "ls_out_buffer_size s' = ls_out_buffer_size s" "ls_out_buffer_ind s' = ls_out_buffer_ind s"
    "ls_unget_buffer s' = ls_unget_buffer s" "ls_unget_buffer_size s' = ls_unget_buffer_size s"
    "ls_unget_buffer_ind s' = ls_unget_buffer_ind s" "ls_unget_character_count s' = ls_unget_character_count s"
    "ls_byte_count s' = ls_byte_count s"
  using assms by (auto simp: meth_frame_def)

text \<open>What writing leaves alone.\<close>

definition write_view :: "'d lstream \<Rightarrow> lstream_buffering \<times> nat \<times> lstr_flags \<times> (byte cells \<times> nat \<times> nat \<times> nat) \<times> byte cells \<times> nat \<times> nat \<times> int" where
  "write_view s = (ls_buffering s, ls_buffering_size s, ls_flags s,
     (ls_in_buffer s, ls_in_buffer_size s, ls_in_buffer_current s, ls_in_buffer_ind s),
     ls_unget_buffer s, ls_unget_buffer_size s, ls_unget_buffer_ind s, ls_unget_character_count s)"

lemma write_view_upd [simp]:
  "write_view (s\<lparr>ls_out_buffer := b\<rparr>) = write_view s" "write_view (s\<lparr>ls_out_buffer_size := n\<rparr>) = write_view s"
  "write_view (s\<lparr>ls_out_buffer_ind := n\<rparr>) = write_view s" "write_view (s\<lparr>ls_byte_count := i\<rparr>) = write_view s"
  "write_view (s\<lparr>ls_error_occurred_p := e\<rparr>) = write_view s" "write_view (s\<lparr>ls_public_error_occurred_p := e\<rparr>) = write_view s"
  "write_view (s\<lparr>ls_data := d\<rparr>) = write_view s"
  by (simp_all add: write_view_def)

lemma write_view_frame: "meth_frame s s' \<Longrightarrow> write_view s' = write_view s"
  by (simp add: write_view_def meth_frame_sel)

lemma write_view_sel:
  assumes "write_view s' = write_view s"
  shows "ls_flags s' = ls_flags s" "ls_buffering s' = ls_buffering s" "ls_buffering_size s' = ls_buffering_size s"
  using assms by (simp_all add: write_view_def)

definition out_holds :: "'d lstream \<Rightarrow> byte list \<Rightarrow> bool" where
  "out_holds s b \<longleftrightarrow> buf_holds (ls_out_buffer s) (ls_out_buffer_size s) (ls_out_buffer_ind s) b"

lemma out_holds_frame: "meth_frame s s' \<Longrightarrow> out_holds s' b = out_holds s b"
  by (simp add: out_holds_def meth_frame_sel)

lemma out_holds_upd [simp]:
  "out_holds (s\<lparr>ls_byte_count := i\<rparr>) b = out_holds s b" "out_holds (s\<lparr>ls_public_error_occurred_p := e\<rparr>) b = out_holds s b"
  "out_holds (s\<lparr>ls_error_occurred_p := e\<rparr>) b = out_holds s b"
  by (simp_all add: out_holds_def)

lemma out_holds_ind: "out_holds s b \<Longrightarrow> ls_out_buffer_ind s = length b \<and> length b \<le> ls_out_buffer_size s"
  using buf_holds_length [of "ls_out_buffer s" "ls_out_buffer_size s" "ls_out_buffer_ind s" b] by (simp add: out_holds_def)

section \<open>The output buffer\<close>

lemma out_buffer_append_ok:
  assumes "out_holds s b" "length b + length bs \<le> ls_out_buffer_size s"
  shows "\<exists>m. out_buffer_append bs s = Some (s\<lparr>ls_out_buffer := m, ls_out_buffer_ind := length b + length bs\<rparr>) \<and>
    out_holds (s\<lparr>ls_out_buffer := m, ls_out_buffer_ind := length b + length bs\<rparr>) (b @ bs)"
proof -
  have "ls_out_buffer_ind s = length b" using out_holds_ind [OF assms(1)] by simp
  with buf_holds_store [OF assms(1) [unfolded out_holds_def], of bs] assms(2) obtain m where
    "mem_store (ls_out_buffer s) (ls_out_buffer_ind s) bs = Some m" "buf_holds m (ls_out_buffer_size s) (length b + length bs) (b @ bs)"
    by auto
  then show ?thesis using \<open>ls_out_buffer_ind s = length b\<close>
    by (intro exI [of _ m]) (simp add: out_buffer_append_def out_holds_def)
qed

text \<open>Room in the buffer: only the block and its size change.\<close>

lemma Lstream_adding_ok:
  assumes "out_holds s b" "Lstream_adding num force s = (chunk, s')"
  shows "chunk \<le> num" "force \<Longrightarrow> chunk = num" "length b + chunk \<le> ls_out_buffer_size s'"
    "\<exists>m k. s' = s\<lparr>ls_out_buffer := m, ls_out_buffer_size := k\<rparr>" "out_holds s' b"
    "chunk = 0 \<Longrightarrow> 0 < num \<Longrightarrow> ls_buffering_size s \<le> length b"
    "chunk = 0 \<Longrightarrow> \<not> force \<Longrightarrow> length b = 0 \<Longrightarrow> 0 < num \<Longrightarrow> ls_buffering_size s = 0"
proof -
  note ind = out_holds_ind [OF assms(1)]
  have "\<exists>m k. s' = s\<lparr>ls_out_buffer := m, ls_out_buffer_size := k\<rparr>"
    "chunk \<le> num" "force \<Longrightarrow> chunk = num" "length b + chunk \<le> ls_out_buffer_size s'" "out_holds s' b"
    "chunk = 0 \<Longrightarrow> 0 < num \<Longrightarrow> ls_buffering_size s \<le> length b"
  proof -
    let ?sz = "num + ls_out_buffer_ind s"
    consider "?sz \<le> ls_out_buffer_size s"
      | "\<not> ?sz \<le> ls_out_buffer_size s" "?sz > ls_buffering_size s" "\<not> force" "ls_buffering_size s \<le> ls_out_buffer_ind s"
      | "\<not> ?sz \<le> ls_out_buffer_size s" "\<not> (?sz > ls_buffering_size s \<and> \<not> force \<and> ls_buffering_size s \<le> ls_out_buffer_ind s)" by linarith
    then have "(\<exists>m k. s' = s\<lparr>ls_out_buffer := m, ls_out_buffer_size := k\<rparr>) \<and> chunk \<le> num \<and> (force \<longrightarrow> chunk = num) \<and>
        length b + chunk \<le> ls_out_buffer_size s' \<and> out_holds s' b \<and> (chunk = 0 \<longrightarrow> 0 < num \<longrightarrow> ls_buffering_size s \<le> length b)"
    proof cases
      case 1
      then have r: "chunk = num" "s' = s" using assms(2) unfolding Lstream_adding_def Let_def by simp_all
      have "s = s\<lparr>ls_out_buffer := ls_out_buffer s, ls_out_buffer_size := ls_out_buffer_size s\<rparr>" by simp
      then have "\<exists>m k. s' = s\<lparr>ls_out_buffer := m, ls_out_buffer_size := k\<rparr>" using r(2) by blast
      with 1 r assms ind show ?thesis by simp
    next
      case 2
      then have r: "chunk = 0" "s' = s" using assms(2) unfolding Lstream_adding_def Let_def by (simp_all split: prod.splits)
      have "s = s\<lparr>ls_out_buffer := ls_out_buffer s, ls_out_buffer_size := ls_out_buffer_size s\<rparr>" by simp
      then have "\<exists>m k. s' = s\<lparr>ls_out_buffer := m, ls_out_buffer_size := k\<rparr>" using r(2) by blast
      with 2 r assms ind show ?thesis by auto
    next
      case 3
      let ?n = "if ?sz > ls_buffering_size s \<and> \<not> force then ls_buffering_size s else ?sz"
      obtain m k where m: "DO_REALLOC (ls_out_buffer s) (ls_out_buffer_size s) ?n = (m, k)" by fastforce
      have r: "chunk = ?n - ls_out_buffer_ind s" "s' = s\<lparr>ls_out_buffer := m, ls_out_buffer_size := k\<rparr>"
        using assms(2) 3 m unfolding Lstream_adding_def Let_def by (auto split: if_splits)
      note h = buf_holds_realloc [OF assms(1) [unfolded out_holds_def] m]
      have "out_holds s' b" using h(1) r(2) by (simp add: out_holds_def)
      moreover have "length b + chunk \<le> ls_out_buffer_size s'" using h(2) r 3 ind by (auto split: if_splits)
      ultimately show ?thesis using r 3 ind by (auto split: if_splits)
    qed
    then show "\<exists>m k. s' = s\<lparr>ls_out_buffer := m, ls_out_buffer_size := k\<rparr>"
      "chunk \<le> num" "force \<Longrightarrow> chunk = num" "length b + chunk \<le> ls_out_buffer_size s'" "out_holds s' b"
      "chunk = 0 \<Longrightarrow> 0 < num \<Longrightarrow> ls_buffering_size s \<le> length b" by blast+
  qed
  then show "chunk \<le> num" "force \<Longrightarrow> chunk = num" "length b + chunk \<le> ls_out_buffer_size s'"
    "\<exists>m k. s' = s\<lparr>ls_out_buffer := m, ls_out_buffer_size := k\<rparr>" "out_holds s' b"
    "chunk = 0 \<Longrightarrow> 0 < num \<Longrightarrow> ls_buffering_size s \<le> length b"
    "chunk = 0 \<Longrightarrow> \<not> force \<Longrightarrow> length b = 0 \<Longrightarrow> 0 < num \<Longrightarrow> ls_buffering_size s = 0" by auto
qed

lemma text_prefix_append: "text_prefix (xs @ ys) \<Longrightarrow> text_prefix xs"
proof -
  assume "text_prefix (xs @ ys)"
  then obtain cs pr where cp: "chars_ok cs" "partial_char pr" "xs @ ys = concat cs @ pr" by (auto simp: text_prefix_def)
  have xs: "xs = take (length xs) (concat cs @ pr)" using cp(3) by (metis append_eq_conv_conj)
  show "text_prefix xs"
  proof (cases "length xs \<le> length (concat cs)")
    case True
    then have "xs = take (length xs) (concat cs)" using xs by simp
    then show ?thesis using text_prefix_take [OF cp(1)] by metis
  next
    case False
    let ?j = "length xs - length (concat cs)"
    have "xs = concat cs @ take ?j pr" using xs False by simp
    moreover have "partial_char (take ?j pr)"
      using cp(2) False by (cases pr; cases ?j) (auto simp: partial_char_def list_all_iff dest: in_set_takeD split: option.splits)
    ultimately show ?thesis using cp(1) by (auto simp: text_prefix_def)
  qed
qed

section \<open>The contract of an implementation\<close>

locale lstream_sink =
  fixes imp :: "'d lstream_implementation"
    and writer :: "'d lstream \<Rightarrow> byte list \<Rightarrow> (int, 'd) lout"
    and sink :: "'d \<Rightarrow> byte list"
    and valid :: "lstr_flags \<Rightarrow> 'd \<Rightarrow> bool"
    and room :: "'d \<Rightarrow> nat \<Rightarrow> bool"
    and willing :: bool
  assumes writer: "im_writer imp = Some writer"
    and write_law: "valid (ls_flags s) (ls_data s) \<Longrightarrow> \<not> ls_error_occurred_p s \<Longrightarrow> bs \<noteq> [] \<Longrightarrow>
      (LSTR_NO_PARTIAL_CHARS (ls_flags s) \<Longrightarrow> whole_chars bs) \<Longrightarrow> room (ls_data s) n \<Longrightarrow> length bs \<le> n \<Longrightarrow>
      \<exists>k e d. writer s bs = Some (Inr (int k), s\<lparr>ls_error_occurred_p := e, ls_data := d\<rparr>) \<and> k \<le> length bs \<and>
        sink d = sink (ls_data s) @ take k bs \<and> valid (ls_flags s) d \<and> room d (n - k) \<and>
        (LSTR_NO_PARTIAL_CHARS (ls_flags s) \<longrightarrow> whole_chars (take k bs)) \<and> (willing \<longrightarrow> k = length bs \<and> \<not> e)"
    and flush_law: "im_flusher imp = Some flusher \<Longrightarrow> valid (ls_flags s) (ls_data s) \<Longrightarrow> room (ls_data s) n \<Longrightarrow>
      \<exists>r d. flusher s = Some (Inr r, s\<lparr>ls_data := d\<rparr>) \<and> sink d = sink (ls_data s) \<and> valid (ls_flags s) d \<and> room d n \<and>
        (willing \<longrightarrow> 0 \<le> r)"
begin

text \<open>A stream that is open for writing and has room for \<open>n\<close> bytes.\<close>

definition writable :: "'d lstream \<Rightarrow> nat \<Rightarrow> bool" where
  "writable s n \<longleftrightarrow> LSTR_IS_OPEN (ls_flags s) \<and> LSTR_WRITE (ls_flags s) \<and> valid (ls_flags s) (ls_data s) \<and> room (ls_data s) n \<and>
     (willing \<longrightarrow> \<not> ls_error_occurred_p s) \<and> (LSTR_NO_PARTIAL_CHARS (ls_flags s) \<longrightarrow> whole_chars (sink (ls_data s)))"

definition writes_ok :: "'d lstream \<Rightarrow> byte list \<Rightarrow> bool" where
  "writes_ok s bs \<longleftrightarrow> (LSTR_NO_PARTIAL_CHARS (ls_flags s) \<longrightarrow> text_prefix bs)"

lemma really_write_loop_ok:
  assumes "writable s n" "sz \<le> n" "off + sz \<le> length bs" "writes_ok s (take sz (drop off bs))"
  shows "\<exists>k s'. really_write_loop imp bs off sz s = Some (Inr (off + k), s') \<and> k \<le> sz \<and> meth_frame s s' \<and>
    sink (ls_data s') = sink (ls_data s) @ take k (drop off bs) \<and> writable s' (n - k) \<and>
    (LSTR_NO_PARTIAL_CHARS (ls_flags s) \<longrightarrow> whole_chars (take k (drop off bs))) \<and>
    (willing \<and> (LSTR_NO_PARTIAL_CHARS (ls_flags s) \<longrightarrow> whole_chars (take sz (drop off bs))) \<longrightarrow> k = sz)"
  using assms
proof (induction sz arbitrary: off s n rule: less_induct)
  case (less sz)
  show ?case
  proof (cases "sz = 0")
    case True
    then show ?thesis using less.prems by (subst really_write_loop.simps) (auto intro!: exI [of _ 0])
  next
    case False
    note w = less.prems(1) [unfolded writable_def]
    have slice: "take j (take sz (drop off bs)) = take j (drop off bs)" if "j \<le> sz" for j using that by simp
    have "\<exists>m. (if LSTR_NO_PARTIAL_CHARS (ls_flags s) then full_chars_size bs off sz else Some sz) = Some m \<and> m \<le> sz \<and>
        (LSTR_NO_PARTIAL_CHARS (ls_flags s) \<longrightarrow> whole_chars (take m (drop off bs))) \<and>
        ((LSTR_NO_PARTIAL_CHARS (ls_flags s) \<longrightarrow> whole_chars (take sz (drop off bs))) \<longrightarrow> m = sz)"
      using full_chars_size_ok [of sz off bs] less.prems(3,4) False by (auto simp: writes_ok_def)
    then obtain m where m: "(if LSTR_NO_PARTIAL_CHARS (ls_flags s) then full_chars_size bs off sz else Some sz) = Some m" "m \<le> sz"
      "LSTR_NO_PARTIAL_CHARS (ls_flags s) \<Longrightarrow> whole_chars (take m (drop off bs))"
      "(LSTR_NO_PARTIAL_CHARS (ls_flags s) \<longrightarrow> whole_chars (take sz (drop off bs))) \<longrightarrow> m = sz" by blast
    show ?thesis
    proof (cases "m = 0")
      case True
      then show ?thesis using False m less.prems w
        by (subst really_write_loop.simps) (auto simp: writer intro!: exI [of _ 0])
    next
      case m0: False
      let ?bs = "take m (drop off bs)" and ?s0 = "s\<lparr>ls_error_occurred_p := False\<rparr>"
      have len: "length ?bs = m" using m(2) less.prems(3) by simp
      have "?bs \<noteq> []" using len m0 by auto
      moreover have "length ?bs \<le> n" using len m(2) less.prems(2) by simp
      ultimately have "\<exists>k e d. writer ?s0 ?bs = Some (Inr (int k), ?s0\<lparr>ls_error_occurred_p := e, ls_data := d\<rparr>) \<and> k \<le> length ?bs \<and>
        sink d = sink (ls_data ?s0) @ take k ?bs \<and> valid (ls_flags ?s0) d \<and> room d (n - k) \<and>
        (LSTR_NO_PARTIAL_CHARS (ls_flags ?s0) \<longrightarrow> whole_chars (take k ?bs)) \<and> (willing \<longrightarrow> k = length ?bs \<and> \<not> e)"
        by (intro write_law) (use w m(3) in simp_all)
      then obtain k e d where k: "writer ?s0 ?bs = Some (Inr (int k), ?s0\<lparr>ls_error_occurred_p := e, ls_data := d\<rparr>)"
        "k \<le> length ?bs" "sink d = sink (ls_data ?s0) @ take k ?bs" "valid (ls_flags ?s0) d" "room d (n - k)"
        "LSTR_NO_PARTIAL_CHARS (ls_flags ?s0) \<longrightarrow> whole_chars (take k ?bs)" "willing \<longrightarrow> k = length ?bs \<and> \<not> e" by blast
      have sel: "ls_data ?s0 = ls_data s" "ls_flags ?s0 = ls_flags s" by simp_all
      note 1 = k [unfolded sel]
      let ?s1 = "s\<lparr>ls_error_occurred_p := e, ls_data := d\<rparr>"
      let ?s2 = "if e then ?s1\<lparr>ls_public_error_occurred_p := True\<rparr> else ?s1"
      have km: "k \<le> m" using 1(2) len by simp
      have tk: "take k ?bs = take k (drop off bs)" using km by simp
      have "?s2 = s\<lparr>ls_error_occurred_p := e, ls_public_error_occurred_p := (if e then True else ls_public_error_occurred_p s), ls_data := d\<rparr>"
        by simp
      then have fr: "meth_frame s ?s2" unfolding meth_frame_def by blast
      have w2: "writable ?s2 (n - k)" using w 1 by (simp add: writable_def whole_chars_append)
      have rw: "really_write_loop imp bs off sz s =
          (if int k = 0 \<or> e then Some (Inr (off + k), ?s2) else really_write_loop imp bs (off + k) (m - k) ?s2)"
        using w False m0 m(1) 1(1) km by (subst really_write_loop.simps) (simp add: writer)
      show ?thesis
      proof (cases "int k = 0 \<or> e")
        case True
        have "really_write_loop imp bs off sz s = Some (Inr (off + k), ?s2)" unfolding rw using True by simp
        moreover have "k \<le> sz" using km m(2) by simp
        moreover have "sink (ls_data ?s2) = sink (ls_data s) @ take k (drop off bs)" using 1(3) tk by simp
        moreover have "LSTR_NO_PARTIAL_CHARS (ls_flags s) \<longrightarrow> whole_chars (take k (drop off bs))" using 1(6) tk by simp
        moreover have "willing \<and> (LSTR_NO_PARTIAL_CHARS (ls_flags s) \<longrightarrow> whole_chars (take sz (drop off bs))) \<longrightarrow> k = sz"
          using 1(7) m(4) len by auto
        ultimately show ?thesis using fr w2 by blast
      next
        case go: False
        then have k0: "0 < k" by simp
        have rest: "take (m - k) (drop (off + k) bs) = drop k ?bs" using km by (simp add: drop_take add.commute)
        have wok: "writes_ok ?s2 (take (m - k) (drop (off + k) bs))"
        proof -
          have "text_prefix (drop k ?bs)" if "LSTR_NO_PARTIAL_CHARS (ls_flags s)"
            using text_prefix_drop [OF whole_text_prefix] m(3) 1(6) that by blast
          then show ?thesis unfolding writes_ok_def rest by simp
        qed
        obtain j s3 where 2: "really_write_loop imp bs (off + k) (m - k) ?s2 = Some (Inr (off + k + j), s3)" "j \<le> m - k"
          "meth_frame ?s2 s3" "sink (ls_data s3) = sink (ls_data ?s2) @ take j (drop (off + k) bs)" "writable s3 (n - k - j)"
          "LSTR_NO_PARTIAL_CHARS (ls_flags s) \<longrightarrow> whole_chars (take j (drop (off + k) bs))"
          "willing \<and> (LSTR_NO_PARTIAL_CHARS (ls_flags s) \<longrightarrow> whole_chars (take (m - k) (drop (off + k) bs))) \<longrightarrow> j = m - k"
        proof -
          have a: "m - k < sz" "m - k \<le> n - k" "off + k + (m - k) \<le> length bs" using k0 m(2) km less.prems(2,3) False by auto
          have f: "ls_flags ?s2 = ls_flags s" by simp
          from less.IH [OF a(1) w2 a(2,3) wok, unfolded f] that show thesis by blast
        qed
        have app: "take (k + j) (drop off bs) = take k (drop off bs) @ take j (drop (off + k) bs)"
          unfolding take_add drop_drop by (simp add: add.commute)
        have "really_write_loop imp bs off sz s = Some (Inr (off + (k + j)), s3)" unfolding rw using go 2(1) by (simp add: add.assoc)
        moreover have "k + j \<le> sz" using 2(2) km m(2) by linarith
        moreover have "meth_frame s s3" using meth_frame_trans [OF fr 2(3)] .
        moreover have "sink (ls_data s3) = sink (ls_data s) @ take (k + j) (drop off bs)"
          unfolding 2(4) app using 1(3) tk by simp
        moreover have "writable s3 (n - (k + j))" using 2(5) by simp
        moreover have "LSTR_NO_PARTIAL_CHARS (ls_flags s) \<longrightarrow> whole_chars (take (k + j) (drop off bs))"
          unfolding app using 1(6) tk 2(6) whole_chars_append by simp
        moreover have "willing \<and> (LSTR_NO_PARTIAL_CHARS (ls_flags s) \<longrightarrow> whole_chars (take sz (drop off bs))) \<longrightarrow> k + j = sz"
          using 1(7) m(4) len 2(2) by auto
        ultimately show ?thesis by blast
      qed
    qed
  qed
qed

lemma Lstream_really_write_ok:
  assumes "writable s n" "length bs \<le> n" "length bs < 2 ^ 31" "writes_ok s bs"
  shows "\<exists>k s'. Lstream_really_write imp bs s = Some (Inr (if k = 0 \<and> ls_error_occurred_p s' then - 1 else int k), s') \<and>
    k \<le> length bs \<and> meth_frame s s' \<and> sink (ls_data s') = sink (ls_data s) @ take k bs \<and> writable s' (n - k) \<and>
    (LSTR_NO_PARTIAL_CHARS (ls_flags s) \<longrightarrow> whole_chars (take k bs)) \<and>
    (willing \<and> (LSTR_NO_PARTIAL_CHARS (ls_flags s) \<longrightarrow> whole_chars bs) \<longrightarrow> k = length bs)"
proof -
  obtain k s1 where 1: "really_write_loop imp bs 0 (length bs) s = Some (Inr k, s1)" "k \<le> length bs" "meth_frame s s1"
    "sink (ls_data s1) = sink (ls_data s) @ take k bs" "writable s1 (n - k)"
    "LSTR_NO_PARTIAL_CHARS (ls_flags s) \<longrightarrow> whole_chars (take k bs)"
    "willing \<and> (LSTR_NO_PARTIAL_CHARS (ls_flags s) \<longrightarrow> whole_chars bs) \<longrightarrow> k = length bs"
    using really_write_loop_ok [OF assms(1,2), of 0 bs] assms(4) by auto
  have c: "nat (c_int (length bs)) = length bs" using c_int_small [OF assms(3)] by simp
  show ?thesis
  proof (cases "im_flusher imp = None \<or> ls_error_occurred_p s1")
    case True
    then have "Lstream_really_write imp bs s = Some (Inr (if k = 0 \<and> ls_error_occurred_p s1 then - 1 else int k), s1)"
      using 1(1) c by (auto simp: Lstream_really_write_def lbind_def split: option.splits)
    then show ?thesis using 1 by blast
  next
    case False
    then obtain flusher where f: "im_flusher imp = Some flusher" "\<not> ls_error_occurred_p s1" by auto
    obtain r d where 2: "flusher s1 = Some (Inr r, s1\<lparr>ls_data := d\<rparr>)" "sink d = sink (ls_data s1)" "valid (ls_flags s1) d" "room d (n - k)"
      "willing \<longrightarrow> 0 \<le> r"
      using flush_law [OF f(1), of s1 "n - k"] 1(5) by (auto simp: writable_def)
    let ?s2 = "s1\<lparr>ls_data := d, ls_error_occurred_p := r < 0\<rparr>"
    have "?s2 = s1\<lparr>ls_error_occurred_p := r < 0, ls_public_error_occurred_p := ls_public_error_occurred_p s1, ls_data := d\<rparr>" by simp
    then have "meth_frame s1 ?s2" unfolding meth_frame_def by blast
    then have "meth_frame s ?s2" using meth_frame_trans [OF 1(3)] by blast
    moreover have "Lstream_really_write imp bs s = Some (Inr (if k = 0 \<and> ls_error_occurred_p ?s2 then - 1 else int k), ?s2)"
      using 1(1) c 2(1) f by (simp add: Lstream_really_write_def lbind_def)
    moreover have "writable ?s2 (n - k)" using 1(5) 2(2-5) by (auto simp: writable_def)
    moreover have "sink (ls_data ?s2) = sink (ls_data s) @ take k bs" using 1(4) 2(2) by simp
    ultimately show ?thesis using 1(2,6,7) by blast
  qed
qed

text \<open>
  The state of a stream: the output buffer holds \<open>b\<close>, with what the implementation has these are the bytes \<open>T\<close>, and
  there is room for \<open>m\<close> more.
\<close>

definition out_state :: "'d lstream \<Rightarrow> byte list \<Rightarrow> byte list \<Rightarrow> nat \<Rightarrow> bool" where
  "out_state s b T m \<longleftrightarrow> out_holds s b \<and> T = sink (ls_data s) @ b \<and> writable s (length b + m)"

lemma writes_ok_view: "write_view s' = write_view s \<Longrightarrow> writes_ok s' = writes_ok s"
  by (drule write_view_sel(1)) (simp add: fun_eq_iff writes_ok_def)

lemma Lstream_flush_out_ok:
  assumes st: "out_state s b T m" and "length b < 2 ^ 31" and ok: "writes_ok s (b @ rest)"
  shows "\<exists>r s' b'. Lstream_flush_out imp s = Some (Inr r, s') \<and> out_state s' b' T m \<and> length b' \<le> length b \<and>
    writes_ok s' (b' @ rest) \<and> write_view s' = write_view s \<and> ls_byte_count s' = ls_byte_count s \<and>
    (r = 0 \<or> r = - 1 \<and> b' = b \<and> ls_error_occurred_p s') \<and>
    (willing \<and> (LSTR_NO_PARTIAL_CHARS (ls_flags s) \<longrightarrow> whole_chars b) \<longrightarrow> b' = [])"
proof -
  note st' = st [unfolded out_state_def]
  have wok: "writes_ok s b" using ok text_prefix_append by (auto simp: writes_ok_def)
  have w: "writable s (length b + m)" using st' by simp
  have rd: "mem_bytes (ls_out_buffer s) 0 (ls_out_buffer_ind s) = Some b" using st' buf_holds_bytes by (auto simp: out_holds_def)
  obtain k s1 where 1: "Lstream_really_write imp b s = Some (Inr (if k = 0 \<and> ls_error_occurred_p s1 then - 1 else int k), s1)"
    "k \<le> length b" "meth_frame s s1" "sink (ls_data s1) = sink (ls_data s) @ take k b" "writable s1 (length b + m - k)"
    "LSTR_NO_PARTIAL_CHARS (ls_flags s) \<longrightarrow> whole_chars (take k b)"
    "willing \<and> (LSTR_NO_PARTIAL_CHARS (ls_flags s) \<longrightarrow> whole_chars b) \<longrightarrow> k = length b"
    using Lstream_really_write_ok [OF w le_add1 assms(2) wok] by (elim exE conjE) (rule that; assumption)
  note fr = meth_frame_sel [OF 1(3)] write_view_frame [OF 1(3)]
  have ind: "ls_out_buffer_ind s1 = length b" "ls_out_buffer_ind s = length b" using fr out_holds_ind st' by auto
  have h1: "out_holds s1 b" using out_holds_frame [OF 1(3)] st' by simp
  have cut: "T = sink (ls_data s1) @ drop k b" "writable s1 (length (drop k b) + m)" "length (drop k b) \<le> length b"
    using st' 1(2,4,5) by simp_all
  have "text_prefix (drop k (b @ rest))" if "LSTR_NO_PARTIAL_CHARS (ls_flags s)"
    using text_prefix_drop [of "b @ rest" k] ok 1(2,6) that by (simp add: writes_ok_def)
  then have wok': "writes_ok s (drop k b @ rest)" using 1(2) by (simp add: writes_ok_def)
  have fo: "Lstream_flush_out imp s = (let num_written = (if k = 0 \<and> ls_error_occurred_p s1 then - 1 else int k) in
      if num_written = int (length b) then Some (Inr 0, s1\<lparr>ls_out_buffer_ind := 0\<rparr>)
      else if num_written > 0 then Some (Inr 0, s1\<lparr>ls_out_buffer := mem_move (ls_out_buffer s1) 0 k (length b - k), ls_out_buffer_ind := length b - k\<rparr>)
      else Some (Inr num_written, s1))"
    using rd 1(1) ind by (simp add: Lstream_flush_out_def lbind_def Let_def)
  have all: "willing \<and> (LSTR_NO_PARTIAL_CHARS (ls_flags s) \<longrightarrow> whole_chars b) \<longrightarrow> drop k b = []" using 1(7) by simp
  consider "k = 0" "ls_error_occurred_p s1" | "\<not> (k = 0 \<and> ls_error_occurred_p s1)" "k = length b"
    | "\<not> (k = 0 \<and> ls_error_occurred_p s1)" "0 < k" "k \<noteq> length b" | "\<not> (k = 0 \<and> ls_error_occurred_p s1)" "k = 0" "k \<noteq> length b" by blast
  then show ?thesis
  proof cases
    case 1
    then have "Lstream_flush_out imp s = Some (Inr (- 1), s1)" unfolding fo by simp
    moreover have "out_state s1 b T m" using h1 cut 1 by (simp add: out_state_def)
    moreover have "writes_ok s1 (b @ rest)" using writes_ok_view [OF fr(16)] ok by simp
    moreover have "willing \<and> (LSTR_NO_PARTIAL_CHARS (ls_flags s) \<longrightarrow> whole_chars b) \<longrightarrow> b = []" using all 1(1) by simp
    ultimately show ?thesis using 1 fr(15,16) order.refl [of "length b"] by blast
  next
    case 2
    let ?s2 = "s1\<lparr>ls_out_buffer_ind := 0\<rparr>"
    have "Lstream_flush_out imp s = Some (Inr 0, ?s2)" unfolding fo using 2 by simp
    moreover have "out_holds ?s2 []" using h1 buf_holds_reset by (auto simp: out_holds_def)
    then have "out_state ?s2 [] T m" using cut 2 by (simp add: out_state_def writable_def)
    moreover have "write_view ?s2 = write_view s" "ls_byte_count ?s2 = ls_byte_count s" using fr by simp_all
    moreover have "writes_ok ?s2 ([] @ rest)" using writes_ok_view [OF calculation(3)] wok' 2 by simp
    moreover have "length [] \<le> length b" by simp
    ultimately show ?thesis by blast
  next
    case 3
    let ?s2 = "s1\<lparr>ls_out_buffer := mem_move (ls_out_buffer s1) 0 k (length b - k), ls_out_buffer_ind := length b - k\<rparr>"
    have "Lstream_flush_out imp s = Some (Inr 0, ?s2)" unfolding fo using 3 by (auto simp: Let_def)
    moreover have "out_holds ?s2 (drop k b)"
      using buf_holds_move [OF h1 [unfolded out_holds_def] \<open>k \<le> length b\<close>] ind by (simp add: out_holds_def)
    then have "out_state ?s2 (drop k b) T m" using cut by (simp add: out_state_def writable_def)
    moreover have "write_view ?s2 = write_view s" "ls_byte_count ?s2 = ls_byte_count s" using fr by simp_all
    moreover have "writes_ok ?s2 (drop k b @ rest)" using writes_ok_view [OF calculation(3)] wok' by simp
    ultimately show ?thesis using cut(3) all by blast
  next
    case 4
    then have "Lstream_flush_out imp s = Some (Inr 0, s1)" unfolding fo by (auto simp: Let_def)
    moreover have "out_state s1 b T m" using h1 cut 4 by (simp add: out_state_def)
    moreover have "writes_ok s1 (b @ rest)" using writes_ok_view [OF fr(16)] ok by simp
    moreover have "willing \<and> (LSTR_NO_PARTIAL_CHARS (ls_flags s) \<longrightarrow> whole_chars b) \<longrightarrow> b = []" using all 4 by simp
    ultimately show ?thesis using fr(15,16) order.refl [of "length b"] by blast
  qed
qed

lemma append_state:
  assumes "out_state s b T m" "length b + length bs \<le> ls_out_buffer_size s" "length bs \<le> m"
  shows "\<exists>s'. out_buffer_append bs s = Some s' \<and> out_state s' (b @ bs) (T @ bs) (m - length bs) \<and> write_view s' = write_view s \<and>
    ls_byte_count s' = ls_byte_count s \<and> ls_error_occurred_p s' = ls_error_occurred_p s"
proof -
  note st = assms(1) [unfolded out_state_def]
  obtain w where "out_buffer_append bs s = Some (s\<lparr>ls_out_buffer := w, ls_out_buffer_ind := length b + length bs\<rparr>)"
    "out_holds (s\<lparr>ls_out_buffer := w, ls_out_buffer_ind := length b + length bs\<rparr>) (b @ bs)"
    using out_buffer_append_ok [OF _ assms(2)] st by blast
  then show ?thesis using st assms(3) by (simp add: out_state_def writable_def)
qed

lemma adding_state:
  assumes "out_state s b T m" "Lstream_adding num force s = (chunk, s')"
  shows "out_state s' b T m" "write_view s' = write_view s" "ls_byte_count s' = ls_byte_count s"
    "ls_error_occurred_p s' = ls_error_occurred_p s"
proof -
  note st = assms(1) [unfolded out_state_def]
  note a = Lstream_adding_ok [OF _ assms(2), of b]
  obtain w k where s': "s' = s\<lparr>ls_out_buffer := w, ls_out_buffer_size := k\<rparr>" using a(4) st by blast
  show "out_state s' b T m" using a(5) st by (simp add: out_state_def s' writable_def)
  show "write_view s' = write_view s" "ls_byte_count s' = ls_byte_count s" "ls_error_occurred_p s' = ls_error_occurred_p s"
    by (simp_all add: s')
qed

lemma write_room_state:
  assumes "out_state s b T m" "write_room num c s = (chunk, s')"
  shows "out_state s' b T m" "write_view s' = write_view s" "ls_byte_count s' = ls_byte_count s"
    "chunk \<le> num" "length b + chunk \<le> ls_out_buffer_size s'" "c \<Longrightarrow> chunk = 0 \<Longrightarrow> num = 0"
proof -
  obtain chunk1 s1 where 1: "Lstream_adding num False s = (chunk1, s1)" by fastforce
  note st1 = adding_state [OF assms(1) 1]
  have h: "out_holds s b" "out_holds s1 b" using assms(1) st1(1) by (simp_all add: out_state_def)
  have "out_state s' b T m \<and> write_view s' = write_view s \<and> ls_byte_count s' = ls_byte_count s \<and> chunk \<le> num \<and>
      length b + chunk \<le> ls_out_buffer_size s' \<and> (c \<longrightarrow> chunk = 0 \<longrightarrow> num = 0)"
  proof (cases "chunk1 = 0 \<and> c")
    case True
    then have 2: "Lstream_adding num True s1 = (chunk, s')" using assms(2) 1 by (simp add: write_room_def)
    show ?thesis using adding_state [OF st1(1) 2] st1 Lstream_adding_ok [OF h(2) 2] by simp
  next
    case False
    then have "chunk = chunk1" "s' = s1" using assms(2) 1 by (auto simp: write_room_def split: if_splits)
    then show ?thesis using st1 Lstream_adding_ok [OF h(1) 1] False by auto
  qed
  then show "out_state s' b T m" "write_view s' = write_view s" "ls_byte_count s' = ls_byte_count s"
    "chunk \<le> num" "length b + chunk \<le> ls_out_buffer_size s'" "c \<Longrightarrow> chunk = 0 \<Longrightarrow> num = 0" by blast+
qed

text \<open>
  The outcome of writing \<open>bs\<close>: \<open>k\<close> of the bytes are accepted, the others refused after an error or, on an unbuffered
  stream that does not squirrel, because the writer does not take them.
\<close>

definition refusal :: "'d lstream \<Rightarrow> bool" where
  "refusal s \<longleftrightarrow> ls_error_occurred_p s \<or> ls_buffering s = LSTREAM_UNBUFFERED \<and> LSTR_NO_SQUIRREL (ls_flags s)"

definition accepted :: "'d lstream \<Rightarrow> byte list \<Rightarrow> nat \<Rightarrow> byte list \<Rightarrow> nat \<Rightarrow> 'd lstream \<Rightarrow> byte list \<Rightarrow> bool" where
  "accepted s T m bs k s' b' \<longleftrightarrow> k \<le> length bs \<and> out_state s' b' (T @ take k bs) (m - k) \<and> write_view s' = write_view s \<and>
     ls_byte_count s' = ls_byte_count s + int k \<and> (k < length bs \<longrightarrow> refusal s')"

lemma write_buffered_ok:
  assumes "out_state s b T m" "off \<le> length bs" "length bs - off \<le> m" "length b + (length bs - off) < 2 ^ 31"
    "writes_ok s (b @ drop off bs @ rest)"
  shows "\<exists>k s' b'. write_buffered imp bs off c s = Some (Inr (if off + k = 0 \<and> bs \<noteq> [] then - 1 else int (off + k)), s') \<and>
    accepted s T m (drop off bs) k s' b' \<and> length b' + (length bs - off - k) \<le> length b + (length bs - off) \<and>
    writes_ok s' (b' @ drop (off + k) bs @ rest)"
  using assms
proof (induction "2 * (length bs - off) + (if c then 0 else 1 :: nat)" arbitrary: off c s b T m rule: less_induct)
  case less
  let ?sz = "length bs - off"
  obtain chunk s1 where r: "write_room ?sz c s = (chunk, s1)" by fastforce
  note wr = write_room_state [OF less.prems(1) r]
  let ?a = "take chunk (drop off bs)"
  have la: "length ?a = chunk" using wr(4) by simp
  then have "length b + length ?a \<le> ls_out_buffer_size s1" "length ?a \<le> m" using wr(4,5) less.prems(3) by simp_all
  from append_state [OF wr(1) this] la obtain s2 where
    2: "out_buffer_append ?a s1 = Some s2" "out_state s2 (b @ ?a) (T @ ?a) (m - chunk)" "write_view s2 = write_view s1"
      "ls_byte_count s2 = ls_byte_count s1" by auto
  let ?s3 = "s2\<lparr>ls_byte_count := ls_byte_count s2 + int chunk\<rparr>"
  have 3: "out_state ?s3 (b @ ?a) (T @ ?a) (m - chunk)" using 2(2) by (simp add: out_state_def writable_def)
  have v3: "write_view ?s3 = write_view s" using 2(3) wr(2) by simp
  have bc3: "ls_byte_count ?s3 = ls_byte_count s + int chunk" using 2(4) wr(3) by simp
  have split: "drop off bs = ?a @ drop (off + chunk) bs" by (metis add.commute append_take_drop_id drop_drop)
  have wok3: "writes_ok ?s3 ((b @ ?a) @ drop (off + chunk) bs @ rest)"
    using less.prems(5) split writes_ok_view [OF v3] by (metis append.assoc)
  have wb: "write_buffered imp bs off c s = (if ?sz - chunk > 0 then
      (case Lstream_flush_out imp ?s3 of None \<Rightarrow> None | Some (Inl e, s) \<Rightarrow> Some (Inl e, s)
       | Some (Inr r, s) \<Rightarrow> if r < 0 then Some (Inr (if off + chunk = 0 then - 1 else int (off + chunk)), s)
           else write_buffered imp bs (off + chunk) (c \<or> chunk = 0) s)
      else Some (Inr (int (off + chunk)), ?s3))"
    using r 2(1) by (subst write_buffered.simps) simp
  show ?case
  proof (cases "?sz - chunk > 0")
    case False
    then have c: "chunk = ?sz" using wr(4) by simp
    have "write_buffered imp bs off c s = Some (Inr (if off + chunk = 0 \<and> bs \<noteq> [] then - 1 else int (off + chunk)), ?s3)"
      unfolding wb using False c less.prems(2) by auto
    moreover have "accepted s T m (drop off bs) chunk ?s3 (b @ ?a)"
      using 3 v3 bc3 c by (simp add: accepted_def)
    moreover have "length (b @ ?a) + (?sz - chunk) \<le> length b + ?sz" using c la by simp
    moreover have "writes_ok ?s3 ((b @ ?a) @ drop (off + chunk) bs @ rest)" by (rule wok3)
    ultimately show ?thesis by blast
  next
    case True
    have l3: "length (b @ ?a) < 2 ^ 31" using la less.prems(4) wr(4) by simp
    obtain q s4 b4 where 4: "Lstream_flush_out imp ?s3 = Some (Inr q, s4)" "out_state s4 b4 (T @ ?a) (m - chunk)"
      "length b4 \<le> length (b @ ?a)" "writes_ok s4 (b4 @ drop (off + chunk) bs @ rest)" "write_view s4 = write_view ?s3"
      "ls_byte_count s4 = ls_byte_count ?s3" "q = 0 \<or> q = - 1 \<and> b4 = b @ ?a \<and> ls_error_occurred_p s4"
      using Lstream_flush_out_ok [OF 3 l3 wok3] by blast
    have v4: "write_view s4 = write_view s" using 4(5) v3 by simp
    have bc4: "ls_byte_count s4 = ls_byte_count s + int chunk" using 4(6) bc3 by simp
    show ?thesis
    proof (cases "q < 0")
      case neg: True
      then have "ls_error_occurred_p s4" using 4(7) by auto
      then have "accepted s T m (drop off bs) chunk s4 b4" using 4(2) v4 bc4 wr(4) by (simp add: accepted_def refusal_def)
      moreover have "write_buffered imp bs off c s = Some (Inr (if off + chunk = 0 \<and> bs \<noteq> [] then - 1 else int (off + chunk)), s4)"
        unfolding wb using True neg 4(1) by auto
      moreover have "length b4 + (?sz - chunk) \<le> length b + ?sz" using 4(3) la by simp
      ultimately show ?thesis using 4(4) by blast
    next
      case False
      have dec: "2 * (length bs - (off + chunk)) + (if c \<or> chunk = 0 then 0 else 1 :: nat) < 2 * ?sz + (if c then 0 else 1)"
      proof (cases "chunk = 0")
        case c0: True
        then have "\<not> c" using wr(6) True by auto
        then show ?thesis using c0 by simp
      qed (use True in auto)
      have p: "off + chunk \<le> length bs" "length bs - (off + chunk) \<le> m - chunk" "length b4 + (length bs - (off + chunk)) < 2 ^ 31"
        using True less.prems(3,4) 4(3) la by simp_all
      obtain k s5 b5 where 5: "write_buffered imp bs (off + chunk) (c \<or> chunk = 0) s4 =
          Some (Inr (if off + chunk + k = 0 \<and> bs \<noteq> [] then - 1 else int (off + chunk + k)), s5)"
        "accepted s4 (T @ ?a) (m - chunk) (drop (off + chunk) bs) k s5 b5"
        "length b5 + (length bs - (off + chunk) - k) \<le> length b4 + (length bs - (off + chunk))"
        "writes_ok s5 (b5 @ drop (off + chunk + k) bs @ rest)"
        using less.hyps [OF dec 4(2) p 4(4)] by (elim exE conjE) (rule that; assumption)
      have "write_buffered imp bs off c s = Some (Inr (if off + (chunk + k) = 0 \<and> bs \<noteq> [] then - 1 else int (off + (chunk + k))), s5)"
        unfolding wb using True False 4(1) 5(1) by (simp add: add.assoc)
      moreover have "take (chunk + k) (drop off bs) = ?a @ take k (drop (off + chunk) bs)"
        unfolding take_add drop_drop by (simp add: add.commute)
      then have "accepted s T m (drop off bs) (chunk + k) s5 b5"
        using 5(2) v4 bc4 wr(4) True by (auto simp: accepted_def)
      moreover have "length b5 + (?sz - (chunk + k)) \<le> length b + ?sz" using 5(3) 4(3) la True by simp
      moreover have "writes_ok s5 (b5 @ drop (off + (chunk + k)) bs @ rest)" using 5(4) by (simp add: add.assoc)
      ultimately show ?thesis by blast
    qed
  qed
qed

lemma write_unbuffered_ok:
  assumes st: "out_state s b T m" and m: "length bs \<le> m" and z: "length b + length bs < 2 ^ 31"
    and ok: "writes_ok s (b @ bs @ rest)" and ub: "ls_buffering s = LSTREAM_UNBUFFERED"
  shows "\<exists>r k s' b'. write_unbuffered imp bs s = Some (Inr r, s') \<and> accepted s T m bs k s' b' \<and>
    length b' + (length bs - k) \<le> length b + length bs \<and> writes_ok s' (b' @ drop k bs @ rest) \<and>
    (r = int k \<or> r = - 1 \<and> k = 0 \<and> ls_error_occurred_p s')"
proof -
  have "\<exists>r s1 b1. (if ls_out_buffer_ind s > 0 then Lstream_flush_out imp s else Some (Inr 0, s)) = Some (Inr r, s1) \<and>
      out_state s1 b1 T m \<and> length b1 \<le> length b \<and> writes_ok s1 (b1 @ bs @ rest) \<and> write_view s1 = write_view s \<and>
      ls_byte_count s1 = ls_byte_count s \<and> (r = 0 \<or> r = - 1 \<and> ls_error_occurred_p s1)"
  proof (cases "ls_out_buffer_ind s > 0")
    case True
    then show ?thesis using Lstream_flush_out_ok [OF st _ ok] z by fastforce
  next
    case False
    then show ?thesis using st ok by auto
  qed
  then obtain r s1 b1 where 1: "(if ls_out_buffer_ind s > 0 then Lstream_flush_out imp s else Some (Inr 0, s)) = Some (Inr r, s1)"
      "out_state s1 b1 T m" "length b1 \<le> length b" "writes_ok s1 (b1 @ bs @ rest)" "write_view s1 = write_view s"
      "ls_byte_count s1 = ls_byte_count s" "r = 0 \<or> r = - 1 \<and> ls_error_occurred_p s1"
    by (elim exE conjE) (rule that; assumption)
  show ?thesis
  proof (cases "r < 0")
    case True
    then have e: "r = - 1" "ls_error_occurred_p s1" using 1(7) by auto
    have "write_unbuffered imp bs s = Some (Inr (- 1), s1)" using 1(1) True by (simp add: write_unbuffered_def lbind_def)
    moreover have "accepted s T m bs 0 s1 b1" using 1 e by (simp add: accepted_def refusal_def)
    moreover have "length b1 + (length bs - 0) \<le> length b + length bs" "writes_ok s1 (b1 @ drop 0 bs @ rest)" using 1(3,4) by simp_all
    ultimately show ?thesis using e by blast
  next
    case False
    then have r0: "r = 0" using 1(7) by auto
    have "\<exists>off j s2 b2. (if ls_out_buffer_ind s1 = 0 then Lstream_really_write imp bs s1 else Some (Inr 0, s1)) = Some (Inr off, s2) \<and>
        out_state s2 b2 (T @ take j bs) (m - j) \<and> j \<le> length bs \<and> length b2 \<le> length b1 \<and>
        writes_ok s2 (b2 @ drop j bs @ rest) \<and> write_view s2 = write_view s \<and> ls_byte_count s2 = ls_byte_count s \<and>
        (off = int j \<or> off = - 1 \<and> j = 0 \<and> ls_error_occurred_p s2)"
    proof (cases "ls_out_buffer_ind s1 = 0")
      case True
      note st1 = 1(2) [unfolded out_state_def]
      have b1: "b1 = []" using True out_holds_ind st1 by fastforce
      have w: "writable s1 m" "length bs < 2 ^ 31" using st1 b1 z by simp_all
      have wok: "writes_ok s1 bs" using 1(4) b1 text_prefix_append by (auto simp: writes_ok_def)
      obtain j s2 where 2: "Lstream_really_write imp bs s1 = Some (Inr (if j = 0 \<and> ls_error_occurred_p s2 then - 1 else int j), s2)"
        "j \<le> length bs" "meth_frame s1 s2" "sink (ls_data s2) = sink (ls_data s1) @ take j bs" "writable s2 (m - j)"
        "LSTR_NO_PARTIAL_CHARS (ls_flags s1) \<longrightarrow> whole_chars (take j bs)"
        using Lstream_really_write_ok [OF w(1) m w(2) wok] by (elim exE conjE) (rule that; assumption)
      note fr = meth_frame_sel [OF 2(3)] write_view_frame [OF 2(3)]
      have "out_state s2 [] (T @ take j bs) (m - j)"
        using st1 2 b1 out_holds_frame [OF 2(3)] by (simp add: out_state_def)
      moreover have "writes_ok s2 ([] @ drop j bs @ rest)"
      proof -
        have "text_prefix (drop j (bs @ rest))" if "LSTR_NO_PARTIAL_CHARS (ls_flags s1)"
          using text_prefix_drop [of "bs @ rest" j] 1(4) b1 2(2,6) that by (simp add: writes_ok_def)
        then show ?thesis using 2(2) fr(3) by (simp add: writes_ok_def)
      qed
      moreover have "write_view s2 = write_view s" "ls_byte_count s2 = ls_byte_count s" "length [] \<le> length b1"
        using fr 1(5,6) by simp_all
      moreover have "(if ls_out_buffer_ind s1 = 0 then Lstream_really_write imp bs s1 else Some (Inr 0, s1)) =
          Some (Inr (if j = 0 \<and> ls_error_occurred_p s2 then - 1 else int j), s2)" using True 2(1) by simp
      moreover have "(if j = 0 \<and> ls_error_occurred_p s2 then - 1 else int j) = int j \<or>
          (if j = 0 \<and> ls_error_occurred_p s2 then - 1 else int j) = - 1 \<and> j = 0 \<and> ls_error_occurred_p s2" by simp
      ultimately show ?thesis using 2(2) by blast
    next
      case False
      then show ?thesis using 1 by (intro exI [of _ 0] exI [of _ s1] exI [of _ b1]) auto
    qed
    then obtain off j s2 b2 where
      2: "(if ls_out_buffer_ind s1 = 0 then Lstream_really_write imp bs s1 else Some (Inr 0, s1)) = Some (Inr off, s2)"
        "out_state s2 b2 (T @ take j bs) (m - j)" "j \<le> length bs" "length b2 \<le> length b1"
        "writes_ok s2 (b2 @ drop j bs @ rest)" "write_view s2 = write_view s" "ls_byte_count s2 = ls_byte_count s"
        "off = int j \<or> off = - 1 \<and> j = 0 \<and> ls_error_occurred_p s2"
      by (elim exE conjE) (rule that; assumption)
    show ?thesis
    proof (cases "off < 0")
      case True
      then have e: "off = - 1" "j = 0" "ls_error_occurred_p s2" using 2(8) by auto
      have "write_unbuffered imp bs s = Some (Inr (- 1), s2)" using 1(1) r0 2(1) True by (simp add: write_unbuffered_def lbind_def)
      moreover have "accepted s T m bs 0 s2 b2" using 2 e by (simp add: accepted_def refusal_def)
      moreover have "length b2 + (length bs - 0) \<le> length b + length bs" "writes_ok s2 (b2 @ drop 0 bs @ rest)"
        using 1(3) 2(4,5) e by simp_all
      ultimately show ?thesis using e by blast
    next
      case False
      then have off: "off = int j" using 2(8) by auto
      show ?thesis
      proof (cases "\<not> LSTR_NO_SQUIRREL (ls_flags s2) \<and> j < length bs")
        case True
        let ?a = "drop j bs"
        obtain c3 s3 where 3: "Lstream_adding (length bs - j) True s2 = (c3, s3)" by fastforce
        note a3 = adding_state [OF 2(2) 3]
        have "out_holds s2 b2" using 2(2) by (simp add: out_state_def)
        note l3 = Lstream_adding_ok [OF this 3]
        have "length b2 + length ?a \<le> ls_out_buffer_size s3" "length ?a \<le> m - j" using l3(2,3) m by simp_all
        from append_state [OF a3(1) this] obtain s4 where
          4: "out_buffer_append ?a s3 = Some s4" "out_state s4 (b2 @ ?a) ((T @ take j bs) @ ?a) (m - j - length ?a)"
            "write_view s4 = write_view s3" "ls_byte_count s4 = ls_byte_count s3" by auto
        let ?s5 = "s4\<lparr>ls_byte_count := ls_byte_count s4 + int (length bs)\<rparr>"
        have "write_unbuffered imp bs s = Some (Inr (int (length bs)), ?s5)"
          using 1(1) r0 2(1) off True 3 4(1) by (simp add: write_unbuffered_def lbind_def)
        moreover have "accepted s T m bs (length bs) ?s5 (b2 @ ?a)"
          using 4 a3 2(6,7) True by (simp add: accepted_def out_state_def writable_def)
        moreover have "length (b2 @ ?a) + (length bs - length bs) \<le> length b + length bs" using 1(3) 2(4) by simp
        moreover have "writes_ok ?s5 ((b2 @ ?a) @ drop (length bs) bs @ rest)"
          using 2(5) writes_ok_view [of ?s5 s2] 4(3) a3(2) by simp
        ultimately show ?thesis by blast
      next
        case ns: False
        let ?s5 = "s2\<lparr>ls_byte_count := ls_byte_count s2 + int j\<rparr>"
        have "write_unbuffered imp bs s = Some (Inr (int j), ?s5)"
          using 1(1) r0 2(1) off ns by (auto simp: write_unbuffered_def lbind_def)
        moreover have "accepted s T m bs j ?s5 b2"
          using 2 ns ub write_view_sel [OF 2(6)] by (auto simp: accepted_def out_state_def writable_def refusal_def)
        moreover have "length b2 + (length bs - j) \<le> length b + length bs" using 1(3) 2(4) by simp
        moreover have "writes_ok ?s5 (b2 @ drop j bs @ rest)" using 2(5) writes_ok_view [of ?s5 s2] by simp
        ultimately show ?thesis by blast
      qed
    qed
  qed
qed

lemma out_state_open: "out_state s b T m \<Longrightarrow> LSTR_IS_OPEN (ls_flags s) \<and> LSTR_WRITE (ls_flags s)"
  by (simp add: out_state_def writable_def)

lemma Lstream_write_1_ok:
  assumes st: "out_state s b T m" and m: "length bs \<le> m" and z: "length b + length bs < 2 ^ 31" and ok: "writes_ok s (b @ bs @ rest)"
  shows "\<exists>r k s' b'. Lstream_write_1 imp bs s = Some (Inr r, s') \<and> accepted s T m bs k s' b' \<and>
    length b' + (length bs - k) \<le> length b + length bs \<and> writes_ok s' (b' @ drop k bs @ rest) \<and>
    (r = int k \<or> r = - 1 \<and> k = 0 \<and> refusal s') \<and>
    (ls_buffering s \<noteq> LSTREAM_UNBUFFERED \<longrightarrow> bs \<noteq> [] \<longrightarrow> 0 \<le> r \<longrightarrow> 0 < k)"
proof (cases "ls_buffering s = LSTREAM_UNBUFFERED")
  case True
  then have "Lstream_write_1 imp bs s = write_unbuffered imp bs s" using out_state_open [OF st] by (simp add: Lstream_write_1_def)
  then show ?thesis using write_unbuffered_ok [OF st m z ok True] True by (fastforce simp: refusal_def)
next
  case False
  then have w: "Lstream_write_1 imp bs s = write_buffered imp bs 0 False s" using out_state_open [OF st] by (simp add: Lstream_write_1_def)
  have p: "length bs - 0 \<le> m" "length b + (length bs - 0) < 2 ^ 31" "writes_ok s (b @ drop 0 bs @ rest)" using m z ok by simp_all
  obtain k s' b' where 1: "write_buffered imp bs 0 False s = Some (Inr (if k = 0 \<and> bs \<noteq> [] then - 1 else int k), s')"
    "accepted s T m bs k s' b'" "length b' + (length bs - k) \<le> length b + length bs" "writes_ok s' (b' @ drop k bs @ rest)"
    using write_buffered_ok [OF st le0 p, where c = False, unfolded add_0 drop_0 diff_zero] by (elim exE conjE) (rule that; assumption)
  define r where "r = (if k = 0 \<and> bs \<noteq> [] then - 1 else int k)"
  have "r = int k \<or> r = - 1 \<and> k = 0 \<and> refusal s'" using 1(2) by (auto simp: accepted_def r_def)
  moreover have "bs \<noteq> [] \<longrightarrow> 0 \<le> r \<longrightarrow> 0 < k" by (simp add: r_def)
  moreover have "Lstream_write_1 imp bs s = Some (Inr r, s')" unfolding w r_def by (rule 1(1))
  ultimately show ?thesis using 1(2-4) by blast
qed

lemma accepted_trans:
  assumes "accepted s T m xs (length xs) s1 b1" "accepted s1 (T @ xs) (m - length xs) ys k s2 b2"
  shows "accepted s T m (xs @ ys) (length xs + k) s2 b2"
  using assms by (auto simp: accepted_def)

text \<open>A flush after bytes have been accepted.\<close>

lemma accepted_flush:
  assumes a: "accepted s T m bs (length bs) s1 b1" and z: "length b1 < 2 ^ 31" and ok: "writes_ok s1 (b1 @ rest)"
  shows "\<exists>r s2 b2. Lstream_flush_out imp s1 = Some (Inr r, s2) \<and> accepted s T m bs (length bs) s2 b2 \<and>
    length b2 \<le> length b1 \<and> writes_ok s2 (b2 @ rest) \<and> (r = 0 \<or> r = - 1 \<and> ls_error_occurred_p s2)"
proof -
  have st: "out_state s1 b1 (T @ bs) (m - length bs)" using a by (simp add: accepted_def)
  from Lstream_flush_out_ok [OF this z ok] obtain r s2 b2 where
    "Lstream_flush_out imp s1 = Some (Inr r, s2)" "out_state s2 b2 (T @ bs) (m - length bs)" "length b2 \<le> length b1"
    "writes_ok s2 (b2 @ rest)" "write_view s2 = write_view s1" "ls_byte_count s2 = ls_byte_count s1"
    "r = 0 \<or> r = - 1 \<and> b2 = b1 \<and> ls_error_occurred_p s2" by blast
  with a show ?thesis by (auto simp: accepted_def)
qed

lemma Lstream_putc_ok:
  assumes st: "out_state s b T m" and m: "1 \<le> m" and z: "length b + 1 < 2 ^ 31" and ok: "writes_ok s (b @ c # rest)"
    and buf: "ls_buffering s \<noteq> LSTREAM_UNBUFFERED"
  shows "\<exists>r k s' b'. Lstream_putc imp c s = Some (Inr r, s') \<and> accepted s T m [c] k s' b' \<and>
    length b' + (1 - k) \<le> length b + 1 \<and> writes_ok s' (b' @ drop k [c] @ rest) \<and>
    (r = 0 \<and> k = 1 \<or> r = - 1 \<and> refusal s')"
proof (cases "ls_out_buffer_ind s \<ge> ls_out_buffer_size s")
  case True
  have ok': "writes_ok s (b @ [c] @ rest)" "length [c] \<le> m" "length b + length [c] < 2 ^ 31" using ok m z by simp_all
  obtain r k s1 b1 where 1: "Lstream_write_1 imp [c] s = Some (Inr r, s1)" "accepted s T m [c] k s1 b1"
    "length b1 + (1 - k) \<le> length b + 1" "writes_ok s1 (b1 @ drop k [c] @ rest)" "r = int k \<or> r = - 1 \<and> k = 0 \<and> refusal s1"
    "0 \<le> r \<longrightarrow> 0 < k"
    using Lstream_write_1_ok [OF st ok'(2,3,1)] buf by auto
  have k1: "k \<le> 1" using 1(2) by (simp add: accepted_def)
  have put: "Lstream_putc imp c s = (if r \<ge> 0 \<and> ls_buffering s1 = LSTREAM_LINE_BUFFERED \<and> c = 0x0A then Lstream_flush_out imp s1
      else Some (Inr (if r \<ge> 0 then 0 else - 1), s1))"
    using True 1(1) by (simp add: Lstream_putc_def Lstream_fputc_def lbind_def)
  show ?thesis
  proof (cases "r \<ge> 0 \<and> ls_buffering s1 = LSTREAM_LINE_BUFFERED \<and> c = 0x0A")
    case fl: True
    then have k: "k = 1" using 1(6) k1 by auto
    have a: "accepted s T m [c] (length [c]) s1 b1" "length b1 < 2 ^ 31" "writes_ok s1 (b1 @ rest)" using 1 k z by simp_all
    from accepted_flush [OF a] show ?thesis unfolding put using fl 1(3) k by (fastforce simp: refusal_def)
  next
    case False
    then have "Lstream_putc imp c s = Some (Inr (if r \<ge> 0 then 0 else - 1), s1)" unfolding put by auto
    moreover have "(if r \<ge> 0 then 0 else - 1 :: int) = 0 \<and> k = 1 \<or> (if r \<ge> 0 then 0 else - 1 :: int) = - 1 \<and> refusal s1"
      using 1(5,6) k1 by auto
    ultimately show ?thesis using 1(2,3,4) by blast
  qed
next
  case False
  have h: "ls_out_buffer_ind s = length b" using st out_holds_ind by (auto simp: out_state_def)
  then have "length b + length [c] \<le> ls_out_buffer_size s" "length [c] \<le> m" using False m by simp_all
  from append_state [OF st this] obtain s1 where
    1: "out_buffer_append [c] s = Some s1" "out_state s1 (b @ [c]) (T @ [c]) (m - 1)" "write_view s1 = write_view s"
      "ls_byte_count s1 = ls_byte_count s" by auto
  let ?s2 = "s1\<lparr>ls_byte_count := ls_byte_count s1 + 1\<rparr>"
  have a: "accepted s T m [c] (length [c]) ?s2 (b @ [c])" using 1 by (simp add: accepted_def out_state_def writable_def)
  have ok2: "writes_ok ?s2 ((b @ [c]) @ rest)" using ok writes_ok_view [of ?s2 s] 1(3) by simp
  have put: "Lstream_putc imp c s = (if ls_buffering ?s2 = LSTREAM_LINE_BUFFERED \<and> c = 0x0A then Lstream_flush_out imp ?s2 else Some (Inr 0, ?s2))"
    using False 1(1) by (simp add: Lstream_putc_def Let_def)
  show ?thesis
  proof (cases "ls_buffering ?s2 = LSTREAM_LINE_BUFFERED \<and> c = 0x0A")
    case True
    have "length (b @ [c]) < 2 ^ 31" using z by simp
    from accepted_flush [OF a this ok2] True show ?thesis unfolding put by (fastforce simp: refusal_def)
  next
    case nf: False
    have "length (b @ [c]) + (1 - length [c]) \<le> length b + 1" "writes_ok ?s2 ((b @ [c]) @ drop (length [c]) [c] @ rest)" using ok2 by simp_all
    moreover have "Lstream_putc imp c s = Some (Inr 0, ?s2)" unfolding put using nf by auto
    ultimately show ?thesis using a by (metis One_nat_def length_Cons list.size(3))
  qed
qed

lemma write_putc_loop_ok:
  assumes "out_state s b T m" "length cs \<le> m" "length b + length cs < 2 ^ 31" "writes_ok s (b @ cs @ rest)"
    "ls_buffering s = LSTREAM_LINE_BUFFERED" "0 < i + length cs"
  shows "\<exists>r k s' b'. write_putc_loop imp cs i s = Some (Inr r, s') \<and> accepted s T m cs k s' b' \<and>
    length b' + (length cs - k) \<le> length b + length cs \<and> writes_ok s' (b' @ drop k cs @ rest) \<and>
    (r = int (i + k) \<and> k = length cs \<or>
     (\<exists>j. r = (if i + j = 0 then - 1 else int (i + j)) \<and> j < length cs \<and> (k = j \<or> k = j + 1) \<and> refusal s'))"
  using assms
proof (induction cs arbitrary: i s b T m)
  case Nil
  then show ?case by (auto simp: accepted_def intro!: exI [of _ b])
next
  case (Cons c cs)
  have p: "1 \<le> m" "length b + 1 < 2 ^ 31" "writes_ok s (b @ c # (cs @ rest))" "ls_buffering s \<noteq> LSTREAM_UNBUFFERED"
    using Cons.prems by simp_all
  obtain q k1 s1 b1 where 1: "Lstream_putc imp c s = Some (Inr q, s1)" "accepted s T m [c] k1 s1 b1"
    "length b1 + (1 - k1) \<le> length b + 1" "writes_ok s1 (b1 @ drop k1 [c] @ cs @ rest)" "q = 0 \<and> k1 = 1 \<or> q = - 1 \<and> refusal s1"
    using Lstream_putc_ok [OF Cons.prems(1) p] by blast
  have k1: "k1 \<le> 1" using 1(2) by (simp add: accepted_def)
  have loop: "write_putc_loop imp (c # cs) i s =
      (if q < 0 then Some (Inr (if i = 0 then - 1 else int i), s1) else write_putc_loop imp cs (i + 1) s1)"
    using 1(1) by (simp add: lbind_def)
  show ?case
  proof (cases "q < 0")
    case True
    then have ref: "refusal s1" using 1(5) by auto
    have k01: "k1 = 0 \<or> k1 = 1" using k1 by linarith
    then have "accepted s T m (c # cs) k1 s1 b1" using 1(2) ref by (elim disjE) (simp_all add: accepted_def)
    moreover have "length b1 + (length (c # cs) - k1) \<le> length b + length (c # cs)" using 1(3) k1 by simp
    moreover have "writes_ok s1 (b1 @ drop k1 (c # cs) @ rest)" using 1(4) k01 by (elim disjE) simp_all
    moreover have "\<exists>j. (if i = 0 then - 1 else int i) = (if i + j = 0 then - 1 else int (i + j)) \<and> j < length (c # cs) \<and>
        (k1 = j \<or> k1 = j + 1) \<and> refusal s1" using ref k1 by (intro exI [of _ 0]) auto
    moreover have "write_putc_loop imp (c # cs) i s = Some (Inr (if i = 0 then - 1 else int i), s1)" unfolding loop using True by simp
    ultimately show ?thesis by blast
  next
    case False
    then have k: "k1 = 1" using 1(5) by auto
    have st1: "out_state s1 b1 (T @ [c]) (m - 1)" and v1: "write_view s1 = write_view s" using 1(2) k by (simp_all add: accepted_def)
    have p1: "length cs \<le> m - 1" "length b1 + length cs < 2 ^ 31" "writes_ok s1 (b1 @ cs @ rest)"
      "ls_buffering s1 = LSTREAM_LINE_BUFFERED" "0 < i + 1 + length cs"
      using Cons.prems(2-5) 1(3,4) k write_view_sel(2) [OF v1] by simp_all
    obtain r k2 s2 b2 where 2: "write_putc_loop imp cs (i + 1) s1 = Some (Inr r, s2)" "accepted s1 (T @ [c]) (m - 1) cs k2 s2 b2"
      "length b2 + (length cs - k2) \<le> length b1 + length cs" "writes_ok s2 (b2 @ drop k2 cs @ rest)"
      "r = int (i + 1 + k2) \<and> k2 = length cs \<or>
       (\<exists>j. r = (if i + 1 + j = 0 then - 1 else int (i + 1 + j)) \<and> j < length cs \<and> (k2 = j \<or> k2 = j + 1) \<and> refusal s2)"
      using Cons.IH [OF st1 p1] by (elim exE conjE) (rule that; assumption)
    have "accepted s T m [c] (length [c]) s1 b1" "accepted s1 (T @ [c]) (m - length [c]) cs k2 s2 b2" using 1(2) 2(2) k by simp_all
    from accepted_trans [OF this] have "accepted s T m (c # cs) (k2 + 1) s2 b2" by simp
    moreover have "length b2 + (length (c # cs) - (k2 + 1)) \<le> length b + length (c # cs)" using 2(3) 1(3) k by simp
    moreover have "writes_ok s2 (b2 @ drop (k2 + 1) (c # cs) @ rest)" using 2(4) by simp
    moreover have "r = int (i + (k2 + 1)) \<and> k2 + 1 = length (c # cs) \<or>
       (\<exists>j. r = (if i + j = 0 then - 1 else int (i + j)) \<and> j < length (c # cs) \<and> (k2 + 1 = j \<or> k2 + 1 = j + 1) \<and> refusal s2)"
      using 2(5)
    proof
      assume "\<exists>j. r = (if i + 1 + j = 0 then - 1 else int (i + 1 + j)) \<and> j < length cs \<and> (k2 = j \<or> k2 = j + 1) \<and> refusal s2"
      then obtain j where "r = (if i + 1 + j = 0 then - 1 else int (i + 1 + j)) \<and> j < length cs \<and> (k2 = j \<or> k2 = j + 1) \<and> refusal s2" by blast
      then show ?thesis by (intro disjI2 exI [of _ "j + 1"]) auto
    qed auto
    moreover have "write_putc_loop imp (c # cs) i s = Some (Inr r, s2)" unfolding loop using False 2(1) by simp
    ultimately show ?thesis by blast
  qed
qed

lemma Lstream_write_ok:
  assumes st: "out_state s b T m" and m: "length bs \<le> m" and z: "length b + length bs < 2 ^ 31" and ok: "writes_ok s (b @ bs @ rest)"
  shows "\<exists>r k s' b'. Lstream_write imp bs s = Some (Inr r, s') \<and> accepted s T m bs k s' b' \<and>
    length b' + (length bs - k) \<le> length b + length bs \<and> writes_ok s' (b' @ drop k bs @ rest) \<and>
    (r = int k \<or> refusal s' \<and> (r = - 1 \<and> k \<le> 1 \<or> r = int k - 1) \<and> (k = 0 \<or> ls_buffering s = LSTREAM_LINE_BUFFERED))"
proof -
  let ?s = "Lstream_clear_error_occurred_p s"
  have c: "write_view ?s = write_view s" "ls_byte_count ?s = ls_byte_count s" "out_state ?s b T m" "ls_buffering ?s = ls_buffering s"
    using st by (simp_all add: Lstream_clear_error_occurred_p_def out_state_def writable_def)
  have ok': "writes_ok ?s (b @ bs @ rest)" using ok writes_ok_view [OF c(1)] by simp
  have acc: "accepted ?s T m bs k s' b' = accepted s T m bs k s' b'" for k s' b' using c by (simp add: accepted_def)
  show ?thesis
  proof (cases "bs = []")
    case True
    then have "Lstream_write imp bs s = Some (Inr 0, ?s)" by (simp add: Lstream_write_def)
    moreover have "accepted s T m bs 0 ?s b" using True c by (simp add: accepted_def)
    ultimately show ?thesis using ok' True by (intro exI [of _ 0] exI [of _ ?s] exI [of _ b]) auto
  next
    case False
    show ?thesis
    proof (cases "ls_buffering s = LSTREAM_LINE_BUFFERED")
      case True
      then have w: "Lstream_write imp bs s = write_putc_loop imp bs 0 ?s" using False c(4) by (simp add: Lstream_write_def)
      have "ls_buffering ?s = LSTREAM_LINE_BUFFERED" "0 < 0 + length bs" using True c(4) False by simp_all
      from write_putc_loop_ok [OF c(3) m z ok' this] obtain r k s' b' where
        1: "write_putc_loop imp bs 0 ?s = Some (Inr r, s')" "accepted ?s T m bs k s' b'"
          "length b' + (length bs - k) \<le> length b + length bs" "writes_ok s' (b' @ drop k bs @ rest)"
          "r = int (0 + k) \<and> k = length bs \<or>
           (\<exists>j. r = (if 0 + j = 0 then - 1 else int (0 + j)) \<and> j < length bs \<and> (k = j \<or> k = j + 1) \<and> refusal s')"
        by (elim exE conjE) (rule that; assumption)
      then have "r = int k \<or> refusal s' \<and> (r = - 1 \<and> k \<le> 1 \<or> r = int k - 1)" by (auto split: if_splits)
      with 1 True show ?thesis unfolding w acc by blast
    next
      case nl: False
      then have w: "Lstream_write imp bs s = Lstream_write_1 imp bs ?s" using False c(4) by (simp add: Lstream_write_def)
      from Lstream_write_1_ok [OF c(3) m z ok'] show ?thesis unfolding w acc by fastforce
    qed
  qed
qed

lemma Lstream_flush_ok:
  assumes "out_state s b T m" "length b < 2 ^ 31" "writes_ok s b"
  shows "\<exists>r s' b'. Lstream_flush imp s = Some (Inr r, s') \<and> out_state s' b' T m \<and> ls_flags s' = ls_flags s \<and>
    ls_byte_count s' = ls_byte_count s \<and> (r = 0 \<or> r = - 1 \<and> ls_error_occurred_p s') \<and>
    (willing \<and> (LSTR_NO_PARTIAL_CHARS (ls_flags s) \<longrightarrow> whole_chars b) \<longrightarrow> r = 0 \<and> b' = [])"
proof -
  have "writes_ok s (b @ [])" using assms(3) by simp
  from Lstream_flush_out_ok [OF assms(1,2) this] obtain r s1 b1 where
    1: "Lstream_flush_out imp s = Some (Inr r, s1)" "out_state s1 b1 T m" "write_view s1 = write_view s"
      "ls_byte_count s1 = ls_byte_count s" "r = 0 \<or> r = - 1 \<and> b1 = b \<and> ls_error_occurred_p s1"
      "willing \<and> (LSTR_NO_PARTIAL_CHARS (ls_flags s) \<longrightarrow> whole_chars b) \<longrightarrow> b1 = []"
    by (elim exE conjE) (rule that; assumption)
  let ?s2 = "if r < 0 then s1 else s1\<lparr>ls_in_buffer_current := 0, ls_in_buffer_ind := 0, ls_unget_buffer_ind := 0\<rparr>"
  have "Lstream_flush imp s = Some (Inr r, ?s2)" using 1(1,5) by (auto simp: Lstream_flush_def lbind_def)
  moreover have "out_state ?s2 b1 T m" using 1(2) by (simp add: out_state_def writable_def out_holds_def)
  moreover have "ls_flags ?s2 = ls_flags s" "ls_byte_count ?s2 = ls_byte_count s" "ls_error_occurred_p ?s2 = ls_error_occurred_p s1"
    using write_view_sel(1) [OF 1(3)] 1(4) by simp_all
  moreover have "willing \<longrightarrow> r = 0" using 1(2,5) by (auto simp: out_state_def writable_def)
  ultimately show ?thesis using 1(5,6) by metis
qed

end

text \<open>Data written in pieces, until one is not taken as a whole.\<close>

fun write_pieces :: "'d lstream_implementation \<Rightarrow> byte list list \<Rightarrow> 'd lstream \<Rightarrow> (bool, 'd) lout" where
  "write_pieces imp [] lstr = Some (Inr True, lstr)"
| "write_pieces imp (bs # bss) lstr =
     lbind (Lstream_write imp bs lstr) (\<lambda>r s. if r = int (length bs) then write_pieces imp bss s else Some (Inr False, s))"

context lstream_sink
begin

lemma willing_no_error: "out_state s b T m \<Longrightarrow> willing \<Longrightarrow> \<not> ls_error_occurred_p s"
  unfolding out_state_def writable_def by blast

lemma write_pieces_ok:
  assumes "out_state s b T m" "length (concat bss) \<le> m" "length b + length (concat bss) < 2 ^ 31" "writes_ok s (b @ concat bss)"
    "willing" "\<not> (ls_buffering s = LSTREAM_UNBUFFERED \<and> LSTR_NO_SQUIRREL (ls_flags s))"
  shows "\<exists>s' b'. write_pieces imp bss s = Some (Inr True, s') \<and> out_state s' b' (T @ concat bss) (m - length (concat bss)) \<and>
    length b' \<le> length b + length (concat bss) \<and> writes_ok s' b' \<and> ls_flags s' = ls_flags s \<and>
    ls_byte_count s' = ls_byte_count s + int (length (concat bss))"
  using assms
proof (induction bss arbitrary: s b T m)
  case Nil
  then show ?case by auto
next
  case (Cons bs bss)
  have p: "length bs \<le> m" "length b + length bs < 2 ^ 31" "writes_ok s (b @ bs @ concat bss)" using Cons.prems by simp_all
  from Lstream_write_ok [OF Cons.prems(1) p] obtain r k s1 b1 where
    1: "Lstream_write imp bs s = Some (Inr r, s1)" "accepted s T m bs k s1 b1" "length b1 + (length bs - k) \<le> length b + length bs"
      "writes_ok s1 (b1 @ drop k bs @ concat bss)"
      "r = int k \<or> refusal s1 \<and> (r = - 1 \<and> k \<le> 1 \<or> r = int k - 1) \<and> (k = 0 \<or> ls_buffering s = LSTREAM_LINE_BUFFERED)"
    by (elim exE conjE) (rule that; assumption)
  note a = 1(2) [unfolded accepted_def]
  have "\<not> refusal s1"
  proof -
    have "write_view s1 = write_view s" using a by simp
    note v = write_view_sel [OF this]
    have "out_state s1 b1 (T @ take k bs) (m - k)" using a by simp
    then have "\<not> ls_error_occurred_p s1" using willing_no_error Cons.prems(5) by blast
    then show ?thesis using v Cons.prems(6) by (simp add: refusal_def)
  qed
  then have k: "k = length bs" "r = int (length bs)" using a 1(5) by auto
  have v: "write_view s1 = write_view s" using a by simp
  have "out_state s1 b1 (T @ bs) (m - length bs)" "length (concat bss) \<le> m - length bs" "length b1 + length (concat bss) < 2 ^ 31"
    "writes_ok s1 (b1 @ concat bss)" "\<not> (ls_buffering s1 = LSTREAM_UNBUFFERED \<and> LSTR_NO_SQUIRREL (ls_flags s1))"
    using a k 1(3,4) Cons.prems(2,3,6) write_view_sel [OF v] by auto
  from Cons.IH [OF this(1-4) Cons.prems(5) this(5)] obtain s2 b2 where
    2: "write_pieces imp bss s1 = Some (Inr True, s2)" "out_state s2 b2 ((T @ bs) @ concat bss) (m - length bs - length (concat bss))"
      "length b2 \<le> length b1 + length (concat bss)" "writes_ok s2 b2" "ls_flags s2 = ls_flags s1"
      "ls_byte_count s2 = ls_byte_count s1 + int (length (concat bss))" by blast
  then show ?case using 1(1,3) a k write_view_sel [OF v] by (intro exI [of _ s2] exI [of _ b2]) (simp add: lbind_def)
qed

lemma pieces_flushed:
  assumes "out_state s b T m" "length (concat bss) \<le> m" "length b + length (concat bss) < 2 ^ 31"
    "willing" "\<not> (ls_buffering s = LSTREAM_UNBUFFERED \<and> LSTR_NO_SQUIRREL (ls_flags s))"
    "LSTR_NO_PARTIAL_CHARS (ls_flags s) \<longrightarrow> whole_chars (b @ concat bss)"
  shows "\<exists>s1 s2. write_pieces imp bss s = Some (Inr True, s1) \<and> Lstream_flush imp s1 = Some (Inr 0, s2) \<and>
    out_state s2 [] (T @ concat bss) (m - length (concat bss)) \<and> ls_flags s2 = ls_flags s \<and>
    ls_byte_count s2 = ls_byte_count s + int (length (concat bss))"
proof -
  have "writes_ok s (b @ concat bss)" using assms(6) whole_text_prefix by (simp add: writes_ok_def)
  from write_pieces_ok [OF assms(1-3) this assms(4,5)] obtain s1 b1 where
    1: "write_pieces imp bss s = Some (Inr True, s1)" "out_state s1 b1 (T @ concat bss) (m - length (concat bss))"
      "length b1 \<le> length b + length (concat bss)" "writes_ok s1 b1" "ls_flags s1 = ls_flags s"
      "ls_byte_count s1 = ls_byte_count s + int (length (concat bss))" by blast
  have "length b1 < 2 ^ 31" using 1(3) assms(3) by simp
  from Lstream_flush_ok [OF 1(2) this 1(4)] obtain r s2 b2 where
    2: "Lstream_flush imp s1 = Some (Inr r, s2)" "out_state s2 b2 (T @ concat bss) (m - length (concat bss))"
      "ls_flags s2 = ls_flags s1" "ls_byte_count s2 = ls_byte_count s1"
      "willing \<and> (LSTR_NO_PARTIAL_CHARS (ls_flags s1) \<longrightarrow> whole_chars b1) \<longrightarrow> r = 0 \<and> b2 = []"
    by (elim exE conjE) (rule that; assumption)
  have "whole_chars b1" if np: "LSTR_NO_PARTIAL_CHARS (ls_flags s1)"
  proof (rule whole_chars_rest [of "sink (ls_data s1)"])
    have "whole_chars (sink (ls_data s))" using assms(1) np 1(5) by (simp add: out_state_def writable_def)
    moreover have "sink (ls_data s1) @ b1 = sink (ls_data s) @ b @ concat bss" using 1(2) assms(1) by (simp add: out_state_def)
    ultimately show "whole_chars (sink (ls_data s1) @ b1)" using assms(6) np 1(5) whole_chars_append by simp
    show "whole_chars (sink (ls_data s1))" using 1(2) np by (simp add: out_state_def writable_def)
  qed
  then have "r = 0" "b2 = []" using 2(5) assms(4) by blast+
  then show ?thesis using 1(1,5,6) 2(1-4) by auto
qed

end

end
