(* ===== verification/Lstream_Types.thy ===== *)
theory Lstream_Types
  imports Lstream_Write Dynarr
begin

text \<open>
  Implementations of streams (\<open>src/lstream.c\<close>): fixed and resizing buffers, dynarrs, Lisp strings and
  file descriptors, with the retrying system calls of \<open>src/sysdep.c\<close> that these use.  The system calls themselves
  are parameters.  Streams over the TLS library and extents are left out.
\<close>

text \<open>A method that ends with a value and new data.\<close>

definition method_result :: "'d lstream \<Rightarrow> 'a \<Rightarrow> bool \<Rightarrow> 'd \<Rightarrow> ('a, 'd) lout" where
  "method_result s r err d = Some (Inr r, s\<lparr>ls_error_occurred_p := ls_error_occurred_p s \<or> err, ls_data := d\<rparr>)"

definition no_methods :: "'d lstream_implementation" where
  "no_methods = \<lparr>im_reader = None, im_writer = None, im_write_with_extents = None, im_rewinder = None,
     im_seekable_p = None, im_seek_from_end = None, im_character_tell = None, im_flusher = None, im_closer = None\<rparr>"

section \<open>Fixed buffers\<close>

record fixed_buffer_stream =
  fb_inbuf :: "byte cells"
  fb_outbuf :: "byte cells"
  fb_size :: nat
  fb_offset :: nat

definition fixed_buffer_reader :: "fixed_buffer_stream lstream \<Rightarrow> nat \<Rightarrow> (byte list, fixed_buffer_stream) lout" where
  "fixed_buffer_reader s sz =
     (let d = ls_data s; n = min sz (fb_size d - fb_offset d) in
      case mem_bytes (fb_inbuf d) (fb_offset d) n of
        None \<Rightarrow> None
      | Some bs \<Rightarrow> method_result s bs False (d\<lparr>fb_offset := fb_offset d + n\<rparr>))"

definition fixed_buffer_writer :: "fixed_buffer_stream lstream \<Rightarrow> byte list \<Rightarrow> (int, fixed_buffer_stream) lout" where
  "fixed_buffer_writer s bs =
     (let d = ls_data s in
      if fb_offset d = fb_size d then method_result s (int (length bs)) False d
      else
        let n = min (length bs) (fb_size d - fb_offset d) in
        case mem_store (fb_outbuf d) (fb_offset d) (take n bs) of
          None \<Rightarrow> None
        | Some b \<Rightarrow> method_result s (int n) False (d\<lparr>fb_outbuf := b, fb_offset := fb_offset d + n\<rparr>))"

definition fixed_buffer_rewinder :: "fixed_buffer_stream lstream \<Rightarrow> (int, fixed_buffer_stream) lout" where
  "fixed_buffer_rewinder s = method_result s 0 False ((ls_data s)\<lparr>fb_offset := 0\<rparr>)"

definition lstream_fixed_buffer :: "fixed_buffer_stream lstream_implementation" where
  "lstream_fixed_buffer = no_methods\<lparr>im_reader := Some fixed_buffer_reader, im_writer := Some fixed_buffer_writer,
     im_rewinder := Some fixed_buffer_rewinder\<rparr>"

definition no_flags :: lstr_flags where
  "no_flags = \<lparr>LSTR_READ = False, LSTR_WRITE = False, LSTR_NO_PARTIAL_CHARS = False, LSTR_NO_SQUIRREL = False,
     LSTR_IS_OPEN = False, LSTR_CLOSING = False, LSTR_ALLOW_QUIT = False,
     LSTR_PTY_FLUSHING = False, LSTR_BLOCKED_OK = False\<rparr>"

definition make_fixed_buffer_input_stream :: "byte list \<Rightarrow> fixed_buffer_stream lstream" where
  "make_fixed_buffer_input_stream buf =
     Lstream_new (no_flags\<lparr>LSTR_READ := True\<rparr>)
       \<lparr>fb_inbuf = map Some buf, fb_outbuf = [], fb_size = length buf, fb_offset = 0\<rparr>"

definition make_fixed_buffer_output_stream :: "byte cells \<Rightarrow> fixed_buffer_stream lstream" where
  "make_fixed_buffer_output_stream buf =
     Lstream_new (no_flags\<lparr>LSTR_WRITE := True\<rparr>)
       \<lparr>fb_inbuf = [], fb_outbuf = buf, fb_size = length buf, fb_offset = 0\<rparr>"

section \<open>Resizing buffers and string streams\<close>

record resizing_buffer_stream =
  rb_buf :: "byte cells"
  rb_allocked :: nat
  rb_stored :: nat

definition resizing_buffer_writer :: "resizing_buffer_stream lstream \<Rightarrow> byte list \<Rightarrow> (int, resizing_buffer_stream) lout" where
  "resizing_buffer_writer s bs =
     (let d = ls_data s; (b, n) = DO_REALLOC (rb_buf d) (rb_allocked d) (rb_stored d + length bs) in
      case mem_store b (rb_stored d) bs of
        None \<Rightarrow> None
      | Some b \<Rightarrow> method_result s (int (length bs)) False
          (d\<lparr>rb_buf := b, rb_allocked := n, rb_stored := rb_stored d + length bs\<rparr>))"

text \<open>Apart from the extents this does the same.\<close>

definition resizing_buffer_write_with_extents :: "resizing_buffer_stream lstream \<Rightarrow> byte list \<Rightarrow> (int, resizing_buffer_stream) lout" where
  "resizing_buffer_write_with_extents = resizing_buffer_writer"

definition resizing_buffer_rewinder :: "resizing_buffer_stream lstream \<Rightarrow> (int, resizing_buffer_stream) lout" where
  "resizing_buffer_rewinder s = method_result s 0 False ((ls_data s)\<lparr>rb_stored := 0\<rparr>)"

definition resizing_buffer_closer :: "resizing_buffer_stream lstream \<Rightarrow> (int, resizing_buffer_stream) lout" where
  "resizing_buffer_closer s = method_result s 0 False ((ls_data s)\<lparr>rb_buf := []\<rparr>)"

definition lstream_resizing_buffer :: "resizing_buffer_stream lstream_implementation" where
  "lstream_resizing_buffer = no_methods\<lparr>im_writer := Some resizing_buffer_writer,
     im_write_with_extents := Some resizing_buffer_write_with_extents, im_rewinder := Some resizing_buffer_rewinder,
     im_closer := Some resizing_buffer_closer\<rparr>"

definition make_resizing_buffer_output_stream :: "resizing_buffer_stream lstream" where
  "make_resizing_buffer_output_stream =
     Lstream_set_buffering LSTREAM_UNBUFFERED 0
       (Lstream_new (no_flags\<lparr>LSTR_WRITE := True\<rparr>) \<lparr>rb_buf = [], rb_allocked = 0, rb_stored = 0\<rparr>)"

text \<open>The string has as many bytes as the stream has counted.\<close>

definition resizing_buffer_to_lisp_string :: "resizing_buffer_stream lstream \<Rightarrow> (byte list, resizing_buffer_stream) lout" where
  "resizing_buffer_to_lisp_string lstr =
     lbind (Lstream_flush lstream_resizing_buffer lstr) (\<lambda>_ s.
       if ls_byte_count s < 0 then None
       else map_option (\<lambda>bs. (Inr bs, s)) (mem_bytes (rb_buf (ls_data s)) 0 (nat (ls_byte_count s))))"

definition Fmake_string_output_stream :: "resizing_buffer_stream lstream" where
  "Fmake_string_output_stream = make_resizing_buffer_output_stream"

definition Fget_output_stream_string :: "resizing_buffer_stream lstream \<Rightarrow> (byte list, resizing_buffer_stream) lout" where
  "Fget_output_stream_string stream =
     lbind (resizing_buffer_to_lisp_string stream) (\<lambda>result s.
     lbind (Lstream_rewind lstream_resizing_buffer s) (\<lambda>_ s. Some (Inr result, s)))"

definition Fclear_output :: "'d lstream_implementation \<Rightarrow> 'd lstream \<Rightarrow> (unit, 'd) lout" where
  "Fclear_output imp stream = lbind (Lstream_rewind imp stream) (\<lambda>_ s. Some (Inr (), s))"

section \<open>Dynarrs\<close>

definition dynarr_writer :: "byte dynarr lstream \<Rightarrow> byte list \<Rightarrow> (int, byte dynarr) lout" where
  "dynarr_writer s bs =
     (case Dynarr_add_many (ls_data s) (Some bs) (length bs) of
        None \<Rightarrow> None
      | Some d \<Rightarrow> method_result s (int (length bs)) False d)"

definition dynarr_rewinder :: "byte dynarr lstream \<Rightarrow> (int, byte dynarr) lout" where
  "dynarr_rewinder s = (case Dynarr_reset (ls_data s) of None \<Rightarrow> None | Some d \<Rightarrow> method_result s 0 False d)"

definition dynarr_closer :: "byte dynarr lstream \<Rightarrow> (int, byte dynarr) lout" where
  "dynarr_closer s = Some (Inr 0, s)"

definition lstream_dynarr :: "byte dynarr lstream_implementation" where
  "lstream_dynarr = no_methods\<lparr>im_writer := Some dynarr_writer, im_rewinder := Some dynarr_rewinder, im_closer := Some dynarr_closer\<rparr>"

definition make_dynarr_output_stream :: "byte dynarr \<Rightarrow> byte dynarr lstream" where
  "make_dynarr_output_stream d = Lstream_new (no_flags\<lparr>LSTR_WRITE := True\<rparr>) d"

section \<open>Lisp strings\<close>

text \<open>\<open>str_obj\<close> is the string as it is when it is read: it may have changed since the stream was made.\<close>

record lisp_string_stream =
  str_obj :: "byte list"
  str_init_offset :: nat
  str_offset :: nat
  str_end :: nat

definition make_lisp_string_input_stream :: "byte list \<Rightarrow> int \<Rightarrow> int \<Rightarrow> lisp_string_stream lstream option" where
  "make_lisp_string_input_stream string offset len =
     (let len = (if len < 0 then int (length string) - offset else len) in
      if offset \<ge> 0 \<and> len \<ge> 0 \<and> offset + len \<le> int (length string) then
        Some (Lstream_new (no_flags\<lparr>LSTR_READ := True\<rparr>)
          \<lparr>str_obj = string, str_init_offset = nat offset, str_offset = nat offset, str_end = nat (offset + len)\<rparr>)
      else None)"

text \<open>
  The byte after the end of a string is a null byte, where the search for the start of a character ends.  A negative
  size would be passed to \<open>memcpy\<close>.
\<close>

definition lisp_string_reader :: "lisp_string_stream lstream \<Rightarrow> nat \<Rightarrow> (byte list, lisp_string_stream) lout" where
  "lisp_string_reader s sz =
     (let d = ls_data s; offset = min (str_offset d) (length (str_obj d)) in
      case (if LSTR_NO_PARTIAL_CHARS (ls_flags s) then validate_ibyteptr_backward (str_obj d @ [0]) offset else Some offset) of
        None \<Rightarrow> None
      | Some offset \<Rightarrow>
          if str_end d < offset then None
          else
            let n = min sz (str_end d - offset) in
            case mem_bytes (map Some (str_obj d @ [0])) offset n of
              None \<Rightarrow> None
            | Some bs \<Rightarrow> method_result s bs False (d\<lparr>str_offset := offset + n\<rparr>))"

definition lisp_string_rewinder :: "lisp_string_stream lstream \<Rightarrow> (int, lisp_string_stream) lout" where
  "lisp_string_rewinder s =
     (let d = ls_data s; pos = (if str_init_offset d > str_end d then str_end d else str_init_offset d);
          pos = min pos (length (str_obj d)) in
      case validate_ibyteptr_backward (str_obj d @ [0]) pos of
        None \<Rightarrow> None
      | Some pos \<Rightarrow> method_result s 0 False (d\<lparr>str_offset := pos\<rparr>))"

definition lstream_lisp_string :: "lisp_string_stream lstream_implementation" where
  "lstream_lisp_string = no_methods\<lparr>im_reader := Some lisp_string_reader, im_rewinder := Some lisp_string_rewinder\<rparr>"

section \<open>File descriptors\<close>

text \<open>
  The system calls are parameters, with the state of the system as an argument: a call to write gives a number of
  bytes, or the reason of the error; a call to read gets a size, which may be negative, and gives bytes or an error.
  \<open>os_quit\<close> is the check \<open>QUIT\<close>: whether it signals, which leaves \<open>errno\<close> alone when it does not.
\<close>

datatype sys_errno = EINTR | EWOULDBLOCK | Other_errno

datatype 'a sys_result = Sys_ok 'a | Sys_error sys_errno

definition errno_would_block_p :: "sys_errno \<Rightarrow> bool" where
  "errno_would_block_p val \<longleftrightarrow> val = EWOULDBLOCK"

record 'o os_calls =
  os_write :: "'o \<Rightarrow> byte list \<Rightarrow> nat sys_result \<times> 'o"
  os_read :: "'o \<Rightarrow> int \<Rightarrow> byte list sys_result \<times> 'o"
  os_quit :: "'o \<Rightarrow> bool \<times> 'o"
  os_lseek_set :: "'o \<Rightarrow> int \<Rightarrow> int \<times> 'o"
  os_lseek_end :: "'o \<Rightarrow> int \<Rightarrow> int \<times> 'o"
  os_regular :: "'o \<Rightarrow> bool"
  os_close :: "'o \<Rightarrow> int \<times> 'o"

text \<open>A result is \<open>None\<close> when a loop never ends, a signalled error, or that of a system call.\<close>

type_synonym ('a, 'o) sys_out = "((lisp_error + 'a sys_result) \<times> 'o) option"

partial_function (option) retry_read_1 :: "'o os_calls \<Rightarrow> bool \<Rightarrow> int \<Rightarrow> 'o \<Rightarrow> (byte list, 'o) sys_out" where
  "retry_read_1 os allow_quit nbyte x =
     (let (rtnval, x) = os_read os x nbyte in
      if rtnval = Sys_error EINTR then
        let (quit, x) = (if allow_quit then os_quit os x else (False, x)) in
        if quit then Some (Inl Quit, x) else retry_read_1 os allow_quit nbyte x
      else Some (Inr rtnval, x))"

definition retry_read :: "'o os_calls \<Rightarrow> int \<Rightarrow> 'o \<Rightarrow> (byte list, 'o) sys_out" where
  "retry_read os = retry_read_1 os False"

text \<open>The check for a quit comes before the look at what the call has given.\<close>

partial_function (option) retry_write_1 :: "'o os_calls \<Rightarrow> bool \<Rightarrow> byte list \<Rightarrow> nat \<Rightarrow> 'o \<Rightarrow> (nat, 'o) sys_out" where
  "retry_write_1 os allow_quit b bytes_written x =
     (if b = [] then Some (Inr (Sys_ok bytes_written), x)
      else
        let (rtnval, x) = os_write os x b; (quit, x) = (if allow_quit then os_quit os x else (False, x)) in
        if quit then Some (Inl Quit, x)
        else case rtnval of
          Sys_error e \<Rightarrow>
            if e = EINTR then retry_write_1 os allow_quit b bytes_written x
            else Some (Inr (if bytes_written \<noteq> 0 then Sys_ok bytes_written else Sys_error e), x)
        | Sys_ok n \<Rightarrow> retry_write_1 os allow_quit (drop n b) (bytes_written + n) x)"

definition retry_write :: "'o os_calls \<Rightarrow> byte list \<Rightarrow> 'o \<Rightarrow> (nat, 'o) sys_out" where
  "retry_write os bs = retry_write_1 os False bs 0"

definition read_allowing_quit :: "'o os_calls \<Rightarrow> int \<Rightarrow> 'o \<Rightarrow> (byte list, 'o) sys_out" where
  "read_allowing_quit os n x = (let (quit, x) = os_quit os x in if quit then Some (Inl Quit, x) else retry_read_1 os True n x)"

definition write_allowing_quit :: "'o os_calls \<Rightarrow> byte list \<Rightarrow> 'o \<Rightarrow> (nat, 'o) sys_out" where
  "write_allowing_quit os bs x = (let (quit, x) = os_quit os x in if quit then Some (Inl Quit, x) else retry_write_1 os True bs 0 x)"

definition fd_read :: "'o os_calls \<Rightarrow> lstr_flags \<Rightarrow> int \<Rightarrow> 'o \<Rightarrow> (byte list, 'o) sys_out" where
  "fd_read os flags = (if LSTR_ALLOW_QUIT flags then read_allowing_quit os else retry_read os)"

definition fd_write :: "'o os_calls \<Rightarrow> lstr_flags \<Rightarrow> byte list \<Rightarrow> 'o \<Rightarrow> (nat, 'o) sys_out" where
  "fd_write os flags = (if LSTR_ALLOW_QUIT flags then write_allowing_quit os else retry_write os)"

record 'o filedesc_stream =
  fd_starting_pos :: int
  fd_current_pos :: int
  fd_end_pos :: int
  fd_pty_max_bytes :: int
  fd_chars_sans_newline :: int
  fd_eof_char :: byte
  fd_blocking_error_p :: bool
  fd_os :: 'o

text \<open>\<open>starting_pos\<close> is what \<open>lseek\<close> returns for the descriptor, \<open>-1\<close> when it cannot seek.\<close>

definition make_filedesc_stream_1 :: "'o \<Rightarrow> int \<Rightarrow> int \<Rightarrow> lstr_flags \<Rightarrow> 'o filedesc_stream lstream" where
  "make_filedesc_stream_1 filedesc starting_pos cnt flags =
     Lstream_new flags
       \<lparr>fd_starting_pos = starting_pos, fd_current_pos = max starting_pos 0,
        fd_end_pos = (if cnt < 0 then - 1 else starting_pos + cnt),
        fd_pty_max_bytes = 0, fd_chars_sans_newline = 0, fd_eof_char = 0, fd_blocking_error_p = False, fd_os = filedesc\<rparr>"

definition make_filedesc_input_stream :: "'o \<Rightarrow> int \<Rightarrow> int \<Rightarrow> lstr_flags \<Rightarrow> 'o filedesc_stream lstream" where
  "make_filedesc_input_stream filedesc starting_pos cnt flags =
     make_filedesc_stream_1 filedesc starting_pos cnt (flags\<lparr>LSTR_READ := True\<rparr>)"

definition make_filedesc_output_stream :: "'o \<Rightarrow> int \<Rightarrow> int \<Rightarrow> lstr_flags \<Rightarrow> 'o filedesc_stream lstream" where
  "make_filedesc_output_stream filedesc starting_pos cnt flags =
     make_filedesc_stream_1 filedesc starting_pos cnt (flags\<lparr>LSTR_WRITE := True\<rparr>)"

definition filedesc_reader :: "'o os_calls \<Rightarrow> 'o filedesc_stream lstream \<Rightarrow> nat \<Rightarrow> (byte list, 'o filedesc_stream) lout" where
  "filedesc_reader os s sz =
     (let d = ls_data s;
          n = (if fd_end_pos d \<ge> 0 then min (int sz) (fd_end_pos d - fd_current_pos d) else int sz) in
      case fd_read os (ls_flags s) n (fd_os d) of
        None \<Rightarrow> None
      | Some (Inl e, x) \<Rightarrow> Some (Inl (Method_error e), s\<lparr>ls_data := d\<lparr>fd_os := x\<rparr>\<rparr>)
      | Some (Inr (Sys_ok bs), x) \<Rightarrow>
          method_result s bs False (d\<lparr>fd_current_pos := fd_current_pos d + int (length bs), fd_os := x\<rparr>)
      | Some (Inr (Sys_error _), x) \<Rightarrow> method_result s [] True (d\<lparr>fd_os := x\<rparr>))"

text \<open>
  One byte, an end-of-file character or a newline: the new value of \<open>retval\<close>, whether to return at once and whether
  an error occurred, with the data.
\<close>

definition filedesc_write_single_byte ::
    "'o os_calls \<Rightarrow> lstr_flags \<Rightarrow> 'o filedesc_stream \<Rightarrow> byte \<Rightarrow> bool \<Rightarrow> nat \<Rightarrow>
      ((lisp_error + nat \<times> bool \<times> bool) \<times> 'o filedesc_stream) option" where
  "filedesc_write_single_byte os flags d byt real_byte retval =
     (case fd_write os flags [byt] (fd_os d) of
        None \<Rightarrow> None
      | Some (Inl e, x) \<Rightarrow> Some (Inl e, d\<lparr>fd_os := x\<rparr>)
      | Some (Inr (Sys_ok n), x) \<Rightarrow>
          if n > 0
          then Some (Inr (if real_byte then retval + 1 else retval, False, False), d\<lparr>fd_os := x, fd_chars_sans_newline := 0\<rparr>)
          else Some (Inr (retval, False, False), d\<lparr>fd_os := x\<rparr>)
      | Some (Inr (Sys_error errno), x) \<Rightarrow>
          if retval = 0 then
            (if errno_would_block_p errno \<and> LSTR_BLOCKED_OK flags
             then Some (Inr (retval, True, False), d\<lparr>fd_os := x, fd_blocking_error_p := True\<rparr>)
             else Some (Inr (retval, True, True), d\<lparr>fd_os := x\<rparr>))
          else Some (Inr (retval, True, False), d\<lparr>fd_os := x\<rparr>))"

text \<open>On a pty, at most one line is sent at once and a long line is broken by end-of-file characters.\<close>

definition pty_size :: "'o filedesc_stream \<Rightarrow> byte list \<Rightarrow> int \<times> bool" where
  "pty_size d bs =
     (let line = length (takeWhile (\<lambda>b. b \<noteq> 0x0A) bs); left = fd_pty_max_bytes d - fd_chars_sans_newline d in
      if int line \<ge> left then (left, False) else (int line, 0x0A \<in> set bs))"

text \<open>The end of a write after \<open>retval\<close> bytes: what a pty needs, an end-of-file character and a newline.\<close>

definition filedesc_writer_newline ::
    "'o os_calls \<Rightarrow> 'o filedesc_stream lstream \<Rightarrow> bool \<Rightarrow> nat \<Rightarrow> 'o filedesc_stream \<Rightarrow> (int, 'o filedesc_stream) lout" where
  "filedesc_writer_newline os s need_newline retval d =
     (if need_newline then
        case filedesc_write_single_byte os (ls_flags s) d 0x0A True retval of
          None \<Rightarrow> None
        | Some (Inl e, d) \<Rightarrow> Some (Inl (Method_error e), s\<lparr>ls_data := d\<rparr>)
        | Some (Inr (retval, _, err), d) \<Rightarrow> method_result s (int retval) err d
      else method_result s (int retval) False d)"

definition filedesc_writer_pty ::
    "'o os_calls \<Rightarrow> 'o filedesc_stream lstream \<Rightarrow> bool \<Rightarrow> nat \<Rightarrow> 'o filedesc_stream \<Rightarrow> (int, 'o filedesc_stream) lout" where
  "filedesc_writer_pty os s need_newline retval d =
     (let pty = LSTR_PTY_FLUSHING (ls_flags s);
          d = (if pty then d\<lparr>fd_chars_sans_newline := fd_chars_sans_newline d + int retval\<rparr> else d) in
      if pty \<and> fd_chars_sans_newline d \<ge> fd_pty_max_bytes d then
        case filedesc_write_single_byte os (ls_flags s) d (fd_eof_char d) False retval of
          None \<Rightarrow> None
        | Some (Inl e, d) \<Rightarrow> Some (Inl (Method_error e), s\<lparr>ls_data := d\<rparr>)
        | Some (Inr (retval, return_now, err), d) \<Rightarrow>
            if return_now then method_result s (int retval) err d
            else filedesc_writer_newline os s need_newline retval d
      else filedesc_writer_newline os s need_newline retval d)"

definition filedesc_writer :: "'o os_calls \<Rightarrow> 'o filedesc_stream lstream \<Rightarrow> byte list \<Rightarrow> (int, 'o filedesc_stream) lout" where
  "filedesc_writer os s bs =
     (let d = ls_data s;
          (n, need_newline) = (if LSTR_PTY_FLUSHING (ls_flags s) then pty_size d bs else (int (length bs), False)) in
      case (if n > 0 then fd_write os (ls_flags s) (take (nat n) bs) (fd_os d) else Some (Inr (Sys_ok 0), fd_os d)) of
        None \<Rightarrow> None
      | Some (Inl e, x) \<Rightarrow> Some (Inl (Method_error e), s\<lparr>ls_data := d\<lparr>fd_os := x\<rparr>\<rparr>)
      | Some (Inr (Sys_error errno), x) \<Rightarrow>
          if errno_would_block_p errno \<and> LSTR_BLOCKED_OK (ls_flags s)
          then method_result s 0 False (d\<lparr>fd_os := x, fd_blocking_error_p := True\<rparr>)
          else method_result s 0 True (d\<lparr>fd_os := x, fd_blocking_error_p := False\<rparr>)
      | Some (Inr (Sys_ok retval), x) \<Rightarrow>
          filedesc_writer_pty os s need_newline retval (d\<lparr>fd_os := x, fd_blocking_error_p := False\<rparr>))"

definition filedesc_rewinder :: "'o os_calls \<Rightarrow> 'o filedesc_stream lstream \<Rightarrow> (int, 'o filedesc_stream) lout" where
  "filedesc_rewinder os s =
     (let d = ls_data s in
      if fd_starting_pos d < 0 then method_result s (- 1) False d
      else case os_lseek_set os (fd_os d) (fd_starting_pos d) of (r, x) \<Rightarrow>
        if r = - 1 then method_result s (- 1) False (d\<lparr>fd_os := x\<rparr>)
        else method_result s 0 False (d\<lparr>fd_os := x, fd_current_pos := fd_starting_pos d\<rparr>))"

text \<open>\<open>os_regular\<close>: \<open>fstat\<close> succeeds and tells a regular file.\<close>

definition filedesc_seekable_p :: "'o os_calls \<Rightarrow> 'o filedesc_stream lstream \<Rightarrow> bool" where
  "filedesc_seekable_p os s =
     (let d = ls_data s in if fd_starting_pos d < 0 then False else os_regular os (fd_os d))"

definition filedesc_seek_from_end :: "'o os_calls \<Rightarrow> 'o filedesc_stream lstream \<Rightarrow> int \<Rightarrow> (bool, 'o filedesc_stream) lout" where
  "filedesc_seek_from_end os s offset =
     (let d = ls_data s in
      if offset \<ge> 0 then None
      else
        let (lsought, x) =
          (if fd_end_pos d \<noteq> - 1 then
             (if fd_end_pos d + offset < fd_starting_pos d then os_lseek_set os (fd_os d) (fd_starting_pos d)
              else os_lseek_set os (fd_os d) (offset + fd_end_pos d))
           else
             let (l, x) = os_lseek_end os (fd_os d) offset in
             if fd_starting_pos d > 0 \<and> l < fd_starting_pos d then os_lseek_set os x (fd_starting_pos d) else (l, x)) in
        if lsought = - 1 then method_result s False False (d\<lparr>fd_os := x\<rparr>)
        else method_result s True False (d\<lparr>fd_os := x, fd_current_pos := lsought\<rparr>))"

definition filedesc_closer :: "'o os_calls \<Rightarrow> 'o filedesc_stream lstream \<Rightarrow> (int, 'o filedesc_stream) lout" where
  "filedesc_closer os s =
     (let d = ls_data s in
      if LSTR_CLOSING (ls_flags s) then (case os_close os (fd_os d) of (r, x) \<Rightarrow> method_result s r False (d\<lparr>fd_os := x\<rparr>))
      else method_result s 0 False d)"

definition filedesc_was_blocked_p :: "'o filedesc_stream lstream \<Rightarrow> bool" where
  "filedesc_was_blocked_p s = fd_blocking_error_p (ls_data s)"

definition filedesc_stream_set_pty_flushing :: "int \<Rightarrow> byte \<Rightarrow> 'o filedesc_stream lstream \<Rightarrow> 'o filedesc_stream lstream" where
  "filedesc_stream_set_pty_flushing pty_max_bytes eof_char s =
     s\<lparr>ls_data := (ls_data s)\<lparr>fd_pty_max_bytes := pty_max_bytes, fd_eof_char := eof_char\<rparr>,
       ls_flags := (ls_flags s)\<lparr>LSTR_PTY_FLUSHING := True\<rparr>\<rparr>"

definition lstream_filedesc :: "'o os_calls \<Rightarrow> 'o filedesc_stream lstream_implementation" where
  "lstream_filedesc os = no_methods\<lparr>im_reader := Some (filedesc_reader os), im_writer := Some (filedesc_writer os),
     im_rewinder := Some (filedesc_rewinder os), im_seekable_p := Some (filedesc_seekable_p os),
     im_seek_from_end := Some (filedesc_seek_from_end os), im_closer := Some (filedesc_closer os)\<rparr>"

end
