(* ===== verification/Lstream_Read.thy ===== *)
theory Lstream_Read
  imports Lstream_Types
begin

text \<open>
  Reading from streams.  The locale \<open>lstream_source\<close> is the contract of an implementation for input: its reader gives
  the next bytes of what its data still hold.  What is still to come from a stream is then the unget
  buffer, the input buffer and the source: a read takes bytes from its start and an unread
  puts them back.
\<close>

section \<open>The buffers\<close>

definition unget_holds :: "'d lstream \<Rightarrow> byte list \<Rightarrow> bool" where
  "unget_holds s u \<longleftrightarrow> buf_holds (ls_unget_buffer s) (ls_unget_buffer_size s) (ls_unget_buffer_ind s) (rev u)"

definition in_holds :: "'d lstream \<Rightarrow> byte list \<Rightarrow> bool" where
  "in_holds s b \<longleftrightarrow> length (ls_in_buffer s) = ls_in_buffer_size s \<and>
     (\<exists>xs ys. ls_in_buffer s = xs @ map Some b @ ys \<and> length xs = ls_in_buffer_ind s \<and>
       ls_in_buffer_current s = ls_in_buffer_ind s + length b)"

text \<open>What reading leaves alone.\<close>

definition read_view :: "'d lstream \<Rightarrow> lstream_buffering \<times> nat \<times> lstr_flags \<times> byte cells \<times> nat \<times> nat" where
  "read_view s = (ls_buffering s, ls_buffering_size s, ls_flags s, ls_out_buffer s, ls_out_buffer_size s, ls_out_buffer_ind s)"

lemma read_view_upd [simp]:
  "read_view (s\<lparr>ls_in_buffer := b\<rparr>) = read_view s" "read_view (s\<lparr>ls_in_buffer_size := n\<rparr>) = read_view s"
  "read_view (s\<lparr>ls_in_buffer_ind := n\<rparr>) = read_view s" "read_view (s\<lparr>ls_in_buffer_current := n\<rparr>) = read_view s"
  "read_view (s\<lparr>ls_unget_buffer := b\<rparr>) = read_view s" "read_view (s\<lparr>ls_unget_buffer_size := n\<rparr>) = read_view s"
  "read_view (s\<lparr>ls_unget_buffer_ind := n\<rparr>) = read_view s" "read_view (s\<lparr>ls_unget_character_count := i\<rparr>) = read_view s"
  "read_view (s\<lparr>ls_byte_count := i\<rparr>) = read_view s" "read_view (s\<lparr>ls_error_occurred_p := e\<rparr>) = read_view s"
  "read_view (s\<lparr>ls_public_error_occurred_p := e\<rparr>) = read_view s" "read_view (s\<lparr>ls_data := d\<rparr>) = read_view s"
  by (simp_all add: read_view_def)

lemma read_view_frame: "meth_frame s s' \<Longrightarrow> read_view s' = read_view s"
  by (simp add: read_view_def meth_frame_sel)

lemma read_view_sel:
  assumes "read_view s' = read_view s"
  shows "ls_flags s' = ls_flags s" "ls_buffering s' = ls_buffering s" "ls_buffering_size s' = ls_buffering_size s"
  using assms by (simp_all add: read_view_def)

lemma holds_upd [simp]:
  "unget_holds (s\<lparr>ls_in_buffer := b\<rparr>) u = unget_holds s u" "unget_holds (s\<lparr>ls_in_buffer_size := n\<rparr>) u = unget_holds s u"
  "unget_holds (s\<lparr>ls_in_buffer_ind := n\<rparr>) u = unget_holds s u" "unget_holds (s\<lparr>ls_in_buffer_current := n\<rparr>) u = unget_holds s u"
  "unget_holds (s\<lparr>ls_byte_count := i\<rparr>) u = unget_holds s u" "unget_holds (s\<lparr>ls_data := d\<rparr>) u = unget_holds s u"
  "unget_holds (s\<lparr>ls_error_occurred_p := e\<rparr>) u = unget_holds s u" "unget_holds (s\<lparr>ls_public_error_occurred_p := e\<rparr>) u = unget_holds s u"
  "unget_holds (s\<lparr>ls_unget_character_count := i\<rparr>) u = unget_holds s u"
  "in_holds (s\<lparr>ls_unget_buffer := m\<rparr>) b' = in_holds s b'" "in_holds (s\<lparr>ls_unget_buffer_size := n\<rparr>) b' = in_holds s b'"
  "in_holds (s\<lparr>ls_unget_buffer_ind := n\<rparr>) b' = in_holds s b'" "in_holds (s\<lparr>ls_unget_character_count := i\<rparr>) b' = in_holds s b'"
  "in_holds (s\<lparr>ls_byte_count := i\<rparr>) b' = in_holds s b'" "in_holds (s\<lparr>ls_data := d\<rparr>) b' = in_holds s b'"
  "in_holds (s\<lparr>ls_error_occurred_p := e\<rparr>) b' = in_holds s b'" "in_holds (s\<lparr>ls_public_error_occurred_p := e\<rparr>) b' = in_holds s b'"
  by (simp_all add: unget_holds_def in_holds_def)

lemma holds_frame: "meth_frame s s' \<Longrightarrow> unget_holds s' u = unget_holds s u" "meth_frame s s' \<Longrightarrow> in_holds s' b = in_holds s b"
  by (simp_all add: unget_holds_def in_holds_def meth_frame_sel)

lemma in_holds_avail: "in_holds s b \<Longrightarrow> in_avail s = length b"
  by (auto simp: in_holds_def in_avail_def)

lemma in_holds_bytes:
  assumes "in_holds s b" "k \<le> length b"
  shows "mem_bytes (ls_in_buffer s) (ls_in_buffer_ind s) k = Some (take k b)"
    "in_holds (s\<lparr>ls_in_buffer_ind := ls_in_buffer_ind s + k\<rparr>) (drop k b)"
proof -
  obtain xs ys where m: "ls_in_buffer s = xs @ map Some b @ ys" "length xs = ls_in_buffer_ind s"
    "ls_in_buffer_current s = ls_in_buffer_ind s + length b" "length (ls_in_buffer s) = ls_in_buffer_size s"
    using assms(1) by (auto simp: in_holds_def)
  have c: "b = take k b @ drop k b" "length (take k b) = k" using assms(2) by simp_all
  have l: "ls_in_buffer s = xs @ map Some (take k b) @ (map Some (drop k b) @ ys)"
    unfolding m(1) by (metis append.assoc append_take_drop_id map_append)
  then show "mem_bytes (ls_in_buffer s) (ls_in_buffer_ind s) k = Some (take k b)"
    using mem_bytes_at [of xs "take k b"] m(2) c(2) by simp
  have "ls_in_buffer s = (xs @ map Some (take k b)) @ map Some (drop k b) @ ys" using l by simp
  moreover have "length (xs @ map Some (take k b)) = ls_in_buffer_ind s + k" using m(2) c(2) by simp
  ultimately show "in_holds (s\<lparr>ls_in_buffer_ind := ls_in_buffer_ind s + k\<rparr>) (drop k b)"
    unfolding in_holds_def using m(3,4) assms(2) by (intro conjI exI [of _ "xs @ map Some (take k b)"] exI [of _ ys]) auto
qed

lemma in_holds_realloc:
  assumes "in_holds s b" "DO_REALLOC (ls_in_buffer s) (ls_in_buffer_size s) needed = (m, n)"
  shows "in_holds (s\<lparr>ls_in_buffer := m, ls_in_buffer_size := n\<rparr>) b" "length m = n" "needed \<le> n"
proof -
  have "length (ls_in_buffer s) = ls_in_buffer_size s" using assms(1) by (simp add: in_holds_def)
  note r = DO_REALLOC_ok [OF assms(2) this]
  show "length m = n" "needed \<le> n" by (rule r)+
  from r(4) obtain zs where "m = ls_in_buffer s @ zs" by blast
  then show "in_holds (s\<lparr>ls_in_buffer := m, ls_in_buffer_size := n\<rparr>) b" using assms(1) r(1) by (fastforce simp: in_holds_def)
qed

lemma in_holds_fill:
  assumes "length (ls_in_buffer s) = ls_in_buffer_size s" "length bs \<le> ls_in_buffer_size s"
  shows "\<exists>m. mem_store (ls_in_buffer s) 0 bs = Some m \<and>
    in_holds (s\<lparr>ls_in_buffer := m, ls_in_buffer_current := length bs, ls_in_buffer_ind := 0\<rparr>) bs"
proof -
  have "buf_holds (ls_in_buffer s) (ls_in_buffer_size s) 0 []" using assms(1) by (simp add: buf_holds_def)
  from buf_holds_store [OF this] assms(2) obtain m where
    "mem_store (ls_in_buffer s) 0 bs = Some m" "buf_holds m (ls_in_buffer_size s) (length bs) bs" by auto
  then show ?thesis by (auto simp: in_holds_def buf_holds_def)
qed

text \<open>Pushing back and taking back.\<close>

lemma Lstream_unread_ok:
  assumes "unget_holds s u"
  shows "\<exists>m n. Lstream_unread bs s = Some (s\<lparr>ls_unget_buffer := m, ls_unget_buffer_size := n,
      ls_unget_buffer_ind := ls_unget_buffer_ind s + length bs, ls_byte_count := ls_byte_count s - int (length bs),
      ls_unget_character_count := ls_unget_character_count s + int (length (filter ibyte_first_byte_p bs))\<rparr>) \<and>
    buf_holds m n (ls_unget_buffer_ind s + length bs) (rev (bs @ u))"
proof -
  obtain b n where r: "DO_REALLOC (ls_unget_buffer s) (ls_unget_buffer_size s) (ls_unget_buffer_ind s + length bs) = (b, n)" by fastforce
  note h = buf_holds_realloc [OF assms [unfolded unget_holds_def] r]
  have "ls_unget_buffer_ind s + length (rev bs) \<le> n" using h(2) by simp
  from buf_holds_store [OF h(1) this] obtain m where
    "mem_store b (ls_unget_buffer_ind s) (rev bs) = Some m" "buf_holds m n (ls_unget_buffer_ind s + length (rev bs)) (rev u @ rev bs)" by blast
  then show ?thesis using r by (intro exI [of _ m] exI [of _ n]) (simp add: Lstream_unread_def)
qed

lemma Lstream_unread_holds:
  assumes "unget_holds s u"
  shows "\<exists>s'. Lstream_unread bs s = Some s' \<and> unget_holds s' (bs @ u) \<and> (\<forall>b. in_holds s' b = in_holds s b) \<and>
    read_view s' = read_view s \<and> ls_data s' = ls_data s \<and> ls_byte_count s' = ls_byte_count s - int (length bs) \<and>
    ls_error_occurred_p s' = ls_error_occurred_p s"
  using Lstream_unread_ok [OF assms, of bs] by (auto simp: unget_holds_def)

lemma take_ungot_ok:
  assumes "unget_holds s u"
  shows "\<exists>s'. take_ungot n s = Some (take n u, s') \<and> unget_holds s' (drop n u) \<and> (\<forall>b. in_holds s' b = in_holds s b) \<and>
    read_view s' = read_view s \<and> ls_data s' = ls_data s \<and> ls_byte_count s' = ls_byte_count s + int (length (take n u)) \<and>
    ls_error_occurred_p s' = ls_error_occurred_p s"
proof -
  let ?m = "min n (length u)"
  obtain ys where h: "ls_unget_buffer s = map Some (rev u) @ ys" "ls_unget_buffer_ind s = length u"
    "length (ls_unget_buffer s) = ls_unget_buffer_size s" using assms by (auto simp: unget_holds_def buf_holds_def)
  have u: "rev u = rev (drop n u) @ rev (take n u)" by (metis append_take_drop_id rev_append)
  have mem: "ls_unget_buffer s = map Some (rev (drop n u)) @ map Some (rev (take n u)) @ ys" unfolding h(1) u by simp
  have ind: "ls_unget_buffer_ind s - ?m = length (map Some (rev (drop n u)))" "?m = length (rev (take n u))" using h(2) by simp_all
  have "mem_bytes (ls_unget_buffer s) (ls_unget_buffer_ind s - ?m) ?m = Some (rev (take n u))"
    using mem_bytes_at [of "map Some (rev (drop n u))" "rev (take n u)" ys] unfolding ind(1) mem using ind(2) by simp
  then have t: "take_ungot n s = Some (take n u, s\<lparr>ls_unget_buffer_ind := ls_unget_buffer_ind s - ?m,
      ls_byte_count := ls_byte_count s + int ?m\<rparr>)" using h(2) by (simp add: take_ungot_def Let_def)
  have "buf_holds (ls_unget_buffer s) (ls_unget_buffer_size s) (ls_unget_buffer_ind s - ?m) (rev (drop n u))"
    using mem ind h(3) by (auto simp: buf_holds_def)
  then show ?thesis using t by (auto simp: unget_holds_def min.commute)
qed


text \<open>An unbuffered stream does not look into its input buffer.\<close>

definition direct :: "'d lstream \<Rightarrow> byte list \<Rightarrow> bool" where
  "direct s b \<longleftrightarrow> (ls_buffering s = LSTREAM_UNBUFFERED \<longrightarrow> b = [])"

text \<open>What is still to come from a stream.\<close>

definition pending :: "('d \<Rightarrow> byte list) \<Rightarrow> 'd lstream \<Rightarrow> byte list \<Rightarrow> bool" where
  "pending source s T \<longleftrightarrow> (\<exists>u b. unget_holds s u \<and> in_holds s b \<and> direct s b \<and> T = u @ b @ source (ls_data s))"

section \<open>The contract of an implementation\<close>

locale lstream_source =
  fixes imp :: "'d lstream_implementation"
    and reader :: "'d lstream \<Rightarrow> nat \<Rightarrow> (byte list, 'd) lout"
    and source :: "'d \<Rightarrow> byte list"
    and valid :: "lstr_flags \<Rightarrow> 'd \<Rightarrow> bool"
    and prompt :: bool
  assumes reader: "im_reader imp = Some reader"
    and read_law: "valid (ls_flags s) (ls_data s) \<Longrightarrow> \<not> ls_error_occurred_p s \<Longrightarrow> 0 < n \<Longrightarrow>
      \<exists>bs e d. reader s n = Some (Inr bs, s\<lparr>ls_error_occurred_p := e, ls_data := d\<rparr>) \<and> length bs \<le> n \<and>
        source (ls_data s) = bs @ source d \<and> valid (ls_flags s) d \<and>
        (prompt \<longrightarrow> \<not> e \<and> (bs = [] \<longrightarrow> source (ls_data s) = []))"
begin

definition readable :: "'d lstream \<Rightarrow> bool" where
  "readable s \<longleftrightarrow> LSTR_IS_OPEN (ls_flags s) \<and> LSTR_READ (ls_flags s) \<and> valid (ls_flags s) (ls_data s)"

text \<open>The stream in which \<open>T\<close> is still to come.\<close>

definition in_state :: "'d lstream \<Rightarrow> byte list \<Rightarrow> bool" where
  "in_state s T \<longleftrightarrow> readable s \<and> pending source s T"

lemma Lstream_raw_read_ok:
  assumes "readable s" "0 < n"
  shows "\<exists>r s'. Lstream_raw_read imp n s = Some (Inr r, s') \<and> meth_frame s s' \<and> readable s' \<and>
    length (case r of None \<Rightarrow> [] | Some bs \<Rightarrow> bs) \<le> n \<and>
    source (ls_data s) = (case r of None \<Rightarrow> [] | Some bs \<Rightarrow> bs) @ source (ls_data s') \<and>
    (prompt \<longrightarrow> (\<exists>bs. r = Some bs \<and> (bs = [] \<longrightarrow> source (ls_data s) = [])))"
proof -
  let ?s0 = "s\<lparr>ls_error_occurred_p := False\<rparr>"
  have "\<exists>bs e d. reader ?s0 n = Some (Inr bs, ?s0\<lparr>ls_error_occurred_p := e, ls_data := d\<rparr>) \<and> length bs \<le> n \<and>
      source (ls_data ?s0) = bs @ source d \<and> valid (ls_flags ?s0) d \<and>
      (prompt \<longrightarrow> \<not> e \<and> (bs = [] \<longrightarrow> source (ls_data ?s0) = []))"
    by (intro read_law) (use assms in \<open>simp_all add: readable_def\<close>)
  then obtain bs e d where r: "reader ?s0 n = Some (Inr bs, ?s0\<lparr>ls_error_occurred_p := e, ls_data := d\<rparr>)" "length bs \<le> n"
    "source (ls_data ?s0) = bs @ source d" "valid (ls_flags ?s0) d" "prompt \<longrightarrow> \<not> e \<and> (bs = [] \<longrightarrow> source (ls_data ?s0) = [])" by blast
  let ?s2 = "s\<lparr>ls_error_occurred_p := e, ls_public_error_occurred_p := (if e then True else ls_public_error_occurred_p s), ls_data := d\<rparr>"
  let ?r = "if bs = [] \<and> e then None else Some bs"
  have "Lstream_raw_read imp n s = Some (Inr ?r, ?s2)"
    using assms r(1,2) by (auto simp: Lstream_raw_read_def readable_def reader lbind_def Let_def)
  moreover have "meth_frame s ?s2" by (rule meth_frameI)
  moreover have "readable ?s2" using assms(1) r(4) by (simp add: readable_def)
  moreover have "(case ?r of None \<Rightarrow> [] | Some bs \<Rightarrow> bs) = bs" by simp
  ultimately show ?thesis using r(2,3,5) by (intro exI [of _ ?r] exI [of _ ?s2]) auto
qed

lemma Lstream_read_more_ok:
  assumes "readable s" "in_holds s []"
  shows "\<exists>r s' b. Lstream_read_more imp s = Some (Inr r, s') \<and> in_holds s' b \<and> readable s' \<and> read_view s' = read_view s \<and>
    (\<forall>u. unget_holds s' u = unget_holds s u) \<and> ls_byte_count s' = ls_byte_count s \<and>
    source (ls_data s) = b @ source (ls_data s') \<and> (r = None \<or> r = Some (length b)) \<and> (r = None \<longrightarrow> b = []) \<and>
    (prompt \<longrightarrow> r \<noteq> None \<and> (b = [] \<longrightarrow> source (ls_data s) = []))"
proof -
  let ?k = "max 1 (ls_buffering_size s)"
  obtain m n where r: "DO_REALLOC (ls_in_buffer s) (ls_in_buffer_size s) ?k = (m, n)" by fastforce
  let ?s1 = "s\<lparr>ls_in_buffer := m, ls_in_buffer_size := n\<rparr>"
  note h = in_holds_realloc [OF assms(2) r]
  have "readable ?s1" "0 < ?k" using assms(1) by (simp_all add: readable_def)
  from Lstream_raw_read_ok [OF this] obtain r s2 where 1: "Lstream_raw_read imp ?k ?s1 = Some (Inr r, s2)" "meth_frame ?s1 s2" "readable s2"
    "length (case r of None \<Rightarrow> [] | Some bs \<Rightarrow> bs) \<le> ?k"
    "source (ls_data ?s1) = (case r of None \<Rightarrow> [] | Some bs \<Rightarrow> bs) @ source (ls_data s2)"
    "prompt \<longrightarrow> (\<exists>bs. r = Some bs \<and> (bs = [] \<longrightarrow> source (ls_data ?s1) = []))"
    by (elim exE conjE) (rule that; assumption)
  define bs where "bs = (case r of None \<Rightarrow> [] | Some bs \<Rightarrow> bs)"
  note f = meth_frame_sel [OF 1(2)]
  have "length bs \<le> n" using order_trans [OF 1(4) h(3)] by (simp add: bs_def)
  then have "length (ls_in_buffer s2) = ls_in_buffer_size s2" "length bs \<le> ls_in_buffer_size s2" using f h(2) by simp_all
  from in_holds_fill [OF this] obtain b where b: "mem_store (ls_in_buffer s2) 0 bs = Some b"
    "in_holds (s2\<lparr>ls_in_buffer := b, ls_in_buffer_current := length bs, ls_in_buffer_ind := 0\<rparr>) bs" by blast
  let ?s3 = "s2\<lparr>ls_in_buffer := b, ls_in_buffer_current := length bs, ls_in_buffer_ind := 0\<rparr>"
  have "Lstream_read_more imp s = Some (Inr (map_option length r), ?s3)"
    using r 1(1) b(1) by (simp add: Lstream_read_more_def lbind_def bs_def Let_def)
  moreover have "readable ?s3" using 1(3) by (simp add: readable_def)
  moreover have "read_view ?s3 = read_view s" using read_view_frame [OF 1(2)] by simp
  moreover have "unget_holds ?s3 u = unget_holds s u" for u using holds_frame(1) [OF 1(2)] by simp
  moreover have "source (ls_data s) = bs @ source (ls_data ?s3)" using 1(5) by (simp add: bs_def)
  moreover have "map_option length r = None \<or> map_option length r = Some (length bs)" "map_option length r = None \<longrightarrow> bs = []"
    by (simp_all add: bs_def split: option.splits)
  moreover have "prompt \<longrightarrow> map_option length r \<noteq> None \<and> (bs = [] \<longrightarrow> source (ls_data s) = [])" using 1(6) by (auto simp: bs_def)
  ultimately show ?thesis using b(2) f by (intro exI [of _ "map_option length r"] exI [of _ ?s3] exI [of _ bs]) simp
qed

definition read_result :: "'d lstream \<Rightarrow> byte list \<Rightarrow> nat \<Rightarrow> byte list \<Rightarrow> bool \<Rightarrow> 'd lstream \<Rightarrow> byte list \<Rightarrow> bool" where
  "read_result s b sz bs err s' b' \<longleftrightarrow> length bs \<le> sz \<and> b @ source (ls_data s) = bs @ b' @ source (ls_data s') \<and> in_holds s' b' \<and> direct s' b' \<and>
     readable s' \<and> read_view s' = read_view s \<and> (\<forall>u. unget_holds s' u = unget_holds s u) \<and>
     ls_byte_count s' = ls_byte_count s + int (length bs) \<and>
     (prompt \<longrightarrow> \<not> err \<and> (length bs < sz \<longrightarrow> b' @ source (ls_data s') = []))"

lemma read_result_trans:
  assumes "read_result s b k bs False s1 b1" "length bs = k" "k \<le> sz" "read_result s1 b1 (sz - k) cs err s2 b2"
  shows "read_result s b sz (bs @ cs) err s2 b2"
  using assms by (auto simp: read_result_def)


lemma read_loop_ok:
  assumes "readable s" "in_holds s b" "direct s b"
  shows "\<exists>bs err s' b'. read_loop imp sz acc s = Some (Inr (acc @ bs, err), s') \<and> read_result s b sz bs err s' b'"
  using assms
proof (induction "2 * sz + (if in_avail s = 0 then 1 else 0)" arbitrary: sz acc s b rule: less_induct)
  case less
  show ?case
  proof (cases "sz = 0")
    case True
    then have "read_loop imp sz acc s = Some (Inr (acc @ [], False), s)" by (subst read_loop.simps) simp
    moreover have "read_result s b sz [] False s b" using True less.prems by (simp add: read_result_def)
    ultimately show ?thesis by blast
  next
    case sz: False
    show ?thesis
    proof (cases "ls_buffering s = LSTREAM_UNBUFFERED")
      case True
      have "0 < sz" using sz by simp
      from Lstream_raw_read_ok [OF less.prems(1) this] obtain r s1 where
        1: "Lstream_raw_read imp sz s = Some (Inr r, s1)" "meth_frame s s1" "readable s1"
        "length (case r of None \<Rightarrow> [] | Some bs \<Rightarrow> bs) \<le> sz"
        "source (ls_data s) = (case r of None \<Rightarrow> [] | Some bs \<Rightarrow> bs) @ source (ls_data s1)"
        "prompt \<longrightarrow> (\<exists>bs. r = Some bs \<and> (bs = [] \<longrightarrow> source (ls_data s) = []))"
        by (elim exE conjE) (rule that; assumption)
      have b: "b = []" using less.prems(3) True by (simp add: direct_def)
      have h: "in_holds s1 []" "read_view s1 = read_view s" "\<And>u. unget_holds s1 u = unget_holds s u" "ls_byte_count s1 = ls_byte_count s"
        using less.prems(2) b holds_frame [OF 1(2)] read_view_frame [OF 1(2)] meth_frame_sel [OF 1(2)] by simp_all
      consider "r = None" | "r = Some []" | c cs where "r = Some (c # cs)" by (cases r; cases "the r") auto
      then show ?thesis
      proof cases
        case 1
        then have "read_loop imp sz acc s = Some (Inr (acc @ [], True), s1)"
          using sz True \<open>Lstream_raw_read imp sz s = Some (Inr r, s1)\<close> by (subst read_loop.simps) simp
        moreover have "read_result s b sz [] True s1 []" unfolding read_result_def direct_def using 1 b h \<open>readable s1\<close>
            \<open>source (ls_data s) = _\<close> \<open>prompt \<longrightarrow> _\<close> by simp
        ultimately show ?thesis by blast
      next
        case 2
        then have "read_loop imp sz acc s = Some (Inr (acc @ [], False), s1)"
          using sz True \<open>Lstream_raw_read imp sz s = Some (Inr r, s1)\<close> by (subst read_loop.simps) simp
        moreover have "read_result s b sz [] False s1 []" unfolding read_result_def direct_def using 2 b h \<open>readable s1\<close>
            \<open>source (ls_data s) = _\<close> \<open>prompt \<longrightarrow> _\<close> by auto
        ultimately show ?thesis by blast
      next
        case (3 c cs)
        let ?bs = "c # cs" and ?s2 = "s1\<lparr>ls_byte_count := ls_byte_count s1 + int (length (c # cs))\<rparr>"
        have l: "length ?bs \<le> sz" "source (ls_data s) = ?bs @ source (ls_data s1)" using 1(4,5) 3 by simp_all
        have lp: "read_loop imp sz acc s = read_loop imp (sz - length ?bs) (acc @ ?bs) ?s2"
          using sz True 1(1) 3 by (subst read_loop.simps) simp
        have "2 * (sz - length ?bs) + (if in_avail ?s2 = 0 then 1 else 0) < 2 * sz + (if in_avail s = 0 then 1 else 0)"
          by (rule read_loop_decreases) (use sz in simp_all)
        moreover have st: "readable ?s2" "in_holds ?s2 []" "direct ?s2 []" using 1(3) h by (simp_all add: readable_def direct_def)
        ultimately obtain ds err s3 b3 where
          2: "read_loop imp (sz - length ?bs) (acc @ ?bs) ?s2 = Some (Inr ((acc @ ?bs) @ ds, err), s3)"
            "read_result ?s2 [] (sz - length ?bs) ds err s3 b3"
          using less.hyps by blast
        have "read_result s b (length ?bs) ?bs False ?s2 []"
          using b h l(2) st by (simp add: read_result_def)
        from read_result_trans [OF this refl l(1) 2(2)] have "read_result s b sz (?bs @ ds) err s3 b3" .
        then show ?thesis using lp 2(1) by (intro exI [of _ "?bs @ ds"] exI [of _ err] exI [of _ s3] exI [of _ b3]) simp
      qed
    next
      case False
      let ?k = "min sz (in_avail s)"
      have av: "in_avail s = length b" by (rule in_holds_avail [OF less.prems(2)])
      have kb: "?k \<le> length b" using av by simp
      note t = in_holds_bytes [OF less.prems(2) kb]
      let ?bs = "take ?k b" and ?s1 = "s\<lparr>ls_in_buffer_ind := ls_in_buffer_ind s + ?k, ls_byte_count := ls_byte_count s + int ?k\<rparr>"
      have lbs: "length ?bs = ?k" using kb by simp
      have h1: "in_holds ?s1 (drop ?k b)" "readable ?s1" using t(2) less.prems(1) by (simp_all add: readable_def in_holds_def)
      have dir: "direct s' c" if "read_view s' = read_view s" for s' :: "'d lstream" and c using that False read_view_sel(2) [OF that] by (simp add: direct_def)
      have cat: "b @ source (ls_data s) = ?bs @ drop ?k b @ source (ls_data s)" by (metis append.assoc append_take_drop_id)
      show ?thesis
      proof (cases "sz - ?k = 0")
        case True
        then have "read_loop imp sz acc s = Some (Inr (acc @ ?bs, False), ?s1)"
          using sz False t(1) by (subst read_loop.simps) (simp add: Let_def)
        moreover have "read_result s b sz ?bs False ?s1 (drop ?k b)"
          using h1 dir cat lbs True by (simp add: read_result_def)
        ultimately show ?thesis by blast
      next
        case more: False
        then have k: "?k = length b" "?bs = b" "drop ?k b = []" using av by simp_all
        have "in_holds ?s1 []" using h1(1) k(3) by simp
        from Lstream_read_more_ok [OF h1(2) this] obtain r s2 c where
          2: "Lstream_read_more imp ?s1 = Some (Inr r, s2)" "in_holds s2 c" "readable s2" "read_view s2 = read_view ?s1"
            "\<forall>u. unget_holds s2 u = unget_holds ?s1 u" "ls_byte_count s2 = ls_byte_count ?s1"
            "source (ls_data ?s1) = c @ source (ls_data s2)" "r = None \<or> r = Some (length c)" "r = None \<longrightarrow> c = []"
            "prompt \<longrightarrow> r \<noteq> None \<and> (c = [] \<longrightarrow> source (ls_data ?s1) = [])"
          by (elim exE conjE) (rule that; assumption)
        have v: "read_view s2 = read_view s" using 2(4) by simp
        have lp: "read_loop imp sz acc s = (case r of None \<Rightarrow> Some (Inr (acc @ b, True), s2)
            | Some n \<Rightarrow> if n = 0 then Some (Inr (acc @ b, False), s2) else read_loop imp (sz - ?k) (acc @ b) s2)"
          using sz False more t(1) 2(1) k(2) by (subst read_loop.simps) (simp add: Let_def split: option.splits)
        have part: "read_result s b (length b) b False s2 c"
          using 2 v dir k(1) by (auto simp: read_result_def)
        show ?thesis
        proof (cases "c = []")
          case True
          have "read_result s b sz b (r = None) s2 c" using part True 2(7,10) k(1) more by (auto simp: read_result_def)
          moreover have "read_loop imp sz acc s = Some (Inr (acc @ b, r = None), s2)" using lp 2(8) True by auto
          ultimately show ?thesis by blast
        next
          case c: False
          then have r: "r = Some (length c)" "in_avail s2 \<noteq> 0" using 2(8,9) in_holds_avail [OF 2(2)] by auto
          have lp': "read_loop imp sz acc s = read_loop imp (sz - ?k) (acc @ b) s2" using lp r(1) c by simp
          have "2 * (sz - ?k) + (if in_avail s2 = 0 then 1 else 0) < 2 * sz + (if in_avail s = 0 then 1 else (0::nat))"
            using r(2) sz by (cases "in_avail s = 0") auto
          from less.hyps [OF this 2(3,2) dir [OF v]] obtain ds err s3 b3 where
            3: "read_loop imp (sz - ?k) (acc @ b) s2 = Some (Inr ((acc @ b) @ ds, err), s3)" "read_result s2 c (sz - ?k) ds err s3 b3" by blast
          have "length b \<le> sz" using k(1) by linarith
          from read_result_trans [OF part refl this] 3(2) k(1) have "read_result s b sz (b @ ds) err s3 b3" by simp
          then show ?thesis using lp' 3(1) by (intro exI [of _ "b @ ds"] exI [of _ err] exI [of _ s3] exI [of _ b3]) simp
        qed
      qed
    qed
  qed
qed

end


context lstream_source
begin

lemma in_stateI:
  "readable s \<Longrightarrow> unget_holds s u \<Longrightarrow> in_holds s b \<Longrightarrow> direct s b \<Longrightarrow> T = u @ b @ source (ls_data s) \<Longrightarrow> in_state s T"
  unfolding in_state_def pending_def by blast

lemma view_frame:
  assumes "read_view s' = read_view s" "ls_data s' = ls_data s"
  shows "readable s' = readable s" "direct s' b = direct s b"
  using read_view_sel [OF assms(1)] assms(2) by (simp_all add: readable_def direct_def)

lemma in_state_unread:
  assumes "in_state s T"
  shows "\<exists>s'. Lstream_unread bs s = Some s' \<and> in_state s' (bs @ T) \<and> ls_byte_count s' = ls_byte_count s - int (length bs) \<and>
    read_view s' = read_view s"
proof -
  obtain u b where h: "readable s" "unget_holds s u" "in_holds s b" "direct s b" "T = u @ b @ source (ls_data s)"
    using assms unfolding in_state_def pending_def by blast
  from Lstream_unread_holds [OF h(2)] obtain s' where
    1: "Lstream_unread bs s = Some s'" "unget_holds s' (bs @ u)" "\<forall>b. in_holds s' b = in_holds s b" "read_view s' = read_view s"
      "ls_data s' = ls_data s" "ls_byte_count s' = ls_byte_count s - int (length bs)" by blast
  have "in_state s' (bs @ T)"
    by (rule in_stateI [of s' "bs @ u" b]) (use h 1 view_frame [OF 1(4,5)] in auto)
  then show ?thesis using 1 by blast
qed

lemma in_state_count [simp]: "in_state (s\<lparr>ls_unget_character_count := i\<rparr>) T = in_state s T"
  by (simp add: in_state_def pending_def readable_def direct_def)

lemma in_state_byte_count [simp]: "in_state (s\<lparr>ls_byte_count := i\<rparr>) T = in_state s T"
  by (simp add: in_state_def pending_def readable_def direct_def)

text \<open>The bytes that are taken, before the partial character at their end is put back.\<close>

lemma take_and_loop_ok:
  assumes "in_state s T"
  shows "\<exists>u s1 bs err s2. take_ungot sz s = Some (u, s1) \<and> length u \<le> sz \<and>
    read_loop imp (sz - length u) u s1 = Some (Inr (bs, err), s2) \<and> length bs \<le> sz \<and>
    (\<exists>T'. T = bs @ T' \<and> in_state s2 T' \<and> (prompt \<longrightarrow> \<not> err \<and> (length bs < sz \<longrightarrow> T' = []))) \<and>
    ls_byte_count s2 = ls_byte_count s + int (length bs) \<and> read_view s2 = read_view s"
proof -
  obtain u b where h: "readable s" "unget_holds s u" "in_holds s b" "direct s b" "T = u @ b @ source (ls_data s)"
    using assms unfolding in_state_def pending_def by blast
  from take_ungot_ok [OF h(2), of sz] obtain s1 where
    1: "take_ungot sz s = Some (take sz u, s1)" "unget_holds s1 (drop sz u)" "\<forall>b. in_holds s1 b = in_holds s b"
      "read_view s1 = read_view s" "ls_data s1 = ls_data s" "ls_byte_count s1 = ls_byte_count s + int (length (take sz u))" by blast
  have st: "readable s1" "in_holds s1 b" "direct s1 b" using h(1,3,4) 1(3) view_frame [OF 1(4,5)] by simp_all
  from read_loop_ok [OF st] obtain bs err s2 b2 where
    2: "read_loop imp (sz - length (take sz u)) (take sz u) s1 = Some (Inr (take sz u @ bs, err), s2)"
      "read_result s1 b (sz - length (take sz u)) bs err s2 b2" by blast
  note r = 2(2) [unfolded read_result_def]
  let ?T = "drop sz u @ b2 @ source (ls_data s2)"
  have "in_state s2 ?T" by (rule in_stateI [of s2 "drop sz u" b2]) (use r 1(2) in auto)
  moreover have "T = (take sz u @ bs) @ ?T"
  proof (cases "bs = []")
    case True
    then have "T = u @ b2 @ source (ls_data s2)" using r h(5) 1(5) by simp
    also have "\<dots> = (take sz u @ drop sz u) @ b2 @ source (ls_data s2)" by simp
    finally show ?thesis using True by (simp only: append.assoc append_Nil2)
  next
    case False
    then have "sz - length (take sz u) \<noteq> 0" using r by auto
    then have "drop sz u = []" "take sz u = u" by auto
    then show ?thesis using r h(5) 1(5) by simp
  qed
  moreover have "length (take sz u @ bs) \<le> sz"
  proof -
    have "length bs \<le> sz - length (take sz u)" "length (take sz u) \<le> sz" using r by auto
    then show ?thesis unfolding length_append by linarith
  qed
  moreover have "prompt \<longrightarrow> \<not> err \<and> (length (take sz u @ bs) < sz \<longrightarrow> ?T = [])"
  proof
    assume prompt
    then have p: "\<not> err \<and> (length bs < sz - length (take sz u) \<longrightarrow> b2 @ source (ls_data s2) = [])" using r by blast
    show "\<not> err \<and> (length (take sz u @ bs) < sz \<longrightarrow> ?T = [])"
    proof (intro conjI impI)
      assume "length (take sz u @ bs) < sz"
      then have "drop sz u = []" "length bs < sz - length (take sz u)" by auto
      then show "?T = []" using p by simp
    qed (use p in blast)
  qed
  moreover have "ls_byte_count s2 = ls_byte_count s + int (length (take sz u @ bs))" using r 1(6) by simp
  moreover have "read_view s2 = read_view s" using r 1(4) by simp
  moreover have "length (take sz u) \<le> sz" by simp
  ultimately show ?thesis using 1(1) 2(1) by blast
qed

lemma Lstream_read_1_ok:
  assumes "in_state s T" "LSTR_NO_PARTIAL_CHARS (ls_flags s) \<and> \<not> override \<longrightarrow> text_prefix T"
  shows "\<exists>r bs T' s'. Lstream_read_1 imp sz override s = Some (Inr r, s') \<and> (r = Some bs \<or> r = None \<and> bs = []) \<and>
    T = bs @ T' \<and> in_state s' T' \<and> length bs \<le> sz \<and> ls_byte_count s' = ls_byte_count s + int (length bs) \<and>
    read_view s' = read_view s \<and> (LSTR_NO_PARTIAL_CHARS (ls_flags s) \<and> \<not> override \<longrightarrow> whole_chars bs) \<and>
    (prompt \<longrightarrow> r = Some bs \<and>
      ((LSTR_NO_PARTIAL_CHARS (ls_flags s) \<and> \<not> override \<longrightarrow> whole_chars (take sz T)) \<longrightarrow> bs = take sz T))"
proof (cases "sz = 0")
  case True
  then have "Lstream_read_1 imp sz override s = Some (Inr (Some []), s)" by (simp add: Lstream_read_1_def)
  then show ?thesis using assms(1) True by (intro exI [of _ "Some []"] exI [of _ "[]"] exI [of _ T] exI [of _ s]) simp
next
  case sz: False
  from take_and_loop_ok [OF assms(1), of sz] obtain u s1 bs err s2 T1 where
    1: "take_ungot sz s = Some (u, s1)" "read_loop imp (sz - length u) u s1 = Some (Inr (bs, err), s2)" "length bs \<le> sz"
      "T = bs @ T1" "in_state s2 T1" "prompt \<longrightarrow> \<not> err \<and> (length bs < sz \<longrightarrow> T1 = [])"
      "ls_byte_count s2 = ls_byte_count s + int (length bs)" "read_view s2 = read_view s"
    by (elim exE conjE) (rule that; assumption)
  have all: "bs = take sz T" if prompt
    using 1(3,4,6) that by (cases "length bs = sz") auto
  have fl: "ls_flags s2 = ls_flags s" using read_view_sel(1) [OF 1(8)] .
  let ?np = "LSTR_NO_PARTIAL_CHARS (ls_flags s) \<and> \<not> override"
  define r where "r = (if bs = [] \<and> err then None else Some bs)"
  show ?thesis
  proof (cases ?np)
    case False
    then have "Lstream_read_1 imp sz override s = Some (Inr r, s2)"
      using sz 1(1,2) fl by (auto simp: Lstream_read_1_def lbind_def r_def)
    moreover have "r = Some bs \<or> r = None \<and> bs = []" "prompt \<longrightarrow> r = Some bs" using 1(6) by (auto simp: r_def)
    ultimately show ?thesis using 1 all False by blast
  next
    case np: True
    have "text_prefix bs" using text_prefix_append [of bs T1] mp [OF assms(2) np] 1(4) by simp
    from validate_ibyte_string_backward_ok [OF this] obtain n where
      n: "validate_ibyte_string_backward bs = Some n" "n \<le> length bs" "whole_chars (take n bs)" "whole_chars bs \<longrightarrow> n = length bs" by blast
    show ?thesis
    proof (cases "n = length bs")
      case True
      then have "Lstream_read_1 imp sz override s = Some (Inr r, s2)"
        using sz 1(1,2) fl np n(1) by (simp add: Lstream_read_1_def lbind_def r_def)
      moreover have "r = Some bs \<or> r = None \<and> bs = []" "prompt \<longrightarrow> r = Some bs" using 1(6) by (auto simp: r_def)
      ultimately show ?thesis using 1 all True n(3) by (metis take_all order.refl)
    next
      case False
      then have lt: "n < length bs" using n(2) by simp
      from in_state_unread [OF 1(5), of "drop n bs"] obtain s3 where
        3: "Lstream_unread (drop n bs) s2 = Some s3" "in_state s3 (drop n bs @ T1)"
          "ls_byte_count s3 = ls_byte_count s2 - int (length (drop n bs))" "read_view s3 = read_view s2" by blast
      let ?s4 = "s3\<lparr>ls_unget_character_count := ls_unget_character_count s2\<rparr>"
      define r' where "r' = (if n = 0 \<and> err then None else Some (take n bs))"
      have "Lstream_read_1 imp sz override s = Some (Inr r', ?s4)"
        using sz 1(1,2) fl np n(1) lt 3(1) by (simp add: Lstream_read_1_def lbind_def r'_def)
      moreover have "r' = Some (take n bs) \<or> r' = None \<and> take n bs = []" "prompt \<longrightarrow> r' = Some (take n bs)"
        using 1(6) by (auto simp: r'_def)
      moreover have "T = take n bs @ (drop n bs @ T1)" using 1(4) by simp
      moreover have "in_state ?s4 (drop n bs @ T1)" using 3(2) by simp
      moreover have "length (take n bs) \<le> sz" using 1(3) by simp
      moreover have "ls_byte_count ?s4 = ls_byte_count s + int (length (take n bs))" using 3(3) 1(7) lt by simp
      moreover have "read_view ?s4 = read_view s" using 3(4) 1(8) by simp
      moreover have "prompt \<longrightarrow> \<not> whole_chars (take sz T)" using all n(4) False by auto
      ultimately show ?thesis using n(3) np by blast
    qed
  qed
qed

end


section \<open>Bytes and characters\<close>

text \<open>The macro \<open>Lstream_getc\<close> reads as the function does.\<close>

context lstream_source
begin

lemma Lstream_fgetc_ok:
  assumes "in_state s T" prompt
  shows "\<exists>s'. Lstream_fgetc imp s = Some (Inr (case T of [] \<Rightarrow> None | x # xs \<Rightarrow> Some x), s') \<and> in_state s' (tl T) \<and>
    ls_byte_count s' = ls_byte_count s + int (length (take 1 T)) \<and> read_view s' = read_view s"
proof -
  have "LSTR_NO_PARTIAL_CHARS (ls_flags s) \<and> \<not> True \<longrightarrow> text_prefix T" by simp
  from Lstream_read_1_ok [OF assms(1) this, where sz = 1] obtain r bs T' s' where
    1: "Lstream_read_1 imp 1 True s = Some (Inr r, s')" "T = bs @ T'" "in_state s' T'"
      "ls_byte_count s' = ls_byte_count s + int (length bs)" "read_view s' = read_view s"
      "prompt \<longrightarrow> r = Some bs \<and> ((LSTR_NO_PARTIAL_CHARS (ls_flags s) \<and> \<not> True \<longrightarrow> whole_chars (take 1 T)) \<longrightarrow> bs = take 1 T)"
    by (elim exE conjE) (rule that; assumption)
  have r: "r = Some (take 1 T)" "bs = take 1 T" using 1(6) assms(2) by simp_all
  have "T' = tl T" using 1(2) r(2) by (cases T) auto
  then show ?thesis using 1(1,3,4,5) r by (intro exI [of _ s']) (cases T; simp add: Lstream_fgetc_def lbind_def)
qed

lemma Lstream_getc_ok:
  assumes "in_state s T" prompt
  shows "\<exists>s'. Lstream_getc imp s = Some (Inr (case T of [] \<Rightarrow> None | x # xs \<Rightarrow> Some x), s') \<and> in_state s' (tl T) \<and>
    ls_byte_count s' = ls_byte_count s + int (length (take 1 T)) \<and> read_view s' = read_view s"
proof -
  obtain u b where h: "readable s" "unget_holds s u" "in_holds s b" "direct s b" "T = u @ b @ source (ls_data s)"
    using assms(1) unfolding in_state_def pending_def by blast
  have ind: "ls_unget_buffer_ind s = length u" using h(2) by (simp add: unget_holds_def buf_holds_def)
  consider x v where "u = x # v" | x c where "u = []" "b = x # c" | "u = []" "b = []" by (cases u; cases b) auto
  then show ?thesis
  proof cases
    case 1
    obtain ys where m: "ls_unget_buffer s = map Some (rev v) @ Some x # ys" "length (ls_unget_buffer s) = ls_unget_buffer_size s"
      using h(2) 1 by (auto simp: unget_holds_def buf_holds_def)
    let ?s = "s\<lparr>ls_byte_count := ls_byte_count s + 1, ls_unget_buffer_ind := ls_unget_buffer_ind s - 1\<rparr>"
    have "mem_read (ls_unget_buffer s) (ls_unget_buffer_ind s - 1) = Some x"
      using m ind 1 by (simp add: mem_read_def nth_append)
    then have "Lstream_getc imp s = Some (Inr (Some x), ?s)" using ind 1 by (simp add: Lstream_getc_def)
    moreover have "unget_holds ?s v" using m ind 1 by (simp add: unget_holds_def buf_holds_def)
    then have "in_state ?s (v @ b @ source (ls_data ?s))"
      by (rule in_stateI [rotated]) (use h in \<open>auto simp: readable_def direct_def\<close>)
    ultimately show ?thesis using h(5) 1 by (intro exI [of _ ?s]) simp
  next
    case 2
    let ?s = "s\<lparr>ls_byte_count := ls_byte_count s + 1, ls_in_buffer_ind := ls_in_buffer_ind s + 1\<rparr>"
    obtain xs ys where m: "ls_in_buffer s = xs @ Some x # map Some c @ ys" "length xs = ls_in_buffer_ind s"
      "ls_in_buffer_current s = ls_in_buffer_ind s + length b" using h(3) 2 by (auto simp: in_holds_def)
    have "mem_read (ls_in_buffer s) (ls_in_buffer_ind s) = Some x"
      using m(2) unfolding m(1) by (simp add: mem_read_def nth_append)
    then have "Lstream_getc imp s = Some (Inr (Some x), ?s)" using ind 2 m(3) by (simp add: Lstream_getc_def)
    moreover have "in_holds (s\<lparr>ls_in_buffer_ind := ls_in_buffer_ind s + 1\<rparr>) (drop 1 b)" by (rule in_holds_bytes(2) [OF h(3)]) (use 2 in simp)
    then have "in_holds ?s c" using 2 by (simp add: in_holds_def)
    then have "in_state ?s ([] @ c @ source (ls_data ?s))"
      using h(1,2,4) 2 by (intro in_stateI) (auto simp: readable_def direct_def unget_holds_def)
    ultimately show ?thesis using h(5) 2 by (intro exI [of _ ?s]) simp
  next
    case 3
    then have "Lstream_getc imp s = Lstream_fgetc imp s" using ind h(3) by (auto simp: Lstream_getc_def in_holds_def)
    then show ?thesis using Lstream_fgetc_ok [OF assms] by simp
  qed
qed

lemma get_ichar_rest_ok:
  assumes "in_state s (cs @ T)" prompt
  shows "\<exists>s'. get_ichar_rest imp (length cs) str s = Some (Inr (str @ cs), s') \<and> in_state s' T \<and>
    ls_byte_count s' = ls_byte_count s + int (length cs) \<and> read_view s' = read_view s"
  using assms(1)
proof (induction cs arbitrary: str s)
  case (Cons c cs)
  from Lstream_getc_ok [OF Cons.prems assms(2)] obtain s1 where
    1: "Lstream_getc imp s = Some (Inr (Some c), s1)" "in_state s1 (cs @ T)" "ls_byte_count s1 = ls_byte_count s + 1" "read_view s1 = read_view s"
    by auto
  from Cons.IH [OF 1(2), of "str @ [c]"] 1 show ?case by (auto simp: lbind_def)
qed auto

lemma Lstream_get_ichar_ok:
  assumes "in_state s (c @ T)" "ichar_ok c" prompt
  shows "\<exists>s'. Lstream_get_ichar imp s = Some (Inr (Some c), s') \<and> in_state s' T \<and>
    ls_byte_count s' = ls_byte_count s + int (length c) \<and> read_view s' = read_view s"
proof -
  from assms(2) obtain b bs where c: "c = b # bs" "rep_bytes_by_first_byte b = Some (Suc (length bs))" by (rule ichar_okE) blast
  from Lstream_getc_ok [OF assms(1,3)] c(1) obtain s1 where
    1: "Lstream_getc imp s = Some (Inr (Some b), s1)" "in_state s1 (bs @ T)" "ls_byte_count s1 = ls_byte_count s + 1" "read_view s1 = read_view s"
    by auto
  show ?thesis
  proof (cases "b < 0x80")
    case True
    then have "bs = []" using c(2) by (auto simp: byte_ascii_less dest!: rep_bytes_facts)
    then show ?thesis using 1 c(1) True by (intro exI [of _ s1]) (simp add: Lstream_get_ichar_def lbind_def)
  next
    case False
    from get_ichar_rest_ok [OF 1(2) assms(3), of "[b]"] obtain s2 where
      2: "get_ichar_rest imp (length bs) [b] s1 = Some (Inr ([b] @ bs), s2)" "in_state s2 T"
        "ls_byte_count s2 = ls_byte_count s1 + int (length bs)" "read_view s2 = read_view s1" by blast
    have "Lstream_get_ichar_1 imp b s1 = Some (Inr (b # bs), s2)" using 2(1) c(2) by (simp add: Lstream_get_ichar_1_def)
    then show ?thesis using 1 2 False c(1) by (intro exI [of _ s2]) (simp add: Lstream_get_ichar_def lbind_def)
  qed
qed

lemma Lstream_get_ichar_end:
  assumes "in_state s []" prompt
  shows "\<exists>s'. Lstream_get_ichar imp s = Some (Inr None, s') \<and> in_state s' []"
  using Lstream_getc_ok [OF assms] by (auto simp: Lstream_get_ichar_def lbind_def)

end

text \<open>All characters up to the end; the fuel bounds their number.\<close>

fun read_ichars :: "nat \<Rightarrow> 'd lstream_implementation \<Rightarrow> 'd lstream \<Rightarrow> (ichar list, 'd) lout" where
  "read_ichars 0 imp s = None"
| "read_ichars (Suc n) imp s =
     lbind (Lstream_get_ichar imp s) (\<lambda>r s. case r of None \<Rightarrow> Some (Inr [], s)
       | Some c \<Rightarrow> lbind (read_ichars n imp s) (\<lambda>cs s. Some (Inr (c # cs), s)))"

context lstream_source
begin

lemma read_ichars_ok:
  assumes "in_state s (concat C)" "chars_ok C" prompt "length C < n"
  shows "\<exists>s'. read_ichars n imp s = Some (Inr C, s') \<and> in_state s' []"
  using assms(1,2,4)
proof (induction C arbitrary: s n)
  case Nil
  then obtain m where n: "n = Suc m" by (cases n) auto
  from Lstream_get_ichar_end [of s] Nil.prems(1) assms(3) show ?case by (auto simp: n lbind_def)
next
  case (Cons c C)
  then obtain m where n: "n = Suc m" by (cases n) auto
  from Lstream_get_ichar_ok [of s c "concat C"] Cons.prems assms(3) obtain s1 where
    1: "Lstream_get_ichar imp s = Some (Inr (Some c), s1)" "in_state s1 (concat C)" by auto
  from Cons.IH [OF 1(2), of m] Cons.prems(2,3) 1(1) show ?case by (auto simp: n lbind_def)
qed

end

end
