(* ===== verification/Lstream_Sinks.thy ===== *)
theory Lstream_Sinks
  imports Lstream_Types
begin

text \<open>
  The implementations of output streams keep the contract of writing (\<open>lstream_sink\<close>): resizing buffers, fixed buffers,
  dynarrs, and file descriptors over system calls that send what they accept.  The contents of a
  string stream then are what was written to it, in order.
\<close>

lemma method_result_eq:
  "\<not> ls_error_occurred_p s \<Longrightarrow> method_result s r e d = Some (Inr r, s\<lparr>ls_error_occurred_p := e, ls_data := d\<rparr>)"
  by (simp add: method_result_def)

section \<open>Resizing buffers\<close>

definition rb_contents :: "resizing_buffer_stream \<Rightarrow> byte list" where
  "rb_contents d = map the (take (rb_stored d) (rb_buf d))"

definition rb_valid :: "resizing_buffer_stream \<Rightarrow> bool" where
  "rb_valid d \<longleftrightarrow> buf_holds (rb_buf d) (rb_allocked d) (rb_stored d) (rb_contents d)"

lemma rb_validI: "buf_holds (rb_buf d) (rb_allocked d) (rb_stored d) bs \<Longrightarrow> rb_valid d \<and> rb_contents d = bs"
proof -
  assume h: "buf_holds (rb_buf d) (rb_allocked d) (rb_stored d) bs"
  then have "rb_contents d = bs" by (auto simp: buf_holds_def rb_contents_def comp_def)
  with h show ?thesis by (simp add: rb_valid_def)
qed

lemma resizing_buffer_writer_ok:
  assumes "rb_valid (ls_data s)" "\<not> ls_error_occurred_p s"
  shows "\<exists>d. resizing_buffer_writer s bs = Some (Inr (int (length bs)), s\<lparr>ls_error_occurred_p := False, ls_data := d\<rparr>) \<and>
    rb_valid d \<and> rb_contents d = rb_contents (ls_data s) @ bs"
proof -
  let ?d = "ls_data s"
  obtain b n where r: "DO_REALLOC (rb_buf ?d) (rb_allocked ?d) (rb_stored ?d + length bs) = (b, n)" by fastforce
  note h = buf_holds_realloc [OF assms(1) [unfolded rb_valid_def] r]
  from buf_holds_store [OF h] obtain m where
    m: "mem_store b (rb_stored ?d) bs = Some m" "buf_holds m n (rb_stored ?d + length bs) (rb_contents ?d @ bs)" by blast
  let ?e = "?d\<lparr>rb_buf := m, rb_allocked := n, rb_stored := rb_stored ?d + length bs\<rparr>"
  have "rb_valid ?e \<and> rb_contents ?e = rb_contents ?d @ bs" using m(2) by (intro rb_validI) simp
  then show ?thesis using r m(1) assms(2) by (intro exI [of _ ?e]) (simp add: resizing_buffer_writer_def Let_def method_result_eq)
qed

interpretation resizing: lstream_sink lstream_resizing_buffer resizing_buffer_writer rb_contents "\<lambda>f. rb_valid" "\<lambda>d n. True" True
proof
  fix s :: "resizing_buffer_stream lstream" and bs :: "byte list" and n
  assume 1: "rb_valid (ls_data s)" "\<not> ls_error_occurred_p s" "LSTR_NO_PARTIAL_CHARS (ls_flags s) \<Longrightarrow> whole_chars bs"
  from resizing_buffer_writer_ok [OF 1(1,2), of bs] obtain d where
    "resizing_buffer_writer s bs = Some (Inr (int (length bs)), s\<lparr>ls_error_occurred_p := False, ls_data := d\<rparr>)" "rb_valid d"
    "rb_contents d = rb_contents (ls_data s) @ bs" by blast
  then show "\<exists>k e d. resizing_buffer_writer s bs = Some (Inr (int k), s\<lparr>ls_error_occurred_p := e, ls_data := d\<rparr>) \<and> k \<le> length bs \<and>
    rb_contents d = rb_contents (ls_data s) @ take k bs \<and> rb_valid d \<and> True \<and>
    (LSTR_NO_PARTIAL_CHARS (ls_flags s) \<longrightarrow> whole_chars (take k bs)) \<and> (True \<longrightarrow> k = length bs \<and> \<not> e)"
    using 1(3) by (intro exI [of _ "length bs"] exI [of _ False] exI [of _ d]) simp
qed (simp_all add: lstream_resizing_buffer_def no_methods_def)

section \<open>Fixed buffers\<close>

definition fb_contents :: "fixed_buffer_stream \<Rightarrow> byte list" where
  "fb_contents d = map the (take (fb_offset d) (fb_outbuf d))"

definition fb_valid :: "fixed_buffer_stream \<Rightarrow> bool" where
  "fb_valid d \<longleftrightarrow> buf_holds (fb_outbuf d) (fb_size d) (fb_offset d) (fb_contents d)"

lemma fixed_buffer_writer_ok:
  assumes "fb_valid (ls_data s)" "\<not> ls_error_occurred_p s" "bs \<noteq> []" "length bs \<le> fb_size (ls_data s) - fb_offset (ls_data s)"
  shows "\<exists>d. fixed_buffer_writer s bs = Some (Inr (int (length bs)), s\<lparr>ls_error_occurred_p := False, ls_data := d\<rparr>) \<and>
    fb_valid d \<and> fb_contents d = fb_contents (ls_data s) @ bs \<and>
    fb_size d - fb_offset d = fb_size (ls_data s) - fb_offset (ls_data s) - length bs"
proof -
  let ?d = "ls_data s"
  note h = assms(1) [unfolded fb_valid_def]
  have le: "0 < length bs" "fb_offset ?d + length bs \<le> fb_size ?d" using assms(3,4) by (cases bs; simp)+
  from buf_holds_store [OF h le(2)] obtain m where
    m: "mem_store (fb_outbuf ?d) (fb_offset ?d) bs = Some m" "buf_holds m (fb_size ?d) (fb_offset ?d + length bs) (fb_contents ?d @ bs)" by blast
  let ?e = "?d\<lparr>fb_outbuf := m, fb_offset := fb_offset ?d + length bs\<rparr>"
  have c: "fb_contents ?e = fb_contents ?d @ bs" using m(2) by (auto simp: fb_contents_def buf_holds_def comp_def)
  have "fb_valid ?e" unfolding fb_valid_def c using m(2) by simp
  moreover have "fb_offset ?d \<noteq> fb_size ?d" "min (length bs) (fb_size ?d - fb_offset ?d) = length bs" using le by linarith+
  then have "fixed_buffer_writer s bs = Some (Inr (int (length bs)), s\<lparr>ls_error_occurred_p := False, ls_data := ?e\<rparr>)"
    using m(1) assms(2) by (simp add: fixed_buffer_writer_def Let_def method_result_eq)
  ultimately show ?thesis using c by (intro exI [of _ ?e]) simp
qed

interpretation fixed: lstream_sink lstream_fixed_buffer fixed_buffer_writer fb_contents "\<lambda>f. fb_valid"
  "\<lambda>d n. n \<le> fb_size d - fb_offset d" True
proof
  fix s :: "fixed_buffer_stream lstream" and bs :: "byte list" and n
  assume 1: "fb_valid (ls_data s)" "\<not> ls_error_occurred_p s" "bs \<noteq> []" "LSTR_NO_PARTIAL_CHARS (ls_flags s) \<Longrightarrow> whole_chars bs"
    "n \<le> fb_size (ls_data s) - fb_offset (ls_data s)" "length bs \<le> n"
  from fixed_buffer_writer_ok [OF 1(1-3)] 1(5,6) obtain d where
    "fixed_buffer_writer s bs = Some (Inr (int (length bs)), s\<lparr>ls_error_occurred_p := False, ls_data := d\<rparr>)" "fb_valid d"
    "fb_contents d = fb_contents (ls_data s) @ bs" "fb_size d - fb_offset d = fb_size (ls_data s) - fb_offset (ls_data s) - length bs" by auto
  then show "\<exists>k e d. fixed_buffer_writer s bs = Some (Inr (int k), s\<lparr>ls_error_occurred_p := e, ls_data := d\<rparr>) \<and> k \<le> length bs \<and>
    fb_contents d = fb_contents (ls_data s) @ take k bs \<and> fb_valid d \<and> n - k \<le> fb_size d - fb_offset d \<and>
    (LSTR_NO_PARTIAL_CHARS (ls_flags s) \<longrightarrow> whole_chars (take k bs)) \<and> (True \<longrightarrow> k = length bs \<and> \<not> e)"
    using 1(4,5) by (intro exI [of _ "length bs"] exI [of _ False] exI [of _ d]) simp
qed (simp_all add: lstream_fixed_buffer_def no_methods_def)

section \<open>Dynarrs\<close>

text \<open>A dynarr of bytes, with address space for \<open>n\<close> more after rounding up.\<close>

definition byte_dynarr :: "byte dynarr \<Rightarrow> bool" where
  "byte_dynarr d \<longleftrightarrow> dy_wf d \<and> dy_elsize d = 1"

definition dynarr_space :: "byte dynarr \<Rightarrow> nat \<Rightarrow> bool" where
  "dynarr_space d n \<longleftrightarrow> dy_len d + n < 2 ^ 62"

lemma dynarr_space_room:
  assumes "byte_dynarr d" "dynarr_space d n" "k \<le> n"
  shows "dy_room d k"
proof -
  have "Dynarr_grow (dy_max d \<le> 8) (dy_max d) (dy_len d + k) < 2 ^ 63"
  proof (cases "dy_max d < dy_len d + k")
    case True
    then show ?thesis using Dynarr_grow_le [OF True, of "dy_max d \<le> 8"] assms(2,3) by (simp add: Dynarr_min_size_def dynarr_space_def)
  next
    case False
    moreover have "dy_max d * dy_elsize d < 2 ^ 63" "dy_elsize d = 1" using assms(1) unfolding byte_dynarr_def dy_wf_def fits_size_def by blast+
    ultimately show ?thesis by (simp add: Dynarr_grow_id)
  qed
  then show ?thesis using assms(1) by (simp add: dy_room_def fits_size_def byte_dynarr_def)
qed

lemma Dynarr_add_many_elsize:
  assumes wf: "dy_wf d" and room: "dy_room d (length xs)" and d': "Dynarr_add_many d (Some xs) (length xs) = Some d'"
  shows "dy_elsize d' = dy_elsize d"
proof -
  from Dynarr_increase_length_split [OF wf room] obtain d1 where
    "Dynarr_increase_length d (dy_len d + length xs) = Some d1" "dy_elsize d1 = dy_elsize d" .
  with d' show ?thesis by (auto simp: Dynarr_add_many_def dy_wf_verify [OF wf])
qed

lemma dynarr_writer_ok:
  assumes "byte_dynarr (ls_data s)" "dynarr_space (ls_data s) n" "length bs \<le> n" "\<not> ls_error_occurred_p s"
  shows "\<exists>d. dynarr_writer s bs = Some (Inr (int (length bs)), s\<lparr>ls_error_occurred_p := False, ls_data := d\<rparr>) \<and>
    byte_dynarr d \<and> dy_els d = dy_els (ls_data s) @ bs \<and> dynarr_space d (n - length bs)"
proof -
  let ?d = "ls_data s"
  have wf: "dy_wf ?d" using assms(1) by (simp add: byte_dynarr_def)
  note room = dynarr_space_room [OF assms(1-3)]
  from Dynarr_add_many_ok [OF wf room] obtain d where
    d: "Dynarr_add_many ?d (Some bs) (length bs) = Some d" "dy_wf d" "dy_els d = dy_els ?d @ bs" by blast
  have "dy_len d = dy_len ?d + length bs" using length_dy_els [OF d(2)] length_dy_els [OF wf] d(3) by simp
  then have "dynarr_space d (n - length bs)" using assms(2,3) by (simp add: dynarr_space_def)
  moreover have "byte_dynarr d" using d(2) Dynarr_add_many_elsize [OF wf room d(1)] assms(1) by (simp add: byte_dynarr_def)
  ultimately show ?thesis using d assms(4) by (intro exI [of _ d]) (simp add: dynarr_writer_def method_result_eq)
qed

interpretation dynarr: lstream_sink lstream_dynarr dynarr_writer dy_els "\<lambda>f. byte_dynarr" dynarr_space True
proof
  fix s :: "byte dynarr lstream" and bs :: "byte list" and n
  assume 1: "byte_dynarr (ls_data s)" "\<not> ls_error_occurred_p s" "LSTR_NO_PARTIAL_CHARS (ls_flags s) \<Longrightarrow> whole_chars bs"
    "dynarr_space (ls_data s) n" "length bs \<le> n"
  from dynarr_writer_ok [OF 1(1,4,5,2)] obtain d where
    "dynarr_writer s bs = Some (Inr (int (length bs)), s\<lparr>ls_error_occurred_p := False, ls_data := d\<rparr>)" "byte_dynarr d"
    "dy_els d = dy_els (ls_data s) @ bs" "dynarr_space d (n - length bs)" by blast
  then show "\<exists>k e d. dynarr_writer s bs = Some (Inr (int k), s\<lparr>ls_error_occurred_p := e, ls_data := d\<rparr>) \<and> k \<le> length bs \<and>
    dy_els d = dy_els (ls_data s) @ take k bs \<and> byte_dynarr d \<and> dynarr_space d (n - k) \<and>
    (LSTR_NO_PARTIAL_CHARS (ls_flags s) \<longrightarrow> whole_chars (take k bs)) \<and> (True \<longrightarrow> k = length bs \<and> \<not> e)"
    using 1(3) by (intro exI [of _ "length bs"] exI [of _ False] exI [of _ d]) simp
qed (simp_all add: lstream_dynarr_def no_methods_def)

section \<open>File descriptors\<close>

text \<open>What the system calls promise: a write that gives a number has sent that many bytes from the start, one that
  fails has sent none, and a process is not interrupted, or told to send nothing, for ever.\<close>

definition os_sends_with :: "('o \<Rightarrow> nat) \<Rightarrow> 'o os_calls \<Rightarrow> ('o \<Rightarrow> byte list) \<Rightarrow> bool" where
  "os_sends_with patience os sent \<longleftrightarrow> (\<forall>x bs. bs \<noteq> [] \<longrightarrow> (case os_write os x bs of
     (Sys_ok n, y) \<Rightarrow> n \<le> length bs \<and> sent y = sent x @ take n bs \<and> (n = 0 \<longrightarrow> patience y < patience x)
   | (Sys_error e, y) \<Rightarrow> sent y = sent x \<and> (e = EINTR \<longrightarrow> patience y < patience x)))"

definition os_sends :: "'o os_calls \<Rightarrow> ('o \<Rightarrow> byte list) \<Rightarrow> bool" where
  "os_sends os sent \<longleftrightarrow> (\<exists>patience. os_sends_with patience os sent)"

text \<open>No quit is pending.\<close>

definition os_quiet :: "'o os_calls \<Rightarrow> bool" where
  "os_quiet os \<longleftrightarrow> (\<forall>x. os_quit os x = (False, x))"

text \<open>The bytes that a write sends after the first \<open>k\<close> of them, with what it gives.\<close>

definition write_outcome :: "('o \<Rightarrow> byte list) \<Rightarrow> byte list \<Rightarrow> nat \<Rightarrow> 'o \<Rightarrow> nat sys_result \<Rightarrow> 'o \<Rightarrow> bool" where
  "write_outcome sent bs k x r y \<longleftrightarrow> (case r of
     Sys_ok m \<Rightarrow> k \<le> m \<and> m \<le> k + length bs \<and> sent y = sent x @ take (m - k) bs
   | Sys_error e \<Rightarrow> k = 0 \<and> sent y = sent x)"

lemma retry_write_1_ok:
  assumes os: "os_sends_with patience os sent" and q: "allow_quit \<longrightarrow> os_quiet os"
  shows "\<exists>r y. retry_write_1 os allow_quit bs k x = Some (Inr r, y) \<and> write_outcome sent bs k x r y"
proof (induction "(bs, k, x)" arbitrary: bs k x
    rule: wf_induct_rule [OF wf_measures [of "[\<lambda>(bs, k, x). length bs, \<lambda>(bs, k, x). patience x]"]])
  case less: 1
  show ?case
  proof (cases "bs = []")
    case True
    then show ?thesis by (subst retry_write_1.simps) (simp add: write_outcome_def)
  next
    case False
    obtain w z where p: "os_write os x bs = (w, z)" by fastforce
    have quiet: "(if allow_quit then os_quit os z else (False, z)) = (False, z)" using q by (simp add: os_quiet_def)
    have h: "case (w, z) of (Sys_ok n, y) \<Rightarrow> n \<le> length bs \<and> sent y = sent x @ take n bs \<and> (n = 0 \<longrightarrow> patience y < patience x)
      | (Sys_error e, y) \<Rightarrow> sent y = sent x \<and> (e = EINTR \<longrightarrow> patience y < patience x)"
      using os [unfolded os_sends_with_def, THEN spec, THEN spec, of bs x] False by (simp only: p simp_thms)
    show ?thesis
    proof (cases w)
      case (Sys_ok n)
      have s: "n \<le> length bs" "sent z = sent x @ take n bs" "n = 0 \<longrightarrow> patience z < patience x" using h Sys_ok by simp_all
      have "((drop n bs, k + n, z), (bs, k, x)) \<in> measures [\<lambda>(bs, k, x). length bs, \<lambda>(bs, k, x). patience x]"
        using s False by (cases n) auto
      from less [OF this] obtain r y where
        r: "retry_write_1 os allow_quit (drop n bs) (k + n) z = Some (Inr r, y)" "write_outcome sent (drop n bs) (k + n) z r y" by blast
      have "retry_write_1 os allow_quit bs k x = retry_write_1 os allow_quit (drop n bs) (k + n) z"
        using False p quiet Sys_ok by (subst retry_write_1.simps) (simp add: Let_def)
      moreover have "write_outcome sent bs k x r y"
      proof (cases r)
        case (Sys_ok m)
        have m: "k + n \<le> m" "m \<le> k + length bs" "sent y = sent x @ take n bs @ take (m - (k + n)) (drop n bs)"
          using r(2) s(1,2) Sys_ok by (simp_all add: write_outcome_def)
        have "take (m - k) bs = take n bs @ take (m - (k + n)) (drop n bs)"
          using m(1) take_add [of n "m - (k + n)" bs] by simp
        then show ?thesis using m Sys_ok by (simp add: write_outcome_def)
      next
        case (Sys_error e)
        then show ?thesis using r(2) s(2) by (simp add: write_outcome_def)
      qed
      ultimately show ?thesis using r(1) by auto
    next
      case (Sys_error e)
      show ?thesis
      proof (cases "e = EINTR")
        case True
        have s: "sent z = sent x" "patience z < patience x" using h Sys_error True by simp_all
        have "((bs, k, z), (bs, k, x)) \<in> measures [\<lambda>(bs, k, x). length bs, \<lambda>(bs, k, x). patience x]" using s(2) by simp
        from less [OF this] obtain r y where
          r: "retry_write_1 os allow_quit bs k z = Some (Inr r, y)" "write_outcome sent bs k z r y" by blast
        have "retry_write_1 os allow_quit bs k x = retry_write_1 os allow_quit bs k z"
          using False p quiet Sys_error True by (subst retry_write_1.simps) (simp add: Let_def)
        then show ?thesis using r s(1) by (auto simp: write_outcome_def split: sys_result.splits)
      next
        case other: False
        let ?r = "if k \<noteq> 0 then Sys_ok k else Sys_error e"
        have "retry_write_1 os allow_quit bs k x = Some (Inr ?r, z)"
          using False p quiet Sys_error other by (subst retry_write_1.simps) (simp add: Let_def)
        moreover have "write_outcome sent bs k x ?r z" using h Sys_error by (simp add: write_outcome_def)
        ultimately show ?thesis by blast
      qed
    qed
  qed
qed

lemma fd_write_ok:
  assumes "os_sends os sent" "LSTR_ALLOW_QUIT f \<longrightarrow> os_quiet os"
  shows "\<exists>r y. fd_write os f bs x = Some (Inr r, y) \<and> write_outcome sent bs 0 x r y"
proof -
  obtain patience where p: "os_sends_with patience os sent" using assms(1) by (auto simp: os_sends_def)
  show ?thesis using retry_write_1_ok [OF p, of "LSTR_ALLOW_QUIT f" bs 0 x] assms(2)
    by (auto simp: fd_write_def write_allowing_quit_def retry_write_def os_quiet_def)
qed

lemma filedesc_writer_ok:
  assumes os: "os_sends os sent" and q: "LSTR_ALLOW_QUIT (ls_flags s) \<longrightarrow> os_quiet os"
    and s: "\<not> LSTR_PTY_FLUSHING (ls_flags s)" "\<not> ls_error_occurred_p s" "bs \<noteq> []"
  shows "\<exists>k e d. filedesc_writer os s bs = Some (Inr (int k), s\<lparr>ls_error_occurred_p := e, ls_data := d\<rparr>) \<and> k \<le> length bs \<and>
    sent (fd_os d) = sent (fd_os (ls_data s)) @ take k bs"
proof -
  from fd_write_ok [OF os q, of bs "fd_os (ls_data s)"] obtain r x where
    w: "fd_write os (ls_flags s) bs (fd_os (ls_data s)) = Some (Inr r, x)" "write_outcome sent bs 0 (fd_os (ls_data s)) r x" by blast
  show ?thesis
  proof (cases r)
    case (Sys_ok n)
    let ?d = "(ls_data s)\<lparr>fd_os := x, fd_blocking_error_p := False\<rparr>"
    have "filedesc_writer os s bs = Some (Inr (int n), s\<lparr>ls_error_occurred_p := False, ls_data := ?d\<rparr>)"
      using w(1) Sys_ok s by (simp add: filedesc_writer_def filedesc_writer_pty_def filedesc_writer_newline_def Let_def method_result_eq)
    then show ?thesis using w(2) Sys_ok by (intro exI [of _ n] exI [of _ False] exI [of _ ?d]) (simp add: write_outcome_def)
  next
    case (Sys_error b)
    let ?e = "\<not> (errno_would_block_p b \<and> LSTR_BLOCKED_OK (ls_flags s))" and
      ?d = "(ls_data s)\<lparr>fd_os := x, fd_blocking_error_p := (errno_would_block_p b \<and> LSTR_BLOCKED_OK (ls_flags s))\<rparr>"
    have "filedesc_writer os s bs = Some (Inr (int 0), s\<lparr>ls_error_occurred_p := ?e, ls_data := ?d\<rparr>)"
      using w(1) Sys_error s by (simp add: filedesc_writer_def Let_def method_result_eq)
    then show ?thesis using w(2) Sys_error by (intro exI [of _ 0] exI [of _ ?e] exI [of _ ?d]) (simp add: write_outcome_def)
  qed
qed

text \<open>The flags under which a file descriptor stream accepts any part of the bytes and never signals.\<close>

definition fd_writable :: "'o os_calls \<Rightarrow> lstr_flags \<Rightarrow> bool" where
  "fd_writable os f \<longleftrightarrow> \<not> LSTR_PTY_FLUSHING f \<and> \<not> LSTR_NO_PARTIAL_CHARS f \<and> (LSTR_ALLOW_QUIT f \<longrightarrow> os_quiet os)"

lemma filedesc_sink:
  assumes os: "os_sends os sent"
  shows "lstream_sink (lstream_filedesc os) (filedesc_writer os) (\<lambda>d. sent (fd_os d))
    (\<lambda>f d. fd_writable os f) (\<lambda>d n. True) False"
proof
  fix s :: "'a filedesc_stream lstream" and bs :: "byte list" and n
  assume 1: "fd_writable os (ls_flags s)" "\<not> ls_error_occurred_p s" "bs \<noteq> []"
  from filedesc_writer_ok [OF os _ _ 1(2,3)] 1(1) show
    "\<exists>k e d. filedesc_writer os s bs = Some (Inr (int k), s\<lparr>ls_error_occurred_p := e, ls_data := d\<rparr>) \<and> k \<le> length bs \<and>
      sent (fd_os d) = sent (fd_os (ls_data s)) @ take k bs \<and> fd_writable os (ls_flags s) \<and>
      True \<and> (LSTR_NO_PARTIAL_CHARS (ls_flags s) \<longrightarrow> whole_chars (take k bs)) \<and> (False \<longrightarrow> k = length bs \<and> \<not> e)"
    by (fastforce simp: fd_writable_def)
qed (simp_all add: lstream_filedesc_def no_methods_def)

section \<open>What writing does\<close>

text \<open>C5: writing to a stream, whatever its buffering and however much its writer takes at a time: the bytes that the
  implementation has received, followed by those in the output buffer, grow by exactly the bytes that are
  accepted; in character mode the implementation has only whole characters.  All are accepted unless an error
  occurs or an unbuffered stream does not keep what is refused.  The value is their number, or \<open>-1\<close>; but a line-buffered
  stream that fails to flush at a newline reports one byte less than it has accepted.\<close>

theorem Lstream_write_conserves:
  assumes imp: "lstream_sink imp writer sink valid room willing"
    and open': "LSTR_IS_OPEN (ls_flags s)" "LSTR_WRITE (ls_flags s)" "valid (ls_flags s) (ls_data s)"
    and room: "room (ls_data s) (length b + length bs)" "length b + length bs < 2 ^ 31"
    and out: "out_holds s b" "willing \<longrightarrow> \<not> ls_error_occurred_p s"
    and chars: "LSTR_NO_PARTIAL_CHARS (ls_flags s) \<longrightarrow> whole_chars (sink (ls_data s)) \<and> text_prefix (b @ bs)"
  shows "\<exists>r k s' b'. Lstream_write imp bs s = Some (Inr r, s') \<and> k \<le> length bs \<and> out_holds s' b' \<and>
    sink (ls_data s') @ b' = sink (ls_data s) @ b @ take k bs \<and> ls_byte_count s' = ls_byte_count s + int k \<and>
    (LSTR_NO_PARTIAL_CHARS (ls_flags s) \<longrightarrow> whole_chars (sink (ls_data s'))) \<and>
    (k < length bs \<longrightarrow> ls_error_occurred_p s' \<or> ls_buffering s = LSTREAM_UNBUFFERED \<and> LSTR_NO_SQUIRREL (ls_flags s)) \<and>
    (r = int k \<or> r = - 1 \<and> k = 0 \<or> ls_buffering s = LSTREAM_LINE_BUFFERED \<and> (r = - 1 \<and> k = 1 \<or> r = int k - 1))"
proof -
  note sink = imp
  have st: "lstream_sink.out_state sink valid room willing s b (sink (ls_data s) @ b) (length bs)"
    using open' room out chars by (simp add: lstream_sink.out_state_def [OF imp] lstream_sink.writable_def [OF imp])
  have ok: "lstream_sink.writes_ok s (b @ bs @ [])" using chars by (simp add: lstream_sink.writes_ok_def [OF imp])
  from lstream_sink.Lstream_write_ok [OF imp st order.refl room(2) ok] obtain r k s' b' where
    1: "Lstream_write imp bs s = Some (Inr r, s')"
      "lstream_sink.accepted sink valid room willing s (sink (ls_data s) @ b) (length bs) bs k s' b'"
      "r = int k \<or> lstream_sink.refusal s' \<and> (r = - 1 \<and> k \<le> 1 \<or> r = int k - 1) \<and> (k = 0 \<or> ls_buffering s = LSTREAM_LINE_BUFFERED)"
    by (elim exE conjE) (rule that; assumption)
  note a = 1(2) [unfolded lstream_sink.accepted_def [OF imp] lstream_sink.out_state_def [OF imp] lstream_sink.writable_def [OF imp]
      lstream_sink.refusal_def [OF imp]]
  have v: "write_view s' = write_view s" using a by simp
  have "r = int k \<or> r = - 1 \<and> k = 0 \<or> ls_buffering s = LSTREAM_LINE_BUFFERED \<and> (r = - 1 \<and> k = 1 \<or> r = int k - 1)"
    using 1(3) by (cases "k = 0") auto
  with 1(1) a write_view_sel [OF v] show ?thesis by (intro exI [of _ r] exI [of _ k] exI [of _ s'] exI [of _ b']) auto
qed

text \<open>A system that accepts three bytes at a time.\<close>

definition slow_os :: "byte list os_calls" where
  "slow_os = \<lparr>os_write = (\<lambda>x bs. (Sys_ok (min 3 (length bs)), x @ take 3 bs)), os_read = (\<lambda>x n. (Sys_ok [], x)), os_quit = (\<lambda>x. (False, x)),
     os_lseek_set = (\<lambda>x i. (i, x)), os_lseek_end = (\<lambda>x i. (i, x)),
     os_regular = (\<lambda>x. True), os_close = (\<lambda>x. (0, x))\<rparr>"

lemma slow_os_sends: "os_sends slow_os (\<lambda>x. x)"
proof -
  have "os_sends_with (\<lambda>x. 0) slow_os (\<lambda>x. x)" by (simp add: os_sends_with_def slow_os_def min_def)
  then show ?thesis unfolding os_sends_def by blast
qed

definition slow_stream :: "byte list filedesc_stream lstream" where
  "slow_stream = make_filedesc_stream_1 [] 0 (- 1) (no_flags\<lparr>LSTR_WRITE := True\<rparr>)"

lemma slow_stream_open: "LSTR_IS_OPEN (ls_flags slow_stream)" "LSTR_WRITE (ls_flags slow_stream)"
  "fd_writable slow_os (ls_flags slow_stream)" "\<not> LSTR_NO_PARTIAL_CHARS (ls_flags slow_stream)" "fd_os (ls_data slow_stream) = []"
  "out_holds slow_stream []" "ls_byte_count slow_stream = 0" "ls_buffering slow_stream = LSTREAM_BLOCK_BUFFERED"
  by (simp_all add: slow_stream_def make_filedesc_stream_1_def Lstream_new_def Lstream_set_buffering_def no_flags_def out_holds_def buf_holds_def fd_writable_def)

lemma Lstream_write_conserves_witness:
  "\<exists>r k s' b'. Lstream_write (lstream_filedesc slow_os) [1, 2, 3, 4, 5] slow_stream = Some (Inr r, s') \<and> k \<le> 5 \<and> out_holds s' b' \<and>
    fd_os (ls_data s') @ b' = take k [1, 2, 3, 4, 5] \<and> ls_byte_count s' = int k \<and> (k = 5 \<or> ls_error_occurred_p s')"
proof -
  have l: "length [] + length [1, 2, 3, 4, 5 :: byte] < 2 ^ 31" by simp
  have w: "False \<longrightarrow> \<not> ls_error_occurred_p slow_stream" by simp
  have c: "LSTR_NO_PARTIAL_CHARS (ls_flags slow_stream) \<longrightarrow> whole_chars (fd_os (ls_data slow_stream)) \<and> text_prefix ([] @ [1, 2, 3, 4, 5])"
    using slow_stream_open by simp
  from Lstream_write_conserves [OF filedesc_sink [OF slow_os_sends] slow_stream_open(1-3) TrueI l slow_stream_open(6) w c]
  obtain r k s' b' where 1: "Lstream_write (lstream_filedesc slow_os) [1, 2, 3, 4, 5] slow_stream = Some (Inr r, s')"
    "k \<le> length [1, 2, 3, 4, 5 :: byte]" "out_holds s' b'" "fd_os (ls_data s') @ b' = fd_os (ls_data slow_stream) @ [] @ take k [1, 2, 3, 4, 5]"
    "ls_byte_count s' = ls_byte_count slow_stream + int k"
    "k < length [1, 2, 3, 4, 5 :: byte] \<longrightarrow> ls_error_occurred_p s' \<or>
      ls_buffering slow_stream = LSTREAM_UNBUFFERED \<and> LSTR_NO_SQUIRREL (ls_flags slow_stream)"
    by (elim exE conjE) (rule that; assumption)
  have "k = 5 \<or> ls_error_occurred_p s'" using 1(2,6) slow_stream_open(8) by auto
  then show ?thesis using 1 slow_stream_open by (intro exI [of _ r] exI [of _ k] exI [of _ s'] exI [of _ b']) simp
qed

section \<open>String streams\<close>

text \<open>A string stream in a program: several times, pieces are written and then the string is taken.\<close>

fun string_sessions :: "byte list list list \<Rightarrow> resizing_buffer_stream lstream \<Rightarrow> (byte list list, resizing_buffer_stream) lout" where
  "string_sessions [] s = Some (Inr [], s)"
| "string_sessions (bss # ss) s =
     lbind (write_pieces lstream_resizing_buffer bss s) (\<lambda>_ s.
     lbind (Fget_output_stream_string s) (\<lambda>str s.
     lbind (string_sessions ss s) (\<lambda>strs s. Some (Inr (str # strs), s))))"

definition string_stream_empty :: "resizing_buffer_stream lstream \<Rightarrow> bool" where
  "string_stream_empty s \<longleftrightarrow> resizing.out_state s [] [] 0 \<and> ls_byte_count s = 0 \<and>
     \<not> LSTR_NO_SQUIRREL (ls_flags s) \<and> \<not> LSTR_NO_PARTIAL_CHARS (ls_flags s)"

lemma resizing_out_state_room: "resizing.out_state s b T m = resizing.out_state s b T m'"
  by (simp add: resizing.out_state_def resizing.writable_def)

lemma Fmake_string_output_stream_empty: "string_stream_empty Fmake_string_output_stream"
  by (simp add: string_stream_empty_def resizing.out_state_def resizing.writable_def Fmake_string_output_stream_def
      make_resizing_buffer_output_stream_def Lstream_new_def Lstream_set_buffering_def no_flags_def out_holds_def buf_holds_def
      rb_contents_def rb_valid_def)

lemma string_session_ok:
  assumes "string_stream_empty s" "length (concat bss) < 2 ^ 31"
  shows "\<exists>s1 s2. write_pieces lstream_resizing_buffer bss s = Some (Inr True, s1) \<and>
    Fget_output_stream_string s1 = Some (Inr (concat bss), s2) \<and> string_stream_empty s2"
proof -
  let ?n = "length (concat bss)"
  have st: "resizing.out_state s [] [] ?n" "ls_byte_count s = 0" "\<not> LSTR_NO_SQUIRREL (ls_flags s)" "\<not> LSTR_NO_PARTIAL_CHARS (ls_flags s)"
    using assms(1) resizing_out_state_room unfolding string_stream_empty_def by blast+
  have p: "\<not> (ls_buffering s = LSTREAM_UNBUFFERED \<and> LSTR_NO_SQUIRREL (ls_flags s))" "length [] + ?n < 2 ^ 31"
    "LSTR_NO_PARTIAL_CHARS (ls_flags s) \<longrightarrow> whole_chars ([] @ concat bss)" using st assms(2) by simp_all
  from resizing.pieces_flushed [OF st(1) order.refl p(2) TrueI p(1,3)] obtain s1 s2 where
    1: "write_pieces lstream_resizing_buffer bss s = Some (Inr True, s1)" "Lstream_flush lstream_resizing_buffer s1 = Some (Inr 0, s2)"
      "resizing.out_state s2 [] ([] @ concat bss) (?n - ?n)" "ls_flags s2 = ls_flags s" "ls_byte_count s2 = ls_byte_count s + int ?n"
    by (elim exE conjE) (rule that; assumption)
  have c: "rb_contents (ls_data s2) = concat bss" "rb_valid (ls_data s2)" "\<not> ls_error_occurred_p s2"
    using 1(3) by (simp_all add: resizing.out_state_def resizing.writable_def)
  have get: "resizing_buffer_to_lisp_string s1 = Some (Inr (concat bss), s2)"
    using buf_holds_bytes [OF c(2) [unfolded rb_valid_def]] buf_holds_length [OF c(2) [unfolded rb_valid_def]] c(1) 1(2,5) st(2)
    by (simp add: resizing_buffer_to_lisp_string_def lbind_def)
  have wok: "resizing.writes_ok s2 []" using 1(4) st(4) by (simp add: resizing.writes_ok_def)
  from resizing.Lstream_flush_ok [OF 1(3) _ wok] 1(4) st(4) obtain s3 where
    2: "Lstream_flush lstream_resizing_buffer s2 = Some (Inr 0, s3)" "resizing.out_state s3 [] ([] @ concat bss) (?n - ?n)" "ls_flags s3 = ls_flags s2"
    by force
  let ?s4 = "s3\<lparr>ls_byte_count := 0, ls_unget_character_count := 0, ls_data := (ls_data s3)\<lparr>rb_stored := 0\<rparr>\<rparr>"
  have v: "rb_valid (ls_data s3)" "\<not> ls_error_occurred_p s3" using 2(2) by (simp_all add: resizing.out_state_def resizing.writable_def)
  have d: "(s3\<lparr>ls_byte_count := 0, ls_unget_character_count := 0\<rparr>)\<lparr>ls_error_occurred_p := False, ls_data := (ls_data s3)\<lparr>rb_stored := 0\<rparr>\<rparr> = ?s4"
    using v(2) by simp
  have "Lstream_rewind lstream_resizing_buffer s2 = Some (Inr 0, ?s4)"
    using 2(1) v(2) d by (simp add: Lstream_rewind_def lstream_resizing_buffer_def lbind_def resizing_buffer_rewinder_def method_result_def)
  then have "Fget_output_stream_string s1 = Some (Inr (concat bss), ?s4)"
    using get by (simp add: Fget_output_stream_string_def lbind_def)
  moreover have "rb_valid ((ls_data s3)\<lparr>rb_stored := 0\<rparr>) \<and> rb_contents ((ls_data s3)\<lparr>rb_stored := 0\<rparr>) = []"
    using buf_holds_reset [OF v(1) [unfolded rb_valid_def]] by (intro rb_validI) simp
  then have "string_stream_empty ?s4"
    using 2(2,3) 1(4) st v(2) by (simp add: string_stream_empty_def resizing.out_state_def resizing.writable_def out_holds_def)
  ultimately show ?thesis using 1(1) by blast
qed

lemma string_sessions_ok:
  assumes "string_stream_empty s" "list_all (\<lambda>bss. length (concat bss) < 2 ^ 31) ss"
  shows "\<exists>s'. string_sessions ss s = Some (Inr (map concat ss), s') \<and> string_stream_empty s'"
  using assms
proof (induction ss arbitrary: s)
  case (Cons bss ss)
  obtain s1 s2 where 1: "write_pieces lstream_resizing_buffer bss s = Some (Inr True, s1)"
    "Fget_output_stream_string s1 = Some (Inr (concat bss), s2)" "string_stream_empty s2"
    using string_session_ok [OF Cons.prems(1), of bss] Cons.prems(2) by auto
  then show ?case using Cons.IH [OF 1(3)] Cons.prems(2) by (auto simp: lbind_def)
qed simp

text \<open>C24: each string taken from a string output stream is what was written to it since the last one, in order, whatever the
  pieces it was written in.\<close>

theorem string_output_stream_strings:
  assumes "list_all (\<lambda>bss. length (concat bss) < 2 ^ 31) ss"
  shows "map_option fst (string_sessions ss Fmake_string_output_stream) = Some (Inr (map concat ss))"
  using string_sessions_ok [OF Fmake_string_output_stream_empty assms] by auto

lemma string_output_stream_strings_witness:
  "map_option fst (string_sessions [[[65, 66], [67]], [], [[68], [], [69]]] Fmake_string_output_stream) =
     Some (Inr [[65, 66, 67], [], [68, 69]])"
  using string_output_stream_strings [of "[[[65, 66], [67]], [], [[68], [], [69]]]"] by simp

text \<open>A dynarr stream with any buffering: after the pieces are written and the stream is flushed, the dynarr has its
  old elements followed by everything that was written.\<close>

theorem dynarr_stream_collects:
  assumes "dy_wf d" "dy_elsize d = 1" "dy_len d + length (concat bss) < 2 ^ 62" "length (concat bss) < 2 ^ 31"
  shows "\<exists>s1 s2. write_pieces lstream_dynarr bss (Lstream_set_buffering buffering n (make_dynarr_output_stream d)) = Some (Inr True, s1) \<and>
    Lstream_flush lstream_dynarr s1 = Some (Inr 0, s2) \<and> dy_wf (ls_data s2) \<and> dy_els (ls_data s2) = dy_els d @ concat bss \<and>
    ls_byte_count s2 = int (length (concat bss))"
proof -
  let ?s = "Lstream_set_buffering buffering n (make_dynarr_output_stream d)"
  have s: "dynarr.out_state ?s [] (dy_els d) (length (concat bss))" "ls_byte_count ?s = 0"
      "\<not> LSTR_NO_PARTIAL_CHARS (ls_flags ?s)" "\<not> LSTR_NO_SQUIRREL (ls_flags ?s)"
    using assms by (simp_all add: dynarr.out_state_def dynarr.writable_def make_dynarr_output_stream_def Lstream_new_def
        Lstream_set_buffering_def no_flags_def out_holds_def buf_holds_def byte_dynarr_def dynarr_space_def)
  have p: "length [] + length (concat bss) < 2 ^ 31" "\<not> (ls_buffering ?s = LSTREAM_UNBUFFERED \<and> LSTR_NO_SQUIRREL (ls_flags ?s))"
    "LSTR_NO_PARTIAL_CHARS (ls_flags ?s) \<longrightarrow> whole_chars ([] @ concat bss)" using s assms(4) by simp_all
  from dynarr.pieces_flushed [OF s(1) order.refl p(1) TrueI p(2,3)] obtain s1 s2 where
    "write_pieces lstream_dynarr bss ?s = Some (Inr True, s1)" "Lstream_flush lstream_dynarr s1 = Some (Inr 0, s2)"
    "dynarr.out_state s2 [] (dy_els d @ concat bss) (length (concat bss) - length (concat bss))"
    "ls_byte_count s2 = ls_byte_count ?s + int (length (concat bss))" by (elim exE conjE) (rule that; assumption)
  then show ?thesis using s(2) by (auto simp: dynarr.out_state_def dynarr.writable_def byte_dynarr_def)
qed

lemma dynarr_stream_collects_witness:
  "\<exists>s1 s2. write_pieces lstream_dynarr [[1, 2], [3]] (Lstream_set_buffering LSTREAM_BLOCKN_BUFFERED 2
       (make_dynarr_output_stream (Dynarr_newf 1))) = Some (Inr True, s1) \<and>
    Lstream_flush lstream_dynarr s1 = Some (Inr 0, s2) \<and> dy_els (ls_data s2) = [1, 2, 3]"
proof -
  have "dy_wf (Dynarr_newf 1 :: byte dynarr)" "dy_elsize (Dynarr_newf 1 :: byte dynarr) = 1" "dy_len (Dynarr_newf 1 :: byte dynarr) = 0"
    "dy_els (Dynarr_newf 1 :: byte dynarr) = []" by (simp_all add: Dynarr_newf_def fits_size_def dy_wf_def dy_els_def)
  then show ?thesis
    using dynarr_stream_collects [of "Dynarr_newf 1" "[[1, 2], [3]]" LSTREAM_BLOCKN_BUFFERED 2] by auto
qed

end
