(* ===== verification/Lstream_Sources.thy ===== *)
theory Lstream_Sources
  imports Lstream_Read Lstream_Sinks
begin

text \<open>
  The implementations of input streams keep the contract of reading (\<open>lstream_source\<close>): fixed buffers, Lisp strings outside
  character mode, and file descriptors.  What reading does follows, and three ways in which the code falls
  short of what it promises.
\<close>

section \<open>Fixed buffers\<close>

definition fb_rest :: "fixed_buffer_stream \<Rightarrow> byte list" where
  "fb_rest d = map the (take (fb_size d - fb_offset d) (drop (fb_offset d) (fb_inbuf d)))"

definition fb_readable :: "fixed_buffer_stream \<Rightarrow> bool" where
  "fb_readable d \<longleftrightarrow> fb_size d = length (fb_inbuf d) \<and> fb_offset d \<le> fb_size d \<and> inited (drop (fb_offset d) (fb_inbuf d))"

lemma fixed_buffer_reader_ok:
  assumes "fb_readable (ls_data s)" "\<not> ls_error_occurred_p s"
  shows "\<exists>d. fixed_buffer_reader s n = Some (Inr (take n (fb_rest (ls_data s))), s\<lparr>ls_error_occurred_p := False, ls_data := d\<rparr>) \<and>
    fb_readable d \<and> fb_rest d = drop n (fb_rest (ls_data s))"
proof -
  let ?d = "ls_data s"
  obtain R where R: "drop (fb_offset ?d) (fb_inbuf ?d) = map Some R" using assms(1) by (auto simp: fb_readable_def inited_conv)
  have l: "length R = fb_size ?d - fb_offset ?d" "fb_offset ?d \<le> fb_size ?d" "fb_size ?d = length (fb_inbuf ?d)"
    using assms(1) arg_cong [OF R, of length] by (simp_all add: fb_readable_def)
  have rest: "fb_rest ?d = R" using l(1) by (simp add: fb_rest_def R comp_def)
  let ?k = "min n (fb_size ?d - fb_offset ?d)"
  have "fb_inbuf ?d = take (fb_offset ?d) (fb_inbuf ?d) @ map Some (take n R) @ map Some (drop n R)"
    using R by (metis append_take_drop_id map_append)
  moreover have "length (take (fb_offset ?d) (fb_inbuf ?d)) = fb_offset ?d" "length (take n R) = ?k" using l by auto
  ultimately have "mem_bytes (fb_inbuf ?d) (fb_offset ?d) ?k = Some (take n R)"
    using mem_bytes_at [of "take (fb_offset ?d) (fb_inbuf ?d)" "take n R" "map Some (drop n R)"] by simp
  then have "fixed_buffer_reader s n =
      Some (Inr (take n R), s\<lparr>ls_error_occurred_p := False, ls_data := ?d\<lparr>fb_offset := fb_offset ?d + ?k\<rparr>\<rparr>)"
    using assms(2) by (simp add: fixed_buffer_reader_def Let_def method_result_eq)
  moreover have dr: "drop (fb_offset ?d + ?k) (fb_inbuf ?d) = map Some (drop n R)"
  proof -
    have "drop (fb_offset ?d + ?k) (fb_inbuf ?d) = drop ?k (drop (fb_offset ?d) (fb_inbuf ?d))" by (simp add: add.commute)
    also have "\<dots> = map Some (drop ?k R)" unfolding R by (simp add: drop_map)
    also have "drop ?k R = drop n R" using l(1) by (cases "n \<le> length R") auto
    finally show ?thesis .
  qed
  moreover have "fb_readable (?d\<lparr>fb_offset := fb_offset ?d + ?k\<rparr>)" using dr l by (simp add: fb_readable_def)
  moreover have "fb_rest (?d\<lparr>fb_offset := fb_offset ?d + ?k\<rparr>) = drop n R" using dr l by (simp add: fb_rest_def comp_def)
  ultimately show ?thesis using rest by (intro exI [of _ "?d\<lparr>fb_offset := fb_offset ?d + ?k\<rparr>"]) simp
qed

interpretation fixed_source: lstream_source lstream_fixed_buffer fixed_buffer_reader fb_rest "\<lambda>f. fb_readable" True
proof
  fix s :: "fixed_buffer_stream lstream" and n :: nat
  assume "fb_readable (ls_data s)" "\<not> ls_error_occurred_p s" "0 < n"
  from fixed_buffer_reader_ok [OF this(1,2)] \<open>0 < n\<close> show
    "\<exists>bs e d. fixed_buffer_reader s n = Some (Inr bs, s\<lparr>ls_error_occurred_p := e, ls_data := d\<rparr>) \<and> length bs \<le> n \<and>
      fb_rest (ls_data s) = bs @ fb_rest d \<and> fb_readable d \<and> (True \<longrightarrow> \<not> e \<and> (bs = [] \<longrightarrow> fb_rest (ls_data s) = []))"
    by fastforce
qed (simp add: lstream_fixed_buffer_def no_methods_def)

section \<open>Lisp strings\<close>

definition str_rest :: "lisp_string_stream \<Rightarrow> byte list" where
  "str_rest d = take (str_end d - str_offset d) (drop (str_offset d) (str_obj d))"

definition str_readable :: "lstr_flags \<Rightarrow> lisp_string_stream \<Rightarrow> bool" where
  "str_readable f d \<longleftrightarrow> \<not> LSTR_NO_PARTIAL_CHARS f \<and> str_offset d \<le> str_end d \<and> str_end d \<le> length (str_obj d)"

lemma mem_bytes_list: "p + k \<le> length xs \<Longrightarrow> mem_bytes (map Some xs) p k = Some (take k (drop p xs))"
  by (auto simp: mem_bytes_def list_all_iff drop_map take_map comp_def)

lemma lisp_string_reader_ok:
  assumes "str_readable (ls_flags s) (ls_data s)" "\<not> ls_error_occurred_p s"
  shows "\<exists>d. lisp_string_reader s n = Some (Inr (take n (str_rest (ls_data s))), s\<lparr>ls_error_occurred_p := False, ls_data := d\<rparr>) \<and>
    str_readable (ls_flags s) d \<and> str_rest d = drop n (str_rest (ls_data s))"
proof -
  let ?d = "ls_data s"
  let ?k = "min n (str_end ?d - str_offset ?d)"
  have v: "\<not> LSTR_NO_PARTIAL_CHARS (ls_flags s)" "str_offset ?d \<le> str_end ?d" "str_end ?d \<le> length (str_obj ?d)"
    using assms(1) by (simp_all add: str_readable_def)
  have b: "mem_bytes (map Some (str_obj ?d @ [0])) (str_offset ?d) ?k = Some (take n (str_rest ?d))"
  proof -
    have "take n (str_rest ?d) = take ?k (drop (str_offset ?d) (str_obj ?d))" by (simp add: str_rest_def)
    also have "\<dots> = take ?k (drop (str_offset ?d) (str_obj ?d @ [0]))" using v(2,3) by simp
    finally show ?thesis using mem_bytes_list [of "str_offset ?d" ?k "str_obj ?d @ [0]"] v(2,3) by simp
  qed
  let ?e = "?d\<lparr>str_offset := str_offset ?d + ?k\<rparr>"
  have "lisp_string_reader s n = Some (Inr (take n (str_rest ?d)), s\<lparr>ls_error_occurred_p := False, ls_data := ?e\<rparr>)"
    using v b assms(2) by (simp add: lisp_string_reader_def Let_def method_result_eq)
  moreover have "str_rest ?e = drop n (str_rest ?d)"
    using v by (cases "n \<le> str_end ?d - str_offset ?d") (simp_all add: str_rest_def drop_take add.commute)
  ultimately show ?thesis using v by (intro exI [of _ ?e]) (simp add: str_readable_def)
qed

interpretation string_source: lstream_source lstream_lisp_string lisp_string_reader str_rest str_readable True
proof
  fix s :: "lisp_string_stream lstream" and n :: nat
  assume "str_readable (ls_flags s) (ls_data s)" "\<not> ls_error_occurred_p s" "0 < n"
  from lisp_string_reader_ok [OF this(1,2)] \<open>0 < n\<close> show
    "\<exists>bs e d. lisp_string_reader s n = Some (Inr bs, s\<lparr>ls_error_occurred_p := e, ls_data := d\<rparr>) \<and> length bs \<le> n \<and>
      str_rest (ls_data s) = bs @ str_rest d \<and> str_readable (ls_flags s) d \<and> (True \<longrightarrow> \<not> e \<and> (bs = [] \<longrightarrow> str_rest (ls_data s) = []))"
    by fastforce
qed (simp add: lstream_lisp_string_def no_methods_def)

section \<open>File descriptors\<close>

text \<open>What the system calls promise: a read gives the next bytes, and none only at the end; a process is not interrupted for
  ever, and when \<open>err\<close> is false, a read does not fail otherwise.\<close>

definition os_receives_with :: "('o \<Rightarrow> nat) \<Rightarrow> bool \<Rightarrow> 'o os_calls \<Rightarrow> ('o \<Rightarrow> byte list) \<Rightarrow> bool" where
  "os_receives_with patience err os incoming \<longleftrightarrow> (\<forall>x n. case os_read os x (int n) of
     (Sys_ok bs, y) \<Rightarrow> length bs \<le> n \<and> incoming x = bs @ incoming y \<and> (bs = [] \<longrightarrow> n = 0 \<or> incoming x = [])
   | (Sys_error e, y) \<Rightarrow> incoming y = incoming x \<and> (if e = EINTR then patience y < patience x else err))"

definition os_receives :: "bool \<Rightarrow> 'o os_calls \<Rightarrow> ('o \<Rightarrow> byte list) \<Rightarrow> bool" where
  "os_receives err os incoming \<longleftrightarrow> (\<exists>patience. os_receives_with patience err os incoming)"

definition read_outcome :: "bool \<Rightarrow> ('o \<Rightarrow> byte list) \<Rightarrow> nat \<Rightarrow> 'o \<Rightarrow> byte list sys_result \<Rightarrow> 'o \<Rightarrow> bool" where
  "read_outcome err incoming n x r y \<longleftrightarrow> (case r of
     Sys_ok bs \<Rightarrow> length bs \<le> n \<and> incoming x = bs @ incoming y \<and> (bs = [] \<longrightarrow> n = 0 \<or> incoming x = [])
   | Sys_error e \<Rightarrow> incoming y = incoming x \<and> err)"

lemma retry_read_1_ok:
  assumes os: "os_receives_with patience err os incoming" and q: "allow_quit \<longrightarrow> os_quiet os"
  shows "\<exists>r y. retry_read_1 os allow_quit (int n) x = Some (Inr r, y) \<and> read_outcome err incoming n x r y"
proof (induction "patience x" arbitrary: x rule: less_induct)
  case less
  obtain w z where p: "os_read os x (int n) = (w, z)" by fastforce
  have quiet: "(if allow_quit then os_quit os z else (False, z)) = (False, z)" using q by (simp add: os_quiet_def)
  have h: "case (w, z) of (Sys_ok bs, y) \<Rightarrow> length bs \<le> n \<and> incoming x = bs @ incoming y \<and> (bs = [] \<longrightarrow> n = 0 \<or> incoming x = [])
    | (Sys_error e, y) \<Rightarrow> incoming y = incoming x \<and> (if e = EINTR then patience y < patience x else err)"
    using os [unfolded os_receives_with_def, THEN spec, THEN spec, of n x] by (simp only: p)
  show ?case
  proof (cases "w = Sys_error EINTR")
    case True
    then have s: "incoming z = incoming x" "patience z < patience x" using h by simp_all
    have "retry_read_1 os allow_quit (int n) x = retry_read_1 os allow_quit (int n) z"
      using p quiet True by (subst retry_read_1.simps) (simp add: Let_def)
    moreover have "read_outcome err incoming n z r y = read_outcome err incoming n x r y" for r y
      using s(1) by (cases r) (simp_all add: read_outcome_def)
    ultimately show ?thesis using less [OF s(2)] by simp
  next
    case False
    then have "retry_read_1 os allow_quit (int n) x = Some (Inr w, z)"
      using p by (subst retry_read_1.simps) (simp add: Let_def)
    moreover have "read_outcome err incoming n x w z" using h False by (auto simp: read_outcome_def split: sys_result.splits)
    ultimately show ?thesis by blast
  qed
qed

lemma fd_read_ok:
  assumes "os_receives err os incoming" "LSTR_ALLOW_QUIT f \<longrightarrow> os_quiet os"
  shows "\<exists>r y. fd_read os f (int n) x = Some (Inr r, y) \<and> read_outcome err incoming n x r y"
proof -
  obtain patience where p: "os_receives_with patience err os incoming" using assms(1) by (auto simp: os_receives_def)
  show ?thesis using retry_read_1_ok [OF p, of "LSTR_ALLOW_QUIT f" n x] assms(2)
    by (auto simp: fd_read_def read_allowing_quit_def retry_read_def os_quiet_def)
qed

definition fd_rest :: "('o \<Rightarrow> byte list) \<Rightarrow> 'o filedesc_stream \<Rightarrow> byte list" where
  "fd_rest incoming d =
     (if fd_end_pos d < 0 then incoming (fd_os d) else take (nat (fd_end_pos d - fd_current_pos d)) (incoming (fd_os d)))"

definition fd_readable :: "'o filedesc_stream \<Rightarrow> bool" where
  "fd_readable d \<longleftrightarrow> fd_end_pos d < 0 \<or> fd_current_pos d \<le> fd_end_pos d"

lemma filedesc_reader_ok:
  assumes os: "os_receives err os incoming" and q: "LSTR_ALLOW_QUIT (ls_flags s) \<longrightarrow> os_quiet os"
    and s: "fd_readable (ls_data s)" "\<not> ls_error_occurred_p s" "0 < n"
  shows "\<exists>bs e d. filedesc_reader os s n = Some (Inr bs, s\<lparr>ls_error_occurred_p := e, ls_data := d\<rparr>) \<and> length bs \<le> n \<and>
    fd_rest incoming (ls_data s) = bs @ fd_rest incoming d \<and> fd_readable d \<and>
    (\<not> err \<longrightarrow> \<not> e \<and> (bs = [] \<longrightarrow> fd_rest incoming (ls_data s) = []))"
proof -
  let ?d = "ls_data s"
  define m where "m = (if fd_end_pos ?d \<ge> 0 then min (int n) (fd_end_pos ?d - fd_current_pos ?d) else int n)"
  have m: "0 \<le> m" "m \<le> int n" using s(1) by (auto simp: m_def fd_readable_def)
  from fd_read_ok [OF os q, of "nat m" "fd_os ?d"] m(1) obtain r y where
    p: "fd_read os (ls_flags s) m (fd_os ?d) = Some (Inr r, y)" and w: "read_outcome err incoming (nat m) (fd_os ?d) r y" by auto
  show ?thesis
  proof (cases r)
    case (Sys_ok bs)
    let ?e = "?d\<lparr>fd_current_pos := fd_current_pos ?d + int (length bs), fd_os := y\<rparr>"
    have b: "length bs \<le> nat m" "incoming (fd_os ?d) = bs @ incoming y" "bs = [] \<longrightarrow> nat m = 0 \<or> incoming (fd_os ?d) = []"
      using w unfolding Sys_ok read_outcome_def by auto
    have "filedesc_reader os s n = Some (Inr bs, s\<lparr>ls_error_occurred_p := False, ls_data := ?e\<rparr>)"
      using m(1) p Sys_ok s(2) by (simp add: filedesc_reader_def Let_def m_def [symmetric] method_result_eq)
    moreover have le: "fd_current_pos ?d + int (length bs) \<le> fd_end_pos ?d" if "\<not> fd_end_pos ?d < 0"
      using b(1) m that s(1) by (simp add: m_def)
    have "fd_rest incoming ?d = bs @ fd_rest incoming ?e"
    proof (cases "fd_end_pos ?d < 0")
      case False
      have "nat (fd_end_pos ?d - fd_current_pos ?d) = length bs + nat (fd_end_pos ?d - (fd_current_pos ?d + int (length bs)))"
        using le [OF False] by linarith
      then show ?thesis using False b(2) by (simp add: fd_rest_def)
    qed (use b(2) in \<open>simp add: fd_rest_def\<close>)
    moreover have "fd_readable ?e" using le by (auto simp: fd_readable_def)
    moreover have "bs = [] \<longrightarrow> fd_rest incoming ?d = []"
      using b(3) m s(3) by (auto simp: fd_rest_def m_def split: if_splits)
    ultimately show ?thesis using b(1) m by (intro exI [of _ bs] exI [of _ False] exI [of _ ?e]) auto
  next
    case (Sys_error b)
    let ?e = "?d\<lparr>fd_os := y\<rparr>"
    have "filedesc_reader os s n = Some (Inr [], s\<lparr>ls_error_occurred_p := True, ls_data := ?e\<rparr>)"
      using m(1) p Sys_error s(2) by (simp add: filedesc_reader_def Let_def m_def [symmetric] method_result_eq)
    moreover have "fd_rest incoming ?e = fd_rest incoming ?d" "err" using w Sys_error by (simp_all add: fd_rest_def read_outcome_def)
    ultimately show ?thesis using s(1) by (intro exI [of _ "[]"] exI [of _ True] exI [of _ ?e]) (simp add: fd_readable_def)
  qed
qed

text \<open>Its flags must not let a quit through, or none is pending.\<close>

definition fd_valid :: "'o os_calls \<Rightarrow> lstr_flags \<Rightarrow> 'o filedesc_stream \<Rightarrow> bool" where
  "fd_valid os f d \<longleftrightarrow> (LSTR_ALLOW_QUIT f \<longrightarrow> os_quiet os) \<and> fd_readable d"

lemma filedesc_source:
  assumes "os_receives err os incoming"
  shows "lstream_source (lstream_filedesc os) (filedesc_reader os) (fd_rest incoming) (fd_valid os) (\<not> err)"
proof
  fix s :: "'a filedesc_stream lstream" and n :: nat
  assume 1: "fd_valid os (ls_flags s) (ls_data s)" "\<not> ls_error_occurred_p s" "0 < n"
  from filedesc_reader_ok [OF assms _ _ 1(2,3)] 1(1) show
    "\<exists>bs e d. filedesc_reader os s n = Some (Inr bs, s\<lparr>ls_error_occurred_p := e, ls_data := d\<rparr>) \<and> length bs \<le> n \<and>
      fd_rest incoming (ls_data s) = bs @ fd_rest incoming d \<and> fd_valid os (ls_flags s) d \<and>
      (\<not> err \<longrightarrow> \<not> e \<and> (bs = [] \<longrightarrow> fd_rest incoming (ls_data s) = []))"
    unfolding fd_valid_def by blast
qed (simp add: lstream_filedesc_def no_methods_def)


section \<open>What reading does\<close>

text \<open>C6: a read takes bytes from the start of what is still to come, which is the bytes that were pushed back, those in the
  input buffer and those that the implementation still holds, and it leaves the rest to come; the byte count grows by
  their number.  In character mode it takes whole characters only.  When the implementation gives all it has, it takes as
  many bytes as are asked for and there.\<close>

theorem Lstream_read_takes:
  assumes imp: "lstream_source imp reader source valid prompt"
    and open': "LSTR_IS_OPEN (ls_flags s)" "LSTR_READ (ls_flags s)" "valid (ls_flags s) (ls_data s)"
    and T: "pending source s T" "LSTR_NO_PARTIAL_CHARS (ls_flags s) \<longrightarrow> text_prefix T"
  shows "\<exists>r bs T' s'. Lstream_read imp n s = Some (Inr r, s') \<and> (r = Some bs \<or> r = None \<and> bs = []) \<and> length bs \<le> n \<and>
    T = bs @ T' \<and> pending source s' T' \<and> ls_byte_count s' = ls_byte_count s + int (length bs) \<and>
    (LSTR_NO_PARTIAL_CHARS (ls_flags s) \<longrightarrow> whole_chars bs) \<and>
    (prompt \<longrightarrow> r = Some bs \<and> ((LSTR_NO_PARTIAL_CHARS (ls_flags s) \<longrightarrow> whole_chars (take n T)) \<longrightarrow> bs = take n T))"
proof -
  have st: "lstream_source.in_state source valid s T"
    using open' T(1) by (simp add: lstream_source.in_state_def [OF imp] lstream_source.readable_def [OF imp])
  have "LSTR_NO_PARTIAL_CHARS (ls_flags s) \<and> \<not> False \<longrightarrow> text_prefix T" using T(2) by simp
  from lstream_source.Lstream_read_1_ok [OF imp st this, where sz = n] obtain r bs T' s' where
    1: "Lstream_read_1 imp n False s = Some (Inr r, s')" "r = Some bs \<or> r = None \<and> bs = []" "T = bs @ T'"
      "lstream_source.in_state source valid s' T'" "length bs \<le> n" "ls_byte_count s' = ls_byte_count s + int (length bs)"
      "LSTR_NO_PARTIAL_CHARS (ls_flags s) \<and> \<not> False \<longrightarrow> whole_chars bs"
      "prompt \<longrightarrow> r = Some bs \<and>
        ((LSTR_NO_PARTIAL_CHARS (ls_flags s) \<and> \<not> False \<longrightarrow> whole_chars (take n T)) \<longrightarrow> bs = take n T)"
    by (elim exE conjE) (rule that; assumption)
  have "Lstream_read imp n s = Some (Inr r, s')" using 1(1) by (simp add: Lstream_read_def)
  moreover have "pending source s' T'" using 1(4) by (simp add: lstream_source.in_state_def [OF imp])
  ultimately show ?thesis using 1(2,3,5,6,7,8) by (intro exI [of _ r] exI [of _ bs] exI [of _ T'] exI [of _ s']) simp
qed

lemma pending_new:
  "pending source (Lstream_set_buffering buffering n (Lstream_new flags d)) (source d)"
  by (simp add: pending_def direct_def unget_holds_def in_holds_def buf_holds_def Lstream_new_def Lstream_set_buffering_def)

lemma pending_new_block: "pending source (Lstream_new flags d) (source d)"
  by (simp add: pending_def direct_def unget_holds_def in_holds_def buf_holds_def Lstream_new_def Lstream_set_buffering_def)

lemma Lstream_set_buffering_sel [simp]:
  "ls_flags (Lstream_set_buffering b n s) = ls_flags s" "ls_data (Lstream_set_buffering b n s) = ls_data s"
  "ls_byte_count (Lstream_set_buffering b n s) = ls_byte_count s"
  by (simp_all add: Lstream_set_buffering_def)

lemma Lstream_new_sel [simp]:
  "ls_flags (Lstream_new flags d) = flags\<lparr>LSTR_IS_OPEN := True\<rparr>" "ls_data (Lstream_new flags d) = d"
  "ls_byte_count (Lstream_new flags d) = 0"
  by (simp_all add: Lstream_new_def)

lemma Lstream_read_takes_witness:
  "\<exists>r bs T' s'. Lstream_read lstream_fixed_buffer 2 (make_fixed_buffer_input_stream [65, 66, 67]) = Some (Inr r, s') \<and>
    [65, 66, 67] = bs @ T' \<and> pending fb_rest s' T' \<and> bs = [65, 66]"
proof -
  let ?s = "make_fixed_buffer_input_stream [65, 66, 67]"
  have r: "fb_rest (ls_data ?s) = [65, 66, 67]" by (simp add: make_fixed_buffer_input_stream_def fb_rest_def)
  have "pending fb_rest ?s (fb_rest (ls_data ?s))" by (simp only: make_fixed_buffer_input_stream_def Lstream_new_sel pending_new_block)
  then have "pending fb_rest ?s [65, 66, 67]" by (simp only: r)
  moreover have "LSTR_IS_OPEN (ls_flags ?s)" "LSTR_READ (ls_flags ?s)" "fb_readable (ls_data ?s)" "\<not> LSTR_NO_PARTIAL_CHARS (ls_flags ?s)"
    by (simp_all add: make_fixed_buffer_input_stream_def no_flags_def fb_readable_def)
  ultimately show ?thesis
    using Lstream_read_takes [OF fixed_source.lstream_source_axioms, of ?s "[65, 66, 67]" 2] by fastforce
qed

text \<open>C25: bytes that are pushed back are what the next read gives, and the stream is then as it was: the same
  bytes are pushed back under them, and the input buffer, the data and the byte count are the same.  In character
  mode this is so for whole characters.\<close>

theorem Lstream_unread_read:
  assumes "unget_holds s u" "LSTR_NO_PARTIAL_CHARS (ls_flags s) \<longrightarrow> whole_chars bs"
  shows "\<exists>s1 s2. Lstream_unread bs s = Some s1 \<and> Lstream_read imp (length bs) s1 = Some (Inr (Some bs), s2) \<and> unget_holds s2 u \<and>
    (\<forall>b. in_holds s2 b = in_holds s b) \<and> ls_data s2 = ls_data s \<and> ls_byte_count s2 = ls_byte_count s"
proof (cases "bs = []")
  case True
  from Lstream_unread_holds [OF assms(1), of "[]"] True show ?thesis by (auto simp: Lstream_read_def Lstream_read_1_def)
next
  case False
  from Lstream_unread_holds [OF assms(1), of bs] obtain s1 where
    1: "Lstream_unread bs s = Some s1" "unget_holds s1 (bs @ u)" "\<forall>b. in_holds s1 b = in_holds s b" "read_view s1 = read_view s"
      "ls_data s1 = ls_data s" "ls_byte_count s1 = ls_byte_count s - int (length bs)" by blast
  from take_ungot_ok [OF 1(2), of "length bs"] obtain s2 where
    2: "take_ungot (length bs) s1 = Some (bs, s2)" "unget_holds s2 u" "\<forall>b. in_holds s2 b = in_holds s1 b"
      "read_view s2 = read_view s1" "ls_data s2 = ls_data s1" "ls_byte_count s2 = ls_byte_count s1 + int (length bs)" by auto
  have v: "validate_ibyte_string_backward bs = Some (length bs)" if "LSTR_NO_PARTIAL_CHARS (ls_flags s2)"
  proof -
    have w: "whole_chars bs" using that assms(2) read_view_sel(1) [OF 1(4)] read_view_sel(1) [OF 2(4)] by simp
    with validate_ibyte_string_backward_ok [OF whole_text_prefix] show ?thesis by blast
  qed
  have "read_loop imp 0 bs s2 = Some (Inr (bs, False), s2)" by (subst read_loop.simps) simp
  then have "Lstream_read imp (length bs) s1 = Some (Inr (Some bs), s2)"
    using False 2(1) v by (simp add: Lstream_read_def Lstream_read_1_def lbind_def)
  then show ?thesis using 1 2 by auto
qed

lemma Lstream_unread_read_witness:
  "\<exists>s1 s2. Lstream_unread [65, 66] slow_stream = Some s1 \<and> Lstream_read (lstream_filedesc slow_os) 2 s1 = Some (Inr (Some [65, 66]), s2) \<and>
    unget_holds s2 [] \<and> ls_byte_count s2 = 0"
proof -
  have "unget_holds slow_stream []" "LSTR_NO_PARTIAL_CHARS (ls_flags slow_stream) \<longrightarrow> whole_chars [65, 66]"
    using slow_stream_open by (simp_all add: slow_stream_def make_filedesc_stream_1_def Lstream_new_def Lstream_set_buffering_def
        unget_holds_def buf_holds_def)
  from Lstream_unread_read [OF this, of "lstream_filedesc slow_os"] slow_stream_open(7) show ?thesis by (auto simp: numeral_2_eq_2)
qed

text \<open>C7: characters that are written to a string stream, made into a string and read back from a stream on this string, with any
  buffering, are the same characters.\<close>

theorem string_streams_roundtrip:
  assumes "chars_ok C" "length (concat C) < 2 ^ 31" "length C < n"
  shows "\<exists>s1 s2 str i. write_pieces lstream_resizing_buffer C Fmake_string_output_stream = Some (Inr True, s1) \<and>
    Fget_output_stream_string s1 = Some (Inr str, s2) \<and> make_lisp_string_input_stream str 0 (- 1) = Some i \<and>
    map_option fst (read_ichars n lstream_lisp_string (Lstream_set_buffering buffering k i)) = Some (Inr C)"
proof -
  from string_session_ok [OF Fmake_string_output_stream_empty assms(2)] obtain s1 s2 where
    1: "write_pieces lstream_resizing_buffer C Fmake_string_output_stream = Some (Inr True, s1)"
      "Fget_output_stream_string s1 = Some (Inr (concat C), s2)" by blast
  let ?d = "\<lparr>str_obj = concat C, str_init_offset = 0, str_offset = 0, str_end = length (concat C)\<rparr>"
  let ?f = "no_flags\<lparr>LSTR_READ := True\<rparr>"
  let ?s = "Lstream_set_buffering buffering k (Lstream_new ?f ?d)"
  have i: "make_lisp_string_input_stream (concat C) 0 (- 1) = Some (Lstream_new ?f ?d)"
    by (simp add: make_lisp_string_input_stream_def del: length_concat)
  have "str_rest ?d = concat C" by (simp add: str_rest_def)
  then have "pending str_rest ?s (concat C)" using pending_new [of str_rest buffering k ?f ?d] by simp
  then have "string_source.in_state ?s (concat C)"
    by (simp add: string_source.in_state_def string_source.readable_def str_readable_def no_flags_def)
  from string_source.read_ichars_ok [OF this assms(1) TrueI assms(3)] 1 i show ?thesis by auto
qed

lemma string_streams_roundtrip_witness:
  "\<exists>s1 s2 str i. write_pieces lstream_resizing_buffer [[65], [0x81, 0xE9]] Fmake_string_output_stream = Some (Inr True, s1) \<and>
    Fget_output_stream_string s1 = Some (Inr str, s2) \<and> make_lisp_string_input_stream str 0 (- 1) = Some i \<and>
    map_option fst (read_ichars 3 lstream_lisp_string (Lstream_set_buffering LSTREAM_BLOCKN_BUFFERED 1 i)) = Some (Inr [[65], [0x81, 0xE9]])"
proof -
  have "chars_ok [[65], [0x81, 0xE9]]" by (simp add: ichar_ok_def rep_bytes_by_first_byte_def byte_ascii_p_def ibyte_first_byte_p_def)
  then show ?thesis using string_streams_roundtrip [of "[[65], [0x81, 0xE9]]" 3 LSTREAM_BLOCKN_BUFFERED 1] by simp
qed


section \<open>Where the code falls short\<close>

text \<open>C23: a file descriptor stream that is limited to COUNT bytes gives exactly those when the descriptor can seek.  On a
  pipe the starting position is \<open>-1\<close>, and it gives one byte less; with COUNT 0 it is not limited at all.\<close>

theorem filedesc_read_limit:
  assumes "os_receives False os incoming" "0 \<le> cnt" "- 1 \<le> starting_pos"
  shows "map_option fst (Lstream_read (lstream_filedesc os) n (make_filedesc_input_stream x starting_pos cnt no_flags)) =
    Some (Inr (Some (take n (if starting_pos \<noteq> - 1 then take (nat cnt) (incoming x)
      else if cnt = 0 then incoming x else take (nat (cnt - 1)) (incoming x)))))"
proof -
  let ?s = "make_filedesc_input_stream x starting_pos cnt no_flags"
  let ?T = "fd_rest incoming (ls_data ?s)"
  note imp = filedesc_source [OF assms(1)]
  have p: "pending (fd_rest incoming) ?s ?T"
    by (simp only: make_filedesc_input_stream_def make_filedesc_stream_1_def Lstream_new_sel pending_new_block)
  have o: "LSTR_IS_OPEN (ls_flags ?s)" "LSTR_READ (ls_flags ?s)" "\<not> LSTR_NO_PARTIAL_CHARS (ls_flags ?s)"
    by (simp_all add: make_filedesc_input_stream_def make_filedesc_stream_1_def no_flags_def)
  have rd: "fd_valid os (ls_flags ?s) (ls_data ?s)"
    using assms(2,3) by (cases "starting_pos + cnt < 0")
      (auto simp: make_filedesc_input_stream_def make_filedesc_stream_1_def fd_readable_def fd_valid_def no_flags_def)
  have st: "lstream_source.in_state (fd_rest incoming) (fd_valid os) ?s ?T"
    using o p rd by (simp add: lstream_source.in_state_def [OF imp] lstream_source.readable_def [OF imp])
  have np: "LSTR_NO_PARTIAL_CHARS (ls_flags ?s) \<and> \<not> False \<longrightarrow> text_prefix ?T" using o(3) by simp
  from lstream_source.Lstream_read_1_ok [OF imp st np, where sz = n] o(3) have
    "map_option fst (Lstream_read (lstream_filedesc os) n ?s) = Some (Inr (Some (take n ?T)))"
    by (auto simp: Lstream_read_def)
  moreover have "?T = (if starting_pos \<noteq> - 1 then take (nat cnt) (incoming x)
      else if cnt = 0 then incoming x else take (nat (cnt - 1)) (incoming x))"
  proof (cases "starting_pos = - 1")
    case False
    then have "0 \<le> starting_pos" using assms(3) by linarith
    then show ?thesis using assms(2) by (simp add: make_filedesc_input_stream_def make_filedesc_stream_1_def fd_rest_def)
  qed (use assms(2) in \<open>auto simp: make_filedesc_input_stream_def make_filedesc_stream_1_def fd_rest_def\<close>)
  ultimately show ?thesis by simp
qed

text \<open>A system with the bytes that are to come.\<close>

definition queue_os :: "byte list os_calls" where
  "queue_os = \<lparr>os_write = (\<lambda>x bs. (Sys_ok 0, x)), os_read = (\<lambda>x n. (Sys_ok (take (nat n) x), drop (nat n) x)),
     os_quit = (\<lambda>x. (False, x)),
     os_lseek_set = (\<lambda>x i. (i, x)), os_lseek_end = (\<lambda>x i. (i, x)),
     os_regular = (\<lambda>x. True), os_close = (\<lambda>x. (0, x))\<rparr>"

lemma queue_os_receives: "os_receives False queue_os (\<lambda>x. x)"
proof -
  have "os_receives_with (\<lambda>x. 0) False queue_os (\<lambda>x. x)" by (simp add: os_receives_with_def queue_os_def)
  then show ?thesis unfolding os_receives_def by blast
qed

lemma filedesc_read_limit_witness:
  "map_option fst (Lstream_read (lstream_filedesc queue_os) 10 (make_filedesc_input_stream [1, 2, 3, 4] 0 2 no_flags)) = Some (Inr (Some [1, 2])) \<and>
    map_option fst (Lstream_read (lstream_filedesc queue_os) 10 (make_filedesc_input_stream [1, 2, 3, 4] (- 1) 2 no_flags)) = Some (Inr (Some [1]))"
  using filedesc_read_limit [OF queue_os_receives, of 2 0 10 "[1, 2, 3, 4]"]
    filedesc_read_limit [OF queue_os_receives, of 2 "- 1" 10 "[1, 2, 3, 4]"] by simp_all

text \<open>C22: on a pty, when a line is taken only in part, its first \<open>j\<close> bytes, before a system call fails, the write goes on to send the
  newline that ends the line.  If this is taken, the newline comes right after the part, and the value counts it as one
  more byte of the data.  The loop of the caller then goes on after \<open>j + 1\<close> bytes: what it gives to the writer
  is without the byte at \<open>j\<close>, which the system has not taken, so that this byte is never sent.\<close>

theorem filedesc_pty_short_write:
  assumes os: "os_sends os sent"
    and d: "d = ls_data s" "LSTR_PTY_FLUSHING (ls_flags s)" "\<not> LSTR_ALLOW_QUIT (ls_flags s)" "\<not> ls_error_occurred_p s"
    and open': "LSTR_IS_OPEN (ls_flags s)" "LSTR_WRITE (ls_flags s)" "\<not> LSTR_NO_PARTIAL_CHARS (ls_flags s)"
    and line: "bs = line @ 0x0A # rest" "0x0A \<notin> set line" "int (length line) < fd_pty_max_bytes d - fd_chars_sans_newline d"
    and short: "os_write os (fd_os d) line = (Sys_ok j, x)" "0 < j" "j < length line"
      "os_write os x (drop j line) = (Sys_error e, y)" "e \<noteq> EINTR"
    and newline: "os_write os y [0x0A] = (Sys_ok 1, z)"
  shows "\<exists>s'. filedesc_writer os s bs = Some (Inr (int (j + 1)), s') \<and> fd_os (ls_data s') = z \<and>
    sent z = sent (fd_os d) @ take j line @ [0x0A] \<and>
    really_write_loop (lstream_filedesc os) bs 0 (length bs) s =
      really_write_loop (lstream_filedesc os) bs (j + 1) (length bs - (j + 1)) s' \<and>
    drop (j + 1) bs = drop (j + 1) line @ 0x0A # rest"
proof -
  obtain patience where pt: "os_sends_with patience os sent" using os by (auto simp: os_sends_def)
  have t: "takeWhile (\<lambda>b. b \<noteq> 0x0A) bs = line" unfolding line(1) using line(2) by (subst takeWhile_append2) auto
  have p: "pty_size d bs = (int (length line), True)" using line t by (simp add: pty_size_def)
  have ne: "line \<noteq> []" "drop j line \<noteq> []" using short(3) by auto
  have tk: "take (nat (int (length line))) bs = line" "0 < int (length line)" using line(1) short(3) by auto
  have w: "fd_write os (ls_flags s) line (fd_os d) = Some (Inr (Sys_ok j), y)"
    using d(3) ne short unfolding fd_write_def retry_write_def
    by (simp add: retry_write_1.simps [of os False line] retry_write_1.simps [of os False "drop j line"])
  have nl: "fd_write os (ls_flags s) [0x0A] y = Some (Inr (Sys_ok 1), z)"
    using d(3) newline unfolding fd_write_def retry_write_def
    by (simp add: retry_write_1.simps [of os False "[0x0A]"] retry_write_1.simps [of os False "[]"])
  let ?d = "d\<lparr>fd_os := z, fd_blocking_error_p := False, fd_chars_sans_newline := 0\<rparr>"
  let ?s = "s\<lparr>ls_error_occurred_p := False, ls_data := ?d\<rparr>"
  have "\<not> fd_pty_max_bytes d \<le> fd_chars_sans_newline d + int j" using line(3) short(3) by linarith
  then have wr: "filedesc_writer os s bs = Some (Inr (int (j + 1)), ?s)"
    using d(1,2,4) p tk w nl
    by (simp add: filedesc_writer_def filedesc_writer_pty_def filedesc_writer_newline_def Let_def filedesc_write_single_byte_def
        method_result_eq add.commute)
  have "sent x = sent (fd_os d) @ take j line"
    using pt [unfolded os_sends_with_def, THEN spec, THEN spec, of line "fd_os d"] ne(1) short(1) by simp
  moreover have "sent y = sent x"
    using pt [unfolded os_sends_with_def, THEN spec, THEN spec, of "drop j line" x] ne(2) short(4) by simp
  moreover have "sent z = sent y @ [0x0A]"
    using pt [unfolded os_sends_with_def, THEN spec, THEN spec, of "[0x0A]" y] newline by simp
  moreover have "really_write_loop (lstream_filedesc os) bs 0 (length bs) s =
      really_write_loop (lstream_filedesc os) bs (j + 1) (length bs - (j + 1)) ?s"
  proof -
    have "s\<lparr>ls_error_occurred_p := False\<rparr> = s" using d(4) by simp
    then have wr0: "filedesc_writer os (s\<lparr>ls_error_occurred_p := False\<rparr>) bs = Some (Inr (int (j + 1)), ?s)" using wr by (simp only:)
    have im: "im_writer (lstream_filedesc os) = Some (filedesc_writer os)" by (simp add: lstream_filedesc_def)
    have "int j + 1 \<le> int (length bs)" "bs \<noteq> []" using line(1) short(3) by auto
    then show ?thesis using open' by (subst really_write_loop.simps) (simp add: im wr0 nat_add_distrib)
  qed
  moreover have "drop (j + 1) bs = drop (j + 1) line @ 0x0A # rest" using line(1) short(3) by simp
  ultimately show ?thesis using wr by (intro exI [of _ ?s]) simp
qed

text \<open>A system with room for two bytes of this line, where the reader makes room again after the write that finds none.\<close>

definition short_os :: "(bool \<times> byte list) os_calls" where
  "short_os = \<lparr>os_write = (\<lambda>(full, x) bs. if full then (Sys_error EWOULDBLOCK, (False, x))
       else (Sys_ok (min 2 (length bs)), (2 < length bs, x @ take 2 bs))),
     os_read = (\<lambda>x n. (Sys_ok [], x)), os_quit = (\<lambda>x. (False, x)), os_lseek_set = (\<lambda>x i. (i, x)), os_lseek_end = (\<lambda>x i. (i, x)),
     os_regular = (\<lambda>x. True), os_close = (\<lambda>x. (0, x))\<rparr>"

lemma short_os_sends: "os_sends short_os snd"
proof -
  have "os_sends_with (\<lambda>x. 0) short_os snd" by (auto simp: os_sends_with_def short_os_def min_def)
  then show ?thesis unfolding os_sends_def by blast
qed

lemma filedesc_pty_short_write_witness:
  "\<exists>s. filedesc_writer short_os (filedesc_stream_set_pty_flushing 100 4 (make_filedesc_output_stream (False, []) 0 (- 1) no_flags))
      [65, 66, 67, 68, 0x0A] = Some (Inr 3, s) \<and> snd (fd_os (ls_data s)) = [65, 66, 0x0A]"
proof -
  let ?s = "filedesc_stream_set_pty_flushing 100 4 (make_filedesc_output_stream (False, []) 0 (- 1) no_flags) ::
    (bool \<times> byte list) filedesc_stream lstream"
  have "LSTR_PTY_FLUSHING (ls_flags ?s)" "\<not> LSTR_ALLOW_QUIT (ls_flags ?s)" "\<not> ls_error_occurred_p ?s" "LSTR_IS_OPEN (ls_flags ?s)"
    "LSTR_WRITE (ls_flags ?s)" "\<not> LSTR_NO_PARTIAL_CHARS (ls_flags ?s)" "fd_os (ls_data ?s) = (False, [])"
    "fd_pty_max_bytes (ls_data ?s) - fd_chars_sans_newline (ls_data ?s) = 100"
    by (simp_all add: filedesc_stream_set_pty_flushing_def make_filedesc_output_stream_def make_filedesc_stream_1_def Lstream_new_def
        Lstream_set_buffering_def no_flags_def)
  then show ?thesis
    using filedesc_pty_short_write [OF short_os_sends refl, where s = ?s and bs = "[65, 66, 67, 68, 0x0A]" and line = "[65, 66, 67, 68]"
        and rest = "[]" and j = 2 and x = "(True, [65, 66])" and y = "(False, [65, 66])" and z = "(False, [65, 66, 0x0A])"
        and e = EWOULDBLOCK]
    by (auto simp: short_os_def)
qed

text \<open>The reader in character mode, when the offset is inside a two-byte character.\<close>

lemma lisp_string_reader_back:
  assumes "LSTR_NO_PARTIAL_CHARS (ls_flags s)" "\<not> ls_error_occurred_p s"
    and chr: "ibyte_first_byte_p b" "\<not> ibyte_first_byte_p c"
    and d: "ls_data s = \<lparr>str_obj = xs @ [b, c] @ ys, str_init_offset = i, str_offset = length xs + 1, str_end = length (xs @ [b, c] @ ys)\<rparr>"
  shows "\<exists>d'. lisp_string_reader s n = Some (Inr (take n (b # c # ys)), s\<lparr>ls_error_occurred_p := False, ls_data := d'\<rparr>)"
proof -
  let ?str = "xs @ [b, c] @ ys"
  let ?k = "min n (length ?str - length xs)"
  have "validate_ibyteptr_backward (?str @ [0]) (length xs + 1) = Some (length xs)"
  proof -
    have "validate_ibyteptr_backward (?str @ [0]) (Suc (length xs)) = validate_ibyteptr_backward (?str @ [0]) (length xs)"
      using chr(2) by (subst validate_ibyteptr_backward.simps) (simp add: nth_append)
    also have "\<dots> = Some (length xs)" using chr(1) by (subst validate_ibyteptr_backward.simps) simp
    finally show ?thesis by simp
  qed
  moreover have "mem_bytes (map Some (?str @ [0])) (length xs) ?k = Some (take n (b # c # ys))"
  proof -
    have "take ?k (drop (length xs) (?str @ [0])) = take ?k ((b # c # ys) @ [0])" by simp
    also have "\<dots> = take ?k (b # c # ys)" by (simp only: take_append) simp
    also have "\<dots> = take n (b # c # ys)" by (cases "n \<le> length (b # c # ys)") simp_all
    finally show ?thesis using mem_bytes_list [of "length xs" ?k "?str @ [0]"] by simp
  qed
  ultimately show ?thesis using assms(1,2) d
    by (intro exI [of _ "(ls_data s)\<lparr>str_offset := length xs + ?k\<rparr>"]) (simp add: lisp_string_reader_def Let_def method_result_eq)
qed

text \<open>A byte that comes from a new block of input.\<close>

lemma Lstream_getc_new_block:
  assumes imp: "im_reader imp = Some reader" and open': "LSTR_IS_OPEN (ls_flags s)" "LSTR_READ (ls_flags s)"
    and buf: "ls_buffering s \<noteq> LSTREAM_UNBUFFERED" "ls_unget_buffer_ind s = 0" "in_holds s []"
    and rd: "\<And>t n. ls_data t = ls_data s \<Longrightarrow> ls_flags t = ls_flags s \<Longrightarrow> \<not> ls_error_occurred_p t \<Longrightarrow>
      \<exists>d. reader t n = Some (Inr (take n (x # T)), t\<lparr>ls_error_occurred_p := False, ls_data := d\<rparr>)"
  shows "\<exists>s'. Lstream_getc imp s = Some (Inr (Some x), s')"
proof -
  let ?k = "max 1 (ls_buffering_size s)"
  obtain bs where bs: "bs = take ?k (x # T)" by blast
  obtain m n where r: "DO_REALLOC (ls_in_buffer s) (ls_in_buffer_size s) ?k = (m, n)" by fastforce
  let ?s0 = "s\<lparr>ls_in_buffer := m, ls_in_buffer_size := n, ls_error_occurred_p := False\<rparr>"
  note h = in_holds_realloc [OF buf(3) r]
  from rd [of ?s0 ?k] obtain d where d: "reader ?s0 ?k = Some (Inr bs, ?s0\<lparr>ls_error_occurred_p := False, ls_data := d\<rparr>)"
    unfolding bs by auto
  let ?s1 = "?s0\<lparr>ls_error_occurred_p := False, ls_data := d\<rparr>"
  have ne: "bs \<noteq> []" "take 1 bs = [x]" unfolding bs by (cases ?k; simp)+
  have le: "length bs \<le> ?k" unfolding bs by simp
  then have "length bs \<le> n" using h(3) by (rule order_trans)
  then have "length (ls_in_buffer ?s1) = ls_in_buffer_size ?s1" "length bs \<le> ls_in_buffer_size ?s1" using h(2) by simp_all
  from in_holds_fill [OF this] obtain w where w: "mem_store (ls_in_buffer ?s1) 0 bs = Some w"
    "in_holds (?s1\<lparr>ls_in_buffer := w, ls_in_buffer_current := length bs, ls_in_buffer_ind := 0\<rparr>) bs" by blast
  let ?s2 = "?s1\<lparr>ls_in_buffer := w, ls_in_buffer_current := length bs, ls_in_buffer_ind := 0\<rparr>"
  have rw: "Lstream_raw_read imp ?k (s\<lparr>ls_in_buffer := m, ls_in_buffer_size := n\<rparr>) = Some (Inr (Some bs), ?s1)"
    using open' d le by (auto simp: Lstream_raw_read_def imp lbind_def le_max_iff_disj)
  have more: "Lstream_read_more imp s = Some (Inr (Some (length bs)), ?s2)"
    using r rw w(1) by (simp add: Lstream_read_more_def lbind_def)
  have av: "in_avail s = 0" "in_avail ?s2 = length bs" using in_holds_avail [OF buf(3)] in_holds_avail [OF w(2)] by simp_all
  have b0: "mem_bytes (ls_in_buffer s) (ls_in_buffer_ind s) 0 = Some []" using in_holds_bytes(1) [OF buf(3), of 0] by simp
  have b1: "mem_bytes (ls_in_buffer ?s2) (ls_in_buffer_ind ?s2) 1 = Some [x]"
  proof -
    have "1 \<le> length bs" using ne(1) by (cases bs) auto
    from in_holds_bytes(1) [OF w(2) this] ne(2) show ?thesis by simp
  qed
  have lp: "read_loop imp 1 [] s = read_loop imp 1 [] ?s2"
    using buf(1) av(1) b0 more ne by (subst read_loop.simps) simp
  have l1: "min 1 (in_avail ?s2) = 1" using av(2) ne(1) by (cases bs) simp_all
  have "\<exists>s3. read_loop imp 1 [] ?s2 = Some (Inr ([x], False), s3)"
    using buf(1) b1 l1 by (subst read_loop.simps) (simp add: Let_def)
  then obtain s3 where s3: "read_loop imp 1 [] s = Some (Inr ([x], False), s3)" using lp by auto
  have "take_ungot 1 s = Some ([], s)" using buf(2) by (simp add: take_ungot_def mem_bytes_def)
  then have "Lstream_read_1 imp 1 True s = Some (Inr (Some [x]), s3)" using s3 by (simp add: Lstream_read_1_def lbind_def)
  moreover have "\<not> ls_in_buffer_ind s < ls_in_buffer_current s" using buf(3) by (auto simp: in_holds_def)
  ultimately show ?thesis using buf(2) by (auto simp: Lstream_getc_def Lstream_fgetc_def lbind_def)
qed

text \<open>C21: a stream on a string in character mode gives bytes of a character again when a block of input has ended inside
  it: the reader goes back to the start of the character.  Here the input buffer has the first byte of a
  two-byte character; the character that is read is then this byte twice, which is no character.\<close>

theorem lisp_string_character_mode_repeats:
  assumes open': "LSTR_IS_OPEN (ls_flags s)" "LSTR_READ (ls_flags s)" "LSTR_NO_PARTIAL_CHARS (ls_flags s)"
    and buf: "ls_buffering s \<noteq> LSTREAM_UNBUFFERED" "unget_holds s []" "in_holds s [b]"
    and chr: "rep_bytes_by_first_byte b = Some 2" "\<not> ibyte_first_byte_p c"
    and d: "ls_data s = \<lparr>str_obj = xs @ [b, c] @ ys, str_init_offset = i, str_offset = length xs + 1, str_end = length (xs @ [b, c] @ ys)\<rparr>"
  shows "map_option fst (Lstream_get_ichar lstream_lisp_string s) = Some (Inr (Some [b, b])) \<and> \<not> ichar_ok [b, b]"
proof -
  have ind: "ls_unget_buffer_ind s = 0" using buf(2) by (simp add: unget_holds_def buf_holds_def)
  obtain zs ws where z: "ls_in_buffer s = zs @ Some b # ws" "length zs = ls_in_buffer_ind s" "ls_in_buffer_current s = ls_in_buffer_ind s + 1"
    "length (ls_in_buffer s) = ls_in_buffer_size s" using buf(3) by (auto simp: in_holds_def)
  let ?s1 = "s\<lparr>ls_byte_count := ls_byte_count s + 1, ls_in_buffer_ind := ls_in_buffer_ind s + 1\<rparr>"
  have b: "ibyte_first_byte_p b" "\<not> b < 0x80" using rep_bytes_facts [OF chr(1)] by (simp_all add: byte_ascii_less)
  have "mem_read (ls_in_buffer s) (ls_in_buffer_ind s) = Some b" using z(2) unfolding z(1) by (simp add: mem_read_def nth_append)
  then have 1: "Lstream_getc lstream_lisp_string s = Some (Inr (Some b), ?s1)" using ind z(3) by (simp add: Lstream_getc_def)
  have "in_holds (s\<lparr>ls_in_buffer_ind := ls_in_buffer_ind s + 1\<rparr>) (drop 1 [b])" by (rule in_holds_bytes(2) [OF buf(3)]) simp
  then have "in_holds ?s1 []" by (simp add: in_holds_def)
  moreover have "im_reader lstream_lisp_string = Some lisp_string_reader" by (simp add: lstream_lisp_string_def)
  moreover have "\<exists>d'. lisp_string_reader t n = Some (Inr (take n (b # c # ys)), t\<lparr>ls_error_occurred_p := False, ls_data := d'\<rparr>)"
    if "ls_data t = ls_data ?s1" "ls_flags t = ls_flags ?s1" "\<not> ls_error_occurred_p t" for t n
    using that d open'(3) by (intro lisp_string_reader_back b(1) chr(2)) simp_all
  ultimately obtain s2 where 2: "Lstream_getc lstream_lisp_string ?s1 = Some (Inr (Some b), s2)"
    using Lstream_getc_new_block [of lstream_lisp_string lisp_string_reader ?s1 b "c # ys"] open' buf(1) ind by auto
  have "Lstream_get_ichar_1 lstream_lisp_string b ?s1 = Some (Inr [b, b], s2)"
    using 2 chr(1) by (simp add: Lstream_get_ichar_1_def lbind_def)
  then have "Lstream_get_ichar lstream_lisp_string s = Some (Inr (Some [b, b]), s2)"
    using 1 b(2) by (simp add: Lstream_get_ichar_def lbind_def)
  moreover have "\<not> ichar_ok [b, b]" using b(1) by (simp add: ichar_ok_def)
  ultimately show ?thesis by simp
qed

text \<open>Here the first block has two bytes: an ASCII character, which is read first, and the first byte of the next one.\<close>

definition split_stream :: "lisp_string_stream lstream" where
  "split_stream = Lstream_set_character_mode (Lstream_set_buffering LSTREAM_BLOCKN_BUFFERED 2
     (the (make_lisp_string_input_stream [65, 0x81, 0xE9, 66] 0 (- 1))))"

lemma do_realloc_32: "do_realloc_size 32 (Suc (Suc 0)) = 32"
  by (subst do_realloc_size.simps) simp

lemma split_stream_getc_eq:
  "Lstream_getc lstream_lisp_string split_stream = Some (Inr (Some 65), split_stream
     \<lparr>ls_in_buffer := Some 65 # Some 0x81 # replicate 30 None, ls_in_buffer_size := 32, ls_in_buffer_current := 2, ls_in_buffer_ind := 1,
      ls_byte_count := 1, ls_data := \<lparr>str_obj = [65, 0x81, 0xE9, 66], str_init_offset = 0, str_offset = 2, str_end = 4\<rparr>\<rparr>)"
  unfolding split_stream_def
  apply (simp add: make_lisp_string_input_stream_def Lstream_getc_def Lstream_fgetc_def Lstream_read_1_def take_ungot_def mem_bytes_def
      Lstream_set_character_mode_def Lstream_new_def Lstream_set_buffering_def Let_def)
  apply (subst read_loop.simps)
  apply (simp add: in_avail_def mem_bytes_def Let_def Lstream_read_more_def DO_REALLOC_def do_realloc_32 mem_realloc_def Lstream_raw_read_def
      lstream_lisp_string_def lbind_def lisp_string_reader_def validate_ibyteptr_backward.simps ibyte_first_byte_p_def method_result_def
      mem_store_def mem_copy_def)
  apply (subst read_loop.simps)
  apply (simp add: in_avail_def mem_bytes_def Let_def)
  done

lemma split_stream_getc:
  "\<exists>s. Lstream_getc lstream_lisp_string split_stream = Some (Inr (Some 65), s) \<and> LSTR_IS_OPEN (ls_flags s) \<and> LSTR_READ (ls_flags s) \<and>
    LSTR_NO_PARTIAL_CHARS (ls_flags s) \<and> ls_buffering s \<noteq> LSTREAM_UNBUFFERED \<and> unget_holds s [] \<and> in_holds s [0x81] \<and>
    ls_data s = \<lparr>str_obj = [65, 0x81, 0xE9, 66], str_init_offset = 0, str_offset = 2, str_end = 4\<rparr>"
proof -
  let ?s = "split_stream\<lparr>ls_in_buffer := Some 65 # Some 0x81 # replicate 30 None, ls_in_buffer_size := 32, ls_in_buffer_current := 2,
    ls_in_buffer_ind := 1, ls_byte_count := 1,
    ls_data := \<lparr>str_obj = [65, 0x81, 0xE9, 66], str_init_offset = 0, str_offset = 2, str_end = 4\<rparr>\<rparr>"
  have "in_holds ?s [0x81]"
    unfolding in_holds_def by (intro conjI exI [of _ "[Some 65]"] exI [of _ "replicate 30 None"]) simp_all
  moreover have "LSTR_IS_OPEN (ls_flags ?s) \<and> LSTR_READ (ls_flags ?s) \<and> LSTR_NO_PARTIAL_CHARS (ls_flags ?s) \<and>
      ls_buffering ?s \<noteq> LSTREAM_UNBUFFERED \<and> unget_holds ?s []"
    by (simp add: split_stream_def make_lisp_string_input_stream_def Lstream_set_character_mode_def
        Lstream_new_def Lstream_set_buffering_def unget_holds_def buf_holds_def)
  ultimately show ?thesis unfolding split_stream_getc_eq by (intro exI [of _ ?s]) simp
qed

lemma lisp_string_character_mode_repeats_witness:
  "\<exists>s. Lstream_getc lstream_lisp_string split_stream = Some (Inr (Some 65), s) \<and>
    map_option fst (Lstream_get_ichar lstream_lisp_string s) = Some (Inr (Some [0x81, 0x81]))"
proof -
  obtain s where 1: "Lstream_getc lstream_lisp_string split_stream = Some (Inr (Some 65), s)" "LSTR_IS_OPEN (ls_flags s)"
    "LSTR_READ (ls_flags s)" "LSTR_NO_PARTIAL_CHARS (ls_flags s)" "ls_buffering s \<noteq> LSTREAM_UNBUFFERED" "unget_holds s []" "in_holds s [0x81]"
    "ls_data s = \<lparr>str_obj = [65, 0x81, 0xE9, 66], str_init_offset = 0, str_offset = 2, str_end = 4\<rparr>"
    using split_stream_getc by blast
  have "rep_bytes_by_first_byte 0x81 = Some 2" "\<not> ibyte_first_byte_p 0xE9" by (simp_all add: rep_bytes_by_first_byte_def ibyte_first_byte_p_def)
  moreover have "ls_data s = \<lparr>str_obj = [65] @ [0x81, 0xE9] @ [66], str_init_offset = 0, str_offset = length [65 :: byte] + 1,
      str_end = length ([65] @ [0x81, 0xE9] @ [66 :: byte])\<rparr>" using 1(8) by simp
  ultimately show ?thesis using lisp_string_character_mode_repeats [OF 1(2-7)] 1(1) by blast
qed

text \<open>C26: a closed stream keeps the sizes of the buffers that it has freed.  To put a byte on it signals that it is not open only if
  there was no output buffer; otherwise the byte is stored through the null pointer.  To push a byte back never signals: it
  is stored in a new buffer, or through the null pointer.  To get a byte signals.\<close>

theorem closed_stream_use:
  assumes ind: "ls_out_buffer_ind s = 0" "ls_unget_buffer_ind s = 0" "ls_in_buffer_ind s = ls_in_buffer_current s"
  shows "Lstream_putc imp c (Lstream_close_noflush s) =
      (if ls_out_buffer_size s = 0 then Some (Inl Not_open, Lstream_close_noflush s) else None) \<and>
    (Lstream_ungetc c (Lstream_close_noflush s) = None \<longleftrightarrow> 0 < ls_unget_buffer_size s) \<and>
    map_option fst (Lstream_getc imp (Lstream_close_noflush s)) = Some (Inl Not_open)"
proof -
  let ?c = "Lstream_close_noflush s"
  have z: "ls_out_buffer ?c = []" "ls_unget_buffer ?c = []" "ls_in_buffer ?c = []" "ls_unget_buffer_size ?c = ls_unget_buffer_size s"
    "ls_out_buffer_size ?c = ls_out_buffer_size s" "\<not> LSTR_IS_OPEN (ls_flags ?c)" "ls_out_buffer_ind ?c = 0"
    "ls_unget_buffer_ind ?c = 0" "ls_in_buffer_ind ?c = ls_in_buffer_current ?c" "ls_unget_buffer_size ?c = ls_unget_buffer_size s"
    using ind by (simp_all add: Lstream_close_noflush_def)
  have put: "Lstream_putc imp c ?c = (if ls_out_buffer_size s = 0 then Some (Inl Not_open, ?c) else None)"
    using z by (simp add: Lstream_putc_def Lstream_fputc_def Lstream_write_1_def lbind_def out_buffer_append_def mem_store_def)
  have unget: "Lstream_ungetc c ?c = None \<longleftrightarrow> 0 < ls_unget_buffer_size s"
  proof (cases "ls_unget_buffer_size s = 0")
    case True
    then have "unget_holds ?c []" using z by (simp add: unget_holds_def buf_holds_def)
    from Lstream_unread_ok [OF this, of "[c]"] True z(4,8) show ?thesis by (auto simp: Lstream_ungetc_def Lstream_fungetc_def)
  qed (use z in \<open>simp add: Lstream_ungetc_def mem_store_def\<close>)
  have raw: "Lstream_raw_read imp n t = Some (Inl Not_open, t)" if "ls_flags t = ls_flags ?c" for t :: "'a lstream" and n
    using z(6) that by (simp add: Lstream_raw_read_def)
  have "\<exists>t. read_loop imp 1 [] ?c = Some (Inl Not_open, t)"
  proof (cases "ls_buffering ?c = LSTREAM_UNBUFFERED")
    case True
    then show ?thesis using raw [OF refl] by (subst read_loop.simps) simp
  next
    case False
    have "\<exists>t. Lstream_read_more imp (u :: 'a lstream) = Some (Inl Not_open, t)" if "ls_flags u = ls_flags ?c" for u
      using that raw by (simp add: Lstream_read_more_def lbind_def split: prod.splits)
    then obtain t where t: "Lstream_read_more imp ?c = Some (Inl Not_open, t)" by blast
    have "in_avail ?c = 0" "mem_bytes (ls_in_buffer ?c) (ls_in_buffer_ind ?c) 0 = Some []" using z(9) by (simp_all add: in_avail_def mem_bytes_def)
    then show ?thesis using False t by (subst read_loop.simps) simp
  qed
  moreover have "take_ungot 1 ?c = Some ([], ?c)" using z(8) by (simp add: take_ungot_def mem_bytes_def)
  ultimately have "map_option fst (Lstream_fgetc imp ?c) = Some (Inl Not_open)"
    by (auto simp: Lstream_fgetc_def Lstream_read_1_def lbind_def)
  then have "map_option fst (Lstream_getc imp ?c) = Some (Inl Not_open)" using z(8,9) by (simp add: Lstream_getc_def)
  then show ?thesis using put unget by blast
qed

text \<open>A dynarr stream whose output buffer has been used and flushed.\<close>

definition used_stream :: "byte dynarr lstream" where
  "used_stream = (make_dynarr_output_stream (Dynarr_newf 1))\<lparr>ls_out_buffer := Some 65 # replicate 31 None, ls_out_buffer_size := 32\<rparr>"

lemma closed_stream_use_witness:
  "Lstream_putc lstream_dynarr 66 (Lstream_close_noflush used_stream) = None \<and>
    map_option fst (Lstream_getc lstream_dynarr (Lstream_close_noflush used_stream)) = Some (Inl Not_open)"
proof -
  have "ls_out_buffer_ind used_stream = 0" "ls_unget_buffer_ind used_stream = 0" "ls_in_buffer_ind used_stream = ls_in_buffer_current used_stream"
    "ls_out_buffer_size used_stream = 32"
    by (simp_all add: used_stream_def make_dynarr_output_stream_def Lstream_new_def Lstream_set_buffering_def)
  then show ?thesis using closed_stream_use [of used_stream lstream_dynarr 66] by simp
qed

end
