(* ===== verification/Lstream_Wf.thy ===== *)
theory Lstream_Wf
  imports Lstream_Sources
begin

text \<open>
  The types of streams, and that their memory is safe: in every stream the recorded sizes of the buffers are those of their
  blocks, the indices lie inside them and the bytes up to the indices are initialised.  Every operation keeps this, and outside
  character mode none fails: no memory outside a buffer is used and no assertion fails.  The contract of
  the implementation is the locale \<open>lstream_methods\<close>, which resizing buffers, fixed buffers and strings keep.
\<close>

section \<open>Well-formed streams\<close>

text \<open>The implementation's data are valid, and with \<open>bm\<close> the stream is not in character mode.\<close>

definition lstream_wf :: "(lstr_flags \<Rightarrow> 'd \<Rightarrow> bool) \<Rightarrow> bool \<Rightarrow> 'd lstream \<Rightarrow> bool" where
  "lstream_wf valid bm s \<longleftrightarrow> (\<exists>b. out_holds s b) \<and> (\<exists>b. in_holds s b) \<and> (\<exists>u. unget_holds s u) \<and>
     valid (ls_flags s) (ls_data s) \<and> (bm \<longrightarrow> \<not> LSTR_NO_PARTIAL_CHARS (ls_flags s))"

lemma lstream_wf_upd [simp]:
  "lstream_wf valid bm (s\<lparr>ls_byte_count := i\<rparr>) = lstream_wf valid bm s"
  "lstream_wf valid bm (s\<lparr>ls_error_occurred_p := e\<rparr>) = lstream_wf valid bm s"
  "lstream_wf valid bm (s\<lparr>ls_public_error_occurred_p := e\<rparr>) = lstream_wf valid bm s"
  "lstream_wf valid bm (s\<lparr>ls_unget_character_count := i\<rparr>) = lstream_wf valid bm s"
  "lstream_wf valid bm (Lstream_clear_error_occurred_p s) = lstream_wf valid bm s"
  "lstream_wf valid bm (Lstream_set_buffering b n s) = lstream_wf valid bm s"
  by (simp_all add: lstream_wf_def out_holds_def in_holds_def unget_holds_def Lstream_clear_error_occurred_p_def Lstream_set_buffering_def)

lemma lstream_wf_frame:
  "meth_frame s s' \<Longrightarrow> lstream_wf valid bm s \<Longrightarrow> valid (ls_flags s) (ls_data s') \<Longrightarrow> lstream_wf valid bm s'"
  by (simp add: lstream_wf_def out_holds_frame holds_frame meth_frame_sel)

lemma lstream_wf_new:
  "valid (flags\<lparr>LSTR_IS_OPEN := True\<rparr>) d \<Longrightarrow> bm \<longrightarrow> \<not> LSTR_NO_PARTIAL_CHARS flags \<Longrightarrow> lstream_wf valid bm (Lstream_new flags d)"
  by (simp add: lstream_wf_def out_holds_def in_holds_def unget_holds_def buf_holds_def Lstream_new_def Lstream_set_buffering_def)

text \<open>A result after which the stream is well formed; only in character mode may there be none.\<close>

definition keeps :: "(lstr_flags \<Rightarrow> 'd \<Rightarrow> bool) \<Rightarrow> bool \<Rightarrow> ('a, 'd) lout \<Rightarrow> bool" where
  "keeps valid bm m = (case m of None \<Rightarrow> \<not> bm | Some (r, s) \<Rightarrow> lstream_wf valid bm s)"

lemma keeps_simps [simp]: "keeps valid bm None = (\<not> bm)" "keeps valid bm (Some (r, s)) = lstream_wf valid bm s"
  by (simp_all add: keeps_def)

lemma keepsD: "keeps valid bm m \<Longrightarrow> m = Some (r, s) \<Longrightarrow> lstream_wf valid bm s"
  by simp

lemma keeps_lbind:
  "keeps valid bm m \<Longrightarrow> (\<And>x s. m = Some (Inr x, s) \<Longrightarrow> lstream_wf valid bm s \<Longrightarrow> keeps valid bm (f x s)) \<Longrightarrow>
    keeps valid bm (lbind m f)"
  by (auto simp: lbind_def split: option.splits sum.splits)

section \<open>All operations\<close>

datatype lstream_op = Op_write "byte list" | Op_write_with_extents "byte list" | Op_putc byte | Op_put_ichar ichar | Op_flush
  | Op_read nat | Op_getc | Op_get_ichar | Op_unread "byte list" | Op_ungetc byte | Op_unget_ichar ichar
  | Op_rewind | Op_seek_from_end int | Op_set_buffering lstream_buffering nat | Op_character_mode bool
  | Op_pseudo_close | Op_clear_error

definition done_with :: "('a, 'd) lout \<Rightarrow> (unit, 'd) lout" where
  "done_with m = lbind m (\<lambda>_ s. Some (Inr (), s))"

definition updated :: "'d lstream option \<Rightarrow> (unit, 'd) lout" where
  "updated m = map_option (\<lambda>s. (Inr (), s)) m"

fun run_lstream_op :: "'d lstream_implementation \<Rightarrow> lstream_op \<Rightarrow> 'd lstream \<Rightarrow> (unit, 'd) lout" where
  "run_lstream_op imp (Op_write bs) s = done_with (Lstream_write imp bs s)"
| "run_lstream_op imp (Op_write_with_extents bs) s = done_with (Lstream_write_with_extents imp bs s)"
| "run_lstream_op imp (Op_putc c) s = done_with (Lstream_putc imp c s)"
| "run_lstream_op imp (Op_put_ichar ch) s = done_with (Lstream_put_ichar imp ch s)"
| "run_lstream_op imp Op_flush s = done_with (Lstream_flush imp s)"
| "run_lstream_op imp (Op_read n) s = done_with (Lstream_read imp n s)"
| "run_lstream_op imp Op_getc s = done_with (Lstream_getc imp s)"
| "run_lstream_op imp Op_get_ichar s = done_with (Lstream_get_ichar imp s)"
| "run_lstream_op imp (Op_unread bs) s = updated (Lstream_unread bs s)"
| "run_lstream_op imp (Op_ungetc c) s = updated (Lstream_ungetc c s)"
| "run_lstream_op imp (Op_unget_ichar ch) s = updated (Lstream_unget_ichar ch s)"
| "run_lstream_op imp Op_rewind s = done_with (Lstream_rewind imp s)"
| "run_lstream_op imp (Op_seek_from_end i) s = done_with (Lstream_seek_from_end imp i s)"
| "run_lstream_op imp (Op_set_buffering b n) s = Some (Inr (), Lstream_set_buffering b n s)"
| "run_lstream_op imp (Op_character_mode on) s =
     Some (Inr (), if on then Lstream_set_character_mode s else Lstream_unset_character_mode s)"
| "run_lstream_op imp Op_pseudo_close s = done_with (Lstream_pseudo_close imp s)"
| "run_lstream_op imp Op_clear_error s = Some (Inr (), Lstream_clear_error_occurred_p s)"

text \<open>A program on one stream: what an operation signals is handled by the next one, a failed assertion ends it.\<close>

fun run_lstream_ops :: "'d lstream_implementation \<Rightarrow> lstream_op list \<Rightarrow> 'd lstream \<Rightarrow> 'd lstream option" where
  "run_lstream_ops imp [] s = Some s"
| "run_lstream_ops imp (op # ops) s =
     (case run_lstream_op imp op s of None \<Rightarrow> None | Some (r, s') \<Rightarrow> run_lstream_ops imp ops s')"

text \<open>Operations on bytes: no characters are read, and character mode is not switched on.\<close>

definition byte_op :: "lstream_op \<Rightarrow> bool" where
  "byte_op op = (case op of Op_get_ichar \<Rightarrow> False | Op_character_mode on \<Rightarrow> \<not> on | _ \<Rightarrow> True)"

section \<open>The contract of an implementation\<close>

text \<open>A method changes only the parts of the stream that it may change, keeps its data valid and gives a value with \<open>Q\<close>, or it signals;
  only in character mode, where it may meet bytes that are no text, may it fail.\<close>

definition method_ok :: "(lstr_flags \<Rightarrow> 'd \<Rightarrow> bool) \<Rightarrow> 'd lstream \<Rightarrow> ('a \<Rightarrow> bool) \<Rightarrow> ('a, 'd) lout \<Rightarrow> bool" where
  "method_ok valid s Q m = (case m of
     None \<Rightarrow> LSTR_NO_PARTIAL_CHARS (ls_flags s)
   | Some (r, s') \<Rightarrow> meth_frame s s' \<and> valid (ls_flags s) (ls_data s') \<and> (case r of Inl _ \<Rightarrow> True | Inr v \<Rightarrow> Q v))"

lemma method_keeps: "method_ok valid s Q m \<Longrightarrow> lstream_wf valid bm s \<Longrightarrow> keeps valid bm m"
  by (auto simp: method_ok_def keeps_def intro: lstream_wf_frame split: option.splits) (simp add: lstream_wf_def)

lemma method_value: "method_ok valid s Q m \<Longrightarrow> m = Some (Inr v, s') \<Longrightarrow> Q v"
  by (simp add: method_ok_def)

lemma method_ok_result:
  "valid (ls_flags s) d \<Longrightarrow> Q v \<Longrightarrow> method_ok valid s Q (method_result s v err d)"
  unfolding method_ok_def method_result_def meth_frame_def option.case prod.case sum.case
  by (intro conjI exI [of _ "ls_error_occurred_p s \<or> err"] exI [of _ "ls_public_error_occurred_p s"] exI [of _ d]) simp_all

locale lstream_methods =
  fixes imp :: "'d lstream_implementation" and valid :: "lstr_flags \<Rightarrow> 'd \<Rightarrow> bool"
  assumes reader_ok: "im_reader imp = Some reader \<Longrightarrow> valid (ls_flags s) (ls_data s) \<Longrightarrow> LSTR_READ (ls_flags s) \<Longrightarrow>
      method_ok valid s (\<lambda>bs. length bs \<le> n) (reader s n)"
    and writer_ok: "im_writer imp = Some writer \<Longrightarrow> valid (ls_flags s) (ls_data s) \<Longrightarrow> LSTR_WRITE (ls_flags s) \<Longrightarrow>
      method_ok valid s (\<lambda>k. 0 \<le> k \<and> k \<le> int (length bs)) (writer s bs)"
    and extents_ok: "im_write_with_extents imp = Some extents_writer \<Longrightarrow> valid (ls_flags s) (ls_data s) \<Longrightarrow>
      method_ok valid s (\<lambda>k. True) (extents_writer s bs)"
    and rewinder_ok: "im_rewinder imp = Some rewinder \<Longrightarrow> valid (ls_flags s) (ls_data s) \<Longrightarrow> method_ok valid s (\<lambda>r. True) (rewinder s)"
    and seek_ok: "im_seek_from_end imp = Some seek \<Longrightarrow> valid (ls_flags s) (ls_data s) \<Longrightarrow> i < 0 \<Longrightarrow>
      method_ok valid s (\<lambda>r. True) (seek s i)"
    and flusher_ok: "im_flusher imp = Some flusher \<Longrightarrow> valid (ls_flags s) (ls_data s) \<Longrightarrow> method_ok valid s (\<lambda>r. True) (flusher s)"
    and mode_ok: "valid f d \<Longrightarrow> valid (f\<lparr>LSTR_NO_PARTIAL_CHARS := on\<rparr>) d"

text \<open>The output buffer moved down by any number of bytes.\<close>

lemma out_holds_shift:
  assumes "out_holds s b"
  shows "\<exists>b'. out_holds (s\<lparr>ls_out_buffer := mem_move (ls_out_buffer s) 0 k (ls_out_buffer_ind s - k),
    ls_out_buffer_ind := ls_out_buffer_ind s - k\<rparr>) b'"
proof (cases "k \<le> length b")
  case True
  from buf_holds_move [OF assms [unfolded out_holds_def] this] show ?thesis by (auto simp: out_holds_def)
next
  case False
  then have "ls_out_buffer_ind s - k = 0" using out_holds_ind [OF assms] by simp
  then show ?thesis using buf_holds_reset [OF assms [unfolded out_holds_def]]
    by (intro exI [of _ "[]"]) (simp add: out_holds_def mem_move_def)
qed

lemma out_wf:
  "lstream_wf valid bm s \<Longrightarrow> out_holds (s\<lparr>ls_out_buffer := m, ls_out_buffer_ind := i\<rparr>) b \<Longrightarrow>
    lstream_wf valid bm (s\<lparr>ls_out_buffer := m, ls_out_buffer_ind := i\<rparr>)"
  "lstream_wf valid bm s \<Longrightarrow> out_holds (s\<lparr>ls_out_buffer := m, ls_out_buffer_size := n\<rparr>) b \<Longrightarrow>
    lstream_wf valid bm (s\<lparr>ls_out_buffer := m, ls_out_buffer_size := n\<rparr>)"
  "lstream_wf valid bm s \<Longrightarrow> lstream_wf valid bm (s\<lparr>ls_out_buffer_ind := 0\<rparr>)"
  by (auto simp: lstream_wf_def in_holds_def unget_holds_def out_holds_def dest: buf_holds_reset)

lemma in_reset_wf:
  assumes w: "lstream_wf valid bm s"
  shows "lstream_wf valid bm (s\<lparr>ls_in_buffer_current := 0, ls_in_buffer_ind := 0, ls_unget_buffer_ind := 0\<rparr>)"
proof -
  let ?s = "s\<lparr>ls_in_buffer_current := 0, ls_in_buffer_ind := 0, ls_unget_buffer_ind := 0\<rparr>"
  obtain b where "in_holds s b" using w by (auto simp: lstream_wf_def)
  then have "in_holds ?s []" unfolding in_holds_def by (intro conjI exI [of _ "[]"] exI [of _ "ls_in_buffer s"]) simp_all
  moreover obtain u where "unget_holds s u" using w by (auto simp: lstream_wf_def)
  then have "unget_holds ?s []" using buf_holds_reset by (auto simp: unget_holds_def)
  moreover obtain c where "out_holds s c" using w by (auto simp: lstream_wf_def)
  then have "out_holds ?s c" by (simp add: out_holds_def)
  ultimately show ?thesis using w unfolding lstream_wf_def by auto
qed

text \<open>Room in the output buffer, and bytes put where there is room.\<close>

lemma Lstream_adding_wf:
  assumes "lstream_wf valid bm s" "Lstream_adding num force s = (chunk, s')"
  shows "lstream_wf valid bm s' \<and> ls_out_buffer_ind s' + chunk \<le> ls_out_buffer_size s' \<and> chunk \<le> num \<and> (force \<longrightarrow> chunk = num)"
proof -
  obtain b where b: "out_holds s b" using assms(1) by (auto simp: lstream_wf_def)
  note a = Lstream_adding_ok [OF b assms(2)]
  obtain m k where "s' = s\<lparr>ls_out_buffer := m, ls_out_buffer_size := k\<rparr>" using a(4) by blast
  then have "lstream_wf valid bm s'" using out_wf(2) [OF assms(1)] a(5) by simp
  then show ?thesis using a(1-3) out_holds_ind [OF a(5)] by simp
qed

lemma out_buffer_append_wf:
  assumes "lstream_wf valid bm s" "ls_out_buffer_ind s + length bs \<le> ls_out_buffer_size s"
  shows "\<exists>s'. out_buffer_append bs s = Some s' \<and> lstream_wf valid bm s'"
proof -
  obtain b where b: "out_holds s b" using assms(1) by (auto simp: lstream_wf_def)
  have "length b + length bs \<le> ls_out_buffer_size s" using assms(2) out_holds_ind [OF b] by simp
  from out_buffer_append_ok [OF b this] out_wf(1) [OF assms(1)] show ?thesis by blast
qed

lemma write_room_wf:
  "lstream_wf valid bm s \<Longrightarrow> write_room n c s = (chunk, s') \<Longrightarrow>
    lstream_wf valid bm s' \<and> ls_out_buffer_ind s' + chunk \<le> ls_out_buffer_size s' \<and> chunk \<le> n"
  by (auto simp: write_room_def split: prod.splits if_splits dest: Lstream_adding_wf)

lemma c_int_le: "nat (c_int n) \<le> n"
proof -
  have "sint (word_of_nat n :: 32 word) = signed_take_bit 31 (int n)" by (simp add: signed_of_nat)
  then have "sint (word_of_nat n :: 32 word) \<le> int n" by (simp add: signed_take_bit_int_less_eq_self_iff)
  then show ?thesis by (simp add: c_int_def)
qed

text \<open>The input buffer and the bytes pushed back.\<close>

lemma in_wf:
  "lstream_wf valid bm s \<Longrightarrow> in_holds (s\<lparr>ls_in_buffer := m, ls_in_buffer_size := n\<rparr>) b \<Longrightarrow>
    lstream_wf valid bm (s\<lparr>ls_in_buffer := m, ls_in_buffer_size := n\<rparr>)"
  "lstream_wf valid bm s \<Longrightarrow> in_holds (s\<lparr>ls_in_buffer := m, ls_in_buffer_current := i, ls_in_buffer_ind := j\<rparr>) b \<Longrightarrow>
    lstream_wf valid bm (s\<lparr>ls_in_buffer := m, ls_in_buffer_current := i, ls_in_buffer_ind := j\<rparr>)"
  "lstream_wf valid bm s \<Longrightarrow> in_holds (s\<lparr>ls_in_buffer_ind := j\<rparr>) b \<Longrightarrow> lstream_wf valid bm (s\<lparr>ls_in_buffer_ind := j\<rparr>)"
  by (auto simp: lstream_wf_def in_holds_def unget_holds_def out_holds_def)

lemma in_advance_wf:
  assumes "lstream_wf valid bm s" "k \<le> in_avail s"
  shows "lstream_wf valid bm (s\<lparr>ls_in_buffer_ind := ls_in_buffer_ind s + k\<rparr>)"
proof -
  obtain b where b: "in_holds s b" using assms(1) by (auto simp: lstream_wf_def)
  have "k \<le> length b" using assms(2) in_holds_avail [OF b] by simp
  from in_holds_bytes(2) [OF b this] show ?thesis by (rule in_wf(3) [OF assms(1)])
qed

lemma view_wf:
  assumes "lstream_wf valid bm s" "unget_holds s' u" "\<forall>b. in_holds s' b = in_holds s b" "read_view s' = read_view s" "ls_data s' = ls_data s"
  shows "lstream_wf valid bm s'"
  using assms by (auto simp: lstream_wf_def read_view_def out_holds_def)

lemma Lstream_unread_wf:
  assumes "lstream_wf valid bm s"
  shows "\<exists>s'. Lstream_unread bs s = Some s' \<and> lstream_wf valid bm s'"
proof -
  obtain u where "unget_holds s u" using assms(1) by (auto simp: lstream_wf_def)
  from Lstream_unread_holds [OF this, of bs] view_wf [OF assms(1)] show ?thesis by blast
qed

lemma take_ungot_wf:
  assumes "lstream_wf valid bm s"
  shows "\<exists>bs s'. take_ungot n s = Some (bs, s') \<and> lstream_wf valid bm s'"
proof -
  obtain u where "unget_holds s u" using assms(1) by (auto simp: lstream_wf_def)
  from take_ungot_ok [OF this, of n] view_wf [OF assms(1)] show ?thesis by blast
qed

lemma Lstream_ungetc_wf:
  assumes "lstream_wf valid bm s"
  shows "\<exists>s'. Lstream_ungetc c s = Some s' \<and> lstream_wf valid bm s'"
proof (cases "ls_unget_buffer_ind s \<ge> ls_unget_buffer_size s")
  case True
  then show ?thesis using Lstream_unread_wf [OF assms] by (auto simp: Lstream_ungetc_def Lstream_fungetc_def)
next
  case False
  obtain u where u: "unget_holds s u" using assms by (auto simp: lstream_wf_def)
  have "ls_unget_buffer_ind s + length [c] \<le> ls_unget_buffer_size s" using False by simp
  from buf_holds_store [OF u [unfolded unget_holds_def] this] obtain m where
    m: "mem_store (ls_unget_buffer s) (ls_unget_buffer_ind s) [c] = Some m"
      "buf_holds m (ls_unget_buffer_size s) (ls_unget_buffer_ind s + length [c]) (rev u @ [c])" by blast
  let ?s = "s\<lparr>ls_byte_count := ls_byte_count s - 1, ls_unget_buffer := m,
      ls_unget_character_count := ls_unget_character_count s + (if ibyte_first_byte_p c then 1 else 0),
      ls_unget_buffer_ind := ls_unget_buffer_ind s + 1\<rparr>"
  have "lstream_wf valid bm ?s"
    by (rule view_wf [OF assms, of _ "c # u"]) (use m(2) in \<open>simp_all add: unget_holds_def in_holds_def read_view_def\<close>)
  moreover have "Lstream_ungetc c s = Some ?s" using m(1) False by (simp add: Lstream_ungetc_def)
  ultimately show ?thesis by blast
qed

lemma Lstream_unget_ichar_wf: "lstream_wf valid bm s \<Longrightarrow> \<exists>s'. Lstream_unget_ichar ch s = Some s' \<and> lstream_wf valid bm s'"
  using Lstream_ungetc_wf [of valid bm s "hd ch"] Lstream_unread_wf [of valid bm s ch]
  by (simp add: Lstream_unget_ichar_def Lstream_funget_ichar_def)

context lstream_methods
begin

section \<open>Writing\<close>

lemma really_write_loop_keeps:
  assumes "lstream_wf valid bm s" "off + sz \<le> length bs"
  shows "keeps valid bm (really_write_loop imp bs off sz s)"
  using assms
proof (induction sz arbitrary: off s rule: less_induct)
  case (less sz)
  show ?case
  proof (cases "sz = 0 \<or> \<not> LSTR_IS_OPEN (ls_flags s) \<or> \<not> LSTR_WRITE (ls_flags s) \<or> im_writer imp = None")
    case True
    then show ?thesis using less.prems by (subst really_write_loop.simps) auto
  next
    case False
    then obtain writer where w: "im_writer imp = Some writer" by auto
    obtain N where N: "(if LSTR_NO_PARTIAL_CHARS (ls_flags s) then full_chars_size bs off sz else Some sz) = N" by blast
    have np: "N = None \<longrightarrow> \<not> bm" using N less.prems(1) by (auto simp: lstream_wf_def split: if_splits)
    show ?thesis
    proof (cases "N = None \<or> N = Some 0")
      case True
      then show ?thesis using False N np less.prems by (subst really_write_loop.simps) auto
    next
      case n: False
      then obtain n where n: "N = Some n" "0 < n" by auto
      have le: "n \<le> sz" using N n full_chars_size_le by (auto split: if_splits)
      have len: "length (take n (drop off bs)) = n" using le less.prems(2) by simp
      let ?r = "writer (s\<lparr>ls_error_occurred_p := False\<rparr>) (take n (drop off bs))"
      have ok: "method_ok valid (s\<lparr>ls_error_occurred_p := False\<rparr>) (\<lambda>k. 0 \<le> k \<and> k \<le> int n) ?r"
        using writer_ok [OF w, of "s\<lparr>ls_error_occurred_p := False\<rparr>" "take n (drop off bs)"] False less.prems(1) len
        by (simp add: lstream_wf_def)
      have k: "keeps valid bm ?r" by (rule method_keeps [OF ok]) (use less.prems in simp)
      show ?thesis
      proof (cases ?r)
        case None
        then show ?thesis using False N n w k by (subst really_write_loop.simps) auto
      next
        case (Some p)
        obtain r s' where p: "p = (r, s')" by fastforce
        have wf': "lstream_wf valid bm s'" using k Some p by simp
        show ?thesis
        proof (cases r)
          case (Inl e)
          then show ?thesis using False N n w Some p wf' by (subst really_write_loop.simps) auto
        next
          case (Inr k)
          let ?s = "if ls_error_occurred_p s' then s'\<lparr>ls_public_error_occurred_p := True\<rparr> else s'"
          have kn: "0 \<le> k" "k \<le> int n" using method_value [OF ok] Some p Inr by auto
          have "keeps valid bm (really_write_loop imp bs (off + nat k) (n - nat k) ?s)" if "0 < k"
            using less.IH [of "n - nat k" ?s "off + nat k"] that kn le wf' less.prems(2) by simp
          then show ?thesis using False N n w Some p Inr wf' kn by (subst really_write_loop.simps) (auto simp: Let_def)
        qed
      qed
    qed
  qed
qed

lemma flusher_keeps: "im_flusher imp = Some f \<Longrightarrow> lstream_wf valid bm s \<Longrightarrow> keeps valid bm (f s)"
  by (rule method_keeps [OF flusher_ok]) (simp_all add: lstream_wf_def)

lemma Lstream_really_write_keeps: "lstream_wf valid bm s \<Longrightarrow> keeps valid bm (Lstream_really_write imp bs s)"
  unfolding Lstream_really_write_def
  by (intro keeps_lbind really_write_loop_keeps) (auto split: option.splits simp: c_int_le intro: flusher_keeps intro!: keeps_lbind)

lemma Lstream_flush_out_keeps:
  assumes "lstream_wf valid bm s"
  shows "keeps valid bm (Lstream_flush_out imp s)"
proof -
  have k: "keeps valid bm (let ind = ls_out_buffer_ind t in
      if r = int ind then Some (Inr 0, t\<lparr>ls_out_buffer_ind := 0\<rparr>)
      else if r > 0 then (let k = nat r in
        Some (Inr 0, t\<lparr>ls_out_buffer := mem_move (ls_out_buffer t) 0 k (ind - k), ls_out_buffer_ind := ind - k\<rparr>))
      else Some (Inr r, t))" if t: "lstream_wf valid bm t" for r :: int and t :: "'d lstream"
  proof -
    obtain b where "out_holds t b" using t by (auto simp: lstream_wf_def)
    from out_holds_shift [OF this, of "nat r"] out_wf(1) [OF t] have
      "lstream_wf valid bm (t\<lparr>ls_out_buffer := mem_move (ls_out_buffer t) 0 (nat r) (ls_out_buffer_ind t - nat r),
        ls_out_buffer_ind := ls_out_buffer_ind t - nat r\<rparr>)" by blast
    then show ?thesis using out_wf(3) [OF t] t unfolding Let_def by (simp split: if_splits)
  qed
  obtain b where "out_holds s b" using assms by (auto simp: lstream_wf_def)
  then have "mem_bytes (ls_out_buffer s) 0 (ls_out_buffer_ind s) = Some b" by (simp add: out_holds_def buf_holds_bytes)
  then show ?thesis unfolding Lstream_flush_out_def
    by (auto intro!: keeps_lbind k Lstream_really_write_keeps [OF assms])
qed

lemma Lstream_flush_keeps: "lstream_wf valid bm s \<Longrightarrow> keeps valid bm (Lstream_flush imp s)"
  unfolding Lstream_flush_def by (intro keeps_lbind Lstream_flush_out_keeps) (auto intro: in_reset_wf)

lemma write_unbuffered_keeps:
  assumes "lstream_wf valid bm s"
  shows "keeps valid bm (write_unbuffered imp bs s)"
proof -
  have a: "keeps valid bm (if ls_out_buffer_ind s > 0 then Lstream_flush_out imp s else Some (Inr 0, s))"
    using Lstream_flush_out_keeps [OF assms] assms by simp
  have b: "keeps valid bm (if ls_out_buffer_ind t = 0 then Lstream_really_write imp bs t else Some (Inr 0, t))"
    if "lstream_wf valid bm t" for t using Lstream_really_write_keeps [OF that] that by simp
  have c: "keeps valid bm (case out_buffer_append (drop off bs) (snd (Lstream_adding (length bs - off) True t)) of None \<Rightarrow> None
      | Some s \<Rightarrow> Some (Inr (int (length bs)), s\<lparr>ls_byte_count := ls_byte_count s + int (length bs)\<rparr>))"
    if t: "lstream_wf valid bm t" for off and t :: "'d lstream"
  proof -
    obtain chunk t' where p: "Lstream_adding (length bs - off) True t = (chunk, t')" by fastforce
    note w = Lstream_adding_wf [OF t p]
    have "ls_out_buffer_ind t' + length (drop off bs) \<le> ls_out_buffer_size t'" using w by simp
    then show ?thesis using out_buffer_append_wf [of valid bm t' "drop off bs"] w p by auto
  qed
  show ?thesis unfolding write_unbuffered_def by (intro keeps_lbind a) (auto simp: Let_def intro!: keeps_lbind b c c [where off = 0, simplified] Lstream_really_write_keeps)
qed

lemma write_buffered_keeps:
  assumes "lstream_wf valid bm s"
  shows "keeps valid bm (write_buffered imp bs off c s)"
  using assms
proof (induction "2 * (length bs - off) + (if c then 0 else 1)" arbitrary: off c s rule: less_induct)
  case less
  obtain chunk s1 where r: "write_room (length bs - off) c s = (chunk, s1)" by fastforce
  note w1 = write_room_wf [OF less.prems r]
  have "ls_out_buffer_ind s1 + length (take chunk (drop off bs)) \<le> ls_out_buffer_size s1" using w1 by simp
  from out_buffer_append_wf [OF _ this] w1 obtain s2 where
    s2: "out_buffer_append (take chunk (drop off bs)) s1 = Some s2" "lstream_wf valid bm s2" by blast
  show ?case
  proof (cases "length bs - off - chunk > 0")
    case False
    then show ?thesis using r s2 by (subst write_buffered.simps) simp
  next
    case True
    let ?s = "s2\<lparr>ls_byte_count := ls_byte_count s2 + int chunk\<rparr>"
    have f: "keeps valid bm (Lstream_flush_out imp ?s)" using Lstream_flush_out_keeps [of bm ?s] s2(2) by simp
    have "c \<Longrightarrow> chunk = 0 \<Longrightarrow> length bs - off = 0" using r write_room_pos by (metis (full_types))
    then have "0 < chunk \<or> \<not> c" using True by auto
    then have dec: "2 * (length bs - (off + chunk)) + (if c \<or> chunk = 0 then 0 else 1) < 2 * (length bs - off) + (if c then 0 else (1::nat))"
      using True by auto
    have "keeps valid bm (write_buffered imp bs (off + chunk) (c \<or> chunk = 0) t)" if "lstream_wf valid bm t" for t
      by (rule less.hyps [OF dec that])
    then show ?thesis using r s2 True f by (subst write_buffered.simps) (auto split: option.splits sum.splits)
  qed
qed

lemma Lstream_write_1_keeps: "lstream_wf valid bm s \<Longrightarrow> keeps valid bm (Lstream_write_1 imp bs s)"
  by (simp add: Lstream_write_1_def write_unbuffered_keeps write_buffered_keeps)

lemma Lstream_putc_keeps:
  assumes "lstream_wf valid bm s"
  shows "keeps valid bm (Lstream_putc imp ch s)"
proof (cases "ls_out_buffer_ind s \<ge> ls_out_buffer_size s")
  case True
  then show ?thesis using assms
    by (auto simp: Lstream_putc_def Lstream_fputc_def intro!: keeps_lbind Lstream_write_1_keeps Lstream_flush_out_keeps)
next
  case False
  then have "ls_out_buffer_ind s + length [ch] \<le> ls_out_buffer_size s" by simp
  from out_buffer_append_wf [OF assms this] obtain s' where "out_buffer_append [ch] s = Some s'" "lstream_wf valid bm s'" by blast
  then show ?thesis using False by (auto simp: Lstream_putc_def Let_def intro!: Lstream_flush_out_keeps)
qed

lemma write_putc_loop_keeps: "lstream_wf valid bm s \<Longrightarrow> keeps valid bm (write_putc_loop imp cs i s)"
  by (induction cs arbitrary: i s) (auto intro!: keeps_lbind Lstream_putc_keeps)

lemma Lstream_write_keeps: "lstream_wf valid bm s \<Longrightarrow> keeps valid bm (Lstream_write imp bs s)"
  by (simp add: Lstream_write_def Let_def Lstream_write_1_keeps write_putc_loop_keeps)

lemma Lstream_write_with_extents_keeps:
  assumes "lstream_wf valid bm s"
  shows "keeps valid bm (Lstream_write_with_extents imp bs s)"
proof (cases "im_write_with_extents imp")
  case None
  then show ?thesis using Lstream_write_keeps [OF assms] by (simp add: Lstream_write_with_extents_def)
next
  case (Some f)
  have k: "keeps valid bm (f t bs)" if "lstream_wf valid bm t" for t
    by (rule method_keeps [OF extents_ok [OF Some] that]) (use that in \<open>simp add: lstream_wf_def\<close>)
  show ?thesis unfolding Lstream_write_with_extents_def Some option.case
    by (intro keeps_lbind Lstream_flush_keeps [OF assms]) (simp add: k)
qed

lemma Lstream_put_ichar_keeps: "lstream_wf valid bm s \<Longrightarrow> keeps valid bm (Lstream_put_ichar imp ch s)"
  by (auto simp: Lstream_put_ichar_def Lstream_fput_ichar_def Lstream_putc_keeps intro!: keeps_lbind Lstream_write_keeps)

section \<open>Reading\<close>

lemma Lstream_raw_read_keeps:
  assumes "lstream_wf valid bm s"
  shows "keeps valid bm (Lstream_raw_read imp n s)"
    and "Lstream_raw_read imp n s = Some (r, s') \<Longrightarrow> ls_in_buffer_size s' = ls_in_buffer_size s"
proof -
  have "keeps valid bm (Lstream_raw_read imp n s) \<and>
    (\<forall>r s'. Lstream_raw_read imp n s = Some (r, s') \<longrightarrow> ls_in_buffer_size s' = ls_in_buffer_size s)"
  proof (cases "LSTR_IS_OPEN (ls_flags s) \<and> LSTR_READ (ls_flags s) \<and> im_reader imp \<noteq> None")
    case False
    then show ?thesis using assms by (auto simp: Lstream_raw_read_def)
  next
    case True
    then obtain reader where rd: "im_reader imp = Some reader" by auto
    let ?r = "reader (s\<lparr>ls_error_occurred_p := False\<rparr>) n"
    have ok: "method_ok valid (s\<lparr>ls_error_occurred_p := False\<rparr>) (\<lambda>bs. length bs \<le> n) ?r"
      using reader_ok [OF rd, of "s\<lparr>ls_error_occurred_p := False\<rparr>" n] True assms by (simp add: lstream_wf_def)
    have k: "keeps valid bm ?r" by (rule method_keeps [OF ok]) (use assms in simp)
    have v: "length bs \<le> n" if "?r = Some (Inr bs, t)" for bs t by (rule method_value [OF ok that])
    have f: "ls_in_buffer_size t = ls_in_buffer_size s" if "?r = Some (x, t)" for x t
      using ok that by (auto simp: method_ok_def meth_frame_sel)
    show ?thesis
    proof (cases ?r)
      case None
      then show ?thesis using True rd k by (simp add: Lstream_raw_read_def lbind_def)
    next
      case (Some p)
      obtain x t where p: "p = (x, t)" by fastforce
      have h: "lstream_wf valid bm t" "ls_in_buffer_size t = ls_in_buffer_size s" using k f Some p by auto
      show ?thesis
      proof (cases x)
        case (Inl e)
        then show ?thesis using True rd Some p h by (simp add: Lstream_raw_read_def lbind_def)
      next
        case (Inr bs)
        then have "length bs \<le> n" using v Some p by simp
        then show ?thesis using True rd Some p Inr h by (simp add: Lstream_raw_read_def lbind_def Let_def)
      qed
    qed
  qed
  then show "keeps valid bm (Lstream_raw_read imp n s)"
    and "Lstream_raw_read imp n s = Some (r, s') \<Longrightarrow> ls_in_buffer_size s' = ls_in_buffer_size s" by blast+
qed

lemma Lstream_raw_read_short: "Lstream_raw_read imp n s = Some (Inr (Some bs), s') \<Longrightarrow> length bs \<le> n"
  by (auto simp: Lstream_raw_read_def lbind_def Let_def split: if_splits option.splits sum.splits)

lemma Lstream_read_more_keeps:
  assumes "lstream_wf valid bm s"
  shows "keeps valid bm (Lstream_read_more imp s)"
proof -
  let ?k = "max 1 (ls_buffering_size s)"
  obtain b where b: "in_holds s b" using assms by (auto simp: lstream_wf_def)
  obtain m n where r: "DO_REALLOC (ls_in_buffer s) (ls_in_buffer_size s) ?k = (m, n)" by fastforce
  let ?s = "s\<lparr>ls_in_buffer := m, ls_in_buffer_size := n\<rparr>"
  have w: "lstream_wf valid bm ?s" using in_wf(1) [OF assms] in_holds_realloc(1) [OF b r] by blast
  have kn: "?k \<le> n" by (rule in_holds_realloc(3) [OF b r])
  have fill: "keeps valid bm (case mem_store (ls_in_buffer t) 0 bs of None \<Rightarrow> None
      | Some b \<Rightarrow> Some (Inr x, t\<lparr>ls_in_buffer := b, ls_in_buffer_current := length bs, ls_in_buffer_ind := 0\<rparr>))"
    if t: "lstream_wf valid bm t" "length bs \<le> ls_in_buffer_size t" for t :: "'d lstream" and bs and x :: "nat option"
  proof -
    obtain c where "in_holds t c" using t by (auto simp: lstream_wf_def)
    then have "length (ls_in_buffer t) = ls_in_buffer_size t" by (simp add: in_holds_def)
    from in_holds_fill [OF this t(2)] in_wf(2) [OF t(1)] show ?thesis by auto
  qed
  have "length (case x of None \<Rightarrow> [] | Some bs \<Rightarrow> bs) \<le> ls_in_buffer_size t" if "Lstream_raw_read imp ?k ?s = Some (Inr x, t)" for x t
  proof (cases x)
    case (Some bs)
    then have "length bs \<le> ?k" using that Lstream_raw_read_short by blast
    moreover have "ls_in_buffer_size t = n" using Lstream_raw_read_keeps(2) [OF w that] by simp
    moreover have "length bs \<le> n" using \<open>length bs \<le> ?k\<close> kn by (rule order_trans)
    ultimately show ?thesis using Some by simp
  qed simp
  then show ?thesis unfolding Lstream_read_more_def Let_def r prod.case
    by (intro keeps_lbind Lstream_raw_read_keeps(1) [OF w] fill)
qed

lemma read_loop_keeps:
  assumes "lstream_wf valid bm s"
  shows "keeps valid bm (read_loop imp sz acc s)"
  using assms
proof (induction "2 * sz + (if in_avail s = 0 then 1 else 0)" arbitrary: sz acc s rule: less_induct)
  case less
  show ?case
  proof (cases "sz = 0")
    case True
    then show ?thesis using less.prems by (subst read_loop.simps) simp
  next
    case sz: False
    show ?thesis
    proof (cases "ls_buffering s = LSTREAM_UNBUFFERED")
      case True
      have k: "keeps valid bm (Lstream_raw_read imp sz s)" by (rule Lstream_raw_read_keeps(1) [OF less.prems])
      have "keeps valid bm (read_loop imp (sz - length bs) (acc @ bs) (t\<lparr>ls_byte_count := ls_byte_count t + int (length bs)\<rparr>))"
        if "lstream_wf valid bm t" "bs \<noteq> []" for t bs
        by (rule less.hyps) (use that sz in \<open>simp_all add: read_loop_decreases\<close>)
      then show ?thesis using sz True k by (subst read_loop.simps) (auto split: option.splits sum.splits)
    next
      case False
      let ?k = "min sz (in_avail s)"
      let ?s = "s\<lparr>ls_in_buffer_ind := ls_in_buffer_ind s + ?k, ls_byte_count := ls_byte_count s + int ?k\<rparr>"
      obtain b where b: "in_holds s b" using less.prems by (auto simp: lstream_wf_def)
      have "?k \<le> length b" using in_holds_avail [OF b] by simp
      note mb = in_holds_bytes(1) [OF b this]
      have w: "lstream_wf valid bm ?s" using in_advance_wf [OF less.prems, of ?k] by simp
      have m: "keeps valid bm (Lstream_read_more imp ?s)" by (rule Lstream_read_more_keeps [OF w])
      have "keeps valid bm (read_loop imp (sz - ?k) (acc @ bs) t)"
        if "Lstream_read_more imp ?s = Some (Inr (Some n), t)" "n \<noteq> 0" for n t bs
      proof (rule less.hyps)
        show "lstream_wf valid bm t" using keepsD [OF m that(1)] .
        have "in_avail t = n" by (rule Lstream_read_more_avail [OF that(1)])
        then show "2 * (sz - ?k) + (if in_avail t = 0 then 1 else 0) < 2 * sz + (if in_avail s = 0 then 1 else 0)"
          using that(2) sz by (cases "in_avail s = 0") auto
      qed
      then show ?thesis using sz False m w mb
        by (subst read_loop.simps) (auto simp: Let_def split: option.splits sum.splits)
    qed
  qed
qed

lemma Lstream_read_1_keeps:
  assumes "lstream_wf valid bm s"
  shows "keeps valid bm (Lstream_read_1 imp sz override s)"
proof -
  obtain bs t where t: "take_ungot sz s = Some (bs, t)" "lstream_wf valid bm t" using take_ungot_wf [OF assms] by blast
  have fin: "keeps valid bm
      (if LSTR_NO_PARTIAL_CHARS (ls_flags u) \<and> \<not> override then
         (case validate_ibyte_string_backward cs of None \<Rightarrow> None | Some newoff \<Rightarrow>
            if newoff < length cs then
              (let before = ls_unget_character_count u in
               case Lstream_unread (drop newoff cs) u of None \<Rightarrow> None | Some s \<Rightarrow>
                 Some (Inr (if newoff = 0 \<and> error then None else Some (take newoff cs)),
                   s\<lparr>ls_unget_character_count := before\<rparr>))
            else Some (Inr (if cs = [] \<and> error then None else Some cs), u))
       else Some (Inr (if cs = [] \<and> error then None else Some cs), u))" if u: "lstream_wf valid bm u" for cs error u
  proof (cases "LSTR_NO_PARTIAL_CHARS (ls_flags u)")
    case True
    then have "\<not> bm" using u by (auto simp: lstream_wf_def)
    moreover have "keeps valid bm (case Lstream_unread ds u of None \<Rightarrow> None
        | Some s \<Rightarrow> Some (Inr x, s\<lparr>ls_unget_character_count := i\<rparr>))" for ds and x :: "byte list option" and i
      using Lstream_unread_wf [OF u, of ds] by auto
    ultimately show ?thesis using u by (simp add: Let_def split: option.split)
  qed (use u in simp)
  show ?thesis unfolding Lstream_read_1_def t(1) option.case prod.case
    using assms by (simp, intro impI keeps_lbind read_loop_keeps [OF t(2)]) (simp only: case_prod_beta fin)
qed

lemma Lstream_getc_keeps:
  assumes "lstream_wf valid bm s"
  shows "keeps valid bm (Lstream_getc imp s)"
proof -
  have swap: "s\<lparr>ls_byte_count := i, ls_unget_buffer_ind := n\<rparr> = (s\<lparr>ls_unget_buffer_ind := n\<rparr>)\<lparr>ls_byte_count := i\<rparr>"
    "s\<lparr>ls_byte_count := i, ls_in_buffer_ind := n\<rparr> = (s\<lparr>ls_in_buffer_ind := n\<rparr>)\<lparr>ls_byte_count := i\<rparr>" for i n by simp_all
  have 1: "keeps valid bm (Lstream_fgetc imp s)"
    unfolding Lstream_fgetc_def by (intro keeps_lbind Lstream_read_1_keeps [OF assms]) simp
  have 2: "\<exists>c. mem_read (ls_unget_buffer s) (ls_unget_buffer_ind s - 1) = Some c \<and>
      lstream_wf valid bm (s\<lparr>ls_unget_buffer_ind := ls_unget_buffer_ind s - 1\<rparr>)" if "0 < ls_unget_buffer_ind s"
  proof -
    obtain u where u: "unget_holds s u" using assms by (auto simp: lstream_wf_def)
    have "u \<noteq> []" using u that by (auto simp: unget_holds_def buf_holds_def)
    then obtain x v where x: "u = x # v" by (cases u) auto
    have "unget_holds (s\<lparr>ls_unget_buffer_ind := ls_unget_buffer_ind s - 1\<rparr>) v" using u x by (auto simp: unget_holds_def buf_holds_def)
    then have "lstream_wf valid bm (s\<lparr>ls_unget_buffer_ind := ls_unget_buffer_ind s - 1\<rparr>)"
      using assms by (auto simp: lstream_wf_def unget_holds_def in_holds_def out_holds_def)
    moreover have "mem_read (ls_unget_buffer s) (ls_unget_buffer_ind s - 1) = Some x"
      using u x by (auto simp: unget_holds_def buf_holds_def mem_read_def nth_append)
    ultimately show ?thesis by blast
  qed
  have 3: "\<exists>c. mem_read (ls_in_buffer s) (ls_in_buffer_ind s) = Some c \<and>
      lstream_wf valid bm (s\<lparr>ls_in_buffer_ind := ls_in_buffer_ind s + 1\<rparr>)" if lt: "ls_in_buffer_ind s < ls_in_buffer_current s"
  proof -
    obtain b where b: "in_holds s b" using assms by (auto simp: lstream_wf_def)
    have "b \<noteq> []" using b lt by (auto simp: in_holds_def)
    then obtain x v where x: "b = x # v" by (cases b) auto
    have "mem_read (ls_in_buffer s) (ls_in_buffer_ind s) = Some x" using b x by (auto simp: in_holds_def mem_read_def nth_append)
    moreover have "lstream_wf valid bm (s\<lparr>ls_in_buffer_ind := ls_in_buffer_ind s + 1\<rparr>)"
      by (rule in_advance_wf [OF assms]) (use lt in \<open>simp add: in_avail_def\<close>)
    ultimately show ?thesis by blast
  qed
  show ?thesis unfolding Lstream_getc_def swap using 1 2 3 by auto
qed

lemma get_ichar_rest_keeps: "lstream_wf valid False s \<Longrightarrow> keeps valid False (get_ichar_rest imp n str s)"
  by (induction n arbitrary: str s) (auto intro!: keeps_lbind Lstream_getc_keeps split: option.splits)

lemma Lstream_get_ichar_keeps: "lstream_wf valid False s \<Longrightarrow> keeps valid False (Lstream_get_ichar imp s)"
  by (auto simp: Lstream_get_ichar_def Lstream_get_ichar_1_def split: option.splits
      intro!: keeps_lbind Lstream_getc_keeps get_ichar_rest_keeps)

lemma Lstream_rewind_keeps:
  assumes "lstream_wf valid bm s"
  shows "keeps valid bm (Lstream_rewind imp s)"
proof (cases "im_rewinder imp")
  case (Some f)
  have k: "keeps valid bm (f t)" if "lstream_wf valid bm t" for t
    by (rule method_keeps [OF rewinder_ok [OF Some] that]) (use that in \<open>simp add: lstream_wf_def\<close>)
  show ?thesis unfolding Lstream_rewind_def Some option.case
    by (intro keeps_lbind Lstream_flush_keeps [OF assms]) (simp add: k)
qed (use assms in \<open>simp add: Lstream_rewind_def\<close>)

lemma Lstream_seek_from_end_keeps:
  assumes "lstream_wf valid bm s"
  shows "keeps valid bm (Lstream_seek_from_end imp i s)"
proof (cases "im_seek_from_end imp = None \<or> i \<ge> 0")
  case True
  then show ?thesis using assms by (auto simp: Lstream_seek_from_end_def split: option.splits)
next
  case False
  then obtain f where f: "im_seek_from_end imp = Some f" and i: "i < 0" by auto
  have k: "keeps valid bm (f t i)" if "lstream_wf valid bm t" for t
    by (rule method_keeps [OF seek_ok [OF f _ i] that]) (use that in \<open>simp add: lstream_wf_def\<close>)
  have "keeps valid bm (if r < 0 then Some (Inr False, t) else lbind (f t i) (\<lambda>result s.
      Some (Inr result, if result then s\<lparr>ls_byte_count := 0, ls_unget_character_count := 0\<rparr> else s)))"
    if "lstream_wf valid bm t" for r :: int and t
    using that by (auto intro!: keeps_lbind k)
  then show ?thesis unfolding Lstream_seek_from_end_def f option.case
    using assms by (auto intro!: keeps_lbind Lstream_flush_keeps [OF assms])
qed

lemma done_with_keeps: "keeps valid bm m \<Longrightarrow> keeps valid bm (done_with m)"
  unfolding done_with_def by (rule keeps_lbind) simp_all

lemma updated_keeps: "\<exists>t. m = Some t \<and> lstream_wf valid bm t \<Longrightarrow> keeps valid bm (updated m)"
  by (auto simp: updated_def)

lemma run_lstream_op_keeps:
  assumes wf: "lstream_wf valid bm s" and op: "bm \<longrightarrow> byte_op op"
  shows "keeps valid bm (run_lstream_op imp op s)"
proof (cases op)
  case Op_get_ichar
  then have "\<not> bm" using op by (auto simp: byte_op_def)
  then have "keeps valid bm (Lstream_get_ichar imp s)" using Lstream_get_ichar_keeps wf by (cases bm) auto
  then show ?thesis using Op_get_ichar by (simp add: done_with_keeps)
next
  case (Op_character_mode on)
  then have "bm \<longrightarrow> \<not> on" using op by (simp add: byte_op_def)
  then show ?thesis using Op_character_mode wf mode_ok [of "ls_flags s" "ls_data s" on]
    by (cases on) (auto simp: lstream_wf_def out_holds_def in_holds_def unget_holds_def Lstream_set_character_mode_def
        Lstream_unset_character_mode_def)
next
  case Op_pseudo_close
  then show ?thesis using wf Lstream_flush_keeps [OF wf] by (auto simp: Lstream_pseudo_close_def intro!: done_with_keeps)
qed (use wf in \<open>auto simp: Lstream_read_def intro!: done_with_keeps updated_keeps Lstream_write_keeps Lstream_write_with_extents_keeps
    Lstream_putc_keeps Lstream_put_ichar_keeps Lstream_flush_keeps Lstream_read_1_keeps Lstream_getc_keeps Lstream_rewind_keeps
    Lstream_seek_from_end_keeps Lstream_unread_wf Lstream_ungetc_wf Lstream_unget_ichar_wf\<close>)

lemma run_lstream_ops_wf:
  "lstream_wf valid bm s \<Longrightarrow> bm \<longrightarrow> list_all byte_op ops \<Longrightarrow>
    (bm \<longrightarrow> run_lstream_ops imp ops s \<noteq> None) \<and> (\<forall>s'. run_lstream_ops imp ops s = Some s' \<longrightarrow> lstream_wf valid bm s')"
proof (induction ops arbitrary: s)
  case (Cons op ops)
  have k: "keeps valid bm (run_lstream_op imp op s)" by (rule run_lstream_op_keeps) (use Cons.prems in auto)
  show ?case
  proof (cases "run_lstream_op imp op s")
    case (Some p)
    obtain r t where p: "p = (r, t)" by fastforce
    then have "lstream_wf valid bm t" using k Some by simp
    then show ?thesis using Cons.IH [of t] Cons.prems(2) Some p by simp
  qed (use k in auto)
qed simp

end

section \<open>The implementations\<close>

interpretation resizing_methods: lstream_methods lstream_resizing_buffer "\<lambda>f. rb_valid"
proof
  have w: "method_ok (\<lambda>f. rb_valid) s (\<lambda>k. 0 \<le> k \<and> k \<le> int (length bs)) (resizing_buffer_writer s bs)"
    if "rb_valid (ls_data s)" for s bs
  proof -
    let ?d = "ls_data s"
    obtain b n where r: "DO_REALLOC (rb_buf ?d) (rb_allocked ?d) (rb_stored ?d + length bs) = (b, n)" by fastforce
    note h = buf_holds_realloc [OF that [unfolded rb_valid_def] r]
    from buf_holds_store [OF h] obtain m where
      m: "mem_store b (rb_stored ?d) bs = Some m" "buf_holds m n (rb_stored ?d + length bs) (rb_contents ?d @ bs)" by blast
    have "rb_valid (?d\<lparr>rb_buf := m, rb_allocked := n, rb_stored := rb_stored ?d + length bs\<rparr>)"
      using rb_validI [of "?d\<lparr>rb_buf := m, rb_allocked := n, rb_stored := rb_stored ?d + length bs\<rparr>"] m(2) by simp
    then show ?thesis using r m(1) by (simp add: resizing_buffer_writer_def Let_def method_ok_result)
  qed
  show "method_ok (\<lambda>f. rb_valid) s (\<lambda>k. 0 \<le> k \<and> k \<le> int (length bs)) (writer s bs)"
    if "im_writer lstream_resizing_buffer = Some writer" "rb_valid (ls_data s)" for writer s bs
    using that w by (simp add: lstream_resizing_buffer_def)
  show "method_ok (\<lambda>f. rb_valid) s (\<lambda>k. True) (extents_writer s bs)"
    if "im_write_with_extents lstream_resizing_buffer = Some extents_writer" "rb_valid (ls_data s)" for extents_writer s bs
    using that w [of s bs] by (auto simp: lstream_resizing_buffer_def resizing_buffer_write_with_extents_def method_ok_def
        split: option.splits sum.splits)
  have "rb_valid ((ls_data s)\<lparr>rb_stored := 0\<rparr>)" if "rb_valid (ls_data s)" for s :: "resizing_buffer_stream lstream"
    using rb_validI [of "(ls_data s)\<lparr>rb_stored := 0\<rparr>" "[]"] buf_holds_reset [OF that [unfolded rb_valid_def]] by simp
  then show "method_ok (\<lambda>f. rb_valid) s (\<lambda>r. True) (rewinder s)"
    if "im_rewinder lstream_resizing_buffer = Some rewinder" "rb_valid (ls_data s)" for rewinder s
    using that by (auto simp: lstream_resizing_buffer_def resizing_buffer_rewinder_def intro!: method_ok_result)
qed (simp_all add: lstream_resizing_buffer_def no_methods_def)

text \<open>A fixed buffer stream reads from its input buffer or writes to its output buffer.\<close>

definition fb_sound :: "lstr_flags \<Rightarrow> fixed_buffer_stream \<Rightarrow> bool" where
  "fb_sound f d \<longleftrightarrow> fb_offset d \<le> fb_size d \<and> (LSTR_READ f \<longrightarrow> length (fb_inbuf d) = fb_size d \<and> list_all (\<lambda>c. c \<noteq> None) (fb_inbuf d)) \<and>
     (LSTR_WRITE f \<longrightarrow> length (fb_outbuf d) = fb_size d)"

lemma list_all_slice: "list_all P xs \<Longrightarrow> list_all P (take n (drop p xs))"
  by (auto simp: list_all_iff dest: in_set_takeD in_set_dropD)

interpretation fixed_methods: lstream_methods lstream_fixed_buffer fb_sound
proof
  show "method_ok fb_sound s (\<lambda>bs. length bs \<le> n) (reader s n)"
    if "im_reader lstream_fixed_buffer = Some reader" "fb_sound (ls_flags s) (ls_data s)" "LSTR_READ (ls_flags s)" for reader s n
  proof -
    let ?k = "min n (fb_size (ls_data s) - fb_offset (ls_data s))"
    have "mem_bytes (fb_inbuf (ls_data s)) (fb_offset (ls_data s)) ?k =
        Some (map the (take ?k (drop (fb_offset (ls_data s)) (fb_inbuf (ls_data s)))))"
      using that(2,3) by (auto simp: mem_bytes_def fb_sound_def Let_def intro!: list_all_slice)
    then show ?thesis using that
      by (auto simp: lstream_fixed_buffer_def fixed_buffer_reader_def Let_def fb_sound_def intro!: method_ok_result)
  qed
  show "method_ok fb_sound s (\<lambda>k. 0 \<le> k \<and> k \<le> int (length bs)) (writer s bs)"
    if "im_writer lstream_fixed_buffer = Some writer" "fb_sound (ls_flags s) (ls_data s)" "LSTR_WRITE (ls_flags s)" for writer s bs
  proof -
    let ?k = "min (length bs) (fb_size (ls_data s) - fb_offset (ls_data s))"
    have "\<exists>m. mem_store (fb_outbuf (ls_data s)) (fb_offset (ls_data s)) (take ?k bs) = Some m \<and> length m = fb_size (ls_data s)"
      using that(2,3) by (auto simp: mem_store_def mem_copy_def fb_sound_def)
    then show ?thesis using that
      by (auto simp: lstream_fixed_buffer_def fixed_buffer_writer_def Let_def fb_sound_def intro!: method_ok_result)
  qed
  show "method_ok fb_sound s (\<lambda>r. True) (rewinder s)"
    if "im_rewinder lstream_fixed_buffer = Some rewinder" "fb_sound (ls_flags s) (ls_data s)" for rewinder s
    using that by (auto simp: lstream_fixed_buffer_def fixed_buffer_rewinder_def fb_sound_def intro!: method_ok_result)
qed (simp_all add: lstream_fixed_buffer_def no_methods_def fb_sound_def)

text \<open>A string stream reads its part of a string that starts with the first byte of a character.\<close>

definition str_sound :: "lstr_flags \<Rightarrow> lisp_string_stream \<Rightarrow> bool" where
  "str_sound f d \<longleftrightarrow> str_offset d \<le> str_end d \<and> str_end d \<le> length (str_obj d) \<and> (str_obj d \<noteq> [] \<longrightarrow> ibyte_first_byte_p (hd (str_obj d)))"

lemma validate_ibyteptr_backward_exists:
  "bs \<noteq> [] \<Longrightarrow> ibyte_first_byte_p (hd bs) \<Longrightarrow> \<exists>q\<le>p. validate_ibyteptr_backward bs p = Some q"
proof (induction p)
  case 0
  then show ?case by (cases bs) (simp_all add: validate_ibyteptr_backward.simps)
next
  case (Suc p)
  then obtain q where "q \<le> p" "validate_ibyteptr_backward bs p = Some q" by auto
  then show ?case by (subst validate_ibyteptr_backward.simps) auto
qed

interpretation string_methods: lstream_methods lstream_lisp_string str_sound
proof
  show "method_ok str_sound s (\<lambda>bs. length bs \<le> n) (reader s n)"
    if "im_reader lstream_lisp_string = Some reader" "str_sound (ls_flags s) (ls_data s)" "LSTR_READ (ls_flags s)" for reader s n
  proof -
    let ?d = "ls_data s"
    let ?k = "\<lambda>q. min n (str_end ?d - q)"
    have d: "str_offset ?d \<le> str_end ?d" "str_end ?d \<le> length (str_obj ?d)" using that(2) by (simp_all add: str_sound_def)
    have b: "mem_bytes (map Some (str_obj ?d @ [0])) q (?k q) = Some (take (?k q) (drop q (str_obj ?d @ [0])))" if "q \<le> str_end ?d" for q
      by (rule mem_bytes_list) (use d that in simp)
    have r: "method_ok str_sound s (\<lambda>bs. length bs \<le> n)
        (method_result s (take (?k q) (drop q (str_obj ?d @ [0]))) False (?d\<lparr>str_offset := q + ?k q\<rparr>))" if "q \<le> str_offset ?d" for q
      using that d \<open>str_sound (ls_flags s) (ls_data s)\<close> by (intro method_ok_result) (auto simp: str_sound_def)
    have rd: "reader = lisp_string_reader" using that(1) by (simp add: lstream_lisp_string_def)
    show ?thesis
    proof (cases "LSTR_NO_PARTIAL_CHARS (ls_flags s)")
      case False
      then show ?thesis using b [of "str_offset ?d"] r [of "str_offset ?d"] d unfolding rd by (simp add: lisp_string_reader_def Let_def)
    next
      case True
      show ?thesis
      proof (cases "validate_ibyteptr_backward (str_obj ?d @ [0]) (str_offset ?d)")
        case None
        then show ?thesis using True d unfolding rd by (simp add: lisp_string_reader_def Let_def method_ok_def)
      next
        case (Some q)
        then have "q \<le> str_offset ?d" by (rule validate_ibyteptr_backward_le)
        then show ?thesis using Some True b [of q] r [of q] d unfolding rd by (simp add: lisp_string_reader_def Let_def)
      qed
    qed
  qed
  show "method_ok str_sound s (\<lambda>r. True) (rewinder s)"
    if "im_rewinder lstream_lisp_string = Some rewinder" "str_sound (ls_flags s) (ls_data s)" for rewinder s
  proof -
    let ?d = "ls_data s"
    have "ibyte_first_byte_p (hd (str_obj ?d @ [0]))"
      using that(2) by (cases "str_obj ?d") (simp_all add: str_sound_def ibyte_first_byte_p_def)
    from validate_ibyteptr_backward_exists [OF _ this] obtain q where
      "q \<le> min (if str_end ?d < str_init_offset ?d then str_end ?d else str_init_offset ?d) (length (str_obj ?d))"
      "validate_ibyteptr_backward (str_obj ?d @ [0])
         (min (if str_end ?d < str_init_offset ?d then str_end ?d else str_init_offset ?d) (length (str_obj ?d))) = Some q"
      by (metis append_is_Nil_conv list.distinct(1))
    then show ?thesis using that
      by (auto simp: lstream_lisp_string_def lisp_string_rewinder_def Let_def str_sound_def intro!: method_ok_result split: if_splits)
  qed
qed (simp_all add: lstream_lisp_string_def no_methods_def str_sound_def)

text \<open>C8: a new stream on an implementation that keeps the contract of its methods, through any sequence of
  operations other than closing, stays well formed: the recorded sizes of its three buffers are those of their blocks, the indices lie
  inside them, and the bytes below the indices are initialised.  When the operations read no characters and do not switch to
  character mode, every one of them comes to its end: none uses memory outside a buffer or bytes that
  are not initialised, and none fails an assertion.\<close>

theorem lstream_ops_type:
  assumes imp: "lstream_methods imp valid" and d: "valid (flags\<lparr>LSTR_IS_OPEN := True\<rparr>) d"
  shows "(\<not> LSTR_NO_PARTIAL_CHARS flags \<and> list_all byte_op ops \<longrightarrow> run_lstream_ops imp ops (Lstream_new flags d) \<noteq> None) \<and>
    (\<forall>s. run_lstream_ops imp ops (Lstream_new flags d) = Some s \<longrightarrow> (\<exists>b u c.
       buf_holds (ls_out_buffer s) (ls_out_buffer_size s) (ls_out_buffer_ind s) b \<and>
       buf_holds (ls_unget_buffer s) (ls_unget_buffer_size s) (ls_unget_buffer_ind s) u \<and>
       length (ls_in_buffer s) = ls_in_buffer_size s \<and> ls_in_buffer_current s = ls_in_buffer_ind s + length c \<and>
       ls_in_buffer_current s \<le> ls_in_buffer_size s \<and> mem_bytes (ls_in_buffer s) (ls_in_buffer_ind s) (length c) = Some c))"
proof (intro conjI allI impI)
  assume "\<not> LSTR_NO_PARTIAL_CHARS flags \<and> list_all byte_op ops"
  then show "run_lstream_ops imp ops (Lstream_new flags d) \<noteq> None"
    using lstream_methods.run_lstream_ops_wf [OF imp lstream_wf_new [of valid flags d True, OF d], of ops] by blast
next
  fix s
  assume "run_lstream_ops imp ops (Lstream_new flags d) = Some s"
  then have "lstream_wf valid False s"
    using lstream_methods.run_lstream_ops_wf [OF imp lstream_wf_new [of valid flags d False, OF d], of ops] by blast
  then obtain b c u where h: "out_holds s b" "in_holds s c" "unget_holds s u" by (auto simp: lstream_wf_def)
  have "ls_in_buffer_current s = ls_in_buffer_ind s + length c" "ls_in_buffer_current s \<le> ls_in_buffer_size s"
    using h(2) by (auto simp: in_holds_def)
  moreover have "length (ls_in_buffer s) = ls_in_buffer_size s" using h(2) by (simp add: in_holds_def)
  moreover have "mem_bytes (ls_in_buffer s) (ls_in_buffer_ind s) (length c) = Some c"
    using in_holds_bytes(1) [OF h(2), of "length c"] by simp
  ultimately show "\<exists>b u c. buf_holds (ls_out_buffer s) (ls_out_buffer_size s) (ls_out_buffer_ind s) b \<and>
      buf_holds (ls_unget_buffer s) (ls_unget_buffer_size s) (ls_unget_buffer_ind s) u \<and>
      length (ls_in_buffer s) = ls_in_buffer_size s \<and> ls_in_buffer_current s = ls_in_buffer_ind s + length c \<and>
      ls_in_buffer_current s \<le> ls_in_buffer_size s \<and> mem_bytes (ls_in_buffer s) (ls_in_buffer_ind s) (length c) = Some c"
    using h(1,3) by (auto simp: out_holds_def unget_holds_def)
qed

lemma lstream_ops_type_witness:
  "\<exists>s. run_lstream_ops lstream_resizing_buffer
      [Op_set_buffering LSTREAM_LINE_BUFFERED 0, Op_putc 65, Op_putc 0x0A, Op_write [66, 67], Op_unread [68], Op_getc, Op_rewind, Op_putc 69]
      (Lstream_new (no_flags\<lparr>LSTR_WRITE := True\<rparr>) \<lparr>rb_buf = [], rb_allocked = 0, rb_stored = 0\<rparr>) = Some s \<and>
    (\<exists>b. buf_holds (ls_out_buffer s) (ls_out_buffer_size s) (ls_out_buffer_ind s) b)"
proof -
  let ?ops = "[Op_set_buffering LSTREAM_LINE_BUFFERED 0, Op_putc 65, Op_putc 0x0A, Op_write [66, 67], Op_unread [68], Op_getc, Op_rewind, Op_putc 69]"
  let ?d = "\<lparr>rb_buf = [], rb_allocked = 0, rb_stored = 0\<rparr>"
  have "rb_valid ?d" by (simp add: rb_valid_def buf_holds_def rb_contents_def)
  note t = lstream_ops_type [OF resizing_methods.lstream_methods_axioms this, of "no_flags\<lparr>LSTR_WRITE := True\<rparr>" ?ops]
  have "\<not> LSTR_NO_PARTIAL_CHARS (no_flags\<lparr>LSTR_WRITE := True\<rparr>) \<and> list_all byte_op ?ops" by (simp add: no_flags_def byte_op_def)
  then obtain s where "run_lstream_ops lstream_resizing_buffer ?ops (Lstream_new (no_flags\<lparr>LSTR_WRITE := True\<rparr>) ?d) = Some s"
    using t by blast
  with t show ?thesis by blast
qed

end
