(* ===== verification/Spec2Isabelle.thy ===== *)
theory Spec2Isabelle
  imports Prelude Dynarr Gap_Array Range_Table Base64 Lisp_Object Linear_Probing Hash_Table
    Cons_Heap Sequence_Sort Sequence_Merge Coro_State Async_Scheduler Async_Invariant Async_Actors
    Mule_Text Buffer_Position Buffer_State Undo_List Buffer_Gap Buffer_Rep Buffer_Scan Buffer_Text
    Buffer_Edit Buffer_Insert Buffer_Delete Buffer_Frame Undo_Records Primitive_Undo
    Buffer_Replace Buffer_Quit Lstream Lstream_Text Lstream_Write Lstream_Types Lstream_Read
    Lstream_Sinks Lstream_Sources Lstream_Wf
begin

text \<open>
  A verification development for the C core of XEmacs (\<open>src/\<close>): the data structures that the editor is
  built on, and the parts of the Lisp run time that work on them.

  \<^bold>\<open>Parts of the program and theories.\<close>  Each theory models one component, with the names of the source.

  \<^item> \<open>Prelude\<close>: blocks of memory as lists of cells (\<open>None\<close> is an uninitialised cell), \<open>memmove\<close>,
    \<open>memcpy\<close> and \<open>xrealloc\<close> on them, and the locale \<open>editable_seq\<close>, the contract that Dynarrs and gap
    arrays share (read, write, insert, delete), which both interpret.
  \<^item> \<open>Dynarr\<close>: the dynamic arrays of \<open>src/array.h\<close> and \<open>src/array.c\<close>: header, capacity, growth,
    verification and locking.
  \<^item> \<open>Gap_Array\<close>: the gap arrays of the same files, with the gap in memory and the markers that every
    edit adjusts (\<open>do_marker_adjustment\<close> of \<open>src/insdel.c\<close>).
  \<^item> \<open>Range_Table\<close>: the range tables of \<open>src/rangetab.c\<close>, sorted arrays of ranges kept in a gap array:
    it is the client of \<open>Gap_Array\<close>, through which every entry is read and written.
  \<^item> \<open>Base64\<close>: the encoder and decoder of \<open>src/fns.c\<close> on strings.
  \<^item> \<open>Lisp_Object\<close>: tagged words and fixnum arithmetic of \<open>src/lisp-disunion.h\<close>, \<open>equal\<close> and its hash
    function (\<open>internal_equal\<close>, \<open>internal_hash\<close>).
  \<^item> \<open>Linear_Probing\<close>: the loops of \<open>src/elhash.c\<close> over an array of entries, for any hash and test
    (locale \<open>probing\<close>); \<open>Hash_Table\<close>: hash tables, their growth and their Lisp functions, with the
    tests \<open>eq\<close>, \<open>eql\<close> and \<open>equal\<close> of \<open>Lisp_Object\<close> as interpretations.
  \<^item> \<open>Cons_Heap\<close>: conses in memory, the accessors with their errors, and the macros of \<open>src/lisp.h\<close>
    that walk a list with a tortoise behind the hare.
  \<^item> \<open>Sequence_Sort\<close> and \<open>Sequence_Merge\<close>: the merges and merge sorts of \<open>src/sequence.c\<close>, on conses
    in \<open>Cons_Heap\<close> and on arrays in memory, for any comparison that may signal an error.
  \<^item> \<open>Coro_State\<close>: what the switch between coroutines of \<open>src/async-scheduler.c\<close> does to dynamic
    bindings and to the chain of condition handlers.
  \<^item> \<open>Async_Scheduler\<close>: the scheduler itself (\<open>src/async-scheduler.c\<close>): the table of coroutines, spawning,
    yielding, resuming, actors, joins, monitors and the tick; \<open>Async_Invariant\<close> has its invariant, and
    \<open>Async_Actors\<close> the theorems about ticks, messages, timeouts, errors and results.
  \<^item> \<open>Mule_Text\<close>: the internal format of text (\<open>src/text.c\<close>, \<open>src/text.h\<close>): characters of one to four bytes, and the
    counting functions between bytes and characters with their scans of whole words.
  \<^item> \<open>Buffer_Position\<close> and \<open>Buffer_Gap\<close>: the text of a buffer as one block of memory with a gap
    (\<open>src/buffer.h\<close>, \<open>src/insdel.c\<close>), the caches of known positions, the conversions between
    character, byte and memory positions, moving and growing the gap.
  \<^item> \<open>Buffer_State\<close>: a text with the base buffer and the indirect buffers that share it: points,
    restrictions, markers, change hooks (a log of the calls), multiple changes.  \<open>Buffer_Scan\<close>: the search for a
    character.  \<open>Buffer_Text\<close>: insertion, deletion and replacement (\<open>src/insdel.c\<close>).  \<open>Undo_List\<close> and
    \<open>Primitive_Undo\<close>: the records of \<open>src/undo.c\<close> and their replay.
  \<^item> \<open>Buffer_Rep\<close> has the representation relation between these states and a list of characters; \<open>Buffer_Edit\<close>,
    \<open>Buffer_Insert\<close>, \<open>Buffer_Delete\<close>, \<open>Buffer_Frame\<close>, \<open>Buffer_Replace\<close>, \<open>Undo_Records\<close> and \<open>Buffer_Quit\<close> the
    theorems: an edit of the buffer is the edit of the list, in the base buffer and in every indirect one,
    undoing edits gives the old text back in buffers without restriction, and a quit in a deletion leaves a wrong record.
  \<^item> \<open>Lstream\<close>: the buffering streams of \<open>src/lstream.c\<close> and \<open>src/lstream.h\<close>; \<open>Lstream_Types\<close>: their implementations on
    fixed and resizing buffers, Dynarrs (of \<open>Dynarr\<close>), Lisp strings and file descriptors, these with the retrying
    system calls of \<open>src/sysdep.c\<close> (\<open>retry_read\<close>, \<open>retry_write\<close>, \<open>write_allowing_quit\<close>).  The methods of an implementation
    are the interface: \<open>Lstream_Write\<close> and \<open>Lstream_Read\<close> state their contracts as the locales
    \<open>lstream_sink\<close> and \<open>lstream_source\<close> and prove what the buffering layer does for any implementation; \<open>Lstream_Sinks\<close>
    and \<open>Lstream_Sources\<close> interpret them and have the theorems; \<open>Lstream_Wf\<close> has the types of the buffers and the safety of
    their memory through all operations, with the locale \<open>lstream_methods\<close>; \<open>Lstream_Text\<close> the facts on memory and on text cut at any byte.

  \<^bold>\<open>Conventions.\<close>  A C struct is a record with the fields' names; memory that is shared is an explicit
  store.  \<open>None\<close> is an assertion failure, an abort or an access to memory that is not there; a Lisp error
  is the \<open>Inl\<close> of a sum.  A loop that the source does not bound is a \<open>partial_function\<close> over
  \<open>option\<close>, where \<open>None\<close> is also the value of a loop that never ends: that such a loop does end is part
  of every theorem that gives its result.  The only fuel is in \<open>read_ichars\<close>, which reads a stream to its end and is given more than the
  number of its characters; it is not code of the program.  Words are kept at the width of the
  source where wrap-around matters (hash codes, fixnums, base64 bytes); sizes and indices are natural
  numbers, under the assumption that memory is smaller than the address space.

  \<^bold>\<open>What the lemmas show.\<close>  For each container: a representation invariant, its preservation by every
  operation, and the effect of the operation on the abstract value (a list, a finite map, a function from
  integers to values), so that each Lisp function is a functional refinement.  For the loops:
  termination, and the exact result on every input including malformed and circular lists.  Theorems that
  state a defect of the code (for example \<open>puthash_without_growth_hangs\<close>) are about the definitions that
  the other theorems are about.

  \<^bold>\<open>Parameters.\<close>  The floating point unit (growth of hash tables) is the record \<open>fpu\<close>; the bignum
  library is the argument of the functions that call it; the comparison function of a sort is the
  argument \<open>check_merge\<close>, since it may be any Lisp function; the system calls on file descriptors, and whether
  \<open>QUIT\<close> signals between them, are the record \<open>os_calls\<close>, and what they promise are the predicates \<open>os_sends\<close> and
  \<open>os_receives\<close>, which also say that a call is interrupted or takes nothing only finitely often in a row; what Lisp code a
  coroutine runs is the argument \<open>call1\<close> of the tick.

  \<^bold>\<open>Bounds.\<close>  The theorems on buffers hold for texts of less than \<open>2 ^ 30\<close> bytes, since the code computes
  the gap size in an \<open>int\<close>; those on streams for writes of less than \<open>2 ^ 31\<close> bytes, since \<open>Lstream_really_write\<close>
  takes its size as an \<open>int\<close>; those on Dynarrs as long as the doubled size fits into a \<open>size_t\<close>.

  \<^bold>\<open>Not modelled.\<close>  Code that talks to window systems, toolkits, the operating system or libraries
  (redisplay, events, glyphs, processes, files, sound), memory management and dumping, the reader and
  the printer, the byte code interpreter and the rest of the evaluator.  Objects in a dumped image, and the \<open>QUIT\<close> of \<open>internal_equal\<close>.  Of buffers: extents, the cache of line
  numbers, the counts of characters of 8 and 16 bits, the assertion that a given count of characters is right, the flag
  \<open>inside_undo\<close>, file locking, fixed-width formats and the configuration with Unicode as internal format; what the
  Lisp functions on change hooks do (their calls are recorded).  Of streams: stdio files, TLS, coding systems and
  streams on buffers.  Symbols whose value is magic are
  not modelled in \<open>Coro_State\<close>; a coroutine that throws to a catch of its spawner has no result in \<open>Async_Scheduler\<close>; no
  two threads exist.
\<close>

end
